(* ===== verification/Prelude.thy ===== *)
theory Prelude
  imports Main "HOL-Library.Word" "HOL-Library.Signed_Division"
begin

unbundle bit_operations_syntax

text \<open>
  Shared vocabulary of the development.

  The Rust crate is modelled as its checked build: an overflowing \<open>+\<close>/\<open>-\<close> on \<open>usize\<close>, a failed
  \<open>assert!\<close> or \<open>debug_assert!\<close>, an index out of bounds and an explicit \<open>panic!\<close> all stop the VM.
  A function that can stop returns \<open>vm_panic + 'a\<close>: \<open>Inl\<close> is the stop, \<open>Inr\<close> the value. Where the
  model returns \<open>Inr v\<close>, the release build computes the same \<open>v\<close>, since none of the checks fired.
  A Rust \<open>Option\<close> is an \<open>option\<close>. Machine words that are taken apart bit by bit (\<open>u64\<close>, \<open>u32\<close>,
  \<open>u8\<close>) are \<open>word\<close>s; addresses, lengths and indices (\<open>usize\<close>) are \<open>nat\<close> with the bound
  \<open>usize_max\<close> and the underflow test written out.
\<close>

section \<open>Types of the model\<close>

type_synonym u8 = "8 word"
type_synonym u16 = "16 word"
type_synonym u32 = "32 word"
type_synonym u64 = "64 word"

datatype vm_panic =
    Arith_overflow      \<comment> \<open>checked-build overflow or underflow of a machine integer\<close>
  | Assert_failed       \<comment> \<open>\<open>assert!\<close> or \<open>debug_assert!\<close>\<close>
  | Index_out_of_bounds
  | Explicit_panic      \<comment> \<open>\<open>panic!\<close>, \<open>unreachable!\<close>, \<open>expect\<close> or \<open>unwrap\<close> on the wrong variant\<close>

type_synonym 'a res = "vm_panic + 'a"

section \<open>Checked computations\<close>

definition rbind :: "'e + 'a \<Rightarrow> ('a \<Rightarrow> 'e + 'b) \<Rightarrow> 'e + 'b" where
  "rbind r f = (case r of Inl e \<Rightarrow> Inl e | Inr a \<Rightarrow> f a)"

fun res_map :: "('a \<Rightarrow> 'b res) \<Rightarrow> 'a list \<Rightarrow> 'b list res" where
  "res_map f [] = Inr []"
| "res_map f (x # xs) = rbind (f x) (\<lambda>y. rbind (res_map f xs) (\<lambda>ys. Inr (y # ys)))"

definition guard_res :: "bool \<Rightarrow> 'e \<Rightarrow> 'e + 'a \<Rightarrow> 'e + 'a" where
  "guard_res c e r = (if c then r else Inl e)"

text \<open>A computation that may also never return: \<open>None\<close> is divergence.\<close>

definition cbind :: "('e + 'a) option \<Rightarrow> ('a \<Rightarrow> ('e + 'b) option) \<Rightarrow> ('e + 'b) option" where
  "cbind c f = (case c of None \<Rightarrow> None | Some (Inl e) \<Rightarrow> Some (Inl e) | Some (Inr a) \<Rightarrow> f a)"

abbreviation returns :: "'a \<Rightarrow> ('e + 'a) option" where
  "returns a \<equiv> Some (Inr a)"

abbreviation is_ok :: "'e + 'a \<Rightarrow> bool" where
  "is_ok r \<equiv> \<not> isl r"

section \<open>Machine-sized naturals and integers\<close>

abbreviation usize_max :: nat where
  "usize_max \<equiv> 2 ^ 64 - 1"

definition usub :: "nat \<Rightarrow> nat \<Rightarrow> nat res" where
  "usub a b = (if b \<le> a then Inr (a - b) else Inl Arith_overflow)"

definition uadd :: "nat \<Rightarrow> nat \<Rightarrow> nat res" where
  "uadd a b = (if a + b \<le> usize_max then Inr (a + b) else Inl Arith_overflow)"

definition i64_as_usize :: "int \<Rightarrow> nat" where
  "i64_as_usize v = nat (v mod 2 ^ 64)"

definition expect :: "'a option \<Rightarrow> 'a res" where
  "expect x = (case x of None \<Rightarrow> Inl Explicit_panic | Some a \<Rightarrow> Inr a)"

definition checked_add_usize :: "nat \<Rightarrow> nat \<Rightarrow> nat option" where
  "checked_add_usize a b = (if a + b \<le> usize_max then Some (a + b) else None)"

definition i64_range :: "int \<Rightarrow> bool" where
  "i64_range v \<longleftrightarrow> - (2 ^ 63) \<le> v \<and> v < 2 ^ 63"

definition checked_i64 :: "int \<Rightarrow> int option" where
  "checked_i64 v = (if i64_range v then Some v else None)"

section \<open>Proof collections\<close>

named_theorems word_fields \<open>laws of packed machine-word fields\<close>
named_theorems res_simps \<open>evaluation of checked (panicking) computations\<close>
named_theorems inv_intros \<open>operations preserve their component's invariant\<close>

section \<open>Generic lemmas\<close>

lemma rbind_simps [simp, res_simps]:
  "rbind (Inl e) f = Inl e"
  "rbind (Inr a) f = f a"
  by (simp_all add: rbind_def)

lemma cbind_simps [simp, res_simps]:
  "cbind None f = None"
  "cbind (Some (Inl e)) f = Some (Inl e)"
  "cbind (Some (Inr a)) f = f a"
  by (simp_all add: cbind_def)

lemma cbind_mono [partial_function_mono]:
  assumes "mono_option B" and "\<And>y. mono_option (\<lambda>f. C y f)"
  shows "mono_option (\<lambda>f. cbind (B f) (\<lambda>y. C y f))"
proof (rule monotoneI)
  fix f g :: "'a \<Rightarrow> 'b option" assume fg: "fun_ord option_ord f g"
  have "option_ord (B f) (B g)" using assms(1) fg by (rule monotoneD [of _ _ _ f g])
  moreover have "option_ord (C y f) (C y g)" for y using assms(2) fg by (rule monotoneD [of _ _ _ f g])
  ultimately
  show "option_ord (cbind (B f) (\<lambda>y. C y f)) (cbind (B g) (\<lambda>y. C y g))"
    by (cases "B f"; cases "B g") (auto simp: cbind_def flat_ord_def split: sum.splits)
qed

lemma rbind_Inr_iff [res_simps]: "rbind r f = Inr b \<longleftrightarrow> (\<exists>a. r = Inr a \<and> f a = Inr b)"
  by (cases r) simp_all

lemma rbind_assoc: "rbind (rbind r f) g = rbind r (\<lambda>a. rbind (f a) g)"
  by (cases r) simp_all

lemma res_map_Inr_iff: "res_map f xs = Inr ys \<longleftrightarrow> length ys = length xs \<and> (\<forall>i < length xs. f (xs ! i) = Inr (ys ! i))"
proof (induction xs arbitrary: ys)
  case (Cons x xs)
  have "res_map f (x # xs) = Inr ys \<longleftrightarrow> (\<exists>y ys'. f x = Inr y \<and> res_map f xs = Inr ys' \<and> ys = y # ys')"
    by (auto simp: rbind_Inr_iff)
  also have "\<dots> \<longleftrightarrow> (\<exists>y ys'. ys = y # ys' \<and> length ys' = length xs \<and>
      (\<forall>i < Suc (length xs). f ((x # xs) ! i) = Inr ((y # ys') ! i)))"
    using Cons.IH by (auto simp: All_less_Suc2)
  also have "\<dots> \<longleftrightarrow> length ys = length (x # xs) \<and> (\<forall>i < length (x # xs). f ((x # xs) ! i) = Inr (ys ! i))"
    by (cases ys) auto
  finally show ?case .
qed auto

lemma is_okE:
  assumes "is_ok r"
  obtains a where "r = Inr a"
  using assms by (cases r) simp_all

lemma guard_res_simps [simp, res_simps]:
  "guard_res True e r = r"
  "guard_res False e r = Inl e"
  by (simp_all add: guard_res_def)

lemma guard_res_Inr_iff [res_simps]: "guard_res c e r = Inr a \<longleftrightarrow> c \<and> r = Inr a"
  by (simp add: guard_res_def)

lemma usub_Inr_iff [res_simps]: "usub a b = Inr c \<longleftrightarrow> b \<le> a \<and> c = a - b"
  by (auto simp: usub_def)

lemma usub_le [simp]: "b \<le> a \<Longrightarrow> usub a b = Inr (a - b)"
  by (simp add: usub_def)

lemma uadd_Inr_iff [res_simps]: "uadd a b = Inr c \<longleftrightarrow> a + b \<le> usize_max \<and> c = a + b"
  by (auto simp: uadd_def)

lemma expect_Inr_iff [res_simps]: "expect x = Inr a \<longleftrightarrow> x = Some a"
  by (cases x) (simp_all add: expect_def)

lemma expect_simps [simp]: "expect (Some a) = Inr a" "expect None = Inl Explicit_panic"
  by (simp_all add: expect_def)

lemma i64_as_usize_nonneg [simp]: "0 \<le> v \<Longrightarrow> v < 2 ^ 64 \<Longrightarrow> i64_as_usize v = nat v"
  by (simp add: i64_as_usize_def)

lemma u64_eq_iff: "(v :: u64) = w \<longleftrightarrow> (\<forall>n < 64. bit v n = bit w n)"
  by (simp add: bit_eq_iff)

end
