(* ===== verification/Oops.thy ===== *)
theory Oops
  imports Prelude
begin

unbundle bit_operations_syntax

text \<open>
  Tagged object references, small integers and mark words (\<open>src/src/oops/mod.rs\<close>, \<open>smi.rs\<close>,
  \<open>mark.rs\<close> and the constants of \<open>layout.rs\<close>).

  An \<open>Oop\<close> and a \<open>Mark\<close> are transparent wrappers of one \<open>u64\<close>; both are a \<^typ>\<open>u64\<close> here. An
  \<open>i64\<close> is an \<^typ>\<open>int\<close>: a cast \<open>v as u64\<close> is \<^const>\<open>word_of_int\<close>, a cast back is \<^const>\<open>sint\<close>,
  and Rust's \<open>checked_add\<close>, \<open>checked_sub\<close>, \<open>checked_mul\<close> test the exact result against the
  64-bit range.
\<close>

section \<open>Layout constants\<close>

definition TAG_MASK :: u64 where "TAG_MASK = 3"
definition INT_TAG :: u64 where "INT_TAG = 0"
definition MEM_TAG :: u64 where "MEM_TAG = 1"
definition RESERVED_TAG :: u64 where "RESERVED_TAG = 2"
definition MARK_TAG :: u64 where "MARK_TAG = 3"
definition SMI_SHIFT :: nat where "SMI_SHIFT = 2"
definition SMI_MAX :: int where "SMI_MAX = 2 ^ 61 - 1"
definition SMI_MIN :: int where "SMI_MIN = - (2 ^ 61)"
definition NLR_SENTINEL :: u64 where "NLR_SENTINEL = 6"
definition PRIM_FAIL_SENTINEL :: u64 where "PRIM_FAIL_SENTINEL = 10"
definition POISON :: u64 where "POISON = 0xF0F0F0F0F0F0F0F3"
definition WORD_SIZE :: nat where "WORD_SIZE = 8"

definition MARK_SENTINEL_SHIFT :: nat where "MARK_SENTINEL_SHIFT = 2"
definition MARK_NEAR_DEATH_SHIFT :: nat where "MARK_NEAR_DEATH_SHIFT = 3"
definition MARK_TAGGED_CONTENTS_SHIFT :: nat where "MARK_TAGGED_CONTENTS_SHIFT = 4"
definition MARK_AGE_SHIFT :: nat where "MARK_AGE_SHIFT = 5"
definition MARK_AGE_BITS :: nat where "MARK_AGE_BITS = 7"
definition MARK_AGE_MAX :: u8 where "MARK_AGE_MAX = 127"
definition MARK_HASH_SHIFT :: nat where "MARK_HASH_SHIFT = 12"
definition MARK_HASH_BITS :: nat where "MARK_HASH_BITS = 32"
definition MARK_GC_MARK_SHIFT :: nat where "MARK_GC_MARK_SHIFT = 44"

definition MARK_SENTINEL_MASK :: u64 where "MARK_SENTINEL_MASK = push_bit MARK_SENTINEL_SHIFT 1"
definition MARK_NEAR_DEATH_MASK :: u64 where "MARK_NEAR_DEATH_MASK = push_bit MARK_NEAR_DEATH_SHIFT 1"
definition MARK_TAGGED_CONTENTS_MASK :: u64 where
  "MARK_TAGGED_CONTENTS_MASK = push_bit MARK_TAGGED_CONTENTS_SHIFT 1"
definition MARK_AGE_MASK :: u64 where
  "MARK_AGE_MASK = push_bit MARK_AGE_SHIFT (push_bit MARK_AGE_BITS 1 - 1)"
definition MARK_HASH_MASK :: u64 where
  "MARK_HASH_MASK = push_bit MARK_HASH_SHIFT (push_bit MARK_HASH_BITS 1 - 1)"
definition MARK_GC_MARK_MASK :: u64 where "MARK_GC_MARK_MASK = push_bit MARK_GC_MARK_SHIFT 1"
definition MARK_PRISTINE :: u64 where "MARK_PRISTINE = MARK_TAG OR MARK_SENTINEL_MASK"

section \<open>Oops\<close>

type_synonym oop = u64

definition oop_from_raw :: "u64 \<Rightarrow> oop res" where
  "oop_from_raw w =
     guard_res (w AND TAG_MASK \<noteq> RESERVED_TAG) Assert_failed
       (guard_res (w AND TAG_MASK \<noteq> MARK_TAG) Assert_failed (Inr w))"

definition oop_tag :: "oop \<Rightarrow> u64" where
  "oop_tag w = w AND TAG_MASK"

definition is_smi :: "oop \<Rightarrow> bool" where
  "is_smi w \<longleftrightarrow> oop_tag w = INT_TAG"

definition is_mem :: "oop \<Rightarrow> bool" where
  "is_mem w \<longleftrightarrow> oop_tag w = MEM_TAG"

definition mem_addr :: "oop \<Rightarrow> nat res" where
  "mem_addr w = guard_res (is_mem w) Assert_failed (Inr (unat (w - MEM_TAG)))"

section \<open>Small integers\<close>

definition smi_try_new :: "int \<Rightarrow> oop option" where
  "smi_try_new v =
     (if \<not> (SMI_MIN \<le> v \<and> v \<le> SMI_MAX) then None
      else Some (push_bit SMI_SHIFT (word_of_int v)))"

definition smi_new :: "int \<Rightarrow> oop res" where
  "smi_new v = (case smi_try_new v of None \<Rightarrow> Inl Explicit_panic | Some s \<Rightarrow> Inr s)"

definition smi_value :: "oop \<Rightarrow> int" where
  "smi_value w = sint (signed_drop_bit SMI_SHIFT w)"

definition smi_try_from :: "oop \<Rightarrow> oop option" where
  "smi_try_from w = (if is_smi w then Some w else None)"

definition smi_checked_add :: "oop \<Rightarrow> oop \<Rightarrow> oop option" where
  "smi_checked_add a b = Option.bind (checked_i64 (smi_value a + smi_value b)) smi_try_new"

definition smi_checked_sub :: "oop \<Rightarrow> oop \<Rightarrow> oop option" where
  "smi_checked_sub a b = Option.bind (checked_i64 (smi_value a - smi_value b)) smi_try_new"

definition smi_checked_mul :: "oop \<Rightarrow> oop \<Rightarrow> oop option" where
  "smi_checked_mul a b = Option.bind (checked_i64 (smi_value a * smi_value b)) smi_try_new"

definition floor_div :: "int \<Rightarrow> int \<Rightarrow> int" where
  "floor_div a b =
     (let q = a sdiv b; r = a smod b
      in if r \<noteq> 0 \<and> (r < 0) \<noteq> (b < 0) then q - 1 else q)"

definition floor_mod :: "int \<Rightarrow> int \<Rightarrow> int" where
  "floor_mod a b =
     (let r = a smod b
      in if r \<noteq> 0 \<and> (r < 0) \<noteq> (b < 0) then r + b else r)"

definition smi_checked_div :: "oop \<Rightarrow> oop \<Rightarrow> oop option" where
  "smi_checked_div s t =
     (let a = smi_value s; b = smi_value t
      in if b = 0 then None else smi_try_new (floor_div a b))"

definition smi_checked_rem :: "oop \<Rightarrow> oop \<Rightarrow> oop option" where
  "smi_checked_rem s t =
     (let a = smi_value s; b = smi_value t
      in if b = 0 then None else smi_try_new (floor_mod a b))"

definition smi_checked_shl :: "oop \<Rightarrow> u32 \<Rightarrow> oop option" where
  "smi_checked_shl s n =
     (if 64 \<le> unat n then None
      else let shifted = signed_take_bit 127 (push_bit (unat n) (smi_value s))
           in if shifted > SMI_MAX \<or> shifted < SMI_MIN then None
              else smi_try_new (signed_take_bit 63 shifted))"

section \<open>Mark words\<close>

type_synonym mark = u64

definition mark_pristine :: mark where
  "mark_pristine = MARK_PRISTINE"

definition mark_from_word :: "u64 \<Rightarrow> mark res" where
  "mark_from_word w =
     guard_res (w AND TAG_MASK = MARK_TAG) Assert_failed
       (guard_res (w AND MARK_SENTINEL_MASK \<noteq> 0) Assert_failed (Inr w))"

definition mark_age :: "mark \<Rightarrow> u8" where
  "mark_age w = ucast (drop_bit MARK_AGE_SHIFT (w AND MARK_AGE_MASK))"

definition mark_with_age :: "mark \<Rightarrow> u8 \<Rightarrow> mark res" where
  "mark_with_age w age =
     guard_res (age \<le> MARK_AGE_MAX) Assert_failed
       (Inr ((w AND NOT MARK_AGE_MASK) OR push_bit MARK_AGE_SHIFT (ucast age)))"

definition mark_hash :: "mark \<Rightarrow> u32" where
  "mark_hash w = ucast (drop_bit MARK_HASH_SHIFT (w AND MARK_HASH_MASK))"

definition mark_with_hash :: "mark \<Rightarrow> u32 \<Rightarrow> mark" where
  "mark_with_hash w h = (w AND NOT MARK_HASH_MASK) OR push_bit MARK_HASH_SHIFT (ucast h)"

definition mark_near_death :: "mark \<Rightarrow> bool" where
  "mark_near_death w \<longleftrightarrow> w AND MARK_NEAR_DEATH_MASK \<noteq> 0"

definition mark_with_near_death :: "mark \<Rightarrow> bool \<Rightarrow> mark" where
  "mark_with_near_death w v =
     (if v then w OR MARK_NEAR_DEATH_MASK else w AND NOT MARK_NEAR_DEATH_MASK)"

definition mark_tagged_contents :: "mark \<Rightarrow> bool" where
  "mark_tagged_contents w \<longleftrightarrow> w AND MARK_TAGGED_CONTENTS_MASK \<noteq> 0"

definition mark_with_tagged_contents :: "mark \<Rightarrow> bool \<Rightarrow> mark" where
  "mark_with_tagged_contents w v =
     (if v then w OR MARK_TAGGED_CONTENTS_MASK else w AND NOT MARK_TAGGED_CONTENTS_MASK)"

definition mark_gc_mark :: "mark \<Rightarrow> bool" where
  "mark_gc_mark w \<longleftrightarrow> w AND MARK_GC_MARK_MASK \<noteq> 0"

definition mark_with_gc_mark :: "mark \<Rightarrow> bool \<Rightarrow> mark" where
  "mark_with_gc_mark w v =
     (if v then w OR MARK_GC_MARK_MASK else w AND NOT MARK_GC_MARK_MASK)"

definition mark_is_pristine :: "mark \<Rightarrow> bool" where
  "mark_is_pristine w \<longleftrightarrow> w = MARK_PRISTINE"

definition word_is_forwarded :: "u64 \<Rightarrow> bool" where
  "word_is_forwarded w \<longleftrightarrow> w AND TAG_MASK = MEM_TAG"

definition forwardee :: "u64 \<Rightarrow> oop res" where
  "forwardee w = guard_res (word_is_forwarded w) Assert_failed (Inr w)"


section \<open>The abstract mark\<close>

text \<open>What a mark word means: its fields, read as one record.\<close>

record mark_fields =
  mf_age :: u8
  mf_hash :: u32
  mf_near_death :: bool
  mf_tagged_contents :: bool
  mf_gc_mark :: bool
  mf_header :: u64

definition mark_view :: "mark \<Rightarrow> mark_fields" where
  "mark_view w =
     \<lparr>mf_age = mark_age w, mf_hash = mark_hash w, mf_near_death = mark_near_death w,
      mf_tagged_contents = mark_tagged_contents w, mf_gc_mark = mark_gc_mark w, mf_header = w AND 7\<rparr>"

section \<open>Constants evaluated\<close>

lemmas tag_defs = TAG_MASK_def INT_TAG_def MEM_TAG_def RESERVED_TAG_def MARK_TAG_def

lemma mark_mask_values:
  "MARK_SENTINEL_MASK = 0x4" "MARK_NEAR_DEATH_MASK = 0x8" "MARK_TAGGED_CONTENTS_MASK = 0x10"
  "MARK_AGE_MASK = 0xFE0" "MARK_HASH_MASK = 0xFFFFFFFF000" "MARK_GC_MARK_MASK = 0x100000000000"
  "MARK_PRISTINE = 7"
  by (simp_all add: MARK_SENTINEL_MASK_def MARK_SENTINEL_SHIFT_def
      MARK_NEAR_DEATH_MASK_def MARK_NEAR_DEATH_SHIFT_def
      MARK_TAGGED_CONTENTS_MASK_def MARK_TAGGED_CONTENTS_SHIFT_def
      MARK_AGE_MASK_def MARK_AGE_SHIFT_def MARK_AGE_BITS_def
      MARK_HASH_MASK_def MARK_HASH_SHIFT_def MARK_HASH_BITS_def
      MARK_GC_MARK_MASK_def MARK_GC_MARK_SHIFT_def MARK_PRISTINE_def MARK_TAG_def)

lemma mark_mask_masks:
  "MARK_AGE_MASK = push_bit 5 (mask 7)" "MARK_HASH_MASK = push_bit 12 (mask 32)"
  by (simp_all add: mark_mask_values mask_eq_exp_minus_1)

section \<open>Small-integer arithmetic\<close>

lemma smi_range_i64: "SMI_MIN \<le> v \<Longrightarrow> v \<le> SMI_MAX \<Longrightarrow> i64_range v"
  by (simp add: SMI_MIN_def SMI_MAX_def i64_range_def)

lemma smi_value_bits: "smi_value w = sint w div 4"
  by (simp add: smi_value_def SMI_SHIFT_def sint_signed_drop_bit_eq drop_bit_eq_div)

lemma take_bit_word_eq_0_sint: "take_bit 2 (w :: u64) = 0 \<longleftrightarrow> take_bit 2 (sint w) = 0"
  by (auto simp: bit_eq_iff bit_take_bit_iff bit_sint_iff min_def)

lemma tag_zero_iff: "is_smi w \<longleftrightarrow> 4 dvd sint w"
proof -
  have "is_smi w \<longleftrightarrow> take_bit 2 w = 0"
    by (simp add: is_smi_def oop_tag_def tag_defs take_bit_eq_mask mask_eq_exp_minus_1)
  also have "\<dots> \<longleftrightarrow> take_bit 2 (sint w) = 0"
    by (simp add: take_bit_word_eq_0_sint)
  also have "\<dots> \<longleftrightarrow> 4 dvd sint w"
    by (simp add: take_bit_eq_0_iff)
  finally show ?thesis .
qed

lemma smi_value_range: "SMI_MIN \<le> smi_value w \<and> smi_value w \<le> SMI_MAX"
proof -
  have "- (2 ^ 63) \<le> sint w" "sint w < 2 ^ 63"
    using sint_range_size [of w] by (simp_all add: size_word.rep_eq word_size)
  then show ?thesis unfolding smi_value_bits SMI_MIN_def SMI_MAX_def by auto
qed

lemma smi_try_new_Some:
  assumes "smi_try_new v = Some s"
  shows "smi_value s = v" and "is_smi s"
proof -
  have r: "SMI_MIN \<le> v" "v \<le> SMI_MAX" and s: "s = push_bit 2 (word_of_int v)"
    using assms by (auto simp: smi_try_new_def SMI_SHIFT_def split: if_splits)
  have w: "s = word_of_int (4 * v)"
    by (simp add: s push_bit_eq_mult)
  have "sint s = signed_take_bit 63 (4 * v)"
    unfolding w by (simp only: signed_of_int) simp
  also have "\<dots> = 4 * v"
    using r by (intro signed_take_bit_int_eq_self) (simp_all add: SMI_MIN_def SMI_MAX_def)
  finally have e: "sint s = 4 * v" .
  show "smi_value s = v" by (simp add: smi_value_bits e)
  show "is_smi s" by (simp add: tag_zero_iff e)
qed

lemma smi_try_new_value:
  assumes "is_smi w"
  shows "smi_try_new (smi_value w) = Some w"
proof -
  have "push_bit 2 (word_of_int (sint w div 4)) = (word_of_int (4 * (sint w div 4)) :: u64)"
    by (simp add: push_bit_eq_mult)
  also have "\<dots> = w" using assms by (simp add: tag_zero_iff)
  finally show ?thesis
    using smi_value_range [of w]
    by (simp add: smi_try_new_def SMI_SHIFT_def smi_value_bits)
qed

lemma smi_try_new_iff: "smi_try_new v = Some s \<longleftrightarrow> is_smi s \<and> smi_value s = v"
  using smi_try_new_Some smi_try_new_value by blast

lemma floor_adjust_iff:
  "b \<noteq> 0 \<Longrightarrow> a smod b \<noteq> 0 \<and> (a smod b < 0) \<noteq> (b < 0) \<longleftrightarrow> sgn a \<noteq> sgn b \<and> \<not> b dvd a"
  for a b :: int
proof -
  assume b: "b \<noteq> 0"
  have z: "a smod b = 0 \<longleftrightarrow> b dvd a"
    by (simp add: signed_modulo_int_def sgn_0_0 dvd_eq_mod_eq_0 [of "\<bar>b\<bar>" "\<bar>a\<bar>", symmetric]) auto
  have "\<bar>a\<bar> mod \<bar>b\<bar> \<ge> 0" using b by simp
  then have "a smod b \<noteq> 0 \<Longrightarrow> (a smod b < 0) = (a < 0) \<and> a \<noteq> 0"
    by (auto simp: signed_modulo_int_def sgn_if split: if_splits)
  with b z show ?thesis by (auto simp: sgn_if)
qed

lemma floor_div_eq: "b \<noteq> 0 \<Longrightarrow> floor_div a b = a div b"
  unfolding floor_div_def Let_def
  by (subst floor_adjust_iff, assumption) (simp add: divide_int_eq_signed_divide_int)

lemma floor_mod_eq: "b \<noteq> 0 \<Longrightarrow> floor_mod a b = a mod b"
  unfolding floor_mod_def Let_def
  by (subst floor_adjust_iff, assumption) (simp add: modulo_int_eq_signed_modulo_int)

lemma smi_checked_add_eq: "smi_checked_add a b = smi_try_new (smi_value a + smi_value b)"
  using smi_value_range [of a] smi_value_range [of b]
  by (simp add: smi_checked_add_def checked_i64_def i64_range_def SMI_MIN_def SMI_MAX_def)

lemma smi_checked_sub_eq: "smi_checked_sub a b = smi_try_new (smi_value a - smi_value b)"
  using smi_value_range [of a] smi_value_range [of b]
  by (simp add: smi_checked_sub_def checked_i64_def i64_range_def SMI_MIN_def SMI_MAX_def)

lemma smi_checked_mul_eq: "smi_checked_mul a b = smi_try_new (smi_value a * smi_value b)"
proof (cases "i64_range (smi_value a * smi_value b)")
  case False
  then have "smi_try_new (smi_value a * smi_value b) = None"
    using smi_range_i64 by (auto simp: smi_try_new_def)
  with False show ?thesis by (simp add: smi_checked_mul_def checked_i64_def)
qed (simp add: smi_checked_mul_def checked_i64_def)

lemma smi_checked_shl_eq:
  assumes "unat n < 64"
  shows "smi_checked_shl s n = smi_try_new (smi_value s * 2 ^ unat n)"
proof -
  let ?v = "smi_value s" and ?p = "(2 :: int) ^ unat n"
  have p: "1 \<le> ?p" "?p \<le> 2 ^ 63"
    using assms by (simp_all add: power_increasing [of "unat n" 63 "2 :: int", simplified])
  have v: "- (2 ^ 61) \<le> ?v" "?v \<le> 2 ^ 61"
    using smi_value_range [of s] by (simp_all add: SMI_MIN_def SMI_MAX_def)
  have "\<bar>?v * ?p\<bar> \<le> 2 ^ 61 * 2 ^ 63"
    unfolding abs_mult using v p by (intro mult_mono) auto
  then have "- (2 ^ 127) \<le> ?v * ?p" "?v * ?p < 2 ^ 127" by simp_all
  then have "signed_take_bit 127 (?v * ?p) = ?v * ?p"
    by (intro signed_take_bit_int_eq_self) simp_all
  moreover have "signed_take_bit 63 (?v * ?p) = ?v * ?p" if "\<not> ?v * ?p > SMI_MAX" "\<not> ?v * ?p < SMI_MIN"
    using that by (intro signed_take_bit_int_eq_self) (simp_all add: SMI_MIN_def SMI_MAX_def)
  ultimately show ?thesis
    using assms by (auto simp: smi_checked_shl_def push_bit_eq_mult Let_def smi_try_new_def)
qed

section \<open>The interface of a mark-word field\<close>

text \<open>
  Every field of the mark word is a getter and a setter over a fixed mask. The contract: a getter
  reads nothing outside the mask, a setter changes nothing outside it, and reads back what it wrote.
  Non-interference of any two fields with disjoint masks follows once, inside the locale.
\<close>

locale mark_field =
  fixes get_f :: "u64 \<Rightarrow> 'v" and set_f :: "u64 \<Rightarrow> 'v \<Rightarrow> u64" and fmask :: u64
    and valid :: "'v \<Rightarrow> bool"
  assumes get_set: "valid v \<Longrightarrow> get_f (set_f w v) = v"
    and set_frame: "valid v \<Longrightarrow> set_f w v AND NOT fmask = w AND NOT fmask"
    and get_local: "w AND fmask = w' AND fmask \<Longrightarrow> get_f w = get_f w'"
begin

lemma set_outside:
  assumes "valid v" and "m AND fmask = 0"
  shows "set_f w v AND m = w AND m"
proof -
  have m: "m = m AND NOT fmask"
    using assms(2) by (simp add: bit_eq_iff bit_simps) blast
  have "set_f w v AND m = (set_f w v AND NOT fmask) AND m"
    by (subst m) (simp add: ac_simps)
  also have "\<dots> = (w AND NOT fmask) AND m"
    by (simp add: set_frame [OF assms(1)])
  also have "\<dots> = w AND m"
    by (subst (2) m) (simp add: ac_simps)
  finally show ?thesis .
qed

lemma kept:
  assumes "mark_field g s m ok" and "m AND fmask = 0" and "valid v"
  shows "g (set_f w v) = g w"
  by (rule mark_field.get_local [OF assms(1)]) (rule set_outside [OF assms(3,2)])

lemma header_kept:
  assumes "valid v" and "7 AND fmask = 0"
  shows "set_f w v AND 7 = w AND 7"
  by (rule set_outside) (use assms in auto)

end

lemma age_bits:
  assumes "(a :: u8) \<le> MARK_AGE_MAX" and "bit a n"
  shows "n < 7"
proof (rule ccontr)
  assume "\<not> n < 7"
  moreover have "n < 8" using bit_imp_le_length [OF assms(2)] by simp
  ultimately have n: "n = 7" by simp
  have "uint a \<le> 127" using assms(1) by (simp add: MARK_AGE_MAX_def word_le_def)
  then have "uint a div 2 ^ 7 = 0" using uint_ge_0 [of a] by simp
  then have "\<not> bit (uint a) 7" by (simp add: bit_iff_odd)
  with assms(2) n show False by (simp add: bit_uint_iff)
qed

lemma hash_bits: "bit (h :: u32) n \<Longrightarrow> n < 32"
  using bit_imp_le_length [of h n] by simp

lemma mark_with_age_ok:
  "a \<le> MARK_AGE_MAX \<Longrightarrow>
     projr (mark_with_age w a) = (w AND NOT MARK_AGE_MASK) OR push_bit MARK_AGE_SHIFT (ucast a)"
  by (simp add: mark_with_age_def)

interpretation age_f: mark_field mark_age "\<lambda>w a. projr (mark_with_age w a)" MARK_AGE_MASK
  "\<lambda>a. a \<le> MARK_AGE_MAX"
proof unfold_locales
  fix v w assume v: "v \<le> MARK_AGE_MAX"
  show "mark_age (projr (mark_with_age w v)) = v"
    unfolding mark_with_age_ok [OF v] mark_age_def mark_mask_masks MARK_AGE_SHIFT_def
    by (rule bit_word_eqI) (auto simp: bit_simps dest: age_bits [OF v])
  show "projr (mark_with_age w v) AND NOT MARK_AGE_MASK = w AND NOT MARK_AGE_MASK"
    unfolding mark_with_age_ok [OF v] mark_mask_masks MARK_AGE_SHIFT_def
    by (rule bit_word_eqI) (auto simp: bit_simps dest: age_bits [OF v])
qed (simp add: mark_age_def)

interpretation hash_f: mark_field mark_hash mark_with_hash MARK_HASH_MASK "\<lambda>_. True"
proof unfold_locales
  fix v w
  show "mark_hash (mark_with_hash w v) = v"
    unfolding mark_hash_def mark_with_hash_def mark_mask_masks MARK_HASH_SHIFT_def
    by (rule bit_word_eqI) (auto simp: bit_simps)
  show "mark_with_hash w v AND NOT MARK_HASH_MASK = w AND NOT MARK_HASH_MASK"
    unfolding mark_with_hash_def mark_mask_masks MARK_HASH_SHIFT_def
    by (rule bit_word_eqI) (auto simp: bit_simps dest: hash_bits)
qed (simp add: mark_hash_def)

lemma flag_field:
  fixes k :: nat
  assumes "k < 64" and m: "m = push_bit k (1 :: u64)"
  shows "mark_field (\<lambda>w. w AND m \<noteq> 0) (\<lambda>w v. if v then w OR m else w AND NOT m) m (\<lambda>_. True)"
proof -
  have b: "w AND m \<noteq> 0 \<longleftrightarrow> bit w k" for w
    by (simp add: m push_bit_of_1 and_exp_eq_0_iff_not_bit)
  show ?thesis
  proof unfold_locales
    fix w v
    show "((if v then w OR m else w AND NOT m) AND m \<noteq> 0) = v"
      unfolding b using assms(1) by (cases v) (auto simp: bit_simps m)
    show "(if v then w OR m else w AND NOT m) AND NOT m = w AND NOT m"
      by (rule bit_word_eqI) (auto simp: bit_simps)
  next
    fix w w' :: u64 assume "w AND m = w' AND m"
    then show "(w AND m \<noteq> 0) = (w' AND m \<noteq> 0)" by simp
  qed
qed

interpretation near_death_f: mark_field mark_near_death mark_with_near_death MARK_NEAR_DEATH_MASK "\<lambda>_. True"
  using flag_field [of MARK_NEAR_DEATH_SHIFT MARK_NEAR_DEATH_MASK]
  by (simp add: MARK_NEAR_DEATH_SHIFT_def MARK_NEAR_DEATH_MASK_def
      mark_near_death_def [abs_def] mark_with_near_death_def [abs_def])

interpretation tagged_contents_f:
  mark_field mark_tagged_contents mark_with_tagged_contents MARK_TAGGED_CONTENTS_MASK "\<lambda>_. True"
  using flag_field [of MARK_TAGGED_CONTENTS_SHIFT MARK_TAGGED_CONTENTS_MASK]
  by (simp add: MARK_TAGGED_CONTENTS_SHIFT_def MARK_TAGGED_CONTENTS_MASK_def
      mark_tagged_contents_def [abs_def] mark_with_tagged_contents_def [abs_def])

interpretation gc_mark_f: mark_field mark_gc_mark mark_with_gc_mark MARK_GC_MARK_MASK "\<lambda>_. True"
  using flag_field [of MARK_GC_MARK_SHIFT MARK_GC_MARK_MASK]
  by (simp add: MARK_GC_MARK_SHIFT_def MARK_GC_MARK_MASK_def
      mark_gc_mark_def [abs_def] mark_with_gc_mark_def [abs_def])

lemmas mark_kept =
  age_f.kept [OF hash_f.mark_field_axioms]
  age_f.kept [OF near_death_f.mark_field_axioms]
  age_f.kept [OF tagged_contents_f.mark_field_axioms]
  age_f.kept [OF gc_mark_f.mark_field_axioms]
  hash_f.kept [OF age_f.mark_field_axioms]
  hash_f.kept [OF near_death_f.mark_field_axioms]
  hash_f.kept [OF tagged_contents_f.mark_field_axioms]
  hash_f.kept [OF gc_mark_f.mark_field_axioms]
  near_death_f.kept [OF age_f.mark_field_axioms]
  near_death_f.kept [OF hash_f.mark_field_axioms]
  near_death_f.kept [OF tagged_contents_f.mark_field_axioms]
  near_death_f.kept [OF gc_mark_f.mark_field_axioms]
  tagged_contents_f.kept [OF age_f.mark_field_axioms]
  tagged_contents_f.kept [OF hash_f.mark_field_axioms]
  tagged_contents_f.kept [OF near_death_f.mark_field_axioms]
  tagged_contents_f.kept [OF gc_mark_f.mark_field_axioms]
  gc_mark_f.kept [OF age_f.mark_field_axioms]
  gc_mark_f.kept [OF hash_f.mark_field_axioms]
  gc_mark_f.kept [OF near_death_f.mark_field_axioms]
  gc_mark_f.kept [OF tagged_contents_f.mark_field_axioms]

lemmas mark_get_set =
  age_f.get_set hash_f.get_set near_death_f.get_set tagged_contents_f.get_set gc_mark_f.get_set

lemmas mark_header_kept =
  age_f.header_kept hash_f.header_kept near_death_f.header_kept tagged_contents_f.header_kept gc_mark_f.header_kept

lemma mark_masks_disjoint [word_fields]:
  "MARK_AGE_MASK AND MARK_HASH_MASK = 0" "MARK_HASH_MASK AND MARK_AGE_MASK = 0"
  "MARK_AGE_MASK AND MARK_NEAR_DEATH_MASK = 0" "MARK_NEAR_DEATH_MASK AND MARK_AGE_MASK = 0"
  "MARK_AGE_MASK AND MARK_TAGGED_CONTENTS_MASK = 0" "MARK_TAGGED_CONTENTS_MASK AND MARK_AGE_MASK = 0"
  "MARK_AGE_MASK AND MARK_GC_MARK_MASK = 0" "MARK_GC_MARK_MASK AND MARK_AGE_MASK = 0"
  "MARK_HASH_MASK AND MARK_NEAR_DEATH_MASK = 0" "MARK_NEAR_DEATH_MASK AND MARK_HASH_MASK = 0"
  "MARK_HASH_MASK AND MARK_TAGGED_CONTENTS_MASK = 0" "MARK_TAGGED_CONTENTS_MASK AND MARK_HASH_MASK = 0"
  "MARK_HASH_MASK AND MARK_GC_MARK_MASK = 0" "MARK_GC_MARK_MASK AND MARK_HASH_MASK = 0"
  "MARK_NEAR_DEATH_MASK AND MARK_TAGGED_CONTENTS_MASK = 0"
  "MARK_TAGGED_CONTENTS_MASK AND MARK_NEAR_DEATH_MASK = 0"
  "MARK_NEAR_DEATH_MASK AND MARK_GC_MARK_MASK = 0" "MARK_GC_MARK_MASK AND MARK_NEAR_DEATH_MASK = 0"
  "MARK_TAGGED_CONTENTS_MASK AND MARK_GC_MARK_MASK = 0"
  "MARK_GC_MARK_MASK AND MARK_TAGGED_CONTENTS_MASK = 0"
  "7 AND MARK_AGE_MASK = 0" "7 AND MARK_HASH_MASK = 0" "7 AND MARK_NEAR_DEATH_MASK = 0"
  "7 AND MARK_TAGGED_CONTENTS_MASK = 0" "7 AND MARK_GC_MARK_MASK = 0"
  by (simp_all add: mark_mask_values)

text \<open>
  A word is a real mark when its tag and sentinel bits say so: \<open>mark_from_word\<close> accepts exactly
  the words whose low three bits are set.
\<close>

lemma low_bits:
  "w AND 3 = of_bool (bit w 1) * 2 + of_bool (bit w 0)"
  "w AND 7 = of_bool (bit w 2) * 4 + of_bool (bit w 1) * 2 + of_bool (bit w 0)"
  for w :: u64
proof -
  have "w AND 3 = take_bit (Suc (Suc 0)) w" "w AND 7 = take_bit (Suc (Suc (Suc 0))) w"
    by (simp_all add: take_bit_eq_mask mask_eq_exp_minus_1)
  moreover have
    "take_bit (Suc (Suc 0)) w = 2 ^ 1 * of_bool (bit w 1) + (2 ^ 0 * of_bool (bit w 0) + take_bit 0 w)"
    "take_bit (Suc (Suc (Suc 0))) w = 2 ^ 2 * of_bool (bit w 2) +
       (2 ^ 1 * of_bool (bit w 1) + (2 ^ 0 * of_bool (bit w 0) + take_bit 0 w))"
    by (simp_all add: take_bit_rec [of "Suc _"] bit_Suc bit_0 mod_2_eq_odd numeral_2_eq_2)
  ultimately show "w AND 3 = of_bool (bit w 1) * 2 + of_bool (bit w 0)"
    "w AND 7 = of_bool (bit w 2) * 4 + of_bool (bit w 1) * 2 + of_bool (bit w 0)"
    by simp_all
qed

lemma tag_iffs:
  "w AND TAG_MASK = INT_TAG \<longleftrightarrow> \<not> bit w 1 \<and> \<not> bit w 0"
  "w AND TAG_MASK = MEM_TAG \<longleftrightarrow> \<not> bit w 1 \<and> bit w 0"
  "w AND TAG_MASK = RESERVED_TAG \<longleftrightarrow> bit w 1 \<and> \<not> bit w 0"
  "w AND TAG_MASK = MARK_TAG \<longleftrightarrow> bit w 1 \<and> bit w 0"
  by (simp_all add: tag_defs low_bits del: bit_0 bit_Suc_0_iff)

lemma sentinel_iff: "w AND MARK_SENTINEL_MASK \<noteq> 0 \<longleftrightarrow> bit w 2"
  using and_exp_eq_0_iff_not_bit [of w 2] by (simp add: mark_mask_values)

lemma mark_from_word_iff: "mark_from_word w = Inr m \<longleftrightarrow> m = w \<and> w AND 7 = 7"
  by (auto simp: mark_from_word_def guard_res_Inr_iff tag_iffs sentinel_iff low_bits simp del: bit_0)

section \<open>Properties\<close>

text \<open>Small integers are exactly the tag-0 words, and tagging loses nothing: \<open>try_new v\<close> gives the
  word \<open>s\<close> if and only if \<open>s\<close> carries the smi tag and untags to \<open>v\<close>; it fails exactly outside
  \<open>[SMI_MIN, SMI_MAX]\<close>.\<close>

lemma smi_tagging_bijective:
  "(smi_try_new v = Some s \<longleftrightarrow> is_smi s \<and> smi_value s = v)
   \<and> (smi_try_new v = None \<longleftrightarrow> v < SMI_MIN \<or> SMI_MAX < v)"
  by (simp add: smi_try_new_iff) (auto simp: smi_try_new_def)

text \<open>C38: checked addition, subtraction and multiplication of small integers are exact: they return the
  smi of the true integer result whenever there is one, and \<open>None\<close> otherwise; no wrapped or rescaled
  result is ever produced.\<close>

theorem smi_arith_exact:
  "(smi_checked_add a b = Some c \<longleftrightarrow> is_smi c \<and> smi_value c = smi_value a + smi_value b)
   \<and> (smi_checked_sub a b = Some c \<longleftrightarrow> is_smi c \<and> smi_value c = smi_value a - smi_value b)
   \<and> (smi_checked_mul a b = Some c \<longleftrightarrow> is_smi c \<and> smi_value c = smi_value a * smi_value b)"
  by (simp add: smi_checked_add_eq smi_checked_sub_eq smi_checked_mul_eq smi_try_new_iff)

text \<open>\<open>//\<close> and \<open>\\\<close> of small integers are floored division and modulo, computed from Rust's
  truncating operators; a zero divisor and the one overflowing quotient are \<open>None\<close>.\<close>

lemma smi_division_floored:
  "(smi_checked_div a b = Some c \<longleftrightarrow>
      smi_value b \<noteq> 0 \<and> is_smi c \<and> smi_value c = smi_value a div smi_value b)
   \<and> (smi_checked_rem a b = Some c \<longleftrightarrow>
      smi_value b \<noteq> 0 \<and> is_smi c \<and> smi_value c = smi_value a mod smi_value b)"
  by (simp add: smi_checked_div_def smi_checked_rem_def floor_div_eq floor_mod_eq smi_try_new_iff Let_def)

text \<open>Every mark-word setter changes exactly its own field: read as a record, the word after a
  setter is the record with that one field updated, tag and sentinel bits included in what is kept;
  an age above 127 stops the VM.\<close>

lemma mark_setters_refine_view:
  "mark_view (mark_with_hash w h) = (mark_view w)\<lparr>mf_hash := h\<rparr>
   \<and> mark_view (mark_with_near_death w d) = (mark_view w)\<lparr>mf_near_death := d\<rparr>
   \<and> mark_view (mark_with_tagged_contents w t) = (mark_view w)\<lparr>mf_tagged_contents := t\<rparr>
   \<and> mark_view (mark_with_gc_mark w g) = (mark_view w)\<lparr>mf_gc_mark := g\<rparr>
   \<and> (case mark_with_age w a of
        Inl e \<Rightarrow> e = Assert_failed \<and> 127 < unat a
      | Inr w' \<Rightarrow> unat a \<le> 127 \<and> mark_view w' = (mark_view w)\<lparr>mf_age := a\<rparr>)"
  (is "?hash \<and> ?nd \<and> ?tc \<and> ?gc \<and> ?age")
proof -
  have age: "unat a \<le> 127 \<longleftrightarrow> a \<le> MARK_AGE_MAX"
    by (simp add: MARK_AGE_MAX_def word_le_nat_alt)
  have ?age
  proof (cases "a \<le> MARK_AGE_MAX")
    case True
    then obtain w' where w': "mark_with_age w a = Inr w'"
      by (simp add: mark_with_age_def)
    have "mark_view (projr (mark_with_age w a)) = (mark_view w)\<lparr>mf_age := a\<rparr>"
      using True by (simp add: mark_view_def mark_get_set mark_kept mark_header_kept word_fields)
    with True age w' show ?thesis by simp
  qed (use age in \<open>simp add: mark_with_age_def\<close>)
  then show ?thesis
    by (simp add: mark_view_def mark_get_set mark_kept mark_header_kept word_fields)
qed

text \<open>The header-word discrimination is unambiguous: a word accepted as a mark is never taken for a
  forwarding pointer and never accepted as an oop, a forwarding pointer is an oop and not a mark, and
  the poison pattern and the compiled-call sentinels are neither.\<close>

lemma header_words_disjoint:
  "(mark_from_word w = Inr m \<longrightarrow> \<not> word_is_forwarded w \<and> oop_from_raw w = Inl Assert_failed)
   \<and> (word_is_forwarded w \<longrightarrow>
        mark_from_word w = Inl Assert_failed \<and> forwardee w = Inr w \<and> is_mem w \<and> oop_from_raw w = Inr w)
   \<and> mark_from_word POISON = Inl Assert_failed \<and> \<not> word_is_forwarded POISON
   \<and> oop_from_raw POISON = Inl Assert_failed
   \<and> oop_from_raw NLR_SENTINEL = Inl Assert_failed
   \<and> oop_from_raw PRIM_FAIL_SENTINEL = Inl Assert_failed"
proof (intro conjI impI)
  assume "mark_from_word w = Inr m"
  then show "\<not> word_is_forwarded w" "oop_from_raw w = Inl Assert_failed"
    by (auto simp: mark_from_word_def oop_from_raw_def word_is_forwarded_def guard_res_def tag_defs
        split: if_splits)
next
  assume "word_is_forwarded w"
  then show "mark_from_word w = Inl Assert_failed" "forwardee w = Inr w" "is_mem w" "oop_from_raw w = Inr w"
    by (auto simp: mark_from_word_def oop_from_raw_def word_is_forwarded_def forwardee_def is_mem_def
        oop_tag_def guard_res_def tag_defs split: if_splits)
qed (simp_all add: mark_from_word_def oop_from_raw_def word_is_forwarded_def guard_res_def tag_defs
      POISON_def NLR_SENTINEL_def PRIM_FAIL_SENTINEL_def mark_mask_values)

end
