(* ===== verification/MethodDict.thy ===== *)
theory MethodDict
  imports Oops
begin

unbundle bit_operations_syntax

text \<open>
  Method dictionaries (\<open>src/src/oops/method_dict.rs\<close>): an open-addressed table from selectors to
  methods with linear probing, no tombstones and growth at three quarters full.

  A dictionary object is a record of its tally field and the \<open>(key, value)\<close> pairs of its indexable
  tail. What the code reads of other objects, the nil oop, the identity hash in a symbol's mark word
  and the \<open>try_from\<close> class checks, is the record \<open>md_env\<close>. Objects do not move in this model: the
  handles that \<open>insert\<close> opens around its allocation are the identity. The calls into other components
  (allocation, the post-write barrier) are returned as a list of effects, in the order they are made.
\<close>

section \<open>The table\<close>

record md_env =
  env_nil :: oop
  env_hash :: "oop \<Rightarrow> nat"
  env_is_symbol :: "oop \<Rightarrow> bool"
  env_is_method :: "oop \<Rightarrow> bool"

type_synonym md_slots = "(oop \<times> oop) list"

record mdict =
  md_tally :: nat
  md_slots :: md_slots

datatype md_effect = Alloc_dict nat | Post_write_barrier

definition md_capacity :: "mdict \<Rightarrow> nat" where
  "md_capacity d = length (md_slots d)"

definition md_key_at :: "md_slots \<Rightarrow> nat \<Rightarrow> oop res" where
  "md_key_at ss i = guard_res (i < length ss) Assert_failed (Inr (fst (ss ! i)))"

definition md_value_at :: "md_slots \<Rightarrow> nat \<Rightarrow> oop res" where
  "md_value_at ss i = guard_res (i < length ss) Assert_failed (Inr (snd (ss ! i)))"

definition md_set_key_at :: "md_slots \<Rightarrow> nat \<Rightarrow> oop \<Rightarrow> md_slots res" where
  "md_set_key_at ss i k = guard_res (i < length ss) Assert_failed (Inr (ss[i := (k, snd (ss ! i))]))"

definition md_set_value_at :: "md_slots \<Rightarrow> nat \<Rightarrow> oop \<Rightarrow> md_slots res" where
  "md_set_value_at ss i v = guard_res (i < length ss) Assert_failed (Inr (ss[i := (fst (ss ! i), v)]))"

definition method_try_from :: "md_env \<Rightarrow> oop \<Rightarrow> oop option" where
  "method_try_from env v = (if env_is_method env v then Some v else None)"

definition symbol_try_from :: "md_env \<Rightarrow> oop \<Rightarrow> oop option" where
  "symbol_try_from env k = (if env_is_symbol env k then Some k else None)"

text \<open>The probe loop stops at an empty slot, at the selector, or back where it started; \<open>None\<close> is a
  loop that never stops.\<close>

partial_function (option) probe_loop :: "md_slots \<Rightarrow> oop \<Rightarrow> oop \<Rightarrow> nat \<Rightarrow> nat \<Rightarrow> nat \<Rightarrow> nat option res option" where
  "probe_loop ss nil sel msk start i =
     (case md_key_at ss i of
        Inl e \<Rightarrow> Some (Inl e)
      | Inr k \<Rightarrow>
          if k = nil then Some (Inr None)
          else if k = sel then Some (Inr (Some i))
          else let i' = (i + 1) AND msk in
            if i' = start then Some (Inr None) else probe_loop ss nil sel msk start i')"

definition probe_slot :: "md_env \<Rightarrow> mdict \<Rightarrow> oop \<Rightarrow> nat option res option" where
  "probe_slot env d sel =
     (let capacity = md_capacity d in
      if capacity = 0 then Some (Inr None)
      else
        let msk = capacity - 1; h = env_hash env sel in
        if h = 0 then Some (Inl Assert_failed)
        else let i = h AND msk in probe_loop (md_slots d) (env_nil env) sel msk i i)"

definition probe :: "md_env \<Rightarrow> mdict \<Rightarrow> oop \<Rightarrow> oop option res option" where
  "probe env d sel =
     map_option (\<lambda>r. rbind r (\<lambda>s. case s of
         None \<Rightarrow> Inr None
       | Some slot \<Rightarrow> rbind (md_value_at (md_slots d) slot) (\<lambda>v. Inr (method_try_from env v))))
       (probe_slot env d sel)"

fun each_pair_from :: "md_env \<Rightarrow> md_slots \<Rightarrow> ('x \<Rightarrow> oop \<Rightarrow> oop \<Rightarrow> 'x) \<Rightarrow> 'x \<Rightarrow> nat list \<Rightarrow> 'x res" where
  "each_pair_from env ss f x [] = Inr x"
| "each_pair_from env ss f x (slot # is) =
     rbind (md_key_at ss slot) (\<lambda>k.
       if k = env_nil env then each_pair_from env ss f x is
       else rbind (expect (symbol_try_from env k)) (\<lambda>sel.
            rbind (md_value_at ss slot) (\<lambda>v.
            rbind (expect (method_try_from env v)) (\<lambda>m. each_pair_from env ss f (f x sel m) is))))"

definition each_pair :: "md_env \<Rightarrow> mdict \<Rightarrow> ('x \<Rightarrow> oop \<Rightarrow> oop \<Rightarrow> 'x) \<Rightarrow> 'x \<Rightarrow> 'x res" where
  "each_pair env d f x = each_pair_from env (md_slots d) f x [0..<md_capacity d]"

function raw_insert_loop :: "md_slots \<Rightarrow> oop \<Rightarrow> oop \<Rightarrow> oop \<Rightarrow> nat \<Rightarrow> nat \<Rightarrow> nat \<Rightarrow> md_slots res" where
  "raw_insert_loop ss nil sel m msk i probes =
     (case md_key_at ss i of
        Inl e \<Rightarrow> Inl e
      | Inr k \<Rightarrow>
          if k = nil then rbind (md_set_key_at ss i sel) (\<lambda>ss1. md_set_value_at ss1 i m)
          else if probes + 1 > length ss then Inl Explicit_panic
          else raw_insert_loop ss nil sel m msk ((i + 1) AND msk) (probes + 1))"
  by pat_completeness auto
termination
  by (relation "measure (\<lambda>(ss, _, _, _, _, _, probes). Suc (length ss) - probes)") auto

definition raw_insert_new :: "md_env \<Rightarrow> md_slots \<Rightarrow> oop \<Rightarrow> oop \<Rightarrow> md_slots res" where
  "raw_insert_new env ss sel m =
     rbind (usub (length ss) 1) (\<lambda>msk.
       raw_insert_loop ss (env_nil env) sel m msk (env_hash env sel AND msk) 0)"

definition is_power_of_two :: "nat \<Rightarrow> bool" where
  "is_power_of_two n \<longleftrightarrow> n \<noteq> 0 \<and> n AND (n - 1) = 0"

definition alloc_method_dict :: "md_env \<Rightarrow> nat \<Rightarrow> mdict res" where
  "alloc_method_dict env capacity =
     guard_res (is_power_of_two capacity) Assert_failed
       (Inr \<lparr>md_tally = 0, md_slots = replicate capacity (env_nil env, env_nil env)\<rparr>)"

fun rehash :: "md_env \<Rightarrow> md_slots \<Rightarrow> md_slots \<Rightarrow> md_slots res" where
  "rehash env grown [] = Inr grown"
| "rehash env grown ((k, v) # old) =
     (if k \<noteq> env_nil env then
        rbind (expect (symbol_try_from env k)) (\<lambda>ks.
        rbind (expect (method_try_from env v)) (\<lambda>vm.
        rbind (raw_insert_new env grown ks vm) (\<lambda>grown'. rehash env grown' old)))
      else rehash env grown old)"

definition md_grow :: "md_env \<Rightarrow> mdict \<Rightarrow> mdict res" where
  "md_grow env d =
     (let new_capacity = max (md_capacity d * 2) 8 in
      rbind (alloc_method_dict env new_capacity) (\<lambda>grown.
      rbind (rehash env (md_slots grown) (md_slots d)) (\<lambda>ss.
        Inr \<lparr>md_tally = md_tally d, md_slots = ss\<rparr>)))"

definition insert_new :: "md_env \<Rightarrow> mdict \<Rightarrow> oop \<Rightarrow> oop \<Rightarrow> (mdict \<times> md_effect list) res" where
  "insert_new env d sel m =
     (let capacity = md_capacity d; tally = md_tally d;
          grows = capacity = 0 \<or> 4 * (tally + 1) > 3 * capacity in
      rbind (if grows then md_grow env d else Inr d) (\<lambda>dict.
      rbind (raw_insert_new env (md_slots dict) sel m) (\<lambda>ss.
        Inr (\<lparr>md_tally = md_tally dict + 1, md_slots = ss\<rparr>,
             (if grows then [Alloc_dict (max (capacity * 2) 8)] else []) @ [Post_write_barrier]))))"

definition md_insert :: "md_env \<Rightarrow> mdict \<Rightarrow> oop \<Rightarrow> oop \<Rightarrow> (mdict \<times> md_effect list) res option" where
  "md_insert env d sel m =
     map_option (\<lambda>r. rbind r (\<lambda>s. case s of
         Some slot \<Rightarrow> rbind (md_set_value_at (md_slots d) slot m) (\<lambda>ss.
           Inr (d\<lparr>md_slots := ss\<rparr>, [Post_write_barrier]))
       | None \<Rightarrow> insert_new env d sel m))
       (probe_slot env d sel)"

section \<open>The table as a map\<close>

definition md_map :: "md_env \<Rightarrow> md_slots \<Rightarrow> oop \<rightharpoonup> oop" where
  "md_map env ss = map_of (filter (\<lambda>(k, v). k \<noteq> env_nil env) ss)"

definition occupied :: "md_env \<Rightarrow> md_slots \<Rightarrow> nat" where
  "occupied env ss = length (filter (\<lambda>(k, v). k \<noteq> env_nil env) ss)"

definition key_ok :: "md_env \<Rightarrow> oop \<Rightarrow> bool" where
  "key_ok env k \<longleftrightarrow> env_is_symbol env k \<and> k \<noteq> env_nil env \<and> env_hash env k \<noteq> 0"

text \<open>Every slot between a key's home slot and the slot it is in is occupied.\<close>

definition reachable_key :: "md_env \<Rightarrow> md_slots \<Rightarrow> nat \<Rightarrow> bool" where
  "reachable_key env ss j \<longleftrightarrow>
     (\<exists>q < length ss. j = (env_hash env (fst (ss ! j)) + q) mod length ss
        \<and> (\<forall>p < q. fst (ss ! ((env_hash env (fst (ss ! j)) + p) mod length ss)) \<noteq> env_nil env))"

definition table_wf :: "md_env \<Rightarrow> md_slots \<Rightarrow> bool" where
  "table_wf env ss \<longleftrightarrow>
     (\<exists>n. length ss = 2 ^ n)
     \<and> distinct (map fst (filter (\<lambda>(k, v). k \<noteq> env_nil env) ss))
     \<and> (\<forall>j < length ss. fst (ss ! j) \<noteq> env_nil env \<longrightarrow>
          key_ok env (fst (ss ! j)) \<and> env_is_method env (snd (ss ! j)) \<and> reachable_key env ss j)"

definition md_inv :: "md_env \<Rightarrow> mdict \<Rightarrow> bool" where
  "md_inv env d \<longleftrightarrow>
     (md_slots d = [] \<or> table_wf env (md_slots d))
     \<and> md_tally d = occupied env (md_slots d) \<and> 4 * md_tally d \<le> 3 * md_capacity d"

text \<open>A sequence of insertions through an insertion operation that may stop or not return.\<close>

fun insert_all :: "('t \<Rightarrow> 'k \<Rightarrow> 'v \<Rightarrow> ('t \<times> 'e) res option) \<Rightarrow> 't \<Rightarrow> ('k \<times> 'v) list \<Rightarrow> 't res option" where
  "insert_all ins t [] = Some (Inr t)"
| "insert_all ins t ((k, v) # kvs) =
     (case ins t k v of
        Some (Inr (t', _)) \<Rightarrow> insert_all ins t' kvs
      | Some (Inl e) \<Rightarrow> Some (Inl e)
      | None \<Rightarrow> None)"

section \<open>Probing\<close>

lemma and_mask_mod: "length ss = 2 ^ n \<Longrightarrow> x AND (length ss - 1) = x mod length ss" for x :: nat
  using take_bit_eq_mask [of n x] by (simp add: take_bit_eq_mod mask_eq_exp_minus_1)

lemma md_key_at_less [simp]: "i < length ss \<Longrightarrow> md_key_at ss i = Inr (fst (ss ! i))"
  by (simp add: md_key_at_def)

lemma md_value_at_less [simp]: "i < length ss \<Longrightarrow> md_value_at ss i = Inr (snd (ss ! i))"
  by (simp add: md_value_at_def)

lemma probe_step:
  assumes "length ss = 2 ^ n" and "i < length ss" and "fst (ss ! i) \<noteq> nil" and "fst (ss ! i) \<noteq> sel"
  shows "probe_loop ss nil sel (length ss - 1) start i =
    (if (i + 1) mod length ss = start then Some (Inr None)
     else probe_loop ss nil sel (length ss - 1) start ((i + 1) mod length ss))"
  using assms and_mask_mod [OF assms(1), of "i + 1"] by (subst probe_loop.simps) (simp add: Let_def)

lemma mod_step: "((h + p) mod l + 1) mod l = (h + (p + 1)) mod l" for h p l :: nat
  by (metis (no_types) add.assoc mod_add_left_eq)

lemma mod_lap_inj:
  fixes h p q l :: nat
  assumes "(h + p) mod l = (h + q) mod l" and "p < l" and "q < l"
  shows "p = q"
proof -
  have *: "a = b" if "(h + a) mod l = (h + b) mod l" "a < l" "b < l" "a \<le> b" for a b
  proof -
    have "l dvd (h + b) - (h + a)" using that(1,4) by (metis add_le_cancel_left mod_eq_dvd_iff_nat)
    then have "l dvd b - a" by simp
    then show ?thesis using that(2-4) by (metis diff_is_0_eq' dvd_imp_le le_antisym less_imp_diff_less not_less zero_less_diff)
  qed
  show ?thesis using *[of p q] *[of q p] assms by (metis nat_le_linear)
qed

lemma probe_loop_hit:
  assumes l: "length ss = 2 ^ n" and q: "q < length ss" and pq: "p \<le> q"
    and hit: "fst (ss ! ((h + q) mod length ss)) = sel" and "sel \<noteq> nil"
    and before: "\<forall>r < q. fst (ss ! ((h + r) mod length ss)) \<notin> {nil, sel}"
  shows "probe_loop ss nil sel (length ss - 1) (h mod length ss) ((h + p) mod length ss) =
    Some (Inr (Some ((h + q) mod length ss)))"
  using pq
proof (induction "q - p" arbitrary: p)
  case 0
  then have "p = q" by simp
  moreover have "(h + q) mod length ss < length ss" using q by (intro mod_less_divisor) auto
  ultimately show ?case using hit \<open>sel \<noteq> nil\<close> by (subst probe_loop.simps) simp
next
  case (Suc d)
  then have p: "p < q" by simp
  have i: "(h + p) mod length ss < length ss" using q by (intro mod_less_divisor) auto
  have "(h + (p + 1)) mod length ss \<noteq> (h + 0) mod length ss"
  proof
    assume "(h + (p + 1)) mod length ss = (h + 0) mod length ss"
    from mod_lap_inj [OF this] p q show False by linarith
  qed
  then have "probe_loop ss nil sel (length ss - 1) (h mod length ss) ((h + p) mod length ss) =
    probe_loop ss nil sel (length ss - 1) (h mod length ss) ((h + (p + 1)) mod length ss)"
    using probe_step [OF l i, of nil sel "h mod length ss", unfolded mod_step] before p by simp
  also have "\<dots> = Some (Inr (Some ((h + q) mod length ss)))" using Suc(1) [of "p + 1"] Suc(2) p by simp
  finally show ?case .
qed

lemma probe_loop_miss:
  assumes l: "length ss = 2 ^ n" and p: "p < length ss" and absent: "\<forall>j < length ss. fst (ss ! j) \<noteq> sel"
  shows "probe_loop ss nil sel (length ss - 1) (h mod length ss) ((h + p) mod length ss) = Some (Inr None)"
  using p
proof (induction "length ss - p" arbitrary: p)
  case (Suc d)
  have i: "(h + p) mod length ss < length ss" using Suc by (intro mod_less_divisor) auto
  show ?case
  proof (cases "fst (ss ! ((h + p) mod length ss)) = nil")
    case True
    then show ?thesis using i by (subst probe_loop.simps) simp
  next
    case False
    note step = probe_step [OF l i False, of sel "h mod length ss", unfolded mod_step]
    show ?thesis
    proof (cases "p + 1 = length ss")
      case True
      then have "(h + (p + 1)) mod length ss = h mod length ss" by simp
      then show ?thesis using step absent i by simp
    next
      case False
      then show ?thesis using step absent i Suc(1) [of "p + 1"] Suc(2,3) by auto
    qed
  qed
qed simp

lemma raw_insert_loop_finds:
  assumes l: "length ss = 2 ^ n" and q: "q < length ss" and pq: "p \<le> q"
    and hit: "fst (ss ! ((h + q) mod length ss)) = nil"
    and before: "\<forall>r < q. fst (ss ! ((h + r) mod length ss)) \<noteq> nil"
  shows "raw_insert_loop ss nil sel m (length ss - 1) ((h + p) mod length ss) p =
    Inr (ss[(h + q) mod length ss := (sel, m)])"
  using pq
proof (induction "q - p" arbitrary: p)
  case 0
  then have "p = q" by simp
  moreover have "(h + q) mod length ss < length ss" using q by (intro mod_less_divisor) auto
  ultimately show ?case
    using hit by (subst raw_insert_loop.simps) (simp add: md_set_key_at_def md_set_value_at_def)
next
  case (Suc d)
  then have p: "p < q" by simp
  have i: "(h + p) mod length ss < length ss" using q by (intro mod_less_divisor) auto
  have "raw_insert_loop ss nil sel m (length ss - 1) ((h + p) mod length ss) p =
    raw_insert_loop ss nil sel m (length ss - 1) ((h + (p + 1)) mod length ss) (p + 1)"
    using i before p q and_mask_mod [OF l, of "(h + p) mod length ss + 1"]
      mod_step [of h p "length ss"]
    by (subst raw_insert_loop.simps) (simp del: add_Suc_right raw_insert_loop.simps)
  also have "\<dots> = Inr (ss[(h + q) mod length ss := (sel, m)])" using Suc(1) [of "p + 1"] Suc(2) p by simp
  finally show ?case .
qed

section \<open>The map of a well-formed table\<close>

lemma distinct_keys_iff:
  "distinct (map fst (filter (\<lambda>(k, v). k \<noteq> nil) ss)) \<longleftrightarrow>
     (\<forall>i < length ss. \<forall>j < length ss. fst (ss ! i) = fst (ss ! j) \<and> fst (ss ! i) \<noteq> nil \<longrightarrow> i = j)"
proof (induction ss)
  case (Cons x ss)
  let ?fresh = "fst x \<noteq> nil \<longrightarrow> (\<forall>j < length ss. fst (ss ! j) \<noteq> fst x)"
  have "(\<forall>i < length (x # ss). \<forall>j < length (x # ss).
      fst ((x # ss) ! i) = fst ((x # ss) ! j) \<and> fst ((x # ss) ! i) \<noteq> nil \<longrightarrow> i = j) \<longleftrightarrow>
    ?fresh \<and> (\<forall>i < length ss. \<forall>j < length ss. fst (ss ! i) = fst (ss ! j) \<and> fst (ss ! i) \<noteq> nil \<longrightarrow> i = j)"
    by (auto simp: All_less_Suc2)
  moreover have "fst x \<noteq> nil \<Longrightarrow> fst x \<in> fst ` set (filter (\<lambda>(k, v). k \<noteq> nil) ss) \<longleftrightarrow> \<not> ?fresh"
    by (auto simp: in_set_conv_nth image_iff) (metis fst_conv prod.collapse)+
  ultimately show ?case using Cons by (cases x) auto
qed simp

lemma md_map_Some_iff:
  assumes "distinct (map fst (filter (\<lambda>(k, v). k \<noteq> env_nil env) ss))"
  shows "md_map env ss k = Some v \<longleftrightarrow> k \<noteq> env_nil env \<and> (\<exists>i < length ss. ss ! i = (k, v))"
  using assms by (auto simp: md_map_def in_set_conv_nth)

lemma md_map_None_iff:
  "md_map env ss k = None \<longleftrightarrow> k = env_nil env \<or> (\<forall>i < length ss. fst (ss ! i) \<noteq> k)"
  by (force simp: md_map_def map_of_eq_None_iff in_set_conv_nth)

text \<open>Writing a pair into an empty slot, or over the same key, keeps the keys distinct and updates
  the map at one key.\<close>

lemma distinct_keys_update:
  assumes d: "distinct (map fst (filter (\<lambda>(k, v). k \<noteq> nil) ss))" and "i < length ss"
    and "fst (ss ! i) = k \<or> fst (ss ! i) = nil \<and> (\<forall>j < length ss. fst (ss ! j) \<noteq> k)"
  shows "distinct (map fst (filter (\<lambda>(k, v). k \<noteq> nil) (ss[i := (k, v)])))"
  using assms unfolding distinct_keys_iff by (auto simp: nth_list_update) metis+

lemma md_map_update:
  assumes d: "distinct (map fst (filter (\<lambda>(k, v). k \<noteq> env_nil env) ss))" and i: "i < length ss" and k: "k \<noteq> env_nil env"
    and s: "fst (ss ! i) = k \<or> fst (ss ! i) = env_nil env \<and> (\<forall>j < length ss. fst (ss ! j) \<noteq> k)"
  shows "md_map env (ss[i := (k, v)]) = (md_map env ss)(k \<mapsto> v)"
proof
  fix x
  note d' = distinct_keys_update [OF d i s, of v]
  show "md_map env (ss[i := (k, v)]) x = ((md_map env ss)(k \<mapsto> v)) x"
  proof (cases "x = k")
    case True
    then show ?thesis using md_map_Some_iff [OF d', of k v] i k by auto
  next
    case False
    have "md_map env (ss[i := (k, v)]) x = Some w \<longleftrightarrow> md_map env ss x = Some w" for w
      unfolding md_map_Some_iff [OF d'] md_map_Some_iff [OF d]
      using False s i by (auto simp: nth_list_update) (metis fst_conv)+
    then show ?thesis using False by (metis fun_upd_other not_Some_eq)
  qed
qed

lemma occupied_update:
  assumes "i < length ss" and "k \<noteq> env_nil env"
  shows "occupied env (ss[i := (k, v)]) = occupied env ss + (if fst (ss ! i) = env_nil env then 1 else 0)"
  using assms unfolding occupied_def
  by (induction ss arbitrary: i) (auto split: nat.splits)

lemma table_wf_update:
  assumes wf: "table_wf env ss" and i: "i < length ss" and k: "key_ok env k" and m: "env_is_method env m"
    and s: "fst (ss ! i) = k \<or> fst (ss ! i) = env_nil env \<and> (\<forall>j < length ss. fst (ss ! j) \<noteq> k)"
    and r: "\<exists>q < length ss. i = (env_hash env k + q) mod length ss
      \<and> (\<forall>p < q. fst (ss ! ((env_hash env k + p) mod length ss)) \<noteq> env_nil env)"
  shows "table_wf env (ss[i := (k, m)])"
proof -
  have kn: "k \<noteq> env_nil env" using k by (simp add: key_ok_def)
  have grow: "fst (ss[i := (k, m)] ! j) \<noteq> env_nil env" if "fst (ss ! j) \<noteq> env_nil env" for j
    using that kn i by (cases "i = j") auto
  have "reachable_key env (ss[i := (k, m)]) j" if j: "j < length ss" "fst (ss[i := (k, m)] ! j) \<noteq> env_nil env" for j
  proof (cases "j = i")
    case True
    obtain q where "q < length ss" "i = (env_hash env k + q) mod length ss"
      "\<forall>p < q. fst (ss ! ((env_hash env k + p) mod length ss)) \<noteq> env_nil env" using r by blast
    then show ?thesis using grow i True unfolding reachable_key_def by (auto intro!: exI [of _ q])
  next
    case False
    then have "reachable_key env ss j" using wf j by (simp add: table_wf_def)
    then show ?thesis using False grow unfolding reachable_key_def by auto
  qed
  moreover have "key_ok env (fst (ss[i := (k, m)] ! j)) \<and> env_is_method env (snd (ss[i := (k, m)] ! j))"
    if "j < length ss" "fst (ss[i := (k, m)] ! j) \<noteq> env_nil env" for j
    using that wf k m i by (cases "j = i") (auto simp: table_wf_def)
  ultimately show ?thesis
    using wf distinct_keys_update [OF _ i s] by (simp add: table_wf_def)
qed

section \<open>The operations\<close>

lemma table_wf_distinct: "table_wf env ss \<Longrightarrow> distinct (map fst (filter (\<lambda>(k, v). k \<noteq> env_nil env) ss))"
  by (simp add: table_wf_def)

lemma table_wf_pow: "table_wf env ss \<Longrightarrow> \<exists>n. length ss = 2 ^ n"
  by (simp add: table_wf_def)

lemma table_key_unique:
  assumes "table_wf env ss" and "i < length ss" "j < length ss" "fst (ss ! i) = fst (ss ! j)" "fst (ss ! i) \<noteq> env_nil env"
  shows "i = j"
  using table_wf_distinct [OF assms(1), unfolded distinct_keys_iff] assms(2-5) by blast

lemma probe_slot_hit:
  assumes wf: "table_wf env (md_slots d)" and j: "j < md_capacity d" and k: "fst (md_slots d ! j) = sel" "key_ok env sel"
  shows "probe_slot env d sel = Some (Inr (Some j))"
proof -
  let ?ss = "md_slots d" and ?h = "env_hash env sel"
  obtain n where l: "length ?ss = 2 ^ n" using table_wf_pow [OF wf] by blast
  have "reachable_key env ?ss j" using wf j k by (simp add: table_wf_def key_ok_def md_capacity_def)
  then obtain q where q: "q < length ?ss" "j = (?h + q) mod length ?ss"
    "\<forall>p < q. fst (?ss ! ((?h + p) mod length ?ss)) \<noteq> env_nil env"
    using k by (auto simp: reachable_key_def)
  have "fst (?ss ! ((?h + p) mod length ?ss)) \<notin> {env_nil env, sel}" if p: "p < q" for p
  proof -
    have "fst (?ss ! ((?h + p) mod length ?ss)) \<noteq> sel"
    proof
      assume "fst (?ss ! ((?h + p) mod length ?ss)) = sel"
      moreover have "(?h + p) mod length ?ss < length ?ss" using q(1) by (intro mod_less_divisor) auto
      ultimately have "(?h + p) mod length ?ss = (?h + q) mod length ?ss"
        using table_key_unique [OF wf] j k q(2) by (auto simp: md_capacity_def key_ok_def)
      from mod_lap_inj [OF this] p q(1) show False by linarith
    qed
    then show ?thesis using p q(3) by auto
  qed
  then have "probe_loop ?ss (env_nil env) sel (length ?ss - 1) (?h mod length ?ss) ((?h + 0) mod length ?ss)
      = Some (Inr (Some ((?h + q) mod length ?ss)))"
    using q(1,2) k by (intro probe_loop_hit [OF l]) (auto simp: key_ok_def)
  then show ?thesis
    using k q and_mask_mod [OF l, of ?h] by (auto simp: probe_slot_def md_capacity_def key_ok_def Let_def)
qed

lemma probe_slot_miss:
  assumes wf: "md_slots d = [] \<or> table_wf env (md_slots d)" and k: "\<forall>j < md_capacity d. fst (md_slots d ! j) \<noteq> sel"
    and "key_ok env sel"
  shows "probe_slot env d sel = Some (Inr None)"
proof (cases "md_slots d = []")
  case False
  then obtain n where l: "length (md_slots d) = 2 ^ n" using table_wf_pow wf by blast
  show ?thesis
    using probe_loop_miss [OF l, of 0 sel "env_nil env" "env_hash env sel"] False assms(2,3) and_mask_mod [OF l, of "env_hash env sel"]
    by (simp add: probe_slot_def md_capacity_def key_ok_def Let_def)
qed (simp add: probe_slot_def md_capacity_def)

text \<open>With a free slot, \<open>raw_insert_new\<close> never panics and adds the pair to the map.\<close>

lemma free_slot:
  assumes "occupied env ss < length ss" shows "\<exists>j < length ss. fst (ss ! j) = env_nil env"
proof (rule ccontr)
  assume "\<not> ?thesis"
  then have "\<forall>x \<in> set ss. (\<lambda>(k, v). k \<noteq> env_nil env) x" by (auto simp: in_set_conv_nth) (metis fst_conv)
  then show False using assms by (simp add: occupied_def)
qed

lemma home_distance: "j < l \<Longrightarrow> \<exists>q < l. j = (h + q) mod l" for j l h :: nat
proof -
  assume j: "j < l"
  have "(h + (j + (l - h mod l)) mod l) mod l = j"
  proof -
    have "(h + (j + (l - h mod l)) mod l) mod l = (h mod l + (j + (l - h mod l))) mod l"
      by (simp add: mod_add_left_eq mod_add_right_eq)
    also have "\<dots> = (j + l) mod l" using j mod_less_divisor [of l h] by (intro arg_cong [of _ _ "\<lambda>x. x mod l"]) linarith
    finally show ?thesis using j by simp
  qed
  then show ?thesis using j by (metis mod_less_divisor gr_implies_not0 gr0I)
qed

lemma raw_insert_new_ok:
  assumes wf: "table_wf env ss" and free: "occupied env ss < length ss" and k: "key_ok env k" and m: "env_is_method env m"
    and fresh: "\<forall>j < length ss. fst (ss ! j) \<noteq> k"
  shows "\<exists>ss'. raw_insert_new env ss k m = Inr ss' \<and> table_wf env ss' \<and> length ss' = length ss
    \<and> md_map env ss' = (md_map env ss)(k \<mapsto> m) \<and> occupied env ss' = occupied env ss + 1"
proof -
  let ?h = "env_hash env k" and ?l = "length ss"
  let ?at = "\<lambda>q. fst (ss ! ((?h + q) mod ?l))"
  obtain n where l: "?l = 2 ^ n" using table_wf_pow [OF wf] by blast
  obtain q0 where q0: "q0 < ?l \<and> ?at q0 = env_nil env" using free_slot [OF free] home_distance by metis
  have "\<exists>q. (q < ?l \<and> ?at q = env_nil env) \<and> (\<forall>r < q. \<not> (r < ?l \<and> ?at r = env_nil env))"
    using q0 by (intro exists_least_iff [THEN iffD1]) blast
  then obtain q where q: "q < ?l" "?at q = env_nil env" and before: "\<forall>r < q. ?at r \<noteq> env_nil env"
    using less_trans by blast
  let ?i = "(?h + q) mod ?l"
  have i: "?i < ?l" using q(1) by (intro mod_less_divisor) auto
  have "raw_insert_loop ss (env_nil env) k m (?l - 1) ((?h + 0) mod ?l) 0 = Inr (ss[?i := (k, m)])"
    by (rule raw_insert_loop_finds [OF l q(1) _ q(2) before]) simp
  then have "raw_insert_new env ss k m = Inr (ss[?i := (k, m)])"
    using q(1) and_mask_mod [OF l, of ?h] by (simp add: raw_insert_new_def del: raw_insert_loop.simps)
  moreover have kn: "k \<noteq> env_nil env" using k by (simp add: key_ok_def)
  moreover have s: "?at q = k \<or> ?at q = env_nil env \<and> (\<forall>j < ?l. fst (ss ! j) \<noteq> k)" using q(2) fresh by simp
  moreover have "table_wf env (ss[?i := (k, m)])" using table_wf_update [OF wf i k m s] q(1) before by blast
  ultimately show ?thesis
    using md_map_update [OF table_wf_distinct [OF wf] i kn s] occupied_update [OF i kn] q(2) by auto
qed

lemma rehash_ok:
  assumes "table_wf env g" and "occupied env g + occupied env old < length g"
    and "distinct (map fst (filter (\<lambda>(k, v). k \<noteq> env_nil env) old))"
    and "\<forall>(k, v) \<in> set old. k \<noteq> env_nil env \<longrightarrow> key_ok env k \<and> env_is_method env v \<and> md_map env g k = None"
  shows "\<exists>g'. rehash env g old = Inr g' \<and> table_wf env g' \<and> length g' = length g
    \<and> md_map env g' = md_map env g ++ md_map env old \<and> occupied env g' = occupied env g + occupied env old"
  using assms
proof (induction old arbitrary: g)
  case Nil
  then show ?case by (simp add: md_map_def occupied_def)
next
  case (Cons x old)
  obtain k v where x: "x = (k, v)" by fastforce
  show ?case
  proof (cases "k = env_nil env")
    case True
    then show ?thesis using Cons x by (simp add: md_map_def occupied_def)
  next
    case False
    then have kv: "key_ok env k" "env_is_method env v" "\<forall>j < length g. fst (g ! j) \<noteq> k"
      using Cons.prems(4) x by (auto simp: md_map_None_iff)
    have "occupied env g < length g" using Cons.prems(2) by simp
    from raw_insert_new_ok [OF Cons.prems(1) this kv] obtain g1 where g1: "raw_insert_new env g k v = Inr g1"
      "table_wf env g1" "length g1 = length g" "md_map env g1 = (md_map env g)(k \<mapsto> v)" "occupied env g1 = occupied env g + 1"
      by blast
    have occ: "occupied env (x # old) = occupied env old + 1" using False x by (simp add: occupied_def)
    have fresh: "k \<notin> fst ` set (filter (\<lambda>(k, v). k \<noteq> env_nil env) old)" using Cons.prems(3) False x by simp
    have "\<exists>g'. rehash env g1 old = Inr g' \<and> table_wf env g' \<and> length g' = length g1
      \<and> md_map env g' = md_map env g1 ++ md_map env old \<and> occupied env g' = occupied env g1 + occupied env old"
    proof (rule Cons.IH [OF g1(2)])
      show "occupied env g1 + occupied env old < length g1" using Cons.prems(2) occ g1 by simp
      show "distinct (map fst (filter (\<lambda>(k, v). k \<noteq> env_nil env) old))" using Cons.prems(3) False x by simp
      show "\<forall>(k, v) \<in> set old. k \<noteq> env_nil env \<longrightarrow> key_ok env k \<and> env_is_method env v \<and> md_map env g1 k = None"
        using Cons.prems(4) fresh g1(4) by (auto simp: image_iff)
    qed
    moreover have "md_map env g1 ++ md_map env old = md_map env g ++ md_map env (x # old)"
    proof -
      have "md_map env old k = None" using fresh by (simp add: md_map_def map_of_eq_None_iff)
      then show ?thesis using False x g1(4) by (auto simp: md_map_def map_add_def fun_eq_iff split: option.splits)
    qed
    ultimately show ?thesis
      using g1 False x kv occ by (auto simp: symbol_try_from_def method_try_from_def key_ok_def)
  qed
qed

lemma empty_table:
  "table_wf env (replicate (2 ^ n) (env_nil env, env_nil env))"
  "md_map env (replicate l (env_nil env, env_nil env)) = Map.empty"
  "occupied env (replicate l (env_nil env, env_nil env)) = 0"
  by (auto simp: table_wf_def md_map_def occupied_def)

lemma md_inv_slots_wf: "md_inv env d \<Longrightarrow> md_slots d \<noteq> [] \<Longrightarrow> table_wf env (md_slots d)"
  by (auto simp: md_inv_def)

lemma grown_capacity:
  assumes "md_inv env d" shows "\<exists>n. max (md_capacity d * 2) 8 = 2 ^ n"
proof (cases "md_slots d = []")
  case True
  then show ?thesis by (intro exI [of _ 3]) (simp add: md_capacity_def)
next
  case False
  then obtain n where n: "md_capacity d = 2 ^ n" using table_wf_pow assms md_inv_slots_wf by (metis md_capacity_def)
  show ?thesis
  proof (cases "n < 2")
    case True
    then have "n = 0 \<or> n = 1" by auto
    then show ?thesis using n by (intro exI [of _ 3]) auto
  next
    case False
    then have "(2::nat) ^ 2 \<le> 2 ^ n" by (intro power_increasing) auto
    then show ?thesis using n by (intro exI [of _ "n + 1"]) (simp add: max_def)
  qed
qed

lemma is_power_of_two_exp: "is_power_of_two (2 ^ n)"
  using take_bit_eq_mask [of n "2 ^ n :: nat"] by (simp add: is_power_of_two_def mask_eq_exp_minus_1)

lemma md_grow_ok:
  assumes inv: "md_inv env d"
  shows "\<exists>d'. md_grow env d = Inr d' \<and> md_inv env d' \<and> table_wf env (md_slots d')
    \<and> md_map env (md_slots d') = md_map env (md_slots d) \<and> md_tally d' = md_tally d
    \<and> 4 * (md_tally d' + 1) \<le> 3 * md_capacity d'"
proof -
  let ?c = "max (md_capacity d * 2) 8" and ?e = "(env_nil env, env_nil env)"
  obtain n where n: "?c = 2 ^ n" using grown_capacity [OF inv] by blast
  have occ: "occupied env (md_slots d) \<le> md_capacity d" by (simp add: occupied_def md_capacity_def)
  have "\<exists>g'. rehash env (replicate ?c ?e) (md_slots d) = Inr g' \<and> table_wf env g' \<and> length g' = length (replicate ?c ?e)
    \<and> md_map env g' = md_map env (replicate ?c ?e) ++ md_map env (md_slots d)
    \<and> occupied env g' = occupied env (replicate ?c ?e) + occupied env (md_slots d)"
  proof (rule rehash_ok)
    show "table_wf env (replicate ?c ?e)" unfolding n by (rule empty_table)
    show "occupied env (replicate ?c ?e) + occupied env (md_slots d) < length (replicate ?c ?e)"
      using occ by (simp add: empty_table)
    show "distinct (map fst (filter (\<lambda>(k, v). k \<noteq> env_nil env) (md_slots d)))"
      using inv table_wf_distinct by (fastforce simp: md_inv_def)
    show "\<forall>(k, v) \<in> set (md_slots d). k \<noteq> env_nil env \<longrightarrow>
        key_ok env k \<and> env_is_method env v \<and> md_map env (replicate ?c ?e) k = None"
      using inv by (fastforce simp: md_inv_def table_wf_def empty_table in_set_conv_nth)
  qed
  then obtain g where g: "rehash env (replicate ?c ?e) (md_slots d) = Inr g" "table_wf env g" "length g = ?c"
    "md_map env g = md_map env (md_slots d)" "occupied env g = occupied env (md_slots d)"
    by (auto simp: empty_table)
  have t: "md_tally d = occupied env (md_slots d)" "4 * md_tally d \<le> 3 * md_capacity d"
    using inv by (simp_all add: md_inv_def)
  have "md_grow env d = Inr \<lparr>md_tally = md_tally d, md_slots = g\<rparr>"
    using g(1) is_power_of_two_exp [of n] n by (simp add: md_grow_def alloc_method_dict_def)
  moreover have "4 * (md_tally d + 1) \<le> 3 * ?c" using t(2) by (simp add: max_def)
  ultimately show ?thesis using g t by (simp add: md_inv_def md_capacity_def)
qed

lemma insert_new_ok:
  assumes inv: "md_inv env d" and k: "key_ok env k" and m: "env_is_method env m"
    and fresh: "\<forall>j < md_capacity d. fst (md_slots d ! j) \<noteq> k"
  shows "\<exists>d' es. insert_new env d k m = Inr (d', es) \<and> md_inv env d' \<and> last es = Post_write_barrier
    \<and> md_map env (md_slots d') = (md_map env (md_slots d))(k \<mapsto> m)"
proof -
  let ?grows = "md_capacity d = 0 \<or> 4 * (md_tally d + 1) > 3 * md_capacity d"
  obtain d1 where d1: "(if ?grows then md_grow env d else Inr d) = Inr d1" "md_inv env d1" "table_wf env (md_slots d1)"
    "md_map env (md_slots d1) = md_map env (md_slots d)" "4 * (md_tally d1 + 1) \<le> 3 * md_capacity d1"
  proof (cases ?grows)
    case True
    then show ?thesis using md_grow_ok [OF inv] that by auto
  next
    case False
    then have "md_slots d \<noteq> []" by (auto simp: md_capacity_def)
    then show ?thesis using False inv md_inv_slots_wf [OF inv] that by simp
  qed
  have "md_map env (md_slots d) k = None" using fresh by (simp add: md_map_None_iff md_capacity_def)
  then have fresh1: "\<forall>j < length (md_slots d1). fst (md_slots d1 ! j) \<noteq> k"
    using d1(4) k by (metis key_ok_def md_map_None_iff)
  have t: "md_tally d1 = occupied env (md_slots d1)" using d1(2) by (simp add: md_inv_def)
  then have "occupied env (md_slots d1) < length (md_slots d1)" using d1(5) by (simp add: md_capacity_def)
  from raw_insert_new_ok [OF d1(3) this k m fresh1] obtain ss where ss: "raw_insert_new env (md_slots d1) k m = Inr ss"
    "table_wf env ss" "length ss = length (md_slots d1)" "md_map env ss = (md_map env (md_slots d1))(k \<mapsto> m)"
    "occupied env ss = occupied env (md_slots d1) + 1" by blast
  have "insert_new env d k m = Inr (\<lparr>md_tally = md_tally d1 + 1, md_slots = ss\<rparr>,
      (if ?grows then [Alloc_dict (max (md_capacity d * 2) 8)] else []) @ [Post_write_barrier])"
    unfolding insert_new_def Let_def d1(1) by (simp add: ss(1))
  then show ?thesis using ss t d1(4,5) by (simp add: md_inv_def md_capacity_def)
qed

lemma overwrite_ok:
  assumes inv: "md_inv env d" and k: "key_ok env k" and m: "env_is_method env m"
    and j: "j < md_capacity d" "fst (md_slots d ! j) = k"
  shows "md_inv env (d\<lparr>md_slots := (md_slots d)[j := (k, m)]\<rparr>)"
    and "md_map env ((md_slots d)[j := (k, m)]) = (md_map env (md_slots d))(k \<mapsto> m)"
proof -
  let ?ss = "md_slots d"
  have l: "j < length ?ss" using j(1) by (simp add: md_capacity_def)
  then have wf: "table_wf env ?ss" using md_inv_slots_wf [OF inv] by force
  have kn: "k \<noteq> env_nil env" using k by (simp add: key_ok_def)
  have s: "fst (?ss ! j) = k \<or> fst (?ss ! j) = env_nil env \<and> (\<forall>j < length ?ss. fst (?ss ! j) \<noteq> k)" using j(2) by simp
  have "reachable_key env ?ss j" using wf l j kn by (simp add: table_wf_def)
  then have "table_wf env (?ss[j := (k, m)])"
    using j(2) by (intro table_wf_update [OF wf l k m s]) (simp add: reachable_key_def)
  then show "md_inv env (d\<lparr>md_slots := (md_slots d)[j := (k, m)]\<rparr>)"
    using inv occupied_update [OF l kn] j(2) kn by (simp add: md_inv_def md_capacity_def)
  show "md_map env (?ss[j := (k, m)]) = (md_map env ?ss)(k \<mapsto> m)"
    by (rule md_map_update [OF table_wf_distinct [OF wf] l kn s])
qed

lemma probe_ok:
  assumes inv: "md_inv env d" and k: "key_ok env k"
  shows "probe env d k = Some (Inr (md_map env (md_slots d) k))"
proof (cases "\<exists>j < md_capacity d. fst (md_slots d ! j) = k")
  case True
  then obtain j where j: "j < md_capacity d" "fst (md_slots d ! j) = k" by blast
  then have wf: "table_wf env (md_slots d)" using md_inv_slots_wf [OF inv] by (force simp: md_capacity_def)
  have "md_map env (md_slots d) k = Some (snd (md_slots d ! j))"
    using md_map_Some_iff [OF table_wf_distinct [OF wf]] j k by (metis key_ok_def md_capacity_def prod.collapse)
  moreover have "env_is_method env (snd (md_slots d ! j))"
    using wf j k by (simp add: table_wf_def md_capacity_def key_ok_def)
  ultimately show ?thesis
    using probe_slot_hit [OF wf j k] j by (simp add: probe_def method_try_from_def md_capacity_def)
next
  case False
  then have "md_map env (md_slots d) k = None" by (simp add: md_map_None_iff md_capacity_def)
  then show ?thesis using probe_slot_miss [of d env k] False inv k by (auto simp: probe_def md_inv_def)
qed

lemma md_insert_ok:
  assumes inv: "md_inv env d" and k: "key_ok env k" and m: "env_is_method env m"
  shows "\<exists>d' es. md_insert env d k m = Some (Inr (d', es)) \<and> md_inv env d' \<and> last es = Post_write_barrier
    \<and> md_map env (md_slots d') = (md_map env (md_slots d))(k \<mapsto> m)"
proof (cases "\<exists>j < md_capacity d. fst (md_slots d ! j) = k")
  case True
  then obtain j where j: "j < md_capacity d" "fst (md_slots d ! j) = k" by blast
  then have "probe_slot env d k = Some (Inr (Some j))"
    using probe_slot_hit [OF _ j k] md_inv_slots_wf [OF inv] by (force simp: md_capacity_def)
  then show ?thesis
    using overwrite_ok [OF inv k m j] j by (auto simp: md_insert_def md_set_value_at_def md_capacity_def)
next
  case False
  then have "probe_slot env d k = Some (Inr None)"
    using probe_slot_miss [of d env k] inv k by (auto simp: md_inv_def)
  then show ?thesis using insert_new_ok [OF inv k m] False by (simp add: md_insert_def)
qed

text \<open>
  The contract a selector table owes its clients (method lookup, method installation): probing is
  total and reads the table's map, and inserting is total and updates it at one key.
\<close>

locale selector_table =
  fixes tinv :: "'t \<Rightarrow> bool" and tmap :: "'t \<Rightarrow> 'k \<rightharpoonup> 'v"
    and tkey :: "'k \<Rightarrow> bool" and tval :: "'v \<Rightarrow> bool"
    and tprobe :: "'t \<Rightarrow> 'k \<Rightarrow> 'v option res option"
    and tinsert :: "'t \<Rightarrow> 'k \<Rightarrow> 'v \<Rightarrow> ('t \<times> 'e) res option"
  assumes probe_map: "tinv t \<Longrightarrow> tkey k \<Longrightarrow> tprobe t k = Some (Inr (tmap t k))"
    and insert_map: "tinv t \<Longrightarrow> tkey k \<Longrightarrow> tval v \<Longrightarrow>
      \<exists>t' e. tinsert t k v = Some (Inr (t', e)) \<and> tinv t' \<and> tmap t' = (tmap t)(k \<mapsto> v)"
begin

lemma probe_after_insert:
  assumes "tinv t" "tkey k" "tval v" "tinsert t k v = Some (Inr (t', e))" "tkey k'"
  shows "tprobe t' k' = Some (Inr (if k' = k then Some v else tmap t k'))"
  using insert_map [OF assms(1-3)] assms(4) probe_map [OF _ assms(5), of t'] by auto

lemma insert_all_map:
  assumes "tinv t" and "\<forall>(k, v) \<in> set kvs. tkey k \<and> tval v"
  shows "\<exists>t'. insert_all tinsert t kvs = Some (Inr t') \<and> tinv t' \<and> tmap t' = tmap t ++ map_of (rev kvs)"
  using assms
proof (induction kvs arbitrary: t)
  case (Cons kv kvs)
  obtain k v where kv: "kv = (k, v)" by fastforce
  from insert_map [OF Cons.prems(1), of k v] Cons.prems(2) kv obtain t1 e where
    t1: "tinsert t k v = Some (Inr (t1, e))" "tinv t1" "tmap t1 = (tmap t)(k \<mapsto> v)" by auto
  have "tmap t1 ++ map_of (rev kvs) = tmap t ++ map_of (rev (kv # kvs))"
    by (rule ext) (simp add: kv t1(3) map_add_def split: option.splits)
  with Cons.IH [OF t1(2)] Cons.prems(2) t1(1) kv show ?case by auto
qed simp

end

interpretation md_table: selector_table "md_inv env" "\<lambda>d. md_map env (md_slots d)" "key_ok env" "env_is_method env"
  "probe env" "md_insert env" for env
  by unfold_locales (use probe_ok md_insert_ok in blast)+

lemma occupied_card_dom:
  assumes "table_wf env ss \<or> ss = []" shows "occupied env ss = card (dom (md_map env ss))"
proof -
  let ?f = "filter (\<lambda>(k, v). k \<noteq> env_nil env) ss"
  have "distinct (map fst ?f)" using assms table_wf_distinct by fastforce
  then have "card (fst ` set ?f) = length ?f" using distinct_card [of "map fst ?f"] by simp
  then show ?thesis by (simp add: occupied_def md_map_def dom_map_of_conv_image_fst)
qed

lemma each_pair_from_collect:
  assumes "table_wf env ss" and "set is \<subseteq> {..<length ss}"
  shows "each_pair_from env ss (\<lambda>xs k v. xs @ [(k, v)]) acc is =
    Inr (acc @ filter (\<lambda>(k, v). k \<noteq> env_nil env) (map ((!) ss) is))"
  using assms(2)
proof (induction "is" arbitrary: acc)
  case (Cons i "is")
  then have i: "i < length ss" by simp
  have "key_ok env (fst (ss ! i)) \<and> env_is_method env (snd (ss ! i))" if "fst (ss ! i) \<noteq> env_nil env"
    using assms(1) i that by (simp add: table_wf_def)
  then show ?case
    using Cons i by (cases "ss ! i") (auto simp: symbol_try_from_def method_try_from_def key_ok_def)
qed simp

section \<open>Properties\<close>

text \<open>C7: the method dictionary implements finite-map update. On a well-formed dictionary, inserting
  a binding always returns (neither the probe loop nor the insertion loop runs forever, and the
  full-table panic is unreachable), whether it overwrites, uses a free slot or grows and rehashes the
  table; the result is well-formed, probing it for any selector returns the new binding for the
  inserted selector and the old one for every other, and the write barrier is the last call made.\<close>

theorem method_dict_insert_correct:
  assumes "md_inv env d" and "key_ok env sel" and "env_is_method env m"
  shows "\<exists>d' es. md_insert env d sel m = Some (Inr (d', es)) \<and> md_inv env d' \<and> last es = Post_write_barrier
    \<and> probe env d' sel = Some (Inr (Some m))
    \<and> (\<forall>s. key_ok env s \<and> s \<noteq> sel \<longrightarrow> probe env d' s = probe env d s)"
proof -
  obtain d' es where d': "md_insert env d sel m = Some (Inr (d', es))" "md_inv env d'" "last es = Post_write_barrier"
    using md_insert_ok [OF assms] by blast
  note p = md_table.probe_after_insert [OF assms d'(1)]
  have "probe env d' s = probe env d s" if "key_ok env s" "s \<noteq> sel" for s
    using p [OF that(1)] that probe_ok [OF assms(1)] by simp
  with d' p [OF assms(2)] show ?thesis by auto
qed

text \<open>An environment in which the oops \<open>5, 9, 13, \<dots>\<close> are symbols hashed to one home slot, so that
  every insertion collides.\<close>

definition example_env :: md_env where
  "example_env = \<lparr>env_nil = 1, env_hash = (\<lambda>_. 7), env_is_symbol = (\<lambda>k. k \<noteq> 1), env_is_method = (\<lambda>_. True)\<rparr>"

definition example_dict :: mdict where
  "example_dict = \<lparr>md_tally = 0, md_slots = replicate 8 (1, 1)\<rparr>"

lemma example_dict_inv: "md_inv example_env example_dict"
  using empty_table(1) [of example_env 3] empty_table(3) [of example_env 8]
  by (simp add: md_inv_def example_dict_def md_capacity_def example_env_def)

theorem method_dict_insert_correct_witness:
  "\<exists>d' es. md_insert example_env example_dict 5 101 = Some (Inr (d', es)) \<and> probe example_env d' 5 = Some (Inr (Some 101))
     \<and> probe example_env d' 9 = probe example_env example_dict 9"
proof -
  have "key_ok example_env 5" "key_ok example_env 9" "env_is_method example_env 101"
    by (simp_all add: key_ok_def example_env_def)
  with method_dict_insert_correct [OF example_dict_inv, of 5 101] show ?thesis by auto
qed

text \<open>Any history of method insertions into a fresh dictionary. Starting from a newly allocated
  table of any power-of-two capacity that allows one entry, every sequence of insertions of valid
  selectors and methods runs to completion; afterwards a probe returns the most recent binding, the
  tally is the number of distinct selectors, the table is at most three quarters full and its
  capacity is a power of two.\<close>

lemma method_dict_history:
  assumes "alloc_method_dict env (2 ^ n) = Inr d0" and "\<forall>(k, v) \<in> set kvs. key_ok env k \<and> env_is_method env v"
  shows "\<exists>d. insert_all (md_insert env) d0 kvs = Some (Inr d)
    \<and> (\<forall>s. key_ok env s \<longrightarrow> probe env d s = Some (Inr (map_of (rev kvs) s)))
    \<and> md_tally d = card (fst ` set kvs) \<and> 4 * md_tally d \<le> 3 * md_capacity d \<and> (\<exists>j. md_capacity d = 2 ^ j)"
proof -
  have d0: "d0 = \<lparr>md_tally = 0, md_slots = replicate (2 ^ n) (env_nil env, env_nil env)\<rparr>"
    using assms(1) by (simp add: alloc_method_dict_def guard_res_Inr_iff)
  then have inv: "md_inv env d0" by (simp add: md_inv_def empty_table md_capacity_def)
  obtain d where d: "insert_all (md_insert env) d0 kvs = Some (Inr d)" "md_inv env d"
    "md_map env (md_slots d) = md_map env (md_slots d0) ++ map_of (rev kvs)"
    using md_table.insert_all_map [OF inv assms(2)] by blast
  then have map: "md_map env (md_slots d) = map_of (rev kvs)" using d0 by (simp add: empty_table)
  have "md_tally d = card (dom (md_map env (md_slots d)))"
    using d(2) occupied_card_dom [of env "md_slots d"] by (auto simp: md_inv_def)
  then have "md_tally d = card (fst ` set kvs)" by (simp add: map dom_map_of_conv_image_fst)
  moreover have "\<exists>j. md_capacity d = 2 ^ j"
  proof (cases "kvs = []")
    case True
    then show ?thesis using d(1) d0 by (auto simp: md_capacity_def)
  next
    case False
    then have "0 < md_tally d" using calculation by (simp add: card_gt_0_iff)
    then have "md_slots d \<noteq> []" using d(2) by (auto simp: md_inv_def occupied_def)
    then show ?thesis using table_wf_pow [OF md_inv_slots_wf [OF d(2)]] by (simp add: md_capacity_def)
  qed
  ultimately show ?thesis using d(1,2) probe_ok [OF d(2)] map by (simp add: md_inv_def)
qed

text \<open>Enumerating a well-formed dictionary visits every binding exactly once and nothing else: the
  visited pairs have distinct selectors and, as an association list, give the result of probing.\<close>

lemma each_pair_enumerates:
  assumes "md_inv env d"
  shows "\<exists>kvs. each_pair env d (\<lambda>xs k v. xs @ [(k, v)]) [] = Inr kvs \<and> distinct (map fst kvs)
    \<and> length kvs = md_tally d \<and> (\<forall>s. key_ok env s \<longrightarrow> probe env d s = Some (Inr (map_of kvs s)))"
proof (cases "md_slots d = []")
  case True
  then show ?thesis using assms probe_ok [OF assms]
    by (simp add: each_pair_def md_capacity_def md_inv_def occupied_def md_map_def)
next
  case False
  let ?ss = "md_slots d"
  have wf: "table_wf env ?ss" using md_inv_slots_wf [OF assms False] .
  have "each_pair env d (\<lambda>xs k v. xs @ [(k, v)]) [] = Inr (filter (\<lambda>(k, v). k \<noteq> env_nil env) ?ss)"
    using each_pair_from_collect [OF wf, of "[0..<length ?ss]" "[]"]
    by (simp add: each_pair_def md_capacity_def map_nth subset_iff)
  then show ?thesis
    using probe_ok [OF assms] table_wf_distinct [OF wf] assms by (simp add: md_map_def md_inv_def occupied_def)
qed

end
