(* ===== verification/Lookup.thy ===== *)
theory Lookup
  imports MethodDict
begin

unbundle bit_operations_syntax

text \<open>
  Method lookup, the two-way lookup cache and method installation
  (\<open>src/src/runtime/lookup.rs\<close>).

  \<open>lk_vm\<close> is the part of the VM state the component reads and writes: the class objects (their method
  dictionary and superclass field), the method objects (holder, block flag, literals), the lookup
  cache and the inline-cache epoch. \<open>lv_methods\<close> maps exactly the oops that \<open>MethodOop::try_from\<close>
  accepts. Walks that follow the heap's pointers (the superclass chain, the literal graph) return
  \<open>None\<close> if they never end. Calls into other components are listed as effects. The debugger hook at
  the end of \<open>install_method\<close>, which runs only with a debugging session active, is left out.
\<close>

section \<open>State\<close>

record klass_obj =
  ko_methods :: "mdict option"
  ko_super :: oop

record method_obj =
  mo_holder :: oop
  mo_is_block :: bool
  mo_literals :: "oop list"

record cache_entry =
  ce_klass :: oop
  ce_selector :: oop
  ce_method :: oop

definition EMPTY :: cache_entry where
  "EMPTY = \<lparr>ce_klass = 0, ce_selector = 0, ce_method = 0\<rparr>"

definition LOOKUP_CACHE_SIZE :: nat where "LOOKUP_CACHE_SIZE = 4096"
definition IC_META_EPOCH_BITS :: nat where "IC_META_EPOCH_BITS = 24"

record lk_vm =
  lv_env :: md_env
  lv_smi_klass :: oop
  lv_header_klass :: "oop \<Rightarrow> oop"
  lv_classes :: "oop \<rightharpoonup> klass_obj"
  lv_methods :: "oop \<rightharpoonup> method_obj"
  lv_cache :: "cache_entry list"
  lv_epoch :: nat

datatype lk_effect =
    Dict_effect md_effect
  | Barrier_on oop
  | Invalidate_dependents oop oop

definition klass_of :: "lk_vm \<Rightarrow> oop \<Rightarrow> oop res" where
  "klass_of vm w =
     (if is_smi w then Inr (lv_smi_klass vm)
      else guard_res (is_mem w) Explicit_panic (Inr (lv_header_klass vm w)))"

section \<open>The lookup cache\<close>

definition ce_is_empty :: "cache_entry \<Rightarrow> bool" where
  "ce_is_empty e \<longleftrightarrow> ce_klass e = 0"

definition lookup_cache_new :: "cache_entry list" where
  "lookup_cache_new = replicate (2 * LOOKUP_CACHE_SIZE) EMPTY"

definition cache_hash :: "oop \<Rightarrow> oop \<Rightarrow> nat" where
  "cache_hash klass sel = unat (drop_bit 3 klass XOR drop_bit 3 sel) AND (LOOKUP_CACHE_SIZE - 1)"

definition ce_matches :: "cache_entry \<Rightarrow> oop \<Rightarrow> oop \<Rightarrow> bool" where
  "ce_matches e klass sel \<longleftrightarrow> \<not> ce_is_empty e \<and> ce_klass e = klass \<and> ce_selector e = sel"

definition cache_probe :: "md_env \<Rightarrow> cache_entry list \<Rightarrow> oop \<Rightarrow> oop \<Rightarrow> (cache_entry list \<times> oop option) res" where
  "cache_probe env c klass sel =
     (let h = cache_hash klass sel; primary = 2 * h; victim = 2 * h + 1 in
      guard_res (victim < length c) Index_out_of_bounds
       (let p = c ! primary; v = c ! victim in
        if ce_matches p klass sel then Inr (c, method_try_from env (ce_method p))
        else if ce_matches v klass sel then
          Inr (c[primary := v, victim := p], method_try_from env (ce_method v))
        else Inr (c, None)))"

definition cache_insert :: "cache_entry list \<Rightarrow> oop \<Rightarrow> oop \<Rightarrow> oop \<Rightarrow> cache_entry list res" where
  "cache_insert c klass sel m =
     (let h = cache_hash klass sel; primary = 2 * h; victim = 2 * h + 1 in
      guard_res (victim < length c) Index_out_of_bounds
       (Inr (c[victim := c ! primary,
               primary := \<lparr>ce_klass = klass, ce_selector = sel, ce_method = m\<rparr>])))"

definition cache_flush :: "cache_entry list \<Rightarrow> cache_entry list" where
  "cache_flush c = map (\<lambda>_. EMPTY) c"

section \<open>Lookup\<close>

partial_function (option) lookup_uncached :: "lk_vm \<Rightarrow> oop \<Rightarrow> oop \<Rightarrow> oop option res option" where
  "lookup_uncached vm k sel =
     (case lv_classes vm k of
        None \<Rightarrow> Some (Inl Explicit_panic)
      | Some ko \<Rightarrow>
         (case (case ko_methods ko of None \<Rightarrow> Some (Inr None) | Some d \<Rightarrow> probe (lv_env vm) d sel) of
            None \<Rightarrow> None
          | Some r \<Rightarrow>
             (case r of
                Inl e \<Rightarrow> Some (Inl e)
              | Inr (Some m) \<Rightarrow> Some (Inr (Some m))
              | Inr None \<Rightarrow>
                  if ko_super ko = env_nil (lv_env vm) then Some (Inr None)
                  else lookup_uncached vm (ko_super ko) sel)))"

definition lookup :: "lk_vm \<Rightarrow> oop \<Rightarrow> oop \<Rightarrow> (lk_vm \<times> oop option) res option" where
  "lookup vm klass sel =
     (case cache_probe (lv_env vm) (lv_cache vm) klass sel of
        Inl e \<Rightarrow> Some (Inl e)
      | Inr (c, Some m) \<Rightarrow> Some (Inr (vm\<lparr>lv_cache := c\<rparr>, Some m))
      | Inr (c, None) \<Rightarrow>
          (let vm = vm\<lparr>lv_cache := c\<rparr> in
           map_option (\<lambda>r. rbind r (\<lambda>hit. case hit of
               None \<Rightarrow> Inr (vm, None)
             | Some m \<Rightarrow> rbind (cache_insert (lv_cache vm) klass sel m) (\<lambda>c'. Inr (vm\<lparr>lv_cache := c'\<rparr>, Some m))))
             (lookup_uncached vm klass sel)))"

section \<open>Installing a method\<close>

text \<open>\<open>patch_block_holders\<close> is a depth-first recursion over the block literals; the literals still to be
  visited, in the order the recursion reaches them, are the argument \<open>todo\<close>.\<close>

partial_function (option) patch_blocks :: "oop \<Rightarrow> (oop \<rightharpoonup> method_obj) \<Rightarrow> oop list \<Rightarrow> (oop \<rightharpoonup> method_obj) option" where
  "patch_blocks klass ms todo =
     (case todo of
        [] \<Rightarrow> Some ms
      | w # rest \<Rightarrow>
         (case ms w of
            None \<Rightarrow> patch_blocks klass ms rest
          | Some blk \<Rightarrow>
              if mo_is_block blk
              then patch_blocks klass (ms(w \<mapsto> blk\<lparr>mo_holder := klass\<rparr>)) (mo_literals blk @ rest)
              else patch_blocks klass ms rest))"

definition patch_block_holders :: "oop \<Rightarrow> (oop \<rightharpoonup> method_obj) \<Rightarrow> oop list \<Rightarrow> (oop \<rightharpoonup> method_obj) option" where
  "patch_block_holders klass ms literals = patch_blocks klass ms literals"

definition installed :: "lk_vm \<Rightarrow> oop \<Rightarrow> klass_obj \<Rightarrow> mdict \<Rightarrow> (oop \<rightharpoonup> method_obj) \<Rightarrow> lk_vm" where
  "installed vm klass ko d ms =
     vm\<lparr>lv_classes := (lv_classes vm)(klass \<mapsto> ko\<lparr>ko_methods := Some d\<rparr>),
        lv_methods := ms,
        lv_cache := cache_flush (lv_cache vm),
        lv_epoch := lv_epoch vm + 1\<rparr>"

definition dict_or_new :: "md_env \<Rightarrow> klass_obj \<Rightarrow> mdict res" where
  "dict_or_new env ko = (case ko_methods ko of Some d \<Rightarrow> Inr d | None \<Rightarrow> alloc_method_dict env 8)"

definition install_method :: "lk_vm \<Rightarrow> oop \<Rightarrow> oop \<Rightarrow> oop \<Rightarrow> (lk_vm \<times> lk_effect list) res option" where
  "install_method vm klass sel m =
     (case lv_classes vm klass of
        None \<Rightarrow> Some (Inl Explicit_panic)
      | Some ko \<Rightarrow>
     (case dict_or_new (lv_env vm) ko of
        Inl e \<Rightarrow> Some (Inl e)
      | Inr d \<Rightarrow>
     (case md_insert (lv_env vm) d sel m of
        None \<Rightarrow> None
      | Some (Inl e) \<Rightarrow> Some (Inl e)
      | Some (Inr (d', es)) \<Rightarrow>
     (case lv_methods vm m of
        None \<Rightarrow> Some (Inl Explicit_panic)
      | Some mo \<Rightarrow>
     (case patch_block_holders klass ((lv_methods vm)(m \<mapsto> mo\<lparr>mo_holder := klass\<rparr>)) (mo_literals mo) of
        None \<Rightarrow> None
      | Some ms \<Rightarrow>
          let vm' = installed vm klass ko d' ms in
          Some (guard_res (lv_epoch vm' < 2 ^ IC_META_EPOCH_BITS) Assert_failed
            (Inr (vm', map Dict_effect es @ [Barrier_on klass, Barrier_on m, Invalidate_dependents klass sel]))))))))"

definition gc_epilogue :: "lk_vm \<Rightarrow> lk_vm" where
  "gc_epilogue vm = vm\<lparr>lv_cache := cache_flush (lv_cache vm)\<rparr>"

section \<open>Specification\<close>

text \<open>A superclass chain ends at a class whose superclass is nil; dispatch takes the first class of the
  chain that binds the selector.\<close>

inductive superchain :: "lk_vm \<Rightarrow> oop \<Rightarrow> oop list \<Rightarrow> bool" for vm where
  root: "lv_classes vm k = Some ko \<Longrightarrow> ko_super ko = env_nil (lv_env vm) \<Longrightarrow> superchain vm k [k]"
| sub: "lv_classes vm k = Some ko \<Longrightarrow> ko_super ko \<noteq> env_nil (lv_env vm) \<Longrightarrow> superchain vm (ko_super ko) ks \<Longrightarrow>
    superchain vm k (k # ks)"

inductive_cases superchainE: "superchain vm k ks"

definition own_binding :: "lk_vm \<Rightarrow> oop \<Rightarrow> oop \<Rightarrow> oop option" where
  "own_binding vm k sel =
     (case lv_classes vm k of None \<Rightarrow> None
      | Some ko \<Rightarrow> (case ko_methods ko of None \<Rightarrow> None | Some d \<Rightarrow> md_map (lv_env vm) (md_slots d) sel))"

fun first_binding :: "lk_vm \<Rightarrow> oop list \<Rightarrow> oop \<Rightarrow> oop option" where
  "first_binding vm [] sel = None"
| "first_binding vm (k # ks) sel = (case own_binding vm k sel of Some m \<Rightarrow> Some m | None \<Rightarrow> first_binding vm ks sel)"

definition dicts_ok :: "lk_vm \<Rightarrow> bool" where
  "dicts_ok vm \<longleftrightarrow> (\<forall>k ko d. lv_classes vm k = Some ko \<and> ko_methods ko = Some d \<longrightarrow> md_inv (lv_env vm) d)"

definition cache_coherent :: "lk_vm \<Rightarrow> bool" where
  "cache_coherent vm \<longleftrightarrow>
     length (lv_cache vm) = 2 * LOOKUP_CACHE_SIZE
     \<and> (\<forall>e \<in> set (lv_cache vm). \<not> ce_is_empty e \<longrightarrow>
          lookup_uncached vm (ce_klass e) (ce_selector e) = Some (Inr (Some (ce_method e)))
          \<and> env_is_method (lv_env vm) (ce_method e))"

text \<open>The blocks reachable from a list of literals.\<close>

inductive nested_block :: "(oop \<rightharpoonup> method_obj) \<Rightarrow> oop list \<Rightarrow> oop \<Rightarrow> bool" for ms ls where
  here: "w \<in> set ls \<Longrightarrow> ms w = Some blk \<Longrightarrow> mo_is_block blk \<Longrightarrow> nested_block ms ls w"
| deeper: "nested_block ms ls b \<Longrightarrow> ms b = Some bo \<Longrightarrow> w \<in> set (mo_literals bo) \<Longrightarrow>
    ms w = Some blk \<Longrightarrow> mo_is_block blk \<Longrightarrow> nested_block ms ls w"

definition block_rank :: "(oop \<rightharpoonup> method_obj) \<Rightarrow> (oop \<Rightarrow> nat) \<Rightarrow> bool" where
  "block_rank ms r \<longleftrightarrow> (\<forall>b bo w blk. ms b = Some bo \<and> mo_is_block bo \<and> w \<in> set (mo_literals bo)
     \<and> ms w = Some blk \<and> mo_is_block blk \<longrightarrow> r w < r b)"

text \<open>The operations of the component in any order.\<close>

inductive lk_step :: "lk_vm \<Rightarrow> lk_vm \<Rightarrow> bool" where
  do_lookup: "lookup vm k sel = Some (Inr (vm', r)) \<Longrightarrow> lk_step vm vm'"
| do_install: "install_method vm k sel m = Some (Inr (vm', es)) \<Longrightarrow> key_ok (lv_env vm) sel \<Longrightarrow>
    env_is_method (lv_env vm) m \<Longrightarrow> lk_step vm vm'"
| do_gc: "lk_step vm (gc_epilogue vm)"

section \<open>The cache\<close>

lemma cache_hash_less: "cache_hash klass sel < LOOKUP_CACHE_SIZE"
proof -
  have "cache_hash klass sel = take_bit 12 (unat (drop_bit 3 klass XOR drop_bit 3 sel))"
    by (simp add: cache_hash_def take_bit_eq_mask mask_eq_exp_minus_1 LOOKUP_CACHE_SIZE_def)
  also have "\<dots> < 2 ^ 12" by (rule take_bit_nat_less_exp)
  finally show ?thesis by (simp add: LOOKUP_CACHE_SIZE_def)
qed

lemma lookup_uncached_cache_upd_Some:
  assumes "lookup_uncached vm k sel = Some r"
  shows "lookup_uncached (vm\<lparr>lv_cache := c\<rparr>) k sel = Some r"
proof (rule lookup_uncached.raw_induct
    [where P = "\<lambda>vm k sel r. lookup_uncached (vm\<lparr>lv_cache := c\<rparr>) k sel = Some r", OF _ assms], goal_cases)
  case (1 f vm k sel r)
  from 1(2) 1(1) show ?case
    by (subst lookup_uncached.simps) (auto split: option.splits sum.splits if_splits)
qed

lemma lookup_uncached_cache_upd [simp]: "lookup_uncached (vm\<lparr>lv_cache := c\<rparr>) k sel = lookup_uncached vm k sel"
proof (cases "lookup_uncached (vm\<lparr>lv_cache := c\<rparr>) k sel")
  case None
  then show ?thesis using lookup_uncached_cache_upd_Some [of vm k sel _ c] by (cases "lookup_uncached vm k sel") auto
next
  case (Some r)
  then show ?thesis using lookup_uncached_cache_upd_Some [OF Some, of "lv_cache vm"] by simp
qed

lemma lookup_uncached_is_method:
  assumes "lookup_uncached vm k sel = Some (Inr (Some m))"
  shows "env_is_method (lv_env vm) m"
proof -
  have "(Inr (Some m) :: oop option res) = Inr (Some m) \<longrightarrow> env_is_method (lv_env vm) m"
  proof (rule lookup_uncached.raw_induct
      [where P = "\<lambda>vm k sel r. r = Inr (Some m) \<longrightarrow> env_is_method (lv_env vm) m", OF _ assms], goal_cases)
    case (1 f vm k sel r)
    from 1(2) 1(1) show ?case
      by (auto simp: probe_def method_try_from_def rbind_Inr_iff split: option.splits sum.splits if_splits)
  qed
  then show ?thesis by simp
qed

lemma cache_coherent_flush: "length (lv_cache vm) = 2 * LOOKUP_CACHE_SIZE \<Longrightarrow> cache_coherent (vm\<lparr>lv_cache := cache_flush (lv_cache vm)\<rparr>)"
  by (auto simp: cache_coherent_def cache_flush_def EMPTY_def ce_is_empty_def)

lemma cache_coherent_permute:
  assumes "cache_coherent vm" and "length c = length (lv_cache vm)" and "set c \<subseteq> set (lv_cache vm)"
  shows "cache_coherent (vm\<lparr>lv_cache := c\<rparr>)"
  using assms by (auto simp: cache_coherent_def)

lemma set_update2_subset: "i < length c \<Longrightarrow> j < length c \<Longrightarrow> set (c[i := c ! j, j := c ! i]) \<subseteq> set c"
  by (intro subsetI) (auto dest!: set_update_subset_insert [THEN subsetD])

lemma cache_probe_coherent:
  assumes coh: "cache_coherent vm"
  obtains c where "length c = length (lv_cache vm)" "set c \<subseteq> set (lv_cache vm)"
    and "cache_probe (lv_env vm) (lv_cache vm) k sel = Inr (c, None) \<or>
      (\<exists>m. cache_probe (lv_env vm) (lv_cache vm) k sel = Inr (c, Some m) \<and> lookup_uncached vm k sel = Some (Inr (Some m)))"
proof -
  let ?c = "lv_cache vm" and ?p = "2 * cache_hash k sel"
  have l: "?p + 1 < length ?c" using cache_hash_less [of k sel] coh by (simp add: cache_coherent_def)
  have hit: "lookup_uncached vm k sel = Some (Inr (Some (ce_method e))) \<and> env_is_method (lv_env vm) (ce_method e)"
    if "e \<in> set ?c" "ce_matches e k sel" for e
    using coh that by (auto simp: cache_coherent_def ce_matches_def)
  have mem: "?c ! ?p \<in> set ?c" "?c ! (?p + 1) \<in> set ?c" using l by simp_all
  show ?thesis
  proof (cases "ce_matches (?c ! ?p) k sel")
    case True
    then show ?thesis using that [of ?c] l hit [OF mem(1)]
      by (simp add: cache_probe_def Let_def method_try_from_def)
  next
    case False
    show ?thesis
    proof (cases "ce_matches (?c ! (?p + 1)) k sel")
      case True
      have "set (?c[?p := ?c ! (?p + 1), ?p + 1 := ?c ! ?p]) \<subseteq> set ?c" using l by (intro set_update2_subset) auto
      then show ?thesis
        using that [of "?c[?p := ?c ! (?p + 1), ?p + 1 := ?c ! ?p]"] l hit [OF mem(2)] True False
        by (simp add: cache_probe_def Let_def method_try_from_def)
    next
      case False
      then show ?thesis using that [of ?c] l \<open>\<not> ce_matches (?c ! ?p) k sel\<close> by (simp add: cache_probe_def Let_def)
    qed
  qed
qed

lemma cache_insert_coherent:
  assumes coh: "cache_coherent vm" and m: "lookup_uncached vm k sel = Some (Inr (Some m))"
  shows "\<exists>c'. cache_insert (lv_cache vm) k sel m = Inr c' \<and> cache_coherent (vm\<lparr>lv_cache := c'\<rparr>)"
proof -
  let ?c = "lv_cache vm" and ?p = "2 * cache_hash k sel" and ?e = "\<lparr>ce_klass = k, ce_selector = sel, ce_method = m\<rparr>"
  have l: "?p + 1 < length ?c" using cache_hash_less [of k sel] coh by (simp add: cache_coherent_def)
  have "set (?c[?p + 1 := ?c ! ?p, ?p := ?e]) \<subseteq> insert ?e (set ?c)"
    using l by (auto dest!: set_update_subset_insert [THEN subsetD])
  then have "cache_coherent (vm\<lparr>lv_cache := ?c[?p + 1 := ?c ! ?p, ?p := ?e]\<rparr>)"
    using coh m lookup_uncached_is_method [OF m] by (auto simp: cache_coherent_def)
  then show ?thesis using l by (simp add: cache_insert_def Let_def)
qed

lemma lookup_coherent:
  assumes coh: "cache_coherent vm"
  shows "map_option (map_sum id snd) (lookup vm k sel) = lookup_uncached vm k sel"
    and "lookup vm k sel = Some (Inr (vm', r)) \<Longrightarrow> cache_coherent vm' \<and> (\<exists>c. vm' = vm\<lparr>lv_cache := c\<rparr>)"
proof -
  from cache_probe_coherent [OF coh, of k sel] obtain c where
    c: "length c = length (lv_cache vm)" "set c \<subseteq> set (lv_cache vm)"
    and cases: "cache_probe (lv_env vm) (lv_cache vm) k sel = Inr (c, None) \<or>
      (\<exists>m. cache_probe (lv_env vm) (lv_cache vm) k sel = Inr (c, Some m) \<and> lookup_uncached vm k sel = Some (Inr (Some m)))"
    by blast
  have coh': "cache_coherent (vm\<lparr>lv_cache := c\<rparr>)" by (rule cache_coherent_permute [OF coh c])
  have *: "map_option (map_sum id snd) (lookup vm k sel) = lookup_uncached vm k sel \<and>
    (\<forall>vm' r. lookup vm k sel = Some (Inr (vm', r)) \<longrightarrow> cache_coherent vm' \<and> (\<exists>c. vm' = vm\<lparr>lv_cache := c\<rparr>))"
  proof (cases "\<exists>m. lookup_uncached vm k sel = Some (Inr (Some m))")
    case True
    then obtain m where m: "lookup_uncached vm k sel = Some (Inr (Some m))" by blast
    obtain c' where "cache_insert c k sel m = Inr c'" "cache_coherent (vm\<lparr>lv_cache := c'\<rparr>)"
      using cache_insert_coherent [OF coh', of k sel m] m by auto
    then show ?thesis using cases m coh' by (auto simp: lookup_def)
  next
    case False
    then have "cache_probe (lv_env vm) (lv_cache vm) k sel = Inr (c, None)" using cases by blast
    then show ?thesis using False coh'
      by (cases "lookup_uncached vm k sel") (auto simp: lookup_def Let_def rbind_def split: option.splits sum.splits)
  qed
  then show "map_option (map_sum id snd) (lookup vm k sel) = lookup_uncached vm k sel"
    and "lookup vm k sel = Some (Inr (vm', r)) \<Longrightarrow> cache_coherent vm' \<and> (\<exists>c. vm' = vm\<lparr>lv_cache := c\<rparr>)"
    by blast+
qed

section \<open>Dispatch along the superclass chain\<close>

lemma probe_own_binding:
  assumes "dicts_ok vm" and "key_ok (lv_env vm) sel" and "lv_classes vm k = Some ko"
  shows "(case ko_methods ko of None \<Rightarrow> Some (Inr None) | Some d \<Rightarrow> probe (lv_env vm) d sel) = Some (Inr (own_binding vm k sel))"
  using assms md_table.probe_map [of "lv_env vm" _ sel] by (auto simp: own_binding_def dicts_ok_def split: option.splits)

lemma lookup_uncached_chain:
  assumes chain: "superchain vm k ks" and ok: "dicts_ok vm" "key_ok (lv_env vm) sel"
  shows "lookup_uncached vm k sel = Some (Inr (first_binding vm ks sel))"
  using chain
proof (induction rule: superchain.induct)
  case (root k ko)
  then show ?case using probe_own_binding [OF ok root(1)]
    by (subst lookup_uncached.simps) (simp split: option.splits)
next
  case (sub k ko ks)
  then show ?case using probe_own_binding [OF ok sub(1)]
    by (subst lookup_uncached.simps) (simp split: option.splits)
qed

lemma superchain_installed:
  assumes "superchain vm k ks" and "lv_classes vm klass = Some ko"
  shows "superchain (installed vm klass ko d ms) k ks"
  using assms(1)
proof (induction rule: superchain.induct)
  case (root k ko')
  then show ?case
    using assms(2) by (intro superchain.root [of _ _ "if k = klass then ko\<lparr>ko_methods := Some d\<rparr> else ko'"]) (auto simp: installed_def)
next
  case (sub k ko' ks)
  then show ?case
    using assms(2) superchain.sub [of "installed vm klass ko d ms" k "if k = klass then ko\<lparr>ko_methods := Some d\<rparr> else ko'" ks]
    by (cases "k = klass") (auto simp: installed_def)
qed

lemma own_binding_installed:
  assumes "lv_classes vm klass = Some ko"
    and "md_map (lv_env vm) (md_slots d) = (\<lambda>s. own_binding vm klass s)(sel \<mapsto> m)"
  shows "own_binding (installed vm klass ko d ms) k s =
    (if k = klass \<and> s = sel then Some m else own_binding vm k s)"
proof (cases "k = klass")
  case True
  then have "own_binding (installed vm klass ko d ms) k s = md_map (lv_env vm) (md_slots d) s"
    by (simp add: own_binding_def installed_def)
  then show ?thesis using True assms(2) by simp
qed (simp add: own_binding_def installed_def split: option.splits)

text \<open>Which class of the chain answers after an installation.\<close>

lemma first_binding_installed:
  assumes "\<And>k s. own_binding vm' k s = (if k = klass \<and> s = sel then Some m else own_binding vm k s)"
  shows "first_binding vm' ks s =
    (if s = sel \<and> klass \<in> set ks \<and> (\<forall>k \<in> set (takeWhile (\<lambda>k. k \<noteq> klass) ks). own_binding vm k sel = None)
     then Some m else first_binding vm ks s)"
  by (induction ks) (auto simp: assms split: option.splits)

section \<open>Patching block holders\<close>

definition same_code :: "(oop \<rightharpoonup> method_obj) \<Rightarrow> (oop \<rightharpoonup> method_obj) \<Rightarrow> bool" where
  "same_code ms ms' \<longleftrightarrow> (\<forall>w. map_option (mo_holder_update (\<lambda>_. 0)) (ms w) = map_option (mo_holder_update (\<lambda>_. 0)) (ms' w))"

lemma same_codeD:
  assumes "same_code ms ms'" and "ms w = Some b"
  shows "\<exists>b'. ms' w = Some b' \<and> mo_is_block b' = mo_is_block b \<and> mo_literals b' = mo_literals b"
proof -
  have "map_option (mo_holder_update (\<lambda>_. 0)) (Some b) = map_option (mo_holder_update (\<lambda>_. 0)) (ms' w)"
    using assms by (metis same_code_def)
  then obtain b' where b': "ms' w = Some b'" "mo_holder_update (\<lambda>_. 0) b = mo_holder_update (\<lambda>_. 0) b'"
    by (cases "ms' w") auto
  from arg_cong [OF b'(2), of mo_is_block] arg_cong [OF b'(2), of mo_literals] b'(1) show ?thesis by simp
qed

lemma same_code_sym: "same_code ms ms' \<Longrightarrow> same_code ms' ms"
  by (simp add: same_code_def)

lemma same_code_trans: "same_code a b \<Longrightarrow> same_code b c \<Longrightarrow> same_code a c"
  by (simp add: same_code_def)

lemma same_code_upd: "ms w = Some b \<Longrightarrow> same_code ms (ms(w \<mapsto> b\<lparr>mo_holder := h\<rparr>))"
  by (cases b) (simp add: same_code_def)

lemma nested_block_same_code:
  assumes "nested_block ms ls w" and "same_code ms ms'"
  shows "nested_block ms' ls w"
  using assms(1)
proof (induction rule: nested_block.induct)
  case (here w blk)
  then show ?case using same_codeD [OF assms(2), of w] by (metis nested_block.here)
next
  case (deeper b bo w blk)
  then show ?case using same_codeD [OF assms(2), of b] same_codeD [OF assms(2), of w] by (metis nested_block.deeper)
qed

lemma block_rank_same_code:
  assumes "block_rank ms r" and "same_code ms ms'" shows "block_rank ms' r"
  unfolding block_rank_def
proof (intro allI impI)
  fix b bo w blk
  assume "ms' b = Some bo \<and> mo_is_block bo \<and> w \<in> set (mo_literals bo) \<and> ms' w = Some blk \<and> mo_is_block blk"
  then show "r w < r b"
    using assms(1) same_codeD [OF same_code_sym [OF assms(2)], of b] same_codeD [OF same_code_sym [OF assms(2)], of w]
    unfolding block_rank_def by metis
qed

lemma nested_block_cases:
  assumes "nested_block ms (w # ls) x"
  shows "nested_block ms ls x \<or> (\<exists>b. ms w = Some b \<and> mo_is_block b \<and> (x = w \<or> nested_block ms (mo_literals b) x))"
  using assms
proof (induction rule: nested_block.induct)
  case (here x blk)
  then show ?case by (auto intro: nested_block.here)
next
  case (deeper b bo x blk)
  then show ?case by (metis nested_block.deeper nested_block.here option.inject)
qed

lemma nested_block_mono:
  assumes "nested_block ms ls x" and "\<And>w blk. w \<in> set ls \<Longrightarrow> ms w = Some blk \<Longrightarrow> mo_is_block blk \<Longrightarrow> nested_block ms ls' w"
  shows "nested_block ms ls' x"
  using assms(1) by (induction rule: nested_block.induct) (auto intro: assms(2) nested_block.deeper)

lemma nested_block_Cons:
  "nested_block ms (w # ls) x \<longleftrightarrow>
     nested_block ms ls x \<or> (\<exists>b. ms w = Some b \<and> mo_is_block b \<and> (x = w \<or> nested_block ms (mo_literals b) x))"
proof
  assume "nested_block ms ls x \<or> (\<exists>b. ms w = Some b \<and> mo_is_block b \<and> (x = w \<or> nested_block ms (mo_literals b) x))"
  then show "nested_block ms (w # ls) x"
  proof
    assume "nested_block ms ls x"
    then show ?thesis by (rule nested_block_mono) (auto intro: nested_block.here)
  next
    assume "\<exists>b. ms w = Some b \<and> mo_is_block b \<and> (x = w \<or> nested_block ms (mo_literals b) x)"
    then obtain b where b: "ms w = Some b" "mo_is_block b" "x = w \<or> nested_block ms (mo_literals b) x" by blast
    have w: "nested_block ms (w # ls) w" using b by (auto intro: nested_block.here)
    from b(3) show ?thesis
    proof
      assume "nested_block ms (mo_literals b) x"
      then show ?thesis by (rule nested_block_mono) (use w b in \<open>auto intro: nested_block.deeper\<close>)
    qed (simp add: w)
  qed
qed (rule nested_block_cases)

definition patched :: "oop \<Rightarrow> (oop \<rightharpoonup> method_obj) \<Rightarrow> oop list \<Rightarrow> (oop \<rightharpoonup> method_obj)" where
  "patched klass ms ls = (\<lambda>w. if nested_block ms ls w then map_option (mo_holder_update (\<lambda>_. klass)) (ms w) else ms w)"

lemma patched_same_code: "same_code ms (patched klass ms ls)"
  by (auto simp: same_code_def patched_def option.map_comp comp_def)

lemma nested_same_code_iff: "same_code ms ms' \<Longrightarrow> nested_block ms' ls w \<longleftrightarrow> nested_block ms ls w"
  using nested_block_same_code same_code_sym by blast

lemma patched_patched:
  "patched klass (patched klass ms ls) ls' = (\<lambda>w. if nested_block ms ls w \<or> nested_block ms ls' w
     then map_option (mo_holder_update (\<lambda>_. klass)) (ms w) else ms w)"
  by (rule ext) (auto simp: patched_def nested_same_code_iff [OF patched_same_code, unfolded patched_def] option.map_comp comp_def)

lemma patched_Nil: "patched klass ms [] = ms"
proof -
  have "\<not> nested_block ms [] w" for w
  proof
    assume "nested_block ms [] w" then show False by (induction rule: nested_block.induct) simp_all
  qed
  then show ?thesis by (simp add: patched_def)
qed

lemma patched_Cons_block:
  assumes "ms w = Some b" and "mo_is_block b"
  shows "patched klass (patched klass (ms(w \<mapsto> b\<lparr>mo_holder := klass\<rparr>)) (mo_literals b)) ls = patched klass ms (w # ls)"
proof -
  note same = nested_same_code_iff [OF same_code_upd [of ms w b klass, OF assms(1)]]
  show ?thesis
    unfolding patched_patched same
    by (rule ext) (use assms in \<open>auto simp: patched_def nested_block_Cons\<close>)
qed

lemma patched_Cons_other:
  assumes "\<And>b. ms w = Some b \<Longrightarrow> \<not> mo_is_block b"
  shows "patched klass ms (w # ls) = patched klass ms ls"
  using assms by (auto simp: patched_def nested_block_Cons fun_eq_iff)

lemma patch_blocks_prefix:
  assumes "block_rank ms r" and "\<forall>w \<in> set ls. \<forall>b. ms w = Some b \<and> mo_is_block b \<longrightarrow> r w < n"
  shows "patch_blocks klass ms (ls @ rest) = patch_blocks klass (patched klass ms ls) rest"
  using assms
proof (induction n arbitrary: ms ls rest rule: less_induct)
  case (less n)
  from less.prems show ?case
  proof (induction ls arbitrary: ms)
    case Nil
    then show ?case by (simp add: patched_Nil)
  next
    case (Cons w ls)
    show ?case
    proof (cases "\<exists>b. ms w = Some b \<and> mo_is_block b")
      case False
      then have "patch_blocks klass ms ((w # ls) @ rest) = patch_blocks klass ms (ls @ rest)"
        by (subst patch_blocks.simps) (auto split: option.splits)
      then show ?thesis using Cons.IH [OF Cons.prems(1)] Cons.prems(2) False by (simp add: patched_Cons_other)
    next
      case True
      then obtain b where b: "ms w = Some b" "mo_is_block b" by blast
      let ?ms1 = "ms(w \<mapsto> b\<lparr>mo_holder := klass\<rparr>)"
      let ?ms2 = "patched klass ?ms1 (mo_literals b)"
      have same1: "same_code ms ?ms1" by (rule same_code_upd [of ms w b klass, OF b(1)])
      have same2: "same_code ms ?ms2" using same_code_trans [OF same1 patched_same_code] .
      have rank1: "block_rank ?ms1 r" "block_rank ?ms2 r" using block_rank_same_code Cons.prems(1) same1 same2 by blast+
      have lits: "\<forall>x \<in> set (mo_literals b). \<forall>c. ?ms1 x = Some c \<and> mo_is_block c \<longrightarrow> r x < r w"
        using rank1(1) b unfolding block_rank_def by (auto split: if_splits)
      have rest2: "\<forall>x \<in> set ls. \<forall>c. ?ms2 x = Some c \<and> mo_is_block c \<longrightarrow> r x < n"
        using Cons.prems(2) same_codeD [OF same_code_sym [OF same2]] by (metis list.set_intros(2))
      have "patch_blocks klass ms ((w # ls) @ rest) = patch_blocks klass ?ms1 (mo_literals b @ ls @ rest)"
        using b by (subst patch_blocks.simps) simp
      also have "\<dots> = patch_blocks klass ?ms2 (ls @ rest)"
        by (rule less.IH [OF _ rank1(1) lits]) (use Cons.prems(2) b in simp)
      also have "\<dots> = patch_blocks klass (patched klass ?ms2 ls) rest" by (rule Cons.IH [OF rank1(2) rest2])
      finally show ?thesis by (simp add: patched_Cons_block [of ms w b klass ls, OF b])
    qed
  qed
qed

lemma patch_block_holders_ok:
  assumes "block_rank ms r"
  shows "patch_block_holders klass ms ls = Some (patched klass ms ls)"
proof -
  have "\<forall>w \<in> set ls. \<forall>b. ms w = Some b \<and> mo_is_block b \<longrightarrow> r w < Suc (Max (r ` set ls))"
    by (simp add: less_Suc_eq_le)
  from patch_blocks_prefix [OF assms this, of klass "[]"] show ?thesis
    by (simp add: patch_block_holders_def patch_blocks.simps [of klass "patched klass ms ls"])
qed

section \<open>Installation\<close>

lemma dict_or_new_ok:
  assumes "dicts_ok vm" and "lv_classes vm klass = Some ko"
  shows "\<exists>d. dict_or_new (lv_env vm) ko = Inr d \<and> md_inv (lv_env vm) d
    \<and> md_map (lv_env vm) (md_slots d) = own_binding vm klass"
proof (cases "ko_methods ko")
  case None
  have "is_power_of_two 8" using is_power_of_two_exp [of 3] by simp
  moreover have "table_wf (lv_env vm) (replicate 8 (env_nil (lv_env vm), env_nil (lv_env vm)))"
    using empty_table(1) [of "lv_env vm" 3] by simp
  ultimately show ?thesis using None assms
    by (auto simp: dict_or_new_def alloc_method_dict_def md_inv_def empty_table md_capacity_def own_binding_def fun_eq_iff)
next
  case (Some d)
  then show ?thesis using assms by (auto simp: dict_or_new_def dicts_ok_def own_binding_def fun_eq_iff)
qed

lemma install_method_ok:
  assumes "dicts_ok vm" and "lv_classes vm klass = Some ko" and "key_ok (lv_env vm) sel"
    and "env_is_method (lv_env vm) m" and mo: "lv_methods vm m = Some mo" and "block_rank (lv_methods vm) r"
    and "lv_epoch vm + 1 < 2 ^ 24"
  shows "\<exists>d' es. install_method vm klass sel m =
      Some (Inr (installed vm klass ko d' (patched klass ((lv_methods vm)(m \<mapsto> mo\<lparr>mo_holder := klass\<rparr>)) (mo_literals mo)),
        es @ [Barrier_on klass, Barrier_on m, Invalidate_dependents klass sel]))
    \<and> md_inv (lv_env vm) d' \<and> md_map (lv_env vm) (md_slots d') = (own_binding vm klass)(sel \<mapsto> m)"
proof -
  obtain d where d: "dict_or_new (lv_env vm) ko = Inr d" "md_inv (lv_env vm) d"
    "md_map (lv_env vm) (md_slots d) = own_binding vm klass" using dict_or_new_ok [OF assms(1,2)] by blast
  obtain d' es where d': "md_insert (lv_env vm) d sel m = Some (Inr (d', es))" "md_inv (lv_env vm) d'"
    "md_map (lv_env vm) (md_slots d') = (own_binding vm klass)(sel \<mapsto> m)"
    using md_table.insert_map [OF d(2) assms(3,4)] d(3) by auto
  have "block_rank ((lv_methods vm)(m \<mapsto> mo\<lparr>mo_holder := klass\<rparr>)) r"
    by (rule block_rank_same_code [OF assms(6) same_code_upd [of "lv_methods vm", OF mo]])
  from patch_block_holders_ok [OF this] have
    "install_method vm klass sel m =
      Some (Inr (installed vm klass ko d' (patched klass ((lv_methods vm)(m \<mapsto> mo\<lparr>mo_holder := klass\<rparr>)) (mo_literals mo)),
        map Dict_effect es @ [Barrier_on klass, Barrier_on m, Invalidate_dependents klass sel]))"
    using assms(2,7) mo d(1) d'(1) by (simp add: install_method_def installed_def IC_META_EPOCH_BITS_def)
  then show ?thesis using d' by blast
qed

lemma install_method_keeps:
  assumes "install_method vm klass sel m = Some (Inr (vm', es))" and "dicts_ok vm"
    and "key_ok (lv_env vm) sel" and "env_is_method (lv_env vm) m" and "length (lv_cache vm) = 2 * LOOKUP_CACHE_SIZE"
  shows "dicts_ok vm' \<and> cache_coherent vm'"
proof -
  from assms(1) obtain ko d d' es' ms where i: "lv_classes vm klass = Some ko" "dict_or_new (lv_env vm) ko = Inr d"
    "md_insert (lv_env vm) d sel m = Some (Inr (d', es'))" "vm' = installed vm klass ko d' ms"
    by (auto simp: install_method_def Let_def guard_res_Inr_iff split: option.splits sum.splits prod.splits)
  have "md_inv (lv_env vm) d" using dict_or_new_ok [OF assms(2) i(1)] i(2) by auto
  then have d': "md_inv (lv_env vm) d'" using md_table.insert_map [OF _ assms(3,4)] i(3) by fastforce
  have "dicts_ok vm'" using assms(2) d' i(4) by (auto simp: dicts_ok_def installed_def split: if_splits)
  moreover have "cache_coherent vm'"
    using assms(5) i(4) by (auto simp: cache_coherent_def installed_def cache_flush_def EMPTY_def ce_is_empty_def)
  ultimately show ?thesis by blast
qed

lemma lk_step_keeps:
  assumes "lk_step vm vm'" and "dicts_ok vm" and "cache_coherent vm"
  shows "dicts_ok vm' \<and> cache_coherent vm'"
  using assms
proof (induction rule: lk_step.induct)
  case (do_lookup vm k sel vm' r)
  then show ?case using lookup_coherent(2) [OF do_lookup(3,1)] by (auto simp: dicts_ok_def)
next
  case (do_install vm k sel m vm' es)
  then show ?case using install_method_keeps by (auto simp: cache_coherent_def)
next
  case (do_gc vm)
  then show ?case using cache_coherent_flush [of vm] by (simp add: gc_epilogue_def dicts_ok_def cache_coherent_def)
qed

section \<open>Properties\<close>


text \<open>A two-class hierarchy (\<open>21\<close> inherits from \<open>17\<close>) with one method that holds one block.\<close>

definition example_lk :: lk_vm where
  "example_lk =
     \<lparr>lv_env = example_env, lv_smi_klass = 25, lv_header_klass = (\<lambda>_. 17),
      lv_classes = [17 \<mapsto> \<lparr>ko_methods = None, ko_super = 1\<rparr>, 21 \<mapsto> \<lparr>ko_methods = None, ko_super = 17\<rparr>],
      lv_methods = [101 \<mapsto> \<lparr>mo_holder = 1, mo_is_block = False, mo_literals = [105, 8]\<rparr>,
        105 \<mapsto> \<lparr>mo_holder = 1, mo_is_block = True, mo_literals = []\<rparr>],
      lv_cache = lookup_cache_new, lv_epoch = 0\<rparr>"

lemma example_lk_facts:
  "dicts_ok example_lk" "key_ok (lv_env example_lk) 5" "env_is_method (lv_env example_lk) 101"
  "superchain example_lk 21 [21, 17]" "block_rank (lv_methods example_lk) (\<lambda>_. 0)"
proof -
  show "dicts_ok example_lk" by (simp add: dicts_ok_def example_lk_def)
  show "key_ok (lv_env example_lk) 5" "env_is_method (lv_env example_lk) 101"
    by (simp_all add: key_ok_def example_lk_def example_env_def)
  have "superchain example_lk 17 [17]"
    by (rule superchain.root [of _ _ "\<lparr>ko_methods = None, ko_super = 1\<rparr>"]) (simp_all add: example_lk_def example_env_def)
  then show "superchain example_lk 21 [21, 17]"
    using superchain.sub [of example_lk 21 "\<lparr>ko_methods = None, ko_super = 17\<rparr>" "[17]"] by (simp add: example_lk_def example_env_def)
  show "block_rank (lv_methods example_lk) (\<lambda>_. 0)" by (auto simp: block_rank_def example_lk_def)
qed


text \<open>C22: installing a method changes dispatch exactly where it should. The installation runs to
  completion; afterwards, for a class with a finite superclass chain and any selector, the lookup
  finds the new method iff the selector is the installed one, the class inherits from the receiver
  class and no class in between overrides it; in every other case it finds what it found before. The
  inline-cache epoch is bumped by one and the cache is flushed.\<close>

theorem install_method_dispatch:
  assumes "dicts_ok vm" and "lv_classes vm klass = Some ko" and "key_ok (lv_env vm) sel"
    and "env_is_method (lv_env vm) m" and "lv_methods vm m = Some mo" and "block_rank (lv_methods vm) r"
    and "lv_epoch vm + 1 < 2 ^ 24"
  shows "\<exists>vm' es. install_method vm klass sel m = Some (Inr (vm', es))
    \<and> dicts_ok vm' \<and> lv_epoch vm' = lv_epoch vm + 1 \<and> (\<forall>e \<in> set (lv_cache vm'). ce_is_empty e)
    \<and> (\<forall>k ks s. superchain vm k ks \<and> key_ok (lv_env vm) s \<longrightarrow>
        lookup_uncached vm' k s =
          (if s = sel \<and> klass \<in> set ks \<and> (\<forall>j \<in> set (takeWhile (\<lambda>j. j \<noteq> klass) ks). own_binding vm j sel = None)
           then Some (Inr (Some m)) else lookup_uncached vm k s))"
proof -
  obtain d' es where i: "install_method vm klass sel m =
      Some (Inr (installed vm klass ko d' (patched klass ((lv_methods vm)(m \<mapsto> mo\<lparr>mo_holder := klass\<rparr>)) (mo_literals mo)), es))"
    and d': "md_inv (lv_env vm) d'" "md_map (lv_env vm) (md_slots d') = (own_binding vm klass)(sel \<mapsto> m)"
    using install_method_ok [OF assms] by blast
  define vm' where "vm' = installed vm klass ko d' (patched klass ((lv_methods vm)(m \<mapsto> mo\<lparr>mo_holder := klass\<rparr>)) (mo_literals mo))"
  have ok': "dicts_ok vm'" using assms(1) d'(1) by (auto simp: vm'_def dicts_ok_def installed_def split: if_splits)
  have "lookup_uncached vm' k s =
      (if s = sel \<and> klass \<in> set ks \<and> (\<forall>j \<in> set (takeWhile (\<lambda>j. j \<noteq> klass) ks). own_binding vm j sel = None)
       then Some (Inr (Some m)) else lookup_uncached vm k s)"
    if "superchain vm k ks" "key_ok (lv_env vm) s" for k ks s
  proof -
    have env: "lv_env vm' = lv_env vm" by (simp add: vm'_def installed_def)
    have own: "own_binding vm' k s = (if k = klass \<and> s = sel then Some m else own_binding vm k s)" for k s
      unfolding vm'_def by (rule own_binding_installed [OF assms(2) d'(2)])
    have "lookup_uncached vm' k s = Some (Inr (first_binding vm' ks s))"
      using lookup_uncached_chain [OF superchain_installed [OF that(1) assms(2)]] ok' that(2) env unfolding vm'_def by simp
    then show ?thesis
      using first_binding_installed [of vm' klass sel m vm ks s, OF own] lookup_uncached_chain [OF that(1) assms(1) that(2)] by simp
  qed
  moreover have "lv_epoch vm' = lv_epoch vm + 1" "\<forall>e \<in> set (lv_cache vm'). ce_is_empty e"
    by (auto simp: vm'_def installed_def cache_flush_def EMPTY_def ce_is_empty_def)
  ultimately show ?thesis using i ok' unfolding vm'_def [symmetric] by blast
qed

theorem install_method_dispatch_witness:
  "\<exists>vm' es. install_method example_lk 17 5 101 = Some (Inr (vm', es)) \<and> lookup_uncached vm' 21 5 = Some (Inr (Some 101))"
proof -
  have "own_binding example_lk 21 5 = None" by (simp add: own_binding_def example_lk_def)
  moreover have "lv_classes example_lk 17 = Some \<lparr>ko_methods = None, ko_super = 1\<rparr>"
    "lv_methods example_lk 101 = Some \<lparr>mo_holder = 1, mo_is_block = False, mo_literals = [105, 8]\<rparr>"
    "lv_epoch example_lk + 1 < 2 ^ 24" by (simp_all add: example_lk_def)
  note this and install_method_dispatch [OF example_lk_facts(1) this(1) example_lk_facts(2,3) this(2) example_lk_facts(5) this(3)]
  ultimately show ?thesis using example_lk_facts(2,4) by fastforce
qed

text \<open>C37: installation gives the method and every block nested in it, at any depth, the class as
  holder, so that a super send inside a block starts above that class; no other method object
  changes, and neither flags nor literals change anywhere. The walk over the literals ends whenever
  the block literals are acyclic.\<close>

theorem install_method_patches_blocks:
  assumes "dicts_ok vm" and "lv_classes vm klass = Some ko" and "key_ok (lv_env vm) sel"
    and "env_is_method (lv_env vm) m" and "lv_methods vm m = Some mo" and "block_rank (lv_methods vm) r"
    and "lv_epoch vm + 1 < 2 ^ 24"
  shows "\<exists>vm' es. install_method vm klass sel m = Some (Inr (vm', es))
    \<and> (\<forall>w. lv_methods vm' w =
        (if w = m \<or> nested_block (lv_methods vm) (mo_literals mo) w
         then map_option (\<lambda>b. b\<lparr>mo_holder := klass\<rparr>) (lv_methods vm w) else lv_methods vm w))"
proof -
  let ?ms = "(lv_methods vm)(m \<mapsto> mo\<lparr>mo_holder := klass\<rparr>)"
  obtain d' es where i: "install_method vm klass sel m =
      Some (Inr (installed vm klass ko d' (patched klass ?ms (mo_literals mo)), es))"
    using install_method_ok [OF assms] by blast
  note same = nested_same_code_iff [OF same_code_upd [of "lv_methods vm" m mo klass, OF assms(5)]]
  have "patched klass ?ms (mo_literals mo) w = (if w = m \<or> nested_block (lv_methods vm) (mo_literals mo) w
      then map_option (\<lambda>b. b\<lparr>mo_holder := klass\<rparr>) (lv_methods vm w) else lv_methods vm w)" for w
    using assms(5) by (auto simp: patched_def same)
  then show ?thesis using i by (auto simp: installed_def)
qed

theorem install_method_patches_blocks_witness:
  "\<exists>vm' es. install_method example_lk 17 5 101 = Some (Inr (vm', es))
     \<and> lv_methods vm' 105 = Some \<lparr>mo_holder = 17, mo_is_block = True, mo_literals = []\<rparr>"
proof -
  have c: "lv_classes example_lk 17 = Some \<lparr>ko_methods = None, ko_super = 1\<rparr>"
    "lv_methods example_lk 101 = Some \<lparr>mo_holder = 1, mo_is_block = False, mo_literals = [105, 8]\<rparr>"
    "lv_epoch example_lk + 1 < 2 ^ 24" by (simp_all add: example_lk_def)
  have b: "lv_methods example_lk 105 = Some \<lparr>mo_holder = 1, mo_is_block = True, mo_literals = []\<rparr>" by (simp add: example_lk_def)
  have "nested_block (lv_methods example_lk) [105, 8] 105" using b by (auto intro: nested_block.here [where ms = "lv_methods example_lk"])
  with install_method_patches_blocks [OF example_lk_facts(1) c(1) example_lk_facts(2,3) c(2) example_lk_facts(5) c(3)] b
  show ?thesis by fastforce
qed

end
