(* ===== verification/InlineCache.thy ===== *)
theory InlineCache
  imports Lookup
begin

unbundle bit_operations_syntax

text \<open>
  The inline cache of an interpreted send site and its transition table
  (\<open>src/src/interpreter/ic.rs\<close>).

  The state \<open>ic_vm\<close> holds what a transition touches: the lookup component, the caller's cache sites
  (each the four words \<open>sel\<close>, \<open>meta\<close>, \<open>guard\<close>, \<open>target\<close> of the \<open>ics\<close> array), the holder of the
  caller, the heap's arrays (where polymorphic sites keep their twelve-word pairs array) and the
  objects the write barrier was run on. \<open>alloc_pairs\<close> gives the address of the next array that
  \<open>alloc_indexable_oops\<close> returns. As in the lookup component objects do not move, so a handle is the
  oop it holds.
\<close>

section \<open>Layout\<close>

definition IC_GUARD_POLY :: int where "IC_GUARD_POLY = 1"
definition IC_GUARD_MEGA :: int where "IC_GUARD_MEGA = 2"
definition IC_POLY_MAX_PAIRS :: nat where "IC_POLY_MAX_PAIRS = 4"
definition IC_POLY_ARRAY_LEN :: nat where "IC_POLY_ARRAY_LEN = IC_POLY_MAX_PAIRS * 3"
definition IC_META_ARGC_SHIFT :: nat where "IC_META_ARGC_SHIFT = 0"
definition IC_META_ARGC_MASK :: int where "IC_META_ARGC_MASK = push_bit IC_META_ARGC_SHIFT (2 ^ 8 - 1)"
definition IC_META_EPOCH_SHIFT :: nat where "IC_META_EPOCH_SHIFT = 8"
definition IC_META_EPOCH_MASK :: int where
  "IC_META_EPOCH_MASK = push_bit IC_META_EPOCH_SHIFT (2 ^ IC_META_EPOCH_BITS - 1)"

record ic_site =
  si_sel :: oop
  si_meta :: oop
  si_guard :: oop
  si_target :: oop

record ic_vm =
  iv_lk :: lk_vm
  iv_ics :: oop
  iv_sites :: "ic_site list"
  iv_holder :: oop
  iv_arrays :: "oop \<rightharpoonup> oop list"
  iv_alloc :: "(oop \<rightharpoonup> oop list) \<Rightarrow> oop"
  iv_barriered :: "oop list"

abbreviation iv_nil :: "ic_vm \<Rightarrow> oop" where "iv_nil vm \<equiv> env_nil (lv_env (iv_lk vm))"
abbreviation iv_epoch :: "ic_vm \<Rightarrow> nat" where "iv_epoch vm \<equiv> lv_epoch (iv_lk vm)"
abbreviation iv_is_klass :: "ic_vm \<Rightarrow> oop \<Rightarrow> bool" where "iv_is_klass vm k \<equiv> lv_classes (iv_lk vm) k \<noteq> None"
abbreviation iv_is_method :: "ic_vm \<Rightarrow> oop \<Rightarrow> bool" where "iv_is_method vm m \<equiv> env_is_method (lv_env (iv_lk vm)) m"

section \<open>One cache site\<close>

definition ic_at :: "ic_vm \<Rightarrow> nat \<Rightarrow> ic_site res" where
  "ic_at vm i = guard_res (i < length (iv_sites vm)) Assert_failed (Inr (iv_sites vm ! i))"

definition si_selector :: "ic_vm \<Rightarrow> ic_site \<Rightarrow> oop res" where
  "si_selector vm s = expect (symbol_try_from (lv_env (iv_lk vm)) (si_sel s))"

definition si_meta_value :: "ic_site \<Rightarrow> int res" where
  "si_meta_value s = rbind (expect (smi_try_from (si_meta s))) (\<lambda>w. Inr (smi_value w))"

definition si_argc :: "ic_site \<Rightarrow> int res" where
  "si_argc s = rbind (si_meta_value s) (\<lambda>v. Inr (drop_bit IC_META_ARGC_SHIFT (v AND IC_META_ARGC_MASK) mod 2 ^ 8))"

definition si_epoch :: "ic_site \<Rightarrow> nat res" where
  "si_epoch s =
     rbind (si_meta_value s) (\<lambda>v. Inr (nat (drop_bit IC_META_EPOCH_SHIFT (v AND IC_META_EPOCH_MASK) mod 2 ^ 32)))"

definition si_set_meta :: "ic_site \<Rightarrow> nat \<Rightarrow> ic_site res" where
  "si_set_meta s epoch =
     rbind (si_argc s) (\<lambda>argc.
     rbind (smi_new (push_bit IC_META_ARGC_SHIFT argc OR push_bit IC_META_EPOCH_SHIFT (int epoch))) (\<lambda>w.
       Inr (s\<lparr>si_meta := w\<rparr>)))"

definition put_site :: "ic_vm \<Rightarrow> nat \<Rightarrow> ic_site \<Rightarrow> ic_vm" where
  "put_site vm i s = vm\<lparr>iv_sites := (iv_sites vm)[i := s], iv_barriered := iv_barriered vm @ [iv_ics vm]\<rparr>"

definition set_mono :: "ic_vm \<Rightarrow> nat \<Rightarrow> oop \<Rightarrow> oop \<Rightarrow> nat \<Rightarrow> ic_vm res" where
  "set_mono vm i k m epoch =
     rbind (ic_at vm i) (\<lambda>s.
     rbind (si_set_meta (s\<lparr>si_guard := k, si_target := m\<rparr>) epoch) (\<lambda>s'. Inr (put_site vm i s')))"

definition set_mono_compiled :: "ic_vm \<Rightarrow> nat \<Rightarrow> oop \<Rightarrow> nat \<Rightarrow> nat \<Rightarrow> ic_vm res" where
  "set_mono_compiled vm i k nm_id epoch =
     rbind (ic_at vm i) (\<lambda>s.
     rbind (smi_new (int nm_id)) (\<lambda>t.
     rbind (si_set_meta (s\<lparr>si_guard := k, si_target := t\<rparr>) epoch) (\<lambda>s'. Inr (put_site vm i s'))))"

definition set_poly :: "ic_vm \<Rightarrow> nat \<Rightarrow> oop \<Rightarrow> nat \<Rightarrow> ic_vm res" where
  "set_poly vm i pairs epoch =
     rbind (ic_at vm i) (\<lambda>s.
     rbind (smi_new IC_GUARD_POLY) (\<lambda>g.
     rbind (si_set_meta (s\<lparr>si_guard := g, si_target := pairs\<rparr>) epoch) (\<lambda>s'. Inr (put_site vm i s'))))"

definition set_mega :: "ic_vm \<Rightarrow> nat \<Rightarrow> oop \<Rightarrow> ic_vm res" where
  "set_mega vm i nil =
     rbind (ic_at vm i) (\<lambda>s.
     rbind (smi_new IC_GUARD_MEGA) (\<lambda>g. Inr (put_site vm i (s\<lparr>si_guard := g, si_target := nil\<rparr>))))"

definition set_empty :: "ic_vm \<Rightarrow> nat \<Rightarrow> oop \<Rightarrow> ic_vm res" where
  "set_empty vm i nil =
     rbind (ic_at vm i) (\<lambda>s. Inr (put_site vm i (s\<lparr>si_guard := nil, si_target := nil\<rparr>)))"

section \<open>The pairs array of a polymorphic site\<close>

definition pr_at :: "oop list \<Rightarrow> nat \<Rightarrow> oop res" where
  "pr_at ps i = guard_res (i < length ps) Assert_failed (Inr (ps ! i))"

definition pr_put :: "oop list \<Rightarrow> nat \<Rightarrow> oop \<Rightarrow> oop list res" where
  "pr_put ps i v = guard_res (i < length ps) Assert_failed (Inr (ps[i := v]))"

fun poly_arity_loop :: "ic_vm \<Rightarrow> oop list \<Rightarrow> nat list \<Rightarrow> nat \<Rightarrow> nat res" where
  "poly_arity_loop vm ps [] n = Inr n"
| "poly_arity_loop vm ps (i # is) n =
     rbind (pr_at ps (2 * i)) (\<lambda>k. if iv_is_klass vm k then poly_arity_loop vm ps is (n + 1) else Inr n)"

definition poly_arity :: "ic_vm \<Rightarrow> oop list \<Rightarrow> nat res" where
  "poly_arity vm ps = poly_arity_loop vm ps [0..<IC_POLY_MAX_PAIRS] 0"

definition poly_count_at :: "oop list \<Rightarrow> nat \<Rightarrow> int res" where
  "poly_count_at ps i =
     rbind (pr_at ps (2 * IC_POLY_MAX_PAIRS + i)) (\<lambda>w. Inr (case smi_try_from w of None \<Rightarrow> 0 | Some s \<Rightarrow> smi_value s))"

definition poly_count_bump :: "oop list \<Rightarrow> nat \<Rightarrow> oop list res" where
  "poly_count_bump ps i =
     rbind (poly_count_at ps i) (\<lambda>c.
       if c < 2 ^ 31 - 1 then rbind (smi_new (c + 1)) (\<lambda>w. pr_put ps (2 * IC_POLY_MAX_PAIRS + i) w)
       else Inr ps)"

definition array_try_from :: "ic_vm \<Rightarrow> oop \<Rightarrow> oop list option" where
  "array_try_from vm w = iv_arrays vm w"

definition put_array :: "ic_vm \<Rightarrow> oop \<Rightarrow> oop list \<Rightarrow> ic_vm" where
  "put_array vm a ps = vm\<lparr>iv_arrays := (iv_arrays vm)(a \<mapsto> ps)\<rparr>"

definition array_barrier :: "ic_vm \<Rightarrow> oop \<Rightarrow> ic_vm" where
  "array_barrier vm a = vm\<lparr>iv_barriered := iv_barriered vm @ [a]\<rparr>"

definition alloc_poly_pairs :: "ic_vm \<Rightarrow> ic_vm \<times> oop" where
  "alloc_poly_pairs vm =
     (let a = iv_alloc vm (iv_arrays vm) in (put_array vm a (replicate IC_POLY_ARRAY_LEN (iv_nil vm)), a))"

datatype ic_state = Empty | Mono | Poly nat | Mega

definition ic_state_of :: "ic_vm \<Rightarrow> nat \<Rightarrow> ic_state res" where
  "ic_state_of vm i =
     rbind (ic_at vm i) (\<lambda>s.
       case smi_try_from (si_guard s) of
         Some w \<Rightarrow>
           if smi_value w = IC_GUARD_MEGA then Inr Mega
           else if smi_value w = IC_GUARD_POLY then
             rbind (expect (array_try_from vm (si_target s))) (\<lambda>ps.
             rbind (poly_arity vm ps) (\<lambda>n. Inr (Poly n)))
           else Inl Explicit_panic
       | None \<Rightarrow> Inr (if iv_is_klass vm (si_guard s) then Mono else Empty))"

section \<open>Resolving a send\<close>

definition iv_lookup :: "ic_vm \<Rightarrow> oop \<Rightarrow> oop \<Rightarrow> (ic_vm \<times> oop option) res option" where
  "iv_lookup vm k sel = cbind (lookup (iv_lk vm) k sel) (\<lambda>(lk, r). returns (vm\<lparr>iv_lk := lk\<rparr>, r))"

definition resolve :: "ic_vm \<Rightarrow> oop \<Rightarrow> bool \<Rightarrow> oop \<Rightarrow> (ic_vm \<times> oop option) res option" where
  "resolve vm sel is_super rcvr_klass =
     (if is_super then
        (case lv_classes (iv_lk vm) (iv_holder vm) of
           None \<Rightarrow> Some (Inl Explicit_panic)
         | Some ko \<Rightarrow>
             if iv_is_klass vm (ko_super ko) then iv_lookup vm (ko_super ko) sel else returns (vm, None))
      else iv_lookup vm rcvr_klass sel)"

fun reverify_collect ::
  "ic_vm \<Rightarrow> oop \<Rightarrow> bool \<Rightarrow> oop list \<Rightarrow> nat list \<Rightarrow> (oop \<times> oop \<times> int) list \<Rightarrow> (ic_vm \<times> (oop \<times> oop \<times> int) list) res option" where
  "reverify_collect vm sel is_super ps [] kept = returns (vm, kept)"
| "reverify_collect vm sel is_super ps (i # is) kept =
     cbind (Some (pr_at ps (2 * i))) (\<lambda>k.
       if \<not> iv_is_klass vm k then Some (Inl Explicit_panic)
       else cbind (resolve vm sel is_super k) (\<lambda>(vm', r).
         case r of
           None \<Rightarrow> reverify_collect vm' sel is_super ps is kept
         | Some m \<Rightarrow> cbind (Some (poly_count_at ps i)) (\<lambda>c.
             reverify_collect vm' sel is_super ps is (kept @ [(k, m, c)]))))"

fun put_kept :: "oop list \<Rightarrow> nat \<Rightarrow> (oop \<times> oop \<times> int) list \<Rightarrow> oop list res" where
  "put_kept ps i [] = Inr ps"
| "put_kept ps i ((k, m, c) # rest) =
     rbind (pr_put ps (2 * i) k) (\<lambda>ps.
     rbind (pr_put ps (2 * i + 1) m) (\<lambda>ps.
     rbind (smi_new c) (\<lambda>w.
     rbind (pr_put ps (2 * IC_POLY_MAX_PAIRS + i) w) (\<lambda>ps. put_kept ps (i + 1) rest))))"

fun clear_pairs :: "oop list \<Rightarrow> oop \<Rightarrow> nat list \<Rightarrow> oop list res" where
  "clear_pairs ps nil [] = Inr ps"
| "clear_pairs ps nil (i # is) =
     rbind (pr_put ps (2 * i) nil) (\<lambda>ps.
     rbind (pr_put ps (2 * i + 1) nil) (\<lambda>ps.
     rbind (pr_put ps (2 * IC_POLY_MAX_PAIRS + i) nil) (\<lambda>ps. clear_pairs ps nil is)))"

definition reverify_poly :: "ic_vm \<Rightarrow> oop \<Rightarrow> bool \<Rightarrow> oop \<Rightarrow> oop list \<Rightarrow> (ic_vm \<times> oop list) res option" where
  "reverify_poly vm sel is_super a ps =
     cbind (Some (poly_arity vm ps)) (\<lambda>arity.
     cbind (reverify_collect vm sel is_super ps [0..<arity] []) (\<lambda>(vm', kept).
     cbind (Some (put_kept ps 0 kept)) (\<lambda>ps1.
     cbind (Some (clear_pairs ps1 (iv_nil vm') [length kept..<IC_POLY_MAX_PAIRS])) (\<lambda>ps2.
       returns (array_barrier (put_array vm' a ps2) a, ps2)))))"

section \<open>The transition table\<close>

text \<open>Rows 1 and 2 (an empty site), also taken when a reverification leaves no pair.\<close>

definition ic_fill :: "ic_vm \<Rightarrow> nat \<Rightarrow> oop \<Rightarrow> bool \<Rightarrow> oop \<Rightarrow> (ic_vm \<times> oop option) res option" where
  "ic_fill vm i sel is_super k =
     cbind (resolve vm sel is_super k) (\<lambda>(vm', r).
       case r of
         Some m \<Rightarrow> cbind (Some (set_mono vm' i k m (iv_epoch vm))) (\<lambda>vm''. returns (vm'', Some m))
       | None \<Rightarrow> returns (vm', None))"

text \<open>Row 4: the same class with a stale epoch.\<close>

definition ic_heal :: "ic_vm \<Rightarrow> nat \<Rightarrow> oop \<Rightarrow> bool \<Rightarrow> oop \<Rightarrow> (ic_vm \<times> oop option) res option" where
  "ic_heal vm i sel is_super k =
     cbind (resolve vm sel is_super k) (\<lambda>(vm', r).
       case r of
         Some m \<Rightarrow> cbind (Some (set_mono vm' i k m (iv_epoch vm))) (\<lambda>vm''. returns (vm'', Some m))
       | None \<Rightarrow> cbind (Some (set_empty vm' i (iv_nil vm))) (\<lambda>vm''. returns (vm'', None)))"

text \<open>Rows 5 and 6: another class.\<close>

definition pairs_of_two :: "oop list \<Rightarrow> oop \<Rightarrow> oop \<Rightarrow> oop \<Rightarrow> oop \<Rightarrow> oop list res" where
  "pairs_of_two ps k0 m0 k m =
     rbind (pr_put ps 0 k0) (\<lambda>ps.
     rbind (pr_put ps 1 m0) (\<lambda>ps.
     rbind (pr_put ps 2 k) (\<lambda>ps.
     rbind (pr_put ps 3 m) (\<lambda>ps.
     rbind (smi_new 1) (\<lambda>one. pr_put ps (2 * IC_POLY_MAX_PAIRS + 1) one)))))"

definition ic_skew :: "ic_vm \<Rightarrow> nat \<Rightarrow> oop \<Rightarrow> bool \<Rightarrow> oop \<Rightarrow> (ic_vm \<times> oop option) res option" where
  "ic_skew vm i sel is_super k =
     cbind (resolve vm sel is_super k) (\<lambda>(vm1, r).
       case r of
         None \<Rightarrow> returns (vm1, None)
       | Some m \<Rightarrow>
           let (vm2, a) = alloc_poly_pairs vm1 in
           cbind (Some (ic_at vm2 i)) (\<lambda>s.
             if \<not> iv_is_klass vm2 (si_guard s) then Some (Inl Explicit_panic)
             else
               cbind (if iv_is_method vm2 (si_target s) then returns (vm2, si_target s)
                      else cbind (resolve vm2 sel is_super (si_guard s)) (\<lambda>(vm3, r0).
                        cbind (Some (expect r0)) (\<lambda>m0. returns (vm3, m0)))) (\<lambda>(vm3, m0).
               cbind (Some (expect (array_try_from vm3 a))) (\<lambda>ps.
               cbind (Some (pairs_of_two ps (si_guard s) m0 k m)) (\<lambda>ps'.
               cbind (Some (set_poly (put_array vm3 a ps') i a (iv_epoch vm))) (\<lambda>vm4. returns (vm4, Some m)))))))"

text \<open>Rows 7 and 9 to 11: probe the pairs, extend them or give up on them.\<close>

fun find_pair :: "oop list \<Rightarrow> oop \<Rightarrow> nat list \<Rightarrow> nat option res" where
  "find_pair ps k [] = Inr None"
| "find_pair ps k (i # is) = rbind (pr_at ps (2 * i)) (\<lambda>k'. if k' = k then Inr (Some i) else find_pair ps k is)"

definition ic_extend :: "ic_vm \<Rightarrow> nat \<Rightarrow> oop \<Rightarrow> oop list \<Rightarrow> nat \<Rightarrow> oop \<Rightarrow> oop \<Rightarrow> nat \<Rightarrow> ic_vm res" where
  "ic_extend vm i a ps arity k m epoch =
     (if arity < IC_POLY_MAX_PAIRS then
        rbind (pr_put ps (2 * arity) k) (\<lambda>ps.
        rbind (pr_put ps (2 * arity + 1) m) (\<lambda>ps.
        rbind (smi_new 1) (\<lambda>one.
        rbind (pr_put ps (2 * IC_POLY_MAX_PAIRS + arity) one) (\<lambda>ps.
          set_poly (array_barrier (put_array vm a ps) a) i a epoch))))
      else set_mega vm i (iv_nil vm))"

definition ic_probe_pairs :: "ic_vm \<Rightarrow> nat \<Rightarrow> oop \<Rightarrow> bool \<Rightarrow> oop \<Rightarrow> oop \<Rightarrow> oop list \<Rightarrow> (ic_vm \<times> oop option) res option" where
  "ic_probe_pairs vm i sel is_super k a ps =
     cbind (Some (poly_arity vm ps)) (\<lambda>arity.
     cbind (Some (find_pair ps k [0..<arity])) (\<lambda>hit.
       case hit of
         Some j \<Rightarrow>
           cbind (Some (poly_count_bump ps j)) (\<lambda>ps'.
           cbind (Some (pr_at ps' (2 * j + 1))) (\<lambda>m.
             returns (put_array vm a ps', if iv_is_method vm m then Some m else None)))
       | None \<Rightarrow>
           cbind (resolve vm sel is_super k) (\<lambda>(vm', r).
             case r of
               None \<Rightarrow> returns (vm', None)
             | Some m \<Rightarrow> cbind (Some (ic_extend vm' i a ps arity k m (iv_epoch vm))) (\<lambda>vm''. returns (vm'', Some m)))))"

definition ic_poly :: "ic_vm \<Rightarrow> nat \<Rightarrow> ic_site \<Rightarrow> bool \<Rightarrow> oop \<Rightarrow> (ic_vm \<times> oop option) res option" where
  "ic_poly vm i s is_super k =
     cbind (Some (expect (array_try_from vm (si_target s)))) (\<lambda>ps.
     cbind (Some (si_epoch s)) (\<lambda>ep.
       if ep \<noteq> iv_epoch vm then
         cbind (reverify_poly vm (si_sel s) is_super (si_target s) ps) (\<lambda>(vm1, ps1).
         cbind (Some (poly_arity vm1 ps1)) (\<lambda>n.
           if n = 0 then
             cbind (Some (set_empty vm1 i (iv_nil vm))) (\<lambda>vm2. ic_fill vm2 i (si_sel s) is_super k)
           else
             cbind (Some (set_poly vm1 i (si_target s) (iv_epoch vm))) (\<lambda>vm2.
               ic_probe_pairs vm2 i (si_sel s) is_super k (si_target s) ps1)))
       else ic_probe_pairs vm i (si_sel s) is_super k (si_target s) ps))"

definition ic_transition :: "ic_vm \<Rightarrow> nat \<Rightarrow> oop \<Rightarrow> bool \<Rightarrow> (ic_vm \<times> oop option) res option" where
  "ic_transition vm i k is_super =
     cbind (Some (ic_at vm i)) (\<lambda>s.
     cbind (Some (si_selector vm s)) (\<lambda>sel.
       if si_guard s = iv_nil vm then ic_fill vm i sel is_super k
       else if iv_is_klass vm (si_guard s) then
         (if si_guard s = k then ic_heal vm i sel is_super k
          else ic_skew vm i sel is_super k)
       else
         cbind (Some (expect (smi_try_from (si_guard s)))) (\<lambda>w.
           if smi_value w = IC_GUARD_POLY then ic_poly vm i s is_super k
           else if smi_value w = IC_GUARD_MEGA then resolve vm sel is_super k
           else Some (Inl Explicit_panic))))"

section \<open>Specification\<close>

text \<open>\<open>dispatch_target\<close> is what a full lookup answers for a receiver class at a site; the cache is
  correct when it answers the same.\<close>

definition lookup_answer :: "oop option res option \<Rightarrow> oop option" where
  "lookup_answer c = (case c of Some (Inr r) \<Rightarrow> r | _ \<Rightarrow> None)"

definition dispatch_target :: "ic_vm \<Rightarrow> bool \<Rightarrow> oop \<Rightarrow> oop \<Rightarrow> oop option" where
  "dispatch_target vm is_super sel k =
     (if is_super then
        (case lv_classes (iv_lk vm) (iv_holder vm) of
           None \<Rightarrow> None
         | Some ko \<Rightarrow> if iv_is_klass vm (ko_super ko) then lookup_answer (lookup_uncached (iv_lk vm) (ko_super ko) sel) else None)
      else lookup_answer (lookup_uncached (iv_lk vm) k sel))"

definition iv_wf :: "ic_vm \<Rightarrow> bool \<Rightarrow> oop \<Rightarrow> bool" where
  "iv_wf vm is_super sel \<longleftrightarrow>
     cache_coherent (iv_lk vm)
     \<and> (\<forall>k. iv_is_klass vm k \<longrightarrow> (\<exists>r. lookup_uncached (iv_lk vm) k sel = returns r))
     \<and> (is_super \<longrightarrow> iv_is_klass vm (iv_holder vm))
     \<and> \<not> iv_is_klass vm (iv_nil vm) \<and> (\<forall>k. iv_is_klass vm k \<longrightarrow> \<not> is_smi k)
     \<and> \<not> is_smi (iv_nil vm) \<and> env_is_symbol (lv_env (iv_lk vm)) sel \<and> iv_epoch vm < 2 ^ 24"

definition poly_ok :: "ic_vm \<Rightarrow> bool \<Rightarrow> oop \<Rightarrow> bool \<Rightarrow> oop list \<Rightarrow> nat \<Rightarrow> bool" where
  "poly_ok vm is_super sel current ps n \<longleftrightarrow>
     length ps = IC_POLY_ARRAY_LEN \<and> n \<le> IC_POLY_MAX_PAIRS
     \<and> (\<forall>j < n. iv_is_klass vm (ps ! (2 * j)) \<and> iv_is_method vm (ps ! (2 * j + 1))
          \<and> (current \<longrightarrow> dispatch_target vm is_super sel (ps ! (2 * j)) = Some (ps ! (2 * j + 1))))
     \<and> (\<forall>j < IC_POLY_MAX_PAIRS. n \<le> j \<longrightarrow> ps ! (2 * j) = iv_nil vm)"

text \<open>A site is consistent if everything it caches under the current epoch is what a lookup answers;
  entries of an older epoch may be out of date.\<close>

definition meta_epoch :: "ic_site \<Rightarrow> nat \<Rightarrow> bool" where
  "meta_epoch s e \<longleftrightarrow> si_epoch s = Inr e \<and> (\<exists>a. si_argc s = Inr a)"

definition site_ok :: "ic_vm \<Rightarrow> bool \<Rightarrow> ic_site \<Rightarrow> bool" where
  "site_ok vm is_super s \<longleftrightarrow>
     (\<exists>e. meta_epoch s e \<and>
       (si_guard s = iv_nil vm
        \<or> iv_is_klass vm (si_guard s)
            \<and> (if iv_is_method vm (si_target s)
               then e = iv_epoch vm \<longrightarrow> dispatch_target vm is_super (si_sel s) (si_guard s) = Some (si_target s)
               else dispatch_target vm is_super (si_sel s) (si_guard s) \<noteq> None)
        \<or> is_smi (si_guard s) \<and> smi_value (si_guard s) = IC_GUARD_POLY
            \<and> (\<exists>ps n. iv_arrays vm (si_target s) = Some ps \<and> poly_ok vm is_super (si_sel s) (e = iv_epoch vm) ps n)
        \<or> is_smi (si_guard s) \<and> smi_value (si_guard s) = IC_GUARD_MEGA))"

definition ic_ok :: "ic_vm \<Rightarrow> nat \<Rightarrow> bool \<Rightarrow> bool" where
  "ic_ok vm i is_super \<longleftrightarrow>
     i < length (iv_sites vm) \<and> iv_wf vm is_super (si_sel (iv_sites vm ! i)) \<and> site_ok vm is_super (iv_sites vm ! i)"

text \<open>What the writers of a site need of it.\<close>

definition ic_pre :: "ic_vm \<Rightarrow> nat \<Rightarrow> bool \<Rightarrow> bool" where
  "ic_pre vm i is_super \<longleftrightarrow>
     i < length (iv_sites vm) \<and> iv_wf vm is_super (si_sel (iv_sites vm ! i)) \<and> (\<exists>e. meta_epoch (iv_sites vm ! i) e)"

text \<open>The one case that is not covered: a monomorphic site of an older epoch meets another class.\<close>

definition stale_skew :: "ic_vm \<Rightarrow> nat \<Rightarrow> oop \<Rightarrow> bool" where
  "stale_skew vm i k \<longleftrightarrow>
     iv_is_klass vm (si_guard (iv_sites vm ! i)) \<and> si_guard (iv_sites vm ! i) \<noteq> k
     \<and> iv_is_method vm (si_target (iv_sites vm ! i)) \<and> si_epoch (iv_sites vm ! i) \<noteq> Inr (iv_epoch vm)"

definition recached :: "ic_vm \<Rightarrow> cache_entry list \<Rightarrow> ic_vm" where
  "recached vm c = vm\<lparr>iv_lk := (iv_lk vm)\<lparr>lv_cache := c\<rparr>\<rparr>"

section \<open>The meta word\<close>

lemma smi_new_ok:
  assumes "- (2 ^ 61) \<le> v" and "v < 2 ^ 61"
  obtains w where "smi_new v = Inr w" "is_smi w" "smi_value w = v"
proof -
  have "smi_try_new v = Some (push_bit SMI_SHIFT (word_of_int v))"
    using assms by (simp add: smi_try_new_def SMI_MIN_def SMI_MAX_def)
  then show ?thesis using that smi_try_new_Some by (simp add: smi_new_def)
qed

lemma smi_new_value: "is_smi w \<Longrightarrow> smi_new (smi_value w) = Inr w"
  by (simp add: smi_new_def smi_try_new_value)

lemma smi_new_range: "- (2 ^ 61) \<le> smi_value w \<and> smi_value w < 2 ^ 61"
  using smi_value_range [of w] by (simp add: SMI_MIN_def SMI_MAX_def)

lemma si_argc_value: "si_meta_value s = Inr v \<Longrightarrow> si_argc s = Inr (v mod 2 ^ 8)"
  using take_bit_eq_mask [of 8 v]
  by (simp add: si_argc_def IC_META_ARGC_SHIFT_def IC_META_ARGC_MASK_def take_bit_eq_mod mask_eq_exp_minus_1)

lemma si_epoch_value:
  assumes "si_meta_value s = Inr v" shows "si_epoch s = Inr (nat (v div 2 ^ 8 mod 2 ^ 24))"
proof -
  have "drop_bit 8 (v AND push_bit 8 (mask 24)) = take_bit 24 (drop_bit 8 v)"
    by (rule bit_eqI) (auto simp: bit_simps)
  then have "drop_bit 8 (v AND push_bit 8 (2 ^ 24 - 1)) = v div 2 ^ 8 mod 2 ^ 24"
    by (simp add: mask_eq_exp_minus_1 take_bit_eq_mod drop_bit_eq_div)
  moreover have "v div 2 ^ 8 mod 2 ^ 24 mod 2 ^ 32 = v div 2 ^ 8 mod 2 ^ 24"
    by (rule mod_pos_pos_trivial) (auto intro: order.strict_trans [OF pos_mod_bound])
  ultimately show ?thesis
    using assms by (simp add: si_epoch_def IC_META_EPOCH_SHIFT_def IC_META_EPOCH_MASK_def IC_META_EPOCH_BITS_def)
qed

lemma meta_epoch_meta: "meta_epoch s e \<Longrightarrow> \<exists>v. si_meta_value s = Inr v"
  by (auto simp: meta_epoch_def si_epoch_def rbind_Inr_iff)

lemma si_set_meta_ok:
  assumes "meta_epoch s e0" and "e < 2 ^ 24"
  obtains w where "si_set_meta (s\<lparr>si_guard := g, si_target := t\<rparr>) e = Inr (s\<lparr>si_guard := g, si_target := t, si_meta := w\<rparr>)"
    and "meta_epoch (s\<lparr>si_guard := g, si_target := t, si_meta := w\<rparr>) e"
    and "si_argc (s\<lparr>si_guard := g, si_target := t, si_meta := w\<rparr>) = si_argc s"
proof -
  obtain v where v: "si_meta_value s = Inr v" using meta_epoch_meta [OF assms(1)] by blast
  let ?s = "s\<lparr>si_guard := g, si_target := t\<rparr>" and ?v = "v mod 2 ^ 8 + 2 ^ 8 * int e"
  have v': "si_meta_value ?s = Inr v" using v by (simp add: si_meta_value_def)
  have a: "0 \<le> v mod 2 ^ 8" "v mod 2 ^ 8 < 2 ^ 8" by simp_all
  have "v mod 2 ^ 8 OR push_bit 8 (int e) = concat_bit 8 v (int e)"
    by (simp add: concat_bit_def take_bit_eq_mod)
  also have "\<dots> = ?v" by (simp add: concat_bit_eq take_bit_eq_mod push_bit_eq_mult)
  finally have or: "v mod 2 ^ 8 OR push_bit 8 (int e) = ?v" .
  have r: "0 \<le> ?v" "?v < 2 ^ 32" using a assms(2) by simp_all
  then obtain w where w: "smi_new ?v = Inr w" "is_smi w" "smi_value w = ?v" by (rule_tac smi_new_ok [of ?v]) auto
  have m: "si_set_meta ?s e = Inr (?s\<lparr>si_meta := w\<rparr>)"
    using w(1) or by (simp add: si_set_meta_def si_argc_value [OF v'] IC_META_ARGC_SHIFT_def IC_META_EPOCH_SHIFT_def)
  have mv: "si_meta_value (?s\<lparr>si_meta := w\<rparr>) = Inr ?v" using w by (simp add: si_meta_value_def smi_try_from_def)
  have "?v div 2 ^ 8 = int e" "?v mod 2 ^ 8 = v mod 2 ^ 8" using a by (simp_all add: div_add1_eq)
  then have "si_epoch (?s\<lparr>si_meta := w\<rparr>) = Inr e" "si_argc (?s\<lparr>si_meta := w\<rparr>) = Inr (v mod 2 ^ 8)"
    using si_epoch_value [OF mv] si_argc_value [OF mv] assms(2) by simp_all
  then show ?thesis using that m si_argc_value [OF v] by (simp add: meta_epoch_def)
qed

section \<open>Resolution\<close>

lemma recached_sel [simp]:
  "iv_sites (recached vm c) = iv_sites vm" "iv_arrays (recached vm c) = iv_arrays vm" "iv_alloc (recached vm c) = iv_alloc vm"
  "iv_holder (recached vm c) = iv_holder vm" "lv_classes (iv_lk (recached vm c)) = lv_classes (iv_lk vm)"
  "lv_env (iv_lk (recached vm c)) = lv_env (iv_lk vm)" "lv_epoch (iv_lk (recached vm c)) = lv_epoch (iv_lk vm)"
  "lookup_uncached (iv_lk (recached vm c)) = lookup_uncached (iv_lk vm)" "iv_ics (recached vm c) = iv_ics vm"
  by (simp_all add: recached_def fun_eq_iff)

lemma recached_recached [simp]: "recached (recached vm c) d = recached vm d"
  by (simp add: recached_def)

lemma dispatch_target_cong:
  assumes "lv_classes (iv_lk vm') = lv_classes (iv_lk vm)" "lookup_uncached (iv_lk vm') = lookup_uncached (iv_lk vm)"
    "iv_holder vm' = iv_holder vm"
  shows "dispatch_target vm' = dispatch_target vm"
  by (intro ext) (simp only: dispatch_target_def assms)

lemma iv_wf_cong:
  assumes "cache_coherent (iv_lk vm')" "lv_classes (iv_lk vm') = lv_classes (iv_lk vm)"
    "lookup_uncached (iv_lk vm') = lookup_uncached (iv_lk vm)" "iv_holder vm' = iv_holder vm"
    "lv_env (iv_lk vm') = lv_env (iv_lk vm)" "iv_epoch vm' = iv_epoch vm" "iv_wf vm b sel"
  shows "iv_wf vm' b sel"
  using assms by (simp add: iv_wf_def)

lemma iv_lookup_ok:
  assumes "iv_wf vm b sel" and "iv_is_klass vm k"
  obtains c where "iv_lookup vm k sel = returns (recached vm c, lookup_answer (lookup_uncached (iv_lk vm) k sel))"
    and "cache_coherent ((iv_lk vm)\<lparr>lv_cache := c\<rparr>)"
proof -
  have coh: "cache_coherent (iv_lk vm)" using assms(1) by (simp add: iv_wf_def)
  obtain r where r: "lookup_uncached (iv_lk vm) k sel = returns r" using assms by (auto simp: iv_wf_def)
  obtain lk' where l: "lookup (iv_lk vm) k sel = returns (lk', r)"
  proof -
    from lookup_coherent(1) [OF coh, of k sel] r obtain x where x: "lookup (iv_lk vm) k sel = Some x" "map_sum id snd x = Inr r"
      by auto
    then show ?thesis using that by (cases x) auto
  qed
  from lookup_coherent(2) [OF coh l] obtain c where "lk' = (iv_lk vm)\<lparr>lv_cache := c\<rparr>" "cache_coherent lk'" by blast
  then show ?thesis using that l r by (simp add: iv_lookup_def recached_def lookup_answer_def)
qed

lemma resolve_ok:
  assumes wf: "iv_wf vm b sel" and k: "iv_is_klass vm k"
  obtains c where "resolve vm sel b k = returns (recached vm c, dispatch_target vm b sel k)"
    and "iv_wf (recached vm c) b sel"
proof -
  have wf': "iv_wf (recached vm c) b sel" if "cache_coherent ((iv_lk vm)\<lparr>lv_cache := c\<rparr>)" for c
    by (rule iv_wf_cong [OF _ _ _ _ _ _ wf]) (use that in \<open>simp_all add: recached_def fun_eq_iff\<close>)
  have same: "recached vm (lv_cache (iv_lk vm)) = vm" by (simp add: recached_def)
  show ?thesis
  proof (cases b)
    case False
    then show ?thesis using iv_lookup_ok [OF wf k] that wf' by (simp add: resolve_def dispatch_target_def) metis
  next
    case True
    then obtain ko where ko: "lv_classes (iv_lk vm) (iv_holder vm) = Some ko" using wf by (auto simp: iv_wf_def)
    show ?thesis
    proof (cases "iv_is_klass vm (ko_super ko)")
      case True
      then show ?thesis using iv_lookup_ok [OF wf True] that wf' \<open>b\<close> ko by (simp add: resolve_def dispatch_target_def) metis
    next
      case False
      then show ?thesis using that [of "lv_cache (iv_lk vm)"] \<open>b\<close> ko wf same by (simp add: resolve_def dispatch_target_def)
    qed
  qed
qed

lemma dispatch_target_method: "dispatch_target vm b sel k = Some m \<Longrightarrow> iv_is_method vm m"
  by (auto simp: dispatch_target_def lookup_answer_def lookup_uncached_is_method split: if_splits option.splits sum.splits)

lemma recached_target [simp]: "dispatch_target (recached vm c) = dispatch_target vm"
  by (rule dispatch_target_cong) simp_all

lemma recached_poly_ok [simp]: "poly_ok (recached vm c) b sel cur ps n = poly_ok vm b sel cur ps n"
  by (simp add: poly_ok_def)

section \<open>Writing a site\<close>

lemma put_site_sel [simp]:
  "iv_sites (put_site vm i s) = (iv_sites vm)[i := s]" "iv_lk (put_site vm i s) = iv_lk vm"
  "iv_arrays (put_site vm i s) = iv_arrays vm" "iv_holder (put_site vm i s) = iv_holder vm"
  "iv_ics (put_site vm i s) = iv_ics vm"
  by (simp_all add: put_site_def)

lemma put_array_sel [simp]:
  "iv_sites (put_array vm a ps) = iv_sites vm" "iv_lk (put_array vm a ps) = iv_lk vm"
  "iv_arrays (put_array vm a ps) = (iv_arrays vm)(a \<mapsto> ps)" "iv_holder (put_array vm a ps) = iv_holder vm"
  "iv_ics (put_array vm a ps) = iv_ics vm"
  by (simp_all add: put_array_def)

lemma array_barrier_sel [simp]:
  "iv_sites (array_barrier vm a) = iv_sites vm" "iv_lk (array_barrier vm a) = iv_lk vm"
  "iv_arrays (array_barrier vm a) = iv_arrays vm" "iv_holder (array_barrier vm a) = iv_holder vm"
  "iv_ics (array_barrier vm a) = iv_ics vm"
  by (simp_all add: array_barrier_def)

text \<open>Writes leave what a lookup answers, and so every statement about it, unchanged.\<close>

lemma target_unchanged [simp]:
  "dispatch_target (put_site vm i s) = dispatch_target vm"
  "dispatch_target (put_array vm a ps) = dispatch_target vm"
  "dispatch_target (array_barrier vm a) = dispatch_target vm"
  by (rule dispatch_target_cong; simp)+

lemma wf_unchanged [simp]:
  "iv_wf (put_site vm i s) b sel = iv_wf vm b sel"
  "iv_wf (put_array vm a ps) b sel = iv_wf vm b sel"
  "iv_wf (array_barrier vm a) b sel = iv_wf vm b sel"
  by (simp_all add: iv_wf_def)

lemma poly_ok_unchanged [simp]:
  "poly_ok (put_site vm i s) b sel cur ps n = poly_ok vm b sel cur ps n"
  "poly_ok (put_array vm a ps') b sel cur ps n = poly_ok vm b sel cur ps n"
  "poly_ok (array_barrier vm a) b sel cur ps n = poly_ok vm b sel cur ps n"
  by (simp_all add: poly_ok_def)

definition same_lookup :: "lk_vm \<Rightarrow> lk_vm \<Rightarrow> bool" where
  "same_lookup lk lk' \<longleftrightarrow> lk'\<lparr>lv_cache := []\<rparr> = lk\<lparr>lv_cache := []\<rparr>"

lemma same_lookup_simps [simp]:
  "same_lookup lk lk" "same_lookup lk (iv_lk (recached vm c)) = same_lookup lk (iv_lk vm)"
  "same_lookup (iv_lk (recached vm c)) lk = same_lookup (iv_lk vm) lk"
  by (simp_all add: recached_def same_lookup_def)

lemma same_lookup_trans: "same_lookup a b \<Longrightarrow> same_lookup b c \<Longrightarrow> same_lookup a c"
  by (simp add: same_lookup_def)

text \<open>What one transition may do: rewrite guard, target and epoch of one site, keeping its selector and
  argument count, and leave the other sites and what lookups answer alone.\<close>

definition site_step :: "ic_vm \<Rightarrow> nat \<Rightarrow> ic_vm \<Rightarrow> bool" where
  "site_step vm i vm' \<longleftrightarrow>
     (\<exists>s. iv_sites vm' = (iv_sites vm)[i := s] \<and> si_sel s = si_sel (iv_sites vm ! i) \<and> si_argc s = si_argc (iv_sites vm ! i))
     \<and> dispatch_target vm' = dispatch_target vm \<and> lv_classes (iv_lk vm') = lv_classes (iv_lk vm)
     \<and> iv_ics vm' = iv_ics vm \<and> same_lookup (iv_lk vm) (iv_lk vm')"

definition ic_step_ok :: "ic_vm \<Rightarrow> nat \<Rightarrow> bool \<Rightarrow> ic_vm \<Rightarrow> bool" where
  "ic_step_ok vm i b vm' \<longleftrightarrow> site_step vm i vm' \<and> ic_ok vm' i b"

lemma put_site_step_ok:
  assumes i: "i < length (iv_sites vm)" and wf: "iv_wf vm b (si_sel (iv_sites vm ! i))"
    and s: "si_sel s = si_sel (iv_sites vm ! i)" "si_argc s = si_argc (iv_sites vm ! i)"
    and ok: "site_ok vm b s"
  shows "ic_step_ok vm i b (put_site vm i s)"
proof -
  have "site_ok (put_site vm i s) b s"
    using ok by (simp only: site_ok_def put_site_sel target_unchanged poly_ok_unchanged)
  then show ?thesis using i wf s by (auto simp: ic_step_ok_def site_step_def ic_ok_def)
qed

lemma ic_ok_pre: "ic_ok vm i b \<Longrightarrow> ic_pre vm i b"
  by (auto simp: ic_ok_def site_ok_def ic_pre_def)

lemma ic_pre_unchanged [simp]:
  "ic_pre (put_array vm a ps) i b = ic_pre vm i b" "ic_pre (array_barrier vm a) i b = ic_pre vm i b"
  by (simp_all add: ic_pre_def)

lemma set_mono_ok:
  assumes ok: "ic_pre vm i b" and k: "iv_is_klass vm k" and m: "dispatch_target vm b (si_sel (iv_sites vm ! i)) k = Some m"
    and e: "e = iv_epoch vm"
  shows "\<exists>vm'. set_mono vm i k m e = Inr vm' \<and> ic_step_ok vm i b vm'"
proof -
  let ?s = "iv_sites vm ! i"
  have i: "i < length (iv_sites vm)" and wf: "iv_wf vm b (si_sel ?s)" using ok by (simp_all add: ic_pre_def)
  obtain e0 where e0: "meta_epoch ?s e0" using ok by (auto simp: ic_pre_def)
  have "e < 2 ^ 24" using wf e by (simp add: iv_wf_def)
  from si_set_meta_ok [OF e0 this, where g = k and t = m] obtain w where
    w: "si_set_meta (?s\<lparr>si_guard := k, si_target := m\<rparr>) e = Inr (?s\<lparr>si_guard := k, si_target := m, si_meta := w\<rparr>)"
      "meta_epoch (?s\<lparr>si_guard := k, si_target := m, si_meta := w\<rparr>) e"
      "si_argc (?s\<lparr>si_guard := k, si_target := m, si_meta := w\<rparr>) = si_argc ?s" .
  have "site_ok vm b (?s\<lparr>si_guard := k, si_target := m, si_meta := w\<rparr>)"
    using w(2) k m dispatch_target_method [OF m] e unfolding site_ok_def by (intro exI [of _ e]) simp
  from put_site_step_ok [OF i wf _ w(3) this] show ?thesis using i w(1) by (simp add: set_mono_def ic_at_def)
qed

lemma set_poly_writes:
  assumes ok: "ic_pre vm i b" and e: "e = iv_epoch vm"
  obtains s where "set_poly vm i a e = Inr (put_site vm i s)" "si_sel s = si_sel (iv_sites vm ! i)"
    "si_argc s = si_argc (iv_sites vm ! i)" "is_smi (si_guard s)" "smi_value (si_guard s) = IC_GUARD_POLY"
    "si_target s = a" "meta_epoch s e"
proof -
  let ?s = "iv_sites vm ! i"
  have i: "i < length (iv_sites vm)" and wf: "iv_wf vm b (si_sel ?s)" using ok by (simp_all add: ic_pre_def)
  obtain e0 where e0: "meta_epoch ?s e0" using ok by (auto simp: ic_pre_def)
  have "e < 2 ^ 24" using wf e by (simp add: iv_wf_def)
  obtain g where g: "smi_new IC_GUARD_POLY = Inr g" "is_smi g" "smi_value g = IC_GUARD_POLY"
    by (rule smi_new_ok [of IC_GUARD_POLY]) (simp_all add: IC_GUARD_POLY_def)
  from si_set_meta_ok [OF e0 \<open>e < 2 ^ 24\<close>, where g = g and t = a] obtain w where
    w: "si_set_meta (?s\<lparr>si_guard := g, si_target := a\<rparr>) e = Inr (?s\<lparr>si_guard := g, si_target := a, si_meta := w\<rparr>)"
      "meta_epoch (?s\<lparr>si_guard := g, si_target := a, si_meta := w\<rparr>) e"
      "si_argc (?s\<lparr>si_guard := g, si_target := a, si_meta := w\<rparr>) = si_argc ?s" .
  show ?thesis
    by (rule that [of "?s\<lparr>si_guard := g, si_target := a, si_meta := w\<rparr>"])
      (use i w g in \<open>simp_all add: set_poly_def ic_at_def\<close>)
qed

lemma set_poly_ok:
  assumes ok: "ic_pre vm i b" and a: "iv_arrays vm a = Some ps" and p: "poly_ok vm b (si_sel (iv_sites vm ! i)) True ps n"
    and e: "e = iv_epoch vm"
  shows "\<exists>vm'. set_poly vm i a e = Inr vm' \<and> ic_step_ok vm i b vm'
    \<and> iv_arrays vm' = iv_arrays vm \<and> iv_lk vm' = iv_lk vm \<and> si_target (iv_sites vm' ! i) = a
    \<and> is_smi (si_guard (iv_sites vm' ! i)) \<and> smi_value (si_guard (iv_sites vm' ! i)) = IC_GUARD_POLY"
proof -
  have i: "i < length (iv_sites vm)" and wf: "iv_wf vm b (si_sel (iv_sites vm ! i))" using ok by (simp_all add: ic_pre_def)
  from set_poly_writes [OF ok e, of a] obtain s where s: "set_poly vm i a e = Inr (put_site vm i s)"
    "si_sel s = si_sel (iv_sites vm ! i)" "si_argc s = si_argc (iv_sites vm ! i)" "is_smi (si_guard s)"
    "smi_value (si_guard s) = IC_GUARD_POLY" "si_target s = a" "meta_epoch s e" .
  have "site_ok vm b s" using s a p e unfolding site_ok_def by (intro exI [of _ e]) auto
  from put_site_step_ok [OF i wf s(2,3) this] show ?thesis using i s by simp
qed

lemma set_mega_ok:
  assumes ok: "ic_pre vm i b"
  shows "\<exists>vm'. set_mega vm i nil = Inr vm' \<and> ic_step_ok vm i b vm'"
proof -
  let ?s = "iv_sites vm ! i"
  have i: "i < length (iv_sites vm)" and wf: "iv_wf vm b (si_sel ?s)" using ok by (simp_all add: ic_pre_def)
  obtain e0 where e0: "meta_epoch ?s e0" using ok by (auto simp: ic_pre_def)
  obtain g where g: "smi_new IC_GUARD_MEGA = Inr g" "is_smi g" "smi_value g = IC_GUARD_MEGA"
    by (rule smi_new_ok [of IC_GUARD_MEGA]) (simp_all add: IC_GUARD_MEGA_def)
  have "meta_epoch (?s\<lparr>si_guard := g, si_target := nil\<rparr>) e0" "si_argc (?s\<lparr>si_guard := g, si_target := nil\<rparr>) = si_argc ?s"
    using e0 by (simp_all add: meta_epoch_def si_epoch_def si_argc_def si_meta_value_def)
  then have "site_ok vm b (?s\<lparr>si_guard := g, si_target := nil\<rparr>)" using g unfolding site_ok_def by auto
  from put_site_step_ok [OF i wf _ _ this] show ?thesis
    using i g by (simp add: set_mega_def ic_at_def si_argc_def si_meta_value_def)
qed

lemma set_empty_ok:
  assumes ok: "ic_pre vm i b"
  shows "\<exists>vm'. set_empty vm i (iv_nil vm) = Inr vm' \<and> ic_step_ok vm i b vm' \<and> iv_lk vm' = iv_lk vm
    \<and> si_guard (iv_sites vm' ! i) = iv_nil vm"
proof -
  let ?s = "iv_sites vm ! i" and ?n = "iv_nil vm"
  have i: "i < length (iv_sites vm)" and wf: "iv_wf vm b (si_sel ?s)" using ok by (simp_all add: ic_pre_def)
  obtain e0 where e0: "meta_epoch ?s e0" using ok by (auto simp: ic_pre_def)
  have "meta_epoch (?s\<lparr>si_guard := ?n, si_target := ?n\<rparr>) e0"
    using e0 by (simp add: meta_epoch_def si_epoch_def si_argc_def si_meta_value_def)
  then have "site_ok vm b (?s\<lparr>si_guard := ?n, si_target := ?n\<rparr>)" unfolding site_ok_def by auto
  from put_site_step_ok [OF i wf _ _ this] show ?thesis
    using i by (simp add: set_empty_def ic_at_def si_argc_def si_meta_value_def)
qed

section \<open>Pairs arrays\<close>

lemmas ic_sizes = IC_POLY_ARRAY_LEN_def IC_POLY_MAX_PAIRS_def

lemma poly_arity_loop_ok:
  assumes "\<forall>j < n. iv_is_klass vm (ps ! (2 * j))" and "\<forall>j < 4. n \<le> j \<longrightarrow> \<not> iv_is_klass vm (ps ! (2 * j))"
    and "length ps = 12" and "n \<le> 4" and "j \<le> n"
  shows "poly_arity_loop vm ps [j..<4] j = Inr n"
  using assms(5)
proof (induction "4 - j" arbitrary: j)
  case 0
  then show ?case using assms(4) by simp
next
  case (Suc d)
  then have j: "j < 4" by simp
  have e: "[j..<4] = j # [Suc j..<4]" by (rule upt_conv_Cons [OF j])
  show ?case
  proof (cases "j < n")
    case True
    then have "poly_arity_loop vm ps [Suc j..<4] (Suc j) = Inr n" using Suc by auto
    then show ?thesis unfolding e using True assms(1,3) j by (simp add: pr_at_def)
  next
    case False
    then show ?thesis unfolding e using Suc.prems assms(2,3) j by (simp add: pr_at_def)
  qed
qed

lemma poly_arity_ok:
  assumes "iv_wf vm b sel'" and "poly_ok vm b sel cur ps n"
  shows "poly_arity vm ps = Inr n"
  unfolding poly_arity_def IC_POLY_MAX_PAIRS_def
  by (rule poly_arity_loop_ok) (use assms in \<open>auto simp: poly_ok_def iv_wf_def ic_sizes\<close>)

lemma find_pair_ok:
  assumes "length ps = 12" and "set is \<subseteq> {..<4}"
  shows "\<exists>r. find_pair ps k is = Inr r \<and> (case r of None \<Rightarrow> \<forall>j \<in> set is. ps ! (2 * j) \<noteq> k | Some j \<Rightarrow> j \<in> set is \<and> ps ! (2 * j) = k)"
  using assms(2)
proof (induction "is")
  case (Cons i "is")
  then have i: "i < 4" by simp
  from Cons obtain r where r: "find_pair ps k is = Inr r" and c: "case r of None \<Rightarrow> \<forall>j \<in> set is. ps ! (2 * j) \<noteq> k | Some j \<Rightarrow> j \<in> set is \<and> ps ! (2 * j) = k"
    by auto
  show ?case
    using r c i assms(1) by (cases "ps ! (2 * i) = k") (auto simp: pr_at_def split: option.splits)
qed simp

lemma poly_count_bump_ok:
  assumes "length ps = 12" and "i < 4"
  shows "\<exists>ps'. poly_count_bump ps i = Inr ps' \<and> length ps' = 12 \<and> (\<forall>j < 8. ps' ! j = ps ! j)"
proof -
  obtain c where c: "poly_count_at ps i = Inr c" "- (2 ^ 61) \<le> c"
    using assms smi_new_range [of "ps ! (8 + i)"]
    by (auto simp: poly_count_at_def pr_at_def ic_sizes smi_try_from_def)
  show ?thesis
  proof (cases "c < 2 ^ 31 - 1")
    case True
    obtain w where "smi_new (c + 1) = Inr w" by (rule smi_new_ok [of "c + 1"]) (use True c in auto)
    then show ?thesis using assms c True by (simp add: poly_count_bump_def pr_put_def ic_sizes)
  next
    case False
    then show ?thesis using assms c by (simp add: poly_count_bump_def)
  qed
qed

lemma reverify_collect_ok:
  assumes "iv_wf vm b sel" and "length ps = 12" and "\<forall>j \<in> set is. j < 4 \<and> iv_is_klass vm (ps ! (2 * j))"
    and "\<forall>(k, m, c) \<in> set kept. iv_is_klass vm k \<and> dispatch_target vm b sel k = Some m \<and> - (2 ^ 61) \<le> c \<and> c < 2 ^ 61"
  shows "\<exists>c kept'. reverify_collect vm sel b ps is kept = returns (recached vm c, kept') \<and> iv_wf (recached vm c) b sel
    \<and> length kept' \<le> length kept + length is
    \<and> (\<forall>(k, m, c) \<in> set kept'. iv_is_klass vm k \<and> dispatch_target vm b sel k = Some m \<and> - (2 ^ 61) \<le> c \<and> c < 2 ^ 61)"
  using assms
proof (induction "is" arbitrary: vm kept)
  case Nil
  have "recached vm (lv_cache (iv_lk vm)) = vm" by (simp add: recached_def)
  with Nil(1,4) show ?case by (intro exI [of _ "lv_cache (iv_lk vm)"] exI [of _ kept]) simp
next
  case (Cons i "is")
  let ?k = "ps ! (2 * i)"
  have i: "i < 4" "iv_is_klass vm ?k" using Cons.prems(3) by simp_all
  obtain c where c: "resolve vm sel b ?k = returns (recached vm c, dispatch_target vm b sel ?k)" "iv_wf (recached vm c) b sel"
    using resolve_ok [OF Cons.prems(1) i(2)] .
  obtain q where q: "poly_count_at ps i = Inr q" "- (2 ^ 61) \<le> q" "q < 2 ^ 61"
    using i Cons.prems(2) smi_new_range [of "ps ! (8 + i)"] by (auto simp: poly_count_at_def pr_at_def ic_sizes smi_try_from_def)
  define kept1 where "kept1 = (case dispatch_target vm b sel ?k of None \<Rightarrow> kept | Some m \<Rightarrow> kept @ [(?k, m, q)])"
  have step: "reverify_collect vm sel b ps (i # is) kept = reverify_collect (recached vm c) sel b ps is kept1"
    using i c q Cons.prems(2) by (auto simp: pr_at_def kept1_def split: option.splits)
  have "\<exists>c' kept'. reverify_collect (recached vm c) sel b ps is kept1 = returns (recached (recached vm c) c', kept')
    \<and> iv_wf (recached (recached vm c) c') b sel \<and> length kept' \<le> length kept1 + length is
    \<and> (\<forall>(k, m, c') \<in> set kept'. iv_is_klass (recached vm c) k \<and> dispatch_target (recached vm c) b sel k = Some m \<and> - (2 ^ 61) \<le> c' \<and> c' < 2 ^ 61)"
    by (rule Cons.IH [OF c(2) Cons.prems(2)])
      (use Cons.prems(3,4) i q in \<open>auto simp: kept1_def split: option.splits\<close>)
  moreover have "length kept1 \<le> length kept + 1" by (simp add: kept1_def split: option.splits)
  ultimately show ?case unfolding step by fastforce
qed

lemma put_kept_ok:
  assumes "length ps = 12" and "i + length kept \<le> 4" and "\<forall>(k, m, c) \<in> set kept. - (2 ^ 61) \<le> c \<and> c < 2 ^ 61"
  shows "\<exists>ps'. put_kept ps i kept = Inr ps' \<and> length ps' = 12
    \<and> (\<forall>j < 2 * i. ps' ! j = ps ! j)
    \<and> (\<forall>j < length kept. ps' ! (2 * (i + j)) = fst (kept ! j) \<and> ps' ! (2 * (i + j) + 1) = fst (snd (kept ! j)))"
  using assms
proof (induction kept arbitrary: ps i)
  case (Cons x kept)
  obtain k m c where x: "x = (k, m, c)" by (cases x) auto
  obtain w where w: "smi_new c = Inr w" by (rule smi_new_ok [of c]) (use Cons.prems(3) x in auto)
  let ?ps = "ps[2 * i := k, 2 * i + 1 := m, 8 + i := w]"
  have i: "i < 4" using Cons.prems(2) by simp
  have "\<exists>ps'. put_kept ?ps (i + 1) kept = Inr ps' \<and> length ps' = 12 \<and> (\<forall>j < 2 * (i + 1). ps' ! j = ?ps ! j)
    \<and> (\<forall>j < length kept. ps' ! (2 * (i + 1 + j)) = fst (kept ! j) \<and> ps' ! (2 * (i + 1 + j) + 1) = fst (snd (kept ! j)))"
    by (rule Cons.IH) (use Cons.prems in auto)
  then obtain ps' where ps': "put_kept ?ps (i + 1) kept = Inr ps'" "length ps' = 12" "\<forall>j < 2 * (i + 1). ps' ! j = ?ps ! j"
    "\<forall>j < length kept. ps' ! (2 * (i + 1 + j)) = fst (kept ! j) \<and> ps' ! (2 * (i + 1 + j) + 1) = fst (snd (kept ! j))" by blast
  have "put_kept ps i (x # kept) = Inr ps'" using ps'(1) w x i Cons.prems(1) by (simp add: pr_put_def ic_sizes)
  moreover have "ps' ! (2 * (i + j)) = fst ((x # kept) ! j) \<and> ps' ! (2 * (i + j) + 1) = fst (snd ((x # kept) ! j))"
    if "j < length (x # kept)" for j
  proof (cases j)
    case 0
    then show ?thesis using ps'(3) x i Cons.prems(1) by (simp add: nth_list_update)
  next
    case (Suc j')
    then show ?thesis using ps'(4) that by simp
  qed
  ultimately show ?case using ps'(2,3) i Cons.prems(1) by (auto simp: nth_list_update)
qed simp

lemma clear_pairs_ok:
  assumes "length ps = 12" and "l \<le> 4"
  shows "\<exists>ps'. clear_pairs ps nil [l..<4] = Inr ps' \<and> length ps' = 12 \<and> (\<forall>j < 2 * l. ps' ! j = ps ! j)
    \<and> (\<forall>j < 4. l \<le> j \<longrightarrow> ps' ! (2 * j) = nil)"
  using assms
proof (induction "4 - l" arbitrary: l ps)
  case (Suc d)
  let ?ps = "ps[2 * l := nil, 2 * l + 1 := nil, 8 + l := nil]"
  have l: "l < 4" using Suc(2) by simp
  have "\<exists>ps'. clear_pairs ?ps nil [l + 1..<4] = Inr ps' \<and> length ps' = 12 \<and> (\<forall>j < 2 * (l + 1). ps' ! j = ?ps ! j)
    \<and> (\<forall>j < 4. l + 1 \<le> j \<longrightarrow> ps' ! (2 * j) = nil)"
    by (rule Suc(1)) (use Suc(2-4) in auto)
  then obtain ps' where ps': "clear_pairs ?ps nil [l + 1..<4] = Inr ps'" "length ps' = 12" "\<forall>j < 2 * (l + 1). ps' ! j = ?ps ! j"
    "\<forall>j < 4. l + 1 \<le> j \<longrightarrow> ps' ! (2 * j) = nil" by blast
  have "clear_pairs ps nil [l..<4] = Inr ps'"
    using ps'(1) l Suc(3) by (simp add: upt_conv_Cons [OF l] pr_put_def ic_sizes)
  moreover have "ps' ! (2 * j) = nil" if "j < 4" "l \<le> j" for j
    using ps'(3,4) that Suc(3) by (cases "j = l") (auto simp: nth_list_update)
  ultimately show ?case using ps'(2,3) l Suc(3) by (auto simp: nth_list_update)
qed simp

lemma reverify_poly_ok:
  assumes wf: "iv_wf vm b sel" and p: "poly_ok vm b sel cur ps n"
  shows "\<exists>c ps' n'. reverify_poly vm sel b a ps = returns (array_barrier (put_array (recached vm c) a ps') a, ps')
    \<and> iv_wf (recached vm c) b sel \<and> poly_ok vm b sel True ps' n'"
proof -
  have l: "length ps = 12" "n \<le> 4" using p by (simp_all add: poly_ok_def ic_sizes)
  have "\<forall>j \<in> set [0..<n]. j < 4 \<and> iv_is_klass vm (ps ! (2 * j))" using p l(2) by (auto simp: poly_ok_def)
  from reverify_collect_ok [OF wf l(1) this, of "[]"] have
    "\<exists>c kept. reverify_collect vm sel b ps [0..<n] [] = returns (recached vm c, kept) \<and> iv_wf (recached vm c) b sel
      \<and> length kept \<le> n
      \<and> (\<forall>(k, m, c) \<in> set kept. iv_is_klass vm k \<and> dispatch_target vm b sel k = Some m \<and> - (2 ^ 61) \<le> c \<and> c < 2 ^ 61)"
    by simp
  then obtain c kept where c: "reverify_collect vm sel b ps [0..<n] [] = returns (recached vm c, kept)" "iv_wf (recached vm c) b sel"
    and k: "length kept \<le> n" "\<forall>(k, m, c) \<in> set kept. iv_is_klass vm k \<and> dispatch_target vm b sel k = Some m \<and> - (2 ^ 61) \<le> c \<and> c < 2 ^ 61"
    by auto
  have k4: "length kept \<le> 4" using k(1) l(2) by simp
  have "\<exists>ps1. put_kept ps 0 kept = Inr ps1 \<and> length ps1 = 12 \<and> (\<forall>j < 2 * 0. ps1 ! j = ps ! j)
    \<and> (\<forall>j < length kept. ps1 ! (2 * (0 + j)) = fst (kept ! j) \<and> ps1 ! (2 * (0 + j) + 1) = fst (snd (kept ! j)))"
    by (rule put_kept_ok [OF l(1)]) (use k k4 in auto)
  then obtain ps1 where ps1: "put_kept ps 0 kept = Inr ps1" "length ps1 = 12"
    "\<forall>j < length kept. ps1 ! (2 * j) = fst (kept ! j) \<and> ps1 ! (2 * j + 1) = fst (snd (kept ! j))" by auto
  obtain ps2 where ps2: "clear_pairs ps1 (iv_nil vm) [length kept..<4] = Inr ps2" "length ps2 = 12"
    "\<forall>j < 2 * length kept. ps2 ! j = ps1 ! j" "\<forall>j < 4. length kept \<le> j \<longrightarrow> ps2 ! (2 * j) = iv_nil vm"
    using clear_pairs_ok [OF ps1(2) k4] by blast
  have pair: "iv_is_klass vm (ps2 ! (2 * j)) \<and> iv_is_method vm (ps2 ! (2 * j + 1))
      \<and> dispatch_target vm b sel (ps2 ! (2 * j)) = Some (ps2 ! (2 * j + 1))" if "j < length kept" for j
  proof -
    have "ps2 ! (2 * j) = fst (kept ! j)" "ps2 ! (2 * j + 1) = fst (snd (kept ! j))" using that ps1(3) ps2(3) by simp_all
    moreover have "kept ! j \<in> set kept" using that by simp
    ultimately show ?thesis using k(2) dispatch_target_method by (cases "kept ! j") fastforce
  qed
  have "poly_ok vm b sel True ps2 (length kept)"
    using pair ps2(2,4) k4 by (simp add: poly_ok_def ic_sizes)
  moreover have "reverify_poly vm sel b a ps = returns (array_barrier (put_array (recached vm c) a ps2) a, ps2)"
    using poly_arity_ok [OF wf p] c(1) ps1(1) ps2(1) by (simp add: reverify_poly_def IC_POLY_MAX_PAIRS_def)
  ultimately show ?thesis using c(2) by blast
qed

section \<open>The rows of the table\<close>

lemma site_step_recached: "site_step (recached vm c) i vm' \<Longrightarrow> site_step vm i vm'"
  by (simp add: site_step_def)

lemma ic_ok_recached:
  assumes "ic_ok vm i b" and "iv_wf (recached vm c) b (si_sel (iv_sites vm ! i))"
  shows "ic_ok (recached vm c) i b" and "ic_step_ok vm i b (recached vm c)"
proof -
  show ok: "ic_ok (recached vm c) i b"
    using assms unfolding ic_ok_def site_ok_def recached_sel recached_target recached_poly_ok by blast
  have "(iv_sites vm)[i := iv_sites vm ! i] = iv_sites vm" by simp
  then have "site_step vm i (recached vm c)" unfolding site_step_def by (intro conjI exI [of _ "iv_sites vm ! i"]) simp_all
  then show "ic_step_ok vm i b (recached vm c)" using ok by (simp add: ic_step_ok_def)
qed

lemma ic_step_ok_recached: "ic_step_ok (recached vm c) i b vm' \<Longrightarrow> ic_step_ok vm i b vm'"
  using site_step_recached by (auto simp: ic_step_ok_def)

lemma ic_fill_ok:
  assumes ok: "ic_ok vm i b" and k: "iv_is_klass vm k"
  defines "sel \<equiv> si_sel (iv_sites vm ! i)"
  shows "\<exists>vm'. ic_fill vm i sel b k = returns (vm', dispatch_target vm b sel k) \<and> ic_step_ok vm i b vm'"
proof -
  have wf: "iv_wf vm b sel" using ok by (simp add: ic_ok_def sel_def)
  obtain c where c: "resolve vm sel b k = returns (recached vm c, dispatch_target vm b sel k)" "iv_wf (recached vm c) b sel"
    using resolve_ok [OF wf k] .
  note rc = ic_ok_recached [OF ok c(2) [unfolded sel_def]]
  show ?thesis
  proof (cases "dispatch_target vm b sel k")
    case None
    then show ?thesis using c(1) rc(2) by (simp add: ic_fill_def)
  next
    case (Some m)
    then show ?thesis
      using set_mono_ok [OF ic_ok_pre [OF rc(1)], of k m "iv_epoch vm"] k c(1) ic_step_ok_recached by (auto simp: ic_fill_def sel_def)
  qed
qed

lemma ic_heal_ok:
  assumes ok: "ic_ok vm i b" and k: "iv_is_klass vm k"
  defines "sel \<equiv> si_sel (iv_sites vm ! i)"
  shows "\<exists>vm'. ic_heal vm i sel b k = returns (vm', dispatch_target vm b sel k) \<and> ic_step_ok vm i b vm'"
proof -
  have wf: "iv_wf vm b sel" using ok by (simp add: ic_ok_def sel_def)
  obtain c where c: "resolve vm sel b k = returns (recached vm c, dispatch_target vm b sel k)" "iv_wf (recached vm c) b sel"
    using resolve_ok [OF wf k] .
  note rc = ic_ok_recached [OF ok c(2) [unfolded sel_def]]
  show ?thesis
  proof (cases "dispatch_target vm b sel k")
    case None
    then show ?thesis using set_empty_ok [OF ic_ok_pre [OF rc(1)]] c(1) ic_step_ok_recached by (auto simp: ic_heal_def)
  next
    case (Some m)
    then show ?thesis
      using set_mono_ok [OF ic_ok_pre [OF rc(1)], of k m "iv_epoch vm"] k c(1) ic_step_ok_recached by (auto simp: ic_heal_def sel_def)
  qed
qed

lemma ic_step_ok_arrays:
  assumes "ic_step_ok (put_array vm a ps) i b vm'" shows "ic_step_ok vm i b vm'"
  using assms by (simp add: ic_step_ok_def site_step_def)

lemma ic_step_ok_barrier:
  assumes "ic_step_ok (array_barrier vm a) i b vm'" shows "ic_step_ok vm i b vm'"
  using assms by (simp add: ic_step_ok_def site_step_def)

lemma klass_site:
  assumes "ic_ok vm i b" and "iv_is_klass vm (si_guard (iv_sites vm ! i))"
  shows "\<exists>e. meta_epoch (iv_sites vm ! i) e \<and>
    (if iv_is_method vm (si_target (iv_sites vm ! i))
     then e = iv_epoch vm \<longrightarrow> dispatch_target vm b (si_sel (iv_sites vm ! i)) (si_guard (iv_sites vm ! i)) = Some (si_target (iv_sites vm ! i))
     else dispatch_target vm b (si_sel (iv_sites vm ! i)) (si_guard (iv_sites vm ! i)) \<noteq> None)"
  using assms unfolding ic_ok_def site_ok_def iv_wf_def by metis

lemma pairs_of_two_ok:
  assumes "iv_is_klass vm k0" "dispatch_target vm b sel k0 = Some m0" "iv_is_klass vm k" "dispatch_target vm b sel k = Some m"
  shows "\<exists>ps'. pairs_of_two (replicate 12 (iv_nil vm)) k0 m0 k m = Inr ps' \<and> poly_ok vm b sel True ps' 2"
proof -
  obtain one where one: "smi_new 1 = Inr one" by (rule smi_new_ok [of 1]) simp_all
  let ?ps = "(replicate 12 (iv_nil vm))[0 := k0, 1 := m0, 2 := k, 3 := m, 9 := one]"
  have "iv_is_klass vm (?ps ! (2 * j)) \<and> iv_is_method vm (?ps ! (2 * j + 1))
      \<and> dispatch_target vm b sel (?ps ! (2 * j)) = Some (?ps ! (2 * j + 1))" if "j < 2" for j
  proof -
    have "j = 0 \<or> j = 1" using that by auto
    then show ?thesis using assms dispatch_target_method by auto
  qed
  moreover have "?ps ! (2 * j) = iv_nil vm" if "j < 4" "2 \<le> j" for j
  proof -
    have "j = 2 \<or> j = 3" using that by auto
    then show ?thesis by auto
  qed
  ultimately have "poly_ok vm b sel True ?ps 2" by (simp add: poly_ok_def ic_sizes)
  then show ?thesis using one by (simp add: pairs_of_two_def pr_put_def ic_sizes)
qed

lemma ic_skew_ok:
  assumes ok: "ic_ok vm i b" and k: "iv_is_klass vm k" and g: "iv_is_klass vm (si_guard (iv_sites vm ! i))"
    and ne: "si_guard (iv_sites vm ! i) \<noteq> k" and ns: "\<not> stale_skew vm i k"
  defines "sel \<equiv> si_sel (iv_sites vm ! i)"
  shows "\<exists>vm'. ic_skew vm i sel b k = returns (vm', dispatch_target vm b sel k) \<and> ic_step_ok vm i b vm'"
proof -
  let ?s = "iv_sites vm ! i"
  have wf: "iv_wf vm b sel" and i: "i < length (iv_sites vm)" using ok by (simp_all add: ic_ok_def sel_def)
  obtain c where c: "resolve vm sel b k = returns (recached vm c, dispatch_target vm b sel k)" "iv_wf (recached vm c) b sel"
    using resolve_ok [OF wf k] .
  note rc = ic_ok_recached [OF ok c(2) [unfolded sel_def]]
  show ?thesis
  proof (cases "dispatch_target vm b sel k")
    case None
    then show ?thesis using c(1) rc(2) by (simp add: ic_skew_def)
  next
    case (Some m)
    define a where "a = iv_alloc vm (iv_arrays vm)"
    define vm2 where "vm2 = put_array (recached vm c) a (replicate 12 (iv_nil vm))"
    have alloc: "alloc_poly_pairs (recached vm c) = (vm2, a)"
      by (simp add: alloc_poly_pairs_def a_def vm2_def Let_def ic_sizes)
    have wf2: "iv_wf vm2 b sel" using c(2) by (simp add: vm2_def)
    have pre2: "ic_pre vm2 i b" using ic_ok_pre [OF rc(1)] by (simp add: vm2_def)
    have g2: "iv_is_klass vm2 (si_guard ?s)" using g by (simp add: vm2_def)
    obtain c' m0 where m0: "dispatch_target vm b sel (si_guard ?s) = Some m0" "iv_wf (recached vm2 c') b sel"
      "(if iv_is_method vm2 (si_target ?s) then returns (vm2, si_target ?s)
        else cbind (resolve vm2 sel b (si_guard ?s)) (\<lambda>(vm3, r0).
          cbind (Some (expect r0)) (\<lambda>m0. returns (vm3, m0)))) = returns (recached vm2 c', m0)"
    proof (cases "iv_is_method vm (si_target ?s)")
      case True
      then have "dispatch_target vm b sel (si_guard ?s) = Some (si_target ?s)"
        using klass_site [OF ok g] ns g ne by (auto simp: stale_skew_def sel_def meta_epoch_def)
      moreover have "recached vm2 (lv_cache (iv_lk vm2)) = vm2" by (simp add: recached_def)
      ultimately show ?thesis using that [of "si_target ?s" "lv_cache (iv_lk vm2)"] True wf2 by (simp add: vm2_def)
    next
      case False
      then obtain m0 where m0: "dispatch_target vm b sel (si_guard ?s) = Some m0"
        using klass_site [OF ok g] by (auto simp: sel_def)
      obtain d where "resolve vm2 sel b (si_guard ?s) = returns (recached vm2 d, dispatch_target vm2 b sel (si_guard ?s))"
        "iv_wf (recached vm2 d) b sel" using resolve_ok [OF wf2 g2] .
      then show ?thesis using that [of m0 d] m0 False by (simp add: vm2_def)
    qed
    let ?vm3 = "recached vm2 c'"
    obtain ps where ps: "pairs_of_two (replicate 12 (iv_nil vm)) (si_guard ?s) m0 k m = Inr ps" "poly_ok vm b sel True ps 2"
      using pairs_of_two_ok [OF g m0(1) k Some] by blast
    have "ic_pre (put_array ?vm3 a ps) i b" using pre2 m0(2) by (simp add: ic_pre_def vm2_def sel_def)
    moreover have "iv_sites ?vm3 = iv_sites vm" by (simp add: vm2_def)
    ultimately obtain vm4 where vm4: "set_poly (put_array ?vm3 a ps) i a (iv_epoch vm) = Inr vm4" "ic_step_ok (put_array ?vm3 a ps) i b vm4"
      using set_poly_ok [of "put_array ?vm3 a ps" i b a ps 2 "iv_epoch vm"] ps(2) by (auto simp: vm2_def sel_def)
    have "ic_step_ok vm i b vm4"
      using ic_step_ok_recached [OF ic_step_ok_arrays [OF ic_step_ok_recached [OF ic_step_ok_arrays [OF vm4(2)], unfolded vm2_def]]] .
    moreover have "ic_at vm2 i = Inr ?s" using i by (simp add: ic_at_def vm2_def)
    moreover have "array_try_from ?vm3 a = Some (replicate 12 (iv_nil vm))" by (simp add: array_try_from_def vm2_def)
    ultimately show ?thesis using Some c(1) alloc g2 m0(3) ps(1) vm4(1) by (simp add: ic_skew_def)
  qed
qed

lemma ic_extend_ok:
  assumes pre: "ic_pre vm i b" and p: "poly_ok vm b (si_sel (iv_sites vm ! i)) True ps n" and k: "iv_is_klass vm k"
    and m: "dispatch_target vm b (si_sel (iv_sites vm ! i)) k = Some m" and e: "e = iv_epoch vm"
  shows "\<exists>vm'. ic_extend vm i a ps n k m e = Inr vm' \<and> ic_step_ok vm i b vm'"
proof (cases "n < 4")
  case False
  then show ?thesis using set_mega_ok [OF pre] by (simp add: ic_extend_def ic_sizes)
next
  case True
  obtain one where one: "smi_new 1 = Inr one" by (rule smi_new_ok [of 1]) simp_all
  let ?sel = "si_sel (iv_sites vm ! i)" and ?ps = "ps[2 * n := k, 2 * n + 1 := m, 8 + n := one]"
  have l: "length ps = 12" using p by (simp add: poly_ok_def ic_sizes)
  have old: "iv_is_klass vm (ps ! (2 * j)) \<and> iv_is_method vm (ps ! (2 * j + 1)) \<and> dispatch_target vm b ?sel (ps ! (2 * j)) = Some (ps ! (2 * j + 1))"
    if "j < n" for j using p that by (auto simp: poly_ok_def)
  have "iv_is_klass vm (?ps ! (2 * j)) \<and> iv_is_method vm (?ps ! (2 * j + 1))
      \<and> dispatch_target vm b ?sel (?ps ! (2 * j)) = Some (?ps ! (2 * j + 1))" if "j < n + 1" for j
  proof (cases "j = n")
    case True
    then show ?thesis using k m l \<open>n < 4\<close> dispatch_target_method [OF m] by (simp add: nth_list_update)
  next
    case False
    then have j: "j < n" using that by simp
    then have "?ps ! (2 * j) = ps ! (2 * j)" "?ps ! (2 * j + 1) = ps ! (2 * j + 1)"
      using l \<open>n < 4\<close> by (auto simp: nth_list_update)
    then show ?thesis using old [OF j] by simp
  qed
  moreover have "?ps ! (2 * j) = iv_nil vm" if "j < 4" "n + 1 \<le> j" for j
    using that p l \<open>n < 4\<close> by (auto simp: poly_ok_def ic_sizes nth_list_update)
  ultimately have "poly_ok vm b ?sel True ?ps (n + 1)" using l \<open>n < 4\<close> by (simp add: poly_ok_def ic_sizes)
  then obtain vm' where "set_poly (array_barrier (put_array vm a ?ps) a) i a e = Inr vm'"
    "ic_step_ok (array_barrier (put_array vm a ?ps) a) i b vm'"
    using set_poly_ok [of "array_barrier (put_array vm a ?ps) a" i b a ?ps "n + 1" e] pre e by auto
  moreover from this(2) have "ic_step_ok vm i b vm'" by (rule ic_step_ok_arrays [OF ic_step_ok_barrier])
  ultimately show ?thesis using True one l by (simp add: ic_extend_def pr_put_def ic_sizes)
qed

lemma poly_ok_weaken: "poly_ok vm b sel True ps n \<Longrightarrow> poly_ok vm b sel cur ps n"
  by (simp add: poly_ok_def)

lemma poly_site_ok:
  assumes "ic_pre vm i b" and "is_smi (si_guard (iv_sites vm ! i))" "smi_value (si_guard (iv_sites vm ! i)) = IC_GUARD_POLY"
    and "iv_arrays vm (si_target (iv_sites vm ! i)) = Some ps" and "poly_ok vm b (si_sel (iv_sites vm ! i)) True ps n"
  shows "ic_ok vm i b"
  using assms poly_ok_weaken [OF assms(5)] unfolding ic_ok_def site_ok_def ic_pre_def by blast

lemma site_step_refl: "dispatch_target vm' = dispatch_target vm \<Longrightarrow> lv_classes (iv_lk vm') = lv_classes (iv_lk vm) \<Longrightarrow>
    iv_sites vm' = iv_sites vm \<Longrightarrow> iv_ics vm' = iv_ics vm \<Longrightarrow> same_lookup (iv_lk vm) (iv_lk vm') \<Longrightarrow> site_step vm i vm'"
  unfolding site_step_def by (intro conjI exI [of _ "iv_sites vm ! i"]) simp_all

lemma ic_probe_pairs_ok:
  assumes pre: "ic_pre vm i b" and k: "iv_is_klass vm k" and p: "poly_ok vm b (si_sel (iv_sites vm ! i)) True ps n"
    and site: "is_smi (si_guard (iv_sites vm ! i))" "smi_value (si_guard (iv_sites vm ! i)) = IC_GUARD_POLY"
      "iv_arrays vm (si_target (iv_sites vm ! i)) = Some ps"
  defines "sel \<equiv> si_sel (iv_sites vm ! i)" and "a \<equiv> si_target (iv_sites vm ! i)"
  shows "\<exists>vm'. ic_probe_pairs vm i sel b k a ps = returns (vm', dispatch_target vm b sel k) \<and> ic_step_ok vm i b vm'"
proof -
  have wf: "iv_wf vm b sel" using pre by (simp add: ic_pre_def sel_def)
  have l: "length ps = 12" "n \<le> 4" using p by (simp_all add: poly_ok_def ic_sizes)
  note arity = poly_arity_ok [OF wf p]
  obtain r where r: "find_pair ps k [0..<n] = Inr r"
    "case r of None \<Rightarrow> \<forall>j \<in> set [0..<n]. ps ! (2 * j) \<noteq> k | Some j \<Rightarrow> j \<in> set [0..<n] \<and> ps ! (2 * j) = k"
  proof -
    have "set [0..<n] \<subseteq> {..<4}" using l(2) by auto
    from find_pair_ok [OF l(1) this, of k] show ?thesis using that by blast
  qed
  show ?thesis
  proof (cases r)
    case (Some j)
    then have j: "j < n" "ps ! (2 * j) = k" using r(2) by simp_all
    then have m: "iv_is_method vm (ps ! (2 * j + 1))" "dispatch_target vm b sel k = Some (ps ! (2 * j + 1))"
      using p by (auto simp: poly_ok_def sel_def)
    obtain ps' where ps': "poly_count_bump ps j = Inr ps'" "length ps' = 12" "\<forall>x < 8. ps' ! x = ps ! x"
      using poly_count_bump_ok [OF l(1), of j] j(1) l(2) by auto
    have "poly_ok vm b sel True ps' n"
      using p ps'(2,3) l(2) unfolding poly_ok_def sel_def ic_sizes by auto
    then have "ic_step_ok vm i b (put_array vm a ps')"
      using pre site poly_site_ok [of "put_array vm a ps'" i b ps' n]
      by (simp add: ic_step_ok_def site_step_refl a_def sel_def)
    then show ?thesis
      using arity r(1) Some ps' m j l by (simp add: ic_probe_pairs_def pr_at_def)
  next
    case None
    obtain c where c: "resolve vm sel b k = returns (recached vm c, dispatch_target vm b sel k)" "iv_wf (recached vm c) b sel"
      using resolve_ok [OF wf k] .
    note rc = ic_ok_recached [OF poly_site_ok [OF pre site p] c(2) [unfolded sel_def]]
    show ?thesis
    proof (cases "dispatch_target vm b sel k")
      case None
      then show ?thesis using \<open>r = None\<close> arity r(1) c(1) rc(2) by (simp add: ic_probe_pairs_def)
    next
      case (Some m)
      obtain vm' where vm': "ic_extend (recached vm c) i a ps n k m (iv_epoch vm) = Inr vm'" "ic_step_ok (recached vm c) i b vm'"
        using ic_extend_ok [OF ic_ok_pre [OF rc(1)], of ps n k m "iv_epoch vm" a] p k Some by (auto simp: sel_def)
      then show ?thesis
        using \<open>r = None\<close> arity r(1) c(1) Some ic_step_ok_recached by (auto simp: ic_probe_pairs_def)
    qed
  qed
qed

lemma ic_step_ok_trans:
  assumes "site_step vm i vm1" and "i < length (iv_sites vm)" and "ic_step_ok vm1 i b vm2" shows "ic_step_ok vm i b vm2"
  using assms by (auto simp: ic_step_ok_def site_step_def intro: same_lookup_trans)

lemma poly_site:
  assumes "ic_ok vm i b" and "is_smi (si_guard (iv_sites vm ! i))" "smi_value (si_guard (iv_sites vm ! i)) = IC_GUARD_POLY"
  shows "\<exists>e ps n. meta_epoch (iv_sites vm ! i) e \<and> iv_arrays vm (si_target (iv_sites vm ! i)) = Some ps
    \<and> poly_ok vm b (si_sel (iv_sites vm ! i)) (e = iv_epoch vm) ps n"
proof -
  have "\<not> iv_is_klass vm (si_guard (iv_sites vm ! i))" "si_guard (iv_sites vm ! i) \<noteq> iv_nil vm"
    "IC_GUARD_POLY \<noteq> IC_GUARD_MEGA"
    using assms by (auto simp: ic_ok_def iv_wf_def IC_GUARD_POLY_def IC_GUARD_MEGA_def)
  then show ?thesis using assms unfolding ic_ok_def site_ok_def by metis
qed

lemma ic_poly_ok:
  assumes ok: "ic_ok vm i b" and k: "iv_is_klass vm k"
    and site: "is_smi (si_guard (iv_sites vm ! i))" "smi_value (si_guard (iv_sites vm ! i)) = IC_GUARD_POLY"
  shows "\<exists>vm'. ic_poly vm i (iv_sites vm ! i) b k = returns (vm', dispatch_target vm b (si_sel (iv_sites vm ! i)) k) \<and> ic_step_ok vm i b vm'"
proof -
  let ?s = "iv_sites vm ! i"
  let ?sel = "si_sel ?s" and ?a = "si_target ?s"
  have wf: "iv_wf vm b ?sel" and i: "i < length (iv_sites vm)" using ok by (simp_all add: ic_ok_def)
  obtain e ps n where e: "meta_epoch ?s e" and ps: "iv_arrays vm ?a = Some ps" "poly_ok vm b ?sel (e = iv_epoch vm) ps n"
    using poly_site [OF ok site] by blast
  show ?thesis
  proof (cases "e = iv_epoch vm")
    case True
    then show ?thesis
      using ic_probe_pairs_ok [OF ic_ok_pre [OF ok] k _ site ps(1)] ps e by (simp add: ic_poly_def array_try_from_def meta_epoch_def)
  next
    case False
    obtain c ps1 n1 where rv: "reverify_poly vm ?sel b ?a ps = returns (array_barrier (put_array (recached vm c) ?a ps1) ?a, ps1)"
      "iv_wf (recached vm c) b ?sel" "poly_ok vm b ?sel True ps1 n1" using reverify_poly_ok [OF wf ps(2)] by blast
    let ?vm1 = "array_barrier (put_array (recached vm c) ?a ps1) ?a"
    have pre1: "ic_pre ?vm1 i b" using ic_ok_pre [OF ok] rv(2) by (simp add: ic_pre_def)
    have step1: "site_step vm i ?vm1" by (rule site_step_refl) simp_all
    have ar: "poly_arity ?vm1 ps1 = Inr n1"
      by (rule poly_arity_ok [of _ b ?sel]) (use rv(2,3) in simp_all)
    have unf: "ic_poly vm i ?s b k =
      (if n1 = 0 then cbind (Some (set_empty ?vm1 i (iv_nil vm))) (\<lambda>vm2. ic_fill vm2 i ?sel b k)
       else cbind (Some (set_poly ?vm1 i ?a (iv_epoch vm))) (\<lambda>vm2. ic_probe_pairs vm2 i ?sel b k ?a ps1))"
      using False e ps(1) rv(1) ar by (simp add: ic_poly_def array_try_from_def meta_epoch_def)
    show ?thesis
    proof (cases "n1 = 0")
      case True
      obtain vm2 where vm2: "set_empty ?vm1 i (iv_nil vm) = Inr vm2" "ic_step_ok ?vm1 i b vm2"
        using set_empty_ok [OF pre1] by auto
      have s2: "site_step ?vm1 i vm2" "ic_ok vm2 i b" using vm2(2) by (simp_all add: ic_step_ok_def)
      then have sel2: "si_sel (iv_sites vm2 ! i) = ?sel" "dispatch_target vm2 = dispatch_target vm" "iv_is_klass vm2 k"
        using i k by (auto simp: site_step_def)
      obtain vm' where "ic_fill vm2 i ?sel b k = returns (vm', dispatch_target vm b ?sel k)" "ic_step_ok vm2 i b vm'"
        using ic_fill_ok [OF s2(2) sel2(3)] sel2 by auto
      moreover from this(2) have "ic_step_ok vm i b vm'"
        using ic_step_ok_trans [OF step1 i ic_step_ok_trans [OF s2(1)]] i by simp
      ultimately show ?thesis using unf True vm2(1) by simp
    next
      case False
      obtain vm2 where vm2: "set_poly ?vm1 i ?a (iv_epoch vm) = Inr vm2" "ic_step_ok ?vm1 i b vm2" "iv_arrays vm2 = iv_arrays ?vm1"
        "iv_lk vm2 = iv_lk ?vm1" "si_target (iv_sites vm2 ! i) = ?a"
        "is_smi (si_guard (iv_sites vm2 ! i))" "smi_value (si_guard (iv_sites vm2 ! i)) = IC_GUARD_POLY"
        using set_poly_ok [OF pre1, of ?a ps1 n1 "iv_epoch vm"] rv(3) by auto
      have s2: "site_step ?vm1 i vm2" "ic_ok vm2 i b" using vm2(2) by (simp_all add: ic_step_ok_def)
      then have sel2: "si_sel (iv_sites vm2 ! i) = ?sel" "dispatch_target vm2 = dispatch_target vm" "iv_is_klass vm2 k"
        using i k by (auto simp: site_step_def)
      have "iv_arrays vm2 ?a = Some ps1" by (simp add: vm2(3))
      moreover have "poly_ok vm2 b ?sel True ps1 n1" using rv(3) sel2(2) vm2(4) by (simp add: poly_ok_def)
      ultimately obtain vm' where "ic_probe_pairs vm2 i ?sel b k ?a ps1 = returns (vm', dispatch_target vm b ?sel k)" "ic_step_ok vm2 i b vm'"
        using ic_probe_pairs_ok [OF ic_ok_pre [OF s2(2)] sel2(3), of ps1 n1] vm2(5-7) sel2 by auto
      moreover from this(2) have "ic_step_ok vm i b vm'"
        using ic_step_ok_trans [OF step1 i ic_step_ok_trans [OF s2(1)]] i by simp
      ultimately show ?thesis using unf False vm2(1) by simp
    qed
  qed
qed

lemma ic_transition_ok:
  assumes "ic_ok vm i is_super" and "iv_is_klass vm k" and "\<not> stale_skew vm i k"
  shows "\<exists>vm'. ic_transition vm i k is_super = returns (vm', dispatch_target vm is_super (si_sel (iv_sites vm ! i)) k)
    \<and> ic_step_ok vm i is_super vm'"
proof -
  let ?s = "iv_sites vm ! i"
  let ?sel = "si_sel ?s"
  have i: "i < length (iv_sites vm)" and wf: "iv_wf vm is_super ?sel" and ok: "site_ok vm is_super ?s"
    using assms(1) by (simp_all add: ic_ok_def)
  have start: "ic_at vm i = Inr ?s" "si_selector vm ?s = Inr ?sel"
    using i wf by (simp_all add: ic_at_def si_selector_def symbol_try_from_def iv_wf_def)
  show ?thesis
  proof (cases "si_guard ?s = iv_nil vm")
    case True
    then show ?thesis using ic_fill_ok [OF assms(1,2)] start by (simp add: ic_transition_def)
  next
    case nonnil: False
    show ?thesis
    proof (cases "iv_is_klass vm (si_guard ?s)")
      case True
      then show ?thesis
        using ic_heal_ok [OF assms(1), of k] ic_skew_ok [OF assms(1,2) True _ assms(3)] nonnil start assms(2)
        by (cases "si_guard ?s = k") (simp_all add: ic_transition_def)
    next
      case False
      then have smi: "is_smi (si_guard ?s)" "smi_value (si_guard ?s) = IC_GUARD_POLY \<or> smi_value (si_guard ?s) = IC_GUARD_MEGA"
        using ok nonnil unfolding site_ok_def by blast+
      show ?thesis
      proof (cases "smi_value (si_guard ?s) = IC_GUARD_POLY")
        case True
        then show ?thesis
          using ic_poly_ok [OF assms(1,2) smi(1) True] nonnil False smi start by (simp add: ic_transition_def smi_try_from_def)
      next
        case mega: False
        obtain c where c: "resolve vm ?sel is_super k = returns (recached vm c, dispatch_target vm is_super ?sel k)" "iv_wf (recached vm c) is_super ?sel"
          using resolve_ok [OF wf assms(2)] .
        then show ?thesis
          using ic_ok_recached(2) [OF assms(1) c(2)] nonnil False smi mega start by (simp add: ic_transition_def smi_try_from_def)
      qed
    qed
  qed
qed

section \<open>Properties\<close>


text \<open>A site that still caches method \<open>105\<close> for class \<open>21\<close> from epoch 0, in the state after method \<open>101\<close> was
  installed in its superclass \<open>17\<close>.\<close>

definition example_iv :: "lk_vm \<Rightarrow> ic_vm" where
  "example_iv lk =
     \<lparr>iv_lk = lk, iv_ics = 0x4001, iv_sites = [\<lparr>si_sel = 5, si_meta = 4, si_guard = 21, si_target = 105\<rparr>],
      iv_holder = 17, iv_arrays = Map.empty, iv_alloc = (\<lambda>_. 0x5001), iv_barriered = []\<rparr>"

lemma example_installed:
  obtains lk es where "install_method example_lk 17 5 101 = returns (lk, es)" "cache_coherent lk"
    "lookup_uncached lk 21 5 = returns (Some 101)" "lookup_uncached lk 17 5 = returns (Some 101)"
    "\<forall>k. lv_classes lk k \<noteq> None \<longleftrightarrow> k = 17 \<or> k = 21" "lv_env lk = example_env" "lv_epoch lk = 1"
proof -
  have c: "lv_classes example_lk 17 = Some \<lparr>ko_methods = None, ko_super = 1\<rparr>"
    "lv_methods example_lk 101 = Some \<lparr>mo_holder = 1, mo_is_block = False, mo_literals = [105, 8]\<rparr>"
    "lv_epoch example_lk + 1 < 2 ^ 24" by (simp_all add: example_lk_def)
  note f = example_lk_facts
  obtain d ms es where i: "install_method example_lk 17 5 101 =
      returns (installed example_lk 17 \<lparr>ko_methods = None, ko_super = 1\<rparr> d ms, es)"
    and d: "md_inv (lv_env example_lk) d" "md_map (lv_env example_lk) (md_slots d) = (own_binding example_lk 17)(5 \<mapsto> 101)"
    using install_method_ok [OF f(1) c(1) f(2,3) c(2) f(5) c(3)] by blast
  let ?lk = "installed example_lk 17 \<lparr>ko_methods = None, ko_super = 1\<rparr> d ms"
  have "length (lv_cache example_lk) = 2 * LOOKUP_CACHE_SIZE" by (simp add: example_lk_def lookup_cache_new_def)
  from install_method_keeps [OF i f(1,2,3) this] have keep: "dicts_ok ?lk" "cache_coherent ?lk" by auto
  have own: "own_binding ?lk 17 5 = Some 101" "own_binding ?lk 21 5 = None"
    using own_binding_installed [OF c(1) d(2)] by (simp_all add: own_binding_def example_lk_def)
  have sc: "superchain example_lk 17 [17]" using f(4) by (auto elim: superchainE simp: example_lk_def)
  have key: "key_ok (lv_env ?lk) 5" using f(2) by (simp add: installed_def)
  show ?thesis
  proof (rule that [OF i keep(2)])
    show "lookup_uncached ?lk 21 5 = returns (Some 101)"
      using lookup_uncached_chain [OF superchain_installed [OF f(4) c(1)] keep(1) key] own by simp
    show "lookup_uncached ?lk 17 5 = returns (Some 101)"
      using lookup_uncached_chain [OF superchain_installed [OF sc c(1)] keep(1) key] own by simp
  qed (auto simp: installed_def example_lk_def)
qed

lemma example_iv_ok:
  assumes "cache_coherent lk" "lookup_uncached lk 21 5 = returns (Some 101)" "lookup_uncached lk 17 5 = returns (Some 101)"
    "\<forall>k. lv_classes lk k \<noteq> None \<longleftrightarrow> k = 17 \<or> k = 21" "lv_env lk = example_env" "lv_epoch lk = 1"
  shows "ic_ok (example_iv lk) 0 False" and "dispatch_target (example_iv lk) False 5 21 = Some 101"
    and "dispatch_target (example_iv lk) False 5 17 = Some 101"
proof -
  show d: "dispatch_target (example_iv lk) False 5 21 = Some 101" "dispatch_target (example_iv lk) False 5 17 = Some 101"
    using assms(2,3) by (simp_all add: dispatch_target_def example_iv_def lookup_answer_def)
  have m: "si_meta_value (iv_sites (example_iv lk) ! 0) = Inr 1"
    by (simp add: example_iv_def si_meta_value_def smi_try_from_def is_smi_def oop_tag_def tag_defs smi_value_def SMI_SHIFT_def)
  have "meta_epoch (iv_sites (example_iv lk) ! 0) 0"
    using si_epoch_value [OF m] si_argc_value [OF m] by (simp add: meta_epoch_def)
  moreover have "iv_is_klass (example_iv lk) 21" using assms(4) [rule_format, of 21] by (simp add: example_iv_def)
  ultimately have s: "site_ok (example_iv lk) False (iv_sites (example_iv lk) ! 0)"
    using assms(5,6) d(1) unfolding site_ok_def by (intro exI [of _ 0]) (simp add: example_iv_def)
  have "iv_wf (example_iv lk) False 5"
    unfolding iv_wf_def
  proof (intro conjI allI impI)
    fix k assume "iv_is_klass (example_iv lk) k"
    then have k: "k = 17 \<or> k = 21" using assms(4) [rule_format, of k] by (simp add: example_iv_def)
    then show "\<exists>r. lookup_uncached (iv_lk (example_iv lk)) k 5 = returns r" using assms(2,3) by (auto simp: example_iv_def)
    show "\<not> is_smi k" using k by (auto simp: is_smi_def oop_tag_def tag_defs)
  qed (use assms(1) assms(4) [rule_format, of 1] assms(5,6) in \<open>auto simp: example_iv_def example_env_def is_smi_def oop_tag_def tag_defs\<close>)
  then show "ic_ok (example_iv lk) 0 False" using s by (simp add: ic_ok_def example_iv_def)
qed


text \<open>C28: a monomorphic site left over from an older epoch that meets a second class is stamped as
  current without its old entry being looked up again. The transition answers correctly for the new
  class, but from then on a send to the old class answers the method cached before the redefinition,
  whatever a lookup answers now.\<close>

theorem ic_stale_mono_survives_skew:
  assumes "ic_ok vm i is_super" and "iv_is_klass vm k" and "stale_skew vm i k"
    and "dispatch_target vm is_super (si_sel (iv_sites vm ! i)) k = Some m"
  shows "\<exists>vm' vm''. ic_transition vm i k is_super = returns (vm', Some m)
    \<and> dispatch_target vm' = dispatch_target vm
    \<and> ic_transition vm' i (si_guard (iv_sites vm ! i)) is_super = returns (vm'', Some (si_target (iv_sites vm ! i)))"
proof -
  let ?s = "iv_sites vm ! i"
  let ?sel = "si_sel ?s" and ?k0 = "si_guard ?s" and ?m0 = "si_target ?s"
  have wf: "iv_wf vm is_super ?sel" and i: "i < length (iv_sites vm)" using assms(1) by (simp_all add: ic_ok_def)
  have g: "iv_is_klass vm ?k0" "?k0 \<noteq> k" "iv_is_method vm ?m0" "?k0 \<noteq> iv_nil vm"
    using assms(3) wf by (auto simp: stale_skew_def iv_wf_def)
  obtain c where c: "resolve vm ?sel is_super k = returns (recached vm c, dispatch_target vm is_super ?sel k)"
    "iv_wf (recached vm c) is_super ?sel" using resolve_ok [OF wf assms(2)] .
  define a where "a = iv_alloc vm (iv_arrays vm)"
  define vm2 where "vm2 = put_array (recached vm c) a (replicate 12 (iv_nil vm))"
  obtain one where one: "smi_new 1 = Inr one" by (rule smi_new_ok [of 1]) simp_all
  let ?ps = "(replicate 12 (iv_nil vm))[0 := ?k0, 1 := ?m0, 2 := k, 3 := m, 9 := one]"
  have "ic_pre (put_array vm2 a ?ps) i is_super"
    using ic_ok_pre [OF ic_ok_recached(1) [OF assms(1) c(2)]] by (simp add: vm2_def)
  from set_poly_writes [OF this, of "iv_epoch vm" a] obtain s where
    s: "set_poly (put_array vm2 a ?ps) i a (iv_epoch vm) = Inr (put_site (put_array vm2 a ?ps) i s)"
      "si_sel s = ?sel" "is_smi (si_guard s)" "smi_value (si_guard s) = IC_GUARD_POLY" "si_target s = a"
      "meta_epoch s (iv_epoch vm)" by (auto simp: vm2_def)
  define vm' where "vm' = put_site (put_array vm2 a ?ps) i s"
  have start: "ic_at vm i = Inr ?s" "si_selector vm ?s = Inr ?sel"
    using i wf by (simp_all add: ic_at_def si_selector_def symbol_try_from_def iv_wf_def)
  have "alloc_poly_pairs (recached vm c) = (vm2, a)" "ic_at vm2 i = Inr ?s"
    "array_try_from vm2 a = Some (replicate 12 (iv_nil vm))" "iv_is_klass vm2 ?k0" "iv_is_method vm2 ?m0"
    using i g by (simp_all add: alloc_poly_pairs_def a_def vm2_def Let_def ic_sizes ic_at_def array_try_from_def)
  moreover have "pairs_of_two (replicate 12 (iv_nil vm)) ?k0 ?m0 k m = Inr ?ps"
    using one by (simp add: pairs_of_two_def pr_put_def ic_sizes)
  ultimately have "ic_skew vm i ?sel is_super k = returns (vm', Some m)"
    using c(1) assms(4) s(1) by (simp add: ic_skew_def vm'_def)
  then have first: "ic_transition vm i k is_super = returns (vm', Some m)"
    using g start by (simp add: ic_transition_def)
  have vm': "iv_lk vm' = iv_lk (recached vm c)" "iv_arrays vm' a = Some ?ps" "iv_sites vm' ! i = s" "i < length (iv_sites vm')"
    using i by (simp_all add: vm'_def vm2_def)
  obtain qs where bump: "poly_count_bump ?ps 0 = Inr qs" "length qs = 12" "\<forall>j < 8. qs ! j = ?ps ! j"
    using poly_count_bump_ok [of ?ps 0] by auto
  have ar: "poly_arity vm' ?ps = Inr 2"
    using g assms(2) wf vm'(1)
    by (simp add: poly_arity_def ic_sizes upt_rec pr_at_def iv_wf_def)
  have "ic_probe_pairs vm' i ?sel is_super ?k0 a ?ps = returns (put_array vm' a qs, Some ?m0)"
    using ar bump g vm'(1) by (simp add: ic_probe_pairs_def upt_rec pr_at_def)
  then have "ic_poly vm' i s is_super ?k0 = returns (put_array vm' a qs, Some ?m0)"
    using s vm' by (simp add: ic_poly_def array_try_from_def meta_epoch_def)
  moreover have "si_guard s \<noteq> iv_nil vm'" "\<not> iv_is_klass vm' (si_guard s)" "si_selector vm' s = Inr ?sel"
    using s(2,3) wf vm'(1) by (auto simp: iv_wf_def si_selector_def symbol_try_from_def)
  ultimately have "ic_transition vm' i ?k0 is_super = returns (put_array vm' a qs, Some ?m0)"
    using s vm' by (simp add: ic_transition_def ic_at_def smi_try_from_def)
  moreover have "dispatch_target vm' = dispatch_target vm" by (simp add: vm'_def vm2_def)
  ultimately show ?thesis using first by blast
qed

theorem ic_stale_mono_survives_skew_witness:
  "\<exists>lk es vm' vm''. install_method example_lk 17 5 101 = returns (lk, es)
     \<and> ic_transition (example_iv lk) 0 17 False = returns (vm', Some 101)
     \<and> ic_transition vm' 0 21 False = returns (vm'', Some 105)
     \<and> dispatch_target vm' False 5 21 = Some 101"
proof -
  obtain lk es where lk: "install_method example_lk 17 5 101 = returns (lk, es)" "cache_coherent lk"
    "lookup_uncached lk 21 5 = returns (Some 101)" "lookup_uncached lk 17 5 = returns (Some 101)"
    "\<forall>k. lv_classes lk k \<noteq> None \<longleftrightarrow> k = 17 \<or> k = 21" "lv_env lk = example_env" "lv_epoch lk = 1"
    using example_installed .
  note ok = example_iv_ok [OF lk(2-7)]
  have k: "iv_is_klass (example_iv lk) 17" "iv_is_klass (example_iv lk) 21"
    using lk(5) [rule_format, of 17] lk(5) [rule_format, of 21] by (simp_all add: example_iv_def)
  have s: "si_sel (iv_sites (example_iv lk) ! 0) = 5" "si_guard (iv_sites (example_iv lk) ! 0) = 21"
    "si_target (iv_sites (example_iv lk) ! 0) = 105" by (simp_all add: example_iv_def)
  have m: "si_meta_value (iv_sites (example_iv lk) ! 0) = Inr 1"
    by (simp add: example_iv_def si_meta_value_def smi_try_from_def is_smi_def oop_tag_def tag_defs smi_value_def SMI_SHIFT_def)
  have "stale_skew (example_iv lk) 0 17"
    using k s lk(6,7) si_epoch_value [OF m] by (simp add: stale_skew_def) (simp add: example_iv_def example_env_def)
  from ic_stale_mono_survives_skew [OF ok(1) k(1) this, of 101] ok(2,3) lk(1) s show ?thesis by metis
qed

end
