(* ===== verification/Bytecode.thy ===== *)
theory Bytecode
  imports Oops
begin

unbundle bit_operations_syntax

text \<open>
  The bytecode instruction set, its decoder (\<open>src/src/bytecode/opcode.rs\<close>) and the bytecode assembler
  (\<open>src/src/bytecode/builder.rs\<close>).

  A method's bytecode is the list of its bytes; reading past its end is a failed assertion, as in
  \<open>MethodOop::bytecode_byte\<close>. The assembler's literal handles hold the oop itself, since objects do
  not move in this model; the heap objects \<open>finish\<close> allocates are the fields of the record it returns.
  The sequences of assembler calls a compiler makes are values of the type \<open>bop\<close>.
\<close>

section \<open>Opcodes\<close>

definition OP_PUSH_SELF :: u8 where "OP_PUSH_SELF = 0x00"
definition OP_PUSH_NIL :: u8 where "OP_PUSH_NIL = 0x01"
definition OP_PUSH_TRUE :: u8 where "OP_PUSH_TRUE = 0x02"
definition OP_PUSH_FALSE :: u8 where "OP_PUSH_FALSE = 0x03"
definition OP_PUSH_SMI_I8 :: u8 where "OP_PUSH_SMI_I8 = 0x04"
definition OP_PUSH_LITERAL :: u8 where "OP_PUSH_LITERAL = 0x05"
definition OP_PUSH_TEMP :: u8 where "OP_PUSH_TEMP = 0x06"
definition OP_STORE_TEMP :: u8 where "OP_STORE_TEMP = 0x07"
definition OP_STORE_TEMP_POP :: u8 where "OP_STORE_TEMP_POP = 0x08"
definition OP_PUSH_INSTVAR :: u8 where "OP_PUSH_INSTVAR = 0x09"
definition OP_STORE_INSTVAR_POP :: u8 where "OP_STORE_INSTVAR_POP = 0x0A"
definition OP_PUSH_GLOBAL :: u8 where "OP_PUSH_GLOBAL = 0x0B"
definition OP_STORE_GLOBAL_POP :: u8 where "OP_STORE_GLOBAL_POP = 0x0C"
definition OP_POP :: u8 where "OP_POP = 0x0D"
definition OP_DUP :: u8 where "OP_DUP = 0x0E"
definition OP_PUSH_CTX_TEMP :: u8 where "OP_PUSH_CTX_TEMP = 0x0F"
definition OP_STORE_CTX_TEMP_POP :: u8 where "OP_STORE_CTX_TEMP_POP = 0x10"
definition OP_PUSH_CLOSURE :: u8 where "OP_PUSH_CLOSURE = 0x11"
definition OP_PUSH_LITERAL_W :: u8 where "OP_PUSH_LITERAL_W = 0x12"
definition OP_SEND :: u8 where "OP_SEND = 0x20"
definition OP_SEND_SUPER :: u8 where "OP_SEND_SUPER = 0x21"
definition OP_SEND_W :: u8 where "OP_SEND_W = 0x22"
definition OP_SEND_SUPER_W :: u8 where "OP_SEND_SUPER_W = 0x23"
definition OP_JUMP_FWD :: u8 where "OP_JUMP_FWD = 0x30"
definition OP_JUMP_BACK :: u8 where "OP_JUMP_BACK = 0x31"
definition OP_BR_TRUE_FWD :: u8 where "OP_BR_TRUE_FWD = 0x32"
definition OP_BR_FALSE_FWD :: u8 where "OP_BR_FALSE_FWD = 0x33"
definition OP_RETURN_TOS :: u8 where "OP_RETURN_TOS = 0x40"
definition OP_RETURN_SELF :: u8 where "OP_RETURN_SELF = 0x41"
definition OP_BLOCK_RETURN_TOS :: u8 where "OP_BLOCK_RETURN_TOS = 0x42"
definition OP_NLR_TOS :: u8 where "OP_NLR_TOS = 0x43"

lemmas opcode_defs =
  OP_PUSH_SELF_def OP_PUSH_NIL_def OP_PUSH_TRUE_def OP_PUSH_FALSE_def OP_PUSH_SMI_I8_def
  OP_PUSH_LITERAL_def OP_PUSH_TEMP_def OP_STORE_TEMP_def OP_STORE_TEMP_POP_def OP_PUSH_INSTVAR_def
  OP_STORE_INSTVAR_POP_def OP_PUSH_GLOBAL_def OP_STORE_GLOBAL_POP_def OP_POP_def OP_DUP_def
  OP_PUSH_CTX_TEMP_def OP_STORE_CTX_TEMP_POP_def OP_PUSH_CLOSURE_def OP_PUSH_LITERAL_W_def
  OP_SEND_def OP_SEND_SUPER_def OP_SEND_W_def OP_SEND_SUPER_W_def OP_JUMP_FWD_def OP_JUMP_BACK_def
  OP_BR_TRUE_FWD_def OP_BR_FALSE_FWD_def OP_RETURN_TOS_def OP_RETURN_SELF_def
  OP_BLOCK_RETURN_TOS_def OP_NLR_TOS_def

datatype instr =
    PushSelf
  | PushNil
  | PushTrue
  | PushFalse
  | PushSmi u8                  \<comment> \<open>the bits of the \<open>i8\<close>\<close>
  | PushLiteral u16
  | PushTemp u8
  | StoreTemp u8
  | StoreTempPop u8
  | PushInstvar u8
  | StoreInstvarPop u8
  | PushGlobal u8
  | StoreGlobalPop u8
  | Pop
  | Dup
  | PushCtxTemp u8 u8           \<comment> \<open>depth, index\<close>
  | StoreCtxTempPop u8 u8
  | PushClosure u8 u8           \<comment> \<open>literal, number of copied values\<close>
  | Send u16 bool               \<comment> \<open>cache site, super\<close>
  | JumpFwd u16
  | JumpBack u16
  | BrTrueFwd u16
  | BrFalseFwd u16
  | ReturnTos
  | ReturnSelf
  | BlockReturnTos
  | NlrTos

section \<open>Decoding\<close>

definition bytecode_byte :: "u8 list \<Rightarrow> nat \<Rightarrow> u8 res" where
  "bytecode_byte m i = guard_res (i < length m) Assert_failed (Inr (m ! i))"

definition read_u16 :: "u8 list \<Rightarrow> nat \<Rightarrow> u16 res" where
  "read_u16 m bci =
     rbind (bytecode_byte m bci) (\<lambda>lo.
     rbind (bytecode_byte m (bci + 1)) (\<lambda>hi. Inr (ucast lo OR push_bit 8 (ucast hi))))"

definition op0 :: "instr \<Rightarrow> nat \<Rightarrow> (instr \<times> nat) res" where
  "op0 i bci = Inr (i, bci + 1)"

definition op1 :: "u8 list \<Rightarrow> (u8 \<Rightarrow> instr) \<Rightarrow> nat \<Rightarrow> (instr \<times> nat) res" where
  "op1 m f bci = rbind (bytecode_byte m (bci + 1)) (\<lambda>a. Inr (f a, bci + 2))"

definition op2 :: "u8 list \<Rightarrow> (u8 \<Rightarrow> u8 \<Rightarrow> instr) \<Rightarrow> nat \<Rightarrow> (instr \<times> nat) res" where
  "op2 m f bci =
     rbind (bytecode_byte m (bci + 1)) (\<lambda>a. rbind (bytecode_byte m (bci + 2)) (\<lambda>b. Inr (f a b, bci + 3)))"

definition op16 :: "u8 list \<Rightarrow> (u16 \<Rightarrow> instr) \<Rightarrow> nat \<Rightarrow> (instr \<times> nat) res" where
  "op16 m f bci = rbind (read_u16 m (bci + 1)) (\<lambda>v. Inr (f v, bci + 3))"

definition decode_at :: "u8 list \<Rightarrow> nat \<Rightarrow> (instr \<times> nat) res" where
  "decode_at m bci =
     rbind (bytecode_byte m bci) (\<lambda>op.
       if op = OP_PUSH_SELF then op0 PushSelf bci
       else if op = OP_PUSH_NIL then op0 PushNil bci
       else if op = OP_PUSH_TRUE then op0 PushTrue bci
       else if op = OP_PUSH_FALSE then op0 PushFalse bci
       else if op = OP_PUSH_SMI_I8 then op1 m PushSmi bci
       else if op = OP_PUSH_LITERAL then op1 m (\<lambda>a. PushLiteral (ucast a)) bci
       else if op = OP_PUSH_TEMP then op1 m PushTemp bci
       else if op = OP_STORE_TEMP then op1 m StoreTemp bci
       else if op = OP_STORE_TEMP_POP then op1 m StoreTempPop bci
       else if op = OP_PUSH_INSTVAR then op1 m PushInstvar bci
       else if op = OP_STORE_INSTVAR_POP then op1 m StoreInstvarPop bci
       else if op = OP_PUSH_GLOBAL then op1 m PushGlobal bci
       else if op = OP_STORE_GLOBAL_POP then op1 m StoreGlobalPop bci
       else if op = OP_POP then op0 Pop bci
       else if op = OP_DUP then op0 Dup bci
       else if op = OP_PUSH_CTX_TEMP then op2 m PushCtxTemp bci
       else if op = OP_STORE_CTX_TEMP_POP then op2 m StoreCtxTempPop bci
       else if op = OP_PUSH_CLOSURE then op2 m PushClosure bci
       else if op = OP_PUSH_LITERAL_W then op16 m PushLiteral bci
       else if op = OP_SEND then op1 m (\<lambda>a. Send (ucast a) False) bci
       else if op = OP_SEND_SUPER then op1 m (\<lambda>a. Send (ucast a) True) bci
       else if op = OP_SEND_W then op16 m (\<lambda>v. Send v False) bci
       else if op = OP_SEND_SUPER_W then op16 m (\<lambda>v. Send v True) bci
       else if op = OP_JUMP_FWD then op16 m JumpFwd bci
       else if op = OP_JUMP_BACK then op16 m JumpBack bci
       else if op = OP_BR_TRUE_FWD then op16 m BrTrueFwd bci
       else if op = OP_BR_FALSE_FWD then op16 m BrFalseFwd bci
       else if op = OP_RETURN_TOS then op0 ReturnTos bci
       else if op = OP_RETURN_SELF then op0 ReturnSelf bci
       else if op = OP_BLOCK_RETURN_TOS then op0 BlockReturnTos bci
       else if op = OP_NLR_TOS then op0 NlrTos bci
       else Inl Explicit_panic)"

text \<open>The decode walk of \<open>finish\<close>: the instructions from \<open>bci\<close> to the end.\<close>

lemma op_next:
  "op0 i bci = Inr (x, n) \<Longrightarrow> bci < n" "op1 m f bci = Inr (x, n) \<Longrightarrow> bci < n"
  "op2 m g bci = Inr (x, n) \<Longrightarrow> bci < n" "op16 m h bci = Inr (x, n) \<Longrightarrow> bci < n"
  by (auto simp: op0_def op1_def op2_def op16_def rbind_Inr_iff)

lemma decode_at_next: "decode_at m bci = Inr (x, n) \<Longrightarrow> bci < n"
  unfolding decode_at_def rbind_Inr_iff by (auto simp: op_next split: if_split_asm)

function decode_walk :: "u8 list \<Rightarrow> nat \<Rightarrow> instr list res" where
  "decode_walk m bci =
     (if bci < length m then
        case decode_at m bci of
          Inl e \<Rightarrow> Inl e
        | Inr (i, n) \<Rightarrow> rbind (decode_walk m n) (\<lambda>is. Inr (i # is))
      else Inr [])"
  by pat_completeness auto
termination
  by (relation "measure (\<lambda>(m, bci). length m - bci)") (auto dest: decode_at_next)

section \<open>The assembler\<close>

datatype label_state = Bound nat | Unbound "nat list"

record builder =
  bb_code :: "u8 list"
  bb_literals :: "oop list"
  bb_literal_index :: "oop \<rightharpoonup> nat"
  bb_n_ics :: nat
  bb_ic_sites :: "(oop \<times> u8) list"
  bb_labels :: "label_state list"
  bb_line_map :: "(u16 \<times> nat) list"

definition builder_new :: builder where
  "builder_new = \<lparr>bb_code = [], bb_literals = [], bb_literal_index = Map.empty, bb_n_ics = 0, bb_ic_sites = [],
     bb_labels = [], bb_line_map = []\<rparr>"

definition note_line :: "nat \<Rightarrow> builder \<Rightarrow> builder" where
  "note_line line b =
     (if line = 0 then b
      else if bb_line_map b \<noteq> [] \<and> snd (last (bb_line_map b)) = line then b
      else b\<lparr>bb_line_map := bb_line_map b @ [(word_of_nat (length (bb_code b)), line)]\<rparr>)"

definition emit_u8 :: "u8 \<Rightarrow> builder \<Rightarrow> builder" where
  "emit_u8 v b = b\<lparr>bb_code := bb_code b @ [v]\<rparr>"

definition u16_bytes :: "u16 \<Rightarrow> u8 list" where
  "u16_bytes v = [ucast (v AND 0xFF), ucast (drop_bit 8 v)]"

definition emit_u16 :: "u16 \<Rightarrow> builder \<Rightarrow> builder" where
  "emit_u16 v b = b\<lparr>bb_code := bb_code b @ u16_bytes v\<rparr>"

definition emit_op1 :: "u8 \<Rightarrow> u8 \<Rightarrow> builder \<Rightarrow> builder" where
  "emit_op1 op a b = emit_u8 a (emit_u8 op b)"

definition emit_op2 :: "u8 \<Rightarrow> u8 \<Rightarrow> u8 \<Rightarrow> builder \<Rightarrow> builder" where
  "emit_op2 op a c b = emit_u8 c (emit_u8 a (emit_u8 op b))"

definition push_self :: "builder \<Rightarrow> builder" where "push_self = emit_u8 OP_PUSH_SELF"
definition push_nil :: "builder \<Rightarrow> builder" where "push_nil = emit_u8 OP_PUSH_NIL"
definition push_true :: "builder \<Rightarrow> builder" where "push_true = emit_u8 OP_PUSH_TRUE"
definition push_false :: "builder \<Rightarrow> builder" where "push_false = emit_u8 OP_PUSH_FALSE"
definition push_smi_i8 :: "u8 \<Rightarrow> builder \<Rightarrow> builder" where "push_smi_i8 = emit_op1 OP_PUSH_SMI_I8"
definition push_temp :: "u8 \<Rightarrow> builder \<Rightarrow> builder" where "push_temp = emit_op1 OP_PUSH_TEMP"
definition store_temp :: "u8 \<Rightarrow> builder \<Rightarrow> builder" where "store_temp = emit_op1 OP_STORE_TEMP"
definition store_temp_pop :: "u8 \<Rightarrow> builder \<Rightarrow> builder" where "store_temp_pop = emit_op1 OP_STORE_TEMP_POP"
definition push_instvar :: "u8 \<Rightarrow> builder \<Rightarrow> builder" where "push_instvar = emit_op1 OP_PUSH_INSTVAR"
definition store_instvar_pop :: "u8 \<Rightarrow> builder \<Rightarrow> builder" where "store_instvar_pop = emit_op1 OP_STORE_INSTVAR_POP"
definition push_ctx_temp :: "u8 \<Rightarrow> u8 \<Rightarrow> builder \<Rightarrow> builder" where "push_ctx_temp = emit_op2 OP_PUSH_CTX_TEMP"
definition store_ctx_temp_pop :: "u8 \<Rightarrow> u8 \<Rightarrow> builder \<Rightarrow> builder" where
  "store_ctx_temp_pop = emit_op2 OP_STORE_CTX_TEMP_POP"
definition bb_pop :: "builder \<Rightarrow> builder" where "bb_pop = emit_u8 OP_POP"
definition bb_dup :: "builder \<Rightarrow> builder" where "bb_dup = emit_u8 OP_DUP"
definition ret_tos :: "builder \<Rightarrow> builder" where "ret_tos = emit_u8 OP_RETURN_TOS"
definition ret_self :: "builder \<Rightarrow> builder" where "ret_self = emit_u8 OP_RETURN_SELF"
definition block_return_tos :: "builder \<Rightarrow> builder" where "block_return_tos = emit_u8 OP_BLOCK_RETURN_TOS"
definition nlr_tos :: "builder \<Rightarrow> builder" where "nlr_tos = emit_u8 OP_NLR_TOS"

subsection \<open>Literals and sends\<close>

definition intern_literal :: "oop \<Rightarrow> builder \<Rightarrow> (builder \<times> nat) res" where
  "intern_literal w b =
     (let fresh = Inr (b\<lparr>bb_literals := bb_literals b @ [w],
                         bb_literal_index := (bb_literal_index b)(w \<mapsto> length (bb_literals b))\<rparr>,
                       length (bb_literals b)) in
      case bb_literal_index b w of
        Some idx \<Rightarrow>
          guard_res (idx < length (bb_literals b)) Index_out_of_bounds
            (if bb_literals b ! idx = w then Inr (b, idx) else fresh)
      | None \<Rightarrow> fresh)"

definition emit_literal_ref :: "nat \<Rightarrow> builder \<Rightarrow> builder" where
  "emit_literal_ref idx b =
     (if idx \<le> 255 then emit_op1 OP_PUSH_LITERAL (word_of_nat idx) b
      else emit_u16 (word_of_nat idx) (emit_u8 OP_PUSH_LITERAL_W b))"

definition push_literal :: "oop \<Rightarrow> builder \<Rightarrow> builder res" where
  "push_literal w b = rbind (intern_literal w b) (\<lambda>(b, idx). Inr (emit_literal_ref idx b))"

definition push_global :: "oop \<Rightarrow> builder \<Rightarrow> builder res" where
  "push_global assoc b = rbind (intern_literal assoc b) (\<lambda>(b, idx). Inr (emit_op1 OP_PUSH_GLOBAL (word_of_nat idx) b))"

definition store_global_pop :: "oop \<Rightarrow> builder \<Rightarrow> builder res" where
  "store_global_pop assoc b =
     rbind (intern_literal assoc b) (\<lambda>(b, idx). Inr (emit_op1 OP_STORE_GLOBAL_POP (word_of_nat idx) b))"

definition add_send :: "oop \<Rightarrow> u8 \<Rightarrow> builder \<Rightarrow> (builder \<times> u16) res" where
  "add_send selector argc b =
     guard_res (bb_n_ics b \<le> 65535) Assert_failed
       (Inr (b\<lparr>bb_n_ics := bb_n_ics b + 1, bb_ic_sites := bb_ic_sites b @ [(selector, argc)]\<rparr>, word_of_nat (bb_n_ics b)))"

definition emit_send :: "u8 \<Rightarrow> u8 \<Rightarrow> oop \<Rightarrow> u8 \<Rightarrow> builder \<Rightarrow> builder res" where
  "emit_send op_narrow op_wide selector argc b =
     rbind (add_send selector argc b) (\<lambda>(b, ic_idx).
       Inr (if ic_idx \<le> 255 then emit_op1 op_narrow (ucast ic_idx) b else emit_u16 ic_idx (emit_u8 op_wide b)))"

definition send :: "oop \<Rightarrow> u8 \<Rightarrow> builder \<Rightarrow> builder res" where
  "send = emit_send OP_SEND OP_SEND_W"

definition send_super :: "oop \<Rightarrow> u8 \<Rightarrow> builder \<Rightarrow> builder res" where
  "send_super = emit_send OP_SEND_SUPER OP_SEND_SUPER_W"

definition push_closure :: "nat \<Rightarrow> u8 \<Rightarrow> builder \<Rightarrow> builder res" where
  "push_closure lit n_value_captures b =
     guard_res (lit \<le> 255) Assert_failed (Inr (emit_op2 OP_PUSH_CLOSURE (word_of_nat lit) n_value_captures b))"

subsection \<open>Labels and jumps\<close>

definition new_label :: "builder \<Rightarrow> builder \<times> nat" where
  "new_label b = (b\<lparr>bb_labels := bb_labels b @ [Unbound []]\<rparr>, length (bb_labels b))"

definition patch_u16 :: "u8 list \<Rightarrow> nat \<Rightarrow> nat \<Rightarrow> u8 list res" where
  "patch_u16 code site distance =
     guard_res (site + 1 < length code) Index_out_of_bounds
       (Inr (code[site := word_of_nat (distance mod 256), site + 1 := word_of_nat (distance div 256)]))"

definition patch_fwd :: "u8 list \<Rightarrow> nat \<Rightarrow> nat \<Rightarrow> u8 list res" where
  "patch_fwd code site target =
     (let next_bci = site + 2 in
      guard_res (target \<ge> next_bci) Assert_failed
       (guard_res (target - next_bci \<le> 65535) Assert_failed (patch_u16 code site (target - next_bci))))"

fun patch_sites :: "u8 list \<Rightarrow> nat list \<Rightarrow> nat \<Rightarrow> u8 list res" where
  "patch_sites code [] bci = Inr code"
| "patch_sites code (site # sites) bci = rbind (patch_fwd code site bci) (\<lambda>code. patch_sites code sites bci)"

definition bind :: "nat \<Rightarrow> builder \<Rightarrow> builder res" where
  "bind l b =
     guard_res (l < length (bb_labels b)) Index_out_of_bounds
       (let bci = length (bb_code b) in
        case bb_labels b ! l of
          Bound _ \<Rightarrow> Inl Explicit_panic
        | Unbound sites \<Rightarrow>
            rbind (patch_sites (bb_code b) sites bci) (\<lambda>code.
              Inr (b\<lparr>bb_labels := (bb_labels b)[l := Bound bci], bb_code := code\<rparr>)))"

definition emit_fwd_jump :: "u8 \<Rightarrow> nat \<Rightarrow> builder \<Rightarrow> builder res" where
  "emit_fwd_jump op l b =
     (let b1 = emit_u8 op b; operand_pos = length (bb_code b1); b2 = emit_u16 0xFFFF b1 in
      guard_res (l < length (bb_labels b)) Index_out_of_bounds
       (case bb_labels b ! l of
          Unbound sites \<Rightarrow> Inr (b2\<lparr>bb_labels := (bb_labels b)[l := Unbound (sites @ [operand_pos])]\<rparr>)
        | Bound target \<Rightarrow>
            rbind (patch_fwd (bb_code b2) operand_pos target) (\<lambda>code. Inr (b2\<lparr>bb_code := code\<rparr>))))"

definition jump_fwd :: "nat \<Rightarrow> builder \<Rightarrow> builder res" where "jump_fwd = emit_fwd_jump OP_JUMP_FWD"
definition br_true_fwd :: "nat \<Rightarrow> builder \<Rightarrow> builder res" where "br_true_fwd = emit_fwd_jump OP_BR_TRUE_FWD"
definition br_false_fwd :: "nat \<Rightarrow> builder \<Rightarrow> builder res" where "br_false_fwd = emit_fwd_jump OP_BR_FALSE_FWD"

definition jump_back :: "nat \<Rightarrow> builder \<Rightarrow> builder res" where
  "jump_back l b =
     guard_res (l < length (bb_labels b)) Index_out_of_bounds
       (case bb_labels b ! l of
          Unbound _ \<Rightarrow> Inl Explicit_panic
        | Bound target \<Rightarrow>
            (let next_bci = length (bb_code b) + 3 in
             guard_res (target \<le> next_bci) Assert_failed
              (guard_res (next_bci - target \<le> 65535) Assert_failed
                (Inr (emit_u16 (word_of_nat (next_bci - target)) (emit_u8 OP_JUMP_BACK b))))))"

subsection \<open>Finishing\<close>

definition METHOD_ARGC_MAX :: nat where "METHOD_ARGC_MAX = 15"
definition METHOD_NTEMPS_MAX :: nat where "METHOD_NTEMPS_MAX = 255"
definition BCI_SENTINEL_BASE :: nat where "BCI_SENTINEL_BASE = 0x7FFF0000"

record built_method =
  bm_selector :: oop
  bm_argc :: nat
  bm_ntemps :: nat
  bm_code :: "u8 list"
  bm_literals :: "oop list"
  bm_ics :: "oop list"

fun is_return :: "instr \<Rightarrow> bool" where
  "is_return ReturnTos = True"
| "is_return ReturnSelf = True"
| "is_return BlockReturnTos = True"
| "is_return NlrTos = True"
| "is_return _ = False"

fun is_bound :: "label_state \<Rightarrow> bool" where
  "is_bound (Bound _) = True"
| "is_bound (Unbound _) = False"

fun ic_words :: "oop \<Rightarrow> (oop \<times> u8) list \<Rightarrow> oop list res" where
  "ic_words nil [] = Inr []"
| "ic_words nil ((selector, argc) # sites) =
     rbind (smi_new (uint argc)) (\<lambda>meta. rbind (ic_words nil sites) (\<lambda>ws. Inr ([selector, meta, nil, nil] @ ws)))"

definition finish :: "oop \<Rightarrow> oop \<Rightarrow> nat \<Rightarrow> nat \<Rightarrow> builder \<Rightarrow> built_method res" where
  "finish nil selector argc ntemps b =
     guard_res (argc \<le> METHOD_ARGC_MAX) Assert_failed
     (guard_res (ntemps \<le> METHOD_NTEMPS_MAX) Assert_failed
     (guard_res (length (bb_code b) < BCI_SENTINEL_BASE) Assert_failed
     (guard_res (list_all is_bound (bb_labels b)) Explicit_panic
     (guard_res (bb_code b \<noteq> []) Assert_failed
     (rbind (decode_walk (bb_code b) 0) (\<lambda>is.
      guard_res (is \<noteq> [] \<and> is_return (last is)) Explicit_panic
       (rbind (ic_words nil (bb_ic_sites b)) (\<lambda>ics.
         Inr \<lparr>bm_selector = selector, bm_argc = argc, bm_ntemps = ntemps, bm_code = bb_code b,
              bm_literals = bb_literals b, bm_ics = ics\<rparr>))))))))"

section \<open>Programs of assembler calls\<close>

datatype bop =
    BPushSelf | BPushNil | BPushTrue | BPushFalse | BPushSmi u8 | BPushLiteral oop
  | BPushTemp u8 | BStoreTemp u8 | BStoreTempPop u8 | BPushInstvar u8 | BStoreInstvarPop u8
  | BPushGlobal oop | BStoreGlobalPop oop | BPop | BDup
  | BPushCtxTemp u8 u8 | BStoreCtxTempPop u8 u8 | BPushClosure nat u8
  | BSend oop u8 | BSendSuper oop u8
  | BNewLabel | BBind nat | BJumpFwd nat | BBrTrueFwd nat | BBrFalseFwd nat | BJumpBack nat
  | BRetTos | BRetSelf | BBlockReturnTos | BNlrTos | BNoteLine nat

fun run_op :: "bop \<Rightarrow> builder \<Rightarrow> builder res" where
  "run_op BPushSelf b = Inr (push_self b)"
| "run_op BPushNil b = Inr (push_nil b)"
| "run_op BPushTrue b = Inr (push_true b)"
| "run_op BPushFalse b = Inr (push_false b)"
| "run_op (BPushSmi v) b = Inr (push_smi_i8 v b)"
| "run_op (BPushLiteral w) b = push_literal w b"
| "run_op (BPushTemp t) b = Inr (push_temp t b)"
| "run_op (BStoreTemp t) b = Inr (store_temp t b)"
| "run_op (BStoreTempPop t) b = Inr (store_temp_pop t b)"
| "run_op (BPushInstvar t) b = Inr (push_instvar t b)"
| "run_op (BStoreInstvarPop t) b = Inr (store_instvar_pop t b)"
| "run_op (BPushGlobal w) b = push_global w b"
| "run_op (BStoreGlobalPop w) b = store_global_pop w b"
| "run_op BPop b = Inr (bb_pop b)"
| "run_op BDup b = Inr (bb_dup b)"
| "run_op (BPushCtxTemp d i) b = Inr (push_ctx_temp d i b)"
| "run_op (BStoreCtxTempPop d i) b = Inr (store_ctx_temp_pop d i b)"
| "run_op (BPushClosure l n) b = push_closure l n b"
| "run_op (BSend s a) b = send s a b"
| "run_op (BSendSuper s a) b = send_super s a b"
| "run_op BNewLabel b = Inr (fst (new_label b))"
| "run_op (BBind l) b = bind l b"
| "run_op (BJumpFwd l) b = jump_fwd l b"
| "run_op (BBrTrueFwd l) b = br_true_fwd l b"
| "run_op (BBrFalseFwd l) b = br_false_fwd l b"
| "run_op (BJumpBack l) b = jump_back l b"
| "run_op BRetTos b = Inr (ret_tos b)"
| "run_op BRetSelf b = Inr (ret_self b)"
| "run_op BBlockReturnTos b = Inr (block_return_tos b)"
| "run_op BNlrTos b = Inr (nlr_tos b)"
| "run_op (BNoteLine n) b = Inr (note_line n b)"

fun run_ops :: "bop list \<Rightarrow> builder \<Rightarrow> builder res" where
  "run_ops [] b = Inr b"
| "run_ops (x # xs) b = rbind (run_op x b) (run_ops xs)"

section \<open>What a program of assembler calls means\<close>

text \<open>Each call appends at most one instruction; a jump refers to its label.\<close>

datatype fwd_kind = FJump | FTrue | FFalse

datatype item = Plain instr | Fwd fwd_kind nat | Back nat

fun fwd_op :: "fwd_kind \<Rightarrow> u8" where
  "fwd_op FJump = OP_JUMP_FWD"
| "fwd_op FTrue = OP_BR_TRUE_FWD"
| "fwd_op FFalse = OP_BR_FALSE_FWD"

fun fwd_instr :: "fwd_kind \<Rightarrow> u16 \<Rightarrow> instr" where
  "fwd_instr FJump d = JumpFwd d"
| "fwd_instr FTrue d = BrTrueFwd d"
| "fwd_instr FFalse d = BrFalseFwd d"

text \<open>The shortest encoding of an instruction.\<close>

fun encode :: "instr \<Rightarrow> u8 list" where
  "encode PushSelf = [OP_PUSH_SELF]"
| "encode PushNil = [OP_PUSH_NIL]"
| "encode PushTrue = [OP_PUSH_TRUE]"
| "encode PushFalse = [OP_PUSH_FALSE]"
| "encode (PushSmi v) = [OP_PUSH_SMI_I8, v]"
| "encode (PushLiteral n) = (if n \<le> 255 then [OP_PUSH_LITERAL, ucast n] else OP_PUSH_LITERAL_W # u16_bytes n)"
| "encode (PushTemp t) = [OP_PUSH_TEMP, t]"
| "encode (StoreTemp t) = [OP_STORE_TEMP, t]"
| "encode (StoreTempPop t) = [OP_STORE_TEMP_POP, t]"
| "encode (PushInstvar t) = [OP_PUSH_INSTVAR, t]"
| "encode (StoreInstvarPop t) = [OP_STORE_INSTVAR_POP, t]"
| "encode (PushGlobal t) = [OP_PUSH_GLOBAL, t]"
| "encode (StoreGlobalPop t) = [OP_STORE_GLOBAL_POP, t]"
| "encode Pop = [OP_POP]"
| "encode Dup = [OP_DUP]"
| "encode (PushCtxTemp d i) = [OP_PUSH_CTX_TEMP, d, i]"
| "encode (StoreCtxTempPop d i) = [OP_STORE_CTX_TEMP_POP, d, i]"
| "encode (PushClosure l n) = [OP_PUSH_CLOSURE, l, n]"
| "encode (Send n is_super) =
     (if n \<le> 255 then [if is_super then OP_SEND_SUPER else OP_SEND, ucast n]
      else (if is_super then OP_SEND_SUPER_W else OP_SEND_W) # u16_bytes n)"
| "encode (JumpFwd d) = OP_JUMP_FWD # u16_bytes d"
| "encode (JumpBack d) = OP_JUMP_BACK # u16_bytes d"
| "encode (BrTrueFwd d) = OP_BR_TRUE_FWD # u16_bytes d"
| "encode (BrFalseFwd d) = OP_BR_FALSE_FWD # u16_bytes d"
| "encode ReturnTos = [OP_RETURN_TOS]"
| "encode ReturnSelf = [OP_RETURN_SELF]"
| "encode BlockReturnTos = [OP_BLOCK_RETURN_TOS]"
| "encode NlrTos = [OP_NLR_TOS]"

text \<open>The instruction of an item at position \<open>pos\<close>; a jump to a label that is not bound yet has the
  placeholder distance.\<close>

fun item_instr :: "label_state list \<Rightarrow> nat \<Rightarrow> item \<Rightarrow> instr" where
  "item_instr ls pos (Plain i) = i"
| "item_instr ls pos (Fwd k l) = fwd_instr k (case ls ! l of Bound t \<Rightarrow> word_of_nat (t - (pos + 3)) | Unbound _ \<Rightarrow> 0xFFFF)"
| "item_instr ls pos (Back l) = JumpBack (case ls ! l of Bound t \<Rightarrow> word_of_nat (pos + 3 - t) | Unbound _ \<Rightarrow> 0xFFFF)"

fun item_size :: "item \<Rightarrow> nat" where
  "item_size (Plain i) = length (encode i)"
| "item_size (Fwd _ _) = 3"
| "item_size (Back _) = 3"

fun items_size :: "item list \<Rightarrow> nat" where
  "items_size [] = 0"
| "items_size (x # xs) = item_size x + items_size xs"

fun layout :: "label_state list \<Rightarrow> nat \<Rightarrow> item list \<Rightarrow> u8 list" where
  "layout ls pos [] = []"
| "layout ls pos (x # xs) = encode (item_instr ls pos x) @ layout ls (pos + item_size x) xs"

fun instrs_of :: "label_state list \<Rightarrow> nat \<Rightarrow> item list \<Rightarrow> instr list" where
  "instrs_of ls pos [] = []"
| "instrs_of ls pos (x # xs) = item_instr ls pos x # instrs_of ls (pos + item_size x) xs"

text \<open>The operand positions of the forward jumps to one label.\<close>

fun sites_of :: "nat \<Rightarrow> nat \<Rightarrow> item list \<Rightarrow> nat list" where
  "sites_of l pos [] = []"
| "sites_of l pos (x # xs) = (case x of Fwd _ l' \<Rightarrow> if l' = l then [pos + 1] else [] | _ \<Rightarrow> []) @ sites_of l (pos + item_size x) xs"

text \<open>Where instruction \<open>k\<close> starts, and the instruction boundaries.\<close>

definition start_of :: "item list \<Rightarrow> nat \<Rightarrow> nat" where
  "start_of items k = items_size (take k items)"

definition boundary :: "item list \<Rightarrow> nat \<Rightarrow> bool" where
  "boundary items t \<longleftrightarrow> (\<exists>k \<le> length items. t = start_of items k)"

fun jump_target :: "nat \<Rightarrow> instr \<Rightarrow> nat option" where
  "jump_target pos (JumpFwd d) = Some (pos + 3 + unat d)"
| "jump_target pos (BrTrueFwd d) = Some (pos + 3 + unat d)"
| "jump_target pos (BrFalseFwd d) = Some (pos + 3 + unat d)"
| "jump_target pos (JumpBack d) = Some (pos + 3 - unat d)"
| "jump_target pos _ = None"

definition literal_slot :: "oop \<Rightarrow> builder \<Rightarrow> nat" where
  "literal_slot w b = (case intern_literal w b of Inr (_, idx) \<Rightarrow> idx | Inl _ \<Rightarrow> 0)"

fun op_items :: "bop \<Rightarrow> builder \<Rightarrow> item list" where
  "op_items BPushSelf b = [Plain PushSelf]"
| "op_items BPushNil b = [Plain PushNil]"
| "op_items BPushTrue b = [Plain PushTrue]"
| "op_items BPushFalse b = [Plain PushFalse]"
| "op_items (BPushSmi v) b = [Plain (PushSmi v)]"
| "op_items (BPushLiteral w) b = [Plain (PushLiteral (word_of_nat (literal_slot w b)))]"
| "op_items (BPushTemp t) b = [Plain (PushTemp t)]"
| "op_items (BStoreTemp t) b = [Plain (StoreTemp t)]"
| "op_items (BStoreTempPop t) b = [Plain (StoreTempPop t)]"
| "op_items (BPushInstvar t) b = [Plain (PushInstvar t)]"
| "op_items (BStoreInstvarPop t) b = [Plain (StoreInstvarPop t)]"
| "op_items (BPushGlobal w) b = [Plain (PushGlobal (word_of_nat (literal_slot w b)))]"
| "op_items (BStoreGlobalPop w) b = [Plain (StoreGlobalPop (word_of_nat (literal_slot w b)))]"
| "op_items BPop b = [Plain Pop]"
| "op_items BDup b = [Plain Dup]"
| "op_items (BPushCtxTemp d i) b = [Plain (PushCtxTemp d i)]"
| "op_items (BStoreCtxTempPop d i) b = [Plain (StoreCtxTempPop d i)]"
| "op_items (BPushClosure l n) b = [Plain (PushClosure (word_of_nat l) n)]"
| "op_items (BSend s a) b = [Plain (Send (word_of_nat (bb_n_ics b)) False)]"
| "op_items (BSendSuper s a) b = [Plain (Send (word_of_nat (bb_n_ics b)) True)]"
| "op_items (BJumpFwd l) b = [Fwd FJump l]"
| "op_items (BBrTrueFwd l) b = [Fwd FTrue l]"
| "op_items (BBrFalseFwd l) b = [Fwd FFalse l]"
| "op_items (BJumpBack l) b = [Back l]"
| "op_items BRetTos b = [Plain ReturnTos]"
| "op_items BRetSelf b = [Plain ReturnSelf]"
| "op_items BBlockReturnTos b = [Plain BlockReturnTos]"
| "op_items BNlrTos b = [Plain NlrTos]"
| "op_items _ b = []"

fun prog_items :: "bop list \<Rightarrow> builder \<Rightarrow> item list" where
  "prog_items [] b = []"
| "prog_items (x # xs) b = op_items x b @ (case run_op x b of Inr b' \<Rightarrow> prog_items xs b' | Inl _ \<Rightarrow> [])"

section \<open>Encoding and decoding\<close>

lemma u16_bytes_join: "ucast (u16_bytes v ! 0) OR push_bit 8 (ucast (u16_bytes v ! 1)) = v"
proof -
  have m: "(0xFF :: u16) = mask 8" by (simp add: mask_eq_exp_minus_1)
  show ?thesis unfolding u16_bytes_def m by (rule bit_word_eqI) (auto simp: bit_simps)
qed

lemma u16_bytes_length [simp]: "length (u16_bytes v) = 2"
  by (simp add: u16_bytes_def)

lemma ucast_small: "(n :: u16) \<le> 255 \<Longrightarrow> ucast (ucast n :: u8) = n"
proof -
  assume "n \<le> 255"
  then have "unat n < 2 ^ 8" by (simp add: word_le_nat_alt)
  then have "unat (ucast (ucast n :: u8) :: u16) = unat n" by (simp add: unsigned_ucast_eq unsigned_take_bit_eq take_bit_nat_eq_self)
  then show ?thesis by (simp only: word_unat_eq_iff)
qed

lemma encode_length_pos: "0 < length (encode i)"
  by (cases i) auto

lemma nth_after: "(pre @ x # xs) ! length pre = x" "(pre @ x # y # xs) ! Suc (length pre) = y"
  "(pre @ x # y # z # xs) ! Suc (Suc (length pre)) = z"
  by (simp_all add: nth_append)

lemma u16_bytes_join': "ucast (ucast (v AND 0xFF) :: u8) OR push_bit 8 (ucast (ucast (drop_bit 8 v) :: u8)) = (v :: u16)"
  using u16_bytes_join [of v] by (simp add: u16_bytes_def)

lemma decode_encode:
  "decode_at (pre @ encode i @ suf) (length pre) = Inr (i, length pre + length (encode i))"
  by (cases i)
    (simp_all add: decode_at_def bytecode_byte_def opcode_defs op0_def op1_def op2_def op16_def read_u16_def
      nth_after u16_bytes_def u16_bytes_join' ucast_small)

lemma fwd_instr_length: "length (encode (fwd_instr k d)) = 3"
  by (cases k) simp_all

lemma item_size_encode: "length (encode (item_instr ls pos x)) = item_size x"
  by (cases x) (simp_all add: fwd_instr_length)

lemma layout_length: "length (layout ls pos items) = items_size items"
  by (induction items arbitrary: pos) (simp_all add: item_size_encode)

lemma decode_layout:
  "decode_walk (pre @ layout ls (length pre) items) (length pre) = Inr (instrs_of ls (length pre) items)"
proof (induction items arbitrary: pre)
  case Nil
  then show ?case by simp
next
  case (Cons x xs)
  let ?e = "encode (item_instr ls (length pre) x)"
  have l: "length (pre @ ?e) = length pre + item_size x" by (simp add: item_size_encode)
  have "decode_walk ((pre @ ?e) @ layout ls (length (pre @ ?e)) xs) (length (pre @ ?e)) =
    Inr (instrs_of ls (length (pre @ ?e)) xs)" by (rule Cons)
  then have "decode_walk (pre @ ?e @ layout ls (length pre + item_size x) xs) (length pre + item_size x) =
    Inr (instrs_of ls (length pre + item_size x) xs)" by (simp only: l append_assoc)
  moreover have "decode_at (pre @ ?e @ layout ls (length pre + item_size x) xs) (length pre) =
    Inr (item_instr ls (length pre) x, length pre + item_size x)"
    using decode_encode by (simp add: item_size_encode)
  ultimately show ?case
    using encode_length_pos [of "item_instr ls (length pre) x"]
    by (subst decode_walk.simps) (simp del: decode_walk.simps)
qed

section \<open>The assembler keeps its code and its labels consistent\<close>

fun label_of :: "item \<Rightarrow> nat option" where
  "label_of (Plain _) = None"
| "label_of (Fwd _ l) = Some l"
| "label_of (Back l) = Some l"

text \<open>A label bound at \<open>t\<close> is within reach of a jump at \<open>pos\<close>.\<close>

fun in_reach :: "nat \<Rightarrow> item \<Rightarrow> nat \<Rightarrow> bool" where
  "in_reach pos (Plain _) t = True"
| "in_reach pos (Fwd _ _) t = (pos + 3 \<le> t \<and> t - (pos + 3) \<le> 65535)"
| "in_reach pos (Back _) t = (t \<le> pos + 3 \<and> pos + 3 - t \<le> 65535)"

definition item_ok :: "label_state list \<Rightarrow> nat \<Rightarrow> item \<Rightarrow> bool" where
  "item_ok ls pos x \<longleftrightarrow> (\<forall>l. label_of x = Some l \<longrightarrow> l < length ls \<and>
     (case ls ! l of Bound t \<Rightarrow> in_reach pos x t | Unbound _ \<Rightarrow> \<not> (\<exists>k. x = Back k)))"

fun items_ok :: "label_state list \<Rightarrow> nat \<Rightarrow> item list \<Rightarrow> bool" where
  "items_ok ls pos [] = True"
| "items_ok ls pos (x # xs) = (item_ok ls pos x \<and> items_ok ls (pos + item_size x) xs)"

definition labels_ok :: "label_state list \<Rightarrow> item list \<Rightarrow> bool" where
  "labels_ok ls items \<longleftrightarrow> (\<forall>l < length ls. case ls ! l of
     Bound t \<Rightarrow> boundary items t
   | Unbound sites \<Rightarrow> sites = sites_of l 0 items)"

definition asm_inv :: "builder \<Rightarrow> item list \<Rightarrow> bool" where
  "asm_inv b items \<longleftrightarrow>
     bb_code b = layout (bb_labels b) 0 items \<and> items_ok (bb_labels b) 0 items \<and> labels_ok (bb_labels b) items"

lemma layout_append: "layout ls pos (xs @ ys) = layout ls pos xs @ layout ls (pos + items_size xs) ys"
  by (induction xs arbitrary: pos) (simp_all add: add.assoc)

lemma sites_of_append: "sites_of l pos (xs @ ys) = sites_of l pos xs @ sites_of l (pos + items_size xs) ys"
  by (induction xs arbitrary: pos) (simp_all add: add.assoc)

lemma items_ok_append: "items_ok ls pos (xs @ ys) \<longleftrightarrow> items_ok ls pos xs \<and> items_ok ls (pos + items_size xs) ys"
  by (induction xs arbitrary: pos) (simp_all add: add.assoc)

lemma boundary_append: "boundary items t \<Longrightarrow> boundary (items @ ys) t"
  unfolding boundary_def start_of_def by (metis append_take_drop_id le_add1 length_append order_trans take_append take_all_iff append_Nil2 diff_is_0_eq' take_eq_Nil)

lemma boundary_end: "boundary items (items_size items)"
  unfolding boundary_def start_of_def by (intro exI [of _ "length items"]) simp

text \<open>Changing the state of labels that no item jumps to, or the recorded sites of an unbound label,
  changes neither the code nor its consistency.\<close>

definition same_bounds :: "label_state list \<Rightarrow> label_state list \<Rightarrow> bool" where
  "same_bounds ls ls' \<longleftrightarrow> length ls \<le> length ls' \<and> (\<forall>l < length ls.
     case ls ! l of Bound t \<Rightarrow> ls' ! l = Bound t | Unbound _ \<Rightarrow> \<not> is_bound (ls' ! l))"

lemma is_bound_Ex: "is_bound s \<longleftrightarrow> (\<exists>t. s = Bound t)" by (cases s) simp_all

lemma same_bounds_item:
  assumes "same_bounds ls ls'" and "item_ok ls pos x"
  shows "item_instr ls' pos x = item_instr ls pos x \<and> item_ok ls' pos x"
proof (cases "label_of x")
  case None
  then show ?thesis by (cases x) (simp_all add: item_ok_def)
next
  case (Some l)
  then have l: "l < length ls" using assms(2) by (simp add: item_ok_def)
  have s: "case ls ! l of Bound t \<Rightarrow> ls' ! l = Bound t | Unbound _ \<Rightarrow> \<not> is_bound (ls' ! l)" "length ls \<le> length ls'"
    using assms(1) l by (simp_all add: same_bounds_def)
  show ?thesis
  proof (cases "ls ! l")
    case (Bound t)
    then show ?thesis using s Some assms(2) l by (cases x) (auto simp: item_ok_def)
  next
    case (Unbound us)
    then obtain us' where "ls' ! l = Unbound us'" using s by (cases "ls' ! l") auto
    then show ?thesis using Unbound s Some assms(2) l by (cases x) (auto simp: item_ok_def)
  qed
qed

lemma same_bounds_layout:
  assumes "same_bounds ls ls'" and "items_ok ls pos items"
  shows "layout ls' pos items = layout ls pos items \<and> items_ok ls' pos items"
  using assms(2) by (induction items arbitrary: pos) (simp_all add: same_bounds_item [OF assms(1)])

lemma sites_of_fresh: "items_ok ls pos items \<Longrightarrow> length ls \<le> l \<Longrightarrow> sites_of l pos items = []"
proof (induction items arbitrary: pos)
  case (Cons x xs)
  then show ?case by (cases x) (auto simp: item_ok_def)
qed simp

lemma items_size_append: "items_size (xs @ ys) = items_size xs + items_size ys"
  by (induction xs) simp_all

lemma u16_bytes_nat:
  assumes "d \<le> 65535"
  shows "u16_bytes (word_of_nat d) = [word_of_nat (d mod 256), word_of_nat (d div 256)]"
proof -
  have u: "unat (word_of_nat d :: u16) = d" using assms by (simp add: unat_of_nat)
  have "unat (ucast (word_of_nat d AND 0xFF :: u16) :: u8) = d mod 256"
  proof -
    have "(0xFF :: u16) = mask 8" by (simp add: mask_eq_exp_minus_1)
    then have "word_of_nat d AND 0xFF = take_bit 8 (word_of_nat d :: u16)" by (simp add: take_bit_eq_mask)
    then show ?thesis using u by (simp add: unsigned_ucast_eq unsigned_take_bit_eq take_bit_eq_mod unat_mod)
  qed
  moreover have "unat (ucast (drop_bit 8 (word_of_nat d) :: u16) :: u8) = d div 256"
    using u assms by (simp add: unsigned_ucast_eq unsigned_drop_bit_eq take_bit_eq_mod drop_bit_eq_div unat_div)
  ultimately show ?thesis using assms by (simp add: u16_bytes_def word_unat_eq_iff unat_of_nat)
qed

lemma patch_fwd_at:
  assumes "patch_fwd (pre @ op # a # c # suf) (length pre + 1) t = Inr code"
  shows "length pre + 3 \<le> t" and "t - (length pre + 3) \<le> 65535"
    and "code = pre @ (op # u16_bytes (word_of_nat (t - (length pre + 3)))) @ suf"
proof -
  let ?d = "t - (length pre + 3)"
  have *: "length pre + 3 \<le> t \<and> ?d \<le> 65535 \<and>
    code = (pre @ op # a # c # suf)[length pre + 1 := word_of_nat (?d mod 256), length pre + 2 := word_of_nat (?d div 256)]"
    using assms by (simp add: patch_fwd_def patch_u16_def guard_res_Inr_iff Let_def numeral_3_eq_3)
  have "(pre @ op # a # c # suf)[length pre + 1 := x, length pre + 2 := y] = pre @ [op, x, y] @ suf" for x y
    by (simp add: list_update_append)
  then have "code = pre @ [op, word_of_nat (?d mod 256), word_of_nat (?d div 256)] @ suf" using * by (simp only:)
  moreover have "u16_bytes (word_of_nat ?d) = [word_of_nat (?d mod 256), word_of_nat (?d div 256)]"
    using * u16_bytes_nat by blast
  ultimately show "code = pre @ (op # u16_bytes (word_of_nat ?d)) @ suf" by (simp only:)
  show "length pre + 3 \<le> t" "?d \<le> 65535" using * by blast+
qed

lemma u16_placeholder: "u16_bytes 0xFFFF = [255, 255]"
  by (simp add: u16_bytes_def)

lemma encode_fwd: "encode (fwd_instr k d) = fwd_op k # u16_bytes d"
  by (cases k) simp_all

text \<open>Binding a label patches exactly the jumps to it.\<close>

lemma patch_sites_layout:
  assumes "patch_sites (pre @ layout ls (length pre) items @ suf) (sites_of l (length pre) items) t = Inr code"
    and "l < length ls" and "ls ! l = Unbound us" and "items_ok ls (length pre) items"
  shows "code = pre @ layout (ls[l := Bound t]) (length pre) items @ suf \<and> items_ok (ls[l := Bound t]) (length pre) items"
  using assms(1,4)
proof (induction items arbitrary: pre)
  case Nil
  then show ?case by simp
next
  case (Cons x xs)
  let ?ls = "ls[l := Bound t]"
  have IH: "code = pre' @ layout ?ls (length pre') xs @ suf \<and> items_ok ?ls (length pre') xs"
    if "length pre' = length pre + item_size x"
      "patch_sites (pre' @ layout ls (length pre + item_size x) xs @ suf) (sites_of l (length pre + item_size x) xs) t = Inr code" for pre'
    using Cons.IH [of pre'] Cons.prems(2) that by simp
  show ?case
  proof (cases "\<exists>k. x = Fwd k l")
    case True
    then obtain k where x: "x = Fwd k l" by blast
    let ?d = "t - (length pre + 3)"
    obtain code1 where c1: "patch_fwd (pre @ fwd_op k # u16_bytes 0xFFFF @ layout ls (length pre + 3) xs @ suf) (length pre + 1) t = Inr code1"
      "patch_sites code1 (sites_of l (length pre + 3) xs) t = Inr code"
      using Cons.prems(1) x assms(3) by (auto simp: rbind_Inr_iff encode_fwd)
    note pf = patch_fwd_at [OF c1(1) [unfolded u16_placeholder append_Cons append_Nil]]
    let ?pre = "pre @ fwd_op k # u16_bytes (word_of_nat ?d)"
    have "code = ?pre @ layout ?ls (length ?pre) xs @ suf \<and> items_ok ?ls (length ?pre) xs"
      by (rule IH) (use x c1(2) pf(3) in simp_all)
    moreover have "length ?pre = length pre + 3" by simp
    ultimately show ?thesis using x assms(2) pf(1,2) by (simp add: encode_fwd item_ok_def)
  next
    case False
    then have st: "sites_of l (length pre) (x # xs) = sites_of l (length pre + item_size x) xs"
      by (cases x) auto
    have same: "item_instr ?ls (length pre) x = item_instr ls (length pre) x \<and> item_ok ?ls (length pre) x"
      using False Cons.prems(2) assms(2,3) by (cases x) (auto simp: item_ok_def nth_list_update)
    let ?pre = "pre @ encode (item_instr ls (length pre) x)"
    have "code = ?pre @ layout ?ls (length ?pre) xs @ suf \<and> items_ok ?ls (length ?pre) xs"
      by (rule IH) (use Cons.prems(1) st in \<open>simp_all add: item_size_encode\<close>)
    moreover have "length ?pre = length pre + item_size x" by (simp add: item_size_encode)
    ultimately show ?thesis using same by simp
  qed
qed

lemma bind_keeps:
  assumes inv: "asm_inv b items" and "bind l b = Inr b'"
  shows "asm_inv b' items"
proof -
  obtain us code where l: "l < length (bb_labels b)" "bb_labels b ! l = Unbound us"
    and c: "patch_sites (bb_code b) us (length (bb_code b)) = Inr code"
    and b': "b' = b\<lparr>bb_labels := (bb_labels b)[l := Bound (length (bb_code b))], bb_code := code\<rparr>"
    using assms(2) by (auto simp: bind_def guard_res_Inr_iff Let_def rbind_Inr_iff split: label_state.splits)
  have i: "bb_code b = layout (bb_labels b) 0 items" "items_ok (bb_labels b) 0 items" "labels_ok (bb_labels b) items"
    using inv by (simp_all add: asm_inv_def)
  have "us = sites_of l 0 items" using i(3) l by (force simp: labels_ok_def)
  then have "code = layout ((bb_labels b)[l := Bound (length (bb_code b))]) 0 items
      \<and> items_ok ((bb_labels b)[l := Bound (length (bb_code b))]) 0 items"
    using patch_sites_layout [of "[]" "bb_labels b" items "[]" l "length (bb_code b)" code us] c i l by simp
  moreover have "labels_ok ((bb_labels b)[l := Bound (length (bb_code b))]) items"
    using i(3) l boundary_end [of items] i(1) by (auto simp: labels_ok_def nth_list_update layout_length)
  ultimately show ?thesis by (simp add: asm_inv_def b')
qed

lemma labels_ok_append:
  assumes "labels_ok ls items" and "\<And>l. l < length ls \<Longrightarrow> \<not> is_bound (ls ! l) \<Longrightarrow> sites_of l (items_size items) ys = []"
  shows "labels_ok ls (items @ ys)"
  using assms by (auto simp: labels_ok_def sites_of_append boundary_append split: label_state.splits)

lemma emit_plain_keeps:
  assumes "asm_inv b items" and "bb_labels b' = bb_labels b" and "bb_code b' = bb_code b @ encode i"
  shows "asm_inv b' (items @ [Plain i])"
  using assms by (auto simp: asm_inv_def layout_append items_ok_append item_ok_def intro!: labels_ok_append)

lemma jump_back_keeps:
  assumes inv: "asm_inv b items" and "jump_back l b = Inr b'"
  shows "asm_inv b' (items @ [Back l])"
proof -
  obtain t where l: "l < length (bb_labels b)" "bb_labels b ! l = Bound t"
    and t: "t \<le> length (bb_code b) + 3" "length (bb_code b) + 3 - t \<le> 65535"
    and b': "b' = emit_u16 (word_of_nat (length (bb_code b) + 3 - t)) (emit_u8 OP_JUMP_BACK b)"
    using assms(2) by (auto simp: jump_back_def guard_res_Inr_iff Let_def split: label_state.splits)
  have len: "length (bb_code b) = items_size items" using inv by (simp add: asm_inv_def layout_length)
  show ?thesis
    using inv l t len unfolding asm_inv_def b'
    by (auto simp: emit_u16_def emit_u8_def layout_append items_ok_append item_ok_def intro!: labels_ok_append)
qed

lemma emit_fwd_jump_keeps:
  assumes inv: "asm_inv b items" and "emit_fwd_jump (fwd_op k) l b = Inr b'"
  shows "asm_inv b' (items @ [Fwd k l])"
proof -
  have len: "length (bb_code b) = items_size items" using inv by (simp add: asm_inv_def layout_length)
  have i: "bb_code b = layout (bb_labels b) 0 items" "items_ok (bb_labels b) 0 items" "labels_ok (bb_labels b) items"
    using inv by (simp_all add: asm_inv_def)
  have l: "l < length (bb_labels b)" using assms(2) by (simp add: emit_fwd_jump_def guard_res_Inr_iff Let_def)
  show ?thesis
  proof (cases "bb_labels b ! l")
    case (Bound t)
    then obtain code where c: "patch_fwd (bb_code b @ fwd_op k # u16_bytes 0xFFFF) (length (bb_code b) + 1) t = Inr code"
      and b': "b' = b\<lparr>bb_code := code\<rparr>"
      using assms(2) l by (auto simp: emit_fwd_jump_def Let_def emit_u16_def emit_u8_def rbind_Inr_iff)
    note pf = patch_fwd_at [of "bb_code b" "fwd_op k" _ _ "[]", OF c [unfolded u16_placeholder]]
    have "labels_ok (bb_labels b) (items @ [Fwd k l])"
      by (rule labels_ok_append [OF i(3)]) (use Bound in auto)
    then show ?thesis
      using i l Bound pf len unfolding asm_inv_def b'
      by (auto simp: layout_append items_ok_append item_ok_def encode_fwd)
  next
    case (Unbound us)
    let ?ls = "(bb_labels b)[l := Unbound (us @ [length (bb_code b) + 1])]"
    have b': "b' = b\<lparr>bb_code := bb_code b @ fwd_op k # u16_bytes 0xFFFF, bb_labels := ?ls\<rparr>"
      using assms(2) l Unbound by (simp add: emit_fwd_jump_def Let_def emit_u16_def emit_u8_def)
    have sb: "same_bounds (bb_labels b) ?ls"
      using Unbound l by (auto simp: same_bounds_def nth_list_update split: label_state.splits)
    note sl = same_bounds_layout [OF sb i(2)]
    have "labels_ok ?ls (items @ [Fwd k l])"
      using i(3) l Unbound len
      by (auto simp: labels_ok_def nth_list_update sites_of_append boundary_append split: label_state.splits)
    then show ?thesis
      using sl i l unfolding asm_inv_def b' by (auto simp: layout_append items_ok_append item_ok_def encode_fwd)
  qed
qed

lemma ucast_word_of_nat: "(ucast (word_of_nat n :: u16) :: u8) = word_of_nat n"
proof -
  have "n mod 65536 mod 256 = n mod 256" by (rule mod_mod_cancel) simp
  then show ?thesis by (simp add: word_unat_eq_iff unsigned_ucast_eq unat_of_nat take_bit_eq_mod)
qed

lemma intern_literal_keeps:
  assumes "intern_literal w b = Inr (b', idx)"
  shows "bb_code b' = bb_code b" "bb_labels b' = bb_labels b" "literal_slot w b = idx" "idx < length (bb_literals b')"
    "bb_literals b' ! idx = w" "\<exists>ys. bb_literals b' = bb_literals b @ ys"
  using assms
  by (auto simp: intern_literal_def literal_slot_def Let_def guard_res_Inr_iff split: option.splits if_splits)

lemma encode_literal_ref:
  assumes "idx \<le> 65535"
  shows "bb_code (emit_literal_ref idx b) = bb_code b @ encode (PushLiteral (word_of_nat idx))"
proof -
  have "(word_of_nat idx :: u16) \<le> 255 \<longleftrightarrow> idx \<le> 255" using assms by (simp add: word_le_nat_alt unat_of_nat)
  then show ?thesis
    by (simp add: emit_literal_ref_def emit_op1_def emit_u8_def emit_u16_def ucast_word_of_nat)
qed

lemma emit_labels [simp]:
  "bb_labels (emit_u8 v b) = bb_labels b" "bb_labels (emit_u16 w b) = bb_labels b" "bb_labels (emit_op1 v a b) = bb_labels b"
  "bb_labels (emit_op2 v a c b) = bb_labels b" "bb_labels (emit_literal_ref n b) = bb_labels b"
  by (simp_all add: emit_u8_def emit_u16_def emit_op1_def emit_op2_def emit_literal_ref_def)

lemma emit_code [simp]:
  "bb_code (emit_u8 v b) = bb_code b @ [v]" "bb_code (emit_u16 w b) = bb_code b @ u16_bytes w"
  "bb_code (emit_op1 v a b) = bb_code b @ [v, a]" "bb_code (emit_op2 v a c b) = bb_code b @ [v, a, c]"
  by (simp_all add: emit_u8_def emit_u16_def emit_op1_def emit_op2_def)

lemma emit_send_keeps:
  assumes "asm_inv b items" and "emit_send op_narrow op_wide s a b = Inr b'"
    and "\<And>n. encode (Send n is_sup) = (if n \<le> 255 then [op_narrow, ucast n] else op_wide # u16_bytes n)"
  shows "asm_inv b' (items @ [Plain (Send (word_of_nat (bb_n_ics b)) is_sup)])"
  using assms(2,3)
  by (intro emit_plain_keeps [OF assms(1)]) (auto simp: emit_send_def add_send_def guard_res_Inr_iff rbind_Inr_iff)

lemmas straight_line_defs =
  push_self_def push_nil_def push_true_def push_false_def push_smi_i8_def push_temp_def store_temp_def
  store_temp_pop_def push_instvar_def store_instvar_pop_def push_ctx_temp_def store_ctx_temp_pop_def
  bb_pop_def bb_dup_def ret_tos_def ret_self_def block_return_tos_def nlr_tos_def

lemma run_op_keeps:
  assumes inv: "asm_inv b items" and op: "run_op x b = Inr b'" and lits: "length (bb_literals b') \<le> 65536"
  shows "asm_inv b' (items @ op_items x b)"
proof (cases x)
  case (BPushLiteral w)
  then obtain b1 idx where "intern_literal w b = Inr (b1, idx)" and b': "b' = emit_literal_ref idx b1"
    using op by (auto simp: push_literal_def rbind_Inr_iff)
  note il = intern_literal_keeps [OF this(1)]
  have "bb_literals b' = bb_literals b1"
    by (simp add: b' emit_literal_ref_def emit_op1_def emit_u8_def emit_u16_def)
  then have "idx \<le> 65535" using il(4) lits by simp
  then show ?thesis
    using il b' BPushLiteral encode_literal_ref emit_plain_keeps [OF inv, of b'] by simp
next
  case (BPushGlobal w)
  then obtain b1 idx where "intern_literal w b = Inr (b1, idx)" and "b' = emit_op1 OP_PUSH_GLOBAL (word_of_nat idx) b1"
    using op by (auto simp: push_global_def rbind_Inr_iff)
  then show ?thesis using intern_literal_keeps BPushGlobal emit_plain_keeps [OF inv, of b'] by simp
next
  case (BStoreGlobalPop w)
  then obtain b1 idx where "intern_literal w b = Inr (b1, idx)" and "b' = emit_op1 OP_STORE_GLOBAL_POP (word_of_nat idx) b1"
    using op by (auto simp: store_global_pop_def rbind_Inr_iff)
  then show ?thesis using intern_literal_keeps BStoreGlobalPop emit_plain_keeps [OF inv, of b'] by simp
next
  case (BSend s a)
  then show ?thesis using op emit_send_keeps [OF inv, of OP_SEND OP_SEND_W s a b' False] by (simp add: send_def)
next
  case (BSendSuper s a)
  then show ?thesis using op emit_send_keeps [OF inv, of OP_SEND_SUPER OP_SEND_SUPER_W s a b' True] by (simp add: send_super_def)
next
  case (BPushClosure l n)
  then show ?thesis using op emit_plain_keeps [OF inv, of b'] by (auto simp: push_closure_def guard_res_Inr_iff)
next
  case BNewLabel
  have "same_bounds (bb_labels b) (bb_labels b @ [Unbound []])"
    by (auto simp: same_bounds_def nth_append split: label_state.splits)
  from same_bounds_layout [OF this, of 0 items] show ?thesis
    using op BNewLabel inv sites_of_fresh [of "bb_labels b" 0 items "length (bb_labels b)"]
    by (auto simp: asm_inv_def new_label_def labels_ok_def nth_append less_Suc_eq split: label_state.splits)
next
  case (BBind l)
  then show ?thesis using op bind_keeps [OF inv] by simp
next
  case (BJumpFwd l)
  then show ?thesis using op emit_fwd_jump_keeps [OF inv, of FJump l b'] by (simp add: jump_fwd_def)
next
  case (BBrTrueFwd l)
  then show ?thesis using op emit_fwd_jump_keeps [OF inv, of FTrue l b'] by (simp add: br_true_fwd_def)
next
  case (BBrFalseFwd l)
  then show ?thesis using op emit_fwd_jump_keeps [OF inv, of FFalse l b'] by (simp add: br_false_fwd_def)
next
  case (BJumpBack l)
  then show ?thesis using op jump_back_keeps [OF inv] by simp
next
  case (BNoteLine n)
  then show ?thesis using op inv by (auto simp: note_line_def asm_inv_def)
qed (use op in \<open>auto simp: straight_line_defs intro!: emit_plain_keeps [OF inv]\<close>)

lemma emit_literals [simp]:
  "bb_literals (emit_u8 v b) = bb_literals b" "bb_literals (emit_u16 w b) = bb_literals b"
  "bb_literals (emit_op1 v a b) = bb_literals b" "bb_literals (emit_op2 v a c b) = bb_literals b"
  "bb_literals (emit_literal_ref n b) = bb_literals b"
  by (simp_all add: emit_u8_def emit_u16_def emit_op1_def emit_op2_def emit_literal_ref_def)

lemma control_literals:
  "bind l b = Inr b' \<Longrightarrow> bb_literals b' = bb_literals b" "emit_fwd_jump op l b = Inr b' \<Longrightarrow> bb_literals b' = bb_literals b"
  "jump_back l b = Inr b' \<Longrightarrow> bb_literals b' = bb_literals b" "emit_send p q s a b = Inr b' \<Longrightarrow> bb_literals b' = bb_literals b"
  by (auto simp: bind_def emit_fwd_jump_def jump_back_def emit_send_def add_send_def Let_def guard_res_Inr_iff rbind_Inr_iff
      split: label_state.splits)

lemma run_op_literals:
  assumes "run_op x b = Inr b'" shows "\<exists>ys. bb_literals b' = bb_literals b @ ys"
  using assms
  by (cases x)
    (auto simp: straight_line_defs new_label_def note_line_def push_literal_def push_global_def store_global_pop_def
      push_closure_def guard_res_Inr_iff rbind_Inr_iff send_def send_super_def jump_fwd_def br_true_fwd_def br_false_fwd_def
      dest: control_literals intern_literal_keeps(6))

lemma run_ops_literals:
  assumes "run_ops ops b = Inr b'" shows "\<exists>ys. bb_literals b' = bb_literals b @ ys"
  using assms
proof (induction ops arbitrary: b)
  case (Cons x xs)
  then obtain b1 where "run_op x b = Inr b1" "run_ops xs b1 = Inr b'" by (auto simp: rbind_Inr_iff)
  from Cons.IH [OF this(2)] run_op_literals [OF this(1)] show ?case by auto
qed simp

lemma run_ops_keeps:
  assumes "asm_inv b items" and "run_ops ops b = Inr b'" and "length (bb_literals b') \<le> 65536"
  shows "asm_inv b' (items @ prog_items ops b)"
  using assms(1,2)
proof (induction ops arbitrary: b items)
  case (Cons x xs)
  then obtain b1 where b1: "run_op x b = Inr b1" "run_ops xs b1 = Inr b'" by (auto simp: rbind_Inr_iff)
  have "length (bb_literals b1) \<le> 65536" using run_ops_literals [OF b1(2)] assms(3) by auto
  from Cons.IH [OF run_op_keeps [OF Cons.prems(1) b1(1) this] b1(2)] b1(1) show ?case by simp
qed simp

lemma asm_inv_new: "asm_inv builder_new []"
  by (simp add: asm_inv_def builder_new_def labels_ok_def)

lemma instrs_of_nth:
  "k < length items \<Longrightarrow> instrs_of ls pos items ! k = item_instr ls (pos + start_of items k) (items ! k)"
proof (induction items arbitrary: pos k)
  case (Cons x xs)
  then show ?case by (cases k) (simp_all add: start_of_def add.assoc)
qed simp

lemma items_ok_nth:
  "items_ok ls pos items \<Longrightarrow> k < length items \<Longrightarrow> item_ok ls (pos + start_of items k) (items ! k)"
proof (induction items arbitrary: pos k)
  case (Cons x xs)
  then show ?case
  proof (cases k)
    case (Suc n)
    then show ?thesis using Cons.IH [of "pos + item_size x" n] Cons.prems by (simp add: start_of_def add.assoc)
  qed (simp add: start_of_def)
qed simp

lemma instrs_of_length [simp]: "length (instrs_of ls pos items) = length items"
  by (induction items arbitrary: pos) simp_all

lemma jump_item_target:
  assumes "item_ok ls pos x" and "label_of x = Some l" and "ls ! l = Bound t"
  shows "jump_target pos (item_instr ls pos x) = Some t"
proof (cases x)
  case (Fwd k l')
  then have "pos + 3 \<le> t" "t - (pos + 3) \<le> 65535" using assms by (auto simp: item_ok_def)
  then have "unat (word_of_nat (t - (pos + 3)) :: u16) = t - (pos + 3)" by (simp only: unat_of_nat) simp
  then show ?thesis using Fwd assms \<open>pos + 3 \<le> t\<close> by (cases k) simp_all
next
  case (Back l')
  then have "t \<le> pos + 3" "pos + 3 - t \<le> 65535" using assms by (auto simp: item_ok_def)
  then have "unat (word_of_nat (pos + 3 - t) :: u16) = pos + 3 - t" by (simp only: unat_of_nat) simp
  then show ?thesis using Back assms \<open>t \<le> pos + 3\<close> by simp
qed (use assms in simp)

lemma intern_fresh:
  assumes "bb_literal_index b w = None"
  shows "intern_literal w b = Inr (b\<lparr>bb_literals := bb_literals b @ [w],
    bb_literal_index := (bb_literal_index b)(w \<mapsto> length (bb_literals b))\<rparr>, length (bb_literals b))"
  using assms by (simp add: intern_literal_def Let_def)

lemma emit_sites [simp]:
  "bb_ic_sites (emit_u8 v b) = bb_ic_sites b" "bb_ic_sites (emit_u16 w b) = bb_ic_sites b"
  "bb_ic_sites (emit_op1 v a b) = bb_ic_sites b" "bb_ic_sites (emit_op2 v a c b) = bb_ic_sites b"
  "bb_ic_sites (emit_literal_ref n b) = bb_ic_sites b"
  "bb_n_ics (emit_u8 v b) = bb_n_ics b" "bb_n_ics (emit_u16 w b) = bb_n_ics b"
  "bb_n_ics (emit_op1 v a b) = bb_n_ics b" "bb_n_ics (emit_op2 v a c b) = bb_n_ics b"
  "bb_n_ics (emit_literal_ref n b) = bb_n_ics b"
  by (simp_all add: emit_u8_def emit_u16_def emit_op1_def emit_op2_def emit_literal_ref_def)

lemma intern_sites:
  "intern_literal w b = Inr (b', idx) \<Longrightarrow> bb_ic_sites b' = bb_ic_sites b \<and> bb_n_ics b' = bb_n_ics b"
  by (auto simp: intern_literal_def Let_def guard_res_Inr_iff split: option.splits if_splits)

lemma control_sites:
  "bind l b = Inr b' \<Longrightarrow> bb_ic_sites b' = bb_ic_sites b \<and> bb_n_ics b' = bb_n_ics b"
  "emit_fwd_jump op l b = Inr b' \<Longrightarrow> bb_ic_sites b' = bb_ic_sites b \<and> bb_n_ics b' = bb_n_ics b"
  "jump_back l b = Inr b' \<Longrightarrow> bb_ic_sites b' = bb_ic_sites b \<and> bb_n_ics b' = bb_n_ics b"
  "emit_send p q s a b = Inr b' \<Longrightarrow> bb_ic_sites b' = bb_ic_sites b @ [(s, a)] \<and> bb_n_ics b' = bb_n_ics b + 1 \<and> bb_n_ics b \<le> 65535"
  by (auto simp: bind_def emit_fwd_jump_def jump_back_def emit_send_def add_send_def Let_def guard_res_Inr_iff rbind_Inr_iff
      split: label_state.splits)

lemma run_op_sites:
  assumes "run_op x b = Inr b'" and "bb_n_ics b = length (bb_ic_sites b)"
  shows "bb_n_ics b' = length (bb_ic_sites b') \<and> (\<exists>ys. bb_ic_sites b' = bb_ic_sites b @ ys)"
  using assms
  by (cases x)
    (auto simp: straight_line_defs new_label_def note_line_def push_literal_def push_global_def store_global_pop_def
      push_closure_def guard_res_Inr_iff rbind_Inr_iff send_def send_super_def jump_fwd_def br_true_fwd_def br_false_fwd_def
      dest: control_sites intern_sites)

lemma run_ops_sites:
  assumes "run_ops ops b = Inr b'" and "bb_n_ics b = length (bb_ic_sites b)"
  shows "bb_n_ics b' = length (bb_ic_sites b') \<and> (\<exists>ys. bb_ic_sites b' = bb_ic_sites b @ ys)"
  using assms
proof (induction ops arbitrary: b)
  case (Cons x xs)
  then obtain b1 where b1: "run_op x b = Inr b1" "run_ops xs b1 = Inr b'" by (auto simp: rbind_Inr_iff)
  from run_op_sites [OF b1(1) Cons.prems(2)] Cons.IH [OF b1(2)] show ?case by auto
qed simp

lemma run_ops_append: "run_ops (xs @ ys) b = rbind (run_ops xs b) (run_ops ys)"
proof (induction xs arbitrary: b)
  case (Cons x xs)
  then have "run_ops (xs @ ys) = (\<lambda>b. rbind (run_ops xs b) (run_ops ys))" by (intro ext)
  then show ?case by (simp add: rbind_assoc)
qed simp

section \<open>Properties\<close>

text \<open>C34: every instruction, operands included, survives encoding and decoding at any position of a
  bytecode stream, and the decoder stops exactly at the next instruction.\<close>

theorem decode_inverts_encode:
  "decode_at (pre @ encode i @ suf) (length pre) = Inr (i, length pre + length (encode i))"
  by (rule decode_encode)


text \<open>A loop with a forward exit.\<close>

definition example_ops :: "bop list" where
  "example_ops = [BNewLabel, BNewLabel, BBind 0, BPushTrue, BBrFalseFwd 1, BPushSmi 3, BPop, BJumpBack 0, BBind 1, BRetSelf]"

lemmas asm_eval =
  builder_new_def straight_line_defs emit_op1_def emit_op2_def emit_u8_def emit_u16_def new_label_def bind_def
  emit_fwd_jump_def patch_fwd_def patch_u16_def jump_back_def br_false_fwd_def Let_def guard_res_def u16_bytes_def




text \<open>A global access whose association lands beyond literal slot 255 is assembled wrongly. The
  index is cut to eight bits without a check, so the emitted \<open>push_global\<close> (and likewise the global
  store) selects a different literal than the association it was emitted for.\<close>

lemma push_global_truncates_index:
  assumes "256 \<le> length (bb_literals b)" and "bb_literal_index b w = None" and "w \<notin> set (bb_literals b)"
  shows "\<exists>b' n. push_global w b = Inr b' \<and> bb_code b' = bb_code b @ encode (PushGlobal n) \<and> bb_literals b' ! unat n \<noteq> w"
proof -
  let ?l = "length (bb_literals b)"
  have "?l mod 256 < 256" by simp
  then have u: "unat (word_of_nat ?l :: u8) < ?l" using assms(1) by (simp add: unat_of_nat)
  obtain b' where b': "push_global w b = Inr b'" "bb_code b' = bb_code b @ [OP_PUSH_GLOBAL, word_of_nat ?l]"
    "bb_literals b' = bb_literals b @ [w]"
    using intern_fresh [OF assms(2)] by (simp add: push_global_def)
  have "bb_literals b' ! unat (word_of_nat ?l :: u8) = bb_literals b ! unat (word_of_nat ?l :: u8)"
    using u b'(3) by (simp add: nth_append)
  also have "\<dots> \<noteq> w" using u assms(3) nth_mem by blast
  finally show ?thesis using b' by (intro exI [of _ b'] exI [of _ "word_of_nat ?l"]) simp
qed

end
