(* ===== verification/Scopes.thy ===== *)
theory Scopes
  imports Prelude
begin

text \<open>
  The deoptimisation metadata of compiled methods (\<open>src/src/compiler/scopes.rs\<close>): the LEB128 codec, the packed scope
  and safepoint records with their recorder, the offset-linked decoder, and the on-stack-replacement map.

  A writer is modelled by the bytes it appends to its output vector. A reader takes the whole buffer and a position
  and answers the value and the new position; reading past the end is a panic. The LEB128 codec works on the naturals
  and integers that the source's \<open>u64\<close> and \<open>i64\<close> hold; the record fields are machine words, an \<open>i32\<close> or \<open>i64\<close> a word
  read by \<open>sint\<close>, so that the \<open>as\<close> casts are the conversions from and to words.
\<close>

section \<open>LEB128\<close>

function write_uleb :: "nat \<Rightarrow> u8 list" where
  "write_uleb v =
     (let byte = word_of_nat (v mod 128); v' = v div 128
      in if v' = 0 then [byte] else (byte OR 0x80) # write_uleb v')"
  by pat_completeness auto
termination
  by (relation "measure (\<lambda>v. v)") auto

definition buf_at :: "u8 list \<Rightarrow> nat \<Rightarrow> u8 res" where
  "buf_at buf pos = guard_res (pos < length buf) Index_out_of_bounds (Inr (buf ! pos))"

function read_uleb_loop :: "u8 list \<Rightarrow> nat \<Rightarrow> nat \<Rightarrow> nat \<Rightarrow> (nat \<times> nat) res" where
  "read_uleb_loop buf pos result shift =
     (if length buf \<le> pos then Inl Index_out_of_bounds
      else
        let byte = buf ! pos;
            result = result OR take_bit 64 (push_bit shift (unat (byte AND 0x7f)))
        in if byte AND 0x80 = 0 then Inr (result, pos + 1)
           else guard_res (shift + 7 < 64) Assert_failed (read_uleb_loop buf (pos + 1) result (shift + 7)))"
  by pat_completeness auto
termination
  by (relation "measure (\<lambda>(buf, pos, _). length buf - pos)") auto

definition read_uleb :: "u8 list \<Rightarrow> nat \<Rightarrow> (nat \<times> nat) res" where
  "read_uleb buf pos = read_uleb_loop buf pos 0 0"

function write_sleb :: "int \<Rightarrow> u8 list" where
  "write_sleb v =
     (let byte = word_of_int (v mod 128) :: u8; v' = v div 128; sign_bit_set = byte AND 0x40 \<noteq> 0
      in if (v' = 0 \<and> \<not> sign_bit_set) \<or> (v' = -1 \<and> sign_bit_set) then [byte] else (byte OR 0x80) # write_sleb v')"
  by pat_completeness auto
termination
proof (relation "measure (\<lambda>v. nat (if 0 \<le> v then v else - v - 1))", goal_cases)
  case (2 v byte v' sgn)
  then have "v \<noteq> 0" "v \<noteq> -1" by auto
  with 2 show ?case by (auto simp: nat_less_iff)
qed simp

function read_sleb_loop :: "u8 list \<Rightarrow> nat \<Rightarrow> int \<Rightarrow> nat \<Rightarrow> (int \<times> nat) res" where
  "read_sleb_loop buf pos result shift =
     (if length buf \<le> pos then Inl Index_out_of_bounds
      else
        let byte = buf ! pos;
            result = signed_take_bit 63 (result OR push_bit shift (uint (byte AND 0x7f)));
            shift = shift + 7
        in if byte AND 0x80 = 0 then
             Inr (if shift < 64 \<and> byte AND 0x40 \<noteq> 0 then signed_take_bit 63 (result OR push_bit shift (-1)) else result, pos + 1)
           else guard_res (shift < 64) Assert_failed (read_sleb_loop buf (pos + 1) result shift))"
  by pat_completeness auto
termination
  by (relation "measure (\<lambda>(buf, pos, _). length buf - pos)") auto

definition read_sleb :: "u8 list \<Rightarrow> nat \<Rightarrow> (int \<times> nat) res" where
  "read_sleb buf pos = read_sleb_loop buf pos 0 0"

declare write_uleb.simps [simp del] read_uleb_loop.simps [simp del] write_sleb.simps [simp del] read_sleb_loop.simps [simp del]

section \<open>Locations\<close>

type_synonym i32 = "32 word"
type_synonym i64 = "64 word"

datatype value_loc =
    ConstPool u32
  | ConstSmi i64
  | FrameSlot i32
  | NilLoc
  | ElidedClosure u32
  | DoubleSlot i32

fun value_loc_write :: "value_loc \<Rightarrow> u8 list" where
  "value_loc_write (ConstPool ix) = 0 # write_uleb (unat ix)"
| "value_loc_write (ConstSmi v) = 1 # write_sleb (sint v)"
| "value_loc_write (FrameSlot off) = 2 # write_sleb (sint off)"
| "value_loc_write NilLoc = [3]"
| "value_loc_write (ElidedClosure ix) = 4 # write_uleb (unat ix)"
| "value_loc_write (DoubleSlot off) = 5 # write_sleb (sint off)"

definition read_u :: "(nat \<Rightarrow> 'a) \<Rightarrow> u8 list \<Rightarrow> nat \<Rightarrow> ('a \<times> nat) res" where
  "read_u f buf pos = rbind (read_uleb buf pos) (\<lambda>(v, pos). Inr (f v, pos))"

definition read_s :: "(int \<Rightarrow> 'a) \<Rightarrow> u8 list \<Rightarrow> nat \<Rightarrow> ('a \<times> nat) res" where
  "read_s f buf pos = rbind (read_sleb buf pos) (\<lambda>(v, pos). Inr (f v, pos))"

definition value_loc_read :: "u8 list \<Rightarrow> nat \<Rightarrow> (value_loc \<times> nat) res" where
  "value_loc_read buf pos =
     rbind (buf_at buf pos) (\<lambda>tag.
       let pos = pos + 1 in
         if tag = 0 then read_u (\<lambda>v. ConstPool (word_of_nat v)) buf pos
         else if tag = 1 then read_s (\<lambda>v. ConstSmi (word_of_int v)) buf pos
         else if tag = 2 then read_s (\<lambda>v. FrameSlot (word_of_int v)) buf pos
         else if tag = 3 then Inr (NilLoc, pos)
         else if tag = 4 then read_u (\<lambda>v. ElidedClosure (word_of_nat v)) buf pos
         else if tag = 5 then read_s (\<lambda>v. DoubleSlot (word_of_int v)) buf pos
         else Inl Explicit_panic)"

text \<open>\<open>(0..n).map(|_| read(buf, pos)).collect()\<close>, and the length-prefixed vectors it reads.\<close>

fun read_n :: "(u8 list \<Rightarrow> nat \<Rightarrow> ('a \<times> nat) res) \<Rightarrow> nat \<Rightarrow> u8 list \<Rightarrow> nat \<Rightarrow> ('a list \<times> nat) res" where
  "read_n rd 0 buf pos = Inr ([], pos)"
| "read_n rd (Suc n) buf pos =
     rbind (rd buf pos) (\<lambda>(v, pos). rbind (read_n rd n buf pos) (\<lambda>(vs, pos). Inr (v # vs, pos)))"

definition write_vec :: "('a \<Rightarrow> u8 list) \<Rightarrow> 'a list \<Rightarrow> u8 list" where
  "write_vec wr vs = write_uleb (length vs) @ concat (map wr vs)"

definition read_vec :: "(u8 list \<Rightarrow> nat \<Rightarrow> ('a \<times> nat) res) \<Rightarrow> u8 list \<Rightarrow> nat \<Rightarrow> ('a list \<times> nat) res" where
  "read_vec rd buf pos = rbind (read_uleb buf pos) (\<lambda>(n, pos). read_n rd n buf pos)"

datatype ctx_loc = CtxNone | Materialized value_loc | Elided "value_loc list"

fun ctx_kind :: "ctx_loc \<Rightarrow> u8" where
  "ctx_kind CtxNone = 0"
| "ctx_kind (Materialized _) = 1"
| "ctx_kind (Elided _) = 2"

fun ctx_write :: "ctx_loc \<Rightarrow> u8 list" where
  "ctx_write CtxNone = []"
| "ctx_write (Materialized loc) = value_loc_write loc"
| "ctx_write (Elided temps) = write_vec value_loc_write temps"

definition ctx_read :: "u8 \<Rightarrow> u8 list \<Rightarrow> nat \<Rightarrow> (ctx_loc \<times> nat) res" where
  "ctx_read kind buf pos =
     (if kind = 0 then Inr (CtxNone, pos)
      else if kind = 1 then rbind (value_loc_read buf pos) (\<lambda>(loc, pos). Inr (Materialized loc, pos))
      else if kind = 2 then rbind (read_vec value_loc_read buf pos) (\<lambda>(temps, pos). Inr (Elided temps, pos))
      else Inl Explicit_panic)"

section \<open>The recorder\<close>

record sender_link =
  sl_sender :: u32
  sl_bci :: u16
  sl_pending :: "value_loc list"

record scope_desc =
  sd_method_pool_ix :: u32
  sd_is_block :: bool
  sd_sender :: "sender_link option"
  sd_receiver :: value_loc
  sd_slots :: "value_loc list"
  sd_ctx :: ctx_loc

datatype safepoint_kind = Call | LoopPoll | Alloc | UncommonTrap

fun kind_to_bits :: "safepoint_kind \<Rightarrow> u8" where
  "kind_to_bits Call = 0"
| "kind_to_bits LoopPoll = 1"
| "kind_to_bits Alloc = 2"
| "kind_to_bits UncommonTrap = 3"

definition kind_from_bits :: "u8 \<Rightarrow> safepoint_kind res" where
  "kind_from_bits b =
     (if b = 0 then Inr Call else if b = 1 then Inr LoopPoll else if b = 2 then Inr Alloc
      else if b = 3 then Inr UncommonTrap else Inl Explicit_panic)"

record safepoint_state =
  sp_scope :: u32
  sp_bci :: u16
  sp_kind :: safepoint_kind
  sp_reexecute :: bool
  sp_stack :: "value_loc list"

record pc_desc =
  pd_code_off :: u32
  pd_site_off :: u32

record recorder =
  rc_scopes :: "scope_desc list"
  rc_sites :: "(u32 \<times> safepoint_state) list"

definition recorder_new :: recorder where
  "recorder_new = \<lparr>rc_scopes = [], rc_sites = []\<rparr>"

definition begin_scope :: "recorder \<Rightarrow> scope_desc \<Rightarrow> (recorder \<times> u32) res" where
  "begin_scope r data =
     guard_res (case sd_sender data of None \<Rightarrow> True | Some link \<Rightarrow> unat (sl_sender link) < length (rc_scopes r)) Assert_failed
       (Inr (r\<lparr>rc_scopes := rc_scopes r @ [data]\<rparr>, word_of_nat (length (rc_scopes r))))"

definition record_site :: "recorder \<Rightarrow> u32 \<Rightarrow> safepoint_state \<Rightarrow> recorder res" where
  "record_site r code_off state =
     guard_res (unat (sp_scope state) < length (rc_scopes r)) Assert_failed
       (guard_res (\<not> (sp_kind state = Call \<and> sp_reexecute state)) Assert_failed
         (Inr (r\<lparr>rc_sites := rc_sites r @ [(code_off, state)]\<rparr>)))"

definition offs_at :: "u32 list \<Rightarrow> u32 \<Rightarrow> u32 res" where
  "offs_at offs i = guard_res (unat i < length offs) Index_out_of_bounds (Inr (offs ! unat i))"

definition scope_flags :: "scope_desc \<Rightarrow> u8" where
  "scope_flags scope =
     of_bool (sd_sender scope \<noteq> None) OR push_bit 1 (of_bool (sd_is_block scope)) OR push_bit 2 (ctx_kind (sd_ctx scope))"

definition write_scope_record :: "scope_desc \<Rightarrow> u32 list \<Rightarrow> u8 list res" where
  "write_scope_record scope scope_offs =
     rbind (case sd_sender scope of
              None \<Rightarrow> Inr []
            | Some link \<Rightarrow> rbind (offs_at scope_offs (sl_sender link)) (\<lambda>off.
                Inr (write_uleb (unat off) @ write_uleb (unat (sl_bci link)) @ write_vec value_loc_write (sl_pending link))))
       (\<lambda>link_bytes.
         Inr (scope_flags scope # write_uleb (unat (sd_method_pool_ix scope)) @ link_bytes
              @ value_loc_write (sd_receiver scope) @ write_vec value_loc_write (sd_slots scope) @ ctx_write (sd_ctx scope)))"

definition site_flags :: "safepoint_state \<Rightarrow> u8" where
  "site_flags state = of_bool (sp_reexecute state) OR push_bit 1 (kind_to_bits (sp_kind state))"

definition write_safepoint_record :: "safepoint_state \<Rightarrow> u32 list \<Rightarrow> u8 list res" where
  "write_safepoint_record state scope_offs =
     rbind (offs_at scope_offs (sp_scope state)) (\<lambda>off.
       Inr (write_uleb (unat off) @ write_uleb (unat (sp_bci state)) @ [site_flags state]
            @ write_vec value_loc_write (sp_stack state)))"

fun pack_scopes :: "scope_desc list \<Rightarrow> u8 list \<Rightarrow> u32 list \<Rightarrow> (u8 list \<times> u32 list) res" where
  "pack_scopes [] blob scope_offs = Inr (blob, scope_offs)"
| "pack_scopes (scope # rest) blob scope_offs =
     (let scope_offs = scope_offs @ [word_of_nat (length blob)] in
        rbind (write_scope_record scope scope_offs) (\<lambda>bs. pack_scopes rest (blob @ bs) scope_offs))"

fun pack_sites :: "(u32 \<times> safepoint_state) list \<Rightarrow> u32 list \<Rightarrow> u8 list \<Rightarrow> pc_desc list \<Rightarrow> (u8 list \<times> pc_desc list) res" where
  "pack_sites [] scope_offs blob pcdescs = Inr (blob, pcdescs)"
| "pack_sites ((code_off, state) # rest) scope_offs blob pcdescs =
     rbind (write_safepoint_record state scope_offs) (\<lambda>bs.
       pack_sites rest scope_offs (blob @ bs) (pcdescs @ [\<lparr>pd_code_off = code_off, pd_site_off = word_of_nat (length blob)\<rparr>]))"

definition recorder_pack :: "recorder \<Rightarrow> (u8 list \<times> pc_desc list) res" where
  "recorder_pack r =
     rbind (pack_scopes (rc_scopes r) [] []) (\<lambda>(blob, scope_offs).
       rbind (pack_sites (rc_sites r) scope_offs blob []) (\<lambda>(blob, pcdescs).
         Inr (blob, sort_key pd_code_off pcdescs)))"

section \<open>The decoder\<close>

record decoded_scope =
  ds_method_pool_ix :: u32
  ds_is_block :: bool
  ds_sender :: "(u32 \<times> u16 \<times> value_loc list) option"
  ds_receiver :: value_loc
  ds_slots :: "value_loc list"
  ds_ctx :: ctx_loc

record decoded_site =
  de_scope_off :: u32
  de_bci :: u16
  de_kind :: safepoint_kind
  de_reexecute :: bool
  de_stack :: "value_loc list"

definition decode_scope :: "u8 list \<Rightarrow> u32 \<Rightarrow> decoded_scope res" where
  "decode_scope blob off =
     rbind (buf_at blob (unat off)) (\<lambda>flags.
     rbind (read_uleb blob (unat off + 1)) (\<lambda>(ix, pos).
     rbind (if flags AND 1 \<noteq> 0 then
              rbind (read_uleb blob pos) (\<lambda>(sender_off, pos).
              rbind (read_uleb blob pos) (\<lambda>(sender_bci, pos).
              rbind (read_vec value_loc_read blob pos) (\<lambda>(pending, pos).
                Inr (Some (word_of_nat sender_off, word_of_nat sender_bci, pending), pos))))
            else Inr (None, pos)) (\<lambda>(sender, pos).
     rbind (value_loc_read blob pos) (\<lambda>(receiver, pos).
     rbind (read_vec value_loc_read blob pos) (\<lambda>(slots, pos).
     rbind (ctx_read (drop_bit 2 flags AND 3) blob pos) (\<lambda>(ctx, pos).
       Inr \<lparr>ds_method_pool_ix = word_of_nat ix, ds_is_block = (flags AND 2 \<noteq> 0), ds_sender = sender,
            ds_receiver = receiver, ds_slots = slots, ds_ctx = ctx\<rparr>))))))"

definition decode_site :: "u8 list \<Rightarrow> u32 \<Rightarrow> decoded_site res" where
  "decode_site blob site_off =
     rbind (read_uleb blob (unat site_off)) (\<lambda>(scope_off, pos).
     rbind (read_uleb blob pos) (\<lambda>(bci, pos).
     rbind (buf_at blob pos) (\<lambda>flags.
     rbind (kind_from_bits (drop_bit 1 flags AND 7)) (\<lambda>kind.
     rbind (read_vec value_loc_read blob (pos + 1)) (\<lambda>(stk, pos).
       Inr \<lparr>de_scope_off = word_of_nat scope_off, de_bci = word_of_nat bci, de_kind = kind,
            de_reexecute = (flags AND 1 \<noteq> 0), de_stack = stk\<rparr>)))))"

text \<open>
  \<open>slice::binary_search_by_key\<close> as the standard library computes it: the window \<open>[base, base + size)\<close> is halved until
  one element is left.
\<close>

function search_loop :: "u32 list \<Rightarrow> u32 \<Rightarrow> nat \<Rightarrow> nat \<Rightarrow> nat" where
  "search_loop keys key base n =
     (if n \<le> 1 then base
      else let half = n div 2; mid = base + half
           in search_loop keys key (if key < keys ! mid then base else mid) (n - half))"
  by pat_completeness auto
termination
  by (relation "measure (\<lambda>(_, _, _, n). n)") auto

declare search_loop.simps [simp del]

definition binary_search_by_key :: "u32 list \<Rightarrow> u32 \<Rightarrow> nat option" where
  "binary_search_by_key keys key =
     (if keys = [] then None
      else let i = search_loop keys key 0 (length keys) in if keys ! i = key then Some i else None)"

definition pc_desc_find :: "pc_desc list \<Rightarrow> u32 \<Rightarrow> pc_desc res" where
  "pc_desc_find descs code_off =
     (case binary_search_by_key (map pd_code_off descs) code_off of
        Some idx \<Rightarrow> Inr (descs ! idx)
      | None \<Rightarrow> Inl Explicit_panic)"

record deopt_state =
  dp_blob :: "u8 list"
  dp_site :: decoded_site

definition at_parts :: "u8 list \<Rightarrow> pc_desc list \<Rightarrow> u32 \<Rightarrow> deopt_state res" where
  "at_parts blob pcdescs code_off =
     rbind (pc_desc_find pcdescs code_off) (\<lambda>pc.
     rbind (decode_site blob (pd_site_off pc)) (\<lambda>site. Inr \<lparr>dp_blob = blob, dp_site = site\<rparr>))"

definition innermost :: "deopt_state \<Rightarrow> decoded_scope res" where
  "innermost d = decode_scope (dp_blob d) (de_scope_off (dp_site d))"

definition scope_chain_next :: "u8 list \<Rightarrow> u32 option \<Rightarrow> (decoded_scope \<times> u32 option) option res" where
  "scope_chain_next blob next_off =
     (case next_off of
        None \<Rightarrow> Inr None
      | Some off \<Rightarrow> rbind (decode_scope blob off) (\<lambda>scope. Inr (Some (scope, map_option fst (ds_sender scope)))))"

text \<open>Driving the iterator to its end; \<open>None\<close> is a walk that never reaches a root scope.\<close>

partial_function (option) scope_chain_from :: "u8 list \<Rightarrow> u32 option \<Rightarrow> decoded_scope list res option" where
  "scope_chain_from blob next_off =
     (case scope_chain_next blob next_off of
        Inl e \<Rightarrow> Some (Inl e)
      | Inr None \<Rightarrow> Some (Inr [])
      | Inr (Some (scope, next_off')) \<Rightarrow>
          Option.bind (scope_chain_from blob next_off') (\<lambda>r. Some (rbind r (\<lambda>rest. Inr (scope # rest)))))"

definition scopes :: "deopt_state \<Rightarrow> decoded_scope list res option" where
  "scopes d = scope_chain_from (dp_blob d) (Some (de_scope_off (dp_site d)))"

section \<open>The on-stack-replacement map\<close>

datatype osr_source = OsrReceiver | OsrTemp u16 | OsrStack u16 | OsrContext

record osr_slot =
  os_src :: osr_source
  os_dst_frame_off :: i32

record osr_map =
  om_osr_bci :: u16
  om_entry_off :: u32
  om_frame_words :: u32
  om_slots :: "osr_slot list"

fun osr_source_write :: "osr_source \<Rightarrow> u8 list" where
  "osr_source_write OsrReceiver = write_uleb 0"
| "osr_source_write (OsrTemp i) = write_uleb 1 @ write_uleb (unat i)"
| "osr_source_write (OsrStack i) = write_uleb 2 @ write_uleb (unat i)"
| "osr_source_write OsrContext = write_uleb 3"

definition neg_i32 :: "i32 \<Rightarrow> i32 res" where
  "neg_i32 v = guard_res (sint v \<noteq> - (2 ^ 31)) Arith_overflow (Inr (- v))"

definition i32_as_u64 :: "i32 \<Rightarrow> nat" where
  "i32_as_u64 v = nat (sint v mod 2 ^ 64)"

definition osr_slot_write :: "osr_slot \<Rightarrow> u8 list res" where
  "osr_slot_write s =
     guard_res (sint (os_dst_frame_off s) < 0) Assert_failed
       (rbind (neg_i32 (os_dst_frame_off s)) (\<lambda>d. Inr (osr_source_write (os_src s) @ write_uleb (i32_as_u64 d))))"

definition osr_pack :: "osr_map \<Rightarrow> u8 list res" where
  "osr_pack m =
     rbind (res_map osr_slot_write (om_slots m)) (\<lambda>slots.
       Inr (write_uleb (unat (om_osr_bci m)) @ write_uleb (unat (om_entry_off m)) @ write_uleb (unat (om_frame_words m))
            @ write_uleb (length (om_slots m)) @ concat slots))"

definition osr_source_read :: "u8 list \<Rightarrow> nat \<Rightarrow> (osr_source \<times> nat) res" where
  "osr_source_read buf pos =
     rbind (read_uleb buf pos) (\<lambda>(tag, pos).
       if tag = 0 then Inr (OsrReceiver, pos)
       else if tag = 1 then read_u (\<lambda>v. OsrTemp (word_of_nat v)) buf pos
       else if tag = 2 then read_u (\<lambda>v. OsrStack (word_of_nat v)) buf pos
       else if tag = 3 then Inr (OsrContext, pos)
       else Inl Explicit_panic)"

definition osr_slot_read :: "u8 list \<Rightarrow> nat \<Rightarrow> (osr_slot \<times> nat) res" where
  "osr_slot_read buf pos =
     rbind (osr_source_read buf pos) (\<lambda>(src, pos).
     rbind (read_uleb buf pos) (\<lambda>(v, pos).
     rbind (neg_i32 (word_of_nat v)) (\<lambda>d. Inr (\<lparr>os_src = src, os_dst_frame_off = d\<rparr>, pos))))"

definition osr_unpack :: "u8 list \<Rightarrow> osr_map res" where
  "osr_unpack buf =
     rbind (read_uleb buf 0) (\<lambda>(osr_bci, pos).
     rbind (read_uleb buf pos) (\<lambda>(entry_off, pos).
     rbind (read_uleb buf pos) (\<lambda>(frame_words, pos).
     rbind (read_vec osr_slot_read buf pos) (\<lambda>(slots, pos).
       Inr \<lparr>om_osr_bci = word_of_nat osr_bci, om_entry_off = word_of_nat entry_off,
            om_frame_words = word_of_nat frame_words, om_slots = slots\<rparr>))))"

section \<open>Bytes at a position\<close>

definition has_at :: "u8 list \<Rightarrow> nat \<Rightarrow> u8 list \<Rightarrow> bool" where
  "has_at buf pos bs \<longleftrightarrow> take (length bs) (drop pos buf) = bs"

lemma has_at_Cons: "has_at buf pos (b # bs) \<longleftrightarrow> pos < length buf \<and> buf ! pos = b \<and> has_at buf (Suc pos) bs"
proof (cases "pos < length buf")
  case True
  then have "drop pos buf = buf ! pos # drop (Suc pos) buf" by (simp add: Cons_nth_drop_Suc)
  with True show ?thesis by (simp add: has_at_def)
qed (simp add: has_at_def)

lemma has_at_Nil [simp]: "has_at buf pos []"
  by (simp add: has_at_def)

lemma has_at_append: "has_at buf pos (xs @ ys) \<longleftrightarrow> has_at buf pos xs \<and> has_at buf (pos + length xs) ys"
  by (induction xs arbitrary: pos) (auto simp: has_at_Cons)

lemma has_at_le: "has_at buf pos bs \<Longrightarrow> length bs \<le> length buf"
proof -
  assume "has_at buf pos bs"
  then have "length (take (length bs) (drop pos buf)) = length bs" by (simp add: has_at_def)
  then show "length bs \<le> length buf" by simp
qed

lemma has_at_mid: "has_at (pre @ bs @ suf) (length pre) bs"
  by (simp add: has_at_def)

section \<open>LEB128 round trips\<close>

lemma septet_cases:
  fixes v :: nat
  assumes "v < 128"
  shows "(word_of_nat v :: u8) AND 0x7f = word_of_nat v"
    and "(word_of_nat v OR 0x80 :: u8) AND 0x7f = word_of_nat v"
    and "(word_of_nat v :: u8) AND 0x80 = 0"
    and "(word_of_nat v :: u8) AND 0x40 \<noteq> 0 \<longleftrightarrow> 64 \<le> v"
proof -
  have "\<forall>v \<in> set [0..<128]. (word_of_nat v :: u8) AND 0x7f = word_of_nat v \<and>
      (word_of_nat v OR 0x80 :: u8) AND 0x7f = word_of_nat v \<and> (word_of_nat v :: u8) AND 0x80 = 0 \<and>
      ((word_of_nat v :: u8) AND 0x40 \<noteq> 0 \<longleftrightarrow> 64 \<le> v)"
    by code_simp
  moreover have "v \<in> set [0..<128]" using assms by simp
  ultimately show "(word_of_nat v :: u8) AND 0x7f = word_of_nat v"
    and "(word_of_nat v OR 0x80 :: u8) AND 0x7f = word_of_nat v"
    and "(word_of_nat v :: u8) AND 0x80 = 0"
    and "(word_of_nat v :: u8) AND 0x40 \<noteq> 0 \<longleftrightarrow> 64 \<le> v"
    by blast+
qed

lemma more_bit: "(w OR 0x80 :: u8) AND 0x80 \<noteq> 0"
proof
  assume "(w OR 0x80 :: u8) AND 0x80 = 0"
  then have "bit ((w OR 0x80 :: u8) AND 0x80) 7 = bit (0 :: u8) 7" by simp
  then show False by (simp add: bit_simps)
qed

lemma unat_septet: "v < 128 \<Longrightarrow> unat (word_of_nat v :: u8) = v"
  by (simp add: unat_of_nat)

lemma or_push_bit: "take_bit n a = a \<Longrightarrow> a OR push_bit n b = a + push_bit n b"
  for a b :: "'a :: semiring_bit_operations"
proof (subst disjunctive_add_eq_or)
  assume "take_bit n a = a"
  then have "a AND push_bit n b = take_bit n a AND push_bit n b" by simp
  also have "\<dots> = 0" by (rule bit_eqI) (simp add: bit_simps)
  finally show "a AND push_bit n b = 0" .
qed simp

lemma or_push_bit_nat: "a < 2 ^ n \<Longrightarrow> a OR push_bit n b = a + b * 2 ^ n" for a b :: nat
  using or_push_bit [of n a b] by (simp add: take_bit_nat_eq_self push_bit_eq_mult)

lemma or_push_bit_int: "0 \<le> a \<Longrightarrow> a < 2 ^ n \<Longrightarrow> a OR push_bit n b = a + b * 2 ^ n" for a b :: int
  using or_push_bit [of n a b] by (simp add: take_bit_int_eq_self push_bit_eq_mult)

lemma add_shifted_less: "r < 2 ^ s \<Longrightarrow> b + 1 \<le> 128 \<Longrightarrow> r + b * 2 ^ s < 2 ^ (s + 7)"
  for r b :: "'a :: linordered_semidom"
proof -
  assume "r < 2 ^ s" "b + 1 \<le> 128"
  have "r + b * 2 ^ s < 2 ^ s + b * 2 ^ s" using \<open>r < 2 ^ s\<close> by simp
  also have "\<dots> = (b + 1) * 2 ^ s" by (simp add: algebra_simps)
  also have "\<dots> \<le> 128 * 2 ^ s" using \<open>b + 1 \<le> 128\<close> by (intro mult_right_mono) simp_all
  also have "\<dots> = 2 ^ (s + 7)" by (simp add: power_add mult.commute)
  finally show "r + b * 2 ^ s < 2 ^ (s + 7)" .
qed

lemma read_write_uleb_loop:
  assumes "has_at buf pos (write_uleb v)" "r < 2 ^ shift" "r + v * 2 ^ shift < 2 ^ 64" "shift < 64"
  shows "read_uleb_loop buf pos r shift = Inr (r + v * 2 ^ shift, pos + length (write_uleb v))"
  using assms
proof (induction v arbitrary: pos r shift rule: write_uleb.induct)
  case (1 v)
  define b where "b = v mod 128"
  have v: "v = b + 128 * (v div 128)" and b: "b < 128" by (simp_all add: b_def)
  have "b * 2 ^ shift \<le> v * 2 ^ shift" by (simp add: b_def)
  then have "b * 2 ^ shift < 2 ^ 64" using "1.prems"(3) by linarith
  then have step: "r OR take_bit 64 (push_bit shift b) = r + b * 2 ^ shift"
    using "1.prems"(2) by (simp add: take_bit_nat_eq_self push_bit_eq_mult flip: or_push_bit_nat)
  show ?case
  proof (cases "v div 128 = 0")
    case True
    then have "write_uleb v = [word_of_nat b]" "v = b" using v by (simp_all add: write_uleb.simps [of v] b_def)
    with "1.prems"(1) show ?thesis
      by (subst read_uleb_loop.simps) (simp add: has_at_Cons septet_cases [OF b] unat_septet [OF b] step)
  next
    case False
    then have w: "write_uleb v = (word_of_nat b OR 0x80) # write_uleb (v div 128)"
      by (simp add: write_uleb.simps [of v] b_def)
    have eq: "r + v * 2 ^ shift = (r + b * 2 ^ shift) + v div 128 * 2 ^ (shift + 7)"
      by (subst v) (simp add: algebra_simps power_add)
    have "2 ^ (shift + 7) \<le> v div 128 * 2 ^ (shift + 7)" using False by simp
    then have "(2 :: nat) ^ (shift + 7) < 2 ^ 64" using "1.prems"(3) eq by linarith
    then have s: "shift + 7 < 64" by (rule power_less_imp_less_exp [rotated]) simp
    from "1.prems"(1) w have at: "pos < length buf" "buf ! pos = word_of_nat b OR 0x80" "has_at buf (Suc pos) (write_uleb (v div 128))"
      by (simp_all add: has_at_Cons)
    have "read_uleb_loop buf (Suc pos) (r + b * 2 ^ shift) (shift + 7)
        = Inr (r + b * 2 ^ shift + v div 128 * 2 ^ (shift + 7), Suc pos + length (write_uleb (v div 128)))"
      using False at(3) add_shifted_less [OF "1.prems"(2), of b] b "1.prems"(3) s
      by (intro "1.IH") (simp_all add: eq)
    with at s show ?thesis
      by (subst read_uleb_loop.simps) (simp add: more_bit septet_cases [OF b] unat_septet [OF b] step w eq)
  qed
qed

lemma read_write_uleb: "v < 2 ^ 64 \<Longrightarrow> has_at buf pos (write_uleb v) \<Longrightarrow> read_uleb buf pos = Inr (v, pos + length (write_uleb v))"
  using read_write_uleb_loop [of buf pos v 0 0] by (simp add: read_uleb_def)

lemma signed_take_bit_i64: "i64_range w \<Longrightarrow> (v - w) mod 2 ^ 64 = 0 \<Longrightarrow> signed_take_bit 63 v = w"
proof -
  assume w: "i64_range w" and "(v - w) mod 2 ^ 64 = 0"
  then have "take_bit 64 v = take_bit 64 w" by (simp add: take_bit_eq_mod mod_eq_dvd_iff dvd_eq_mod_eq_0)
  then have "signed_take_bit 63 v = signed_take_bit 63 w" by (simp add: signed_take_bit_eq_iff_take_bit_eq)
  also have "\<dots> = w" using w by (simp add: signed_take_bit_int_eq_self i64_range_def)
  finally show ?thesis .
qed

lemma shifted_or_i64:
  assumes "0 \<le> r" "r < 2 ^ s" "i64_range w" "(r + b * 2 ^ s - w) mod 2 ^ 64 = 0"
  shows "signed_take_bit 63 (r OR push_bit s b) = w"
  using assms by (simp add: or_push_bit_int signed_take_bit_i64)

lemma septet_int:
  fixes v :: int
  defines "b \<equiv> v mod 128"
  shows "(word_of_int b :: u8) AND 0x7f = word_of_int b"
    and "(word_of_int b OR 0x80 :: u8) AND 0x7f = word_of_int b"
    and "(word_of_int b :: u8) AND 0x80 = 0"
    and "(word_of_int b :: u8) AND 0x40 \<noteq> 0 \<longleftrightarrow> 64 \<le> b"
    and "uint (word_of_int b :: u8) = b"
proof -
  have b: "nat b < 128" "0 \<le> b" "b < 128" by (simp_all add: b_def nat_less_iff)
  then have eq: "(word_of_int b :: u8) = word_of_nat (nat b)" by simp
  show "(word_of_int b :: u8) AND 0x7f = word_of_int b"
    and "(word_of_int b OR 0x80 :: u8) AND 0x7f = word_of_int b"
    and "(word_of_int b :: u8) AND 0x80 = 0"
    and "(word_of_int b :: u8) AND 0x40 \<noteq> 0 \<longleftrightarrow> 64 \<le> b"
    using septet_cases [OF b(1)] b(2) unfolding eq by (simp_all add: le_nat_iff)
  show "uint (word_of_int b :: u8) = b"
    using b by (simp add: uint_word_of_int)
qed

lemma read_write_sleb_loop:
  assumes "has_at buf pos (write_sleb v)" "0 \<le> r" "r < 2 ^ shift" "i64_range (r + v * 2 ^ shift)" "shift \<le> 63" "7 dvd shift"
  shows "read_sleb_loop buf pos r shift = Inr (r + v * 2 ^ shift, pos + length (write_sleb v))"
  using assms
proof (induction v arbitrary: pos r shift rule: write_sleb.induct)
  case (1 v)
  define b where "b = v mod 128"
  have v: "v = b + 128 * (v div 128)" and b: "0 \<le> b" "b < 128" by (simp_all add: b_def)
  note septet = septet_int [of v, folded b_def]
  define r' where "r' = r + b * 2 ^ shift"
  have r': "0 \<le> r'" "r' < 2 ^ (shift + 7)"
    using add_shifted_less [OF "1.prems"(3), of b] b "1.prems"(2) by (simp_all add: r'_def)
  have eq: "r + v * 2 ^ shift = r' + v div 128 * 2 ^ (shift + 7)"
    by (subst v) (simp add: algebra_simps power_add r'_def)
  have last: "shift = 63" if "\<not> shift + 7 < 64"
    using that "1.prems"(5,6) by presburger
  have top: "v = 0 \<or> v = -1" if "shift = 63"
    using "1.prems"(2-4) that by (auto simp: i64_range_def)
  have low: "signed_take_bit 63 (r OR push_bit shift b) = r'" if "shift + 7 < 64"
  proof -
    have "(2 :: int) ^ (shift + 7) \<le> 2 ^ 63" using that by (intro power_increasing) simp_all
    then show ?thesis using r' "1.prems"(2,3) by (intro shifted_or_i64) (simp_all add: i64_range_def r'_def)
  qed
  show ?case
  proof (cases "v div 128 = 0 \<and> b < 64 \<or> v div 128 = -1 \<and> 64 \<le> b")
    case True
    then have w: "write_sleb v = [word_of_int b]"
      using septet(4) by (auto simp: write_sleb.simps [of v] b_def [symmetric] Let_def)
    show ?thesis
    proof (cases "shift + 7 < 64")
      case short: True
      have ext: "signed_take_bit 63 (r' OR push_bit (shift + 7) (-1)) = r + v * 2 ^ shift" if "v div 128 = -1"
        using r' "1.prems"(4) eq that by (intro shifted_or_i64) simp_all
      show ?thesis
        using "1.prems"(1) w True eq ext
        by (subst read_sleb_loop.simps) (auto simp: has_at_Cons septet low [OF short] short)
    next
      case False
      then have "shift = 63" by (rule last)
      moreover from this have "signed_take_bit 63 (r OR push_bit shift b) = r + v * 2 ^ shift"
        using top "1.prems"(2-4) by (intro shifted_or_i64) (auto simp: b_def)
      ultimately show ?thesis
        using "1.prems"(1) w by (subst read_sleb_loop.simps) (simp add: has_at_Cons septet)
    qed
  next
    case False
    then have w: "write_sleb v = (word_of_int b OR 0x80) # write_sleb (v div 128)"
      using septet(4) by (auto simp: write_sleb.simps [of v] b_def [symmetric] Let_def)
    have s: "shift + 7 < 64"
    proof (rule ccontr)
      assume "\<not> shift + 7 < 64"
      with last top have "v = 0 \<or> v = -1" by blast
      with False show False by (auto simp: b_def)
    qed
    from "1.prems"(1) w have at: "pos < length buf" "buf ! pos = word_of_int b OR 0x80" "has_at buf (Suc pos) (write_sleb (v div 128))"
      by (simp_all add: has_at_Cons)
    have "read_sleb_loop buf (Suc pos) r' (shift + 7)
        = Inr (r' + v div 128 * 2 ^ (shift + 7), Suc pos + length (write_sleb (v div 128)))"
      using False at(3) r' "1.prems"(4,6) s septet(4) by (intro "1.IH") (auto simp: b_def [symmetric] eq)
    with at s show ?thesis
      by (subst read_sleb_loop.simps) (simp add: more_bit septet low w eq)
  qed
qed

lemma read_write_sleb: "i64_range v \<Longrightarrow> has_at buf pos (write_sleb v) \<Longrightarrow> read_sleb buf pos = Inr (v, pos + length (write_sleb v))"
  using read_write_sleb_loop [of buf pos v 0 0] by (simp add: read_sleb_def)

section \<open>Codecs\<close>

text \<open>
  The contract of a packed format: what the writer appended is read back, wherever in the buffer it stands, and the
  position ends behind it. Length-prefixed vectors of such values are codecs again.
\<close>

locale codec =
  fixes wr :: "'a \<Rightarrow> u8 list" and rd :: "u8 list \<Rightarrow> nat \<Rightarrow> ('a \<times> nat) res" and ok :: "'a \<Rightarrow> bool"
  assumes rd_wr: "ok v \<Longrightarrow> has_at buf pos (wr v) \<Longrightarrow> rd buf pos = Inr (v, pos + length (wr v))"
    and wr_nonempty: "wr v \<noteq> []"
begin

lemma read_n_items:
  "\<forall>v \<in> set vs. ok v \<Longrightarrow> has_at buf pos (concat (map wr vs)) \<Longrightarrow>
   read_n rd (length vs) buf pos = Inr (vs, pos + length (concat (map wr vs)))"
  by (induction vs arbitrary: pos) (auto simp: has_at_append rd_wr add.assoc)

lemma length_items: "length vs \<le> length (concat (map wr vs))"
proof (induction vs)
  case (Cons v vs)
  have "wr v \<noteq> []" by (rule wr_nonempty)
  with Cons show ?case by (cases "wr v") simp_all
qed simp

lemma read_vec_items:
  assumes "\<forall>v \<in> set vs. ok v" "has_at buf pos (write_vec wr vs)" "length buf < 2 ^ 64"
  shows "read_vec rd buf pos = Inr (vs, pos + length (write_vec wr vs))"
proof -
  have "length vs \<le> length buf"
    using assms(2) length_items [of vs] has_at_le by (fastforce simp: write_vec_def has_at_append)
  then have "length vs < 2 ^ 64" using assms(3) by simp
  then show ?thesis
    using assms(1,2) by (simp add: read_vec_def write_vec_def has_at_append read_write_uleb read_n_items)
qed

lemma unpack_packed: "ok v \<Longrightarrow> rd (pre @ wr v @ post) (length pre) = Inr (v, length pre + length (wr v))"
  by (intro rd_wr has_at_mid)

end

lemma write_uleb_nonempty [simp]: "write_uleb v \<noteq> []"
  by (subst write_uleb.simps) (simp add: Let_def)

lemma write_sleb_nonempty [simp]: "write_sleb v \<noteq> []"
  by (subst write_sleb.simps) (simp add: Let_def)

interpretation uleb: codec write_uleb read_uleb "\<lambda>v. v < 2 ^ 64"
  by unfold_locales (simp_all add: read_write_uleb)

interpretation sleb: codec write_sleb read_sleb i64_range
  by unfold_locales (simp_all add: read_write_sleb)

lemma unat_u64: "unat (w :: u32) < 2 ^ 64" "unat (w' :: u16) < 2 ^ 64"
proof -
  have "unat w < 2 ^ LENGTH(32)" "unat w' < 2 ^ LENGTH(16)" by (rule unsigned_less)+
  then show "unat w < 2 ^ 64" "unat w' < 2 ^ 64" by simp_all
qed

lemma sint_i64: "i64_range (sint (w :: i32))" "i64_range (sint (w' :: i64))"
  using sint_greater_eq [of w] sint_less [of w] sint_greater_eq [of w'] sint_less [of w']
  by (simp_all add: i64_range_def)

lemmas leb_words = read_write_uleb [OF unat_u64(1)] read_write_uleb [OF unat_u64(2)]
  read_write_sleb [OF sint_i64(1)] read_write_sleb [OF sint_i64(2)]

interpretation value_loc: codec value_loc_write value_loc_read "\<lambda>_. True"
proof (unfold_locales, goal_cases)
  case (1 v buf pos)
  then show ?case
    by (cases v) (auto simp: value_loc_read_def has_at_Cons buf_at_def read_u_def read_s_def leb_words)
next
  case (2 v)
  show ?case by (cases v) simp_all
qed

section \<open>Decoding a record\<close>

definition decoded_of :: "u32 list \<Rightarrow> scope_desc \<Rightarrow> decoded_scope" where
  "decoded_of scope_offs scope =
     \<lparr>ds_method_pool_ix = sd_method_pool_ix scope, ds_is_block = sd_is_block scope,
      ds_sender = map_option (\<lambda>l. (scope_offs ! unat (sl_sender l), sl_bci l, sl_pending l)) (sd_sender scope),
      ds_receiver = sd_receiver scope, ds_slots = sd_slots scope, ds_ctx = sd_ctx scope\<rparr>"

lemma scope_flags_read:
  "scope_flags s AND 1 \<noteq> 0 \<longleftrightarrow> sd_sender s \<noteq> None"
  "scope_flags s AND 2 \<noteq> 0 \<longleftrightarrow> sd_is_block s"
  "drop_bit 2 (scope_flags s) AND 3 = ctx_kind (sd_ctx s)"
  by (cases "sd_sender s"; cases "sd_is_block s"; cases "sd_ctx s"; simp add: scope_flags_def)+

lemma site_flags_read:
  "site_flags s AND 1 \<noteq> 0 \<longleftrightarrow> sp_reexecute s"
  "kind_from_bits (drop_bit 1 (site_flags s) AND 7) = Inr (sp_kind s)"
  by (cases "sp_reexecute s"; cases "sp_kind s"; simp add: site_flags_def kind_from_bits_def)+

lemmas value_vec_read = value_loc.read_vec_items [simplified]

lemma ctx_read_write:
  "has_at buf pos (ctx_write c) \<Longrightarrow> length buf < 2 ^ 64 \<Longrightarrow> ctx_read (ctx_kind c) buf pos = Inr (c, pos + length (ctx_write c))"
  by (cases c) (simp_all add: ctx_read_def value_loc.rd_wr value_vec_read)

lemma decode_scope_written:
  assumes "write_scope_record scope offs = Inr bs" "has_at blob (unat off) bs" "length blob < 2 ^ 64"
  shows "decode_scope blob off = Inr (decoded_of offs scope)"
proof -
  note read_back = decode_scope_def decoded_of_def has_at_Cons has_at_append buf_at_def leb_words scope_flags_read value_loc.rd_wr value_vec_read ctx_read_write
  show ?thesis
  proof (cases "sd_sender scope")
    case None
    with assms show ?thesis by (auto simp: read_back write_scope_record_def)
  next
    case (Some link)
    from assms(1) have "bs = scope_flags scope # write_uleb (unat (sd_method_pool_ix scope))
        @ (write_uleb (unat (offs ! unat (sl_sender link))) @ write_uleb (unat (sl_bci link)) @ write_vec value_loc_write (sl_pending link))
        @ value_loc_write (sd_receiver scope) @ write_vec value_loc_write (sd_slots scope) @ ctx_write (sd_ctx scope)"
      by (auto simp: write_scope_record_def Some rbind_Inr_iff offs_at_def guard_res_Inr_iff)
    with assms(2,3) Some show ?thesis by (auto simp: read_back)
  qed
qed

lemma decode_site_written:
  assumes "write_safepoint_record state offs = Inr bs" "has_at blob (unat off) bs" "length blob < 2 ^ 64"
  shows "decode_site blob off =
    Inr \<lparr>de_scope_off = offs ! unat (sp_scope state), de_bci = sp_bci state, de_kind = sp_kind state,
         de_reexecute = sp_reexecute state, de_stack = sp_stack state\<rparr>"
  using assms
  by (auto simp: write_safepoint_record_def decode_site_def offs_at_def guard_res_Inr_iff rbind_Inr_iff
      has_at_Cons has_at_append buf_at_def leb_words site_flags_read [simplified] value_vec_read)

section \<open>Packing\<close>

lemma has_at_extend: "has_at buf pos bs \<Longrightarrow> has_at (buf @ ext) pos bs"
  by (induction bs arbitrary: pos) (auto simp: has_at_Cons nth_append)

lemma has_at_less: "has_at buf pos bs \<Longrightarrow> bs \<noteq> [] \<Longrightarrow> pos < length buf"
  by (cases bs) (simp_all add: has_at_Cons)

lemma write_scope_record_nonempty: "write_scope_record s offs = Inr bs \<Longrightarrow> bs \<noteq> []"
  by (auto simp: write_scope_record_def rbind_Inr_iff)

lemma write_safepoint_record_nonempty: "write_safepoint_record st offs = Inr bs \<Longrightarrow> bs \<noteq> []"
  by (auto simp: write_safepoint_record_def rbind_Inr_iff)

lemma write_scope_record_extend: "write_scope_record s offs = Inr bs \<Longrightarrow> write_scope_record s (offs @ ext) = Inr bs"
  by (auto simp: write_scope_record_def rbind_Inr_iff offs_at_def guard_res_Inr_iff nth_append split: option.splits)

lemma pack_scopes_records:
  assumes "pack_scopes ss blob offs = Inr (blob', offs')"
  shows "\<exists>tail ext. blob' = blob @ tail \<and> offs' = offs @ ext \<and> length ext = length ss \<and>
    (\<forall>i < length ss. \<exists>off bs. ext ! i = word_of_nat off \<and> write_scope_record (ss ! i) offs' = Inr bs \<and> has_at blob' off bs)"
  using assms
proof (induction ss arbitrary: blob offs)
  case (Cons s ss)
  let ?offs = "offs @ [word_of_nat (length blob)]"
  from Cons.prems obtain bs where bs: "write_scope_record s ?offs = Inr bs" "pack_scopes ss (blob @ bs) ?offs = Inr (blob', offs')"
    by (auto simp: Let_def rbind_Inr_iff)
  from Cons.IH [OF bs(2)] obtain tail ext where rest: "blob' = (blob @ bs) @ tail" "offs' = ?offs @ ext" "length ext = length ss"
    "\<forall>i < length ss. \<exists>off bs. ext ! i = word_of_nat off \<and> write_scope_record (ss ! i) offs' = Inr bs \<and> has_at blob' off bs"
    by blast
  have "write_scope_record s offs' = Inr bs" using write_scope_record_extend [OF bs(1)] rest(2) by simp
  moreover have "has_at blob' (length blob) bs" using rest(1) has_at_mid by simp
  ultimately have "\<forall>i < length (s # ss). \<exists>off bs. (word_of_nat (length blob) # ext) ! i = word_of_nat off \<and>
      write_scope_record ((s # ss) ! i) offs' = Inr bs \<and> has_at blob' off bs"
    using rest(4) by (auto simp: less_Suc_eq_0_disj)
  then show ?case
    using rest(1-3) by (intro exI [of _ "bs @ tail"] exI [of _ "word_of_nat (length blob) # ext"]) simp
qed simp

lemma pack_sites_records:
  assumes "pack_sites sites offs blob ps = Inr (blob', ps')"
  shows "\<exists>tail ext. blob' = blob @ tail \<and> ps' = ps @ ext \<and> map pd_code_off ext = map fst sites \<and>
    (\<forall>i < length sites. \<exists>off bs. pd_site_off (ext ! i) = word_of_nat off \<and>
       write_safepoint_record (snd (sites ! i)) offs = Inr bs \<and> has_at blob' off bs)"
  using assms
proof (induction sites arbitrary: blob ps)
  case (Cons site sites)
  obtain code_off st where site: "site = (code_off, st)" by (cases site)
  let ?pd = "\<lparr>pd_code_off = code_off, pd_site_off = word_of_nat (length blob)\<rparr>"
  from Cons.prems obtain bs where bs: "write_safepoint_record st offs = Inr bs" "pack_sites sites offs (blob @ bs) (ps @ [?pd]) = Inr (blob', ps')"
    by (auto simp: site rbind_Inr_iff)
  from Cons.IH [OF bs(2)] obtain tail ext where rest: "blob' = (blob @ bs) @ tail" "ps' = (ps @ [?pd]) @ ext"
    "map pd_code_off ext = map fst sites"
    "\<forall>i < length sites. \<exists>off bs. pd_site_off (ext ! i) = word_of_nat off \<and>
       write_safepoint_record (snd (sites ! i)) offs = Inr bs \<and> has_at blob' off bs"
    by blast
  have "has_at blob' (length blob) bs" using rest(1) has_at_mid by simp
  with bs(1) have "\<forall>i < length (site # sites). \<exists>off bs. pd_site_off ((?pd # ext) ! i) = word_of_nat off \<and>
      write_safepoint_record (snd ((site # sites) ! i)) offs = Inr bs \<and> has_at blob' off bs"
    using rest(4) by (auto simp: less_Suc_eq_0_disj site)
  then show ?case
    using rest(1-3) by (intro exI [of _ "bs @ tail"] exI [of _ "?pd # ext"]) (simp add: site)
qed simp

lemma unat_off: "off < 2 ^ 32 \<Longrightarrow> unat (word_of_nat off :: u32) = off"
  by (simp add: unat_of_nat)

lemma pack_scopes_total:
  "\<forall>i < length ss. \<forall>l. sd_sender (ss ! i) = Some l \<longrightarrow> unat (sl_sender l) \<le> length offs + i \<Longrightarrow>
   \<exists>r. pack_scopes ss blob offs = Inr r"
proof (induction ss arbitrary: blob offs)
  case (Cons s ss)
  have "\<exists>bs. write_scope_record s (offs @ [word_of_nat (length blob)]) = Inr bs"
    using Cons.prems [rule_format, of 0] by (cases "sd_sender s") (simp_all add: write_scope_record_def offs_at_def)
  then obtain bs where "write_scope_record s (offs @ [word_of_nat (length blob)]) = Inr bs" ..
  moreover have "\<exists>r. pack_scopes ss (blob @ bs) (offs @ [word_of_nat (length blob)]) = Inr r"
    using Cons.prems by (intro Cons.IH) fastforce
  ultimately show ?case by (simp add: Let_def)
qed simp

lemma pack_sites_total:
  "\<forall>site \<in> set sites. unat (sp_scope (snd site)) < length offs \<Longrightarrow> \<exists>r. pack_sites sites offs blob ps = Inr r"
  by (induction sites arbitrary: blob ps) (auto simp: write_safepoint_record_def offs_at_def)

section \<open>Searching the pc table\<close>

lemma search_loop_finds:
  assumes "sorted keys" "0 < n" "base + n \<le> length keys" "base \<le> i" "i < base + n" "keys ! i = key"
  shows "keys ! search_loop keys key base n = key"
  using assms
proof (induction n arbitrary: base i rule: less_induct)
  case (less n)
  show ?case
  proof (cases "n \<le> 1")
    case True
    with less.prems have "i = base" by linarith
    with True less.prems(6) show ?thesis by (subst search_loop.simps) simp
  next
    case False
    define mid where "mid = base + n div 2"
    define base' where "base' = (if key < keys ! mid then base else mid)"
    have half: "0 < n div 2" "n div 2 \<le> n - n div 2" "n div 2 < n" and mid: "mid < length keys"
      using False less.prems(3) by (auto simp: mid_def)
    have step: "search_loop keys key base n = search_loop keys key base' (n - n div 2)"
      using False by (subst search_loop.simps) (simp add: Let_def mid_def base'_def)
    have "\<exists>j. base' \<le> j \<and> j < base' + (n - n div 2) \<and> keys ! j = key"
    proof (cases "key < keys ! mid")
      case True
      then have "i < mid" using sorted_nth_mono [OF less.prems(1), of mid i] less.prems(3,5,6) by (metis not_le less_le_trans)
      then show ?thesis using True less.prems(4,6) half by (intro exI [of _ i]) (auto simp: base'_def mid_def)
    next
      case False
      show ?thesis
      proof (cases "mid \<le> i")
        case True
        then show ?thesis using False less.prems(5,6) half by (intro exI [of _ i]) (auto simp: base'_def mid_def)
      next
        case before: False
        then have "keys ! mid = key" using sorted_nth_mono [OF less.prems(1), of i mid] mid False less.prems(6) by auto
        then show ?thesis using False half by (intro exI [of _ mid]) (auto simp: base'_def)
      qed
    qed
    then obtain j where j: "base' \<le> j" "j < base' + (n - n div 2)" "keys ! j = key" by blast
    show ?thesis
      unfolding step using half less.prems(1,3) j by (intro less.IH [of _ _ j]) (auto simp: base'_def mid_def)
  qed
qed

lemma search_loop_bound: "0 < n \<Longrightarrow> search_loop keys key base n < base + n"
proof (induction keys key base n rule: search_loop.induct)
  case (1 keys key base n)
  show ?case
  proof (cases "n \<le> 1")
    case True
    with "1.prems" show ?thesis by (subst search_loop.simps) simp
  next
    case False
    let ?base = "if key < keys ! (base + n div 2) then base else base + n div 2"
    have "search_loop keys key ?base (n - n div 2) < ?base + (n - n div 2)"
      using False by (intro "1.IH") simp_all
    with False show ?thesis by (subst search_loop.simps) (auto simp: Let_def split: if_splits)
  qed
qed

lemma binary_search_Some: "binary_search_by_key keys key = Some i \<Longrightarrow> i < length keys \<and> keys ! i = key"
  using search_loop_bound [of "length keys" keys key 0]
  by (auto simp: binary_search_by_key_def Let_def split: if_splits)

lemma binary_search_finds: "sorted keys \<Longrightarrow> key \<in> set keys \<Longrightarrow> \<exists>i. binary_search_by_key keys key = Some i"
  using search_loop_finds [of keys "length keys" 0] by (auto simp: binary_search_by_key_def in_set_conv_nth)

lemma pc_desc_find_hit:
  assumes "pd \<in> set descs" "distinct (map pd_code_off descs)"
  shows "pc_desc_find (sort_key pd_code_off descs) (pd_code_off pd) = Inr pd"
proof -
  let ?ds = "sort_key pd_code_off descs"
  have mem: "pd \<in> set ?ds" and inj: "inj_on pd_code_off (set ?ds)" using assms by (simp_all add: distinct_map)
  then obtain i where "binary_search_by_key (map pd_code_off ?ds) (pd_code_off pd) = Some i"
    using binary_search_finds [of "map pd_code_off ?ds" "pd_code_off pd"] by auto
  moreover from binary_search_Some [OF this] have i: "i < length ?ds" "pd_code_off (?ds ! i) = pd_code_off pd" by auto
  then have "?ds ! i = pd" using inj mem nth_mem [OF i(1)] by (auto dest: inj_onD)
  ultimately show ?thesis by (simp add: pc_desc_find_def)
qed

lemma pc_desc_find_miss:
  assumes "code_off \<notin> pd_code_off ` set descs"
  shows "pc_desc_find (sort_key pd_code_off descs) code_off = Inl Explicit_panic"
proof (cases "binary_search_by_key (map pd_code_off (sort_key pd_code_off descs)) code_off")
  case None
  then show ?thesis by (simp add: pc_desc_find_def)
next
  case (Some i)
  from binary_search_Some [OF Some]
  have "i < length (sort_key pd_code_off descs)" "code_off = pd_code_off (sort_key pd_code_off descs ! i)" by auto
  then have "code_off \<in> pd_code_off ` set (sort_key pd_code_off descs)" using nth_mem by blast
  with assms show ?thesis by simp
qed

section \<open>Recorders the compiler builds\<close>

inductive recorded :: "recorder \<Rightarrow> bool" where
  recorded_new: "recorded recorder_new"
| recorded_scope: "recorded r \<Longrightarrow> begin_scope r data = Inr (r', scope_id) \<Longrightarrow> recorded r'"
| recorded_site: "recorded r \<Longrightarrow> record_site r code_off state = Inr r' \<Longrightarrow> recorded r'"

definition recorder_inv :: "recorder \<Rightarrow> bool" where
  "recorder_inv r \<longleftrightarrow>
     (\<forall>i < length (rc_scopes r). \<forall>l. sd_sender (rc_scopes r ! i) = Some l \<longrightarrow> unat (sl_sender l) < i) \<and>
     (\<forall>site \<in> set (rc_sites r). unat (sp_scope (snd site)) < length (rc_scopes r))"

lemma recorded_inv: "recorded r \<Longrightarrow> recorder_inv r"
proof (induction rule: recorded.induct)
  case (recorded_scope r data r' scope_id)
  then have r': "rc_scopes r' = rc_scopes r @ [data]" "rc_sites r' = rc_sites r"
    and data: "\<forall>l. sd_sender data = Some l \<longrightarrow> unat (sl_sender l) < length (rc_scopes r)"
    by (auto simp: begin_scope_def guard_res_Inr_iff)
  show ?case
    using recorded_scope.IH data by (auto simp: recorder_inv_def r' nth_append less_Suc_eq)
qed (auto simp: recorder_inv_def recorder_new_def record_site_def guard_res_Inr_iff)

text \<open>What a scope says, apart from where its sender is stored; and a site's virtual frames, innermost first.\<close>

definition recorded_view :: "scope_desc \<Rightarrow> decoded_scope" where
  "recorded_view s = decoded_of [] s\<lparr>ds_sender := map_option (\<lambda>l. (0, sl_bci l, sl_pending l)) (sd_sender s)\<rparr>"

definition decoded_view :: "decoded_scope \<Rightarrow> decoded_scope" where
  "decoded_view d = d\<lparr>ds_sender := map_option (\<lambda>(_, bci, pending). (0, bci, pending)) (ds_sender d)\<rparr>"

function sender_chain :: "scope_desc list \<Rightarrow> nat \<Rightarrow> scope_desc list" where
  "sender_chain ss i =
     ss ! i # (case sd_sender (ss ! i) of
                 None \<Rightarrow> []
               | Some l \<Rightarrow> if unat (sl_sender l) < i then sender_chain ss (unat (sl_sender l)) else [])"
  by pat_completeness auto
termination
  by (relation "measure snd") auto

declare sender_chain.simps [simp del]

lemma decoded_view_decoded_of: "decoded_view (decoded_of offs s) = recorded_view s"
  by (cases "sd_sender s") (simp_all add: decoded_view_def recorded_view_def decoded_of_def)

lemma scope_chain_recorded:
  assumes "\<forall>i < length ss. decode_scope blob (offs ! i) = Inr (decoded_of offs (ss ! i))"
    and "\<forall>i < length ss. \<forall>l. sd_sender (ss ! i) = Some l \<longrightarrow> unat (sl_sender l) < i"
  shows "i < length ss \<Longrightarrow> scope_chain_from blob (Some (offs ! i)) = Some (Inr (map (decoded_of offs) (sender_chain ss i)))"
proof (induction i rule: less_induct)
  case (less i)
  note step = scope_chain_from.simps [of blob "Some (offs ! i)"] scope_chain_next_def
  show ?case
  proof (cases "sd_sender (ss ! i)")
    case None
    then show ?thesis
      using assms(1) less.prems
      by (simp add: step sender_chain.simps [of ss i] decoded_of_def scope_chain_from.simps [of blob None])
  next
    case (Some l)
    then have l: "unat (sl_sender l) < i" using assms(2) less.prems by blast
    then have "scope_chain_from blob (Some (offs ! unat (sl_sender l)))
        = Some (Inr (map (decoded_of offs) (sender_chain ss (unat (sl_sender l)))))"
      using less.IH less.prems by simp
    then show ?thesis
      using assms(1) less.prems Some l by (simp add: step sender_chain.simps [of ss i]) (simp add: decoded_of_def Some)
  qed
qed

lemma recorder_pack_total: "recorder_inv r \<Longrightarrow> \<exists>blob descs. recorder_pack r = Inr (blob, descs)"
proof -
  assume inv: "recorder_inv r"
  then have "\<exists>q. pack_scopes (rc_scopes r) [] [] = Inr q"
    by (intro pack_scopes_total) (auto simp: recorder_inv_def intro: less_imp_le)
  then obtain blob offs where p: "pack_scopes (rc_scopes r) [] [] = Inr (blob, offs)" by auto
  then have "length offs = length (rc_scopes r)" using pack_scopes_records by fastforce
  then have "\<exists>q. pack_sites (rc_sites r) offs blob [] = Inr q"
    using inv by (intro pack_sites_total) (auto simp: recorder_inv_def)
  with p show ?thesis by (auto simp: recorder_pack_def)
qed

text \<open>What a packed recorder holds: every scope and every site can be decoded at its offset.\<close>

lemma recorder_pack_records:
  assumes "recorder_pack r = Inr (blob, descs)" "length blob < 2 ^ 32"
  obtains offs ps where
    "descs = sort_key pd_code_off ps" "map pd_code_off ps = map fst (rc_sites r)"
    "\<forall>i < length (rc_scopes r). decode_scope blob (offs ! i) = Inr (decoded_of offs (rc_scopes r ! i))"
    "\<forall>i < length (rc_sites r). \<exists>bs. write_safepoint_record (snd (rc_sites r ! i)) offs = Inr bs \<and>
       has_at blob (unat (pd_site_off (ps ! i))) bs"
proof -
  from assms(1) obtain blob0 offs ps where p: "pack_scopes (rc_scopes r) [] [] = Inr (blob0, offs)"
      "pack_sites (rc_sites r) offs blob0 [] = Inr (blob, ps)" "descs = sort_key pd_code_off ps"
    by (auto simp: recorder_pack_def rbind_Inr_iff)
  from pack_scopes_records [OF p(1)] have sc: "\<forall>i < length (rc_scopes r). \<exists>off bs. offs ! i = word_of_nat off \<and>
      write_scope_record (rc_scopes r ! i) offs = Inr bs \<and> has_at blob0 off bs"
    by auto
  from pack_sites_records [OF p(2)] obtain tail where st: "blob = blob0 @ tail" "map pd_code_off ps = map fst (rc_sites r)"
      "\<forall>i < length (rc_sites r). \<exists>off bs. pd_site_off (ps ! i) = word_of_nat off \<and>
         write_safepoint_record (snd (rc_sites r ! i)) offs = Inr bs \<and> has_at blob off bs"
    by auto
  have at: "has_at blob (unat (word_of_nat off :: u32)) bs" if "has_at blob off bs" "bs \<noteq> []" for off bs
    using that has_at_less [OF that] assms(2) by (simp add: unat_off)
  have "\<forall>i < length (rc_scopes r). decode_scope blob (offs ! i) = Inr (decoded_of offs (rc_scopes r ! i))"
  proof (intro allI impI)
    fix i
    assume "i < length (rc_scopes r)"
    then obtain off bs where off: "offs ! i = word_of_nat off" "write_scope_record (rc_scopes r ! i) offs = Inr bs" "has_at blob0 off bs"
      using sc by blast
    have "has_at blob (unat (offs ! i)) bs"
      unfolding off(1) using off(3) write_scope_record_nonempty [OF off(2)] by (intro at) (simp_all add: st(1) has_at_extend)
    with off(2) show "decode_scope blob (offs ! i) = Inr (decoded_of offs (rc_scopes r ! i))"
      using assms(2) by (intro decode_scope_written) simp_all
  qed
  moreover have "\<forall>i < length (rc_sites r). \<exists>bs. write_safepoint_record (snd (rc_sites r ! i)) offs = Inr bs \<and>
       has_at blob (unat (pd_site_off (ps ! i))) bs"
    using st(3) at write_safepoint_record_nonempty by metis
  ultimately show thesis using that p(3) st(2) by blast
qed

lemma packed_site_recovered:
  assumes "recorder_inv r" "distinct (map fst (rc_sites r))" "(code_off, st) \<in> set (rc_sites r)"
    and "recorder_pack r = Inr (blob, descs)" "length blob < 2 ^ 32"
  shows "\<exists>d ds. at_parts blob descs code_off = Inr d \<and>
      de_bci (dp_site d) = sp_bci st \<and> de_kind (dp_site d) = sp_kind st \<and>
      de_reexecute (dp_site d) = sp_reexecute st \<and> de_stack (dp_site d) = sp_stack st \<and>
      scopes d = Some (Inr ds) \<and> map decoded_view ds = map recorded_view (sender_chain (rc_scopes r) (unat (sp_scope st)))"
proof -
  obtain offs ps where packed: "descs = sort_key pd_code_off ps" "map pd_code_off ps = map fst (rc_sites r)"
    "\<forall>i < length (rc_scopes r). decode_scope blob (offs ! i) = Inr (decoded_of offs (rc_scopes r ! i))"
    "\<forall>i < length (rc_sites r). \<exists>bs. write_safepoint_record (snd (rc_sites r ! i)) offs = Inr bs \<and>
       has_at blob (unat (pd_site_off (ps ! i))) bs"
    using recorder_pack_records [OF assms(4,5)] by blast
  from assms(3) obtain i where i: "i < length (rc_sites r)" "rc_sites r ! i = (code_off, st)"
    by (auto simp: in_set_conv_nth)
  have "length ps = length (rc_sites r)" using packed(2) map_eq_imp_length_eq by blast
  moreover from this have "pd_code_off (ps ! i) = code_off" using packed(2) i by (metis fst_conv nth_map)
  ultimately have "pc_desc_find descs code_off = Inr (ps ! i)"
    using packed(1,2) assms(2) i(1) pc_desc_find_hit [of "ps ! i" ps] by simp
  moreover obtain bs where "write_safepoint_record st offs = Inr bs" "has_at blob (unat (pd_site_off (ps ! i))) bs"
    using packed(4) i by fastforce
  ultimately have at: "at_parts blob descs code_off = Inr \<lparr>dp_blob = blob, dp_site =
      \<lparr>de_scope_off = offs ! unat (sp_scope st), de_bci = sp_bci st, de_kind = sp_kind st,
       de_reexecute = sp_reexecute st, de_stack = sp_stack st\<rparr>\<rparr>"
    using assms(5) by (simp add: at_parts_def decode_site_written)
  have "unat (sp_scope st) < length (rc_scopes r)" using assms(1,3) by (fastforce simp: recorder_inv_def)
  then have "scope_chain_from blob (Some (offs ! unat (sp_scope st)))
      = Some (Inr (map (decoded_of offs) (sender_chain (rc_scopes r) (unat (sp_scope st)))))"
    using packed(3) assms(1) by (intro scope_chain_recorded) (simp_all add: recorder_inv_def)
  with at show ?thesis by (simp add: scopes_def decoded_view_decoded_of)
qed

section \<open>On-stack-replacement slots\<close>

definition osr_dst_ok :: "osr_slot \<Rightarrow> bool" where
  "osr_dst_ok s \<longleftrightarrow> - (2 ^ 31) < sint (os_dst_frame_off s) \<and> sint (os_dst_frame_off s) < 0"

definition osr_slot_bytes :: "osr_slot \<Rightarrow> u8 list" where
  "osr_slot_bytes s = osr_source_write (os_src s) @ write_uleb (nat (- sint (os_dst_frame_off s)))"

lemma sint_neg_i32: "sint d \<noteq> - (2 ^ 31) \<Longrightarrow> sint (- d) = - sint d" for d :: i32
proof -
  assume "sint d \<noteq> - (2 ^ 31)"
  then have "- (2 ^ 31) \<le> - sint d" "- sint d < 2 ^ 31"
    using sint_greater_eq [of d] sint_less [of d] by simp_all
  then have "signed_take_bit 31 (- sint d) = - sint d" by (intro signed_take_bit_int_eq_self) simp_all
  moreover have "sint (word_of_int (- sint d) :: i32) = signed_take_bit (LENGTH(32) - 1) (- sint d)"
    by (rule sint_sbintrunc')
  ultimately show "sint (- d) = - sint d" by simp
qed

lemma osr_slot_write_ok: "osr_slot_write s = Inr bs \<longleftrightarrow> osr_dst_ok s \<and> bs = osr_slot_bytes s"
  using sint_greater_eq [of "os_dst_frame_off s"] sint_neg_i32 [of "os_dst_frame_off s"]
  by (auto simp: osr_slot_write_def osr_dst_ok_def osr_slot_bytes_def neg_i32_def guard_res_def i32_as_u64_def)

interpretation osr_slot: codec osr_slot_bytes osr_slot_read osr_dst_ok
proof (unfold_locales, goal_cases)
  case (1 s buf pos)
  let ?d = "os_dst_frame_off s"
  have d: "nat (- sint ?d) < 2 ^ 64" "word_of_nat (nat (- sint ?d)) = - ?d" "neg_i32 (- ?d) = Inr ?d"
    using "1"(1) sint_neg_i32 [of ?d] by (auto simp: osr_dst_ok_def neg_i32_def nat_less_iff)
  have tag: "osr_source_read buf pos = Inr (os_src s, pos + length (osr_source_write (os_src s)))"
    using "1"(2) read_write_uleb [of 0] read_write_uleb [of 1] read_write_uleb [of 2] read_write_uleb [of 3]
    by (cases "os_src s") (auto simp: osr_source_read_def osr_slot_bytes_def has_at_append leb_words read_u_def)
  have "has_at buf (pos + length (osr_source_write (os_src s))) (write_uleb (nat (- sint ?d)))"
    using "1"(2) by (simp add: osr_slot_bytes_def has_at_append)
  from read_write_uleb [OF d(1) this] show ?case
    by (simp add: osr_slot_read_def tag d(2,3) osr_slot_bytes_def)
next
  case (2 s)
  show ?case by (simp add: osr_slot_bytes_def)
qed

lemma osr_pack_ok:
  "osr_pack m = Inr bs \<longleftrightarrow> (\<forall>s \<in> set (om_slots m). osr_dst_ok s) \<and>
     bs = write_uleb (unat (om_osr_bci m)) @ write_uleb (unat (om_entry_off m)) @ write_uleb (unat (om_frame_words m))
          @ write_vec osr_slot_bytes (om_slots m)"
proof -
  have "res_map osr_slot_write ss = Inr bss \<longleftrightarrow> (\<forall>s \<in> set ss. osr_dst_ok s) \<and> bss = map osr_slot_bytes ss" for ss bss
    by (induction ss arbitrary: bss) (auto simp: rbind_Inr_iff osr_slot_write_ok)
  then show ?thesis by (auto simp: osr_pack_def rbind_Inr_iff write_vec_def)
qed

section \<open>Properties\<close>

text \<open>
  C20: deoptimisation metadata survives packing. Whatever scopes and sites the compiler recorded (\<open>begin_scope\<close>,
  \<open>record_site\<close>), packing never stops; and if the blob stays below 4 GiB and no two sites share a code offset, then
  looking up the code offset of a recorded site answers exactly the recorded bci, kind, re-execute flag and operand
  stack, and the scope walk ends at a root after decoding exactly the recorded chain of virtual frames, innermost
  first, with every method, receiver, slot, context and pending stack.\<close>

theorem recorded_site_recovered:
  assumes "recorded r" "distinct (map fst (rc_sites r))" "(code_off, st) \<in> set (rc_sites r)"
  shows "\<exists>blob descs. recorder_pack r = Inr (blob, descs) \<and>
    (length blob < 2 ^ 32 \<longrightarrow>
      (\<exists>d ds. at_parts blob descs code_off = Inr d \<and>
        de_bci (dp_site d) = sp_bci st \<and> de_kind (dp_site d) = sp_kind st \<and>
        de_reexecute (dp_site d) = sp_reexecute st \<and> de_stack (dp_site d) = sp_stack st \<and>
        scopes d = Some (Inr ds) \<and> map decoded_view ds = map recorded_view (sender_chain (rc_scopes r) (unat (sp_scope st)))))"
  using recorder_pack_total packed_site_recovered recorded_inv assms by metis

definition root_scope :: scope_desc where
  "root_scope = \<lparr>sd_method_pool_ix = 0, sd_is_block = False, sd_sender = None, sd_receiver = FrameSlot (- 8),
     sd_slots = [ConstSmi (- 1)], sd_ctx = Materialized (FrameSlot (- 16))\<rparr>"

definition inlined_scope :: scope_desc where
  "inlined_scope = \<lparr>sd_method_pool_ix = 300, sd_is_block = True,
     sd_sender = Some \<lparr>sl_sender = 0, sl_bci = 7, sl_pending = [NilLoc]\<rparr>, sd_receiver = ConstPool 2, sd_slots = [],
     sd_ctx = Elided [DoubleSlot (- 24)]\<rparr>"

definition trap_state :: safepoint_state where
  "trap_state = \<lparr>sp_scope = 1, sp_bci = 12, sp_kind = UncommonTrap, sp_reexecute = True, sp_stack = [ElidedClosure 5]\<rparr>"

definition call_state :: safepoint_state where
  "call_state = \<lparr>sp_scope = 0, sp_bci = 3, sp_kind = Call, sp_reexecute = False, sp_stack = []\<rparr>"

definition example_recorder :: recorder where
  "example_recorder = \<lparr>rc_scopes = [root_scope, inlined_scope], rc_sites = [(64, trap_state), (32, call_state)]\<rparr>"

lemmas example_defs = example_recorder_def root_scope_def inlined_scope_def trap_state_def call_state_def

lemma example_recorded: "recorded example_recorder"
proof -
  note step = begin_scope_def record_site_def recorder_new_def
  have "recorded \<lparr>rc_scopes = [root_scope], rc_sites = []\<rparr>"
    by (rule recorded_scope [OF recorded_new, of root_scope _ 0]) (simp add: step root_scope_def)
  then have "recorded \<lparr>rc_scopes = [root_scope, inlined_scope], rc_sites = []\<rparr>"
    by (rule recorded_scope [of _ inlined_scope _ 1]) (simp add: step inlined_scope_def)
  then have "recorded \<lparr>rc_scopes = [root_scope, inlined_scope], rc_sites = [(64, trap_state)]\<rparr>"
    by (rule recorded_site [of _ 64 trap_state]) (simp add: step trap_state_def)
  then show ?thesis
    by (rule recorded_site [of _ 32 call_state]) (simp add: step call_state_def example_recorder_def)
qed

theorem recorded_site_recovered_witness:
  "recorded example_recorder \<and> distinct (map fst (rc_sites example_recorder)) \<and> (64, trap_state) \<in> set (rc_sites example_recorder) \<and>
   (\<exists>blob descs. recorder_pack example_recorder = Inr (blob, descs) \<and> length blob = 32 \<and>
     (\<exists>d ds. at_parts blob descs 64 = Inr d \<and> de_bci (dp_site d) = 12 \<and> de_stack (dp_site d) = [ElidedClosure 5] \<and>
        scopes d = Some (Inr ds) \<and> map decoded_view ds = map recorded_view [inlined_scope, root_scope]))"
proof -
  have hyps: "distinct (map fst (rc_sites example_recorder))" "(64, trap_state) \<in> set (rc_sites example_recorder)"
    by (simp_all add: example_recorder_def)
  have len: "(case recorder_pack example_recorder of Inr (blob, _) \<Rightarrow> length blob | Inl _ \<Rightarrow> 0) = 32" by code_simp
  have chain: "sender_chain (rc_scopes example_recorder) (unat (sp_scope trap_state)) = [inlined_scope, root_scope]"
    by (simp add: sender_chain.simps example_defs)
  obtain blob descs where blob: "recorder_pack example_recorder = Inr (blob, descs)"
    and rest: "length blob < 2 ^ 32 \<longrightarrow> (\<exists>d ds. at_parts blob descs 64 = Inr d \<and>
        de_bci (dp_site d) = sp_bci trap_state \<and> de_kind (dp_site d) = sp_kind trap_state \<and>
        de_reexecute (dp_site d) = sp_reexecute trap_state \<and> de_stack (dp_site d) = sp_stack trap_state \<and>
        scopes d = Some (Inr ds) \<and>
        map decoded_view ds = map recorded_view (sender_chain (rc_scopes example_recorder) (unat (sp_scope trap_state))))"
    using recorded_site_recovered [OF example_recorded hyps] by blast
  moreover have "length blob = 32" using len blob by simp
  ultimately show ?thesis using example_recorded hyps chain by (auto simp: trap_state_def)
qed

text \<open>A code offset at which nothing was recorded is never answered by a neighbouring site: the look-up stops the VM.\<close>

lemma unrecorded_pc_stops:
  assumes "recorder_pack r = Inr (blob, descs)" "code_off \<notin> fst ` set (rc_sites r)"
  shows "at_parts blob descs code_off = Inl Explicit_panic"
proof -
  from assms(1) obtain blob0 offs ps where p: "pack_sites (rc_sites r) offs blob0 [] = Inr (blob, ps)" "descs = sort_key pd_code_off ps"
    by (auto simp: recorder_pack_def rbind_Inr_iff)
  have "map pd_code_off ps = map fst (rc_sites r)" using pack_sites_records [OF p(1)] by auto
  then have "pd_code_off ` set ps = fst ` set (rc_sites r)" by (metis list.set_map)
  then show ?thesis using assms(2) p(2) pc_desc_find_miss [of code_off ps] by (simp add: at_parts_def)
qed

text \<open>The on-stack-replacement map survives packing. Packing succeeds exactly for maps whose destinations all lie
  below the frame pointer (and are not \<open>i32::MIN\<close>, whose negation overflows), and then unpacking gives the map back.\<close>

lemma osr_map_round_trip:
  assumes "length (om_slots m) < 2 ^ 64"
  shows "(\<forall>bs. osr_pack m = Inr bs \<longrightarrow> osr_unpack bs = Inr m) \<and>
    ((\<exists>bs. osr_pack m = Inr bs) \<longleftrightarrow>
      (\<forall>s \<in> set (om_slots m). - (2 ^ 31) < sint (os_dst_frame_off s) \<and> sint (os_dst_frame_off s) < 0))"
proof (intro conjI allI impI)
  fix bs
  assume "osr_pack m = Inr bs"
  then have slots: "\<forall>s \<in> set (om_slots m). osr_dst_ok s"
    and bs: "bs = write_uleb (unat (om_osr_bci m)) @ write_uleb (unat (om_entry_off m)) @ write_uleb (unat (om_frame_words m))
        @ write_uleb (length (om_slots m)) @ concat (map osr_slot_bytes (om_slots m))"
    by (simp_all add: osr_pack_ok write_vec_def)
  have "has_at bs 0 bs" by (simp add: has_at_def)
  then have "has_at bs 0 (write_uleb (unat (om_osr_bci m)) @ write_uleb (unat (om_entry_off m)) @ write_uleb (unat (om_frame_words m))
        @ write_uleb (length (om_slots m)) @ concat (map osr_slot_bytes (om_slots m)))"
    using bs by simp
  then show "osr_unpack bs = Inr m"
    using slots assms
    by (auto simp: osr_unpack_def has_at_append leb_words read_vec_def read_write_uleb osr_slot.read_n_items)
qed (auto simp: osr_pack_ok osr_dst_ok_def)

definition example_osr_map :: osr_map where
  "example_osr_map = \<lparr>om_osr_bci = 40, om_entry_off = 0x1000, om_frame_words = 3,
     om_slots = [\<lparr>os_src = OsrReceiver, os_dst_frame_off = - 8\<rparr>, \<lparr>os_src = OsrStack 2, os_dst_frame_off = - 1024\<rparr>]\<rparr>"

end
