(* ===== verification/RegAlloc.thy ===== *)
theory RegAlloc
  imports Prelude "HOL-Library.Multiset"
begin

text \<open>
  The linear-scan register allocator (\<open>src/src/compiler/regalloc.rs\<close>: \<open>allocate\<close>, \<open>verify_spill_all\<close> and
  \<open>assign_residents\<close>), working on live intervals. Positions, virtual registers and machine registers are naturals;
  a spill slot is the \<open>u16\<close> truncation the source writes. The interval slice is a list addressed by index, and a
  closure that mutates it takes and answers the list.
\<close>

section \<open>Intervals\<close>

datatype assignment = Reg nat | Spill nat

record live_interval =
  iv_vreg :: nat
  iv_start :: nat
  iv_end :: nat
  iv_is_oop :: bool
  iv_is_fp :: bool
  iv_crosses_safepoint :: bool
  iv_crosses_call :: bool
  iv_assignment :: "assignment option"
  iv_resident_reg :: "nat option"

definition NUM_ALLOCATABLE_REGS :: nat where
  "NUM_ALLOCATABLE_REGS = 16"

definition NUM_FP_ALLOCATABLE_REGS :: nat where
  "NUM_FP_ALLOCATABLE_REGS = 8"

section \<open>Linear scan\<close>

text \<open>One register file: the indices of the intervals that hold a register now, and the free registers.\<close>

record reg_file =
  rf_active :: "nat list"
  rf_free :: "nat list"

record scan_state =
  sc_intervals :: "live_interval list"
  sc_slot_is_oop :: "bool list"
  sc_gpr :: reg_file
  sc_fp :: reg_file

definition assign :: "nat \<Rightarrow> assignment \<Rightarrow> live_interval list \<Rightarrow> live_interval list" where
  "assign i a ivs = ivs[i := (ivs ! i)\<lparr>iv_assignment := Some a\<rparr>]"

definition spill :: "nat \<Rightarrow> live_interval list \<times> bool list \<Rightarrow> live_interval list \<times> bool list" where
  "spill i = (\<lambda>(ivs, slot_is_oop).
     (assign i (Spill (length slot_is_oop mod 2 ^ 16)) ivs, slot_is_oop @ [iv_is_oop (ivs ! i)]))"

definition spill_crossing :: "live_interval list \<Rightarrow> live_interval list \<times> bool list" where
  "spill_crossing ivs =
     fold (\<lambda>i s. if iv_crosses_safepoint (fst s ! i) then spill i s else s) [0..<length ivs] (ivs, [])"

definition held_reg :: "live_interval list \<Rightarrow> nat \<Rightarrow> nat list" where
  "held_reg ivs j = (case iv_assignment (ivs ! j) of Some (Reg r) \<Rightarrow> [r] | _ \<Rightarrow> [])"

definition expire :: "live_interval list \<Rightarrow> nat \<Rightarrow> reg_file \<Rightarrow> reg_file" where
  "expire ivs start f =
     \<lparr>rf_active = filter (\<lambda>j. \<not> iv_end (ivs ! j) < start) (rf_active f),
      rf_free = rf_free f @ concat (map (held_reg ivs) (filter (\<lambda>j. iv_end (ivs ! j) < start) (rf_active f)))\<rparr>"

text \<open>\<open>Iterator::max_by_key\<close> over \<open>enumerate\<close>: of several maxima the last one.\<close>

fun max_by_key :: "('a \<Rightarrow> nat) \<Rightarrow> (nat \<times> 'a) list \<Rightarrow> (nat \<times> 'a) option" where
  "max_by_key key [] = None"
| "max_by_key key (x # xs) =
     (case max_by_key key xs of
        None \<Rightarrow> Some x
      | Some y \<Rightarrow> if key (snd x) \<le> key (snd y) then Some y else Some x)"

definition remove_at :: "nat \<Rightarrow> 'a list \<Rightarrow> 'a list" where
  "remove_at k xs = take k xs @ drop (Suc k) xs"

definition scan_interval ::
    "nat \<Rightarrow> live_interval list \<times> bool list \<Rightarrow> reg_file \<Rightarrow> ((live_interval list \<times> bool list) \<times> reg_file) res" where
  "scan_interval i = (\<lambda>(ivs, slot_is_oop) f0.
     let f = expire ivs (iv_start (ivs ! i)) f0; act = rf_active f; free = rf_free f in
       if free \<noteq> [] then
         Inr ((assign i (Reg (last free)) ivs, slot_is_oop), \<lparr>rf_active = act @ [i], rf_free = butlast free\<rparr>)
       else
         rbind (expect (max_by_key (\<lambda>j. iv_end (ivs ! j)) (enumerate 0 act))) (\<lambda>(pos_in_active, furthest).
           if iv_end (ivs ! i) < iv_end (ivs ! furthest) then
             (case iv_assignment (ivs ! furthest) of
                Some (Reg r) \<Rightarrow>
                  (let s = spill furthest (ivs, slot_is_oop)
                   in Inr ((assign i (Reg r) (fst s), snd s), \<lparr>rf_active = remove_at pos_in_active act @ [i], rf_free = free\<rparr>))
              | _ \<Rightarrow> Inl Explicit_panic)
           else Inr (spill i (ivs, slot_is_oop), f)))"

definition scan_step :: "nat \<Rightarrow> scan_state \<Rightarrow> scan_state res" where
  "scan_step i s =
     (if iv_is_fp (sc_intervals s ! i)
      then rbind (scan_interval i (sc_intervals s, sc_slot_is_oop s) (sc_fp s)) (\<lambda>((ivs, so), f).
             Inr (s\<lparr>sc_intervals := ivs, sc_slot_is_oop := so, sc_fp := f\<rparr>))
      else rbind (scan_interval i (sc_intervals s, sc_slot_is_oop s) (sc_gpr s)) (\<lambda>((ivs, so), f).
             Inr (s\<lparr>sc_intervals := ivs, sc_slot_is_oop := so, sc_gpr := f\<rparr>)))"

fun scan :: "nat list \<Rightarrow> scan_state \<Rightarrow> scan_state res" where
  "scan [] s = Inr s"
| "scan (i # order) s = rbind (scan_step i s) (scan order)"

definition is_reg :: "assignment option \<Rightarrow> bool" where
  "is_reg a = (case a of Some (Reg _) \<Rightarrow> True | _ \<Rightarrow> False)"

definition verify_spill_all :: "live_interval list \<Rightarrow> unit res" where
  "verify_spill_all ivs =
     guard_res (list_all (\<lambda>iv. \<not> (iv_crosses_safepoint iv \<and> is_reg (iv_assignment iv))) ivs) Assert_failed (Inr ())"

definition allocate :: "live_interval list \<Rightarrow> (live_interval list \<times> nat \<times> bool list) res" where
  "allocate intervals =
     (let (ivs, slot_is_oop) = spill_crossing intervals;
          order = sort_key (\<lambda>i. iv_start (ivs ! i)) (filter (\<lambda>i. iv_assignment (ivs ! i) = None) [0..<length ivs]) in
        rbind (scan order \<lparr>sc_intervals = ivs, sc_slot_is_oop = slot_is_oop,
                 sc_gpr = \<lparr>rf_active = [], rf_free = rev [0..<NUM_ALLOCATABLE_REGS]\<rparr>,
                 sc_fp = \<lparr>rf_active = [], rf_free = rev [0..<NUM_FP_ALLOCATABLE_REGS]\<rparr>\<rparr>) (\<lambda>s.
        rbind (verify_spill_all (sc_intervals s)) (\<lambda>_.
          Inr (sc_intervals s, length (sc_slot_is_oop s) mod 2 ^ 16, sc_slot_is_oop s))))"

section \<open>Resident registers\<close>

fun mark_used :: "live_interval list \<Rightarrow> bool list \<Rightarrow> bool list res" where
  "mark_used [] used = Inr used"
| "mark_used (iv # ivs) used =
     (case (iv_is_fp iv, iv_assignment iv) of
        (False, Some (Reg r)) \<Rightarrow> guard_res (r < length used) Index_out_of_bounds (mark_used ivs (used[r := True]))
      | _ \<Rightarrow> mark_used ivs used)"

definition resident_pool :: "live_interval list \<Rightarrow> nat list res" where
  "resident_pool ivs =
     rbind (mark_used ivs (replicate NUM_ALLOCATABLE_REGS False)) (\<lambda>used.
       Inr ([21, 22, 23, 24, 25, 26, 27] @ filter (\<lambda>r. \<not> used ! r) [6..<NUM_ALLOCATABLE_REGS]))"

text \<open>The first register of the pool none of whose occupants overlaps \<open>[s, e)\<close>.\<close>

fun take_first :: "nat \<Rightarrow> nat \<Rightarrow> (nat \<times> (nat \<times> nat) list) list \<Rightarrow> (nat \<times> (nat \<times> (nat \<times> nat) list) list) option" where
  "take_first s e [] = None"
| "take_first s e ((reg, occ) # rest) =
     (if list_all (\<lambda>(ts, te). e \<le> ts \<or> te \<le> s) occ then Some (reg, (reg, occ @ [(s, e)]) # rest)
      else map_option (\<lambda>(r, rest'). (r, (reg, occ) # rest')) (take_first s e rest))"

record resident_state =
  rs_intervals :: "live_interval list"
  rs_taken :: "(nat \<times> (nat \<times> nat) list) list"
  rs_fp_taken :: "(nat \<times> (nat \<times> nat) list) list"

definition resident_step :: "nat \<Rightarrow> resident_state \<Rightarrow> resident_state" where
  "resident_step i st =
     (let iv = rs_intervals st ! i;
          t = (if iv_is_fp iv then rs_fp_taken st else rs_taken st) in
        case take_first (iv_start iv) (iv_end iv) t of
          None \<Rightarrow> st
        | Some (reg, t') \<Rightarrow>
           (let st' = st\<lparr>rs_intervals := (rs_intervals st)[i := iv\<lparr>iv_resident_reg := Some reg\<rparr>]\<rparr>
            in if iv_is_fp iv then st'\<lparr>rs_fp_taken := t'\<rparr> else st'\<lparr>rs_taken := t'\<rparr>))"

definition is_spilled :: "assignment option \<Rightarrow> bool" where
  "is_spilled a = (case a of Some (Spill _) \<Rightarrow> True | _ \<Rightarrow> False)"

definition resident_order :: "bool \<Rightarrow> live_interval list \<Rightarrow> nat list" where
  "resident_order across_calls ivs =
     sort_key (\<lambda>i. - int (iv_end (ivs ! i) - iv_start (ivs ! i)))
       (filter (\<lambda>i. is_spilled (iv_assignment (ivs ! i)) \<and> (\<not> iv_crosses_call (ivs ! i) \<or> across_calls) \<and>
                    iv_start (ivs ! i) < iv_end (ivs ! i)) [0..<length ivs])"

definition assign_residents :: "bool \<Rightarrow> live_interval list \<Rightarrow> live_interval list res" where
  "assign_residents across_calls ivs =
     rbind (resident_pool ivs) (\<lambda>pool.
       Inr (rs_intervals (fold resident_step (resident_order across_calls ivs)
              \<lparr>rs_intervals = ivs, rs_taken = map (\<lambda>r. (r, [])) pool, rs_fp_taken = map (\<lambda>r. (r, [])) [8..<16]\<rparr>)))"

section \<open>Assigning a location\<close>

lemma length_assign [simp]: "length (assign i a ivs) = length ivs"
  by (simp add: assign_def)

lemma assign_nth: "assign i a ivs ! j = (if i = j \<and> i < length ivs then (ivs ! j)\<lparr>iv_assignment := Some a\<rparr> else ivs ! j)"
  by (cases "i < length ivs") (simp_all add: assign_def nth_list_update list_update_beyond)

lemma assign_fields [simp]:
  "iv_vreg (assign i a ivs ! j) = iv_vreg (ivs ! j)" "iv_start (assign i a ivs ! j) = iv_start (ivs ! j)"
  "iv_end (assign i a ivs ! j) = iv_end (ivs ! j)" "iv_is_oop (assign i a ivs ! j) = iv_is_oop (ivs ! j)"
  "iv_is_fp (assign i a ivs ! j) = iv_is_fp (ivs ! j)" "iv_crosses_safepoint (assign i a ivs ! j) = iv_crosses_safepoint (ivs ! j)"
  by (simp_all add: assign_nth)

lemma assign_assignment: "i < length ivs \<Longrightarrow> iv_assignment (assign i a ivs ! j) = (if i = j then Some a else iv_assignment (ivs ! j))"
  by (simp add: assign_nth)

text \<open>Intervals that differ in nothing but their assignments.\<close>

definition unassigned :: "live_interval \<Rightarrow> live_interval" where
  "unassigned iv = iv\<lparr>iv_assignment := None\<rparr>"

definition same_but_assignment :: "live_interval list \<Rightarrow> live_interval list \<Rightarrow> bool" where
  "same_but_assignment ivs ivs' \<longleftrightarrow> map unassigned ivs' = map unassigned ivs"

lemma same_but_assignment_refl: "same_but_assignment ivs ivs"
  by (simp add: same_but_assignment_def)

lemma same_but_assignment_assign: "same_but_assignment ivs ivs' \<Longrightarrow> same_but_assignment ivs (assign i a ivs')"
proof -
  assume "same_but_assignment ivs ivs'"
  moreover have "map unassigned (assign i a ivs') = map unassigned ivs'"
    by (rule nth_equalityI) (simp_all add: assign_nth unassigned_def)
  ultimately show "same_but_assignment ivs (assign i a ivs')" by (simp add: same_but_assignment_def)
qed

lemma unassigned_eqD:
  assumes "unassigned iv = unassigned iv'"
  shows "iv_vreg iv = iv_vreg iv'" "iv_start iv = iv_start iv'" "iv_end iv = iv_end iv'" "iv_is_oop iv = iv_is_oop iv'"
    "iv_is_fp iv = iv_is_fp iv'" "iv_crosses_safepoint iv = iv_crosses_safepoint iv'" "iv_crosses_call iv = iv_crosses_call iv'"
    "iv_resident_reg iv = iv_resident_reg iv'"
  using assms by (cases iv; cases iv'; simp add: unassigned_def)+

lemma same_but_assignmentD:
  assumes "same_but_assignment ivs ivs'"
  shows "length ivs' = length ivs" "j < length ivs \<Longrightarrow> unassigned (ivs' ! j) = unassigned (ivs ! j)"
  using assms map_eq_imp_length_eq [of unassigned ivs' unassigned ivs] unfolding same_but_assignment_def
  by (blast, metis map_eq_imp_length_eq nth_map)

section \<open>Spill slots\<close>

text \<open>No slot has two owners, and a slot records whether its owner is an oop.\<close>

definition spilled :: "live_interval list \<Rightarrow> nat set" where
  "spilled ivs = {i. i < length ivs \<and> is_spilled (iv_assignment (ivs ! i))}"

definition slots_ok :: "live_interval list \<Rightarrow> bool list \<Rightarrow> bool" where
  "slots_ok ivs so \<longleftrightarrow>
     length so = card (spilled ivs) \<and>
     (\<forall>i < length ivs. \<forall>k. iv_assignment (ivs ! i) = Some (Spill k) \<longrightarrow> k < length so \<and> so ! k = iv_is_oop (ivs ! i)) \<and>
     (\<forall>i < length ivs. \<forall>j < length ivs. \<forall>k.
        iv_assignment (ivs ! i) = Some (Spill k) \<longrightarrow> iv_assignment (ivs ! j) = Some (Spill k) \<longrightarrow> i = j)"

lemma is_spilled_simps [simp]: "is_spilled (Some (Spill k))" "\<not> is_spilled (Some (Reg r))" "\<not> is_spilled None"
  by (simp_all add: is_spilled_def)

lemma is_reg_simps [simp]: "is_reg (Some (Reg r))" "\<not> is_reg (Some (Spill k))" "\<not> is_reg None"
  by (simp_all add: is_reg_def)

lemma is_regE: "is_reg a \<Longrightarrow> (\<And>r. a = Some (Reg r) \<Longrightarrow> P) \<Longrightarrow> P"
  by (auto simp: is_reg_def split: option.splits assignment.splits)

lemma spilled_bound: "card (spilled ivs) \<le> length ivs"
proof -
  have "card (spilled ivs) \<le> card {..<length ivs}" by (intro card_mono) (auto simp: spilled_def)
  then show ?thesis by simp
qed

lemma slots_ok_assign_reg:
  assumes "slots_ok ivs so" "i < length ivs" "\<not> is_spilled (iv_assignment (ivs ! i))"
  shows "slots_ok (assign i (Reg r) ivs) so"
proof -
  have "spilled (assign i (Reg r) ivs) = spilled ivs" using assms(2,3) by (auto simp: spilled_def assign_assignment)
  then show ?thesis using assms(1,2) unfolding slots_ok_def by (auto simp: assign_assignment split: if_splits)
qed

lemma slots_ok_spill:
  assumes "slots_ok ivs so" "i < length ivs" "\<not> is_spilled (iv_assignment (ivs ! i))" "length ivs < 2 ^ 16"
  shows "slots_ok (assign i (Spill (length so mod 2 ^ 16)) ivs) (so @ [iv_is_oop (ivs ! i)])"
proof -
  have len: "length so mod 2 ^ 16 = length so" using assms(1,4) spilled_bound [of ivs] by (simp add: slots_ok_def)
  let ?ivs = "assign i (Spill (length so)) ivs"
  have asg: "iv_assignment (?ivs ! j) = (if i = j then Some (Spill (length so)) else iv_assignment (ivs ! j))" for j
    using assms(2) by (rule assign_assignment)
  have slot: "k < length so \<and> so ! k = iv_is_oop (ivs ! j)" if "j < length ivs" "iv_assignment (ivs ! j) = Some (Spill k)" for j k
    using assms(1) that unfolding slots_ok_def by blast
  have inj: "j = j'" if "j < length ivs" "j' < length ivs" "iv_assignment (ivs ! j) = Some (Spill k)" "iv_assignment (ivs ! j') = Some (Spill k)" for j j' k
    using assms(1) that unfolding slots_ok_def by blast
  have "spilled ?ivs = insert i (spilled ivs)" using assms(2) by (auto simp: spilled_def asg)
  moreover have "i \<notin> spilled ivs" "finite (spilled ivs)" using assms(3) by (simp_all add: spilled_def)
  ultimately have "length (so @ [iv_is_oop (ivs ! i)]) = card (spilled ?ivs)" using assms(1) by (simp add: slots_ok_def)
  moreover have "\<forall>j < length ?ivs. \<forall>k. iv_assignment (?ivs ! j) = Some (Spill k) \<longrightarrow>
      k < length (so @ [iv_is_oop (ivs ! i)]) \<and> (so @ [iv_is_oop (ivs ! i)]) ! k = iv_is_oop (?ivs ! j)"
    using slot by (auto simp: asg nth_append less_Suc_eq)
  moreover have "\<forall>j < length ?ivs. \<forall>j' < length ?ivs. \<forall>k.
      iv_assignment (?ivs ! j) = Some (Spill k) \<longrightarrow> iv_assignment (?ivs ! j') = Some (Spill k) \<longrightarrow> j = j'"
  proof (intro allI impI, goal_cases)
    case (1 j j' k)
    then show ?case using inj [of j j' k] slot [of j k] slot [of j' k] by (auto simp: asg split: if_splits)
  qed
  ultimately have "slots_ok ?ivs (so @ [iv_is_oop (ivs ! i)])" unfolding slots_ok_def by blast
  then show ?thesis by (simp only: len)
qed

lemma spill_crossing_ok:
  assumes "\<forall>iv \<in> set ivs. iv_assignment iv = None" "length ivs < 2 ^ 16" "spill_crossing ivs = (ivs', so)"
  shows "same_but_assignment ivs ivs' \<and> slots_ok ivs' so \<and>
    (\<forall>j < length ivs. if iv_crosses_safepoint (ivs ! j) then is_spilled (iv_assignment (ivs' ! j)) else iv_assignment (ivs' ! j) = None)"
proof -
  define step where "step = (\<lambda>i s. if iv_crosses_safepoint (fst s ! i) then spill i s else s)"
  have "n \<le> length ivs \<Longrightarrow> fold step [0..<n] (ivs, []) = (ivs', so) \<Longrightarrow>
      same_but_assignment ivs ivs' \<and> slots_ok ivs' so \<and>
      (\<forall>j < length ivs. if iv_crosses_safepoint (ivs ! j) \<and> j < n then is_spilled (iv_assignment (ivs' ! j)) else iv_assignment (ivs' ! j) = None)"
    for n ivs' so
  proof (induction n arbitrary: ivs' so)
    case 0
    then show ?case using assms(1) by (auto simp: same_but_assignment_refl slots_ok_def spilled_def)
  next
    case (Suc n)
    obtain ivs1 so1 where f: "fold step [0..<n] (ivs, []) = (ivs1, so1)" by (cases "fold step [0..<n] (ivs, [])")
    with Suc have inv: "same_but_assignment ivs ivs1" "slots_ok ivs1 so1"
      "\<forall>j < length ivs. if iv_crosses_safepoint (ivs ! j) \<and> j < n then is_spilled (iv_assignment (ivs1 ! j)) else iv_assignment (ivs1 ! j) = None"
      by (simp_all add: Suc.IH [OF _ f])
    have len: "length ivs1 = length ivs" by (rule same_but_assignmentD(1) [OF inv(1)])
    have st: "step n (ivs1, so1) = (ivs', so)" using Suc.prems(2) f by simp
    show ?case
    proof (cases "iv_crosses_safepoint (ivs ! n)")
      case True
      then have ivs': "ivs' = assign n (Spill (length so1 mod 2 ^ 16)) ivs1" "so = so1 @ [iv_is_oop (ivs1 ! n)]"
        using st unassigned_eqD(6) [OF same_but_assignmentD(2) [OF inv(1), of n]] Suc.prems(1) by (auto simp: step_def spill_def)
      have "\<not> is_spilled (iv_assignment (ivs1 ! n))" using inv(3) Suc.prems(1) by simp
      then have "slots_ok ivs' so"
        unfolding ivs' using inv(2) Suc.prems(1) len assms(2) by (intro slots_ok_spill) simp_all
      then show ?thesis
        using inv(1,3) Suc.prems(1) len True
        by (auto simp: ivs' same_but_assignment_assign assign_assignment less_Suc_eq)
    next
      case False
      then have "ivs' = ivs1" "so = so1"
        using st unassigned_eqD(6) [OF same_but_assignmentD(2) [OF inv(1), of n]] Suc.prems(1) by (auto simp: step_def)
      then show ?thesis using inv False by (auto simp: less_Suc_eq)
    qed
  qed
  from this [of "length ivs" ivs' so] show ?thesis
    using assms(3) by (simp add: spill_crossing_def step_def)
qed

section \<open>The active intervals\<close>

definition reg_of :: "live_interval list \<Rightarrow> nat \<Rightarrow> nat" where
  "reg_of ivs j = (case iv_assignment (ivs ! j) of Some (Reg r) \<Rightarrow> r | _ \<Rightarrow> 0)"

definition apart :: "live_interval \<Rightarrow> live_interval \<Rightarrow> bool" where
  "apart a b \<longleftrightarrow> iv_end a < iv_start b \<or> iv_end b < iv_start a"

text \<open>
  What the scan keeps about one register file when it has reached position \<open>t\<close>: free registers and registers of
  active intervals make up the file; an interval of this class that holds a register is active or over; and no two
  that share a register overlap.
\<close>

definition file_ok :: "live_interval list \<Rightarrow> bool \<Rightarrow> nat \<Rightarrow> nat \<Rightarrow> reg_file \<Rightarrow> bool" where
  "file_ok ivs fp n t f \<longleftrightarrow>
     mset (rf_free f @ map (reg_of ivs) (rf_active f)) = mset [0..<n] \<and>
     (\<forall>j \<in> set (rf_active f). j < length ivs \<and> iv_is_fp (ivs ! j) = fp \<and> is_reg (iv_assignment (ivs ! j))) \<and>
     (\<forall>j < length ivs. \<forall>r. iv_is_fp (ivs ! j) = fp \<longrightarrow> iv_assignment (ivs ! j) = Some (Reg r) \<longrightarrow>
        r < n \<and> (j \<in> set (rf_active f) \<or> iv_end (ivs ! j) < t)) \<and>
     (\<forall>i < length ivs. \<forall>j < length ivs. \<forall>r. i \<noteq> j \<longrightarrow> iv_is_fp (ivs ! i) = fp \<longrightarrow> iv_is_fp (ivs ! j) = fp \<longrightarrow>
        iv_assignment (ivs ! i) = Some (Reg r) \<longrightarrow> iv_assignment (ivs ! j) = Some (Reg r) \<longrightarrow> apart (ivs ! i) (ivs ! j))"

lemma file_okD:
  assumes "file_ok ivs fp n t f"
  shows "mset (rf_free f @ map (reg_of ivs) (rf_active f)) = mset [0..<n]"
    and "distinct (rf_free f @ map (reg_of ivs) (rf_active f))"
    and "set (rf_free f @ map (reg_of ivs) (rf_active f)) = {..<n}"
    and "j \<in> set (rf_active f) \<Longrightarrow> j < length ivs \<and> iv_is_fp (ivs ! j) = fp \<and> iv_assignment (ivs ! j) = Some (Reg (reg_of ivs j))"
    and "j < length ivs \<Longrightarrow> iv_is_fp (ivs ! j) = fp \<Longrightarrow> iv_assignment (ivs ! j) = Some (Reg r) \<Longrightarrow>
      r < n \<and> (j \<in> set (rf_active f) \<or> iv_end (ivs ! j) < t)"
    and "i < length ivs \<Longrightarrow> j < length ivs \<Longrightarrow> i \<noteq> j \<Longrightarrow> iv_is_fp (ivs ! i) = fp \<Longrightarrow> iv_is_fp (ivs ! j) = fp \<Longrightarrow>
      iv_assignment (ivs ! i) = Some (Reg r) \<Longrightarrow> iv_assignment (ivs ! j) = Some (Reg r) \<Longrightarrow> apart (ivs ! i) (ivs ! j)"
proof -
  show m: "mset (rf_free f @ map (reg_of ivs) (rf_active f)) = mset [0..<n]" using assms by (simp only: file_ok_def)
  show "distinct (rf_free f @ map (reg_of ivs) (rf_active f))" using mset_eq_imp_distinct_iff [OF m] by simp
  show "set (rf_free f @ map (reg_of ivs) (rf_active f)) = {..<n}" using mset_eq_setD [OF m] by auto
  show "j < length ivs \<and> iv_is_fp (ivs ! j) = fp \<and> iv_assignment (ivs ! j) = Some (Reg (reg_of ivs j))"
    if "j \<in> set (rf_active f)"
  proof -
    have "j < length ivs" "iv_is_fp (ivs ! j) = fp" "is_reg (iv_assignment (ivs ! j))"
      using assms that unfolding file_ok_def by blast+
    then show ?thesis by (auto elim: is_regE simp: reg_of_def)
  qed
qed (use assms in \<open>unfold file_ok_def, blast\<close>)+

lemma held_reg_active: "is_reg (iv_assignment (ivs ! j)) \<Longrightarrow> held_reg ivs j = [reg_of ivs j]"
  by (auto elim: is_regE simp: held_reg_def reg_of_def)

lemma expire_ok:
  assumes "file_ok ivs fp n t f" "t \<le> t'"
  shows "file_ok ivs fp n t' (expire ivs t' f)"
proof -
  let ?dead = "filter (\<lambda>j. iv_end (ivs ! j) < t') (rf_active f)" and ?live = "filter (\<lambda>j. \<not> iv_end (ivs ! j) < t') (rf_active f)"
  have "concat (map (held_reg ivs) xs) = map (reg_of ivs) xs" if "set xs \<subseteq> set (rf_active f)" for xs
    using that file_okD(4) [OF assms(1)] by (induction xs) (auto simp: held_reg_active)
  then have e: "expire ivs t' f = \<lparr>rf_active = ?live, rf_free = rf_free f @ map (reg_of ivs) ?dead\<rparr>"
    by (simp add: expire_def)
  have "mset ?dead + mset ?live = mset (rf_active f)" by (simp flip: multiset_partition)
  then have "image_mset (reg_of ivs) (mset ?dead) + image_mset (reg_of ivs) (mset ?live) = image_mset (reg_of ivs) (mset (rf_active f))"
    by (metis image_mset_union)
  then have "mset (rf_free (expire ivs t' f) @ map (reg_of ivs) (rf_active (expire ivs t' f))) = mset [0..<n]"
    using file_okD(1) [OF assms(1)] by (simp add: e add.assoc)
  moreover have "r < n \<and> (j \<in> set (rf_active (expire ivs t' f)) \<or> iv_end (ivs ! j) < t')"
    if "j < length ivs" "iv_is_fp (ivs ! j) = fp" "iv_assignment (ivs ! j) = Some (Reg r)" for j r
    using file_okD(5) [OF assms(1) that] assms(2) by (auto simp: e)
  moreover have "j < length ivs \<and> iv_is_fp (ivs ! j) = fp \<and> is_reg (iv_assignment (ivs ! j))"
    if "j \<in> set (rf_active (expire ivs t' f))" for j
    using that file_okD(4) [OF assms(1), of j] by (simp add: e)
  ultimately show ?thesis unfolding file_ok_def using file_okD(6) [OF assms(1)] by blast
qed

lemma file_okI:
  assumes "mset (rf_free f @ map (reg_of ivs) (rf_active f)) = mset [0..<n]"
    and "\<And>j. j \<in> set (rf_active f) \<Longrightarrow> j < length ivs \<and> iv_is_fp (ivs ! j) = fp \<and> is_reg (iv_assignment (ivs ! j))"
    and "\<And>j r. j < length ivs \<Longrightarrow> iv_is_fp (ivs ! j) = fp \<Longrightarrow> iv_assignment (ivs ! j) = Some (Reg r) \<Longrightarrow>
      r < n \<and> (j \<in> set (rf_active f) \<or> iv_end (ivs ! j) < t)"
    and "\<And>i j r. i < length ivs \<Longrightarrow> j < length ivs \<Longrightarrow> i \<noteq> j \<Longrightarrow> iv_is_fp (ivs ! i) = fp \<Longrightarrow> iv_is_fp (ivs ! j) = fp \<Longrightarrow>
      iv_assignment (ivs ! i) = Some (Reg r) \<Longrightarrow> iv_assignment (ivs ! j) = Some (Reg r) \<Longrightarrow> apart (ivs ! i) (ivs ! j)"
  shows "file_ok ivs fp n t f"
  unfolding file_ok_def using assms by blast

lemma reg_of_assign: "i < length ivs \<Longrightarrow> reg_of (assign i a ivs) j = (if i = j then (case a of Reg r \<Rightarrow> r | Spill _ \<Rightarrow> 0) else reg_of ivs j)"
  by (simp add: reg_of_def assign_assignment)

lemma reg_of_assign_map:
  "i < length ivs \<Longrightarrow> i \<notin> set js \<Longrightarrow> map (reg_of (assign i a ivs)) js = map (reg_of ivs) js"
  by (auto simp: reg_of_assign)

lemma apart_assign [simp]: "apart (assign i a ivs ! j) (assign i' a' ivs' ! j') = apart (ivs ! j) (ivs' ! j')"
  by (simp add: apart_def)

lemma file_ok_take:
  assumes ok: "file_ok ivs fp n t \<lparr>rf_active = act, rf_free = free @ [r]\<rparr>"
    and i: "i < length ivs" "iv_assignment (ivs ! i) = None" "iv_is_fp (ivs ! i) = fp" "iv_start (ivs ! i) = t"
  shows "file_ok (assign i (Reg r) ivs) fp n t \<lparr>rf_active = act @ [i], rf_free = free\<rparr>"
proof -
  note D = file_okD [OF ok, simplified]
  have new: "i \<notin> set act" using D(4) [of i] i(2) by auto
  have r: "r < n" using D(3) by auto
  have over: "iv_end (ivs ! j) < t" if "j < length ivs" "iv_is_fp (ivs ! j) = fp" "iv_assignment (ivs ! j) = Some (Reg r)" for j
  proof (rule ccontr)
    assume "\<not> ?thesis"
    then have "j \<in> set act" using D(5) [OF that] by simp
    moreover have "reg_of ivs j = r" using that(3) by (simp add: reg_of_def)
    ultimately show False using D(2) by auto
  qed
  show ?thesis
  proof (rule file_okI, goal_cases)
    case 1
    show ?case using D(1) i(1) new by (simp add: reg_of_assign_map reg_of_assign del: map_map)
  next
    case (2 j)
    then show ?case using D(4) [of j] i by (auto simp: assign_assignment)
  next
    case (3 j r')
    then show ?case using D(5) [of j r'] i(1) r by (auto simp: assign_assignment split: if_splits)
  next
    case (4 j j' r')
    then show ?case
      using D(6) [of j j' r'] over [of j] over [of j'] i by (auto simp: assign_assignment apart_def split: if_splits)
  qed
qed

lemma file_ok_spill:
  assumes ok: "file_ok ivs fp n t f" and i: "i < length ivs" "iv_assignment (ivs ! i) = None"
  shows "file_ok (assign i (Spill k) ivs) fp n t f"
proof -
  note D = file_okD [OF ok]
  have new: "i \<notin> set (rf_active f)" using D(4) [of i] i(2) by auto
  show ?thesis
  proof (rule file_okI, goal_cases)
    case 1
    show ?case using D(1) i(1) new by (simp add: reg_of_assign_map)
  next
    case (2 j)
    then show ?case using D(4) [of j] i new by (auto simp: assign_assignment)
  next
    case (3 j r')
    then show ?case using D(5) [of j r'] i(1) by (auto simp: assign_assignment split: if_splits)
  next
    case (4 j j' r')
    then show ?case using D(6) [of j j' r'] i by (auto simp: assign_assignment split: if_splits)
  qed
qed

lemma remove_at_mset: "k < length xs \<Longrightarrow> mset xs = add_mset (xs ! k) (mset (remove_at k xs))"
  by (simp add: remove_at_def flip: id_take_nth_drop mset_append) (metis append_Cons id_take_nth_drop mset.simps(2) mset_append union_mset_add_mset_right)

lemma file_ok_evict:
  assumes ok: "file_ok ivs fp n t \<lparr>rf_active = act, rf_free = free\<rparr>" and k: "k < length act"
  shows "file_ok (assign (act ! k) (Spill slot) ivs) fp n t
    \<lparr>rf_active = remove_at k act, rf_free = free @ [reg_of ivs (act ! k)]\<rparr>"
proof -
  note D = file_okD [OF ok, simplified]
  let ?j = "act ! k"
  have j: "?j < length ivs" using D(4) [of ?j] k by simp
  have m: "mset act = add_mset ?j (mset (remove_at k act))" using k by (rule remove_at_mset)
  have "distinct act" using D(2) by (simp add: distinct_map)
  then have "distinct (?j # remove_at k act)" using m mset_eq_imp_distinct_iff [of act "?j # remove_at k act"] by simp
  then have gone: "?j \<notin> set (remove_at k act)" by simp
  have sub: "set act = insert ?j (set (remove_at k act))" using arg_cong [OF m, of set_mset] by simp
  show ?thesis
  proof (rule file_okI, goal_cases)
    case 1
    have "image_mset (reg_of ivs) (mset act) = add_mset (reg_of ivs ?j) (image_mset (reg_of ivs) (mset (remove_at k act)))"
      by (simp add: m)
    then show ?case using D(1) j gone by (simp add: reg_of_assign_map flip: mset_map)
  next
    case (2 i)
    then show ?case using D(4) [of i] j gone sub by (auto simp: assign_assignment)
  next
    case (3 i r')
    then show ?case using D(5) [of i r'] j sub by (auto simp: assign_assignment split: if_splits)
  next
    case (4 i i' r')
    then show ?case using D(6) [of i i' r'] j by (auto simp: assign_assignment split: if_splits)
  qed
qed

lemma file_ok_other:
  assumes ok: "file_ok ivs fp n t f" and "t \<le> t'" "length ivs' = length ivs"
    and same: "\<And>j. j < length ivs \<Longrightarrow> iv_is_fp (ivs ! j) = fp \<Longrightarrow> ivs' ! j = ivs ! j"
    and cls: "\<And>j. j < length ivs \<Longrightarrow> iv_is_fp (ivs' ! j) = iv_is_fp (ivs ! j)"
  shows "file_ok ivs' fp n t' f"
proof -
  note D = file_okD [OF ok]
  show ?thesis
  proof (rule file_okI, goal_cases)
    case 1
    have "map (reg_of ivs') (rf_active f) = map (reg_of ivs) (rf_active f)"
      using D(4) same by (intro map_cong) (auto simp: reg_of_def)
    then show ?case using D(1) by (simp only:)
  next
    case (2 j)
    then show ?case using D(4) [of j] same [of j] assms(3) by simp
  next
    case (3 j r)
    then show ?case using D(5) [of j r] same [of j] cls [of j] assms(2,3) by auto
  next
    case (4 i j r)
    then show ?case using D(6) [of i j r] same [of i] same [of j] cls [of i] cls [of j] assms(3) by simp
  qed
qed

lemma max_by_key_mem: "max_by_key key xs = Some y \<Longrightarrow> y \<in> set xs"
  by (induction xs arbitrary: y) (auto split: option.splits if_splits)

lemma max_by_key_None: "max_by_key key xs = None \<longleftrightarrow> xs = []"
  by (cases xs) (auto split: option.splits)

section \<open>One step of the scan\<close>

text \<open>What a step may change: nothing of the other class, no slot already given, and only \<open>i\<close> gets its first location.\<close>

definition scan_effect :: "nat \<Rightarrow> live_interval list \<Rightarrow> live_interval list \<Rightarrow> bool" where
  "scan_effect i ivs ivs' \<longleftrightarrow>
     same_but_assignment ivs ivs' \<and>
     (\<forall>j < length ivs. iv_is_fp (ivs ! j) \<noteq> iv_is_fp (ivs ! i) \<longrightarrow> ivs' ! j = ivs ! j) \<and>
     (\<forall>j < length ivs. is_spilled (iv_assignment (ivs ! j)) \<longrightarrow> iv_assignment (ivs' ! j) = iv_assignment (ivs ! j)) \<and>
     (\<forall>j < length ivs. iv_assignment (ivs' ! j) = None \<longleftrightarrow> iv_assignment (ivs ! j) = None \<and> j \<noteq> i)"

lemma scan_effectI:
  assumes "same_but_assignment ivs ivs'"
    and "\<And>j. j < length ivs \<Longrightarrow> iv_is_fp (ivs ! j) \<noteq> iv_is_fp (ivs ! i) \<Longrightarrow> ivs' ! j = ivs ! j"
    and "\<And>j. j < length ivs \<Longrightarrow> is_spilled (iv_assignment (ivs ! j)) \<Longrightarrow> iv_assignment (ivs' ! j) = iv_assignment (ivs ! j)"
    and "\<And>j. j < length ivs \<Longrightarrow> iv_assignment (ivs' ! j) = None \<longleftrightarrow> iv_assignment (ivs ! j) = None \<and> j \<noteq> i"
  shows "scan_effect i ivs ivs'"
  using assms unfolding scan_effect_def by blast

lemma scan_effect_assign:
  assumes "i < length ivs" "iv_assignment (ivs ! i) = None"
  shows "scan_effect i ivs (assign i a ivs)"
proof (rule scan_effectI, goal_cases)
  case 1
  show ?case by (intro same_but_assignment_assign same_but_assignment_refl)
next
  case (2 j)
  then have "i \<noteq> j" by blast
  then show ?case by (simp add: assign_nth)
qed (use assms in \<open>auto simp: assign_nth\<close>)

lemma scan_effect_evict:
  assumes "i < length ivs" "iv_assignment (ivs ! i) = None"
    and "j < length ivs" "is_reg (iv_assignment (ivs ! j))" "iv_is_fp (ivs ! j) = iv_is_fp (ivs ! i)"
  shows "scan_effect i ivs (assign i a (assign j (Spill k) ivs))"
proof -
  from assms(4) obtain r where r: "iv_assignment (ivs ! j) = Some (Reg r)" by (rule is_regE)
  show ?thesis
  proof (rule scan_effectI, goal_cases)
    case 1
    show ?case by (intro same_but_assignment_assign same_but_assignment_refl)
  next
    case (2 j')
    then have "i \<noteq> j'" "j \<noteq> j'" using assms(5) by blast+
    then show ?case by (simp add: assign_nth)
  qed (use assms(1-3) r in \<open>auto simp: assign_nth\<close>)
qed

lemma scan_interval_ok:
  assumes ok: "file_ok ivs fp n t f" "slots_ok ivs so" and n: "0 < n" and len: "length ivs < 2 ^ 16"
    and i: "i < length ivs" "iv_assignment (ivs ! i) = None" "iv_is_fp (ivs ! i) = fp" "t \<le> iv_start (ivs ! i)"
  obtains ivs' so' f' where "scan_interval i (ivs, so) f = Inr ((ivs', so'), f')"
    "file_ok ivs' fp n (iv_start (ivs ! i)) f'" "slots_ok ivs' so'" "scan_effect i ivs ivs'"
proof -
  let ?t = "iv_start (ivs ! i)"
  obtain act free where e: "expire ivs ?t f = \<lparr>rf_active = act, rf_free = free\<rparr>" by (cases "expire ivs ?t f")
  then have f: "file_ok ivs fp n ?t \<lparr>rf_active = act, rf_free = free\<rparr>" using expire_ok [OF ok(1) i(4)] by simp
  have none: "\<not> is_spilled (iv_assignment (ivs ! i))" using i(2) by simp
  show thesis
  proof (cases "free = []")
    case False
    then have "file_ok (assign i (Reg (last free)) ivs) fp n ?t \<lparr>rf_active = act @ [i], rf_free = butlast free\<rparr>"
      using f i by (intro file_ok_take) simp_all
    moreover have "scan_interval i (ivs, so) f
        = Inr ((assign i (Reg (last free)) ivs, so), \<lparr>rf_active = act @ [i], rf_free = butlast free\<rparr>)"
      using False by (simp add: scan_interval_def e Let_def)
    ultimately show thesis
      using that ok(2) i(1,2) none by (blast intro: slots_ok_assign_reg scan_effect_assign)
  next
    case True
    note D = file_okD [OF f, simplified]
    have "act \<noteq> []" using D(3) True n by auto
    then obtain k j where m: "max_by_key (\<lambda>j. iv_end (ivs ! j)) (enumerate 0 act) = Some (k, j)"
      using max_by_key_None [of "\<lambda>j. iv_end (ivs ! j)" "enumerate 0 act"] by (auto simp: enumerate_eq_zip)
    then have kj: "k < length act" "j = act ! k" using max_by_key_mem [OF m] by (auto simp: in_set_enumerate_eq)
    then have j: "j < length ivs" "iv_is_fp (ivs ! j) = fp" "iv_assignment (ivs ! j) = Some (Reg (reg_of ivs j))"
      using D(4) [of j] by simp_all
    show thesis
    proof (cases "iv_end (ivs ! i) < iv_end (ivs ! j)")
      case far: True
      let ?slot = "Spill (length so mod 2 ^ 16)"
      let ?ivs = "assign j ?slot ivs"
      have ij: "i \<noteq> j" using i(2) j(3) by auto
      have "file_ok ?ivs fp n ?t \<lparr>rf_active = remove_at k act, rf_free = free @ [reg_of ivs j]\<rparr>"
        using file_ok_evict [OF f kj(1)] kj(2) by simp
      then have "file_ok (assign i (Reg (reg_of ivs j)) ?ivs) fp n ?t \<lparr>rf_active = remove_at k act @ [i], rf_free = free\<rparr>"
        using i j(1) ij by (intro file_ok_take) (simp_all add: assign_assignment)
      moreover have "slots_ok (assign i (Reg (reg_of ivs j)) ?ivs) (so @ [iv_is_oop (ivs ! j)])"
        using slots_ok_spill [OF ok(2) j(1) _ len] i(1) none ij j by (intro slots_ok_assign_reg) (simp_all add: assign_assignment)
      moreover have "scan_effect i ivs (assign i (Reg (reg_of ivs j)) ?ivs)"
        using i j by (intro scan_effect_evict) simp_all
      moreover have "scan_interval i (ivs, so) f = Inr ((assign i (Reg (reg_of ivs j)) ?ivs, so @ [iv_is_oop (ivs ! j)]),
          \<lparr>rf_active = remove_at k act @ [i], rf_free = free\<rparr>)"
        using True far m j(3) by (simp add: scan_interval_def e Let_def spill_def)
      ultimately show thesis using that by blast
    next
      case False
      have "scan_interval i (ivs, so) f = Inr ((assign i (Spill (length so mod 2 ^ 16)) ivs, so @ [iv_is_oop (ivs ! i)]),
          \<lparr>rf_active = act, rf_free = free\<rparr>)"
        using True False m by (simp add: scan_interval_def e Let_def spill_def)
      moreover note file_ok_spill [OF f i(1,2)] slots_ok_spill [OF ok(2) i(1) none len] scan_effect_assign [OF i(1,2)]
      ultimately show thesis using that by blast
    qed
  qed
qed

section \<open>The whole scan\<close>

definition scan_inv :: "live_interval list \<Rightarrow> nat list \<Rightarrow> nat \<Rightarrow> scan_state \<Rightarrow> bool" where
  "scan_inv ivs0 rest t s \<longleftrightarrow>
     same_but_assignment ivs0 (sc_intervals s) \<and> slots_ok (sc_intervals s) (sc_slot_is_oop s) \<and>
     file_ok (sc_intervals s) False NUM_ALLOCATABLE_REGS t (sc_gpr s) \<and>
     file_ok (sc_intervals s) True NUM_FP_ALLOCATABLE_REGS t (sc_fp s) \<and>
     (\<forall>j < length ivs0. iv_assignment (sc_intervals s ! j) = None \<longleftrightarrow> j \<in> set rest) \<and>
     (\<forall>j < length ivs0. iv_crosses_safepoint (ivs0 ! j) \<longrightarrow> is_spilled (iv_assignment (sc_intervals s ! j)))"

lemma scan_invD:
  assumes "scan_inv ivs0 rest t s"
  shows "same_but_assignment ivs0 (sc_intervals s)" "slots_ok (sc_intervals s) (sc_slot_is_oop s)"
    "file_ok (sc_intervals s) False NUM_ALLOCATABLE_REGS t (sc_gpr s)"
    "file_ok (sc_intervals s) True NUM_FP_ALLOCATABLE_REGS t (sc_fp s)"
    "j < length ivs0 \<Longrightarrow> iv_assignment (sc_intervals s ! j) = None \<longleftrightarrow> j \<in> set rest"
    "j < length ivs0 \<Longrightarrow> iv_crosses_safepoint (ivs0 ! j) \<Longrightarrow> is_spilled (iv_assignment (sc_intervals s ! j))"
  using assms unfolding scan_inv_def by blast+

lemma num_regs_pos: "0 < NUM_ALLOCATABLE_REGS" "0 < NUM_FP_ALLOCATABLE_REGS"
  by (simp_all add: NUM_ALLOCATABLE_REGS_def NUM_FP_ALLOCATABLE_REGS_def)

lemma same_but_assignment_trans: "same_but_assignment a b \<Longrightarrow> same_but_assignment b c \<Longrightarrow> same_but_assignment a c"
  by (simp add: same_but_assignment_def)

lemma scan_step_ok:
  assumes inv: "scan_inv ivs0 (i # rest) t s" and len: "length ivs0 < 2 ^ 16"
    and i: "i < length ivs0" "t \<le> iv_start (ivs0 ! i)" "i \<notin> set rest"
  obtains s' where "scan_step i s = Inr s'" "scan_inv ivs0 rest (iv_start (ivs0 ! i)) s'"
proof -
  note I = scan_invD [OF inv]
  let ?ivs = "sc_intervals s"
  have l: "length ?ivs = length ivs0" by (rule same_but_assignmentD(1) [OF I(1)])
  note fields = unassigned_eqD [OF same_but_assignmentD(2) [OF I(1)]]
  have start: "iv_start (?ivs ! i) = iv_start (ivs0 ! i)" using fields(2) i(1) by blast
  have none: "iv_assignment (?ivs ! i) = None" using I(5) i(1) by simp
  have pre: "length ?ivs < 2 ^ 16" "i < length ?ivs" "t \<le> iv_start (?ivs ! i)" using l len i start by simp_all
  have keep: "scan_inv ivs0 rest (iv_start (ivs0 ! i)) s'"
    if s': "sc_intervals s' = ivs'" "sc_slot_is_oop s' = so'" and eff: "scan_effect i ?ivs ivs'" and so: "slots_ok ivs' so'"
      and f: "file_ok ivs' False NUM_ALLOCATABLE_REGS (iv_start (ivs0 ! i)) (sc_gpr s')"
        "file_ok ivs' True NUM_FP_ALLOCATABLE_REGS (iv_start (ivs0 ! i)) (sc_fp s')" for s' ivs' so'
  proof -
    have same: "same_but_assignment ivs0 ivs'" using same_but_assignment_trans [OF I(1)] eff by (simp add: scan_effect_def)
    have free: "iv_assignment (ivs' ! j) = None \<longleftrightarrow> j \<in> set rest" if "j < length ivs0" for j
      using eff I(5) that i(3) l unfolding scan_effect_def by auto
    have cross: "is_spilled (iv_assignment (ivs' ! j))" if "j < length ivs0" "iv_crosses_safepoint (ivs0 ! j)" for j
      using eff I(6) [OF that] that(1) l unfolding scan_effect_def by simp
    show ?thesis unfolding scan_inv_def s' using same so f free cross by blast
  qed
  have other: "file_ok ivs' fp n (iv_start (ivs0 ! i)) f"
    if "scan_effect i ?ivs ivs'" "file_ok ?ivs fp n t f" "iv_is_fp (?ivs ! i) \<noteq> fp" for ivs' fp n f
  proof (rule file_ok_other [OF that(2) i(2)])
    have same: "same_but_assignment ?ivs ivs'" using that(1) by (simp add: scan_effect_def)
    show "length ivs' = length ?ivs" by (rule same_but_assignmentD(1) [OF same])
    show "ivs' ! j = ?ivs ! j" if "j < length ?ivs" "iv_is_fp (?ivs ! j) = fp" for j
      using \<open>scan_effect i ?ivs ivs'\<close> \<open>iv_is_fp (?ivs ! i) \<noteq> fp\<close> that unfolding scan_effect_def by metis
    show "iv_is_fp (ivs' ! j) = iv_is_fp (?ivs ! j)" if "j < length ?ivs" for j
      by (rule unassigned_eqD(5) [OF same_but_assignmentD(2) [OF same that]])
  qed
  show thesis
  proof (cases "iv_is_fp (?ivs ! i)")
    case True
    obtain ivs' so' f' where r: "scan_interval i (?ivs, sc_slot_is_oop s) (sc_fp s) = Inr ((ivs', so'), f')"
      "file_ok ivs' True NUM_FP_ALLOCATABLE_REGS (iv_start (?ivs ! i)) f'" "slots_ok ivs' so'" "scan_effect i ?ivs ivs'"
      using scan_interval_ok [OF I(4,2) num_regs_pos(2) pre(1,2) none _ pre(3)] True by blast
    from keep [of "s\<lparr>sc_intervals := ivs', sc_slot_is_oop := so', sc_fp := f'\<rparr>" ivs' so'] other [OF r(4) I(3)] r True start
    show thesis by (intro that [of "s\<lparr>sc_intervals := ivs', sc_slot_is_oop := so', sc_fp := f'\<rparr>"]) (simp_all add: scan_step_def)
  next
    case False
    obtain ivs' so' f' where r: "scan_interval i (?ivs, sc_slot_is_oop s) (sc_gpr s) = Inr ((ivs', so'), f')"
      "file_ok ivs' False NUM_ALLOCATABLE_REGS (iv_start (?ivs ! i)) f'" "slots_ok ivs' so'" "scan_effect i ?ivs ivs'"
      using scan_interval_ok [OF I(3,2) num_regs_pos(1) pre(1,2) none _ pre(3)] False by blast
    from keep [of "s\<lparr>sc_intervals := ivs', sc_slot_is_oop := so', sc_gpr := f'\<rparr>" ivs' so'] other [OF r(4) I(4)] r False start
    show thesis by (intro that [of "s\<lparr>sc_intervals := ivs', sc_slot_is_oop := so', sc_gpr := f'\<rparr>"]) (simp_all add: scan_step_def)
  qed
qed

lemma scan_ok:
  assumes "scan_inv ivs0 order t s" "length ivs0 < 2 ^ 16" "distinct order" "\<forall>i \<in> set order. i < length ivs0 \<and> t \<le> iv_start (ivs0 ! i)"
    and "sorted (map (\<lambda>i. iv_start (ivs0 ! i)) order)"
  shows "\<exists>s' t'. scan order s = Inr s' \<and> scan_inv ivs0 [] t' s'"
  using assms
proof (induction order arbitrary: t s)
  case (Cons i order)
  obtain s1 where s1: "scan_step i s = Inr s1" "scan_inv ivs0 order (iv_start (ivs0 ! i)) s1"
    by (rule scan_step_ok [OF Cons.prems(1,2)]) (use Cons.prems in simp_all)
  have "\<exists>s' t'. scan order s1 = Inr s' \<and> scan_inv ivs0 [] t' s'"
    using Cons.prems by (intro Cons.IH [OF s1(2)]) simp_all
  with s1(1) show ?case by simp
qed auto

section \<open>Properties of the allocation\<close>

text \<open>What an allocation promises of its intervals; \<open>n\<close> is the number of frame slots.\<close>

definition allocation_ok :: "live_interval list \<Rightarrow> nat \<Rightarrow> bool list \<Rightarrow> bool" where
  "allocation_ok ivs n so \<longleftrightarrow> n = length so \<and>
     (\<forall>i < length ivs. case iv_assignment (ivs ! i) of
        None \<Rightarrow> False
      | Some (Reg r) \<Rightarrow> \<not> iv_crosses_safepoint (ivs ! i) \<and> r < (if iv_is_fp (ivs ! i) then NUM_FP_ALLOCATABLE_REGS else NUM_ALLOCATABLE_REGS)
      | Some (Spill k) \<Rightarrow> k < n \<and> so ! k = iv_is_oop (ivs ! i)) \<and>
     (\<forall>i < length ivs. \<forall>j < length ivs. i \<noteq> j \<longrightarrow> iv_assignment (ivs ! i) = iv_assignment (ivs ! j) \<longrightarrow>
        (\<exists>r. iv_assignment (ivs ! i) = Some (Reg r)) \<and>
        (iv_is_fp (ivs ! i) = iv_is_fp (ivs ! j) \<longrightarrow> apart (ivs ! i) (ivs ! j)))"

lemma scan_inv_allocation_ok:
  assumes inv: "scan_inv ivs0 [] t s" and len: "length ivs0 < 2 ^ 16"
  shows "verify_spill_all (sc_intervals s) = Inr ()"
    and "allocation_ok (sc_intervals s) (length (sc_slot_is_oop s) mod 2 ^ 16) (sc_slot_is_oop s)"
proof -
  note I = scan_invD [OF inv]
  let ?ivs = "sc_intervals s" and ?so = "sc_slot_is_oop s"
  have l: "length ?ivs = length ivs0" by (rule same_but_assignmentD(1) [OF I(1)])
  have cross: "is_spilled (iv_assignment (?ivs ! j))" if "j < length ?ivs" "iv_crosses_safepoint (?ivs ! j)" for j
    using I(6) [of j] that l unassigned_eqD(6) [OF same_but_assignmentD(2) [OF I(1), of j]] by simp
  have some: "iv_assignment (?ivs ! j) \<noteq> None" if "j < length ?ivs" for j using I(5) [of j] that l by simp
  have reg: "\<not> iv_crosses_safepoint (?ivs ! j) \<and> r < (if iv_is_fp (?ivs ! j) then NUM_FP_ALLOCATABLE_REGS else NUM_ALLOCATABLE_REGS)"
    if "j < length ?ivs" "iv_assignment (?ivs ! j) = Some (Reg r)" for j r
    using cross [of j] that file_okD(5) [OF I(3), of j r] file_okD(5) [OF I(4), of j r] by auto
  have slot: "k < length ?so \<and> ?so ! k = iv_is_oop (?ivs ! j)" if "j < length ?ivs" "iv_assignment (?ivs ! j) = Some (Spill k)" for j k
    using I(2) that unfolding slots_ok_def by blast
  have two: "(\<exists>r. iv_assignment (?ivs ! i) = Some (Reg r)) \<and> (iv_is_fp (?ivs ! i) = iv_is_fp (?ivs ! j) \<longrightarrow> apart (?ivs ! i) (?ivs ! j))"
    if ij: "i < length ?ivs" "j < length ?ivs" "i \<noteq> j" "iv_assignment (?ivs ! i) = iv_assignment (?ivs ! j)" for i j
  proof (cases "iv_assignment (?ivs ! i)")
    case None
    then show ?thesis using some ij(1) by blast
  next
    case (Some a)
    show ?thesis
    proof (cases a)
      case (Reg r)
      then show ?thesis using Some ij file_okD(6) [OF I(3), of i j r] file_okD(6) [OF I(4), of i j r] by auto
    next
      case (Spill k)
      then show ?thesis using Some ij I(2) unfolding slots_ok_def by metis
    qed
  qed
  have n: "length ?so mod 2 ^ 16 = length ?so"
    using I(2) spilled_bound [of ?ivs] l len by (simp add: slots_ok_def)
  show "verify_spill_all ?ivs = Inr ()"
    using cross by (fastforce simp: verify_spill_all_def list_all_length guard_res_def is_spilled_def is_reg_def split: option.splits assignment.splits)
  show "allocation_ok ?ivs (length ?so mod 2 ^ 16) ?so"
  proof -
    have "case iv_assignment (?ivs ! i) of None \<Rightarrow> False
        | Some (Reg r) \<Rightarrow> \<not> iv_crosses_safepoint (?ivs ! i) \<and> r < (if iv_is_fp (?ivs ! i) then NUM_FP_ALLOCATABLE_REGS else NUM_ALLOCATABLE_REGS)
        | Some (Spill k) \<Rightarrow> k < length ?so \<and> ?so ! k = iv_is_oop (?ivs ! i)" if "i < length ?ivs" for i
      using some [OF that] reg [OF that] slot [OF that] by (simp split: option.split assignment.split) (metis (full_types))
    then show ?thesis unfolding allocation_ok_def n using two by blast
  qed
qed

lemma allocate_ok:
  assumes "\<forall>iv \<in> set ivs. iv_assignment iv = None" "length ivs < 2 ^ 16"
  shows "\<exists>ivs' n so. allocate ivs = Inr (ivs', n, so) \<and> same_but_assignment ivs ivs' \<and> allocation_ok ivs' n so"
proof -
  obtain ivs1 so1 where s1: "spill_crossing ivs = (ivs1, so1)" by (cases "spill_crossing ivs")
  note C = spill_crossing_ok [OF assms s1]
  have l: "length ivs1 = length ivs" using same_but_assignmentD(1) C by blast
  define order where "order = sort_key (\<lambda>i. iv_start (ivs1 ! i)) (filter (\<lambda>i. iv_assignment (ivs1 ! i) = None) [0..<length ivs1])"
  define s0 where "s0 = \<lparr>sc_intervals = ivs1, sc_slot_is_oop = so1,
      sc_gpr = \<lparr>rf_active = [], rf_free = rev [0..<NUM_ALLOCATABLE_REGS]\<rparr>,
      sc_fp = \<lparr>rf_active = [], rf_free = rev [0..<NUM_FP_ALLOCATABLE_REGS]\<rparr>\<rparr>"
  have noreg: "iv_assignment (ivs1 ! j) \<noteq> Some (Reg r)" if "j < length ivs1" for j r
    using C that l by (auto dest!: spec [of _ j] split: if_splits)
  have files: "file_ok ivs1 fp n 0 \<lparr>rf_active = [], rf_free = rev [0..<n]\<rparr>" for fp n
    using noreg by (intro file_okI) auto
  have start: "iv_start (ivs1 ! j) = iv_start (ivs ! j)" if "j < length ivs" for j
    using C that unassigned_eqD(2) same_but_assignmentD(2) by blast
  have inv: "scan_inv ivs order 0 s0"
    unfolding scan_inv_def s0_def using C files l by (auto simp: order_def)
  have sorted: "sorted (map (\<lambda>i. iv_start (ivs ! i)) order)"
  proof -
    have "map (\<lambda>i. iv_start (ivs ! i)) order = map (\<lambda>i. iv_start (ivs1 ! i)) order"
      using start l by (intro map_cong) (auto simp: order_def)
    moreover have "sorted (map (\<lambda>i. iv_start (ivs1 ! i)) order)" by (simp add: order_def)
    ultimately show ?thesis by (simp only:)
  qed
  have "distinct order" "\<forall>i \<in> set order. i < length ivs \<and> 0 \<le> iv_start (ivs ! i)" using l by (simp_all add: order_def)
  then obtain s t where s: "scan order s0 = Inr s" "scan_inv ivs [] t s"
    using scan_ok [OF inv assms(2) _ _ sorted] by blast
  have "allocate ivs = Inr (sc_intervals s, length (sc_slot_is_oop s) mod 2 ^ 16, sc_slot_is_oop s)"
    using s(1) scan_inv_allocation_ok(1) [OF s(2) assms(2)] by (simp add: allocate_def s1 order_def [symmetric] s0_def [symmetric])
  then show ?thesis using scan_invD(1) [OF s(2)] scan_inv_allocation_ok(2) [OF s(2) assms(2)] by blast
qed

text \<open>
  C19: linear scan allocates soundly. Whatever (unassigned) intervals it is given, \<open>allocate\<close> never stops: not in the
  eviction step, not in the final check. Only the assignments of the intervals change, and afterwards every interval has
  a location; an interval that crosses a safepoint is in a frame slot; a register is one of its file; a slot lies in
  the frame, is recorded as oop or non-oop as its owner is, and has one owner; and two intervals that share a register
  of the same file are never live at the same position.\<close>

theorem allocate_sound:
  assumes "\<forall>iv \<in> set ivs. iv_assignment iv = None" "length ivs < 2 ^ 16"
  shows "\<exists>ivs' n so. allocate ivs = Inr (ivs', n, so) \<and> map unassigned ivs' = map unassigned ivs \<and> n = length so \<and>
     (\<forall>i < length ivs'. case iv_assignment (ivs' ! i) of
        None \<Rightarrow> False
      | Some (Reg r) \<Rightarrow> \<not> iv_crosses_safepoint (ivs' ! i) \<and> r < (if iv_is_fp (ivs' ! i) then 8 else 16)
      | Some (Spill k) \<Rightarrow> k < n \<and> so ! k = iv_is_oop (ivs' ! i)) \<and>
     (\<forall>i < length ivs'. \<forall>j < length ivs'. i \<noteq> j \<longrightarrow> iv_assignment (ivs' ! i) = iv_assignment (ivs' ! j) \<longrightarrow>
        (\<exists>r. iv_assignment (ivs' ! i) = Some (Reg r)) \<and>
        (iv_is_fp (ivs' ! i) = iv_is_fp (ivs' ! j) \<longrightarrow>
           iv_end (ivs' ! i) < iv_start (ivs' ! j) \<or> iv_end (ivs' ! j) < iv_start (ivs' ! i)))"
  using allocate_ok [OF assms]
  unfolding allocation_ok_def same_but_assignment_def apart_def NUM_ALLOCATABLE_REGS_def NUM_FP_ALLOCATABLE_REGS_def
  by blast

definition interval :: "nat \<Rightarrow> nat \<Rightarrow> nat \<Rightarrow> bool \<Rightarrow> live_interval" where
  "interval v s e crosses = \<lparr>iv_vreg = v, iv_start = s, iv_end = e, iv_is_oop = True, iv_is_fp = False,
     iv_crosses_safepoint = crosses, iv_crosses_call = crosses, iv_assignment = None, iv_resident_reg = None\<rparr>"

definition example_intervals :: "live_interval list" where
  "example_intervals = [interval 0 0 9 True, interval 1 2 4 False, interval 2 3 6 False, interval 3 5 8 False]"

definition allocated_intervals :: "live_interval list" where
  "allocated_intervals = [(interval 0 0 9 True)\<lparr>iv_assignment := Some (Spill 0)\<rparr>, (interval 1 2 4 False)\<lparr>iv_assignment := Some (Reg 0)\<rparr>,
     (interval 2 3 6 False)\<lparr>iv_assignment := Some (Reg 1)\<rparr>, (interval 3 5 8 False)\<lparr>iv_assignment := Some (Reg 0)\<rparr>]"

lemma example_allocated: "allocate example_intervals = Inr (allocated_intervals, 1, [True])"
proof -
  have regs: "rev [0..<NUM_ALLOCATABLE_REGS] = [15, 14, 13, 12, 11, 10, 9, 8, 7, 6, 5, 4, 3, 2, 1, 0]" by code_simp
  let ?spilled = "[(interval 0 0 9 True)\<lparr>iv_assignment := Some (Spill 0)\<rparr>, interval 1 2 4 False, interval 2 3 6 False, interval 3 5 8 False]"
  have idx: "[0..<length example_intervals] = [0, 1, 2, 3]" "[0..<length ?spilled] = [0, 1, 2, 3]" by (simp_all add: example_intervals_def upt_rec [of 0] upt_rec [of 1] upt_rec [of 2] upt_rec [of 3])
  have sp: "spill_crossing example_intervals = (?spilled, [True])"
    unfolding spill_crossing_def idx by (simp add: example_intervals_def interval_def spill_def assign_def)
  have order: "sort_key (\<lambda>i. iv_start (?spilled ! i)) (filter (\<lambda>i. iv_assignment (?spilled ! i) = None) [0..<length ?spilled]) = [1, 2, 3]"
    unfolding idx by (simp add: interval_def)
  show ?thesis
    unfolding allocate_def sp order Let_def prod.case regs
    by (simp add: scan_step_def scan_interval_def expire_def held_reg_def interval_def assign_def verify_spill_all_def is_reg_def
        allocated_intervals_def)
qed

theorem allocate_sound_witness:
  "\<exists>ivs'. allocate example_intervals = Inr (ivs', 1, [True]) \<and> length example_intervals < 2 ^ 16 \<and>
      map iv_assignment example_intervals = [None, None, None, None] \<and>
      map iv_assignment ivs' = [Some (Spill 0), Some (Reg 0), Some (Reg 1), Some (Reg 0)] \<and>
      (iv_end (ivs' ! 1) < iv_start (ivs' ! 3) \<or> iv_end (ivs' ! 3) < iv_start (ivs' ! 1))"
proof -
  have hyps: "\<forall>iv \<in> set example_intervals. iv_assignment iv = None" "length example_intervals < 2 ^ 16"
    by (simp_all add: example_intervals_def interval_def)
  have none: "map iv_assignment example_intervals = [None, None, None, None]" by (simp add: example_intervals_def interval_def)
  obtain ivs' n so where a: "allocate example_intervals = Inr (ivs', n, so)"
    and two: "\<forall>i < length ivs'. \<forall>j < length ivs'. i \<noteq> j \<longrightarrow> iv_assignment (ivs' ! i) = iv_assignment (ivs' ! j) \<longrightarrow>
        (\<exists>r. iv_assignment (ivs' ! i) = Some (Reg r)) \<and>
        (iv_is_fp (ivs' ! i) = iv_is_fp (ivs' ! j) \<longrightarrow>
           iv_end (ivs' ! i) < iv_start (ivs' ! j) \<or> iv_end (ivs' ! j) < iv_start (ivs' ! i))"
    using allocate_sound [OF hyps] by blast
  have v: "n = 1" "so = [True]" "ivs' = allocated_intervals" using a unfolding example_allocated by auto
  have "iv_end (ivs' ! 1) < iv_start (ivs' ! 3) \<or> iv_end (ivs' ! 3) < iv_start (ivs' ! 1)"
    using two [rule_format, of 1 3] unfolding v(3) by (simp add: allocated_intervals_def interval_def)
  moreover have "map iv_assignment ivs' = [Some (Spill 0), Some (Reg 0), Some (Reg 1), Some (Reg 0)]"
    unfolding v(3) by (simp add: allocated_intervals_def interval_def)
  moreover have "allocate example_intervals = Inr (ivs', 1, [True])" using a v(1,2) by simp
  ultimately show ?thesis using hyps(2) none by (intro exI [of _ ivs'] conjI)
qed

section \<open>Residents do not collide\<close>

definition nonresident :: "live_interval \<Rightarrow> live_interval" where
  "nonresident iv = iv\<lparr>iv_resident_reg := None\<rparr>"

lemma nonresident_eqD:
  assumes "nonresident iv = nonresident iv'"
  shows "iv_start iv = iv_start iv'" "iv_end iv = iv_end iv'" "iv_is_fp iv = iv_is_fp iv'"
    "iv_assignment iv = iv_assignment iv'" "iv_crosses_call iv = iv_crosses_call iv'"
  using assms by (cases iv; cases iv'; simp add: nonresident_def)+

definition clear_of :: "live_interval \<Rightarrow> live_interval \<Rightarrow> bool" where
  "clear_of a b \<longleftrightarrow> iv_end a \<le> iv_start b \<or> iv_end b \<le> iv_start a"

text \<open>The occupancy lists of one register file know every resident, and residents of a register are clear of each other.\<close>

definition taken_ok :: "live_interval list \<Rightarrow> bool \<Rightarrow> (nat \<times> (nat \<times> nat) list) list \<Rightarrow> bool" where
  "taken_ok ivs fp t \<longleftrightarrow> distinct (map fst t) \<and>
     (\<forall>i < length ivs. \<forall>r. iv_is_fp (ivs ! i) = fp \<longrightarrow> iv_resident_reg (ivs ! i) = Some r \<longrightarrow>
        (\<exists>occ. (r, occ) \<in> set t \<and> (iv_start (ivs ! i), iv_end (ivs ! i)) \<in> set occ)) \<and>
     (\<forall>i < length ivs. \<forall>j < length ivs. \<forall>r. i \<noteq> j \<longrightarrow> iv_is_fp (ivs ! i) = fp \<longrightarrow> iv_is_fp (ivs ! j) = fp \<longrightarrow>
        iv_resident_reg (ivs ! i) = Some r \<longrightarrow> iv_resident_reg (ivs ! j) = Some r \<longrightarrow> clear_of (ivs ! i) (ivs ! j))"

lemma take_first_Some:
  "take_first s e t = Some (r, t') \<Longrightarrow> \<exists>pre occ post. t = pre @ (r, occ) # post \<and> t' = pre @ (r, occ @ [(s, e)]) # post \<and>
     (\<forall>(ts, te) \<in> set occ. e \<le> ts \<or> te \<le> s)"
proof (induction s e t arbitrary: t' rule: take_first.induct)
  case (2 s e reg occ rest)
  show ?case
  proof (cases "list_all (\<lambda>(ts, te). e \<le> ts \<or> te \<le> s) occ")
    case True
    with 2(2) show ?thesis by (intro exI [of _ "[]"] exI [of _ occ] exI [of _ rest]) (auto simp: list_all_iff)
  next
    case False
    with 2(2) obtain t'' where t'': "take_first s e rest = Some (r, t'')" "t' = (reg, occ) # t''" by auto
    from 2(1) [OF False t''(1)] obtain pre occ' post where "rest = pre @ (r, occ') # post" "t'' = pre @ (r, occ' @ [(s, e)]) # post"
      "\<forall>(ts, te) \<in> set occ'. e \<le> ts \<or> te \<le> s" by blast
    with t''(2) show ?thesis by (intro exI [of _ "(reg, occ) # pre"] exI [of _ occ'] exI [of _ post]) simp
  qed
qed simp

lemma taken_ok_take:
  assumes ok: "taken_ok ivs fp t" and t: "take_first (iv_start (ivs ! i)) (iv_end (ivs ! i)) t = Some (r, t')"
    and i: "i < length ivs" "iv_is_fp (ivs ! i) = fp" "iv_resident_reg (ivs ! i) = None"
  shows "taken_ok (ivs[i := (ivs ! i)\<lparr>iv_resident_reg := Some r\<rparr>]) fp t' \<and> r \<in> fst ` set t"
proof -
  let ?ivs = "ivs[i := (ivs ! i)\<lparr>iv_resident_reg := Some r\<rparr>]"
  obtain pre occ post where p: "t = pre @ (r, occ) # post" "t' = pre @ (r, occ @ [(iv_start (ivs ! i), iv_end (ivs ! i))]) # post"
    and occ: "\<forall>(ts, te) \<in> set occ. iv_end (ivs ! i) \<le> ts \<or> te \<le> iv_start (ivs ! i)"
    using take_first_Some [OF t] by blast
  have d: "distinct (map fst t)" using ok by (simp add: taken_ok_def)
  have known: "\<exists>occ. (r', occ) \<in> set t \<and> (iv_start (ivs ! j), iv_end (ivs ! j)) \<in> set occ"
    if "j < length ivs" "iv_is_fp (ivs ! j) = fp" "iv_resident_reg (ivs ! j) = Some r'" for j r'
    using ok that unfolding taken_ok_def by blast
  have clear: "clear_of (ivs ! i) (ivs ! j)" if j: "j < length ivs" "iv_is_fp (ivs ! j) = fp" "iv_resident_reg (ivs ! j) = Some r" for j
  proof -
    obtain occ' where "(r, occ') \<in> set t" "(iv_start (ivs ! j), iv_end (ivs ! j)) \<in> set occ'" using known [OF j] by blast
    moreover from this(1) have "occ' = occ" using d by (auto simp: p(1) rev_image_eqI)
    ultimately show ?thesis using occ by (auto simp: clear_of_def)
  qed
  have fields: "iv_start (?ivs ! j) = iv_start (ivs ! j)" "iv_end (?ivs ! j) = iv_end (ivs ! j)" "iv_is_fp (?ivs ! j) = iv_is_fp (ivs ! j)" for j
    using i(1) by (simp_all add: nth_list_update)
  have res: "iv_resident_reg (?ivs ! j) = (if i = j then Some r else iv_resident_reg (ivs ! j))" for j
    using i(1) by (simp add: nth_list_update)
  have mem: "(r', occ') \<in> set t \<Longrightarrow> x \<in> set occ' \<Longrightarrow> \<exists>occ''. (r', occ'') \<in> set t' \<and> x \<in> set occ''" for r' occ' x
    unfolding p by auto
  have "distinct (map fst t')" using d by (simp add: p)
  moreover have "\<exists>occ. (r', occ) \<in> set t' \<and> (iv_start (?ivs ! j), iv_end (?ivs ! j)) \<in> set occ"
    if "j < length ivs" "iv_is_fp (?ivs ! j) = fp" "iv_resident_reg (?ivs ! j) = Some r'" for j r'
  proof (cases "i = j")
    case True
    then show ?thesis using that(3) unfolding fields res p(2) by auto
  next
    case False
    then show ?thesis using known [of j r'] that mem unfolding fields res by auto
  qed
  moreover have "clear_of (?ivs ! j) (?ivs ! j')"
    if "j < length ivs" "j' < length ivs" "j \<noteq> j'" "iv_is_fp (?ivs ! j) = fp" "iv_is_fp (?ivs ! j') = fp"
      "iv_resident_reg (?ivs ! j) = Some r'" "iv_resident_reg (?ivs ! j') = Some r'" for j j' r'
  proof -
    have "clear_of (ivs ! j) (ivs ! j')"
    proof (cases "i = j \<or> i = j'")
      case True
      then show ?thesis using clear [of j] clear [of j'] that unfolding fields res by (auto simp: clear_of_def)
    next
      case False
      then show ?thesis using ok that unfolding taken_ok_def fields res by auto
    qed
    then show ?thesis by (simp add: clear_of_def fields)
  qed
  ultimately show ?thesis unfolding taken_ok_def length_list_update by (auto simp: p(1))
qed

lemma taken_ok_other:
  assumes "taken_ok ivs fp t" "iv_is_fp (ivs ! i) \<noteq> fp"
  shows "taken_ok (ivs[i := (ivs ! i)\<lparr>iv_resident_reg := Some r\<rparr>]) fp t"
proof -
  let ?ivs = "ivs[i := (ivs ! i)\<lparr>iv_resident_reg := Some r\<rparr>]"
  have fp: "iv_is_fp (?ivs ! j) = iv_is_fp (ivs ! j)" for j
    by (cases "i < length ivs") (simp_all add: nth_list_update list_update_beyond)
  have "?ivs ! j = ivs ! j" if "iv_is_fp (?ivs ! j) = fp" for j
    using that assms(2) by (metis fp nth_list_update_neq)
  then show ?thesis using assms(1) unfolding taken_ok_def length_list_update fp by metis
qed

definition res_inv :: "live_interval list \<Rightarrow> nat list \<Rightarrow> nat set \<Rightarrow> nat list \<Rightarrow> resident_state \<Rightarrow> bool" where
  "res_inv ivs pool todo rest st \<longleftrightarrow>
     map nonresident (rs_intervals st) = map nonresident ivs \<and>
     taken_ok (rs_intervals st) False (rs_taken st) \<and> fst ` set (rs_taken st) = set pool \<and>
     taken_ok (rs_intervals st) True (rs_fp_taken st) \<and> fst ` set (rs_fp_taken st) = {8..<16} \<and>
     (\<forall>j \<in> set rest. iv_resident_reg (rs_intervals st ! j) = None) \<and>
     (\<forall>j < length ivs. \<forall>r. iv_resident_reg (rs_intervals st ! j) = Some r \<longrightarrow>
        j \<in> todo \<and> r \<in> (if iv_is_fp (rs_intervals st ! j) then {8..<16} else set pool))"

lemma resident_step_ok:
  assumes inv: "res_inv ivs pool todo (i # rest) st" and i: "i < length ivs" "i \<in> todo" "i \<notin> set rest"
  shows "res_inv ivs pool todo rest (resident_step i st)"
proof -
  let ?ivs = "rs_intervals st"
  have l: "length ?ivs = length ivs" using inv map_eq_imp_length_eq unfolding res_inv_def by blast
  have none: "iv_resident_reg (?ivs ! i) = None" using inv by (simp add: res_inv_def)
  define t where "t = (if iv_is_fp (?ivs ! i) then rs_fp_taken st else rs_taken st)"
  have t: "taken_ok ?ivs (iv_is_fp (?ivs ! i)) t" using inv by (auto simp: t_def res_inv_def)
  show ?thesis
  proof (cases "take_first (iv_start (?ivs ! i)) (iv_end (?ivs ! i)) t")
    case None
    then have "resident_step i st = st" by (simp add: resident_step_def Let_def flip: t_def)
    with inv show ?thesis by (simp add: res_inv_def)
  next
    case (Some rt)
    obtain r t' where rt: "rt = (r, t')" by (cases rt)
    let ?new = "?ivs[i := (?ivs ! i)\<lparr>iv_resident_reg := Some r\<rparr>]"
    have took: "taken_ok ?new (iv_is_fp (?ivs ! i)) t'" "r \<in> fst ` set t"
      using taken_ok_take [OF t] Some rt i(1) l none by auto
    obtain pre occ post where "t = pre @ (r, occ) # post" "t' = pre @ (r, occ @ [(iv_start (?ivs ! i), iv_end (?ivs ! i))]) # post"
      using take_first_Some [OF Some [unfolded rt]] by blast
    then have keys: "fst ` set t' = fst ` set t" by simp
    have "fst ` set t = (if iv_is_fp (?ivs ! i) then {8..<16} else set pool)" using inv by (simp add: t_def res_inv_def)
    then have in_pool: "r \<in> (if iv_is_fp (?ivs ! i) then {8..<16} else set pool)" using took(2) by simp
    have step: "rs_intervals (resident_step i st) = ?new"
      "rs_taken (resident_step i st) = (if iv_is_fp (?ivs ! i) then rs_taken st else t')"
      "rs_fp_taken (resident_step i st) = (if iv_is_fp (?ivs ! i) then t' else rs_fp_taken st)"
      using Some rt by (simp_all add: resident_step_def Let_def flip: t_def)
    have same: "map nonresident ?new = map nonresident ?ivs"
      using i(1) l by (intro nth_equalityI) (simp_all add: nth_list_update nonresident_def)
    have "taken_ok ?new False (if iv_is_fp (?ivs ! i) then rs_taken st else t')"
      "taken_ok ?new True (if iv_is_fp (?ivs ! i) then t' else rs_fp_taken st)"
      using inv took(1) taken_ok_other by (auto simp: res_inv_def)
    moreover have "fst ` set (if iv_is_fp (?ivs ! i) then rs_taken st else t') = set pool"
      "fst ` set (if iv_is_fp (?ivs ! i) then t' else rs_fp_taken st) = {8..<16}"
      using inv keys by (auto simp: res_inv_def t_def)
    moreover have "\<forall>j \<in> set rest. iv_resident_reg (?new ! j) = None"
    proof
      fix j
      assume "j \<in> set rest"
      then have "j \<noteq> i" "iv_resident_reg (?ivs ! j) = None" using inv i(3) by (auto simp: res_inv_def)
      then show "iv_resident_reg (?new ! j) = None" by simp
    qed
    moreover have "j \<in> todo \<and> r' \<in> (if iv_is_fp (?new ! j) then {8..<16} else set pool)"
      if "j < length ivs" "iv_resident_reg (?new ! j) = Some r'" for j r'
    proof (cases "i = j")
      case True
      then have "r' = r" "iv_is_fp (?new ! j) = iv_is_fp (?ivs ! i)" using that l by simp_all
      with True show ?thesis using i(2) in_pool by simp
    next
      case False
      then show ?thesis using that inv unfolding res_inv_def by (simp add: nth_list_update_neq)
    qed
    ultimately show ?thesis unfolding res_inv_def step same using inv by (simp add: res_inv_def)
  qed
qed

lemma residents_ok:
  assumes "res_inv ivs pool todo order st" "distinct order" "\<forall>i \<in> set order. i < length ivs \<and> i \<in> todo"
  shows "res_inv ivs pool todo [] (fold resident_step order st)"
  using assms by (induction order arbitrary: st) (auto intro: resident_step_ok)

lemma mark_used_ok:
  assumes "\<forall>iv \<in> set ivs. \<forall>r. \<not> iv_is_fp iv \<longrightarrow> iv_assignment iv = Some (Reg r) \<longrightarrow> r < length used"
  shows "\<exists>used'. mark_used ivs used = Inr used' \<and> length used' = length used \<and>
    (\<forall>r < length used. used' ! r \<longleftrightarrow> used ! r \<or> (\<exists>iv \<in> set ivs. \<not> iv_is_fp iv \<and> iv_assignment iv = Some (Reg r)))"
  using assms
proof (induction ivs arbitrary: used)
  case (Cons iv ivs)
  show ?case
  proof (cases "\<exists>r. \<not> iv_is_fp iv \<and> iv_assignment iv = Some (Reg r)")
    case True
    then obtain r where r: "\<not> iv_is_fp iv" "iv_assignment iv = Some (Reg r)" by blast
    then have "r < length used" using Cons.prems by simp
    with r Cons.IH [of "used[r := True]"] Cons.prems show ?thesis by (auto simp: nth_list_update)
  next
    case False
    then have "mark_used (iv # ivs) used = mark_used ivs used" by (auto split: option.splits assignment.splits bool.splits)
    with Cons.IH [of used] Cons.prems False show ?thesis by auto
  qed
qed simp

lemma resident_pool_ok:
  assumes "\<forall>iv \<in> set ivs. \<forall>r. \<not> iv_is_fp iv \<longrightarrow> iv_assignment iv = Some (Reg r) \<longrightarrow> r < 16"
  obtains pool where "resident_pool ivs = Inr pool" "distinct pool"
    "\<And>r. r \<in> set pool \<Longrightarrow> (21 \<le> r \<and> r \<le> 27 \<or> 6 \<le> r \<and> r < 16) \<and> (\<forall>iv \<in> set ivs. \<not> iv_is_fp iv \<longrightarrow> iv_assignment iv \<noteq> Some (Reg r))"
proof -
  obtain used where used: "mark_used ivs (replicate 16 False) = Inr used"
    "\<forall>r < 16. used ! r \<longleftrightarrow> (\<exists>iv \<in> set ivs. \<not> iv_is_fp iv \<and> iv_assignment iv = Some (Reg r))"
    using mark_used_ok [of ivs "replicate 16 False"] assms by auto
  define low where "low = filter (\<lambda>r. \<not> used ! r) [6..<16]"
  have low: "r \<in> set low \<longleftrightarrow> 6 \<le> r \<and> r < 16 \<and> \<not> used ! r" "distinct low" for r
    unfolding low_def set_filter set_upt by auto
  let ?pool = "[21, 22, 23, 24, 25, 26, 27] @ low"
  show thesis
  proof (rule that [of ?pool])
    show "resident_pool ivs = Inr ?pool" using used(1) by (simp add: resident_pool_def NUM_ALLOCATABLE_REGS_def low_def)
    show "distinct ?pool" using low by auto
    show "(21 \<le> r \<and> r \<le> 27 \<or> 6 \<le> r \<and> r < 16) \<and> (\<forall>iv \<in> set ivs. \<not> iv_is_fp iv \<longrightarrow> iv_assignment iv \<noteq> Some (Reg r))"
      if r: "r \<in> set ?pool" for r
    proof (cases "r < 16")
      case True
      with r low(1) [of r] have "6 \<le> r" "\<not> used ! r" by auto
      with True used(2) show ?thesis by blast
    next
      case False
      with r low(1) [of r] have "r \<in> {21, 22, 23, 24, 25, 26, 27}" by auto
      then have "21 \<le> r \<and> r \<le> 27" by auto
      with False assms show ?thesis by blast
    qed
  qed
qed


definition spilled_pair :: "live_interval list" where
  "spilled_pair = [(interval 0 0 9 True)\<lparr>iv_assignment := Some (Spill 0)\<rparr>, (interval 1 2 6 True)\<lparr>iv_assignment := Some (Spill 1)\<rparr>]"

lemma spilled_pair_residents:
  "assign_residents True spilled_pair = Inr [(spilled_pair ! 0)\<lparr>iv_resident_reg := Some 21\<rparr>, (spilled_pair ! 1)\<lparr>iv_resident_reg := Some 22\<rparr>]"
proof -
  have order: "resident_order True spilled_pair = [0, 1]"
    by (simp add: resident_order_def spilled_pair_def interval_def is_spilled_def upt_rec [of 0] upt_rec [of 1])
  obtain low where pool: "resident_pool spilled_pair = Inr (21 # 22 # low)"
    by (simp add: resident_pool_def spilled_pair_def interval_def)
  show ?thesis
    unfolding assign_residents_def pool order rbind_simps
    by (simp add: resident_step_def spilled_pair_def interval_def Let_def)
qed


end
