(* ===== verification/OopMaps.thy ===== *)
theory OopMaps
  imports Scopes RegAlloc
begin

text \<open>
  Oop maps: which frame slots of a compiled method hold a live oop at a safepoint (\<open>OopMap\<close> of
  \<open>src/src/codecache/nmethod.rs\<close>, \<open>src/src/compiler/oopmap.rs\<close>, the table loop of \<open>src/src/compiler/driver.rs\<close>), and the
  locations the deoptimiser reads from the same intervals (\<open>resolve_frame_loc\<close> of \<open>src/src/compiler/scopes.rs\<close>).
  A \<open>SmallVec\<close> is a list and a hash set or map a set or map.
\<close>

section \<open>Bit sets of slots\<close>

type_synonym oop_map = "u64 list"

definition oop_map_empty :: oop_map where
  "oop_map_empty = []"

definition oop_map_set :: "oop_map \<Rightarrow> nat \<Rightarrow> oop_map" where
  "oop_map_set bits slot =
     (let w = slot div 64; bits = (if length bits \<le> w then bits @ replicate (w + 1 - length bits) 0 else bits)
      in bits[w := bits ! w OR push_bit (slot mod 64) 1])"

definition oop_map_is_oop :: "oop_map \<Rightarrow> nat \<Rightarrow> bool" where
  "oop_map_is_oop bits slot =
     (let w = slot div 64 in if w < length bits then drop_bit (slot mod 64) (bits ! w) AND 1 \<noteq> 0 else False)"

definition iter_slots :: "oop_map \<Rightarrow> nat list" where
  "iter_slots bits =
     concat (map (\<lambda>(w, word). map (\<lambda>b. (w * 64) mod 2 ^ 16 + b) (filter (\<lambda>b. drop_bit b word AND 1 \<noteq> 0) [0..<64])) (enumerate 0 bits))"

section \<open>Building, interning, verifying\<close>

text \<open>\<open>slot_live\<close> is the liveness test of an interval at \<open>position\<close>, with the exact facts of the deopt sites.\<close>

definition exact_here :: "nat \<Rightarrow> (nat \<times> nat) list \<Rightarrow> nat set" where
  "exact_here position extra = set (map fst (filter (\<lambda>(_, p). p = position) extra))"

definition slot_live :: "live_interval \<Rightarrow> nat \<Rightarrow> nat set \<Rightarrow> bool" where
  "slot_live iv position exact \<longleftrightarrow> iv_start iv < position \<and> position < iv_end iv \<or> iv_vreg iv \<in> exact"

fun build_loop :: "live_interval list \<Rightarrow> nat \<Rightarrow> nat \<Rightarrow> nat set \<Rightarrow> nat set \<Rightarrow> oop_map \<Rightarrow> oop_map res" where
  "build_loop [] frame_slots position exact skip_vregs m = Inr m"
| "build_loop (iv # ivs) frame_slots position exact skip_vregs m =
     (if \<not> iv_is_oop iv \<or> iv_vreg iv \<in> skip_vregs then build_loop ivs frame_slots position exact skip_vregs m
      else
        (case iv_assignment iv of
           Some (Spill slot) \<Rightarrow>
             (if slot_live iv position exact
              then guard_res (slot < frame_slots) Assert_failed
                     (build_loop ivs frame_slots position exact skip_vregs (oop_map_set m slot))
              else build_loop ivs frame_slots position exact skip_vregs m)
         | _ \<Rightarrow> build_loop ivs frame_slots position exact skip_vregs m))"

definition build_for_position :: "live_interval list \<Rightarrow> nat \<Rightarrow> nat \<Rightarrow> (nat \<times> nat) list \<Rightarrow> nat set \<Rightarrow> oop_map res" where
  "build_for_position intervals frame_slots position extra skip_vregs =
     build_loop intervals frame_slots position (exact_here position extra) skip_vregs oop_map_empty"

definition intern :: "oop_map list \<Rightarrow> oop_map \<Rightarrow> oop_map list \<times> nat" where
  "intern oopmaps m =
     (case List.find (\<lambda>i. oopmaps ! i = m) [0..<length oopmaps] of
        Some idx \<Rightarrow> (oopmaps, idx mod 2 ^ 16)
      | None \<Rightarrow> (oopmaps @ [m], (length (oopmaps @ [m]) - 1) mod 2 ^ 16))"

record oop_pc_desc =
  opd_pc_off :: nat
  opd_bci :: nat
  opd_oopmap :: nat

text \<open>
  The driver's loops: a safepoint is its code offset, its bytecode index and its position; the table of maps starts
  with the reserved empty map, which all block starts point at, and the descriptors are sorted stably.\<close>

fun safepoint_descs ::
    "live_interval list \<Rightarrow> nat \<Rightarrow> (nat \<times> nat) list \<Rightarrow> nat set \<Rightarrow> (nat \<times> nat \<times> nat) list \<Rightarrow> oop_map list \<Rightarrow>
     (oop_map list \<times> oop_pc_desc list) res" where
  "safepoint_descs ivs frame_slots extra skip_vregs [] oopmaps = Inr (oopmaps, [])"
| "safepoint_descs ivs frame_slots extra skip_vregs ((pc_off, bci, position) # rest) oopmaps =
     rbind (build_for_position ivs frame_slots position extra skip_vregs) (\<lambda>m.
       let (oopmaps, idx) = intern oopmaps m in
         rbind (safepoint_descs ivs frame_slots extra skip_vregs rest oopmaps) (\<lambda>(oopmaps, descs).
           Inr (oopmaps, \<lparr>opd_pc_off = pc_off, opd_bci = bci, opd_oopmap = idx\<rparr> # descs)))"

definition oop_table ::
    "live_interval list \<Rightarrow> nat \<Rightarrow> (nat \<times> nat) list \<Rightarrow> nat set \<Rightarrow> (nat \<times> nat \<times> nat) list \<Rightarrow> (nat \<times> nat) list \<Rightarrow>
     (oop_map list \<times> oop_pc_desc list) res" where
  "oop_table ivs frame_slots extra skip_vregs safepoint_pcs block_pcs =
     rbind (safepoint_descs ivs frame_slots extra skip_vregs safepoint_pcs [oop_map_empty]) (\<lambda>(oopmaps, descs).
       Inr (oopmaps, sort_key opd_pc_off
              (map (\<lambda>(pc_off, bci). \<lparr>opd_pc_off = pc_off, opd_bci = bci, opd_oopmap = 0\<rparr>) block_pcs @ descs)))"

definition oopmap_at :: "nat \<Rightarrow> oop_map list \<Rightarrow> oop_pc_desc list \<Rightarrow> nat \<Rightarrow> oop_map res" where
  "oopmap_at code_base oopmaps pcdescs ret_pc =
     rbind (usub ret_pc code_base) (\<lambda>diff.
       let off = diff mod 2 ^ 32 in
         (case max_by_key (\<lambda>d. of_bool (opd_oopmap d \<noteq> 0)) (filter (\<lambda>(_, d). opd_pc_off d = off) (enumerate 0 pcdescs)) of
            None \<Rightarrow> Inl Explicit_panic
          | Some (idx, _) \<Rightarrow>
              guard_res (opd_oopmap (pcdescs ! idx) < length oopmaps) Index_out_of_bounds
                (Inr (oopmaps ! opd_oopmap (pcdescs ! idx)))))"

fun verify_slots :: "nat list \<Rightarrow> nat \<Rightarrow> bool list \<Rightarrow> unit res" where
  "verify_slots [] frame_slots slot_is_oop = Inr ()"
| "verify_slots (slot # slots) frame_slots slot_is_oop =
     guard_res (slot < frame_slots) Assert_failed
       (guard_res (slot < length slot_is_oop) Index_out_of_bounds
         (guard_res (slot_is_oop ! slot) Assert_failed (verify_slots slots frame_slots slot_is_oop)))"

fun verify_oopmaps :: "oop_map list \<Rightarrow> nat \<Rightarrow> bool list \<Rightarrow> unit res" where
  "verify_oopmaps [] frame_slots slot_is_oop = Inr ()"
| "verify_oopmaps (m # ms) frame_slots slot_is_oop =
     rbind (verify_slots (iter_slots m) frame_slots slot_is_oop) (\<lambda>_. verify_oopmaps ms frame_slots slot_is_oop)"

section \<open>Where the deoptimiser finds a value\<close>

definition slot_off :: "nat \<Rightarrow> i32" where
  "slot_off slot = - 8 * (word_of_nat slot + 1)"

fun resolve_interval :: "nat \<Rightarrow> nat \<Rightarrow> live_interval list \<Rightarrow> (nat \<times> nat) list \<Rightarrow> value_loc" where
  "resolve_interval vreg pos [] extra = NilLoc"
| "resolve_interval vreg pos (iv # ivs) extra =
     (if iv_vreg iv = vreg \<and> (iv_start iv \<le> pos \<and> pos < iv_end iv \<or> list_ex (\<lambda>(v, p). v = vreg \<and> p = pos) extra)
      then (case iv_assignment iv of
              Some (Spill slot) \<Rightarrow> (if iv_is_fp iv then DoubleSlot (slot_off slot) else FrameSlot (slot_off slot))
            | _ \<Rightarrow> resolve_interval vreg pos ivs extra)
      else resolve_interval vreg pos ivs extra)"

definition resolve_frame_loc ::
    "nat \<Rightarrow> nat \<Rightarrow> live_interval list \<Rightarrow> (nat \<times> nat) list \<Rightarrow> (nat \<rightharpoonup> i64) \<Rightarrow> (nat \<rightharpoonup> u32) \<Rightarrow> value_loc" where
  "resolve_frame_loc vreg pos intervals extra const_smi const_pool =
     (case const_smi vreg of
        Some v \<Rightarrow> ConstSmi v
      | None \<Rightarrow>
          (case const_pool vreg of
             Some ix \<Rightarrow> ConstPool ix
           | None \<Rightarrow> resolve_interval vreg pos intervals extra))"

section \<open>The bit set is the set\<close>

lemma oop_map_is_oop_bit: "oop_map_is_oop m k \<longleftrightarrow> k div 64 < length m \<and> bit (m ! (k div 64)) (k mod 64)"
  by (simp add: oop_map_is_oop_def Let_def bit_iff_and_drop_bit_eq_1 and_one_eq odd_iff_mod_2_eq_one)

lemma iter_slots_is_oop:
  assumes "length m \<le> 1024"
  shows "k \<in> set (iter_slots m) \<longleftrightarrow> oop_map_is_oop m k"
proof -
  have bits: "drop_bit b w AND 1 \<noteq> 0 \<longleftrightarrow> bit w b" for b and w :: u64
    by (simp add: bit_iff_and_drop_bit_eq_1 and_one_eq odd_iff_mod_2_eq_one)
  have "k \<in> set (iter_slots m) \<longleftrightarrow> (\<exists>w < length m. \<exists>b < 64. bit (m ! w) b \<and> k = (w * 64) mod 2 ^ 16 + b)"
  proof
    assume "\<exists>w < length m. \<exists>b < 64. bit (m ! w) b \<and> k = (w * 64) mod 2 ^ 16 + b"
    then obtain w b where w: "w < length m" "b < 64" "bit (m ! w) b" "k = (w * 64) mod 2 ^ 16 + b" by blast
    then have "(w, m ! w) \<in> set (enumerate 0 m)" by (simp add: in_set_enumerate_eq)
    with w show "k \<in> set (iter_slots m)" unfolding iter_slots_def bits by (auto intro!: bexI [of _ "(w, m ! w)"])
  qed (unfold iter_slots_def bits, auto simp: in_set_enumerate_eq)
  also have "\<dots> \<longleftrightarrow> (\<exists>w < length m. \<exists>b < 64. bit (m ! w) b \<and> k = w * 64 + b)"
    using assms by (intro ex_cong1 conj_cong refl) auto
  also have "\<dots> \<longleftrightarrow> oop_map_is_oop m k"
  proof
    assume "oop_map_is_oop m k"
    then show "\<exists>w < length m. \<exists>b < 64. bit (m ! w) b \<and> k = w * 64 + b"
      by (intro exI [of _ "k div 64"] conjI exI [of _ "k mod 64"]) (simp_all add: oop_map_is_oop_bit)
  qed (auto simp: oop_map_is_oop_bit)
  finally show ?thesis .
qed

lemma length_oop_map_set: "length (oop_map_set m s) = max (length m) (s div 64 + 1)"
  by (simp add: oop_map_set_def Let_def)

lemma oop_map_set_is_oop: "oop_map_is_oop (oop_map_set m s) k \<longleftrightarrow> k = s \<or> oop_map_is_oop m k"
proof -
  let ?w = "s div 64"
  let ?m = "if length m \<le> ?w then m @ replicate (?w + 1 - length m) 0 else m"
  have same: "oop_map_is_oop ?m k = oop_map_is_oop m k" by (auto simp: oop_map_is_oop_bit nth_append)
  have set_eq: "oop_map_set m s = ?m[?w := ?m ! ?w OR push_bit (s mod 64) 1]" by (simp add: oop_map_set_def Let_def)
  have one: "bit (2 ^ (s mod 64) :: u64) b \<longleftrightarrow> b = s mod 64" for b
    using mod_less_divisor [of 64 s] by (auto simp: bit_simps)
  show ?thesis
  proof (cases "k div 64 = ?w")
    case True
    have "k = s \<longleftrightarrow> k mod 64 = s mod 64" using True by (metis div_mult_mod_eq)
    then show ?thesis
      unfolding same [symmetric] unfolding set_eq
      using True by (simp add: oop_map_is_oop_bit bit_or_iff one disj_commute)
  next
    case False
    then show ?thesis
      unfolding same [symmetric] unfolding set_eq by (auto simp: oop_map_is_oop_bit)
  qed
qed

section \<open>The maps of one method\<close>

text \<open>The slots a collection has to visit at a position.\<close>

definition live_oop_slots :: "live_interval list \<Rightarrow> nat \<Rightarrow> (nat \<times> nat) list \<Rightarrow> nat set \<Rightarrow> nat set" where
  "live_oop_slots ivs position extra skip_vregs =
     {k. \<exists>iv \<in> set ivs. iv_is_oop iv \<and> iv_vreg iv \<notin> skip_vregs \<and> iv_assignment iv = Some (Spill k) \<and>
        (iv_start iv < position \<and> position < iv_end iv \<or> (iv_vreg iv, position) \<in> set extra)}"

lemma build_loop_ok:
  assumes "\<forall>iv \<in> set ivs. \<forall>k. iv_assignment iv = Some (Spill k) \<longrightarrow> k < n" "length m \<le> 1024" "n \<le> 2 ^ 16"
  shows "\<exists>m'. build_loop ivs n position exact skip m = Inr m' \<and> length m' \<le> 1024 \<and>
    (\<forall>k. oop_map_is_oop m' k \<longleftrightarrow> oop_map_is_oop m k \<or>
       (\<exists>iv \<in> set ivs. iv_is_oop iv \<and> iv_vreg iv \<notin> skip \<and> iv_assignment iv = Some (Spill k) \<and> slot_live iv position exact))"
  using assms
proof (induction ivs arbitrary: m)
  case (Cons iv ivs)
  show ?case
  proof (cases "\<exists>k. iv_is_oop iv \<and> iv_vreg iv \<notin> skip \<and> iv_assignment iv = Some (Spill k) \<and> slot_live iv position exact")
    case True
    then obtain k where k: "iv_is_oop iv" "iv_vreg iv \<notin> skip" "iv_assignment iv = Some (Spill k)" "slot_live iv position exact"
      by blast
    then have "k < n" using Cons.prems(1) by simp
    then have "length (oop_map_set m k) \<le> 1024" using Cons.prems(2,3) by (simp add: length_oop_map_set)
    from Cons.IH [OF _ this] Cons.prems(1,3) k \<open>k < n\<close> show ?thesis by (auto simp: oop_map_set_is_oop)
  next
    case False
    then have "build_loop (iv # ivs) n position exact skip m = build_loop ivs n position exact skip m"
      by (auto split: option.splits assignment.splits)
    with Cons.IH [of m] Cons.prems False show ?thesis by auto
  qed
qed (simp add: oop_map_is_oop_bit)

lemma build_for_position_ok:
  assumes "\<forall>iv \<in> set ivs. \<forall>k. iv_assignment iv = Some (Spill k) \<longrightarrow> k < n" "n \<le> 2 ^ 16"
  shows "\<exists>m. build_for_position ivs n position extra skip = Inr m \<and> set (iter_slots m) = live_oop_slots ivs position extra skip"
proof -
  obtain m where m: "build_for_position ivs n position extra skip = Inr m" "length m \<le> 1024"
    "\<forall>k. oop_map_is_oop m k \<longleftrightarrow> oop_map_is_oop oop_map_empty k \<or>
       (\<exists>iv \<in> set ivs. iv_is_oop iv \<and> iv_vreg iv \<notin> skip \<and> iv_assignment iv = Some (Spill k) \<and> slot_live iv position (exact_here position extra))"
    using build_loop_ok [OF assms(1) _ assms(2), of oop_map_empty position "exact_here position extra" skip]
    by (auto simp: build_for_position_def oop_map_empty_def)
  have "slot_live iv position (exact_here position extra) \<longleftrightarrow>
      iv_start iv < position \<and> position < iv_end iv \<or> (iv_vreg iv, position) \<in> set extra" for iv
    by (force simp: slot_live_def exact_here_def)
  then have "set (iter_slots m) = live_oop_slots ivs position extra skip"
    using m(3) by (auto simp: iter_slots_is_oop [OF m(2)] live_oop_slots_def oop_map_is_oop_bit oop_map_empty_def)
  with m(1) show ?thesis by blast
qed

lemma intern_ok:
  assumes "length oopmaps < 2 ^ 16" "intern oopmaps m = (oopmaps', idx)"
  shows "idx < length oopmaps' \<and> oopmaps' ! idx = m \<and> length oopmaps' \<le> Suc (length oopmaps) \<and>
    (\<exists>new. oopmaps' = oopmaps @ new \<and> set new \<subseteq> {m})"
proof (cases "List.find (\<lambda>i. oopmaps ! i = m) [0..<length oopmaps]")
  case None
  then show ?thesis using assms by (auto simp: intern_def)
next
  case (Some i)
  then have "i < length oopmaps" "oopmaps ! i = m" by (auto simp: find_Some_iff)
  then show ?thesis using assms Some by (auto simp: intern_def)
qed

lemma verify_slots_ok: "verify_slots slots n so = Inr () \<longleftrightarrow> (\<forall>k \<in> set slots. k < n \<and> k < length so \<and> so ! k)"
  by (induction slots) (auto simp: guard_res_def)

lemma verify_oopmaps_ok: "verify_oopmaps ms n so = Inr () \<longleftrightarrow> (\<forall>m \<in> set ms. verify_slots (iter_slots m) n so = Inr ())"
  by (induction ms) (auto simp: rbind_Inr_iff)

text \<open>The safepoint loop: the table only grows, and each descriptor selects a map with exactly the live slots.\<close>

lemma safepoint_descs_ok:
  assumes "\<forall>iv \<in> set ivs. \<forall>k. iv_assignment iv = Some (Spill k) \<longrightarrow> k < n" "n \<le> 2 ^ 16"
    and "length oopmaps + length sps \<le> 2 ^ 16"
  shows "\<exists>oopmaps' descs. safepoint_descs ivs n extra skip sps oopmaps = Inr (oopmaps', descs) \<and>
    (\<exists>new. oopmaps' = oopmaps @ new \<and> (\<forall>m \<in> set new. \<exists>(_, _, position) \<in> set sps. set (iter_slots m) = live_oop_slots ivs position extra skip)) \<and>
    map opd_pc_off descs = map fst sps \<and>
    (\<forall>i < length sps. opd_oopmap (descs ! i) < length oopmaps' \<and>
       set (iter_slots (oopmaps' ! opd_oopmap (descs ! i))) = live_oop_slots ivs (snd (snd (sps ! i))) extra skip)"
  using assms(3)
proof (induction sps arbitrary: oopmaps)
  case (Cons sp sps)
  obtain pc_off bci position where sp: "sp = (pc_off, bci, position)" by (cases sp)
  obtain m where m: "build_for_position ivs n position extra skip = Inr m" "set (iter_slots m) = live_oop_slots ivs position extra skip"
    using build_for_position_ok [OF assms(1,2)] by blast
  obtain oopmaps1 idx where int: "intern oopmaps m = (oopmaps1, idx)" by (cases "intern oopmaps m")
  obtain new1 where i1: "idx < length oopmaps1" "oopmaps1 ! idx = m" "length oopmaps1 \<le> Suc (length oopmaps)"
    "oopmaps1 = oopmaps @ new1" "set new1 \<subseteq> {m}"
    using intern_ok [OF _ int] Cons.prems by auto
  then have "length oopmaps1 + length sps \<le> 2 ^ 16" using Cons.prems by simp
  from Cons.IH [OF this] obtain oopmaps' descs new where r: "safepoint_descs ivs n extra skip sps oopmaps1 = Inr (oopmaps', descs)"
    "oopmaps' = oopmaps1 @ new" "\<forall>m \<in> set new. \<exists>(_, _, position) \<in> set sps. set (iter_slots m) = live_oop_slots ivs position extra skip"
    "map opd_pc_off descs = map fst sps"
    "\<forall>i < length sps. opd_oopmap (descs ! i) < length oopmaps' \<and>
       set (iter_slots (oopmaps' ! opd_oopmap (descs ! i))) = live_oop_slots ivs (snd (snd (sps ! i))) extra skip"
    by blast
  let ?d = "\<lparr>opd_pc_off = pc_off, opd_bci = bci, opd_oopmap = idx\<rparr>"
  have "safepoint_descs ivs n extra skip (sp # sps) oopmaps = Inr (oopmaps', ?d # descs)"
    by (simp add: sp m(1) int r(1))
  moreover have "oopmaps' = oopmaps @ (new1 @ new)" using r(2) i1(4) by simp
  moreover have "\<forall>m \<in> set (new1 @ new). \<exists>(_, _, position) \<in> set (sp # sps). set (iter_slots m) = live_oop_slots ivs position extra skip"
    using r(3) i1(5) m(2) sp by auto
  moreover have "\<forall>i < length (sp # sps). opd_oopmap ((?d # descs) ! i) < length oopmaps' \<and>
       set (iter_slots (oopmaps' ! opd_oopmap ((?d # descs) ! i))) = live_oop_slots ivs (snd (snd ((sp # sps) ! i))) extra skip"
    using r(2,5) i1(1,2) m(2) sp by (auto simp: less_Suc_eq_0_disj nth_append)
  moreover have "map opd_pc_off (?d # descs) = map fst (sp # sps)" using r(4) sp by simp
  ultimately show ?case by blast
qed simp

lemma max_by_key_max: "max_by_key key xs = Some y \<Longrightarrow> x \<in> set xs \<Longrightarrow> key (snd x) \<le> key (snd y)"
  by (induction xs arbitrary: y) (force split: option.splits if_splits simp: max_by_key_None)+

text \<open>A block start that shares its offset with a safepoint never hides the safepoint's map.\<close>

lemma oopmap_at_prefers_safepoint:
  assumes "d \<in> set descs" "opd_pc_off d = pc" "pc < 2 ^ 32" "opd_oopmap d < length oopmaps"
    and "\<forall>d' \<in> set descs. opd_pc_off d' = pc \<longrightarrow> opd_oopmap d' \<in> {0, opd_oopmap d}"
  shows "oopmap_at base oopmaps descs (base + pc) = Inr (oopmaps ! opd_oopmap d)"
proof -
  let ?key = "\<lambda>d. of_bool (opd_oopmap d \<noteq> 0) :: nat" and ?xs = "filter (\<lambda>(_, d). opd_pc_off d = pc) (enumerate 0 descs)"
  obtain i where i: "i < length descs" "descs ! i = d" using assms(1) by (auto simp: in_set_conv_nth)
  then have mem: "(i, d) \<in> set ?xs" using assms(2) by (auto simp: in_set_enumerate_eq)
  then have "max_by_key ?key ?xs \<noteq> None" by (auto simp: max_by_key_None filter_empty_conv)
  then obtain j d' where m: "max_by_key ?key ?xs = Some (j, d')" by auto
  have j: "d' = descs ! j" "j < length descs" "opd_pc_off d' = pc"
    using max_by_key_mem [OF m] by (auto simp: in_set_enumerate_eq)
  have "opd_oopmap d \<noteq> 0 \<longrightarrow> opd_oopmap d' \<noteq> 0"
    using max_by_key_max [OF m mem] by (auto simp: of_bool_def split: if_splits)
  then have "opd_oopmap d' = opd_oopmap d" using assms(5) j nth_mem by fastforce
  then show ?thesis using m j assms(3,4) by (simp add: oopmap_at_def)
qed

lemma allocated_slots:
  assumes "\<forall>iv \<in> set ivs. iv_assignment iv = None" "length ivs < 2 ^ 16" "allocate ivs = Inr (ivs', n, so)"
  shows "\<forall>iv \<in> set ivs'. \<forall>k. iv_assignment iv = Some (Spill k) \<longrightarrow> k < n \<and> so ! k = iv_is_oop iv"
    and "n = length so" "n \<le> 2 ^ 16" "length ivs' = length ivs" "map unassigned ivs' = map unassigned ivs"
    and "i < length ivs' \<Longrightarrow> j < length ivs' \<Longrightarrow> iv_assignment (ivs' ! i) = Some (Spill k) \<Longrightarrow> iv_assignment (ivs' ! j) = Some (Spill k) \<Longrightarrow> i = j"
proof -
  have ok: "same_but_assignment ivs ivs'" "allocation_ok ivs' n so"
    using allocate_ok [OF assms(1,2)] assms(3) by auto
  show "n = length so" using ok(2) by (simp add: allocation_ok_def)
  show "length ivs' = length ivs" by (rule same_but_assignmentD(1) [OF ok(1)])
  show "map unassigned ivs' = map unassigned ivs" using ok(1) by (simp add: same_but_assignment_def)
  have "n = n' mod 2 ^ 16 \<Longrightarrow> n \<le> 2 ^ 16" for n' :: nat using mod_less_divisor [of "2 ^ 16" n'] by simp
  then show "n \<le> 2 ^ 16" using assms(3) by (auto simp: allocate_def rbind_Inr_iff split: prod.splits)
  show "\<forall>iv \<in> set ivs'. \<forall>k. iv_assignment iv = Some (Spill k) \<longrightarrow> k < n \<and> so ! k = iv_is_oop iv"
    using ok(2) by (fastforce simp: allocation_ok_def in_set_conv_nth split: option.splits assignment.splits)
  show "i < length ivs' \<Longrightarrow> j < length ivs' \<Longrightarrow> iv_assignment (ivs' ! i) = Some (Spill k) \<Longrightarrow> iv_assignment (ivs' ! j) = Some (Spill k) \<Longrightarrow> i = j"
    using ok(2) unfolding allocation_ok_def by (metis assignment.distinct(1) option.inject)
qed

section \<open>Properties\<close>

text \<open>
  C18: the collector scans exactly the live oop slots. For every allocation, the driver's oop-map table is built
  without stopping and passes the verifier; and at the return address of every safepoint, even where a block starts at
  the same address, the table answers a map whose slots are exactly the frame slots that hold a live oop there.\<close>

theorem gc_scans_live_slots:
  assumes "\<forall>iv \<in> set ivs. iv_assignment iv = None" "length ivs < 2 ^ 16" "allocate ivs = Inr (ivs', n, so)"
    and "distinct (map fst sps)" "\<forall>pc \<in> fst ` set sps. pc < 2 ^ 32" "length sps < 2 ^ 16"
  shows "\<exists>oopmaps descs. oop_table ivs' n extra skip sps block_pcs = Inr (oopmaps, descs) \<and>
    verify_oopmaps oopmaps n so = Inr () \<and>
    (\<forall>(pc, bci, position) \<in> set sps. \<exists>m. oopmap_at base oopmaps descs (base + pc) = Inr m \<and>
       set (iter_slots m) = live_oop_slots ivs' position extra skip)"
proof -
  note A = allocated_slots [OF assms(1-3)]
  have slots: "\<forall>iv \<in> set ivs'. \<forall>k. iv_assignment iv = Some (Spill k) \<longrightarrow> k < n" using A(1) by blast
  obtain oopmaps ds new where t: "safepoint_descs ivs' n extra skip sps [oop_map_empty] = Inr (oopmaps, ds)"
    "oopmaps = oop_map_empty # new" "\<forall>m \<in> set new. \<exists>(_, _, position) \<in> set sps. set (iter_slots m) = live_oop_slots ivs' position extra skip"
    "map opd_pc_off ds = map fst sps"
    "\<forall>i < length sps. opd_oopmap (ds ! i) < length oopmaps \<and>
       set (iter_slots (oopmaps ! opd_oopmap (ds ! i))) = live_oop_slots ivs' (snd (snd (sps ! i))) extra skip"
    using safepoint_descs_ok [OF slots A(3), of "[oop_map_empty]" sps extra skip] assms(6) by auto
  let ?blocks = "map (\<lambda>(pc_off, bci). \<lparr>opd_pc_off = pc_off, opd_bci = bci, opd_oopmap = 0\<rparr>) block_pcs"
  let ?descs = "sort_key opd_pc_off (?blocks @ ds)"
  have len: "length ds = length sps" using map_eq_imp_length_eq [OF t(4)] .
  have "\<forall>k \<in> live_oop_slots ivs' position extra skip. k < n \<and> k < length so \<and> so ! k" for position
    using A(1,2) by (fastforce simp: live_oop_slots_def)
  then have "\<forall>m \<in> set new. verify_slots (iter_slots m) n so = Inr ()"
    using t(3) by (fastforce simp: verify_slots_ok)
  moreover have "iter_slots oop_map_empty = []" by (simp add: iter_slots_def oop_map_empty_def)
  ultimately have "verify_oopmaps oopmaps n so = Inr ()" by (simp add: verify_oopmaps_ok t(2))
  moreover have "oopmap_at base oopmaps ?descs (base + fst (sps ! i)) = Inr (oopmaps ! opd_oopmap (ds ! i))" if i: "i < length sps" for i
  proof (rule oopmap_at_prefers_safepoint)
    have pc: "opd_pc_off (ds ! j) = fst (sps ! j)" if "j < length sps" for j using t(4) that len by (metis nth_map)
    show "ds ! i \<in> set ?descs" using i len by simp
    show "opd_pc_off (ds ! i) = fst (sps ! i)" by (rule pc [OF i])
    show "fst (sps ! i) < 2 ^ 32" using assms(5) i by simp
    show "opd_oopmap (ds ! i) < length oopmaps" using t(5) i by blast
    show "\<forall>d' \<in> set ?descs. opd_pc_off d' = fst (sps ! i) \<longrightarrow> opd_oopmap d' \<in> {0, opd_oopmap (ds ! i)}"
    proof (intro ballI impI)
      fix d'
      assume d': "d' \<in> set ?descs" "opd_pc_off d' = fst (sps ! i)"
      show "opd_oopmap d' \<in> {0, opd_oopmap (ds ! i)}"
      proof (cases "d' \<in> set ds")
        case True
        then obtain j where j: "j < length sps" "d' = ds ! j" using len by (auto simp: in_set_conv_nth)
        then have "map fst sps ! j = map fst sps ! i" using d'(2) pc [of j] i by simp
        then have "j = i" using nth_eq_iff_index_eq [OF assms(4), of j i] j(1) i by simp
        then show ?thesis using j(2) by simp
      next
        case False
        then show ?thesis using d'(1) by auto
      qed
    qed
  qed
  then have "\<forall>(pc, bci, position) \<in> set sps. \<exists>m. oopmap_at base oopmaps ?descs (base + pc) = Inr m \<and>
       set (iter_slots m) = live_oop_slots ivs' position extra skip"
    using t(5) by (fastforce simp: in_set_conv_nth)
  moreover have "oop_table ivs' n extra skip sps block_pcs = Inr (oopmaps, ?descs)" using t(1) by (simp add: oop_table_def)
  ultimately show ?thesis by blast
qed

theorem gc_scans_live_slots_witness:
  "allocate example_intervals = Inr (allocated_intervals, 1, [True]) \<and>
   (\<exists>oopmaps descs. oop_table allocated_intervals 1 [] {} [(8, 0, 3), (20, 1, 10)] [(8, 0)] = Inr (oopmaps, descs) \<and>
      verify_oopmaps oopmaps 1 [True] = Inr () \<and>
      (\<exists>m. oopmap_at 0x4000 oopmaps descs 0x4008 = Inr m \<and> set (iter_slots m) = {0}) \<and>
      (\<exists>m. oopmap_at 0x4000 oopmaps descs 0x4014 = Inr m \<and> set (iter_slots m) = {}))"
proof -
  have hyps: "\<forall>iv \<in> set example_intervals. iv_assignment iv = None" "length example_intervals < 2 ^ 16"
    "allocate example_intervals = Inr (allocated_intervals, 1, [True])"
    "distinct (map fst [(8 :: nat, 0 :: nat, 3 :: nat), (20, 1, 10)])" "\<forall>pc \<in> fst ` set [(8 :: nat, 0 :: nat, 3 :: nat), (20, 1, 10)]. pc < 2 ^ 32"
    "length [(8 :: nat, 0 :: nat, 3 :: nat), (20, 1, 10)] < 2 ^ 16"
    using example_allocated by (simp_all add: example_intervals_def interval_def)
  have live: "live_oop_slots allocated_intervals 3 [] {} = {0}" "live_oop_slots allocated_intervals 10 [] {} = {}"
    by (auto simp: live_oop_slots_def allocated_intervals_def interval_def)
  show ?thesis
    using gc_scans_live_slots [OF hyps, of "[]" "{}" "[(8, 0)]" "0x4000"] hyps(3) by (auto simp: live)
qed

section \<open>Deoptimisation and collection agree\<close>

lemma slot_off_inj: "j < 2 ^ 16 \<Longrightarrow> k < 2 ^ 16 \<Longrightarrow> slot_off j = slot_off k \<Longrightarrow> j = k"
proof -
  assume j: "j < 2 ^ 16" "k < 2 ^ 16" "slot_off j = slot_off k"
  have off: "slot_off i = - word_of_nat (8 * (i + 1))" for i by (simp add: slot_off_def)
  then have "word_of_nat (8 * (j + 1)) = (word_of_nat (8 * (k + 1)) :: i32)" using j(3) by (simp only: neg_equal_iff_equal)
  then have "unat (word_of_nat (8 * (j + 1)) :: i32) = unat (word_of_nat (8 * (k + 1)) :: i32)" by simp
  then show "j = k" using j(1,2) by (simp only: unat_of_nat) simp
qed

lemma resolve_interval_unique:
  assumes "distinct (map iv_vreg ivs)" "iv \<in> set ivs"
  shows "resolve_interval (iv_vreg iv) pos ivs extra =
    (case iv_assignment iv of
       Some (Spill k) \<Rightarrow>
         if iv_start iv \<le> pos \<and> pos < iv_end iv \<or> (iv_vreg iv, pos) \<in> set extra
         then (if iv_is_fp iv then DoubleSlot (slot_off k) else FrameSlot (slot_off k)) else NilLoc
     | _ \<Rightarrow> NilLoc)"
proof -
  have none: "v \<notin> iv_vreg ` set ivs \<Longrightarrow> resolve_interval v pos ivs extra = NilLoc" for v ivs
    by (induction ivs) auto
  have exact: "list_ex (\<lambda>(v', p). v' = v \<and> p = pos) extra \<longleftrightarrow> (v, pos) \<in> set extra" for v
    by (auto simp: list_ex_iff)
  show ?thesis
    using assms
  proof (induction ivs)
    case (Cons iv' ivs)
    show ?case
    proof (cases "iv' = iv")
      case True
      then show ?thesis using Cons.prems(1) none [of "iv_vreg iv" ivs] by (simp add: exact split: option.split assignment.split)
    next
      case False
      then have "iv \<in> set ivs" "iv_vreg iv' \<noteq> iv_vreg iv" using Cons.prems by auto
      then show ?thesis using Cons by simp
    qed
  qed simp
qed

text \<open>
  C26: the deoptimiser reads a value where the collector updates it. For every allocation and every position, an oop
  interval that is not rematerialised from a constant is resolved to a frame slot \<open>k\<close> exactly when it owns \<open>k\<close> and the
  oop map of that position contains \<open>k\<close>. The one exception, in both directions accounted for, is an interval that starts
  at this very safepoint: the call's own result, whose slot holds nothing yet, is left out of the map.\<close>

theorem deopt_reads_scanned_slots:
  assumes "\<forall>iv \<in> set ivs. iv_assignment iv = None" "length ivs < 2 ^ 16" "allocate ivs = Inr (ivs', n, so)"
    and "distinct (map iv_vreg ivs)" "iv \<in> set ivs'" "iv_is_oop iv" "\<not> iv_is_fp iv" "const_smi (iv_vreg iv) = None" "const_pool (iv_vreg iv) = None"
    and "build_for_position ivs' n pos extra (dom const_smi \<union> dom const_pool) = Inr m" "k < n"
  shows "(resolve_frame_loc (iv_vreg iv) pos ivs' extra const_smi const_pool = FrameSlot (slot_off k)) \<longleftrightarrow>
    iv_assignment iv = Some (Spill k) \<and>
    (k \<in> set (iter_slots m) \<or> iv_start iv = pos \<and> pos < iv_end iv)"
proof -
  note A = allocated_slots [OF assms(1-3)]
  have "map iv_vreg ivs' = map iv_vreg (map unassigned ivs')" by (simp add: unassigned_def)
  also have "\<dots> = map iv_vreg ivs" unfolding A(5) by (simp add: unassigned_def)
  finally have dist: "distinct (map iv_vreg ivs')" using assms(4) by simp
  have slots: "\<forall>iv \<in> set ivs'. \<forall>k. iv_assignment iv = Some (Spill k) \<longrightarrow> k < n" using A(1) by blast
  then have m: "set (iter_slots m) = live_oop_slots ivs' pos extra (dom const_smi \<union> dom const_pool)"
    using build_for_position_ok [OF slots A(3), of pos extra "dom const_smi \<union> dom const_pool"] assms(10) by auto
  have owner: "iv' = iv" if "iv' \<in> set ivs'" "iv_assignment iv' = Some (Spill k)" "iv_assignment iv = Some (Spill k)" for iv'
    using A(6) that assms(5) by (metis in_set_conv_nth)
  have kept: "iv_vreg iv \<notin> dom const_smi \<union> dom const_pool" using assms(8,9) by (simp add: domIff)
  have live: "k \<in> set (iter_slots m) \<longleftrightarrow> (iv_start iv < pos \<and> pos < iv_end iv \<or> (iv_vreg iv, pos) \<in> set extra)"
    if "iv_assignment iv = Some (Spill k)"
    using owner [OF _ _ that] that assms(5,6) kept unfolding m live_oop_slots_def mem_Collect_eq by blast
  have off: "slot_off k' = slot_off k \<longleftrightarrow> k' = k" if "iv_assignment iv = Some (Spill k')" for k'
    using slot_off_inj [of k' k] slots that assms(5,11) A(3) by fastforce
  have "resolve_frame_loc (iv_vreg iv) pos ivs' extra const_smi const_pool = resolve_interval (iv_vreg iv) pos ivs' extra"
    using assms(8,9) by (simp add: resolve_frame_loc_def)
  moreover have not_fp: "iv_is_fp iv = False" using assms(7) by simp
  ultimately have res: "resolve_frame_loc (iv_vreg iv) pos ivs' extra const_smi const_pool =
      (case iv_assignment iv of
         Some (Spill k) \<Rightarrow>
           if iv_start iv \<le> pos \<and> pos < iv_end iv \<or> (iv_vreg iv, pos) \<in> set extra then FrameSlot (slot_off k) else NilLoc
       | _ \<Rightarrow> NilLoc)"
    using resolve_interval_unique [OF dist assms(5), of pos extra] unfolding not_fp if_False by (simp only:)
  show ?thesis
  proof (cases "\<exists>k'. iv_assignment iv = Some (Spill k')")
    case True
    then obtain k' where k': "iv_assignment iv = Some (Spill k')" by blast
    show ?thesis
    proof (cases "k' = k")
      case True
      with k' live show ?thesis by (auto simp: res)
    next
      case False
      with k' off [OF k'] show ?thesis by (auto simp: res)
    qed
  next
    case False
    then show ?thesis unfolding res by (auto split: option.splits assignment.splits)
  qed
qed

theorem deopt_reads_scanned_slots_witness:
  "build_for_position allocated_intervals 1 3 [] (dom (Map.empty :: nat \<rightharpoonup> i64) \<union> dom (Map.empty :: nat \<rightharpoonup> u32)) = Inr [1] \<and>
   iv_assignment (allocated_intervals ! 0) = Some (Spill 0) \<and> 0 \<in> set (iter_slots [1]) \<and>
   resolve_frame_loc 0 3 allocated_intervals [] Map.empty Map.empty = FrameSlot (slot_off 0)"
proof -
  let ?iv = "allocated_intervals ! 0"
  have hyps: "\<forall>iv \<in> set example_intervals. iv_assignment iv = None" "length example_intervals < 2 ^ 16"
    "allocate example_intervals = Inr (allocated_intervals, 1, [True])" "distinct (map iv_vreg example_intervals)"
    "?iv \<in> set allocated_intervals" "iv_is_oop ?iv" "\<not> iv_is_fp ?iv"
    "Map.empty (iv_vreg ?iv) = (None :: i64 option)" "Map.empty (iv_vreg ?iv) = (None :: u32 option)"
    using example_allocated by (simp_all add: example_intervals_def allocated_intervals_def interval_def)
  have m: "build_for_position allocated_intervals 1 3 [] (dom (Map.empty :: nat \<rightharpoonup> i64) \<union> dom (Map.empty :: nat \<rightharpoonup> u32)) = Inr [1]"
    by (simp add: build_for_position_def allocated_intervals_def interval_def slot_live_def exact_here_def oop_map_set_def oop_map_empty_def)
  have zero: "0 \<in> set (iter_slots [1])" by (simp add: iter_slots_is_oop oop_map_is_oop_bit)
  have "iv_vreg ?iv = 0" "iv_assignment ?iv = Some (Spill 0)" by (simp_all add: allocated_intervals_def interval_def)
  with m zero deopt_reads_scanned_slots [OF hyps m, of 0] show ?thesis by simp
qed

end
