(* ===== verification/TypeSyntax.thy ===== *)
theory TypeSyntax
  imports Prelude
begin

text \<open>
  The type-annotation syntax: its data type, printer and parser (\<open>src/src/types/type_expr.rs\<close>).

  A parser position is the remaining text. Annotation text is taken to be ASCII, so a character is one
  byte and \<open>is_whitespace\<close>, \<open>is_alphabetic\<close> and \<open>is_alphanumeric\<close> are their ASCII cases. A parse error
  carries what its message is built from. The recursive-descent functions are bounded by a fuel
  argument, \<open>None\<close> being out of fuel; \<open>parse\<close> supplies two more than the length of the text, which is
  shown to be enough for every text.
\<close>

section \<open>Type expressions\<close>

datatype type_expr =
    Named string
  | Generic string "type_expr list"
  | Block "type_expr list" "type_expr option"
  | Union "type_expr list"
  | InferenceDef type_expr

fun commas :: "string list \<Rightarrow> string" where
  "commas [] = []"
| "commas [x] = x"
| "commas (x # xs) = x @ '','' @ commas xs"

fun bars :: "string list \<Rightarrow> string" where
  "bars [] = []"
| "bars [x] = x"
| "bars (x # xs) = x @ ''|'' @ bars xs"

fun show_type :: "type_expr \<Rightarrow> string" where
  "show_type (Named n) = n"
| "show_type (Generic h args) = h @ ''['' @ commas (map show_type args) @ '']''"
| "show_type (Block args ret) =
     ''['' @ commas (map show_type args)
     @ (case ret of None \<Rightarrow> [] | Some r \<Rightarrow> (if args = [] then [] else '','') @ ''^'' @ show_type r) @ '']''"
| "show_type (Union vs) = bars (map show_type vs)"
| "show_type (InferenceDef e) = show_type e @ '' def''"

section \<open>The scanner\<close>

definition is_whitespace :: "char \<Rightarrow> bool" where
  "is_whitespace c \<longleftrightarrow> c \<in> {CHR '' '', CHR 0x09, CHR 0x0A, CHR 0x0B, CHR 0x0C, CHR 0x0D}"

definition is_alphabetic :: "char \<Rightarrow> bool" where
  "is_alphabetic c \<longleftrightarrow> (65 \<le> (of_char c :: nat) \<and> (of_char c :: nat) \<le> 90) \<or> (97 \<le> (of_char c :: nat) \<and> (of_char c :: nat) \<le> 122)"

definition is_alphanumeric :: "char \<Rightarrow> bool" where
  "is_alphanumeric c \<longleftrightarrow> is_alphabetic c \<or> (48 \<le> (of_char c :: nat) \<and> (of_char c :: nat) \<le> 57)"

definition ident_start :: "char \<Rightarrow> bool" where
  "ident_start c \<longleftrightarrow> is_alphabetic c \<or> c = CHR ''_''"

definition ident_char :: "char \<Rightarrow> bool" where
  "ident_char c \<longleftrightarrow> is_alphanumeric c \<or> c = CHR ''_''"

definition skip_ws :: "string \<Rightarrow> string" where
  "skip_ws s = dropWhile is_whitespace s"

definition peek_immediate :: "string \<Rightarrow> char option" where
  "peek_immediate s = (case s of [] \<Rightarrow> None | c # _ \<Rightarrow> Some c)"

definition peek :: "string \<Rightarrow> char option" where
  "peek s = peek_immediate (skip_ws s)"

definition bump :: "string \<Rightarrow> string" where
  "bump s = (case s of [] \<Rightarrow> [] | _ # r \<Rightarrow> r)"

definition read_ident :: "string \<Rightarrow> (string \<times> string) option" where
  "read_ident s =
     (case skip_ws s of
        [] \<Rightarrow> None
      | c # r \<Rightarrow> if ident_start c then Some (c # takeWhile ident_char r, dropWhile ident_char r) else None)"

section \<open>The parser\<close>

datatype parse_error =
    Trailing_text string
  | Expected_type "char option"
  | No_type_arguments string
  | Expected_char char "char option"

type_synonym 'a presult = "(parse_error + 'a \<times> string) option"

definition pbind :: "'a presult \<Rightarrow> ('a \<Rightarrow> string \<Rightarrow> 'b presult) \<Rightarrow> 'b presult" where
  "pbind p f = (case p of None \<Rightarrow> None | Some (Inl e) \<Rightarrow> Some (Inl e) | Some (Inr (a, r)) \<Rightarrow> f a r)"

definition expect_char :: "char \<Rightarrow> string \<Rightarrow> unit presult" where
  "expect_char want s =
     (if peek s = Some want then Some (Inr ((), bump (skip_ws s))) else Some (Inl (Expected_char want (peek s))))"

text \<open>The loops and the productions take the recursive call \<open>parse_type_expr\<close> as the argument \<open>pte\<close> and the
  bound on their iterations as \<open>n\<close>.\<close>

type_synonym pte = "string \<Rightarrow> type_expr presult"

fun parse_list_loop :: "nat \<Rightarrow> pte \<Rightarrow> type_expr list \<Rightarrow> string \<Rightarrow> type_expr list presult" where
  "parse_list_loop 0 pte args s = None"
| "parse_list_loop (Suc n) pte args s =
     pbind (pte s) (\<lambda>e r.
       if peek r = Some (CHR '','') then parse_list_loop n pte (args @ [e]) (bump (skip_ws r))
       else Some (Inr (args @ [e], skip_ws r)))"

definition parse_type_list :: "nat \<Rightarrow> pte \<Rightarrow> string \<Rightarrow> type_expr list presult" where
  "parse_type_list n pte s =
     (if peek s = Some (CHR '']'') then Some (Inr ([], skip_ws s)) else parse_list_loop n pte [] (skip_ws s))"

fun parse_block_loop :: "nat \<Rightarrow> pte \<Rightarrow> type_expr list \<Rightarrow> string \<Rightarrow> (type_expr list \<times> type_expr option) presult" where
  "parse_block_loop 0 pte args s = None"
| "parse_block_loop (Suc n) pte args s =
     (if peek s = Some (CHR ''^'') then
        pbind (pte (bump (skip_ws s))) (\<lambda>e r. Some (Inr ((args, Some e), r)))
      else pbind (pte (skip_ws s)) (\<lambda>e r.
        if peek r = Some (CHR '','') then parse_block_loop n pte (args @ [e]) (bump (skip_ws r))
        else Some (Inr ((args @ [e], None), skip_ws r))))"

definition parse_block_body :: "nat \<Rightarrow> pte \<Rightarrow> string \<Rightarrow> type_expr presult" where
  "parse_block_body n pte s =
     pbind (if peek s \<noteq> Some (CHR '']'') then parse_block_loop n pte [] (skip_ws s) else Some (Inr (([], None), skip_ws s)))
       (\<lambda>(args, ret) r. pbind (expect_char (CHR '']'') r) (\<lambda>_ r2. Some (Inr (Block args ret, r2))))"

definition parse_atom :: "nat \<Rightarrow> pte \<Rightarrow> string \<Rightarrow> type_expr presult" where
  "parse_atom n pte s =
     (if peek s = Some (CHR ''['') then parse_block_body n pte (bump (skip_ws s))
      else case read_ident s of
        None \<Rightarrow> Some (Inl (Expected_type (peek s)))
      | Some (name, r) \<Rightarrow>
          if peek_immediate r = Some (CHR ''['') then
            pbind (parse_type_list n pte (bump r)) (\<lambda>args r1.
              if args = [] then Some (Inl (No_type_arguments name))
              else pbind (expect_char (CHR '']'') r1) (\<lambda>_ r2. Some (Inr (Generic name args, r2))))
          else Some (Inr (Named name, r)))"

fun parse_union_rest :: "nat \<Rightarrow> pte \<Rightarrow> nat \<Rightarrow> type_expr list \<Rightarrow> string \<Rightarrow> type_expr presult" where
  "parse_union_rest m pte 0 vs s = None"
| "parse_union_rest m pte (Suc n) vs s =
     (if peek s = Some (CHR ''|'') then
        pbind (parse_atom m pte (bump (skip_ws s))) (\<lambda>a r. parse_union_rest m pte n (vs @ [a]) r)
      else Some (Inr (if length vs = 1 then hd vs else Union vs, skip_ws s)))"

definition parse_union :: "nat \<Rightarrow> pte \<Rightarrow> string \<Rightarrow> type_expr presult" where
  "parse_union n pte s = pbind (parse_atom n pte s) (\<lambda>a r. parse_union_rest n pte n [a] r)"

fun parse_type_expr :: "nat \<Rightarrow> string \<Rightarrow> type_expr presult" where
  "parse_type_expr 0 s = None"
| "parse_type_expr (Suc n) s =
     pbind (parse_union n (parse_type_expr n) s) (\<lambda>e r.
       case read_ident r of
         Some (w, r') \<Rightarrow> if w = ''def'' then Some (Inr (InferenceDef e, r')) else Some (Inr (e, r))
       | None \<Rightarrow> Some (Inr (e, r)))"

definition parse :: "string \<Rightarrow> (parse_error + type_expr) option" where
  "parse text =
     (case parse_type_expr (length text + 2) text of
        None \<Rightarrow> None
      | Some (Inl e) \<Rightarrow> Some (Inl e)
      | Some (Inr (e, r)) \<Rightarrow> if skip_ws r = [] then Some (Inr e) else Some (Inl (Trailing_text (skip_ws r))))"

section \<open>The expressions of the grammar\<close>

definition is_ident :: "string \<Rightarrow> bool" where
  "is_ident s \<longleftrightarrow> s \<noteq> [] \<and> ident_start (hd s) \<and> list_all ident_char (tl s)"

fun wf_atom :: "type_expr \<Rightarrow> bool"
and wf_union :: "type_expr \<Rightarrow> bool"
and wf_type :: "type_expr \<Rightarrow> bool" where
  "wf_atom (Named n) = is_ident n"
| "wf_atom (Generic h args) = (is_ident h \<and> args \<noteq> [] \<and> (\<forall>a \<in> set args. wf_type a))"
| "wf_atom (Block args ret) = ((\<forall>a \<in> set args. wf_type a) \<and> (case ret of None \<Rightarrow> True | Some r \<Rightarrow> wf_type r))"
| "wf_atom _ = False"
| "wf_union (Union vs) = (2 \<le> length vs \<and> (\<forall>v \<in> set vs. wf_atom v))"
| "wf_union e = wf_atom e"
| "wf_type (InferenceDef e) = wf_union e"
| "wf_type e = wf_union e"

section \<open>Scanning\<close>

lemma skip_ws_length: "length (skip_ws s) \<le> length s"
  by (simp add: skip_ws_def length_dropWhile_le)

lemma bump_length: "peek s = Some c \<Longrightarrow> length (bump (skip_ws s)) < length s"
  using skip_ws_length [of s] by (auto simp: peek_def peek_immediate_def bump_def split: list.splits)

lemma bump_immediate_length: "peek_immediate s = Some c \<Longrightarrow> length (bump s) < length s"
  by (auto simp: peek_immediate_def bump_def split: list.splits)

lemma read_ident_length: "read_ident s = Some (w, r) \<Longrightarrow> length r < length s"
  using skip_ws_length [of s] length_dropWhile_le [of ident_char "tl (skip_ws s)"]
  by (auto simp: read_ident_def split: list.splits if_splits)

lemma read_ident_is_ident: "read_ident s = Some (w, r) \<Longrightarrow> is_ident w"
  by (auto simp: read_ident_def is_ident_def list_all_iff split: list.splits if_splits dest: set_takeWhileD)

lemma pbind_Some_Inr: "pbind p f = Some (Inr x) \<longleftrightarrow> (\<exists>a r. p = Some (Inr (a, r)) \<and> f a r = Some (Inr x))"
  by (auto simp: pbind_def split: option.splits sum.splits prod.splits)

lemma pbind_simps [simp]:
  "pbind None f = None" "pbind (Some (Inl e)) f = Some (Inl e)" "pbind (Some (Inr (a, r))) f = f a r"
  by (simp_all add: pbind_def)

lemma expect_char_length: "expect_char c s = Some (Inr (u, r)) \<Longrightarrow> length r < length s"
  using bump_length by (auto simp: expect_char_def split: if_splits)

lemma expect_char_returns: "expect_char c s \<noteq> None"
  by (simp add: expect_char_def)

section \<open>The parser always answers\<close>

text \<open>A result is within a bound if it is an answer, and a success leaves less than that much text.\<close>

definition within :: "nat \<Rightarrow> 'a presult \<Rightarrow> bool" where
  "within b q \<longleftrightarrow> q \<noteq> None \<and> (\<forall>a r. q = Some (Inr (a, r)) \<longrightarrow> length r < b)"

lemma within_simps [simp]:
  "\<not> within b None" "within b (Some (Inl e))" "within b (Some (Inr (a, r))) \<longleftrightarrow> length r < b"
  by (simp_all add: within_def)

lemma within_bind:
  assumes "within b p" and "\<And>a r. length r < b \<Longrightarrow> within c (f a r)"
  shows "within c (pbind p f)"
  using assms by (cases p) (auto simp: within_def pbind_def split: sum.splits prod.splits)

lemma within_mono: "within b q \<Longrightarrow> b \<le> c \<Longrightarrow> within c q"
  by (auto simp: within_def)

lemma within_expect: "length s \<le> b \<Longrightarrow> within b (expect_char c s)"
  using bump_length [of s c] by (auto simp: expect_char_def)

lemma within_skip: "length r < b \<Longrightarrow> length (skip_ws r) < b"
  using skip_ws_length [of r] by simp

text \<open>A subparser behaves on texts up to a length if every result is within the length of the text.\<close>

definition behaves :: "nat \<Rightarrow> (string \<Rightarrow> 'a presult) \<Rightarrow> bool" where
  "behaves n p \<longleftrightarrow> (\<forall>s. length s \<le> n \<longrightarrow> within (length s) (p s))"

lemma behavesD: "behaves n p \<Longrightarrow> length s \<le> n \<Longrightarrow> length s \<le> b \<Longrightarrow> within b (p s)"
  by (auto simp: behaves_def intro: within_mono)

lemma list_loop_behaves:
  assumes "behaves m pte"
  shows "length s \<le> m \<Longrightarrow> length s < n \<Longrightarrow> length s \<le> b \<Longrightarrow> within b (parse_list_loop n pte args s)"
proof (induction n arbitrary: args s)
  case (Suc n)
  have "within b (parse_list_loop n pte args' (bump (skip_ws r)))" if "length r < length s" "peek r = Some c" for args' r c
    using Suc.IH [of "bump (skip_ws r)" args'] bump_length [OF that(2)] that(1) Suc.prems by simp
  then show ?case
    using Suc.prems
    by (auto intro!: within_bind [OF behavesD [OF assms Suc.prems(1) order_refl]] within_skip)
qed simp

lemma block_loop_behaves:
  assumes "behaves m pte"
  shows "length s \<le> m \<Longrightarrow> length s < n \<Longrightarrow> length s \<le> b \<Longrightarrow> within b (parse_block_loop n pte args s)"
proof (induction n arbitrary: args s)
  case (Suc n)
  have w: "length (skip_ws s) \<le> length s" by (rule skip_ws_length)
  have step: "within b (parse_block_loop n pte args' (bump (skip_ws r)))" if "length r < length s" "peek r = Some c" for args' r c
    using Suc.IH [of "bump (skip_ws r)" args'] bump_length [OF that(2)] that(1) Suc.prems by simp
  have p: "within (length s) (pte (skip_ws s))"
    by (rule behavesD [OF assms]) (use w Suc.prems in auto)
  have q: "within (length s) (pte (bump (skip_ws s)))" if "peek s = Some c" for c
    by (rule behavesD [OF assms]) (use bump_length [OF that] Suc.prems in auto)
  show ?case
  proof (cases "peek s = Some (CHR ''^'')")
    case True
    with Suc.prems show ?thesis by (auto intro: within_bind [OF q [OF True]])
  next
    case False
    with Suc.prems show ?thesis by (auto intro!: within_bind [OF p] step within_skip)
  qed
qed simp

lemma atom_behaves:
  assumes "behaves m pte" and "m < n"
  shows "behaves (Suc m) (parse_atom n pte)"
  unfolding behaves_def
proof (intro allI impI)
  fix s :: string assume s: "length s \<le> Suc m"
  have body: "within (length s) (parse_block_body n pte t)" if "length t < length s" for t
  proof -
    have "within (length s) (if peek t \<noteq> Some (CHR '']'') then parse_block_loop n pte [] (skip_ws t)
        else Some (Inr (([], None), skip_ws t)))"
      using block_loop_behaves [OF assms(1), of "skip_ws t" n] skip_ws_length [of t] that s assms(2) by simp
    then show ?thesis
      unfolding parse_block_body_def
      by (rule within_bind) (auto intro!: within_bind [OF within_expect [OF order_refl]])
  qed
  have list: "within (length s) (parse_type_list n pte t)" if "length t < length s" for t
    using list_loop_behaves [OF assms(1), of "skip_ws t" n] skip_ws_length [of t] that s assms(2)
    by (simp add: parse_type_list_def)
  show "within (length s) (parse_atom n pte s)"
    by (auto simp: parse_atom_def bump_length split: option.splits dest!: read_ident_length bump_immediate_length
        intro!: body within_bind [OF list] within_bind [OF within_expect [OF order_refl]])
qed

lemma union_rest_behaves:
  assumes "behaves m (parse_atom k pte)"
  shows "length s \<le> m \<Longrightarrow> length s < n \<Longrightarrow> length s < b \<Longrightarrow> within b (parse_union_rest k pte n vs s)"
proof (induction n arbitrary: vs s)
  case (Suc n)
  show ?case
  proof (cases "peek s = Some (CHR ''|'')")
    case True
    have "within (length s) (parse_atom k pte (bump (skip_ws s)))"
      by (rule behavesD [OF assms]) (use bump_length [OF True] Suc.prems in auto)
    with True Suc show ?thesis by (auto intro!: within_bind)
  qed (use Suc.prems in \<open>auto intro: within_skip\<close>)
qed simp

lemma union_behaves:
  assumes "behaves m pte" and "m < n"
  shows "behaves (Suc m) (parse_union n pte)"
proof -
  note a = atom_behaves [OF assms]
  show ?thesis
    using assms(2) unfolding behaves_def parse_union_def
    by (auto intro!: within_bind [OF behavesD [OF a _ order_refl]] union_rest_behaves [OF a])
qed

lemma type_expr_behaves: "behaves m (parse_type_expr (m + 2))"
proof (induction m)
  case 0
  show ?case
    by (auto simp: behaves_def numeral_2_eq_2 parse_union_def parse_atom_def peek_def peek_immediate_def skip_ws_def read_ident_def)
next
  case (Suc m)
  have u: "behaves (Suc m) (parse_union (Suc (Suc m)) (parse_type_expr (Suc (Suc m))))"
    using union_behaves [OF Suc, of "m + 2"] by (simp del: parse_type_expr.simps)
  show ?case
    unfolding behaves_def
    by (fastforce intro!: within_bind [OF behavesD [OF u _ order_refl]] split: option.splits dest: read_ident_length)
qed

lemma parse_answers: "parse input \<noteq> None"
  using behavesD [OF type_expr_behaves, of input "length input" "length input"]
  by (auto simp: parse_def within_def split: option.splits sum.splits)


section \<open>What the parser builds\<close>

lemma wf_lift: "wf_atom e \<Longrightarrow> wf_union e" "wf_union e \<Longrightarrow> wf_type e"
  by (cases e; simp)+

lemma list_loop_wf:
  assumes "\<forall>s e r. pte s = Some (Inr (e, r)) \<longrightarrow> wf_type e"
  shows "parse_list_loop n pte args s = Some (Inr (es, r)) \<Longrightarrow> list_all wf_type args \<Longrightarrow> list_all wf_type es \<and> es \<noteq> []"
  by (induction n arbitrary: args s) (fastforce simp: pbind_Some_Inr dest: assms [rule_format] split: if_splits)+

lemma block_loop_wf:
  assumes "\<forall>s e r. pte s = Some (Inr (e, r)) \<longrightarrow> wf_type e"
  shows "parse_block_loop n pte args s = Some (Inr ((es, ret), r)) \<Longrightarrow> list_all wf_type args
    \<Longrightarrow> list_all wf_type es \<and> pred_option wf_type ret"
  by (induction n arbitrary: args s) (fastforce simp: pbind_Some_Inr dest: assms [rule_format] split: if_splits)+

lemma atom_wf:
  assumes pte: "\<forall>s e r. pte s = Some (Inr (e, r)) \<longrightarrow> wf_type e"
    and "parse_atom n pte s = Some (Inr (e, r))"
  shows "wf_atom e"
  using assms(2) list_loop_wf [OF pte, where n = n and args = "[]"] block_loop_wf [OF pte, where n = n and args = "[]"]
  by (fastforce simp: parse_atom_def parse_block_body_def parse_type_list_def pbind_Some_Inr list_all_iff read_ident_is_ident
      split: if_splits option.splits)

lemma union_rest_wf:
  assumes "\<forall>s e r. pte s = Some (Inr (e, r)) \<longrightarrow> wf_type e"
  shows "parse_union_rest m pte n vs s = Some (Inr (e, r)) \<Longrightarrow> list_all wf_atom vs \<Longrightarrow> vs \<noteq> [] \<Longrightarrow> wf_union e"
proof (induction n arbitrary: vs s)
  case (Suc n)
  show ?case
  proof (cases "peek s = Some (CHR ''|'')")
    case True
    with Suc.prems obtain a t where "parse_atom m pte (bump (skip_ws s)) = Some (Inr (a, t))"
      and "parse_union_rest m pte n (vs @ [a]) t = Some (Inr (e, r))"
      by (auto simp: pbind_Some_Inr)
    with Suc.IH [of "vs @ [a]" t] atom_wf [OF assms] Suc.prems show ?thesis by auto
  next
    case False
    with Suc.prems show ?thesis
      by (cases vs; cases "tl vs") (auto simp: list_all_iff wf_lift)
  qed
qed simp

lemma union_wf:
  assumes pte: "\<forall>s e r. pte s = Some (Inr (e, r)) \<longrightarrow> wf_type e"
    and "parse_union n pte s = Some (Inr (e, r))"
  shows "wf_union e"
proof -
  obtain a t where "parse_atom n pte s = Some (Inr (a, t))" and "parse_union_rest n pte n [a] t = Some (Inr (e, r))"
    using assms(2) by (auto simp: parse_union_def pbind_Some_Inr)
  with union_rest_wf [OF pte] atom_wf [OF pte] show ?thesis by fastforce
qed

lemma type_expr_wf: "parse_type_expr n s = Some (Inr (e, r)) \<Longrightarrow> wf_type e"
proof (induction n arbitrary: s e r)
  case (Suc n)
  obtain a t where u: "parse_union n (parse_type_expr n) s = Some (Inr (a, t))"
    and c: "(case read_ident t of Some (w, r') \<Rightarrow> if w = ''def'' then Some (Inr (InferenceDef a, r')) else Some (Inr (a, t))
      | None \<Rightarrow> Some (Inr (a, t))) = (Some (Inr (e, r)) :: type_expr presult)"
    using Suc.prems unfolding parse_type_expr.simps pbind_Some_Inr by (elim exE conjE) (rule that)
  have "e = a \<or> e = InferenceDef a" using c by (cases "read_ident t") (auto split: if_splits)
  with union_wf [OF _ u] Suc.IH show ?case by (auto intro: wf_lift)
qed simp

section \<open>Printing and reading back\<close>

text \<open>The contexts after which an atom, and after which a whole type, is complete.\<close>

definition ends_atom :: "string \<Rightarrow> bool" where
  "ends_atom c \<longleftrightarrow> (case c of [] \<Rightarrow> True | x # _ \<Rightarrow> \<not> ident_char x \<and> x \<noteq> CHR ''['')"

definition ends_type :: "string \<Rightarrow> bool" where
  "ends_type c \<longleftrightarrow> (case c of [] \<Rightarrow> True | x # _ \<Rightarrow> x = CHR '','' \<or> x = CHR '']'')"

definition opens :: "string \<Rightarrow> bool" where
  "opens s \<longleftrightarrow> s \<noteq> [] \<and> (ident_start (hd s) \<or> hd s = CHR ''['')"

lemmas char_class_defs = is_whitespace_def is_alphabetic_def is_alphanumeric_def ident_start_def ident_char_def

lemma ident_start_char: "ident_start c \<Longrightarrow> ident_char c"
  by (auto simp: ident_start_def ident_char_def is_alphanumeric_def)

lemma ident_start_not_ws: "ident_start c \<Longrightarrow> \<not> is_whitespace c"
  by (auto simp: char_class_defs)

lemma punctuation [simp]:
  "\<not> ident_start (CHR ''['')" "\<not> ident_start (CHR '']'')" "\<not> ident_start (CHR ''^'')" "\<not> ident_start (CHR '','')"
  "\<not> ident_start (CHR ''|'')" "\<not> ident_char (CHR '']'')" "\<not> ident_char (CHR '','')" "\<not> ident_char (CHR ''|'')"
  "\<not> ident_char (CHR '' '')" "\<not> ident_char (CHR ''['')"
  "\<not> is_whitespace (CHR ''['')" "\<not> is_whitespace (CHR '']'')" "\<not> is_whitespace (CHR ''^'')"
  "\<not> is_whitespace (CHR '','')" "\<not> is_whitespace (CHR ''|'')" "is_whitespace (CHR '' '')"
  by (simp_all add: char_class_defs)

lemma skip_ws_Cons [simp]: "\<not> is_whitespace c \<Longrightarrow> skip_ws (c # s) = c # s"
  by (simp add: skip_ws_def)

lemma peek_Cons [simp]: "\<not> is_whitespace c \<Longrightarrow> peek (c # s) = Some c"
  by (simp add: peek_def peek_immediate_def)

lemma peek_Nil [simp]: "peek [] = None"
  by (simp add: peek_def peek_immediate_def skip_ws_def)

lemma opens_scan:
  assumes "opens s"
  shows "skip_ws (s @ c) = s @ c" "peek (s @ c) \<noteq> Some (CHR '']'')" "peek (s @ c) \<noteq> Some (CHR ''^'')"
proof -
  obtain h t where "s = h # t" and h: "ident_start h \<or> h = CHR ''[''"
    using assms by (cases s) (auto simp: opens_def)
  moreover from h have "\<not> is_whitespace h" by (auto dest: ident_start_not_ws)
  ultimately show "skip_ws (s @ c) = s @ c" "peek (s @ c) \<noteq> Some (CHR '']'')" "peek (s @ c) \<noteq> Some (CHR ''^'')"
    by auto
qed

lemma ends_type_scan:
  assumes "ends_type c"
  shows "skip_ws c = c" "ends_atom c" "peek c \<noteq> Some (CHR ''|'')" "read_ident c = None"
  using assms by (cases c; auto simp: ends_type_def ends_atom_def read_ident_def skip_ws_def)+

lemma read_ident_ident:
  assumes "is_ident w" and "ends_atom c \<or> (\<exists>t. c = CHR ''['' # t)"
  shows "read_ident (w @ c) = Some (w, c)"
proof -
  obtain h t where w: "w = h # t" and h: "ident_start h" and t: "\<forall>x \<in> set t. ident_char x"
    using assms(1) by (cases w) (auto simp: is_ident_def list_all_iff)
  have "takeWhile ident_char c = []" "dropWhile ident_char c = c"
    using assms(2) by (cases c; auto simp: ends_atom_def)+
  with t have "takeWhile ident_char (t @ c) = t" "dropWhile ident_char (t @ c) = c"
    by (simp_all add: takeWhile_append2 dropWhile_append2)
  with w h show ?thesis by (simp add: read_ident_def ident_start_not_ws)
qed

lemma opens_append: "opens s \<Longrightarrow> opens (s @ t)"
  by (auto simp: opens_def)

lemma opens_ident: "is_ident s \<Longrightarrow> opens s"
  by (auto simp: opens_def is_ident_def)

lemma opens_bracket [simp]: "opens (CHR ''['' # s)"
  by (simp add: opens_def)

lemma atom_opens: "wf_atom e \<Longrightarrow> opens (show_type e)"
  by (cases e) (auto intro: opens_append opens_ident)

lemma union_opens: "wf_union e \<Longrightarrow> opens (show_type e)"
proof (cases e)
  case (Union vs)
  assume "wf_union e"
  with Union obtain a b rest where "vs = a # b # rest" "wf_atom a"
    by (cases vs; cases "tl vs") auto
  with Union show ?thesis by (auto intro: opens_append atom_opens)
qed (auto intro: opens_append opens_ident)

lemma type_opens:
  assumes "wf_type e"
  shows "opens (show_type e)"
proof (cases "\<exists>u. e = InferenceDef u")
  case True
  then obtain u where e: "e = InferenceDef u" ..
  with assms have "opens (show_type u)" by (simp add: union_opens)
  with e show ?thesis by (simp add: opens_append)
next
  case False
  with assms have "wf_union e" by (cases e) auto
  then show ?thesis by (rule union_opens)
qed

definition reads_back :: "pte \<Rightarrow> type_expr \<Rightarrow> bool" where
  "reads_back pte e \<longleftrightarrow> wf_type e \<and> (\<forall>c. ends_type c \<longrightarrow> pte (show_type e @ c) = Some (Inr (e, c)))"

lemma reads_backD: "reads_back pte e \<Longrightarrow> ends_type c \<Longrightarrow> pte (show_type e @ c) = Some (Inr (e, c))"
  by (simp add: reads_back_def)

lemma reads_back_opens: "reads_back pte e \<Longrightarrow> opens (show_type e)"
  by (simp add: reads_back_def type_opens)

lemma ends_type_Cons [simp]: "ends_type (x # c) \<longleftrightarrow> x = CHR '','' \<or> x = CHR '']''"
  by (simp add: ends_type_def)

lemma list_loop_reads_back:
  "args \<noteq> [] \<Longrightarrow> \<forall>a \<in> set args. reads_back pte a \<Longrightarrow> length args \<le> n \<Longrightarrow>
   parse_list_loop n pte acc (commas (map show_type args) @ CHR '']'' # c) = Some (Inr (acc @ args, CHR '']'' # c))"
proof (induction args arbitrary: acc n rule: induct_list012)
  case (2 a)
  then show ?case by (cases n) (simp_all add: reads_backD)
next
  case (3 a b rest)
  obtain k where "n = Suc k" using 3(5) by (cases n) simp_all
  with 3(2) [of k "acc @ [a]"] 3(4,5) show ?case by (simp add: reads_backD bump_def)
qed simp

lemma block_loop_reads_back:
  "args \<noteq> [] \<or> ret \<noteq> None \<Longrightarrow> \<forall>a \<in> set args. reads_back pte a \<Longrightarrow> pred_option (reads_back pte) ret \<Longrightarrow> length args < n \<Longrightarrow>
   parse_block_loop n pte acc
     (commas (map show_type args)
      @ (case ret of None \<Rightarrow> [] | Some r \<Rightarrow> (if args = [] then [] else '','') @ ''^'' @ show_type r) @ CHR '']'' # c)
   = Some (Inr ((acc @ args, ret), CHR '']'' # c))"
proof (induction args arbitrary: acc n rule: induct_list012)
  case 1
  then obtain r where "ret = Some r" by auto
  with 1 show ?case by (cases n) (simp_all add: reads_backD bump_def)
next
  case (2 a)
  obtain k l where n: "n = Suc k" "k = Suc l" using 2(4) by (cases n; cases "n - 1") simp_all
  have a: "reads_back pte a" using 2(2) by simp
  show ?case
  proof (cases ret)
    case None
    with n a show ?thesis by (simp add: reads_backD opens_scan [OF reads_back_opens [OF a]])
  next
    case (Some r)
    with n a 2(3) show ?thesis by (simp add: reads_backD bump_def opens_scan [OF reads_back_opens [OF a]])
  qed
next
  case (3 a b rest)
  obtain k where "n = Suc k" using 3(6) by (cases n) simp_all
  moreover have a: "reads_back pte a" using 3(4) by simp
  ultimately show ?case using 3(2) [of k "acc @ [a]"] 3(4,5,6)
    by (cases ret) (simp_all add: reads_backD bump_def opens_scan [OF reads_back_opens [OF a]])
qed

lemma commas_member: "x \<in> set xs \<Longrightarrow> length x \<le> length (commas xs)"
  by (induction xs rule: commas.induct) auto

lemma commas_count: "[] \<notin> set xs \<Longrightarrow> length xs \<le> length (commas xs)"
  by (induction xs rule: commas.induct) (auto simp: Suc_le_eq)

lemma bars_count: "length xs \<le> length (bars xs) + 1"
  by (induction xs rule: bars.induct) auto

lemma bars_member: "x \<in> set xs \<Longrightarrow> length x + length xs \<le> length (bars xs) + 1"
proof (induction xs rule: bars.induct)
  case (3 y z zs)
  then show ?case using bars_count [of "z # zs"] by auto
qed auto

lemma show_nonempty: "\<forall>a \<in> set args. wf_type a \<Longrightarrow> [] \<notin> set (map show_type args)"
  using type_opens by (force simp: opens_def)

lemma not_bracket: "is_ident w \<Longrightarrow> peek (w @ c) \<noteq> Some (CHR ''['')"
  by (cases w) (auto simp: is_ident_def ident_start_not_ws)

lemma commas_opens: "args \<noteq> [] \<Longrightarrow> \<forall>a \<in> set args. wf_type a \<Longrightarrow> opens (commas (map show_type args))"
  by (cases args; cases "tl args") (auto intro: opens_append simp: type_opens)

lemma atom_reads_back:
  assumes wf: "wf_atom e" and c: "ends_atom c"
    and IH: "\<And>a. wf_type a \<Longrightarrow> length (show_type a) < length (show_type e) \<Longrightarrow> reads_back pte a"
    and n: "length (show_type e) \<le> n"
  shows "parse_atom n pte (show_type e @ c) = Some (Inr (e, c))"
proof (cases e)
  case (Named w)
  have "peek_immediate c \<noteq> Some (CHR ''['')"
    using c by (cases c) (auto simp: ends_atom_def peek_immediate_def)
  with Named wf c show ?thesis by (simp add: parse_atom_def not_bracket read_ident_ident)
next
  case (Generic h args)
  let ?t = "CHR ''['' # commas (map show_type args) @ CHR '']'' # c"
  have h: "is_ident h" and args: "args \<noteq> []" "\<forall>a \<in> set args. wf_type a" using wf Generic by auto
  have rb: "\<forall>a \<in> set args. reads_back pte a"
    using IH args Generic commas_member [of _ "map show_type args"] by fastforce
  have len: "length args \<le> n" using commas_count [OF show_nonempty [OF args(2)]] n Generic by simp
  from opens_scan [OF commas_opens [OF args]] have "parse_type_list n pte (commas (map show_type args) @ CHR '']'' # c) = Some (Inr (args, CHR '']'' # c))"
    using list_loop_reads_back [OF args(1) rb len, of "[]" c] by (simp add: parse_type_list_def)
  with h args show ?thesis
    using read_ident_ident [OF h, of ?t] not_bracket [OF h, of ?t] Generic
    by (simp add: parse_atom_def peek_immediate_def bump_def expect_char_def)
next
  case (Block args ret)
  let ?ret = "case ret of None \<Rightarrow> [] | Some r \<Rightarrow> (if args = [] then [] else '','') @ ''^'' @ show_type r"
  let ?body = "commas (map show_type args) @ ?ret @ CHR '']'' # c"
  have args: "\<forall>a \<in> set args. wf_type a" and ret: "pred_option wf_type ret"
    using wf Block by (auto split: option.splits)
  have rb: "\<forall>a \<in> set args. reads_back pte a" "pred_option (reads_back pte) ret"
    using IH args ret Block commas_member [of _ "map show_type args"] by (fastforce simp: pred_option_def)+
  have len: "length args < n" using commas_count [OF show_nonempty [OF args]] n Block by simp
  have "parse_block_body n pte ?body = Some (Inr (Block args ret, c))"
  proof (cases "args = [] \<and> ret = None")
    case True
    then show ?thesis by (simp add: parse_block_body_def expect_char_def bump_def)
  next
    case False
    have "skip_ws ?body = ?body" "peek ?body \<noteq> Some (CHR '']'')"
      using False opens_scan [OF commas_opens [OF _ args]] by (cases "args = []"; force)+
    with block_loop_reads_back [of args ret pte n "[]" c] False rb len show ?thesis
      by (auto simp: parse_block_body_def expect_char_def bump_def)
  qed
  with Block show ?thesis by (simp add: parse_atom_def bump_def)
qed (use wf in auto)

lemma union_rest_reads_back:
  assumes "\<And>v c. v \<in> set vs \<Longrightarrow> ends_atom c \<Longrightarrow> parse_atom m pte (show_type v @ c) = Some (Inr (v, c))"
    and "length vs < n" and "ends_atom c" and "peek c \<noteq> Some (CHR ''|'')" and "acc \<noteq> []"
  shows "parse_union_rest m pte n acc (concat (map (\<lambda>v. CHR ''|'' # show_type v) vs) @ c)
    = Some (Inr (if length (acc @ vs) = 1 then hd acc else Union (acc @ vs), skip_ws c))"
  using assms
proof (induction vs arbitrary: acc n)
  case Nil
  then show ?case by (cases n) auto
next
  case (Cons v vs)
  obtain k where n: "n = Suc k" using Cons.prems(2) by (cases n) simp_all
  have "ends_atom (concat (map (\<lambda>v. CHR ''|'' # show_type v) vs) @ c)"
    using Cons.prems(3) by (cases vs) (simp_all add: ends_atom_def)
  from Cons.prems(1) [OF _ this] Cons.IH [of k "acc @ [v]"] Cons.prems n show ?case by (simp add: bump_def)
qed

lemma bars_concat: "vs \<noteq> [] \<Longrightarrow> bars (map f vs) = f (hd vs) @ concat (map (\<lambda>v. CHR ''|'' # f v) (tl vs))"
  by (induction vs rule: induct_list012) simp_all

lemma union_reads_back:
  assumes "wf_union e" and "ends_atom c" and "peek c \<noteq> Some (CHR ''|'')"
    and IH: "\<And>a. wf_type a \<Longrightarrow> length (show_type a) < length (show_type e) \<Longrightarrow> reads_back pte a"
    and "length (show_type e) \<le> n"
  shows "parse_union n pte (show_type e @ c) = Some (Inr (e, skip_ws c))"
proof (cases "\<exists>vs. e = Union vs")
  case True
  then obtain v vs where e: "e = Union (v # vs)" and vs: "vs \<noteq> []" "\<forall>x \<in> set (v # vs). wf_atom x"
    using assms(1) by (auto simp: Suc_le_length_iff numeral_2_eq_2)
  have "length (show_type x) < length (show_type e)" if "x \<in> set (v # vs)" for x
    using bars_member [of "show_type x" "map show_type (v # vs)"] that e vs by (cases vs) auto
  then have atom: "parse_atom n pte (show_type x @ c) = Some (Inr (x, c))" if "x \<in> set (v # vs)" "ends_atom c" for x c
    using atom_reads_back [OF _ that(2), of x pte n] that vs(2) IH assms(5) by fastforce
  have "length vs < n"
    using bars_member [of "show_type v" "map show_type (v # vs)"] assms(5) e vs atom_opens [of v]
    by (cases "show_type v") (auto simp: opens_def)
  moreover have "ends_atom (concat (map (\<lambda>v. CHR ''|'' # show_type v) vs) @ c)"
    using vs by (cases vs) (simp_all add: ends_atom_def)
  ultimately show ?thesis
    using union_rest_reads_back [of vs n pte n c "[v]"] atom assms(2,3) vs(1) bars_concat [of "v # vs" show_type]
    by (simp add: e parse_union_def)
next
  case False
  with assms(1) have wf: "wf_atom e" by (cases e) auto
  have "0 < n" using atom_opens [OF wf] assms(5) by (cases "show_type e") (auto simp: opens_def)
  with atom_reads_back [OF wf assms(2) IH assms(5)] union_rest_reads_back [of "[]" n pte n c "[e]"] assms(2,3)
  show ?thesis by (simp add: parse_union_def)
qed

lemma type_reads_back: "wf_type e \<Longrightarrow> length (show_type e) < n \<Longrightarrow> reads_back (parse_type_expr n) e"
proof (induction n arbitrary: e)
  case (Suc n)
  have IH: "reads_back (parse_type_expr n) a" if "wf_type a" "length (show_type a) < length (show_type e)" for a
    using Suc.IH [of a] that Suc.prems by simp
  show ?case
  proof (cases "\<exists>u. e = InferenceDef u")
    case True
    then obtain u where e: "e = InferenceDef u" ..
    with Suc.prems have u: "wf_union u" by simp
    have IH': "reads_back (parse_type_expr n) a" if "wf_type a" "length (show_type a) < length (show_type u)" for a
      using IH [OF that(1)] that(2) e by simp
    have "parse_type_expr (Suc n) (show_type e @ c) = Some (Inr (e, c))" if "ends_type c" for c
    proof -
      let ?c = "'' def'' @ c"
      have "ends_atom ?c" "skip_ws ?c = ''def'' @ c" "peek ?c \<noteq> Some (CHR ''|'')"
        by (simp_all add: ends_atom_def skip_ws_def is_whitespace_def peek_def peek_immediate_def)
      moreover have "read_ident (''def'' @ c) = Some (''def'', c)"
        by (rule read_ident_ident) (simp_all add: is_ident_def char_class_defs ends_type_scan [OF that])
      ultimately show ?thesis
        using union_reads_back [OF u _ _ IH', of ?c n] Suc.prems e by simp
    qed
    with Suc.prems show ?thesis by (simp add: reads_back_def)
  next
    case False
    with Suc.prems have u: "wf_union e" by (cases e) auto
    have "parse_type_expr (Suc n) (show_type e @ c) = Some (Inr (e, c))" if "ends_type c" for c
      using union_reads_back [OF u _ _ IH, of c n] Suc.prems ends_type_scan [OF that] by simp
    with Suc.prems show ?thesis by (simp add: reads_back_def)
  qed
qed simp

lemma parse_show: "wf_type e \<Longrightarrow> parse (show_type e) = Some (Inr e)"
  using reads_backD [OF type_reads_back [of e "length (show_type e) + 2"], of "[]"]
  by (simp add: parse_def ends_type_def skip_ws_def del: parse_type_expr.simps)

lemma parse_wf: "parse s = Some (Inr e) \<Longrightarrow> wf_type e"
  by (auto simp: parse_def simp del: parse_type_expr.simps dest: type_expr_wf split: option.splits sum.splits if_splits)

text \<open>
  C39: what the printer writes for a parsed annotation reads back as the same type expression, whatever
  the spacing and bracketing of the text it was parsed from.
\<close>

theorem print_parse_round_trip:
  assumes "parse s = Some (Inr e)"
  shows "parse (show_type e) = Some (Inr e)"
  by (rule parse_show [OF parse_wf [OF assms]])

theorem print_parse_round_trip_witness:
  "parse '' Dict[ K , [A,^B|C def] ]''
     = Some (Inr (Generic ''Dict'' [Named ''K'', Block [Named ''A''] (Some (InferenceDef (Union [Named ''B'', Named ''C''])))]))
   \<and> parse ''Dict[K,[A,^B|C def]]''
     = Some (Inr (Generic ''Dict'' [Named ''K'', Block [Named ''A''] (Some (InferenceDef (Union [Named ''B'', Named ''C''])))]))"
proof -
  let ?e = "Generic ''Dict'' [Named ''K'', Block [Named ''A''] (Some (InferenceDef (Union [Named ''B'', Named ''C''])))]"
  have p: "parse '' Dict[ K , [A,^B|C def] ]'' = Some (Inr ?e)" by code_simp
  from print_parse_round_trip [OF p] p show ?thesis by simp
qed

text \<open>The type expressions some text parses to are exactly the well-formed ones: names and generic heads
  are identifiers, a generic application has arguments, a union has at least two variants, each of them an
  atom, and \<open>def\<close> is outside every union.\<close>

lemma parse_image_is_grammar: "(\<exists>s. parse s = Some (Inr e)) \<longleftrightarrow> wf_type e"
  using parse_show parse_wf by blast

end
