(* ===== verification/Ast.thy ===== *)
theory Ast
  imports Prelude
begin

text \<open>
  The syntax trees the front end produces and the type checker reads (\<open>src/src/frontend/ast.rs\<close>,
  \<open>src/src/frontend/lexer.rs\<close> for \<open>Span\<close>). A floating-point literal is its 64-bit pattern, a
  character its scalar value.
\<close>

datatype span = Span u32 u32

datatype literal =
    LInt int
  | LBigInt bool "u8 list"
  | LFloat u64
  | LChar nat
  | LStr string
  | LSymbol string
  | LArray "literal list"
  | LByteArray "u8 list"
  | LNil
  | LTrue
  | LFalse

text \<open>The variants carry the fields in the order the source declares them; \<open>is_super\<close> is the fourth field of
  a send. A block node has its parameters, temporaries, body, span and scope id.\<close>

datatype expr =
    SelfRef span
  | Var string span
  | Lit literal span
  | Assign string expr span
  | Send expr string "expr list" bool span
  | Cascade expr "expr list" span
  | CascadeRcvr span
  | DynArray "expr list" span
  | BlockE "string list" "string list" "expr list" span u32
  | Return expr span

fun expr_span :: "expr \<Rightarrow> span" where
  "expr_span (SelfRef s) = s"
| "expr_span (Var _ s) = s"
| "expr_span (Lit _ s) = s"
| "expr_span (Assign _ _ s) = s"
| "expr_span (Send _ _ _ _ s) = s"
| "expr_span (Cascade _ _ s) = s"
| "expr_span (CascadeRcvr s) = s"
| "expr_span (DynArray _ s) = s"
| "expr_span (BlockE _ _ _ s _) = s"
| "expr_span (Return _ s) = s"

record type_annotation =
  ta_text :: string
  ta_span :: span

record method_signature =
  param_types :: "type_annotation option list"
  return_type :: "type_annotation option"
  temp_types :: "type_annotation option list"

datatype ffi_pragma =
    FfiFunction string "string option" string "string list"
  | FfiSelector string string bool string "string list"

record method_node =
  pattern_selector :: string
  params :: "string list"
  primitive :: "u16 option"
  ffi :: "ffi_pragma option"
  temps :: "string list"
  body :: "expr list"
  class_side :: bool
  m_span :: span
  type_sig :: method_signature

datatype indexable = Oops_indexable | Bytes_indexable

record class_def_node =
  cd_superclass :: string
  cd_name :: string
  cd_indexable :: "indexable option"
  cd_inst_vars :: "string list"
  cd_inst_var_types :: "type_annotation option list"
  cd_class_vars :: "string list"
  cd_methods :: "method_node list"
  cd_span :: span

datatype top_item =
    ClassDef class_def_node
  | DoIt expr

end
