(* ===== verification/TypeWorld.thy ===== *)
theory TypeWorld
  imports TypeSyntax Ast "HOL-Library.AList"
begin

text \<open>
  The type checker's model of the world, its subtyping relation and its send rule
  (\<open>src/src/types/interface.rs\<close>, \<open>subtype.rs\<close>, \<open>send.rs\<close>, and the error values of \<open>check.rs\<close>).

  A \<open>HashMap\<close> is an association list with distinct keys: \<open>map_of\<close> is \<open>get\<close>, \<open>AList.update\<close> is
  \<open>insert\<close>, \<open>length\<close> is \<open>len\<close>. The assumption trail is threaded through every call, as the source
  threads it by mutable reference.
\<close>

section \<open>Class interfaces\<close>

record class_interface =
  ci_name :: string
  superclass :: "string option"
  inst_vars :: "string list"
  inst_var_types :: "string option list"
  instance_methods :: "(string \<times> method_node) list"
  class_methods :: "(string \<times> method_node) list"

record world_model =
  classes :: "(string \<times> class_interface) list"
  class_order :: "string list"

definition ci_new :: "string \<Rightarrow> class_interface" where
  "ci_new n = \<lparr>ci_name = n, superclass = None, inst_vars = [], inst_var_types = [], instance_methods = [], class_methods = []\<rparr>"

definition merge_method :: "method_node \<Rightarrow> class_interface \<Rightarrow> class_interface" where
  "merge_method m c =
     (if class_side m then c\<lparr>class_methods := AList.update (pattern_selector m) m (class_methods c)\<rparr>
      else c\<lparr>instance_methods := AList.update (pattern_selector m) m (instance_methods c)\<rparr>)"

definition merge :: "class_interface \<Rightarrow> class_def_node \<Rightarrow> class_interface" where
  "merge c node =
     (let c1 = c\<lparr>superclass := (if cd_superclass node = ''nil'' then None else Some (cd_superclass node))\<rparr>;
          c2 = (if cd_inst_vars node \<noteq> []
                then c1\<lparr>inst_vars := cd_inst_vars node, inst_var_types := map (map_option ta_text) (cd_inst_var_types node)\<rparr>
                else c1)
      in fold merge_method (cd_methods node) c2)"

definition add_or_reopen :: "world_model \<Rightarrow> class_def_node \<Rightarrow> world_model" where
  "add_or_reopen w node =
     (let w1 = (if map_of (classes w) (cd_name node) = None
                then w\<lparr>class_order := class_order w @ [cd_name node],
                       classes := AList.update (cd_name node) (ci_new (cd_name node)) (classes w)\<rparr>
                else w)
      in case map_of (classes w1) (cd_name node) of
           None \<Rightarrow> w1
         | Some c \<Rightarrow> w1\<lparr>classes := AList.update (cd_name node) (merge c node) (classes w1)\<rparr>)"

definition empty_model :: world_model where
  "empty_model = \<lparr>classes = [], class_order = []\<rparr>"

definition fold_item :: "top_item \<Rightarrow> world_model \<Rightarrow> world_model" where
  "fold_item item w = (case item of ClassDef c \<Rightarrow> add_or_reopen w c | DoIt _ \<Rightarrow> w)"

definition build_items :: "top_item list \<Rightarrow> world_model" where
  "build_items items = fold fold_item items empty_model"

text \<open>Reading a world: the list file names the source files, one to a line. Reading a file and parsing its text are
  arguments; the list is split and trimmed as \<open>lines\<close> and \<open>trim\<close> do on ASCII text.\<close>

datatype 'e world_error =
    Cannot_read string
  | Duplicate_entry nat string
  | Syntax_error string 'e

fun split_lines :: "string \<Rightarrow> string \<Rightarrow> string list" where
  "split_lines cur [] = (if cur = [] then [] else [cur])"
| "split_lines cur (c # cs) =
     (if c = CHR 0x0A then (if cur \<noteq> [] \<and> last cur = CHR 0x0D then butlast cur else cur) # split_lines [] cs
      else split_lines (cur @ [c]) cs)"

definition trim :: "string \<Rightarrow> string" where
  "trim s = rev (skip_ws (rev (skip_ws s)))"

fun load_entries :: "(string \<Rightarrow> string option) \<Rightarrow> (string \<Rightarrow> 'e + top_item list) \<Rightarrow> nat \<Rightarrow> string list \<Rightarrow> string list \<Rightarrow> world_model
    \<Rightarrow> 'e world_error + world_model" where
  "load_entries read_to_string parse_file i seen [] w = Inr w"
| "load_entries read_to_string parse_file i seen (raw # rest) w =
     (let line = trim raw in
      if line = [] \<or> hd line = CHR ''#'' then load_entries read_to_string parse_file (i + 1) seen rest w
      else if line \<in> set seen then Inl (Duplicate_entry (i + 1) line)
      else case read_to_string line of
        None \<Rightarrow> Inl (Cannot_read line)
      | Some src \<Rightarrow>
          (case parse_file src of
             Inl e \<Rightarrow> Inl (Syntax_error line e)
           | Inr items \<Rightarrow> load_entries read_to_string parse_file (i + 1) (line # seen) rest (fold fold_item items w)))"

definition build_world_model :: "(string \<Rightarrow> string option) \<Rightarrow> (string \<Rightarrow> 'e + top_item list) \<Rightarrow> 'e world_error + world_model" where
  "build_world_model read_to_string parse_file =
     (case read_to_string ''world.list'' of
        None \<Rightarrow> Inl (Cannot_read ''world.list'')
      | Some src \<Rightarrow> load_entries read_to_string parse_file 0 [] (split_lines [] src) empty_model)"

section \<open>Subtyping\<close>

datatype resolved_type = Dynamic | Written type_expr

definition rt_named :: "string \<Rightarrow> resolved_type" where
  "rt_named n = Written (Named n)"

fun show_resolved :: "resolved_type \<Rightarrow> string" where
  "show_resolved Dynamic = ''Dynamic''"
| "show_resolved (Written e) = show_type e"

type_synonym trail = "(string \<times> string) set"

definition super_of :: "world_model \<Rightarrow> string \<Rightarrow> string option" where
  "super_of w n = (case map_of (classes w) n of None \<Rightarrow> None | Some c \<Rightarrow> superclass c)"

function superclass_chain_contains :: "world_model \<Rightarrow> string \<Rightarrow> string \<Rightarrow> trail \<Rightarrow> bool \<times> trail" where
  "superclass_chain_contains w s target trail =
     (if s = target then (True, trail)
      else if (s, target) \<in> trail then (False, trail)
      else case super_of w s of
        None \<Rightarrow> (False, insert (s, target) trail - {(s, target)})
      | Some s' \<Rightarrow>
          (case superclass_chain_contains w s' target (insert (s, target) trail) of
             (r, trail') \<Rightarrow> (r, trail' - {(s, target)})))"
  by pat_completeness auto
termination
proof (relation "measure (\<lambda>(w, s, target, trail). card {k \<in> fst ` set (classes w). (k, target) \<notin> trail})", goal_cases)
  case (2 w s target trail s')
  have "s \<in> fst ` set (classes w)"
    using 2(3) by (auto simp: super_of_def split: option.splits dest: map_of_SomeD intro: rev_image_eqI)
  with 2 show ?case by (auto intro!: psubset_card_mono)
qed simp

fun nominal_head :: "type_expr \<Rightarrow> string \<Rightarrow> string option" where
  "nominal_head (Named n) self_class = (if n = ''Self'' then Some self_class else Some n)"
| "nominal_head (Generic h _) self_class = (if h = ''Self'' then Some self_class else Some h)"
| "nominal_head _ self_class = None"

text \<open>\<open>iter().all\<close> and \<open>iter().any\<close> with a closure that updates the trail; both stop early.\<close>

fun all_trail :: "('a \<Rightarrow> trail \<Rightarrow> bool \<times> trail) \<Rightarrow> 'a list \<Rightarrow> trail \<Rightarrow> bool \<times> trail" where
  "all_trail f [] t = (True, t)"
| "all_trail f (x # xs) t = (case f x t of (b, t') \<Rightarrow> if b then all_trail f xs t' else (False, t'))"

fun any_trail :: "('a \<Rightarrow> trail \<Rightarrow> bool \<times> trail) \<Rightarrow> 'a list \<Rightarrow> trail \<Rightarrow> bool \<times> trail" where
  "any_trail f [] t = (False, t)"
| "any_trail f (x # xs) t = (case f x t of (b, t') \<Rightarrow> if b then (True, t') else any_trail f xs t')"

lemma all_trail_cong [fundef_cong]:
  "xs = ys \<Longrightarrow> t = u \<Longrightarrow> (\<And>x v. x \<in> set ys \<Longrightarrow> f x v = g x v) \<Longrightarrow> all_trail f xs t = all_trail g ys u"
  by (induction xs arbitrary: ys t u) (auto split: prod.splits)

lemma any_trail_cong [fundef_cong]:
  "xs = ys \<Longrightarrow> t = u \<Longrightarrow> (\<And>x v. x \<in> set ys \<Longrightarrow> f x v = g x v) \<Longrightarrow> any_trail f xs t = any_trail g ys u"
  by (induction xs arbitrary: ys t u) (auto split: prod.splits)

lemma size_member: "x \<in> set xs \<Longrightarrow> size x \<le> size_list size xs"
  by (rule size_list_estimation' [OF _ order_refl])

lemma size_zip_members:
  assumes "(a, b) \<in> set (zip xs ys)"
  shows "size b + size a \<le> size_list size xs + size_list size ys"
  using size_member [OF set_zip_leftD [OF assms]] size_member [OF set_zip_rightD [OF assms]] by simp

primrec rsize :: "resolved_type \<Rightarrow> nat" where
  "rsize Dynamic = 0"
| "rsize (Written e) = size e"

function subtype_of :: "world_model \<Rightarrow> string \<Rightarrow> resolved_type \<Rightarrow> resolved_type \<Rightarrow> trail \<Rightarrow> bool \<times> trail" where
  "subtype_of w sc s t trail =
     (if s = t then (True, trail)
      else case s of Dynamic \<Rightarrow> (True, trail) | Written se \<Rightarrow>
        (case t of Dynamic \<Rightarrow> (True, trail) | Written te \<Rightarrow>
          (if te = Named ''Object'' then (True, trail)
           else case (se, te) of
             (InferenceDef i, _) \<Rightarrow> subtype_of w sc (Written i) t trail
           | (_, InferenceDef i) \<Rightarrow> subtype_of w sc s (Written i) trail
           | (Union vs, _) \<Rightarrow> all_trail (\<lambda>v. subtype_of w sc (Written v) t) vs trail
           | (_, Union vs) \<Rightarrow> any_trail (\<lambda>v. subtype_of w sc s (Written v)) vs trail
           | (Block sa sr, Block ta tr) \<Rightarrow>
               (if length sa \<noteq> length ta then (False, trail)
                else case all_trail (\<lambda>(sa_i, ta_i). subtype_of w sc (Written ta_i) (Written sa_i)) (zip sa ta) trail of
                  (args_ok, trail') \<Rightarrow>
                    if \<not> args_ok then (False, trail')
                    else (case (sr, tr) of
                            (Some a, Some b) \<Rightarrow> subtype_of w sc (Written a) (Written b) trail'
                          | _ \<Rightarrow> (True, trail')))
           | (Block _ _, _) \<Rightarrow> (False, trail)
           | (_, Block _ _) \<Rightarrow> (False, trail)
           | _ \<Rightarrow> (case (nominal_head se sc, nominal_head te sc) of
                    (Some sn, Some tn) \<Rightarrow> superclass_chain_contains w sn tn trail
                  | _ \<Rightarrow> (False, trail)))))"
  by pat_completeness auto
termination
  by (relation "measure (\<lambda>(w, sc, s, t, trail). rsize s + rsize t)")
    (auto dest!: size_member size_zip_members)

declare subtype_of.simps [simp del] superclass_chain_contains.simps [simp del]

section \<open>Sends\<close>

datatype annotation_site = AnnotationSite string bool "string option" string

datatype type_error =
    MalformedTypeExpr annotation_site string parse_error
  | UndeclaredTypeName annotation_site string
  | GenericArityMismatch string annotation_site nat annotation_site nat
  | AssignmentNotSubtype annotation_site string string string
  | ReturnNotSubtype annotation_site string string
  | SelectorUndefined annotation_site string string
  | SendArgNotSubtype annotation_site string nat string string

datatype lookup_result = Found method_node | PlausibleViaDescendant | NotFound

text \<open>The two climbing loops count their steps and stop at \<open>classes.len() + 1\<close> of them; \<open>n\<close> is the number
  of steps left.\<close>

fun climb :: "world_model \<Rightarrow> string \<Rightarrow> nat \<Rightarrow> string option \<Rightarrow> method_node option" where
  "climb w sel n None = None"
| "climb w sel 0 (Some name) = None"
| "climb w sel (Suc n) (Some name) =
     (case map_of (classes w) name of
        None \<Rightarrow> None
      | Some c \<Rightarrow> (case map_of (instance_methods c) sel of Some m \<Rightarrow> Some m | None \<Rightarrow> climb w sel n (superclass c)))"

fun descend_loop :: "world_model \<Rightarrow> string \<Rightarrow> nat \<Rightarrow> string option \<Rightarrow> bool" where
  "descend_loop w anc n None = False"
| "descend_loop w anc 0 (Some name) = False"
| "descend_loop w anc (Suc n) (Some name) =
     (if name = anc then True
      else case map_of (classes w) name of None \<Rightarrow> False | Some c \<Rightarrow> descend_loop w anc n (superclass c))"

definition is_descendant_of :: "world_model \<Rightarrow> string \<Rightarrow> string \<Rightarrow> bool" where
  "is_descendant_of w candidate ancestor = descend_loop w ancestor (length (classes w) + 1) (Some candidate)"

definition find_method :: "world_model \<Rightarrow> string \<Rightarrow> string \<Rightarrow> lookup_result" where
  "find_method w start sel =
     (case climb w sel (length (classes w) + 1) (Some start) of
        Some m \<Rightarrow> Found m
      | None \<Rightarrow>
          if list_ex (\<lambda>(name, c). map_of (instance_methods c) sel \<noteq> None \<and> is_descendant_of w name start) (classes w)
          then PlausibleViaDescendant else NotFound)"

fun receiver_head :: "resolved_type \<Rightarrow> string option" where
  "receiver_head (Written (Named n)) = (if n = ''Self'' then None else Some n)"
| "receiver_head (Written (Generic h _)) = (if h = ''Self'' then None else Some h)"
| "receiver_head _ = None"

definition parse_ok :: "string \<Rightarrow> type_expr option" where
  "parse_ok s = (case parse s of Some (Inr e) \<Rightarrow> Some e | _ \<Rightarrow> None)"

definition resolve_captured :: "type_annotation option \<Rightarrow> resolved_type" where
  "resolve_captured ann =
     (case ann of None \<Rightarrow> Dynamic
      | Some a \<Rightarrow> (case parse_ok (ta_text a) of None \<Rightarrow> Dynamic | Some e \<Rightarrow> Written e))"

fun check_args :: "world_model \<Rightarrow> string \<Rightarrow> string \<Rightarrow> annotation_site \<Rightarrow> nat \<Rightarrow> (type_annotation option \<times> resolved_type) list
    \<Rightarrow> trail \<Rightarrow> type_error list \<Rightarrow> type_error list" where
  "check_args w sc sel site i [] trail errs = errs"
| "check_args w sc sel site i ((formal, actual) # rest) trail errs =
     (let declared = resolve_captured formal in
      case subtype_of w sc actual declared trail of (ok, trail') \<Rightarrow>
        check_args w sc sel site (i + 1) rest trail'
          (if ok then errs
           else errs @ [SendArgNotSubtype site sel i (show_resolved declared) (show_resolved actual)]))"

definition check_send :: "world_model \<Rightarrow> string \<Rightarrow> bool \<Rightarrow> bool \<Rightarrow> resolved_type \<Rightarrow> string \<Rightarrow> resolved_type list
    \<Rightarrow> annotation_site \<Rightarrow> type_error list \<Rightarrow> resolved_type \<times> type_error list" where
  "check_send w sc checking_class_side is_super rt sel arg_types site errs =
     (case (if is_super then (if checking_class_side then None else super_of w sc) else receiver_head rt) of
        None \<Rightarrow> (Dynamic, errs)
      | Some head \<Rightarrow>
          (case find_method w head sel of
             PlausibleViaDescendant \<Rightarrow> (Dynamic, errs)
           | NotFound \<Rightarrow> (Dynamic, errs @ [SelectorUndefined site (show_resolved rt) sel])
           | Found m \<Rightarrow>
               if length (params m) \<noteq> length arg_types then (Dynamic, errs)
               else
                 (let errs' = check_args w sc sel site 0 (zip (param_types (type_sig m)) arg_types) {} errs;
                      ret = resolve_captured (return_type (type_sig m))
                  in if ret = Written (Named ''Self'')
                     then (Written (Named (if is_super then sc else head)), errs')
                     else (ret, errs'))))"

section \<open>The superclass chain\<close>

definition supers :: "world_model \<Rightarrow> (string \<times> string) set" where
  "supers w = {(s, t). super_of w s = Some t}"

lemma last_visit:
  assumes "(x, t) \<in> r\<^sup>*"
  shows "(x, t) \<in> (r \<inter> {(y, z). y \<noteq> s})\<^sup>* \<or> (\<exists>s'. (s, s') \<in> r \<and> (s', t) \<in> (r \<inter> {(y, z). y \<noteq> s})\<^sup>*)"
  using assms
proof (induction rule: converse_rtrancl_induct)
  case (step x y)
  then show ?case
    by (cases "x = s") (auto intro: converse_rtrancl_into_rtrancl)
qed simp

lemma leave_for_good:
  assumes "(s, t) \<in> r\<^sup>*" and "s \<noteq> t"
  obtains s' where "(s, s') \<in> r" and "(s', t) \<in> (r \<inter> {(y, z). y \<noteq> s})\<^sup>*"
proof -
  have "(s, t) \<notin> (r \<inter> {(y, z). y \<noteq> s})\<^sup>*"
    using assms(2) by (auto elim: converse_rtranclE)
  with last_visit [OF assms(1), of s] that show thesis by blast
qed

abbreviation avoiding :: "world_model \<Rightarrow> string \<Rightarrow> trail \<Rightarrow> (string \<times> string) set" where
  "avoiding w t trail \<equiv> supers w \<inter> {(y, z). (y, t) \<notin> trail}"

lemma chain_contains_avoiding:
  "superclass_chain_contains w s t trail = ((s, t) \<in> (avoiding w t trail)\<^sup>*, trail)"
proof (induction w s t trail rule: superclass_chain_contains.induct)
  case (1 w s t trail)
  show ?case
  proof (cases "s = t \<or> (s, t) \<in> trail \<or> super_of w s = None")
    case True
    have "(s, t) \<notin> (avoiding w t trail)\<^sup>*" if "s \<noteq> t"
      using True that by (auto simp: supers_def elim: converse_rtranclE)
    with True show ?thesis
      by (subst superclass_chain_contains.simps) auto
  next
    case False
    then obtain s' where s': "super_of w s = Some s'" and n: "s \<noteq> t" "(s, t) \<notin> trail" by auto
    have eq: "avoiding w t (insert (s, t) trail) = avoiding w t trail \<inter> {(y, z). y \<noteq> s}"
      by auto
    have "(s, t) \<in> (avoiding w t trail)\<^sup>* \<longleftrightarrow> (s', t) \<in> (avoiding w t (insert (s, t) trail))\<^sup>*"
    proof
      assume "(s, t) \<in> (avoiding w t trail)\<^sup>*"
      from leave_for_good [OF this n(1)] obtain s'' where "(s, s'') \<in> avoiding w t trail"
        and "(s'', t) \<in> (avoiding w t (insert (s, t) trail))\<^sup>*" unfolding eq .
      with s' show "(s', t) \<in> (avoiding w t (insert (s, t) trail))\<^sup>*" by (simp add: supers_def)
    next
      assume "(s', t) \<in> (avoiding w t (insert (s, t) trail))\<^sup>*"
      then have "(s', t) \<in> (avoiding w t trail)\<^sup>*"
        by (rule rev_subsetD) (intro rtrancl_mono, auto)
      moreover have "(s, s') \<in> avoiding w t trail" using s' n by (simp add: supers_def)
      ultimately show "(s, t) \<in> (avoiding w t trail)\<^sup>*" by (rule converse_rtrancl_into_rtrancl [rotated])
    qed
    with 1 [OF n s'] s' n show ?thesis
      by (subst superclass_chain_contains.simps) auto
  qed
qed

section \<open>What subtyping decides\<close>

text \<open>The subtyping relation, by rules that may be applied in any order.\<close>

inductive conforms :: "world_model \<Rightarrow> string \<Rightarrow> resolved_type \<Rightarrow> resolved_type \<Rightarrow> bool" for w sc where
  refl: "conforms w sc s s"
| dynamic_source: "conforms w sc Dynamic t"
| dynamic_target: "conforms w sc s Dynamic"
| object: "conforms w sc s (Written (Named ''Object''))"
| def_source: "conforms w sc (Written e) t \<Longrightarrow> conforms w sc (Written (InferenceDef e)) t"
| def_target: "conforms w sc s (Written e) \<Longrightarrow> conforms w sc s (Written (InferenceDef e))"
| union_source: "(\<And>v. v \<in> set vs \<Longrightarrow> conforms w sc (Written v) t) \<Longrightarrow> conforms w sc (Written (Union vs)) t"
| union_target: "v \<in> set vs \<Longrightarrow> conforms w sc s (Written v) \<Longrightarrow> conforms w sc s (Written (Union vs))"
| block: "length sa = length ta \<Longrightarrow> (\<And>a b. (a, b) \<in> set (zip sa ta) \<Longrightarrow> conforms w sc (Written b) (Written a))
    \<Longrightarrow> (\<And>a b. sr = Some a \<Longrightarrow> tr = Some b \<Longrightarrow> conforms w sc (Written a) (Written b))
    \<Longrightarrow> conforms w sc (Written (Block sa sr)) (Written (Block ta tr))"
| nominal: "nominal_head se sc = Some sn \<Longrightarrow> nominal_head te sc = Some tn \<Longrightarrow> (sn, tn) \<in> (supers w)\<^sup>*
    \<Longrightarrow> conforms w sc (Written se) (Written te)"

lemma all_trail_pure:
  "(\<And>x. x \<in> set xs \<Longrightarrow> snd (f x t) = t) \<Longrightarrow> all_trail f xs t = (\<forall>x \<in> set xs. fst (f x t), t)"
  by (induction xs) (simp_all add: case_prod_beta prod_eq_iff)

lemma any_trail_pure:
  "(\<And>x. x \<in> set xs \<Longrightarrow> snd (f x t) = t) \<Longrightarrow> any_trail f xs t = (\<exists>x \<in> set xs. fst (f x t), t)"
  by (induction xs) (simp_all add: case_prod_beta prod_eq_iff)

lemma subtype_of_trail: "snd (subtype_of w sc s t trail) = trail"
proof (induction "rsize s + rsize t" arbitrary: s t trail rule: less_induct)
  case less
  show ?case
  proof (cases s)
    case Dynamic
    then show ?thesis by (subst subtype_of.simps) simp
  next
    case s: (Written se)
    show ?thesis
    proof (cases t)
      case Dynamic
      then show ?thesis using s by (subst subtype_of.simps) simp
    next
      case t: (Written te)
      note IH = less [unfolded s t rsize.simps]
      have l: "snd (subtype_of w sc (Written v) t' trail) = trail" if "v \<in> set vs" "se = Union vs" "rsize t' \<le> size te" for v vs t'
        using IH [of "Written v" t' trail] size_member [OF that(1)] that by simp
      have r: "snd (subtype_of w sc s' (Written v) trail) = trail" if "v \<in> set vs" "te = Union vs" "rsize s' \<le> size se" for v vs s'
        using IH [of s' "Written v" trail] size_member [OF that(1)] that by simp
      have b: "snd ((\<lambda>(a, b). subtype_of w sc (Written b) (Written a)) p trail) = trail"
        if "p \<in> set (zip sa ta)" "se = Block sa sr" "te = Block ta tr" for p sa ta sr tr
        using IH [of "Written (snd p)" "Written (fst p)" trail] size_zip_members [of "fst p" "snd p" sa ta] that
        by (simp add: case_prod_beta)
      show ?thesis
      proof (cases "\<exists>sa sr ta tr. se = Block sa sr \<and> te = Block ta tr")
        case True
        then obtain sa sr ta tr where e: "se = Block sa sr" "te = Block ta tr" by blast
        have all: "all_trail (\<lambda>(a, b). subtype_of w sc (Written b) (Written a)) (zip sa ta) trail
            = (\<forall>p \<in> set (zip sa ta). fst ((\<lambda>(a, b). subtype_of w sc (Written b) (Written a)) p trail), trail)"
          by (rule all_trail_pure) (rule b [OF _ e])
        show ?thesis
          unfolding s t by (subst subtype_of.simps) (use e in \<open>simp add: all IH split: option.splits\<close>)
      next
        case False
        then show ?thesis
          unfolding s t
          by (subst subtype_of.simps, cases se; cases te;
              simp add: chain_contains_avoiding all_trail_pure any_trail_pure IH l r split: option.splits)
      qed
    qed
  qed
qed

abbreviation sub :: "world_model \<Rightarrow> string \<Rightarrow> resolved_type \<Rightarrow> resolved_type \<Rightarrow> bool" where
  "sub w sc s t \<equiv> fst (subtype_of w sc s t {})"

lemma all_sub: "all_trail (\<lambda>v. subtype_of w sc (f v) (g v)) vs {} = (\<forall>v \<in> set vs. sub w sc (f v) (g v), {})"
  by (rule all_trail_pure) (rule subtype_of_trail)

lemma any_sub: "any_trail (\<lambda>v. subtype_of w sc (f v) (g v)) vs {} = (\<exists>v \<in> set vs. sub w sc (f v) (g v), {})"
  by (rule any_trail_pure) (rule subtype_of_trail)

lemma sub_refl [simp]: "sub w sc s s"
  by (subst subtype_of.simps) simp

lemma sub_dynamic [simp]: "sub w sc Dynamic t" "sub w sc s Dynamic"
  by (subst subtype_of.simps; simp split: resolved_type.splits)+

lemma sub_object [simp]: "sub w sc s (Written (Named ''Object''))"
  by (subst subtype_of.simps) (simp split: resolved_type.splits)

lemma sub_def_source: "sub w sc (Written (InferenceDef i)) t \<longleftrightarrow> t = Written (InferenceDef i) \<or> sub w sc (Written i) t"
  by (cases t; subst subtype_of.simps) auto

definition is_def :: "type_expr \<Rightarrow> bool" where
  "is_def e \<longleftrightarrow> (\<exists>i. e = InferenceDef i)"

definition is_union :: "type_expr \<Rightarrow> bool" where
  "is_union e \<longleftrightarrow> (\<exists>vs. e = Union vs)"

lemma sub_def_target:
  "\<not> is_def se \<Longrightarrow> sub w sc (Written se) (Written (InferenceDef i)) \<longleftrightarrow> sub w sc (Written se) (Written i)"
  by (subst subtype_of.simps) (cases se; simp add: is_def_def)

lemma sub_union_source:
  "\<not> is_def te \<Longrightarrow> sub w sc (Written (Union vs)) (Written te) \<longleftrightarrow> te = Union vs \<or> (\<forall>v \<in> set vs. sub w sc (Written v) (Written te))"
  by (subst subtype_of.simps) (cases te; auto simp add: is_def_def all_sub)

lemma sub_union_target:
  "\<not> is_def se \<Longrightarrow> \<not> is_union se \<Longrightarrow>
   sub w sc (Written se) (Written (Union vs)) \<longleftrightarrow> (\<exists>v \<in> set vs. sub w sc (Written se) (Written v))"
  by (subst subtype_of.simps) (cases se; simp add: is_def_def is_union_def any_sub)

lemma sub_block:
  "sub w sc (Written (Block sa sr)) (Written (Block ta tr)) \<longleftrightarrow>
     length sa = length ta \<and> (\<forall>(a, b) \<in> set (zip sa ta). sub w sc (Written b) (Written a))
     \<and> (\<forall>a b. sr = Some a \<longrightarrow> tr = Some b \<longrightarrow> sub w sc (Written a) (Written b))"
proof -
  have all: "all_trail (\<lambda>(a, b). subtype_of w sc (Written b) (Written a)) xs {}
      = (\<forall>(a, b) \<in> set xs. sub w sc (Written b) (Written a), {})" for xs
    using all_trail_pure [of xs "\<lambda>(a, b). subtype_of w sc (Written b) (Written a)" "{}"]
    by (simp add: case_prod_beta subtype_of_trail)
  show ?thesis
    by (subst subtype_of.simps) (auto simp: all set_zip split: option.splits)
qed

lemma sub_nominal:
  "nominal_head se sc = Some sn \<Longrightarrow> nominal_head te sc = Some tn \<Longrightarrow>
   sub w sc (Written se) (Written te) \<longleftrightarrow> te = Named ''Object'' \<or> (sn, tn) \<in> (supers w)\<^sup>*"
  by (subst subtype_of.simps) (cases se; cases te; auto simp: chain_contains_avoiding)

lemma sub_block_nominal:
  "nominal_head e sc = Some n \<Longrightarrow> sub w sc (Written (Block sa sr)) (Written e) \<longleftrightarrow> e = Named ''Object''"
  "nominal_head e sc = Some n \<Longrightarrow> \<not> sub w sc (Written e) (Written (Block sa sr))"
  by (subst subtype_of.simps, cases e; auto)+

lemma nominal_head_iff: "nominal_head e sc = None \<longleftrightarrow> is_def e \<or> is_union e \<or> (\<exists>sa sr. e = Block sa sr)"
  by (cases e) (auto simp: is_def_def is_union_def)

lemmas sub_rules = sub_def_source sub_def_target sub_union_source sub_union_target sub_block

text \<open>The algorithm is closed under the rules it does not apply first.\<close>

lemma sub_def_target_intro: "sub w sc (Written se) (Written e) \<Longrightarrow> sub w sc (Written se) (Written (InferenceDef e))"
proof (induction se arbitrary: e)
  case (InferenceDef i)
  from InferenceDef.prems consider "e = InferenceDef i" | "sub w sc (Written i) (Written e)"
    by (auto simp: sub_def_source)
  then show ?case
  proof cases
    case 1
    have "sub w sc (Written i) (Written (InferenceDef i))" using InferenceDef.IH [of i] by simp
    from InferenceDef.IH [OF this] 1 show ?thesis by (simp add: sub_def_source)
  qed (simp add: sub_def_source InferenceDef.IH)
qed (simp_all add: sub_def_target is_def_def)

lemma sub_def_target_elim: "sub w sc (Written se) (Written (InferenceDef e)) \<Longrightarrow> sub w sc (Written se) (Written e)"
  by (induction se) (auto simp: sub_def_source sub_def_target is_def_def)

lemma sub_union_target_intro:
  "v \<in> set vs \<Longrightarrow> sub w sc (Written se) (Written v) \<Longrightarrow> sub w sc (Written se) (Written (Union vs))"
proof (induction se arbitrary: v vs)
  case (InferenceDef i)
  from InferenceDef.prems(2) consider "v = InferenceDef i" | "sub w sc (Written i) (Written v)"
    by (auto simp: sub_def_source)
  then have "sub w sc (Written i) (Written v)"
    by cases (auto intro: sub_def_target_intro)
  with InferenceDef show ?case by (auto simp: sub_def_source)
next
  case (Union us)
  have "sub w sc (Written u) (Written v)" if u: "u \<in> set us" and v: "sub w sc (Written (type_expr.Union us)) (Written v)" for u v
    using v
  proof (induction v)
    case (InferenceDef x)
    then show ?case using sub_def_target_elim sub_def_target_intro by blast
  qed (use Union.IH [OF u u] u in \<open>auto simp: sub_union_source is_def_def\<close>)
  with Union show ?case by (auto simp: sub_union_source is_def_def)
qed (auto simp: sub_union_target is_def_def is_union_def)

lemma sub_union_source_intro:
  "(\<And>v. v \<in> set vs \<Longrightarrow> sub w sc (Written v) t) \<Longrightarrow> sub w sc (Written (Union vs)) t"
proof (cases t)
  case (Written te)
  moreover assume "\<And>v. v \<in> set vs \<Longrightarrow> sub w sc (Written v) t"
  ultimately have "\<And>v. v \<in> set vs \<Longrightarrow> sub w sc (Written v) (Written te)" by simp
  then have "sub w sc (Written (Union vs)) (Written te)"
  proof (induction te)
    case (InferenceDef x)
    then show ?case by (auto intro: sub_def_target_elim sub_def_target_intro)
  qed (auto simp: sub_union_source is_def_def)
  with Written show ?thesis by simp
qed simp

lemma conforms_sub: "conforms w sc s t \<Longrightarrow> sub w sc s t"
proof (induction rule: conforms.induct)
  case (def_target s e)
  then show ?case by (cases s) (auto intro: sub_def_target_intro)
next
  case (union_source vs t)
  then show ?case by (auto intro: sub_union_source_intro)
next
  case (union_target v vs s)
  then show ?case by (cases s) (auto intro: sub_union_target_intro)
next
  case (nominal se sn te tn)
  then show ?case by (simp add: sub_nominal)
qed (auto simp: sub_def_source sub_block)

lemma sub_conforms: "sub w sc s t \<Longrightarrow> conforms w sc s t"
proof (induction "rsize s + rsize t" arbitrary: s t rule: less_induct)
  case less
  show ?case
  proof (cases s; cases t)
    fix se te assume s: "s = Written se" and t: "t = Written te"
    note IH = less(1) [unfolded s t rsize.simps]
    note sub = less(2) [unfolded s t]
    consider (sd) i where "se = InferenceDef i" | (td) i where "\<not> is_def se" "te = InferenceDef i"
      | (su) vs where "\<not> is_def te" "se = Union vs"
      | (tu) vs where "\<not> is_def se" "\<not> is_union se" "te = Union vs"
      | (bb) sa sr ta tr where "se = Block sa sr" "te = Block ta tr"
      | (bn) sa sr tn where "se = Block sa sr" "nominal_head te sc = Some tn"
      | (nb) ta tr sn where "te = Block ta tr" "nominal_head se sc = Some sn"
      | (nn) sn tn where "nominal_head se sc = Some sn" "nominal_head te sc = Some tn"
      using nominal_head_iff [of se sc] nominal_head_iff [of te sc]
      by (cases "nominal_head se sc"; cases "nominal_head te sc") (auto simp: is_def_def is_union_def)
    then show ?thesis
      unfolding s t
    proof cases
      case sd
      with sub consider "te = se" | "sub w sc (Written i) (Written te)" by (auto simp: sub_def_source)
      then show "conforms w sc (Written se) (Written te)"
        by cases (use IH [of "Written i" "Written te"] sd in \<open>auto intro: conforms.intros\<close>)
    next
      case td
      with sub IH [of "Written se" "Written i"] show "conforms w sc (Written se) (Written te)"
        by (auto simp: sub_def_target intro: conforms.intros)
    next
      case su
      with sub consider "te = se" | "\<forall>v \<in> set vs. sub w sc (Written v) (Written te)" by (auto simp: sub_union_source)
      then show "conforms w sc (Written se) (Written te)"
      proof cases
        case 2
        have "conforms w sc (Written v) (Written te)" if "v \<in> set vs" for v
          using IH [of "Written v" "Written te"] size_member [OF that] that 2 su by simp
        with su show ?thesis by (auto intro: conforms.union_source)
      qed (auto intro: conforms.refl)
    next
      case tu
      with sub obtain v where v: "v \<in> set vs" "sub w sc (Written se) (Written v)" by (auto simp: sub_union_target)
      with IH [of "Written se" "Written v"] size_member [OF v(1)] tu show "conforms w sc (Written se) (Written te)"
        by (auto intro: conforms.union_target)
    next
      case bb
      have "conforms w sc (Written b) (Written a)" if "(a, b) \<in> set (zip sa ta)" for a b
        using IH [of "Written b" "Written a"] size_zip_members [OF that] that sub bb by (auto simp: sub_block)
      moreover have "conforms w sc (Written a) (Written b)" if "sr = Some a" "tr = Some b" for a b
        using IH [of "Written a" "Written b"] that sub bb by (auto simp: sub_block)
      ultimately show "conforms w sc (Written se) (Written te)"
        using sub bb by (auto simp: sub_block intro!: conforms.block)
    next
      case bn
      with sub show "conforms w sc (Written se) (Written te)" by (auto simp: sub_block_nominal intro: conforms.object)
    next
      case nb
      with sub show "conforms w sc (Written se) (Written te)" by (auto simp: sub_block_nominal)
    next
      case nn
      with sub show "conforms w sc (Written se) (Written te)"
        by (auto simp: sub_nominal intro: conforms.object conforms.nominal)
    qed
  qed (auto intro: conforms.intros)
qed

lemma subtype_of_decides': "subtype_of w sc s t {} = (conforms w sc s t, {})"
proof -
  have "sub w sc s t = conforms w sc s t" using conforms_sub sub_conforms by blast
  then show ?thesis by (simp add: prod_eq_iff subtype_of_trail)
qed

text \<open>
  C21: \<open>subtype_of\<close> decides the subtyping relation. Started with an empty trail it always answers, answers true
  exactly for the pairs derivable from the subtyping rules in whatever order they are applied (so the fixed order
  in which the code unwraps inference definitions and unions loses nothing), also in a world whose superclass
  links form a cycle, and it returns the trail as it got it.
\<close>

theorem subtype_of_decides: "subtype_of w sc s t {} = (conforms w sc s t, {})"
  by (rule subtype_of_decides')

section \<open>What a send finds\<close>

text \<open>Method lookup as a relation: the class has the method itself, or its superclass understands the selector.\<close>

inductive understands :: "world_model \<Rightarrow> string \<Rightarrow> string \<Rightarrow> method_node \<Rightarrow> bool" for w sel where
  own: "map_of (classes w) n = Some c \<Longrightarrow> map_of (instance_methods c) sel = Some m \<Longrightarrow> understands w sel n m"
| inherited: "map_of (classes w) n = Some c \<Longrightarrow> map_of (instance_methods c) sel = None \<Longrightarrow> superclass c = Some s
    \<Longrightarrow> understands w sel s m \<Longrightarrow> understands w sel n m"

inductive_cases understandsE: "understands w sel n m"

definition family :: "world_model \<Rightarrow> string \<Rightarrow> string \<Rightarrow> bool" where
  "family w start sel \<longleftrightarrow>
     (\<exists>n c. map_of (classes w) n = Some c \<and> map_of (instance_methods c) sel \<noteq> None \<and> (n, start) \<in> (supers w)\<^sup>*)"

lemma supers_iff: "(n, s) \<in> supers w \<longleftrightarrow> (\<exists>c. map_of (classes w) n = Some c \<and> superclass c = Some s)"
  by (auto simp: supers_def super_of_def split: option.splits)

lemma finite_supers: "finite (supers w)" and card_supers: "card (supers w) \<le> length (classes w)"
proof -
  have "supers w \<subseteq> (\<lambda>n. (n, the (super_of w n))) ` fst ` set (classes w)"
    by (auto simp: supers_iff super_of_def image_iff dest: map_of_SomeD intro!: rev_bexI)
  then show "finite (supers w)" "card (supers w) \<le> length (classes w)"
    using card_mono [of "(\<lambda>n. (n, the (super_of w n))) ` fst ` set (classes w)" "supers w"]
      card_image_le [of "fst ` set (classes w)" "\<lambda>n. (n, the (super_of w n))"]
      card_image_le [of "set (classes w)" fst] card_length [of "classes w"]
    by (auto intro: finite_subset)
qed

lemma supers_reach: "(s, t) \<in> (supers w)\<^sup>* \<Longrightarrow> \<exists>n \<le> length (classes w). (s, t) \<in> supers w ^^ n"
  using card_supers [of w] unfolding rtrancl_finite_eq_relpow [OF finite_supers] by (auto intro: order_trans)

lemma descend_sound: "descend_loop w anc n (Some c) \<Longrightarrow> (c, anc) \<in> (supers w)\<^sup>*"
proof (induction n arbitrary: c)
  case (Suc n)
  show ?case
  proof (cases "c = anc")
    case False
    with Suc.prems obtain k where k: "map_of (classes w) c = Some k" and d: "descend_loop w anc n (superclass k)"
      by (auto split: option.splits)
    then obtain s where s: "superclass k = Some s" by (cases "superclass k") auto
    with k have "(c, s) \<in> supers w" by (simp add: supers_iff)
    with Suc.IH [of s] d s show ?thesis by (simp add: converse_rtrancl_into_rtrancl)
  qed simp
qed simp

lemma descend_complete: "(c, anc) \<in> supers w ^^ k \<Longrightarrow> k < n \<Longrightarrow> descend_loop w anc n (Some c)"
proof (induction n arbitrary: c k)
  case (Suc n)
  show ?case
  proof (cases "c = anc")
    case False
    with Suc.prems(1) obtain j where k: "k = Suc j" by (cases k) auto
    from relpow_Suc_D2 [OF Suc.prems(1) [unfolded k]] obtain s where "(c, s) \<in> supers w" "(s, anc) \<in> supers w ^^ j" by blast
    with Suc.IH [of s j] Suc.prems(2) k show ?thesis by (auto simp: supers_iff)
  qed simp
qed simp

lemma is_descendant_of_iff: "is_descendant_of w c anc \<longleftrightarrow> (c, anc) \<in> (supers w)\<^sup>*"
proof
  assume "(c, anc) \<in> (supers w)\<^sup>*"
  from supers_reach [OF this] obtain k where "k \<le> length (classes w)" "(c, anc) \<in> supers w ^^ k" by blast
  with descend_complete [of c anc k w "length (classes w) + 1"] show "is_descendant_of w c anc"
    by (simp add: is_descendant_of_def del: descend_loop.simps)
qed (use descend_sound in \<open>unfold is_descendant_of_def\<close>)

lemma climb_sound: "climb w sel n (Some s) = Some m \<Longrightarrow> understands w sel s m"
proof (induction n arbitrary: s)
  case (Suc n)
  then obtain c where c: "map_of (classes w) s = Some c" by (auto split: option.splits)
  show ?case
  proof (cases "map_of (instance_methods c) sel")
    case None
    with Suc.prems c have "climb w sel n (superclass c) = Some m" by simp
    then obtain t where "superclass c = Some t" "climb w sel n (Some t) = Some m" by (cases "superclass c") auto
    with Suc.IH c None show ?thesis by (auto intro: understands.inherited)
  qed (use Suc.prems c in \<open>auto intro: understands.own\<close>)
qed simp

lemma understands_own:
  "understands w sel s m \<Longrightarrow> \<exists>d c. (s, d) \<in> (supers w)\<^sup>* \<and> map_of (classes w) d = Some c \<and> map_of (instance_methods c) sel = Some m"
proof (induction rule: understands.induct)
  case (inherited n c s m)
  then have "(n, s) \<in> supers w" by (auto simp: supers_iff)
  with inherited.IH show ?case by (blast intro: converse_rtrancl_into_rtrancl)
qed blast

lemma climb_complete:
  "(s, d) \<in> supers w ^^ k \<Longrightarrow> map_of (classes w) d = Some c \<Longrightarrow> map_of (instance_methods c) sel \<noteq> None \<Longrightarrow> k < n
   \<Longrightarrow> understands w sel s m \<Longrightarrow> climb w sel n (Some s) = Some m"
proof (induction n arbitrary: s k)
  case (Suc n)
  from Suc.prems(5) show ?case
  proof (cases rule: understands.cases)
    case (inherited cs t)
    note 2 = inherited
    with Suc.prems(1,2,3) obtain j where k: "k = Suc j" by (cases k) auto
    from relpow_Suc_D2 [OF Suc.prems(1) [unfolded k]] 2 have "(t, d) \<in> supers w ^^ j" by (auto simp: supers_iff)
    with Suc.IH [of t j] Suc.prems k 2 show ?thesis by simp
  qed simp
qed simp

lemma climb_iff: "climb w sel (length (classes w) + 1) (Some s) = Some m \<longleftrightarrow> understands w sel s m"
proof
  assume m: "understands w sel s m"
  then obtain d c where d: "(s, d) \<in> (supers w)\<^sup>*" "map_of (classes w) d = Some c" "map_of (instance_methods c) sel = Some m"
    using understands_own by blast
  from supers_reach [OF d(1)] obtain k where "k \<le> length (classes w)" "(s, d) \<in> supers w ^^ k" by blast
  with d(2,3) m show "climb w sel (length (classes w) + 1) (Some s) = Some m"
    using climb_complete [of s d k w c sel "length (classes w) + 1" m] by (simp del: climb.simps)
qed (rule climb_sound)

lemma find_method_family:
  assumes "distinct (map fst (classes w))"
  shows "list_ex (\<lambda>(name, c). map_of (instance_methods c) sel \<noteq> None \<and> is_descendant_of w name start) (classes w)
    \<longleftrightarrow> family w start sel"
  using assms by (force simp: list_ex_iff family_def is_descendant_of_iff)


lemma find_method_distinct:
  assumes "distinct (map fst (classes w))"
  shows "(find_method w start sel = Found m \<longleftrightarrow> understands w sel start m)
    \<and> (find_method w start sel = PlausibleViaDescendant \<longleftrightarrow> (\<forall>m. \<not> understands w sel start m) \<and> family w start sel)
    \<and> (find_method w start sel = NotFound \<longleftrightarrow> (\<forall>m. \<not> understands w sel start m) \<and> \<not> family w start sel)"
proof (cases "climb w sel (length (classes w) + 1) (Some start)")
  case None
  with climb_iff [of w sel start] have "\<forall>m. \<not> understands w sel start m" by simp
  with None find_method_family [OF assms, of sel start] show ?thesis
    by (simp add: find_method_def del: climb.simps)
next
  case (Some m')
  then have "understands w sel start m \<longleftrightarrow> m = m'" for m using climb_iff [of w sel start m] by auto
  with Some show ?thesis by (auto simp: find_method_def simp del: climb.simps)
qed

section \<open>The model of a source\<close>

lemma keys_update: "map fst (AList.update k v al) = (if k \<in> set (map fst al) then map fst al else map fst al @ [k])"
  by (induction al) auto

lemma map_of_None_iff: "map_of al k = None \<longleftrightarrow> k \<notin> set (map fst al)"
  by (induction al) auto

lemma add_or_reopen_keys:
  "map fst (classes (add_or_reopen w n)) =
     (if cd_name n \<in> set (map fst (classes w)) then map fst (classes w) else map fst (classes w) @ [cd_name n])"
  by (auto simp: add_or_reopen_def Let_def keys_update map_of_None_iff update_conv' split: option.splits)

fun class_decls :: "top_item list \<Rightarrow> class_def_node list" where
  "class_decls [] = []"
| "class_decls (ClassDef c # items) = c # class_decls items"
| "class_decls (DoIt _ # items) = class_decls items"

lemma class_decls_append: "class_decls (xs @ ys) = class_decls xs @ class_decls ys"
  by (induction xs rule: class_decls.induct) auto

definition declarations :: "string \<Rightarrow> top_item list \<Rightarrow> class_def_node list" where
  "declarations n items = filter (\<lambda>c. cd_name c = n) (class_decls items)"

definition declared_methods :: "bool \<Rightarrow> class_def_node list \<Rightarrow> (string \<times> method_node) list" where
  "declared_methods side ds = map (\<lambda>m. (pattern_selector m, m)) (filter (\<lambda>m. class_side m = side) (concat (map cd_methods ds)))"

definition shaping :: "class_def_node list \<Rightarrow> class_def_node list" where
  "shaping ds = filter (\<lambda>d. cd_inst_vars d \<noteq> []) ds"

lemma merge_methods:
  "map_of (instance_methods (fold merge_method ms c)) =
     map_of (instance_methods c) ++ map_of (rev (map (\<lambda>m. (pattern_selector m, m)) (filter (\<lambda>m. \<not> class_side m) ms)))"
  "map_of (class_methods (fold merge_method ms c)) =
     map_of (class_methods c) ++ map_of (rev (map (\<lambda>m. (pattern_selector m, m)) (filter class_side ms)))"
  by (induction ms arbitrary: c) (auto simp: merge_method_def update_conv' map_add_def fun_eq_iff split: option.splits)

lemma merge_methods_rest:
  "superclass (fold merge_method ms c) = superclass c"
  "inst_vars (fold merge_method ms c) = inst_vars c"
  "inst_var_types (fold merge_method ms c) = inst_var_types c"
  by (induction ms arbitrary: c) (auto simp: merge_method_def)

lemma merges_result:
  fixes ds :: "class_def_node list" and n :: string
  defines "c \<equiv> foldl merge (ci_new n) ds"
  shows "map_of (instance_methods c) = map_of (rev (declared_methods False ds))"
    and "map_of (class_methods c) = map_of (rev (declared_methods True ds))"
    and "superclass c = (if ds = [] \<or> cd_superclass (last ds) = ''nil'' then None else Some (cd_superclass (last ds)))"
    and "inst_vars c = (if shaping ds = [] then [] else cd_inst_vars (last (shaping ds)))"
    and "inst_var_types c = (if shaping ds = [] then [] else map (map_option ta_text) (cd_inst_var_types (last (shaping ds))))"
  unfolding c_def
  by (induction ds rule: rev_induct)
    (auto simp: ci_new_def declared_methods_def shaping_def merge_def Let_def merge_methods merge_methods_rest)

text \<open>A world that loads is the model of the items of its files, in order.\<close>

lemma load_entries_items:
  "load_entries rd pf i seen ls (build_items items) = Inr w \<Longrightarrow> \<exists>more. w = build_items (items @ more)"
proof (induction ls arbitrary: i seen items)
  case Nil
  then show ?case by (metis append_Nil2 load_entries.simps(1) sum.inject(2))
next
  case (Cons raw rest)
  show ?case
  proof (cases "trim raw = [] \<or> hd (trim raw) = CHR ''#''")
    case True
    with Cons show ?thesis by (simp add: Let_def)
  next
    case False
    with Cons.prems obtain new where "load_entries rd pf (i + 1) (trim raw # seen) rest (build_items (items @ new)) = Inr w"
      by (auto simp: Let_def build_items_def split: if_splits option.splits sum.splits)
    from Cons.IH [OF this] show ?thesis by auto
  qed
qed

lemma build_world_model_items: "build_world_model rd pf = Inr w \<Longrightarrow> \<exists>items. w = build_items items"
  using load_entries_items [of rd pf 0 "[]" _ "[]" w]
  by (auto simp: build_world_model_def build_items_def split: option.splits)

lemma build_snoc: "build_items (items @ [i]) = fold_item i (build_items items)"
  by (simp add: build_items_def)

lemma build_classes:
  "map_of (classes (build_items items)) n =
     (if declarations n items = [] then None else Some (foldl merge (ci_new n) (declarations n items)))"
proof (induction items rule: rev_induct)
  case Nil
  show ?case by (simp add: build_items_def empty_model_def declarations_def class_decls_append)
next
  case (snoc i items)
  show ?case
  proof (cases i)
    case (DoIt e)
    with snoc show ?thesis by (simp add: build_snoc fold_item_def declarations_def class_decls_append)
  next
    case (ClassDef c)
    have d: "declarations n (items @ [i]) = declarations n items @ (if cd_name c = n then [c] else [])"
      using ClassDef by (simp add: declarations_def class_decls_append)
    show ?thesis
      using snoc by (cases "cd_name c = n"; cases "declarations n items = []")
        (auto simp: d [unfolded ClassDef] build_snoc ClassDef fold_item_def add_or_reopen_def Let_def update_conv' split: option.splits)
  qed
qed

lemma build_order:
  "map fst (classes (build_items items)) = rev (remdups (rev (map cd_name (class_decls items))))
   \<and> class_order (build_items items) = rev (remdups (rev (map cd_name (class_decls items))))"
proof (induction items rule: rev_induct)
  case Nil
  show ?case by (simp add: build_items_def empty_model_def class_decls_append)
next
  case (snoc i items)
  show ?case
  proof (cases i)
    case (DoIt e)
    with snoc show ?thesis by (simp add: build_snoc fold_item_def class_decls_append)
  next
    case (ClassDef c)
    have "class_order (add_or_reopen w c) =
        (if cd_name c \<in> set (map fst (classes w)) then class_order w else class_order w @ [cd_name c])" for w
      by (auto simp: add_or_reopen_def Let_def map_of_None_iff split: option.splits)
    moreover have "set (map fst (classes (build_items items))) = set (map cd_name (class_decls items))"
      using snoc by (simp del: set_map)
    ultimately show ?thesis
      using snoc ClassDef by (simp add: build_snoc fold_item_def add_or_reopen_keys class_decls_append del: set_map)
  qed
qed

text \<open>The model of a source keeps, for every class, what its declarations say. A class is in the model precisely
  when it is declared; its superclass is that of its last declaration, its instance variables and their types those
  of the last declaration that lists any, and the method under a selector is the last one declared for it on that
  side; the class order is the order of first declarations, without repetition.\<close>

lemma build_items_latest_wins:
  "class_order (build_items items) = rev (remdups (rev (map cd_name (class_decls items))))
   \<and> map fst (classes (build_items items)) = class_order (build_items items)
   \<and> (case map_of (classes (build_items items)) n of
        None \<Rightarrow> declarations n items = []
      | Some c \<Rightarrow>
          declarations n items \<noteq> []
          \<and> superclass c = (let s = cd_superclass (last (declarations n items)) in if s = ''nil'' then None else Some s)
          \<and> inst_vars c = (if shaping (declarations n items) = [] then [] else cd_inst_vars (last (shaping (declarations n items))))
          \<and> inst_var_types c = (if shaping (declarations n items) = [] then []
               else map (map_option ta_text) (cd_inst_var_types (last (shaping (declarations n items)))))
          \<and> map_of (instance_methods c) sel = map_of (rev (declared_methods False (declarations n items))) sel
          \<and> map_of (class_methods c) sel = map_of (rev (declared_methods True (declarations n items))) sel)"
  by (simp add: build_order build_classes merges_result Let_def)

text \<open>
  C30: the lookup of the send rule is exact. In the model of any source, it finds a method precisely when the class or the nearest ancestor
  that has the selector has that method, reports a plausible one precisely when no ancestor has the selector but
  a class below does, and reports the selector as unknown precisely when nobody in the family has it. The step
  bounds of both climbing loops are enough, also when superclass links form a cycle.
\<close>

theorem find_method_exact:
  "(find_method (build_items items) start sel = Found m \<longleftrightarrow> understands (build_items items) sel start m)
   \<and> (find_method (build_items items) start sel = PlausibleViaDescendant \<longleftrightarrow>
        \<not> (\<exists>m. understands (build_items items) sel start m) \<and> family (build_items items) start sel)
   \<and> (find_method (build_items items) start sel = NotFound \<longleftrightarrow>
        \<not> (\<exists>m. understands (build_items items) sel start m) \<and> \<not> family (build_items items) start sel)"
  using find_method_distinct [of "build_items items" start sel m] by (simp add: build_order)

section \<open>What a send reports\<close>

fun arg_errors :: "world_model \<Rightarrow> string \<Rightarrow> string \<Rightarrow> annotation_site \<Rightarrow> nat \<Rightarrow> (type_annotation option \<times> resolved_type) list \<Rightarrow> type_error list" where
  "arg_errors w sc sel site i [] = []"
| "arg_errors w sc sel site i ((formal, actual) # rest) =
     (if conforms w sc actual (resolve_captured formal) then []
      else [SendArgNotSubtype site sel i (show_resolved (resolve_captured formal)) (show_resolved actual)])
     @ arg_errors w sc sel site (i + 1) rest"

lemma check_args_errors: "check_args w sc sel site i fas {} errs = errs @ arg_errors w sc sel site i fas"
  by (induction fas arbitrary: i errs) (auto simp: Let_def subtype_of_decides')

end
