(* ===== verification/TypeCheck.thy ===== *)
theory TypeCheck
  imports TypeWorld "HOL-Library.List_Lexorder" "HOL-Library.Char_ord"
begin

text \<open>
  The checks over a whole world: the annotation checks (\<open>src/src/types/check.rs\<close>) and the walk over method bodies
  with expression typing (\<open>src/src/types/expr_type.rs\<close>).

  The state the walk mutates (the scope stack, the found-return flag, the error list) is passed explicitly; what is
  the same for a whole method is the record \<open>walk_ctx\<close>. Indexing a map by an absent key is a panic.
\<close>

section \<open>Annotation checks\<close>

type_synonym arity_table = "(string \<times> nat \<times> annotation_site) list"

definition check_name :: "world_model \<Rightarrow> annotation_site \<Rightarrow> string \<Rightarrow> type_error list \<Rightarrow> type_error list" where
  "check_name w site name errs =
     (if name = ''Self'' then errs
      else if map_of (classes w) name = None then errs @ [UndeclaredTypeName site name] else errs)"

definition record_arity :: "arity_table \<Rightarrow> string \<Rightarrow> nat \<Rightarrow> annotation_site \<Rightarrow> type_error list \<Rightarrow> arity_table \<times> type_error list" where
  "record_arity seen head arity site errs =
     (case map_of seen head of
        None \<Rightarrow> (AList.update head (arity, site) seen, errs)
      | Some (first_arity, first_site) \<Rightarrow>
          if first_arity \<noteq> arity
          then (seen, errs @ [GenericArityMismatch head site arity first_site first_arity])
          else (seen, errs))"

fun walk_type_expr :: "world_model \<Rightarrow> annotation_site \<Rightarrow> type_expr \<Rightarrow> type_error list \<times> arity_table \<Rightarrow> type_error list \<times> arity_table"
and walk_type_exprs :: "world_model \<Rightarrow> annotation_site \<Rightarrow> type_expr list \<Rightarrow> type_error list \<times> arity_table \<Rightarrow> type_error list \<times> arity_table" where
  "walk_type_expr w site (Named n) (errs, ar) = (check_name w site n errs, ar)"
| "walk_type_expr w site (Generic h args) (errs, ar) =
     (let errs1 = check_name w site h errs;
          (ar1, errs2) = record_arity ar h (length args) site errs1
      in walk_type_exprs w site args (errs2, ar1))"
| "walk_type_expr w site (Block args ret) st =
     (let st1 = walk_type_exprs w site args st
      in case ret of None \<Rightarrow> st1 | Some r \<Rightarrow> walk_type_expr w site r st1)"
| "walk_type_expr w site (Union vs) st = walk_type_exprs w site vs st"
| "walk_type_expr w site (InferenceDef e) st = walk_type_expr w site e st"
| "walk_type_exprs w site [] st = st"
| "walk_type_exprs w site (e # es) st = walk_type_exprs w site es (walk_type_expr w site e st)"

definition check_annotation :: "world_model \<Rightarrow> annotation_site \<Rightarrow> string \<Rightarrow> type_error list \<times> arity_table \<Rightarrow> type_error list \<times> arity_table" where
  "check_annotation w site txt st =
     (case parse txt of
        None \<Rightarrow> st
      | Some (Inl reason) \<Rightarrow> (fst st @ [MalformedTypeExpr site txt reason], snd st)
      | Some (Inr e) \<Rightarrow> walk_type_expr w site e st)"

section \<open>Expression types\<close>

type_synonym frame = "(string \<times> type_expr option) list"
type_synonym scope = "frame list"

text \<open>The innermost frame is the last one.\<close>

definition push_frame :: "frame \<Rightarrow> scope \<Rightarrow> scope" where
  "push_frame f s = s @ [f]"

definition pop_frame :: "scope \<Rightarrow> scope" where
  "pop_frame s = butlast s"

fun find_frame :: "scope \<Rightarrow> string \<Rightarrow> type_expr option option" where
  "find_frame [] name = None"
| "find_frame (f # fs) name = (case map_of f name of Some t \<Rightarrow> Some t | None \<Rightarrow> find_frame fs name)"

definition scope_lookup :: "scope \<Rightarrow> string \<Rightarrow> type_expr option option" where
  "scope_lookup s name = find_frame (rev s) name"

definition captured_type :: "type_annotation option \<Rightarrow> type_expr option" where
  "captured_type ann = (case ann of None \<Rightarrow> None | Some a \<Rightarrow> parse_ok (ta_text a))"

definition written_or_dynamic :: "type_expr option \<Rightarrow> resolved_type" where
  "written_or_dynamic t = (case t of None \<Rightarrow> Dynamic | Some e \<Rightarrow> Written e)"

definition declared_or_dynamic :: "type_annotation option \<Rightarrow> resolved_type" where
  "declared_or_dynamic ann = written_or_dynamic (captured_type ann)"

fun position :: "string list \<Rightarrow> string \<Rightarrow> nat option" where
  "position [] x = None"
| "position (y # ys) x = (if y = x then Some 0 else map_option Suc (position ys x))"

definition ivar_type :: "world_model \<Rightarrow> string \<Rightarrow> string \<Rightarrow> resolved_type" where
  "ivar_type w class_name name =
     (case map_of (classes w) class_name of
        None \<Rightarrow> Dynamic
      | Some c \<Rightarrow>
          (case position (inst_vars c) name of
             None \<Rightarrow> Dynamic
           | Some i \<Rightarrow>
               (case (if i < length (inst_var_types c) then inst_var_types c ! i else None) of
                  None \<Rightarrow> Dynamic
                | Some txt \<Rightarrow> written_or_dynamic (parse_ok txt))))"

fun type_of_literal :: "literal \<Rightarrow> resolved_type" where
  "type_of_literal (LInt _) = rt_named ''Integer''"
| "type_of_literal (LBigInt _ _) = rt_named ''Integer''"
| "type_of_literal (LFloat _) = rt_named ''Double''"
| "type_of_literal (LChar _) = rt_named ''Character''"
| "type_of_literal (LStr _) = rt_named ''String''"
| "type_of_literal (LSymbol _) = rt_named ''Symbol''"
| "type_of_literal (LArray _) = rt_named ''Array''"
| "type_of_literal (LByteArray _) = rt_named ''ByteArray''"
| "type_of_literal LNil = rt_named ''UndefinedObject''"
| "type_of_literal LTrue = rt_named ''Boolean''"
| "type_of_literal LFalse = rt_named ''Boolean''"

record walk_ctx =
  cx_model :: world_model
  cx_class :: string
  cx_class_side :: bool
  cx_selector :: string
  cx_declared_return :: resolved_type

definition quoted :: "string \<Rightarrow> string" where
  "quoted s = CHR 0x27 # s @ [CHR 0x27]"

definition site_at :: "walk_ctx \<Rightarrow> string \<Rightarrow> annotation_site" where
  "site_at c slot = AnnotationSite (cx_class c) (cx_class_side c) (Some (cx_selector c)) slot"

definition variable_type :: "walk_ctx \<Rightarrow> scope \<Rightarrow> string \<Rightarrow> resolved_type" where
  "variable_type c sc name =
     (case scope_lookup sc name of Some t \<Rightarrow> written_or_dynamic t | None \<Rightarrow> ivar_type (cx_model c) (cx_class c) name)"

definition send_in :: "walk_ctx \<Rightarrow> bool \<Rightarrow> resolved_type \<Rightarrow> string \<Rightarrow> resolved_type list \<Rightarrow> string \<Rightarrow> type_error list
    \<Rightarrow> resolved_type \<times> type_error list" where
  "send_in c is_super rt sel arg_types slot errs =
     check_send (cx_model c) (cx_class c) (cx_class_side c) is_super rt sel arg_types (site_at c slot) errs"

fun synthesize :: "walk_ctx \<Rightarrow> scope \<Rightarrow> expr \<Rightarrow> resolved_type"
and synthesize_all :: "walk_ctx \<Rightarrow> scope \<Rightarrow> expr list \<Rightarrow> resolved_type list"
and synthesize_cascade :: "walk_ctx \<Rightarrow> scope \<Rightarrow> resolved_type \<Rightarrow> expr list \<Rightarrow> resolved_type" where
  "synthesize c sc (SelfRef _) = rt_named ''Self''"
| "synthesize c sc (Var name _) = variable_type c sc name"
| "synthesize c sc (Lit v _) = type_of_literal v"
| "synthesize c sc (Assign _ value _) = synthesize c sc value"
| "synthesize c sc (Send receiver sel args is_super _) =
     fst (send_in c is_super (synthesize c sc receiver) sel (synthesize_all c sc args) (''send '' @ quoted sel) [])"
| "synthesize c sc (Cascade receiver segments _) = synthesize_cascade c sc (synthesize c sc receiver) segments"
| "synthesize c sc (CascadeRcvr _) = Dynamic"
| "synthesize c sc (BlockE _ _ _ _ _) = Dynamic"
| "synthesize c sc (Return _ _) = Dynamic"
| "synthesize c sc (DynArray _ _) = rt_named ''Array''"
| "synthesize_all c sc [] = []"
| "synthesize_all c sc (e # es) = synthesize c sc e # synthesize_all c sc es"
| "synthesize_cascade c sc rt [] = Dynamic"
| "synthesize_cascade c sc rt [s] =
     (case s of
        Send _ sel args is_super _ \<Rightarrow>
          fst (send_in c is_super rt sel (synthesize_all c sc args) (''cascade send '' @ quoted sel) [])
      | _ \<Rightarrow> Dynamic)"
| "synthesize_cascade c sc rt (_ # s # segments) = synthesize_cascade c sc rt (s # segments)"

section \<open>The walk over a method body\<close>

record walk_state =
  ws_scope :: scope
  ws_found :: bool
  ws_errors :: "type_error list"

definition block_frame :: "string list \<Rightarrow> string list \<Rightarrow> frame" where
  "block_frame ps ts = fold (\<lambda>t f. AList.update t None f) ts (fold (\<lambda>p f. AList.update p None f) ps [])"

definition check_assign :: "walk_ctx \<Rightarrow> string \<Rightarrow> expr \<Rightarrow> walk_state \<Rightarrow> walk_state" where
  "check_assign c name value st =
     (let declared = variable_type c (ws_scope st) name;
          actual = synthesize c (ws_scope st) value
      in if fst (subtype_of (cx_model c) (cx_class c) actual declared {}) then st
         else st\<lparr>ws_errors := ws_errors st @
           [AssignmentNotSubtype (site_at c (''assignment to '' @ quoted name)) name (show_resolved declared) (show_resolved actual)]\<rparr>)"

definition check_return :: "walk_ctx \<Rightarrow> expr \<Rightarrow> walk_state \<Rightarrow> walk_state" where
  "check_return c value st =
     (let actual = synthesize c (ws_scope st) value
      in if fst (subtype_of (cx_model c) (cx_class c) actual (cx_declared_return c) {}) then st
         else st\<lparr>ws_errors := ws_errors st @
           [ReturnNotSubtype (site_at c ''return'') (show_resolved (cx_declared_return c)) (show_resolved actual)]\<rparr>)"

definition check_send_site :: "walk_ctx \<Rightarrow> bool \<Rightarrow> resolved_type \<Rightarrow> string \<Rightarrow> expr list \<Rightarrow> string \<Rightarrow> walk_state \<Rightarrow> walk_state" where
  "check_send_site c is_super rt sel args slot st =
     st\<lparr>ws_errors := snd (send_in c is_super rt sel (synthesize_all c (ws_scope st) args) slot (ws_errors st))\<rparr>"

fun walk_expr :: "walk_ctx \<Rightarrow> expr \<Rightarrow> walk_state \<Rightarrow> walk_state"
and walk_exprs :: "walk_ctx \<Rightarrow> expr list \<Rightarrow> walk_state \<Rightarrow> walk_state"
and walk_segments :: "walk_ctx \<Rightarrow> resolved_type \<Rightarrow> expr list \<Rightarrow> walk_state \<Rightarrow> walk_state" where
  "walk_expr c (SelfRef _) st = st"
| "walk_expr c (Var _ _) st = st"
| "walk_expr c (Lit _ _) st = st"
| "walk_expr c (CascadeRcvr _) st = st"
| "walk_expr c (Assign name value _) st = check_assign c name value (walk_expr c value st)"
| "walk_expr c (Send receiver sel args is_super _) st =
     (let st2 = walk_exprs c args (walk_expr c receiver st)
      in check_send_site c is_super (synthesize c (ws_scope st2) receiver) sel args (''send '' @ quoted sel) st2)"
| "walk_expr c (Cascade receiver segments _) st =
     (let st1 = walk_expr c receiver st
      in walk_segments c (synthesize c (ws_scope st1) receiver) segments st1)"
| "walk_expr c (DynArray elems _) st = walk_exprs c elems st"
| "walk_expr c (BlockE ps ts stmts _ _) st =
     (let st1 = walk_exprs c stmts (st\<lparr>ws_scope := push_frame (block_frame ps ts) (ws_scope st)\<rparr>)
      in st1\<lparr>ws_scope := pop_frame (ws_scope st1)\<rparr>)"
| "walk_expr c (Return value _) st = check_return c value (walk_expr c value (st\<lparr>ws_found := True\<rparr>))"
| "walk_exprs c [] st = st"
| "walk_exprs c (e # es) st = walk_exprs c es (walk_expr c e st)"
| "walk_segments c rt [] st = st"
| "walk_segments c rt (s # ss) st =
     (case s of
        Send _ sel args is_super _ \<Rightarrow>
          walk_segments c rt ss
            (check_send_site c is_super rt sel args (''cascade send '' @ quoted sel) (walk_exprs c args st))
      | _ \<Rightarrow> walk_segments c rt ss st)"

definition method_frame :: "method_node \<Rightarrow> frame" where
  "method_frame m =
     fold (\<lambda>(n, t) f. AList.update n (captured_type t) f) (zip (temps m) (temp_types (type_sig m)))
       (fold (\<lambda>(n, t) f. AList.update n (captured_type t) f) (zip (params m) (param_types (type_sig m))) [])"

definition is_bare_primitive :: "method_node \<Rightarrow> bool" where
  "is_bare_primitive m \<longleftrightarrow> body m = [] \<and> (primitive m \<noteq> None \<or> ffi m \<noteq> None)"

definition ends_in_never_returning_send :: "method_node \<Rightarrow> bool" where
  "ends_in_never_returning_send m \<longleftrightarrow>
     (case rev (body m) of
        Send _ sel _ _ _ # _ \<Rightarrow> sel = ''error:'' \<or> sel = ''subclassResponsibility''
      | _ \<Rightarrow> False)"

definition implicit_slot :: string where
  "implicit_slot = ''implicit return (falls off the end)''"

definition method_ctx :: "world_model \<Rightarrow> string \<Rightarrow> bool \<Rightarrow> string \<Rightarrow> method_node \<Rightarrow> walk_ctx" where
  "method_ctx w class_name side sel m =
     \<lparr>cx_model = w, cx_class = class_name, cx_class_side = side, cx_selector = sel,
      cx_declared_return = declared_or_dynamic (return_type (type_sig m))\<rparr>"

definition check_method :: "world_model \<Rightarrow> string \<Rightarrow> bool \<Rightarrow> string \<Rightarrow> method_node \<Rightarrow> type_error list \<Rightarrow> type_error list" where
  "check_method w class_name side sel m errs =
     (let c = method_ctx w class_name side sel m;
          st = walk_exprs c (body m) \<lparr>ws_scope = push_frame (method_frame m) [], ws_found = False, ws_errors = errs\<rparr>
      in if \<not> ws_found st \<and> \<not> is_bare_primitive m \<and> \<not> ends_in_never_returning_send m
            \<and> \<not> fst (subtype_of w class_name (rt_named ''Self'') (cx_declared_return c) {})
         then ws_errors st @ [ReturnNotSubtype (AnnotationSite class_name side (Some sel) implicit_slot)
                (show_resolved (cx_declared_return c)) (show_resolved (rt_named ''Self''))]
         else ws_errors st)"

section \<open>The check of a world\<close>

fun show_nat :: "nat \<Rightarrow> string" where
  "show_nat n = (if n < 10 then [char_of (48 + n)] else show_nat (n div 10) @ [char_of (48 + n mod 10)])"

type_synonym check_state = "type_error list \<times> arity_table"

fun check_slots :: "world_model \<Rightarrow> string \<Rightarrow> bool \<Rightarrow> string option \<Rightarrow> string \<Rightarrow> nat \<Rightarrow> string option list \<Rightarrow> check_state \<Rightarrow> check_state" where
  "check_slots w cn side sel label i [] st = st"
| "check_slots w cn side sel label i (t # ts) st =
     check_slots w cn side sel label (i + 1) ts
       (case t of None \<Rightarrow> st
        | Some txt \<Rightarrow> check_annotation w (AnnotationSite cn side sel (label @ show_nat i)) txt st)"

definition check_signature :: "world_model \<Rightarrow> string \<Rightarrow> bool \<Rightarrow> string \<Rightarrow> method_node \<Rightarrow> check_state \<Rightarrow> check_state" where
  "check_signature w cn side sel m st =
     (let texts = map (map_option ta_text);
          st1 = (case return_type (type_sig m) of
                   None \<Rightarrow> st
                 | Some t \<Rightarrow> check_annotation w (AnnotationSite cn side (Some sel) ''return'') (ta_text t) st);
          st2 = check_slots w cn side (Some sel) ''param '' 0 (texts (param_types (type_sig m))) st1
      in check_slots w cn side (Some sel) ''temp '' 0 (texts (temp_types (type_sig m))) st2)"

fun check_methods :: "world_model \<Rightarrow> string \<Rightarrow> bool \<Rightarrow> (string \<times> method_node) list \<Rightarrow> string list \<Rightarrow> check_state \<Rightarrow> check_state res" where
  "check_methods w cn side ms [] st = Inr st"
| "check_methods w cn side ms (sel # sels) st =
     (case map_of ms sel of
        None \<Rightarrow> Inl Explicit_panic
      | Some m \<Rightarrow>
          (let (errs, ar) = check_signature w cn side sel m st
           in check_methods w cn side ms sels (check_method w cn side sel m errs, ar)))"

fun check_classes :: "world_model \<Rightarrow> string list \<Rightarrow> check_state \<Rightarrow> check_state res" where
  "check_classes w [] st = Inr st"
| "check_classes w (cn # cns) st =
     (case map_of (classes w) cn of
        None \<Rightarrow> Inl Explicit_panic
      | Some c \<Rightarrow>
          rbind (check_methods w cn False (instance_methods c) (sort (map fst (instance_methods c)))
                   (check_slots w cn False None ''ivar '' 0 (inst_var_types c) st)) (\<lambda>st1.
          rbind (check_methods w cn True (class_methods c) (sort (map fst (class_methods c))) st1) (\<lambda>st2.
            check_classes w cns st2)))"

definition check_world :: "world_model \<Rightarrow> type_error list res" where
  "check_world w = rbind (check_classes w (class_order w) ([], [])) (\<lambda>st. Inr (fst st))"

section \<open>The annotations of a world\<close>

fun type_names :: "type_expr \<Rightarrow> string set" where
  "type_names (Named n) = {n}"
| "type_names (Generic h args) = insert h (\<Union>a \<in> set args. type_names a)"
| "type_names (Block args ret) = (\<Union>a \<in> set args. type_names a) \<union> (case ret of None \<Rightarrow> {} | Some r \<Rightarrow> type_names r)"
| "type_names (Union vs) = (\<Union>v \<in> set vs. type_names v)"
| "type_names (InferenceDef e) = type_names e"

fun applications :: "type_expr \<Rightarrow> (string \<times> nat) set" where
  "applications (Named n) = {}"
| "applications (Generic h args) = insert (h, length args) (\<Union>a \<in> set args. applications a)"
| "applications (Block args ret) = (\<Union>a \<in> set args. applications a) \<union> (case ret of None \<Rightarrow> {} | Some r \<Rightarrow> applications r)"
| "applications (Union vs) = (\<Union>v \<in> set vs. applications v)"
| "applications (InferenceDef e) = applications e"

definition declared_name :: "world_model \<Rightarrow> string \<Rightarrow> bool" where
  "declared_name w n \<longleftrightarrow> n = ''Self'' \<or> map_of (classes w) n \<noteq> None"

definition text_ok :: "world_model \<Rightarrow> string \<Rightarrow> bool" where
  "text_ok w t \<longleftrightarrow> (case parse_ok t of None \<Rightarrow> False | Some e \<Rightarrow> type_names e \<subseteq> {n. declared_name w n})"

definition text_applications :: "string \<Rightarrow> (string \<times> nat) set" where
  "text_applications t = (case parse_ok t of None \<Rightarrow> {} | Some e \<Rightarrow> applications e)"

definition method_texts :: "method_node \<Rightarrow> string set" where
  "method_texts m = {ta_text a | a. Some a \<in> insert (return_type (type_sig m)) (set (param_types (type_sig m)) \<union> set (temp_types (type_sig m)))}"

definition class_texts :: "class_interface \<Rightarrow> string set" where
  "class_texts c = {t. Some t \<in> set (inst_var_types c)}
     \<union> (\<Union>m \<in> ran (map_of (instance_methods c)) \<union> ran (map_of (class_methods c)). method_texts m)"

definition annotation_texts :: "world_model \<Rightarrow> string set" where
  "annotation_texts w = (\<Union>c \<in> ran (map_of (classes w)). class_texts c)"

fun annotation_error :: "type_error \<Rightarrow> bool" where
  "annotation_error (MalformedTypeExpr _ _ _) = True"
| "annotation_error (UndeclaredTypeName _ _) = True"
| "annotation_error (GenericArityMismatch _ _ _ _ _) = True"
| "annotation_error _ = False"

section \<open>What the annotation checks report\<close>

definition clean :: "type_error list \<Rightarrow> bool" where
  "clean errs \<longleftrightarrow> list_all (\<lambda>e. \<not> annotation_error e) errs"

definition arities :: "arity_table \<Rightarrow> (string \<times> nat) set" where
  "arities ar = {(h, n). \<exists>s. map_of ar h = Some (n, s)}"

text \<open>A step with this effect stays clean exactly if \<open>ok\<close> holds and the generic applications \<open>apps\<close> agree with each
  other and with those seen before, which it then adds to the table.\<close>

definition effect :: "(check_state \<Rightarrow> check_state) \<Rightarrow> bool \<Rightarrow> (string \<times> nat) set \<Rightarrow> bool" where
  "effect p ok apps \<longleftrightarrow>
     (\<forall>st. (clean (fst (p st)) \<longleftrightarrow> clean (fst st) \<and> ok \<and> single_valued (arities (snd st) \<union> apps))
         \<and> (clean (fst (p st)) \<longrightarrow> arities (snd (p st)) = arities (snd st) \<union> apps))"

lemma single_valued_arities: "single_valued (arities ar)"
  by (auto simp: single_valued_def arities_def)

lemma effect_id: "effect (\<lambda>st. st) True {}"
  by (simp add: effect_def single_valued_arities)

lemma effectD:
  assumes "effect p ok apps"
  shows "clean (fst (p st)) \<longleftrightarrow> clean (fst st) \<and> ok \<and> single_valued (arities (snd st) \<union> apps)"
    and "clean (fst (p st)) \<Longrightarrow> arities (snd (p st)) = arities (snd st) \<union> apps"
  using assms unfolding effect_def by blast+

lemma effect_comp:
  assumes "effect p ok1 a1" and "effect q ok2 a2"
  shows "effect (\<lambda>st. q (p st)) (ok1 \<and> ok2) (a1 \<union> a2)"
proof -
  have sub: "single_valued (x \<union> (a1 \<union> a2)) \<Longrightarrow> single_valued (x \<union> a1)" for x
    by (erule single_valued_subset [rotated]) auto
  have "(clean (fst (q (p st))) \<longleftrightarrow> clean (fst st) \<and> (ok1 \<and> ok2) \<and> single_valued (arities (snd st) \<union> (a1 \<union> a2)))
      \<and> (clean (fst (q (p st))) \<longrightarrow> arities (snd (q (p st))) = arities (snd st) \<union> (a1 \<union> a2))" for st
  proof (cases "clean (fst (p st))")
    case True
    with effectD [OF assms(1), of st] effectD [OF assms(2), of "p st"] show ?thesis by (simp add: Un_assoc)
  next
    case False
    with effectD(1) [OF assms(1), of st] effectD(1) [OF assms(2), of "p st"] sub [of "arities (snd st)"] show ?thesis by blast
  qed
  then show ?thesis by (simp add: effect_def)
qed

lemma effect_cong: "effect p ok a \<Longrightarrow> (\<And>st. p st = q st) \<Longrightarrow> ok = ok' \<Longrightarrow> a = a' \<Longrightarrow> effect q ok' a'"
  by (simp add: effect_def)

lemma clean_simps [simp]:
  "clean []" "clean (errs @ errs') \<longleftrightarrow> clean errs \<and> clean errs'" "clean (e # errs) \<longleftrightarrow> \<not> annotation_error e \<and> clean errs"
  by (simp_all add: clean_def)

lemma effect_name: "effect (\<lambda>(errs, ar). (check_name w site n errs, ar)) (declared_name w n) {}"
  by (auto simp: effect_def check_name_def declared_name_def single_valued_arities)

lemma effect_arity: "effect (\<lambda>(errs, ar). case record_arity ar h n site errs of (ar', errs') \<Rightarrow> (errs', ar')) True {(h, n)}"
proof -
  have "single_valued (insert (h, n) (arities ar)) \<longleftrightarrow> (\<forall>k s. map_of ar h = Some (k, s) \<longrightarrow> k = n)" for ar
    by (auto simp: single_valued_def arities_def)
  moreover have "arities (AList.update h (n, site) ar) = insert (h, n) (arities ar)" if "map_of ar h = None" for ar
    using that by (auto simp: arities_def update_conv' split: if_splits)
  moreover have "insert (h, n) (arities ar) = arities ar" if "map_of ar h = Some (n, s)" for ar s
    using that by (auto simp: arities_def)
  ultimately show ?thesis
    by (auto simp: effect_def record_arity_def split: option.splits)
qed

lemma walk_type_exprs_effect:
  "(\<And>e. e \<in> set es \<Longrightarrow> effect (walk_type_expr w site e) (type_names e \<subseteq> {n. declared_name w n}) (applications e))
   \<Longrightarrow> effect (walk_type_exprs w site es) ((\<Union>e \<in> set es. type_names e) \<subseteq> {n. declared_name w n}) (\<Union>e \<in> set es. applications e)"
proof (induction es)
  case Nil
  show ?case by (rule effect_cong [OF effect_id]) auto
next
  case (Cons e es)
  have "effect (walk_type_exprs w site es) ((\<Union>e \<in> set es. type_names e) \<subseteq> {n. declared_name w n}) (\<Union>e \<in> set es. applications e)"
    using Cons by simp
  from effect_comp [OF Cons.prems [of e] this] show ?case by (rule effect_cong) auto
qed

lemma walk_type_effect: "effect (walk_type_expr w site e) (type_names e \<subseteq> {n. declared_name w n}) (applications e)"
proof (induction e)
  case (Named n)
  show ?case by (rule effect_cong [OF effect_name [of w site n]]) auto
next
  case (Generic h args)
  show ?case
    by (rule effect_cong [OF effect_comp [OF effect_comp [OF effect_name [of w site h] effect_arity [of h "length args" site]]
        walk_type_exprs_effect [OF Generic]]]) (auto split: prod.splits)
next
  case (Block args ret)
  note args = walk_type_exprs_effect [OF Block(1)]
  show ?case
  proof (cases ret)
    case None
    show ?thesis by (rule effect_cong [OF args]) (auto simp: None)
  next
    case (Some r)
    have "effect (walk_type_expr w site r) (type_names r \<subseteq> {n. declared_name w n}) (applications r)"
      using Block(2) Some by simp
    from effect_comp [OF args this] show ?thesis by (rule effect_cong) (auto simp: Some)
  qed
next
  case (Union vs)
  show ?case by (rule effect_cong [OF walk_type_exprs_effect [OF Union]]) auto
next
  case (InferenceDef e)
  then show ?case by (rule effect_cong) auto
qed

lemma check_annotation_effect: "effect (check_annotation w site t) (text_ok w t) (text_applications t)"
proof -
  consider r where "parse t = Some (Inl r)" | e where "parse t = Some (Inr e)"
    using parse_answers [of t] by (cases "parse t"; cases "the (parse t)") auto
  then show ?thesis
  proof cases
    case 1
    then show ?thesis by (simp add: effect_def check_annotation_def text_ok_def text_applications_def parse_ok_def)
  next
    case (2 e)
    then show ?thesis
      by (intro effect_cong [OF walk_type_effect [of w site e]])
        (simp_all add: check_annotation_def text_ok_def text_applications_def parse_ok_def)
  qed
qed

abbreviation texts_effect :: "world_model \<Rightarrow> (check_state \<Rightarrow> check_state) \<Rightarrow> string set \<Rightarrow> bool" where
  "texts_effect w p T \<equiv> effect p (T \<subseteq> {t. text_ok w t}) (\<Union>t \<in> T. text_applications t)"

lemma texts_effect_id: "texts_effect w (\<lambda>st. st) {}"
  by (rule effect_cong [OF effect_id]) auto

lemma texts_effect_comp:
  assumes "texts_effect w p T" and "texts_effect w q U"
  shows "texts_effect w (\<lambda>st. q (p st)) (T \<union> U)"
  using effect_comp [OF assms] by (rule effect_cong) auto

lemma texts_effect_eq: "texts_effect w p T \<Longrightarrow> (\<And>st. q st = p st) \<Longrightarrow> U = T \<Longrightarrow> texts_effect w q U"
  by (erule effect_cong) auto

lemma texts_effect_fold:
  "(\<And>x. x \<in> set xs \<Longrightarrow> texts_effect w (p x) (T x)) \<Longrightarrow> texts_effect w (fold p xs) (\<Union>x \<in> set xs. T x)"
proof (induction xs)
  case Nil
  show ?case by (rule effect_cong [OF texts_effect_id]) auto
next
  case (Cons x xs)
  then have "texts_effect w (fold p xs) (\<Union>x \<in> set xs. T x)" by simp
  from texts_effect_comp [OF Cons.prems [of x] this] show ?case by (rule effect_cong) auto
qed

lemma check_slots_effect: "texts_effect w (check_slots w cn side sel label i ts) {t. Some t \<in> set ts}"
proof (induction ts arbitrary: i)
  case Nil
  show ?case by (rule effect_cong [OF texts_effect_id]) auto
next
  case (Cons t ts)
  show ?case
  proof (cases t)
    case None
    show ?thesis by (rule effect_cong [OF Cons.IH [of "i + 1"]]) (auto simp: None)
  next
    case (Some u)
    from effect_comp [OF check_annotation_effect Cons.IH [of "i + 1"]] show ?thesis
      by (rule effect_cong) (auto simp: Some)
  qed
qed

lemma check_signature_effect: "texts_effect w (check_signature w cn side sel m) (method_texts m)"
proof -
  have r: "texts_effect w (\<lambda>st. case return_type (type_sig m) of None \<Rightarrow> st
      | Some t \<Rightarrow> check_annotation w (AnnotationSite cn side (Some sel) ''return'') (ta_text t) st)
      {ta_text a | a. return_type (type_sig m) = Some a}"
  proof (cases "return_type (type_sig m)")
    case None
    show ?thesis by (rule effect_cong [OF texts_effect_id]) (auto simp: None)
  next
    case (Some a)
    show ?thesis by (rule effect_cong [OF check_annotation_effect]) (auto simp: Some)
  qed
  have mapped: "{t. Some t \<in> set (map (map_option ta_text) as)} = {ta_text a | a. Some a \<in> set as}" for as
  proof -
    have "Some t \<in> map_option ta_text ` set as \<longleftrightarrow> (\<exists>a. t = ta_text a \<and> Some a \<in> set as)" for t
      by (auto simp: image_iff eq_commute [of "Some t"])
    then show ?thesis by simp
  qed
  have "texts_effect w (check_signature w cn side sel m)
      ({ta_text a | a. return_type (type_sig m) = Some a}
       \<union> {t. Some t \<in> set (map (map_option ta_text) (param_types (type_sig m)))}
       \<union> {t. Some t \<in> set (map (map_option ta_text) (temp_types (type_sig m)))})"
    by (rule texts_effect_eq [OF texts_effect_comp [OF texts_effect_comp [OF r check_slots_effect] check_slots_effect]])
      (unfold check_signature_def Let_def, rule HOL.refl, rule HOL.refl)
  then show ?thesis by (rule texts_effect_eq) (unfold mapped method_texts_def, auto)
qed

section \<open>What the walk over a body adds\<close>

text \<open>The walk appends errors with a property \<open>P\<close> as long as each of its checks does, in scopes with a property that
  entering a block keeps.\<close>

definition adds :: "(type_error \<Rightarrow> bool) \<Rightarrow> type_error list \<Rightarrow> type_error list \<Rightarrow> bool" where
  "adds P errs errs' \<longleftrightarrow> (\<exists>new. errs' = errs @ new \<and> list_all P new)"

lemma adds_refl [simp]: "adds P errs errs"
  by (simp add: adds_def)

lemma adds_trans: "adds P a b \<Longrightarrow> adds P b c \<Longrightarrow> adds P a c"
  by (auto simp: adds_def)

lemma walk_scope:
  "ws_scope (walk_expr c e st) = ws_scope st"
  "ws_scope (walk_exprs c es st) = ws_scope st"
  "ws_scope (walk_segments c rt ss st) = ws_scope st"
  by (induction c e st and c es st and c rt ss st rule: walk_expr_walk_exprs_walk_segments.induct)
    (auto simp: check_assign_def check_return_def check_send_site_def Let_def push_frame_def pop_frame_def split: expr.splits)

locale walk_checks =
  fixes c :: walk_ctx and S :: "scope \<Rightarrow> bool" and P :: "type_error \<Rightarrow> bool"
  assumes block: "S sc \<Longrightarrow> S (push_frame (block_frame ps ts) sc)"
    and assign: "S (ws_scope st) \<Longrightarrow> adds P (ws_errors st) (ws_errors (check_assign c name e st))"
    and return: "S (ws_scope st) \<Longrightarrow> adds P (ws_errors st) (ws_errors (check_return c e st))"
    and send: "S (ws_scope st) \<Longrightarrow> adds P (ws_errors st) (ws_errors (check_send_site c is_super rt sel args slot st))"
begin

lemma walk_adds_aux:
  "c' = c \<Longrightarrow> S (ws_scope st) \<Longrightarrow> adds P (ws_errors st) (ws_errors (walk_expr c' e st))"
  "c' = c \<Longrightarrow> S (ws_scope st) \<Longrightarrow> adds P (ws_errors st) (ws_errors (walk_exprs c' es st))"
  "c' = c \<Longrightarrow> S (ws_scope st) \<Longrightarrow> adds P (ws_errors st) (ws_errors (walk_segments c' rt ss st))"
proof (induction c' e st and c' es st and c' rt ss st rule: walk_expr_walk_exprs_walk_segments.induct)
  case (5 c' name v sp st)
  then show ?case using assign [of "walk_expr c v st" name v] by (auto simp: walk_scope intro: adds_trans)
next
  case (6 c' receiver sel args is_super sp st)
  then show ?case using send [of "walk_exprs c args (walk_expr c receiver st)"]
    by (auto simp: walk_scope Let_def intro: adds_trans)
next
  case (7 c' receiver segments sp st)
  then show ?case by (auto simp: walk_scope Let_def intro: adds_trans)
next
  case (9 c' ps ts stmts sp i st)
  then show ?case using block by (simp add: Let_def)
next
  case (10 c' v sp st)
  then show ?case using return [of "walk_expr c v (st\<lparr>ws_found := True\<rparr>)" v] by (auto simp: walk_scope intro: adds_trans)
next
  case (12 c' e es st)
  then show ?case by (auto simp: walk_scope intro: adds_trans)
next
  case (14 c' rt s ss st)
  show ?case
  proof (cases s)
    case (Send r sel args is_super sp)
    have "adds P (ws_errors st) (ws_errors (check_send_site c is_super rt sel args (''cascade send '' @ quoted sel) (walk_exprs c args st)))"
      using 14 Send send [of "walk_exprs c args st"] by (auto simp: walk_scope intro: adds_trans)
    with 14 Send show ?thesis by (auto simp: walk_scope check_send_site_def intro: adds_trans)
  qed (use 14 in auto)
qed simp_all

lemmas walk_adds = walk_adds_aux [OF HOL.refl]

end

definition body_error :: "type_error \<Rightarrow> bool" where
  "body_error e \<longleftrightarrow> \<not> annotation_error e \<and> (\<forall>cn side sel d a. e \<noteq> ReturnNotSubtype (AnnotationSite cn side sel implicit_slot) d a)"

lemma arg_errors_all: "list_all (\<lambda>e. \<exists>i d a. e = SendArgNotSubtype site sel i d a) (arg_errors w sc sel site k fas)"
  by (induction fas arbitrary: k) auto

lemma check_send_adds:
  assumes "P (SelectorUndefined site (show_resolved rt) sel)" and "\<And>i d a. P (SendArgNotSubtype site sel i d a)"
  shows "adds P errs (snd (check_send w sc side is_super rt sel args site errs))"
proof -
  have "list_all P (arg_errors w sc sel site k fas)" for k fas
    using arg_errors_all [of site sel w sc k fas] assms(2) by (auto simp: list_all_iff)
  with assms(1) show ?thesis
    by (auto simp: check_send_def adds_def check_args_errors Let_def split: option.splits lookup_result.splits)
qed

interpretation body_walk: walk_checks c "\<lambda>_. True" body_error for c
proof unfold_locales
  show "adds body_error (ws_errors st) (ws_errors (check_assign c name e st))" for st name e
    by (simp add: check_assign_def Let_def adds_def body_error_def)
  show "adds body_error (ws_errors st) (ws_errors (check_return c e st))" for st e
    by (simp add: check_return_def Let_def adds_def body_error_def site_at_def implicit_slot_def)
  show "adds body_error (ws_errors st) (ws_errors (check_send_site c is_super rt sel args slot st))" for st is_super rt sel args slot
    unfolding check_send_site_def send_in_def
    using check_send_adds [of body_error "site_at c slot" rt sel] by (simp add: body_error_def)
qed simp_all

fun contains_return :: "expr \<Rightarrow> bool" where
  "contains_return (Assign _ e _) = contains_return e"
| "contains_return (Send r _ args _ _) = (contains_return r \<or> (\<exists>a \<in> set args. contains_return a))"
| "contains_return (Cascade r segs _) =
     (contains_return r \<or> (\<exists>s \<in> set segs. case s of Send _ _ args _ _ \<Rightarrow> (\<exists>a \<in> set args. contains_return a) | _ \<Rightarrow> False))"
| "contains_return (DynArray es _) = (\<exists>e \<in> set es. contains_return e)"
| "contains_return (BlockE _ _ stmts _ _) = (\<exists>e \<in> set stmts. contains_return e)"
| "contains_return (Return _ _) = True"
| "contains_return _ = False"

lemma walk_found:
  "ws_found (walk_expr c e st) \<longleftrightarrow> ws_found st \<or> contains_return e"
  "ws_found (walk_exprs c es st) \<longleftrightarrow> ws_found st \<or> (\<exists>e \<in> set es. contains_return e)"
  "ws_found (walk_segments c rt ss st) \<longleftrightarrow>
     ws_found st \<or> (\<exists>s \<in> set ss. case s of Send _ _ args _ _ \<Rightarrow> (\<exists>a \<in> set args. contains_return a) | _ \<Rightarrow> False)"
  by (induction c e st and c es st and c rt ss st rule: walk_expr_walk_exprs_walk_segments.induct)
    (auto simp: check_assign_def check_return_def check_send_site_def Let_def split: expr.splits)

definition falls_off :: "world_model \<Rightarrow> string \<Rightarrow> method_node \<Rightarrow> bool" where
  "falls_off w cn m \<longleftrightarrow>
     \<not> list_ex contains_return (body m) \<and> \<not> is_bare_primitive m \<and> \<not> ends_in_never_returning_send m
     \<and> \<not> conforms w cn (rt_named ''Self'') (declared_or_dynamic (return_type (type_sig m)))"

lemma check_method_errors:
  obtains new where "list_all body_error new"
    and "check_method w cn side sel m errs =
      errs @ new @ (if falls_off w cn m then [ReturnNotSubtype (AnnotationSite cn side (Some sel) implicit_slot)
        (show_resolved (declared_or_dynamic (return_type (type_sig m)))) (show_resolved (rt_named ''Self''))] else [])"
proof -
  let ?st = "\<lparr>ws_scope = push_frame (method_frame m) [], ws_found = False, ws_errors = errs\<rparr>"
  obtain new where "list_all body_error new"
    and "ws_errors (walk_exprs (method_ctx w cn side sel m) (body m) ?st) = errs @ new"
    using body_walk.walk_adds(2) [of ?st "method_ctx w cn side sel m" "body m"] by (auto simp: adds_def)
  then show thesis
    using that [of new]
    by (simp add: check_method_def Let_def walk_found subtype_of_decides' falls_off_def method_ctx_def list_ex_iff)
qed

lemma check_method_effect: "texts_effect w (\<lambda>(errs, ar). (check_method w cn side sel m errs, ar)) {}"
proof -
  have "clean (check_method w cn side sel m errs) \<longleftrightarrow> clean errs" for errs
  proof -
    obtain new where "list_all body_error new" and "check_method w cn side sel m errs =
      errs @ new @ (if falls_off w cn m then [ReturnNotSubtype (AnnotationSite cn side (Some sel) implicit_slot)
        (show_resolved (declared_or_dynamic (return_type (type_sig m)))) (show_resolved (rt_named ''Self''))] else [])"
      by (rule check_method_errors)
    then show ?thesis by (auto simp: clean_def body_error_def list_all_iff)
  qed
  then show ?thesis by (auto simp: effect_def single_valued_arities)
qed

text \<open>
  C36: a method that falls off its end is reported precisely when it should be. The report of an implicit return
  that does not satisfy the declared return type is made exactly for a method with no \<open>^\<close> in any statement or
  nested block, that is not a bare primitive, does not end in a send that never returns, and whose class does not
  conform to the declared type; no other check of the body makes that report.
\<close>

theorem implicit_return_reported_exactly:
  "list_ex (\<lambda>e. \<exists>d a. e = ReturnNotSubtype (AnnotationSite cn side (Some sel) implicit_slot) d a)
      (check_method w cn side sel m []) \<longleftrightarrow>
   (\<not> list_ex contains_return (body m) \<and> \<not> is_bare_primitive m \<and> \<not> ends_in_never_returning_send m
    \<and> \<not> conforms w cn (rt_named ''Self'') (declared_or_dynamic (return_type (type_sig m))))"
proof -
  obtain new where "list_all body_error new" and "check_method w cn side sel m [] =
      [] @ new @ (if falls_off w cn m then [ReturnNotSubtype (AnnotationSite cn side (Some sel) implicit_slot)
        (show_resolved (declared_or_dynamic (return_type (type_sig m)))) (show_resolved (rt_named ''Self''))] else [])"
    by (rule check_method_errors)
  then show ?thesis
    unfolding falls_off_def [symmetric] by (fastforce simp: list_ex_iff list_all_iff body_error_def)
qed

section \<open>The whole world\<close>

definition check_one :: "world_model \<Rightarrow> string \<Rightarrow> bool \<Rightarrow> string \<Rightarrow> method_node \<Rightarrow> check_state \<Rightarrow> check_state" where
  "check_one w cn side sel m st = (\<lambda>(errs, ar). (check_method w cn side sel m errs, ar)) (check_signature w cn side sel m st)"

lemma check_one_effect: "texts_effect w (check_one w cn side sel m) (method_texts m)"
  by (rule texts_effect_eq [OF texts_effect_comp [OF check_signature_effect check_method_effect]])
    (unfold check_one_def, rule HOL.refl, simp)

lemma check_methods_total:
  "set sels \<subseteq> dom (map_of ms) \<Longrightarrow>
   check_methods w cn side ms sels st = Inr (fold (\<lambda>sel. check_one w cn side sel (the (map_of ms sel))) sels st)"
  by (induction sels arbitrary: st) (auto simp: check_one_def case_prod_beta)

lemma sorted_selectors: "set (sort (map fst ms)) = dom (map_of ms)"
  by (simp add: dom_map_of_conv_image_fst)

lemma check_methods_sorted:
  "check_methods w cn side ms (sort (map fst ms)) st =
     Inr (fold (\<lambda>sel. check_one w cn side sel (the (map_of ms sel))) (sort (map fst ms)) st)"
  by (rule check_methods_total) (simp only: sorted_selectors order_refl)

lemma ran_image: "ran m = (\<lambda>k. the (m k)) ` dom m"
  by (auto simp: ran_def dom_def image_def)

lemma check_side_effect:
  "texts_effect w (fold (\<lambda>sel. check_one w cn side sel (the (map_of ms sel))) (sort (map fst ms)))
     (\<Union>m \<in> ran (map_of ms). method_texts m)"
proof -
  have "(\<Union>sel \<in> set (sort (map fst ms)). method_texts (the (map_of ms sel))) = (\<Union>m \<in> ran (map_of ms). method_texts m)"
    by (simp only: sorted_selectors ran_image image_image)
  note eq = this
  have "texts_effect w (fold (\<lambda>sel. check_one w cn side sel (the (map_of ms sel))) (sort (map fst ms)))
      (\<Union>sel \<in> set (sort (map fst ms)). method_texts (the (map_of ms sel)))"
    by (rule texts_effect_fold) (rule check_one_effect)
  then show ?thesis by (rule texts_effect_eq) (rule HOL.refl, rule eq [symmetric])
qed

definition check_class :: "world_model \<Rightarrow> string \<Rightarrow> class_interface \<Rightarrow> check_state \<Rightarrow> check_state" where
  "check_class w cn c st =
     (let st0 = check_slots w cn False None ''ivar '' 0 (inst_var_types c) st;
          st1 = fold (\<lambda>sel. check_one w cn False sel (the (map_of (instance_methods c) sel))) (sort (map fst (instance_methods c))) st0
      in fold (\<lambda>sel. check_one w cn True sel (the (map_of (class_methods c) sel))) (sort (map fst (class_methods c))) st1)"

lemma check_class_effect: "texts_effect w (check_class w cn c) (class_texts c)"
  by (rule texts_effect_eq [OF texts_effect_comp [OF texts_effect_comp [OF check_slots_effect check_side_effect] check_side_effect]])
    (unfold check_class_def Let_def, rule HOL.refl, auto simp: class_texts_def)

lemma check_classes_total:
  "set cns \<subseteq> dom (map_of (classes w)) \<Longrightarrow>
   check_classes w cns st = Inr (fold (\<lambda>cn. check_class w cn (the (map_of (classes w) cn))) cns st)"
proof (induction cns arbitrary: st)
  case (Cons cn cns)
  then obtain c where "map_of (classes w) cn = Some c" by auto
  with Cons show ?case by (simp add: check_class_def Let_def check_methods_sorted)
qed simp

definition world_ok :: "world_model \<Rightarrow> bool" where
  "world_ok w \<longleftrightarrow> set (class_order w) = dom (map_of (classes w))"

lemma build_world_ok: "world_ok (build_items items)"
  using build_order [of items] by (metis world_ok_def dom_map_of_conv_image_fst list.set_map)

lemma check_world_total:
  "world_ok w \<Longrightarrow> check_world w = Inr (fst (fold (\<lambda>cn. check_class w cn (the (map_of (classes w) cn))) (class_order w) ([], [])))"
  by (simp add: check_world_def check_classes_total world_ok_def)

lemma check_world_effect:
  assumes "world_ok w"
  shows "texts_effect w (fold (\<lambda>cn. check_class w cn (the (map_of (classes w) cn))) (class_order w)) (annotation_texts w)"
proof -
  have "(\<Union>cn \<in> set (class_order w). class_texts (the (map_of (classes w) cn))) = annotation_texts w"
    using assms by (simp only: world_ok_def annotation_texts_def ran_image image_image)
  note eq = this
  have "texts_effect w (fold (\<lambda>cn. check_class w cn (the (map_of (classes w) cn))) (class_order w))
      (\<Union>cn \<in> set (class_order w). class_texts (the (map_of (classes w) cn)))"
    by (rule texts_effect_fold) (rule check_class_effect)
  then show ?thesis by (rule texts_effect_eq) (rule HOL.refl, rule eq [symmetric])
qed


section \<open>Worlds without annotations\<close>

fun unknown_selector :: "type_error \<Rightarrow> bool" where
  "unknown_selector (SelectorUndefined _ _ _) = True"
| "unknown_selector _ = False"

definition untyped_frame :: "frame \<Rightarrow> bool" where
  "untyped_frame f \<longleftrightarrow> ran (map_of f) \<subseteq> {None}"

definition untyped_scope :: "scope \<Rightarrow> bool" where
  "untyped_scope sc \<longleftrightarrow> list_all untyped_frame sc"

lemma untyped_update: "untyped_frame f \<Longrightarrow> untyped_frame (AList.update x None f)"
  by (auto simp: untyped_frame_def update_conv' ran_def split: if_splits)

lemma untyped_fold: "(\<And>x. x \<in> set xs \<Longrightarrow> g x = None) \<Longrightarrow> untyped_frame f \<Longrightarrow> untyped_frame (fold (\<lambda>x. AList.update (h x) (g x)) xs f)"
  by (induction xs arbitrary: f) (auto intro: untyped_update)

lemma untyped_nil: "untyped_frame []"
  by (simp add: untyped_frame_def)

lemma untyped_block: "untyped_frame (block_frame ps ts)"
  unfolding block_frame_def by (intro untyped_fold [where g = "\<lambda>_. None" and h = "\<lambda>x. x"] untyped_nil HOL.refl)

lemma untyped_find: "list_all untyped_frame fs \<Longrightarrow> find_frame fs x \<in> {None, Some None}"
proof (induction fs)
  case (Cons f fs)
  then show ?case by (cases "map_of f x") (auto simp: untyped_frame_def ran_def)
qed simp

lemma untyped_method:
  assumes "method_texts m = {}"
  shows "return_type (type_sig m) = None" "set (param_types (type_sig m)) \<subseteq> {None}" "set (temp_types (type_sig m)) \<subseteq> {None}"
proof -
  have n: "a = None" if "a \<in> insert (return_type (type_sig m)) (set (param_types (type_sig m)) \<union> set (temp_types (type_sig m)))" for a
    using assms that by (cases a) (auto simp: method_texts_def)
  then show "return_type (type_sig m) = None" "set (param_types (type_sig m)) \<subseteq> {None}" "set (temp_types (type_sig m)) \<subseteq> {None}"
    by auto
qed

lemma untyped_method_frame:
  assumes "method_texts m = {}"
  shows "untyped_frame (method_frame m)"
proof -
  have f: "(\<lambda>(n, t). AList.update n (captured_type t)) = (\<lambda>p. AList.update (fst p) (captured_type (snd p)))"
    by auto
  have "captured_type (snd p) = None"
    if "p \<in> set (zip (params m) (param_types (type_sig m))) \<union> set (zip (temps m) (temp_types (type_sig m)))" for p
    using that untyped_method(2,3) [OF assms] by (cases p) (auto simp: captured_type_def dest!: set_zip_rightD)
  then show ?thesis
    unfolding method_frame_def f by (intro untyped_fold untyped_nil) auto
qed

lemma class_untyped: "annotation_texts w = {} \<Longrightarrow> map_of (classes w) n = Some c \<Longrightarrow> class_texts c = {}"
  by (auto simp: annotation_texts_def ran_def)

lemma class_methods_untyped:
  "class_texts c = {} \<Longrightarrow> map_of (instance_methods c) sel = Some m \<Longrightarrow> method_texts m = {}"
  "class_texts c = {} \<Longrightarrow> map_of (class_methods c) sel = Some m \<Longrightarrow> method_texts m = {}"
  by (auto simp: class_texts_def ran_def)

lemma found_untyped:
  assumes "annotation_texts w = {}" and "find_method w h sel = Found m"
  shows "method_texts m = {}"
proof -
  from assms(2) have "climb w sel (length (classes w) + 1) (Some h) = Some m"
    by (auto simp: find_method_def split: option.splits if_splits)
  from understands_own [OF climb_sound [OF this]] obtain n c where
    "map_of (classes w) n = Some c" "map_of (instance_methods c) sel = Some m" by blast
  with class_untyped [OF assms(1)] class_methods_untyped show ?thesis by blast
qed

lemma ivar_untyped:
  assumes "annotation_texts w = {}"
  shows "ivar_type w cn x = Dynamic"
proof (cases "map_of (classes w) cn")
  case (Some c)
  have "(if i < length (inst_var_types c) then inst_var_types c ! i else None) = None" for i
    using class_untyped [OF assms Some] nth_mem [of i "inst_var_types c"]
    by (cases "inst_var_types c ! i") (auto simp: class_texts_def)
  with Some show ?thesis by (simp add: ivar_type_def split: option.splits)
qed (simp add: ivar_type_def)

lemma variable_untyped:
  assumes "annotation_texts (cx_model c) = {}" and "untyped_scope sc"
  shows "variable_type c sc x = Dynamic"
  using untyped_find [of "rev sc" x] assms(2) ivar_untyped [OF assms(1)]
  by (auto simp: variable_type_def scope_lookup_def untyped_scope_def written_or_dynamic_def)

lemma args_untyped: "set (map fst fas) \<subseteq> {None} \<Longrightarrow> arg_errors w sc sel site k fas = []"
  by (induction fas arbitrary: k) (auto simp: resolve_captured_def intro: conforms.dynamic_target)

lemma send_untyped:
  assumes "annotation_texts w = {}"
  shows "adds unknown_selector errs (snd (check_send w sc side is_super rt sel args site errs))"
proof -
  have "arg_errors w sc sel site 0 (zip (param_types (type_sig m)) args) = []" if "find_method w h sel = Found m" for h m
    using untyped_method(2) [OF found_untyped [OF assms that]]
    by (intro args_untyped) (auto dest!: set_zip_leftD)
  then show ?thesis
    by (auto simp: check_send_def adds_def check_args_errors Let_def split: option.splits lookup_result.splits)
qed

lemma body_untyped:
  assumes "annotation_texts (cx_model c) = {}" and "cx_declared_return c = Dynamic"
  shows "walk_checks c untyped_scope unknown_selector"
proof
  show "untyped_scope (push_frame (block_frame ps ts) sc)" if "untyped_scope sc" for sc ps ts
    using that untyped_block by (simp add: untyped_scope_def push_frame_def)
  show "adds unknown_selector (ws_errors st) (ws_errors (check_assign c n e st))" if "untyped_scope (ws_scope st)" for st n e
    using variable_untyped [OF assms(1) that] by (simp add: check_assign_def)
  show "adds unknown_selector (ws_errors st) (ws_errors (check_return c e st))" for st e
    using assms(2) by (simp add: check_return_def)
  show "adds unknown_selector (ws_errors st) (ws_errors (check_send_site c is_super rt sel args slot st))" for st is_super rt sel args slot
    using send_untyped [OF assms(1)] by (simp add: check_send_site_def send_in_def)
qed

lemma method_untyped:
  assumes "annotation_texts w = {}" and "method_texts m = {}"
  shows "adds unknown_selector errs (check_method w cn side sel m errs)"
proof -
  let ?c = "method_ctx w cn side sel m"
  let ?st = "\<lparr>ws_scope = push_frame (method_frame m) [], ws_found = False, ws_errors = errs\<rparr>"
  have c: "annotation_texts (cx_model ?c) = {}" "cx_declared_return ?c = Dynamic"
    using assms(1) untyped_method(1) [OF assms(2)]
    by (simp_all add: method_ctx_def declared_or_dynamic_def captured_type_def written_or_dynamic_def)
  have "untyped_scope (ws_scope ?st)"
    using untyped_method_frame [OF assms(2)] by (simp add: untyped_scope_def push_frame_def)
  from walk_checks.walk_adds(2) [OF body_untyped [OF c] this] show ?thesis
    by (simp add: check_method_def Let_def c(2))
qed

lemma slots_untyped: "set ts \<subseteq> {None} \<Longrightarrow> check_slots w cn side sel label i ts st = st"
  by (induction ts arbitrary: i) auto

lemma check_one_untyped:
  assumes "annotation_texts w = {}" and "method_texts m = {}" and "list_all unknown_selector (fst st)"
  shows "list_all unknown_selector (fst (check_one w cn side sel m st))"
proof -
  have "check_signature w cn side sel m st = st"
    using untyped_method [OF assms(2)] by (auto simp: check_signature_def Let_def intro!: slots_untyped trans [OF slots_untyped])
  with method_untyped [OF assms(1,2), of "fst st" cn side sel] assms(3) show ?thesis
    by (auto simp: check_one_def case_prod_beta adds_def)
qed

lemma fold_invariant: "(\<And>x st. x \<in> set xs \<Longrightarrow> Q st \<Longrightarrow> Q (f x st)) \<Longrightarrow> Q st \<Longrightarrow> Q (fold f xs st)"
  by (induction xs arbitrary: st) auto

lemma side_untyped:
  assumes "annotation_texts w = {}" and "\<And>sel m. map_of ms sel = Some m \<Longrightarrow> method_texts m = {}"
    and "list_all unknown_selector (fst st)"
  shows "list_all unknown_selector (fst (fold (\<lambda>sel. check_one w cn side sel (the (map_of ms sel))) (sort (map fst ms)) st))"
proof (rule fold_invariant [where Q = "\<lambda>st. list_all unknown_selector (fst st)"])
  fix sel and st :: check_state
  assume "sel \<in> set (sort (map fst ms))" and "list_all unknown_selector (fst st)"
  then show "list_all unknown_selector (fst (check_one w cn side sel (the (map_of ms sel)) st))"
    using assms(1,2) unfolding sorted_selectors by (auto intro!: check_one_untyped)
qed (rule assms(3))

lemma check_class_untyped:
  assumes "annotation_texts w = {}" and "class_texts c = {}" and "list_all unknown_selector (fst st)"
  shows "list_all unknown_selector (fst (check_class w cn c st))"
proof -
  have "set (inst_var_types c) \<subseteq> {None}" using assms(2) by (auto simp: class_texts_def intro: option.exhaust)
  then have "check_slots w cn False None ''ivar '' 0 (inst_var_types c) st = st" by (rule slots_untyped)
  with assms show ?thesis
    unfolding check_class_def Let_def by (auto intro!: side_untyped dest: class_methods_untyped)
qed


definition example_method :: method_node where
  "example_method = \<lparr>pattern_selector = ''double'', params = [], primitive = None, ffi = None, temps = [''t''],
     body = [Assign ''t'' (Send (Lit (LInt 3) (Span 1 1)) ''frob'' [] False (Span 1 1)) (Span 1 1), Return (Var ''t'' (Span 1 1)) (Span 1 1)],
     class_side = False, m_span = Span 1 1,
     type_sig = \<lparr>param_types = [], return_type = None, temp_types = [None]\<rparr>\<rparr>"

definition example_source :: "top_item list" where
  "example_source =
     [ClassDef \<lparr>cd_superclass = ''nil'', cd_name = ''Object'', cd_indexable = None, cd_inst_vars = [], cd_inst_var_types = [],
        cd_class_vars = [], cd_methods = [], cd_span = Span 1 1\<rparr>,
      ClassDef \<lparr>cd_superclass = ''Object'', cd_name = ''Integer'', cd_indexable = None, cd_inst_vars = [''x''], cd_inst_var_types = [None],
        cd_class_vars = [], cd_methods = [example_method], cd_span = Span 1 1\<rparr>]"


end
