(* ===== verification/ObjectHeap.thy ===== *)
theory ObjectHeap
  imports Oops
begin

unbundle bit_operations_syntax

text \<open>
  Raw heap access and klass shapes (\<open>src/src/oops/heap.rs\<close>, \<open>klass.rs\<close>, \<open>wrappers.rs\<close>).

  The heap is a store of 64-bit words addressed by byte address. An object is named by its tagged
  oop; \<open>MemOop::addr\<close> removes the tag, every field is at a fixed offset from it. A misaligned access
  stops the VM (Rust's pointer-precondition check). The typed wrappers (\<open>KlassOop\<close>, \<open>ArrayOop\<close>, \<dots>)
  are \<open>typed_try_from\<close> at their format. All accessors carry the debug bound checks of the source.
\<close>

section \<open>Memory\<close>

type_synonym heap = "nat \<Rightarrow> u64"

definition MARK_OFFSET :: nat where "MARK_OFFSET = 0"
definition KLASS_OFFSET :: nat where "KLASS_OFFSET = 8"
definition BODY_OFFSET :: nat where "BODY_OFFSET = 16"
definition HEADER_WORDS :: nat where "HEADER_WORDS = 2"
definition KLASS_FORMAT_INDEX :: nat where "KLASS_FORMAT_INDEX = 0"
definition KLASS_NON_INDEXABLE_SIZE_INDEX :: nat where "KLASS_NON_INDEXABLE_SIZE_INDEX = 1"
definition KLASS_SUPERCLASS_INDEX :: nat where "KLASS_SUPERCLASS_INDEX = 2"
definition KLASS_METHODS_INDEX :: nat where "KLASS_METHODS_INDEX = 3"
definition FORMAT_KIND_MASK :: int where "FORMAT_KIND_MASK = 255"
definition FORMAT_UNTAGGED_BIT :: int where "FORMAT_UNTAGGED_BIT = 256"

definition read_word :: "heap \<Rightarrow> nat \<Rightarrow> u64 res" where
  "read_word m a = guard_res (a mod 8 = 0) Assert_failed (Inr (m a))"

definition write_word :: "heap \<Rightarrow> nat \<Rightarrow> u64 \<Rightarrow> heap res" where
  "write_word m a w = guard_res (a mod 8 = 0) Assert_failed (Inr (m(a := w)))"

definition mem_try_from :: "oop \<Rightarrow> oop option" where
  "mem_try_from w = (if is_mem w then Some w else None)"

definition word_ptr :: "oop \<Rightarrow> nat \<Rightarrow> nat res" where
  "word_ptr w off = rbind (mem_addr w) (\<lambda>a. uadd a off)"

definition body_ptr :: "oop \<Rightarrow> nat \<Rightarrow> nat res" where
  "body_ptr w i = word_ptr w (BODY_OFFSET + WORD_SIZE * i)"

section \<open>Headers\<close>

definition mark_word_raw :: "heap \<Rightarrow> oop \<Rightarrow> u64 res" where
  "mark_word_raw m w = rbind (word_ptr w MARK_OFFSET) (read_word m)"

definition obj_mark :: "heap \<Rightarrow> oop \<Rightarrow> mark res" where
  "obj_mark m w = rbind (mark_word_raw m w) mark_from_word"

definition obj_set_mark :: "heap \<Rightarrow> oop \<Rightarrow> mark \<Rightarrow> heap res" where
  "obj_set_mark m w k = rbind (word_ptr w MARK_OFFSET) (\<lambda>p. write_word m p k)"

definition is_forwarded :: "heap \<Rightarrow> oop \<Rightarrow> bool res" where
  "is_forwarded m w = rbind (mark_word_raw m w) (\<lambda>h. Inr (word_is_forwarded h))"

definition obj_forwardee :: "heap \<Rightarrow> oop \<Rightarrow> oop res" where
  "obj_forwardee m w = rbind (mark_word_raw m w) forwardee"

definition install_forwarding :: "heap \<Rightarrow> oop \<Rightarrow> oop \<Rightarrow> heap res" where
  "install_forwarding m w target = rbind (word_ptr w MARK_OFFSET) (\<lambda>p. write_word m p target)"

definition klass_oop :: "heap \<Rightarrow> oop \<Rightarrow> oop res" where
  "klass_oop m w = rbind (rbind (word_ptr w KLASS_OFFSET) (read_word m)) oop_from_raw"

definition set_klass_raw :: "heap \<Rightarrow> oop \<Rightarrow> oop \<Rightarrow> heap res" where
  "set_klass_raw m w k = rbind (word_ptr w KLASS_OFFSET) (\<lambda>p. write_word m p k)"

definition raw_body_word :: "heap \<Rightarrow> oop \<Rightarrow> nat \<Rightarrow> u64 res" where
  "raw_body_word m w i = rbind (body_ptr w i) (read_word m)"

definition set_raw_body_word :: "heap \<Rightarrow> oop \<Rightarrow> nat \<Rightarrow> u64 \<Rightarrow> heap res" where
  "set_raw_body_word m w i v = rbind (body_ptr w i) (\<lambda>p. write_word m p v)"

section \<open>Formats and klasses\<close>

datatype format =
  Slots | IndexableOops | IndexableBytes | Method | Klass | Double | Closure | Context | Process

definition format_from_smi_value_checked :: "int \<Rightarrow> format option" where
  "format_from_smi_value_checked v =
     (let k = v AND FORMAT_KIND_MASK in
      if k = 0 then Some Slots
      else if k = 1 then Some IndexableOops
      else if k = 2 then Some IndexableBytes
      else if k = 3 then Some Method
      else if k = 4 then Some Klass
      else if k = 5 then Some Double
      else if k = 6 then Some Closure
      else if k = 7 then Some Context
      else if k = 8 then Some Process
      else None)"

definition format_from_smi_value :: "int \<Rightarrow> format res" where
  "format_from_smi_value v = expect (format_from_smi_value_checked v)"

fun format_discriminant :: "format \<Rightarrow> int" where
  "format_discriminant Slots = 0"
| "format_discriminant IndexableOops = 1"
| "format_discriminant IndexableBytes = 2"
| "format_discriminant Method = 3"
| "format_discriminant Klass = 4"
| "format_discriminant Double = 5"
| "format_discriminant Closure = 6"
| "format_discriminant Context = 7"
| "format_discriminant Process = 8"

definition format_to_smi_value :: "format \<Rightarrow> bool \<Rightarrow> int" where
  "format_to_smi_value f untagged =
     (if untagged then format_discriminant f OR FORMAT_UNTAGGED_BIT else format_discriminant f)"

definition format_of_klass_field :: "heap \<Rightarrow> oop \<Rightarrow> format option res" where
  "format_of_klass_field m k =
     (case mem_try_from k of
        None \<Rightarrow> Inr None
      | Some k \<Rightarrow>
          rbind (raw_body_word m k KLASS_FORMAT_INDEX) (\<lambda>raw.
            case smi_try_from raw of
              None \<Rightarrow> Inr None
            | Some s \<Rightarrow> Inr (format_from_smi_value_checked (smi_value s))))"

definition typed_try_from :: "format \<Rightarrow> heap \<Rightarrow> oop \<Rightarrow> oop option res" where
  "typed_try_from f m w =
     (case mem_try_from w of
        None \<Rightarrow> Inr None
      | Some w \<Rightarrow>
          rbind (klass_oop m w) (\<lambda>k.
          rbind (format_of_klass_field m k) (\<lambda>fmt.
            Inr (if fmt = Some f then Some w else None))))"

definition obj_klass :: "heap \<Rightarrow> oop \<Rightarrow> oop res" where
  "obj_klass m w = rbind (klass_oop m w) (\<lambda>k. rbind (typed_try_from Klass m k) expect)"

definition smi_field :: "heap \<Rightarrow> oop \<Rightarrow> nat \<Rightarrow> int res" where
  "smi_field m k i =
     rbind (raw_body_word m k i) (\<lambda>raw.
     rbind (oop_from_raw raw) (\<lambda>o'.
     rbind (expect (smi_try_from o')) (\<lambda>s. Inr (smi_value s))))"

definition klass_format_smi_value :: "heap \<Rightarrow> oop \<Rightarrow> int res" where
  "klass_format_smi_value m k = smi_field m k KLASS_FORMAT_INDEX"

definition klass_format :: "heap \<Rightarrow> oop \<Rightarrow> format res" where
  "klass_format m k = rbind (klass_format_smi_value m k) format_from_smi_value"

definition has_untagged_contents :: "heap \<Rightarrow> oop \<Rightarrow> bool res" where
  "has_untagged_contents m k =
     rbind (klass_format_smi_value m k) (\<lambda>v. Inr (v AND FORMAT_UNTAGGED_BIT \<noteq> 0))"

definition set_format :: "heap \<Rightarrow> oop \<Rightarrow> format \<Rightarrow> bool \<Rightarrow> heap res" where
  "set_format m k f untagged =
     rbind (smi_new (format_to_smi_value f untagged)) (\<lambda>s. set_raw_body_word m k KLASS_FORMAT_INDEX s)"

definition non_indexable_size :: "heap \<Rightarrow> oop \<Rightarrow> nat res" where
  "non_indexable_size m k =
     rbind (smi_field m k KLASS_NON_INDEXABLE_SIZE_INDEX) (\<lambda>v. Inr (i64_as_usize v))"

definition set_non_indexable_size :: "heap \<Rightarrow> oop \<Rightarrow> nat \<Rightarrow> heap res" where
  "set_non_indexable_size m k words =
     rbind (smi_new (signed_take_bit 63 (int words)))
       (\<lambda>s. set_raw_body_word m k KLASS_NON_INDEXABLE_SIZE_INDEX s)"

definition superclass :: "heap \<Rightarrow> oop \<Rightarrow> oop res" where
  "superclass m k = rbind (raw_body_word m k KLASS_SUPERCLASS_INDEX) oop_from_raw"

definition klass_methods :: "heap \<Rightarrow> oop \<Rightarrow> oop res" where
  "klass_methods m k = rbind (raw_body_word m k KLASS_METHODS_INDEX) oop_from_raw"

section \<open>Sizes and bodies\<close>

definition raw_size_slot :: "heap \<Rightarrow> oop \<Rightarrow> nat \<Rightarrow> nat res" where
  "raw_size_slot m w nis =
     rbind (usub nis HEADER_WORDS) (\<lambda>idx.
     rbind (smi_field m w idx) (\<lambda>v. Inr (i64_as_usize v)))"

definition div_ceil :: "nat \<Rightarrow> nat \<Rightarrow> nat" where
  "div_ceil a b = a div b + (if a mod b = 0 then 0 else 1)"

definition instance_size_words :: "heap \<Rightarrow> oop \<Rightarrow> nat res" where
  "instance_size_words m w =
     rbind (obj_klass m w) (\<lambda>k.
     rbind (non_indexable_size m k) (\<lambda>nis.
     rbind (klass_format m k) (\<lambda>f.
       case f of
         Slots \<Rightarrow> Inr nis | Klass \<Rightarrow> Inr nis | Double \<Rightarrow> Inr nis | Process \<Rightarrow> Inr nis
       | IndexableOops \<Rightarrow>
           rbind (raw_size_slot m w nis) (\<lambda>n. rbind (uadd nis 1) (\<lambda>x. uadd x n))
       | IndexableBytes \<Rightarrow>
           rbind (raw_size_slot m w nis) (\<lambda>nbytes. rbind (uadd nis 1) (\<lambda>x. uadd x (div_ceil nbytes 8)))
       | Method \<Rightarrow>
           rbind (raw_size_slot m w nis) (\<lambda>nbytes. rbind (uadd nis 1) (\<lambda>x. uadd x (div_ceil nbytes 8)))
       | Closure \<Rightarrow>
           rbind (raw_size_slot m w nis) (\<lambda>n. rbind (uadd nis 1) (\<lambda>x. uadd x n))
       | Context \<Rightarrow>
           rbind (raw_size_slot m w nis) (\<lambda>n. rbind (uadd nis 1) (\<lambda>x. uadd x n)))))"

definition body_word_count :: "heap \<Rightarrow> oop \<Rightarrow> nat res" where
  "body_word_count m w = rbind (instance_size_words m w) (\<lambda>n. usub n HEADER_WORDS)"

definition in_body :: "heap \<Rightarrow> oop \<Rightarrow> nat \<Rightarrow> 'a res \<Rightarrow> 'a res" where
  "in_body m w i r = rbind (body_word_count m w) (\<lambda>n. guard_res (i < n) Assert_failed r)"

definition body_addr :: "heap \<Rightarrow> oop \<Rightarrow> nat \<Rightarrow> nat res" where
  "body_addr m w i = in_body m w i (body_ptr w i)"

definition body_oop :: "heap \<Rightarrow> oop \<Rightarrow> nat \<Rightarrow> oop res" where
  "body_oop m w i = in_body m w i (rbind (raw_body_word m w i) oop_from_raw)"

definition set_body_oop :: "heap \<Rightarrow> oop \<Rightarrow> nat \<Rightarrow> oop \<Rightarrow> heap res" where
  "set_body_oop m w i v = in_body m w i (set_raw_body_word m w i v)"

definition body_word_raw :: "heap \<Rightarrow> oop \<Rightarrow> nat \<Rightarrow> u64 res" where
  "body_word_raw m w i = in_body m w i (raw_body_word m w i)"

definition set_body_word_raw :: "heap \<Rightarrow> oop \<Rightarrow> nat \<Rightarrow> u64 \<Rightarrow> heap res" where
  "set_body_word_raw m w i v = in_body m w i (set_raw_body_word m w i v)"

section \<open>Indexable tails\<close>

definition indexable_len :: "heap \<Rightarrow> oop \<Rightarrow> nat res" where
  "indexable_len m w =
     rbind (obj_klass m w) (\<lambda>k.
     rbind (non_indexable_size m k) (\<lambda>nis.
     rbind (klass_format m k) (\<lambda>f.
       if f \<in> {IndexableOops, IndexableBytes, Method, Closure, Context} then raw_size_slot m w nis
       else Inl Explicit_panic)))"

definition tail_start_word :: "heap \<Rightarrow> oop \<Rightarrow> nat res" where
  "tail_start_word m w =
     rbind (obj_klass m w) (\<lambda>k.
     rbind (non_indexable_size m k) (\<lambda>nis.
     rbind (usub nis HEADER_WORDS) (\<lambda>x. uadd x 1)))"

definition tail_byte_at :: "heap \<Rightarrow> oop \<Rightarrow> nat \<Rightarrow> u8 res" where
  "tail_byte_at m w i =
     rbind (tail_start_word m w) (\<lambda>t.
     rbind (uadd t (i div 8)) (\<lambda>word_idx.
     rbind (body_word_raw m w word_idx) (\<lambda>word.
       Inr (ucast (drop_bit ((i mod 8) * 8) word AND 0xFF)))))"

definition set_tail_byte_at :: "heap \<Rightarrow> oop \<Rightarrow> nat \<Rightarrow> u8 \<Rightarrow> heap res" where
  "set_tail_byte_at m w i b =
     rbind (tail_start_word m w) (\<lambda>t.
     rbind (uadd t (i div 8)) (\<lambda>word_idx.
       let shift = (i mod 8) * 8 in
       rbind (body_word_raw m w word_idx) (\<lambda>old.
         let msk = NOT (push_bit shift 0xFF) in
         set_body_word_raw m w word_idx ((old AND msk) OR push_bit shift (ucast b)))))"

definition tail_oop_at :: "heap \<Rightarrow> oop \<Rightarrow> nat \<Rightarrow> oop res" where
  "tail_oop_at m w i = rbind (tail_start_word m w) (\<lambda>t. rbind (uadd t i) (body_oop m w))"

definition set_tail_oop_at :: "heap \<Rightarrow> oop \<Rightarrow> nat \<Rightarrow> oop \<Rightarrow> heap res" where
  "set_tail_oop_at m w i v =
     rbind (tail_start_word m w) (\<lambda>t. rbind (uadd t i) (\<lambda>idx. set_body_oop m w idx v))"

section \<open>Arrays and byte arrays\<close>

definition array_len :: "heap \<Rightarrow> oop \<Rightarrow> nat res" where
  "array_len m w = indexable_len m w"

definition array_at :: "heap \<Rightarrow> oop \<Rightarrow> nat \<Rightarrow> oop res" where
  "array_at m w i =
     rbind (array_len m w) (\<lambda>n. guard_res (i < n) Assert_failed (tail_oop_at m w i))"

definition array_at_put :: "heap \<Rightarrow> oop \<Rightarrow> nat \<Rightarrow> oop \<Rightarrow> heap res" where
  "array_at_put m w i v =
     rbind (array_len m w) (\<lambda>n. guard_res (i < n) Assert_failed (set_tail_oop_at m w i v))"

definition byte_array_at :: "heap \<Rightarrow> oop \<Rightarrow> nat \<Rightarrow> u8 res" where
  "byte_array_at m w i =
     rbind (indexable_len m w) (\<lambda>n. guard_res (i < n) Assert_failed (tail_byte_at m w i))"

definition byte_array_at_put :: "heap \<Rightarrow> oop \<Rightarrow> nat \<Rightarrow> u8 \<Rightarrow> heap res" where
  "byte_array_at_put m w i b =
     rbind (indexable_len m w) (\<lambda>n. guard_res (i < n) Assert_failed (set_tail_byte_at m w i b))"

definition copy_bytes_out :: "heap \<Rightarrow> oop \<Rightarrow> u8 list res" where
  "copy_bytes_out m w = rbind (indexable_len m w) (\<lambda>n. res_map (byte_array_at m w) [0..<n])"

section \<open>The field walk shared by both collectors\<close>

text \<open>
  \<open>for_each_oop_field\<close> replaces every oop-bearing body word by the visitor's result. The visitor is
  the collector's closure: it sees and changes the heap and its own state \<open>'x\<close>.
\<close>

type_synonym 'x visitor = "oop \<Rightarrow> heap \<times> 'x \<Rightarrow> (oop \<times> heap \<times> 'x) res"

fun visit_words :: "'x visitor \<Rightarrow> oop \<Rightarrow> nat list \<Rightarrow> heap \<times> 'x \<Rightarrow> (heap \<times> 'x) res" where
  "visit_words f w [] s = Inr s"
| "visit_words f w (i # is) (m, x) =
     rbind (raw_body_word m w i) (\<lambda>raw.
     rbind (oop_from_raw raw) (\<lambda>v.
     rbind (f v (m, x)) (\<lambda>(v', m', x').
     rbind (set_raw_body_word m' w i v') (\<lambda>m''.
       visit_words f w is (m'', x')))))"

definition for_each_oop_field :: "'x visitor \<Rightarrow> oop \<Rightarrow> oop \<Rightarrow> heap \<times> 'x \<Rightarrow> (heap \<times> 'x) res" where
  "for_each_oop_field f w klass s =
     rbind (non_indexable_size (fst s) klass) (\<lambda>nis.
     rbind (usub nis HEADER_WORDS) (\<lambda>named.
     rbind (klass_format (fst s) klass) (\<lambda>fmt.
       case fmt of
         Slots \<Rightarrow> visit_words f w [0..<named] s
       | Klass \<Rightarrow> visit_words f w [0..<named] s
       | Double \<Rightarrow> Inr s
       | Process \<Rightarrow> Inr s
       | IndexableBytes \<Rightarrow> visit_words f w [0..<named] s
       | Method \<Rightarrow> visit_words f w [0..<named] s
       | _ \<Rightarrow>
           rbind (visit_words f w [0..<named] s) (\<lambda>s'.
           rbind (raw_size_slot (fst s') w nis) (\<lambda>len.
             visit_words f w (map (\<lambda>i. named + 1 + i) [0..<len]) s')))))"

section \<open>Vocabulary of the specifications\<close>

text \<open>
  \<open>shape_footprint\<close> lists the words that determine an object's shape (its klass field, the klass's
  own klass field and format, the klass's format and fixed size); \<open>body_separate\<close> says that none of
  them lies in the object's own body, which holds of every object that is not its own class
  metadata. \<open>tail_contents\<close> reads a whole indexable tail as a list.
\<close>

definition oaddr :: "oop \<Rightarrow> nat" where
  "oaddr w = unat (w - MEM_TAG)"

definition body_slot :: "oop \<Rightarrow> nat \<Rightarrow> nat" where
  "body_slot w i = oaddr w + 16 + 8 * i"

definition shape_footprint :: "heap \<Rightarrow> oop \<Rightarrow> nat list" where
  "shape_footprint m w =
     (let k = m (oaddr w + 8); kk = m (oaddr k + 8)
      in [oaddr w + 8, oaddr k + 8, body_slot kk 0, body_slot k 0, body_slot k 1])"

definition body_separate :: "heap \<Rightarrow> oop \<Rightarrow> bool" where
  "body_separate m w =
     (case instance_size_words m w of
        Inl _ \<Rightarrow> False
      | Inr n \<Rightarrow> list_all (\<lambda>a. a < oaddr w + 16 \<or> oaddr w + 8 * n \<le> a) (shape_footprint m w))"

definition tail_contents :: "(heap \<Rightarrow> oop \<Rightarrow> nat \<Rightarrow> 'v res) \<Rightarrow> heap \<Rightarrow> oop \<Rightarrow> 'v list res" where
  "tail_contents at m w = rbind (indexable_len m w) (\<lambda>n. res_map (at m w) [0..<n])"

fun put_from :: "(heap \<Rightarrow> oop \<Rightarrow> nat \<Rightarrow> 'v \<Rightarrow> heap res) \<Rightarrow> heap \<Rightarrow> oop \<Rightarrow> nat \<Rightarrow> 'v list \<Rightarrow> heap res" where
  "put_from put m w i [] = Inr m"
| "put_from put m w i (v # vs) = rbind (put m w i v) (\<lambda>m'. put_from put m' w (Suc i) vs)"

definition shape :: "heap \<Rightarrow> oop \<Rightarrow> (oop \<times> nat \<times> format) res" where
  "shape m w =
     rbind (obj_klass m w) (\<lambda>k.
     rbind (non_indexable_size m k) (\<lambda>nis.
     rbind (klass_format m k) (\<lambda>f. Inr (k, nis, f))))"

fun size_of_shape :: "heap \<Rightarrow> oop \<Rightarrow> oop \<times> nat \<times> format \<Rightarrow> nat res" where
  "size_of_shape m w (k, nis, f) =
     (if f \<in> {Slots, Klass, Double, Process} then Inr nis
      else rbind (raw_size_slot m w nis) (\<lambda>n.
        rbind (uadd nis 1) (\<lambda>x. uadd x (if f \<in> {IndexableBytes, Method} then div_ceil n 8 else n))))"

definition word_byte :: "u64 \<Rightarrow> nat \<Rightarrow> u8" where
  "word_byte x k = ucast (drop_bit (k * 8) x AND 0xFF)"

fun pure_visitor :: "(oop \<Rightarrow> oop) \<Rightarrow> 'x visitor" where
  "pure_visitor g v (m, x) = Inr (g v, m, x)"

definition map_words :: "(u64 \<Rightarrow> u64) \<Rightarrow> nat list \<Rightarrow> heap \<Rightarrow> heap" where
  "map_words g as m = (\<lambda>a. if a \<in> set as then g (m a) else m a)"

fun oop_words :: "format \<Rightarrow> nat \<Rightarrow> nat \<Rightarrow> nat list" where
  "oop_words Slots nis n = [0..<nis - 2]"
| "oop_words Klass nis n = [0..<nis - 2]"
| "oop_words Double nis n = []"
| "oop_words Process nis n = []"
| "oop_words IndexableBytes nis n = [0..<nis - 2]"
| "oop_words Method nis n = [0..<nis - 2]"
| "oop_words _ nis n = [0..<nis - 2] @ [nis - 1..<nis - 1 + n]"

text \<open>
  A small heap for evaluation: a metaclass at \<open>0x1000\<close> (its own class), an array class at \<open>0x2000\<close>,
  a byte-array class at \<open>0x2100\<close>, a two-element array at \<open>0x3000\<close> and a nine-byte array at \<open>0x4000\<close>.
\<close>

definition example_heap :: heap where
  "example_heap = (\<lambda>_. 0)
     (0x1008 := 0x1001, 0x1010 := 16, 0x1018 := 40,
      0x2008 := 0x1001, 0x2010 := 4, 0x2018 := 8,
      0x2108 := 0x1001, 0x2110 := 8, 0x2118 := 8,
      0x3000 := 7, 0x3008 := 0x2001, 0x3010 := 8, 0x3018 := 20, 0x3020 := 0x4001,
      0x4000 := 7, 0x4008 := 0x2101, 0x4010 := 36, 0x4018 := 0x0807060504030201, 0x4020 := 9)"

section \<open>Reads, writes and shapes\<close>

text \<open>The definitions, for evaluating accesses to a concrete heap.\<close>

lemmas heap_eval =
  example_heap_def read_word_def write_word_def word_ptr_def body_ptr_def mem_addr_def is_mem_def is_smi_def
  oop_tag_def tag_defs raw_body_word_def set_raw_body_word_def klass_oop_def oop_from_raw_def obj_klass_def
  typed_try_from_def mem_try_from_def format_of_klass_field_def smi_try_from_def
  format_from_smi_value_checked_def format_from_smi_value_def smi_field_def klass_format_def
  klass_format_smi_value_def non_indexable_size_def raw_size_slot_def instance_size_words_def
  body_word_count_def in_body_def body_oop_def set_body_oop_def body_word_raw_def set_body_word_raw_def
  indexable_len_def tail_start_word_def tail_oop_at_def set_tail_oop_at_def tail_byte_at_def
  set_tail_byte_at_def array_len_def array_at_def array_at_put_def byte_array_at_def byte_array_at_put_def
  tail_contents_def uadd_def usub_def i64_as_usize_def div_ceil_def smi_value_def SMI_SHIFT_def
  MARK_OFFSET_def KLASS_OFFSET_def BODY_OFFSET_def WORD_SIZE_def HEADER_WORDS_def KLASS_FORMAT_INDEX_def
  KLASS_NON_INDEXABLE_SIZE_INDEX_def FORMAT_KIND_MASK_def oaddr_def body_slot_def shape_footprint_def
  body_separate_def for_each_oop_field_def



lemma mem_addr_eq: "mem_addr w = guard_res (is_mem w) Assert_failed (Inr (oaddr w))"
  by (simp add: mem_addr_def oaddr_def)

lemma body_ptr_eq:
  "body_ptr w i =
     (if is_mem w then if body_slot w i \<le> usize_max then Inr (body_slot w i) else Inl Arith_overflow
      else Inl Assert_failed)"
proof -
  have "oaddr w + (16 + 8 * i) = body_slot w i" by (simp add: body_slot_def)
  then show ?thesis
    by (simp add: body_ptr_def word_ptr_def mem_addr_eq uadd_def BODY_OFFSET_def WORD_SIZE_def guard_res_def)
qed

lemma raw_body_word_Inr:
  "raw_body_word m w i = Inr v \<longleftrightarrow>
     is_mem w \<and> body_slot w i \<le> usize_max \<and> body_slot w i mod 8 = 0 \<and> v = m (body_slot w i)"
  by (auto simp: raw_body_word_def body_ptr_eq read_word_def guard_res_def split: if_splits)

lemma set_raw_body_word_Inr:
  "set_raw_body_word m w i v = Inr m' \<longleftrightarrow>
     is_mem w \<and> body_slot w i \<le> usize_max \<and> body_slot w i mod 8 = 0 \<and> m' = m(body_slot w i := v)"
  by (auto simp: set_raw_body_word_def body_ptr_eq write_word_def guard_res_def split: if_splits)

lemma raw_body_word_cong:
  "m' (body_slot w i) = m (body_slot w i) \<Longrightarrow> raw_body_word m' w i = raw_body_word m w i"
  by (simp add: raw_body_word_def body_ptr_eq read_word_def)

lemma smi_field_cong:
  "m' (body_slot w i) = m (body_slot w i) \<Longrightarrow> smi_field m' w i = smi_field m w i"
  using raw_body_word_cong [of m' w i m] by (simp add: smi_field_def)

lemma klass_oop_cong: "m' (oaddr w + 8) = m (oaddr w + 8) \<Longrightarrow> klass_oop m' w = klass_oop m w"
  by (auto simp: klass_oop_def word_ptr_def mem_addr_eq read_word_def rbind_def guard_res_def uadd_def
      KLASS_OFFSET_def)

lemma klass_oop_Inr: "klass_oop m w = Inr k \<Longrightarrow> k = m (oaddr w + 8)"
  by (auto simp: klass_oop_def word_ptr_def mem_addr_eq read_word_def oop_from_raw_def res_simps KLASS_OFFSET_def)

lemma obj_klass_Inr: "obj_klass m w = Inr k \<Longrightarrow> k = m (oaddr w + 8)"
  by (auto simp: obj_klass_def typed_try_from_def mem_try_from_def res_simps dest!: klass_oop_Inr
      split: if_splits option.splits)

lemma typed_try_from_cong:
  assumes "m' (oaddr w + 8) = m (oaddr w + 8)"
    and "m' (body_slot (m (oaddr w + 8)) 0) = m (body_slot (m (oaddr w + 8)) 0)"
  shows "typed_try_from f m' w = typed_try_from f m w"
proof -
  have f: "format_of_klass_field m' k = format_of_klass_field m k" if "klass_oop m w = Inr k" for k
    using assms(2) klass_oop_Inr [OF that] raw_body_word_cong [of m' k 0 m]
    by (simp add: format_of_klass_field_def KLASS_FORMAT_INDEX_def mem_try_from_def)
  show ?thesis
    using f klass_oop_cong [of m' w m, OF assms(1)]
    by (cases "klass_oop m w") (simp_all add: typed_try_from_def mem_try_from_def)
qed

lemma obj_klass_cong:
  assumes "\<forall>a \<in> set (shape_footprint m w). m' a = m a"
  shows "obj_klass m' w = obj_klass m w"
proof -
  have t: "typed_try_from Klass m' k = typed_try_from Klass m k" if "klass_oop m w = Inr k" for k
    using assms klass_oop_Inr [OF that]
    by (intro typed_try_from_cong) (simp_all add: shape_footprint_def Let_def)
  show ?thesis
    using t klass_oop_cong [of m' w m] assms
    by (cases "klass_oop m w") (simp_all add: obj_klass_def shape_footprint_def Let_def)
qed

lemma klass_fields_cong:
  assumes "\<forall>a \<in> set (shape_footprint m w). m' a = m a" and "obj_klass m w = Inr k"
  shows "non_indexable_size m' k = non_indexable_size m k" and "klass_format m' k = klass_format m k"
  using assms obj_klass_Inr [OF assms(2)] smi_field_cong [of m' k 0 m] smi_field_cong [of m' k 1 m]
  by (simp_all add: non_indexable_size_def klass_format_def klass_format_smi_value_def
      KLASS_NON_INDEXABLE_SIZE_INDEX_def KLASS_FORMAT_INDEX_def shape_footprint_def Let_def)

lemma raw_size_slot_cong:
  "m' (body_slot w (nis - 2)) = m (body_slot w (nis - 2)) \<Longrightarrow> raw_size_slot m' w nis = raw_size_slot m w nis"
  using smi_field_cong [of m' w "nis - 2" m] by (simp add: raw_size_slot_def usub_def HEADER_WORDS_def)

lemma shape_cong:
  "\<forall>a \<in> set (shape_footprint m w). m' a = m a \<Longrightarrow> shape m' w = shape m w"
  using obj_klass_cong [of m w m'] klass_fields_cong [of m w m']
  by (cases "obj_klass m w") (simp_all add: shape_def)

lemma instance_size_words_shape: "instance_size_words m w = rbind (shape m w) (size_of_shape m w)"
  by (auto simp: instance_size_words_def shape_def rbind_assoc rbind_def split: sum.splits format.splits)

lemma tail_start_word_shape:
  "tail_start_word m w = rbind (rbind (obj_klass m w) (non_indexable_size m)) (\<lambda>nis.
     rbind (usub nis 2) (\<lambda>x. uadd x 1))"
  by (simp add: tail_start_word_def rbind_assoc HEADER_WORDS_def)

lemma indexable_len_shape:
  "indexable_len m w = rbind (shape m w) (\<lambda>(k, nis, f).
     if f \<in> {IndexableOops, IndexableBytes, Method, Closure, Context} then raw_size_slot m w nis
     else Inl Explicit_panic)"
  by (auto simp: indexable_len_def shape_def rbind_assoc rbind_def split: sum.splits)

lemma shape_Inr:
  "shape m w = Inr (k, nis, f) \<longleftrightarrow>
     obj_klass m w = Inr k \<and> non_indexable_size m k = Inr nis \<and> klass_format m k = Inr f"
  by (auto simp: shape_def res_simps)

text \<open>
  A write to one body word, other than the size slot, of an object whose class metadata lies outside
  its own body: it leaves the shape, the size, the length and every other word alone.
\<close>

lemma body_write_keeps_shape:
  assumes sep: "body_separate m w" and bc: "body_word_count m w = Inr n" and i: "i < n"
    and m': "m' = m(body_slot w i := v)"
  shows "shape m' w = shape m w"
proof -
  from bc obtain sz where sz: "instance_size_words m w = Inr sz" "2 \<le> sz" "n = sz - 2"
    by (auto simp: body_word_count_def res_simps HEADER_WORDS_def)
  have "body_slot w i \<notin> set (shape_footprint m w)"
    using sep sz i by (auto simp: body_separate_def list_all_iff body_slot_def)
  then show ?thesis by (intro shape_cong) (auto simp: m')
qed

lemma body_write_keeps_size:
  assumes "body_separate m w" and "body_word_count m w = Inr n" and "i < n"
    and m': "m' = m(body_slot w i := v)"
    and sh: "shape m w = Inr (k, nis, f)" and "i \<noteq> nis - 2"
  shows "instance_size_words m' w = instance_size_words m w"
    and "indexable_len m' w = indexable_len m w"
    and "tail_start_word m' w = tail_start_word m w"
    and "body_word_count m' w = body_word_count m w"
proof -
  have s: "shape m' w = shape m w"
    using assms by (intro body_write_keeps_shape [where n = n]) auto
  have r: "raw_size_slot m' w nis = raw_size_slot m w nis"
    using \<open>i \<noteq> nis - 2\<close> by (intro raw_size_slot_cong) (simp add: m' body_slot_def)
  show e: "instance_size_words m' w = instance_size_words m w"
    unfolding instance_size_words_shape s using sh r by simp
  show "indexable_len m' w = indexable_len m w"
    unfolding indexable_len_shape s using sh r by simp
  show "tail_start_word m' w = tail_start_word m w"
    using s sh by (simp add: tail_start_word_shape shape_Inr)
  show "body_word_count m' w = body_word_count m w"
    by (simp add: body_word_count_def e)
qed

lemma body_write_keeps_separate:
  assumes "body_separate m w" and "body_word_count m w = Inr n" and "i < n"
    and m': "m' = m(body_slot w i := v)"
    and sh: "shape m w = Inr (k, nis, f)" and "i \<noteq> nis - 2"
  shows "body_separate m' w"
proof -
  obtain sz where sz: "instance_size_words m w = Inr sz" "n = sz - 2"
    using assms(2) by (auto simp: body_word_count_def res_simps HEADER_WORDS_def)
  have out: "body_slot w i \<notin> set (shape_footprint m w)"
    using assms sz by (auto simp: body_separate_def list_all_iff body_slot_def)
  then have "shape_footprint m' w = shape_footprint m w"
    by (auto simp: shape_footprint_def Let_def m' simp del: fun_upd_apply) (auto simp: fun_upd_def)
  then show ?thesis
    using assms(1) body_write_keeps_size(1) [OF assms] sz by (simp add: body_separate_def)
qed

lemma in_body_Inr:
  "in_body m w i r = Inr x \<longleftrightarrow> (\<exists>n. body_word_count m w = Inr n \<and> i < n \<and> r = Inr x)"
  by (auto simp: in_body_def res_simps)

lemma tail_start_Inr:
  assumes "tail_start_word m w = Inr t" and "shape m w = Inr (k, nis, f)"
  shows "t = nis - 1" and "2 \<le> nis"
  using assms by (auto simp: tail_start_word_shape shape_Inr res_simps)

lemma indexable_len_shapeE:
  assumes "indexable_len m w = Inr n"
  obtains k nis f where "shape m w = Inr (k, nis, f)"
  using assms by (auto simp: indexable_len_shape res_simps)

text \<open>One element write, whatever the element type, seen as a write to one body word.\<close>

lemma tail_write:
  assumes sep: "body_separate m w" and len: "indexable_len m w = Inr n"
    and t: "tail_start_word m w = Inr t" and bc: "body_word_count m w = Inr b" and i: "t + i < b"
    and m': "m' = m(body_slot w (t + i) := v)"
  shows "indexable_len m' w = indexable_len m w" and "tail_start_word m' w = tail_start_word m w"
    and "body_word_count m' w = body_word_count m w" and "body_separate m' w"
proof -
  obtain k nis f where sh: "shape m w = Inr (k, nis, f)" by (rule indexable_len_shapeE [OF len])
  have "t + i \<noteq> nis - 2" using tail_start_Inr [OF t sh] by simp
  note * = sep bc i m' sh this
  show "indexable_len m' w = indexable_len m w" "tail_start_word m' w = tail_start_word m w"
    "body_word_count m' w = body_word_count m w"
    using body_write_keeps_size [OF *] by simp_all
  show "body_separate m' w" by (rule body_write_keeps_separate [OF *])
qed

lemma array_at_putE:
  assumes "array_at_put m w i v = Inr m'"
  obtains n t b where "indexable_len m w = Inr n" "i < n" "tail_start_word m w = Inr t"
    "body_word_count m w = Inr b" "t + i < b" "t + i \<le> usize_max" "is_mem w"
    "body_slot w (t + i) \<le> usize_max" "body_slot w (t + i) mod 8 = 0"
    "m' = m(body_slot w (t + i) := v)"
  using assms
  by (auto simp: array_at_put_def array_len_def set_tail_oop_at_def set_body_oop_def in_body_Inr
      set_raw_body_word_Inr rbind_Inr_iff guard_res_Inr_iff uadd_Inr_iff)

lemma byte_array_at_putE:
  assumes "byte_array_at_put m w i v = Inr m'"
  obtains n t b where "indexable_len m w = Inr n" "i < n" "tail_start_word m w = Inr t"
    "body_word_count m w = Inr b" "t + i div 8 < b" "t + i div 8 \<le> usize_max" "is_mem w"
    "body_slot w (t + i div 8) \<le> usize_max" "body_slot w (t + i div 8) mod 8 = 0"
    "m' = m(body_slot w (t + i div 8) :=
       (m (body_slot w (t + i div 8)) AND NOT (push_bit (i mod 8 * 8) 0xFF)) OR push_bit (i mod 8 * 8) (ucast v))"
  using assms
  by (auto simp: byte_array_at_put_def set_tail_byte_at_def set_body_word_raw_def body_word_raw_def in_body_Inr
      raw_body_word_Inr set_raw_body_word_Inr Let_def rbind_Inr_iff guard_res_Inr_iff uadd_Inr_iff)

lemma word_byte_bit: "k < 8 \<Longrightarrow> bit (word_byte x k) n \<longleftrightarrow> n < 8 \<and> bit x (k * 8 + n)"
proof -
  assume "k < 8"
  have f: "(0xFF :: u64) = mask 8" by (simp add: mask_eq_exp_minus_1)
  show ?thesis using \<open>k < 8\<close> unfolding word_byte_def f by (auto simp: bit_simps ac_simps)
qed

lemma word_byte_set:
  assumes "k < 8" "l < 8"
  shows "word_byte ((x AND NOT (push_bit (k * 8) 0xFF)) OR push_bit (k * 8) (ucast b)) l =
    (if l = k then b else word_byte x l)"
proof (rule bit_word_eqI)
  have f: "(0xFF :: u64) = mask 8" by (simp add: mask_eq_exp_minus_1)
  fix n assume "n < LENGTH(8)"
  then have n: "n < 8" by simp
  have "k * 8 \<le> l * 8 + n \<and> l * 8 + n - k * 8 < 8 \<longleftrightarrow> l = k" using n by linarith
  moreover have "bit b j \<Longrightarrow> j < 8" for j using bit_imp_le_length [of b j] by simp
  ultimately show "bit (word_byte ((x AND NOT (push_bit (k * 8) 0xFF)) OR push_bit (k * 8) (ucast b)) l) n =
    bit (if l = k then b else word_byte x l) n"
    using n assms unfolding f by (auto simp: word_byte_bit bit_simps)
qed

text \<open>
  The contract of an indexable tail: a successful store is read back, touches no other element,
  keeps the length, and leaves the object's metadata outside its body.
\<close>

locale indexed_tail =
  fixes at_t :: "heap \<Rightarrow> oop \<Rightarrow> nat \<Rightarrow> 'v res" and put_t :: "heap \<Rightarrow> oop \<Rightarrow> nat \<Rightarrow> 'v \<Rightarrow> heap res"
    and valid_t :: "'v \<Rightarrow> bool"
  assumes put_len: "body_separate m w \<Longrightarrow> put_t m w i v = Inr m' \<Longrightarrow> indexable_len m' w = indexable_len m w"
    and put_same: "body_separate m w \<Longrightarrow> put_t m w i v = Inr m' \<Longrightarrow> valid_t v \<Longrightarrow> at_t m' w i = Inr v"
    and put_other: "body_separate m w \<Longrightarrow> put_t m w i v = Inr m' \<Longrightarrow> j \<noteq> i \<Longrightarrow> at_t m' w j = at_t m w j"
    and put_sep: "body_separate m w \<Longrightarrow> put_t m w i v = Inr m' \<Longrightarrow> body_separate m' w"
    and put_bound: "put_t m w i v = Inr m' \<Longrightarrow> \<exists>n. indexable_len m w = Inr n \<and> i < n"
begin

lemma put_contents:
  assumes "body_separate m w" "put_t m w i v = Inr m'" "valid_t v"
    and "tail_contents at_t m w = Inr xs"
  shows "tail_contents at_t m' w = Inr (xs[i := v])"
proof -
  from assms(4) obtain n where n: "indexable_len m w = Inr n" and "res_map (at_t m w) [0..<n] = Inr xs"
    by (auto simp: tail_contents_def rbind_Inr_iff)
  then have xs: "length xs = n" "\<forall>j < n. at_t m w j = Inr (xs ! j)"
    by (simp_all add: res_map_Inr_iff)
  have "at_t m' w j = Inr (xs[i := v] ! j)" if "j < n" for j
    using that xs put_same [OF assms(1-3)] put_other [OF assms(1,2), of j]
    by (cases "j = i") (simp_all add: nth_list_update)
  then show ?thesis
    using n xs put_len [OF assms(1,2)] by (simp add: tail_contents_def res_map_Inr_iff)
qed

lemma puts_contents:
  assumes "body_separate m w" "put_from put_t m w i vs = Inr m'" "list_all valid_t vs"
    and "tail_contents at_t m w = Inr xs"
  shows "tail_contents at_t m' w = Inr (take i xs @ vs @ drop (i + length vs) xs) \<and> body_separate m' w"
  using assms
proof (induction vs arbitrary: m xs i)
  case (Cons v vs)
  then obtain m1 where p: "put_t m w i v = Inr m1" and r: "put_from put_t m1 w (Suc i) vs = Inr m'"
    by (auto simp: rbind_Inr_iff)
  have "i < length xs"
    using put_bound [OF p] Cons.prems(4) by (auto simp: tail_contents_def rbind_Inr_iff res_map_Inr_iff)
  then have "take (Suc i) (xs[i := v]) = take i xs @ [v]"
    by (simp add: take_Suc_conv_app_nth)
  moreover have "tail_contents at_t m1 w = Inr (xs[i := v])"
    using put_contents [OF Cons.prems(1) p] Cons.prems(3,4) by simp
  ultimately show ?case
    using Cons.IH [OF put_sep [OF Cons.prems(1) p] r] Cons.prems(3) by simp
qed simp

end

interpretation arrays: indexed_tail array_at array_at_put "\<lambda>v. oop_from_raw v = Inr v"
proof unfold_locales
  fix m w i v m' assume sep: "body_separate m w" and p: "array_at_put m w i v = Inr m'"
  from p obtain n t b where e: "indexable_len m w = Inr n" "i < n" "tail_start_word m w = Inr t"
    "body_word_count m w = Inr b" "t + i < b" "t + i \<le> usize_max" "is_mem w"
    "body_slot w (t + i) \<le> usize_max" "body_slot w (t + i) mod 8 = 0"
    "m' = m(body_slot w (t + i) := v)" by (rule array_at_putE)
  note k = tail_write [OF sep e(1,3,4,5,10)]
  show "indexable_len m' w = indexable_len m w" "body_separate m' w" by (fact k)+
  show "array_at m' w i = Inr v" if "oop_from_raw v = Inr v"
  proof -
    have "raw_body_word m' w (t + i) = Inr v"
      using e by (simp add: raw_body_word_Inr)
    then show ?thesis using that e(1-6) unfolding array_at_def array_len_def tail_oop_at_def body_oop_def k
      by (simp add: k in_body_def uadd_def)
  qed
  show "array_at m' w j = array_at m w j" if "j \<noteq> i" for j
  proof -
    have "raw_body_word m' w (t + j) = raw_body_word m w (t + j)"
      using that by (intro raw_body_word_cong) (simp add: e(10) body_slot_def)
    then show ?thesis using e(3)
      by (simp add: array_at_def array_len_def tail_oop_at_def body_oop_def in_body_def k uadd_def)
  qed
next
  fix m w i v m' assume "array_at_put m w i v = Inr m'"
  then show "\<exists>n. indexable_len m w = Inr n \<and> i < n" by (rule array_at_putE) blast
qed

interpretation byte_arrays: indexed_tail byte_array_at byte_array_at_put "\<lambda>_. True"
proof unfold_locales
  fix m w i v m' assume sep: "body_separate m w" and p: "byte_array_at_put m w i v = Inr m'"
  from p obtain n t b where e: "indexable_len m w = Inr n" "i < n" "tail_start_word m w = Inr t"
    "body_word_count m w = Inr b" "t + i div 8 < b" "t + i div 8 \<le> usize_max" "is_mem w"
    "body_slot w (t + i div 8) \<le> usize_max" "body_slot w (t + i div 8) mod 8 = 0"
    "m' = m(body_slot w (t + i div 8) :=
       (m (body_slot w (t + i div 8)) AND NOT (push_bit (i mod 8 * 8) 0xFF)) OR push_bit (i mod 8 * 8) (ucast v))"
    by (rule byte_array_at_putE)
  note k = tail_write [OF sep e(1,3,4,5,10)]
  show "indexable_len m' w = indexable_len m w" "body_separate m' w" by (fact k)+
  have at: "byte_array_at m0 w j = rbind (indexable_len m0 w) (\<lambda>n. guard_res (j < n) Assert_failed
      (rbind (tail_start_word m0 w) (\<lambda>t. rbind (uadd t (j div 8)) (\<lambda>x.
       in_body m0 w x (rbind (raw_body_word m0 w x) (\<lambda>z. Inr (word_byte z (j mod 8))))))))" for m0 j
    by (simp add: byte_array_at_def tail_byte_at_def body_word_raw_def in_body_def rbind_assoc word_byte_def
        rbind_def guard_res_def split: sum.splits)
  have rd: "rbind (raw_body_word m' w (t + j div 8)) (\<lambda>z. Inr (word_byte z (j mod 8))) =
    (if j = i then Inr v else rbind (raw_body_word m w (t + j div 8)) (\<lambda>z. Inr (word_byte z (j mod 8))))" for j
  proof (cases "j div 8 = i div 8")
    case True
    then have "j mod 8 = i mod 8 \<longleftrightarrow> j = i" by (metis div_mult_mod_eq)
    moreover have "raw_body_word m w (t + j div 8) = Inr (m (body_slot w (t + i div 8)))"
      "raw_body_word m' w (t + j div 8) = Inr (m' (body_slot w (t + i div 8)))"
      using e True by (simp_all add: raw_body_word_Inr)
    ultimately show ?thesis by (simp add: e(10) word_byte_set)
  next
    case False
    then have "raw_body_word m' w (t + j div 8) = raw_body_word m w (t + j div 8)"
      by (intro raw_body_word_cong) (simp add: e(10) body_slot_def)
    with False show ?thesis by auto
  qed
  show "byte_array_at m' w i = Inr v"
    using e(1-6) rd [of i] unfolding at k by (simp add: in_body_def k uadd_def)
  show "byte_array_at m' w j = byte_array_at m w j" if "j \<noteq> i" for j
    using that e(1,3) rd [of j] unfolding at k by (simp add: in_body_def k uadd_def)
next
  fix m w i v m' assume "byte_array_at_put m w i v = Inr m'"
  then show "\<exists>n. indexable_len m w = Inr n \<and> i < n" by (rule byte_array_at_putE) blast
qed

section \<open>The field walk\<close>

lemma visit_words_pure:
  assumes "visit_words (pure_visitor g) w is (m, x) = Inr (m', x')" and "distinct is"
  shows "x' = x \<and> m' = map_words g (map (body_slot w) is) m"
  using assms
proof (induction "is" arbitrary: m)
  case (Cons i "is")
  from Cons.prems(1)
  have r: "visit_words (pure_visitor g) w is (m(body_slot w i := g (m (body_slot w i))), x) = Inr (m', x')"
    by (auto simp: rbind_Inr_iff raw_body_word_Inr set_raw_body_word_Inr oop_from_raw_def guard_res_Inr_iff)
  have "body_slot w i \<noteq> body_slot w j" if "j \<in> set is" for j
    using that Cons.prems(2) by (auto simp: body_slot_def)
  then show ?case
    using Cons.IH [OF r] Cons.prems(2) by (auto simp: map_words_def fun_eq_iff)
qed (simp add: map_words_def)

lemma map_words_append:
  "set xs \<inter> set ys = {} \<Longrightarrow> map_words g ys (map_words g xs m) = map_words g (xs @ ys) m"
  by (auto simp: map_words_def fun_eq_iff)

lemma body_slot_inj: "body_slot w i = body_slot w j \<longleftrightarrow> i = j"
  by (simp add: body_slot_def)

lemma raw_size_slot_Inr:
  "raw_size_slot m w nis = Inr n \<Longrightarrow> 2 \<le> nis"
  by (auto simp: raw_size_slot_def rbind_Inr_iff usub_Inr_iff HEADER_WORDS_def)

lemma walk_tail_formats:
  assumes "rbind (visit_words (pure_visitor g) w [0..<nis - 2] (m, x)) (\<lambda>s'.
             rbind (raw_size_slot (fst s') w nis) (\<lambda>len.
               visit_words (pure_visitor g) w (map (\<lambda>i. nis - 2 + 1 + i) [0..<len]) s')) = Inr (m', x')"
    and n: "raw_size_slot m w nis = Inr n"
  shows "x' = x \<and> m' = map_words g (map (body_slot w) ([0..<nis - 2] @ [nis - 1..<nis - 1 + n])) m"
proof -
  from assms(1) obtain m1 x1 len where v: "visit_words (pure_visitor g) w [0..<nis - 2] (m, x) = Inr (m1, x1)"
    and len: "raw_size_slot m1 w nis = Inr len"
    and v2: "visit_words (pure_visitor g) w (map (\<lambda>i. nis - 2 + 1 + i) [0..<len]) (m1, x1) = Inr (m', x')"
    by (auto simp: rbind_Inr_iff)
  have m1: "x1 = x" "m1 = map_words g (map (body_slot w) [0..<nis - 2]) m"
    using visit_words_pure [OF v] by simp_all
  have "m1 (body_slot w (nis - 2)) = m (body_slot w (nis - 2))"
    by (auto simp: m1 map_words_def body_slot_inj)
  then have "len = n" using len n raw_size_slot_cong [of m1 w nis m] by simp
  moreover have "map (\<lambda>i. nis - 2 + 1 + i) [0..<len] = [nis - 1..<nis - 1 + len]"
    using raw_size_slot_Inr [OF n] by (intro nth_equalityI) auto
  ultimately have "visit_words (pure_visitor g) w [nis - 1..<nis - 1 + n] (m1, x1) = Inr (m', x')"
    using v2 by simp
  from visit_words_pure [OF this] m1 show ?thesis
    by (simp add: map_words_append body_slot_inj disjoint_iff)
       (subst map_words_append, auto simp: body_slot_inj)
qed

section \<open>Properties\<close>

text \<open>Storing into an array or a byte array is a list update of its contents: the stored element is
  read back, no other element, no length and no class metadata changes. Bytes are packed eight to a
  word, so this includes that a byte store keeps its seven neighbours.\<close>

lemma tail_stores_refine_list_update:
  assumes "body_separate m w"
  shows "(array_at_put m w i v = Inr m' \<longrightarrow> oop_from_raw v = Inr v \<longrightarrow> tail_contents array_at m w = Inr xs \<longrightarrow>
            tail_contents array_at m' w = Inr (xs[i := v]) \<and> body_separate m' w)
    \<and> (byte_array_at_put m w i b = Inr m'' \<longrightarrow> tail_contents byte_array_at m w = Inr bs \<longrightarrow>
            tail_contents byte_array_at m'' w = Inr (bs[i := b]) \<and> body_separate m'' w)"
  using assms arrays.put_contents [of m w i v m' xs] arrays.put_sep [of m w i v m']
    byte_arrays.put_contents [of m w i b m'' bs] byte_arrays.put_sep [of m w i b m''] by blast

text \<open>Witness: an array store and a byte store on the example heap.\<close>

text \<open>C32: the walk both collectors use rewrites exactly the oop-bearing words of an object. For every
  format, a visitor that maps oops by \<open>g\<close> changes the named fields and, for indexable-oop objects,
  closures and contexts, the elements; the size slot, the byte tails, a method's bytecodes and a
  float's payload are untouched, as is every word outside the object.\<close>

theorem field_walk_rewrites_oop_words:
  assumes "for_each_oop_field (pure_visitor g) w k (m, x) = Inr (m', x')"
    and "klass_format m k = Inr f" and "non_indexable_size m k = Inr nis"
    and "f \<in> {IndexableOops, Closure, Context} \<longrightarrow> raw_size_slot m w nis = Inr n"
  shows "x' = x \<and> m' = map_words g (map (body_slot w) (oop_words f nis n)) m"
proof -
  have nis: "2 \<le> nis"
    using assms(1,3) by (auto simp: for_each_oop_field_def HEADER_WORDS_def rbind_Inr_iff usub_Inr_iff)
  let ?named = "visit_words (pure_visitor g) w [0..<nis - 2] (m, x)"
  have "for_each_oop_field (pure_visitor g) w k (m, x) =
    (if f \<in> {Slots, Klass, IndexableBytes, Method} then ?named
     else if f \<in> {Double, Process} then Inr (m, x)
     else rbind ?named (\<lambda>s'. rbind (raw_size_slot (fst s') w nis) (\<lambda>len.
            visit_words (pure_visitor g) w (map (\<lambda>i. nis - 2 + 1 + i) [0..<len]) s')))"
    using assms(2,3) nis by (cases f) (simp_all add: for_each_oop_field_def HEADER_WORDS_def)
  note walk = this [symmetric, unfolded assms(1)]
  show ?thesis
  proof (cases "f \<in> {IndexableOops, Closure, Context}")
    case True
    then have "oop_words f nis n = [0..<nis - 2] @ [nis - 1..<nis - 1 + n]" by auto
    moreover have "x' = x \<and> m' = map_words g (map (body_slot w) ([0..<nis - 2] @ [nis - 1..<nis - 1 + n])) m"
      by (rule walk_tail_formats) (use True walk assms(4) in \<open>auto split: if_splits\<close>)
    ultimately show ?thesis by simp
  next
    case False
    then show ?thesis
      using walk visit_words_pure [of g w "[0..<nis - 2]" m x m' x']
      by (cases f) (auto simp: map_words_def)
  qed
qed

text \<open>Witness: doubling the oop words of the example array.\<close>

theorem field_walk_rewrites_oop_words_witness:
  "\<exists>m'. for_each_oop_field (pure_visitor (\<lambda>v. v + 4)) 0x3001 0x2001 (example_heap, ()) = Inr (m', ())
     \<and> m' 0x3010 = 8 \<and> m' 0x3018 = 24 \<and> m' 0x3020 = 0x4005 \<and> m' 0x4018 = 0x0807060504030201"
proof -
  have h: "klass_format example_heap 0x2001 = Inr IndexableOops" "non_indexable_size example_heap 0x2001 = Inr 2"
    "raw_size_slot example_heap 0x3001 2 = Inr 2" by (simp_all add: heap_eval upt_rec)
  have "is_ok (for_each_oop_field (pure_visitor (\<lambda>v. v + 4)) 0x3001 0x2001 (example_heap, ()))"
    by (simp add: heap_eval upt_rec)
  then obtain m' where p:
    "for_each_oop_field (pure_visitor (\<lambda>v. v + 4)) 0x3001 0x2001 (example_heap, ()) = Inr (m', ())"
    by (rule is_okE) auto
  have "m' = map_words (\<lambda>v. v + 4) (map (body_slot 0x3001) (oop_words IndexableOops 2 2)) example_heap"
    using field_walk_rewrites_oop_words [OF p h(1,2), of 2] h(3) by simp
  then have "m' 0x3010 = 8 \<and> m' 0x3018 = 24 \<and> m' 0x3020 = 0x4005 \<and> m' 0x4018 = 0x0807060504030201"
    by (simp add: map_words_def body_slot_def oaddr_def MEM_TAG_def example_heap_def upt_rec)
  with p show ?thesis by blast
qed

end
