(* ===== verification/Spaces.thy ===== *)
theory Spaces
  imports ObjectHeap
begin

text \<open>
  Heap geometry, the bump-allocated spaces and the object-start offset table
  (\<open>src/src/memory/layout.rs\<close>, \<open>spaces.rs\<close>, \<open>offsets.rs\<close>).

  The environment override \<open>MACVM_SURVIVOR\<close> is the argument \<open>ov\<close> of \<open>survivor_size_for\<close>. The offset
  table's backing bytes are a list of naturals below 256, one per card; \<open>OldGen::allocate\<close>'s
  initialiser closure \<open>fill\<close> is an argument that updates the memory state \<open>'m\<close>, and
  \<open>Reservation::commit\<close> (an operating-system call) is an argument of \<open>old_grow\<close>.
\<close>

section \<open>Geometry\<close>

definition DEFAULT_EDEN_SIZE :: nat where "DEFAULT_EDEN_SIZE = 32 * 2 ^ 20"
definition SURVIVOR_SIZE :: nat where "SURVIVOR_SIZE = 512 * 2 ^ 10"
definition OLD_INITIAL_SEGMENT :: nat where "OLD_INITIAL_SEGMENT = 16 * 2 ^ 20"
definition OLD_GROWTH_SEGMENT :: nat where "OLD_GROWTH_SEGMENT = 16 * 2 ^ 20"

definition default_eden_for :: "nat \<Rightarrow> nat" where
  "default_eden_for total_len = min DEFAULT_EDEN_SIZE (total_len div 4)"

definition survivor_size_for :: "nat option \<Rightarrow> nat \<Rightarrow> nat" where
  "survivor_size_for ov eden_size =
     (case ov of Some kb \<Rightarrow> kb * 2 ^ 10 mod 2 ^ 64 | None \<Rightarrow> max SURVIVOR_SIZE (eden_size div 4))"

record space_bounds =
  sb_start :: nat
  sb_end :: nat

definition sb_contains :: "space_bounds \<Rightarrow> nat \<Rightarrow> bool" where
  "sb_contains b addr \<longleftrightarrow> addr \<ge> sb_start b \<and> addr < sb_end b"

definition sb_len :: "space_bounds \<Rightarrow> nat res" where
  "sb_len b = usub (sb_end b) (sb_start b)"

definition sb_is_empty :: "space_bounds \<Rightarrow> bool" where
  "sb_is_empty b \<longleftrightarrow> sb_start b = sb_end b"

record heap_layout =
  hl_eden :: space_bounds
  hl_from :: space_bounds
  hl_to :: space_bounds
  hl_old :: space_bounds
  hl_old_start :: nat

definition heap_layout_new :: "nat option \<Rightarrow> nat \<Rightarrow> nat \<Rightarrow> nat \<Rightarrow> heap_layout res" where
  "heap_layout_new ov base total_len eden_size =
     rbind (uadd base eden_size) (\<lambda>eden_end.
     let survivor = survivor_size_for ov eden_size in
     rbind (uadd eden_end survivor) (\<lambda>from_end.
     rbind (uadd from_end survivor) (\<lambda>to_end.
     let old_start = to_end in
     rbind (uadd base total_len) (\<lambda>reservation_end.
     guard_res (old_start \<le> reservation_end) Assert_failed
       (Inr \<lparr>hl_eden = \<lparr>sb_start = base, sb_end = eden_end\<rparr>,
             hl_from = \<lparr>sb_start = eden_end, sb_end = from_end\<rparr>,
             hl_to = \<lparr>sb_start = from_end, sb_end = to_end\<rparr>,
             hl_old = \<lparr>sb_start = old_start, sb_end = reservation_end\<rparr>,
             hl_old_start = old_start\<rparr>)))))"

definition is_old :: "heap_layout \<Rightarrow> nat \<Rightarrow> bool" where
  "is_old h a \<longleftrightarrow> a \<ge> hl_old_start h"

definition is_new :: "heap_layout \<Rightarrow> nat \<Rightarrow> bool" where
  "is_new h a \<longleftrightarrow> a < hl_old_start h"

section \<open>The object-start offset table\<close>

definition CARD_SHIFT :: nat where "CARD_SHIFT = 9"
definition CARD_SIZE :: nat where "CARD_SIZE = 2 ^ CARD_SHIFT"
definition MAX_DIRECT :: nat where "MAX_DIRECT = 64"
definition MAX_CHAIN_SKIP :: nat where "MAX_CHAIN_SKIP = 191"

record offset_table =
  ot_backing :: "nat list"
  ot_old_start :: nat

definition ot_n_cards :: "offset_table \<Rightarrow> nat" where
  "ot_n_cards t = length (ot_backing t)"

definition offset_table_new :: "space_bounds \<Rightarrow> offset_table res" where
  "offset_table_new old_reserved =
     rbind (sb_len old_reserved) (\<lambda>len.
       Inr \<lparr>ot_backing = replicate (max (div_ceil len CARD_SIZE) 1) 0, ot_old_start = sb_start old_reserved\<rparr>)"

definition ot_set_entry :: "offset_table \<Rightarrow> nat \<Rightarrow> nat \<Rightarrow> offset_table res" where
  "ot_set_entry t i v =
     guard_res (i < ot_n_cards t) Assert_failed (Inr (t\<lparr>ot_backing := (ot_backing t)[i := v]\<rparr>))"

definition ot_get_entry :: "offset_table \<Rightarrow> nat \<Rightarrow> nat res" where
  "ot_get_entry t i = guard_res (i < ot_n_cards t) Assert_failed (Inr (ot_backing t ! i))"

definition ot_card_index :: "offset_table \<Rightarrow> nat \<Rightarrow> nat res" where
  "ot_card_index t addr = rbind (usub addr (ot_old_start t)) (\<lambda>d. Inr (d div 2 ^ CARD_SHIFT))"

definition ot_card_base :: "offset_table \<Rightarrow> nat \<Rightarrow> nat" where
  "ot_card_base t i = ot_old_start t + i * 2 ^ CARD_SHIFT"

fun ot_zero_entries :: "offset_table \<Rightarrow> nat list \<Rightarrow> offset_table res" where
  "ot_zero_entries t [] = Inr t"
| "ot_zero_entries t (i # is) = rbind (ot_set_entry t i 0) (\<lambda>t'. ot_zero_entries t' is)"

definition clear_through :: "offset_table \<Rightarrow> nat \<Rightarrow> offset_table res" where
  "clear_through t old_top_before =
     (if old_top_before \<le> ot_old_start t then Inr t
      else rbind (ot_card_index t (old_top_before - 1)) (\<lambda>last. ot_zero_entries t [0..<last + 1]))"

text \<open>The entry \<open>record_object\<close> writes for card \<open>i\<close>; the casts to \<open>u8\<close> and the \<open>u8\<close> addition are
  written out.\<close>

definition card_entry :: "offset_table \<Rightarrow> nat \<Rightarrow> nat \<Rightarrow> nat \<Rightarrow> nat res" where
  "card_entry t addr c0 i =
     rbind (usub (ot_card_base t i) addr) (\<lambda>d.
       let distance_words = d div WORD_SIZE in
       if distance_words \<le> MAX_DIRECT then Inr (distance_words mod 256)
       else rbind (usub i (c0 + 1)) (\<lambda>back.
         let skip = min back MAX_CHAIN_SKIP in
         guard_res (MAX_DIRECT + skip mod 256 \<le> 255) Arith_overflow (Inr (MAX_DIRECT + skip mod 256))))"

fun record_cards :: "offset_table \<Rightarrow> nat \<Rightarrow> nat \<Rightarrow> nat list \<Rightarrow> offset_table res" where
  "record_cards t addr c0 [] = Inr t"
| "record_cards t addr c0 (i # is) =
     rbind (card_entry t addr c0 i) (\<lambda>e.
     rbind (ot_set_entry t i e) (\<lambda>t'. record_cards t' addr c0 is))"

definition record_object :: "offset_table \<Rightarrow> nat \<Rightarrow> nat \<Rightarrow> offset_table res" where
  "record_object t addr size_bytes =
     guard_res (addr mod WORD_SIZE = 0) Assert_failed
     (guard_res (size_bytes > 0) Assert_failed
     (rbind (ot_card_index t addr) (\<lambda>c0.
     rbind (ot_card_index t (addr + size_bytes - 1)) (\<lambda>c_last.
     rbind (if addr = ot_card_base t c0 then ot_set_entry t c0 0 else Inr t) (\<lambda>t'.
       record_cards t' addr c0 [c0 + 1..<c_last + 1])))))"

function ot_resolve :: "offset_table \<Rightarrow> nat \<Rightarrow> nat res" where
  "ot_resolve t i =
     (case ot_get_entry t i of
        Inl err \<Rightarrow> Inl err
      | Inr e \<Rightarrow>
          if e \<le> MAX_DIRECT then usub (ot_card_base t i) (e * WORD_SIZE)
          else if e - MAX_DIRECT \<le> i then ot_resolve t (i - (e - MAX_DIRECT))
          else Inl Assert_failed)"
  by pat_completeness auto
termination by (relation "measure snd") auto

declare ot_resolve.simps [simp del]

section \<open>Spaces\<close>

record eden =
  ed_start :: nat
  ed_top :: nat
  ed_end :: nat

definition eden_new :: "nat \<Rightarrow> nat \<Rightarrow> eden res" where
  "eden_new start n = rbind (uadd start n) (\<lambda>e. Inr \<lparr>ed_start = start, ed_top = start, ed_end = e\<rparr>)"

definition eden_remaining :: "eden \<Rightarrow> nat res" where
  "eden_remaining e = usub (ed_end e) (ed_top e)"

record survivor_space =
  sv_start :: nat
  sv_top :: nat
  sv_end :: nat

definition survivor_new :: "space_bounds \<Rightarrow> survivor_space" where
  "survivor_new b = \<lparr>sv_start = sb_start b, sv_top = sb_start b, sv_end = sb_end b\<rparr>"

definition survivor_remaining :: "survivor_space \<Rightarrow> nat res" where
  "survivor_remaining s = usub (sv_end s) (sv_top s)"

definition survivor_reset :: "survivor_space \<Rightarrow> survivor_space" where
  "survivor_reset s = s\<lparr>sv_top := sv_start s\<rparr>"

record old_gen =
  og_bounds :: space_bounds
  og_committed_end :: nat
  og_top :: nat

definition old_gen_new :: "space_bounds \<Rightarrow> nat \<Rightarrow> old_gen res" where
  "old_gen_new bounds committed_end =
     guard_res (committed_end \<le> sb_end bounds) Assert_failed
       (Inr \<lparr>og_bounds = bounds, og_committed_end = committed_end, og_top = sb_start bounds\<rparr>)"

definition old_remaining :: "old_gen \<Rightarrow> nat res" where
  "old_remaining g = usub (og_committed_end g) (og_top g)"

definition old_grow :: "(nat \<Rightarrow> nat \<Rightarrow> 'os \<Rightarrow> 'os) \<Rightarrow> nat \<Rightarrow> old_gen \<Rightarrow> nat \<Rightarrow> 'os \<Rightarrow> (nat \<times> old_gen \<times> 'os) res" where
  "old_grow commit base g segment os =
     (let new_end = min (min (og_committed_end g + max segment 1) usize_max) (sb_end (og_bounds g)) in
      rbind (usub new_end (og_committed_end g)) (\<lambda>grown.
        if grown = 0 then Inr (0, g, os)
        else rbind (usub (og_committed_end g) base) (\<lambda>off.
          Inr (grown, g\<lparr>og_committed_end := new_end\<rparr>, commit off grown os))))"

definition align8 :: "nat \<Rightarrow> nat res" where
  "align8 n = rbind (uadd n 7) (\<lambda>x. Inr (x div 8 * 8))"

definition old_allocate :: "(nat \<Rightarrow> 'm \<Rightarrow> 'm) \<Rightarrow> old_gen \<Rightarrow> offset_table \<Rightarrow> nat \<Rightarrow> 'm \<Rightarrow>
    (nat \<times> old_gen \<times> offset_table \<times> 'm) option res" where
  "old_allocate fill g t size_bytes m =
     rbind (align8 size_bytes) (\<lambda>size_bytes.
       case checked_add_usize (og_top g) size_bytes of
         None \<Rightarrow> Inr None
       | Some new_top \<Rightarrow>
           if new_top > og_committed_end g then Inr None
           else let addr = og_top g; g' = g\<lparr>og_top := new_top\<rparr>; m' = fill addr m in
             rbind (record_object t addr size_bytes) (\<lambda>t'. Inr (Some (addr, g', t', m'))))"

section \<open>Specification of the old generation\<close>

text \<open>
  The objects allocated so far, in address order, tile \<open>[bounds.start, top)\<close>; \<open>covers\<close> says that the
  table resolves every card below \<open>top\<close> to the header of the object its base lies in.
\<close>

fun tiled :: "nat \<Rightarrow> (nat \<times> nat) list \<Rightarrow> nat \<Rightarrow> bool" where
  "tiled s [] tp \<longleftrightarrow> s = tp"
| "tiled s ((a, n) # objs) tp \<longleftrightarrow> a = s \<and> 0 < n \<and> n mod 8 = 0 \<and> tiled (a + n) objs tp"

definition covers :: "offset_table \<Rightarrow> (nat \<times> nat) list \<Rightarrow> nat \<Rightarrow> bool" where
  "covers t objs tp \<longleftrightarrow>
     (\<forall>i. ot_card_base t i < tp \<longrightarrow>
        (\<exists>(a, n) \<in> set objs. a \<le> ot_card_base t i \<and> ot_card_base t i < a + n \<and> ot_resolve t i = Inr a))"

definition old_inv :: "old_gen \<Rightarrow> offset_table \<Rightarrow> (nat \<times> nat) list \<Rightarrow> bool" where
  "old_inv g t objs \<longleftrightarrow>
     ot_old_start t = sb_start (og_bounds g) \<and> sb_start (og_bounds g) mod 8 = 0
     \<and> og_top g \<le> og_committed_end g \<and> og_committed_end g \<le> sb_end (og_bounds g)
     \<and> sb_end (og_bounds g) \<le> usize_max
     \<and> sb_end (og_bounds g) \<le> sb_start (og_bounds g) + ot_n_cards t * 512
     \<and> tiled (sb_start (og_bounds g)) objs (og_top g) \<and> covers t objs (og_top g)"

text \<open>The life of an old generation: created empty, then any sequence of allocations and growths.\<close>

inductive old_run :: "space_bounds \<Rightarrow> old_gen \<Rightarrow> offset_table \<Rightarrow> (nat \<times> nat) list \<Rightarrow> bool"
  for b :: space_bounds where
  start: "old_gen_new b c = Inr g \<Longrightarrow> offset_table_new b = Inr t \<Longrightarrow> sb_start b \<le> c \<Longrightarrow> old_run b g t []"
| alloc: "old_run b g t objs \<Longrightarrow> old_allocate fill g t n (m :: heap) = Inr (Some (a, g', t', m')) \<Longrightarrow>
     old_run b g' t' (objs @ [(a, og_top g' - a)])"
| grow: "old_run b g t objs \<Longrightarrow> old_grow commit base g segment (os :: heap) = Inr (k, g', os') \<Longrightarrow>
     old_run b g' t objs"

text \<open>A 4 KiB old generation, for evaluation.\<close>

definition example_bounds :: space_bounds where
  "example_bounds = \<lparr>sb_start = 65536, sb_end = 69632\<rparr>"

section \<open>Lemmas on the offset table\<close>

lemmas card_consts = CARD_SHIFT_def CARD_SIZE_def MAX_DIRECT_def MAX_CHAIN_SKIP_def WORD_SIZE_def

lemma tiled_append: "tiled s (xs @ [(a, n)]) tp \<longleftrightarrow> tiled s xs a \<and> 0 < n \<and> n mod 8 = 0 \<and> tp = a + n"
  by (induction xs arbitrary: s) auto

lemma tiled_le: "tiled s objs tp \<Longrightarrow> s \<le> tp"
  by (induction objs arbitrary: s) force+

lemma tiled_mod8: "tiled s objs tp \<Longrightarrow> s mod 8 = 0 \<Longrightarrow> tp mod 8 = 0"
proof (induction objs arbitrary: s)
  case (Cons x objs)
  then show ?case by (cases x) (auto simp: mod_eq_0_iff_dvd)
qed simp

lemma ot_resolve_local:
  assumes "\<forall>j \<le> i. ot_get_entry t' j = ot_get_entry t j" and "ot_old_start t' = ot_old_start t"
  shows "ot_resolve t' i = ot_resolve t i"
  using assms
proof (induction t i rule: ot_resolve.induct)
  case (1 t i)
  have e: "ot_get_entry t' i = ot_get_entry t i" using 1(2) by simp
  have b: "ot_card_base t' i = ot_card_base t i" using 1(3) by (simp add: ot_card_base_def)
  show ?case
  proof (cases "ot_get_entry t i")
    case (Inl err)
    then show ?thesis using e by (simp add: ot_resolve.simps [of _ i])
  next
    case (Inr n)
    then show ?thesis
      using 1 e b by (auto simp: ot_resolve.simps [of _ i])
  qed
qed

lemma card_entry_cong: "ot_old_start t' = ot_old_start t \<Longrightarrow> card_entry t' a c i = card_entry t a c i"
  by (simp add: card_entry_def ot_card_base_def)

lemma ot_set_entry_Inr:
  "ot_set_entry t i v = Inr t' \<longleftrightarrow> i < ot_n_cards t \<and> t' = t\<lparr>ot_backing := (ot_backing t)[i := v]\<rparr>"
  by (auto simp: ot_set_entry_def guard_res_Inr_iff)

lemma record_cards_Inr:
  assumes "\<forall>i \<in> set is. i < ot_n_cards t \<and> card_entry t addr c0 i = Inr (e i)" and "distinct is"
  shows "\<exists>t'. record_cards t addr c0 is = Inr t' \<and> ot_old_start t' = ot_old_start t \<and> ot_n_cards t' = ot_n_cards t
    \<and> (\<forall>j. ot_get_entry t' j = (if j \<in> set is then Inr (e j) else ot_get_entry t j))"
  using assms
proof (induction "is" arbitrary: t)
  case (Cons i "is")
  let ?t = "t\<lparr>ot_backing := (ot_backing t)[i := e i]\<rparr>"
  have "\<forall>i \<in> set is. i < ot_n_cards ?t \<and> card_entry ?t addr c0 i = Inr (e i)"
    using Cons.prems by (simp add: ot_n_cards_def card_entry_cong [of ?t t])
  from Cons.IH [OF this] Cons.prems(2) obtain t' where t': "record_cards ?t addr c0 is = Inr t'"
    "ot_old_start t' = ot_old_start ?t" "ot_n_cards t' = ot_n_cards ?t"
    "\<forall>j. ot_get_entry t' j = (if j \<in> set is then Inr (e j) else ot_get_entry ?t j)" by auto
  moreover have "ot_get_entry ?t j = (if j = i then Inr (e i) else ot_get_entry t j)" for j
    using Cons.prems(1) by (auto simp: ot_get_entry_def ot_n_cards_def guard_res_def)
  ultimately show ?case
    using Cons.prems by (auto simp: ot_set_entry_def ot_n_cards_def)
qed simp

text \<open>The direct and the chained form of an entry.\<close>

lemma card_entry_value:
  assumes "addr \<le> ot_card_base t i" and "c0 + 1 \<le> i"
  shows "card_entry t addr c0 i =
    Inr (if (ot_card_base t i - addr) div 8 \<le> 64 then (ot_card_base t i - addr) div 8
         else 64 + min (i - (c0 + 1)) 191)"
  using assms by (auto simp: card_entry_def card_consts Let_def)

lemma ot_resolve_chain:
  assumes ent: "\<forall>i. c0 < i \<and> i \<le> c_last \<longrightarrow>
      ot_get_entry t i = Inr (if (ot_card_base t i - addr) div 8 \<le> 64 then (ot_card_base t i - addr) div 8
         else 64 + min (i - (c0 + 1)) 191)"
    and base: "ot_old_start t mod 8 = 0" "addr mod 8 = 0"
    and c0: "ot_card_base t c0 \<le> addr" "addr < ot_card_base t (c0 + 1)"
    and i: "c0 < i" "i \<le> c_last"
  shows "ot_resolve t i = Inr addr"
  using i
proof (induction i rule: less_induct)
  case (less i)
  have le: "addr \<le> ot_card_base t i"
  proof -
    have "ot_card_base t (c0 + 1) \<le> ot_card_base t i" using less.prems by (simp add: ot_card_base_def card_consts)
    with c0(2) show ?thesis by simp
  qed
  have dvd: "8 dvd ot_card_base t i - addr"
    using base by (intro dvd_diff_nat) (auto simp: ot_card_base_def card_consts mod_eq_0_iff_dvd)
  show ?case
  proof (cases "(ot_card_base t i - addr) div 8 \<le> 64")
    case True
    then have "ot_get_entry t i = Inr ((ot_card_base t i - addr) div 8)" using ent less.prems by simp
    with True dvd le show ?thesis by (subst ot_resolve.simps) (simp add: card_consts)
  next
    case False
    define k where "k = min (i - (c0 + 1)) 191"
    have e: "ot_get_entry t i = Inr (64 + k)" using False ent less.prems by (simp add: k_def)
    have "c0 + 1 < i"
    proof (rule ccontr)
      assume "\<not> c0 + 1 < i"
      then have "i = c0 + 1" using less.prems by simp
      then have "ot_card_base t i - addr \<le> 512"
        using c0(1) by (simp add: ot_card_base_def card_consts)
      then have "(ot_card_base t i - addr) div 8 \<le> 512 div 8" by (rule div_le_mono)
      with False show False by simp
    qed
    then have k: "0 < k" "i - k < i" "c0 < i - k" "i - k \<le> c_last" "k \<le> i"
      using less.prems by (auto simp: k_def)
    have "ot_resolve t i = ot_resolve t (i - k)"
      using e k by (subst ot_resolve.simps) (simp add: MAX_DIRECT_def)
    with less.IH [OF k(2,3,4)] show ?thesis by simp
  qed
qed


lemma record_object_spec:
  assumes al: "ot_old_start t mod 8 = 0" "addr mod 8 = 0" and n: "0 < n"
    and lo: "ot_old_start t \<le> addr" and hi: "addr + n \<le> ot_old_start t + ot_n_cards t * 512"
  shows "\<exists>t'. record_object t addr n = Inr t' \<and> ot_old_start t' = ot_old_start t \<and> ot_n_cards t' = ot_n_cards t
    \<and> (\<forall>i. addr \<le> ot_card_base t i \<and> ot_card_base t i < addr + n \<longrightarrow> ot_resolve t' i = Inr addr)
    \<and> (\<forall>i. ot_card_base t i < addr \<longrightarrow> ot_resolve t' i = ot_resolve t i)"
proof -
  let ?s = "ot_old_start t"
  define c0 where "c0 = (addr - ?s) div 512"
  define cl where "cl = (addr + n - 1 - ?s) div 512"
  have base: "ot_card_base t i = ?s + i * 512" for i by (simp add: ot_card_base_def card_consts)
  have div512: "a \<le> x \<Longrightarrow> a + (x - a) div 512 * 512 \<le> x \<and> x < a + ((x - a) div 512 + 1) * 512" for a x :: nat
    using div_mult_mod_eq [of "x - a" 512] mod_less_divisor [of 512 "x - a"] by auto
  have c0: "?s + c0 * 512 \<le> addr" "addr < ?s + (c0 + 1) * 512"
    using div512 [OF lo] unfolding c0_def by blast+
  have cl: "?s + cl * 512 \<le> addr + n - 1" "addr + n - 1 < ?s + (cl + 1) * 512"
    using div512 [of ?s "addr + n - 1"] lo n unfolding cl_def by simp_all
  have "c0 * 512 < (cl + 1) * 512" "cl * 512 < ot_n_cards t * 512" using c0 cl hi n lo by auto
  then have order: "c0 \<le> cl" "cl < ot_n_cards t" by auto
  define t1 where "t1 = (if addr = ot_card_base t c0 then t\<lparr>ot_backing := (ot_backing t)[c0 := 0]\<rparr> else t)"
  have t1: "(if addr = ot_card_base t c0 then ot_set_entry t c0 0 else Inr t) = Inr t1"
    "ot_old_start t1 = ?s" "ot_n_cards t1 = ot_n_cards t"
    "ot_get_entry t1 j = (if addr = ot_card_base t c0 \<and> j = c0 then Inr 0 else ot_get_entry t j)" for j
    using order by (auto simp: t1_def ot_set_entry_def ot_n_cards_def ot_get_entry_def guard_res_def)
  define e where "e i = (if (ot_card_base t i - addr) div 8 \<le> 64 then (ot_card_base t i - addr) div 8
         else 64 + min (i - (c0 + 1)) 191)" for i
  have "\<forall>i \<in> set [c0 + 1..<cl + 1]. i < ot_n_cards t1 \<and> card_entry t1 addr c0 i = Inr (e i)"
  proof
    fix i assume "i \<in> set [c0 + 1..<cl + 1]"
    then have i: "c0 + 1 \<le> i" "i \<le> cl" by auto
    have "addr \<le> ot_card_base t i"
      using c0(2) i(1) unfolding base by (meson add_le_cancel_left le_trans less_imp_le mult_le_mono1)
    then show "i < ot_n_cards t1 \<and> card_entry t1 addr c0 i = Inr (e i)"
      using i order t1(2,3) card_entry_value [of addr t i c0] card_entry_cong [of t1 t] by (simp add: e_def)
  qed
  from record_cards_Inr [OF this] obtain t' where t': "record_cards t1 addr c0 [c0 + 1..<cl + 1] = Inr t'"
    "ot_old_start t' = ?s" "ot_n_cards t' = ot_n_cards t"
    "\<forall>j. ot_get_entry t' j = (if j \<in> set [c0 + 1..<cl + 1] then Inr (e j) else ot_get_entry t1 j)"
    using t1(2,3) by (metis distinct_upt)
  have b': "ot_card_base t' i = ot_card_base t i" for i using t'(2) by (simp add: ot_card_base_def)
  have ci: "ot_card_index t addr = Inr c0" "ot_card_index t (addr + n - 1) = Inr cl"
    unfolding c0_def cl_def ot_card_index_def using lo n
    by (simp_all only: usub_le rbind_simps card_consts, simp_all)
  have "record_object t addr n = Inr t'"
    unfolding record_object_def ci rbind_simps t1(1) using al n t'(1) by (simp add: WORD_SIZE_def del: upt_Suc)
  moreover have "ot_resolve t' i = Inr addr" if "addr \<le> ot_card_base t i" "ot_card_base t i < addr + n" for i
  proof -
    have "i * 512 < (cl + 1) * 512" "c0 * 512 \<le> i * 512" using that c0 cl n unfolding base by auto
    then have i: "c0 \<le> i" "i \<le> cl" by auto
    show ?thesis
    proof (cases "i = c0")
      case True
      then have "addr = ot_card_base t c0" using that(1) c0(1) by (simp add: base)
      then have "ot_get_entry t' i = Inr 0" using t'(4) t1(4) True by simp
      then show ?thesis using True \<open>addr = ot_card_base t c0\<close> b'
        by (subst ot_resolve.simps) (simp add: usub_def)
    next
      case False
      show ?thesis
      proof (rule ot_resolve_chain [where ?c0.0 = c0 and c_last = cl])
        show "\<forall>i. c0 < i \<and> i \<le> cl \<longrightarrow> ot_get_entry t' i =
          Inr (if (ot_card_base t' i - addr) div 8 \<le> 64 then (ot_card_base t' i - addr) div 8
               else 64 + min (i - (c0 + 1)) 191)"
          using t'(4) by (simp add: b' e_def del: upt_Suc)
      qed (use al t'(2) c0 False i in \<open>simp_all add: b' base\<close>)
    qed
  qed
  moreover have "ot_resolve t' i = ot_resolve t i" if "ot_card_base t i < addr" for i
  proof (rule ot_resolve_local)
    have "i * 512 < (c0 + 1) * 512" using that c0 unfolding base by auto
    then have "i \<le> c0" by auto
    moreover have "addr = ot_card_base t c0 \<Longrightarrow> i < c0" using that by (simp add: base)
    ultimately show "\<forall>j \<le> i. ot_get_entry t' j = ot_get_entry t j"
      using t'(4) t1(4) by (auto simp del: upt_Suc)
  qed (simp add: t'(2))
  ultimately show ?thesis using t'(2,3) by blast
qed


section \<open>Lemmas on the spaces\<close>

lemma covers_extend:
  assumes "covers t objs a" and "ot_old_start t' = ot_old_start t"
    and "\<forall>i. a \<le> ot_card_base t i \<and> ot_card_base t i < a + n \<longrightarrow> ot_resolve t' i = Inr a"
    and "\<forall>i. ot_card_base t i < a \<longrightarrow> ot_resolve t' i = ot_resolve t i"
  shows "covers t' (objs @ [(a, n)]) (a + n)"
  unfolding covers_def
proof (intro allI impI)
  fix i assume i: "ot_card_base t' i < a + n"
  have b: "ot_card_base t' i = ot_card_base t i" using assms(2) by (simp add: ot_card_base_def)
  show "\<exists>(x, k) \<in> set (objs @ [(a, n)]). x \<le> ot_card_base t' i \<and> ot_card_base t' i < x + k \<and> ot_resolve t' i = Inr x"
  proof (cases "ot_card_base t i < a")
    case True
    then show ?thesis using assms(1,4) b by (fastforce simp: covers_def)
  next
    case False
    then show ?thesis using assms(3) b i by auto
  qed
qed

lemma align8_Inr: "align8 n = Inr k \<longleftrightarrow> n + 7 \<le> usize_max \<and> k = (n + 7) div 8 * 8"
  by (auto simp: align8_def rbind_Inr_iff uadd_Inr_iff)

lemma align8_bounds: "align8 n = Inr k \<Longrightarrow> n \<le> k \<and> k < n + 8 \<and> k mod 8 = 0"
  unfolding align8_Inr by auto

lemma old_allocate_step:
  assumes inv: "old_inv g t objs" and k: "align8 n = Inr k" and n: "0 < n"
  shows "(og_top g + k > og_committed_end g \<longrightarrow> old_allocate fill g t n m = Inr None)
    \<and> (og_top g + k \<le> og_committed_end g \<longrightarrow>
        (\<exists>t'. old_allocate fill g t n m =
             Inr (Some (og_top g, g\<lparr>og_top := og_top g + k\<rparr>, t', fill (og_top g) m))
           \<and> old_inv (g\<lparr>og_top := og_top g + k\<rparr>) t' (objs @ [(og_top g, k)])))"
proof (intro conjI impI)
  assume "og_top g + k > og_committed_end g"
  then show "old_allocate fill g t n m = Inr None"
    using k by (auto simp: old_allocate_def checked_add_usize_def)
next
  assume fits: "og_top g + k \<le> og_committed_end g"
  let ?a = "og_top g"
  have kb: "0 < k" "k mod 8 = 0" using align8_bounds [OF k] n by auto
  have pos: "ot_old_start t \<le> ?a" "?a mod 8 = 0"
    using inv tiled_le tiled_mod8 by (fastforce simp: old_inv_def)+
  have room: "?a + k \<le> ot_old_start t + ot_n_cards t * 512" "ot_old_start t mod 8 = 0"
    using inv fits by (simp_all add: old_inv_def)
  obtain t' where t': "record_object t ?a k = Inr t'" "ot_old_start t' = ot_old_start t"
    "ot_n_cards t' = ot_n_cards t"
    "\<forall>i. ?a \<le> ot_card_base t i \<and> ot_card_base t i < ?a + k \<longrightarrow> ot_resolve t' i = Inr ?a"
    "\<forall>i. ot_card_base t i < ?a \<longrightarrow> ot_resolve t' i = ot_resolve t i"
    using record_object_spec [OF room(2) pos(2) kb(1) pos(1) room(1)] by blast
  have "covers t' (objs @ [(?a, k)]) (?a + k)"
    using inv t' by (intro covers_extend) (auto simp: old_inv_def)
  then have "old_inv (g\<lparr>og_top := ?a + k\<rparr>) t' (objs @ [(?a, k)])"
    using inv fits kb t'(2,3) by (simp add: old_inv_def tiled_append)
  moreover have "?a + k \<le> usize_max" using inv fits by (simp add: old_inv_def)
  then have "old_allocate fill g t n m = Inr (Some (?a, g\<lparr>og_top := ?a + k\<rparr>, t', fill ?a m))"
    using k fits t'(1) by (simp add: old_allocate_def checked_add_usize_def Let_def)
  ultimately show "\<exists>t'. old_allocate fill g t n m =
             Inr (Some (og_top g, g\<lparr>og_top := og_top g + k\<rparr>, t', fill (og_top g) m))
           \<and> old_inv (g\<lparr>og_top := og_top g + k\<rparr>) t' (objs @ [(og_top g, k)])" by blast
qed


lemma old_allocate_SomeD:
  assumes "old_inv g t objs" and "old_allocate fill g t n m = Inr (Some (a, g', t', m'))"
  shows "a = og_top g \<and> old_inv g' t' (objs @ [(a, og_top g' - a)]) \<and> og_bounds g' = og_bounds g
     \<and> n \<le> og_top g' - a"
proof -
  obtain k where k: "align8 n = Inr k"
    using assms(2) by (cases "align8 n") (simp_all add: old_allocate_def)
  have "0 < n"
  proof (rule ccontr)
    assume "\<not> 0 < n"
    then have "k = 0" using k by (simp add: align8_def uadd_def)
    then show False
      using assms(2) k by (auto simp: old_allocate_def record_object_def guard_res_def Let_def
          split: option.splits if_splits)
  qed
  note step = old_allocate_step [OF assms(1) k this, of fill m]
  then have "og_top g + k \<le> og_committed_end g" using assms(2) by (cases "og_top g + k > og_committed_end g") simp_all
  with step assms(2) have "a = og_top g \<and> g' = g\<lparr>og_top := og_top g + k\<rparr> \<and> old_inv g' t' (objs @ [(og_top g, k)])"
    by auto
  then show ?thesis using align8_bounds [OF k] by auto
qed

lemma old_grow_Inr:
  assumes "old_grow commit base g segment os = Inr (k, g', os')"
  shows "og_committed_end g \<le> og_committed_end g'" and "og_bounds g' = og_bounds g" and "og_top g' = og_top g"
    and "k = og_committed_end g' - og_committed_end g" and "og_committed_end g' \<le> sb_end (og_bounds g)"
proof -
  define e where "e = min (min (og_committed_end g + max segment 1) usize_max) (sb_end (og_bounds g))"
  have "old_grow commit base g segment os =
      rbind (usub e (og_committed_end g)) (\<lambda>grown. if grown = 0 then Inr (0, g, os)
        else rbind (usub (og_committed_end g) base) (\<lambda>off.
          Inr (grown, g\<lparr>og_committed_end := e\<rparr>, commit off grown os)))"
    by (simp only: old_grow_def Let_def e_def)
  with assms have "og_committed_end g \<le> e \<and> og_committed_end g' = e \<and> og_bounds g' = og_bounds g
      \<and> og_top g' = og_top g \<and> k = e - og_committed_end g"
    by (auto simp: rbind_Inr_iff usub_Inr_iff split: if_splits)
  moreover have "e \<le> sb_end (og_bounds g)" by (simp add: e_def)
  ultimately show "og_committed_end g \<le> og_committed_end g'" "og_bounds g' = og_bounds g" "og_top g' = og_top g"
    "k = og_committed_end g' - og_committed_end g" "og_committed_end g' \<le> sb_end (og_bounds g)" by auto
qed

lemma offset_table_new_Inr:
  assumes "offset_table_new b = Inr t"
  shows "ot_old_start t = sb_start b" and "sb_end b \<le> sb_start b + ot_n_cards t * 512" and "sb_start b \<le> sb_end b"
proof -
  let ?n = "sb_end b - sb_start b"
  have t: "sb_start b \<le> sb_end b" "t = \<lparr>ot_backing = replicate (max (div_ceil ?n 512) 1) 0, ot_old_start = sb_start b\<rparr>"
    using assms by (auto simp: offset_table_new_def sb_len_def rbind_Inr_iff usub_Inr_iff card_consts)
  have "?n \<le> div_ceil ?n 512 * 512"
    using div_mult_mod_eq [of ?n 512] mod_less_divisor [of 512 ?n] unfolding div_ceil_def by (auto split: if_splits)
  then show "ot_old_start t = sb_start b" "sb_start b \<le> sb_end b"
    "sb_end b \<le> sb_start b + ot_n_cards t * 512"
    using t by (auto simp: ot_n_cards_def max_def)
qed

lemma old_run_inv:
  assumes "old_run b g t objs" and "sb_start b mod 8 = 0" and "sb_end b \<le> usize_max"
  shows "old_inv g t objs \<and> og_bounds g = b"
  using assms
proof (induction rule: old_run.induct)
  case (start c g t)
  note n = offset_table_new_Inr [OF start(2)]
  show ?case
    using start n by (auto simp: old_gen_new_def guard_res_Inr_iff old_inv_def covers_def ot_card_base_def)
next
  case (alloc g t objs fill n m a g' t' m')
  then show ?case using old_allocate_SomeD [of g t objs fill n m a g' t' m'] by blast
next
  case (grow g t objs commit base segment os k g' os')
  then show ?case using old_grow_Inr [OF grow(2)] by (auto simp: old_inv_def)
qed

section \<open>Properties\<close>





text \<open>The heap layout partitions the reservation: \<open>[eden][from][to][old]\<close> are adjacent, in this order,
  from the base to the end; the single comparison \<open>is_old\<close> decides the generation of every address
  of the reservation, also when the address carries the heap tag; eden, from and to are new.\<close>

lemma heap_layout_partition:
  assumes "heap_layout_new ov base total_len eden_size = Inr h" and "base \<le> a" and "a < base + total_len"
    and "hl_old_start h mod 8 = 0" and "a mod 8 = 0"
  shows "(is_old h a \<longleftrightarrow> sb_contains (hl_old h) a) \<and> (is_new h a \<longleftrightarrow> \<not> is_old h a)
    \<and> (is_new h a \<longleftrightarrow> sb_contains (hl_eden h) a \<or> sb_contains (hl_from h) a \<or> sb_contains (hl_to h) a)
    \<and> \<not> (sb_contains (hl_eden h) a \<and> sb_contains (hl_from h) a)
    \<and> \<not> (sb_contains (hl_from h) a \<and> sb_contains (hl_to h) a)
    \<and> \<not> (sb_contains (hl_eden h) a \<and> sb_contains (hl_to h) a)
    \<and> is_old h (a + unat MEM_TAG) = is_old h a"
proof -
  have "is_old h (a + 1) = is_old h a"
  proof (rule ccontr)
    assume "is_old h (a + 1) \<noteq> is_old h a"
    then have "hl_old_start h = a + 1" by (auto simp: is_old_def)
    with assms(4,5) show False by presburger
  qed
  then show ?thesis
    using assms(1-3)
    by (auto simp: heap_layout_new_def Let_def rbind_Inr_iff uadd_Inr_iff guard_res_Inr_iff is_old_def is_new_def
        sb_contains_def MEM_TAG_def)
qed

text \<open>Witness: a 16 MiB reservation with a 4 MiB eden.\<close>

end
