(* ===== verification/Cards.thy ===== *)
theory Cards
  imports Spaces
begin

unbundle bit_operations_syntax

text \<open>
  The card table and the heap store choke point (\<open>src/src/memory/cards.rs\<close>, \<open>store.rs\<close>), and the
  write barrier that the compiler emits inline for a field store (\<open>src/src/compiler/emit.rs\<close>,
  \<open>emit_store_field\<close>).

  A card table is its backing bytes (dirty is 0, clean is 1), the address of the first of them and
  the start of the old generation. \<open>vm_mem\<close> is the part of \<open>VmState\<close> a heap store touches: the heap
  words, the layout and the card table.
\<close>

section \<open>The card table\<close>

definition CARD_DIRTY :: nat where "CARD_DIRTY = 0"
definition CARD_CLEAN :: nat where "CARD_CLEAN = 1"

record card_table =
  ct_backing :: "nat list"
  ct_base :: nat
  ct_old_start :: nat

definition ct_n_cards :: "card_table \<Rightarrow> nat" where
  "ct_n_cards c = length (ct_backing c)"

text \<open>\<open>base\<close> is the address the operating system reserves for the backing bytes.\<close>

definition card_table_new :: "nat \<Rightarrow> space_bounds \<Rightarrow> card_table res" where
  "card_table_new base old_reserved =
     rbind (sb_len old_reserved) (\<lambda>len.
       Inr \<lparr>ct_backing = replicate (max (div_ceil len CARD_SIZE) 1) CARD_CLEAN,
            ct_base = base, ct_old_start = sb_start old_reserved\<rparr>)"

definition ct_entry_store :: "card_table \<Rightarrow> nat \<Rightarrow> nat \<Rightarrow> card_table res" where
  "ct_entry_store c i v =
     guard_res (i < ct_n_cards c) Assert_failed (Inr (c\<lparr>ct_backing := (ct_backing c)[i := v]\<rparr>))"

definition ct_entry_load :: "card_table \<Rightarrow> nat \<Rightarrow> nat res" where
  "ct_entry_load c i = guard_res (i < ct_n_cards c) Assert_failed (Inr (ct_backing c ! i))"

definition ct_card_index :: "card_table \<Rightarrow> nat \<Rightarrow> nat res" where
  "ct_card_index c slot_addr = rbind (usub slot_addr (ct_old_start c)) (\<lambda>d. Inr (d div 2 ^ CARD_SHIFT))"

definition ct_card_base :: "card_table \<Rightarrow> nat \<Rightarrow> nat" where
  "ct_card_base c i = ct_old_start c + i * 2 ^ CARD_SHIFT"

definition base_biased :: "card_table \<Rightarrow> u64" where
  "base_biased c = word_of_nat (ct_base c) - word_of_nat (ct_old_start c div 2 ^ CARD_SHIFT)"

definition dirty_for_slot :: "card_table \<Rightarrow> nat \<Rightarrow> card_table res" where
  "dirty_for_slot c slot_addr = rbind (ct_card_index c slot_addr) (\<lambda>i. ct_entry_store c i CARD_DIRTY)"

fun ct_dirty_all :: "card_table \<Rightarrow> nat list \<Rightarrow> card_table res" where
  "ct_dirty_all c [] = Inr c"
| "ct_dirty_all c (i # is) = rbind (ct_entry_store c i CARD_DIRTY) (\<lambda>c'. ct_dirty_all c' is)"

definition record_multistores :: "card_table \<Rightarrow> nat \<Rightarrow> nat \<Rightarrow> card_table res" where
  "record_multistores c start end_addr =
     (if start \<ge> end_addr then Inr c
      else rbind (ct_card_index c start) (\<lambda>first.
           rbind (ct_card_index c (end_addr - 1)) (\<lambda>last. ct_dirty_all c [first..<last + 1])))"

definition ct_is_dirty :: "card_table \<Rightarrow> nat \<Rightarrow> bool res" where
  "ct_is_dirty c i = rbind (ct_entry_load c i) (\<lambda>v. Inr (v = CARD_DIRTY))"

definition ct_set_clean :: "card_table \<Rightarrow> nat \<Rightarrow> card_table res" where
  "ct_set_clean c i = ct_entry_store c i CARD_CLEAN"

section \<open>The store choke point\<close>

record vm_mem =
  vm_heap :: heap
  vm_layout :: heap_layout
  vm_cards :: card_table

definition store :: "vm_mem \<Rightarrow> oop \<Rightarrow> nat \<Rightarrow> oop \<Rightarrow> vm_mem res" where
  "store vm obj word_offset val =
     rbind (body_addr (vm_heap vm) obj word_offset) (\<lambda>slot.
     rbind (set_body_oop (vm_heap vm) obj word_offset val) (\<lambda>m'.
     let vm' = vm\<lparr>vm_heap := m'\<rparr> in
     rbind (mem_addr obj) (\<lambda>oa.
       if is_old (vm_layout vm) oa \<and> is_mem val then
         rbind (mem_addr val) (\<lambda>va.
           if is_new (vm_layout vm) va then
             rbind (dirty_for_slot (vm_cards vm) slot) (\<lambda>c'. Inr (vm'\<lparr>vm_cards := c'\<rparr>))
           else Inr vm')
       else Inr vm')))"

definition store_tail_oop :: "vm_mem \<Rightarrow> oop \<Rightarrow> nat \<Rightarrow> oop \<Rightarrow> vm_mem res" where
  "store_tail_oop vm obj i val =
     rbind (tail_start_word (vm_heap vm) obj) (\<lambda>t. rbind (uadd t i) (\<lambda>x. store vm obj x val))"

definition post_write_barrier :: "vm_mem \<Rightarrow> oop \<Rightarrow> vm_mem res" where
  "post_write_barrier vm obj =
     rbind (mem_addr obj) (\<lambda>addr.
       if is_old (vm_layout vm) addr then
         rbind (instance_size_words (vm_heap vm) obj) (\<lambda>n.
         rbind (uadd addr (n * WORD_SIZE)) (\<lambda>e.
         rbind (record_multistores (vm_cards vm) addr e) (\<lambda>c'. Inr (vm\<lparr>vm_cards := c'\<rparr>))))
       else Inr vm)"

section \<open>The remembered-set invariant\<close>

text \<open>
  \<open>slots\<close> is the set of addresses that hold oops. The invariant: every such slot of the old
  generation that refers into the new generation lies on a dirty card.
\<close>

definition card_dirty :: "card_table \<Rightarrow> nat \<Rightarrow> bool" where
  "card_dirty c slot \<longleftrightarrow> (\<exists>i. ct_card_index c slot = Inr i \<and> ct_is_dirty c i = Inr True)"

definition points_new :: "heap_layout \<Rightarrow> oop \<Rightarrow> bool" where
  "points_new h v \<longleftrightarrow> is_mem v \<and> is_new h (oaddr v)"

definition remembered :: "nat set \<Rightarrow> vm_mem \<Rightarrow> bool" where
  "remembered slots vm \<longleftrightarrow>
     (\<forall>a \<in> slots. is_old (vm_layout vm) a \<and> points_new (vm_layout vm) (vm_heap vm a) \<longrightarrow> card_dirty (vm_cards vm) a)"

section \<open>The barrier compiled code runs\<close>

text \<open>
  The instructions \<open>emit_store_field\<close> uses, on a machine with the registers, the heap words and the
  card bytes. \<open>x28\<close> addresses the VM register block, whose fields are read by offset; a label is
  local and is only jumped to forwards.
\<close>

datatype cond = Lo | Eq | Hs

datatype a64 =
    Stur nat nat int        \<comment> \<open>\<open>stur xt, [xn, #imm]\<close>\<close>
  | Str nat nat int         \<comment> \<open>\<open>str xt, [xn, #imm]\<close>\<close>
  | Ldr_block nat nat       \<comment> \<open>\<open>ldr xt, [x28, #off]\<close>\<close>
  | Add_imm nat nat int
  | Add_reg nat nat nat
  | Lsr_imm nat nat nat
  | Cmp nat nat
  | Tst_imm nat u64
  | B_cond cond nat
  | Strb_zr nat             \<comment> \<open>\<open>strb wzr, [xn]\<close>\<close>
  | Bind nat

record a64_state =
  st_regs :: "nat \<Rightarrow> u64"
  st_lo :: bool             \<comment> \<open>carry clear: unsigned lower\<close>
  st_eq :: bool             \<comment> \<open>zero flag\<close>
  st_heap :: heap
  st_cards :: card_table
  st_block :: "nat \<Rightarrow> u64"

fun cond_holds :: "cond \<Rightarrow> a64_state \<Rightarrow> bool" where
  "cond_holds Lo s \<longleftrightarrow> st_lo s"
| "cond_holds Eq s \<longleftrightarrow> st_eq s"
| "cond_holds Hs s \<longleftrightarrow> \<not> st_lo s"

definition a64_store :: "a64_state \<Rightarrow> u64 \<Rightarrow> u64 \<Rightarrow> a64_state res" where
  "a64_store s a v = rbind (write_word (st_heap s) (unat a) v) (\<lambda>m'. Inr (s\<lparr>st_heap := m'\<rparr>))"

definition a64_store_card :: "a64_state \<Rightarrow> u64 \<Rightarrow> a64_state res" where
  "a64_store_card s a =
     rbind (usub (unat a) (ct_base (st_cards s))) (\<lambda>i.
     rbind (ct_entry_store (st_cards s) i CARD_DIRTY) (\<lambda>c'. Inr (s\<lparr>st_cards := c'\<rparr>)))"

fun after_label :: "nat \<Rightarrow> a64 list \<Rightarrow> a64 list" where
  "after_label l [] = []"
| "after_label l (Bind k # is) = (if k = l then is else after_label l is)"
| "after_label l (_ # is) = after_label l is"

lemma after_label_length: "length (after_label l is) \<le> length is"
  by (induction l "is" rule: after_label.induct) auto

definition set_reg :: "nat \<Rightarrow> u64 \<Rightarrow> a64_state \<Rightarrow> a64_state" where
  "set_reg r v s = s\<lparr>st_regs := (st_regs s)(r := v)\<rparr>"

function a64_exec :: "a64 list \<Rightarrow> a64_state \<Rightarrow> a64_state res" where
  "a64_exec [] s = Inr s"
| "a64_exec (Stur t n k # is) s = rbind (a64_store s (st_regs s n + word_of_int k) (st_regs s t)) (a64_exec is)"
| "a64_exec (Str t n k # is) s = rbind (a64_store s (st_regs s n + word_of_int k) (st_regs s t)) (a64_exec is)"
| "a64_exec (Ldr_block t off # is) s = a64_exec is (set_reg t (st_block s off) s)"
| "a64_exec (Add_imm d n k # is) s = a64_exec is (set_reg d (st_regs s n + word_of_int k) s)"
| "a64_exec (Add_reg d n k # is) s = a64_exec is (set_reg d (st_regs s n + st_regs s k) s)"
| "a64_exec (Lsr_imm d n k # is) s = a64_exec is (set_reg d (drop_bit k (st_regs s n)) s)"
| "a64_exec (Cmp n k # is) s =
     a64_exec is (s\<lparr>st_lo := st_regs s n < st_regs s k, st_eq := st_regs s n = st_regs s k\<rparr>)"
| "a64_exec (Tst_imm n v # is) s = a64_exec is (s\<lparr>st_lo := True, st_eq := st_regs s n AND v = 0\<rparr>)"
| "a64_exec (B_cond c l # is) s = a64_exec (if cond_holds c s then after_label l is else is) s"
| "a64_exec (Strb_zr n # is) s = rbind (a64_store_card s (st_regs s n)) (a64_exec is)"
| "a64_exec (Bind l # is) s = a64_exec is s"
  by pat_completeness auto
termination
  by (relation "measure (\<lambda>(is, s). length is)") (auto simp: le_imp_less_Suc after_label_length)

definition VMREG_OLD_START_OFFSET :: nat where "VMREG_OLD_START_OFFSET = 16"
definition VMREG_CARD_BASE_BIASED_OFFSET :: nat where "VMREG_CARD_BASE_BIASED_OFFSET = 24"

text \<open>\<open>robj\<close> and \<open>rval\<close> are the registers \<open>resolve\<close> returned for the two operands.\<close>

definition emit_store_field :: "nat \<Rightarrow> int \<Rightarrow> nat \<Rightarrow> bool \<Rightarrow> a64 list" where
  "emit_store_field robj byte_off rval barrier =
     (let biased = byte_off - 1; skip = 0 in
      (if -256 \<le> biased \<and> biased \<le> 255 then [Stur rval robj biased]
       else [Add_imm 19 robj biased, Str rval 19 0])
      @ (if \<not> barrier then []
         else
          [Ldr_block 20 VMREG_OLD_START_OFFSET,
           Cmp robj 20, B_cond Lo skip,
           Tst_imm rval 3, B_cond Eq skip,
           Cmp rval 20, B_cond Hs skip,
           Add_imm 19 robj biased,
           Lsr_imm 19 19 CARD_SHIFT,
           Ldr_block 20 VMREG_CARD_BASE_BIASED_OFFSET,
           Add_reg 20 20 19,
           Strb_zr 20,
           Bind skip]))"

text \<open>What the last five instructions of the barrier do to the card table.\<close>

definition biased_mark :: "card_table \<Rightarrow> nat \<Rightarrow> card_table res" where
  "biased_mark c a =
     rbind (usub (unat (base_biased c + drop_bit CARD_SHIFT (word_of_nat a))) (ct_base c)) (\<lambda>i.
       ct_entry_store c i CARD_DIRTY)"

definition biased_wf :: "card_table \<Rightarrow> bool" where
  "biased_wf c \<longleftrightarrow> ct_old_start c mod 512 = 0 \<and> ct_base c + ct_n_cards c \<le> usize_max
     \<and> ct_old_start c + ct_n_cards c * 512 \<le> usize_max"

section \<open>Lemmas on cards\<close>

lemma ct_card_index_Inr: "ct_card_index c a = Inr i \<longleftrightarrow> ct_old_start c \<le> a \<and> i = (a - ct_old_start c) div 512"
  by (auto simp: ct_card_index_def rbind_Inr_iff usub_Inr_iff CARD_SHIFT_def)

lemma ct_is_dirty_Inr: "ct_is_dirty c i = Inr b \<longleftrightarrow> i < ct_n_cards c \<and> b = (ct_backing c ! i = 0)"
  by (auto simp: ct_is_dirty_def ct_entry_load_def rbind_Inr_iff guard_res_Inr_iff CARD_DIRTY_def)

lemma card_dirty_iff:
  "card_dirty c a \<longleftrightarrow> ct_old_start c \<le> a \<and> (a - ct_old_start c) div 512 < ct_n_cards c
     \<and> ct_backing c ! ((a - ct_old_start c) div 512) = 0"
  by (auto simp: card_dirty_def ct_card_index_Inr ct_is_dirty_Inr)

lemma ct_entry_store_Inr:
  "ct_entry_store c i v = Inr c' \<longleftrightarrow> i < ct_n_cards c \<and> c' = c\<lparr>ct_backing := (ct_backing c)[i := v]\<rparr>"
  by (auto simp: ct_entry_store_def guard_res_Inr_iff)

lemma dirty_for_slot_Inr:
  "dirty_for_slot c a = Inr c' \<longleftrightarrow> ct_old_start c \<le> a \<and> (a - ct_old_start c) div 512 < ct_n_cards c
     \<and> c' = c\<lparr>ct_backing := (ct_backing c)[(a - ct_old_start c) div 512 := 0]\<rparr>"
  by (auto simp: dirty_for_slot_def rbind_Inr_iff ct_card_index_Inr ct_entry_store_Inr CARD_DIRTY_def)

lemma dirty_for_slot_below:
  assumes "dirty_for_slot c a = Inr c'" shows "a < ct_old_start c + ct_n_cards c * 512"
proof -
  have "(a - ct_old_start c) div 512 < ct_n_cards c" "ct_old_start c \<le> a" using assms by (simp_all add: dirty_for_slot_Inr)
  then show ?thesis by (simp add: div_less_iff_less_mult)
qed

lemma ct_dirty_all_Inr:
  assumes "ct_dirty_all c is = Inr c'"
  shows "ct_old_start c' = ct_old_start c \<and> ct_base c' = ct_base c \<and> ct_n_cards c' = ct_n_cards c
    \<and> (\<forall>i \<in> set is. i < ct_n_cards c)
    \<and> (\<forall>i < ct_n_cards c. ct_backing c' ! i = (if i \<in> set is then 0 else ct_backing c ! i))"
  using assms
proof (induction "is" arbitrary: c)
  case (Cons i "is")
  then obtain c1 where c1: "ct_entry_store c i CARD_DIRTY = Inr c1" "ct_dirty_all c1 is = Inr c'"
    by (auto simp: rbind_Inr_iff)
  from Cons.IH [OF c1(2)] c1(1) show ?case
    by (auto simp: ct_entry_store_Inr ct_n_cards_def CARD_DIRTY_def nth_list_update)
qed simp

text \<open>
  The contract between a store and the collector's remembered set: marking a slot makes its card
  dirty and cleans no card. Whatever marks cards this way keeps the invariant across a store.
\<close>

locale card_marker =
  fixes mark :: "card_table \<Rightarrow> nat \<Rightarrow> card_table res" and wf :: "card_table \<Rightarrow> bool"
  assumes mark_dirties: "wf c \<Longrightarrow> mark c a = Inr c' \<Longrightarrow> ct_old_start c \<le> a \<Longrightarrow> card_dirty c' a"
    and mark_mono: "wf c \<Longrightarrow> mark c a = Inr c' \<Longrightarrow> ct_old_start c \<le> a \<Longrightarrow> card_dirty c x \<Longrightarrow> card_dirty c' x"
begin

lemma marked_store_remembered:
  assumes "remembered slots vm" and "wf (vm_cards vm)" and "mark (vm_cards vm) a = Inr c'"
    and "ct_old_start (vm_cards vm) \<le> a"
  shows "remembered slots (vm\<lparr>vm_heap := (vm_heap vm)(a := v), vm_cards := c'\<rparr>)"
  using assms mark_dirties [OF assms(2,3,4)] mark_mono [OF assms(2,3,4)]
  by (auto simp: remembered_def)

end

interpretation slot_marker: card_marker dirty_for_slot "\<lambda>_. True"
proof unfold_locales
  fix c a c' x assume d: "dirty_for_slot c a = Inr c'"
  show "card_dirty c' a" if "ct_old_start c \<le> a"
    using d by (auto simp: dirty_for_slot_Inr card_dirty_iff ct_n_cards_def)
  show "card_dirty c' x" if "card_dirty c x"
    using d that by (auto simp: dirty_for_slot_Inr card_dirty_iff ct_n_cards_def nth_list_update)
qed

lemma base_biased_entry:
  assumes "ct_old_start c mod 512 = 0" and "ct_old_start c \<le> a" and "a \<le> usize_max"
  shows "base_biased c + drop_bit CARD_SHIFT (word_of_nat a) =
    word_of_nat (ct_base c + (a - ct_old_start c) div 512)"
proof -
  have "a div 512 = ct_old_start c div 512 + (a - ct_old_start c) div 512"
  proof -
    obtain k where k: "ct_old_start c = 512 * k" using assms(1) by auto
    obtain d where "a = 512 * k + d" using assms(2) k by (metis le_Suc_ex)
    then show ?thesis by (simp add: k)
  qed
  moreover have "drop_bit 9 (word_of_nat a :: u64) = word_of_nat (a div 512)"
  proof -
    have "unat (word_of_nat a :: u64) = a" using assms(3) by (simp add: unat_of_nat)
    then have "unat (drop_bit 9 (word_of_nat a :: u64)) = a div 512"
      by (simp add: drop_bit_eq_div unat_div)
    then show ?thesis using assms(3) by (simp only: word_unat_eq_iff unat_of_nat) simp
  qed
  ultimately show ?thesis by (simp add: base_biased_def CARD_SHIFT_def)
qed


lemma card_index_bound:
  "a < b + n * 512 \<Longrightarrow> b \<le> a \<Longrightarrow> (a - b) div 512 < n" for a b n :: nat
  by (simp add: div_less_iff_less_mult)

lemma biased_mark_eq:
  assumes wf: "biased_wf c" and a: "ct_old_start c \<le> a" "a < ct_old_start c + ct_n_cards c * 512"
  shows "biased_mark c a = dirty_for_slot c a"
proof -
  let ?i = "(a - ct_old_start c) div 512"
  have i: "?i < ct_n_cards c" using card_index_bound [OF a(2,1)] .
  have "ct_base c + ?i < 2 ^ 64" using wf i by (simp add: biased_wf_def)
  then have "unat (word_of_nat (ct_base c + ?i) :: u64) = ct_base c + ?i" by (simp only: unat_of_nat) simp
  moreover have "a \<le> usize_max" using wf a by (simp add: biased_wf_def)
  ultimately show ?thesis
    using wf a i base_biased_entry [of c a]
    by (simp add: biased_mark_def dirty_for_slot_def ct_card_index_def biased_wf_def CARD_SHIFT_def)
qed

lemma record_multistores_Inr:
  assumes "record_multistores c s e = Inr c'"
  shows "ct_old_start c' = ct_old_start c"
    and "card_dirty c x \<Longrightarrow> card_dirty c' x"
    and "s \<le> x \<Longrightarrow> x < e \<Longrightarrow> card_dirty c' x"
proof -
  have *: "ct_old_start c' = ct_old_start c \<and> (card_dirty c x \<longrightarrow> card_dirty c' x)
    \<and> (s \<le> x \<and> x < e \<longrightarrow> card_dirty c' x)"
  proof (cases "s \<ge> e")
    case True
    then show ?thesis using assms by (auto simp: record_multistores_def)
  next
    case False
    let ?f = "(s - ct_old_start c) div 512" and ?l = "(e - 1 - ct_old_start c) div 512"
    from False assms have os: "ct_old_start c \<le> s" and d: "ct_dirty_all c [?f..<?l + 1] = Inr c'"
      by (auto simp: record_multistores_def rbind_Inr_iff ct_card_index_Inr)
    note r = ct_dirty_all_Inr [OF d]
    have "card_dirty c' x" if x: "s \<le> x" "x < e"
    proof -
      have "?f \<le> (x - ct_old_start c) div 512" "(x - ct_old_start c) div 512 \<le> ?l"
        using x by (auto intro!: div_le_mono)
      then have "(x - ct_old_start c) div 512 \<in> set [?f..<?l + 1]" by (simp del: upt_Suc)
      with r x os show ?thesis unfolding card_dirty_iff by auto
    qed
    moreover have "card_dirty c x \<longrightarrow> card_dirty c' x" using r unfolding card_dirty_iff by auto
    ultimately show ?thesis using r by blast
  qed
  then show "ct_old_start c' = ct_old_start c" "card_dirty c x \<Longrightarrow> card_dirty c' x"
    "s \<le> x \<Longrightarrow> x < e \<Longrightarrow> card_dirty c' x" by blast+
qed

lemma body_addr_Inr:
  "body_addr m w i = Inr a \<longleftrightarrow>
     (\<exists>n. body_word_count m w = Inr n \<and> i < n) \<and> is_mem w \<and> body_slot w i \<le> usize_max \<and> a = body_slot w i"
  by (auto simp: body_addr_def in_body_Inr body_ptr_eq split: if_splits)

lemma set_body_oop_Inr:
  "set_body_oop m w i v = Inr m' \<longleftrightarrow>
     (\<exists>n. body_word_count m w = Inr n \<and> i < n) \<and> is_mem w \<and> body_slot w i \<le> usize_max
     \<and> body_slot w i mod 8 = 0 \<and> m' = m(body_slot w i := v)"
  by (auto simp: set_body_oop_def in_body_Inr set_raw_body_word_Inr)

text \<open>The whole effect of \<open>store\<close>, as one equivalence.\<close>

lemma store_Inr:
  "store vm obj i val = Inr vm' \<longleftrightarrow>
     (\<exists>n. body_word_count (vm_heap vm) obj = Inr n \<and> i < n) \<and> is_mem obj \<and> body_slot obj i \<le> usize_max
     \<and> body_slot obj i mod 8 = 0
     \<and> (if is_old (vm_layout vm) (oaddr obj) \<and> points_new (vm_layout vm) val
        then \<exists>c'. dirty_for_slot (vm_cards vm) (body_slot obj i) = Inr c'
           \<and> vm' = vm\<lparr>vm_heap := (vm_heap vm)(body_slot obj i := val), vm_cards := c'\<rparr>
        else vm' = vm\<lparr>vm_heap := (vm_heap vm)(body_slot obj i := val)\<rparr>)"
proof -
  have "store vm obj i val = Inr vm' \<longleftrightarrow>
    (\<exists>slot. body_addr (vm_heap vm) obj i = Inr slot \<and> (\<exists>m'. set_body_oop (vm_heap vm) obj i val = Inr m' \<and>
      (if is_old (vm_layout vm) (oaddr obj) \<and> points_new (vm_layout vm) val
       then \<exists>c'. dirty_for_slot (vm_cards vm) slot = Inr c' \<and> vm' = vm\<lparr>vm_heap := m', vm_cards := c'\<rparr>
       else vm' = vm\<lparr>vm_heap := m'\<rparr>)))"
    unfolding store_def points_new_def rbind_Inr_iff mem_addr_eq guard_res_Inr_iff Let_def
    by (auto simp: body_addr_Inr mem_addr_eq rbind_Inr_iff split: if_splits)
  then show ?thesis unfolding body_addr_Inr set_body_oop_Inr by auto
qed


text \<open>The compiled marker obeys the same contract on the slots of the table.\<close>

definition inline_mark :: "card_table \<Rightarrow> nat \<Rightarrow> card_table res" where
  "inline_mark c a =
     guard_res (a < ct_old_start c + ct_n_cards c * 512) Assert_failed (biased_mark c a)"

interpretation compiled_marker: card_marker inline_mark biased_wf
proof unfold_locales
  fix c a c' x assume wf: "biased_wf c" and m: "inline_mark c a = Inr c'" and a: "ct_old_start c \<le> a"
  from m wf a have d: "dirty_for_slot c a = Inr c'"
    by (auto simp: inline_mark_def guard_res_Inr_iff dest: biased_mark_eq [OF wf a])
  show "card_dirty c' a" by (rule slot_marker.mark_dirties [OF _ d a]) simp
  show "card_dirty c' x" if "card_dirty c x" by (rule slot_marker.mark_mono [OF _ d a that]) simp
qed

lemma remembered_heap_upd:
  assumes "remembered slots vm" and "is_old (vm_layout vm) a \<longrightarrow> \<not> points_new (vm_layout vm) v"
  shows "remembered slots (vm\<lparr>vm_heap := (vm_heap vm)(a := v)\<rparr>)"
  using assms by (auto simp: remembered_def)

text \<open>Address arithmetic on tagged pointers.\<close>

lemma is_mem_unat:
  assumes "is_mem w"
  shows "unat w = oaddr w + 1" and "oaddr w mod 4 = 0"
proof -
  have "unat (w AND 3) = 1" using assms by (simp add: is_mem_def oop_tag_def TAG_MASK_def MEM_TAG_def)
  moreover have "unat (w AND 3) = unat w mod 4"
    using take_bit_eq_mask [of 2 "unat w"] by (simp add: unsigned_and_eq take_bit_eq_mod mask_eq_exp_minus_1)
  ultimately have m: "unat w mod 4 = 1" by simp
  then have "1 \<le> w" by (cases "unat w") (simp_all add: word_le_nat_alt)
  then have "oaddr w = unat w - 1" by (simp add: oaddr_def MEM_TAG_def unat_sub)
  with m show "unat w = oaddr w + 1" "oaddr w mod 4 = 0" by presburger+
qed

lemma tagged_slot_addr:
  assumes "is_mem w" and "body_slot w i \<le> usize_max"
  shows "unat (w + word_of_int (int (16 + 8 * i) - 1)) = body_slot w i"
proof -
  have "w + word_of_int (int (16 + 8 * i) - 1) = word_of_nat (body_slot w i)"
    by (simp add: body_slot_def oaddr_def MEM_TAG_def)
  then show ?thesis using assms(2) by (simp only: unat_of_nat) simp
qed

lemma tagged_less_old_start:
  assumes "is_mem w" and "b mod 512 = 0" and "b \<le> usize_max"
  shows "w < word_of_nat b \<longleftrightarrow> oaddr w < b"
proof -
  have "unat (word_of_nat b :: u64) = b" using assms(3) by (simp only: unat_of_nat) simp
  moreover have "oaddr w + 1 < b \<longleftrightarrow> oaddr w < b" using is_mem_unat(2) [OF assms(1)] assms(2) by presburger
  ultimately show ?thesis by (simp add: word_less_nat_alt is_mem_unat(1) [OF assms(1)])
qed

text \<open>The two halves of the emitted sequence.\<close>

definition field_store_code :: "nat \<Rightarrow> int \<Rightarrow> nat \<Rightarrow> a64 list" where
  "field_store_code robj biased rval =
     (if -256 \<le> biased \<and> biased \<le> 255 then [Stur rval robj biased]
      else [Add_imm 19 robj biased, Str rval 19 0])"

lemma exec_field_store:
  assumes "unat (st_regs s robj + word_of_int biased) = a" and "a mod 8 = 0" and "rval \<noteq> 19"
  shows "\<exists>r. a64_exec (field_store_code robj biased rval @ rest) s =
    a64_exec rest (s\<lparr>st_regs := (st_regs s)(19 := r), st_heap := (st_heap s)(a := st_regs s rval)\<rparr>)"
proof (cases "-256 \<le> biased \<and> biased \<le> 255")
  case True
  then have "a64_exec (field_store_code robj biased rval @ rest) s =
    a64_exec rest (s\<lparr>st_regs := (st_regs s)(19 := st_regs s 19), st_heap := (st_heap s)(a := st_regs s rval)\<rparr>)"
    using assms by (simp add: field_store_code_def a64_store_def write_word_def)
  then show ?thesis by blast
next
  case False
  then have "a64_exec (field_store_code robj biased rval @ rest) s =
    a64_exec rest (s\<lparr>st_regs := (st_regs s)(19 := st_regs s robj + word_of_int biased),
      st_heap := (st_heap s)(a := st_regs s rval)\<rparr>)"
    using assms by (auto simp: field_store_code_def a64_store_def write_word_def set_reg_def)
  then show ?thesis by blast
qed

definition barrier_code :: "nat \<Rightarrow> int \<Rightarrow> nat \<Rightarrow> a64 list" where
  "barrier_code robj biased rval =
     [Ldr_block 20 VMREG_OLD_START_OFFSET, Cmp robj 20, B_cond Lo 0, Tst_imm rval 3, B_cond Eq 0,
      Cmp rval 20, B_cond Hs 0, Add_imm 19 robj biased, Lsr_imm 19 19 CARD_SHIFT,
      Ldr_block 20 VMREG_CARD_BASE_BIASED_OFFSET, Add_reg 20 20 19, Strb_zr 20, Bind 0]"

lemma emit_store_field_split:
  "emit_store_field robj off rval b =
     field_store_code robj (off - 1) rval @ (if b then barrier_code robj (off - 1) rval else [])"
  by (simp add: emit_store_field_def field_store_code_def barrier_code_def Let_def)

lemma exec_barrier:
  assumes "robj \<notin> {19, 20}" and "rval \<notin> {19, 20}"
    and "st_block s VMREG_CARD_BASE_BIASED_OFFSET = base_biased (st_cards s)"
    and "unat (st_regs s robj + word_of_int biased) = a"
  defines "B \<equiv> st_block s VMREG_OLD_START_OFFSET"
  shows "st_regs s robj < B \<or> st_regs s rval AND 3 = 0 \<or> B \<le> st_regs s rval \<Longrightarrow>
      \<exists>s'. a64_exec (barrier_code robj biased rval) s = Inr s' \<and> st_heap s' = st_heap s \<and> st_cards s' = st_cards s"
    and "\<not> (st_regs s robj < B \<or> st_regs s rval AND 3 = 0 \<or> B \<le> st_regs s rval) \<Longrightarrow>
      biased_mark (st_cards s) a = Inr c' \<Longrightarrow>
      \<exists>s'. a64_exec (barrier_code robj biased rval) s = Inr s' \<and> st_heap s' = st_heap s \<and> st_cards s' = c'"
proof -
  have ne: "robj \<noteq> 19" "robj \<noteq> 20" "rval \<noteq> 19" "rval \<noteq> 20" using assms(1,2) by auto
  have a: "st_regs s robj + word_of_int biased = word_of_nat a" using assms(4) by (metis of_nat_unat ucast_id)
  show "st_regs s robj < B \<or> st_regs s rval AND 3 = 0 \<or> B \<le> st_regs s rval \<Longrightarrow>
      \<exists>s'. a64_exec (barrier_code robj biased rval) s = Inr s' \<and> st_heap s' = st_heap s \<and> st_cards s' = st_cards s"
    unfolding B_def barrier_code_def using ne
    by (auto simp: set_reg_def not_less)
  show "\<not> (st_regs s robj < B \<or> st_regs s rval AND 3 = 0 \<or> B \<le> st_regs s rval) \<Longrightarrow>
      biased_mark (st_cards s) a = Inr c' \<Longrightarrow>
      \<exists>s'. a64_exec (barrier_code robj biased rval) s = Inr s' \<and> st_heap s' = st_heap s \<and> st_cards s' = c'"
    unfolding B_def barrier_code_def using ne assms(3)
    by (auto simp: set_reg_def not_less not_le a a64_store_card_def biased_mark_def rbind_Inr_iff)
qed

text \<open>A concrete state: the example heap with the old generation starting at \<open>0x2000\<close>.\<close>

definition example_vm :: vm_mem where
  "example_vm =
     \<lparr>vm_heap = example_heap,
      vm_layout = \<lparr>hl_eden = \<lparr>sb_start = 0x1000, sb_end = 0x1800\<rparr>, hl_from = \<lparr>sb_start = 0x1800, sb_end = 0x1c00\<rparr>,
        hl_to = \<lparr>sb_start = 0x1c00, sb_end = 0x2000\<rparr>, hl_old = \<lparr>sb_start = 0x2000, sb_end = 0x4000\<rparr>,
        hl_old_start = 0x2000\<rparr>,
      vm_cards = \<lparr>ct_backing = replicate 16 1, ct_base = 0x8000, ct_old_start = 0x2000\<rparr>\<rparr>"

lemmas example_vm_eval =
  example_vm_def store_def body_addr_def set_body_oop_def in_body_def set_raw_body_word_def body_word_count_def
  heap_eval is_old_def is_new_def dirty_for_slot_def ct_card_index_def ct_entry_store_def ct_n_cards_def CARD_SHIFT_def

lemma example_vm_remembered: "remembered {0x3010, 0x3018, 0x3020} example_vm"
  by (simp add: remembered_def points_new_def example_vm_def example_heap_def is_old_def is_new_def oaddr_def
      is_mem_def oop_tag_def tag_defs)

section \<open>Properties\<close>

text \<open>C9: the store choke point keeps the remembered set. If every old-generation slot that refers
  into the new generation lies on a dirty card before a store, then the same holds after it, for a
  receiver that lies entirely in one generation; the store puts the value into exactly one heap word
  and cleans no card.\<close>

theorem store_keeps_remembered:
  assumes "store vm obj i val = Inr vm'" and "remembered slots vm"
    and "ct_old_start (vm_cards vm) = hl_old_start (vm_layout vm)"
    and "is_old (vm_layout vm) (body_slot obj i) \<longleftrightarrow> is_old (vm_layout vm) (oaddr obj)"
  shows "remembered slots vm' \<and> vm_heap vm' = (vm_heap vm)(body_slot obj i := val)
    \<and> (\<forall>a. card_dirty (vm_cards vm) a \<longrightarrow> card_dirty (vm_cards vm') a)"
proof (cases "is_old (vm_layout vm) (oaddr obj) \<and> points_new (vm_layout vm) val")
  case True
  let ?a = "body_slot obj i"
  obtain c' where c': "dirty_for_slot (vm_cards vm) ?a = Inr c'"
    "vm' = vm\<lparr>vm_heap := (vm_heap vm)(?a := val), vm_cards := c'\<rparr>"
    using assms(1) True by (auto simp: store_Inr)
  have os: "ct_old_start (vm_cards vm) \<le> ?a" using c'(1) by (simp add: dirty_for_slot_Inr)
  show ?thesis
    using slot_marker.marked_store_remembered [OF assms(2) _ c'(1) os, of val]
      slot_marker.mark_mono [OF _ c'(1) os] c'(2) by simp
next
  case False
  let ?a = "body_slot obj i"
  have vm': "vm' = vm\<lparr>vm_heap := (vm_heap vm)(?a := val)\<rparr>"
    using assms(1) False unfolding store_Inr by presburger
  show ?thesis using remembered_heap_upd [OF assms(2), of ?a val] False assms(4) vm' by simp
qed

theorem store_keeps_remembered_witness:
  "\<exists>vm'. store example_vm 0x3001 1 0x1001 = Inr vm' \<and> remembered {0x3010, 0x3018, 0x3020} vm'
     \<and> vm_heap vm' 0x3018 = 0x1001"
proof -
  have "is_ok (store example_vm 0x3001 1 0x1001)" by (simp add: example_vm_eval)
  then obtain vm' where vm': "store example_vm 0x3001 1 0x1001 = Inr vm'" by (rule is_okE)
  have "ct_old_start (vm_cards example_vm) = hl_old_start (vm_layout example_vm)"
    "is_old (vm_layout example_vm) (body_slot 0x3001 1) \<longleftrightarrow> is_old (vm_layout example_vm) (oaddr 0x3001)"
    by (simp_all add: example_vm_eval body_slot_def oaddr_def)
  from store_keeps_remembered [OF vm' example_vm_remembered this] vm' show ?thesis
    by (auto simp: body_slot_def oaddr_def MEM_TAG_def)
qed

text \<open>The conservative barrier repairs the remembered set. After any raw writes to the words of
  one old object (the heap before and after agree outside its extent), running the barrier on that
  object re-establishes the remembered set.\<close>

lemma post_write_barrier_restores:
  assumes "remembered slots vm0" and "post_write_barrier (vm0\<lparr>vm_heap := m\<rparr>) obj = Inr vm'"
    and "instance_size_words m obj = Inr n" and "is_mem obj"
    and "\<forall>a. a < oaddr obj \<or> oaddr obj + n * 8 \<le> a \<longrightarrow> m a = vm_heap vm0 a"
    and "is_old (vm_layout vm0) (oaddr obj)"
  shows "remembered slots vm'"
proof -
  obtain c' where c': "record_multistores (vm_cards vm0) (oaddr obj) (oaddr obj + n * 8) = Inr c'"
    and vm': "vm' = vm0\<lparr>vm_heap := m, vm_cards := c'\<rparr>"
    using assms(2-4,6)
    by (auto simp: post_write_barrier_def mem_addr_eq rbind_Inr_iff uadd_Inr_iff WORD_SIZE_def)
  show ?thesis
    unfolding remembered_def vm'
  proof (intro ballI impI)
    fix a assume "a \<in> slots" and a: "is_old (vm_layout (vm0\<lparr>vm_heap := m, vm_cards := c'\<rparr>)) a \<and>
      points_new (vm_layout (vm0\<lparr>vm_heap := m, vm_cards := c'\<rparr>)) (vm_heap (vm0\<lparr>vm_heap := m, vm_cards := c'\<rparr>) a)"
    show "card_dirty (vm_cards (vm0\<lparr>vm_heap := m, vm_cards := c'\<rparr>)) a"
    proof (cases "oaddr obj \<le> a \<and> a < oaddr obj + n * 8")
      case True
      then show ?thesis using record_multistores_Inr(3) [OF c'] by simp
    next
      case False
      then have "m a = vm_heap vm0 a" using assms(5) by (meson not_le)
      then have "card_dirty (vm_cards vm0) a" using assms(1) a \<open>a \<in> slots\<close> by (simp add: remembered_def)
      then show ?thesis using record_multistores_Inr(2) [OF c'] by simp
    qed
  qed
qed


end
