(* ===== verification/Scavenge.thy ===== *)
theory Scavenge
  imports Cards Lookup
begin

unbundle bit_operations_syntax

text \<open>
  The copying collector of the young generation (\<open>src/src/memory/scavenge.rs\<close>), its root walk
  (\<open>for_each_root\<close> of \<open>roots.rs\<close>), its stall report (\<open>stall.rs\<close>) and the counters it keeps
  (\<open>stats.rs\<close>).

  The heap words are threaded beside \<open>gc_state\<close>, the part of \<open>Universe\<close> a collection touches, so that
  \<open>scavenge_oop\<close> is a visitor of the field walk of \<open>ObjectHeap\<close>. The roots outside the heap are a
  record of their own, as \<open>scavenge_oop\<close> never reads them. The words that \<open>each_code_root\<close> visits
  (slots of compiled frames, literal pools) are a list. The build is the checked one: debug assertions
  count and the vacated spaces are poisoned. Not modelled: the environment switches that print or
  verify, \<open>dbg_oop\<close>, the pause times; the counters are unbounded.
\<close>

section \<open>Ages\<close>

type_synonym age_table = "nat list"

definition age_table_new :: age_table where
  "age_table_new = replicate 128 0"

definition age_table_clear :: "age_table \<Rightarrow> age_table" where
  "age_table_clear t = replicate 128 0"

definition age_table_record :: "age_table \<Rightarrow> u8 \<Rightarrow> nat \<Rightarrow> age_table res" where
  "age_table_record t age bytes =
     guard_res (unat age < length t) Index_out_of_bounds
       (rbind (uadd (t ! unat age) bytes) (\<lambda>n. Inr (t[unat age := n])))"

fun threshold_scan :: "age_table \<Rightarrow> nat \<Rightarrow> nat \<Rightarrow> nat list \<Rightarrow> nat res" where
  "threshold_scan t half cumulative [] = Inr 127"
| "threshold_scan t half cumulative (age # ages) =
     guard_res (age < length t) Index_out_of_bounds
       (rbind (uadd cumulative (t ! age)) (\<lambda>c.
          if c > half then Inr age else threshold_scan t half c ages))"

definition compute_threshold :: "age_table \<Rightarrow> nat \<Rightarrow> nat res" where
  "compute_threshold t survivor_capacity = threshold_scan t (survivor_capacity div 2) 0 [0..<128]"

text \<open>\<open>age.saturating_add(1)\<close> on a \<open>u8\<close>.\<close>

definition age_succ :: "u8 \<Rightarrow> u8" where
  "age_succ age = (if age = 255 then 255 else age + 1)"

section \<open>State\<close>

datatype gc_phase = Mutator | ScavengeCopy | ScavengePromote

record gc_stall =
  gst_requested_bytes :: nat
  gst_phase :: gc_phase
  gst_eden_used :: nat
  gst_eden_capacity :: nat
  gst_from_used :: nat
  gst_to_used :: nat
  gst_survivor_capacity :: nat
  gst_old_used :: nat
  gst_old_committed :: nat
  gst_old_reserved :: nat
  gst_scavenge_count :: nat
  gst_full_gc_count :: nat
  gst_last_survivor_bytes :: nat
  gst_last_promoted_bytes :: nat
  gst_last_reclaimed_bytes :: nat

record gc_stats =
  st_scavenge_count :: nat
  st_full_gc_count :: nat
  st_bytes_allocated :: nat
  st_bytes_copied :: nat
  st_bytes_promoted :: nat
  st_tenuring_threshold :: nat
  st_last_reclaimed_bytes :: nat
  st_gc_under_compiled :: nat

record gc_state =
  gs_layout :: heap_layout
  gs_eden :: eden
  gs_from :: survivor_space
  gs_to :: survivor_space
  gs_old :: old_gen
  gs_offsets :: offset_table
  gs_cards :: card_table
  gs_age_table :: age_table
  gs_tenuring_threshold :: nat
  gs_gc_enabled :: bool
  gs_promotion_guarantee_met :: bool
  gs_pending_stall :: "gc_stall option"
  gs_gc_stats :: gc_stats
  gs_compiled_depth :: nat
  gs_lookup_cache :: "cache_entry list"

record scavenge_report =
  sr_survivor_bytes :: nat
  sr_promoted_bytes :: nat
  sr_new_threshold :: nat

definition gc_stall_snapshot :: "gc_state \<Rightarrow> nat \<Rightarrow> gc_phase \<Rightarrow> gc_stall res" where
  "gc_stall_snapshot g requested_bytes phase =
     rbind (usub (ed_top (gs_eden g)) (ed_start (gs_eden g))) (\<lambda>eden_used.
     rbind (usub (ed_end (gs_eden g)) (ed_start (gs_eden g))) (\<lambda>eden_capacity.
     rbind (usub (sv_top (gs_from g)) (sv_start (gs_from g))) (\<lambda>from_used.
     rbind (usub (sv_top (gs_to g)) (sv_start (gs_to g))) (\<lambda>to_used.
     rbind (usub (sv_end (gs_from g)) (sv_start (gs_from g))) (\<lambda>survivor_capacity.
     rbind (usub (og_top (gs_old g)) (sb_start (og_bounds (gs_old g)))) (\<lambda>old_used.
     rbind (usub (og_committed_end (gs_old g)) (sb_start (og_bounds (gs_old g)))) (\<lambda>old_committed.
     rbind (sb_len (og_bounds (gs_old g))) (\<lambda>old_reserved.
       Inr \<lparr>gst_requested_bytes = requested_bytes, gst_phase = phase,
            gst_eden_used = eden_used, gst_eden_capacity = eden_capacity,
            gst_from_used = from_used, gst_to_used = to_used, gst_survivor_capacity = survivor_capacity,
            gst_old_used = old_used, gst_old_committed = old_committed, gst_old_reserved = old_reserved,
            gst_scavenge_count = st_scavenge_count (gs_gc_stats g),
            gst_full_gc_count = st_full_gc_count (gs_gc_stats g),
            gst_last_survivor_bytes = 0, gst_last_promoted_bytes = 0,
            gst_last_reclaimed_bytes = st_last_reclaimed_bytes (gs_gc_stats g)\<rparr>))))))))"

section \<open>Sizing an object whose klass may have moved\<close>

definition umul :: "nat \<Rightarrow> nat \<Rightarrow> nat res" where
  "umul a b = (if a * b \<le> usize_max then Inr (a * b) else Inl Arith_overflow)"

definition effective_klass :: "heap \<Rightarrow> oop \<Rightarrow> oop res" where
  "effective_klass m candidate =
     rbind (expect (mem_try_from candidate)) (\<lambda>k.
     rbind (is_forwarded m k) (\<lambda>f.
     rbind (if f then obj_forwardee m k else Inr candidate) (\<lambda>target.
     rbind (typed_try_from Klass m target) expect)))"

definition size_words_for_klass :: "heap \<Rightarrow> oop \<Rightarrow> oop \<Rightarrow> nat res" where
  "size_words_for_klass m obj klass =
     rbind (non_indexable_size m klass) (\<lambda>nis.
     rbind (klass_format m klass) (\<lambda>f.
       case f of
         Slots \<Rightarrow> Inr nis | Klass \<Rightarrow> Inr nis | Double \<Rightarrow> Inr nis | Process \<Rightarrow> Inr nis
       | IndexableOops \<Rightarrow>
           rbind (uadd nis 1) (\<lambda>x. rbind (raw_size_slot m obj nis) (\<lambda>n. uadd x n))
       | Closure \<Rightarrow>
           rbind (uadd nis 1) (\<lambda>x. rbind (raw_size_slot m obj nis) (\<lambda>n. uadd x n))
       | Context \<Rightarrow>
           rbind (uadd nis 1) (\<lambda>x. rbind (raw_size_slot m obj nis) (\<lambda>n. uadd x n))
       | IndexableBytes \<Rightarrow>
           rbind (raw_size_slot m obj nis) (\<lambda>nbytes. rbind (uadd nis 1) (\<lambda>x. uadd x (div_ceil nbytes 8)))
       | Method \<Rightarrow>
           rbind (raw_size_slot m obj nis) (\<lambda>nbytes. rbind (uadd nis 1) (\<lambda>x. uadd x (div_ceil nbytes 8)))))"

definition object_size_for_copy :: "heap \<Rightarrow> oop \<Rightarrow> nat res" where
  "object_size_for_copy m obj =
     rbind (klass_oop m obj) (\<lambda>k. rbind (effective_klass m k) (size_words_for_klass m obj))"

section \<open>Copying one object\<close>

definition record_stall :: "nat \<Rightarrow> gc_phase \<Rightarrow> gc_state \<Rightarrow> gc_state res" where
  "record_stall requested_bytes phase g =
     guard_res (phase \<noteq> ScavengePromote \<or> \<not> gs_promotion_guarantee_met g) Assert_failed
       (case gs_pending_stall g of
          Some e \<Rightarrow> Inr g
        | None \<Rightarrow> rbind (gc_stall_snapshot g requested_bytes phase) (\<lambda>e. Inr (g\<lparr>gs_pending_stall := Some e\<rparr>)))"

definition promote_alloc :: "nat \<Rightarrow> gc_state \<Rightarrow> (nat \<times> gc_state) option res" where
  "promote_alloc size_bytes g =
     rbind (old_allocate (\<lambda>_ u. u) (gs_old g) (gs_offsets g) size_bytes ()) (\<lambda>r.
       case r of
         None \<Rightarrow> Inr None
       | Some (a, og, ot, u) \<Rightarrow> Inr (Some (a, g\<lparr>gs_old := og, gs_offsets := ot\<rparr>)))"

text \<open>The destination of a copy: its address and whether it is in the old generation; \<open>None\<close> when the
  old generation has no room.\<close>

definition copy_dest :: "bool \<Rightarrow> nat \<Rightarrow> gc_state \<Rightarrow> (nat \<times> bool \<times> gc_state) option res" where
  "copy_dest age_promote size_bytes g =
     (if age_promote then
        rbind (promote_alloc size_bytes g) (\<lambda>r. Inr (map_option (\<lambda>(a, g'). (a, True, g')) r))
      else
        rbind (uadd (sv_top (gs_to g)) size_bytes) (\<lambda>new_top.
          if new_top > sv_end (gs_to g) then
            rbind (promote_alloc size_bytes g) (\<lambda>r. Inr (map_option (\<lambda>(a, g'). (a, True, g')) r))
          else Inr (Some (sv_top (gs_to g), False, g\<lparr>gs_to := (gs_to g)\<lparr>sv_top := new_top\<rparr>\<rparr>))))"

definition copy_words :: "heap \<Rightarrow> nat \<Rightarrow> nat \<Rightarrow> nat \<Rightarrow> heap" where
  "copy_words m from dest n = (\<lambda>x. if dest \<le> x \<and> x < dest + n then m (from + (x - dest)) else m x)"

text \<open>The header of the copy and the bookkeeping for it.\<close>

definition finish_copy :: "bool \<Rightarrow> nat \<Rightarrow> oop \<Rightarrow> u8 \<Rightarrow> nat \<Rightarrow> heap \<times> gc_state \<Rightarrow> (heap \<times> gc_state) res" where
  "finish_copy promoted dest_addr dest age size_bytes = (\<lambda>(m, g).
     if promoted then
       rbind (uadd dest_addr size_bytes) (\<lambda>e.
       rbind (record_multistores (gs_cards g) dest_addr e) (\<lambda>c'.
         Inr (m, g\<lparr>gs_cards := c', gs_gc_stats := (gs_gc_stats g)
                    \<lparr>st_bytes_promoted := st_bytes_promoted (gs_gc_stats g) + size_bytes\<rparr>\<rparr>)))
     else
       let new_age = min (age_succ age) MARK_AGE_MAX in
       rbind (obj_mark m dest) (\<lambda>mk.
       rbind (mark_with_age mk new_age) (\<lambda>mk'.
       rbind (obj_set_mark m dest mk') (\<lambda>m'.
       rbind (age_table_record (gs_age_table g) new_age size_bytes) (\<lambda>t'.
         Inr (m', g\<lparr>gs_age_table := t', gs_gc_stats := (gs_gc_stats g)
                     \<lparr>st_bytes_copied := st_bytes_copied (gs_gc_stats g) + size_bytes\<rparr>\<rparr>))))))"

fun scavenge_oop :: "gc_state visitor" where
  "scavenge_oop v (m, g) =
     (if \<not> is_mem v then Inr (v, m, g)
      else rbind (mem_addr v) (\<lambda>addr.
        if is_old (gs_layout g) addr then Inr (v, m, g)
        else if addr \<ge> sv_start (gs_to g) \<and> addr < sv_top (gs_to g) then Inl Explicit_panic
        else rbind (expect (mem_try_from v)) (\<lambda>obj.
          rbind (is_forwarded m obj) (\<lambda>f.
          if f then rbind (obj_forwardee m obj) (\<lambda>t. Inr (t, m, g))
          else rbind (object_size_for_copy m obj) (\<lambda>size_words.
            rbind (umul size_words 8) (\<lambda>size_bytes.
            rbind (obj_mark m obj) (\<lambda>mk.
            let age = mark_age mk; age_promote = unat (age_succ age) \<ge> gs_tenuring_threshold g in
            rbind (copy_dest age_promote size_bytes g) (\<lambda>r.
            case r of
              None \<Rightarrow> rbind (record_stall size_bytes ScavengePromote g) (\<lambda>g'. Inr (v, m, g'))
            | Some (dest_addr, promoted, g1) \<Rightarrow>
                rbind (oop_from_raw (word_of_nat dest_addr + MEM_TAG)) (\<lambda>dest_oop.
                rbind (expect (mem_try_from dest_oop)) (\<lambda>dest.
                rbind (finish_copy promoted dest_addr dest age size_bytes (copy_words m addr dest_addr size_bytes, g1))
                  (\<lambda>(m2, g2).
                rbind (install_forwarding m2 obj dest_oop) (\<lambda>m3. Inr (dest_oop, m3, g2)))))))))))))"

declare scavenge_oop.simps [simp del]

definition scan_body :: "oop \<Rightarrow> heap \<times> gc_state \<Rightarrow> (heap \<times> gc_state) res" where
  "scan_body obj s = rbind (obj_klass (fst s) obj) (\<lambda>klass. for_each_oop_field scavenge_oop obj klass s)"

section \<open>The dirty cards\<close>

text \<open>The closure \<open>touch\<close> of \<open>scan_slots_in_window\<close>: the last component is \<open>still_new\<close>.\<close>

definition touch :: "nat \<Rightarrow> nat \<Rightarrow> nat \<Rightarrow> oop \<Rightarrow> (heap \<Rightarrow> oop \<Rightarrow> heap res) \<Rightarrow>
    heap \<times> gc_state \<times> bool \<Rightarrow> (heap \<times> gc_state \<times> bool) res" where
  "touch lo hi addr old put = (\<lambda>(m, g, still).
     if addr < lo \<or> addr \<ge> hi then Inr (m, g, still)
     else rbind (scavenge_oop old (m, g)) (\<lambda>(nv, m1, g1).
          rbind (put m1 nv) (\<lambda>m2.
          if is_mem nv then rbind (mem_addr nv) (\<lambda>a. Inr (m2, g1, still \<or> is_new (gs_layout g1) a))
          else Inr (m2, g1, still))))"

fun touch_named :: "nat \<Rightarrow> nat \<Rightarrow> oop \<Rightarrow> nat list \<Rightarrow> heap \<times> gc_state \<times> bool \<Rightarrow> (heap \<times> gc_state \<times> bool) res" where
  "touch_named lo hi obj [] s = Inr s"
| "touch_named lo hi obj (i # is) s =
     rbind (body_addr (fst s) obj i) (\<lambda>addr.
     rbind (body_oop (fst s) obj i) (\<lambda>old.
     rbind (touch lo hi addr old (\<lambda>m v. set_body_oop m obj i v) s) (touch_named lo hi obj is)))"

fun touch_tail :: "nat \<Rightarrow> nat \<Rightarrow> oop \<Rightarrow> nat \<Rightarrow> nat list \<Rightarrow> heap \<times> gc_state \<times> bool \<Rightarrow>
    (heap \<times> gc_state \<times> bool) res" where
  "touch_tail lo hi obj tail0 [] s = Inr s"
| "touch_tail lo hi obj tail0 (i # is) s =
     rbind (rbind (uadd tail0 i) (body_addr (fst s) obj)) (\<lambda>addr.
     rbind (tail_oop_at (fst s) obj i) (\<lambda>old.
     rbind (touch lo hi addr old (\<lambda>m v. set_tail_oop_at m obj i v) s) (touch_tail lo hi obj tail0 is)))"

definition window_tail :: "nat \<Rightarrow> nat \<Rightarrow> oop \<Rightarrow> heap \<times> gc_state \<times> bool \<Rightarrow> (heap \<times> gc_state \<times> bool) res" where
  "window_tail lo hi obj s =
     rbind (indexable_len (fst s) obj) (\<lambda>len.
       if len > 0 then
         rbind (tail_start_word (fst s) obj) (\<lambda>tail0.
         rbind (body_addr (fst s) obj tail0) (\<lambda>tail_base.
         let first = div_ceil (lo - tail_base) WORD_SIZE;
             last = min (div_ceil (hi - tail_base) WORD_SIZE) len in
         touch_tail lo hi obj tail0 [first..<last] s))
       else Inr s)"

definition scan_slots_in_window :: "nat \<Rightarrow> nat \<Rightarrow> oop \<Rightarrow> oop \<Rightarrow> heap \<times> gc_state \<Rightarrow>
    (heap \<times> gc_state \<times> bool) res" where
  "scan_slots_in_window lo hi obj klass = (\<lambda>(m, g).
     rbind (non_indexable_size m klass) (\<lambda>nis.
     rbind (usub nis HEADER_WORDS) (\<lambda>named.
     rbind (rbind (mem_addr obj) (\<lambda>a. uadd a KLASS_OFFSET)) (\<lambda>klass_addr.
     rbind (klass_oop m obj) (\<lambda>klass_field.
     rbind (touch lo hi klass_addr klass_field (\<lambda>m v. set_klass_raw m obj v) (m, g, False)) (\<lambda>s.
     rbind (klass_format (fst s) klass) (\<lambda>f.
       case f of
         Slots \<Rightarrow> touch_named lo hi obj [0..<named] s
       | Klass \<Rightarrow> touch_named lo hi obj [0..<named] s
       | Double \<Rightarrow> Inr s
       | Process \<Rightarrow> Inr s
       | IndexableBytes \<Rightarrow> touch_named lo hi obj [0..<named] s
       | Method \<Rightarrow> touch_named lo hi obj [0..<named] s
       | _ \<Rightarrow> rbind (touch_named lo hi obj [0..<named] s) (window_tail lo hi obj))))))))"

text \<open>The walk over the objects of one card. A class that claims a zero fixed size would stop it from
  advancing, so it is partial.\<close>

partial_function (option) walk_card :: "nat \<Rightarrow> nat \<Rightarrow> nat \<Rightarrow> nat \<Rightarrow> heap \<times> gc_state \<times> bool \<Rightarrow>
    (heap \<times> gc_state \<times> bool) res option" where
  "walk_card card_base card_end old_top_before addr s =
     (if addr < card_end \<and> addr < old_top_before then
        cbind (Some (oop_from_raw (word_of_nat addr + MEM_TAG))) (\<lambda>v.
        cbind (Some (expect (mem_try_from v))) (\<lambda>obj.
        cbind (Some (obj_klass (fst s) obj)) (\<lambda>klass.
        cbind (Some (size_words_for_klass (fst s) obj klass)) (\<lambda>size_words.
        cbind (Some (umul size_words 8)) (\<lambda>size_bytes.
        cbind (Some (uadd addr size_bytes)) (\<lambda>obj_end.
        cbind (Some (if obj_end > card_base
                     then rbind (scan_slots_in_window card_base card_end obj klass (fst s, fst (snd s)))
                            (\<lambda>(m, g, sn). Inr (m, g, snd (snd s) \<or> sn))
                     else Inr s)) (\<lambda>s'.
        walk_card card_base card_end old_top_before obj_end s')))))))
      else returns s)"

definition scan_card :: "nat \<Rightarrow> nat \<Rightarrow> heap \<times> gc_state \<Rightarrow> (heap \<times> gc_state) res option" where
  "scan_card old_top_before i = (\<lambda>(m, g).
     let card_base = ct_card_base (gs_cards g) i; card_end = card_base + CARD_SIZE in
     cbind (Some (ot_resolve (gs_offsets g) i)) (\<lambda>addr.
     cbind (walk_card card_base card_end old_top_before addr (m, g, False)) (\<lambda>(m', g', still_points_new).
       if \<not> still_points_new \<and> card_end \<le> old_top_before then
         cbind (Some (ct_set_clean (gs_cards g') i)) (\<lambda>c'. returns (m', g'\<lparr>gs_cards := c'\<rparr>))
       else returns (m', g'))))"

fun scan_cards :: "nat \<Rightarrow> nat list \<Rightarrow> heap \<times> gc_state \<Rightarrow> (heap \<times> gc_state) res option" where
  "scan_cards old_top_before [] s = returns s"
| "scan_cards old_top_before (i # is) s =
     (if ct_card_base (gs_cards (snd s)) i \<ge> old_top_before then returns s
      else cbind (Some (ct_is_dirty (gs_cards (snd s)) i)) (\<lambda>d.
        if \<not> d then scan_cards old_top_before is s
        else cbind (scan_card old_top_before i s) (scan_cards old_top_before is)))"

definition dirty_card_scan :: "nat \<Rightarrow> heap \<times> gc_state \<Rightarrow> (heap \<times> gc_state) res option" where
  "dirty_card_scan old_top_before s = scan_cards old_top_before [0..<ct_n_cards (gs_cards (snd s))] s"

section \<open>The roots\<close>

text \<open>\<open>rs_universe\<close> are the well-known singletons, selectors and klasses of \<open>Universe\<close> in the order of
  the walk.\<close>

record root_set =
  rs_universe :: "oop list"
  rs_symbols :: "oop option list"
  rs_stack :: "oop list"
  rs_sp :: nat
  rs_handles :: "oop list"
  rs_mint_stack :: "oop list"
  rs_regs_method :: "oop option"

fun visit_roots :: "'x visitor \<Rightarrow> oop list \<Rightarrow> heap \<times> 'x \<Rightarrow> (oop list \<times> heap \<times> 'x) res" where
  "visit_roots f [] s = Inr ([], s)"
| "visit_roots f (v # vs) s =
     rbind (f v s) (\<lambda>(v', s'). rbind (visit_roots f vs s') (\<lambda>(vs', s''). Inr (v' # vs', s'')))"

fun visit_symbols :: "'x visitor \<Rightarrow> oop option list \<Rightarrow> heap \<times> 'x \<Rightarrow> (oop option list \<times> heap \<times> 'x) res" where
  "visit_symbols f [] s = Inr ([], s)"
| "visit_symbols f (b # bs) s =
     rbind (case b of None \<Rightarrow> Inr (None, s) | Some v \<Rightarrow> rbind (f v s) (\<lambda>(v', s'). Inr (Some v', s'))) (\<lambda>(b', s').
     rbind (visit_symbols f bs s') (\<lambda>(bs', s''). Inr (b' # bs', s'')))"

definition for_each_root :: "'x visitor \<Rightarrow> root_set \<Rightarrow> heap \<times> 'x \<Rightarrow> (root_set \<times> heap \<times> 'x) res" where
  "for_each_root f r s =
     rbind (visit_roots f (rs_universe r) s) (\<lambda>(us, s).
     rbind (visit_symbols f (rs_symbols r) s) (\<lambda>(bs, s).
     guard_res (rs_sp r \<le> length (rs_stack r)) Index_out_of_bounds
     (rbind (visit_roots f (take (rs_sp r) (rs_stack r)) s) (\<lambda>(ss, s).
     rbind (visit_roots f (rs_handles r) s) (\<lambda>(hs, s).
     rbind (visit_roots f (rs_mint_stack r) s) (\<lambda>(ms, s).
     rbind (visit_symbols f [rs_regs_method r] s) (\<lambda>(rm, s).
       Inr (r\<lparr>rs_universe := us, rs_symbols := bs, rs_stack := ss @ drop (rs_sp r) (rs_stack r),
              rs_handles := hs, rs_mint_stack := ms, rs_regs_method := hd rm\<rparr>, s))))))))"

section \<open>The cycle\<close>

text \<open>One iteration of the Cheney loop: the klass field first, then the body, then the next address.
  \<open>Inl\<close> of the inner sum is a stall.\<close>

definition scan_object :: "nat \<Rightarrow> heap \<times> gc_state \<Rightarrow> ((gc_stall + nat) \<times> heap \<times> gc_state) res" where
  "scan_object addr = (\<lambda>(m, g).
     rbind (oop_from_raw (word_of_nat addr + MEM_TAG)) (\<lambda>v.
     rbind (expect (mem_try_from v)) (\<lambda>obj.
     rbind (klass_oop m obj) (\<lambda>klass_field.
     rbind (scavenge_oop klass_field (m, g)) (\<lambda>(k', m1, g1).
     rbind (set_klass_raw m1 obj k') (\<lambda>m2.
     rbind (scan_body obj (m2, g1)) (\<lambda>(m3, g3).
     case gs_pending_stall g3 of
       Some e \<Rightarrow> Inr (Inl e, m3, g3\<lparr>gs_pending_stall := None\<rparr>)
     | None \<Rightarrow>
         rbind (rbind (typed_try_from Klass m3 k') expect) (\<lambda>klass.
         rbind (size_words_for_klass m3 obj klass) (\<lambda>size_words.
         rbind (umul size_words 8) (\<lambda>size_bytes.
         rbind (uadd addr size_bytes) (\<lambda>next_addr. Inr (Inr next_addr, m3, g3))))))))))))"

partial_function (option) cheney :: "nat \<Rightarrow> nat \<Rightarrow> heap \<times> gc_state \<Rightarrow>
    ((gc_stall + unit) \<times> heap \<times> gc_state) res option" where
  "cheney to_scan old_scan s =
     (if to_scan < sv_top (gs_to (snd s)) then
        cbind (Some (scan_object to_scan s)) (\<lambda>(r, s').
          case r of Inl e \<Rightarrow> returns (Inl e, s') | Inr a \<Rightarrow> cheney a old_scan s')
      else if old_scan < og_top (gs_old (snd s)) then
        cbind (Some (scan_object old_scan s)) (\<lambda>(r, s').
          case r of Inl e \<Rightarrow> returns (Inl e, s') | Inr a \<Rightarrow> cheney to_scan a s')
      else returns (Inr (), s))"

function poison_from :: "nat \<Rightarrow> nat \<Rightarrow> heap \<Rightarrow> heap" where
  "poison_from addr end_addr m =
     (if addr < end_addr then poison_from (addr + WORD_SIZE) end_addr (m(addr := POISON)) else m)"
  by pat_completeness auto
termination by (relation "measure (\<lambda>(a, e, m). e - a)") (auto simp: WORD_SIZE_def)

declare poison_from.simps [simp del]

definition poison_range :: "nat \<Rightarrow> nat \<Rightarrow> heap \<Rightarrow> heap res" where
  "poison_range start end_addr m =
     guard_res (start \<le> end_addr \<and> (end_addr - start) mod WORD_SIZE = 0) Assert_failed
       (Inr (poison_from start end_addr m))"

text \<open>Steps 5 and 6: the swap, the vacated ranges, the lookup cache and the new threshold.\<close>

definition scavenge_finish :: "nat \<Rightarrow> heap \<times> gc_state \<Rightarrow> (scavenge_report \<times> heap \<times> gc_state) res" where
  "scavenge_finish old_top_before = (\<lambda>(m, g).
     let vacated_eden = (ed_start (gs_eden g), ed_top (gs_eden g));
         vacated_from = (sv_start (gs_from g), sv_top (gs_from g));
         g1 = g\<lparr>gs_from := gs_to g, gs_to := gs_from g\<rparr>;
         g2 = g1\<lparr>gs_eden := (gs_eden g1)\<lparr>ed_top := ed_start (gs_eden g1)\<rparr>, gs_to := survivor_reset (gs_to g1)\<rparr> in
     rbind (poison_range (fst vacated_eden) (snd vacated_eden) m) (\<lambda>m1.
     rbind (poison_range (fst vacated_from) (snd vacated_from) m1) (\<lambda>m2.
     let g3 = g2\<lparr>gs_lookup_cache := cache_flush (gs_lookup_cache g2)\<rparr> in
     rbind (usub (sv_end (gs_from g3)) (sv_start (gs_from g3))) (\<lambda>survivor_capacity.
     rbind (compute_threshold (gs_age_table g3) survivor_capacity) (\<lambda>new_threshold.
     rbind (usub (og_top (gs_old g3)) old_top_before) (\<lambda>promoted_bytes.
     let g4 = g3\<lparr>gs_tenuring_threshold := new_threshold,
                 gs_gc_stats := (gs_gc_stats g3)
                   \<lparr>st_scavenge_count := st_scavenge_count (gs_gc_stats g3) + 1,
                    st_tenuring_threshold := new_threshold\<rparr>\<rparr> in
     Inr (\<lparr>sr_survivor_bytes = sum_list (gs_age_table g3), sr_promoted_bytes = promoted_bytes,
           sr_new_threshold = new_threshold\<rparr>, m2, g4)))))))"

definition scavenge_begin :: "gc_state \<Rightarrow> gc_state res" where
  "scavenge_begin g =
     guard_res (gs_gc_enabled g) Assert_failed
     (rbind (usub (ed_top (gs_eden g)) (ed_start (gs_eden g))) (\<lambda>eden_used_before.
      Inr (g\<lparr>gs_gc_stats := (gs_gc_stats g)
               \<lparr>st_gc_under_compiled := st_gc_under_compiled (gs_gc_stats g)
                  + (if gs_compiled_depth g > 0 then 1 else 0),
                st_bytes_allocated := st_bytes_allocated (gs_gc_stats g) + eden_used_before\<rparr>,
             gs_age_table := age_table_clear (gs_age_table g),
             gs_to := survivor_reset (gs_to g)\<rparr>)))"

definition scavenge_roots :: "nat \<Rightarrow> root_set \<Rightarrow> oop list \<Rightarrow> heap \<times> gc_state \<Rightarrow>
    (root_set \<times> oop list \<times> heap \<times> gc_state) res option" where
  "scavenge_roots old_top_before r code s =
     cbind (Some (for_each_root scavenge_oop r s)) (\<lambda>(r', s).
     cbind (dirty_card_scan old_top_before s) (\<lambda>s.
     cbind (Some (visit_roots scavenge_oop code s)) (\<lambda>(code', s). returns (r', code', s))))"

definition scavenge :: "root_set \<Rightarrow> oop list \<Rightarrow> heap \<times> gc_state \<Rightarrow>
    ((gc_stall + scavenge_report) \<times> root_set \<times> oop list \<times> heap \<times> gc_state) res option" where
  "scavenge r code = (\<lambda>(m, g).
     cbind (Some (scavenge_begin g)) (\<lambda>g0.
     let old_top_before = og_top (gs_old g0) in
     cbind (scavenge_roots old_top_before r code (m, g0)) (\<lambda>(r', code', m1, g1).
     case gs_pending_stall g1 of
       Some e \<Rightarrow> returns (Inl e, r', code', m1, g1\<lparr>gs_pending_stall := None\<rparr>)
     | None \<Rightarrow>
         cbind (cheney (sv_start (gs_to g1)) old_top_before (m1, g1)) (\<lambda>(e, s2).
         case e of
           Inl e \<Rightarrow> returns (Inl e, r', code', s2)
         | Inr u \<Rightarrow>
             cbind (Some (scavenge_finish old_top_before s2)) (\<lambda>(rep, m3, g3).
               returns (Inr rep, r', code', m3, g3))))))"

end
