(* ===== verification/HeapViews.thy ===== *)
theory HeapViews
  imports Scavenge
begin

unbundle bit_operations_syntax

text \<open>
  Objects as the collector sees them: the shape, size and oop slots of the object at an address, when an
  object is well formed among a set of live ones, and the fact the collector rests on: an object keeps its
  shape and size through any view that only renames the addresses in its oop words.
\<close>

section \<open>Objects of a heap\<close>

definition mem_oop :: "nat \<Rightarrow> oop" where
  "mem_oop a = word_of_nat a + MEM_TAG"

definition oshape :: "heap \<Rightarrow> nat \<Rightarrow> oop \<times> nat \<times> format" where
  "oshape m a = projr (shape m (mem_oop a))"

definition isz :: "heap \<Rightarrow> nat \<Rightarrow> nat" where
  "isz m a = projr (instance_size_words m (mem_oop a))"

definition olen :: "heap \<Rightarrow> nat \<Rightarrow> nat" where
  "olen m a =
     (case raw_size_slot m (mem_oop a) (fst (snd (oshape m a))) of Inr n \<Rightarrow> n | Inl _ \<Rightarrow> 0)"

text \<open>The word indices of an object that hold oops: the klass field and the words of the field walk.\<close>

definition slot_idx :: "heap \<Rightarrow> nat \<Rightarrow> nat set" where
  "slot_idx m a =
     (case oshape m a of (k, nis, f) \<Rightarrow> insert 1 ((\<lambda>i. i + 2) ` set (oop_words f nis (olen m a))))"

definition live_val :: "nat set \<Rightarrow> oop \<Rightarrow> bool" where
  "live_val L v \<longleftrightarrow> is_smi v \<or> is_mem v \<and> oaddr v \<in> L"

definition wf_obj :: "heap \<Rightarrow> nat set \<Rightarrow> nat \<Rightarrow> bool" where
  "wf_obj m L a \<longleftrightarrow>
     a mod 8 = 0 \<and> mark_from_word (m a) = Inr (m a)
     \<and> is_ok (shape m (mem_oop a)) \<and> is_ok (instance_size_words m (mem_oop a))
     \<and> 2 \<le> fst (snd (oshape m a)) \<and> 4 \<le> isz m (oaddr (m (a + 8)))
     \<and> a + 8 * isz m a \<le> usize_max
     \<and> (\<forall>i \<in> slot_idx m a. live_val L (m (a + 8 * i)))"

lemma is_mem_mem_oop [simp]: "a mod 8 = 0 \<Longrightarrow> is_mem (mem_oop a)"
proof -
  assume a: "a mod 8 = 0"
  have "take_bit 2 (word_of_nat (a + 1) :: u64) = word_of_nat (take_bit 2 (a + 1))"
    by (metis of_nat_take_bit take_bit_of_nat)
  also have "take_bit 2 (a + 1) = 1"
  proof -
    have "a mod 4 = 0" using a by presburger
    then show ?thesis by (simp add: take_bit_eq_mod) presburger
  qed
  finally show ?thesis
    by (simp add: is_mem_def oop_tag_def mem_oop_def tag_defs take_bit_eq_mask mask_eq_exp_minus_1 add.commute)
qed

lemma oaddr_mem_oop [simp]: "a \<le> usize_max \<Longrightarrow> oaddr (mem_oop a) = a"
  by (simp add: oaddr_def mem_oop_def unat_of_nat)

lemma mem_oop_oaddr [simp]: "mem_oop (oaddr v) = v"
  by (simp add: oaddr_def mem_oop_def)

lemma mem_not_smi: "is_mem v \<Longrightarrow> \<not> is_smi v"
  by (simp add: is_mem_def is_smi_def tag_defs)

lemma live_val_valid: "live_val L v \<Longrightarrow> oop_from_raw v = Inr v"
  by (auto simp: live_val_def oop_from_raw_def is_mem_def is_smi_def oop_tag_def tag_defs)

lemma mem_valid: "is_mem v \<Longrightarrow> oop_from_raw v = Inr v"
  by (auto simp: oop_from_raw_def is_mem_def oop_tag_def tag_defs)

lemma body_slot_aligned: "oaddr w mod 8 = 0 \<Longrightarrow> body_slot w i mod 8 = 0"
  unfolding body_slot_def by presburger

lemma raw_body_word_eval:
  "is_mem w \<Longrightarrow> oaddr w mod 8 = 0 \<Longrightarrow> body_slot w i \<le> usize_max \<Longrightarrow> raw_body_word m w i = Inr (m (body_slot w i))"
  by (subst raw_body_word_Inr) (simp add: body_slot_aligned)

lemma set_raw_body_word_eval:
  "is_mem w \<Longrightarrow> oaddr w mod 8 = 0 \<Longrightarrow> body_slot w i \<le> usize_max \<Longrightarrow>
     set_raw_body_word m w i v = Inr (m(body_slot w i := v))"
  by (subst set_raw_body_word_Inr) (simp add: body_slot_aligned)

lemma klass_oop_eval:
  "is_mem w \<Longrightarrow> oaddr w mod 8 = 0 \<Longrightarrow> oaddr w + 8 \<le> usize_max \<Longrightarrow> oop_from_raw (m (oaddr w + 8)) = Inr v \<Longrightarrow>
     klass_oop m w = Inr v"
  by (simp add: klass_oop_def word_ptr_def mem_addr_eq uadd_def KLASS_OFFSET_def read_word_def)

lemma set_klass_raw_eval:
  "is_mem w \<Longrightarrow> oaddr w mod 8 = 0 \<Longrightarrow> oaddr w + 8 \<le> usize_max \<Longrightarrow> set_klass_raw m w v = Inr (m(oaddr w + 8 := v))"
  by (simp add: set_klass_raw_def word_ptr_def mem_addr_eq uadd_def KLASS_OFFSET_def write_word_def)

lemma mark_word_raw_eval:
  "is_mem w \<Longrightarrow> oaddr w mod 8 = 0 \<Longrightarrow> oaddr w \<le> usize_max \<Longrightarrow> mark_word_raw m w = Inr (m (oaddr w))"
  by (simp add: mark_word_raw_def word_ptr_def mem_addr_eq uadd_def MARK_OFFSET_def read_word_def)

lemma obj_set_mark_eval:
  "is_mem w \<Longrightarrow> oaddr w mod 8 = 0 \<Longrightarrow> oaddr w \<le> usize_max \<Longrightarrow> obj_set_mark m w v = Inr (m(oaddr w := v))"
  by (simp add: obj_set_mark_def word_ptr_def mem_addr_eq uadd_def MARK_OFFSET_def write_word_def)

lemma install_forwarding_eval:
  "is_mem w \<Longrightarrow> oaddr w mod 8 = 0 \<Longrightarrow> oaddr w \<le> usize_max \<Longrightarrow> install_forwarding m w v = Inr (m(oaddr w := v))"
  by (simp add: install_forwarding_def word_ptr_def mem_addr_eq uadd_def MARK_OFFSET_def write_word_def)

lemma mark_not_forwarded: "mark_from_word w = Inr w' \<Longrightarrow> \<not> word_is_forwarded w"
  by (auto simp: mark_from_word_def word_is_forwarded_def guard_res_Inr_iff tag_defs)

lemma mem_word_forwarded: "is_mem w \<Longrightarrow> word_is_forwarded w"
  by (simp add: word_is_forwarded_def is_mem_def oop_tag_def)

lemma smi_field_Inr:
  "smi_field m w i = Inr v \<Longrightarrow> is_mem w \<and> is_smi (m (body_slot w i)) \<and> v = smi_value (m (body_slot w i))
     \<and> body_slot w i \<le> usize_max \<and> body_slot w i mod 8 = 0"
  by (auto simp: smi_field_def rbind_Inr_iff raw_body_word_Inr oop_from_raw_def smi_try_from_def guard_res_Inr_iff
      expect_Inr_iff split: if_splits)

lemma smi_field_eval:
  "is_mem w \<Longrightarrow> oaddr w mod 8 = 0 \<Longrightarrow> body_slot w i \<le> usize_max \<Longrightarrow> is_smi (m (body_slot w i)) \<Longrightarrow>
     smi_field m w i = Inr (smi_value (m (body_slot w i)))"
  by (simp add: smi_field_def raw_body_word_eval live_val_valid [of "{}", unfolded live_val_def] smi_try_from_def)

definition tail_format :: "format \<Rightarrow> bool" where
  "tail_format f \<longleftrightarrow> f \<in> {IndexableOops, Closure, Context}"

definition byte_format :: "format \<Rightarrow> bool" where
  "byte_format f \<longleftrightarrow> f \<in> {IndexableBytes, Method}"

definition size_from :: "format \<Rightarrow> nat \<Rightarrow> nat \<Rightarrow> nat" where
  "size_from f nis n = (if tail_format f then nis + 1 + n else if byte_format f then nis + 1 + div_ceil n 8 else nis)"

lemma size_of_shape_eval:
  assumes "tail_format f \<or> byte_format f \<Longrightarrow> raw_size_slot m w nis = Inr n" and "size_from f nis n \<le> usize_max"
  shows "size_of_shape m w (k, nis, f) = Inr (size_from f nis n)"
  using assms by (cases f) (auto simp: size_from_def tail_format_def byte_format_def uadd_def)

lemma size_words_for_klass_shape:
  "non_indexable_size m k = Inr nis \<Longrightarrow> klass_format m k = Inr f \<Longrightarrow> size_of_shape m w (k', nis, f) = Inr n \<Longrightarrow>
     size_words_for_klass m w k = Inr n"
  by (cases f) (auto simp: size_words_for_klass_def rbind_Inr_iff uadd_Inr_iff)

text \<open>What \<open>wf_obj\<close> says, with the shape named.\<close>

lemma wf_objE:
  assumes "wf_obj m L a"
  obtains k nis f where "oshape m a = (k, nis, f)" "shape m (mem_oop a) = Inr (k, nis, f)" "k = m (a + 8)"
    "is_mem k" "oaddr k \<in> L" "2 \<le> nis" "isz m a = size_from f nis (olen m a)" "isz m a \<le> usize_max"
    "instance_size_words m (mem_oop a) = Inr (isz m a)" "a mod 8 = 0" "a \<le> usize_max"
    "tail_format f \<or> byte_format f \<Longrightarrow> raw_size_slot m (mem_oop a) nis = Inr (olen m a)"
    "typed_try_from Klass m k = Inr (Some k)" "4 \<le> isz m (oaddr k)"
proof -
  have a: "a mod 8 = 0" "a \<le> usize_max" using assms by (simp_all add: wf_obj_def)
  obtain k nis f where sh: "shape m (mem_oop a) = Inr (k, nis, f)"
    using assms by (metis wf_obj_def is_okE prod_cases3)
  then have os: "oshape m a = (k, nis, f)" by (simp add: oshape_def)
  from sh have ok: "obj_klass m (mem_oop a) = Inr k" by (simp add: shape_Inr)
  then have k: "k = m (a + 8)" using obj_klass_Inr [OF ok] a by simp
  have t: "typed_try_from Klass m k = Inr (Some k)"
    using ok k by (auto simp: obj_klass_def rbind_Inr_iff expect_Inr_iff typed_try_from_def mem_try_from_def
        split: if_splits option.splits)
  then have km: "is_mem k" by (auto simp: typed_try_from_def mem_try_from_def split: if_splits)
  have "1 \<in> slot_idx m a" by (simp add: slot_idx_def os)
  then have "live_val L (m (a + 8 * 1))" using assms unfolding wf_obj_def by blast
  then have kL: "oaddr k \<in> L" using km k mem_not_smi by (auto simp: live_val_def)
  have nis: "2 \<le> nis" using assms os by (simp add: wf_obj_def)
  obtain n where n: "instance_size_words m (mem_oop a) = Inr n" using assms by (metis wf_obj_def is_okE)
  then have i: "isz m a = n" by (simp add: isz_def)
  have sz: "size_of_shape m (mem_oop a) (k, nis, f) = Inr n" using n sh by (simp add: instance_size_words_shape)
  have r: "raw_size_slot m (mem_oop a) nis = Inr (olen m a)" if "tail_format f \<or> byte_format f"
    using sz that os by (cases f) (auto simp: tail_format_def byte_format_def olen_def rbind_Inr_iff)
  have "n = size_from f nis (olen m a)"
    using sz r by (cases f) (auto simp: size_from_def tail_format_def byte_format_def rbind_Inr_iff uadd_Inr_iff)
  moreover have "isz m a \<le> usize_max" using assms by (simp add: wf_obj_def)
  ultimately show thesis
    using that os sh k km kL nis i n a r t assms by (simp add: wf_obj_def)
qed

lemma oop_words_bound:
  "i \<in> set (oop_words f nis n) \<Longrightarrow> 2 \<le> nis \<Longrightarrow> i + 2 < size_from f nis n \<and> i + 2 \<noteq> nis"
  by (cases f) (auto simp: size_from_def tail_format_def byte_format_def)

lemma slot_idx_bound:
  assumes "wf_obj m L a" and "i \<in> slot_idx m a"
  shows "1 \<le> i \<and> i < isz m a"
proof -
  from assms(1) obtain k nis f where "oshape m a = (k, nis, f)" "2 \<le> nis" "isz m a = size_from f nis (olen m a)"
    by (rule wf_objE)
  then show ?thesis
    using assms(2) oop_words_bound [of _ f nis "olen m a"]
    by (auto simp: slot_idx_def size_from_def split: if_splits)
qed

lemma isz_ge2: "wf_obj m L a \<Longrightarrow> 2 \<le> isz m a"
  by (erule wf_objE) (auto simp: size_from_def)

section \<open>Two views of the same objects\<close>

text \<open>\<open>V a l\<close>: the object at \<open>a\<close> of the heap \<open>H\<close> can be read at \<open>l\<close> in the heap \<open>m\<close>. Its oop words there
  may name their targets by any address that reads as the same object; every other word is equal.\<close>

definition word_view :: "(nat \<Rightarrow> nat \<Rightarrow> bool) \<Rightarrow> bool \<Rightarrow> oop \<Rightarrow> oop \<Rightarrow> bool" where
  "word_view V s v v' \<longleftrightarrow> (if s \<and> is_mem v then is_mem v' \<and> V (oaddr v) (oaddr v') else v' = v)"

definition heap_view :: "heap \<Rightarrow> nat set \<Rightarrow> (nat \<Rightarrow> nat \<Rightarrow> bool) \<Rightarrow> heap \<Rightarrow> bool" where
  "heap_view H L V m \<longleftrightarrow>
     (\<forall>a \<in> L. wf_obj H L a) \<and>
     (\<forall>a \<in> L. \<forall>l. V a l \<longrightarrow> l mod 8 = 0 \<and> l + 8 * isz H a \<le> usize_max \<and>
        (\<forall>i. 1 \<le> i \<and> i < isz H a \<longrightarrow> word_view V (i \<in> slot_idx H a) (H (a + 8 * i)) (m (l + 8 * i))))"

lemma heap_viewD:
  assumes "heap_view H L V m" "a \<in> L" "V a l"
  shows "l mod 8 = 0" "l + 8 * isz H a \<le> usize_max" "l \<le> usize_max"
    and "1 \<le> i \<Longrightarrow> i < isz H a \<Longrightarrow> word_view V (i \<in> slot_idx H a) (H (a + 8 * i)) (m (l + 8 * i))"
    and "1 \<le> i \<Longrightarrow> i < isz H a \<Longrightarrow> \<not> is_mem (H (a + 8 * i)) \<Longrightarrow> m (l + 8 * i) = H (a + 8 * i)"
    and "wf_obj H L a"
  using assms unfolding heap_view_def word_view_def by force+

lemma body_slot_mem_oop: "l \<le> usize_max \<Longrightarrow> body_slot (mem_oop l) i = l + 8 * (i + 2)"
  by (simp add: body_slot_def)

lemma view_smi_field:
  assumes hv: "heap_view H L V m" and a: "a \<in> L" "V a l" and i: "i + 2 < isz H a"
    and f: "smi_field H (mem_oop a) i = Inr v"
  shows "smi_field m (mem_oop l) i = Inr v"
proof -
  note d = heap_viewD [OF hv a]
  have au: "a \<le> usize_max" using d(6) by (auto elim: wf_objE)
  have s: "is_smi (H (a + 8 * (i + 2)))" "v = smi_value (H (a + 8 * (i + 2)))"
    using smi_field_Inr [OF f] body_slot_mem_oop [OF au, of i] by simp_all
  have e: "m (l + 8 * (i + 2)) = H (a + 8 * (i + 2))"
    using d(5) [of "i + 2"] i mem_not_smi s(1) by (metis add_leD2 le_add2 one_le_numeral order_trans)
  have b: "body_slot (mem_oop l) i = l + 8 * (i + 2)" by (rule body_slot_mem_oop [OF d(3)])
  have "l + 8 * (i + 2) \<le> l + 8 * isz H a" using i by simp
  then have "l + 8 * (i + 2) \<le> usize_max" using d(2) by linarith
  then show ?thesis
    using smi_field_eval [of "mem_oop l" i m] d(1,3) s e b by simp
qed

lemma view_klass_oop:
  assumes hv: "heap_view H L V m" and a: "a \<in> L" "V a l"
  shows "klass_oop m (mem_oop l) = Inr (m (l + 8))" and "is_mem (m (l + 8))"
    and "V (oaddr (H (a + 8))) (oaddr (m (l + 8)))" and "oaddr (H (a + 8)) \<in> L"
proof -
  note d = heap_viewD [OF hv a]
  from d(6) obtain k nis f where k: "oshape H a = (k, nis, f)" "k = H (a + 8)" "is_mem k" "oaddr k \<in> L"
    by (rule wf_objE)
  have "1 \<in> slot_idx H a" using k(1) by (simp add: slot_idx_def)
  then have "word_view V True (H (a + 8)) (m (l + 8))" using d(4) [of 1] isz_ge2 [OF d(6)] by simp
  then show m: "is_mem (m (l + 8))" "V (oaddr (H (a + 8))) (oaddr (m (l + 8)))"
    using k by (simp_all add: word_view_def)
  show "oaddr (H (a + 8)) \<in> L" using k by simp
  have "l + 8 \<le> usize_max" using d(2) isz_ge2 [OF d(6)] by linarith
  then show "klass_oop m (mem_oop l) = Inr (m (l + 8))"
    using klass_oop_eval [of "mem_oop l" m] d(1,3) mem_valid [OF m(1)] by simp
qed

lemma view_typed:
  assumes hv: "heap_view H L V m" and k: "oaddr k \<in> L" "is_mem k" "V (oaddr k) (oaddr k')" "is_mem k'"
    and t: "typed_try_from Klass H k = Inr (Some k)"
  shows "typed_try_from Klass m k' = Inr (Some k')"
proof -
  note d = heap_viewD [OF hv k(1,3)]
  let ?kk = "H (oaddr k + 8)" and ?kk' = "m (oaddr k' + 8)"
  note c = view_klass_oop [OF hv k(1,3)]
  have kl: "klass_oop H k = Inr ?kk" "is_mem ?kk"
    using t klass_oop_Inr by (auto simp: typed_try_from_def mem_try_from_def rbind_Inr_iff format_of_klass_field_def
        split: if_splits option.splits)
  have fmt: "format_of_klass_field H ?kk = Inr (Some Klass)"
    using t k(2) kl(1) by (auto simp: typed_try_from_def mem_try_from_def rbind_Inr_iff split: if_splits)
  have big: "4 \<le> isz H (oaddr ?kk)" using d(6) by (auto elim: wf_objE)
  note dd = heap_viewD [OF hv c(4,3)]
  have bs: "body_slot ?kk 0 = oaddr ?kk + 8 * 2" "body_slot ?kk' 0 = oaddr ?kk' + 8 * 2"
    by (simp_all add: body_slot_def)
  have "is_smi (H (oaddr ?kk + 8 * 2))" 
    using fmt kl(2) bs by (auto simp: format_of_klass_field_def mem_try_from_def rbind_Inr_iff raw_body_word_Inr
        KLASS_FORMAT_INDEX_def smi_try_from_def split: if_splits option.splits)
  then have e: "m (oaddr ?kk' + 8 * 2) = H (oaddr ?kk + 8 * 2)"
    using dd(5) [of 2] big mem_not_smi by force
  have "oaddr ?kk' + 16 \<le> usize_max" using dd(2) big by linarith
  then have r': "raw_body_word m ?kk' 0 = Inr (H (oaddr ?kk + 8 * 2))"
    using raw_body_word_eval [of ?kk' 0 m] c(2) dd(1) e bs by simp
  have r: "raw_body_word H ?kk 0 = Inr (H (oaddr ?kk + 8 * 2))"
    using fmt kl(2) bs by (auto simp: format_of_klass_field_def mem_try_from_def rbind_Inr_iff raw_body_word_Inr
        KLASS_FORMAT_INDEX_def)
  have "format_of_klass_field m ?kk' = Inr (Some Klass)"
    using fmt kl(2) c(2) r r' by (simp add: format_of_klass_field_def mem_try_from_def KLASS_FORMAT_INDEX_def)
  then show ?thesis using c(1) k(4) by (simp add: typed_try_from_def mem_try_from_def)
qed

lemma view_klass_fields:
  assumes hv: "heap_view H L V m" and k: "oaddr k \<in> L" "is_mem k" "V (oaddr k) (oaddr k')" "is_mem k'"
    and big: "4 \<le> isz H (oaddr k)"
  shows "non_indexable_size H k = Inr nis \<Longrightarrow> non_indexable_size m k' = Inr nis"
    and "klass_format H k = Inr f \<Longrightarrow> klass_format m k' = Inr f"
  using view_smi_field [OF hv k(1,3), of 0] view_smi_field [OF hv k(1,3), of 1] big k
  by (auto simp: non_indexable_size_def klass_format_def klass_format_smi_value_def rbind_Inr_iff
      KLASS_FORMAT_INDEX_def KLASS_NON_INDEXABLE_SIZE_INDEX_def)

text \<open>Through any view, an object has the shape and the size it has in \<open>H\<close>, whichever address its
  klass field holds.\<close>

lemma view_shape:
  assumes hv: "heap_view H L V m" and a: "a \<in> L" "V a l" and os: "oshape H a = (k, nis, f)"
  shows "shape m (mem_oop l) = Inr (m (l + 8), nis, f)"
    and "tail_format f \<or> byte_format f \<Longrightarrow> raw_size_slot m (mem_oop l) nis = Inr (olen H a)"
    and "instance_size_words m (mem_oop l) = Inr (isz H a)"
    and "V (oaddr k) (oaddr k') \<Longrightarrow> is_mem k' \<Longrightarrow> size_words_for_klass m (mem_oop l) k' = Inr (isz H a)"
    and "V (oaddr k) (oaddr k') \<Longrightarrow> is_mem k' \<Longrightarrow> non_indexable_size m k' = Inr nis"
    and "V (oaddr k) (oaddr k') \<Longrightarrow> is_mem k' \<Longrightarrow> klass_format m k' = Inr f"
    and "V (oaddr k) (oaddr k') \<Longrightarrow> is_mem k' \<Longrightarrow> typed_try_from Klass m k' = Inr (Some k')"
    and "2 \<le> nis" and "isz H a = size_from f nis (olen H a)" and "k = H (a + 8)"
proof -
  note d = heap_viewD [OF hv a]
  from d(6) obtain k0 nis0 f0 where w: "oshape H a = (k0, nis0, f0)" "shape H (mem_oop a) = Inr (k0, nis0, f0)"
    "k0 = H (a + 8)" "is_mem k0" "oaddr k0 \<in> L" "2 \<le> nis0" "isz H a = size_from f0 nis0 (olen H a)"
    "isz H a \<le> usize_max" "typed_try_from Klass H k0 = Inr (Some k0)" "4 \<le> isz H (oaddr k0)"
    "tail_format f0 \<or> byte_format f0 \<Longrightarrow> raw_size_slot H (mem_oop a) nis0 = Inr (olen H a)"
    by (rule wf_objE) blast
  have eq: "k0 = k" "nis0 = nis" "f0 = f" using os w(1) by auto
  note w = w [unfolded eq]
  show "2 \<le> nis" "isz H a = size_from f nis (olen H a)" "k = H (a + 8)" using w by simp_all
  note c = view_klass_oop [OF hv a]
  note kf = view_klass_fields [OF hv w(5,4) _ _ w(10)]
  have kH: "non_indexable_size H k = Inr nis" "klass_format H k = Inr f" using w(2) by (simp_all add: shape_Inr)
  show ty: "typed_try_from Klass m k' = Inr (Some k')" if "V (oaddr k) (oaddr k')" "is_mem k'" for k'
    using view_typed [OF hv w(5,4) that w(9)] .
  show ni: "non_indexable_size m k' = Inr nis" "klass_format m k' = Inr f" if "V (oaddr k) (oaddr k')" "is_mem k'" for k'
    using kf [OF that] kH by simp_all
  have Vk: "V (oaddr k) (oaddr (m (l + 8)))" using c(3) w(3) by simp
  have "obj_klass m (mem_oop l) = Inr (m (l + 8))"
    using c(1) ty [OF Vk c(2)] by (simp add: obj_klass_def)
  with ni [OF Vk c(2)] show sh: "shape m (mem_oop l) = Inr (m (l + 8), nis, f)" by (simp add: shape_Inr)
  show r: "raw_size_slot m (mem_oop l) nis = Inr (olen H a)" if tb: "tail_format f \<or> byte_format f"
  proof -
    obtain v where "smi_field H (mem_oop a) (nis - 2) = Inr v" "olen H a = i64_as_usize v"
      using w(11) [OF tb] w(6) by (auto simp: raw_size_slot_def HEADER_WORDS_def rbind_Inr_iff)
    moreover have "nis - 2 + 2 < isz H a" using w(6,7) tb by (auto simp: size_from_def)
    ultimately show ?thesis
      using view_smi_field [OF hv a] w(6) by (simp add: raw_size_slot_def HEADER_WORDS_def)
  qed
  have sz: "size_of_shape m (mem_oop l) (k', nis, f) = Inr (isz H a)" for k'
    using size_of_shape_eval [OF r] w(7,8) by simp
  then show "instance_size_words m (mem_oop l) = Inr (isz H a)" using sh by (simp add: instance_size_words_shape)
  show "size_words_for_klass m (mem_oop l) k' = Inr (isz H a)" if "V (oaddr k) (oaddr k')" "is_mem k'" for k'
    using size_words_for_klass_shape [OF ni [OF that] sz] .
qed


end
