(* ===== verification/ScavengeInv.thy ===== *)
theory ScavengeInv
  imports HeapViews "HOL-Library.Sublist"
begin

text \<open>
  The invariant of a collection in progress: what the heap holds when some of the live young objects have
  been copied and some of the slots updated, and what the spaces, the object-start table, the cards and
  the age table hold beside it; with the two steps, writing a slot and copying an object, that keep it.
\<close>

section \<open>The heap during a collection\<close>

text \<open>
  \<open>scav_env\<close> fixes what a collection started from: the heap, the live objects (every old object and
  a set of young ones closed under reference), the extents of the old objects and the state of the
  spaces. A forwarding map \<open>p\<close> sends the young objects copied so far to their copies.
\<close>

record scav_env =
  ev_heap :: heap
  ev_live :: "nat set"
  ev_olds :: "(nat \<times> nat) list"
  ev_gs :: gc_state

type_synonym fwd_map = "nat \<rightharpoonup> nat"

abbreviation ev_new :: "scav_env \<Rightarrow> nat \<Rightarrow> bool" where
  "ev_new e a \<equiv> is_new (gs_layout (ev_gs e)) a"

definition fwd :: "fwd_map \<Rightarrow> oop \<Rightarrow> oop" where
  "fwd p v = (if is_mem v then (case p (oaddr v) of None \<Rightarrow> v | Some b \<Rightarrow> mem_oop b) else v)"

definition readable :: "fwd_map \<Rightarrow> nat \<Rightarrow> nat \<Rightarrow> bool" where
  "readable p a l \<longleftrightarrow> l = a \<or> p a = Some l"

text \<open>Where an object will live after the collection, once that is known.\<close>

definition home :: "scav_env \<Rightarrow> fwd_map \<Rightarrow> nat \<Rightarrow> nat option" where
  "home e p a = (if ev_new e a then p a else Some a)"

definition slot :: "scav_env \<Rightarrow> fwd_map \<Rightarrow> nat \<Rightarrow> oop \<Rightarrow> bool" where
  "slot e p s v \<longleftrightarrow>
     (\<exists>a \<in> ev_live e. \<exists>l. \<exists>i \<in> slot_idx (ev_heap e) a.
        home e p a = Some l \<and> s = l + 8 * i \<and> v = ev_heap e (a + 8 * i))"

definition resolved :: "scav_env \<Rightarrow> fwd_map \<Rightarrow> oop \<Rightarrow> bool" where
  "resolved e p v \<longleftrightarrow> (is_mem v \<and> ev_new e (oaddr v) \<longrightarrow> oaddr v \<in> dom p)"

definition apart :: "nat \<Rightarrow> nat \<Rightarrow> nat \<Rightarrow> nat \<Rightarrow> bool" where
  "apart l n l' n' \<longleftrightarrow> l + 8 * n \<le> l' \<or> l' + 8 * n' \<le> l"

definition map_ok :: "scav_env \<Rightarrow> fwd_map \<Rightarrow> bool" where
  "map_ok e p \<longleftrightarrow>
     (\<forall>a b. p a = Some b \<longrightarrow> a \<in> ev_live e \<and> ev_new e a \<and> b \<noteq> a \<and> b mod 8 = 0 \<and> b + 8 * isz (ev_heap e) a \<le> usize_max)
     \<and> (\<forall>a \<in> ev_live e. \<forall>b \<in> ev_live e. \<forall>l l'. readable p a l \<and> readable p b l' \<and> (a, l) \<noteq> (b, l') \<longrightarrow>
          apart l (isz (ev_heap e) a) l' (isz (ev_heap e) b))"

definition heap_inv :: "scav_env \<Rightarrow> fwd_map \<Rightarrow> nat set \<Rightarrow> heap \<Rightarrow> bool" where
  "heap_inv e p S m \<longleftrightarrow>
     (\<forall>a \<in> ev_live e. wf_obj (ev_heap e) (ev_live e) a) \<and> map_ok e p
     \<and> (\<forall>a \<in> ev_live e. m a = (case p a of None \<Rightarrow> ev_heap e a | Some b \<Rightarrow> mem_oop b))
     \<and> (\<forall>a \<in> ev_live e. \<forall>i. ev_new e a \<and> 1 \<le> i \<and> i < isz (ev_heap e) a \<longrightarrow> m (a + 8 * i) = ev_heap e (a + 8 * i))
     \<and> (\<forall>a \<in> ev_live e. \<forall>l i. home e p a = Some l \<and> 1 \<le> i \<and> i < isz (ev_heap e) a \<longrightarrow>
          m (l + 8 * i) = (if l + 8 * i \<in> S then fwd p (ev_heap e (a + 8 * i)) else ev_heap e (a + 8 * i)))
     \<and> (\<forall>s \<in> S. \<exists>v. slot e p s v \<and> resolved e p v)"

lemma heap_invD:
  assumes "heap_inv e p S m"
  shows "a \<in> ev_live e \<Longrightarrow> wf_obj (ev_heap e) (ev_live e) a"
    and "map_ok e p"
    and "a \<in> ev_live e \<Longrightarrow> m a = (case p a of None \<Rightarrow> ev_heap e a | Some b \<Rightarrow> mem_oop b)"
    and "a \<in> ev_live e \<Longrightarrow> ev_new e a \<Longrightarrow> 1 \<le> i \<Longrightarrow> i < isz (ev_heap e) a \<Longrightarrow> m (a + 8 * i) = ev_heap e (a + 8 * i)"
    and "a \<in> ev_live e \<Longrightarrow> home e p a = Some l \<Longrightarrow> 1 \<le> i \<Longrightarrow> i < isz (ev_heap e) a \<Longrightarrow>
      m (l + 8 * i) = (if l + 8 * i \<in> S then fwd p (ev_heap e (a + 8 * i)) else ev_heap e (a + 8 * i))"
    and "s \<in> S \<Longrightarrow> \<exists>v. slot e p s v \<and> resolved e p v"
  using assms by (auto simp: heap_inv_def)

lemma map_okD:
  assumes "map_ok e p"
  shows "p a = Some b \<Longrightarrow> a \<in> ev_live e" "p a = Some b \<Longrightarrow> ev_new e a" "p a = Some b \<Longrightarrow> b mod 8 = 0"
    "p a = Some b \<Longrightarrow> b + 8 * isz (ev_heap e) a \<le> usize_max"
    "a \<in> ev_live e \<Longrightarrow> b \<in> ev_live e \<Longrightarrow> readable p a l \<Longrightarrow> readable p b l' \<Longrightarrow> (a, l) \<noteq> (b, l') \<Longrightarrow>
       apart l (isz (ev_heap e) a) l' (isz (ev_heap e) b)"
    "p a = Some b \<Longrightarrow> b \<noteq> a"
  using assms unfolding map_ok_def by blast+

lemma home_readable: "home e p a = Some l \<Longrightarrow> readable p a l"
  by (auto simp: home_def readable_def split: if_splits)

lemma apart_words:
  "apart l n l' n' \<Longrightarrow> i < n \<Longrightarrow> j < n' \<Longrightarrow> l + 8 * i \<noteq> l' + 8 * j"
  by (auto simp: apart_def)

text \<open>An address is a word of one object at one place only.\<close>

lemma word_unique:
  assumes "map_ok e p" "a \<in> ev_live e" "b \<in> ev_live e" "readable p a l" "readable p b l'"
    and "i < isz (ev_heap e) a" "j < isz (ev_heap e) b" "l + 8 * i = l' + 8 * j"
  shows "a = b \<and> l = l' \<and> i = j"
proof -
  have "(a, l) = (b, l')" using map_okD(5) [OF assms(1-5)] apart_words assms(6-8) by blast
  then show ?thesis using assms(8) by simp
qed

lemma slot_unique:
  assumes hi: "heap_inv e p S m" and s: "slot e p (l + 8 * i) v" and a: "a \<in> ev_live e" "readable p a l"
    and i: "i < isz (ev_heap e) a"
  shows "home e p a = Some l \<and> i \<in> slot_idx (ev_heap e) a \<and> v = ev_heap e (a + 8 * i)"
proof -
  from s obtain b l' j where b: "b \<in> ev_live e" "j \<in> slot_idx (ev_heap e) b" "home e p b = Some l'"
    "l + 8 * i = l' + 8 * j" "v = ev_heap e (b + 8 * j)" by (auto simp: slot_def)
  have "j < isz (ev_heap e) b" using slot_idx_bound [OF heap_invD(1) [OF hi b(1)] b(2)] by simp
  then have "a = b \<and> l = l' \<and> i = j"
    using word_unique [OF heap_invD(2) [OF hi] a(1) b(1) a(2) home_readable [OF b(3)]] i b(4) by blast
  then show ?thesis using b by simp
qed

lemma fwd_readable: "is_mem v \<Longrightarrow> readable p (oaddr v) (oaddr (fwd p v)) \<or> (\<exists>b. p (oaddr v) = Some b)"
  by (auto simp: fwd_def readable_def split: option.splits)

lemma heap_inv_view:
  assumes hi: "heap_inv e p S m"
  shows "heap_view (ev_heap e) (ev_live e) (readable p) m"
  unfolding heap_view_def
proof (intro conjI ballI allI impI)
  let ?H = "ev_heap e"
  fix a assume a: "a \<in> ev_live e"
  show w: "wf_obj ?H (ev_live e) a" using heap_invD(1) [OF hi a] .
  fix l assume l: "readable p a l"
  note mo = heap_invD(2) [OF hi]
  have al: "a mod 8 = 0" "a + 8 * isz ?H a \<le> usize_max" using w by (simp_all add: wf_obj_def)
  then show lb: "l mod 8 = 0" "l + 8 * isz ?H a \<le> usize_max"
    using l map_okD(3,4) [OF mo] by (auto simp: readable_def)
  fix i assume i: "1 \<le> i \<and> i < isz ?H a"
  let ?v = "?H (a + 8 * i)"
  show "word_view (readable p) (i \<in> slot_idx ?H a) ?v (m (l + 8 * i))"
  proof (cases "home e p a = Some l \<and> l + 8 * i \<in> S")
    case False
    have "m (l + 8 * i) = ?v"
    proof (cases "home e p a = Some l")
      case True
      then show ?thesis using False i heap_invD(5) [OF hi a] by auto
    next
      case h: False
      have "ev_new e a \<and> l = a"
        using l h map_okD(2) [OF mo, of a l] by (auto simp: readable_def home_def split: if_splits)
      then show ?thesis using i heap_invD(4) [OF hi a] by simp
    qed
    then show ?thesis by (simp add: word_view_def readable_def)
  next
    case True
    then obtain v where "slot e p (l + 8 * i) v" using heap_invD(6) [OF hi] by blast
    then have si: "i \<in> slot_idx ?H a" using slot_unique [OF hi _ a l] i by blast
    have e: "m (l + 8 * i) = fwd p ?v" using True i heap_invD(5) [OF hi a] by auto
    show ?thesis
    proof (cases "is_mem ?v")
      case mem: True
      show ?thesis
      proof (cases "p (oaddr ?v)")
        case None
        then show ?thesis using si mem e by (simp add: word_view_def fwd_def readable_def)
      next
        case (Some b)
        have "b mod 8 = 0" "b \<le> usize_max" using map_okD(3,4) [OF mo Some] by simp_all
        then show ?thesis using si mem e Some by (simp add: word_view_def fwd_def readable_def)
      qed
    next
      case nm: False
      then show ?thesis using e by (simp add: word_view_def fwd_def)
    qed
  qed
qed

lemma slot_live:
  assumes hi: "heap_inv e p S m" and s: "slot e p s v"
  shows "live_val (ev_live e) v" "s \<notin> S \<Longrightarrow> m s = v" "s \<in> S \<Longrightarrow> m s = fwd p v"
proof -
  from s obtain a l i where a: "a \<in> ev_live e" "i \<in> slot_idx (ev_heap e) a" "home e p a = Some l"
    "s = l + 8 * i" "v = ev_heap e (a + 8 * i)" by (auto simp: slot_def)
  note w = heap_invD(1) [OF hi a(1)]
  show "live_val (ev_live e) v" using w a(2,5) by (auto simp: wf_obj_def)
  show "s \<notin> S \<Longrightarrow> m s = v" "s \<in> S \<Longrightarrow> m s = fwd p v"
    using heap_invD(5) [OF hi a(1,3), of i] slot_idx_bound [OF w a(2)] a(4,5) by auto
qed

lemma heap_inv_write:
  assumes hi: "heap_inv e p S m" and s: "slot e p s v" and r: "resolved e p v"
  shows "heap_inv e p (insert s S) (m(s := fwd p v))"
proof -
  let ?H = "ev_heap e" and ?L = "ev_live e"
  from s obtain a l i where a: "a \<in> ?L" "i \<in> slot_idx ?H a" "home e p a = Some l"
    "s = l + 8 * i" "v = ?H (a + 8 * i)" by (auto simp: slot_def)
  note mo = heap_invD(2) [OF hi]
  note w = heap_invD(1) [OF hi]
  have i: "1 \<le> i" "i < isz ?H a" using slot_idx_bound [OF w [OF a(1)] a(2)] by simp_all
  note uniq = word_unique [OF mo a(1) _ home_readable [OF a(3)] _ i(2), folded a(4)]
  have mark: "b \<noteq> s" if b: "b \<in> ?L" for b
  proof
    assume bs: "b = s"
    have "readable p b b" "0 < isz ?H b" using isz_ge2 [OF w [OF b]] by (simp_all add: readable_def)
    from uniq [OF b this] bs have "i = 0" by simp
    then show False using i by simp
  qed
  have young: "b + 8 * j \<noteq> s" if "b \<in> ?L" "ev_new e b" "j < isz ?H b" for b j
  proof
    assume bs: "b + 8 * j = s"
    have "readable p b b" by (simp add: readable_def)
    from uniq [OF that(1) this that(3)] bs have "a = b \<and> l = b" by simp
    then have "p b = Some b" using a(3) that(2) by (simp add: home_def)
    then show False using map_okD(6) [OF mo] by blast
  qed
  have homes: "l' + 8 * j = s \<longleftrightarrow> b = a \<and> j = i" if "b \<in> ?L" "home e p b = Some l'" "j < isz ?H b" for b l' j
  proof
    assume "l' + 8 * j = s"
    from uniq [OF that(1) home_readable [OF that(2)] that(3) this [symmetric]] show "b = a \<and> j = i" by blast
  next
    assume "b = a \<and> j = i"
    then show "l' + 8 * j = s" using that(2) a(3) by (simp add: a(4))
  qed
  show ?thesis
    unfolding heap_inv_def
  proof (intro conjI ballI allI impI)
    show "map_ok e p" by (rule mo)
    fix b assume b: "b \<in> ?L"
    show "wf_obj ?H ?L b" using w [OF b] .
    show "(m(s := fwd p v)) b = (case p b of None \<Rightarrow> ?H b | Some c \<Rightarrow> mem_oop c)"
      using mark [OF b] heap_invD(3) [OF hi b] by simp
    show "(m(s := fwd p v)) (b + 8 * j) = ?H (b + 8 * j)" if "ev_new e b \<and> 1 \<le> j \<and> j < isz ?H b" for j
      using that young [OF b] heap_invD(4) [OF hi b] by simp
    show "(m(s := fwd p v)) (l' + 8 * j) =
        (if l' + 8 * j \<in> insert s S then fwd p (?H (b + 8 * j)) else ?H (b + 8 * j))"
      if "home e p b = Some l' \<and> 1 \<le> j \<and> j < isz ?H b" for l' j
      using that homes [OF b, of l' j] heap_invD(5) [OF hi b] a(5) by auto
  next
    fix s' assume "s' \<in> insert s S"
    then show "\<exists>v. slot e p s' v \<and> resolved e p v" using s r heap_invD(6) [OF hi] by blast
  qed
qed

lemma fwd_stable:
  assumes "p \<subseteq>\<^sub>m p'" and "map_ok e p'" and "resolved e p v"
  shows "fwd p' v = fwd p v" and "resolved e p' v"
proof -
  have "p' (oaddr v) = p (oaddr v)" if "is_mem v"
  proof (cases "oaddr v \<in> dom p")
    case True
    then show ?thesis using assms(1) by (simp add: map_le_def)
  next
    case False
    then have "\<not> ev_new e (oaddr v)" using assms(3) that by (simp add: resolved_def)
    then have "oaddr v \<notin> dom p'" using map_okD(2) [OF assms(2)] by blast
    with False show ?thesis by (simp add: domIff)
  qed
  then show "fwd p' v = fwd p v" "resolved e p' v"
    using assms(3) by (auto simp: fwd_def resolved_def domIff)
qed

lemma slot_mono:
  assumes "p \<subseteq>\<^sub>m p'" "slot e p s v" shows "slot e p' s v"
proof -
  have "home e p' a = Some l" if "home e p a = Some l" for a l
    using that assms(1) by (auto simp: home_def map_le_def dom_def split: if_splits)
  then show ?thesis using assms(2) unfolding slot_def by blast
qed

text \<open>The step of the collector: one more object is copied to a free place and forwarded.\<close>

lemma heap_inv_copy:
  assumes hi: "heap_inv e p S m" and a: "a \<in> ev_live e" "ev_new e a" "p a = None"
    and d: "d mod 8 = 0" "d + 8 * isz (ev_heap e) a \<le> usize_max"
    and free: "\<And>b l. b \<in> ev_live e \<Longrightarrow> readable p b l \<Longrightarrow> apart d (isz (ev_heap e) a) l (isz (ev_heap e) b)"
    and body: "\<And>i. 1 \<le> i \<Longrightarrow> i < isz (ev_heap e) a \<Longrightarrow> m' (d + 8 * i) = m (a + 8 * i)"
    and mark: "m' a = mem_oop d"
    and frame: "\<And>x. x \<noteq> a \<Longrightarrow> x < d \<or> d + 8 * isz (ev_heap e) a \<le> x \<Longrightarrow> m' x = m x"
  shows "heap_inv e (p(a \<mapsto> d)) S m'"
proof -
  let ?H = "ev_heap e" and ?L = "ev_live e" and ?q = "p(a \<mapsto> d)"
  note mo = heap_invD(2) [OF hi]
  note w = heap_invD(1) [OF hi]
  have two: "2 \<le> isz ?H b" if "b \<in> ?L" for b using isz_ge2 [OF w [OF that]] .
  have le: "p \<subseteq>\<^sub>m ?q" using a(3) by (auto simp: map_le_def)
  have rq: "readable ?q b l \<longleftrightarrow> readable p b l \<or> (b = a \<and> l = d)" for b l
    using a(3) by (auto simp: readable_def)
  have da: "d \<noteq> a" using free [OF a(1), of a] two [OF a(1)] by (auto simp: readable_def apart_def)
  have moq: "map_ok e ?q"
    unfolding map_ok_def
  proof (intro conjI allI ballI impI)
    fix b c assume bc: "?q b = Some c"
    show "b \<in> ?L" "ev_new e b" "c \<noteq> b" "c mod 8 = 0" "c + 8 * isz ?H b \<le> usize_max"
      using bc a d da map_okD [OF mo] by (auto split: if_splits)
  next
    fix b c l l' assume "b \<in> ?L" "c \<in> ?L" "readable ?q b l \<and> readable ?q c l' \<and> (b, l) \<noteq> (c, l')"
    then show "apart l (isz ?H b) l' (isz ?H c)"
      unfolding rq using map_okD(5) [OF mo, of b c l l'] free [of b l] free [of c l'] a(1)
      by (auto simp: apart_def)
  qed
  have out: "m' (l + 8 * i) = m (l + 8 * i)"
    if "b \<in> ?L" "readable p b l" "i < isz ?H b" "(b, l, i) \<noteq> (a, a, 0)" for b l i
  proof (rule frame)
    show "l + 8 * i < d \<or> d + 8 * isz ?H a \<le> l + 8 * i"
      using free [OF that(1,2)] that(3) by (auto simp: apart_def)
    show "l + 8 * i \<noteq> a"
      using word_unique [OF mo that(1) a(1) that(2), of a i 0] that(3,4) two [OF a(1)] by (auto simp: readable_def)
  qed
  show ?thesis
    unfolding heap_inv_def
  proof (intro conjI ballI allI impI)
    show "map_ok e ?q" by (rule moq)
    fix b assume b: "b \<in> ?L"
    show "wf_obj ?H ?L b" using w [OF b] .
    show "m' b = (case ?q b of None \<Rightarrow> ?H b | Some c \<Rightarrow> mem_oop c)"
      using mark out [OF b, of b 0] two [OF b] heap_invD(3) [OF hi b] by (cases "b = a") (auto simp: readable_def)
    show "m' (b + 8 * i) = ?H (b + 8 * i)" if "ev_new e b \<and> 1 \<le> i \<and> i < isz ?H b" for i
      using out [OF b, of b i] that heap_invD(4) [OF hi b] by (auto simp: readable_def)
    show "m' (l + 8 * i) = (if l + 8 * i \<in> S then fwd ?q (?H (b + 8 * i)) else ?H (b + 8 * i))"
      if h: "home e ?q b = Some l \<and> 1 \<le> i \<and> i < isz ?H b" for l i
    proof (cases "b = a")
      case True
      then have l: "l = d" using h a(2) by (simp add: home_def)
      have "d + 8 * i \<notin> S"
      proof
        assume "d + 8 * i \<in> S"
        then obtain c l' j where c: "c \<in> ?L" "j \<in> slot_idx ?H c" "home e p c = Some l'" "d + 8 * i = l' + 8 * j"
          using heap_invD(6) [OF hi] by (fastforce simp: slot_def)
        then show False
          using free [OF c(1) home_readable [OF c(3)]] slot_idx_bound [OF w [OF c(1)] c(2)] h True
          by (auto simp: apart_def)
      qed
      then show ?thesis using True l h body heap_invD(4) [OF hi a(1,2)] by simp
    next
      case False
      then have hb: "home e p b = Some l" using h by (auto simp: home_def split: if_splits)
      have e: "m' (l + 8 * i) = m (l + 8 * i)" using out [OF b home_readable [OF hb]] h False by auto
      show ?thesis
      proof (cases "l + 8 * i \<in> S")
        case True
        then obtain v where "slot e p (l + 8 * i) v" "resolved e p v" using heap_invD(6) [OF hi] by blast
        then have "resolved e p (?H (b + 8 * i))"
          using slot_unique [OF hi _ b home_readable [OF hb], of i v] h by auto
        then show ?thesis using e True h heap_invD(5) [OF hi b hb] fwd_stable(1) [OF le moq] by simp
      qed (use e h heap_invD(5) [OF hi b hb] in simp)
    qed
  next
    fix s assume "s \<in> S"
    then obtain v where "slot e p s v" "resolved e p v" using heap_invD(6) [OF hi] by blast
    then show "\<exists>v. slot e ?q s v \<and> resolved e ?q v"
      using slot_mono [OF le] fwd_stable(2) [OF le moq] by blast
  qed
qed

section \<open>The spaces during a collection\<close>

record ghost =
  gh_map :: fwd_map
  gh_copied :: "nat list"      \<comment> \<open>originals of the objects in to-space, in address order\<close>
  gh_promoted :: "nat list"    \<comment> \<open>originals of the objects promoted in this cycle, in address order\<close>

definition placed :: "scav_env \<Rightarrow> fwd_map \<Rightarrow> nat list \<Rightarrow> (nat \<times> nat) list" where
  "placed e p as = map (\<lambda>a. (the (p a), 8 * isz (ev_heap e) a)) as"

definition young :: "scav_env \<Rightarrow> nat set" where
  "young e = {a \<in> ev_live e. ev_new e a}"

text \<open>What is assumed of the spaces when a collection starts.\<close>

definition inside :: "nat \<Rightarrow> nat \<Rightarrow> nat \<Rightarrow> nat \<Rightarrow> bool" where
  "inside lo hi a n \<longleftrightarrow> lo \<le> a \<and> a + 8 * n \<le> hi"

definition survivor_ok :: "nat \<Rightarrow> survivor_space \<Rightarrow> bool" where
  "survivor_ok b s \<longleftrightarrow>
     sv_start s mod 8 = 0 \<and> sv_top s mod 8 = 0 \<and> sv_start s \<le> sv_top s \<and> sv_top s \<le> sv_end s \<and> sv_end s \<le> b"

definition off :: "nat \<Rightarrow> nat \<Rightarrow> nat \<Rightarrow> nat \<Rightarrow> bool" where
  "off s t s' t' \<longleftrightarrow> t \<le> s' \<or> t' \<le> s"

definition spaces_ok :: "gc_state \<Rightarrow> (nat \<times> nat) list \<Rightarrow> bool" where
  "spaces_ok g olds \<longleftrightarrow>
     (let b = hl_old_start (gs_layout g); ed = gs_eden g; fr = gs_from g; tp = gs_to g in
      old_inv (gs_old g) (gs_offsets g) olds
      \<and> sb_start (og_bounds (gs_old g)) = b \<and> ct_old_start (gs_cards g) = b
      \<and> sb_end (og_bounds (gs_old g)) \<le> b + ct_n_cards (gs_cards g) * 512
      \<and> ed_start ed mod 8 = 0 \<and> ed_top ed mod 8 = 0 \<and> ed_start ed \<le> ed_top ed \<and> ed_top ed \<le> ed_end ed \<and> ed_end ed \<le> b
      \<and> survivor_ok b fr \<and> survivor_ok b tp
      \<and> off (ed_start ed) (ed_end ed) (sv_start fr) (sv_end fr)
      \<and> off (ed_start ed) (ed_end ed) (sv_start tp) (sv_end tp)
      \<and> off (sv_start fr) (sv_end fr) (sv_start tp) (sv_end tp))"

definition env_ok :: "scav_env \<Rightarrow> bool" where
  "env_ok e \<longleftrightarrow>
     spaces_ok (ev_gs e) (ev_olds e) \<and> finite (ev_live e)
     \<and> (\<forall>a \<in> young e.
          inside (ed_start (gs_eden (ev_gs e))) (ed_top (gs_eden (ev_gs e))) a (isz (ev_heap e) a)
          \<or> inside (sv_start (gs_from (ev_gs e))) (sv_top (gs_from (ev_gs e))) a (isz (ev_heap e) a))
     \<and> (\<forall>a \<in> young e. \<forall>b \<in> young e. a \<noteq> b \<longrightarrow> apart a (isz (ev_heap e) a) b (isz (ev_heap e) b))
     \<and> set (ev_olds e) = (\<lambda>a. (a, 8 * isz (ev_heap e) a)) ` (ev_live e - young e)"

text \<open>The parts of the state a collection does not change before its last step.\<close>

definition same_frame :: "gc_state \<Rightarrow> gc_state \<Rightarrow> bool" where
  "same_frame g0 g \<longleftrightarrow>
     gs_layout g = gs_layout g0 \<and> gs_eden g = gs_eden g0 \<and> gs_from g = gs_from g0
     \<and> sv_start (gs_to g) = sv_start (gs_to g0) \<and> sv_end (gs_to g) = sv_end (gs_to g0)
     \<and> og_bounds (gs_old g) = og_bounds (gs_old g0) \<and> og_committed_end (gs_old g) = og_committed_end (gs_old g0)
     \<and> ct_old_start (gs_cards g) = ct_old_start (gs_cards g0) \<and> ct_n_cards (gs_cards g) = ct_n_cards (gs_cards g0)
     \<and> gs_tenuring_threshold g = gs_tenuring_threshold g0 \<and> gs_gc_enabled g = gs_gc_enabled g0
     \<and> gs_promotion_guarantee_met g = gs_promotion_guarantee_met g0
     \<and> gs_pending_stall g = gs_pending_stall g0 \<and> gs_compiled_depth g = gs_compiled_depth g0
     \<and> gs_lookup_cache g = gs_lookup_cache g0"

definition space_inv :: "scav_env \<Rightarrow> ghost \<Rightarrow> gc_state \<Rightarrow> bool" where
  "space_inv e c g \<longleftrightarrow>
     same_frame (ev_gs e) g
     \<and> distinct (gh_copied c @ gh_promoted c) \<and> dom (gh_map c) = set (gh_copied c) \<union> set (gh_promoted c)
     \<and> tiled (sv_start (gs_to g)) (placed e (gh_map c) (gh_copied c)) (sv_top (gs_to g))
     \<and> sv_top (gs_to g) \<le> sv_end (gs_to g)
     \<and> old_inv (gs_old g) (gs_offsets g) (ev_olds e @ placed e (gh_map c) (gh_promoted c))
     \<and> og_top (gs_old g) + 8 * (\<Sum>a \<in> young e - dom (gh_map c). isz (ev_heap e) a) \<le> og_committed_end (gs_old g)
     \<and> (\<forall>a \<in> set (gh_promoted c). \<forall>x. the (gh_map c a) \<le> x \<and> x < the (gh_map c a) + 8 * isz (ev_heap e) a \<longrightarrow>
          card_dirty (gs_cards g) x)
     \<and> length (gs_age_table g) = 128
     \<and> sum_list (gs_age_table g) = sv_top (gs_to g) - sv_start (gs_to g)"

text \<open>The headers of the copies: promoted objects keep their mark, survivors are one collection older.\<close>

definition aged :: "mark \<Rightarrow> mark res" where
  "aged w = mark_with_age w (min (age_succ (mark_age w)) MARK_AGE_MAX)"

definition mark_inv :: "scav_env \<Rightarrow> ghost \<Rightarrow> heap \<Rightarrow> bool" where
  "mark_inv e c m \<longleftrightarrow>
     (\<forall>a \<in> set (gh_copied c). aged (ev_heap e a) = Inr (m (the (gh_map c a))))
     \<and> (\<forall>a \<in> set (gh_promoted c). m (the (gh_map c a)) = ev_heap e a)"

definition scav_inv :: "scav_env \<Rightarrow> ghost \<Rightarrow> nat set \<Rightarrow> heap \<times> gc_state \<Rightarrow> bool" where
  "scav_inv e c S = (\<lambda>(m, g). env_ok e \<and> heap_inv e (gh_map c) S m \<and> space_inv e c g \<and> mark_inv e c m)"

definition scav_ext :: "ghost \<times> gc_state \<Rightarrow> ghost \<times> gc_state \<Rightarrow> bool" where
  "scav_ext = (\<lambda>(c, g) (c', g').
     gh_map c \<subseteq>\<^sub>m gh_map c' \<and> prefix (gh_copied c) (gh_copied c') \<and> prefix (gh_promoted c) (gh_promoted c')
     \<and> (\<forall>x. card_dirty (gs_cards g) x \<longrightarrow> card_dirty (gs_cards g') x))"

lemma tiled_extent: "tiled s xs t \<Longrightarrow> (a, n) \<in> set xs \<Longrightarrow> s \<le> a \<and> a + n \<le> t"
proof (induction xs arbitrary: s)
  case (Cons x xs)
  obtain b k where x: "x = (b, k)" by (cases x)
  then have "tiled (s + k) xs t" "b = s" using Cons.prems by auto
  with Cons.IH [of "s + k"] Cons.prems(2) tiled_le [OF this(1)] x show ?case by auto
qed simp

lemma placed_snoc: "placed e p (as @ [a]) = placed e p as @ [(the (p a), 8 * isz (ev_heap e) a)]"
  by (simp add: placed_def)

lemma placed_upd: "a \<notin> set as \<Longrightarrow> placed e (p(a \<mapsto> d)) as = placed e p as"
  by (auto simp: placed_def)

lemma ct_dirty_all_total: "\<forall>i \<in> set is. i < ct_n_cards c \<Longrightarrow> \<exists>c'. ct_dirty_all c is = Inr c'"
proof (induction "is" arbitrary: c)
  case (Cons i "is")
  then have "\<forall>j \<in> set is. j < ct_n_cards (c\<lparr>ct_backing := (ct_backing c)[i := CARD_DIRTY]\<rparr>)"
    by (simp add: ct_n_cards_def)
  from Cons.IH [OF this] Cons.prems show ?case by (simp add: ct_entry_store_def)
qed simp

lemma record_multistores_total:
  assumes "ct_old_start c \<le> s" "s < t" "t \<le> ct_old_start c + ct_n_cards c * 512"
  obtains c' where "record_multistores c s t = Inr c'" "ct_n_cards c' = ct_n_cards c"
    "ct_old_start c' = ct_old_start c"
proof -
  have "(t - 1 - ct_old_start c) div 512 < ct_n_cards c" using card_index_bound [of "t - 1" "ct_old_start c"] assms by auto
  then have "\<forall>i \<in> set [(s - ct_old_start c) div 512..<(t - 1 - ct_old_start c) div 512 + 1]. i < ct_n_cards c" by auto
  from ct_dirty_all_total [OF this] obtain c' where
    d: "ct_dirty_all c [(s - ct_old_start c) div 512..<(t - 1 - ct_old_start c) div 512 + 1] = Inr c'" by blast
  have "ct_card_index c s = Inr ((s - ct_old_start c) div 512)"
    "ct_card_index c (t - 1) = Inr ((t - 1 - ct_old_start c) div 512)"
    using assms by (simp_all add: ct_card_index_Inr)
  then have "record_multistores c s t = Inr c'" using d assms(2) by (simp add: record_multistores_def)
  then show thesis using that ct_dirty_all_Inr [OF d] by blast
qed

lemma space_invD:
  assumes "space_inv e c g"
  shows "same_frame (ev_gs e) g" "distinct (gh_copied c @ gh_promoted c)"
    "dom (gh_map c) = set (gh_copied c) \<union> set (gh_promoted c)"
    "tiled (sv_start (gs_to g)) (placed e (gh_map c) (gh_copied c)) (sv_top (gs_to g))"
    "sv_top (gs_to g) \<le> sv_end (gs_to g)"
    "old_inv (gs_old g) (gs_offsets g) (ev_olds e @ placed e (gh_map c) (gh_promoted c))"
    "og_top (gs_old g) + 8 * (\<Sum>a \<in> young e - dom (gh_map c). isz (ev_heap e) a) \<le> og_committed_end (gs_old g)"
    "length (gs_age_table g) = 128" "sum_list (gs_age_table g) = sv_top (gs_to g) - sv_start (gs_to g)"
  using assms unfolding space_inv_def by blast+

lemma env_okD:
  assumes "env_ok e"
  shows "spaces_ok (ev_gs e) (ev_olds e)" "finite (ev_live e)" "finite (young e)"
    "a \<in> young e \<Longrightarrow>
          inside (ed_start (gs_eden (ev_gs e))) (ed_top (gs_eden (ev_gs e))) a (isz (ev_heap e) a)
          \<or> inside (sv_start (gs_from (ev_gs e))) (sv_top (gs_from (ev_gs e))) a (isz (ev_heap e) a)"
    "a \<in> young e \<Longrightarrow> b \<in> young e \<Longrightarrow> a \<noteq> b \<Longrightarrow> apart a (isz (ev_heap e) a) b (isz (ev_heap e) b)"
    "set (ev_olds e) = (\<lambda>a. (a, 8 * isz (ev_heap e) a)) ` (ev_live e - young e)"
  using assms unfolding env_ok_def by (auto simp: young_def)

lemma spaces_okD:
  assumes "spaces_ok g olds"
  defines "b \<equiv> hl_old_start (gs_layout g)"
  shows "old_inv (gs_old g) (gs_offsets g) olds" "sb_start (og_bounds (gs_old g)) = b" "ct_old_start (gs_cards g) = b"
    "sb_end (og_bounds (gs_old g)) \<le> b + ct_n_cards (gs_cards g) * 512"
    "sv_start (gs_to g) mod 8 = 0" "sv_start (gs_to g) \<le> sv_end (gs_to g)" "sv_end (gs_to g) \<le> b"
    "ed_top (gs_eden g) \<le> b" "sv_top (gs_from g) \<le> b"
    "sv_end (gs_to g) \<le> ed_start (gs_eden g) \<or> ed_top (gs_eden g) \<le> sv_start (gs_to g)"
    "sv_end (gs_to g) \<le> sv_start (gs_from g) \<or> sv_top (gs_from g) \<le> sv_start (gs_to g)"
proof -
  have q: "old_inv (gs_old g) (gs_offsets g) olds \<and> sb_start (og_bounds (gs_old g)) = b \<and> ct_old_start (gs_cards g) = b
      \<and> sb_end (og_bounds (gs_old g)) \<le> b + ct_n_cards (gs_cards g) * 512
      \<and> ed_top (gs_eden g) \<le> ed_end (gs_eden g) \<and> ed_end (gs_eden g) \<le> b
      \<and> survivor_ok b (gs_from g) \<and> survivor_ok b (gs_to g)
      \<and> off (ed_start (gs_eden g)) (ed_end (gs_eden g)) (sv_start (gs_to g)) (sv_end (gs_to g))
      \<and> off (sv_start (gs_from g)) (sv_end (gs_from g)) (sv_start (gs_to g)) (sv_end (gs_to g))"
    using assms(1) by (simp add: spaces_ok_def b_def Let_def)
  then show "old_inv (gs_old g) (gs_offsets g) olds" "sb_start (og_bounds (gs_old g)) = b" "ct_old_start (gs_cards g) = b"
    "sb_end (og_bounds (gs_old g)) \<le> b + ct_n_cards (gs_cards g) * 512" by blast+
  show "sv_start (gs_to g) mod 8 = 0" "sv_start (gs_to g) \<le> sv_end (gs_to g)" "sv_end (gs_to g) \<le> b"
    "ed_top (gs_eden g) \<le> b" "sv_top (gs_from g) \<le> b"
    using q by (simp_all add: survivor_ok_def)
  show "sv_end (gs_to g) \<le> ed_start (gs_eden g) \<or> ed_top (gs_eden g) \<le> sv_start (gs_to g)"
    "sv_end (gs_to g) \<le> sv_start (gs_from g) \<or> sv_top (gs_from g) \<le> sv_start (gs_to g)"
    using q by (auto simp: off_def survivor_ok_def)
qed

text \<open>Where every readable object lies.\<close>

lemma regions:
  assumes ok: "env_ok e" and si: "space_inv e c g" and b: "b \<in> ev_live e"
  shows "ev_new e b \<Longrightarrow> b + 8 * isz (ev_heap e) b \<le> hl_old_start (gs_layout (ev_gs e))
      \<and> (b + 8 * isz (ev_heap e) b \<le> sv_start (gs_to g) \<or> sv_end (gs_to g) \<le> b)"
    and "\<not> ev_new e b \<Longrightarrow> hl_old_start (gs_layout (ev_gs e)) \<le> b
      \<and> b + 8 * isz (ev_heap e) b \<le> og_top (gs_old (ev_gs e))"
    and "b \<in> set (gh_copied c) \<Longrightarrow> sv_start (gs_to g) \<le> the (gh_map c b)
      \<and> the (gh_map c b) + 8 * isz (ev_heap e) b \<le> sv_top (gs_to g)"
    and "b \<in> set (gh_promoted c) \<Longrightarrow> og_top (gs_old (ev_gs e)) \<le> the (gh_map c b)
      \<and> the (gh_map c b) + 8 * isz (ev_heap e) b \<le> og_top (gs_old g)"
    and "og_top (gs_old (ev_gs e)) \<le> og_top (gs_old g)" and "hl_old_start (gs_layout (ev_gs e)) \<le> og_top (gs_old (ev_gs e))"
    and "sv_start (gs_to g) \<le> sv_top (gs_to g)" and "sv_end (gs_to g) \<le> hl_old_start (gs_layout (ev_gs e))"
proof -
  note s = spaces_okD [OF env_okD(1) [OF ok]] and d = space_invD [OF si]
  note f = d(1) [unfolded same_frame_def]
  show "ev_new e b \<Longrightarrow> b + 8 * isz (ev_heap e) b \<le> hl_old_start (gs_layout (ev_gs e))
      \<and> (b + 8 * isz (ev_heap e) b \<le> sv_start (gs_to g) \<or> sv_end (gs_to g) \<le> b)"
    using env_okD(4) [OF ok, of b] s(8-11) f b by (auto simp: young_def inside_def)
  have t0: "tiled (hl_old_start (gs_layout (ev_gs e))) (ev_olds e) (og_top (gs_old (ev_gs e)))"
    using s(1,2) by (simp add: old_inv_def)
  show "hl_old_start (gs_layout (ev_gs e)) \<le> b \<and> b + 8 * isz (ev_heap e) b \<le> og_top (gs_old (ev_gs e))"
    if "\<not> ev_new e b"
    using tiled_extent [OF t0, of b "8 * isz (ev_heap e) b"] env_okD(6) [OF ok] b that by (auto simp: young_def)
  show "b \<in> set (gh_copied c) \<Longrightarrow> sv_start (gs_to g) \<le> the (gh_map c b)
      \<and> the (gh_map c b) + 8 * isz (ev_heap e) b \<le> sv_top (gs_to g)"
    using tiled_extent [OF d(4), of "the (gh_map c b)"] by (auto simp: placed_def)
  have t1: "tiled (hl_old_start (gs_layout (ev_gs e))) (ev_olds e @ placed e (gh_map c) (gh_promoted c)) (og_top (gs_old g))"
    using d(6) f s(2) by (simp add: old_inv_def)
  have spl: "tiled s xs t \<Longrightarrow> tiled s (xs @ ys) u \<Longrightarrow> tiled t ys u" for s xs t ys u
    by (induction xs arbitrary: s) auto
  note t2 = spl [OF t0 t1]
  show "b \<in> set (gh_promoted c) \<Longrightarrow> og_top (gs_old (ev_gs e)) \<le> the (gh_map c b)
      \<and> the (gh_map c b) + 8 * isz (ev_heap e) b \<le> og_top (gs_old g)"
    using tiled_extent [OF t2, of "the (gh_map c b)"] by (auto simp: placed_def)
  show "og_top (gs_old (ev_gs e)) \<le> og_top (gs_old g)" using tiled_le [OF t2] .
  show "hl_old_start (gs_layout (ev_gs e)) \<le> og_top (gs_old (ev_gs e))" using tiled_le [OF t0] .
  show "sv_start (gs_to g) \<le> sv_top (gs_to g)" using tiled_le [OF d(4)] .
  show "sv_end (gs_to g) \<le> hl_old_start (gs_layout (ev_gs e))" using s(7) f by simp
qed

lemma readable_placed:
  assumes "space_inv e c g" "readable (gh_map c) b l"
  shows "l = b \<or> (b \<in> set (gh_copied c) \<union> set (gh_promoted c) \<and> l = the (gh_map c b))"
  using assms space_invD(3) by (fastforce simp: readable_def)

lemma free_dest:
  assumes ok: "env_ok e" and si: "space_inv e c g" and b: "b \<in> ev_live e" "readable (gh_map c) b l"
  shows "sv_top (gs_to g) + 8 * n \<le> sv_end (gs_to g) \<Longrightarrow> apart (sv_top (gs_to g)) n l (isz (ev_heap e) b)"
    and "apart (og_top (gs_old g)) n l (isz (ev_heap e) b)"
proof -
  let ?n = "isz (ev_heap e) b"
  note r = regions [OF ok si b(1)] and t = space_invD(5) [OF si]
  consider "l = b" "ev_new e b" | "l = b" "\<not> ev_new e b"
    | "b \<in> set (gh_copied c)" "l = the (gh_map c b)" | "b \<in> set (gh_promoted c)" "l = the (gh_map c b)"
    using readable_placed [OF si b(2)] by blast
  then have "(l + 8 * ?n \<le> sv_top (gs_to g) \<or> sv_end (gs_to g) \<le> l) \<and> l + 8 * ?n \<le> og_top (gs_old g)"
  proof cases
    case 1
    then show ?thesis using r(1) [OF 1(2)] r(5,6,7) by linarith
  next
    case 2
    then show ?thesis using r(2) [OF 2(2)] r(5,8) by linarith
  next
    case 3
    then show ?thesis using r(3) [OF 3(1)] r(5,6,8) t by linarith
  next
    case 4
    then show ?thesis using r(4) [OF 4(1)] r(6,8) by linarith
  qed
  then show "sv_top (gs_to g) + 8 * n \<le> sv_end (gs_to g) \<Longrightarrow> apart (sv_top (gs_to g)) n l ?n"
    and "apart (og_top (gs_old g)) n l ?n"
    unfolding apart_def by linarith+
qed


end
