(* ===== verification/ScavengeVisit.thy ===== *)
theory ScavengeVisit
  imports ScavengeInv
begin

unbundle bit_operations_syntax

text \<open>
  \<open>scavenge_oop\<close> keeps the invariant and returns the new address of its argument; the walk over
  any list of roots follows, in the locale \<open>evacuation\<close>, from that contract of the visitor alone.
\<close>

section \<open>Copying one object\<close>

lemma copy_dest_ok:
  assumes ok: "env_ok e" and si: "space_inv e c g" and a: "a \<in> young e" "a \<notin> dom (gh_map c)"
    and n: "n = isz (ev_heap e) a" "2 \<le> n"
  obtains (promoted) t' where "copy_dest ap (n * 8) g =
      Inr (Some (og_top (gs_old g), True,
        g\<lparr>gs_old := (gs_old g)\<lparr>og_top := og_top (gs_old g) + 8 * n\<rparr>, gs_offsets := t'\<rparr>))"
    "og_top (gs_old g) + 8 * n \<le> og_committed_end (gs_old g)"
    "old_inv ((gs_old g)\<lparr>og_top := og_top (gs_old g) + 8 * n\<rparr>) t'
      (ev_olds e @ placed e (gh_map c) (gh_promoted c) @ [(og_top (gs_old g), 8 * n)])"
  | (copied) "copy_dest ap (n * 8) g =
      Inr (Some (sv_top (gs_to g), False, g\<lparr>gs_to := (gs_to g)\<lparr>sv_top := sv_top (gs_to g) + 8 * n\<rparr>\<rparr>))"
    "sv_top (gs_to g) + 8 * n \<le> sv_end (gs_to g)"
proof -
  note d = space_invD [OF si]
  have fin: "finite (young e - dom (gh_map c))" using env_okD(3) [OF ok] by simp
  have "n \<le> (\<Sum>b \<in> young e - dom (gh_map c). isz (ev_heap e) b)"
    using sum.remove [OF fin, of a "isz (ev_heap e)"] a n(1) by simp
  then have room: "og_top (gs_old g) + 8 * n \<le> og_committed_end (gs_old g)" using d(7) by linarith
  have oi: "og_committed_end (gs_old g) \<le> usize_max" using d(6) by (simp add: old_inv_def)
  have small: "sv_top (gs_to g) + n * 8 \<le> usize_max"
  proof -
    have "sv_top (gs_to g) \<le> og_top (gs_old g)"
      using regions(5,6,8) [OF ok si] a(1) d(5) by (fastforce simp: young_def)
    then show ?thesis using room oi by linarith
  qed
  have "8 * n + 7 \<le> usize_max"
  proof -
    have "8 * n \<le> usize_max" using room oi by linarith
    from div_le_mono [OF this, of 8] have "n \<le> usize_max div 8" by simp
    then show ?thesis by simp
  qed
  then have al: "align8 (8 * n) = Inr (8 * n)" by (simp add: align8_Inr)
  have n8: "n * 8 = 8 * n" by simp
  have "0 < 8 * n" using n(2) by simp
  from conjunct2 [OF old_allocate_step [OF d(6) al this, of "\<lambda>_ u. u" "()"], rule_format, OF room] obtain t' where
    t': "old_allocate (\<lambda>_ u. u) (gs_old g) (gs_offsets g) (8 * n) () =
      Inr (Some (og_top (gs_old g), (gs_old g)\<lparr>og_top := og_top (gs_old g) + 8 * n\<rparr>, t', ()))"
    "old_inv ((gs_old g)\<lparr>og_top := og_top (gs_old g) + 8 * n\<rparr>) t'
      ((ev_olds e @ placed e (gh_map c) (gh_promoted c)) @ [(og_top (gs_old g), 8 * n)])"
    by blast
  have pa: "promote_alloc (n * 8) g = Inr (Some (og_top (gs_old g),
        g\<lparr>gs_old := (gs_old g)\<lparr>og_top := og_top (gs_old g) + 8 * n\<rparr>, gs_offsets := t'\<rparr>))"
    unfolding n8 promote_alloc_def t'(1) by simp
  show thesis
  proof (cases "ap \<or> sv_end (gs_to g) < sv_top (gs_to g) + n * 8")
    case True
    then have "copy_dest ap (n * 8) g = Inr (Some (og_top (gs_old g), True,
        g\<lparr>gs_old := (gs_old g)\<lparr>og_top := og_top (gs_old g) + 8 * n\<rparr>, gs_offsets := t'\<rparr>))"
      using pa small by (auto simp: copy_dest_def uadd_def)
    from promoted [OF this room] t'(2) show thesis by simp
  next
    case False
    then show thesis using copied small by (simp add: copy_dest_def uadd_def mult.commute)
  qed
qed

lemma age_bound: "unat (min (age_succ x) MARK_AGE_MAX) < 128"
proof -
  have "min (age_succ x) MARK_AGE_MAX \<le> MARK_AGE_MAX" by simp
  then show ?thesis by (simp add: word_le_nat_alt MARK_AGE_MAX_def)
qed

lemma aged_total: "\<exists>k. aged w = Inr k"
  by (simp add: aged_def mark_with_age_def guard_res_def)

lemma age_table_record_ok:
  assumes "length t = 128" "sum_list t + n \<le> usize_max" "unat age < 128"
  shows "\<exists>t'. age_table_record t age n = Inr t' \<and> length t' = 128 \<and> sum_list t' = sum_list t + n"
proof -
  let ?i = "unat age"
  have i: "?i < length t" using assms by simp
  have le: "t ! ?i \<le> sum_list t" using member_le_sum_list [of "t ! ?i" t] i by simp
  then have "uadd (t ! ?i) n = Inr (t ! ?i + n)" using assms(2) by (simp add: uadd_def)
  moreover have "sum_list (t[?i := t ! ?i + n]) = sum_list t + n"
    using sum_list_update [OF i, of "t ! ?i + n"] le by simp
  ultimately show ?thesis using i assms(1) by (simp add: age_table_record_def)
qed

lemma oop_from_raw_mem_oop: "a mod 8 = 0 \<Longrightarrow> oop_from_raw (word_of_nat a + MEM_TAG) = Inr (mem_oop a)"
  using mem_valid [OF is_mem_mem_oop] by (simp add: mem_oop_def)

lemma mem_try_mem_oop [simp]: "a mod 8 = 0 \<Longrightarrow> mem_try_from (mem_oop a) = Some (mem_oop a)"
  by (simp add: mem_try_from_def)

text \<open>Sizing during copy: the klass field is still the original word, and its target may have moved.\<close>

lemma object_size_ok:
  assumes hi: "heap_inv e p S m" and a: "a \<in> ev_live e" "ev_new e a"
  shows "object_size_for_copy m (mem_oop a) = Inr (isz (ev_heap e) a)"
proof -
  let ?H = "ev_heap e" and ?L = "ev_live e"
  note hv = heap_inv_view [OF hi] and mo = heap_invD(2) [OF hi]
  note w = heap_invD(1) [OF hi]
  obtain k nis f where os: "oshape ?H a = (k, nis, f)" by (cases "oshape ?H a")
  have ra: "readable p a a" by (simp add: readable_def)
  note vs = view_shape [OF hv a(1) ra os]
  note ko = view_klass_oop [OF hv a(1) ra]
  have "m (a + 8 * 1) = ?H (a + 8 * 1)" using heap_invD(4) [OF hi a, of 1] isz_ge2 [OF w [OF a(1)]] by simp
  then have k: "m (a + 8) = k" using vs(10) by simp
  have km: "is_mem k" "oaddr k \<in> ?L" using ko(2,4) k vs(10) by simp_all
  note wk = w [OF km(2)]
  have ka: "oaddr k mod 8 = 0" "oaddr k \<le> usize_max" using wk by (simp_all add: wf_obj_def)
  have hd: "mark_word_raw m k = Inr (m (oaddr k))" using mark_word_raw_eval [OF km(1) ka] .
  obtain k' where k': "effective_klass m k = Inr k'" "readable p (oaddr k) (oaddr k')" "is_mem k'"
  proof (cases "p (oaddr k)")
    case None
    have "m (oaddr k) = ?H (oaddr k)" using heap_invD(3) [OF hi km(2)] None by simp
    moreover have "mark_from_word (?H (oaddr k)) = Inr (?H (oaddr k))" using wk by (simp add: wf_obj_def)
    ultimately have "is_forwarded m k = Inr False"
      using hd mark_not_forwarded by (simp add: is_forwarded_def)
    moreover have "readable p (oaddr k) (oaddr k)" by (simp add: readable_def)
    ultimately show ?thesis
      using that [of k] vs(7) [of k] km(1) by (simp add: effective_klass_def mem_try_from_def)
  next
    case (Some b)
    have b: "b mod 8 = 0" "b \<le> usize_max" using map_okD(3,4) [OF mo Some] by simp_all
    have mb: "m (oaddr k) = mem_oop b" using heap_invD(3) [OF hi km(2)] Some by simp
    have f: "is_forwarded m k = Inr True" "obj_forwardee m k = Inr (mem_oop b)"
      using hd mb mem_word_forwarded [OF is_mem_mem_oop [OF b(1)]]
      by (simp_all add: is_forwarded_def obj_forwardee_def forwardee_def)
    have r: "readable p (oaddr k) (oaddr (mem_oop b))" using Some b by (simp add: readable_def)
    then show ?thesis
      using that [of "mem_oop b"] vs(7) [of "mem_oop b"] km(1) f b by (simp add: effective_klass_def mem_try_from_def)
  qed
  then show ?thesis
    using vs(4) [of k'] ko(1) k by (simp add: object_size_for_copy_def)
qed

definition after_copy :: "ghost \<Rightarrow> nat \<Rightarrow> nat \<Rightarrow> bool \<Rightarrow> ghost" where
  "after_copy c a d pr =
     \<lparr>gh_map = (gh_map c)(a \<mapsto> d),
      gh_copied = (if pr then gh_copied c else gh_copied c @ [a]),
      gh_promoted = (if pr then gh_promoted c @ [a] else gh_promoted c)\<rparr>"

lemma same_frame_trans:
  "same_frame g0 g \<Longrightarrow> same_frame g g' \<Longrightarrow> same_frame g0 g'"
  by (simp add: same_frame_def)

lemma space_inv_copy:
  assumes ok: "env_ok e" and si: "space_inv e c g" and a: "a \<in> young e" "a \<notin> dom (gh_map c)"
    and fr: "same_frame g g'"
    and sp: "if pr then d = og_top (gs_old g) \<and> gs_to g' = gs_to g \<and> gs_age_table g' = gs_age_table g
          \<and> og_top (gs_old g') = og_top (gs_old g) + 8 * isz (ev_heap e) a
          \<and> old_inv (gs_old g') (gs_offsets g') (ev_olds e @ placed e (gh_map c) (gh_promoted c) @ [(d, 8 * isz (ev_heap e) a)])
        else d = sv_top (gs_to g) \<and> gs_old g' = gs_old g \<and> gs_offsets g' = gs_offsets g
          \<and> sv_top (gs_to g') = sv_top (gs_to g) + 8 * isz (ev_heap e) a \<and> sv_top (gs_to g') \<le> sv_end (gs_to g)
          \<and> length (gs_age_table g') = 128
          \<and> sum_list (gs_age_table g') = sum_list (gs_age_table g) + 8 * isz (ev_heap e) a"
    and two: "2 \<le> isz (ev_heap e) a"
    and mono: "\<And>x. card_dirty (gs_cards g) x \<Longrightarrow> card_dirty (gs_cards g') x"
    and dirt: "\<And>x. pr \<Longrightarrow> d \<le> x \<Longrightarrow> x < d + 8 * isz (ev_heap e) a \<Longrightarrow> card_dirty (gs_cards g') x"
  shows "space_inv e (after_copy c a d pr) g'"
proof -
  note s = space_invD [OF si] and r = regions [OF ok si]
  let ?p = "gh_map c" and ?n = "isz (ev_heap e) a"
  have ns: "a \<notin> set (gh_copied c)" "a \<notin> set (gh_promoted c)" using a(2) s(3) by auto
  note pl = placed_upd [OF ns(1), of e ?p d] placed_upd [OF ns(2), of e ?p d]
  have fin: "finite (young e - dom ?p)" using env_okD(3) [OF ok] by simp
  have sum: "(\<Sum>b \<in> young e - dom ?p. isz (ev_heap e) b) = ?n + (\<Sum>b \<in> young e - dom (?p(a \<mapsto> d)). isz (ev_heap e) b)"
  proof -
    have "young e - dom (?p(a \<mapsto> d)) = young e - dom ?p - {a}" by auto
    then show ?thesis using sum.remove [OF fin, of a "isz (ev_heap e)"] a by simp
  qed
  have old_dirty: "card_dirty (gs_cards g') x"
    if "b \<in> set (gh_promoted c)" "the (?p b) \<le> x" "x < the (?p b) + 8 * isz (ev_heap e) b" for b x
    using si that mono unfolding space_inv_def by blast
  have st: "sv_start (gs_to g) \<le> sv_top (gs_to g)" using tiled_le [OF s(4)] .
  note f = fr [unfolded same_frame_def]
  have dom': "dom (?p(a \<mapsto> d)) = insert a (dom ?p)" by auto
  show ?thesis
  proof (cases pr)
    case True
    have sp1: "d = og_top (gs_old g)" "gs_to g' = gs_to g" "gs_age_table g' = gs_age_table g"
      "og_top (gs_old g') = og_top (gs_old g) + 8 * ?n"
      "old_inv (gs_old g') (gs_offsets g') (ev_olds e @ placed e ?p (gh_promoted c) @ [(d, 8 * ?n)])"
      using sp unfolding if_P [OF True] by blast+
    have c: "gh_map (after_copy c a d pr) = ?p(a \<mapsto> d)" "gh_copied (after_copy c a d pr) = gh_copied c"
      "gh_promoted (after_copy c a d pr) = gh_promoted c @ [a]" using True by (simp_all add: after_copy_def)
    have dr: "\<forall>b \<in> set (gh_promoted c @ [a]). \<forall>x. the ((?p(a \<mapsto> d)) b) \<le> x \<and> x < the ((?p(a \<mapsto> d)) b) + 8 * isz (ev_heap e) b \<longrightarrow>
          card_dirty (gs_cards g') x"
      using old_dirty dirt True ns(2) by auto
    have bud: "og_top (gs_old g') + 8 * (\<Sum>b \<in> young e - dom (?p(a \<mapsto> d)). isz (ev_heap e) b) \<le> og_committed_end (gs_old g')"
      using s(7) unfolding sum sp1(4) using f by (simp add: add_mult_distrib2)
    show ?thesis
      unfolding space_inv_def c placed_snoc pl dom'
      using same_frame_trans [OF s(1) fr] s ns sp1 dr bud by (auto simp: dom')
  next
    case False
    have sp1: "d = sv_top (gs_to g)" "gs_old g' = gs_old g" "gs_offsets g' = gs_offsets g"
      "sv_top (gs_to g') = sv_top (gs_to g) + 8 * ?n" "sv_top (gs_to g') \<le> sv_end (gs_to g)"
      "length (gs_age_table g') = 128" "sum_list (gs_age_table g') = sum_list (gs_age_table g) + 8 * ?n"
      using sp False by simp_all
    have c: "gh_map (after_copy c a d pr) = ?p(a \<mapsto> d)" "gh_copied (after_copy c a d pr) = gh_copied c @ [a]"
      "gh_promoted (after_copy c a d pr) = gh_promoted c" using False by (simp_all add: after_copy_def)
    have dr: "\<forall>b \<in> set (gh_promoted c). \<forall>x. the ((?p(a \<mapsto> d)) b) \<le> x \<and> x < the ((?p(a \<mapsto> d)) b) + 8 * isz (ev_heap e) b \<longrightarrow>
          card_dirty (gs_cards g') x"
    proof (intro ballI allI impI)
      fix b x assume b: "b \<in> set (gh_promoted c)"
        and x: "the ((?p(a \<mapsto> d)) b) \<le> x \<and> x < the ((?p(a \<mapsto> d)) b) + 8 * isz (ev_heap e) b"
      have "b \<noteq> a" using b ns(2) by blast
      then show "card_dirty (gs_cards g') x" using old_dirty [OF b] x by simp
    qed
    have bud: "og_top (gs_old g') + 8 * (\<Sum>b \<in> young e - dom (?p(a \<mapsto> d)). isz (ev_heap e) b) \<le> og_committed_end (gs_old g')"
      using s(7) unfolding sum sp1(2) by simp
    have tl: "tiled (sv_start (gs_to g')) (placed e ?p (gh_copied c) @ [(d, 8 * ?n)]) (sv_top (gs_to g'))"
      unfolding tiled_append using s(4) sp1(1,4) two f by simp
    have sums: "sum_list (gs_age_table g') = sv_top (gs_to g') - sv_start (gs_to g')"
      using s(9) sp1(4,7) st f by simp
    show ?thesis
      unfolding space_inv_def c placed_snoc pl dom'
      using same_frame_trans [OF s(1) fr] s ns sp1 dr bud tl sums f by (auto simp: dom')
  qed
qed

lemma mark_inv_copy:
  assumes ok: "env_ok e" and hi: "heap_inv e (gh_map c) S m" and si: "space_inv e c g" and mi: "mark_inv e c m"
    and a: "a \<in> ev_live e" "a \<notin> dom (gh_map c)"
    and free: "\<And>b l. b \<in> ev_live e \<Longrightarrow> readable (gh_map c) b l \<Longrightarrow> apart d (isz (ev_heap e) a) l (isz (ev_heap e) b)"
    and frame: "\<And>x. x \<noteq> a \<Longrightarrow> x < d \<or> d + 8 * isz (ev_heap e) a \<le> x \<Longrightarrow> m' x = m x"
    and hd: "if pr then m' d = ev_heap e a else aged (ev_heap e a) = Inr (m' d)"
  shows "mark_inv e (after_copy c a d pr) m'"
proof -
  let ?p = "gh_map c"
  note dm = space_invD(3) [OF si] and mo = heap_invD(2) [OF hi] and w = heap_invD(1) [OF hi]
  have ns: "a \<notin> set (gh_copied c)" "a \<notin> set (gh_promoted c)" using a(2) dm by auto
  have keep: "m' (the (?p b)) = m (the (?p b)) \<and> b \<noteq> a" if "b \<in> set (gh_copied c) \<union> set (gh_promoted c)" for b
  proof -
    have "b \<in> dom ?p" using that dm by simp
    then obtain l where l: "?p b = Some l" by blast
    have bL: "b \<in> ev_live e" using map_okD(1) [OF mo l] .
    have rl: "readable ?p b l" "readable ?p a a" using l by (simp_all add: readable_def)
    have two: "0 < isz (ev_heap e) b" "0 < isz (ev_heap e) a"
      using isz_ge2 [OF w [OF bL]] isz_ge2 [OF w [OF a(1)]] by simp_all
    have "b \<noteq> a" using that ns by auto
    then have "l \<noteq> a" using word_unique [OF mo bL a(1) rl two] by auto
    moreover have "l < d \<or> d + 8 * isz (ev_heap e) a \<le> l"
      using free [OF bL rl(1)] two by (auto simp: apart_def)
    ultimately show ?thesis using frame [of l] l \<open>b \<noteq> a\<close> by simp
  qed
  show ?thesis
    using mi keep hd ns unfolding mark_inv_def after_copy_def by (auto split: if_splits)
qed

lemma fwd_young_copied: "is_mem v \<Longrightarrow> p (oaddr v) = Some b \<Longrightarrow> fwd p v = mem_oop b"
  by (simp add: fwd_def)

lemma scav_ext_refl: "scav_ext s s"
  by (auto simp: scav_ext_def)

lemma scav_ext_copy:
  assumes "a \<notin> dom (gh_map c)" and "\<And>x. card_dirty (gs_cards g) x \<Longrightarrow> card_dirty (gs_cards g') x"
  shows "scav_ext (c, g) (after_copy c a d pr, g')"
  using assms by (auto simp: scav_ext_def after_copy_def map_le_def)

text \<open>Up to the choice of a destination.\<close>

lemma young_not_forwarded:
  assumes ok: "env_ok e" and hi: "heap_inv e (gh_map c) S m" and si: "space_inv e c g"
    and a: "a \<in> young e" "a \<notin> dom (gh_map c)"
  shows "is_forwarded m (mem_oop a) = Inr False" "obj_mark m (mem_oop a) = Inr (ev_heap e a)" "m a = ev_heap e a"
    "\<not> is_old (gs_layout g) a" "\<not> (sv_start (gs_to g) \<le> a \<and> a < sv_top (gs_to g))"
    "mem_addr (mem_oop a) = Inr a" "a mod 8 = 0" "a \<le> usize_max" "2 \<le> isz (ev_heap e) a"
    "mark_from_word (ev_heap e a) = Inr (ev_heap e a)" "umul (isz (ev_heap e) a) 8 = Inr (isz (ev_heap e) a * 8)"
proof -
  have aL: "a \<in> ev_live e" "ev_new e a" using a by (simp_all add: young_def)
  have w: "wf_obj (ev_heap e) (ev_live e) a" using heap_invD(1) [OF hi aL(1)] .
  show al: "a mod 8 = 0" "a \<le> usize_max" and mk: "mark_from_word (ev_heap e a) = Inr (ev_heap e a)"
    using w by (simp_all add: wf_obj_def)
  show two: "2 \<le> isz (ev_heap e) a" using isz_ge2 [OF w] .
  show ma: "m a = ev_heap e a" using heap_invD(3) [OF hi aL(1)] a(2) by (auto simp: domIff)
  have hw: "mark_word_raw m (mem_oop a) = Inr (ev_heap e a)" using mark_word_raw_eval [of "mem_oop a" m] al ma by simp
  show "is_forwarded m (mem_oop a) = Inr False" using hw mark_not_forwarded [OF mk] by (simp add: is_forwarded_def)
  show "obj_mark m (mem_oop a) = Inr (ev_heap e a)" using hw mk by (simp add: obj_mark_def)
  show "mem_addr (mem_oop a) = Inr a" using al by (simp add: mem_addr_eq)
  have fr: "gs_layout g = gs_layout (ev_gs e)" using space_invD(1) [OF si] by (simp add: same_frame_def)
  then show "\<not> is_old (gs_layout g) a" using aL(2) by (simp add: is_old_def is_new_def)
  show "\<not> (sv_start (gs_to g) \<le> a \<and> a < sv_top (gs_to g))"
    using regions(1) [OF ok si aL] space_invD(5) [OF si] two by linarith
  have "8 * isz (ev_heap e) a \<le> usize_max" using w by (simp add: wf_obj_def)
  then show "umul (isz (ev_heap e) a) 8 = Inr (isz (ev_heap e) a * 8)" by (simp add: umul_def)
qed

lemma scavenge_oop_copy:
  assumes ok: "env_ok e" and hi: "heap_inv e (gh_map c) S m" and si: "space_inv e c g"
    and a: "a \<in> young e" "a \<notin> dom (gh_map c)"
    and cd: "copy_dest (unat (age_succ (mark_age (ev_heap e a))) \<ge> gs_tenuring_threshold g) (isz (ev_heap e) a * 8) g
      = Inr (Some (d, pr, g1))"
    and d: "d mod 8 = 0"
    and fin: "finish_copy pr d (mem_oop d) (mark_age (ev_heap e a)) (isz (ev_heap e) a * 8)
      (copy_words m a d (isz (ev_heap e) a * 8), g1) = Inr (m2, g2)"
  shows "scavenge_oop (mem_oop a) (m, g) = Inr (mem_oop d, m2(a := mem_oop d), g2)"
proof -
  note y = young_not_forwarded [OF ok hi si a]
  have sz: "object_size_for_copy m (mem_oop a) = Inr (isz (ev_heap e) a)"
    using object_size_ok [OF hi] a(1) by (simp add: young_def)
  have "install_forwarding m2 (mem_oop a) (mem_oop d) = Inr (m2(a := mem_oop d))"
    using install_forwarding_eval [of "mem_oop a"] y(7,8) by simp
  then show ?thesis
    using y(4,5) by (simp add: scavenge_oop.simps y(1,2,6,7,11) sz cd Let_def oop_from_raw_mem_oop [OF d] d fin)
qed

lemma scav_inv_copy:
  assumes ok: "env_ok e" and hi: "heap_inv e (gh_map c) S m" and si: "space_inv e c g" and mi: "mark_inv e c m"
    and a: "a \<in> young e" "a \<notin> dom (gh_map c)"
    and d: "d mod 8 = 0" "d + 8 * isz (ev_heap e) a \<le> usize_max"
    and free: "\<And>b l. b \<in> ev_live e \<Longrightarrow> readable (gh_map c) b l \<Longrightarrow> apart d (isz (ev_heap e) a) l (isz (ev_heap e) b)"
    and m2: "\<And>i. 1 \<le> i \<Longrightarrow> i < isz (ev_heap e) a \<Longrightarrow> m2 (d + 8 * i) = m (a + 8 * i)"
      "\<And>x. x < d \<or> d + 8 * isz (ev_heap e) a \<le> x \<Longrightarrow> m2 x = m x"
      "if pr then m2 d = ev_heap e a else aged (ev_heap e a) = Inr (m2 d)"
    and sp: "space_inv e (after_copy c a d pr) g2"
  shows "scav_inv e (after_copy c a d pr) S (m2(a := mem_oop d), g2)"
proof -
  have aL: "a \<in> ev_live e" "ev_new e a" "gh_map c a = None" using a by (auto simp: young_def)
  let ?m = "m2(a := mem_oop d)"
  have two: "2 \<le> isz (ev_heap e) a" using isz_ge2 [OF heap_invD(1) [OF hi aL(1)]] .
  have "apart d (isz (ev_heap e) a) a (isz (ev_heap e) a)" using free [OF aL(1)] by (simp add: readable_def)
  then have out: "d + 8 * i \<noteq> a" if "i < isz (ev_heap e) a" for i
    using apart_words [of d "isz (ev_heap e) a" a "isz (ev_heap e) a" i 0] that two by auto
  have frame: "?m x = m x" if "x \<noteq> a" "x < d \<or> d + 8 * isz (ev_heap e) a \<le> x" for x
    using that m2(2) by simp
  have "heap_inv e ((gh_map c)(a \<mapsto> d)) S ?m"
  proof (rule heap_inv_copy [OF hi aL d free])
    show "?m (d + 8 * i) = m (a + 8 * i)" if "1 \<le> i" "i < isz (ev_heap e) a" for i
      using m2(1) [OF that] out [OF that(2)] by simp
  qed (use frame in simp_all)
  moreover have "mark_inv e (after_copy c a d pr) ?m"
  proof (rule mark_inv_copy [OF ok hi si mi aL(1) a(2) free frame])
    show "if pr then ?m d = ev_heap e a else aged (ev_heap e a) = Inr (?m d)"
      using m2(3) out [of 0] two by simp
  qed
  ultimately show ?thesis using ok sp by (simp add: scav_inv_def after_copy_def)
qed

lemma copy_object_ok:
  assumes inv: "scav_inv e c S (m, g)" and a: "a \<in> young e" "a \<notin> dom (gh_map c)"
  shows "\<exists>c' m' g' d. scavenge_oop (mem_oop a) (m, g) = Inr (mem_oop d, m', g') \<and> gh_map c' = (gh_map c)(a \<mapsto> d)
    \<and> scav_inv e c' S (m', g') \<and> scav_ext (c, g) (c', g')"
proof -
  have ok: "env_ok e" and hi: "heap_inv e (gh_map c) S m" and si: "space_inv e c g" and mi: "mark_inv e c m"
    using inv by (simp_all add: scav_inv_def)
  let ?n = "isz (ev_heap e) a" and ?h = "ev_heap e a"
  note y = young_not_forwarded [OF ok hi si a] and s = space_invD [OF si] and r = regions [OF ok si]
  have aL: "a \<in> ev_live e" using a by (simp add: young_def)
  let ?ap = "unat (age_succ (mark_age ?h)) \<ge> gs_tenuring_threshold g"
  have cw: "copy_words m a d (?n * 8) (d + 8 * i) = m (a + 8 * i)" if "i < ?n" for d i
    using that by (simp add: copy_words_def)
  have cf: "copy_words m a d (?n * 8) x = m x" if "x < d \<or> d + 8 * ?n \<le> x" for d x
    using that by (auto simp: copy_words_def)
  note fr = s(1) [unfolded same_frame_def]
  note e0 = spaces_okD [OF env_okD(1) [OF ok]]
  show ?thesis
  proof (cases rule: copy_dest_ok [OF ok si a refl y(9), of ?ap, case_names promoted copied])
    case (promoted t')
    let ?d = "og_top (gs_old g)"
    let ?g1 = "g\<lparr>gs_old := (gs_old g)\<lparr>og_top := ?d + 8 * ?n\<rparr>, gs_offsets := t'\<rparr>"
    have oi: "og_committed_end (gs_old g) \<le> sb_end (og_bounds (gs_old g))" "sb_end (og_bounds (gs_old g)) \<le> usize_max"
      "?d mod 8 = 0"
      using s(6) tiled_mod8 by (auto simp: old_inv_def)
    have du: "?d + 8 * ?n \<le> usize_max" using promoted(2) oi by linarith
    have lo: "ct_old_start (gs_cards g) \<le> ?d" using r(5,6) [OF aL] fr e0(3) by simp
    have hi': "?d + ?n * 8 \<le> ct_old_start (gs_cards g) + ct_n_cards (gs_cards g) * 512"
      using promoted(2) oi(1) fr e0(3,4) by simp
    have ne: "?d < ?d + ?n * 8" using y(9) by simp
    obtain c1 where c1: "record_multistores (gs_cards g) ?d (?d + ?n * 8) = Inr c1"
      "ct_n_cards c1 = ct_n_cards (gs_cards g)" "ct_old_start c1 = ct_old_start (gs_cards g)"
      by (rule record_multistores_total [OF lo ne hi'])
    let ?m1 = "copy_words m a ?d (?n * 8)"
    let ?g2 = "?g1\<lparr>gs_cards := c1, gs_gc_stats := (gs_gc_stats g)
                    \<lparr>st_bytes_promoted := st_bytes_promoted (gs_gc_stats g) + ?n * 8\<rparr>\<rparr>"
    have fin: "finish_copy True ?d (mem_oop ?d) (mark_age ?h) (?n * 8) (?m1, ?g1) = Inr (?m1, ?g2)"
      using c1(1) du by (simp add: finish_copy_def uadd_def mult.commute)
    have mono: "card_dirty (gs_cards g) x \<Longrightarrow> card_dirty (gs_cards ?g2) x" for x
      using record_multistores_Inr(2) [OF c1(1)] by simp
    have sp: "space_inv e (after_copy c a ?d True) ?g2"
    proof (rule space_inv_copy [OF ok si a _ _ y(9) mono])
      show "same_frame g ?g2" using c1 by (simp add: same_frame_def)
      show "card_dirty (gs_cards ?g2) x" if "?d \<le> x" "x < ?d + 8 * ?n" for x
        using record_multistores_Inr(3) [OF c1(1), of x] that by (simp add: mult.commute)
    qed (use promoted(3) in simp_all)
    have "scav_inv e (after_copy c a ?d True) S (?m1(a := mem_oop ?d), ?g2)"
    proof (rule scav_inv_copy [OF ok hi si mi a oi(3) du free_dest(2) [OF ok si] _ cf _ sp])
      show "?m1 (?d + 8 * i) = m (a + 8 * i)" if "1 \<le> i" "i < ?n" for i using cw that by blast
      show "if True then ?m1 ?d = ?h else aged ?h = Inr (?m1 ?d)"
        using cw [of 0 ?d] y(3,9) by simp
    qed
    moreover have "scavenge_oop (mem_oop a) (m, g) = Inr (mem_oop ?d, ?m1(a := mem_oop ?d), ?g2)"
      by (rule scavenge_oop_copy [OF ok hi si a promoted(1) oi(3) fin])
    moreover have "scav_ext (c, g) (after_copy c a ?d True, ?g2)" by (rule scav_ext_copy [OF a(2) mono])
    moreover have "gh_map (after_copy c a ?d True) = (gh_map c)(a \<mapsto> ?d)" by (simp add: after_copy_def)
    ultimately show ?thesis by blast
  next
    case copied
    let ?d = "sv_top (gs_to g)"
    let ?g1 = "g\<lparr>gs_to := (gs_to g)\<lparr>sv_top := ?d + 8 * ?n\<rparr>\<rparr>"
    have d8: "?d mod 8 = 0" using tiled_mod8 [OF s(4)] fr e0(5) by simp
    have top: "sv_end (gs_to g) \<le> usize_max"
    proof -
      have "og_top (gs_old g) \<le> usize_max" using s(6) by (simp add: old_inv_def)
      then show ?thesis using r(5,6,8) [OF aL] by linarith
    qed
    have du: "?d + 8 * ?n \<le> usize_max" using copied(2) top by linarith
    let ?m1 = "copy_words m a ?d (?n * 8)"
    obtain k where k: "aged ?h = Inr k" using aged_total by blast
    have hd: "?m1 ?d = ?h" using cw [of 0 ?d] y(3,9) by simp
    have mk: "obj_mark ?m1 (mem_oop ?d) = Inr ?h" "obj_set_mark ?m1 (mem_oop ?d) k = Inr (?m1(?d := k))"
      using mark_word_raw_eval [of "mem_oop ?d" ?m1] obj_set_mark_eval [of "mem_oop ?d" ?m1] d8 du hd y(10)
      by (simp_all add: obj_mark_def)
    have "sum_list (gs_age_table g) + ?n * 8 \<le> usize_max" using s(9) du by linarith
    from age_table_record_ok [OF s(8) this age_bound, of "mark_age ?h"] obtain t' where
      t': "age_table_record (gs_age_table g) (min (age_succ (mark_age ?h)) MARK_AGE_MAX) (?n * 8) = Inr t'"
      "length t' = 128" "sum_list t' = sum_list (gs_age_table g) + ?n * 8" by blast
    let ?m2 = "?m1(?d := k)"
    let ?g2 = "?g1\<lparr>gs_age_table := t', gs_gc_stats := (gs_gc_stats g)
                     \<lparr>st_bytes_copied := st_bytes_copied (gs_gc_stats g) + ?n * 8\<rparr>\<rparr>"
    have fin: "finish_copy False ?d (mem_oop ?d) (mark_age ?h) (?n * 8) (?m1, ?g1) = Inr (?m2, ?g2)"
      using mk k t'(1) by (simp add: finish_copy_def Let_def aged_def)
    have sp: "space_inv e (after_copy c a ?d False) ?g2"
      by (rule space_inv_copy [OF ok si a _ _ y(9)]) (use copied(2) t' in \<open>simp_all add: same_frame_def\<close>)
    have "scav_inv e (after_copy c a ?d False) S (?m2(a := mem_oop ?d), ?g2)"
    proof (rule scav_inv_copy [OF ok hi si mi a d8 du free_dest(1) [OF ok si _ _ copied(2)] _ _ _ sp])
      show "?m2 (?d + 8 * i) = m (a + 8 * i)" if "1 \<le> i" "i < ?n" for i using cw [OF that(2), of ?d] that(1) by simp
      show "?m2 x = m x" if "x < ?d \<or> ?d + 8 * ?n \<le> x" for x using cf [OF that] that y(9) by auto
      show "if False then ?m2 ?d = ?h else aged ?h = Inr (?m2 ?d)" using k by simp
    qed
    moreover have "scavenge_oop (mem_oop a) (m, g) = Inr (mem_oop ?d, ?m2(a := mem_oop ?d), ?g2)"
      by (rule scavenge_oop_copy [OF ok hi si a copied(1) d8 fin])
    moreover have "scav_ext (c, g) (after_copy c a ?d False, ?g2)" by (rule scav_ext_copy [OF a(2)]) simp
    moreover have "gh_map (after_copy c a ?d False) = (gh_map c)(a \<mapsto> ?d)" by (simp add: after_copy_def)
    ultimately show ?thesis by blast
  qed
qed

lemma scavenge_oop_ok:
  assumes inv: "scav_inv e c S (m, g)" and v: "live_val (ev_live e) v"
  shows "\<exists>c' m' g'. scavenge_oop v (m, g) = Inr (fwd (gh_map c') v, m', g') \<and> scav_inv e c' S (m', g')
    \<and> scav_ext (c, g) (c', g') \<and> resolved e (gh_map c') v"
proof -
  have ok: "env_ok e" and hi: "heap_inv e (gh_map c) S m" and si: "space_inv e c g"
    using inv by (simp_all add: scav_inv_def)
  note mo = heap_invD(2) [OF hi]
  have fr: "gs_layout g = gs_layout (ev_gs e)" using space_invD(1) [OF si] by (simp add: same_frame_def)
  consider (smi) "\<not> is_mem v" | (old) "is_mem v" "\<not> ev_new e (oaddr v)"
    | (moved) b where "is_mem v" "oaddr v \<in> young e" "gh_map c (oaddr v) = Some b"
    | (fresh) "is_mem v" "oaddr v \<in> young e" "oaddr v \<notin> dom (gh_map c)"
    using v mem_not_smi [of v] unfolding live_val_def young_def by (cases "gh_map c (oaddr v)") blast+
  then show ?thesis
  proof cases
    case smi
    then have "scavenge_oop v (m, g) = Inr (fwd (gh_map c) v, m, g)"
      by (simp add: scavenge_oop.simps fwd_def)
    with inv smi scav_ext_refl show ?thesis by (auto simp: resolved_def)
  next
    case old
    then have "gh_map c (oaddr v) = None" using map_okD(2) [OF mo] by (cases "gh_map c (oaddr v)") auto
    then have "scavenge_oop v (m, g) = Inr (fwd (gh_map c) v, m, g)"
      using old fr by (simp add: scavenge_oop.simps fwd_def mem_addr_eq is_old_def is_new_def)
    with inv old scav_ext_refl show ?thesis by (auto simp: resolved_def)
  next
    case moved
    let ?a = "oaddr v"
    have aL: "?a \<in> ev_live e" "ev_new e ?a" using moved by (simp_all add: young_def)
    have w: "wf_obj (ev_heap e) (ev_live e) ?a" using heap_invD(1) [OF hi aL(1)] .
    have al: "?a mod 8 = 0" "?a \<le> usize_max" using w by (simp_all add: wf_obj_def)
    have b: "b mod 8 = 0" "b \<le> usize_max" using map_okD(3,4) [OF mo moved(3)] by simp_all
    have "m ?a = mem_oop b" using heap_invD(3) [OF hi aL(1)] moved(3) by simp
    then have hw: "mark_word_raw m v = Inr (mem_oop b)" using mark_word_raw_eval [OF moved(1) al] by simp
    have f: "is_forwarded m v = Inr True" "obj_forwardee m v = Inr (mem_oop b)"
      using hw mem_word_forwarded [OF is_mem_mem_oop [OF b(1)]]
      by (simp_all add: is_forwarded_def obj_forwardee_def forwardee_def)
    have "\<not> is_old (gs_layout g) ?a" using aL(2) fr by (simp add: is_old_def is_new_def)
    moreover have "\<not> (sv_start (gs_to g) \<le> ?a \<and> ?a < sv_top (gs_to g))"
      using regions(1) [OF ok si aL] space_invD(5) [OF si] isz_ge2 [OF w] by linarith
    ultimately have "scavenge_oop v (m, g) = Inr (fwd (gh_map c) v, m, g)"
      using moved f by (simp add: scavenge_oop.simps mem_addr_eq mem_try_from_def fwd_def)
    with inv moved scav_ext_refl show ?thesis by (auto simp: resolved_def)
  next
    case fresh
    from copy_object_ok [OF inv fresh(2,3)] obtain c' m' g' d where
      "scavenge_oop v (m, g) = Inr (mem_oop d, m', g')" "gh_map c' = (gh_map c)(oaddr v \<mapsto> d)"
      "scav_inv e c' S (m', g')" "scav_ext (c, g) (c', g')" by (metis mem_oop_oaddr)
    moreover from this have "fwd (gh_map c') v = mem_oop d" "resolved e (gh_map c') v"
      using fresh(1) by (simp_all add: fwd_def resolved_def)
    ultimately show ?thesis by metis
  qed
qed

section \<open>The contract between the collector and the walks\<close>

text \<open>
  A walk hands oops to a visitor and stores what it returns. The contract: the visitor answers, keeps
  the invariant, and its answer stays valid; an unvisited slot holds its original word; storing the
  answer into the slot marks it as visited. \<open>c\<close> is the visitor's ghost state.
\<close>

definition somes :: "'a option list \<Rightarrow> 'a list" where
  "somes bs = List.map_filter (\<lambda>b. b) bs"

definition root_oops :: "root_set \<Rightarrow> oop list" where
  "root_oops r = rs_universe r @ somes (rs_symbols r) @ take (rs_sp r) (rs_stack r) @ rs_handles r @ rs_mint_stack r
     @ somes [rs_regs_method r]"

definition map_root_set :: "(oop \<Rightarrow> oop) \<Rightarrow> root_set \<Rightarrow> root_set" where
  "map_root_set f r =
     r\<lparr>rs_universe := map f (rs_universe r), rs_symbols := map (map_option f) (rs_symbols r),
       rs_stack := map f (take (rs_sp r) (rs_stack r)) @ drop (rs_sp r) (rs_stack r),
       rs_handles := map f (rs_handles r), rs_mint_stack := map f (rs_mint_stack r),
       rs_regs_method := map_option f (rs_regs_method r)\<rparr>"

lemma set_somes: "set (somes bs) = {v. Some v \<in> set bs}"
  by (induction bs) (auto simp: somes_def map_filter_simps split: option.splits)

locale evacuation =
  fixes visit :: "'x visitor"
    and inv :: "'e \<Rightarrow> 'c \<Rightarrow> nat set \<Rightarrow> heap \<times> 'x \<Rightarrow> bool"
    and ext :: "'c \<times> 'x \<Rightarrow> 'c \<times> 'x \<Rightarrow> bool"
    and new_of :: "'c \<Rightarrow> oop \<Rightarrow> oop"
    and live :: "'e \<Rightarrow> oop \<Rightarrow> bool"
    and settled :: "'e \<Rightarrow> 'c \<Rightarrow> oop \<Rightarrow> bool"
    and slot_of :: "'e \<Rightarrow> 'c \<Rightarrow> nat \<Rightarrow> oop \<Rightarrow> bool"
  assumes visit_ok: "inv e c S (m, x) \<Longrightarrow> live e v \<Longrightarrow>
      \<exists>c' m' x'. visit v (m, x) = Inr (new_of c' v, m', x') \<and> inv e c' S (m', x') \<and> ext (c, x) (c', x') \<and> settled e c' v"
    and live_valid: "live e v \<Longrightarrow> oop_from_raw v = Inr v"
    and ext_refl: "ext t t"
    and ext_trans: "ext t t' \<Longrightarrow> ext t' t'' \<Longrightarrow> ext t t''"
    and settled_ext: "settled e c v \<Longrightarrow> ext (c, x) (c', x') \<Longrightarrow> inv e c' S' (m', x') \<Longrightarrow> new_of c' v = new_of c v \<and> settled e c' v"
    and slot_ext: "slot_of e c s v \<Longrightarrow> ext (c, x) (c', x') \<Longrightarrow> slot_of e c' s v"
    and slot_word: "inv e c S (m, x) \<Longrightarrow> slot_of e c s v \<Longrightarrow> live e v \<and> (s \<notin> S \<longrightarrow> m s = v)"
    and slot_write: "inv e c S (m, x) \<Longrightarrow> slot_of e c s v \<Longrightarrow> settled e c v \<Longrightarrow>
      inv e c (insert s S) (m(s := new_of c v), x)"
begin

lemma visit_slot:
  assumes "inv e c S (m, x)" "slot_of e c s v" "s \<notin> S"
  shows "\<exists>c' m' x'. oop_from_raw (m s) = Inr v \<and> visit v (m, x) = Inr (new_of c' v, m', x')
    \<and> inv e c' (insert s S) (m'(s := new_of c' v), x') \<and> ext (c, x) (c', x') \<and> settled e c' v \<and> inv e c' S (m', x')"
proof -
  from slot_word [OF assms(1,2)] assms(3) have l: "live e v" "m s = v" by simp_all
  from visit_ok [OF assms(1) l(1)] obtain c' m' x' where
    r: "visit v (m, x) = Inr (new_of c' v, m', x')" "inv e c' S (m', x')" "ext (c, x) (c', x')" "settled e c' v" by blast
  then show ?thesis using slot_write [OF r(2) slot_ext [OF assms(2) r(3)] r(4)] l live_valid by auto
qed

lemma visit_words_ok:
  assumes "inv e c S (m, x)" and "is_mem w" "oaddr w mod 8 = 0" "distinct is"
    and "\<forall>i \<in> set is. \<exists>v. slot_of e c (body_slot w i) v \<and> body_slot w i \<notin> S \<and> body_slot w i \<le> usize_max"
  shows "\<exists>c' m' x'. visit_words visit w is (m, x) = Inr (m', x') \<and> inv e c' (S \<union> body_slot w ` set is) (m', x')
    \<and> ext (c, x) (c', x')"
  using assms
proof (induction "is" arbitrary: c S m x)
  case Nil
  then show ?case using ext_refl by auto
next
  case (Cons i "is")
  from Cons.prems(5) obtain v where v: "slot_of e c (body_slot w i) v" "body_slot w i \<notin> S" "body_slot w i \<le> usize_max"
    by auto
  from visit_slot [OF Cons.prems(1) v(1,2)] obtain c1 m1 x1 where
    r: "oop_from_raw (m (body_slot w i)) = Inr v" "visit v (m, x) = Inr (new_of c1 v, m1, x1)"
    "inv e c1 (insert (body_slot w i) S) (m1(body_slot w i := new_of c1 v), x1)" "ext (c, x) (c1, x1)" by blast
  have slots: "\<forall>j \<in> set is. \<exists>v. slot_of e c1 (body_slot w j) v \<and> body_slot w j \<notin> insert (body_slot w i) S \<and> body_slot w j \<le> usize_max"
  proof
    fix j assume j: "j \<in> set is"
    then obtain u where "slot_of e c (body_slot w j) u" "body_slot w j \<notin> S" "body_slot w j \<le> usize_max"
      using Cons.prems(5) by auto
    moreover have "j \<noteq> i" using Cons.prems(4) j by auto
    ultimately show "\<exists>v. slot_of e c1 (body_slot w j) v \<and> body_slot w j \<notin> insert (body_slot w i) S \<and> body_slot w j \<le> usize_max"
      using slot_ext [OF _ r(4)] by (intro exI [of _ u]) (simp add: body_slot_inj)
  qed
  have "distinct is" using Cons.prems(4) by simp
  from Cons.IH [OF r(3) Cons.prems(2,3) this slots] obtain c2 m2 x2 where
    s: "visit_words visit w is (m1(body_slot w i := new_of c1 v), x1) = Inr (m2, x2)"
    "inv e c2 (insert (body_slot w i) S \<union> body_slot w ` set is) (m2, x2)" "ext (c1, x1) (c2, x2)" by blast
  have "visit_words visit w (i # is) (m, x) = Inr (m2, x2)"
    using raw_body_word_eval [OF Cons.prems(2,3) v(3)] set_raw_body_word_eval [OF Cons.prems(2,3) v(3)] r(1,2) s(1)
    by simp
  then show ?case using s(2) ext_trans [OF r(4) s(3)] by auto
qed

lemma visit_roots_ok:
  assumes "inv e c S (m, x)" and "\<forall>v \<in> set vs. live e v"
  shows "\<exists>c' m' x'. visit_roots visit vs (m, x) = Inr (map (new_of c') vs, m', x') \<and> inv e c' S (m', x')
    \<and> ext (c, x) (c', x') \<and> (\<forall>v \<in> set vs. settled e c' v)"
  using assms
proof (induction vs arbitrary: c m x)
  case Nil
  then show ?case using ext_refl by auto
next
  case (Cons v vs)
  then have "live e v" by simp
  from visit_ok [OF Cons.prems(1) this] obtain c1 m1 x1 where
    r: "visit v (m, x) = Inr (new_of c1 v, m1, x1)" "inv e c1 S (m1, x1)" "ext (c, x) (c1, x1)" "settled e c1 v" by blast
  from Cons.IH [OF r(2)] Cons.prems(2) obtain c2 m2 x2 where
    s: "visit_roots visit vs (m1, x1) = Inr (map (new_of c2) vs, m2, x2)" "inv e c2 S (m2, x2)" "ext (c1, x1) (c2, x2)"
    "\<forall>v \<in> set vs. settled e c2 v" by auto
  then show ?case
    using r settled_ext [OF r(4) s(3,2)] ext_trans [OF r(3) s(3)] by (intro exI [of _ c2]) auto
qed

lemma visit_symbols_ok:
  assumes "inv e c S (m, x)" and "\<forall>v. Some v \<in> set bs \<longrightarrow> live e v"
  shows "\<exists>c' m' x'. visit_symbols visit bs (m, x) = Inr (map (map_option (new_of c')) bs, m', x') \<and> inv e c' S (m', x')
    \<and> ext (c, x) (c', x') \<and> (\<forall>v. Some v \<in> set bs \<longrightarrow> settled e c' v)"
  using assms
proof (induction bs arbitrary: c m x)
  case Nil
  then show ?case using ext_refl by auto
next
  case (Cons b bs)
  show ?case
  proof (cases b)
    case None
    from Cons.IH [OF Cons.prems(1)] Cons.prems(2) None show ?thesis by auto
  next
    case (Some v)
    then have "live e v" using Cons.prems(2) by simp
    from visit_ok [OF Cons.prems(1) this] obtain c1 m1 x1 where
      r: "visit v (m, x) = Inr (new_of c1 v, m1, x1)" "inv e c1 S (m1, x1)" "ext (c, x) (c1, x1)" "settled e c1 v" by blast
    from Cons.IH [OF r(2)] Cons.prems(2) obtain c2 m2 x2 where
      s: "visit_symbols visit bs (m1, x1) = Inr (map (map_option (new_of c2)) bs, m2, x2)" "inv e c2 S (m2, x2)"
      "ext (c1, x1) (c2, x2)" "\<forall>v. Some v \<in> set bs \<longrightarrow> settled e c2 v" by auto
    then show ?thesis
      using r settled_ext [OF r(4) s(3,2)] ext_trans [OF r(3) s(3)] Some by (intro exI [of _ c2]) auto
  qed
qed

lemma for_each_root_ok:
  assumes "inv e c S (m, x)" and "\<forall>v \<in> set (root_oops r). live e v" and "rs_sp r \<le> length (rs_stack r)"
  shows "\<exists>c' m' x'. for_each_root visit r (m, x) = Inr (map_root_set (new_of c') r, m', x') \<and> inv e c' S (m', x')
    \<and> ext (c, x) (c', x') \<and> (\<forall>v \<in> set (root_oops r). settled e c' v)"
proof -
  have lv: "\<forall>v \<in> set (rs_universe r). live e v" "\<forall>v. Some v \<in> set (rs_symbols r) \<longrightarrow> live e v"
    "\<forall>v \<in> set (take (rs_sp r) (rs_stack r)). live e v" "\<forall>v \<in> set (rs_handles r). live e v"
    "\<forall>v \<in> set (rs_mint_stack r). live e v" "\<forall>v. Some v \<in> set [rs_regs_method r] \<longrightarrow> live e v"
    using assms(2) by (auto simp: root_oops_def set_somes split: option.splits)
  from visit_roots_ok [OF assms(1) lv(1)] obtain c1 m1 x1 where
    r1: "visit_roots visit (rs_universe r) (m, x) = Inr (map (new_of c1) (rs_universe r), m1, x1)" "inv e c1 S (m1, x1)"
    "ext (c, x) (c1, x1)" "\<forall>v \<in> set (rs_universe r). settled e c1 v" by blast
  from visit_symbols_ok [OF r1(2) lv(2)] obtain c2 m2 x2 where
    r2: "visit_symbols visit (rs_symbols r) (m1, x1) = Inr (map (map_option (new_of c2)) (rs_symbols r), m2, x2)"
    "inv e c2 S (m2, x2)" "ext (c1, x1) (c2, x2)" "\<forall>v. Some v \<in> set (rs_symbols r) \<longrightarrow> settled e c2 v" by blast
  from visit_roots_ok [OF r2(2) lv(3)] obtain c3 m3 x3 where
    r3: "visit_roots visit (take (rs_sp r) (rs_stack r)) (m2, x2) = Inr (map (new_of c3) (take (rs_sp r) (rs_stack r)), m3, x3)"
    "inv e c3 S (m3, x3)" "ext (c2, x2) (c3, x3)" "\<forall>v \<in> set (take (rs_sp r) (rs_stack r)). settled e c3 v" by blast
  from visit_roots_ok [OF r3(2) lv(4)] obtain c4 m4 x4 where
    r4: "visit_roots visit (rs_handles r) (m3, x3) = Inr (map (new_of c4) (rs_handles r), m4, x4)" "inv e c4 S (m4, x4)"
    "ext (c3, x3) (c4, x4)" "\<forall>v \<in> set (rs_handles r). settled e c4 v" by blast
  from visit_roots_ok [OF r4(2) lv(5)] obtain c5 m5 x5 where
    r5: "visit_roots visit (rs_mint_stack r) (m4, x4) = Inr (map (new_of c5) (rs_mint_stack r), m5, x5)" "inv e c5 S (m5, x5)"
    "ext (c4, x4) (c5, x5)" "\<forall>v \<in> set (rs_mint_stack r). settled e c5 v" by blast
  from visit_symbols_ok [OF r5(2) lv(6)] obtain c6 m6 x6 where
    r6: "visit_symbols visit [rs_regs_method r] (m5, x5) = Inr (map (map_option (new_of c6)) [rs_regs_method r], m6, x6)"
    "inv e c6 S (m6, x6)" "ext (c5, x5) (c6, x6)" "\<forall>v. Some v \<in> set [rs_regs_method r] \<longrightarrow> settled e c6 v" by blast
  have e5: "ext (c5, x5) (c6, x6)" using r6(3) .
  have e4: "ext (c4, x4) (c6, x6)" using ext_trans [OF r5(3) e5] .
  have e3: "ext (c3, x3) (c6, x6)" using ext_trans [OF r4(3) e4] .
  have e2: "ext (c2, x2) (c6, x6)" using ext_trans [OF r3(3) e3] .
  have e1: "ext (c1, x1) (c6, x6)" using ext_trans [OF r2(3) e2] .
  note se = settled_ext [OF _ _ r6(2)]
  have "map (new_of c1) (rs_universe r) = map (new_of c6) (rs_universe r)"
    "map (map_option (new_of c2)) (rs_symbols r) = map (map_option (new_of c6)) (rs_symbols r)"
    "map (new_of c3) (take (rs_sp r) (rs_stack r)) = map (new_of c6) (take (rs_sp r) (rs_stack r))"
    "map (new_of c4) (rs_handles r) = map (new_of c6) (rs_handles r)"
    "map (new_of c5) (rs_mint_stack r) = map (new_of c6) (rs_mint_stack r)"
    using se [OF _ e1] se [OF _ e2] se [OF _ e3] se [OF _ e4] se [OF _ e5] r1(4) r2(4) r3(4) r4(4) r5(4)
    by (auto intro!: option.map_cong0)
  then have run: "for_each_root visit r (m, x) = Inr (map_root_set (new_of c6) r, m6, x6)"
    using r1(1) r2(1) r3(1) r4(1) r5(1) r6(1) assms(3)
    by (simp add: for_each_root_def map_root_set_def)
  have "\<forall>v \<in> set (root_oops r). settled e c6 v"
    using se [OF _ e1] se [OF _ e2] se [OF _ e3] se [OF _ e4] se [OF _ e5] r1(4) r2(4) r3(4) r4(4) r5(4) r6(4)
    by (auto simp: root_oops_def set_somes split: option.splits)
  then show ?thesis using run r6(2) ext_trans [OF r1(3) e1] by blast
qed

end

interpretation scavenger: evacuation scavenge_oop scav_inv scav_ext "\<lambda>c. fwd (gh_map c)" "\<lambda>e. live_val (ev_live e)"
  "\<lambda>e c. resolved e (gh_map c)" "\<lambda>e c. slot e (gh_map c)"
proof unfold_locales
  fix e c S m g v assume "scav_inv e c S (m, g)" "live_val (ev_live e) v"
  then show "\<exists>c' m' x'. scavenge_oop v (m, g) = Inr (fwd (gh_map c') v, m', x') \<and> scav_inv e c' S (m', x')
    \<and> scav_ext (c, g) (c', x') \<and> resolved e (gh_map c') v"
    by (rule scavenge_oop_ok)
next
  show "live_val (ev_live e) v \<Longrightarrow> oop_from_raw v = Inr v" for e v by (rule live_val_valid)
  show "scav_ext s s" for s by (rule scav_ext_refl)
  show "scav_ext s s' \<Longrightarrow> scav_ext s' s'' \<Longrightarrow> scav_ext s s''" for s s' s''
    unfolding scav_ext_def by (auto intro: map_le_trans prefix_order.trans)
  show "slot e (gh_map c) s v \<Longrightarrow> scav_ext (c, x) (c', x') \<Longrightarrow> slot e (gh_map c') s v" for e c s v x c' x'
    using slot_mono by (auto simp: scav_ext_def)
next
  fix e c v x c' x' S' m'
  assume "resolved e (gh_map c) v" "scav_ext (c, x) (c', x')" "scav_inv e c' S' (m', x')"
  then show "fwd (gh_map c') v = fwd (gh_map c) v \<and> resolved e (gh_map c') v"
    using fwd_stable [of "gh_map c" "gh_map c'"] heap_invD(2) by (fastforce simp: scav_ext_def scav_inv_def)
next
  fix e c S m x s v assume i: "scav_inv e c S (m, x)" and s: "slot e (gh_map c) s v"
  then show "live_val (ev_live e) v \<and> (s \<notin> S \<longrightarrow> m s = v)"
    using slot_live [of e "gh_map c" S m] by (auto simp: scav_inv_def)
  assume r: "resolved e (gh_map c) v"
  have hi: "heap_inv e (gh_map c) S m" and si: "space_inv e c x" and mi: "mark_inv e c m"
    using i by (simp_all add: scav_inv_def)
  have "the (gh_map c a) \<noteq> s" if "a \<in> set (gh_copied c) \<union> set (gh_promoted c)" for a
  proof
    have "a \<in> dom (gh_map c)" using that space_invD(3) [OF si] by simp
    then obtain l where l: "gh_map c a = Some l" by blast
    note mo = heap_invD(2) [OF hi]
    have aL: "a \<in> ev_live e" using map_okD(1) [OF mo l] .
    have "0 < isz (ev_heap e) a" using isz_ge2 [OF heap_invD(1) [OF hi aL]] by simp
    moreover assume "the (gh_map c a) = s"
    then have "slot e (gh_map c) (l + 8 * 0) v" using s l by simp
    ultimately have "0 \<in> slot_idx (ev_heap e) a"
      using slot_unique [OF hi _ aL, of l 0 v] l by (auto simp: readable_def)
    then show False using slot_idx_bound [OF heap_invD(1) [OF hi aL]] by fastforce
  qed
  then have "mark_inv e c (m(s := fwd (gh_map c) v))" using mi by (simp add: mark_inv_def)
  then show "scav_inv e c (insert s S) (m(s := fwd (gh_map c) v), x)"
    using i heap_inv_write [OF hi s r] by (simp add: scav_inv_def)
qed

end
