(* ===== verification/ScavengeCycle.thy ===== *)
theory ScavengeCycle
  imports ScavengeVisit
begin

unbundle bit_operations_syntax

text \<open>
  The Cheney loop: scanning one object forwards all its slots, and the loop ends with every copied and
  every promoted object scanned, as each object it scans takes one off the young objects left to copy.
\<close>

section \<open>Scanning one object\<close>

definition slots_at :: "scav_env \<Rightarrow> nat \<Rightarrow> nat \<Rightarrow> nat set" where
  "slots_at e a l = (\<lambda>i. l + 8 * i) ` slot_idx (ev_heap e) a"

definition body_slots_at :: "scav_env \<Rightarrow> nat \<Rightarrow> nat \<Rightarrow> nat set" where
  "body_slots_at e a l =
     (case oshape (ev_heap e) a of (k, nis, f) \<Rightarrow> body_slot (mem_oop l) ` set (oop_words f nis (olen (ev_heap e) a)))"

lemma slots_at_split: "l \<le> usize_max \<Longrightarrow> slots_at e a l = insert (l + 8) (body_slots_at e a l)"
  by (auto simp: slots_at_def body_slots_at_def slot_idx_def body_slot_mem_oop image_image split: prod.splits)

lemma scav_invD:
  assumes "scav_inv e c S (m, g)"
  shows "env_ok e" "heap_inv e (gh_map c) S m" "space_inv e c g" "mark_inv e c m"
    "heap_view (ev_heap e) (ev_live e) (readable (gh_map c)) m" "map_ok e (gh_map c)"
    "same_frame (ev_gs e) g"
  using assms heap_inv_view [of e "gh_map c" S m] heap_invD(2) space_invD(1) by (auto simp: scav_inv_def)

lemma for_each_ok:
  assumes inv: "scav_inv e c S (m, g)" and a: "a \<in> ev_live e" "home e (gh_map c) a = Some l"
    and k: "readable (gh_map c) (oaddr (ev_heap e (a + 8))) (oaddr k')" "is_mem k'"
    and fresh: "body_slots_at e a l \<inter> S = {}"
  shows "\<exists>c' m' g'. for_each_oop_field scavenge_oop (mem_oop l) k' (m, g) = Inr (m', g')
    \<and> scav_inv e c' (S \<union> body_slots_at e a l) (m', g') \<and> scav_ext (c, g) (c', g')"
proof -
  let ?H = "ev_heap e"
  obtain k nis f where os: "oshape ?H a = (k, nis, f)" by (cases "oshape ?H a")
  let ?n = "olen ?H a" and ?w = "mem_oop l"
  note d = scav_invD [OF inv] and rl = home_readable [OF a(2)]
  note vs = view_shape [OF d(5) a(1) rl os] and hd = heap_viewD [OF d(5) a(1) rl]
  have kk: "readable (gh_map c) (oaddr k) (oaddr k')" using k(1) vs(10) by simp
  have nf: "non_indexable_size m k' = Inr nis" "klass_format m k' = Inr f" using vs(5,6) [OF kk k(2)] by simp_all
  have bs: "body_slots_at e a l = body_slot ?w ` set (oop_words f nis ?n)" by (simp add: body_slots_at_def os)
  have w: "is_mem ?w" "oaddr ?w mod 8 = 0" using hd(1,3) by simp_all
  have sl: "slot e (gh_map c1) (body_slot ?w i) (?H (a + 8 * (i + 2))) \<and> body_slot ?w i \<le> usize_max"
    if "i \<in> set (oop_words f nis ?n)" "gh_map c \<subseteq>\<^sub>m gh_map c1" for i c1
  proof
    have "slot e (gh_map c) (body_slot ?w i) (?H (a + 8 * (i + 2)))"
      unfolding slot_def body_slot_mem_oop [OF hd(3)] using a that by (force simp: slot_idx_def os)
    then show "slot e (gh_map c1) (body_slot ?w i) (?H (a + 8 * (i + 2)))" using slot_mono that(2) by blast
    have "i + 2 < isz ?H a" using oop_words_bound [OF that(1) vs(8)] vs(9) by simp
    then show "body_slot ?w i \<le> usize_max" using hd(2) by (simp add: body_slot_mem_oop [OF hd(3)])
  qed
  have named: "\<exists>c' m' g'. visit_words scavenge_oop ?w is (m1, g1) = Inr (m', g')
      \<and> scav_inv e c' (S1 \<union> body_slot ?w ` set is) (m', g') \<and> scav_ext (c, g) (c', g')"
    if "scav_inv e c1 S1 (m1, g1)" "scav_ext (c, g) (c1, g1)" "set is \<subseteq> set (oop_words f nis ?n)" "distinct is"
      "body_slot ?w ` set is \<inter> S1 = {}" for "is" c1 S1 m1 g1
  proof -
    have "gh_map c \<subseteq>\<^sub>m gh_map c1" using that(2) by (simp add: scav_ext_def)
    then have "\<forall>i \<in> set is. \<exists>v. slot e (gh_map c1) (body_slot ?w i) v \<and> body_slot ?w i \<notin> S1 \<and> body_slot ?w i \<le> usize_max"
      using sl that(3,5) by blast
    from scavenger.visit_words_ok [OF that(1) w that(4) this] show ?thesis
      using scavenger.ext_trans [OF that(2)] by blast
  qed
  note r0 = named [OF inv scavenger.ext_refl]
  consider (tail) "tail_format f" | (none) "f = Double \<or> f = Process" | (plain) "f \<in> {Slots, Klass, IndexableBytes, Method}"
    by (cases f) (auto simp: tail_format_def)
  then show ?thesis
  proof cases
    case none
    then have "body_slots_at e a l = {}" using bs by auto
    moreover have "for_each_oop_field scavenge_oop ?w k' (m, g) = Inr (m, g)"
      using none nf vs(8) by (auto simp: for_each_oop_field_def HEADER_WORDS_def)
    ultimately show ?thesis using inv scavenger.ext_refl by auto
  next
    case plain
    then have o: "oop_words f nis ?n = [0..<nis - 2]" by auto
    have "for_each_oop_field scavenge_oop ?w k' (m, g) = visit_words scavenge_oop ?w [0..<nis - 2] (m, g)"
      using plain nf vs(8) by (auto simp: for_each_oop_field_def HEADER_WORDS_def)
    then show ?thesis using r0 [of "[0..<nis - 2]"] fresh by (simp add: bs o)
  next
    case tail
    then have o: "oop_words f nis ?n = [0..<nis - 2] @ [nis - 1..<nis - 1 + ?n]"
      by (auto simp: tail_format_def)
    have "body_slot ?w ` set [0..<nis - 2] \<inter> S = {}" using fresh by (auto simp: bs o)
    from r0 [of "[0..<nis - 2]", OF _ _ this] obtain c1 m1 g1 where
      v1: "visit_words scavenge_oop ?w [0..<nis - 2] (m, g) = Inr (m1, g1)"
      "scav_inv e c1 (S \<union> body_slot ?w ` set [0..<nis - 2]) (m1, g1)" "scav_ext (c, g) (c1, g1)"
      by (auto simp: o)
    have "home e (gh_map c1) a = Some l"
      using a(2) v1(3) by (auto simp: home_def scav_ext_def map_le_def dom_def split: if_splits)
    then have len: "raw_size_slot m1 ?w nis = Inr ?n"
      using view_shape(2) [OF scav_invD(5) [OF v1(2)] a(1) home_readable os] tail by simp
    have "body_slot ?w ` set [nis - 1..<nis - 1 + ?n] \<inter> (S \<union> body_slot ?w ` set [0..<nis - 2]) = {}"
      using fresh by (auto simp: bs o body_slot_inj)
    from named [OF v1(2,3) _ _ this] obtain c2 m2 g2 where
      v2: "visit_words scavenge_oop ?w [nis - 1..<nis - 1 + ?n] (m1, g1) = Inr (m2, g2)"
      "scav_inv e c2 (S \<union> body_slot ?w ` set [0..<nis - 2] \<union> body_slot ?w ` set [nis - 1..<nis - 1 + ?n]) (m2, g2)"
      "scav_ext (c, g) (c2, g2)" by (auto simp: o)
    have e: "map (\<lambda>i. nis - 2 + 1 + i) [0..<?n] = [nis - 1..<nis - 1 + ?n]"
      using vs(8) by (intro nth_equalityI) auto
    have "for_each_oop_field scavenge_oop ?w k' (m, g) = rbind (visit_words scavenge_oop ?w [0..<nis - 2] (m, g))
        (\<lambda>s'. rbind (raw_size_slot (fst s') ?w nis) (\<lambda>len.
          visit_words scavenge_oop ?w (map (\<lambda>i. nis - 2 + 1 + i) [0..<len]) s'))"
    proof -
      have u: "usub nis HEADER_WORDS = Inr (nis - 2)" using vs(8) by (simp add: HEADER_WORDS_def)
      have "f = IndexableOops \<or> f = Closure \<or> f = Context" using tail by (auto simp: tail_format_def)
      then show ?thesis
        by (elim disjE) (simp_all only: for_each_oop_field_def fst_conv nf u rbind_simps format.case)
    qed
    then have "for_each_oop_field scavenge_oop ?w k' (m, g) = Inr (m2, g2)"
      unfolding v1(1) rbind_simps fst_conv len e v2(1) .
    moreover have "S \<union> body_slots_at e a l = S \<union> body_slot ?w ` set [0..<nis - 2] \<union> body_slot ?w ` set [nis - 1..<nis - 1 + ?n]"
      by (simp only: bs o set_append image_Un Un_assoc)
    ultimately show ?thesis using v2(2,3) by metis
  qed
qed

lemma home_ext: "home e (gh_map c) a = Some l \<Longrightarrow> scav_ext (c, g) (c', g') \<Longrightarrow> home e (gh_map c') a = Some l"
  by (auto simp: home_def scav_ext_def map_le_def dom_def split: if_splits)

lemma scan_object_ok:
  assumes inv: "scav_inv e c S (m, g)" and a: "a \<in> ev_live e" "home e (gh_map c) a = Some l"
    and fresh: "slots_at e a l \<inter> S = {}" and ps: "gs_pending_stall (ev_gs e) = None"
  shows "\<exists>c' m' g'. scan_object l (m, g) = Inr (Inr (l + 8 * isz (ev_heap e) a), m', g')
    \<and> scav_inv e c' (S \<union> slots_at e a l) (m', g') \<and> scav_ext (c, g) (c', g')"
proof -
  let ?H = "ev_heap e" and ?w = "mem_oop l"
  obtain k nis f where os: "oshape ?H a = (k, nis, f)" by (cases "oshape ?H a")
  note d = scav_invD [OF inv] and rl = home_readable [OF a(2)]
  note vs = view_shape [OF d(5) a(1) rl os] and hd = heap_viewD [OF d(5) a(1) rl]
  note two = isz_ge2 [OF hd(6)]
  have sp: "slots_at e a l = insert (l + 8) (body_slots_at e a l)" using slots_at_split [OF hd(3)] .
  have l8: "l + 8 \<notin> S" "l + 8 \<le> usize_max" using fresh sp hd(2) two by auto
  have sl: "slot e (gh_map c) (l + 8) k"
    unfolding slot_def using a vs(10) by (force simp: slot_idx_def os)
  from scavenger.visit_slot [OF inv sl l8(1)] obtain c1 m1 g1 where
    v1: "scavenge_oop k (m, g) = Inr (fwd (gh_map c1) k, m1, g1)" "m (l + 8) = k"
    "scav_inv e c1 (insert (l + 8) S) (m1(l + 8 := fwd (gh_map c1) k), g1)" "scav_ext (c, g) (c1, g1)"
    using slot_live(2) [OF d(2) sl l8(1)] by blast
  let ?k = "fwd (gh_map c1) k" and ?m1 = "m1(l + 8 := fwd (gh_map c1) k)"
  have a1: "home e (gh_map c1) a = Some l" using home_ext [OF a(2) v1(4)] .
  note d1 = scav_invD [OF v1(3)]
  note vs1 = view_shape [OF d1(5) a(1) home_readable [OF a1] os]
  note ko1 = view_klass_oop [OF d1(5) a(1) home_readable [OF a1]]
  have rk: "readable (gh_map c1) (oaddr k) (oaddr ?k)" "is_mem ?k" using ko1(2,3) vs(10) by simp_all
  have ok: "obj_klass ?m1 ?w = Inr ?k" using vs1(1) by (simp add: shape_Inr)
  have fr: "body_slots_at e a l \<inter> insert (l + 8) S = {}"
    using fresh sp by (auto simp: body_slots_at_def os body_slot_mem_oop [OF hd(3)])
  have rk': "readable (gh_map c1) (oaddr (?H (a + 8))) (oaddr ?k)" using rk(1) vs(10) by simp
  from for_each_ok [OF v1(3) a(1) a1 rk' rk(2) fr] obtain c2 m2 g2 where
    v2: "for_each_oop_field scavenge_oop ?w ?k (?m1, g1) = Inr (m2, g2)"
    "scav_inv e c2 (insert (l + 8) S \<union> body_slots_at e a l) (m2, g2)" "scav_ext (c1, g1) (c2, g2)" by blast
  have sb: "scan_body ?w (?m1, g1) = Inr (m2, g2)" using ok v2(1) by (simp add: scan_body_def)
  have np: "gs_pending_stall g2 = None" using scav_invD(7) [OF v2(2)] ps by (simp add: same_frame_def)
  have a2: "home e (gh_map c2) a = Some l" using home_ext [OF a1 v2(3)] .
  note vs2 = view_shape [OF scav_invD(5) [OF v2(2)] a(1) home_readable [OF a2] os]
  have rk2: "readable (gh_map c2) (oaddr k) (oaddr ?k)"
    using rk(1) v2(3) by (auto simp: readable_def scav_ext_def map_le_def dom_def)
  have "umul (isz ?H a) 8 = Inr (isz ?H a * 8)" "uadd l (isz ?H a * 8) = Inr (l + 8 * isz ?H a)"
    using hd(2) by (simp_all add: umul_def uadd_def mult.commute)
  then have "scan_object l (m, g) = Inr (Inr (l + 8 * isz ?H a), m2, g2)"
    using view_klass_oop(1) [OF d(5) a(1) rl] v1(1,2) set_klass_raw_eval [of ?w m1 ?k] hd(1,3) l8(2) sb np
      vs2(4,7) [OF rk2 rk(2)]
    by (simp add: scan_object_def oop_from_raw_mem_oop)
  moreover have "insert (l + 8) S \<union> body_slots_at e a l = S \<union> slots_at e a l" using sp by auto
  ultimately show ?thesis using v2(2) scavenger.ext_trans [OF v1(4) v2(3)] by metis
qed

section \<open>The Cheney loop\<close>

lemma tiled_append_iff: "tiled s (xs @ ys) t \<longleftrightarrow> (\<exists>u. tiled s xs u \<and> tiled u ys t)"
  by (induction xs arbitrary: s) auto

lemma tiled_functional: "tiled s xs t \<Longrightarrow> tiled s xs u \<Longrightarrow> t = u"
  by (induction xs arbitrary: s) auto

lemma tiled_rest: "tiled s xs u \<Longrightarrow> tiled s (xs @ ys) t \<Longrightarrow> tiled u ys t"
  using tiled_functional unfolding tiled_append_iff by blast

lemma placed_mono: "p \<subseteq>\<^sub>m p' \<Longrightarrow> set as \<subseteq> dom p \<Longrightarrow> placed e p' as = placed e p as"
  unfolding placed_def map_le_def by (intro map_cong refl) (metis subsetD)

lemma placed_append: "placed e p (as @ bs) = placed e p as @ placed e p bs"
  by (simp add: placed_def)

lemma tiled_promoted:
  assumes "scav_inv e c S (m, g)"
  shows "tiled (og_top (gs_old (ev_gs e))) (placed e (gh_map c) (gh_promoted c)) (og_top (gs_old g))"
proof -
  note d = scav_invD [OF assms] and s = spaces_okD [OF env_okD(1)]
  have "tiled (sb_start (og_bounds (gs_old g))) (ev_olds e) (og_top (gs_old (ev_gs e)))"
    using s(1) [OF d(1)] d(7) by (simp add: old_inv_def same_frame_def)
  moreover have "tiled (sb_start (og_bounds (gs_old g))) (ev_olds e @ placed e (gh_map c) (gh_promoted c)) (og_top (gs_old g))"
    using space_invD(6) [OF d(3)] by (simp add: old_inv_def)
  ultimately show ?thesis using tiled_functional unfolding tiled_append_iff by blast
qed

lemma home_copied:
  assumes "scav_inv e c S (m, g)" "a \<in> set (gh_copied c) \<union> set (gh_promoted c)"
  shows "a \<in> ev_live e" "a \<in> young e" "home e (gh_map c) a = Some (the (gh_map c a))" "gh_map c a = Some (the (gh_map c a))"
proof -
  note d = scav_invD [OF assms(1)]
  have "a \<in> dom (gh_map c)" using space_invD(3) [OF d(3)] assms(2) by simp
  then obtain b where b: "gh_map c a = Some b" by blast
  then show "a \<in> ev_live e" "gh_map c a = Some (the (gh_map c a))" using map_okD(1) [OF d(6)] by auto
  show "a \<in> young e" "home e (gh_map c) a = Some (the (gh_map c a))"
    using map_okD(1,2) [OF d(6) b] b by (simp_all add: young_def home_def)
qed

lemma slots_disjoint:
  assumes inv: "scav_inv e c S (m, g)" and "a \<in> ev_live e" "b \<in> ev_live e" "a \<noteq> b"
    and "home e (gh_map c) a = Some l" "home e (gh_map c) b = Some l'"
  shows "slots_at e a l \<inter> slots_at e b l' = {}"
proof -
  note d = scav_invD [OF inv]
  have False if "i \<in> slot_idx (ev_heap e) a" "j \<in> slot_idx (ev_heap e) b" "l + 8 * i = l' + 8 * j" for i j
    using word_unique [OF d(6) assms(2,3) home_readable [OF assms(5)] home_readable [OF assms(6)] _ _ that(3)]
      slot_idx_bound [OF heap_invD(1) [OF d(2) assms(2)] that(1)]
      slot_idx_bound [OF heap_invD(1) [OF d(2) assms(3)] that(2)] assms(4) by blast
  then show ?thesis by (auto simp: slots_at_def)
qed

text \<open>The slots of an object copied later were not visited before.\<close>

lemma new_slots_fresh:
  assumes inv: "scav_inv e c S (m, g)" and inv': "scav_inv e c' S' (m', g')" and ext: "scav_ext (c, g) (c', g')"
    and b: "b \<notin> dom (gh_map c)" "b \<in> young e" "gh_map c' b = Some l"
  shows "slots_at e b l \<inter> S = {}"
proof -
  note d = scav_invD [OF inv]
  have False if s: "s \<in> slots_at e b l" "s \<in> S" for s
  proof -
    obtain v where "slot e (gh_map c) s v" using heap_invD(6) [OF d(2) s(2)] by blast
    then obtain a l0 i where a: "a \<in> ev_live e" "home e (gh_map c) a = Some l0" "i \<in> slot_idx (ev_heap e) a" "s = l0 + 8 * i"
      by (auto simp: slot_def)
    have "a \<noteq> b" using a(2) b(1,2) by (auto simp: home_def young_def)
    moreover have "home e (gh_map c') b = Some l" "b \<in> ev_live e" using b by (simp_all add: home_def young_def)
    ultimately have "slots_at e a l0 \<inter> slots_at e b l = {}"
      using slots_disjoint [OF inv' a(1)] home_ext [OF a(2) ext] by blast
    then show False using s(1) a(3,4) by (auto simp: slots_at_def)
  qed
  then show ?thesis by blast
qed

definition scanned :: "scav_env \<Rightarrow> ghost \<Rightarrow> nat set \<Rightarrow> nat list \<Rightarrow> bool" where
  "scanned e c S as \<longleftrightarrow> (\<forall>a \<in> set as. slots_at e a (the (gh_map c a)) \<subseteq> S)"

definition unscanned :: "scav_env \<Rightarrow> ghost \<Rightarrow> nat set \<Rightarrow> nat list \<Rightarrow> bool" where
  "unscanned e c S as \<longleftrightarrow> (\<forall>a \<in> set as. slots_at e a (the (gh_map c a)) \<inter> S = {})"

lemma scan_step:
  assumes inv: "scav_inv e c S (m, g)" and ps: "gs_pending_stall (ev_gs e) = None"
    and a: "a \<in> set (gh_copied c) \<union> set (gh_promoted c)" and fresh: "unscanned e c S (a # us)"
    and us: "set us \<subseteq> set (gh_copied c) \<union> set (gh_promoted c)" "a \<notin> set us"
    and sc: "scanned e c S ss" "set ss \<subseteq> set (gh_copied c) \<union> set (gh_promoted c)"
  obtains c' m' g' X Y where "scan_object (the (gh_map c a)) (m, g) =
      Inr (Inr (the (gh_map c a) + 8 * isz (ev_heap e) a), m', g')"
    "scav_inv e c' (S \<union> slots_at e a (the (gh_map c a))) (m', g')" "scav_ext (c, g) (c', g')"
    "gh_copied c' = gh_copied c @ X" "gh_promoted c' = gh_promoted c @ Y"
    "unscanned e c' (S \<union> slots_at e a (the (gh_map c a))) (us @ X @ Y)"
    "scanned e c' (S \<union> slots_at e a (the (gh_map c a))) (a # ss)"
proof -
  let ?l = "the (gh_map c a)"
  note ha = home_copied [OF inv a]
  have "slots_at e a ?l \<inter> S = {}" using fresh by (simp add: unscanned_def)
  from scan_object_ok [OF inv ha(1,3) this ps] obtain c' m' g' where
    r: "scan_object ?l (m, g) = Inr (Inr (?l + 8 * isz (ev_heap e) a), m', g')"
    "scav_inv e c' (S \<union> slots_at e a ?l) (m', g')" "scav_ext (c, g) (c', g')" by blast
  obtain X Y where XY: "gh_copied c' = gh_copied c @ X" "gh_promoted c' = gh_promoted c @ Y"
    using r(3) by (auto simp: scav_ext_def prefix_def)
  note d = scav_invD [OF inv] and d' = scav_invD [OF r(2)]
  have same: "the (gh_map c' b) = the (gh_map c b) \<and> home e (gh_map c') b = Some (the (gh_map c b)) \<and> b \<in> ev_live e"
    if "b \<in> set (gh_copied c) \<union> set (gh_promoted c)" for b
    using home_copied [OF inv that] home_ext [OF _ r(3)] r(3) by (auto simp: scav_ext_def map_le_def dom_def home_def young_def)
  have un: "unscanned e c' (S \<union> slots_at e a ?l) (us @ X @ Y)"
    unfolding unscanned_def
  proof
    fix b assume b: "b \<in> set (us @ X @ Y)"
    then have bc: "b \<in> set (gh_copied c') \<union> set (gh_promoted c')" using us XY by auto
    note hb = home_copied [OF r(2) bc]
    have dist: "distinct (gh_copied c' @ gh_promoted c')" using space_invD(2) [OF d'(3)] .
    have ba: "b \<noteq> a" using b us(2) a dist XY by auto
    have "slots_at e b (the (gh_map c' b)) \<inter> S = {}"
    proof (cases "b \<in> set us")
      case True
      then have "b \<in> set (gh_copied c) \<union> set (gh_promoted c)" using us(1) by blast
      moreover have "slots_at e b (the (gh_map c b)) \<inter> S = {}" using fresh True by (simp add: unscanned_def)
      ultimately show ?thesis using same [of b] by simp
    next
      case False
      then have "b \<notin> dom (gh_map c)" using b dist XY space_invD(3) [OF d(3)] by auto
      then show ?thesis using new_slots_fresh [OF inv r(2,3) _ hb(2,4)] by blast
    qed
    moreover have "slots_at e b (the (gh_map c' b)) \<inter> slots_at e a ?l = {}"
      using slots_disjoint [OF r(2) hb(1) ha(1) ba hb(3)] same [OF a] by blast
    ultimately show "slots_at e b (the (gh_map c' b)) \<inter> (S \<union> slots_at e a ?l) = {}" by blast
  qed
  have "scanned e c' (S \<union> slots_at e a ?l) (a # ss)"
    using sc same a by (fastforce simp: scanned_def)
  with that r XY un show thesis by blast
qed

lemma cheney_ok:
  assumes "scav_inv e c S (m, g)" and "gs_pending_stall (ev_gs e) = None"
    and "gh_copied c = T1 @ T2" "gh_promoted c = P1 @ P2"
    and "tiled (sv_start (gs_to g)) (placed e (gh_map c) T1) to_scan"
    and "tiled (og_top (gs_old (ev_gs e))) (placed e (gh_map c) P1) old_scan"
    and "scanned e c S (T1 @ P1)" and "unscanned e c S (T2 @ P2)"
  shows "\<exists>c' S' m' g'. cheney to_scan old_scan (m, g) = Some (Inr (Inr (), m', g')) \<and> scav_inv e c' S' (m', g')
    \<and> scav_ext (c, g) (c', g') \<and> S \<subseteq> S' \<and> scanned e c' S' (gh_copied c' @ gh_promoted c')"
  using assms
proof (induction "card (young e) - (length T1 + length P1)" arbitrary: c S m g T1 T2 P1 P2 to_scan old_scan rule: less_induct)
  case less
  note inv = less.prems(1) and ps = less.prems(2)
  note d = scav_invD [OF inv]
  note s = space_invD [OF d(3)]
  have dist: "distinct (T1 @ T2 @ P1 @ P2)" using s(2) less.prems(3,4) by simp
  have "set (T1 @ T2 @ P1 @ P2) \<subseteq> young e"
    using home_copied(2) [OF inv] less.prems(3,4) by auto
  then have "length (T1 @ T2 @ P1 @ P2) \<le> card (young e)"
    using dist env_okD(3) [OF d(1)] by (metis card_mono distinct_card)
  then have len: "length T1 + length T2 + length P1 + length P2 \<le> card (young e)" by simp
  have tt: "tiled to_scan (placed e (gh_map c) T2) (sv_top (gs_to g))"
    by (rule tiled_rest [OF less.prems(5)]) (use s(4) less.prems(3) in \<open>simp add: placed_append\<close>)
  have tp: "tiled old_scan (placed e (gh_map c) P2) (og_top (gs_old g))"
    by (rule tiled_rest [OF less.prems(6)]) (use tiled_promoted [OF inv] less.prems(4) in \<open>simp add: placed_append\<close>)
  have frame: "sv_start (gs_to g') = sv_start (gs_to g)" if "scav_inv e c' S' (m', g')" for c' S' m' g'
    using scav_invD(7) [OF that] d(7) by (simp add: same_frame_def)
  have keep: "placed e (gh_map c') as = placed e (gh_map c) as"
    if "scav_ext (c, g) (c', g')" "set as \<subseteq> set (gh_copied c) \<union> set (gh_promoted c)" for c' g' as
    using that s(3) by (intro placed_mono) (auto simp: scav_ext_def)
  show ?case
  proof (cases "T2")
    case (Cons a T3)
    have la: "to_scan = the (gh_map c a)" and n: "0 < isz (ev_heap e) a"
      using tt by (simp_all add: Cons placed_def)
    have lt: "to_scan < sv_top (gs_to g)" using tiled_extent [OF tt, of to_scan "8 * isz (ev_heap e) a"] la n
      by (simp add: Cons placed_def)
    have u: "unscanned e c S (a # T3 @ P2)" using less.prems(8) Cons by (simp add: unscanned_def)
    obtain c' m' g' X Y where r: "scan_object to_scan (m, g) = Inr (Inr (to_scan + 8 * isz (ev_heap e) a), m', g')"
      "scav_inv e c' (S \<union> slots_at e a to_scan) (m', g')" "scav_ext (c, g) (c', g')"
      "gh_copied c' = gh_copied c @ X" "gh_promoted c' = gh_promoted c @ Y"
      "unscanned e c' (S \<union> slots_at e a to_scan) ((T3 @ P2) @ X @ Y)"
      "scanned e c' (S \<union> slots_at e a to_scan) (a # T1 @ P1)"
      by (rule scan_step [OF inv ps _ u _ _ less.prems(7), folded la])
        (use less.prems(3,4) Cons dist in auto)
    have k: "placed e (gh_map c') (T1 @ [a]) = placed e (gh_map c) (T1 @ [a])"
      by (rule keep [OF r(3)]) (use less.prems(3) Cons in auto)
    have one: "tiled to_scan (placed e (gh_map c) [a]) (to_scan + 8 * isz (ev_heap e) a)"
      using la n by (simp add: placed_def)
    have "tiled (sv_start (gs_to g')) (placed e (gh_map c') (T1 @ [a])) (to_scan + 8 * isz (ev_heap e) a)"
      unfolding k unfolding placed_append tiled_append_iff frame [OF r(2)] using less.prems(5) one by blast
    moreover have "tiled (og_top (gs_old (ev_gs e))) (placed e (gh_map c') P1) old_scan"
      by (subst keep [OF r(3)]) (use less.prems(4,6) in auto)
    moreover have "scanned e c' (S \<union> slots_at e a to_scan) ((T1 @ [a]) @ P1)" using r(7) by (auto simp: scanned_def)
    moreover have "unscanned e c' (S \<union> slots_at e a to_scan) ((T3 @ X) @ (P2 @ Y))" using r(6) by (auto simp: unscanned_def)
    moreover have "card (young e) - (length (T1 @ [a]) + length P1) < card (young e) - (length T1 + length P1)"
      using len Cons by simp
    moreover have "gh_copied c' = (T1 @ [a]) @ (T3 @ X)" "gh_promoted c' = P1 @ (P2 @ Y)"
      using r(4,5) less.prems(3,4) Cons by simp_all
    ultimately obtain c2 S2 m2 g2 where
      "cheney (to_scan + 8 * isz (ev_heap e) a) old_scan (m', g') = Some (Inr (Inr (), m2, g2))"
      "scav_inv e c2 S2 (m2, g2)" "scav_ext (c', g') (c2, g2)" "S \<union> slots_at e a to_scan \<subseteq> S2"
      "scanned e c2 S2 (gh_copied c2 @ gh_promoted c2)"
      using less.hyps [OF _ r(2) ps] by blast
    moreover from this(1) have "cheney to_scan old_scan (m, g) = Some (Inr (Inr (), m2, g2))"
      by (subst cheney.simps) (simp add: lt r(1))
    ultimately show ?thesis using scavenger.ext_trans [OF r(3)] by blast
  next
    case Nil
    then have top: "to_scan = sv_top (gs_to g)" using tt by (simp add: placed_def)
    show ?thesis
    proof (cases P2)
      case (Cons a P3)
      have la: "old_scan = the (gh_map c a)" and n: "0 < isz (ev_heap e) a"
        using tp by (simp_all add: Cons placed_def)
      have lt: "old_scan < og_top (gs_old g)" using tiled_extent [OF tp, of old_scan "8 * isz (ev_heap e) a"] la n
        by (simp add: Cons placed_def)
      have u: "unscanned e c S (a # P3)" using less.prems(8) Cons by (simp add: unscanned_def)
      obtain c' m' g' X Y where r: "scan_object old_scan (m, g) = Inr (Inr (old_scan + 8 * isz (ev_heap e) a), m', g')"
        "scav_inv e c' (S \<union> slots_at e a old_scan) (m', g')" "scav_ext (c, g) (c', g')"
        "gh_copied c' = gh_copied c @ X" "gh_promoted c' = gh_promoted c @ Y"
        "unscanned e c' (S \<union> slots_at e a old_scan) (P3 @ X @ Y)"
        "scanned e c' (S \<union> slots_at e a old_scan) (a # T1 @ P1)"
        by (rule scan_step [OF inv ps _ u _ _ less.prems(7), folded la])
          (use less.prems(3,4) Cons dist in auto)
      have k: "placed e (gh_map c') (P1 @ [a]) = placed e (gh_map c) (P1 @ [a])"
        by (rule keep [OF r(3)]) (use less.prems(4) Cons in auto)
      have one: "tiled old_scan (placed e (gh_map c) [a]) (old_scan + 8 * isz (ev_heap e) a)"
        using la n by (simp add: placed_def)
      have "tiled (og_top (gs_old (ev_gs e))) (placed e (gh_map c') (P1 @ [a])) (old_scan + 8 * isz (ev_heap e) a)"
        unfolding k unfolding placed_append tiled_append_iff using less.prems(6) one by blast
      moreover have "tiled (sv_start (gs_to g')) (placed e (gh_map c') T1) to_scan"
        by (subst keep [OF r(3)]) (use less.prems(3,5) frame [OF r(2)] in auto)
      moreover have "scanned e c' (S \<union> slots_at e a old_scan) (T1 @ (P1 @ [a]))" using r(7) by (auto simp: scanned_def)
      moreover have "unscanned e c' (S \<union> slots_at e a old_scan) (X @ (P3 @ Y))" using r(6) by (auto simp: unscanned_def)
      moreover have "card (young e) - (length T1 + length (P1 @ [a])) < card (young e) - (length T1 + length P1)"
        using len Cons by simp
      moreover have "gh_copied c' = T1 @ X" "gh_promoted c' = (P1 @ [a]) @ (P3 @ Y)"
        using r(4,5) less.prems(3,4) Cons Nil by simp_all
      ultimately obtain c2 S2 m2 g2 where
        "cheney to_scan (old_scan + 8 * isz (ev_heap e) a) (m', g') = Some (Inr (Inr (), m2, g2))"
        "scav_inv e c2 S2 (m2, g2)" "scav_ext (c', g') (c2, g2)" "S \<union> slots_at e a old_scan \<subseteq> S2"
        "scanned e c2 S2 (gh_copied c2 @ gh_promoted c2)"
        using less.hyps [OF _ r(2) ps] by blast
      moreover from this(1) have "cheney to_scan old_scan (m, g) = Some (Inr (Inr (), m2, g2))"
        by (subst cheney.simps) (simp add: top lt r(1))
      ultimately show ?thesis using scavenger.ext_trans [OF r(3)] by blast
    next
      case Nil2: Nil
      then have "old_scan = og_top (gs_old g)" using tp by (simp add: placed_def)
      then have "cheney to_scan old_scan (m, g) = Some (Inr (Inr (), m, g))"
        by (subst cheney.simps) (simp add: top)
      moreover have "scanned e c S (gh_copied c @ gh_promoted c)" using less.prems(3,4,7) Nil Nil2 by simp
      ultimately show ?thesis using inv scavenger.ext_refl by blast
    qed
  qed
qed

end
