(* ===== verification/ScavengeCards.thy ===== *)
theory ScavengeCards
  imports ScavengeCycle
begin

unbundle bit_operations_syntax

text \<open>
  The scan of one dirty card: the slots of the old objects inside the card's window are forwarded, each
  once, and the card is cleaned only if none of them refers to the young generation any more.
\<close>

section \<open>The slots of one window\<close>

lemma visited_stable:
  assumes "scav_inv e c S (m, g)" "scav_inv e c' S' (m', g')" "gh_map c \<subseteq>\<^sub>m gh_map c'" "S \<subseteq> S'" "s \<in> S"
  shows "m' s = m s"
proof -
  note d = scav_invD [OF assms(1)] and d' = scav_invD [OF assms(2)]
  obtain v where v: "slot e (gh_map c) s v" "resolved e (gh_map c) v" using heap_invD(6) [OF d(2) assms(5)] by blast
  have "m s = fwd (gh_map c) v" using slot_live(3) [OF d(2) v(1)] assms(5) by simp
  moreover have "m' s = fwd (gh_map c') v"
    using slot_live(3) [OF d'(2) slot_mono [OF assms(3) v(1)]] assms(4,5) by blast
  ultimately show ?thesis using fwd_stable(1) [OF assms(3) d'(6) v(2)] by simp
qed

text \<open>After a part of a window scan that visited the slots \<open>A\<close>.\<close>

definition win_res :: "scav_env \<Rightarrow> ghost \<Rightarrow> nat set \<Rightarrow> gc_state \<Rightarrow> bool \<Rightarrow> nat set \<Rightarrow> ghost \<Rightarrow> heap \<times> gc_state \<times> bool \<Rightarrow> bool" where
  "win_res e c S g still A c' = (\<lambda>(m', g', still').
     scav_inv e c' (S \<union> A) (m', g') \<and> scav_ext (c, g) (c', g')
     \<and> (still' \<longleftrightarrow> still \<or> (\<exists>s \<in> A. points_new (gs_layout (ev_gs e)) (m' s))))"

lemma win_res_nil: "scav_inv e c S (m, g) \<Longrightarrow> win_res e c S g still {} c (m, g, still)"
  by (simp add: win_res_def scavenger.ext_refl)

lemma win_res_trans:
  assumes "win_res e c S g still A c1 (m1, g1, still1)" "win_res e c1 (S \<union> A) g1 still1 B c2 (m2, g2, still2)"
  shows "win_res e c S g still (A \<union> B) c2 (m2, g2, still2)"
proof -
  have i1: "scav_inv e c1 (S \<union> A) (m1, g1)" and i2: "scav_inv e c2 (S \<union> A \<union> B) (m2, g2)"
    and x: "scav_ext (c, g) (c1, g1)" "scav_ext (c1, g1) (c2, g2)"
    and s: "still1 \<longleftrightarrow> still \<or> (\<exists>s \<in> A. points_new (gs_layout (ev_gs e)) (m1 s))"
      "still2 \<longleftrightarrow> still1 \<or> (\<exists>s \<in> B. points_new (gs_layout (ev_gs e)) (m2 s))"
    using assms by (simp_all add: win_res_def)
  have st: "m2 s = m1 s" if "s \<in> A" for s
    using visited_stable [OF i1 i2, of s] x(2) that by (auto simp: scav_ext_def)
  have "(\<exists>s \<in> A \<union> B. points_new (gs_layout (ev_gs e)) (m2 s)) \<longleftrightarrow>
      (\<exists>s \<in> A. points_new (gs_layout (ev_gs e)) (m1 s)) \<or> (\<exists>s \<in> B. points_new (gs_layout (ev_gs e)) (m2 s))"
    using st by (simp add: bex_Un)
  then show ?thesis using i2 s scavenger.ext_trans [OF x] by (simp add: win_res_def Un_assoc)
qed

lemma touch_ok:
  assumes inv: "scav_inv e c S (m, g)" and s: "slot e (gh_map c) s v" and fresh: "lo \<le> s \<Longrightarrow> s < hi \<Longrightarrow> s \<notin> S"
    and put: "\<And>c1 m1 g1 nv. scav_inv e c1 S (m1, g1) \<Longrightarrow> scav_ext (c, g) (c1, g1) \<Longrightarrow> put m1 nv = Inr (m1(s := nv))"
  shows "\<exists>c' m' g' still'. touch lo hi s (m s) put (m, g, still) = Inr (m', g', still')
    \<and> win_res e c S g still ({s} \<inter> {lo..<hi}) c' (m', g', still')"
proof (cases "s < lo \<or> s \<ge> hi")
  case True
  then have "{s} \<inter> {lo..<hi} = {}" by auto
  moreover have "touch lo hi s (m s) put (m, g, still) = Inr (m, g, still)" using True by (simp add: touch_def)
  ultimately show ?thesis using win_res_nil [OF inv] by auto
next
  case False
  then have nS: "s \<notin> S" using fresh by simp
  from scavenger.visit_slot [OF inv s nS] obtain c' m' g' where
    r: "scavenge_oop v (m, g) = Inr (fwd (gh_map c') v, m', g')" "scav_inv e c' (insert s S) (m'(s := fwd (gh_map c') v), g')"
    "scav_ext (c, g) (c', g')" "scav_inv e c' S (m', g')" by blast
  have v: "m s = v" using slot_live(2) [OF scav_invD(2) [OF inv] s nS] .
  have lay: "gs_layout g' = gs_layout (ev_gs e)" using scav_invD(7) [OF r(2)] by (simp add: same_frame_def)
  have "touch lo hi s (m s) put (m, g, still) = Inr (m'(s := fwd (gh_map c') v), g',
      still \<or> points_new (gs_layout (ev_gs e)) (fwd (gh_map c') v))"
    using False r(1) put [OF r(4,3)] v lay
    by (auto simp: touch_def points_new_def mem_addr_eq)
  moreover have "{s} \<inter> {lo..<hi} = {s}" using False by auto
  ultimately show ?thesis using r(2,3) by (auto simp: win_res_def)
qed

text \<open>Evaluation of the checked body accessors of an old object.\<close>

lemma old_accessors:
  assumes inv: "scav_inv e c S (m, g)" and a: "a \<in> ev_live e" "\<not> ev_new e a"
    and os: "oshape (ev_heap e) a = (k, nis, f)"
  defines "w \<equiv> mem_oop a"
  shows "j + 2 < isz (ev_heap e) a \<Longrightarrow> body_addr m w j = Inr (body_slot w j)"
    and "j \<in> set (oop_words f nis (olen (ev_heap e) a)) \<Longrightarrow> body_oop m w j = Inr (m (body_slot w j))"
    and "j + 2 < isz (ev_heap e) a \<Longrightarrow> set_body_oop m w j v = Inr (m(body_slot w j := v))"
    and "tail_start_word m w = Inr (nis - 1)"
    and "j \<in> set (oop_words f nis (olen (ev_heap e) a)) \<Longrightarrow> slot e (gh_map c) (body_slot w j) (ev_heap e (a + 8 * (j + 2)))"
    and "j \<in> set (oop_words f nis (olen (ev_heap e) a)) \<Longrightarrow> j + 2 < isz (ev_heap e) a"
    and "tail_format f \<Longrightarrow> indexable_len m w = Inr (olen (ev_heap e) a)"
proof -
  let ?H = "ev_heap e"
  note d = scav_invD [OF inv]
  have h: "home e (gh_map c) a = Some a" using a(2) by (simp add: home_def)
  note vs = view_shape [OF d(5) a(1) home_readable [OF h] os] and hd = heap_viewD [OF d(5) a(1) home_readable [OF h]]
  have w: "is_mem w" "oaddr w mod 8 = 0" "oaddr w = a" using hd(1,3) by (simp_all add: w_def)
  have two: "2 \<le> isz ?H a" using isz_ge2 [OF hd(6)] .
  have bc: "body_word_count m w = Inr (isz ?H a - 2)"
    using vs(3) two by (simp add: body_word_count_def w_def HEADER_WORDS_def)
  have bu: "body_slot w j \<le> usize_max" "j < isz ?H a - 2" if "j + 2 < isz ?H a" for j
    using hd(2) that by (simp_all add: w_def body_slot_mem_oop [OF hd(3)])
  show "j + 2 < isz ?H a \<Longrightarrow> body_addr m w j = Inr (body_slot w j)"
    using bc bu [of j] w by (simp add: body_addr_def in_body_def body_ptr_eq)
  show "j + 2 < isz ?H a \<Longrightarrow> set_body_oop m w j v = Inr (m(body_slot w j := v))"
    using bc bu [of j] set_raw_body_word_eval [OF w(1,2)] by (simp add: set_body_oop_def in_body_def)
  show jb: "j + 2 < isz ?H a" if "j \<in> set (oop_words f nis (olen ?H a))" for j
    using oop_words_bound [OF that vs(8)] vs(9) by simp
  show sl: "slot e (gh_map c) (body_slot w j) (?H (a + 8 * (j + 2)))" if "j \<in> set (oop_words f nis (olen ?H a))" for j
    unfolding slot_def w_def body_slot_mem_oop [OF hd(3)] using a(1) h that by (force simp: slot_idx_def os)
  show "body_oop m w j = Inr (m (body_slot w j))" if "j \<in> set (oop_words f nis (olen ?H a))"
  proof -
    have "oop_from_raw (m (body_slot w j)) = Inr (m (body_slot w j))"
    proof (cases "body_slot w j \<in> S")
      case False
      then show ?thesis using slot_live(1,2) [OF d(2) sl [OF that]] live_val_valid by simp
    next
      case True
      let ?v = "?H (a + 8 * (j + 2))"
      have e: "m (body_slot w j) = fwd (gh_map c) ?v" using slot_live(3) [OF d(2) sl [OF that] True] .
      have l: "live_val (ev_live e) ?v" using slot_live(1) [OF d(2) sl [OF that]] .
      show ?thesis
      proof (cases "is_mem ?v \<and> oaddr ?v \<in> dom (gh_map c)")
        case True
        then obtain b where b: "gh_map c (oaddr ?v) = Some b" by blast
        then show ?thesis using e True mem_valid [OF is_mem_mem_oop [OF map_okD(3) [OF d(6) b]]] by (simp add: fwd_def)
      next
        case False
        then have "fwd (gh_map c) ?v = ?v" by (auto simp: fwd_def split: option.splits)
        then show ?thesis using e live_val_valid [OF l] by simp
      qed
    qed
    then show ?thesis
      using bc bu [OF jb [OF that]] raw_body_word_eval [OF w(1,2)] by (simp add: body_oop_def in_body_def)
  qed
  have sh: "shape m w = Inr (m (a + 8), nis, f)" using vs(1) by (simp add: w_def)
  have "nis \<le> usize_max"
  proof -
    have "nis \<le> isz ?H a" using vs(9) by (simp add: size_from_def)
    then show ?thesis using hd(2) by linarith
  qed
  then have "uadd (nis - 2) 1 = Inr (nis - 1)" using vs(8) by (auto simp: uadd_def)
  then show "tail_start_word m w = Inr (nis - 1)"
    using sh vs(8) by (simp add: tail_start_word_shape shape_Inr)
  show "tail_format f \<Longrightarrow> indexable_len m w = Inr (olen ?H a)"
    using sh vs(2) by (auto simp: indexable_len_shape w_def tail_format_def)
qed

lemma touch_named_ok:
  assumes "scav_inv e c S (m, g)" and a: "a \<in> ev_live e" "\<not> ev_new e a"
    and os: "oshape (ev_heap e) a = (k, nis, f)"
    and "set is \<subseteq> set (oop_words f nis (olen (ev_heap e) a))" "distinct is"
    and "body_slot (mem_oop a) ` set is \<inter> {lo..<hi} \<inter> S = {}"
  shows "\<exists>c' m' g' still'. touch_named lo hi (mem_oop a) is (m, g, still) = Inr (m', g', still')
    \<and> win_res e c S g still (body_slot (mem_oop a) ` set is \<inter> {lo..<hi}) c' (m', g', still')"
  using assms(1,5-7)
proof (induction "is" arbitrary: c S m g still)
  case Nil
  then show ?case using win_res_nil [of e c S m g still] by auto
next
  case (Cons i "is")
  let ?w = "mem_oop a" and ?W = "{lo..<hi}"
  note acc = old_accessors [OF Cons.prems(1) a os]
  have iw: "i \<in> set (oop_words f nis (olen (ev_heap e) a))" using Cons.prems(2) by simp
  have "\<exists>c' m' g' still'. touch lo hi (body_slot ?w i) (m (body_slot ?w i)) (\<lambda>m v. set_body_oop m ?w i v) (m, g, still) = Inr (m', g', still')
    \<and> win_res e c S g still ({body_slot ?w i} \<inter> ?W) c' (m', g', still')"
    by (rule touch_ok [OF Cons.prems(1) acc(5) [OF iw]])
      (use Cons.prems(4) old_accessors(3,6) [OF _ a os] iw in auto)
  then obtain c1 m1 g1 st1 where t: "touch lo hi (body_slot ?w i) (m (body_slot ?w i)) (\<lambda>m v. set_body_oop m ?w i v) (m, g, still) = Inr (m1, g1, st1)"
    "win_res e c S g still ({body_slot ?w i} \<inter> ?W) c1 (m1, g1, st1)" by blast
  have i1: "scav_inv e c1 (S \<union> {body_slot ?w i} \<inter> ?W) (m1, g1)" using t(2) by (simp add: win_res_def)
  have "body_slot ?w ` set is \<inter> ?W \<inter> (S \<union> {body_slot ?w i} \<inter> ?W) = {}"
    using Cons.prems(3,4) by (auto simp: body_slot_inj)
  from Cons.IH [OF i1 _ _ this, of st1] Cons.prems(2,3) obtain c2 m2 g2 st2 where
    r: "touch_named lo hi ?w is (m1, g1, st1) = Inr (m2, g2, st2)"
    "win_res e c1 (S \<union> {body_slot ?w i} \<inter> ?W) g1 st1 (body_slot ?w ` set is \<inter> ?W) c2 (m2, g2, st2)" by auto
  have "touch_named lo hi ?w (i # is) (m, g, still) = Inr (m2, g2, st2)"
    using acc(1) [OF acc(6) [OF iw]] acc(2) [OF iw] t(1) r(1) by simp
  moreover have "body_slot ?w ` set (i # is) \<inter> ?W = ({body_slot ?w i} \<inter> ?W) \<union> (body_slot ?w ` set is \<inter> ?W)" by auto
  ultimately show ?case using win_res_trans [OF t(2) r(2)] by metis
qed

lemma touch_tail_ok:
  assumes "scav_inv e c S (m, g)" and a: "a \<in> ev_live e" "\<not> ev_new e a"
    and os: "oshape (ev_heap e) a = (k, nis, f)"
    and "(+) (nis - 1) ` set is \<subseteq> set (oop_words f nis (olen (ev_heap e) a))" "distinct is"
    and "body_slot (mem_oop a) ` (+) (nis - 1) ` set is \<inter> {lo..<hi} \<inter> S = {}"
  shows "\<exists>c' m' g' still'. touch_tail lo hi (mem_oop a) (nis - 1) is (m, g, still) = Inr (m', g', still')
    \<and> win_res e c S g still (body_slot (mem_oop a) ` (+) (nis - 1) ` set is \<inter> {lo..<hi}) c' (m', g', still')"
  using assms(1,5-7)
proof (induction "is" arbitrary: c S m g still)
  case Nil
  then show ?case using win_res_nil [of e c S m g still] by auto
next
  case (Cons i "is")
  let ?w = "mem_oop a" and ?W = "{lo..<hi}" and ?j = "nis - 1 + i"
  note acc = old_accessors [OF Cons.prems(1) a os]
  have iw: "?j \<in> set (oop_words f nis (olen (ev_heap e) a))" using Cons.prems(2) by simp
  have ju: "?j \<le> usize_max"
  proof -
    have "isz (ev_heap e) a \<le> usize_max" using heap_invD(1) [OF scav_invD(2) [OF Cons.prems(1)] a(1)] by (auto elim: wf_objE)
    then show ?thesis using acc(6) [OF iw] by linarith
  qed
  have tset: "set_tail_oop_at m1 ?w i v = Inr (m1(body_slot ?w ?j := v))" if "scav_inv e c1 S1 (m1, g1)" for c1 S1 m1 g1 v
    using old_accessors(3,4) [OF that a os] acc(6) [OF iw] ju by (simp add: set_tail_oop_at_def uadd_def)
  have tget: "tail_oop_at m ?w i = Inr (m (body_slot ?w ?j))"
    using acc(2) [OF iw] acc(4) ju by (simp add: tail_oop_at_def uadd_def)
  have "\<exists>c' m' g' still'. touch lo hi (body_slot ?w ?j) (m (body_slot ?w ?j)) (\<lambda>m v. set_tail_oop_at m ?w i v) (m, g, still) = Inr (m', g', still')
    \<and> win_res e c S g still ({body_slot ?w ?j} \<inter> ?W) c' (m', g', still')"
    by (rule touch_ok [OF Cons.prems(1) acc(5) [OF iw]]) (use Cons.prems(4) tset in auto)
  then obtain c1 m1 g1 st1 where t: "touch lo hi (body_slot ?w ?j) (m (body_slot ?w ?j)) (\<lambda>m v. set_tail_oop_at m ?w i v) (m, g, still) = Inr (m1, g1, st1)"
    "win_res e c S g still ({body_slot ?w ?j} \<inter> ?W) c1 (m1, g1, st1)" by blast
  have i1: "scav_inv e c1 (S \<union> {body_slot ?w ?j} \<inter> ?W) (m1, g1)" using t(2) by (simp add: win_res_def)
  have "body_slot ?w ` (+) (nis - 1) ` set is \<inter> ?W \<inter> (S \<union> {body_slot ?w ?j} \<inter> ?W) = {}"
    using Cons.prems(3,4) by (auto simp: body_slot_inj)
  from Cons.IH [OF i1 _ _ this, of st1] Cons.prems(2,3) obtain c2 m2 g2 st2 where
    r: "touch_tail lo hi ?w (nis - 1) is (m1, g1, st1) = Inr (m2, g2, st2)"
    "win_res e c1 (S \<union> {body_slot ?w ?j} \<inter> ?W) g1 st1 (body_slot ?w ` (+) (nis - 1) ` set is \<inter> ?W) c2 (m2, g2, st2)" by auto
  have "touch_tail lo hi ?w (nis - 1) (i # is) (m, g, still) = Inr (m2, g2, st2)"
    using acc(1) [OF acc(6) [OF iw]] tget t(1) r(1) ju by (simp add: uadd_def)
  moreover have "body_slot ?w ` (+) (nis - 1) ` set (i # is) \<inter> ?W = ({body_slot ?w ?j} \<inter> ?W) \<union> (body_slot ?w ` (+) (nis - 1) ` set is \<inter> ?W)" by auto
  ultimately show ?case using win_res_trans [OF t(2) r(2)] by metis
qed

lemma div_ceil_le_iff: "div_ceil x 8 \<le> i \<longleftrightarrow> x \<le> 8 * i"
proof -
  define q r where "q = x div 8" and "r = x mod 8"
  have x: "x = 8 * q + r" "r < 8" by (simp_all add: q_def r_def)
  have "div_ceil x 8 = (if r = 0 then q else q + 1)" by (simp add: div_ceil_def q_def r_def)
  then show ?thesis using x by auto
qed

lemma window_range:
  fixes lo hi tb n :: nat
  shows "{i. i < n \<and> lo \<le> tb + 8 * i \<and> tb + 8 * i < hi} =
    {i. div_ceil (lo - tb) 8 \<le> i \<and> i < min (div_ceil (hi - tb) 8) n}"
proof -
  have "lo \<le> tb + 8 * i \<longleftrightarrow> div_ceil (lo - tb) 8 \<le> i" for i
    unfolding div_ceil_le_iff by linarith
  moreover have "tb + 8 * i < hi \<longleftrightarrow> i < div_ceil (hi - tb) 8" for i
    using div_ceil_le_iff [of "hi - tb" i] by linarith
  ultimately show ?thesis by auto
qed

lemma window_tail_ok:
  assumes inv: "scav_inv e c S (m, g)" and a: "a \<in> ev_live e" "\<not> ev_new e a"
    and os: "oshape (ev_heap e) a = (k, nis, f)" and f: "tail_format f"
    and tl: "T = body_slot (mem_oop a) ` set [nis - 1..<nis - 1 + olen (ev_heap e) a]"
    and fresh: "T \<inter> {lo..<hi} \<inter> S = {}"
  shows "\<exists>c' m' g' still'. window_tail lo hi (mem_oop a) (m, g, still) = Inr (m', g', still')
    \<and> win_res e c S g still (T \<inter> {lo..<hi}) c' (m', g', still')"
proof -
  let ?n = "olen (ev_heap e) a" and ?w = "mem_oop a"
  note acc = old_accessors [OF inv a os]
  have len: "indexable_len m ?w = Inr ?n" using acc(7) f by simp
  have words: "set (oop_words f nis ?n) = {0..<nis - 2} \<union> {nis - 1..<nis - 1 + ?n}"
    using f by (auto simp: tail_format_def)
  show ?thesis
  proof (cases "?n > 0")
    case False
    then have "T \<inter> {lo..<hi} = {}" using tl by simp
    moreover have "window_tail lo hi ?w (m, g, still) = Inr (m, g, still)" using False len by (simp add: window_tail_def)
    ultimately show ?thesis using win_res_nil [OF inv, of still] by auto
  next
    case True
    let ?tb = "body_slot ?w (nis - 1)"
    let ?f = "div_ceil (lo - ?tb) 8" and ?l = "min (div_ceil (hi - ?tb) 8) ?n"
    have "nis - 1 \<in> set (oop_words f nis ?n)" using True words by auto
    then have tb: "body_addr m ?w (nis - 1) = Inr ?tb" using acc(1) acc(6) by blast
    have slot: "body_slot ?w (nis - 1 + i) = ?tb + 8 * i" for i by (simp add: body_slot_def)
    have rng: "{i. i < ?n \<and> lo \<le> ?tb + 8 * i \<and> ?tb + 8 * i < hi} = set [?f..<?l]"
      unfolding window_range by auto
    have T: "T \<inter> {lo..<hi} = body_slot ?w ` (+) (nis - 1) ` set [?f..<?l] \<inter> {lo..<hi}"
    proof -
      have "T = body_slot ?w ` (+) (nis - 1) ` {i. i < ?n}"
      proof -
        have "set [nis - 1..<nis - 1 + ?n] = (+) (nis - 1) ` {i. i < ?n}"
          by (auto simp: image_iff) presburger
        then show ?thesis using tl by simp
      qed
      then show ?thesis unfolding rng [symmetric] by (auto simp: slot [simplified] image_iff)
    qed
    have sub: "(+) (nis - 1) ` set [?f..<?l] \<subseteq> set (oop_words f nis ?n)"
      unfolding rng [symmetric] words by auto
    have "body_slot ?w ` (+) (nis - 1) ` set [?f..<?l] \<inter> {lo..<hi} \<inter> S = {}" using fresh T by blast
    from touch_tail_ok [OF inv a os sub _ this, of still] obtain c' m' g' still' where
      r: "touch_tail lo hi ?w (nis - 1) [?f..<?l] (m, g, still) = Inr (m', g', still')"
      "win_res e c S g still (body_slot ?w ` (+) (nis - 1) ` set [?f..<?l] \<inter> {lo..<hi}) c' (m', g', still')" by auto
    have "window_tail lo hi ?w (m, g, still) = Inr (m', g', still')"
      unfolding window_tail_def fst_conv len rbind_simps if_P [OF True] acc(4) tb Let_def WORD_SIZE_def by (rule r(1))
    then show ?thesis using r(2) T by metis
  qed
qed

lemma readable_ext: "readable (gh_map c) a l \<Longrightarrow> scav_ext (c, g) (c', g') \<Longrightarrow> readable (gh_map c') a l"
  by (auto simp: readable_def scav_ext_def map_le_def dom_def)

lemma scan_slots_in_window_ok:
  assumes inv: "scav_inv e c S (m, g)" and a: "a \<in> ev_live e" "\<not> ev_new e a"
    and k': "readable (gh_map c) (oaddr (ev_heap e (a + 8))) (oaddr k')" "is_mem k'"
    and fresh: "slots_at e a a \<inter> {lo..<hi} \<inter> S = {}"
  shows "\<exists>c' m' g' still'. scan_slots_in_window lo hi (mem_oop a) k' (m, g) = Inr (m', g', still')
    \<and> win_res e c S g False (slots_at e a a \<inter> {lo..<hi}) c' (m', g', still')"
proof -
  let ?H = "ev_heap e" and ?w = "mem_oop a" and ?W = "{lo..<hi}" and ?n = "olen (ev_heap e) a"
  obtain k nis f where os: "oshape ?H a = (k, nis, f)" by (cases "oshape ?H a")
  have h: "home e (gh_map c) a = Some a" for c using a(2) by (simp add: home_def)
  note d = scav_invD [OF inv]
  note vs = view_shape [OF d(5) a(1) home_readable [OF h] os] and hd = heap_viewD [OF d(5) a(1) home_readable [OF h]]
  have kk: "readable (gh_map c) (oaddr k) (oaddr k')" using k'(1) vs(10) by simp
  note ko = view_klass_oop [OF d(5) a(1) home_readable [OF h]]
  have a8: "a + 8 \<le> usize_max" using hd(2) isz_ge2 [OF hd(6)] by linarith
  have nis: "non_indexable_size m k' = Inr nis" "usub nis HEADER_WORDS = Inr (nis - 2)"
    using vs(5) [OF kk k'(2)] vs(8) by (simp_all add: HEADER_WORDS_def)
  have ka: "rbind (mem_addr ?w) (\<lambda>a. uadd a KLASS_OFFSET) = Inr (a + 8)"
    using hd(1,3) a8 by (simp add: mem_addr_eq uadd_def KLASS_OFFSET_def)
  have sl: "slot e (gh_map c) (a + 8) k"
    unfolding slot_def using a h vs(10) by (force simp: slot_idx_def os)
  have spl: "slots_at e a a = insert (a + 8) (body_slots_at e a a)" using slots_at_split [OF hd(3)] .
  have bsl: "body_slots_at e a a = body_slot ?w ` set (oop_words f nis ?n)" by (simp add: body_slots_at_def os)
  have nb: "a + 8 \<notin> body_slots_at e a a" by (auto simp: bsl body_slot_mem_oop [OF hd(3)])
  have "\<exists>c' m' g' still'. touch lo hi (a + 8) (m (a + 8)) (\<lambda>m v. set_klass_raw m ?w v) (m, g, False) = Inr (m', g', still')
    \<and> win_res e c S g False ({a + 8} \<inter> ?W) c' (m', g', still')"
  proof (rule touch_ok [OF inv sl])
    show "a + 8 \<notin> S" if "lo \<le> a + 8" "a + 8 < hi" using fresh that spl by auto
    show "set_klass_raw m1 ?w nv = Inr (m1(a + 8 := nv))" for m1 nv
      using set_klass_raw_eval [of ?w] hd(1,3) a8 by simp
  qed
  then obtain c1 m1 g1 st1 where t: "touch lo hi (a + 8) (m (a + 8)) (\<lambda>m v. set_klass_raw m ?w v) (m, g, False) = Inr (m1, g1, st1)"
    "win_res e c S g False ({a + 8} \<inter> ?W) c1 (m1, g1, st1)" by blast
  let ?S1 = "S \<union> {a + 8} \<inter> ?W"
  have i1: "scav_inv e c1 ?S1 (m1, g1)" and x1: "scav_ext (c, g) (c1, g1)" using t(2) by (simp_all add: win_res_def)
  note vs1 = view_shape [OF scav_invD(5) [OF i1] a(1) home_readable [OF h] os]
  have fmt: "klass_format m1 k' = Inr f" using vs1(6) [OF readable_ext [OF kk x1] k'(2)] .
  have fr1: "body_slots_at e a a \<inter> ?W \<inter> ?S1 = {}" using fresh spl nb by auto
  have run: "scan_slots_in_window lo hi ?w k' (m, g) =
    (if f \<in> {Double, Process} then Inr (m1, g1, st1)
     else if tail_format f then rbind (touch_named lo hi ?w [0..<nis - 2] (m1, g1, st1)) (window_tail lo hi ?w)
     else touch_named lo hi ?w [0..<nis - 2] (m1, g1, st1))"
    unfolding scan_slots_in_window_def prod.case nis rbind_simps ka ko(1) t(1) fst_conv fmt
    by (cases f) (simp_all add: tail_format_def)
  have fin: "\<exists>c' m' g' still'. X = Inr (m', g', still')
      \<and> win_res e c S g False (slots_at e a a \<inter> ?W) c' (m', g', still')"
    if "X = Inr (m2, g2, st2)" "win_res e c1 ?S1 g1 st1 (body_slots_at e a a \<inter> ?W) c2 (m2, g2, st2)" for X c2 m2 g2 st2
  proof -
    have "slots_at e a a \<inter> ?W = ({a + 8} \<inter> ?W) \<union> (body_slots_at e a a \<inter> ?W)" using spl by auto
    then show ?thesis using that(1) win_res_trans [OF t(2) that(2)] by metis
  qed
  consider (none) "f \<in> {Double, Process}" | (tail) "tail_format f" "f \<notin> {Double, Process}"
    | (plain) "f \<notin> {Double, Process}" "\<not> tail_format f" by blast
  then show ?thesis
  proof cases
    case none
    then have em: "body_slots_at e a a \<inter> ?W = {}" using bsl by auto
    have "scan_slots_in_window lo hi ?w k' (m, g) = Inr (m1, g1, st1)" using run none by simp
    moreover have "win_res e c1 ?S1 g1 st1 (body_slots_at e a a \<inter> ?W) c1 (m1, g1, st1)"
      unfolding em by (rule win_res_nil [OF i1])
    ultimately show ?thesis by (rule fin)
  next
    case plain
    then have o: "oop_words f nis ?n = [0..<nis - 2]" by (cases f) (auto simp: tail_format_def)
    have "body_slot ?w ` set [0..<nis - 2] \<inter> ?W \<inter> ?S1 = {}" using fr1 by (simp add: bsl o)
    from touch_named_ok [OF i1 a os _ _ this, of st1] o obtain c2 m2 g2 st2 where r2:
      "touch_named lo hi ?w [0..<nis - 2] (m1, g1, st1) = Inr (m2, g2, st2)"
      "win_res e c1 ?S1 g1 st1 (body_slot ?w ` set [0..<nis - 2] \<inter> ?W) c2 (m2, g2, st2)" by auto
    have "scan_slots_in_window lo hi ?w k' (m, g) = Inr (m2, g2, st2)" using run plain r2(1) by simp
    moreover have "win_res e c1 ?S1 g1 st1 (body_slots_at e a a \<inter> ?W) c2 (m2, g2, st2)" using r2(2) unfolding bsl o .
    ultimately show ?thesis by (rule fin)
  next
    case tail
    then have o: "oop_words f nis ?n = [0..<nis - 2] @ [nis - 1..<nis - 1 + ?n]" by (cases f) (auto simp: tail_format_def)
    let ?A = "body_slot ?w ` set [0..<nis - 2]" and ?T = "body_slot ?w ` set [nis - 1..<nis - 1 + ?n]"
    have AT: "body_slots_at e a a = ?A \<union> ?T" by (simp only: bsl o set_append image_Un)
    have "?A \<inter> ?W \<inter> ?S1 = {}" using fr1 AT by blast
    from touch_named_ok [OF i1 a os _ _ this, of st1] o obtain c2 m2 g2 st2 where
      r2: "touch_named lo hi ?w [0..<nis - 2] (m1, g1, st1) = Inr (m2, g2, st2)"
      "win_res e c1 ?S1 g1 st1 (?A \<inter> ?W) c2 (m2, g2, st2)" by auto
    have i2: "scav_inv e c2 (?S1 \<union> ?A \<inter> ?W) (m2, g2)" using r2(2) by (simp add: win_res_def)
    have "?A \<inter> ?T = {}" by (auto simp: body_slot_inj)
    then have "?T \<inter> ?W \<inter> (?S1 \<union> ?A \<inter> ?W) = {}" using fr1 AT by blast
    from window_tail_ok [OF i2 a os tail(1) refl this, of st2] obtain c3 m3 g3 st3 where
      r3: "window_tail lo hi ?w (m2, g2, st2) = Inr (m3, g3, st3)"
      "win_res e c2 (?S1 \<union> ?A \<inter> ?W) g2 st2 (?T \<inter> ?W) c3 (m3, g3, st3)" by blast
    have "body_slots_at e a a \<inter> ?W = ?A \<inter> ?W \<union> ?T \<inter> ?W" using AT by blast
    then have w: "win_res e c1 ?S1 g1 st1 (body_slots_at e a a \<inter> ?W) c3 (m3, g3, st3)"
      using win_res_trans [OF r2(2) r3(2)] by simp
    have "scan_slots_in_window lo hi ?w k' (m, g) = Inr (m3, g3, st3)"
      using run tail r2(1) r3(1) by simp
    from fin [OF this w] show ?thesis .
  qed
qed

section \<open>One card\<close>

definition old_slots :: "scav_env \<Rightarrow> nat set" where
  "old_slots e = (\<Union>a \<in> ev_live e - young e. slots_at e a a)"

lemma olds_objects:
  assumes "env_ok e" "(a, n) \<in> set (ev_olds e)"
  shows "a \<in> ev_live e" "\<not> ev_new e a" "n = 8 * isz (ev_heap e) a" "a \<in> ev_live e - young e"
  using assms env_okD(6) [OF assms(1)] by (auto simp: young_def)

lemma slots_at_range:
  assumes "wf_obj (ev_heap e) (ev_live e) a" "s \<in> slots_at e a l"
  shows "l \<le> s" "s < l + 8 * isz (ev_heap e) a"
  using assms slot_idx_bound [OF assms(1)] by (auto simp: slots_at_def)

definition slots_of :: "scav_env \<Rightarrow> (nat \<times> nat) list \<Rightarrow> nat set" where
  "slots_of e objs = (\<Union>(a, n) \<in> set objs. slots_at e a a)"

lemma slots_of_bounds:
  assumes "env_ok e" "\<forall>a \<in> ev_live e. wf_obj (ev_heap e) (ev_live e) a" "set objs \<subseteq> set (ev_olds e)" "tiled lo objs hi"
    and "s \<in> slots_of e objs"
  shows "lo \<le> s \<and> s < hi"
proof -
  obtain a n where a: "(a, n) \<in> set objs" "s \<in> slots_at e a a" using assms(5) by (auto simp: slots_of_def)
  then have o: "(a, n) \<in> set (ev_olds e)" using assms(3) by blast
  note oo = olds_objects [OF assms(1) o]
  show ?thesis
    using slots_at_range [OF bspec [OF assms(2) oo(1)] a(2)] tiled_extent [OF assms(4) a(1)] oo(3) by linarith
qed

lemma walk_card_ok:
  assumes "scav_inv e c S (m, g)" and "set objs \<subseteq> set (ev_olds e)" and "tiled addr objs otop"
    and "distinct (map fst objs)" and "slots_of e objs \<inter> {lo..<hi} \<inter> S = {}"
  shows "\<exists>c' m' g' still'. walk_card lo hi otop addr (m, g, still) = Some (Inr (m', g', still'))
    \<and> win_res e c S g still (slots_of e objs \<inter> {lo..<hi}) c' (m', g', still')"
  using assms
proof (induction objs arbitrary: c S m g still addr)
  case Nil
  then have "walk_card lo hi otop addr (m, g, still) = Some (Inr (m, g, still))"
    by (subst walk_card.simps) simp
  moreover have "slots_of e [] \<inter> {lo..<hi} = {}" by (simp add: slots_of_def)
  ultimately show ?case using win_res_nil [OF Nil.prems(1), of still] by auto
next
  case (Cons x objs)
  let ?W = "{lo..<hi}" and ?H = "ev_heap e"
  obtain n where x: "x = (addr, n)" using Cons.prems(3) by (cases x) auto
  note d = scav_invD [OF Cons.prems(1)]
  have wfs: "\<forall>a \<in> ev_live e. wf_obj ?H (ev_live e) a" using heap_invD(1) [OF d(2)] by blast
  have xo: "(addr, n) \<in> set (ev_olds e)" using Cons.prems(2) x by simp
  note oo = olds_objects [OF d(1) xo]
  have sub: "set objs \<subseteq> set (ev_olds e)" using Cons.prems(2) by simp
  have tl: "tiled (addr + n) objs otop" and npos: "0 < n" using Cons.prems(3) x by simp_all
  have split: "slots_of e (x # objs) = slots_at e addr addr \<union> slots_of e objs" by (auto simp: slots_of_def x)
  have lt: "addr < otop" using tiled_le [OF tl] npos by simp
  show ?case
  proof (cases "addr < hi")
    case False
    then have "walk_card lo hi otop addr (m, g, still) = Some (Inr (m, g, still))"
      by (subst walk_card.simps) simp
    moreover have "slots_of e (x # objs) \<inter> ?W = {}"
      using slots_of_bounds [OF d(1) wfs Cons.prems(2,3)] False by force
    ultimately show ?thesis using win_res_nil [OF Cons.prems(1), of still] by auto
  next
    case True
    obtain k nis f where os: "oshape ?H addr = (k, nis, f)" by (cases "oshape ?H addr")
    have h: "home e (gh_map c) addr = Some addr" using oo(2) by (simp add: home_def)
    note vs = view_shape [OF d(5) oo(1) home_readable [OF h] os] and hd = heap_viewD [OF d(5) oo(1) home_readable [OF h]]
    note ko = view_klass_oop [OF d(5) oo(1) home_readable [OF h]]
    let ?k = "m (addr + 8)"
    have rk: "readable (gh_map c) (oaddr (?H (addr + 8))) (oaddr ?k)" using ko(3) .
    have kk: "readable (gh_map c) (oaddr k) (oaddr ?k)" using rk vs(10) by simp
    have eval: "obj_klass m (mem_oop addr) = Inr ?k" "size_words_for_klass m (mem_oop addr) ?k = Inr (isz ?H addr)"
      "umul (isz ?H addr) 8 = Inr n" "uadd addr n = Inr (addr + n)"
      using vs(1) vs(4) [OF kk ko(2)] hd(2) oo(3) by (simp_all add: shape_Inr umul_def uadd_def mult.commute)
    let ?A = "slots_at e addr addr \<inter> ?W"
    have "\<exists>c1 m1 g1 st1. (if addr + n > lo
                     then rbind (scan_slots_in_window lo hi (mem_oop addr) ?k (m, g)) (\<lambda>(m, g, sn). Inr (m, g, still \<or> sn))
                     else Inr (m, g, still)) = Inr (m1, g1, st1) \<and> win_res e c S g still ?A c1 (m1, g1, st1)"
    proof (cases "addr + n > lo")
      case inw: True
      have "?A \<inter> S = {}" using Cons.prems(5) split by auto
      from scan_slots_in_window_ok [OF Cons.prems(1) oo(1,2) rk ko(2) this] obtain c1 m1 g1 st1 where
        r: "scan_slots_in_window lo hi (mem_oop addr) ?k (m, g) = Inr (m1, g1, st1)" "win_res e c S g False ?A c1 (m1, g1, st1)"
        by blast
      have "win_res e c S g still ?A c1 (m1, g1, still \<or> st1)" using r(2) by (auto simp: win_res_def)
      then show ?thesis using inw r(1) by auto
    next
      case False
      then have "?A = {}" using slots_at_range [OF bspec [OF wfs oo(1)]] oo(3) by force
      then show ?thesis using False win_res_nil [OF Cons.prems(1), of still] by auto
    qed
    then obtain c1 m1 g1 st1 where st: "(if addr + n > lo
                     then rbind (scan_slots_in_window lo hi (mem_oop addr) ?k (m, g)) (\<lambda>(m, g, sn). Inr (m, g, still \<or> sn))
                     else Inr (m, g, still)) = Inr (m1, g1, st1)" "win_res e c S g still ?A c1 (m1, g1, st1)" by blast
    have i1: "scav_inv e c1 (S \<union> ?A) (m1, g1)" using st(2) by (simp add: win_res_def)
    have "slots_of e objs \<inter> slots_at e addr addr = {}"
    proof -
      have "s < addr + n" if "s \<in> slots_at e addr addr" for s
        using slots_at_range(2) [OF bspec [OF wfs oo(1)] that] oo(3) by simp
      moreover have "addr + n \<le> s" if "s \<in> slots_of e objs" for s
        using slots_of_bounds [OF d(1) wfs sub tl that] by simp
      ultimately show ?thesis by force
    qed
    then have "slots_of e objs \<inter> ?W \<inter> (S \<union> ?A) = {}" using Cons.prems(5) split by auto
    from Cons.IH [OF i1 sub tl _ this, of st1] Cons.prems(4) obtain c2 m2 g2 st2 where
      r: "walk_card lo hi otop (addr + n) (m1, g1, st1) = Some (Inr (m2, g2, st2))"
      "win_res e c1 (S \<union> ?A) g1 st1 (slots_of e objs \<inter> ?W) c2 (m2, g2, st2)" by auto
    have "walk_card lo hi otop addr (m, g, still) = Some (Inr (m2, g2, st2))"
      by (subst walk_card.simps)
        (simp add: True lt oop_from_raw_mem_oop [OF hd(1)] hd(1) eval st(1) r(1) cong: if_cong)
    moreover have "slots_of e (x # objs) \<inter> ?W = ?A \<union> (slots_of e objs \<inter> ?W)" using split by auto
    ultimately show ?thesis using win_res_trans [OF st(2) r(2)] by metis
  qed
qed

definition window :: "scav_env \<Rightarrow> nat \<Rightarrow> nat set" where
  "window e i = {ct_card_base (gs_cards (ev_gs e)) i..<ct_card_base (gs_cards (ev_gs e)) i + 512}"

lemma card_base_frame: "same_frame (ev_gs e) g \<Longrightarrow> ct_card_base (gs_cards g) i = ct_card_base (gs_cards (ev_gs e)) i"
  by (simp add: same_frame_def ct_card_base_def)

lemma old_slots_of: "env_ok e \<Longrightarrow> old_slots e = slots_of e (ev_olds e)"
  using env_okD(6) [of e] by (auto simp: old_slots_def slots_of_def young_def)

lemma tiled_distinct: "tiled s objs t \<Longrightarrow> distinct (map fst objs)"
proof (induction objs arbitrary: s)
  case (Cons x objs)
  obtain n where x: "x = (s, n)" "0 < n" "tiled (s + n) objs t" using Cons.prems by (cases x) auto
  have "s \<notin> fst ` set objs" using tiled_extent [OF x(3)] x(2) by force
  then show ?case using Cons.IH [OF x(3)] x(1) by simp
qed simp

text \<open>The walk over one card visits exactly the old slots in its window; the card is cleaned only if
  none of them refers to the young generation any more.\<close>

lemma scan_card_ok:
  assumes inv: "scav_inv e c S (m, g)" and fresh: "old_slots e \<inter> window e i \<inter> S = {}"
    and i: "ct_card_base (gs_cards (ev_gs e)) i < og_top (gs_old (ev_gs e))" "i < ct_n_cards (gs_cards (ev_gs e))"
    and di: "ct_is_dirty (gs_cards g) i = Inr True"
  defines "S' \<equiv> S \<union> old_slots e \<inter> window e i"
  shows "\<exists>c' m' g'. scan_card (og_top (gs_old (ev_gs e))) i (m, g) = Some (Inr (m', g'))
    \<and> scav_inv e c' S' (m', g') \<and> gh_map c \<subseteq>\<^sub>m gh_map c' \<and> prefix (gh_copied c) (gh_copied c')
    \<and> prefix (gh_promoted c) (gh_promoted c')
    \<and> (\<forall>x. card_dirty (gs_cards g) x \<longrightarrow> card_dirty (gs_cards g') x
        \<or> (x \<in> window e i \<and> (\<forall>s \<in> old_slots e \<inter> window e i. \<not> points_new (gs_layout (ev_gs e)) (m' s))))"
proof -
  let ?top = "og_top (gs_old (ev_gs e))" and ?b = "ct_card_base (gs_cards (ev_gs e)) i"
  note d = scav_invD [OF inv] and so = spaces_okD [OF env_okD(1)]
  have wfs: "\<forall>a \<in> ev_live e. wf_obj (ev_heap e) (ev_live e) a" using heap_invD(1) [OF d(2)] by blast
  note s = space_invD [OF d(3)]
  have t0: "tiled (hl_old_start (gs_layout (ev_gs e))) (ev_olds e) ?top"
    using so(1,2) [OF d(1)] by (simp add: old_inv_def)
  have ob: "ot_card_base (gs_offsets g) i = ?b"
    using s(6) d(7) so(2,3) [OF d(1)] by (simp add: old_inv_def same_frame_def ot_card_base_def ct_card_base_def)
  have le: "?top \<le> og_top (gs_old g)" using tiled_le [OF tiled_promoted [OF inv]] .
  have "covers (gs_offsets g) (ev_olds e @ placed e (gh_map c) (gh_promoted c)) (og_top (gs_old g))"
    using s(6) by (simp add: old_inv_def)
  moreover have "ot_card_base (gs_offsets g) i < og_top (gs_old g)" using ob i(1) le by linarith
  ultimately have "\<exists>(a, n) \<in> set (ev_olds e @ placed e (gh_map c) (gh_promoted c)).
      a \<le> ot_card_base (gs_offsets g) i \<and> ot_card_base (gs_offsets g) i < a + n \<and> ot_resolve (gs_offsets g) i = Inr a"
    unfolding covers_def by blast
  then obtain a n where a: "(a, n) \<in> set (ev_olds e @ placed e (gh_map c) (gh_promoted c))" "a \<le> ?b" "?b < a + n"
    "ot_resolve (gs_offsets g) i = Inr a"
    unfolding ob by auto
  have "(a, n) \<in> set (ev_olds e)"
  proof -
    have "(a, n) \<notin> set (placed e (gh_map c) (gh_promoted c))"
      using tiled_extent [OF tiled_promoted [OF inv], of a n] a(2) i(1) by auto
    then show ?thesis using a(1) by simp
  qed
  then obtain O1 O2 where O: "ev_olds e = O1 @ (a, n) # O2" by (auto simp: in_set_conv_decomp)
  have t: "tiled (hl_old_start (gs_layout (ev_gs e))) O1 a" "tiled a ((a, n) # O2) ?top"
    using t0 unfolding O tiled_append_iff by auto
  have out: "slots_of e O1 \<inter> window e i = {}"
    using slots_of_bounds [OF d(1) wfs _ t(1)] a(2) O by (force simp: window_def)
  have all: "old_slots e \<inter> window e i = slots_of e ((a, n) # O2) \<inter> window e i"
    unfolding old_slots_of [OF d(1)] using out by (auto simp: O slots_of_def)
  have W: "window e i = {?b..<?b + 512}" by (simp add: window_def)
  have "\<exists>c' m' g' still'. walk_card ?b (?b + 512) ?top a (m, g, False) = Some (Inr (m', g', still'))
    \<and> win_res e c S g False (slots_of e ((a, n) # O2) \<inter> window e i) c' (m', g', still')"
    unfolding W
    by (rule walk_card_ok [OF inv _ t(2)])
      (use fresh all O tiled_distinct [OF t(2)] W in auto)
  then obtain c1 m1 g1 st where r: "walk_card ?b (?b + 512) ?top a (m, g, False) = Some (Inr (m1, g1, st))"
    "scav_inv e c1 S' (m1, g1)" "scav_ext (c, g) (c1, g1)"
    "st \<longleftrightarrow> (\<exists>s \<in> old_slots e \<inter> window e i. points_new (gs_layout (ev_gs e)) (m1 s))"
    by (auto simp: win_res_def all S'_def)
  have cb: "ct_card_base (gs_cards g) i = ?b" using card_base_frame [OF d(7)] .
  have pre: "scan_card ?top i (m, g) = (if \<not> st \<and> ?b + 512 \<le> ?top then
         cbind (Some (ct_set_clean (gs_cards g1) i)) (\<lambda>c'. returns (m1, g1\<lparr>gs_cards := c'\<rparr>))
       else returns (m1, g1))"
    unfolding scan_card_def prod.case Let_def cb CARD_SIZE_def CARD_SHIFT_def
    using a(4) r(1) by simp
  show ?thesis
  proof (cases "\<not> st \<and> ?b + 512 \<le> ?top")
    case False
    then have "scan_card ?top i (m, g) = Some (Inr (m1, g1))" unfolding pre by (rule if_not_P)
    then show ?thesis using r(2,3) by (auto simp: scav_ext_def)
  next
    case True
    let ?c = "(gs_cards g1)\<lparr>ct_backing := (ct_backing (gs_cards g1))[i := CARD_CLEAN]\<rparr>"
    let ?g = "g1\<lparr>gs_cards := ?c\<rparr>"
    note d1 = scav_invD [OF r(2)]
    have n1: "ct_n_cards (gs_cards g1) = ct_n_cards (gs_cards (ev_gs e))"
      "ct_old_start (gs_cards g1) = ct_old_start (gs_cards (ev_gs e))" using d1(7) by (simp_all add: same_frame_def)
    then have "ct_set_clean (gs_cards g1) i = Inr ?c" using i(2) by (simp add: ct_set_clean_def ct_entry_store_Inr)
    then have run: "scan_card ?top i (m, g) = Some (Inr (m1, ?g))" using pre True by simp
    have keep: "card_dirty ?c x" if "card_dirty (gs_cards g1) x" "x \<notin> window e i" for x
    proof -
      have "(x - ct_old_start (gs_cards g1)) div 512 \<noteq> i"
      proof
        assume q: "(x - ct_old_start (gs_cards g1)) div 512 = i"
        have "ct_old_start (gs_cards g1) \<le> x" using that(1) by (simp add: card_dirty_iff)
        moreover have "?b = ct_old_start (gs_cards g1) + i * 512" using n1 by (simp add: ct_card_base_def CARD_SHIFT_def)
        ultimately have "x \<in> window e i"
          using q div_mult_mod_eq [of "x - ct_old_start (gs_cards g1)" 512]
            mod_less_divisor [of 512 "x - ct_old_start (gs_cards g1)"] by (auto simp: window_def)
        then show False using that(2) by blast
      qed
      then show ?thesis using that(1) by (auto simp: card_dirty_iff ct_n_cards_def)
    qed
    have pd: "card_dirty ?c x" if b: "b \<in> set (gh_promoted c1)" "the (gh_map c1 b) \<le> x"
      "x < the (gh_map c1 b) + 8 * isz (ev_heap e) b" for b x
    proof -
      have "card_dirty (gs_cards g1) x" using d1(3) b unfolding space_inv_def by blast
      moreover have "?top \<le> the (gh_map c1 b)"
        using tiled_extent [OF tiled_promoted [OF r(2)], of "the (gh_map c1 b)"] b(1) by (auto simp: placed_def)
      then have "x \<notin> window e i" using True b(2) by (auto simp: window_def)
      ultimately show ?thesis using keep by blast
    qed
    have "same_frame (ev_gs e) ?g" using d1(7) by (simp add: same_frame_def ct_n_cards_def)
    then have "space_inv e c1 ?g" using space_invD [OF d1(3)] pd unfolding space_inv_def by simp
    then have i2: "scav_inv e c1 S' (m1, ?g)" using r(2) by (simp add: scav_inv_def)
    have "card_dirty (gs_cards ?g) x \<or> (x \<in> window e i \<and> (\<forall>s \<in> old_slots e \<inter> window e i. \<not> points_new (gs_layout (ev_gs e)) (m1 s)))"
      if "card_dirty (gs_cards g) x" for x
    proof -
      have "card_dirty (gs_cards g1) x" using that r(3) by (simp add: scav_ext_def)
      then show ?thesis using keep [of x] True r(4) by auto
    qed
    then show ?thesis using run i2 r(3) by (auto simp: scav_ext_def)
  qed
qed

end
