(* ===== verification/ScavengeSpec.thy ===== *)
theory ScavengeSpec
  imports ScavengeCards
begin

unbundle bit_operations_syntax

text \<open>
  The steps of a cycle put together: the scan of all dirty cards, the well-formed heaps a collection
  starts from, the trace over roots, cards and code, the tenuring threshold and the last step.
\<close>

section \<open>The dirty card scan\<close>

definition cards_inv :: "scav_env \<Rightarrow> nat \<Rightarrow> ghost \<Rightarrow> nat set \<Rightarrow> heap \<times> gc_state \<Rightarrow> bool" where
  "cards_inv e i c S = (\<lambda>(m, g).
     scav_inv e c S (m, g) \<and> S \<subseteq> old_slots e \<and> (\<forall>s \<in> S. s < ct_card_base (gs_cards (ev_gs e)) i)
     \<and> (\<forall>s \<in> old_slots e. s < ct_card_base (gs_cards (ev_gs e)) i \<longrightarrow>
          (s \<in> S \<or> \<not> points_new (gs_layout (ev_gs e)) (ev_heap e s))
          \<and> (points_new (gs_layout (ev_gs e)) (m s) \<longrightarrow> card_dirty (gs_cards g) s))
     \<and> (\<forall>s \<in> old_slots e. ct_card_base (gs_cards (ev_gs e)) i \<le> s \<and> points_new (gs_layout (ev_gs e)) (ev_heap e s) \<longrightarrow>
          card_dirty (gs_cards g) s))"

text \<open>After the scan: every old slot that referred to the young generation was visited, and the
  remembered set holds for the slots as they now are.\<close>

definition olds_settled :: "scav_env \<Rightarrow> ghost \<Rightarrow> nat set \<Rightarrow> heap \<times> gc_state \<Rightarrow> bool" where
  "olds_settled e c S = (\<lambda>(m, g).
     \<forall>s \<in> old_slots e. (s \<in> S \<or> \<not> points_new (gs_layout (ev_gs e)) (ev_heap e s))
       \<and> (points_new (gs_layout (ev_gs e)) (m s) \<longrightarrow> card_dirty (gs_cards g) s))"

lemma old_slot:
  assumes inv: "scav_inv e c S (m, g)" and s: "s \<in> old_slots e"
  shows "slot e (gh_map c) s (ev_heap e s)" "hl_old_start (gs_layout (ev_gs e)) \<le> s" "s < og_top (gs_old (ev_gs e))"
    "s \<notin> S \<Longrightarrow> m s = ev_heap e s" "s \<in> S \<Longrightarrow> m s = fwd (gh_map c) (ev_heap e s)"
proof -
  note d = scav_invD [OF inv]
  obtain a i where a: "a \<in> ev_live e" "\<not> ev_new e a" "i \<in> slot_idx (ev_heap e) a" "s = a + 8 * i"
    using s by (auto simp: old_slots_def slots_at_def young_def)
  show sl: "slot e (gh_map c) s (ev_heap e s)" unfolding slot_def using a by (force simp: home_def)
  show "s \<notin> S \<Longrightarrow> m s = ev_heap e s" "s \<in> S \<Longrightarrow> m s = fwd (gh_map c) (ev_heap e s)"
    using slot_live(2,3) [OF d(2) sl] by simp_all
  have "s \<in> slots_at e a a" using a by (simp add: slots_at_def)
  then show "hl_old_start (gs_layout (ev_gs e)) \<le> s" "s < og_top (gs_old (ev_gs e))"
    using slots_at_range [OF heap_invD(1) [OF d(2) a(1)]] regions(2) [OF d(1,3) a(1,2)] by fastforce+
qed

definition ghost_ext :: "ghost \<Rightarrow> ghost \<Rightarrow> bool" where
  "ghost_ext c c' \<longleftrightarrow> gh_map c \<subseteq>\<^sub>m gh_map c' \<and> prefix (gh_copied c) (gh_copied c') \<and> prefix (gh_promoted c) (gh_promoted c')"

lemma ghost_ext_refl: "ghost_ext c c"
  by (simp add: ghost_ext_def)

lemma ghost_ext_trans: "ghost_ext c c' \<Longrightarrow> ghost_ext c' c'' \<Longrightarrow> ghost_ext c c''"
  by (auto simp: ghost_ext_def intro: map_le_trans prefix_order.trans)

lemma scav_ext_ghost: "scav_ext (c, g) (c', g') \<longleftrightarrow> ghost_ext c c' \<and> (\<forall>x. card_dirty (gs_cards g) x \<longrightarrow> card_dirty (gs_cards g') x)"
  by (simp add: scav_ext_def ghost_ext_def conj_assoc)

lemma card_base_Suc: "ct_card_base t (Suc i) = ct_card_base t i + 512"
  by (simp add: ct_card_base_def CARD_SHIFT_def)

lemma window_card:
  assumes "s \<in> window e i" "same_frame (ev_gs e) g"
  shows "(s - ct_old_start (gs_cards g)) div 512 = i" "ct_old_start (gs_cards g) \<le> s"
proof -
  let ?b = "ct_old_start (gs_cards g)"
  have "?b + i * 512 \<le> s" "s < ?b + i * 512 + 512"
    using assms by (simp_all add: window_def ct_card_base_def CARD_SHIFT_def same_frame_def)
  then show "?b \<le> s" "(s - ?b) div 512 = i" by (auto intro!: div_nat_eqI)
qed

lemma scan_cards_ok:
  assumes "cards_inv e i c S (m, g)" and "i \<le> ct_n_cards (gs_cards (ev_gs e))"
  shows "\<exists>c' S' m' g'. scan_cards (og_top (gs_old (ev_gs e))) [i..<ct_n_cards (gs_cards (ev_gs e))] (m, g) = Some (Inr (m', g'))
    \<and> scav_inv e c' S' (m', g') \<and> S' \<subseteq> old_slots e \<and> olds_settled e c' S' (m', g') \<and> ghost_ext c c'"
  using assms
proof (induction "ct_n_cards (gs_cards (ev_gs e)) - i" arbitrary: i c S m g)
  let ?n = "ct_n_cards (gs_cards (ev_gs e))" and ?b = "ct_card_base (gs_cards (ev_gs e))"
    and ?top = "og_top (gs_old (ev_gs e))" and ?h = "gs_layout (ev_gs e)"
  have stop: "\<exists>c' S' m' g'. X = Some (Inr (m', g'))
    \<and> scav_inv e c' S' (m', g') \<and> S' \<subseteq> old_slots e \<and> olds_settled e c' S' (m', g') \<and> ghost_ext c c'"
    if ci: "cards_inv e i c S (m, g)" and "?top \<le> ?b i" and "X = Some (Inr (m, g))" for i c S m g X
  proof -
    have inv: "scav_inv e c S (m, g)" and sub: "S \<subseteq> old_slots e" using ci by (simp_all add: cards_inv_def)
    have "s < ?b i" if "s \<in> old_slots e" for s using old_slot(3) [OF inv that] \<open>?top \<le> ?b i\<close> by simp
    then have "olds_settled e c S (m, g)" using ci by (simp add: cards_inv_def olds_settled_def)
    then show ?thesis using inv sub \<open>X = _\<close> ghost_ext_refl by blast
  qed
  {
    case 0
    then have "i = ?n" by simp
    have inv: "scav_inv e c S (m, g)" using "0.prems"(1) by (simp add: cards_inv_def)
    note d = scav_invD [OF inv] and so = spaces_okD [OF env_okD(1) [OF d(1)]]
    have "?top \<le> ?b i"
      using so(1-4) by (simp add: \<open>i = ?n\<close> old_inv_def ct_card_base_def CARD_SHIFT_def)
    from stop [OF "0.prems"(1) this refl] show ?case by (simp add: \<open>i = ?n\<close>)
  next
    case (Suc k)
    then have i: "i < ?n" by simp
    have inv: "scav_inv e c S (m, g)" and sub: "S \<subseteq> old_slots e" and lim: "\<forall>s \<in> S. s < ?b i"
      and before: "\<forall>s \<in> old_slots e. s < ?b i \<longrightarrow> (s \<in> S \<or> \<not> points_new ?h (ev_heap e s))
          \<and> (points_new ?h (m s) \<longrightarrow> card_dirty (gs_cards g) s)"
      and after: "\<forall>s \<in> old_slots e. ?b i \<le> s \<and> points_new ?h (ev_heap e s) \<longrightarrow> card_dirty (gs_cards g) s"
      using Suc.prems(1) by (simp_all add: cards_inv_def)
    note d = scav_invD [OF inv]
    have cb: "ct_card_base (gs_cards g) i = ?b i" using card_base_frame [OF d(7)] .
    have upt: "[i..<?n] = i # [Suc i..<?n]" using i by (simp add: upt_conv_Cons)
    show ?case
    proof (cases "?top \<le> ?b i")
      case True
      then show ?thesis using stop [OF Suc.prems(1) True] cb by (simp add: upt)
    next
      case False
      obtain di where di: "ct_is_dirty (gs_cards g) i = Inr di" and dv: "di \<longleftrightarrow> ct_backing (gs_cards g) ! i = 0"
        using i d(7) ct_is_dirty_Inr [of "gs_cards g" i] by (auto simp: same_frame_def)
      have inW: "s \<in> window e i" if "s < ?b (Suc i)" "?b i \<le> s" for s
        using that by (simp add: window_def card_base_Suc)
      have next_ok: ?thesis if "cards_inv e (Suc i) c1 S1 (m1, g1)" "ghost_ext c c1"
        "scan_cards ?top [i..<?n] (m, g) = scan_cards ?top [Suc i..<?n] (m1, g1)" for c1 S1 m1 g1
      proof -
        have "k = ?n - Suc i" "Suc i \<le> ?n" using Suc.hyps(2) i by simp_all
        from Suc.hyps(1) [OF this(1) that(1) this(2)] obtain c2 S2 m2 g2 where
          "scan_cards ?top [Suc i..<?n] (m1, g1) = Some (Inr (m2, g2))" "scav_inv e c2 S2 (m2, g2)" "S2 \<subseteq> old_slots e"
          "olds_settled e c2 S2 (m2, g2)" "ghost_ext c1 c2" by blast
        then show ?thesis unfolding that(3) using ghost_ext_trans [OF that(2)] by blast
      qed
      show ?thesis
      proof (cases di)
        case clean: False
        have none: "\<not> points_new ?h (ev_heap e s)" if "s \<in> old_slots e" "s \<in> window e i" for s
        proof
          assume "points_new ?h (ev_heap e s)"
          then have "card_dirty (gs_cards g) s" using after that by (simp add: window_def)
          then have "ct_backing (gs_cards g) ! i = 0" using window_card [OF that(2) d(7)] by (simp add: card_dirty_iff)
          then show False using clean dv by simp
        qed
        have "cards_inv e (Suc i) c S (m, g)"
          unfolding cards_inv_def prod.case
        proof (intro conjI ballI impI)
          show "scav_inv e c S (m, g)" "S \<subseteq> old_slots e" using inv sub .
          show "s < ?b (Suc i)" if "s \<in> S" for s using lim that by (fastforce simp: card_base_Suc)
          fix s assume s: "s \<in> old_slots e"
          show "card_dirty (gs_cards g) s" if "?b (Suc i) \<le> s \<and> points_new ?h (ev_heap e s)"
            using after s that by (simp add: card_base_Suc)
          assume lt: "s < ?b (Suc i)"
          show "s \<in> S \<or> \<not> points_new ?h (ev_heap e s)"
            using before s none [OF s] inW [OF lt] by (cases "s < ?b i") auto
          show "card_dirty (gs_cards g) s" if "points_new ?h (m s)"
          proof (cases "s < ?b i")
            case False
            then have "s \<in> window e i" "s \<notin> S" using inW [OF lt] lim by auto
            then show ?thesis using none [OF s] old_slot(4) [OF inv s] that by simp
          qed (use before s that in blast)
        qed
        moreover have "scan_cards ?top [i..<?n] (m, g) = scan_cards ?top [Suc i..<?n] (m, g)"
          using False cb di clean by (simp add: upt)
        ultimately show ?thesis using next_ok [of c S m g] by (simp add: ghost_ext_def)
      next
        case True
        have "old_slots e \<inter> window e i \<inter> S = {}" using lim by (fastforce simp: window_def)
        from scan_card_ok [OF inv this _ i] False di True obtain c1 m1 g1 where
          r: "scan_card ?top i (m, g) = Some (Inr (m1, g1))" "scav_inv e c1 (S \<union> old_slots e \<inter> window e i) (m1, g1)"
          "ghost_ext c c1"
          "\<forall>x. card_dirty (gs_cards g) x \<longrightarrow> card_dirty (gs_cards g1) x
              \<or> (x \<in> window e i \<and> (\<forall>s \<in> old_slots e \<inter> window e i. \<not> points_new ?h (m1 s)))"
          by (auto simp: ghost_ext_def not_le)
        let ?S = "S \<union> old_slots e \<inter> window e i"
        have st: "m1 s = m s" if "s \<in> S" for s
          using visited_stable [OF inv r(2) _ _ that] r(3) by (simp add: ghost_ext_def)
        have "cards_inv e (Suc i) c1 ?S (m1, g1)"
          unfolding cards_inv_def prod.case
        proof (intro conjI ballI impI)
          show "scav_inv e c1 ?S (m1, g1)" by (rule r(2))
          show "?S \<subseteq> old_slots e" using sub by blast
          show "s < ?b (Suc i)" if "s \<in> ?S" for s using lim that by (fastforce simp: card_base_Suc window_def)
          fix s assume s: "s \<in> old_slots e"
          show "card_dirty (gs_cards g1) s" if "?b (Suc i) \<le> s \<and> points_new ?h (ev_heap e s)"
          proof -
            have "card_dirty (gs_cards g) s" using after s that by (simp add: card_base_Suc)
            moreover have "s \<notin> window e i" using that by (simp add: window_def card_base_Suc)
            ultimately show ?thesis using r(4) by blast
          qed
          assume lt: "s < ?b (Suc i)"
          show "s \<in> ?S \<or> \<not> points_new ?h (ev_heap e s)"
            using before s inW [OF lt] by (cases "s < ?b i") auto
          show "card_dirty (gs_cards g1) s" if pn: "points_new ?h (m1 s)"
          proof (cases "s < ?b i")
            case True
            then have nW: "s \<notin> window e i" by (simp add: window_def)
            have "m1 s = m s"
            proof (cases "s \<in> S")
              case False
              then have "s \<notin> ?S" using nW by blast
              then show ?thesis using old_slot(4) [OF inv s False] old_slot(4) [OF r(2) s] by simp
            qed (rule st)
            then have "card_dirty (gs_cards g) s" using before s True pn by simp
            then show ?thesis using r(4) nW by blast
          next
            case geb: False
            then have w: "s \<in> window e i" using inW [OF lt] by simp
            have "ct_backing (gs_cards g) ! i = 0" using True dv by simp
            then have "card_dirty (gs_cards g) s"
              using window_card [OF w d(7)] i d(7) by (simp add: card_dirty_iff same_frame_def)
            then show ?thesis using r(4) s w pn by blast
          qed
        qed
        moreover have "scan_cards ?top [i..<?n] (m, g) = scan_cards ?top [Suc i..<?n] (m1, g1)"
          using False cb di True r(1) by (simp add: upt)
        ultimately show ?thesis using next_ok [of c1 ?S m1 g1] r(3) by blast
      qed
    qed
  }
qed

section \<open>The states a collection starts from\<close>

definition env_of :: "heap \<times> gc_state \<Rightarrow> nat set \<Rightarrow> (nat \<times> nat) list \<Rightarrow> scav_env" where
  "env_of = (\<lambda>(m, g) L olds. \<lparr>ev_heap = m, ev_live = L, ev_olds = olds, ev_gs = g\<rparr>)"

definition mem_of :: "heap \<times> gc_state \<Rightarrow> vm_mem" where
  "mem_of = (\<lambda>(m, g). \<lparr>vm_heap = m, vm_layout = gs_layout g, vm_cards = gs_cards g\<rparr>)"

text \<open>
  Well-formedness of a heap between collections, for a set \<open>L\<close> of live objects: all old objects and a
  set of young ones such that the roots and the objects of \<open>L\<close> refer only to objects of \<open>L\<close>. Objects
  outside \<open>L\<close> may be anything.
\<close>

definition heap_ok :: "root_set \<Rightarrow> oop list \<Rightarrow> nat set \<Rightarrow> (nat \<times> nat) list \<Rightarrow> heap \<times> gc_state \<Rightarrow> bool" where
  "heap_ok r code L olds s \<longleftrightarrow>
     env_ok (env_of s L olds) \<and> (\<forall>a \<in> L. wf_obj (fst s) L a)
     \<and> (\<forall>v \<in> set (root_oops r) \<union> set code. live_val L v) \<and> rs_sp r \<le> length (rs_stack r)
     \<and> remembered (old_slots (env_of s L olds)) (mem_of s)
     \<and> gs_gc_enabled (snd s) \<and> gs_pending_stall (snd s) = None"

text \<open>The promotion guarantee: the old generation could take all of the young one.\<close>

definition worst_case :: "gc_state \<Rightarrow> nat" where
  "worst_case g = (ed_top (gs_eden g) - ed_start (gs_eden g)) + (sv_top (gs_from g) - sv_start (gs_from g))"

definition promotion_guarantee :: "gc_state \<Rightarrow> bool" where
  "promotion_guarantee g \<longleftrightarrow> (\<exists>free. old_remaining (gs_old g) = Inr free \<and> worst_case g \<le> free)"

lemma env_of_sel [simp]:
  "ev_heap (env_of (m, g) L olds) = m" "ev_live (env_of (m, g) L olds) = L"
  "ev_olds (env_of (m, g) L olds) = olds" "ev_gs (env_of (m, g) L olds) = g"
  by (simp_all add: env_of_def)

lemma young_bytes:
  assumes ok: "env_ok e" and w: "\<forall>a \<in> young e. 0 < isz (ev_heap e) a"
  shows "8 * (\<Sum>a \<in> young e. isz (ev_heap e) a) \<le> worst_case (ev_gs e)"
proof -
  let ?n = "isz (ev_heap e)" and ?g = "ev_gs e"
  let ?I = "\<lambda>a. {a..<a + 8 * ?n a}"
  have fin: "finite (young e)" by (rule env_okD(3) [OF ok])
  have dis: "\<forall>a \<in> young e. \<forall>b \<in> young e. a \<noteq> b \<longrightarrow> ?I a \<inter> ?I b = {}"
    using env_okD(5) [OF ok] by (fastforce simp: apart_def)
  have "8 * (\<Sum>a \<in> young e. ?n a) = card (\<Union>a \<in> young e. ?I a)"
    using card_UN_disjoint [OF fin _ dis] by (simp add: sum_distrib_left)
  also have "\<dots> \<le> card ({ed_start (gs_eden ?g)..<ed_top (gs_eden ?g)} \<union> {sv_start (gs_from ?g)..<sv_top (gs_from ?g)})"
    using env_okD(4) [OF ok] by (intro card_mono) (fastforce simp: inside_def)+
  also have "\<dots> \<le> worst_case ?g"
    unfolding worst_case_def by (rule order.trans [OF card_Un_le]) simp
  finally show ?thesis .
qed

lemma tiled_apart:
  "tiled s objs t \<Longrightarrow> (a, n) \<in> set objs \<Longrightarrow> (b, k) \<in> set objs \<Longrightarrow> a \<noteq> b \<Longrightarrow> a + n \<le> b \<or> b + k \<le> a"
proof (induction objs arbitrary: s)
  case (Cons x objs)
  obtain j where x: "x = (s, j)" "0 < j" "tiled (s + j) objs t" using Cons.prems(1) by (cases x) auto
  have after: "s + j \<le> c" if "(c, i) \<in> set objs" for c i using tiled_extent [OF x(3) that] by simp
  show ?case
    using Cons.IH [OF x(3)] Cons.prems(2-4) after [of a n] after [of b k] x(1) by auto
qed simp

text \<open>The start of the cycle satisfies the invariant with nothing copied.\<close>

definition ghost0 :: ghost where
  "ghost0 = \<lparr>gh_map = Map.empty, gh_copied = [], gh_promoted = []\<rparr>"

lemma scavenge_begin_ok:
  assumes hk: "heap_ok r code L olds (m, g)" and pg: "promotion_guarantee g"
  obtains g0 where "scavenge_begin g = Inr g0" "scav_inv (env_of (m, g0) L olds) ghost0 {} (m, g0)"
    "gs_old g0 = gs_old g" "gs_cards g0 = gs_cards g" "gs_layout g0 = gs_layout g" "gs_pending_stall g0 = None"
    "gs_eden g0 = gs_eden g" "gs_from g0 = gs_from g" "gs_to g0 = survivor_reset (gs_to g)"
    "gs_gc_enabled g0 = gs_gc_enabled g"
    "cards_inv (env_of (m, g0) L olds) 0 ghost0 {} (m, g0)"
proof -
  have ok: "env_ok (env_of (m, g) L olds)" and wf: "\<forall>a \<in> L. wf_obj m L a"
    and rem: "remembered (old_slots (env_of (m, g) L olds)) (mem_of (m, g))"
    and en: "gs_gc_enabled g" "gs_pending_stall g = None"
    using hk by (simp_all add: heap_ok_def)
  have so: "spaces_ok g olds" using env_okD(1) [OF ok] by simp
  then have ed: "ed_start (gs_eden g) \<le> ed_top (gs_eden g)" by (simp add: spaces_ok_def Let_def)
  define st where "st = (gs_gc_stats g)
               \<lparr>st_gc_under_compiled := st_gc_under_compiled (gs_gc_stats g)
                  + (if gs_compiled_depth g > 0 then 1 else 0),
                st_bytes_allocated := st_bytes_allocated (gs_gc_stats g) + (ed_top (gs_eden g) - ed_start (gs_eden g))\<rparr>"
  define g0 where "g0 = g\<lparr>gs_gc_stats := st, gs_age_table := replicate 128 0, gs_to := survivor_reset (gs_to g)\<rparr>"
  have b: "scavenge_begin g = Inr g0"
    using en ed by (simp add: scavenge_begin_def g0_def st_def age_table_clear_def)
  let ?e = "env_of (m, g0) L olds"
  have sel: "gs_old g0 = gs_old g" "gs_cards g0 = gs_cards g" "gs_layout g0 = gs_layout g" "gs_pending_stall g0 = None"
    "gs_eden g0 = gs_eden g" "gs_from g0 = gs_from g" "gs_to g0 = survivor_reset (gs_to g)"
    "gs_gc_enabled g0 = gs_gc_enabled g" "gs_offsets g0 = gs_offsets g" "gs_age_table g0 = replicate 128 0"
    using en by (simp_all add: g0_def)
  have so0: "spaces_ok g0 olds"
    using so sel by (simp add: spaces_ok_def Let_def survivor_ok_def survivor_reset_def)
  have yg: "young ?e = young (env_of (m, g) L olds)" by (simp add: young_def sel)
  have ok0: "env_ok ?e" using ok so0 unfolding env_ok_def yg by (simp add: sel)
  have hi: "heap_inv ?e Map.empty {} m"
    unfolding heap_inv_def
  proof (intro conjI ballI allI impI)
    show "map_ok ?e Map.empty"
      unfolding map_ok_def
    proof (intro conjI allI ballI impI)
      fix a b l l' assume ab: "a \<in> ev_live ?e" "b \<in> ev_live ?e"
        and "readable Map.empty a l \<and> readable Map.empty b l' \<and> (a, l) \<noteq> (b, l')"
      then have l: "l = a" "l' = b" "a \<noteq> b" by (auto simp: readable_def)
      have rng: "hl_old_start (gs_layout g0) \<le> c \<and> (c, 8 * isz m c) \<in> set olds" if "c \<in> L" "c \<notin> young ?e" for c
        using that env_okD(6) [OF ok0] by (auto simp: young_def is_new_def)
      have yng: "c + 8 * isz m c \<le> hl_old_start (gs_layout g0)" if "c \<in> young ?e" for c
        using env_okD(4) [OF ok0 that] spaces_okD(8,9) [OF so0] by (auto simp: inside_def)
      have tl: "tiled (hl_old_start (gs_layout g0)) olds (og_top (gs_old g0))"
        using spaces_okD(1,2) [OF so0] by (simp add: old_inv_def)
      show "apart l (isz (ev_heap ?e) a) l' (isz (ev_heap ?e) b)"
      proof (cases "a \<in> young ?e \<and> b \<in> young ?e")
        case True
        then show ?thesis using env_okD(5) [OF ok0] l by simp
      next
        case False
        then consider "a \<in> young ?e" "b \<notin> young ?e" | "a \<notin> young ?e" "b \<in> young ?e" | "a \<notin> young ?e" "b \<notin> young ?e"
          by blast
        then show ?thesis
        proof cases
          case 1
          then show ?thesis using rng [of b] yng [of a] ab l by (simp add: apart_def)
        next
          case 2
          then show ?thesis using rng [of a] yng [of b] ab l by (simp add: apart_def)
        next
          case 3
          then have "(a, 8 * isz m a) \<in> set olds" "(b, 8 * isz m b) \<in> set olds" using rng ab by simp_all
          then show ?thesis using tiled_apart [OF tl] l by (auto simp: apart_def)
        qed
      qed
    qed simp_all
  qed (use wf in \<open>auto simp: home_def slot_def fwd_def split: if_splits\<close>)
  have budget: "og_top (gs_old g) + 8 * (\<Sum>a \<in> young ?e. isz m a) \<le> og_committed_end (gs_old g)"
  proof -
    have "\<forall>a \<in> young (env_of (m, g) L olds). 0 < isz m a" using wf isz_ge2 by (force simp: young_def)
    then have "8 * (\<Sum>a \<in> young ?e. isz m a) \<le> worst_case g" using young_bytes [OF ok] by (simp add: yg)
    moreover have "worst_case g \<le> og_committed_end (gs_old g) - og_top (gs_old g)" "og_top (gs_old g) \<le> og_committed_end (gs_old g)"
      using pg by (auto simp: promotion_guarantee_def old_remaining_def usub_Inr_iff)
    ultimately show ?thesis by linarith
  qed
  have si: "space_inv ?e ghost0 g0"
    unfolding space_inv_def
    using budget so0 by (simp add: ghost0_def placed_def same_frame_def sel spaces_ok_def Let_def survivor_reset_def survivor_ok_def)
  have inv: "scav_inv ?e ghost0 {} (m, g0)"
    using ok0 hi si by (simp add: scav_inv_def mark_inv_def ghost0_def)
  have os: "old_slots ?e = old_slots (env_of (m, g) L olds)" by (simp add: old_slots_def yg slots_at_def)
  have ge: "hl_old_start (gs_layout g) \<le> s" if "s \<in> old_slots ?e" for s using old_slot(2) [OF inv that] by (simp add: sel)
  have "cards_inv ?e 0 ghost0 {} (m, g0)"
    unfolding cards_inv_def prod.case
  proof (intro conjI ballI impI)
    fix s assume s: "s \<in> old_slots ?e"
    have "hl_old_start (gs_layout g) \<le> ct_card_base (gs_cards (ev_gs ?e)) 0"
      using spaces_okD(3) [OF so0] by (simp add: ct_card_base_def sel)
    moreover have "ct_card_base (gs_cards (ev_gs ?e)) 0 \<le> s"
      using ge [OF s] spaces_okD(3) [OF so0] by (simp add: ct_card_base_def sel)
    moreover assume "s < ct_card_base (gs_cards (ev_gs ?e)) 0"
    ultimately show "s \<in> {} \<or> \<not> points_new (gs_layout (ev_gs ?e)) (ev_heap ?e s)"
      "points_new (gs_layout (ev_gs ?e)) (m s) \<Longrightarrow> card_dirty (gs_cards g0) s" by simp_all
  next
    fix s assume s: "s \<in> old_slots ?e" "ct_card_base (gs_cards (ev_gs ?e)) 0 \<le> s \<and> points_new (gs_layout (ev_gs ?e)) (ev_heap ?e s)"
    then show "card_dirty (gs_cards g0) s"
      using rem ge [OF s(1)] by (simp add: remembered_def mem_of_def os sel is_old_def)
  qed (use inv in simp_all)
  then show thesis using that [OF b inv] sel by simp
qed

section \<open>A whole cycle\<close>

lemma fwd_not_new:
  assumes "map_ok e p" "\<not> points_new (gs_layout (ev_gs e)) v"
  shows "fwd p v = v"
proof (cases "is_mem v")
  case True
  then have "\<not> ev_new e (oaddr v)" using assms(2) by (simp add: points_new_def)
  then have "p (oaddr v) = None" using map_okD(2) [OF assms(1)] by (cases "p (oaddr v)") auto
  then show ?thesis by (simp add: fwd_def)
qed (simp add: fwd_def)

lemma olds_settled_mono:
  assumes inv: "scav_inv e c S (m, g)" and inv': "scav_inv e c' S' (m', g')" and ext: "scav_ext (c, g) (c', g')"
    and S: "S \<subseteq> S'" and os: "olds_settled e c S (m, g)"
  shows "olds_settled e c' S' (m', g')"
  unfolding olds_settled_def prod.case
proof (intro ballI conjI impI)
  fix s assume s: "s \<in> old_slots e"
  let ?h = "gs_layout (ev_gs e)"
  have o: "s \<in> S \<or> \<not> points_new ?h (ev_heap e s)" "points_new ?h (m s) \<longrightarrow> card_dirty (gs_cards g) s"
    using os s by (simp_all add: olds_settled_def)
  then show "s \<in> S' \<or> \<not> points_new ?h (ev_heap e s)" using S by blast
  have "m' s = m s"
  proof (cases "s \<in> S")
    case True
    then show ?thesis using visited_stable [OF inv inv' _ S] ext by (simp add: scav_ext_def)
  next
    case False
    then have "\<not> points_new ?h (ev_heap e s)" using o(1) by blast
    then have "fwd (gh_map c') (ev_heap e s) = ev_heap e s" using fwd_not_new [OF scav_invD(6) [OF inv']] by blast
    then show ?thesis using old_slot(4) [OF inv s False] old_slot(4,5) [OF inv' s] by metis
  qed
  moreover assume "points_new ?h (m' s)"
  ultimately show "card_dirty (gs_cards g') s" using o(2) ext by (simp add: scav_ext_def)
qed

lemma cards_inv_roots:
  assumes ci: "cards_inv e 0 c {} (m, g)" and inv: "scav_inv e c' {} (m', g')" and ext: "scav_ext (c, g) (c', g')"
  shows "cards_inv e 0 c' {} (m', g')"
proof -
  have "ct_card_base (gs_cards (ev_gs e)) 0 \<le> s" if "s \<in> old_slots e" for s
    using old_slot(2) [OF inv that] spaces_okD(3) [OF env_okD(1) [OF scav_invD(1) [OF inv]]]
    by (simp add: ct_card_base_def)
  then show ?thesis using ci inv ext by (force simp: cards_inv_def scav_ext_def)
qed

lemma map_root_set_cong:
  assumes "\<And>v. v \<in> set (root_oops r) \<Longrightarrow> f v = f' v"
  shows "map_root_set f r = map_root_set f' r"
proof -
  have f: "f v = f' v" if "v \<in> set (rs_universe r) \<or> Some v \<in> set (rs_symbols r) \<or> v \<in> set (take (rs_sp r) (rs_stack r))
      \<or> v \<in> set (rs_handles r) \<or> v \<in> set (rs_mint_stack r) \<or> rs_regs_method r = Some v" for v
    using assms [of v] that by (auto simp: root_oops_def set_somes)
  have "map f (rs_universe r) = map f' (rs_universe r)"
    "map (map_option f) (rs_symbols r) = map (map_option f') (rs_symbols r)"
    "map f (take (rs_sp r) (rs_stack r)) = map f' (take (rs_sp r) (rs_stack r))"
    "map f (rs_handles r) = map f' (rs_handles r)" "map f (rs_mint_stack r) = map f' (rs_mint_stack r)"
    "map_option f (rs_regs_method r) = map_option f' (rs_regs_method r)"
    using f by (auto intro!: option.map_cong0)
  then show ?thesis by (simp only: map_root_set_def)
qed

text \<open>The roots, the dirty cards and the Cheney loop.\<close>

definition traced :: "scav_env \<Rightarrow> root_set \<Rightarrow> oop list \<Rightarrow> ghost \<Rightarrow> nat set \<Rightarrow> heap \<times> gc_state \<Rightarrow> bool" where
  "traced e r code c S s \<longleftrightarrow>
     scav_inv e c S s \<and> olds_settled e c S s \<and> scanned e c S (gh_copied c @ gh_promoted c)
     \<and> (\<forall>v \<in> set (root_oops r) \<union> set code. resolved e (gh_map c) v)"

lemma trace_ok:
  assumes ci: "cards_inv e 0 ghost0 {} (m, g)" and ps: "gs_pending_stall (ev_gs e) = None"
    and lv: "\<forall>v \<in> set (root_oops r) \<union> set code. live_val (ev_live e) v" and sp: "rs_sp r \<le> length (rs_stack r)"
  shows "\<exists>c S m' g' m1 g1. scavenge_roots (og_top (gs_old (ev_gs e))) r code (m, g)
      = Some (Inr (map_root_set (fwd (gh_map c)) r, map (fwd (gh_map c)) code, m1, g1))
    \<and> gs_pending_stall g1 = None
    \<and> cheney (sv_start (gs_to g1)) (og_top (gs_old (ev_gs e))) (m1, g1) = Some (Inr (Inr (), m', g'))
    \<and> traced e r code c S (m', g')"
proof -
  have inv: "scav_inv e ghost0 {} (m, g)" using ci by (simp add: cards_inv_def)
  have lr: "\<forall>v \<in> set (root_oops r). live_val (ev_live e) v" and lc: "\<forall>v \<in> set code. live_val (ev_live e) v"
    using lv by simp_all
  from scavenger.for_each_root_ok [OF inv lr sp] obtain c1 m1 g1 where
    r1: "for_each_root scavenge_oop r (m, g) = Inr (map_root_set (fwd (gh_map c1)) r, m1, g1)"
    "scav_inv e c1 {} (m1, g1)" "scav_ext (ghost0, g) (c1, g1)" "\<forall>v \<in> set (root_oops r). resolved e (gh_map c1) v" by blast
  have n: "ct_n_cards (gs_cards g1) = ct_n_cards (gs_cards (ev_gs e))"
    using scav_invD(7) [OF r1(2)] by (simp add: same_frame_def)
  from scan_cards_ok [OF cards_inv_roots [OF ci r1(2,3)], of] obtain c2 S2 m2 g2 where
    r2: "dirty_card_scan (og_top (gs_old (ev_gs e))) (m1, g1) = Some (Inr (m2, g2))"
    "scav_inv e c2 S2 (m2, g2)" "S2 \<subseteq> old_slots e" "olds_settled e c2 S2 (m2, g2)" "ghost_ext c1 c2"
    by (auto simp: dirty_card_scan_def n)
  from scavenger.visit_roots_ok [OF r2(2) lc] obtain c3 m3 g3 where
    r3: "visit_roots scavenge_oop code (m2, g2) = Inr (map (fwd (gh_map c3)) code, m3, g3)"
    "scav_inv e c3 S2 (m3, g3)" "scav_ext (c2, g2) (c3, g3)" "\<forall>v \<in> set code. resolved e (gh_map c3) v" by blast
  have os3: "olds_settled e c3 S2 (m3, g3)" using olds_settled_mono [OF r2(2) r3(2,3) _ r2(4)] by blast
  have un: "unscanned e c3 S2 (gh_copied c3 @ gh_promoted c3)"
    unfolding unscanned_def
  proof
    fix a assume "a \<in> set (gh_copied c3 @ gh_promoted c3)"
    then have "a \<in> set (gh_copied c3) \<union> set (gh_promoted c3)" by simp
    note ha = home_copied [OF r3(2) this]
    have "slots_at e b b \<inter> slots_at e a (the (gh_map c3 a)) = {}" if "b \<in> ev_live e - young e" for b
    proof -
      have "home e (gh_map c3) b = Some b" "b \<noteq> a" using that ha(2) by (auto simp: home_def young_def)
      then show ?thesis using slots_disjoint [OF r3(2), of b a] that ha(1,3) by blast
    qed
    then show "slots_at e a (the (gh_map c3 a)) \<inter> S2 = {}" using r2(3) by (fastforce simp: old_slots_def)
  qed
  have "\<exists>c' S' m' g'. cheney (sv_start (gs_to g3)) (og_top (gs_old (ev_gs e))) (m3, g3) = Some (Inr (Inr (), m', g'))
    \<and> scav_inv e c' S' (m', g') \<and> scav_ext (c3, g3) (c', g') \<and> S2 \<subseteq> S' \<and> scanned e c' S' (gh_copied c' @ gh_promoted c')"
    by (rule cheney_ok [OF r3(2) ps, of "[]" "gh_copied c3" "[]" "gh_promoted c3"])
      (use un in \<open>simp_all add: placed_def scanned_def\<close>)
  then obtain c4 S4 m4 g4 where
    r4: "cheney (sv_start (gs_to g3)) (og_top (gs_old (ev_gs e))) (m3, g3) = Some (Inr (Inr (), m4, g4))"
    "scav_inv e c4 S4 (m4, g4)" "scav_ext (c3, g3) (c4, g4)" "S2 \<subseteq> S4" "scanned e c4 S4 (gh_copied c4 @ gh_promoted c4)" by blast
  have le: "gh_map c1 \<subseteq>\<^sub>m gh_map c4" "gh_map c3 \<subseteq>\<^sub>m gh_map c4"
    using r2(5) r3(3) r4(3) by (auto simp: ghost_ext_def scav_ext_def intro: map_le_trans)
  note st = fwd_stable [OF _ scav_invD(6) [OF r4(2)]]
  have rr: "fwd (gh_map c4) v = fwd (gh_map c1) v" "resolved e (gh_map c4) v" if "v \<in> set (root_oops r)" for v
    using st [OF le(1)] r1(4) that by simp_all
  have rc: "fwd (gh_map c4) v = fwd (gh_map c3) v" "resolved e (gh_map c4) v" if "v \<in> set code" for v
    using st [OF le(2)] r3(4) that by simp_all
  have mr: "map_root_set (fwd (gh_map c1)) r = map_root_set (fwd (gh_map c4)) r"
    by (rule map_root_set_cong) (use rr in simp)
  have mc: "map (fwd (gh_map c3)) code = map (fwd (gh_map c4)) code" using rc by simp
  have "scavenge_roots (og_top (gs_old (ev_gs e))) r code (m, g)
      = Some (Inr (map_root_set (fwd (gh_map c4)) r, map (fwd (gh_map c4)) code, m3, g3))"
    using r1(1) r2(1) r3(1) mr mc by (simp add: scavenge_roots_def)
  moreover have "gs_pending_stall g3 = None" using scav_invD(7) [OF r3(2)] ps by (simp add: same_frame_def)
  moreover have "traced e r code c4 S4 (m4, g4)"
    using r4(2,5) olds_settled_mono [OF r3(2) r4(2,3,4) os3] rr(2) rc(2) by (auto simp: traced_def)
  ultimately show ?thesis using r4(1) by blast
qed

section \<open>The tenuring threshold\<close>

lemma threshold_scan_ok:
  assumes "length t = 128" "sum_list t \<le> usize_max" "k \<le> 128"
  shows "\<exists>A. threshold_scan t half (sum_list (take k t)) [k..<128] = Inr A \<and> A \<le> 127
    \<and> (\<forall>j. k \<le> j \<and> j < A \<longrightarrow> sum_list (take (Suc j) t) \<le> half)
    \<and> (A < 127 \<longrightarrow> half < sum_list (take (Suc A) t))"
  using assms
proof (induction "128 - k" arbitrary: k)
  case 0
  then have "k = 128" by simp
  then show ?case by (intro exI [of _ 127]) auto
next
  case (Suc n)
  then have k: "k < 128" by simp
  have step: "sum_list (take k t) + t ! k = sum_list (take (Suc k) t)"
    using k Suc.prems(1) by (simp add: take_Suc_conv_app_nth)
  have "sum_list t = sum_list (take (Suc k) t) + sum_list (drop (Suc k) t)"
    by (metis append_take_drop_id sum_list_append)
  then have "sum_list (take (Suc k) t) \<le> usize_max" using Suc.prems(2) by linarith
  then have u: "uadd (sum_list (take k t)) (t ! k) = Inr (sum_list (take (Suc k) t))"
    using step by (simp add: uadd_def)
  have e: "threshold_scan t half (sum_list (take k t)) [k..<128] =
      (if sum_list (take (Suc k) t) > half then Inr k
       else threshold_scan t half (sum_list (take (Suc k) t)) [Suc k..<128])"
    using k Suc.prems(1) u by (subst upt_conv_Cons) simp_all
  show ?case
  proof (cases "sum_list (take (Suc k) t) > half")
    case True
    then show ?thesis using e k by (intro exI [of _ k]) simp
  next
    case False
    have "n = 128 - Suc k" "Suc k \<le> 128" using Suc.hyps(2) k by simp_all
    from Suc.hyps(1) [OF this(1) Suc.prems(1,2) this(2)] obtain A where
      A: "threshold_scan t half (sum_list (take (Suc k) t)) [Suc k..<128] = Inr A" "A \<le> 127"
      "\<forall>j. Suc k \<le> j \<and> j < A \<longrightarrow> sum_list (take (Suc j) t) \<le> half" "A < 127 \<longrightarrow> half < sum_list (take (Suc A) t)"
      by blast
    have "sum_list (take (Suc j) t) \<le> half" if "k \<le> j" "j < A" for j
      using A(3) False that by (cases "j = k") auto
    then show ?thesis using A e False by (intro exI [of _ A]) simp
  qed
qed

lemma compute_threshold_ok:
  assumes "length t = 128" "sum_list t \<le> usize_max"
  shows "\<exists>A. compute_threshold t cap = Inr A \<and> A \<le> 127
    \<and> (\<forall>j < A. sum_list (take (Suc j) t) \<le> cap div 2)
    \<and> (A < 127 \<longrightarrow> cap div 2 < sum_list (take (Suc A) t))"
  using threshold_scan_ok [OF assms, of 0 "cap div 2"] by (simp add: compute_threshold_def)

section \<open>The last step\<close>

lemma poison_from_eq:
  "(t - a) mod 8 = 0 \<Longrightarrow> poison_from a t m = (\<lambda>x. if a \<le> x \<and> x < t \<and> (x - a) mod 8 = 0 then POISON else m x)"
proof (induction a t m rule: poison_from.induct)
  case (1 a t m)
  show ?case
  proof (cases "a < t")
    case False
    then show ?thesis by (subst poison_from.simps) (auto simp: fun_eq_iff)
  next
    case True
    have "(t - (a + WORD_SIZE)) mod 8 = 0" using "1.prems" by (simp add: WORD_SIZE_def) presburger
    note ih = "1.IH" [OF True this]
    have eqv: "a \<le> x \<and> x < t \<and> (x - a) mod 8 = 0 \<longleftrightarrow> x = a \<or> (a + 8 \<le> x \<and> x < t \<and> (x - (a + 8)) mod 8 = 0)" for x
    proof (cases "x < a + 8")
      case lt: True
      then have "(x - a) mod 8 = 0 \<and> a \<le> x \<longleftrightarrow> x = a" by auto
      then show ?thesis using lt True by auto
    next
      case False
      then have "(x - a) mod 8 = (x - (a + 8)) mod 8" by (simp add: le_mod_geq)
      then show ?thesis using False by auto
    qed
    have "poison_from a t m = poison_from (a + WORD_SIZE) t (m(a := POISON))"
      using True by (subst poison_from.simps) simp
    then have un: "poison_from a t m x = poison_from (a + WORD_SIZE) t (m(a := POISON)) x" for x by simp
    show ?thesis
      by (rule ext, unfold eqv un ih) (simp add: WORD_SIZE_def)
  qed
qed

definition vacated :: "gc_state \<Rightarrow> nat \<Rightarrow> bool" where
  "vacated g x \<longleftrightarrow> ed_start (gs_eden g) \<le> x \<and> x < ed_top (gs_eden g) \<or> sv_start (gs_from g) \<le> x \<and> x < sv_top (gs_from g)"

definition finish_ok :: "gc_state \<Rightarrow> heap \<times> gc_state \<Rightarrow> scavenge_report \<times> heap \<times> gc_state \<Rightarrow> bool" where
  "finish_ok g0 = (\<lambda>(m, g) (rep, m', g').
     (\<forall>x. \<not> vacated g0 x \<longrightarrow> m' x = m x) \<and> (\<forall>x. vacated g0 x \<and> x mod 8 = 0 \<longrightarrow> m' x = POISON)
     \<and> gs_layout g' = gs_layout g0 \<and> gs_old g' = gs_old g \<and> gs_offsets g' = gs_offsets g \<and> gs_cards g' = gs_cards g
     \<and> gs_eden g' = (gs_eden g0)\<lparr>ed_top := ed_start (gs_eden g0)\<rparr>
     \<and> gs_from g' = gs_to g \<and> gs_to g' = survivor_reset (gs_from g0)
     \<and> gs_gc_enabled g' = gs_gc_enabled g0 \<and> gs_pending_stall g' = gs_pending_stall g0
     \<and> sr_survivor_bytes rep = sv_top (gs_to g) - sv_start (gs_to g)
     \<and> sr_promoted_bytes rep = og_top (gs_old g) - og_top (gs_old g0) \<and> gs_tenuring_threshold g' = sr_new_threshold rep
     \<and> gs_lookup_cache g' = cache_flush (gs_lookup_cache g0)
     \<and> compute_threshold (gs_age_table g) (sv_end (gs_to g) - sv_start (gs_to g)) = Inr (sr_new_threshold rep))"

lemma scavenge_finish_ok:
  assumes inv: "scav_inv e c S (m, g)"
  shows "\<exists>r. scavenge_finish (og_top (gs_old (ev_gs e))) (m, g) = Inr r \<and> finish_ok (ev_gs e) (m, g) r"
proof -
  note d = scav_invD [OF inv] and f = scav_invD(7) [OF inv, unfolded same_frame_def]
  note so = env_okD(1) [OF d(1), unfolded spaces_ok_def survivor_ok_def Let_def]
  note s = space_invD [OF d(3)]
  let ?e0 = "gs_eden (ev_gs e)" and ?f0 = "gs_from (ev_gs e)"
  have ed: "ed_start ?e0 \<le> ed_top ?e0" "(ed_top ?e0 - ed_start ?e0) mod 8 = 0" "ed_start ?e0 mod 8 = 0"
    "sv_start ?f0 \<le> sv_top ?f0" "(sv_top ?f0 - sv_start ?f0) mod 8 = 0" "sv_start ?f0 mod 8 = 0"
    using so by (simp_all add: mod_eq_0_iff_dvd)
  have p1: "poison_range (ed_start ?e0) (ed_top ?e0) m = Inr (poison_from (ed_start ?e0) (ed_top ?e0) m)"
    and p2: "poison_range (sv_start ?f0) (sv_top ?f0) m1 = Inr (poison_from (sv_start ?f0) (sv_top ?f0) m1)" for m1
    using ed by (simp_all add: poison_range_def WORD_SIZE_def)
  have cap: "sv_start (gs_to g) \<le> sv_end (gs_to g)" using tiled_le [OF s(4)] s(5) by linarith
  have sum: "sum_list (gs_age_table g) \<le> usize_max"
  proof -
    have "og_top (gs_old g) \<le> usize_max" using s(6) by (simp add: old_inv_def)
    moreover have "sv_end (gs_to g) \<le> hl_old_start (gs_layout (ev_gs e))" using so f by simp
    moreover have "hl_old_start (gs_layout (ev_gs e)) \<le> og_top (gs_old (ev_gs e))"
      using so tiled_le by (fastforce simp: old_inv_def)
    moreover have "og_top (gs_old (ev_gs e)) \<le> og_top (gs_old g)" using tiled_le [OF tiled_promoted [OF inv]] .
    ultimately show ?thesis using s(5,9) by linarith
  qed
  obtain A where A: "compute_threshold (gs_age_table g) (sv_end (gs_to g) - sv_start (gs_to g)) = Inr A"
    using compute_threshold_ok [OF s(8) sum] by blast
  have top: "og_top (gs_old (ev_gs e)) \<le> og_top (gs_old g)" using tiled_le [OF tiled_promoted [OF inv]] .
  let ?m' = "poison_from (sv_start ?f0) (sv_top ?f0) (poison_from (ed_start ?e0) (ed_top ?e0) m)"
  define g' where "g' = g\<lparr>gs_from := gs_to g, gs_to := survivor_reset (gs_from g),
    gs_eden := (gs_eden g)\<lparr>ed_top := ed_start (gs_eden g)\<rparr>, gs_lookup_cache := cache_flush (gs_lookup_cache g),
    gs_tenuring_threshold := A,
    gs_gc_stats := (gs_gc_stats g)\<lparr>st_scavenge_count := st_scavenge_count (gs_gc_stats g) + 1, st_tenuring_threshold := A\<rparr>\<rparr>"
  define rep where "rep = \<lparr>sr_survivor_bytes = sum_list (gs_age_table g),
    sr_promoted_bytes = og_top (gs_old g) - og_top (gs_old (ev_gs e)), sr_new_threshold = A\<rparr>"
  have run: "scavenge_finish (og_top (gs_old (ev_gs e))) (m, g) = Inr (rep, ?m', g')"
    using p1 p2 f cap A top by (simp add: scavenge_finish_def Let_def rep_def g'_def)
  have q: "?m' x = (if (sv_start ?f0 \<le> x \<and> x < sv_top ?f0 \<and> (x - sv_start ?f0) mod 8 = 0)
      \<or> (ed_start ?e0 \<le> x \<and> x < ed_top ?e0 \<and> (x - ed_start ?e0) mod 8 = 0) then POISON else m x)" for x
    using poison_from_eq [OF ed(2)] poison_from_eq [OF ed(5)] by simp
  have al: "(x - l) mod 8 = 0" if "x mod 8 = 0" "l mod 8 = 0" for x l :: nat
    using that by (simp add: mod_eq_0_iff_dvd)
  have "?m' x = m x" if "\<not> vacated (ev_gs e) x" for x using q that by (auto simp: vacated_def)
  moreover have "?m' x = POISON" if "vacated (ev_gs e) x" "x mod 8 = 0" for x
    using q that al ed by (auto simp: vacated_def)
  ultimately have "finish_ok (ev_gs e) (m, g) (rep, ?m', g')"
    using f s(9) A by (simp add: finish_ok_def g'_def rep_def)
  then show ?thesis using run by blast
qed

text \<open>Nothing that is still in use is in the vacated ranges.\<close>

lemma home_not_vacated:
  assumes inv: "scav_inv e c S (m, g)" and a: "a \<in> ev_live e" "home e (gh_map c) a = Some b"
    and x: "b \<le> x" "x < b + 8 * isz (ev_heap e) a"
  shows "\<not> vacated (ev_gs e) x"
proof -
  note d = scav_invD [OF inv] and f = scav_invD(7) [OF inv, unfolded same_frame_def]
  note r = regions [OF d(1,3)] and s = space_invD [OF d(3)]
  note so = env_okD(1) [OF d(1), unfolded spaces_ok_def survivor_ok_def off_def Let_def]
  have lim: "sv_top (gs_from (ev_gs e)) \<le> hl_old_start (gs_layout (ev_gs e))"
    "ed_top (gs_eden (ev_gs e)) \<le> hl_old_start (gs_layout (ev_gs e))" using so by linarith+
  show ?thesis
  proof (cases "ev_new e a")
    case False
    then have "b = a" using a(2) by (simp add: home_def)
    then show ?thesis using r(2) [OF a(1) False] lim x by (auto simp: vacated_def)
  next
    case True
    then have pa: "gh_map c a = Some b" using a(2) by (simp add: home_def)
    then have "a \<in> set (gh_copied c) \<union> set (gh_promoted c)" using s(3) by blast
    then show ?thesis
    proof
      assume "a \<in> set (gh_copied c)"
      then have "sv_start (gs_to (ev_gs e)) \<le> x" "x < sv_end (gs_to (ev_gs e))"
        using r(3) [OF a(1)] pa x f s(5) by auto
      moreover have "sv_end (gs_to (ev_gs e)) \<le> ed_start (gs_eden (ev_gs e)) \<or> ed_top (gs_eden (ev_gs e)) \<le> sv_start (gs_to (ev_gs e))"
        "sv_end (gs_to (ev_gs e)) \<le> sv_start (gs_from (ev_gs e)) \<or> sv_top (gs_from (ev_gs e)) \<le> sv_start (gs_to (ev_gs e))"
        using spaces_okD(10,11) [OF env_okD(1) [OF d(1)]] by simp_all
      ultimately show ?thesis by (auto simp: vacated_def)
    next
      assume "a \<in> set (gh_promoted c)"
      then have "hl_old_start (gs_layout (ev_gs e)) \<le> x" using r(4,6) [OF a(1)] pa x by simp
      then show ?thesis using lim by (auto simp: vacated_def)
    qed
  qed
qed

end
