(* ===== verification/Scavenger.thy ===== *)
theory Scavenger
  imports ScavengeSpec
begin

unbundle bit_operations_syntax

text \<open>
  What a collection promises of the heap it starts from, and the proofs that \<open>scavenge\<close> keeps it:
  the reachable objects are moved word for word and nothing else survives, the heap is well formed
  again, the spaces are emptied and accounted for.
\<close>

section \<open>Reachability\<close>

text \<open>The objects a collection keeps: all old objects, what the roots refer to, and what those refer to.\<close>

inductive_set reached :: "heap \<Rightarrow> (nat \<times> nat) list \<Rightarrow> root_set \<Rightarrow> oop list \<Rightarrow> nat set"
  for m :: heap and olds :: "(nat \<times> nat) list" and r :: root_set and code :: "oop list" where
  old: "(a, n) \<in> set olds \<Longrightarrow> a \<in> reached m olds r code"
| root: "v \<in> set (root_oops r) \<union> set code \<Longrightarrow> is_mem v \<Longrightarrow> oaddr v \<in> reached m olds r code"
| field: "a \<in> reached m olds r code \<Longrightarrow> i \<in> slot_idx m a \<Longrightarrow> is_mem (m (a + 8 * i)) \<Longrightarrow>
    oaddr (m (a + 8 * i)) \<in> reached m olds r code"

lemma heap_okD:
  assumes "heap_ok r code L olds (m, g)"
  shows "env_ok (env_of (m, g) L olds)" "a \<in> L \<Longrightarrow> wf_obj m L a"
    "v \<in> set (root_oops r) \<union> set code \<Longrightarrow> live_val L v" "rs_sp r \<le> length (rs_stack r)"
    "remembered (old_slots (env_of (m, g) L olds)) (mem_of (m, g))" "gs_gc_enabled g" "gs_pending_stall g = None"
  using assms by (auto simp: heap_ok_def)

lemma heap_ok_reached:
  assumes hk: "heap_ok r code L olds (m, g)"
  shows "reached m olds r code \<subseteq> L" and "heap_ok r code (reached m olds r code) olds (m, g)"
proof -
  let ?R = "reached m olds r code" and ?e = "env_of (m, g) L olds"
  let ?f = "env_of (m, g) ?R olds"
  note h = heap_okD [OF hk]
  show sub: "?R \<subseteq> L"
  proof
    fix a assume "a \<in> ?R"
    then show "a \<in> L"
    proof induction
      case (old a n)
      then show ?case using olds_objects(1) [OF h(1)] by simp
    next
      case (root v)
      then show ?case using h(3) mem_not_smi by (fastforce simp: live_val_def)
    next
      case (field a i)
      then have "live_val L (m (a + 8 * i))" using h(2) by (auto simp: wf_obj_def)
      then show ?case using field mem_not_smi by (fastforce simp: live_val_def)
    qed
  qed
  have yg: "young ?f = young ?e \<inter> ?R" using sub by (auto simp: young_def)
  have keep: "L - young ?e = ?R - young ?f"
  proof
    show "?R - young ?f \<subseteq> L - young ?e" using sub by (auto simp: young_def)
    show "L - young ?e \<subseteq> ?R - young ?f"
    proof
      fix a assume a: "a \<in> L - young ?e"
      then have "(a, 8 * isz m a) \<in> set olds" using env_okD(6) [OF h(1)] by simp
      then show "a \<in> ?R - young ?f" using a reached.old by (auto simp: young_def)
    qed
  qed
  have ok: "env_ok ?f"
    using h(1) sub keep unfolding env_ok_def yg by (auto intro: finite_subset)
  have val: "live_val ?R v" if "live_val L v" "is_mem v \<Longrightarrow> oaddr v \<in> ?R" for v
    using that by (auto simp: live_val_def)
  have "wf_obj m ?R a" if a: "a \<in> ?R" for a
  proof -
    have "wf_obj m L a" using h(2) a sub by blast
    then show ?thesis using val reached.field [OF a] by (simp add: wf_obj_def)
  qed
  moreover have "live_val ?R v" if "v \<in> set (root_oops r) \<union> set code" for v
    using val [OF h(3) [OF that]] reached.root [OF that] by blast
  moreover have "old_slots ?f = old_slots ?e"
    unfolding old_slots_def using keep by (simp add: slots_at_def)
  ultimately show "heap_ok r code ?R olds (m, g)" using h ok by (simp add: heap_ok_def)
qed

section \<open>The result of a collection\<close>

text \<open>\<open>target\<close>: where an object is after the collection.\<close>

definition target :: "fwd_map \<Rightarrow> nat \<Rightarrow> nat" where
  "target p a = (case p a of None \<Rightarrow> a | Some b \<Rightarrow> b)"

text \<open>The objects \<open>L\<close> of \<open>m\<close> stand in \<open>m'\<close> at their targets, disjoint, with the same words; oop words are
  forwarded, and the header of an object that stayed young is one collection older.\<close>

definition relocated :: "heap \<Rightarrow> heap_layout \<Rightarrow> nat set \<Rightarrow> fwd_map \<Rightarrow> heap \<Rightarrow> bool" where
  "relocated m h L p m' \<longleftrightarrow>
     (\<forall>a \<in> L. \<forall>b \<in> L. a \<noteq> b \<longrightarrow> apart (target p a) (isz m a) (target p b) (isz m b))
     \<and> (\<forall>a \<in> L. (if is_new h (target p a) then aged (m a) = Inr (m' (target p a)) else m' (target p a) = m a)
         \<and> (\<forall>i. 1 \<le> i \<and> i < isz m a \<longrightarrow>
              m' (target p a + 8 * i) = (if i \<in> slot_idx m a then fwd p (m (a + 8 * i)) else m (a + 8 * i))))"

lemma fwd_target: "fwd p v = (if is_mem v then mem_oop (target p (oaddr v)) else v)"
  by (auto simp: fwd_def target_def split: option.splits)

text \<open>The end of the trace: every live young object has been copied, every oop word is forwarded.\<close>

lemma traced_old:
  assumes t: "traced e r code c S (m, g)" and a: "a \<in> ev_live e" "\<not> ev_new e a" and i: "i \<in> slot_idx (ev_heap e) a"
  shows "m (a + 8 * i) = fwd (gh_map c) (ev_heap e (a + 8 * i))" "resolved e (gh_map c) (ev_heap e (a + 8 * i))"
proof -
  let ?s = "a + 8 * i"
  have inv: "scav_inv e c S (m, g)" and os: "olds_settled e c S (m, g)" using t by (simp_all add: traced_def)
  have s: "?s \<in> old_slots e" using a i by (auto simp: old_slots_def young_def slots_at_def)
  note o = old_slot [OF inv s]
  have "?s \<in> S \<or> \<not> points_new (gs_layout (ev_gs e)) (ev_heap e ?s)" using os s by (simp add: olds_settled_def)
  then have "m ?s = fwd (gh_map c) (ev_heap e ?s) \<and> resolved e (gh_map c) (ev_heap e ?s)"
  proof
    assume S: "?s \<in> S"
    then obtain v where v: "slot e (gh_map c) ?s v" "resolved e (gh_map c) v"
      using heap_invD(6) [OF scav_invD(2) [OF inv]] by blast
    have "readable (gh_map c) a a" by (simp add: readable_def)
    then have "v = ev_heap e ?s"
      using slot_unique [OF scav_invD(2) [OF inv] v(1) a(1)] slot_idx_bound [OF heap_invD(1) [OF scav_invD(2) [OF inv] a(1)] i]
      by blast
    then show ?thesis using v(2) o(5) S by simp
  next
    assume n: "\<not> points_new (gs_layout (ev_gs e)) (ev_heap e ?s)"
    then have f: "fwd (gh_map c) (ev_heap e ?s) = ev_heap e ?s" using fwd_not_new [OF scav_invD(6) [OF inv]] by blast
    moreover have "resolved e (gh_map c) (ev_heap e ?s)" using n by (auto simp: resolved_def points_new_def)
    moreover have "m ?s = ev_heap e ?s" using o(4,5) f by (cases "?s \<in> S") simp_all
    ultimately show ?thesis by simp
  qed
  then show "m (a + 8 * i) = fwd (gh_map c) (ev_heap e (a + 8 * i))" "resolved e (gh_map c) (ev_heap e (a + 8 * i))"
    by simp_all
qed

lemma traced_copied:
  assumes t: "traced e r code c S (m, g)" and a: "gh_map c a = Some b" and i: "i \<in> slot_idx (ev_heap e) a"
  shows "m (b + 8 * i) = fwd (gh_map c) (ev_heap e (a + 8 * i))" "resolved e (gh_map c) (ev_heap e (a + 8 * i))"
proof -
  have inv: "scav_inv e c S (m, g)" and sc: "scanned e c S (gh_copied c @ gh_promoted c)"
    using t by (simp_all add: traced_def)
  note d = scav_invD [OF inv]
  have mem: "a \<in> set (gh_copied c) \<union> set (gh_promoted c)" using space_invD(3) [OF d(3)] a by blast
  note ha = home_copied [OF inv mem]
  have "slots_at e a (the (gh_map c a)) \<subseteq> S" using sc mem unfolding scanned_def set_append by blast
  then have S: "b + 8 * i \<in> S" using a i by (auto simp: slots_at_def)
  then obtain v where v: "slot e (gh_map c) (b + 8 * i) v" "resolved e (gh_map c) v"
    using heap_invD(6) [OF d(2)] by blast
  have "readable (gh_map c) a b" using a by (simp add: readable_def)
  then have "v = ev_heap e (a + 8 * i)"
    using slot_unique [OF d(2) v(1) ha(1)] slot_idx_bound [OF heap_invD(1) [OF d(2) ha(1)] i] by blast
  then show "m (b + 8 * i) = fwd (gh_map c) (ev_heap e (a + 8 * i))" "resolved e (gh_map c) (ev_heap e (a + 8 * i))"
    using v(2) slot_live(3) [OF d(2) v(1) S] by simp_all
qed


lemma traced_dom:
  assumes t: "traced e r code c S (m, g)" and L: "ev_live e = reached (ev_heap e) (ev_olds e) r code"
  shows "dom (gh_map c) = young e"
proof
  have inv: "scav_inv e c S (m, g)" and rt: "\<forall>v \<in> set (root_oops r) \<union> set code. resolved e (gh_map c) v"
    using t by (simp_all add: traced_def)
  note d = scav_invD [OF inv]
  show "dom (gh_map c) \<subseteq> young e" using map_okD(1,2) [OF d(6)] by (auto simp: young_def)
  have "ev_new e a \<longrightarrow> a \<in> dom (gh_map c)" if "a \<in> reached (ev_heap e) (ev_olds e) r code" for a
    using that
  proof induction
    case (old a n)
    then show ?case using olds_objects(2) [OF d(1)] by blast
  next
    case (root v)
    then show ?case using rt by (simp add: resolved_def)
  next
    case (field a i)
    have a: "a \<in> ev_live e" using field L by simp
    have "resolved e (gh_map c) (ev_heap e (a + 8 * i))"
      using traced_old(2) [OF t a _ field.hyps(2)] traced_copied(2) [OF t _ field.hyps(2)] field.IH by blast
    then show ?case using field.hyps(3) by (simp add: resolved_def)
  qed
  then show "young e \<subseteq> dom (gh_map c)" using L by (auto simp: young_def)
qed

lemma target_readable: "readable p a (target p a)"
  by (simp add: readable_def target_def split: option.splits)

lemma target_home:
  assumes "map_ok e p" "dom p = young e" "a \<in> ev_live e"
  shows "home e p a = Some (target p a)"
  using assms map_okD(2) [OF assms(1)] by (cases "p a") (auto simp: home_def target_def young_def)

lemma target_new:
  assumes inv: "scav_inv e c S (m, g)" and dom: "dom (gh_map c) = young e" and a: "a \<in> ev_live e"
  shows "ev_new e (target (gh_map c) a) \<longleftrightarrow> a \<in> set (gh_copied c)"
    and "a \<notin> set (gh_copied c) \<Longrightarrow> a \<notin> set (gh_promoted c) \<Longrightarrow> gh_map c a = None"
    and "a \<in> set (gh_copied c) \<union> set (gh_promoted c) \<Longrightarrow> target (gh_map c) a = the (gh_map c a)"
proof -
  note d = scav_invD [OF inv] and s = space_invD [OF scav_invD(3) [OF inv]]
  note r = regions [OF d(1,3) a]
  have two: "2 \<le> isz (ev_heap e) a" using isz_ge2 [OF heap_invD(1) [OF d(2) a]] .
  show none: "a \<notin> set (gh_copied c) \<Longrightarrow> a \<notin> set (gh_promoted c) \<Longrightarrow> gh_map c a = None"
    using s(3) by (auto simp: domIff)
  show tgt: "a \<in> set (gh_copied c) \<union> set (gh_promoted c) \<Longrightarrow> target (gh_map c) a = the (gh_map c a)"
    unfolding s(3) [symmetric] by (auto simp: target_def)
  consider "a \<in> set (gh_copied c)" | "a \<notin> set (gh_copied c)" "a \<in> set (gh_promoted c)"
    | "a \<notin> set (gh_copied c)" "a \<notin> set (gh_promoted c)" by blast
  then show "ev_new e (target (gh_map c) a) \<longleftrightarrow> a \<in> set (gh_copied c)"
  proof cases
    case 1
    have "the (gh_map c a) < hl_old_start (gs_layout (ev_gs e))" using r(3) [OF 1] r(8) s(5) two by linarith
    then show ?thesis using 1 tgt by (simp add: is_new_def)
  next
    case 2
    have "hl_old_start (gs_layout (ev_gs e)) \<le> the (gh_map c a)" using r(4) [OF 2(2)] r(6) by linarith
    then show ?thesis using 2 tgt by (simp add: is_new_def)
  next
    case 3
    then have "gh_map c a = None" by (rule none)
    then show ?thesis using 3 dom a by (auto simp: target_def young_def)
  qed
qed

lemma traced_relocated:
  assumes t: "traced e r code c S (m, g)" and dom: "dom (gh_map c) = young e"
  shows "relocated (ev_heap e) (gs_layout (ev_gs e)) (ev_live e) (gh_map c) m"
  unfolding relocated_def
proof (intro conjI ballI impI allI)
  let ?p = "gh_map c" and ?H = "ev_heap e"
  have inv: "scav_inv e c S (m, g)" using t by (simp add: traced_def)
  note d = scav_invD [OF inv]
  show "apart (target ?p a) (isz ?H a) (target ?p b) (isz ?H b)" if "a \<in> ev_live e" "b \<in> ev_live e" "a \<noteq> b" for a b
    using map_okD(5) [OF d(6) that(1,2) target_readable target_readable] that(3) by blast
  fix a assume a: "a \<in> ev_live e"
  note h = target_home [OF d(6) dom a] and tn = target_new [OF inv dom a]
  show "if ev_new e (target ?p a) then aged (?H a) = Inr (m (target ?p a)) else m (target ?p a) = ?H a"
  proof (cases "?p a")
    case None
    then show ?thesis using tn a heap_invD(3) [OF d(2) a] dom by (auto simp: target_def young_def)
  next
    case (Some b)
    then have b: "target ?p a = the (?p a)" by (simp add: target_def)
    show ?thesis
    proof (cases "a \<in> set (gh_copied c)")
      case True
      then show ?thesis using tn(1) b d(4) by (simp add: mark_inv_def)
    next
      case False
      then have "a \<in> set (gh_promoted c)" using tn(2) Some by auto
      then show ?thesis using False tn(1) b d(4) by (simp add: mark_inv_def)
    qed
  qed
  fix i assume i: "1 \<le> i \<and> i < isz ?H a"
  let ?v = "?H (a + 8 * i)" and ?s = "target ?p a + 8 * i"
  show "m ?s = (if i \<in> slot_idx ?H a then fwd ?p ?v else ?v)"
  proof (cases "i \<in> slot_idx ?H a")
    case True
    have "m ?s = fwd ?p ?v"
    proof (cases "?p a")
      case None
      then have "\<not> ev_new e a" using dom a by (auto simp: young_def)
      then show ?thesis using traced_old(1) [OF t a _ True] None by (simp add: target_def)
    next
      case (Some b)
      then show ?thesis using traced_copied(1) [OF t Some True] by (simp add: target_def)
    qed
    then show ?thesis using True by simp
  next
    case False
    have "?s \<notin> S"
    proof
      assume "?s \<in> S"
      then obtain v where "slot e ?p ?s v" using heap_invD(6) [OF d(2)] by blast
      then show False using slot_unique [OF d(2) _ a target_readable] i False by blast
    qed
    then show ?thesis using heap_invD(5) [OF d(2) a h] i False by simp
  qed
qed

lemma relocated_cong:
  assumes "relocated m h L p m1" and "\<And>a x. a \<in> L \<Longrightarrow> target p a \<le> x \<Longrightarrow> x < target p a + 8 * isz m a \<Longrightarrow> m2 x = m1 x"
    and "\<And>a. a \<in> L \<Longrightarrow> 0 < isz m a"
  shows "relocated m h L p m2"
  using assms unfolding relocated_def by simp

section \<open>The heap afterwards is well formed\<close>

definition places_ok :: "heap \<Rightarrow> nat set \<Rightarrow> fwd_map \<Rightarrow> bool" where
  "places_ok m L p \<longleftrightarrow> (\<forall>a \<in> L. target p a mod 8 = 0 \<and> target p a + 8 * isz m a \<le> usize_max)"

abbreviation at_target :: "fwd_map \<Rightarrow> nat \<Rightarrow> nat \<Rightarrow> bool" where
  "at_target p a l \<equiv> l = target p a"

lemma live_fwd:
  assumes "live_val L v" "\<forall>a \<in> L. target p a mod 8 = 0 \<and> target p a \<le> usize_max"
  shows "live_val (target p ` L) (fwd p v)"
  using assms by (auto simp: live_val_def fwd_target mem_not_smi)

lemma relocated_view:
  assumes rl: "relocated m h L p m'" and wf: "\<forall>a \<in> L. wf_obj m L a" and pl: "places_ok m L p"
  shows "heap_view m L (at_target p) m'"
  unfolding heap_view_def
proof (intro conjI ballI allI impI)
  fix a assume a: "a \<in> L"
  show "wf_obj m L a" using wf a by blast
  fix l assume l: "l = target p a"
  then show "l mod 8 = 0" "l + 8 * isz m a \<le> usize_max" using pl a by (simp_all add: places_ok_def)
  fix i assume i: "1 \<le> i \<and> i < isz m a"
  then have e: "m' (l + 8 * i) = (if i \<in> slot_idx m a then fwd p (m (a + 8 * i)) else m (a + 8 * i))"
    using rl a l by (simp add: relocated_def)
  show "word_view (at_target p) (i \<in> slot_idx m a) (m (a + 8 * i)) (m' (l + 8 * i))"
  proof (cases "i \<in> slot_idx m a \<and> is_mem (m (a + 8 * i))")
    case True
    then have "oaddr (m (a + 8 * i)) \<in> L"
      using wf a mem_not_smi by (fastforce simp: wf_obj_def live_val_def)
    then have "target p (oaddr (m (a + 8 * i))) mod 8 = 0" "target p (oaddr (m (a + 8 * i))) \<le> usize_max"
      using pl by (auto simp: places_ok_def)
    then show ?thesis using e True by (simp add: word_view_def fwd_target)
  next
    case False
    then show ?thesis using e by (auto simp: word_view_def fwd_target)
  qed
qed

text \<open>Sizes and slots are those of the original.\<close>

lemma moved_shape:
  assumes hv: "heap_view m L (at_target p) m'" and a: "a \<in> L" and os: "oshape m a = (k, nis, f)"
  shows "oshape m' (target p a) = (m' (target p a + 8), nis, f)" "isz m' (target p a) = isz m a"
    "slot_idx m' (target p a) = slot_idx m a" "is_ok (shape m' (mem_oop (target p a)))"
    "is_ok (instance_size_words m' (mem_oop (target p a)))"
proof -
  note v = view_shape [OF hv a refl os]
  show o: "oshape m' (target p a) = (m' (target p a + 8), nis, f)" using v(1) by (simp add: oshape_def)
  show "isz m' (target p a) = isz m a" using v(3) by (simp add: isz_def)
  show "is_ok (shape m' (mem_oop (target p a)))" "is_ok (instance_size_words m' (mem_oop (target p a)))"
    using v(1,3) by simp_all
  have "set (oop_words f nis (olen m' (target p a))) = set (oop_words f nis (olen m a))"
  proof (cases "tail_format f \<or> byte_format f")
    case True
    then show ?thesis using v(2) o by (simp add: olen_def)
  next
    case False
    then show ?thesis by (cases f) (auto simp: tail_format_def byte_format_def)
  qed
  then show "slot_idx m' (target p a) = slot_idx m a" using o os by (simp add: slot_idx_def)
qed

lemma aged_mark:
  assumes "mark_from_word w = Inr w" "aged w = Inr w'"
  shows "mark_from_word w' = Inr w'"
proof -
  have v: "min (age_succ (mark_age w)) MARK_AGE_MAX \<le> MARK_AGE_MAX" by simp
  have w': "w' = projr (mark_with_age w (min (age_succ (mark_age w)) MARK_AGE_MAX))"
    using assms(2) by (simp add: aged_def)
  have z: "TAG_MASK AND MARK_AGE_MASK = 0" "MARK_SENTINEL_MASK AND MARK_AGE_MASK = 0"
    by (simp_all add: tag_defs MARK_AGE_MASK_def MARK_SENTINEL_MASK_def MARK_AGE_BITS_def MARK_AGE_SHIFT_def MARK_SENTINEL_SHIFT_def)
  have "w' AND TAG_MASK = w AND TAG_MASK" "w' AND MARK_SENTINEL_MASK = w AND MARK_SENTINEL_MASK"
    using age_f.set_outside [OF v z(1), of w] age_f.set_outside [OF v z(2), of w] w' by simp_all
  then show ?thesis using assms(1) by (simp add: mark_from_word_def guard_res_Inr_iff)
qed

lemma moved_wf:
  assumes hv: "heap_view m L (at_target p) m'" and rl: "relocated m h L p m'" and pl: "places_ok m L p" and a: "a \<in> L"
  shows "wf_obj m' (target p ` L) (target p a)"
proof -
  have w: "wf_obj m L b" if "b \<in> L" for b using heap_viewD(6) [OF hv that refl] .
  from w [OF a] obtain k nis f where k: "oshape m a = (k, nis, f)" "k = m (a + 8)" "is_mem k" "oaddr k \<in> L" "2 \<le> nis"
    "4 \<le> isz m (oaddr k)" by (rule wf_objE)
  note ms = moved_shape [OF hv a k(1)]
  have al: "\<forall>a \<in> L. target p a mod 8 = 0 \<and> target p a \<le> usize_max" using pl by (auto simp: places_ok_def)
  have mark: "mark_from_word (m a) = Inr (m a)" using w [OF a] by (simp add: wf_obj_def)
  have slots: "live_val L (m (a + 8 * i)) \<and> 1 \<le> i \<and> i < isz m a" if "i \<in> slot_idx m a" for i
    using w [OF a] slot_idx_bound [OF w [OF a] that] that by (simp add: wf_obj_def)
  have word: "m' (target p a + 8 * i) = fwd p (m (a + 8 * i))" if "i \<in> slot_idx m a" for i
    using rl a slots [OF that] that by (simp add: relocated_def)
  have "1 \<in> slot_idx m a" using k(1) by (simp add: slot_idx_def)
  from word [OF this] have "m' (target p a + 8) = mem_oop (target p (oaddr k))"
    using k by (simp add: fwd_target)
  then have kc: "oaddr (m' (target p a + 8)) = target p (oaddr k)" using al k(4) by simp
  obtain kk where "oshape m (oaddr k) = kk" by blast
  then have kisz: "isz m' (target p (oaddr k)) = isz m (oaddr k)"
    using moved_shape(2) [OF hv k(4)] by (cases kk) simp
  show ?thesis
    unfolding wf_obj_def ms(2,3) kc kisz
  proof (intro conjI ballI)
    show "target p a mod 8 = 0" "target p a + 8 * isz m a \<le> usize_max" using pl a by (simp_all add: places_ok_def)
    show "mark_from_word (m' (target p a)) = Inr (m' (target p a))"
      using rl a aged_mark [OF mark] mark by (auto simp: relocated_def split: if_splits)
    show "2 \<le> fst (snd (oshape m' (target p a)))" using ms(1) k(5) by simp
    show "4 \<le> isz m (oaddr k)" by (rule k)
    show "live_val (target p ` L) (m' (target p a + 8 * i))" if "i \<in> slot_idx m a" for i
      using word [OF that] live_fwd [OF conjunct1 [OF slots [OF that]] al] by simp
  qed (rule ms)+
qed

lemma root_oops_map: "root_oops (map_root_set f r) = map f (root_oops r)" if "rs_sp r \<le> length (rs_stack r)"
proof -
  have "somes (map (map_option f) bs) = map f (somes bs)" for bs
    by (induction bs) (auto simp: somes_def map_filter_simps split: option.splits)
  from this this [of "[rs_regs_method r]"] show ?thesis using that by (simp add: root_oops_def map_root_set_def)
qed

section \<open>A whole cycle\<close>

lemma scavenge_run:
  assumes hk: "heap_ok r code L olds (m, g)" and pg: "promotion_guarantee g"
  obtains g0 c S m2 g2 rep m' g' where
    "scavenge r code (m, g) = Some (Inr (Inr rep, map_root_set (fwd (gh_map c)) r, map (fwd (gh_map c)) code, m', g'))"
    "traced (env_of (m, g0) L olds) r code c S (m2, g2)"
    "scavenge_finish (og_top (gs_old g)) (m2, g2) = Inr (rep, m', g')"
    "gs_layout g0 = gs_layout g" "gs_old g0 = gs_old g" "gs_cards g0 = gs_cards g" "gs_eden g0 = gs_eden g"
    "gs_from g0 = gs_from g" "gs_to g0 = survivor_reset (gs_to g)" "gs_gc_enabled g0 = gs_gc_enabled g"
    "gs_pending_stall g0 = None"
proof -
  note h = heap_okD [OF hk]
  from scavenge_begin_ok [OF hk pg] obtain g0 where g0: "scavenge_begin g = Inr g0"
    "gs_old g0 = gs_old g" "gs_cards g0 = gs_cards g" "gs_layout g0 = gs_layout g" "gs_pending_stall g0 = None"
    "gs_eden g0 = gs_eden g" "gs_from g0 = gs_from g" "gs_to g0 = survivor_reset (gs_to g)"
    "gs_gc_enabled g0 = gs_gc_enabled g" "cards_inv (env_of (m, g0) L olds) 0 ghost0 {} (m, g0)" by metis
  let ?e = "env_of (m, g0) L olds"
  have lv: "\<forall>v \<in> set (root_oops r) \<union> set code. live_val (ev_live ?e) v" using h(3) by simp
  have ps: "gs_pending_stall (ev_gs ?e) = None" using g0(5) by simp
  note tr = trace_ok [OF g0(10) ps lv h(4), unfolded env_of_sel g0(2)]
  from tr obtain c S m2 g2 m1 g1 where t: "scavenge_roots (og_top (gs_old g)) r code (m, g0)
      = Some (Inr (map_root_set (fwd (gh_map c)) r, map (fwd (gh_map c)) code, m1, g1))" "gs_pending_stall g1 = None"
    "cheney (sv_start (gs_to g1)) (og_top (gs_old g)) (m1, g1) = Some (Inr (Inr (), m2, g2))"
    "traced ?e r code c S (m2, g2)" by (elim exE conjE) (rule that)
  have "scav_inv ?e c S (m2, g2)" using t(4) by (simp add: traced_def)
  from scavenge_finish_ok [OF this, unfolded env_of_sel g0(2)] obtain x where
    "scavenge_finish (og_top (gs_old g)) (m2, g2) = Inr x" by blast
  then obtain rep m' g' where f: "scavenge_finish (og_top (gs_old g)) (m2, g2) = Inr (rep, m', g')" by (cases x) simp
  have "scavenge r code (m, g) = Some (Inr (Inr rep, map_root_set (fwd (gh_map c)) r, map (fwd (gh_map c)) code, m', g'))"
    using g0(1,2) t f by (simp add: scavenge_def Let_def)
  from that [OF this t(4) f] g0 show thesis by simp
qed

text \<open>What a trace has done, once its live set is the reachable one.\<close>

lemma traced_places:
  assumes t: "traced e r code c S (m, g)"
  shows "places_ok (ev_heap e) (ev_live e) (gh_map c)"
proof -
  have inv: "scav_inv e c S (m, g)" using t by (simp add: traced_def)
  note d = scav_invD [OF inv]
  have "target (gh_map c) a mod 8 = 0 \<and> target (gh_map c) a + 8 * isz (ev_heap e) a \<le> usize_max" if a: "a \<in> ev_live e" for a
    using heap_viewD(1,2) [OF d(5) a target_readable] by simp
  then show ?thesis by (simp add: places_ok_def)
qed

lemma finished:
  assumes inv: "scav_inv e c S (m, g)" and f: "scavenge_finish (og_top (gs_old (ev_gs e))) (m, g) = Inr (rep, m', g')"
  shows "\<not> vacated (ev_gs e) x \<Longrightarrow> m' x = m x" "vacated (ev_gs e) x \<Longrightarrow> x mod 8 = 0 \<Longrightarrow> m' x = POISON"
    "gs_layout g' = gs_layout (ev_gs e)" "gs_old g' = gs_old g" "gs_offsets g' = gs_offsets g" "gs_cards g' = gs_cards g"
    "gs_eden g' = (gs_eden (ev_gs e))\<lparr>ed_top := ed_start (gs_eden (ev_gs e))\<rparr>"
    "gs_from g' = gs_to g" "gs_to g' = survivor_reset (gs_from (ev_gs e))"
    "gs_gc_enabled g' = gs_gc_enabled (ev_gs e)" "gs_pending_stall g' = gs_pending_stall (ev_gs e)"
    "sr_survivor_bytes rep = sv_top (gs_to g) - sv_start (gs_to g)"
    "sr_promoted_bytes rep = og_top (gs_old g) - og_top (gs_old (ev_gs e))" "gs_tenuring_threshold g' = sr_new_threshold rep"
    "gs_lookup_cache g' = cache_flush (gs_lookup_cache (ev_gs e))"
    "compute_threshold (gs_age_table g) (sv_end (gs_to g) - sv_start (gs_to g)) = Inr (sr_new_threshold rep)"
proof -
  from scavenge_finish_ok [OF inv] f have "finish_ok (ev_gs e) (m, g) (rep, m', g')" by auto
  note q = this [unfolded finish_ok_def prod.case]
  show "\<not> vacated (ev_gs e) x \<Longrightarrow> m' x = m x" "vacated (ev_gs e) x \<Longrightarrow> x mod 8 = 0 \<Longrightarrow> m' x = POISON"
    using conjunct1 [OF q] conjunct1 [OF conjunct2 [OF q]] by simp_all
  from q show "gs_layout g' = gs_layout (ev_gs e)" "gs_old g' = gs_old g" "gs_offsets g' = gs_offsets g" "gs_cards g' = gs_cards g"
    "gs_eden g' = (gs_eden (ev_gs e))\<lparr>ed_top := ed_start (gs_eden (ev_gs e))\<rparr>"
    "gs_from g' = gs_to g" "gs_to g' = survivor_reset (gs_from (ev_gs e))"
    "gs_gc_enabled g' = gs_gc_enabled (ev_gs e)" "gs_pending_stall g' = gs_pending_stall (ev_gs e)"
    "sr_survivor_bytes rep = sv_top (gs_to g) - sv_start (gs_to g)"
    "sr_promoted_bytes rep = og_top (gs_old g) - og_top (gs_old (ev_gs e))" "gs_tenuring_threshold g' = sr_new_threshold rep"
    "gs_lookup_cache g' = cache_flush (gs_lookup_cache (ev_gs e))"
    "compute_threshold (gs_age_table g) (sv_end (gs_to g) - sv_start (gs_to g)) = Inr (sr_new_threshold rep)"
    by - (elim conjE, assumption)+
qed

lemma finished_words:
  assumes t: "traced e r code c S (m, g)" and dom: "dom (gh_map c) = young e"
    and f: "scavenge_finish (og_top (gs_old (ev_gs e))) (m, g) = Inr (rep, m', g')"
    and a: "a \<in> ev_live e" "target (gh_map c) a \<le> x" "x < target (gh_map c) a + 8 * isz (ev_heap e) a"
  shows "m' x = m x"
proof -
  have inv: "scav_inv e c S (m, g)" using t by (simp add: traced_def)
  have "\<not> vacated (ev_gs e) x"
    using home_not_vacated [OF inv a(1) target_home [OF scav_invD(6) [OF inv] dom a(1)] a(2,3)] .
  then show ?thesis by (rule finished(1) [OF inv f])
qed

lemma finished_relocated:
  assumes t: "traced e r code c S (m, g)" and dom: "dom (gh_map c) = young e"
    and f: "scavenge_finish (og_top (gs_old (ev_gs e))) (m, g) = Inr (rep, m', g')"
  shows "relocated (ev_heap e) (gs_layout (ev_gs e)) (ev_live e) (gh_map c) m'"
proof (rule relocated_cong [OF traced_relocated [OF t dom]])
  fix a assume a: "a \<in> ev_live e"
  have "scav_inv e c S (m, g)" using t by (simp add: traced_def)
  from heap_invD(1) [OF scav_invD(2) [OF this] a] show "0 < isz (ev_heap e) a" using isz_ge2 by fastforce
  show "m' x = m x" if "target (gh_map c) a \<le> x" "x < target (gh_map c) a + 8 * isz (ev_heap e) a" for x
    using finished_words [OF t dom f a that] .
qed

lemma tiled_aligned: "tiled s objs t \<Longrightarrow> \<forall>x \<in> set objs. snd x mod 8 = 0 \<Longrightarrow> s mod 8 = 0 \<Longrightarrow> t mod 8 = 0"
proof (induction objs arbitrary: s)
  case (Cons x objs)
  obtain j where x: "x = (s, j)" "tiled (s + j) objs t" using Cons.prems(1) by (cases x) auto
  have "(s + j) mod 8 = 0" using Cons.prems(2,3) x(1) by (simp add: mod_eq_0_iff_dvd)
  then show ?case using Cons.IH [OF x(2)] Cons.prems(2) by simp
qed simp

text \<open>The live set and the old objects after a collection.\<close>

definition live_after :: "scav_env \<Rightarrow> ghost \<Rightarrow> nat set" where
  "live_after e c = target (gh_map c) ` ev_live e"

definition olds_after :: "scav_env \<Rightarrow> ghost \<Rightarrow> (nat \<times> nat) list" where
  "olds_after e c = ev_olds e @ placed e (gh_map c) (gh_promoted c)"

text \<open>\<open>cycle_end\<close>: the trace ran from \<open>e\<close> over the reachable objects and the last step was taken.\<close>

definition cycle_end :: "scav_env \<Rightarrow> root_set \<Rightarrow> oop list \<Rightarrow> ghost \<Rightarrow> gc_state \<Rightarrow> scavenge_report \<Rightarrow> heap \<times> gc_state \<Rightarrow> bool" where
  "cycle_end e r code c g rep s' \<longleftrightarrow>
     (\<exists>S m. traced e r code c S (m, g) \<and> dom (gh_map c) = young e
        \<and> scavenge_finish (og_top (gs_old (ev_gs e))) (m, g) = Inr (rep, s'))"

lemma cycle_endE:
  assumes "cycle_end e r code c g rep (m', g')"
  obtains S m where "scav_inv e c S (m, g)" "dom (gh_map c) = young e" "olds_settled e c S (m, g)"
    "heap_view (ev_heap e) (ev_live e) (at_target (gh_map c)) m'"
    "relocated (ev_heap e) (gs_layout (ev_gs e)) (ev_live e) (gh_map c) m'" "places_ok (ev_heap e) (ev_live e) (gh_map c)"
    "scavenge_finish (og_top (gs_old (ev_gs e))) (m, g) = Inr (rep, m', g')"
    "\<forall>a \<in> ev_live e. \<forall>x. target (gh_map c) a \<le> x \<and> x < target (gh_map c) a + 8 * isz (ev_heap e) a \<longrightarrow> m' x = m x"
proof -
  obtain S m where t: "traced e r code c S (m, g)" and dom: "dom (gh_map c) = young e"
    and f: "scavenge_finish (og_top (gs_old (ev_gs e))) (m, g) = Inr (rep, m', g')"
    using assms by (auto simp: cycle_end_def)
  have inv: "scav_inv e c S (m, g)" and os: "olds_settled e c S (m, g)" using t by (simp_all add: traced_def)
  note rl = finished_relocated [OF t dom f] and pl = traced_places [OF t]
  have "\<forall>a \<in> ev_live e. wf_obj (ev_heap e) (ev_live e) a" using heap_invD(1) [OF scav_invD(2) [OF inv]] by blast
  from relocated_view [OF rl this pl] show thesis
    using that [OF inv dom os _ rl pl f] finished_words [OF t dom f] by blast
qed

lemma moved_isz:
  assumes "heap_view m L (at_target p) m'" "a \<in> L"
  shows "isz m' (target p a) = isz m a" "slot_idx m' (target p a) = slot_idx m a"
  using moved_shape(2,3) [OF assms] prod_cases3 by metis+

lemma young_after:
  assumes inv: "scav_inv e c S (m, g)" and dom: "dom (gh_map c) = young e" and h: "gs_layout g' = gs_layout (ev_gs e)"
  shows "young (env_of (m', g') (live_after e c) (olds_after e c)) = target (gh_map c) ` set (gh_copied c)"
    and "live_after e c - target (gh_map c) ` set (gh_copied c) = target (gh_map c) ` (ev_live e - set (gh_copied c))"
proof -
  note tn = target_new(1) [OF inv dom]
  have sub: "set (gh_copied c) \<subseteq> ev_live e" using home_copied(1) [OF inv] by blast
  show "young (env_of (m', g') (live_after e c) (olds_after e c)) = target (gh_map c) ` set (gh_copied c)"
    using tn sub h by (auto simp: young_def live_after_def)
  show "live_after e c - target (gh_map c) ` set (gh_copied c) = target (gh_map c) ` (ev_live e - set (gh_copied c))"
  proof
    show "target (gh_map c) ` (ev_live e - set (gh_copied c)) \<subseteq> live_after e c - target (gh_map c) ` set (gh_copied c)"
    proof
      fix l assume "l \<in> target (gh_map c) ` (ev_live e - set (gh_copied c))"
      then obtain a where a: "a \<in> ev_live e" "a \<notin> set (gh_copied c)" "l = target (gh_map c) a" by blast
      then have "\<not> ev_new e l" using tn by simp
      then have "l \<notin> target (gh_map c) ` set (gh_copied c)" using tn sub by blast
      then show "l \<in> live_after e c - target (gh_map c) ` set (gh_copied c)" using a by (simp add: live_after_def)
    qed
  qed (auto simp: live_after_def)
qed

lemma env_ok_after:
  assumes ce: "cycle_end e r code c g rep (m', g')"
  shows "env_ok (env_of (m', g') (live_after e c) (olds_after e c))"
proof -
  from ce obtain S m where c: "scav_inv e c S (m, g)" "dom (gh_map c) = young e"
    "heap_view (ev_heap e) (ev_live e) (at_target (gh_map c)) m'"
    "relocated (ev_heap e) (gs_layout (ev_gs e)) (ev_live e) (gh_map c) m'"
    and fin: "scavenge_finish (og_top (gs_old (ev_gs e))) (m, g) = Inr (rep, m', g')" by (rule cycle_endE)
  note f = finished(3-11) [OF c(1) fin] and d = scav_invD [OF c(1)] and s = space_invD [OF scav_invD(3) [OF c(1)]]
  note fr = d(7) [unfolded same_frame_def] and so = env_okD(1) [OF d(1)]
  let ?p = "gh_map c" and ?H = "ev_heap e"
  let ?n = "env_of (m', g') (live_after e c) (olds_after e c)"
  have isz: "isz m' (target ?p a) = isz ?H a" if "a \<in> ev_live e" for a by (rule moved_isz(1) [OF c(3) that])
  have yg: "young ?n = target ?p ` set (gh_copied c)"
    and og: "live_after e c - young ?n = target ?p ` (ev_live e - set (gh_copied c))"
    using young_after [OF c(1,2) f(1)] by simp_all
  have sub: "set (gh_copied c) \<union> set (gh_promoted c) \<subseteq> ev_live e" using home_copied(1) [OF c(1)] by blast
  have al: "sv_top (gs_to g) mod 8 = 0"
    using tiled_aligned [OF s(4)] spaces_okD(5) [OF so] fr by (auto simp: placed_def)
  have "spaces_ok g' (olds_after e c)"
  proof -
    have "survivor_ok (hl_old_start (gs_layout (ev_gs e))) (gs_to g)"
      using al tiled_le [OF s(4)] s(5) spaces_okD(5,7) [OF so] fr by (simp add: survivor_ok_def)
    moreover have "survivor_ok (hl_old_start (gs_layout (ev_gs e))) (survivor_reset (gs_from (ev_gs e)))"
      using so by (simp add: spaces_ok_def Let_def survivor_ok_def survivor_reset_def)
    moreover have "old_inv (gs_old g) (gs_offsets g) (olds_after e c)" using s(6) by (simp add: olds_after_def)
    moreover have "ed_start (gs_eden (ev_gs e)) \<le> ed_end (gs_eden (ev_gs e))" using so by (simp add: spaces_ok_def Let_def)
    ultimately show ?thesis
      using so f fr by (auto simp: spaces_ok_def Let_def survivor_reset_def off_def)
  qed
  moreover have "finite (live_after e c)" using env_okD(2) [OF d(1)] by (simp add: live_after_def)
  moreover have "inside (sv_start (gs_from g')) (sv_top (gs_from g')) l (isz m' l)" if l: "l \<in> young ?n" for l
  proof -
    obtain a where a: "a \<in> set (gh_copied c)" "l = target ?p a" using l yg by blast
    then have "a \<in> ev_live e" "target ?p a = the (?p a)" using sub target_new(3) [OF c(1,2)] by auto
    then show ?thesis using regions(3) [OF d(1,3) _ a(1)] a isz [of a] f by (simp add: inside_def)
  qed
  moreover have "apart l (isz m' l) l' (isz m' l')" if ll: "l \<in> young ?n" "l' \<in> young ?n" "l \<noteq> l'" for l l'
  proof -
    obtain a b where ab: "a \<in> ev_live e" "l = target ?p a" "b \<in> ev_live e" "l' = target ?p b" using ll yg sub by blast
    then have "a \<noteq> b" using ll(3) by blast
    then show ?thesis using c(4) ab isz by (simp add: relocated_def)
  qed
  moreover have "set (olds_after e c) = (\<lambda>a. (a, 8 * isz m' a)) ` (live_after e c - young ?n)"
  proof -
    have disj: "set (gh_copied c) \<inter> set (gh_promoted c) = {}" using s(2) by simp
    have split: "ev_live e - set (gh_copied c) = (ev_live e - young e) \<union> set (gh_promoted c)"
      using c(2) s(3) sub disj by (auto simp: young_def)
    have o: "target ?p a = a" if "a \<in> ev_live e - young e" for a
      using that c(2) by (auto simp: target_def split: option.splits)
    have oi: "isz m' a = isz ?H a" if "a \<in> ev_live e - young e" for a using isz [of a] o [OF that] that by simp
    have p: "target ?p a = the (?p a)" if "a \<in> set (gh_promoted c)" for a
      using that sub target_new(3) [OF c(1,2)] by blast
    have "(\<lambda>a. (a, 8 * isz m' a)) ` target ?p ` (ev_live e - young e) = set (ev_olds e)"
      unfolding env_okD(6) [OF d(1)] image_image using o oi by (intro image_cong) auto
    moreover have pi: "isz m' (the (?p a)) = isz ?H a" if "a \<in> set (gh_promoted c)" for a
      using isz [of a] p [OF that] that sub by auto
    moreover have "(\<lambda>a. (a, 8 * isz m' a)) ` target ?p ` set (gh_promoted c) = set (placed e ?p (gh_promoted c))"
      unfolding placed_def set_map image_image using p pi by (intro image_cong) auto
    ultimately show ?thesis
      unfolding og split by (simp add: image_Un olds_after_def)
  qed
  ultimately show ?thesis by (simp add: env_ok_def)
qed

lemma remembered_after:
  assumes ce: "cycle_end e r code c g rep (m', g')"
  shows "remembered (old_slots (env_of (m', g') (live_after e c) (olds_after e c))) (mem_of (m', g'))"
proof -
  from ce obtain S m where c: "scav_inv e c S (m, g)" "dom (gh_map c) = young e" "olds_settled e c S (m, g)"
    "heap_view (ev_heap e) (ev_live e) (at_target (gh_map c)) m'"
    and fin: "scavenge_finish (og_top (gs_old (ev_gs e))) (m, g) = Inr (rep, m', g')"
    and wd: "\<forall>a \<in> ev_live e. \<forall>x. target (gh_map c) a \<le> x \<and> x < target (gh_map c) a + 8 * isz (ev_heap e) a \<longrightarrow> m' x = m x"
    by (rule cycle_endE)
  note f = finished(3,6) [OF c(1) fin] and d = scav_invD [OF c(1)]
  let ?p = "gh_map c" and ?n = "env_of (m', g') (live_after e c) (olds_after e c)"
  have og: "live_after e c - young ?n = target ?p ` (ev_live e - set (gh_copied c))"
    using young_after [OF c(1,2) f(1)] by simp
  have "card_dirty (gs_cards g') s" if s: "s \<in> old_slots ?n" and pn: "points_new (gs_layout g') (m' s)" for s
  proof -
    obtain a i where a: "a \<in> ev_live e" "a \<notin> set (gh_copied c)" "i \<in> slot_idx m' (target ?p a)" "s = target ?p a + 8 * i"
      using s og by (auto simp: old_slots_def slots_at_def)
    have i: "i \<in> slot_idx (ev_heap e) a" using a(3) moved_isz(2) [OF c(4) a(1)] by simp
    have "i < isz (ev_heap e) a" using slot_idx_bound [OF heap_invD(1) [OF d(2) a(1)] i] by simp
    then have rng: "target ?p a \<le> s" "s < target ?p a + 8 * isz (ev_heap e) a" using a(4) by simp_all
    show ?thesis
    proof (cases "a \<in> set (gh_promoted c)")
      case True
      then have "target ?p a = the (?p a)" using target_new(3) [OF c(1,2) a(1)] by blast
      moreover have "\<forall>a \<in> set (gh_promoted c). \<forall>x. the (?p a) \<le> x \<and> x < the (?p a) + 8 * isz (ev_heap e) a \<longrightarrow>
          card_dirty (gs_cards g) x" using d(3) by (simp add: space_inv_def)
      ultimately show ?thesis using rng True f(2) by simp
    next
      case False
      then have "?p a = None" using target_new(2) [OF c(1,2) a(1)] a(2) by blast
      then have ta: "target ?p a = a" and "a \<notin> young e" using c(2) by (auto simp: target_def)
      then have "s \<in> old_slots e" using a(1,4) i by (auto simp: old_slots_def slots_at_def)
      moreover have "m' s = m s" using wd a(1) rng by blast
      ultimately show ?thesis using c(3) pn f by (simp add: olds_settled_def)
    qed
  qed
  then show ?thesis by (simp add: remembered_def mem_of_def)
qed

lemma heap_ok_after:
  assumes ce: "cycle_end e r code c g rep (m', g')" and v: "\<forall>v \<in> set (root_oops r) \<union> set code. live_val (ev_live e) v"
    and sp: "rs_sp r \<le> length (rs_stack r)" and gs: "gs_gc_enabled (ev_gs e)" "gs_pending_stall (ev_gs e) = None"
  shows "heap_ok (map_root_set (fwd (gh_map c)) r) (map (fwd (gh_map c)) code) (live_after e c) (olds_after e c) (m', g')"
proof -
  from ce obtain S m where c: "scav_inv e c S (m, g)" "heap_view (ev_heap e) (ev_live e) (at_target (gh_map c)) m'"
    "relocated (ev_heap e) (gs_layout (ev_gs e)) (ev_live e) (gh_map c) m'" "places_ok (ev_heap e) (ev_live e) (gh_map c)"
    and fin: "scavenge_finish (og_top (gs_old (ev_gs e))) (m, g) = Inr (rep, m', g')" by (rule cycle_endE)
  note f = finished [OF c(1) fin]
  have al: "\<forall>a \<in> ev_live e. target (gh_map c) a mod 8 = 0 \<and> target (gh_map c) a \<le> usize_max"
    using c(4) by (auto simp: places_ok_def)
  have "wf_obj m' (live_after e c) l" if "l \<in> live_after e c" for l
    using moved_wf [OF c(2,3,4)] that by (auto simp: live_after_def)
  moreover have "live_val (live_after e c) w"
    if "w \<in> set (root_oops (map_root_set (fwd (gh_map c)) r)) \<union> set (map (fwd (gh_map c)) code)" for w
    using that v live_fwd [OF _ al] by (auto simp: root_oops_map [OF sp] live_after_def)
  moreover have "rs_sp (map_root_set (fwd (gh_map c)) r) \<le> length (rs_stack (map_root_set (fwd (gh_map c)) r))"
    using sp by (simp add: map_root_set_def)
  ultimately show ?thesis
    using env_ok_after [OF ce] remembered_after [OF ce] f(10,11) gs by (simp add: heap_ok_def)
qed

text \<open>What the cycle leaves in the spaces.\<close>

lemma tiled_sum: "tiled s objs t \<Longrightarrow> t = s + sum_list (map snd objs)"
proof (induction objs arbitrary: s)
  case (Cons x objs)
  obtain j where x: "x = (s, j)" "tiled (s + j) objs t" using Cons.prems by (cases x) auto
  then show ?case using Cons.IH [OF x(2)] by simp
qed simp

lemma spaces_after:
  assumes ce: "cycle_end e r code c g rep (m', g')"
  shows "ed_top (gs_eden g') = ed_start (gs_eden (ev_gs e))" "sv_top (gs_to g') = sv_start (gs_to g')"
    "gs_to g' = survivor_reset (gs_from (ev_gs e))"
    "sr_survivor_bytes rep + sr_promoted_bytes rep = 8 * (\<Sum>a \<in> young e. isz (ev_heap e) a)"
    "sv_top (gs_from g') = sv_start (gs_to (ev_gs e)) + sr_survivor_bytes rep"
    "og_top (gs_old g') = og_top (gs_old (ev_gs e)) + sr_promoted_bytes rep"
    "\<And>x. vacated (ev_gs e) x \<Longrightarrow> x mod 8 = 0 \<Longrightarrow> m' x = POISON"
proof -
  from ce obtain S m where inv: "scav_inv e c S (m, g)" and dom: "dom (gh_map c) = young e"
    and fin: "scavenge_finish (og_top (gs_old (ev_gs e))) (m, g) = Inr (rep, m', g')" by (rule cycle_endE)
  note f = finished [OF inv fin] and d = scav_invD [OF inv] and s = space_invD [OF scav_invD(3) [OF inv]]
  show "ed_top (gs_eden g') = ed_start (gs_eden (ev_gs e))" "sv_top (gs_to g') = sv_start (gs_to g')"
    "gs_to g' = survivor_reset (gs_from (ev_gs e))"
    using f(7,9) by (simp_all add: survivor_reset_def)
  show "vacated (ev_gs e) x \<Longrightarrow> x mod 8 = 0 \<Longrightarrow> m' x = POISON" for x by (rule f(2))
  let ?b = "\<lambda>as. sum_list (map snd (placed e (gh_map c) as))"
  have b: "?b as = (\<Sum>a \<in> set as. 8 * isz (ev_heap e) a)" if "distinct as" for as
    using that by (simp add: placed_def sum_list_distinct_conv_sum_set o_def)
  have t1: "sv_top (gs_to g) = sv_start (gs_to g) + ?b (gh_copied c)" by (rule tiled_sum [OF s(4)])
  have t2: "og_top (gs_old g) = og_top (gs_old (ev_gs e)) + ?b (gh_promoted c)" by (rule tiled_sum [OF tiled_promoted [OF inv]])
  have st: "sv_start (gs_to g) = sv_start (gs_to (ev_gs e))" using d(7) by (simp add: same_frame_def)
  show "sv_top (gs_from g') = sv_start (gs_to (ev_gs e)) + sr_survivor_bytes rep" using f(8,12) t1 st by simp
  show "og_top (gs_old g') = og_top (gs_old (ev_gs e)) + sr_promoted_bytes rep" using f(4,13) t2 by simp
  have "young e = set (gh_copied c) \<union> set (gh_promoted c)" using dom s(3) by simp
  then have "(\<Sum>a \<in> young e. 8 * isz (ev_heap e) a) = ?b (gh_copied c) + ?b (gh_promoted c)"
    using s(2) b sum.union_disjoint [of "set (gh_copied c)" "set (gh_promoted c)"] by simp
  then show "sr_survivor_bytes rep + sr_promoted_bytes rep = 8 * (\<Sum>a \<in> young e. isz (ev_heap e) a)"
    using f(12,13) t1 t2 by (simp add: sum_distrib_left)
qed

section \<open>An example\<close>

text \<open>
  A heap for evaluation: the metaclass, a class with one named slot and an old object that refers to
  the young object at \<open>0x1000\<close>, which refers to the one at \<open>0x1030\<close>; the words between are garbage.
\<close>

definition demo_heap :: heap where
  "demo_heap = (\<lambda>_. 0)(
     0x2000 := 7, 0x2008 := 0x2001, 0x2010 := 16, 0x2018 := 16,
     0x2020 := 7, 0x2028 := 0x2001, 0x2030 := 0, 0x2038 := 12,
     0x2040 := 7, 0x2048 := 0x2021, 0x2050 := 0x1001,
     0x1000 := 7, 0x1008 := 0x2021, 0x1010 := 0x1031,
     0x1030 := 7, 0x1038 := 0x2021, 0x1040 := 20)"

definition demo_gs :: gc_state where
  "demo_gs = \<lparr>gs_layout = \<lparr>hl_eden = \<lparr>sb_start = 0x1000, sb_end = 0x1100\<rparr>, hl_from = \<lparr>sb_start = 0x1400, sb_end = 0x1500\<rparr>,
       hl_to = \<lparr>sb_start = 0x1500, sb_end = 0x1600\<rparr>, hl_old = \<lparr>sb_start = 0x2000, sb_end = 0x2400\<rparr>, hl_old_start = 0x2000\<rparr>,
     gs_eden = \<lparr>ed_start = 0x1000, ed_top = 0x1048, ed_end = 0x1100\<rparr>,
     gs_from = \<lparr>sv_start = 0x1400, sv_top = 0x1400, sv_end = 0x1500\<rparr>,
     gs_to = \<lparr>sv_start = 0x1500, sv_top = 0x1500, sv_end = 0x1600\<rparr>,
     gs_old = \<lparr>og_bounds = \<lparr>sb_start = 0x2000, sb_end = 0x2400\<rparr>, og_committed_end = 0x2400, og_top = 0x2058\<rparr>,
     gs_offsets = \<lparr>ot_backing = [0, 0], ot_old_start = 0x2000\<rparr>,
     gs_cards = \<lparr>ct_backing = [0, 1], ct_base = 0x9000, ct_old_start = 0x2000\<rparr>,
     gs_age_table = age_table_new, gs_tenuring_threshold = 2, gs_gc_enabled = True,
     gs_promotion_guarantee_met = True, gs_pending_stall = None,
     gs_gc_stats = \<lparr>st_scavenge_count = 0, st_full_gc_count = 0, st_bytes_allocated = 0, st_bytes_copied = 0,
       st_bytes_promoted = 0, st_tenuring_threshold = 2, st_last_reclaimed_bytes = 0, st_gc_under_compiled = 0\<rparr>,
     gs_compiled_depth = 0, gs_lookup_cache = []\<rparr>"

definition demo_roots :: root_set where
  "demo_roots = \<lparr>rs_universe = [0x2001, 0x2021], rs_symbols = [], rs_stack = [4, 0x1031], rs_sp = 1, rs_handles = [],
     rs_mint_stack = [], rs_regs_method = None\<rparr>"

definition demo_live :: "nat set" where
  "demo_live = {0x2000, 0x2020, 0x2040, 0x1000, 0x1030}"

definition demo_olds :: "(nat \<times> nat) list" where
  "demo_olds = [(0x2000, 32), (0x2020, 32), (0x2040, 24)]"

lemma demo_mem_oop:
  "mem_oop 0x2000 = 0x2001" "mem_oop 0x2020 = 0x2021" "mem_oop 0x2040 = 0x2041" "mem_oop 0x1000 = 0x1001" "mem_oop 0x1030 = 0x1031"
  by (simp_all add: mem_oop_def MEM_TAG_def)

lemmas demo_eval = demo_heap_def demo_mem_oop heap_eval

lemma demo_shapes:
  "shape demo_heap 0x2001 = Inr (0x2001, 4, Klass)" "shape demo_heap 0x2021 = Inr (0x2001, 4, Klass)"
  "shape demo_heap 0x2041 = Inr (0x2021, 3, Slots)" "shape demo_heap 0x1001 = Inr (0x2021, 3, Slots)"
  "shape demo_heap 0x1031 = Inr (0x2021, 3, Slots)"
  by (simp_all add: demo_eval shape_def)

lemma demo_sizes:
  "instance_size_words demo_heap 0x2001 = Inr 4" "instance_size_words demo_heap 0x2021 = Inr 4"
  "instance_size_words demo_heap 0x2041 = Inr 3" "instance_size_words demo_heap 0x1001 = Inr 3"
  "instance_size_words demo_heap 0x1031 = Inr 3"
  by (simp_all add: instance_size_words_shape demo_shapes)

lemma demo_isz:
  "isz demo_heap 0x2000 = 4" "isz demo_heap 0x2020 = 4" "isz demo_heap 0x2040 = 3" "isz demo_heap 0x1000 = 3"
  "isz demo_heap 0x1030 = 3"
  by (simp_all add: isz_def demo_mem_oop demo_sizes)

lemma demo_slots:
  "slot_idx demo_heap 0x2000 = {1, 2, 3}" "slot_idx demo_heap 0x2020 = {1, 2, 3}" "slot_idx demo_heap 0x2040 = {1, 2}"
  "slot_idx demo_heap 0x1000 = {1, 2}" "slot_idx demo_heap 0x1030 = {1, 2}"
  by (simp_all add: slot_idx_def oshape_def demo_mem_oop demo_shapes upt_rec) auto

lemma demo_words:
  "demo_heap 0x2000 = 7" "demo_heap 0x2008 = 0x2001" "demo_heap 0x2010 = 16" "demo_heap 0x2018 = 16"
  "demo_heap 0x2020 = 7" "demo_heap 0x2028 = 0x2001" "demo_heap 0x2030 = 0" "demo_heap 0x2038 = 12"
  "demo_heap 0x2040 = 7" "demo_heap 0x2048 = 0x2021" "demo_heap 0x2050 = 0x1001"
  "demo_heap 0x1000 = 7" "demo_heap 0x1008 = 0x2021" "demo_heap 0x1010 = 0x1031"
  "demo_heap 0x1030 = 7" "demo_heap 0x1038 = 0x2021" "demo_heap 0x1040 = 20"
  by (simp_all add: demo_heap_def)

lemma demo_vals:
  "live_val demo_live 0x2001" "live_val demo_live 0x2021" "live_val demo_live 0x1001" "live_val demo_live 0x1031"
  "live_val demo_live 0" "live_val demo_live 4" "live_val demo_live 12" "live_val demo_live 16" "live_val demo_live 20"
  by (simp_all add: live_val_def is_smi_def is_mem_def oop_tag_def tag_defs oaddr_def demo_live_def)

lemma demo_mark: "mark_from_word 7 = Inr 7"
  by (simp add: mark_from_word_def tag_defs MARK_SENTINEL_MASK_def MARK_SENTINEL_SHIFT_def)

lemma demo_oaddr: "oaddr 0x2001 = 0x2000" "oaddr 0x2021 = 0x2020" "oaddr 0x1001 = 0x1000" "oaddr 0x1031 = 0x1030"
  by (simp_all add: oaddr_def MEM_TAG_def)

lemmas demo_facts = oshape_def demo_mem_oop demo_shapes demo_sizes demo_isz demo_slots demo_words demo_vals demo_mark demo_oaddr

lemma demo_wf:
  "wf_obj demo_heap demo_live 0x2000" "wf_obj demo_heap demo_live 0x2020" "wf_obj demo_heap demo_live 0x2040"
  "wf_obj demo_heap demo_live 0x1000" "wf_obj demo_heap demo_live 0x1030"
  by (simp_all add: wf_obj_def demo_facts)

lemma demo_covers: "covers (gs_offsets demo_gs) demo_olds 0x2058"
  unfolding covers_def
proof (intro allI impI)
  fix i assume "ot_card_base (gs_offsets demo_gs) i < 0x2058"
  then have "i = 0" by (simp add: ot_card_base_def demo_gs_def card_consts)
  moreover have "ot_resolve (gs_offsets demo_gs) 0 = Inr 0x2000"
    by (subst ot_resolve.simps)
      (simp add: demo_gs_def ot_get_entry_def ot_n_cards_def ot_card_base_def card_consts usub_def)
  ultimately show "\<exists>(a, n) \<in> set demo_olds. a \<le> ot_card_base (gs_offsets demo_gs) i
      \<and> ot_card_base (gs_offsets demo_gs) i < a + n \<and> ot_resolve (gs_offsets demo_gs) i = Inr a"
    by (simp add: demo_olds_def ot_card_base_def demo_gs_def)
qed

lemma demo_spaces: "spaces_ok demo_gs demo_olds"
proof -
  have "old_inv (gs_old demo_gs) (gs_offsets demo_gs) demo_olds"
    using demo_covers by (simp add: old_inv_def demo_gs_def demo_olds_def ot_n_cards_def)
  then show ?thesis
    by (simp add: spaces_ok_def demo_gs_def survivor_ok_def off_def ct_n_cards_def)
qed

lemma demo_young: "young (env_of (demo_heap, demo_gs) demo_live demo_olds) = {0x1000, 0x1030}"
  by (auto simp: young_def demo_live_def is_new_def demo_gs_def)

lemma demo_env: "env_ok (env_of (demo_heap, demo_gs) demo_live demo_olds)"
proof -
  have "demo_live - {0x1000, 0x1030} = {0x2000, 0x2020, 0x2040}" by (auto simp: demo_live_def)
  then show ?thesis
    unfolding env_ok_def demo_young env_of_sel
    using demo_spaces by (auto simp: demo_isz inside_def apart_def demo_olds_def demo_live_def demo_gs_def)
qed

lemma demo_remembered: "remembered (old_slots (env_of (demo_heap, demo_gs) demo_live demo_olds)) (mem_of (demo_heap, demo_gs))"
proof -
  have "demo_live - {0x1000, 0x1030} = {0x2000, 0x2020, 0x2040}" by (auto simp: demo_live_def)
  then have "old_slots (env_of (demo_heap, demo_gs) demo_live demo_olds) \<subseteq> {0x2000..<0x2200}"
    by (auto simp: old_slots_def demo_young slots_at_def demo_slots)
  moreover have "card_dirty (gs_cards demo_gs) x" if "x \<in> {0x2000..<0x2200}" for x
  proof -
    have "(x - 0x2000) div 512 = 0" by (rule div_less) (use that in auto)
    then show ?thesis using that by (simp add: card_dirty_iff demo_gs_def ct_n_cards_def)
  qed
  ultimately show ?thesis by (auto simp: remembered_def mem_of_def)
qed

lemma demo_ok: "heap_ok demo_roots [] demo_live demo_olds (demo_heap, demo_gs)"
proof -
  have "\<forall>a \<in> demo_live. wf_obj demo_heap demo_live a" using demo_wf by (simp add: demo_live_def)
  moreover have "set (root_oops demo_roots) = {0x2001, 0x2021, 4}"
    by (simp add: root_oops_def demo_roots_def somes_def map_filter_simps)
  ultimately show ?thesis
    using demo_env demo_remembered demo_vals by (simp add: heap_ok_def demo_roots_def demo_gs_def)
qed

lemma demo_guarantee: "promotion_guarantee demo_gs"
  by (simp add: promotion_guarantee_def worst_case_def old_remaining_def usub_def demo_gs_def)

section \<open>Properties\<close>

lemma scavenge_cycle:
  assumes "heap_ok r code L olds (m, g)" and "promotion_guarantee g"
  obtains g0 c rep g2 m' g' where
    "scavenge r code (m, g) = Some (Inr (Inr rep, map_root_set (fwd (gh_map c)) r, map (fwd (gh_map c)) code, m', g'))"
    "cycle_end (env_of (m, g0) (reached m olds r code) olds) r code c g2 rep (m', g')"
    "gs_layout g0 = gs_layout g" "gs_old g0 = gs_old g" "gs_eden g0 = gs_eden g" "gs_from g0 = gs_from g"
    "gs_to g0 = survivor_reset (gs_to g)" "gs_gc_enabled g0" "gs_pending_stall g0 = None"
    "young (env_of (m, g0) (reached m olds r code) olds) = {a \<in> reached m olds r code. is_new (gs_layout g) a}"
proof -
  let ?L = "reached m olds r code"
  note hk = heap_ok_reached(2) [OF assms(1)]
  from scavenge_run [OF hk assms(2)] obtain g0 c S m2 g2 rep m' g' where q:
    "scavenge r code (m, g) = Some (Inr (Inr rep, map_root_set (fwd (gh_map c)) r, map (fwd (gh_map c)) code, m', g'))"
    "traced (env_of (m, g0) ?L olds) r code c S (m2, g2)"
    "scavenge_finish (og_top (gs_old g)) (m2, g2) = Inr (rep, m', g')"
    "gs_layout g0 = gs_layout g" "gs_old g0 = gs_old g" "gs_cards g0 = gs_cards g" "gs_eden g0 = gs_eden g"
    "gs_from g0 = gs_from g" "gs_to g0 = survivor_reset (gs_to g)" "gs_gc_enabled g0 = gs_gc_enabled g"
    "gs_pending_stall g0 = None" .
  have dom: "dom (gh_map c) = young (env_of (m, g0) ?L olds)" by (rule traced_dom [OF q(2)]) simp
  have "cycle_end (env_of (m, g0) ?L olds) r code c g2 rep (m', g')"
    unfolding cycle_end_def using q(2,3,5) dom by auto
  from that [OF q(1) this q(4,5,7-9) _ q(11)] show thesis
    using heap_okD(6) [OF hk] q(4,10) by (simp add: young_def)
qed

text \<open>
  C1: a scavenge of a well-formed heap whose old generation could take the whole young one always
  returns, moves exactly the young objects reachable from the roots and the old objects, word for word
  and without overlap, and replaces every reference to one, in the roots, in the compiled code and in
  the objects themselves, by the address of its copy.
\<close>

theorem scavenge_relocates_reachable:
  assumes "heap_ok r code L olds (m, g)" and "promotion_guarantee g"
  shows "\<exists>p rep m' g'. scavenge r code (m, g) = Some (Inr (Inr rep, map_root_set (fwd p) r, map (fwd p) code, m', g'))
    \<and> dom p = {a \<in> reached m olds r code. is_new (gs_layout g) a}
    \<and> relocated m (gs_layout g) (reached m olds r code) p m'"
proof -
  from scavenge_cycle [OF assms] obtain g0 c rep g2 m' g' where
    q: "scavenge r code (m, g) = Some (Inr (Inr rep, map_root_set (fwd (gh_map c)) r, map (fwd (gh_map c)) code, m', g'))"
    "cycle_end (env_of (m, g0) (reached m olds r code) olds) r code c g2 rep (m', g')" "gs_layout g0 = gs_layout g"
    "young (env_of (m, g0) (reached m olds r code) olds) = {a \<in> reached m olds r code. is_new (gs_layout g) a}" .
  from q(2) obtain S mx where "dom (gh_map c) = young (env_of (m, g0) (reached m olds r code) olds)"
    "relocated m (gs_layout g0) (reached m olds r code) (gh_map c) m'"
    by (rule cycle_endE) simp
  then show ?thesis using q(1,3,4) by auto
qed

theorem scavenge_relocates_reachable_witness:
  "\<exists>p rep m' g'. scavenge demo_roots [] (demo_heap, demo_gs) = Some (Inr (Inr rep, map_root_set (fwd p) demo_roots, [], m', g'))
    \<and> dom p = {0x1000, 0x1030} \<and> m' (the (p 0x1000) + 16) = mem_oop (the (p 0x1030)) \<and> m' 0x2050 = mem_oop (the (p 0x1000))"
proof -
  let ?R = "reached demo_heap demo_olds demo_roots []"
  have o: "0x2040 \<in> ?R" by (rule reached.old [of _ 24]) (simp add: demo_olds_def)
  have x: "0x1000 \<in> ?R" using reached.field [OF o, of 2] by (simp add: demo_slots demo_words demo_oaddr is_mem_def oop_tag_def tag_defs)
  have y: "0x1030 \<in> ?R" using reached.field [OF x, of 2] by (simp add: demo_slots demo_words demo_oaddr is_mem_def oop_tag_def tag_defs)
  have "?R \<subseteq> demo_live" by (rule heap_ok_reached(1) [OF demo_ok])
  then have n: "{a \<in> ?R. is_new (gs_layout demo_gs) a} = {0x1000, 0x1030}"
    using x y by (auto simp: demo_live_def is_new_def demo_gs_def)
  from scavenge_relocates_reachable [OF demo_ok demo_guarantee] obtain p rep m' g' where
    q: "scavenge demo_roots [] (demo_heap, demo_gs) = Some (Inr (Inr rep, map_root_set (fwd p) demo_roots, [], m', g'))"
    "dom p = {0x1000, 0x1030}" "relocated demo_heap (gs_layout demo_gs) ?R p m'"
    unfolding n by auto
  have t: "target p 0x1000 = the (p 0x1000)" "target p 0x1030 = the (p 0x1030)" "target p 0x2040 = 0x2040"
  proof -
    have "0x1000 \<in> dom p" "0x1030 \<in> dom p" "0x2040 \<notin> dom p" unfolding q(2) by simp_all
    then show "target p 0x1000 = the (p 0x1000)" "target p 0x1030 = the (p 0x1030)" by (fastforce simp: target_def)+
    show "target p 0x2040 = 0x2040" using \<open>0x2040 \<notin> dom p\<close> by (simp add: target_def domIff)
  qed
  note w = conjunct2 [OF q(3) [unfolded relocated_def], THEN bspec, THEN conjunct2, THEN spec, of _ 2]
  have "m' (target p 0x1000 + 16) = fwd p 0x1031" "m' (target p 0x2040 + 16) = fwd p 0x1001"
    using w [OF x] w [OF o] by (simp_all add: demo_isz demo_slots demo_words)
  then show ?thesis using q(1,2) t by (auto simp: fwd_target demo_oaddr is_mem_def oop_tag_def tag_defs)
qed

text \<open>
  C2: a scavenge re-establishes the well-formedness it starts from: spaces, object starts, classes and
  shapes, the liveness of every root and slot, and the remembered set of the old generation, to which
  the promoted objects have been added.
\<close>

theorem scavenge_keeps_heap_ok:
  assumes "heap_ok r code L olds (m, g)" and "promotion_guarantee g"
  shows "\<exists>rep r' code' m' g' L' new. scavenge r code (m, g) = Some (Inr (Inr rep, r', code', m', g'))
    \<and> heap_ok r' code' L' (olds @ new) (m', g')"
proof -
  from scavenge_cycle [OF assms] obtain g0 c rep g2 m' g' where
    q: "scavenge r code (m, g) = Some (Inr (Inr rep, map_root_set (fwd (gh_map c)) r, map (fwd (gh_map c)) code, m', g'))"
    "cycle_end (env_of (m, g0) (reached m olds r code) olds) r code c g2 rep (m', g')"
    "gs_gc_enabled g0" "gs_pending_stall g0 = None" .
  note h = heap_okD [OF heap_ok_reached(2) [OF assms(1)]]
  have "\<forall>v \<in> set (root_oops r) \<union> set code. live_val (reached m olds r code) v" using h(3) by blast
  from heap_ok_after [OF q(2) _ h(4)] this q(3,4) show ?thesis
    using q(1) by (auto simp: olds_after_def)
qed

theorem scavenge_keeps_heap_ok_witness:
  "\<exists>rep r' code' m' g' L' new. scavenge demo_roots [] (demo_heap, demo_gs) = Some (Inr (Inr rep, r', code', m', g'))
    \<and> heap_ok r' code' L' (demo_olds @ new) (m', g')"
  by (rule scavenge_keeps_heap_ok [OF demo_ok demo_guarantee])

text \<open>
  C11: under the same conditions a scavenge never stalls. It ends with eden and the new to-space empty and
  the words they held poisoned, and the bytes it reports as survived and promoted are those its
  spaces grew by and together the size of the reachable young objects.
\<close>

theorem scavenge_frees_young:
  assumes "heap_ok r code L olds (m, g)" and "promotion_guarantee g"
  shows "\<exists>rep r' code' m' g'. scavenge r code (m, g) = Some (Inr (Inr rep, r', code', m', g'))
    \<and> ed_top (gs_eden g') = ed_start (gs_eden g) \<and> gs_to g' = survivor_reset (gs_from g)
    \<and> sv_top (gs_from g') = sv_start (gs_to g) + sr_survivor_bytes rep
    \<and> og_top (gs_old g') = og_top (gs_old g) + sr_promoted_bytes rep
    \<and> sr_survivor_bytes rep + sr_promoted_bytes rep
        = 8 * (\<Sum>a | a \<in> reached m olds r code \<and> is_new (gs_layout g) a. isz m a)
    \<and> (\<forall>x. vacated g x \<and> x mod 8 = 0 \<longrightarrow> m' x = POISON)"
proof -
  from scavenge_cycle [OF assms] obtain g0 c rep g2 m' g' where
    q: "scavenge r code (m, g) = Some (Inr (Inr rep, map_root_set (fwd (gh_map c)) r, map (fwd (gh_map c)) code, m', g'))"
    "cycle_end (env_of (m, g0) (reached m olds r code) olds) r code c g2 rep (m', g')"
    "gs_old g0 = gs_old g" "gs_eden g0 = gs_eden g" "gs_from g0 = gs_from g" "gs_to g0 = survivor_reset (gs_to g)"
    "young (env_of (m, g0) (reached m olds r code) olds) = {a \<in> reached m olds r code. is_new (gs_layout g) a}" .
  have "vacated g0 x = vacated g x" for x using q(4,5) by (simp add: vacated_def)
  then show ?thesis using q(1) spaces_after [OF q(2)] q(3-7) by (auto simp: survivor_reset_def)
qed

theorem scavenge_frees_young_witness:
  "\<exists>rep r' code' m' g'. scavenge demo_roots [] (demo_heap, demo_gs) = Some (Inr (Inr rep, r', code', m', g'))
    \<and> ed_top (gs_eden g') = 0x1000 \<and> sv_top (gs_to g') = 0x1400 \<and> m' 0x1018 = POISON"
  using scavenge_frees_young [OF demo_ok demo_guarantee] by (fastforce simp: demo_gs_def survivor_reset_def vacated_def)

text \<open>The tenuring threshold is the least age at which the survivors up to that age fill more than half a
  survivor space, and 127 when they never do; with an age table of bounded sum it is always computed.\<close>

lemma compute_threshold_least:
  assumes "length t = 128" and "sum_list t \<le> usize_max"
  shows "\<exists>A. compute_threshold t cap = Inr A \<and> A \<le> 127
    \<and> (\<forall>j < A. sum_list (take (Suc j) t) \<le> cap div 2)
    \<and> (A = 127 \<or> cap div 2 < sum_list (take (Suc A) t))"
  using compute_threshold_ok [OF assms, of cap] by (metis le_neq_implies_less)

end
