(* ===== verification/Frames.thy ===== *)
theory Frames
  imports InlineCache Bytecode ObjectHeap
begin

unbundle bit_operations_syntax

text \<open>
  The process stack and its frames (\<open>src/src/interpreter/stack.rs\<close>), the packed reference to a home
  frame (\<open>oops/home_ref.rs\<close>) and the typed views of methods, closures and contexts that the
  interpreter reads (\<open>bytecode/method.rs\<close>, \<open>oops/closure.rs\<close>, \<open>oops/context.rs\<close>).

  The stack is a list of oops with the indices \<open>sp\<close> and \<open>fp\<close>, as in the source. Heap objects are
  records of their body words, indexable tail and bytes, named by an oop that stays fixed: a moving
  collection renames the oops in the stack slots and the objects consistently, and the sources
  re-read every oop through a handle or a stack slot around an allocation. The opt-in write audit
  (\<open>MACVM_DBG_STACK_WRITES\<close>) is left out.
\<close>

section \<open>Layout\<close>

definition METHOD_SELECTOR_INDEX :: nat where "METHOD_SELECTOR_INDEX = 0"
definition METHOD_HOLDER_INDEX :: nat where "METHOD_HOLDER_INDEX = 1"
definition METHOD_FLAGS_INDEX :: nat where "METHOD_FLAGS_INDEX = 2"
definition METHOD_PRIMITIVE_INDEX :: nat where "METHOD_PRIMITIVE_INDEX = 3"
definition METHOD_COUNTERS_INDEX :: nat where "METHOD_COUNTERS_INDEX = 4"
definition METHOD_LITERALS_INDEX :: nat where "METHOD_LITERALS_INDEX = 5"
definition METHOD_ICS_INDEX :: nat where "METHOD_ICS_INDEX = 6"

definition METHOD_FLAGS_ARGC_MASK :: int where "METHOD_FLAGS_ARGC_MASK = 2 ^ 4 - 1"
definition METHOD_FLAGS_NTEMPS_MASK :: int where "METHOD_FLAGS_NTEMPS_MASK = push_bit 4 (2 ^ 8 - 1)"
definition METHOD_FLAGS_HAS_CTX_MASK :: int where "METHOD_FLAGS_HAS_CTX_MASK = push_bit 12 1"
definition METHOD_FLAGS_IS_BLOCK_MASK :: int where "METHOD_FLAGS_IS_BLOCK_MASK = push_bit 13 1"
definition METHOD_FLAGS_PRIM_FAILS_MASK :: int where "METHOD_FLAGS_PRIM_FAILS_MASK = push_bit 14 1"
definition METHOD_FLAGS_CAPTURES_CTX_MASK :: int where "METHOD_FLAGS_CAPTURES_CTX_MASK = push_bit 15 1"
definition METHOD_FLAGS_NCTX_MASK :: int where "METHOD_FLAGS_NCTX_MASK = push_bit 16 (2 ^ 8 - 1)"

definition COUNTERS_INVOCATION_MASK :: int where "COUNTERS_INVOCATION_MASK = 0xFFFF"
definition COUNTERS_INVOCATION_MAX :: int where "COUNTERS_INVOCATION_MAX = 0xFFFF"
definition COUNTERS_LOOP_MASK :: int where "COUNTERS_LOOP_MASK = push_bit 16 0xFFFF"
definition LOOP_COUNTER_LIMIT :: int where "LOOP_COUNTER_LIMIT = 10000"
definition COUNTERS_COMPILE_DISABLED_BIT :: int where "COUNTERS_COMPILE_DISABLED_BIT = push_bit 33 1"
definition COUNTERS_HAS_BP_BIT :: int where "COUNTERS_HAS_BP_BIT = push_bit 32 1"

definition CLOSURE_METHOD_INDEX :: nat where "CLOSURE_METHOD_INDEX = 0"
definition CLOSURE_HOME_INDEX :: nat where "CLOSURE_HOME_INDEX = 1"
definition CONTEXT_HOME_HINT_INDEX :: nat where "CONTEXT_HOME_HINT_INDEX = 0"

definition FRAME_METHOD :: nat where "FRAME_METHOD = 0"
definition FRAME_SAVED_FP :: nat where "FRAME_SAVED_FP = 1"
definition FRAME_SAVED_BCI :: nat where "FRAME_SAVED_BCI = 2"
definition FRAME_CONTEXT :: nat where "FRAME_CONTEXT = 3"
definition FRAME_RECEIVER :: nat where "FRAME_RECEIVER = 4"
definition FRAME_SERIAL :: nat where "FRAME_SERIAL = 5"
definition FRAME_MARKER :: nat where "FRAME_MARKER = 6"
definition FRAME_TEMPS_BASE :: nat where "FRAME_TEMPS_BASE = 7"
definition ENTRY_FRAME_SENTINEL :: int where "ENTRY_FRAME_SENTINEL = -1"
definition FRAME_SERIAL_MASK :: int where "FRAME_SERIAL_MASK = 2 ^ 32 - 1"
definition FRAME_MARKER_KIND_MASK :: int where "FRAME_MARKER_KIND_MASK = push_bit 32 1"

definition HOME_REF_FP_SHIFT :: nat where "HOME_REF_FP_SHIFT = 0"
definition HOME_REF_SERIAL_SHIFT :: nat where "HOME_REF_SERIAL_SHIFT = 22"
definition HOME_REF_PROC_SHIFT :: nat where "HOME_REF_PROC_SHIFT = 54"
definition HOME_REF_FP_MAX :: nat where "HOME_REF_FP_MAX = 2 ^ 22 - 1"
definition HOME_REF_ALL_MASK :: u64 where "HOME_REF_ALL_MASK = 2 ^ 62 - 1"

definition BCI_RESUME_ENSURE_RET :: nat where "BCI_RESUME_ENSURE_RET = 0x7FFF0001"
definition BCI_RESUME_UNWIND :: nat where "BCI_RESUME_UNWIND = 0x7FFF0002"
definition BCI_RESUME_CANNOT_RETURN :: nat where "BCI_RESUME_CANNOT_RETURN = 0x7FFF0003"

lemmas frame_layout =
  FRAME_METHOD_def FRAME_SAVED_FP_def FRAME_SAVED_BCI_def FRAME_CONTEXT_def FRAME_RECEIVER_def
  FRAME_SERIAL_def FRAME_MARKER_def FRAME_TEMPS_BASE_def

section \<open>Home references\<close>

record home_ref =
  hr_proc :: u8
  hr_serial :: u32
  hr_fp :: nat

definition pack_home_ref :: "home_ref \<Rightarrow> oop res" where
  "pack_home_ref h =
     guard_res (hr_fp h \<le> HOME_REF_FP_MAX) Assert_failed
      (let raw = (push_bit HOME_REF_PROC_SHIFT (ucast (hr_proc h)) OR
                  push_bit HOME_REF_SERIAL_SHIFT (ucast (hr_serial h))) OR
                  push_bit HOME_REF_FP_SHIFT (of_nat (hr_fp h)) :: u64;
           signed = sint (signed_drop_bit 2 (push_bit 2 raw))
       in smi_new signed)"

definition unpack_home_ref :: "oop \<Rightarrow> home_ref" where
  "unpack_home_ref s =
     (let raw = (word_of_int (smi_value s) :: u64) AND HOME_REF_ALL_MASK in
      \<lparr>hr_proc = ucast (drop_bit HOME_REF_PROC_SHIFT raw),
       hr_serial = ucast (drop_bit HOME_REF_SERIAL_SHIFT raw),
       hr_fp = unat (drop_bit HOME_REF_FP_SHIFT raw) AND HOME_REF_FP_MAX\<rparr>)"

definition home_dead_sentinel :: "oop res" where
  "home_dead_sentinel = pack_home_ref \<lparr>hr_proc = 1, hr_serial = 0, hr_fp = 0\<rparr>"

section \<open>Heap objects\<close>

record hobj =
  ho_klass :: oop
  ho_format :: format
  ho_body :: "oop list"
  ho_tail :: "oop list"
  ho_bytes :: "u8 list"

type_synonym objs = "oop \<rightharpoonup> hobj"

definition obj_try_from :: "format \<Rightarrow> objs \<Rightarrow> oop \<Rightarrow> oop option" where
  "obj_try_from f os w = (case os w of Some ob \<Rightarrow> if ho_format ob = f then Some w else None | None \<Rightarrow> None)"

abbreviation is_method :: "objs \<Rightarrow> oop \<Rightarrow> bool" where "is_method os w \<equiv> obj_try_from Method os w \<noteq> None"
abbreviation is_closure :: "objs \<Rightarrow> oop \<Rightarrow> bool" where "is_closure os w \<equiv> obj_try_from Closure os w \<noteq> None"
abbreviation is_array :: "objs \<Rightarrow> oop \<Rightarrow> bool" where "is_array os w \<equiv> obj_try_from IndexableOops os w \<noteq> None"
abbreviation is_context :: "objs \<Rightarrow> oop \<Rightarrow> bool" where "is_context os w \<equiv> obj_try_from Context os w \<noteq> None"

definition body_at :: "objs \<Rightarrow> oop \<Rightarrow> nat \<Rightarrow> oop res" where
  "body_at os w i = rbind (expect (os w)) (\<lambda>ob. guard_res (i < length (ho_body ob)) Assert_failed (Inr (ho_body ob ! i)))"

definition set_body_at :: "objs \<Rightarrow> oop \<Rightarrow> nat \<Rightarrow> oop \<Rightarrow> objs res" where
  "set_body_at os w i v =
     rbind (expect (os w)) (\<lambda>ob. guard_res (i < length (ho_body ob)) Assert_failed
       (Inr (os(w \<mapsto> ob\<lparr>ho_body := (ho_body ob)[i := v]\<rparr>))))"

definition tail_len :: "objs \<Rightarrow> oop \<Rightarrow> nat res" where
  "tail_len os w = rbind (expect (os w)) (\<lambda>ob. Inr (length (ho_tail ob)))"

definition tail_at :: "objs \<Rightarrow> oop \<Rightarrow> nat \<Rightarrow> oop res" where
  "tail_at os w i = rbind (expect (os w)) (\<lambda>ob. guard_res (i < length (ho_tail ob)) Assert_failed (Inr (ho_tail ob ! i)))"

definition set_tail_at :: "objs \<Rightarrow> oop \<Rightarrow> nat \<Rightarrow> oop \<Rightarrow> objs res" where
  "set_tail_at os w i v =
     rbind (expect (os w)) (\<lambda>ob. guard_res (i < length (ho_tail ob)) Assert_failed
       (Inr (os(w \<mapsto> ob\<lparr>ho_tail := (ho_tail ob)[i := v]\<rparr>))))"

definition smi_body :: "objs \<Rightarrow> oop \<Rightarrow> nat \<Rightarrow> int res" where
  "smi_body os w i = rbind (body_at os w i) (\<lambda>v. rbind (expect (smi_try_from v)) (\<lambda>s. Inr (smi_value s)))"

subsection \<open>Compiled methods\<close>

definition mt_selector :: "objs \<Rightarrow> oop \<Rightarrow> oop res" where "mt_selector os m = body_at os m METHOD_SELECTOR_INDEX"
definition mt_holder :: "objs \<Rightarrow> oop \<Rightarrow> oop res" where "mt_holder os m = body_at os m METHOD_HOLDER_INDEX"
definition flags_value :: "objs \<Rightarrow> oop \<Rightarrow> int res" where "flags_value os m = smi_body os m METHOD_FLAGS_INDEX"

definition flag :: "int \<Rightarrow> objs \<Rightarrow> oop \<Rightarrow> bool res" where
  "flag msk os m = rbind (flags_value os m) (\<lambda>v. Inr (v AND msk \<noteq> 0))"

definition mt_argc :: "objs \<Rightarrow> oop \<Rightarrow> nat res" where
  "mt_argc os m = rbind (flags_value os m) (\<lambda>v. Inr (nat (v AND METHOD_FLAGS_ARGC_MASK)))"

definition mt_ntemps :: "objs \<Rightarrow> oop \<Rightarrow> nat res" where
  "mt_ntemps os m = rbind (flags_value os m) (\<lambda>v. Inr (nat (drop_bit 4 (v AND METHOD_FLAGS_NTEMPS_MASK))))"

definition mt_nctx :: "objs \<Rightarrow> oop \<Rightarrow> nat res" where
  "mt_nctx os m = rbind (flags_value os m) (\<lambda>v. Inr (nat (drop_bit 16 (v AND METHOD_FLAGS_NCTX_MASK))))"

definition mt_has_ctx :: "objs \<Rightarrow> oop \<Rightarrow> bool res" where "mt_has_ctx = flag METHOD_FLAGS_HAS_CTX_MASK"
definition mt_is_block :: "objs \<Rightarrow> oop \<Rightarrow> bool res" where "mt_is_block = flag METHOD_FLAGS_IS_BLOCK_MASK"
definition mt_prim_fails :: "objs \<Rightarrow> oop \<Rightarrow> bool res" where "mt_prim_fails = flag METHOD_FLAGS_PRIM_FAILS_MASK"
definition mt_captures_ctx :: "objs \<Rightarrow> oop \<Rightarrow> bool res" where "mt_captures_ctx = flag METHOD_FLAGS_CAPTURES_CTX_MASK"

definition pack_flags :: "nat \<Rightarrow> nat \<Rightarrow> bool \<Rightarrow> bool \<Rightarrow> bool \<Rightarrow> bool \<Rightarrow> nat \<Rightarrow> int res" where
  "pack_flags argc ntemps has_ctx is_block prim_fails captures_ctx nctx =
     guard_res (argc < 2 ^ 4) Assert_failed (guard_res (ntemps < 2 ^ 8) Assert_failed (guard_res (nctx < 2 ^ 8) Assert_failed
       (let v = int argc;
            v = v OR push_bit 4 (int ntemps);
            v = (if has_ctx then v OR METHOD_FLAGS_HAS_CTX_MASK else v);
            v = (if is_block then v OR METHOD_FLAGS_IS_BLOCK_MASK else v);
            v = (if prim_fails then v OR METHOD_FLAGS_PRIM_FAILS_MASK else v);
            v = (if captures_ctx then v OR METHOD_FLAGS_CAPTURES_CTX_MASK else v)
        in Inr (v OR push_bit 16 (int nctx)))))"

definition set_flags_value :: "objs \<Rightarrow> oop \<Rightarrow> int \<Rightarrow> objs res" where
  "set_flags_value os m v = rbind (smi_new v) (\<lambda>w. set_body_at os m METHOD_FLAGS_INDEX w)"

definition set_flags :: "objs \<Rightarrow> oop \<Rightarrow> nat \<Rightarrow> nat \<Rightarrow> bool \<Rightarrow> bool \<Rightarrow> bool \<Rightarrow> bool \<Rightarrow> nat \<Rightarrow> objs res" where
  "set_flags os m argc ntemps has_ctx is_block prim_fails captures_ctx nctx =
     rbind (pack_flags argc ntemps has_ctx is_block prim_fails captures_ctx nctx) (set_flags_value os m)"

definition mt_primitive :: "objs \<Rightarrow> oop \<Rightarrow> int res" where "mt_primitive os m = smi_body os m METHOD_PRIMITIVE_INDEX"
definition mt_counters :: "objs \<Rightarrow> oop \<Rightarrow> int res" where "mt_counters os m = smi_body os m METHOD_COUNTERS_INDEX"

definition set_counters :: "objs \<Rightarrow> oop \<Rightarrow> int \<Rightarrow> objs res" where
  "set_counters os m v = rbind (smi_new v) (\<lambda>w. set_body_at os m METHOD_COUNTERS_INDEX w)"

definition compile_disabled :: "objs \<Rightarrow> oop \<Rightarrow> bool res" where
  "compile_disabled os m = rbind (mt_counters os m) (\<lambda>c. Inr (c AND COUNTERS_COMPILE_DISABLED_BIT \<noteq> 0))"

definition set_compile_disabled :: "objs \<Rightarrow> oop \<Rightarrow> objs res" where
  "set_compile_disabled os m = set_counters os m COUNTERS_COMPILE_DISABLED_BIT"

definition clear_compile_disabled :: "objs \<Rightarrow> oop \<Rightarrow> objs res" where
  "clear_compile_disabled os m = rbind (mt_counters os m) (\<lambda>c. set_counters os m (c AND NOT COUNTERS_COMPILE_DISABLED_BIT))"

definition saturate_invocation :: "objs \<Rightarrow> oop \<Rightarrow> int \<Rightarrow> (objs \<times> bool) res" where
  "saturate_invocation os m n =
     rbind (mt_counters os m) (\<lambda>c.
       let cur = c AND COUNTERS_INVOCATION_MASK; want = min (max n 0) COUNTERS_INVOCATION_MAX in
       if want \<le> cur then Inr (os, False)
       else rbind (set_counters os m ((c AND NOT COUNTERS_INVOCATION_MASK) OR want)) (\<lambda>os'. Inr (os', True)))"

definition has_bp :: "objs \<Rightarrow> oop \<Rightarrow> bool res" where
  "has_bp os m = rbind (mt_counters os m) (\<lambda>c. Inr (c AND COUNTERS_HAS_BP_BIT \<noteq> 0))"

definition set_has_bp :: "objs \<Rightarrow> oop \<Rightarrow> objs res" where
  "set_has_bp os m = rbind (mt_counters os m) (\<lambda>c. set_counters os m (c OR COUNTERS_HAS_BP_BIT))"

definition clear_has_bp :: "objs \<Rightarrow> oop \<Rightarrow> objs res" where
  "clear_has_bp os m = rbind (mt_counters os m) (\<lambda>c. set_counters os m (c AND NOT COUNTERS_HAS_BP_BIT))"

definition mt_literals :: "objs \<Rightarrow> oop \<Rightarrow> oop res" where
  "mt_literals os m = rbind (body_at os m METHOD_LITERALS_INDEX) (\<lambda>w. expect (obj_try_from IndexableOops os w))"

definition mt_literal :: "objs \<Rightarrow> oop \<Rightarrow> nat \<Rightarrow> oop res" where
  "mt_literal os m i = rbind (mt_literals os m) (\<lambda>a. tail_at os a i)"

definition mt_ics :: "objs \<Rightarrow> oop \<Rightarrow> oop res" where
  "mt_ics os m = rbind (body_at os m METHOD_ICS_INDEX) (\<lambda>w. expect (obj_try_from IndexableOops os w))"

definition mt_code :: "objs \<Rightarrow> oop \<Rightarrow> u8 list res" where
  "mt_code os m = rbind (expect (os m)) (\<lambda>ob. Inr (ho_bytes ob))"

subsection \<open>Invocation and loop counters\<close>

definition bump_invocation :: "objs \<Rightarrow> oop \<Rightarrow> (objs \<times> int) res" where
  "bump_invocation os m =
     rbind (mt_counters os m) (\<lambda>c.
       let inv = c AND COUNTERS_INVOCATION_MASK; bumped = min (inv + 1) COUNTERS_INVOCATION_MAX in
       rbind (set_counters os m ((c AND NOT COUNTERS_INVOCATION_MASK) OR bumped)) (\<lambda>os'. Inr (os', bumped)))"

definition bump_loop_counter :: "objs \<Rightarrow> oop \<Rightarrow> (objs \<times> bool) res" where
  "bump_loop_counter os m =
     rbind (mt_counters os m) (\<lambda>c.
       let cur = drop_bit 16 (c AND COUNTERS_LOOP_MASK); bumped = min (cur + 1) 0xFFFF in
       rbind (set_counters os m ((c AND NOT COUNTERS_LOOP_MASK) OR push_bit 16 bumped)) (\<lambda>os'.
         Inr (os', LOOP_COUNTER_LIMIT \<le> bumped)))"

definition reset_loop_counter :: "objs \<Rightarrow> oop \<Rightarrow> objs res" where
  "reset_loop_counter os m = rbind (mt_counters os m) (\<lambda>c. set_counters os m (c AND NOT COUNTERS_LOOP_MASK))"

subsection \<open>Closures and contexts\<close>

definition cl_method :: "objs \<Rightarrow> oop \<Rightarrow> oop res" where
  "cl_method os c = rbind (body_at os c CLOSURE_METHOD_INDEX) (\<lambda>w. expect (obj_try_from Method os w))"

definition cl_set_method :: "objs \<Rightarrow> oop \<Rightarrow> oop \<Rightarrow> objs res" where "cl_set_method os c m = set_body_at os c CLOSURE_METHOD_INDEX m"

definition cl_home :: "objs \<Rightarrow> oop \<Rightarrow> oop res" where
  "cl_home os c = rbind (body_at os c CLOSURE_HOME_INDEX) (\<lambda>w. expect (smi_try_from w))"

definition cl_set_home :: "objs \<Rightarrow> oop \<Rightarrow> oop \<Rightarrow> objs res" where "cl_set_home os c h = set_body_at os c CLOSURE_HOME_INDEX h"
definition cl_ncopied :: "objs \<Rightarrow> oop \<Rightarrow> nat res" where "cl_ncopied os c = tail_len os c"
definition cl_copied :: "objs \<Rightarrow> oop \<Rightarrow> nat \<Rightarrow> oop res" where "cl_copied os c i = tail_at os c i"
definition cl_set_copied :: "objs \<Rightarrow> oop \<Rightarrow> nat \<Rightarrow> oop \<Rightarrow> objs res" where "cl_set_copied os c i v = set_tail_at os c i v"

definition ctx_home_hint :: "objs \<Rightarrow> oop \<Rightarrow> oop res" where "ctx_home_hint os c = body_at os c CONTEXT_HOME_HINT_INDEX"
definition ctx_set_home_hint :: "objs \<Rightarrow> oop \<Rightarrow> oop \<Rightarrow> objs res" where "ctx_set_home_hint os c h = set_body_at os c CONTEXT_HOME_HINT_INDEX h"
definition ctx_slot :: "objs \<Rightarrow> oop \<Rightarrow> nat \<Rightarrow> oop res" where "ctx_slot os c i = tail_at os c i"
definition ctx_set_slot :: "objs \<Rightarrow> oop \<Rightarrow> nat \<Rightarrow> oop \<Rightarrow> objs res" where "ctx_set_slot os c i v = set_tail_at os c i v"

section \<open>The process stack\<close>

record pstack =
  ps_slots :: "oop list"
  ps_sp :: nat
  ps_fp :: nat
  ps_has_frame :: bool

definition with_capacity :: "nat \<Rightarrow> pstack" where
  "with_capacity n = \<lparr>ps_slots = replicate n 0, ps_sp = 0, ps_fp = 0, ps_has_frame = False\<rparr>"

definition activate_frame :: "nat \<Rightarrow> pstack \<Rightarrow> pstack" where
  "activate_frame fp st = st\<lparr>ps_fp := fp, ps_has_frame := True\<rparr>"

definition deactivate :: "pstack \<Rightarrow> pstack" where "deactivate st = st\<lparr>ps_has_frame := False\<rparr>"

definition restore_baseline :: "nat \<Rightarrow> nat \<Rightarrow> bool \<Rightarrow> pstack \<Rightarrow> pstack" where
  "restore_baseline sp fp hf st = st\<lparr>ps_sp := sp, ps_fp := fp, ps_has_frame := hf\<rparr>"

definition save_activation :: "pstack \<Rightarrow> nat \<times> bool" where "save_activation st = (ps_fp st, ps_has_frame st)"

definition restore_activation :: "nat \<times> bool \<Rightarrow> pstack \<Rightarrow> pstack" where
  "restore_activation a st = st\<lparr>ps_fp := fst a, ps_has_frame := snd a\<rparr>"

definition st_get :: "pstack \<Rightarrow> nat \<Rightarrow> oop res" where
  "st_get st i = guard_res (i < length (ps_slots st)) Index_out_of_bounds (Inr (ps_slots st ! i))"

definition st_set :: "nat \<Rightarrow> oop \<Rightarrow> pstack \<Rightarrow> pstack res" where
  "st_set i v st = guard_res (i < length (ps_slots st)) Index_out_of_bounds (Inr (st\<lparr>ps_slots := (ps_slots st)[i := v]\<rparr>))"

text \<open>\<open>None\<close> is \<open>Err(StackOverflow)\<close>.\<close>

definition try_push :: "oop \<Rightarrow> pstack \<Rightarrow> pstack option" where
  "try_push v st =
     (if length (ps_slots st) \<le> ps_sp st then None
      else Some (st\<lparr>ps_slots := (ps_slots st)[ps_sp st := v], ps_sp := ps_sp st + 1\<rparr>))"

definition ntemps_at_fp :: "objs \<Rightarrow> pstack \<Rightarrow> nat res" where
  "ntemps_at_fp os st =
     rbind (st_get st (ps_fp st + FRAME_METHOD)) (\<lambda>w.
       case obj_try_from Method os w of Some m \<Rightarrow> mt_ntemps os m | None \<Rightarrow> Inr 0)"

definition pop_floor :: "objs \<Rightarrow> pstack \<Rightarrow> nat res" where
  "pop_floor os st =
     (if ps_has_frame st then rbind (ntemps_at_fp os st) (\<lambda>n. Inr (ps_fp st + FRAME_TEMPS_BASE + n)) else Inr 0)"

definition st_pop :: "objs \<Rightarrow> pstack \<Rightarrow> (pstack \<times> oop) res" where
  "st_pop os st =
     rbind (pop_floor os st) (\<lambda>floor.
       guard_res (floor < ps_sp st) Assert_failed
        (rbind (st_get st (ps_sp st - 1)) (\<lambda>v. Inr (st\<lparr>ps_sp := ps_sp st - 1\<rparr>, v))))"

definition st_top :: "pstack \<Rightarrow> oop res" where
  "st_top st = rbind (usub (ps_sp st) 1) (st_get st)"

section \<open>Frames\<close>

datatype marker_kind = Ensure | IfCurtailed

definition fr_method :: "objs \<Rightarrow> pstack \<Rightarrow> nat \<Rightarrow> oop res" where
  "fr_method os st fp = rbind (st_get st (fp + FRAME_METHOD)) (\<lambda>w. expect (obj_try_from Method os w))"

definition fr_smi :: "pstack \<Rightarrow> nat \<Rightarrow> int res" where
  "fr_smi st i = rbind (st_get st i) (\<lambda>w. rbind (expect (smi_try_from w)) (\<lambda>s. Inr (smi_value s)))"

definition fr_saved_fp :: "pstack \<Rightarrow> nat \<Rightarrow> int res" where "fr_saved_fp st fp = fr_smi st (fp + FRAME_SAVED_FP)"

definition fr_saved_bci :: "pstack \<Rightarrow> nat \<Rightarrow> nat res" where
  "fr_saved_bci st fp = rbind (fr_smi st (fp + FRAME_SAVED_BCI)) (\<lambda>v. Inr (i64_as_usize v))"

text \<open>The non-panicking reads of the walkers.\<close>

definition fr_smi_opt :: "pstack \<Rightarrow> nat \<Rightarrow> nat \<Rightarrow> int option" where
  "fr_smi_opt st fp k =
     Option.bind (checked_add_usize fp k) (\<lambda>i.
       if length (ps_slots st) \<le> i then None else map_option smi_value (smi_try_from (ps_slots st ! i)))"

definition fr_saved_fp_opt :: "pstack \<Rightarrow> nat \<Rightarrow> int option" where "fr_saved_fp_opt st fp = fr_smi_opt st fp FRAME_SAVED_FP"

definition fr_saved_bci_opt :: "pstack \<Rightarrow> nat \<Rightarrow> nat option" where
  "fr_saved_bci_opt st fp = map_option i64_as_usize (fr_smi_opt st fp FRAME_SAVED_BCI)"

definition fr_method_opt :: "objs \<Rightarrow> pstack \<Rightarrow> nat \<Rightarrow> oop option" where
  "fr_method_opt os st fp =
     Option.bind (checked_add_usize fp FRAME_METHOD) (\<lambda>i.
       if length (ps_slots st) \<le> i then None else obj_try_from Method os (ps_slots st ! i))"

definition fr_context :: "pstack \<Rightarrow> nat \<Rightarrow> oop res" where "fr_context st fp = st_get st (fp + FRAME_CONTEXT)"
definition fr_set_context :: "nat \<Rightarrow> oop \<Rightarrow> pstack \<Rightarrow> pstack res" where "fr_set_context fp c st = st_set (fp + FRAME_CONTEXT) c st"
definition serial_word :: "pstack \<Rightarrow> nat \<Rightarrow> int res" where "serial_word st fp = fr_smi st (fp + FRAME_SERIAL)"

definition fr_serial :: "pstack \<Rightarrow> nat \<Rightarrow> u32 res" where
  "fr_serial st fp = rbind (serial_word st fp) (\<lambda>v. Inr (word_of_int (v AND FRAME_SERIAL_MASK)))"

definition fr_marker :: "pstack \<Rightarrow> nat \<Rightarrow> oop res" where "fr_marker st fp = st_get st (fp + FRAME_MARKER)"

definition fr_marker_kind :: "pstack \<Rightarrow> nat \<Rightarrow> marker_kind res" where
  "fr_marker_kind st fp =
     rbind (serial_word st fp) (\<lambda>v. Inr (if v AND FRAME_MARKER_KIND_MASK \<noteq> 0 then IfCurtailed else Ensure))"

definition fr_set_marker :: "nat \<Rightarrow> oop \<Rightarrow> marker_kind \<Rightarrow> pstack \<Rightarrow> pstack res" where
  "fr_set_marker fp m kind st =
     rbind (serial_word st fp) (\<lambda>v.
       let serial_bits = v AND FRAME_SERIAL_MASK;
           kind_bit = (case kind of Ensure \<Rightarrow> 0 | IfCurtailed \<Rightarrow> FRAME_MARKER_KIND_MASK) in
       rbind (smi_new (serial_bits OR kind_bit)) (\<lambda>w.
       rbind (st_set (fp + FRAME_SERIAL) w st) (st_set (fp + FRAME_MARKER) m)))"

definition fr_clear_marker :: "nat \<Rightarrow> oop \<Rightarrow> pstack \<Rightarrow> pstack res" where
  "fr_clear_marker fp nil st = st_set (fp + FRAME_MARKER) nil st"

definition fr_receiver :: "pstack \<Rightarrow> nat \<Rightarrow> oop res" where "fr_receiver st fp = st_get st (fp + FRAME_RECEIVER)"

definition fr_argc :: "objs \<Rightarrow> pstack \<Rightarrow> nat \<Rightarrow> nat res" where
  "fr_argc os st fp = rbind (fr_method os st fp) (mt_argc os)"

definition fr_ntemps :: "objs \<Rightarrow> pstack \<Rightarrow> nat \<Rightarrow> nat res" where
  "fr_ntemps os st fp = rbind (fr_method os st fp) (mt_ntemps os)"

definition temp_index :: "objs \<Rightarrow> pstack \<Rightarrow> nat \<Rightarrow> nat \<Rightarrow> nat res" where
  "temp_index os st fp t =
     rbind (fr_argc os st fp) (\<lambda>argc.
     rbind (fr_ntemps os st fp) (\<lambda>n.
       guard_res (t < argc + n) Assert_failed
        (if t < argc then rbind (usub fp argc) (\<lambda>b. Inr (b + t)) else Inr (fp + FRAME_TEMPS_BASE + (t - argc)))))"

definition fr_temp :: "objs \<Rightarrow> pstack \<Rightarrow> nat \<Rightarrow> nat \<Rightarrow> oop res" where
  "fr_temp os st fp t = rbind (temp_index os st fp t) (st_get st)"

definition fr_set_temp :: "objs \<Rightarrow> nat \<Rightarrow> nat \<Rightarrow> oop \<Rightarrow> pstack \<Rightarrow> pstack res" where
  "fr_set_temp os fp t v st = rbind (temp_index os st fp t) (\<lambda>i. st_set i v st)"

definition receiver_slot :: "objs \<Rightarrow> pstack \<Rightarrow> nat \<Rightarrow> nat res" where
  "receiver_slot os st fp = rbind (fr_argc os st fp) (\<lambda>argc. usub fp (argc + 1))"

text \<open>\<open>Frame::verify\<close>: panics unless the frame has the shape that \<open>push_frame\<close> builds.\<close>

definition fr_verify :: "objs \<Rightarrow> pstack \<Rightarrow> nat \<Rightarrow> unit res" where
  "fr_verify os st fp =
     guard_res (fp + FRAME_TEMPS_BASE \<le> ps_sp st) Assert_failed
      (rbind (fr_method os st fp) (\<lambda>m.
       rbind (fr_smi st (fp + FRAME_SAVED_FP)) (\<lambda>_.
       rbind (fr_smi st (fp + FRAME_SAVED_BCI)) (\<lambda>_.
       rbind (fr_smi st (fp + FRAME_SERIAL)) (\<lambda>_.
       rbind (mt_argc os m) (\<lambda>argc.
       guard_res (argc < fp) Assert_failed
        (rbind (mt_is_block os m) (\<lambda>blk.
         rbind (st_get st (fp - argc - 1)) (\<lambda>arg.
         rbind (fr_receiver st fp) (\<lambda>r.
         rbind (if blk then
                  (case obj_try_from Closure os arg of
                     None \<Rightarrow> Inl Assert_failed
                   | Some cl \<Rightarrow> rbind (cl_copied os cl 0) (\<lambda>c0. guard_res (r = c0) Assert_failed (Inr ())))
                else guard_res (r = arg) Assert_failed (Inr ())) (\<lambda>_.
         rbind (mt_ntemps os m) (\<lambda>n.
           guard_res (fp + FRAME_TEMPS_BASE + n \<le> ps_sp st) Assert_failed (Inr ())))))))))))))"

end
