(* ===== verification/Activation.thy ===== *)
theory Activation
  imports Frames
begin

unbundle bit_operations_syntax

text \<open>
  The state of the tier-0 interpreter and the activation of methods and blocks
  (\<open>src/src/interpreter/blocks.rs\<close>, \<open>push_frame\<close> and \<open>activate_entry\<close> of \<open>interpreter/mod.rs\<close>,
  \<open>try_primitive\<close> and \<open>activate_method\<close> of \<open>interpreter/send.rs\<close>, the block primitives of
  \<open>runtime/primitives.rs\<close>).

  The machine is the VM with compilation off (\<open>JitMode::Off\<close>): the compile triggers, compiled blocks
  and compiled callees do not arise, so a primitive answers \<open>Ok\<close>, \<open>Fail\<close> or \<open>Activated\<close>. The
  primitive table is an argument of the definitions that call it; \<open>block_primitives\<close> are its entries
  for the \<open>value\<close> family, \<open>ensure:\<close> and \<open>ifCurtailed:\<close>. Calls that never return are failures: a
  panic, \<open>fatal_exit\<close>, and \<open>dnu_fallback\<close> with the state it is called in.
\<close>

section \<open>State\<close>

record nlr_state =
  nlr_home :: home_ref
  nlr_value :: oop
  nlr_closure :: "oop option"

record imach =
  im_stack :: pstack
  im_objs :: objs
  im_alloc :: "objs \<Rightarrow> oop option"
  im_lk :: lk_vm
  im_true :: oop
  im_false :: oop
  im_array_klass :: oop
  im_closure_klass :: oop
  im_context_klass :: oop
  im_message_klass :: oop
  im_sel_dnu :: oop
  im_sel_cannot_return :: oop
  im_sel_must_be_boolean :: oop
  im_next_frame_serial :: nat
  im_method :: "oop option"
  im_bci :: nat
  im_nlr :: "nlr_state option"
  im_curtailing :: bool
  im_exit_requested :: bool
  im_prim_arg_base :: nat
  im_barriered :: "oop list"

datatype ifail =
    Panic vm_panic
  | Exit nat                     \<comment> \<open>\<open>fatal_exit\<close>\<close>
  | Serials_exhausted            \<comment> \<open>the debug assertion of \<open>alloc_frame_serial\<close>\<close>
  | Dnu_fallback imach oop oop   \<comment> \<open>\<open>dnu_fallback\<close> called for a selector and a class\<close>
  | Guest_fatal imach            \<comment> \<open>\<open>raise_guest_fatal\<close>, after the curtailment blocks ran\<close>

type_synonym 'a ires = "ifail + 'a"

abbreviation im_nil :: "imach \<Rightarrow> oop" where "im_nil im \<equiv> env_nil (lv_env (im_lk im))"

definition lift_res :: "'a res \<Rightarrow> 'a ires" where
  "lift_res r = (case r of Inl e \<Rightarrow> Inl (Panic e) | Inr a \<Rightarrow> Inr a)"

abbreviation i_assert :: "bool \<Rightarrow> 'a ires \<Rightarrow> 'a ires" where "i_assert c r \<equiv> guard_res c (Panic Assert_failed) r"

definition set_stack :: "imach \<Rightarrow> pstack \<Rightarrow> imach" where "set_stack im st = im\<lparr>im_stack := st\<rparr>"

definition on_stack :: "(pstack \<Rightarrow> pstack res) \<Rightarrow> imach \<Rightarrow> imach ires" where
  "on_stack f im = rbind (lift_res (f (im_stack im))) (\<lambda>st. Inr (set_stack im st))"

definition on_objs :: "(objs \<Rightarrow> objs res) \<Rightarrow> imach \<Rightarrow> imach ires" where
  "on_objs f im = rbind (lift_res (f (im_objs im))) (\<lambda>os. Inr (im\<lparr>im_objs := os\<rparr>))"

definition push :: "oop \<Rightarrow> imach \<Rightarrow> imach ires" where
  "push v im = (case try_push v (im_stack im) of None \<Rightarrow> Inl (Exit 70) | Some st \<Rightarrow> Inr (set_stack im st))"

definition pop :: "imach \<Rightarrow> (imach \<times> oop) ires" where
  "pop im = rbind (lift_res (st_pop (im_objs im) (im_stack im))) (\<lambda>(st, v). Inr (set_stack im st, v))"

definition set_sp :: "nat \<Rightarrow> imach \<Rightarrow> imach" where "set_sp n im = set_stack im ((im_stack im)\<lparr>ps_sp := n\<rparr>)"

definition get :: "imach \<Rightarrow> nat \<Rightarrow> oop ires" where "get im i = lift_res (st_get (im_stack im) i)"

definition usize_as_i64 :: "nat \<Rightarrow> int" where "usize_as_i64 n = sint (of_nat n :: u64)"

definition alloc_frame_serial :: "imach \<Rightarrow> (imach \<times> nat) ires" where
  "alloc_frame_serial im =
     (let s = im_next_frame_serial im in
      guard_res (s + 1 < 2 ^ 32) Serials_exhausted (Inr (im\<lparr>im_next_frame_serial := s + 1\<rparr>, s)))"

definition set_regs :: "oop \<Rightarrow> nat \<Rightarrow> imach \<Rightarrow> imach" where
  "set_regs m bci im = im\<lparr>im_method := Some m, im_bci := bci\<rparr>"

text \<open>Allocation (\<open>alloc_indexable_oops\<close> and its siblings of \<open>memory/alloc.rs\<close>): \<open>im_alloc\<close> gives the
  address of the next object, or \<open>None\<close> when the allocation cascade ends in \<open>fatal_exit(70)\<close>.\<close>

definition new_object :: "oop \<Rightarrow> format \<Rightarrow> oop list \<Rightarrow> oop list \<Rightarrow> imach \<Rightarrow> (imach \<times> oop) ires" where
  "new_object k f body tail im =
     (case im_alloc im (im_objs im) of
        None \<Rightarrow> Inl (Exit 70)
      | Some a \<Rightarrow>
          Inr (im\<lparr>im_objs := (im_objs im)(a \<mapsto> \<lparr>ho_klass = k, ho_format = f, ho_body = body, ho_tail = tail, ho_bytes = []\<rparr>),
                  im_lk := (im_lk im)\<lparr>lv_header_klass := (lv_header_klass (im_lk im))(a := k)\<rparr>\<rparr>, a))"

definition alloc_indexable_oops :: "nat \<Rightarrow> imach \<Rightarrow> (imach \<times> oop) ires" where
  "alloc_indexable_oops n im = new_object (im_array_klass im) IndexableOops [] (replicate n (im_nil im)) im"

definition alloc_closure :: "nat \<Rightarrow> imach \<Rightarrow> (imach \<times> oop) ires" where
  "alloc_closure n im = new_object (im_closure_klass im) Closure [im_nil im, im_nil im] (replicate n (im_nil im)) im"

definition alloc_context :: "nat \<Rightarrow> imach \<Rightarrow> (imach \<times> oop) ires" where
  "alloc_context n im = new_object (im_context_klass im) Context [im_nil im] (replicate n (im_nil im)) im"

definition alloc_message :: "imach \<Rightarrow> (imach \<times> oop) ires" where
  "alloc_message im = new_object (im_message_klass im) Slots [im_nil im, im_nil im] [] im"

section \<open>Frames for methods and blocks\<close>

fun push_nils :: "nat \<Rightarrow> oop \<Rightarrow> imach \<Rightarrow> imach ires" where
  "push_nils 0 nil im = Inr im"
| "push_nils (Suc n) nil im = rbind (push nil im) (push_nils n nil)"

definition push_smi :: "int \<Rightarrow> imach \<Rightarrow> imach ires" where
  "push_smi v im = rbind (lift_res (smi_new v)) (\<lambda>w. push w im)"

definition push_frame :: "oop \<Rightarrow> nat \<Rightarrow> int \<Rightarrow> nat \<Rightarrow> imach \<Rightarrow> imach ires" where
  "push_frame m argc saved_fp saved_bci im =
     (let fp_new = ps_sp (im_stack im); nil = im_nil im in
      rbind (push m im) (\<lambda>im.
      rbind (push_smi saved_fp im) (\<lambda>im.
      rbind (push_smi (usize_as_i64 saved_bci) im) (\<lambda>im.
      rbind (push nil im) (\<lambda>im.
      rbind (lift_res (usub fp_new (argc + 1))) (\<lambda>i.
      rbind (get im i) (\<lambda>receiver.
      rbind (push receiver im) (\<lambda>im.
      rbind (alloc_frame_serial im) (\<lambda>(im, serial).
      rbind (push_smi (int serial) im) (\<lambda>im.
      rbind (push nil im) (\<lambda>im.
      rbind (lift_res (mt_ntemps (im_objs im) m)) (\<lambda>n.
      rbind (push_nils n nil im) (\<lambda>im.
        Inr (set_stack im (activate_frame fp_new (im_stack im))))))))))))))))"

definition maybe_alloc_context :: "oop \<Rightarrow> nat \<Rightarrow> oop \<Rightarrow> imach \<Rightarrow> imach ires" where
  "maybe_alloc_context m fp enclosing im =
     rbind (lift_res (mt_has_ctx (im_objs im) m)) (\<lambda>has_ctx.
       if \<not> has_ctx then Inr im
       else
         rbind (lift_res (mt_nctx (im_objs im) m)) (\<lambda>nctx.
         rbind (alloc_context nctx im) (\<lambda>(im, ctx).
         rbind (on_objs (\<lambda>os. ctx_set_home_hint os ctx enclosing) im)
           (on_stack (fr_set_context fp ctx)))))"

definition activate_entry :: "oop \<Rightarrow> nat \<Rightarrow> imach \<Rightarrow> imach ires" where
  "activate_entry m argc im =
     rbind (push_frame m argc ENTRY_FRAME_SENTINEL 0 im) (\<lambda>im.
       maybe_alloc_context m (ps_fp (im_stack im)) (im_nil im) im)"

datatype prim_result = PR_Ok oop | PR_Fail | PR_Activated

fun copy_captures :: "oop \<Rightarrow> nat \<Rightarrow> nat \<Rightarrow> nat \<Rightarrow> nat list \<Rightarrow> imach \<Rightarrow> imach ires" where
  "copy_captures cl fp value_base argc [] im = Inr im"
| "copy_captures cl fp value_base argc (i # is) im =
     rbind (lift_res (cl_copied (im_objs im) cl (value_base + i))) (\<lambda>v.
     rbind (on_stack (fr_set_temp (im_objs im) fp (argc + i) v) im) (copy_captures cl fp value_base argc is))"

text \<open>The fixed slots of a block's frame; its receiver is the one the closure captured.\<close>

definition push_block_frame :: "oop \<Rightarrow> oop \<Rightarrow> imach \<Rightarrow> imach ires" where
  "push_block_frame closure blk im =
     (let fp_new = ps_sp (im_stack im); nil = im_nil im in
      rbind (push blk im) (\<lambda>im.
      rbind (push_smi (usize_as_i64 (ps_fp (im_stack im))) im) (\<lambda>im.
      rbind (push_smi (usize_as_i64 (im_bci im)) im) (\<lambda>im.
      rbind (push nil im) (\<lambda>im.
      rbind (lift_res (cl_copied (im_objs im) closure 0)) (\<lambda>receiver.
      rbind (push receiver im) (\<lambda>im.
      rbind (alloc_frame_serial im) (\<lambda>(im, serial).
      rbind (push_smi (int serial) im) (\<lambda>im.
      rbind (push nil im) (\<lambda>im.
      rbind (lift_res (mt_ntemps (im_objs im) blk)) (\<lambda>n.
      rbind (push_nils n nil im) (\<lambda>im.
        Inr (set_stack im (activate_frame fp_new (im_stack im)))))))))))))))"

definition install_block_context :: "oop \<Rightarrow> oop \<Rightarrow> nat \<Rightarrow> imach \<Rightarrow> imach ires" where
  "install_block_context closure blk fp im =
     rbind (lift_res (mt_captures_ctx (im_objs im) blk)) (\<lambda>captures.
     rbind (if captures then lift_res (cl_copied (im_objs im) closure 1) else Inr (im_nil im)) (\<lambda>enclosing.
     rbind (lift_res (mt_has_ctx (im_objs im) blk)) (\<lambda>has_ctx.
       if has_ctx then maybe_alloc_context blk fp enclosing im
       else on_stack (fr_set_context fp enclosing) im)))"

definition load_captures :: "nat \<Rightarrow> nat \<Rightarrow> bool \<Rightarrow> imach \<Rightarrow> (imach \<times> oop) ires" where
  "load_captures fp argc captures im =
     rbind (lift_res (receiver_slot (im_objs im) (im_stack im) fp)) (\<lambda>i.
     rbind (get im i) (\<lambda>w.
     rbind (lift_res (expect (obj_try_from Closure (im_objs im) w))) (\<lambda>closure.
     rbind (lift_res (cl_method (im_objs im) closure)) (\<lambda>blk.
       let value_base = 1 + (if captures then 1 else 0) in
       rbind (lift_res (rbind (cl_ncopied (im_objs im) closure) (\<lambda>n. usub n value_base))) (\<lambda>n_value_captures.
       rbind (copy_captures closure fp value_base argc [0..<n_value_captures] im) (\<lambda>im. Inr (im, blk)))))))"

definition activate_block_interp :: "oop \<Rightarrow> nat \<Rightarrow> imach \<Rightarrow> (imach \<times> prim_result) ires" where
  "activate_block_interp closure argc im =
     rbind (lift_res (cl_method (im_objs im) closure)) (\<lambda>blk.
     rbind (lift_res (mt_argc (im_objs im) blk)) (\<lambda>blk_argc.
       if blk_argc \<noteq> argc then Inr (im, PR_Fail)
       else
         let fp_new = ps_sp (im_stack im) in
         rbind (push_block_frame closure blk im) (\<lambda>im.
         rbind (install_block_context closure blk fp_new im) (\<lambda>im.
         rbind (lift_res (mt_captures_ctx (im_objs im) blk)) (\<lambda>captures.
         rbind (load_captures fp_new argc captures im) (\<lambda>(im, blk).
           Inr (set_regs blk 0 im, PR_Activated)))))))"

definition activate_block :: "oop \<Rightarrow> nat \<Rightarrow> imach \<Rightarrow> (imach \<times> prim_result) ires" where
  "activate_block closure argc im =
     rbind (lift_res (cl_method (im_objs im) closure)) (\<lambda>blk.
     rbind (lift_res (mt_argc (im_objs im) blk)) (\<lambda>blk_argc.
       if blk_argc \<noteq> argc then Inr (im, PR_Fail)
       else
         rbind (lift_res (bump_invocation (im_objs im) blk)) (\<lambda>(os, _).
           activate_block_interp closure argc (im\<lparr>im_objs := os\<rparr>))))"

section \<open>Closures\<close>

definition home_ref_for_new_closure :: "imach \<Rightarrow> oop ires" where
  "home_ref_for_new_closure im =
     (let st = im_stack im; os = im_objs im; fp = ps_fp st in
      lift_res
       (rbind (fr_method os st fp) (\<lambda>m.
        rbind (mt_is_block os m) (\<lambda>blk.
          if blk then
            rbind (receiver_slot os st fp) (\<lambda>i.
            rbind (st_get st i) (\<lambda>w.
            rbind (expect (obj_try_from Closure os w)) (\<lambda>enclosing. cl_home os enclosing)))
          else
            rbind (fr_serial st fp) (\<lambda>serial.
              pack_home_ref \<lparr>hr_proc = 0, hr_serial = serial, hr_fp = fp\<rparr>)))))"

fun fill_copied :: "oop \<Rightarrow> nat \<Rightarrow> nat \<Rightarrow> nat list \<Rightarrow> imach \<Rightarrow> imach ires" where
  "fill_copied cl value_base base [] im = Inr im"
| "fill_copied cl value_base base (i # is) im =
     rbind (get im (base + i)) (\<lambda>v.
     rbind (on_objs (\<lambda>os. cl_set_copied os cl (value_base + i) v) im) (fill_copied cl value_base base is))"

definition make_closure :: "oop \<Rightarrow> nat \<Rightarrow> imach \<Rightarrow> (imach \<times> oop) ires" where
  "make_closure blk n_value_captures im =
     rbind (lift_res (mt_is_block (im_objs im) blk)) (\<lambda>is_blk.
     i_assert is_blk
      (rbind (lift_res (mt_captures_ctx (im_objs im) blk)) (\<lambda>captures.
         let value_base = 1 + (if captures then 1 else 0) in
         rbind (alloc_closure (value_base + n_value_captures) im) (\<lambda>(im, cl).
         rbind (lift_res (usub (ps_sp (im_stack im)) n_value_captures)) (\<lambda>base.
         rbind (fill_copied cl value_base base [0..<n_value_captures] im) (\<lambda>im.
         let im = set_sp base im; fp = ps_fp (im_stack im) in
         rbind (on_objs (\<lambda>os. cl_set_method os cl blk) im) (\<lambda>im.
         rbind (lift_res (fr_receiver (im_stack im) fp)) (\<lambda>r.
         rbind (on_objs (\<lambda>os. cl_set_copied os cl 0 r) im) (\<lambda>im.
         rbind (if captures then
                  rbind (lift_res (fr_context (im_stack im) fp)) (\<lambda>c. on_objs (\<lambda>os. cl_set_copied os cl 1 c) im)
                else Inr im) (\<lambda>im.
         rbind (home_ref_for_new_closure im) (\<lambda>home.
         rbind (on_objs (\<lambda>os. cl_set_home os cl home) im) (\<lambda>im. Inr (im, cl)))))))))))))"

section \<open>Primitives\<close>

type_synonym prim_fn = "oop list \<Rightarrow> imach \<Rightarrow> (imach \<times> prim_result) ires option"

datatype prim_outcome = Fallthrough | Result oop | Activated

record prims =
  pr_by_id :: "nat \<Rightarrow> (nat \<times> prim_fn) option"
  pr_ffi :: "oop \<Rightarrow> nat \<Rightarrow> imach \<Rightarrow> (imach \<times> prim_outcome) ires option"

definition prim_value :: "nat \<Rightarrow> prim_fn" where
  "prim_value n args im =
     (case obj_try_from Closure (im_objs im) (args ! 0) of
        None \<Rightarrow> returns (im, PR_Fail)
      | Some cl \<Rightarrow> Some (activate_block cl n im))"

fun push_elements :: "oop \<Rightarrow> nat list \<Rightarrow> imach \<Rightarrow> imach ires" where
  "push_elements arr [] im = Inr im"
| "push_elements arr (i # is) im =
     rbind (lift_res (tail_at (im_objs im) arr i)) (\<lambda>v. rbind (push v im) (push_elements arr is))"

definition prim_value_with_arguments :: prim_fn where
  "prim_value_with_arguments args im =
     (case obj_try_from Closure (im_objs im) (args ! 0) of
        None \<Rightarrow> returns (im, PR_Fail)
      | Some cl \<Rightarrow>
     (case obj_try_from IndexableOops (im_objs im) (args ! 1) of
        None \<Rightarrow> returns (im, PR_Fail)
      | Some arr \<Rightarrow>
          Some (rbind (lift_res (tail_len (im_objs im) arr)) (\<lambda>n.
            rbind (lift_res (rbind (cl_method (im_objs im) cl) (mt_argc (im_objs im)))) (\<lambda>argc.
              if n \<noteq> argc then Inr (im, PR_Fail)
              else rbind (push_elements arr [0..<n] (set_sp (im_prim_arg_base im + 1) im)) (activate_block_interp cl n))))))"

definition prim_ensure_like :: "marker_kind \<Rightarrow> prim_fn" where
  "prim_ensure_like kind args im =
     (case obj_try_from Closure (im_objs im) (args ! 0) of
        None \<Rightarrow> returns (im, PR_Fail)
      | Some protected \<Rightarrow>
     (case obj_try_from Closure (im_objs im) (args ! 1) of
        None \<Rightarrow> returns (im, PR_Fail)
      | Some handler \<Rightarrow>
          Some (rbind (lift_res (rbind (cl_method (im_objs im) protected) (mt_argc (im_objs im)))) (\<lambda>pa.
            rbind (lift_res (rbind (cl_method (im_objs im) handler) (mt_argc (im_objs im)))) (\<lambda>ha.
              if pa \<noteq> 0 \<or> ha \<noteq> 0 then Inr (im, PR_Fail)
              else
                rbind (lift_res (usub (ps_sp (im_stack im)) 1)) (\<lambda>sp.
                rbind (activate_block_interp protected 0 (set_sp sp im)) (\<lambda>(im, r).
                  case r of
                    PR_Activated \<Rightarrow>
                      rbind (on_stack (fr_set_marker (ps_fp (im_stack im)) handler kind) im) (\<lambda>im. Inr (im, PR_Activated))
                  | other \<Rightarrow> Inr (im, other))))))))"

definition block_primitives :: "nat \<Rightarrow> (nat \<times> prim_fn) option" where
  "block_primitives n =
     (if n = 50 then Some (0, prim_value 0)
      else if n = 51 then Some (1, prim_value 1)
      else if n = 52 then Some (2, prim_value 2)
      else if n = 53 then Some (3, prim_value 3)
      else if n = 54 then Some (1, prim_value_with_arguments)
      else if n = 60 then Some (1, prim_ensure_like Ensure)
      else if n = 61 then Some (1, prim_ensure_like IfCurtailed)
      else None)"

definition MAX_PRIMITIVE_ARGS :: nat where "MAX_PRIMITIVE_ARGS = 7"
definition PRIM_ID_FFI :: int where "PRIM_ID_FFI = -1"

fun get_range :: "imach \<Rightarrow> nat list \<Rightarrow> oop list ires" where
  "get_range im [] = Inr []"
| "get_range im (i # is) = rbind (get im i) (\<lambda>v. rbind (get_range im is) (\<lambda>vs. Inr (v # vs)))"

definition try_primitive :: "prims \<Rightarrow> oop \<Rightarrow> nat \<Rightarrow> imach \<Rightarrow> (imach \<times> prim_outcome) ires option" where
  "try_primitive P m argc im =
     cbind (Some (lift_res (mt_primitive (im_objs im) m))) (\<lambda>prim_id.
       if prim_id = 0 then returns (im, Fallthrough)
       else if prim_id = PRIM_ID_FFI then pr_ffi P m argc im
       else
         (case pr_by_id P (nat (prim_id mod 2 ^ 16)) of
            None \<Rightarrow> returns (im, Fallthrough)
          | Some (desc_argc, f) \<Rightarrow>
              if desc_argc \<noteq> argc then returns (im, Fallthrough)
              else
                cbind (Some (lift_res (usub (ps_sp (im_stack im)) (argc + 1)))) (\<lambda>base.
                cbind (Some (guard_res (argc \<le> MAX_PRIMITIVE_ARGS) (Panic Index_out_of_bounds)
                        (get_range im [base..<base + argc + 1]))) (\<lambda>args.
                cbind (f args (im\<lparr>im_prim_arg_base := base\<rparr>)) (\<lambda>(im, r).
                  case r of
                    PR_Ok v \<Rightarrow> returns (set_sp base im, Result v)
                  | PR_Fail \<Rightarrow>
                      cbind (Some (lift_res (mt_prim_fails (im_objs im) m))) (\<lambda>fails.
                        Some (i_assert fails (Inr (im, Fallthrough))))
                  | PR_Activated \<Rightarrow> returns (im, Activated))))))"

text \<open>\<open>activate_method\<close> with compilation off; its answer is always \<open>SendOutcome::Normal\<close>.\<close>

definition activate_body :: "oop \<Rightarrow> nat \<Rightarrow> imach \<Rightarrow> imach ires" where
  "activate_body m argc im =
     rbind (push_frame m argc (usize_as_i64 (ps_fp (im_stack im))) (im_bci im) im) (\<lambda>im.
     rbind (maybe_alloc_context m (ps_fp (im_stack im)) (im_nil im) im) (\<lambda>im.
       Inr (set_regs m 0 im)))"

definition activate_method :: "prims \<Rightarrow> oop \<Rightarrow> nat \<Rightarrow> imach \<Rightarrow> imach ires option" where
  "activate_method P m argc im =
     cbind (Some (lift_res (bump_invocation (im_objs im) m))) (\<lambda>(os, _).
     cbind (try_primitive P m argc (im\<lparr>im_objs := os\<rparr>)) (\<lambda>(im, out).
       case out of
         Result v \<Rightarrow> Some (push v im)
       | Activated \<Rightarrow> returns im
       | Fallthrough \<Rightarrow> Some (activate_body m argc im)))"

definition im_lookup :: "oop \<Rightarrow> oop \<Rightarrow> imach \<Rightarrow> (imach \<times> oop option) ires option" where
  "im_lookup k sel im =
     (case lookup (im_lk im) k sel of
        None \<Rightarrow> None
      | Some (Inl e) \<Rightarrow> Some (Inl (Panic e))
      | Some (Inr (lk, r)) \<Rightarrow> returns (im\<lparr>im_lk := lk\<rparr>, r))"

end
