(* ===== verification/Unwind.thy ===== *)
theory Unwind
  imports Activation
begin

unbundle bit_operations_syntax

text \<open>
  Returns, non-local returns and unwinding through \<open>ensure:\<close> and \<open>ifCurtailed:\<close>
  (\<open>src/src/interpreter/unwind.rs\<close>).

  \<open>do_return\<close> and \<open>continue_unwind\<close> call each other. The helpers between them take the continuing
  \<open>do_return\<close> as an argument, and \<open>do_return\<close> itself is the fixed point. \<open>None\<close> is divergence: the
  walks follow frame links, and a return may resume another return.
\<close>

section \<open>Markers\<close>

datatype marker_class = MC_None | MC_Handler oop | MC_Token oop

definition marker_class :: "imach \<Rightarrow> nat \<Rightarrow> marker_class ires" where
  "marker_class im fp =
     rbind (lift_res (fr_marker (im_stack im) fp)) (\<lambda>m.
       if m = im_nil im then Inr MC_None
       else case obj_try_from Closure (im_objs im) m of
         Some cl \<Rightarrow> Inr (MC_Handler cl)
       | None \<Rightarrow>
           (case obj_try_from IndexableOops (im_objs im) m of
              Some arr \<Rightarrow> Inr (MC_Token arr)
            | None \<Rightarrow> Inl (Panic Explicit_panic)))"

definition clear_marker :: "nat \<Rightarrow> imach \<Rightarrow> imach ires" where
  "clear_marker fp im = on_stack (fr_clear_marker fp (im_nil im)) im"

section \<open>Walking the frames\<close>

definition home_is_live :: "imach \<Rightarrow> home_ref \<Rightarrow> bool ires" where
  "home_is_live im home =
     (if hr_proc home \<noteq> 0 then Inr False
      else if ps_sp (im_stack im) \<le> hr_fp home + FRAME_MARKER then Inr False
      else rbind (get im (hr_fp home + FRAME_SERIAL)) (\<lambda>w.
        case smi_try_from w of
          Some s \<Rightarrow> Inr ((word_of_int (smi_value s AND FRAME_SERIAL_MASK) :: u32) = hr_serial home)
        | None \<Rightarrow> Inr False))"

datatype scan_result = Marked nat oop | Reached_home | Crossed_boundary nat

partial_function (option) innermost_marked_frame :: "imach \<Rightarrow> nat \<Rightarrow> nat \<Rightarrow> scan_result ires option" where
  "innermost_marked_frame im fp home_fp =
     (if fp = home_fp then returns Reached_home
      else cbind (Some (marker_class im fp)) (\<lambda>mc.
        case mc of
          MC_Handler h \<Rightarrow> returns (Marked fp h)
        | _ \<Rightarrow>
            cbind (Some (lift_res (fr_saved_fp (im_stack im) fp))) (\<lambda>saved_fp.
              if saved_fp = ENTRY_FRAME_SENTINEL then returns (Crossed_boundary fp)
              else innermost_marked_frame im (i64_as_usize saved_fp) home_fp)))"

partial_function (option) walk_to_frame :: "pstack \<Rightarrow> nat \<Rightarrow> nat \<Rightarrow> unit ires option" where
  "walk_to_frame st fp target_fp =
     (if fp = target_fp then returns ()
      else cbind (Some (lift_res (fr_saved_fp st fp))) (\<lambda>saved_fp.
        if saved_fp = ENTRY_FRAME_SENTINEL then Some (Inl (Panic Assert_failed))
        else walk_to_frame st (i64_as_usize saved_fp) target_fp))"

definition pop_frames_above :: "nat \<Rightarrow> imach \<Rightarrow> imach ires option" where
  "pop_frames_above target_fp im =
     cbind (walk_to_frame (im_stack im) (ps_fp (im_stack im)) target_fp) (\<lambda>_.
       let im = set_stack im (activate_frame target_fp (im_stack im)) in
       cbind (Some (lift_res (fr_ntemps (im_objs im) (im_stack im) target_fp))) (\<lambda>ntemps.
         returns (set_sp (target_fp + FRAME_TEMPS_BASE + ntemps) im)))"

definition alloc_unwind_token :: "home_ref \<Rightarrow> oop \<Rightarrow> imach \<Rightarrow> (imach \<times> oop) ires" where
  "alloc_unwind_token home value im =
     rbind (lift_res (pack_home_ref home)) (\<lambda>home_smi.
     rbind (push value im) (\<lambda>im.
     rbind (alloc_indexable_oops 2 im) (\<lambda>(im, token).
       rbind (pop im) (\<lambda>(im, value).
       rbind (on_objs (\<lambda>os. set_tail_at os token 0 home_smi) im) (\<lambda>im.
       rbind (on_objs (\<lambda>os. set_tail_at os token 1 value) im) (\<lambda>im. Inr (im, token)))))))"

section \<open>A dead home\<close>

definition cannot_return :: "prims \<Rightarrow> oop \<Rightarrow> oop \<Rightarrow> imach \<Rightarrow> imach ires option" where
  "cannot_return P closure value im =
     cbind (Some (push closure im)) (\<lambda>im.
     cbind (Some (push value im)) (\<lambda>im.
     cbind (Some (lift_res (klass_of (im_lk im) closure))) (\<lambda>k.
     cbind (im_lookup k (im_sel_cannot_return im) im) (\<lambda>(im, r).
       case r of
         Some m \<Rightarrow> activate_method P m 1 (im\<lparr>im_bci := BCI_RESUME_CANNOT_RETURN\<rparr>)
       | None \<Rightarrow> Some (Inl (Dnu_fallback im (im_sel_cannot_return im) k))))))"

definition cannot_return_current_closure :: "prims \<Rightarrow> oop \<Rightarrow> imach \<Rightarrow> imach ires option" where
  "cannot_return_current_closure P value im =
     cbind (Some (lift_res (receiver_slot (im_objs im) (im_stack im) (ps_fp (im_stack im))))) (\<lambda>i.
     cbind (Some (get im i)) (\<lambda>w.
     cbind (Some (lift_res (expect (obj_try_from Closure (im_objs im) w)))) (\<lambda>cl.
       cannot_return P cl value im)))"

section \<open>Returning and unwinding\<close>

datatype unwind_step = Ran_handler | Returned_from_home "oop option" | Cannot_return | Escaped

type_synonym returner = "oop \<Rightarrow> imach \<Rightarrow> (imach \<times> oop option) ires option"

definition park_nlr :: "home_ref \<Rightarrow> oop \<Rightarrow> oop option \<Rightarrow> imach \<Rightarrow> (imach \<times> unwind_step) ires" where
  "park_nlr home value closure im =
     i_assert (im_nlr im = None)
       (Inr (im\<lparr>im_nlr := Some \<lparr>nlr_home = home, nlr_value = value, nlr_closure = closure\<rparr>\<rparr>, Escaped))"

definition run_handler :: "nat \<Rightarrow> oop \<Rightarrow> home_ref \<Rightarrow> oop \<Rightarrow> imach \<Rightarrow> imach ires option" where
  "run_handler mfp handler home value im =
     cbind (pop_frames_above mfp im) (\<lambda>im.
     cbind (Some (alloc_unwind_token home value im)) (\<lambda>(im, token).
     cbind (Some (on_stack (fr_set_marker mfp token Ensure) im)) (\<lambda>im.
     cbind (Some (push handler im)) (\<lambda>im.
     cbind (Some (activate_block_interp handler 0 (im\<lparr>im_bci := BCI_RESUME_UNWIND\<rparr>))) (\<lambda>(im, r).
       Some (i_assert (r = PR_Activated) (Inr im)))))))"

definition escape_past :: "nat \<Rightarrow> home_ref \<Rightarrow> oop \<Rightarrow> oop option \<Rightarrow> imach \<Rightarrow> (imach \<times> unwind_step) ires" where
  "escape_past entry_fp home value closure im =
     rbind (lift_res (receiver_slot (im_objs im) (im_stack im) entry_fp)) (\<lambda>base.
       let im = set_sp base im in
       park_nlr home value closure (set_stack im (deactivate (im_stack im))))"

definition continue_unwind_with ::
  "returner \<Rightarrow> prims \<Rightarrow> home_ref \<Rightarrow> oop \<Rightarrow> oop option \<Rightarrow> imach \<Rightarrow> (imach \<times> unwind_step) ires option" where
  "continue_unwind_with ret P home value closure im =
     (if ps_fp (im_stack im) = i64_as_usize ENTRY_FRAME_SENTINEL then Some (park_nlr home value closure im)
      else
        cbind (Some (home_is_live im home)) (\<lambda>live.
          if \<not> live then
            cbind (Some (i_assert (hr_proc home \<noteq> 1) (Inr ()))) (\<lambda>_.
            cbind (case Option.bind closure (obj_try_from Closure (im_objs im)) of
                     Some cl \<Rightarrow> cannot_return P cl value im
                   | None \<Rightarrow> cannot_return_current_closure P value im) (\<lambda>im. returns (im, Cannot_return)))
          else
            cbind (innermost_marked_frame im (ps_fp (im_stack im)) (hr_fp home)) (\<lambda>scan.
              case scan of
                Reached_home \<Rightarrow>
                  cbind (pop_frames_above (hr_fp home) im) (\<lambda>im.
                  cbind (ret value im) (\<lambda>(im, r). returns (im, Returned_from_home r)))
              | Crossed_boundary entry_fp \<Rightarrow> Some (escape_past entry_fp home value closure im)
              | Marked mfp handler \<Rightarrow>
                  cbind (run_handler mfp handler home value im) (\<lambda>im. returns (im, Ran_handler)))))"

definition resume_ensure_ret_with :: "returner \<Rightarrow> imach \<Rightarrow> (imach \<times> oop option) ires option" where
  "resume_ensure_ret_with ret im =
     cbind (Some (lift_res (usub (ps_sp (im_stack im)) 1))) (\<lambda>sp.
     cbind (Some (pop (set_sp sp im))) (\<lambda>(im, result). ret result im))"

definition resume_unwind_with :: "returner \<Rightarrow> prims \<Rightarrow> imach \<Rightarrow> (imach \<times> oop option) ires option" where
  "resume_unwind_with ret P im =
     cbind (Some (lift_res (usub (ps_sp (im_stack im)) 1))) (\<lambda>sp.
     let im = set_sp sp im; fp = ps_fp (im_stack im) in
     cbind (Some (marker_class im fp)) (\<lambda>mc.
       case mc of
         MC_Token token \<Rightarrow>
           cbind (Some (clear_marker fp im)) (\<lambda>im.
           cbind (Some (lift_res (rbind (tail_at (im_objs im) token 0) (\<lambda>w. expect (smi_try_from w))))) (\<lambda>h.
           cbind (Some (lift_res (tail_at (im_objs im) token 1))) (\<lambda>value.
           cbind (continue_unwind_with ret P (unpack_home_ref h) value None im) (\<lambda>(im, step).
             case step of
               Returned_from_home r \<Rightarrow> returns (im, r)
             | Ran_handler \<Rightarrow> returns (im, None)
             | Cannot_return \<Rightarrow> returns (im, None)
             | Escaped \<Rightarrow> returns (im, Some NLR_SENTINEL)))))
       | _ \<Rightarrow> Some (Inl (Panic Explicit_panic))))"

definition pop_and_deliver_with :: "returner \<Rightarrow> prims \<Rightarrow> oop \<Rightarrow> imach \<Rightarrow> (imach \<times> oop option) ires option" where
  "pop_and_deliver_with ret P result im =
     (let fp = ps_fp (im_stack im) in
      cbind (Some (lift_res (receiver_slot (im_objs im) (im_stack im) fp))) (\<lambda>base.
      cbind (Some (lift_res (fr_saved_fp (im_stack im) fp))) (\<lambda>saved_fp.
      cbind (Some (lift_res (fr_saved_bci (im_stack im) fp))) (\<lambda>saved_bci.
      cbind (Some (on_stack (st_set base result) im)) (\<lambda>im.
        if saved_fp = ENTRY_FRAME_SENTINEL then
          let im = set_sp base im in returns (set_stack im (deactivate (im_stack im)), Some result)
        else
          let im = set_sp (base + 1) im;
              im = set_stack im (activate_frame (i64_as_usize saved_fp) (im_stack im)) in
          if saved_bci = BCI_RESUME_ENSURE_RET then resume_ensure_ret_with ret im
          else if saved_bci = BCI_RESUME_UNWIND then resume_unwind_with ret P im
          else if saved_bci = BCI_RESUME_CANNOT_RETURN then Some (Inl (Exit 1))
          else
            cbind (Some (lift_res (fr_method (im_objs im) (im_stack im) (ps_fp (im_stack im))))) (\<lambda>m.
              returns (set_regs m saved_bci im, None)))))))"

definition intercept_ensure_return :: "nat \<Rightarrow> oop \<Rightarrow> oop \<Rightarrow> imach \<Rightarrow> (imach \<times> oop option) ires" where
  "intercept_ensure_return fp handler result im =
     rbind (clear_marker fp im) (\<lambda>im.
     rbind (push result im) (\<lambda>im.
     rbind (push handler im) (\<lambda>im.
     rbind (activate_block_interp handler 0 (im\<lparr>im_bci := BCI_RESUME_ENSURE_RET\<rparr>)) (\<lambda>(im, r).
       i_assert (r = PR_Activated) (Inr (im, None))))))"

definition do_return_with :: "returner \<Rightarrow> prims \<Rightarrow> oop \<Rightarrow> imach \<Rightarrow> (imach \<times> oop option) ires option" where
  "do_return_with ret P result im =
     (let fp = ps_fp (im_stack im) in
      cbind (Some (marker_class im fp)) (\<lambda>mc.
        case mc of
          MC_None \<Rightarrow> pop_and_deliver_with ret P result im
        | MC_Token _ \<Rightarrow> Some (Inl (Panic Explicit_panic))
        | MC_Handler h \<Rightarrow>
            cbind (Some (lift_res (fr_marker_kind (im_stack im) fp))) (\<lambda>kind.
              case kind of
                IfCurtailed \<Rightarrow> cbind (Some (clear_marker fp im)) (pop_and_deliver_with ret P result)
              | Ensure \<Rightarrow> Some (intercept_ensure_return fp h result im))))"



lemma case_scan_mono [partial_function_mono]:
  assumes "\<And>fp h. mono_option (\<lambda>f. A f fp h)" and "mono_option B" and "\<And>fp. mono_option (\<lambda>f. C f fp)"
  shows "mono_option (\<lambda>f. case s of Marked fp h \<Rightarrow> A f fp h | Reached_home \<Rightarrow> B f | Crossed_boundary fp \<Rightarrow> C f fp)"
  using assms by (cases s) simp_all

lemma case_marker_mono [partial_function_mono]:
  assumes "mono_option A" and "\<And>h. mono_option (\<lambda>f. B f h)" and "\<And>t. mono_option (\<lambda>f. C f t)"
  shows "mono_option (\<lambda>f. case c of MC_None \<Rightarrow> A f | MC_Handler h \<Rightarrow> B f h | MC_Token t \<Rightarrow> C f t)"
  using assms by (cases c) simp_all

lemma case_kind_mono [partial_function_mono]:
  assumes "mono_option A" and "mono_option B"
  shows "mono_option (\<lambda>f. case k of Ensure \<Rightarrow> A f | IfCurtailed \<Rightarrow> B f)"
  using assms by (cases k) simp_all

lemma case_step_mono [partial_function_mono]:
  assumes "mono_option A" and "\<And>r. mono_option (\<lambda>f. B f r)" and "mono_option C" and "mono_option D"
  shows "mono_option (\<lambda>f. case s of Ran_handler \<Rightarrow> A f | Returned_from_home r \<Rightarrow> B f r | Cannot_return \<Rightarrow> C f | Escaped \<Rightarrow> D f)"
  using assms by (cases s) simp_all

lemma case_pair_mono [partial_function_mono]:
  assumes "\<And>a b. mono_option (\<lambda>f. F f a b)"
  shows "mono_option (\<lambda>f. case p of (a, b) \<Rightarrow> F f a b)"
  using assms by (cases p) simp

lemma continue_unwind_mono [partial_function_mono]:
  "mono_option (\<lambda>f. continue_unwind_with (\<lambda>r m. f ((P, r), m)) P home value closure im)"
  unfolding continue_unwind_with_def by (intro partial_function_mono)

lemma resume_ensure_mono [partial_function_mono]: "mono_option (\<lambda>f. resume_ensure_ret_with (\<lambda>r m. f ((P, r), m)) im)"
  unfolding resume_ensure_ret_with_def by (intro partial_function_mono)

lemma resume_unwind_mono [partial_function_mono]: "mono_option (\<lambda>f. resume_unwind_with (\<lambda>r m. f ((P, r), m)) P im)"
  unfolding resume_unwind_with_def Let_def by (intro partial_function_mono)

lemma pop_and_deliver_mono [partial_function_mono]:
  "mono_option (\<lambda>f. pop_and_deliver_with (\<lambda>r m. f ((P, r), m)) P result im)"
  unfolding pop_and_deliver_with_def Let_def by (intro partial_function_mono)

lemma do_return_mono [partial_function_mono]:
  "mono_option (\<lambda>f. do_return_with (\<lambda>r m. f ((P, r), m)) P result im)"
  unfolding do_return_with_def Let_def by (intro partial_function_mono)

partial_function (option) do_return :: "prims \<Rightarrow> oop \<Rightarrow> imach \<Rightarrow> (imach \<times> oop option) ires option" where
  "do_return P result im = do_return_with (do_return P) P result im"

definition continue_unwind :: "prims \<Rightarrow> home_ref \<Rightarrow> oop \<Rightarrow> oop option \<Rightarrow> imach \<Rightarrow> (imach \<times> unwind_step) ires option" where
  "continue_unwind P = continue_unwind_with (do_return P) P"

definition pop_and_deliver :: "prims \<Rightarrow> oop \<Rightarrow> imach \<Rightarrow> (imach \<times> oop option) ires option" where
  "pop_and_deliver P = pop_and_deliver_with (do_return P) P"

definition resume_ensure_ret :: "prims \<Rightarrow> imach \<Rightarrow> (imach \<times> oop option) ires option" where
  "resume_ensure_ret P = resume_ensure_ret_with (do_return P)"

definition resume_unwind :: "prims \<Rightarrow> imach \<Rightarrow> (imach \<times> oop option) ires option" where
  "resume_unwind P = resume_unwind_with (do_return P) P"

end
