(* ===== verification/FrameInv.thy ===== *)
theory FrameInv
  imports Unwind
begin

unbundle bit_operations_syntax

text \<open>
  The frame invariant of the interpreter: the stack below \<open>sp\<close> is a chain of frames of the layout
  that \<open>push_frame\<close> builds, and the facts that let an operation be followed through it.

  \<open>runs r Q\<close> says that a computation answers, and answers with \<open>Q\<close>, unless a resource ran out (the
  process stack, the heap or the frame serials); a panic does not satisfy it.
\<close>

section \<open>Computations that answer unless a resource runs out\<close>

definition exhausted :: "ifail \<Rightarrow> bool" where
  "exhausted e \<longleftrightarrow> e = Exit 70 \<or> e = Serials_exhausted"

definition runs :: "'a ires \<Rightarrow> ('a \<Rightarrow> bool) \<Rightarrow> bool" where
  "runs r Q \<longleftrightarrow> (case r of Inl e \<Rightarrow> exhausted e | Inr a \<Rightarrow> Q a)"

definition cruns :: "'a ires option \<Rightarrow> ('a \<Rightarrow> bool) \<Rightarrow> bool" where
  "cruns c Q \<longleftrightarrow> (case c of None \<Rightarrow> False | Some r \<Rightarrow> runs r Q)"

named_theorems run_simps \<open>what it takes for a computation to run\<close>

lemma runs_simps [simp, run_simps]:
  "runs (Inr a) Q \<longleftrightarrow> Q a"
  "runs (Inl e) Q \<longleftrightarrow> exhausted e"
  "cruns (Some r) Q \<longleftrightarrow> runs r Q"
  "\<not> cruns None Q"
  by (simp_all add: runs_def cruns_def)

lemma exhausted_simps [simp, run_simps]:
  "exhausted (Exit n) \<longleftrightarrow> n = 70" "exhausted Serials_exhausted" "\<not> exhausted (Panic e)"
  "\<not> exhausted (Dnu_fallback im s k)" "\<not> exhausted (Guest_fatal im)"
  by (simp_all add: exhausted_def)

lemma runs_rbind [simp, run_simps]: "runs (rbind r f) Q \<longleftrightarrow> runs r (\<lambda>a. runs (f a) Q)"
  by (cases r) simp_all

lemma cruns_cbind [simp, run_simps]: "cruns (cbind c f) Q \<longleftrightarrow> cruns c (\<lambda>a. cruns (f a) Q)"
  by (cases c rule: option.exhaust) (auto simp: cbind_def runs_def split: sum.splits)

lemma runs_lift [simp, run_simps]: "runs (lift_res r) Q \<longleftrightarrow> (\<exists>a. r = Inr a \<and> Q a)"
  by (cases r) (simp_all add: lift_res_def)

lemma runs_guard [run_simps]:
  "runs (guard_res c e r) Q \<longleftrightarrow> (if c then runs r Q else exhausted e)"
  by (simp add: guard_res_def)

lemma runs_mono: "runs r P \<Longrightarrow> (\<And>a. P a \<Longrightarrow> Q a) \<Longrightarrow> runs r Q"
  by (auto simp: runs_def split: sum.splits)

lemma cruns_mono: "cruns c P \<Longrightarrow> (\<And>a. P a \<Longrightarrow> Q a) \<Longrightarrow> cruns c Q"
  by (auto simp: cruns_def split: option.splits intro: runs_mono)

lemma runs_conj: "runs r P \<Longrightarrow> runs r Q \<Longrightarrow> runs r (\<lambda>a. P a \<and> Q a)"
  by (auto simp: runs_def split: sum.splits)

section \<open>Writing a run of slots\<close>

fun pokes :: "nat \<Rightarrow> oop list \<Rightarrow> oop list \<Rightarrow> oop list" where
  "pokes i [] sl = sl"
| "pokes i (x # xs) sl = pokes (Suc i) xs (sl[i := x])"

lemma length_pokes [simp]: "length (pokes i xs sl) = length sl"
  by (induction xs arbitrary: i sl) simp_all

lemma nth_pokes: "i + length xs \<le> length sl \<Longrightarrow> pokes i xs sl ! j =
    (if j < i then sl ! j else if j < i + length xs then xs ! (j - i) else sl ! j)"
proof (induction xs arbitrary: i sl)
  case (Cons x xs)
  then show ?case by (auto simp: nth_list_update nth_Cons')
qed simp

lemma pokes_append: "pokes i (xs @ ys) sl = pokes (i + length xs) ys (pokes i xs sl)"
  by (induction xs arbitrary: i sl) simp_all

lemma pokes_snoc: "(pokes i xs sl)[i + length xs := y] = pokes i (xs @ [y]) sl"
  by (simp add: pokes_append)

abbreviation im_slots :: "imach \<Rightarrow> oop list" where "im_slots im \<equiv> ps_slots (im_stack im)"
abbreviation im_sp :: "imach \<Rightarrow> nat" where "im_sp im \<equiv> ps_sp (im_stack im)"
abbreviation im_fp :: "imach \<Rightarrow> nat" where "im_fp im \<equiv> ps_fp (im_stack im)"

definition pushed :: "oop list \<Rightarrow> imach \<Rightarrow> imach" where
  "pushed xs im =
     im\<lparr>im_stack := (im_stack im)\<lparr>ps_slots := pokes (im_sp im) xs (im_slots im), ps_sp := im_sp im + length xs\<rparr>\<rparr>"

lemma pushed_simps [simp]:
  "im_slots (pushed xs im) = pokes (im_sp im) xs (im_slots im)"
  "im_sp (pushed xs im) = im_sp im + length xs"
  "im_fp (pushed xs im) = im_fp im" "ps_has_frame (im_stack (pushed xs im)) = ps_has_frame (im_stack im)"
  "im_objs (pushed xs im) = im_objs im" "im_lk (pushed xs im) = im_lk im" "im_alloc (pushed xs im) = im_alloc im"
  "im_next_frame_serial (pushed xs im) = im_next_frame_serial im"
  "im_method (pushed xs im) = im_method im" "im_bci (pushed xs im) = im_bci im"
  "im_nlr (pushed xs im) = im_nlr im" "pushed [] im = im"
  by (simp_all add: pushed_def)

lemma pushed_pushed [simp]: "pushed ys (pushed xs im) = pushed (xs @ ys) im"
  by (simp add: pushed_def pokes_append)

lemma runs_push [run_simps]: "runs (push v im) Q \<longleftrightarrow> (im_sp im < length (im_slots im) \<longrightarrow> Q (pushed [v] im))"
  by (auto simp: push_def try_push_def pushed_def set_stack_def)

lemma runs_push_nils [run_simps]:
  "runs (push_nils n nil im) Q \<longleftrightarrow>
     (n = 0 \<or> im_sp im + n \<le> length (im_slots im) \<longrightarrow> Q (pushed (replicate n nil) im))"
proof (induction n arbitrary: im)
  case (Suc n)
  show ?case by (auto simp: runs_push Suc)
qed simp

lemma runs_alloc_frame_serial [run_simps]:
  "runs (alloc_frame_serial im) Q \<longleftrightarrow>
     (im_next_frame_serial im + 1 < 2 ^ 32 \<longrightarrow>
       Q (im\<lparr>im_next_frame_serial := im_next_frame_serial im + 1\<rparr>, im_next_frame_serial im))"
  by (simp add: alloc_frame_serial_def Let_def guard_res_def)

section \<open>Heap objects that stay what they are\<close>

text \<open>Existing objects keep their format; methods keep everything but their counters, closures keep
  everything.\<close>

definition same_method :: "hobj \<Rightarrow> hobj \<Rightarrow> bool" where
  "same_method ob ob' \<longleftrightarrow>
     length (ho_body ob') = length (ho_body ob) \<and> ho_bytes ob' = ho_bytes ob
     \<and> (\<forall>i < length (ho_body ob). i \<noteq> METHOD_COUNTERS_INDEX \<longrightarrow> ho_body ob' ! i = ho_body ob ! i)"

definition keeps_obj :: "hobj \<Rightarrow> hobj \<Rightarrow> bool" where
  "keeps_obj ob ob' \<longleftrightarrow> ho_format ob' = ho_format ob \<and> (ho_format ob = Method \<longrightarrow> same_method ob ob')
     \<and> (ho_format ob = Closure \<longrightarrow> ho_body ob' = ho_body ob \<and> ho_tail ob' = ho_tail ob)"

definition objs_ext :: "objs \<Rightarrow> objs \<Rightarrow> bool" where
  "objs_ext os os' \<longleftrightarrow> (\<forall>w ob. os w = Some ob \<longrightarrow> (\<exists>ob'. os' w = Some ob' \<and> keeps_obj ob ob'))"

lemma keeps_obj_refl [simp]: "keeps_obj ob ob"
  by (simp add: keeps_obj_def same_method_def)

lemma keeps_obj_trans: "keeps_obj a b \<Longrightarrow> keeps_obj b c \<Longrightarrow> keeps_obj a c"
  by (simp add: keeps_obj_def same_method_def)

lemma objs_extD:
  assumes "objs_ext os os'" and "os w = Some ob"
  obtains ob' where "os' w = Some ob'" "ho_format ob' = ho_format ob"
    "ho_format ob = Method \<Longrightarrow> same_method ob ob'"
    "ho_format ob = Closure \<Longrightarrow> ho_body ob' = ho_body ob \<and> ho_tail ob' = ho_tail ob"
  using assms unfolding objs_ext_def keeps_obj_def by blast

lemma objs_ext_refl [simp, intro!]: "objs_ext os os"
  by (simp add: objs_ext_def)

lemma objs_ext_trans [trans]: "objs_ext os1 os2 \<Longrightarrow> objs_ext os2 os3 \<Longrightarrow> objs_ext os1 os3"
  unfolding objs_ext_def by (meson keeps_obj_trans)

lemma objs_ext_upd: "(\<And>ob. os a = Some ob \<Longrightarrow> keeps_obj ob ob') \<Longrightarrow> objs_ext os (os(a \<mapsto> ob'))"
  by (auto simp: objs_ext_def)

lemma objs_ext_new: "os a = None \<Longrightarrow> objs_ext os (os(a \<mapsto> ob))"
  by (rule objs_ext_upd) simp

lemma try_from_ext: "objs_ext os os' \<Longrightarrow> obj_try_from f os w = Some x \<Longrightarrow> obj_try_from f os' w = Some x"
  by (auto simp: obj_try_from_def split: option.splits if_splits elim: objs_extD)

lemma obj_try_from_Some: "obj_try_from f os w = Some x \<longleftrightarrow> x = w \<and> (\<exists>ob. os w = Some ob \<and> ho_format ob = f)"
  by (auto simp: obj_try_from_def split: option.splits)

lemma method_body_ext:
  assumes "objs_ext os os'" and "is_method os m" and "body_at os m i = Inr v" and "i \<noteq> METHOD_COUNTERS_INDEX"
  shows "body_at os' m i = Inr v"
  using assms by (auto simp: body_at_def obj_try_from_Some same_method_def guard_res_def split: if_splits elim!: objs_extD)

lemma flags_value_ext:
  assumes "objs_ext os os'" and "is_method os m" and "flags_value os m = Inr v"
  shows "flags_value os' m = Inr v"
  using assms(3) method_body_ext [OF assms(1,2), of METHOD_FLAGS_INDEX]
  by (auto simp: flags_value_def smi_body_def res_simps METHOD_FLAGS_INDEX_def METHOD_COUNTERS_INDEX_def)

lemma closure_ext:
  assumes "objs_ext os os'" and "is_closure os c"
  shows "body_at os' c i = body_at os c i" "tail_at os' c i = tail_at os c i" "tail_len os' c = tail_len os c"
  using assms by (auto simp: body_at_def tail_at_def tail_len_def obj_try_from_Some elim!: objs_extD)

section \<open>Methods and closures the interpreter can activate\<close>

definition method_ok :: "objs \<Rightarrow> oop \<Rightarrow> bool" where
  "method_ok os m \<longleftrightarrow> is_method os m \<and> (\<exists>v. flags_value os m = Inr v)"

definition m_flags :: "objs \<Rightarrow> oop \<Rightarrow> int" where
  "m_flags os m = (case flags_value os m of Inr v \<Rightarrow> v | Inl _ \<Rightarrow> 0)"

definition m_argc :: "objs \<Rightarrow> oop \<Rightarrow> nat" where "m_argc os m = nat (m_flags os m AND METHOD_FLAGS_ARGC_MASK)"
definition m_ntemps :: "objs \<Rightarrow> oop \<Rightarrow> nat" where
  "m_ntemps os m = nat (drop_bit 4 (m_flags os m AND METHOD_FLAGS_NTEMPS_MASK))"
definition m_nctx :: "objs \<Rightarrow> oop \<Rightarrow> nat" where
  "m_nctx os m = nat (drop_bit 16 (m_flags os m AND METHOD_FLAGS_NCTX_MASK))"
definition m_is_block :: "objs \<Rightarrow> oop \<Rightarrow> bool" where "m_is_block os m \<longleftrightarrow> m_flags os m AND METHOD_FLAGS_IS_BLOCK_MASK \<noteq> 0"
definition m_has_ctx :: "objs \<Rightarrow> oop \<Rightarrow> bool" where "m_has_ctx os m \<longleftrightarrow> m_flags os m AND METHOD_FLAGS_HAS_CTX_MASK \<noteq> 0"
definition m_captures :: "objs \<Rightarrow> oop \<Rightarrow> bool" where "m_captures os m \<longleftrightarrow> m_flags os m AND METHOD_FLAGS_CAPTURES_CTX_MASK \<noteq> 0"

lemma method_ok_simps:
  assumes "method_ok os m"
  shows "mt_argc os m = Inr (m_argc os m)" "mt_ntemps os m = Inr (m_ntemps os m)" "mt_nctx os m = Inr (m_nctx os m)"
    "mt_is_block os m = Inr (m_is_block os m)" "mt_has_ctx os m = Inr (m_has_ctx os m)"
    "mt_captures_ctx os m = Inr (m_captures os m)" "obj_try_from Method os m = Some m"
  using assms
  by (auto simp: method_ok_def mt_argc_def mt_ntemps_def mt_nctx_def mt_is_block_def mt_has_ctx_def mt_captures_ctx_def
      flag_def m_argc_def m_ntemps_def m_nctx_def m_is_block_def m_has_ctx_def m_captures_def m_flags_def obj_try_from_Some)

lemma method_ok_ext:
  assumes "objs_ext os os'" and "method_ok os m"
  shows "method_ok os' m" "m_argc os' m = m_argc os m" "m_ntemps os' m = m_ntemps os m" "m_is_block os' m = m_is_block os m"
    "m_has_ctx os' m = m_has_ctx os m" "m_captures os' m = m_captures os m" "m_nctx os' m = m_nctx os m"
proof -
  from assms obtain v where v: "is_method os m" "flags_value os m = Inr v" by (auto simp: method_ok_def)
  with assms have "flags_value os' m = Inr v" "is_method os' m"
    by (auto intro: flags_value_ext dest: try_from_ext)
  with v show "method_ok os' m" "m_argc os' m = m_argc os m" "m_ntemps os' m = m_ntemps os m" "m_is_block os' m = m_is_block os m"
    "m_has_ctx os' m = m_has_ctx os m" "m_captures os' m = m_captures os m" "m_nctx os' m = m_nctx os m"
    by (auto simp: method_ok_def m_argc_def m_ntemps_def m_is_block_def m_flags_def m_has_ctx_def m_captures_def m_nctx_def)
qed

definition c_method :: "objs \<Rightarrow> oop \<Rightarrow> oop" where
  "c_method os c = (case cl_method os c of Inr m \<Rightarrow> m | Inl _ \<Rightarrow> 0)"

definition c_base :: "objs \<Rightarrow> oop \<Rightarrow> nat" where
  "c_base os c = 1 + (if m_captures os (c_method os c) then 1 else 0)"

text \<open>A closure whose captures fit its block.\<close>

definition closure_ok :: "objs \<Rightarrow> oop \<Rightarrow> bool" where
  "closure_ok os c \<longleftrightarrow>
     is_closure os c \<and> cl_method os c = Inr (c_method os c) \<and> method_ok os (c_method os c) \<and> m_is_block os (c_method os c)
     \<and> (\<exists>ob. os c = Some ob \<and> c_base os c \<le> length (ho_tail ob)
          \<and> length (ho_tail ob) - c_base os c \<le> m_ntemps os (c_method os c))"

lemma cl_method_ext:
  assumes "objs_ext os os'" and "is_closure os c" and "cl_method os c = Inr m"
  shows "cl_method os' c = Inr m"
  using assms(3) closure_ext(1) [OF assms(1,2)] try_from_ext [OF assms(1)]
  by (auto simp: cl_method_def res_simps)

lemma closure_ok_ext:
  assumes "objs_ext os os'" and "closure_ok os c"
  shows "closure_ok os' c" "c_method os' c = c_method os c"
proof -
  from assms have *: "is_closure os c" "cl_method os c = Inr (c_method os c)" "method_ok os (c_method os c)"
    by (auto simp: closure_ok_def)
  from cl_method_ext [OF assms(1) *(1,2)] have cm: "cl_method os' c = Inr (c_method os c)" .
  then show c: "c_method os' c = c_method os c" by (simp add: c_method_def)
  note ext = method_ok_ext [OF assms(1) *(3)]
  from assms(2) obtain ob where ob: "os c = Some ob" "ho_format ob = Closure" by (auto simp: closure_ok_def obj_try_from_Some)
  with assms(1) obtain ob' where "os' c = Some ob'" "ho_format ob' = Closure" "ho_tail ob' = ho_tail ob"
    by (auto elim!: objs_extD)
  with ob assms(2) cm ext c show "closure_ok os' c"
    by (auto simp: closure_ok_def c_base_def obj_try_from_Some)
qed

section \<open>The chain of frames\<close>

definition marker_ok :: "objs \<Rightarrow> oop \<Rightarrow> oop \<Rightarrow> bool" where
  "marker_ok os nil w \<longleftrightarrow> w = nil \<or> closure_ok os w \<and> m_argc os (c_method os w) = 0 \<or> is_array os w"

definition receiver_ok :: "objs \<Rightarrow> oop \<Rightarrow> oop \<Rightarrow> oop \<Rightarrow> bool" where
  "receiver_ok os m arg r \<longleftrightarrow>
     (if m_is_block os m then is_closure os arg \<and> cl_copied os arg 0 = Inr r else r = arg)"

definition is_frame :: "objs \<Rightarrow> oop \<Rightarrow> oop list \<Rightarrow> nat \<Rightarrow> nat \<Rightarrow> bool" where
  "is_frame os nil sl fp lim \<longleftrightarrow>
     (let m = sl ! fp; a = m_argc os m in
      lim \<le> length sl \<and> a < fp \<and> fp + 7 + m_ntemps os m \<le> lim \<and> method_ok os m
      \<and> is_smi (sl ! (fp + 1)) \<and> is_smi (sl ! (fp + 2)) \<and> is_smi (sl ! (fp + 5))
      \<and> marker_ok os nil (sl ! (fp + 6)) \<and> receiver_ok os m (sl ! (fp - a - 1)) (sl ! (fp + 4)))"

abbreviation frame_base :: "objs \<Rightarrow> oop list \<Rightarrow> nat \<Rightarrow> nat" where
  "frame_base os sl fp \<equiv> fp - m_argc os (sl ! fp) - 1"

fun frames_ok :: "objs \<Rightarrow> oop \<Rightarrow> oop list \<Rightarrow> nat list \<Rightarrow> nat \<Rightarrow> bool" where
  "frames_ok os nil sl [] lim = True"
| "frames_ok os nil sl (fp # fps) lim \<longleftrightarrow>
     is_frame os nil sl fp lim
     \<and> smi_value (sl ! (fp + 1)) = (case fps of [] \<Rightarrow> ENTRY_FRAME_SENTINEL | fp' # _ \<Rightarrow> int fp')
     \<and> frames_ok os nil sl fps (frame_base os sl fp)"

lemma marker_ok_ext: "objs_ext os os' \<Longrightarrow> marker_ok os nil w \<Longrightarrow> marker_ok os' nil w"
  using closure_ok_ext [of os os' w] method_ok_ext(2) [of os os' "c_method os w"]
  by (auto simp: marker_ok_def closure_ok_def dest: try_from_ext)

lemma receiver_ok_ext: "objs_ext os os' \<Longrightarrow> method_ok os m \<Longrightarrow> receiver_ok os m arg r \<Longrightarrow> receiver_ok os' m arg r"
  using closure_ext(2) [of os os' arg 0] method_ok_ext(4) [of os os' m]
  by (auto simp: receiver_ok_def cl_copied_def dest: try_from_ext split: if_splits)

lemma is_frame_cong:
  assumes "is_frame os nil sl fp lim" and ext: "objs_ext os os'" and agree: "\<And>i. i < lim \<Longrightarrow> sl' ! i = sl ! i"
    and len: "lim \<le> length sl'"
  shows "is_frame os' nil sl' fp lim \<and> m_argc os' (sl' ! fp) = m_argc os (sl ! fp)"
proof -
  let ?m = "sl ! fp"
  from assms(1) have f: "fp + 7 + m_ntemps os ?m \<le> lim" "method_ok os ?m" "m_argc os ?m < fp"
    "is_smi (sl ! (fp + 1))" "is_smi (sl ! (fp + 2))" "is_smi (sl ! (fp + 5))" "marker_ok os nil (sl ! (fp + 6))"
    "receiver_ok os ?m (sl ! (fp - m_argc os ?m - 1)) (sl ! (fp + 4))"
    by (simp_all add: is_frame_def Let_def)
  have eq: "sl' ! fp = ?m" "sl' ! (fp + 1) = sl ! (fp + 1)" "sl' ! (fp + 2) = sl ! (fp + 2)" "sl' ! (fp + 4) = sl ! (fp + 4)"
    "sl' ! (fp + 5) = sl ! (fp + 5)" "sl' ! (fp + 6) = sl ! (fp + 6)"
    "sl' ! (fp - m_argc os ?m - 1) = sl ! (fp - m_argc os ?m - 1)"
    by (rule agree, use f(1) in linarith)+
  note ext' = method_ok_ext [OF ext f(2)]
  show ?thesis
    unfolding is_frame_def Let_def eq(1) ext'(2,3)
    using f ext' eq(2-) len marker_ok_ext [OF ext f(7)] receiver_ok_ext [OF ext f(2) f(8)] by simp
qed

lemma frames_ok_cong:
  assumes "frames_ok os nil sl fps lim" and "objs_ext os os'" and "\<And>i. i < lim \<Longrightarrow> sl' ! i = sl ! i"
    and "lim \<le> length sl'"
  shows "frames_ok os' nil sl' fps lim"
  using assms(1,3,4)
proof (induction fps arbitrary: lim)
  case (Cons fp fps)
  from Cons.prems have fr: "is_frame os nil sl fp lim" and link: "frames_ok os nil sl fps (frame_base os sl fp)" by simp_all
  from is_frame_cong [OF fr assms(2)] Cons.prems(2,3)
  have fr': "is_frame os' nil sl' fp lim" "m_argc os' (sl' ! fp) = m_argc os (sl ! fp)" by auto
  from fr have b: "fp + 7 \<le> lim" by (simp add: is_frame_def Let_def)
  then have "frames_ok os' nil sl' fps (frame_base os sl fp)"
    by (intro Cons.IH link Cons.prems(2)) (use Cons.prems(3) in linarith)+
  moreover have "sl' ! (fp + 1) = sl ! (fp + 1)" by (rule Cons.prems(2)) (use b in linarith)
  ultimately show ?case using Cons.prems(1) fr' by simp
qed simp


lemma frames_ok_lim:
  assumes "frames_ok os nil sl (fp # fps) lim" and "fp + 7 + m_ntemps os (sl ! fp) \<le> lim'" and "lim' \<le> length sl"
  shows "frames_ok os nil sl (fp # fps) lim'"
  using assms by (simp add: is_frame_def Let_def)

lemma frames_ok_below: "frames_ok os nil sl fps lim \<Longrightarrow> fp \<in> set fps \<Longrightarrow> fp + 7 \<le> lim \<and> 0 < fp"
proof (induction fps arbitrary: lim)
  case (Cons f fps)
  from Cons.prems have "f + 7 \<le> lim" "0 < f" by (auto simp: is_frame_def Let_def)
  with Cons show ?case by fastforce
qed simp

section \<open>Machine states\<close>

definition machine_ok :: "imach \<Rightarrow> bool" where
  "machine_ok im \<longleftrightarrow>
     (\<forall>os a. im_alloc im os = Some a \<longrightarrow> os a = None \<and> a \<noteq> im_nil im)
     \<and> length (im_slots im) \<le> 2 ^ 22 \<and> im_sp im \<le> length (im_slots im)"

definition stack_ok :: "imach \<Rightarrow> nat list \<Rightarrow> bool" where
  "stack_ok im fps \<longleftrightarrow>
     machine_ok im \<and> ps_has_frame (im_stack im) \<and> fps \<noteq> [] \<and> im_fp im = hd fps
     \<and> frames_ok (im_objs im) (im_nil im) (im_slots im) fps (im_sp im)"

text \<open>The first slot above the fixed part and the temporaries of the active frame.\<close>

definition im_floor :: "imach \<Rightarrow> nat" where
  "im_floor im = im_fp im + 7 + m_ntemps (im_objs im) (im_slots im ! im_fp im)"

text \<open>What an operation may change besides the stack, the heap and the registers: nothing.\<close>

definition same_env :: "imach \<Rightarrow> imach \<Rightarrow> bool" where
  "same_env im im' \<longleftrightarrow>
     (\<exists>h. im_lk im' = (im_lk im)\<lparr>lv_header_klass := h\<rparr>) \<and> im_alloc im' = im_alloc im
     \<and> im_sel_cannot_return im' = im_sel_cannot_return im \<and> im_nlr im' = im_nlr im
     \<and> length (im_slots im') = length (im_slots im)"

lemma same_env_refl [simp, intro!]: "same_env im im"
  by (auto simp: same_env_def intro: exI [of _ "lv_header_klass (im_lk im)"])

lemma same_env_nil: "same_env im im' \<Longrightarrow> im_nil im' = im_nil im"
  by (auto simp: same_env_def)

lemma same_env_trans [trans]: "same_env im1 im2 \<Longrightarrow> same_env im2 im3 \<Longrightarrow> same_env im1 im3"
  by (auto simp: same_env_def)

lemma machine_ok_env:
  assumes "machine_ok im" and "same_env im im'" and "im_sp im' \<le> length (im_slots im)"
  shows "machine_ok im'"
proof -
  from assms(2) have "im_nil im' = im_nil im" "im_alloc im' = im_alloc im" "length (im_slots im') = length (im_slots im)"
    by (auto simp: same_env_def)
  then show ?thesis using assms(1,3) by (simp add: machine_ok_def)
qed

end
