(* ===== verification/FrameSpec.thy ===== *)
theory FrameSpec
  imports FrameInv
begin

unbundle bit_operations_syntax

text \<open>
  What an activation leaves behind: the stack and the machine after \<open>push_frame\<close>, after the context of
  the frame is in place and after the captured values are in the temporaries.
\<close>

section \<open>Small integers in frame slots\<close>

definition mk_smi :: "int \<Rightarrow> oop" where "mk_smi v = push_bit SMI_SHIFT (word_of_int v)"

lemma mk_smi:
  assumes "- (2 ^ 61) \<le> v" and "v < 2 ^ 61"
  shows "smi_new v = Inr (mk_smi v)" "is_smi (mk_smi v)" "smi_value (mk_smi v) = v" "smi_try_from (mk_smi v) = Some (mk_smi v)"
proof -
  have t: "smi_try_new v = Some (mk_smi v)" using assms by (simp add: smi_try_new_def SMI_MIN_def SMI_MAX_def mk_smi_def)
  then show "smi_new v = Inr (mk_smi v)" by (simp add: smi_new_def)
  from smi_try_new_Some [OF t] show "is_smi (mk_smi v)" "smi_value (mk_smi v) = v" by simp_all
  then show "smi_try_from (mk_smi v) = Some (mk_smi v)" by (simp add: smi_try_from_def)
qed

lemma usize_as_i64 [simp]: "n < 2 ^ 63 \<Longrightarrow> usize_as_i64 n = int n"
  by (simp add: usize_as_i64_def signed_of_nat signed_take_bit_int_eq_self)

lemma runs_push_smi: "- (2 ^ 61) \<le> v \<Longrightarrow> v < 2 ^ 61 \<Longrightarrow>
    runs (push_smi v im) Q \<longleftrightarrow> (im_sp im < length (im_slots im) \<longrightarrow> Q (pushed [mk_smi v] im))"
  by (auto simp: push_smi_def mk_smi run_simps)

lemma lift_res_simps [simp]: "lift_res (Inr a) = Inr a" "lift_res (Inl e) = Inl (Panic e)"
  by (simp_all add: lift_res_def)

section \<open>A fresh frame\<close>

definition frame_words :: "oop \<Rightarrow> int \<Rightarrow> int \<Rightarrow> oop \<Rightarrow> oop \<Rightarrow> int \<Rightarrow> oop \<Rightarrow> oop list \<Rightarrow> oop list" where
  "frame_words m sfp sbci ctx r serial nil temps =
     [m, mk_smi sfp, mk_smi sbci, ctx, r, mk_smi serial, nil] @ temps"

definition entered :: "oop \<Rightarrow> int \<Rightarrow> int \<Rightarrow> oop \<Rightarrow> oop \<Rightarrow> oop list \<Rightarrow> imach \<Rightarrow> imach" where
  "entered m sfp sbci ctx r temps im =
     (let im' = pushed (frame_words m sfp sbci ctx r (int (im_next_frame_serial im)) (im_nil im) temps) im in
      im'\<lparr>im_next_frame_serial := im_next_frame_serial im + 1, im_stack := activate_frame (im_sp im) (im_stack im')\<rparr>)"

lemma pushed_serial [simp]: "pushed xs (im\<lparr>im_next_frame_serial := s\<rparr>) = (pushed xs im)\<lparr>im_next_frame_serial := s\<rparr>"
  by (simp add: pushed_def)

lemma get_pushed: "i < im_sp im \<Longrightarrow> im_sp im + length xs \<le> length (im_slots im) \<Longrightarrow>
    get (pushed xs im) i = Inr (im_slots im ! i)"
  by (simp add: get_def st_get_def lift_res_def nth_pokes)

lemma runs_push_frame:
  assumes m: "method_ok (im_objs im) m" and argc: "argc < im_sp im"
    and sfp: "- (2 ^ 61) \<le> sfp" "sfp < 2 ^ 61" and sbci: "sbci < 2 ^ 61"
    and Q: "\<lbrakk>im_sp im + 7 + m_ntemps (im_objs im) m \<le> length (im_slots im); im_next_frame_serial im + 1 < 2 ^ 32\<rbrakk> \<Longrightarrow>
      Q (entered m sfp (int sbci) (im_nil im) (im_slots im ! (im_sp im - (argc + 1)))
           (replicate (m_ntemps (im_objs im) m) (im_nil im)) im)"
  shows "runs (push_frame m argc sfp sbci im) Q"
proof -
  have len: "length [m, mk_smi sfp, mk_smi (int sbci), im_nil im] = 4" by simp
  show ?thesis
    using argc sfp sbci method_ok_simps(2) [OF m] Q
    by (auto simp: push_frame_def Let_def run_simps runs_push_smi get_pushed set_stack_def entered_def frame_words_def
        simp del: len)
qed


lemma entered_simps [simp]:
  "im_slots (entered m sfp sbci ctx r temps im) =
     pokes (im_sp im) (frame_words m sfp sbci ctx r (int (im_next_frame_serial im)) (im_nil im) temps) (im_slots im)"
  "im_sp (entered m sfp sbci ctx r temps im) = im_sp im + 7 + length temps"
  "im_fp (entered m sfp sbci ctx r temps im) = im_sp im"
  "ps_has_frame (im_stack (entered m sfp sbci ctx r temps im))"
  "im_objs (entered m sfp sbci ctx r temps im) = im_objs im" "im_lk (entered m sfp sbci ctx r temps im) = im_lk im"
  "im_alloc (entered m sfp sbci ctx r temps im) = im_alloc im"
  "im_next_frame_serial (entered m sfp sbci ctx r temps im) = im_next_frame_serial im + 1"
  "im_nlr (entered m sfp sbci ctx r temps im) = im_nlr im"
  "im_context_klass (entered m sfp sbci ctx r temps im) = im_context_klass im"
  "im_sel_cannot_return (entered m sfp sbci ctx r temps im) = im_sel_cannot_return im"
  by (simp_all add: entered_def Let_def activate_frame_def frame_words_def pushed_def)

lemma length_frame_words [simp]: "length (frame_words m sfp sbci ctx r s nil temps) = 7 + length temps"
  by (simp add: frame_words_def)

lemma list_update_pokes:
  assumes "k < length xs" and "i + length xs \<le> length sl"
  shows "(pokes i xs sl)[i + k := v] = pokes i (xs[k := v]) sl"
  by (rule nth_equalityI) (use assms in \<open>auto simp: nth_pokes nth_list_update\<close>)

lemma nth_entered:
  assumes "im_sp im + 7 + length temps \<le> length (im_slots im)"
  shows "k < 7 + length temps \<Longrightarrow> im_slots (entered m sfp sbci ctx r temps im) ! (im_sp im + k) =
      frame_words m sfp sbci ctx r (int (im_next_frame_serial im)) (im_nil im) temps ! k"
    and "j < im_sp im \<Longrightarrow> im_slots (entered m sfp sbci ctx r temps im) ! j = im_slots im ! j"
  using assms by (simp_all add: nth_pokes)

lemma im_update_stack: "im\<lparr>im_stack := (im_stack im)\<lparr>ps_slots := sl\<rparr>\<rparr> = set_stack im ((im_stack im)\<lparr>ps_slots := sl\<rparr>)"
  by (simp add: set_stack_def)

lemma entered_set_slot:
  assumes "im_sp im + 7 + length temps \<le> length (im_slots im)"
  shows "set_stack (entered m sfp sbci ctx r temps im) ((im_stack (entered m sfp sbci ctx r temps im))\<lparr>ps_slots :=
      (im_slots (entered m sfp sbci ctx r temps im))[im_sp im + 3 := c]\<rparr>) = entered m sfp sbci c r temps im"
    and "k < length temps \<Longrightarrow> set_stack (entered m sfp sbci ctx r temps im) ((im_stack (entered m sfp sbci ctx r temps im))\<lparr>ps_slots :=
      (im_slots (entered m sfp sbci ctx r temps im))[im_sp im + 7 + k := c]\<rparr>) = entered m sfp sbci ctx r (temps[k := c]) im"
  using assms
  by (simp_all add: list_update_pokes add.assoc set_stack_def)
     (simp_all add: entered_def Let_def activate_frame_def pushed_def frame_words_def numeral_3_eq_3 numeral_eq_Suc)

lemma runs_on_stack: "runs (on_stack f im) Q \<longleftrightarrow> (\<exists>st. f (im_stack im) = Inr st \<and> Q (set_stack im st))"
  by (auto simp: on_stack_def)

lemma runs_on_objs: "runs (on_objs f im) Q \<longleftrightarrow> (\<exists>os. f (im_objs im) = Inr os \<and> Q (im\<lparr>im_objs := os\<rparr>))"
  by (auto simp: on_objs_def)

section \<open>Contexts\<close>

definition add_object :: "oop \<Rightarrow> hobj \<Rightarrow> imach \<Rightarrow> imach" where
  "add_object a ob im =
     im\<lparr>im_objs := (im_objs im)(a \<mapsto> ob),
        im_lk := (im_lk im)\<lparr>lv_header_klass := (lv_header_klass (im_lk im))(a := ho_klass ob)\<rparr>\<rparr>"

lemma add_object_simps [simp]:
  "im_stack (add_object a ob im) = im_stack im" "im_objs (add_object a ob im) = (im_objs im)(a \<mapsto> ob)"
  "im_nil (add_object a ob im) = im_nil im" "im_alloc (add_object a ob im) = im_alloc im"
  "im_next_frame_serial (add_object a ob im) = im_next_frame_serial im" "im_nlr (add_object a ob im) = im_nlr im"
  "im_bci (add_object a ob im) = im_bci im" "same_env im (add_object a ob im)"
  by (auto simp: add_object_def same_env_def)

lemma add_object_set_stack: "set_stack (add_object a ob im) st = add_object a ob (set_stack im st)"
  by (simp add: add_object_def set_stack_def)

definition context_object :: "imach \<Rightarrow> oop \<Rightarrow> nat \<Rightarrow> hobj" where
  "context_object im hint n =
     \<lparr>ho_klass = im_context_klass im, ho_format = Context, ho_body = [hint], ho_tail = replicate n (im_nil im), ho_bytes = []\<rparr>"

lemma runs_new_object: "runs (new_object k f body tail im) Q \<longleftrightarrow>
    (\<forall>a. im_alloc im (im_objs im) = Some a \<longrightarrow>
       Q (add_object a \<lparr>ho_klass = k, ho_format = f, ho_body = body, ho_tail = tail, ho_bytes = []\<rparr> im, a))"
  by (auto simp: new_object_def add_object_def split: option.splits)

text \<open>The context slot of a fresh frame: a new context linked to \<open>enclosing\<close>, if the method needs one.\<close>

lemma runs_maybe_alloc_context:
  assumes m: "method_ok (im_objs im) m" and len: "im_sp im + 7 + length temps \<le> length (im_slots im)"
    and no: "\<not> m_has_ctx (im_objs im) m \<Longrightarrow> Q (entered m sfp sbci ctx r temps im)"
    and yes: "\<And>a. m_has_ctx (im_objs im) m \<Longrightarrow> im_alloc im (im_objs im) = Some a \<Longrightarrow>
      Q (add_object a (context_object im enclosing (m_nctx (im_objs im) m)) (entered m sfp sbci a r temps im))"
  shows "runs (maybe_alloc_context m (im_sp im) enclosing (entered m sfp sbci ctx r temps im)) Q"
proof (cases "m_has_ctx (im_objs im) m")
  case False
  then show ?thesis using no method_ok_simps(5) [OF m] by (auto simp: maybe_alloc_context_def)
next
  case True
  let ?E = "entered m sfp sbci ctx r temps im" and ?n = "m_nctx (im_objs im) m"
  have step: "runs (rbind (on_objs (\<lambda>os. ctx_set_home_hint os a enclosing) (add_object a ob ?E)) (on_stack (fr_set_context (im_sp im) a))) Q"
    if "im_alloc im (im_objs im) = Some a"
      and "ob = \<lparr>ho_klass = im_context_klass im, ho_format = Context, ho_body = [im_nil im], ho_tail = replicate ?n (im_nil im), ho_bytes = []\<rparr>"
    for a ob
  proof -
    have "ctx_set_home_hint (im_objs (add_object a ob ?E)) a enclosing =
        Inr ((im_objs im)(a \<mapsto> context_object im enclosing ?n))"
      by (simp add: that(2) ctx_set_home_hint_def set_body_at_def CONTEXT_HOME_HINT_INDEX_def context_object_def)
    moreover have "(add_object a ob ?E)\<lparr>im_objs := (im_objs im)(a \<mapsto> context_object im enclosing ?n)\<rparr> =
        add_object a (context_object im enclosing ?n) ?E"
      by (simp add: add_object_def that(2) context_object_def)
    moreover have "fr_set_context (im_sp im) a (im_stack ?E) =
        Inr ((im_stack ?E)\<lparr>ps_slots := (im_slots ?E)[im_sp im + 3 := a]\<rparr>)"
      using len by (simp add: fr_set_context_def st_set_def FRAME_CONTEXT_def)
    moreover have "Q (set_stack (add_object a (context_object im enclosing ?n) ?E)
        ((im_stack ?E)\<lparr>ps_slots := (im_slots ?E)[im_sp im + 3 := a]\<rparr>))"
      using yes [OF True that(1)] entered_set_slot(1) [OF len] by (simp only: add_object_set_stack)
    ultimately show ?thesis by (simp add: runs_on_objs runs_on_stack)
  qed
  have "maybe_alloc_context m (im_sp im) enclosing ?E = rbind (alloc_context ?n ?E) (\<lambda>(im, a).
      rbind (on_objs (\<lambda>os. ctx_set_home_hint os a enclosing) im) (on_stack (fr_set_context (ps_sp (im_stack im0)) a)))"
    if "im_sp im0 = im_sp im" for im0
    using True method_ok_simps(3,5) [OF m] that by (simp add: maybe_alloc_context_def lift_res_def)
  from this [of im] step show ?thesis by (simp add: runs_new_object alloc_context_def del: runs_rbind) (simp add: runs_new_object)
qed


section \<open>Captured values\<close>

lemma set_stack_set_stack [simp]: "set_stack (set_stack im a) b = set_stack im b"
  by (simp add: set_stack_def)

lemma set_stack_simps [simp]:
  "im_stack (set_stack im st) = st" "im_objs (set_stack im st) = im_objs im" "im_lk (set_stack im st) = im_lk im"
  "im_alloc (set_stack im st) = im_alloc im" "im_next_frame_serial (set_stack im st) = im_next_frame_serial im"
  "im_nlr (set_stack im st) = im_nlr im" "im_bci (set_stack im st) = im_bci im"
  by (simp_all add: set_stack_def)

lemma set_stack_same: "im_stack im = st \<Longrightarrow> set_stack im st = im"
  by (auto simp: set_stack_def)

lemma runs_set_capture:
  assumes stk: "im_stack im' = im_stack (entered m sfp sbci ctx r temps im)" and m: "method_ok (im_objs im') m"
    and len: "im_sp im + 7 + length temps \<le> length (im_slots im)" and n: "m_ntemps (im_objs im') m = length temps"
    and argc: "m_argc (im_objs im') m = argc" and j: "j < length temps"
    and Q: "Q (set_stack im' (im_stack (entered m sfp sbci ctx r (temps[j := v]) im)))"
  shows "runs (on_stack (fr_set_temp (im_objs im') (im_sp im) (argc + j) v) im') Q"
proof -
  let ?E = "entered m sfp sbci ctx r temps im"
  have "im_slots ?E ! im_sp im = m" using nth_entered(1) [OF len, of 0 m sfp sbci ctx r] by (simp add: frame_words_def)
  then have fm: "fr_method (im_objs im') (im_stack ?E) (im_sp im) = Inr m"
    using len method_ok_simps(7) [OF m] by (simp add: fr_method_def st_get_def FRAME_METHOD_def)
  then have "temp_index (im_objs im') (im_stack ?E) (im_sp im) (argc + j) = Inr (im_sp im + 7 + j)"
    using method_ok_simps(1,2) [OF m] argc n j
    by (simp add: temp_index_def fr_argc_def fr_ntemps_def FRAME_TEMPS_BASE_def)
  then have "fr_set_temp (im_objs im') (im_sp im) (argc + j) v (im_stack ?E) =
      Inr ((im_stack ?E)\<lparr>ps_slots := (im_slots ?E)[im_sp im + 7 + j := v]\<rparr>)"
    using len j by (simp add: fr_set_temp_def st_set_def)
  moreover have "im_stack (set_stack ?E ((im_stack ?E)\<lparr>ps_slots := (im_slots ?E)[im_sp im + 7 + j := v]\<rparr>)) =
      im_stack (entered m sfp sbci ctx r (temps[j := v]) im)"
    using entered_set_slot(2) [OF len j] by metis
  ultimately show ?thesis using Q stk by (simp add: runs_on_stack)
qed

lemma runs_copy_captures:
  assumes stk: "im_stack im' = im_stack (entered m sfp sbci ctx r (vs @ rest) im)" and m: "method_ok (im_objs im') m"
    and len: "im_sp im + 7 + length (vs @ rest) \<le> length (im_slots im)"
    and n: "m_ntemps (im_objs im') m = length (vs @ rest)" and argc: "m_argc (im_objs im') m = argc"
    and cl: "im_objs im' cl = Some ob" "vb + k \<le> length (ho_tail ob)"
    and j: "length vs \<le> k" "k \<le> length (vs @ rest)"
    and Q: "Q (set_stack im' (im_stack (entered m sfp sbci ctx r
      (vs @ map (\<lambda>i. ho_tail ob ! (vb + i)) [length vs..<k] @ drop (k - length vs) rest) im)))"
  shows "runs (copy_captures cl (im_sp im) vb argc [length vs..<k] im') Q"
  using assms
proof (induction "k - length vs" arbitrary: vs rest im')
  case 0
  then have k: "k = length vs" by simp
  with 0 have "Q im'" by (simp add: set_stack_same)
  then show ?case by (simp add: k)
next
  case (Suc d)
  from Suc.hyps(2) have k: "length vs < k" by simp
  with Suc.prems(9) obtain x rest' where rest: "rest = x # rest'" by (cases rest) auto
  have drop: "drop (k - length vs) (x # rest') = drop (k - Suc (length vs)) rest'"
    using k by (simp add: Suc_diff_Suc [symmetric])
  let ?v = "ho_tail ob ! (vb + length vs)"
  let ?im = "set_stack im' (im_stack (entered m sfp sbci ctx r ((vs @ [?v]) @ rest') im))"
  have "runs (copy_captures cl (im_sp im) vb argc [length (vs @ [?v])..<k] ?im) Q"
    using Suc.hyps(2) Suc.prems k rest drop
    by (intro Suc.hyps(1)) (simp_all add: upt_conv_Cons Suc_diff_Suc)
  moreover have "cl_copied (im_objs im') cl (vb + length vs) = Inr ?v"
    using Suc.prems(6,7) k by (simp add: cl_copied_def tail_at_def)
  moreover have "(vs @ rest)[length vs := ?v] = (vs @ [?v]) @ rest'" by (simp add: rest)
  ultimately show ?case
    using Suc.prems(1-5,9) k rest
    by (simp add: upt_conv_Cons) (rule runs_set_capture [where temps = "vs @ rest"], auto simp: rest)
qed


section \<open>Activating a block\<close>

definition c_copied :: "objs \<Rightarrow> oop \<Rightarrow> oop list" where
  "c_copied os c = (case os c of Some ob \<Rightarrow> ho_tail ob | None \<Rightarrow> [])"

definition block_temps :: "objs \<Rightarrow> oop \<Rightarrow> oop \<Rightarrow> oop list" where
  "block_temps os nil c =
     (let caps = drop (c_base os c) (c_copied os c) in caps @ replicate (m_ntemps os (c_method os c) - length caps) nil)"

definition block_enclosing :: "objs \<Rightarrow> oop \<Rightarrow> oop \<Rightarrow> oop" where
  "block_enclosing os nil c = (if m_captures os (c_method os c) then c_copied os c ! 1 else nil)"

lemma closure_okD:
  assumes "closure_ok os c"
  obtains ob where "os c = Some ob" "ho_format ob = Closure" "c_copied os c = ho_tail ob" "cl_method os c = Inr (c_method os c)"
    "method_ok os (c_method os c)" "m_is_block os (c_method os c)" "1 \<le> c_base os c" "c_base os c \<le> length (ho_tail ob)"
    "length (ho_tail ob) - c_base os c \<le> m_ntemps os (c_method os c)"
    "length (block_temps os nil c) = m_ntemps os (c_method os c)"
proof -
  from assms obtain ob where "os c = Some ob" "c_base os c \<le> length (ho_tail ob)"
    "length (ho_tail ob) - c_base os c \<le> m_ntemps os (c_method os c)" by (auto simp: closure_ok_def)
  with assms show ?thesis
    by (intro that) (auto simp: closure_ok_def c_copied_def c_base_def obj_try_from_Some block_temps_def Let_def)
qed

lemma cl_copied_nth: "os c = Some ob \<Longrightarrow> i < length (ho_tail ob) \<Longrightarrow> cl_copied os c i = Inr (ho_tail ob ! i)"
  by (simp add: cl_copied_def tail_at_def)

lemma runs_load_captures:
  assumes stk: "im_stack im' = im_stack (entered m sfp sbci ctx r (replicate (m_ntemps (im_objs im') m) nil) im)"
    and c: "closure_ok (im_objs im') c" "c_method (im_objs im') c = m" and argc: "m_argc (im_objs im') m = argc" "argc < im_sp im"
    and arg: "im_slots im ! (im_sp im - argc - 1) = c"
    and len: "im_sp im + 7 + m_ntemps (im_objs im') m \<le> length (im_slots im)"
    and Q: "Q (set_stack im' (im_stack (entered m sfp sbci ctx r (block_temps (im_objs im') nil c) im)), m)"
  shows "runs (load_captures (im_sp im) argc (m_captures (im_objs im') m) im') Q"
proof -
  let ?os = "im_objs im'" and ?n = "m_ntemps (im_objs im') m"
  let ?E = "entered m sfp sbci ctx r (replicate ?n nil) im"
  obtain ob where ob: "?os c = Some ob" "ho_format ob = Closure" "c_copied ?os c = ho_tail ob" "cl_method ?os c = Inr m"
    "method_ok ?os m" "c_base ?os c \<le> length (ho_tail ob)" "length (ho_tail ob) - c_base ?os c \<le> ?n"
    using c by (elim closure_okD) auto
  have "im_slots ?E ! im_sp im = m" using len nth_entered(1) [of im "replicate ?n nil" 0 m sfp sbci ctx r]
    by (simp add: frame_words_def)
  then have "receiver_slot ?os (im_stack im') (im_sp im) = Inr (im_sp im - argc - 1)"
    using len method_ok_simps(1,7) [OF ob(5)] argc
    by (simp add: stk receiver_slot_def fr_argc_def fr_method_def st_get_def FRAME_METHOD_def)
  moreover have "get im' (im_sp im - argc - 1) = Inr c"
    using nth_entered(2) [of im "replicate ?n nil" "im_sp im - argc - 1" m sfp sbci ctx r] len argc(2) arg
    by (simp add: get_def st_get_def lift_res_def stk guard_res_def)
  moreover have "obj_try_from Closure ?os c = Some c" using ob by (simp add: obj_try_from_Some)
  moreover have "rbind (cl_ncopied ?os c) (\<lambda>n. usub n (c_base ?os c)) = Inr (length (ho_tail ob) - c_base ?os c)"
    using ob by (simp add: cl_ncopied_def tail_len_def)
  moreover have "(1 + (if m_captures ?os m then 1 else 0) :: nat) = c_base ?os c" using c(2) by (simp add: c_base_def)
  moreover have "map (\<lambda>i. ho_tail ob ! (c_base ?os c + i)) [0..<length (ho_tail ob) - c_base ?os c] = drop (c_base ?os c) (ho_tail ob)"
    by (rule nth_equalityI) simp_all
  then have "runs (copy_captures c (im_sp im) (c_base ?os c) argc [length ([] :: oop list)..<length (ho_tail ob) - c_base ?os c] im')
      (\<lambda>im. Q (im, m))"
    using ob Q c(2) argc(1) len
    by (intro runs_copy_captures [where rest = "replicate ?n nil" and m = m and im = im and sfp = sfp and sbci = sbci and ctx = ctx and r = r and ob = ob])
       (simp_all add: stk block_temps_def Let_def)
  ultimately show ?thesis using ob(4) by (simp add: load_captures_def Let_def)
qed

text \<open>The machine after a block was activated.\<close>

definition block_entered :: "oop \<Rightarrow> imach \<Rightarrow> imach \<Rightarrow> bool" where
  "block_entered c im im' \<longleftrightarrow>
     (let os = im_objs im; m = c_method os c;
          E = (\<lambda>ctx. set_regs m 0 (entered m (int (im_fp im)) (int (im_bci im)) ctx (c_copied os c ! 0) (block_temps os (im_nil im) c) im)) in
      if m_has_ctx os m then
        (\<exists>a. im_alloc im os = Some a \<and>
           im' = add_object a (context_object im (block_enclosing os (im_nil im) c) (m_nctx os m)) (E a))
      else im' = E (block_enclosing os (im_nil im) c))"


lemma runs_push_block_frame:
  assumes c: "closure_ok (im_objs im) c" and m: "c_method (im_objs im) c = m"
    and fp: "im_fp im < 2 ^ 61" and bci: "im_bci im < 2 ^ 61"
    and Q: "\<lbrakk>im_sp im + 7 + m_ntemps (im_objs im) m \<le> length (im_slots im); im_next_frame_serial im + 1 < 2 ^ 32\<rbrakk> \<Longrightarrow>
      Q (entered m (int (im_fp im)) (int (im_bci im)) (im_nil im) (c_copied (im_objs im) c ! 0)
           (replicate (m_ntemps (im_objs im) m) (im_nil im)) im)"
  shows "runs (push_block_frame c m im) Q"
proof -
  from c m obtain ob where ob: "im_objs im c = Some ob" "c_copied (im_objs im) c = ho_tail ob" "method_ok (im_objs im) m"
    "0 < length (ho_tail ob)" by (elim closure_okD) fastforce
  have "cl_copied (im_objs im) c 0 = Inr (ho_tail ob ! 0)" by (rule cl_copied_nth) (use ob in simp_all)
  then show ?thesis
    using fp bci method_ok_simps(2) [OF ob(3)] Q ob(2)
    by (auto simp: push_block_frame_def Let_def run_simps runs_push_smi set_stack_def entered_def frame_words_def)
qed

lemma runs_install_block_context:
  assumes c: "closure_ok (im_objs im) c" and m: "c_method (im_objs im) c = m"
    and len: "im_sp im + 7 + length temps \<le> length (im_slots im)"
    and no: "\<not> m_has_ctx (im_objs im) m \<Longrightarrow> Q (entered m sfp sbci (block_enclosing (im_objs im) (im_nil im) c) r temps im)"
    and yes: "\<And>a. m_has_ctx (im_objs im) m \<Longrightarrow> im_alloc im (im_objs im) = Some a \<Longrightarrow>
      Q (add_object a (context_object im (block_enclosing (im_objs im) (im_nil im) c) (m_nctx (im_objs im) m))
           (entered m sfp sbci a r temps im))"
  shows "runs (install_block_context c m (im_sp im) (entered m sfp sbci ctx r temps im)) Q"
proof -
  let ?os = "im_objs im" and ?E = "entered m sfp sbci ctx r temps im" and ?enc = "block_enclosing (im_objs im) (im_nil im) c"
  from c m obtain ob where ob: "?os c = Some ob" "c_copied ?os c = ho_tail ob" "method_ok ?os m" "c_base ?os c \<le> length (ho_tail ob)"
    by (elim closure_okD) auto
  have enc: "(if m_captures ?os m then lift_res (cl_copied ?os c 1) else Inr (im_nil im)) = Inr ?enc"
  proof (cases "m_captures ?os m")
    case True
    with ob(4) m have "1 < length (ho_tail ob)" by (simp add: c_base_def)
    then show ?thesis using True ob m cl_copied_nth [of ?os c ob 1] by (simp add: block_enclosing_def lift_res_def)
  qed (simp add: block_enclosing_def m)
  have "fr_set_context (im_sp im) ?enc (im_stack ?E) = Inr ((im_stack ?E)\<lparr>ps_slots := (im_slots ?E)[im_sp im + 3 := ?enc]\<rparr>)"
    using len by (simp add: fr_set_context_def st_set_def FRAME_CONTEXT_def)
  then have set: "on_stack (fr_set_context (im_sp im) ?enc) ?E = Inr (entered m sfp sbci ?enc r temps im)"
    using entered_set_slot(1) [OF len, of m sfp sbci ctx r ?enc] by (simp add: on_stack_def lift_res_def)
  have inst: "install_block_context c m (im_sp im) ?E =
      (if m_has_ctx ?os m then maybe_alloc_context m (im_sp im) ?enc ?E else on_stack (fr_set_context (im_sp im) ?enc) ?E)"
    unfolding install_block_context_def entered_simps method_ok_simps(5,6) [OF ob(3)] lift_res_simps rbind_simps enc by (rule refl)
  show ?thesis
  proof (cases "m_has_ctx ?os m")
    case True
    have "runs (maybe_alloc_context m (im_sp im) ?enc ?E) Q"
      by (rule runs_maybe_alloc_context [OF ob(3) len]) (use True in simp, erule yes)
    with True show ?thesis by (simp add: inst)
  next
    case False
    with set no show ?thesis by (simp add: inst)
  qed
qed

lemma runs_activate_block_interp:
  assumes ok: "machine_ok im" "closure_ok (im_objs im) c" and argc: "m_argc (im_objs im) (c_method (im_objs im) c) = argc"
    and arg: "argc < im_sp im" "im_slots im ! (im_sp im - argc - 1) = c"
    and fp: "im_fp im < 2 ^ 61" and bci: "im_bci im < 2 ^ 61"
    and Q: "\<And>im'. block_entered c im im' \<Longrightarrow> im_sp im + 7 + m_ntemps (im_objs im) (c_method (im_objs im) c) \<le> length (im_slots im) \<Longrightarrow>
      im_next_frame_serial im + 1 < 2 ^ 32 \<Longrightarrow> Q (im', PR_Activated)"
  shows "runs (activate_block_interp c argc im) Q"
proof -
  let ?os = "im_objs im" and ?m = "c_method (im_objs im) c" and ?r = "c_copied (im_objs im) c ! 0"
  let ?n = "m_ntemps ?os ?m" and ?enc = "block_enclosing ?os (im_nil im) c"
  let ?E = "\<lambda>ctx. entered ?m (int (im_fp im)) (int (im_bci im)) ctx ?r"
  let ?nils = "replicate ?n (im_nil im)"
  from ok(2) have m: "method_ok ?os ?m" "cl_method ?os c = Inr ?m" "is_closure ?os c" by (auto simp: closure_ok_def)
  let ?rest = "\<lambda>im'. runs (load_captures (im_sp im) argc (m_captures ?os ?m) im')
      (\<lambda>(im, blk). Q (set_regs blk 0 im, PR_Activated))"
  have regs: "set_regs ?m 0 (set_stack im' st) = set_stack (set_regs ?m 0 im') st" for im' st by (simp add: set_regs_def set_stack_def)
  have no: "?rest (?E ?enc ?nils im)"
    if n: "\<not> m_has_ctx ?os ?m" and len: "im_sp im + 7 + ?n \<le> length (im_slots im)" and ser: "im_next_frame_serial im + 1 < 2 ^ 32"
  proof -
    have "block_entered c im (set_regs ?m 0 (?E ?enc (block_temps ?os (im_nil im) c) im))"
      using n by (simp add: block_entered_def Let_def)
    then have q: "Q (set_regs ?m 0 (?E ?enc (block_temps ?os (im_nil im) c) im), PR_Activated)" using len ser by (rule Q)
    have eq: "set_stack (?E ?enc ?nils im) (im_stack (?E ?enc (block_temps ?os (im_nil im) c) im)) =
        ?E ?enc (block_temps ?os (im_nil im) c) im"
      by (simp add: entered_def Let_def set_stack_def pushed_def)
    from q have q': "Q (set_regs ?m 0 (set_stack (?E ?enc ?nils im) (im_stack (?E ?enc (block_temps ?os (im_nil im) c) im))), PR_Activated)"
      by (simp only: eq)
    have "runs (load_captures (im_sp im) argc (m_captures (im_objs (?E ?enc ?nils im)) ?m) (?E ?enc ?nils im))
      (\<lambda>(im, blk). Q (set_regs blk 0 im, PR_Activated))"
      by (rule runs_load_captures [where c = c and nil = "im_nil im"]) (use ok(2) argc arg len q' in simp_all)
    then show ?thesis by simp
  qed
  have yes: "?rest (add_object a (context_object im ?enc (m_nctx ?os ?m)) (?E a ?nils im))"
    if n: "m_has_ctx ?os ?m" and len: "im_sp im + 7 + ?n \<le> length (im_slots im)" and ser: "im_next_frame_serial im + 1 < 2 ^ 32" and a: "im_alloc im ?os = Some a" for a
  proof -
    let ?ob = "context_object im ?enc (m_nctx ?os ?m)"
    have ext: "objs_ext ?os (?os(a \<mapsto> ?ob))" using ok(1) a by (intro objs_ext_new) (simp add: machine_ok_def)
    note c' = closure_ok_ext [OF ext ok(2)] and m' = method_ok_ext [OF ext m(1)]
    have ob': "c_copied (?os(a \<mapsto> ?ob)) c = c_copied ?os c" "c_base (?os(a \<mapsto> ?ob)) c = c_base ?os c"
      using ext m(3) c'(2) m'(6) by (auto simp: c_copied_def c_base_def obj_try_from_Some elim!: objs_extD)
    have bt: "block_temps (?os(a \<mapsto> ?ob)) (im_nil im) c = block_temps ?os (im_nil im) c"
      using c'(2) m'(3) by (simp add: block_temps_def ob')
    have "block_entered c im (add_object a ?ob (set_regs ?m 0 (?E a (block_temps ?os (im_nil im) c) im)))"
      using n a by (auto simp: block_entered_def Let_def)
    then have q: "Q (add_object a ?ob (set_regs ?m 0 (?E a (block_temps ?os (im_nil im) c) im)), PR_Activated)" using len ser by (rule Q)
    have eq: "set_regs ?m 0 (set_stack (add_object a ?ob (?E a ?nils im)) (im_stack (?E a (block_temps ?os (im_nil im) c) im))) =
        add_object a ?ob (set_regs ?m 0 (?E a (block_temps ?os (im_nil im) c) im))"
      by (simp add: entered_def Let_def set_stack_def pushed_def add_object_def set_regs_def)
    from q have q': "Q (set_regs ?m 0 (set_stack (add_object a ?ob (?E a ?nils im)) (im_stack (?E a (block_temps ?os (im_nil im) c) im))), PR_Activated)"
      by (simp only: eq)
    have "runs (load_captures (im_sp im) argc (m_captures (im_objs (add_object a ?ob (?E a ?nils im))) ?m)
        (add_object a ?ob (?E a ?nils im))) (\<lambda>(im, blk). Q (set_regs blk 0 im, PR_Activated))"
      by (rule runs_load_captures [where c = c and nil = "im_nil im" and im = im and m = ?m])
         (use c' m' bt argc arg len q' in simp_all)
    then show ?thesis using m'(6) by simp
  qed
  have "runs (push_block_frame c ?m im) (\<lambda>im1. runs (install_block_context c ?m (im_sp im) im1)
      (\<lambda>im2. mt_captures_ctx (im_objs im2) ?m = Inr (m_captures ?os ?m) \<and> ?rest im2))"
  proof (rule runs_push_block_frame [OF ok(2) refl fp bci], rule runs_install_block_context [OF ok(2) refl], goal_cases)
    case 1
    then show ?case by simp
  next
    case 2
    then show ?case using no [OF 2(3) 2(1) 2(2)] method_ok_simps(6) [OF m(1)] by (simp only: entered_simps simp_thms)
  next
    case (3 a)
    have "objs_ext ?os (?os(a \<mapsto> context_object im ?enc (m_nctx ?os ?m)))"
      using ok(1) 3(4) by (intro objs_ext_new) (simp add: machine_ok_def)
    from method_ok_ext(1,6) [OF this m(1)] method_ok_simps(6) yes [OF 3(3) 3(1) 3(2) 3(4)] show ?case
      by (simp only: entered_simps add_object_simps simp_thms)
  qed
  then show ?thesis
    using m(2) method_ok_simps(1) [OF m(1)] argc
    by (auto simp: activate_block_interp_def Let_def case_prod_beta elim!: runs_mono)
qed


section \<open>The frame that an activation leaves\<close>

definition frame_pushed :: "oop \<Rightarrow> nat \<Rightarrow> oop \<Rightarrow> oop list \<Rightarrow> imach \<Rightarrow> imach \<Rightarrow> bool" where
  "frame_pushed m sbci r temps im im' \<longleftrightarrow>
     im_fp im' = im_sp im \<and> im_sp im' = im_sp im + 7 + length temps \<and> ps_has_frame (im_stack im')
     \<and> (\<forall>i < im_sp im. im_slots im' ! i = im_slots im ! i)
     \<and> im_slots im' ! im_sp im = m \<and> im_slots im' ! (im_sp im + 2) = mk_smi (int sbci)
     \<and> im_slots im' ! (im_sp im + 4) = r
     \<and> im_slots im' ! (im_sp im + 5) = mk_smi (int (im_next_frame_serial im)) \<and> im_slots im' ! (im_sp im + 6) = im_nil im
     \<and> (\<forall>i < length temps. im_slots im' ! (im_sp im + 7 + i) = temps ! i)
     \<and> objs_ext (im_objs im) (im_objs im') \<and> same_env im im'
     \<and> im_next_frame_serial im' = im_next_frame_serial im + 1 \<and> im_method im' = Some m \<and> im_bci im' = 0"

lemma entered_frame:
  assumes "im_sp im + 7 + length temps \<le> length (im_slots im)"
  shows "im_slots (entered m sfp sbci ctx r temps im) ! im_sp im = m"
    "im_slots (entered m sfp sbci ctx r temps im) ! (im_sp im + 1) = mk_smi sfp"
    "im_slots (entered m sfp sbci ctx r temps im) ! (im_sp im + 2) = mk_smi sbci"
    "im_slots (entered m sfp sbci ctx r temps im) ! (im_sp im + 4) = r"
    "im_slots (entered m sfp sbci ctx r temps im) ! (im_sp im + 5) = mk_smi (int (im_next_frame_serial im))"
    "im_slots (entered m sfp sbci ctx r temps im) ! (im_sp im + 6) = im_nil im"
    "i < length temps \<Longrightarrow> im_slots (entered m sfp sbci ctx r temps im) ! (im_sp im + 7 + i) = temps ! i"
  using nth_entered(1) [OF assms, of 0 m sfp sbci ctx r] nth_entered(1) [OF assms, of 1 m sfp sbci ctx r]
    nth_entered(1) [OF assms, of 2 m sfp sbci ctx r] nth_entered(1) [OF assms, of 4 m sfp sbci ctx r]
    nth_entered(1) [OF assms, of 5 m sfp sbci ctx r] nth_entered(1) [OF assms, of 6 m sfp sbci ctx r]
    nth_entered(1) [OF assms, of "7 + i" m sfp sbci ctx r]
  by (simp_all add: frame_words_def add.assoc)

lemma set_regs_simps [simp]:
  "im_stack (set_regs m b im) = im_stack im" "im_objs (set_regs m b im) = im_objs im" "im_lk (set_regs m b im) = im_lk im"
  "im_alloc (set_regs m b im) = im_alloc im" "im_next_frame_serial (set_regs m b im) = im_next_frame_serial im"
  "im_nlr (set_regs m b im) = im_nlr im" "im_method (set_regs m b im) = Some m" "im_bci (set_regs m b im) = b"
  "im_sel_cannot_return (set_regs m b im) = im_sel_cannot_return im"
  by (simp_all add: set_regs_def)

lemma same_env_entered: "same_env im (set_regs m' b (entered m sfp sbci ctx r temps im))"
  unfolding same_env_def by (intro conjI exI [of _ "lv_header_klass (im_lk im)"]) simp_all

lemma frame_pushed_entered:
  assumes "im_sp im + 7 + length temps \<le> length (im_slots im)"
  shows "frame_pushed m sbci r temps im (set_regs m 0 (entered m sfp (int sbci) ctx r temps im))"
    "im_slots (set_regs m 0 (entered m sfp (int sbci) ctx r temps im)) ! (im_sp im + 1) = mk_smi sfp"
  unfolding frame_pushed_def set_regs_simps
  using nth_entered(2) [OF assms] entered_frame [OF assms] same_env_entered by (simp_all del: entered_simps(1))

lemma frame_pushed_add_object:
  assumes "frame_pushed m sbci r temps im im'" and "im_objs im' a = None"
  shows "frame_pushed m sbci r temps im (add_object a ob im')"
proof -
  from assms have "objs_ext (im_objs im) ((im_objs im')(a \<mapsto> ob))"
    by (intro objs_ext_trans [OF _ objs_ext_new]) (auto simp: frame_pushed_def)
  moreover from assms have "same_env im (add_object a ob im')"
    by (intro same_env_trans [OF _ add_object_simps(8)]) (auto simp: frame_pushed_def)
  ultimately show ?thesis using assms by (auto simp: frame_pushed_def add_object_def)
qed

lemma block_entered_frame:
  assumes ok: "machine_ok im" "closure_ok (im_objs im) c" and be: "block_entered c im im'"
    and len: "im_sp im + 7 + m_ntemps (im_objs im) (c_method (im_objs im) c) \<le> length (im_slots im)"
  shows "frame_pushed (c_method (im_objs im) c) (im_bci im) (c_copied (im_objs im) c ! 0) (block_temps (im_objs im) (im_nil im) c) im im'
    \<and> im_slots im' ! (im_sp im + 1) = mk_smi (int (im_fp im))"
proof -
  let ?m = "c_method (im_objs im) c" and ?t = "block_temps (im_objs im) (im_nil im) c" and ?r = "c_copied (im_objs im) c ! 0"
  from ok(2) have "length ?t = m_ntemps (im_objs im) ?m" by (elim closure_okD)
  with len have len: "im_sp im + 7 + length ?t \<le> length (im_slots im)" by simp
  note fp = frame_pushed_entered [OF len]
  show ?thesis
  proof (cases "m_has_ctx (im_objs im) ?m")
    case True
    with be obtain a where a: "im_alloc im (im_objs im) = Some a" and im': "im' = add_object a
        (context_object im (block_enclosing (im_objs im) (im_nil im) c) (m_nctx (im_objs im) ?m))
        (set_regs ?m 0 (entered ?m (int (im_fp im)) (int (im_bci im)) a ?r ?t im))"
      by (auto simp: block_entered_def Let_def)
    have "im_objs im a = None" using ok(1) a by (simp add: machine_ok_def)
    then show ?thesis unfolding im' add_object_simps fp(2) by (intro conjI frame_pushed_add_object fp(1)) simp_all
  next
    case False
    with be have "im' = set_regs ?m 0 (entered ?m (int (im_fp im)) (int (im_bci im))
        (block_enclosing (im_objs im) (im_nil im) c) ?r ?t im)" by (simp add: block_entered_def Let_def)
    with fp show ?thesis by simp
  qed
qed

text \<open>A frame pushed on a chain of frames, above its receiver and arguments, extends the chain.\<close>

lemma frame_pushed_stack:
  assumes ok: "machine_ok im" and below: "frames_ok (im_objs im) (im_nil im) (im_slots im) fps (im_sp im - m_argc (im_objs im) m - 1)"
    and p: "frame_pushed m sbci r temps im im'" and sfp: "im_slots im' ! (im_sp im + 1) = mk_smi sfp"
      "sfp = (case fps of [] \<Rightarrow> ENTRY_FRAME_SENTINEL | fp' # _ \<Rightarrow> int fp')"
    and m: "method_ok (im_objs im) m" "m_argc (im_objs im) m < im_sp im" "length temps = m_ntemps (im_objs im) m"
    and r: "receiver_ok (im_objs im) m (im_slots im ! (im_sp im - m_argc (im_objs im) m - 1)) r"
    and len: "im_sp im + 7 + length temps \<le> length (im_slots im)" and b: "sbci < 2 ^ 61" "im_next_frame_serial im < 2 ^ 61"
  shows "stack_ok im' (im_sp im # fps)"
proof -
  from p have ext: "objs_ext (im_objs im) (im_objs im')" and env: "same_env im im'"
    and agree: "\<And>i. i < im_sp im \<Longrightarrow> im_slots im' ! i = im_slots im ! i"
    and words: "im_slots im' ! im_sp im = m" "im_slots im' ! (im_sp im + 2) = mk_smi (int sbci)" "im_slots im' ! (im_sp im + 4) = r"
      "im_slots im' ! (im_sp im + 5) = mk_smi (int (im_next_frame_serial im))" "im_slots im' ! (im_sp im + 6) = im_nil im"
    and regs: "im_fp im' = im_sp im" "im_sp im' = im_sp im + 7 + length temps" "ps_has_frame (im_stack im')"
    by (auto simp: frame_pushed_def)
  note m' = method_ok_ext [OF ext m(1)]
  have nil: "im_nil im' = im_nil im" and l: "length (im_slots im') = length (im_slots im)"
    using env by (auto simp: same_env_def)
  have sfp': "- (2 ^ 61) \<le> sfp" "sfp < 2 ^ 61"
  proof -
    have "int fp' < 2 ^ 61" if "fps = fp' # fs" for fp' fs
    proof -
      have "fp' + 7 \<le> im_sp im - m_argc (im_objs im) m - 1" using frames_ok_below [OF below, of fp'] that by simp
      then have "fp' \<le> length (im_slots im)" using len by linarith
      with ok have "fp' \<le> 2 ^ 22" by (simp add: machine_ok_def)
      then show ?thesis by simp
    qed
    then show "- (2 ^ 61) \<le> sfp" "sfp < 2 ^ 61" using sfp(2) by (auto simp: ENTRY_FRAME_SENTINEL_def split: list.splits)
  qed
  have smi: "is_smi (mk_smi sfp)" "is_smi (mk_smi (int sbci))" "is_smi (mk_smi (int (im_next_frame_serial im)))"
    "smi_value (mk_smi sfp) = sfp"
    using b sfp' by (auto intro!: mk_smi)
  have "frames_ok (im_objs im') (im_nil im') (im_slots im') fps (im_sp im - m_argc (im_objs im) m - 1)"
    unfolding nil by (rule frames_ok_cong [OF below ext agree]) (use len l in linarith)+
  moreover have "receiver_ok (im_objs im') m (im_slots im' ! (im_sp im - m_argc (im_objs im) m - 1)) r"
    using receiver_ok_ext [OF ext m(1) r] agree [of "im_sp im - m_argc (im_objs im) m - 1"] m(2) by simp
  ultimately have "frames_ok (im_objs im') (im_nil im') (im_slots im') (im_sp im # fps) (im_sp im')"
    using m m' words regs sfp smi len l by (auto simp: is_frame_def Let_def nil marker_ok_def)
  moreover have "machine_ok im'" using machine_ok_env [OF ok env] regs(2) len by simp
  ultimately show ?thesis using regs by (simp add: stack_ok_def)
qed

end
