(* ===== verification/HomeRef.thy ===== *)
theory HomeRef
  imports FrameSpec
begin
unbundle bit_operations_syntax

text \<open>
  The packing of a home reference into one small integer loses nothing (\<open>src/src/oops/home_ref.rs\<close>).
\<close>

lemma sint_quarter_range:
  fixes w :: u64
  shows "- (2 ^ 61) \<le> sint (signed_drop_bit 2 w)" "sint (signed_drop_bit 2 w) < 2 ^ 61"
proof -
  have "sint (signed_drop_bit 2 w) = sint w div 4" by (simp add: sint_signed_drop_bit_eq drop_bit_eq_div)
  moreover have "- (2 ^ 63) \<le> sint w" "sint w < 2 ^ 63" using sint_greater_eq [of w] sint_less [of w] by simp_all
  ultimately show "- (2 ^ 61) \<le> sint (signed_drop_bit 2 w)" "sint (signed_drop_bit 2 w) < 2 ^ 61" by simp_all
qed

lemma word_of_sint: "(word_of_int (sint w) :: u64) = w" for w :: u64
  by simp

lemma sign_extended_field:
  fixes raw :: u64
  assumes "\<And>n. bit raw n \<Longrightarrow> n < 62"
  shows "signed_drop_bit 2 (push_bit 2 raw) AND HOME_REF_ALL_MASK = raw"
proof -
  have "HOME_REF_ALL_MASK = mask 62" by (simp add: HOME_REF_ALL_MASK_def mask_eq_exp_minus_1)
  moreover have "signed_drop_bit 2 (push_bit 2 raw) AND mask 62 = raw"
    using assms by (intro bit_eqI) (fastforce simp: bit_simps)
  ultimately show ?thesis by simp
qed

lemma home_ref_pack_unpack:
  assumes "hr_fp h \<le> HOME_REF_FP_MAX"
  shows "\<exists>s. pack_home_ref h = Inr s \<and> is_smi s \<and> unpack_home_ref s = h"
proof -
  let ?raw = "(push_bit HOME_REF_PROC_SHIFT (ucast (hr_proc h)) OR push_bit HOME_REF_SERIAL_SHIFT (ucast (hr_serial h))) OR
                  push_bit HOME_REF_FP_SHIFT (of_nat (hr_fp h)) :: u64"
  let ?v = "sint (signed_drop_bit 2 (push_bit 2 ?raw))"
  note shifts = HOME_REF_PROC_SHIFT_def HOME_REF_SERIAL_SHIFT_def HOME_REF_FP_SHIFT_def
  have fp: "\<not> bit (hr_fp h) n" if "22 \<le> n" for n
  proof -
    have "hr_fp h < 2 ^ 22" using assms by (simp add: HOME_REF_FP_MAX_def)
    then have "take_bit 22 (hr_fp h) = hr_fp h" by (simp add: take_bit_nat_eq_self)
    then show ?thesis using that by (metis bit_take_bit_iff not_le)
  qed
  have bits: "bit ?raw n \<longleftrightarrow> n < 64 \<and> (54 \<le> n \<and> bit (hr_proc h) (n - 54) \<or> 22 \<le> n \<and> bit (hr_serial h) (n - 22) \<or> bit (hr_fp h) n)" for n
    by (auto simp: bit_simps shifts)
  have l62: "bit ?raw n \<Longrightarrow> n < 62" for n
    unfolding bits using fp [of n] bit_imp_le_length [of "hr_proc h" "n - 54"] bit_imp_le_length [of "hr_serial h" "n - 22"] by (cases "22 \<le> n") auto
  note mk = mk_smi [OF sint_quarter_range]
  have raw: "(word_of_int (smi_value (mk_smi ?v)) :: u64) AND HOME_REF_ALL_MASK = ?raw"
  proof -
    have "(word_of_int ?v :: u64) = signed_drop_bit 2 (push_bit 2 ?raw)" by (rule word_of_sint)
    then show ?thesis unfolding mk(3) using sign_extended_field [of ?raw, OF l62] by (simp only:)
  qed
  have 1: "ucast (drop_bit HOME_REF_PROC_SHIFT ?raw) = hr_proc h"
  proof (rule bit_eqI)
    fix n assume "possible_bit TYPE(8 word) n"
    then have "n < 8" by simp
    then show "bit (ucast (drop_bit HOME_REF_PROC_SHIFT ?raw) :: u8) n = bit (hr_proc h) n"
      using fp [of "54 + n"] bit_imp_le_length [of "hr_serial h" "54 + n - 22"] by (auto simp: bit_simps shifts)
  qed
  have 2: "ucast (drop_bit HOME_REF_SERIAL_SHIFT ?raw) = hr_serial h"
  proof (rule bit_eqI)
    fix n assume "possible_bit TYPE(32 word) n"
    then have "n < 32" by simp
    then show "bit (ucast (drop_bit HOME_REF_SERIAL_SHIFT ?raw) :: u32) n = bit (hr_serial h) n"
      using fp [of "22 + n"] by (auto simp: bit_simps shifts)
  qed
  have 3: "unat (drop_bit HOME_REF_FP_SHIFT ?raw) AND HOME_REF_FP_MAX = hr_fp h"
  proof (rule bit_eqI)
    fix n
    have m: "HOME_REF_FP_MAX = mask 22" by (simp add: HOME_REF_FP_MAX_def mask_eq_exp_minus_1)
    show "bit (unat (drop_bit HOME_REF_FP_SHIFT ?raw) AND HOME_REF_FP_MAX) n = bit (hr_fp h) n"
      using fp [of n] by (cases "22 \<le> n") (auto simp: m bit_simps shifts unat_drop_bit_eq)
  qed
  have "unpack_home_ref (mk_smi ?v) = h" unfolding unpack_home_ref_def Let_def raw 1 2 3 by simp
  moreover have "pack_home_ref h = Inr (mk_smi ?v)" using assms mk(1) by (simp add: pack_home_ref_def Let_def)
  ultimately show ?thesis using mk(2) by blast
qed
end
