(* ===== verification/UnwindSpec.thy ===== *)
theory UnwindSpec
  imports HomeRef
begin

unbundle bit_operations_syntax

text \<open>
  Unwinding over a well-formed chain of frames: what the walks find, what a return delivers, and how an
  unwind suspends itself for a handler and resumes when the handler returns.
\<close>

section \<open>Reading a frame of the chain\<close>

lemma frames_ok_mem:
  assumes "frames_ok os nil sl fps lim" and "fp \<in> set fps" and "lim \<le> length sl"
  shows "\<exists>l \<le> lim. is_frame os nil sl fp l"
  using assms
proof (induction fps arbitrary: lim)
  case (Cons f fps)
  show ?case
  proof (cases "f = fp")
    case True
    with Cons.prems show ?thesis by auto
  next
    case False
    from Cons.prems have b: "f + 7 \<le> lim" by (auto simp: is_frame_def Let_def)
    with Cons.prems False have "\<exists>l \<le> frame_base os sl f. is_frame os nil sl fp l"
      by (intro Cons.IH) auto
    then show ?thesis using b by (meson diff_le_self le_trans less_imp_le_nat trans_le_add1)
  qed
qed simp

lemma is_frame_reads:
  assumes f: "is_frame os nil sl fp lim" and st: "ps_slots st = sl"
  shows "fr_method os st fp = Inr (sl ! fp)" "fr_argc os st fp = Inr (m_argc os (sl ! fp))"
    "fr_ntemps os st fp = Inr (m_ntemps os (sl ! fp))" "receiver_slot os st fp = Inr (frame_base os sl fp)"
    "fr_saved_fp st fp = Inr (smi_value (sl ! (fp + 1)))"
    "fr_saved_bci st fp = Inr (i64_as_usize (smi_value (sl ! (fp + 2))))"
    "serial_word st fp = Inr (smi_value (sl ! (fp + 5)))" "fr_marker st fp = Inr (sl ! (fp + 6))"
proof -
  from f have l: "fp + 7 \<le> length sl" "m_argc os (sl ! fp) < fp" and m: "method_ok os (sl ! fp)"
    and s: "is_smi (sl ! (fp + 1))" "is_smi (sl ! (fp + 2))" "is_smi (sl ! (fp + 5))"
    by (auto simp: is_frame_def Let_def)
  have g: "st_get st (fp + k) = Inr (sl ! (fp + k))" if "k < 7" for k
    using l that by (simp add: st_get_def st)
  show "fr_method os st fp = Inr (sl ! fp)"
    using g [of 0] method_ok_simps(7) [OF m] by (simp add: fr_method_def FRAME_METHOD_def)
  then show "fr_argc os st fp = Inr (m_argc os (sl ! fp))" "fr_ntemps os st fp = Inr (m_ntemps os (sl ! fp))"
    using method_ok_simps(1,2) [OF m] by (simp_all add: fr_argc_def fr_ntemps_def)
  then show "receiver_slot os st fp = Inr (frame_base os sl fp)" using l by (simp add: receiver_slot_def)
  have smi: "smi_try_from w = Some w" if "is_smi w" for w using that by (simp add: smi_try_from_def)
  show "fr_saved_fp st fp = Inr (smi_value (sl ! (fp + 1)))"
    "fr_saved_bci st fp = Inr (i64_as_usize (smi_value (sl ! (fp + 2))))"
    "serial_word st fp = Inr (smi_value (sl ! (fp + 5)))" "fr_marker st fp = Inr (sl ! (fp + 6))"
    using g [of 1] g [of 2] g [of 5] g [of 6] s smi
    by (simp_all add: fr_saved_fp_def fr_saved_bci_def serial_word_def fr_marker_def fr_smi_def
        FRAME_SAVED_FP_def FRAME_SAVED_BCI_def FRAME_SERIAL_def FRAME_MARKER_def)
qed

lemma frames_ok_sorted: "frames_ok os nil sl (fp # fps) lim \<Longrightarrow> f \<in> set fps \<Longrightarrow> f + 7 \<le> frame_base os sl fp \<and> f < fp"
  using frames_ok_below [of os nil sl fps "frame_base os sl fp" f] by (auto simp: is_frame_def Let_def)

definition armed :: "imach \<Rightarrow> nat \<Rightarrow> bool" where
  "armed im fp \<longleftrightarrow> im_slots im ! (fp + 6) \<noteq> im_nil im \<and> is_closure (im_objs im) (im_slots im ! (fp + 6))"

abbreviation handler_of :: "imach \<Rightarrow> nat \<Rightarrow> oop" where "handler_of im fp \<equiv> im_slots im ! (fp + 6)"

lemma marker_class_frame:
  assumes "is_frame (im_objs im) (im_nil im) (im_slots im) fp lim"
  shows "marker_class im fp =
    Inr (if im_slots im ! (fp + 6) = im_nil im then MC_None
         else if armed im fp then MC_Handler (handler_of im fp) else MC_Token (handler_of im fp))"
proof -
  from assms have "marker_ok (im_objs im) (im_nil im) (im_slots im ! (fp + 6))" by (simp add: is_frame_def Let_def)
  then show ?thesis
    using is_frame_reads(8) [OF assms refl]
    by (auto simp: marker_class_def armed_def marker_ok_def closure_ok_def obj_try_from_Some split: option.splits)
       (auto simp: obj_try_from_def split: option.splits)
qed

lemma i64_as_usize_int: "n < 2 ^ 64 \<Longrightarrow> i64_as_usize (int n) = n"
  by (simp add: i64_as_usize_def)

section \<open>The walks\<close>

lemma chain_link:
  assumes "frames_ok os nil sl (fp # fp' # fps) lim"
  shows "smi_value (sl ! (fp + 1)) = int fp'"
  using assms by simp

text \<open>The frames of \<open>pre\<close> lie above the home; without the home in the chain the walk ends at the entry frame.\<close>

definition unwinds_to :: "nat list \<Rightarrow> nat list \<Rightarrow> nat \<Rightarrow> bool" where
  "unwinds_to pre suf home \<longleftrightarrow> (case suf of [] \<Rightarrow> pre \<noteq> [] \<and> home \<notin> set pre | h # _ \<Rightarrow> h = home)"

lemma innermost_marked_frame_chain:
  assumes "frames_ok (im_objs im) (im_nil im) (im_slots im) (pre @ suf) lim" and "unwinds_to pre suf home"
    and "lim \<le> length (im_slots im)" and "length (im_slots im) \<le> 2 ^ 22"
  shows "innermost_marked_frame im (hd (pre @ suf)) home =
    returns (case filter (armed im) pre of
      [] \<Rightarrow> if suf = [] then Crossed_boundary (last pre) else Reached_home | fp # _ \<Rightarrow> Marked fp (handler_of im fp))"
  using assms(1-3)
proof (induction pre arbitrary: lim)
  case Nil
  then show ?case by (subst innermost_marked_frame.simps) (auto simp: unwinds_to_def split: list.splits)
next
  case (Cons fp pre)
  from Cons.prems(1) have chain: "frames_ok (im_objs im) (im_nil im) (im_slots im) (fp # pre @ suf) lim" by simp
  then have f: "is_frame (im_objs im) (im_nil im) (im_slots im) fp lim"
    and rest: "frames_ok (im_objs im) (im_nil im) (im_slots im) (pre @ suf) (frame_base (im_objs im) (im_slots im) fp)" by simp_all
  from f have lim: "fp + 7 \<le> lim" by (simp add: is_frame_def Let_def)
  have ne: "fp \<noteq> home"
    using Cons.prems(2) frames_ok_sorted [OF chain, of home] by (auto simp: unwinds_to_def split: list.splits)
  note mc = marker_class_frame [OF f] is_frame_reads(5) [OF f refl]
  show ?case
  proof (cases "pre @ suf")
    case Nil
    with chain have "smi_value (im_slots im ! (fp + 1)) = ENTRY_FRAME_SENTINEL" by simp
    with Nil show ?thesis by (subst innermost_marked_frame.simps) (use ne mc in \<open>auto simp: armed_def\<close>)
  next
    case (Cons nxt fs)
    with chain have link: "smi_value (im_slots im ! (fp + 1)) = int nxt" by simp
    have "nxt < fp" using frames_ok_sorted [OF chain, of nxt] Cons by simp
    with lim Cons.prems(3) assms(4) have u: "i64_as_usize (int nxt) = nxt" by (intro i64_as_usize_int) simp
    have "unwinds_to pre suf home" using Cons.prems(2) Cons by (auto simp: unwinds_to_def split: list.splits)
    from Cons.IH [OF rest this] lim Cons.prems(3)
    have IH: "innermost_marked_frame im nxt home = returns (case filter (armed im) pre of
        [] \<Rightarrow> if suf = [] then Crossed_boundary (last pre) else Reached_home | fp # _ \<Rightarrow> Marked fp (handler_of im fp))"
      by (simp add: Cons)
    have l: "suf = [] \<Longrightarrow> last (fp # pre) = last pre" using Cons by auto
    have "innermost_marked_frame im fp home =
        (if armed im fp then returns (Marked fp (handler_of im fp)) else innermost_marked_frame im nxt home)"
      by (subst innermost_marked_frame.simps) (use ne mc link u in \<open>auto simp: ENTRY_FRAME_SENTINEL_def armed_def\<close>)
    then show ?thesis using IH l by (simp split: list.split)
  qed
qed

lemma walk_to_frame_chain:
  assumes "frames_ok os nil (ps_slots st) (pre @ target # rest) lim"
    and "lim \<le> length (ps_slots st)" and "length (ps_slots st) \<le> 2 ^ 22"
  shows "walk_to_frame st (hd (pre @ target # rest)) target = returns ()"
  using assms(1,2)
proof (induction pre arbitrary: lim)
  case Nil
  show ?case by (subst walk_to_frame.simps) simp
next
  case (Cons fp pre)
  let ?next = "hd (pre @ target # rest)"
  have in_rest: "?next \<in> set (pre @ target # rest)" by (cases pre) auto
  from Cons.prems(1) have chain: "frames_ok os nil (ps_slots st) (fp # pre @ target # rest) lim" by simp
  then have f: "is_frame os nil (ps_slots st) fp lim"
    and rest: "frames_ok os nil (ps_slots st) (pre @ target # rest) (frame_base os (ps_slots st) fp)"
    and link: "smi_value (ps_slots st ! (fp + 1)) = int ?next" by (auto split: list.splits)
  from frames_ok_sorted [OF chain] have ne: "fp \<noteq> target" by fastforce
  from f have lim: "fp + 7 \<le> lim" by (simp add: is_frame_def Let_def)
  have "?next < fp" using frames_ok_sorted [OF chain in_rest] by simp
  with lim Cons.prems(2) assms(3) have u: "i64_as_usize (int ?next) = ?next" by (intro i64_as_usize_int) simp
  have IH: "walk_to_frame st ?next target = returns ()"
    by (rule Cons.IH [OF rest]) (use lim Cons.prems(2) in linarith)
  show ?case
    by (subst walk_to_frame.simps)
       (use ne is_frame_reads(5) [OF f refl] link u IH in \<open>simp add: ENTRY_FRAME_SENTINEL_def\<close>)
qed


lemma frames_ok_suffix: "frames_ok os nil sl (pre @ fps) lim \<Longrightarrow> \<exists>lim' \<le> lim. frames_ok os nil sl fps lim'"
proof (induction pre arbitrary: lim)
  case (Cons fp pre)
  then have "fp + 7 \<le> lim" "frames_ok os nil sl (pre @ fps) (frame_base os sl fp)" by (auto simp: is_frame_def Let_def)
  with Cons.IH [of "frame_base os sl fp"] show ?case by (meson diff_le_self le_trans add_leE)
qed auto

lemma stack_okD:
  assumes "stack_ok im fps"
  shows "machine_ok im" "frames_ok (im_objs im) (im_nil im) (im_slots im) fps (im_sp im)" "ps_has_frame (im_stack im)"
    "im_fp im = hd fps" "im_sp im \<le> length (im_slots im)" "length (im_slots im) \<le> 2 ^ 22" "fps \<noteq> []"
  using assms by (auto simp: stack_ok_def machine_ok_def)

lemma stack_ok_frame:
  assumes "stack_ok im fps" and "fp \<in> set fps"
  shows "\<exists>l \<le> im_sp im. is_frame (im_objs im) (im_nil im) (im_slots im) fp l"
  using frames_ok_mem [OF stack_okD(2) [OF assms(1)] assms(2) stack_okD(5) [OF assms(1)]] .

lemma stack_ok_reads:
  assumes "stack_ok im fps" and "fp \<in> set fps"
  shows "fr_method (im_objs im) (im_stack im) fp = Inr (im_slots im ! fp)"
    "fr_ntemps (im_objs im) (im_stack im) fp = Inr (m_ntemps (im_objs im) (im_slots im ! fp))"
    "receiver_slot (im_objs im) (im_stack im) fp = Inr (frame_base (im_objs im) (im_slots im) fp)"
    "fr_saved_fp (im_stack im) fp = Inr (smi_value (im_slots im ! (fp + 1)))"
    "fr_saved_bci (im_stack im) fp = Inr (i64_as_usize (smi_value (im_slots im ! (fp + 2))))"
    "serial_word (im_stack im) fp = Inr (smi_value (im_slots im ! (fp + 5)))"
    "marker_class im fp = Inr (if im_slots im ! (fp + 6) = im_nil im then MC_None
         else if armed im fp then MC_Handler (handler_of im fp) else MC_Token (handler_of im fp))"
    "method_ok (im_objs im) (im_slots im ! fp)" "m_argc (im_objs im) (im_slots im ! fp) < fp"
    "marker_ok (im_objs im) (im_nil im) (im_slots im ! (fp + 6))" "is_smi (im_slots im ! (fp + 5))"
    "fp + 7 + m_ntemps (im_objs im) (im_slots im ! fp) \<le> im_sp im" "fp < 2 ^ 22"
proof -
  obtain l where l: "l \<le> im_sp im" and f: "is_frame (im_objs im) (im_nil im) (im_slots im) fp l"
    using stack_ok_frame [OF assms] by blast
  show "fr_method (im_objs im) (im_stack im) fp = Inr (im_slots im ! fp)"
    "fr_ntemps (im_objs im) (im_stack im) fp = Inr (m_ntemps (im_objs im) (im_slots im ! fp))"
    "receiver_slot (im_objs im) (im_stack im) fp = Inr (frame_base (im_objs im) (im_slots im) fp)"
    "fr_saved_fp (im_stack im) fp = Inr (smi_value (im_slots im ! (fp + 1)))"
    "fr_saved_bci (im_stack im) fp = Inr (i64_as_usize (smi_value (im_slots im ! (fp + 2))))"
    "serial_word (im_stack im) fp = Inr (smi_value (im_slots im ! (fp + 5)))"
    "marker_class im fp = Inr (if im_slots im ! (fp + 6) = im_nil im then MC_None
         else if armed im fp then MC_Handler (handler_of im fp) else MC_Token (handler_of im fp))"
    by (fact is_frame_reads [OF f refl] marker_class_frame [OF f])+
  from f l show "method_ok (im_objs im) (im_slots im ! fp)" "m_argc (im_objs im) (im_slots im ! fp) < fp"
    "marker_ok (im_objs im) (im_nil im) (im_slots im ! (fp + 6))" "is_smi (im_slots im ! (fp + 5))"
    "fp + 7 + m_ntemps (im_objs im) (im_slots im ! fp) \<le> im_sp im"
    by (auto simp: is_frame_def Let_def)
  with stack_okD(5,6) [OF assms(1)] show "fp < 2 ^ 22" by simp
qed


definition popped_to :: "nat \<Rightarrow> imach \<Rightarrow> imach" where
  "popped_to fp im =
     set_sp (fp + 7 + m_ntemps (im_objs im) (im_slots im ! fp)) (set_stack im (activate_frame fp (im_stack im)))"

lemma set_sp_simps [simp]:
  "im_slots (set_sp n im) = im_slots im" "im_sp (set_sp n im) = n" "im_fp (set_sp n im) = im_fp im"
  "ps_has_frame (im_stack (set_sp n im)) = ps_has_frame (im_stack im)" "im_objs (set_sp n im) = im_objs im"
  "im_lk (set_sp n im) = im_lk im" "im_alloc (set_sp n im) = im_alloc im" "im_nlr (set_sp n im) = im_nlr im"
  "im_next_frame_serial (set_sp n im) = im_next_frame_serial im" "same_env im (set_sp n im)" "im_bci (set_sp n im) = im_bci im"
  by (simp_all add: set_sp_def same_env_def) (auto simp: set_stack_def intro: exI [of _ "lv_header_klass (im_lk im)"])

lemma activate_frame_simps [simp]:
  "ps_slots (activate_frame fp st) = ps_slots st" "ps_sp (activate_frame fp st) = ps_sp st"
  "ps_fp (activate_frame fp st) = fp" "ps_has_frame (activate_frame fp st)"
  by (simp_all add: activate_frame_def)

lemma frame_reads_activate [simp]:
  "fr_method os (activate_frame f st) fp = fr_method os st fp" "fr_ntemps os (activate_frame f st) fp = fr_ntemps os st fp"
  by (simp_all add: fr_ntemps_def fr_method_def st_get_def)

lemma same_env_set_stack [simp]: "length (ps_slots st) = length (im_slots im) \<Longrightarrow> same_env im (set_stack im st)"
  by (auto simp: same_env_def set_stack_def intro: exI [of _ "lv_header_klass (im_lk im)"])

lemma popped_to_simps [simp]:
  "im_slots (popped_to fp im) = im_slots im" "im_sp (popped_to fp im) = fp + 7 + m_ntemps (im_objs im) (im_slots im ! fp)"
  "im_fp (popped_to fp im) = fp" "ps_has_frame (im_stack (popped_to fp im))" "im_objs (popped_to fp im) = im_objs im"
  "im_lk (popped_to fp im) = im_lk im" "im_alloc (popped_to fp im) = im_alloc im" "im_nlr (popped_to fp im) = im_nlr im"
  "im_next_frame_serial (popped_to fp im) = im_next_frame_serial im" "same_env im (popped_to fp im)" "im_bci (popped_to fp im) = im_bci im"
  by (simp_all add: popped_to_def) (rule same_env_trans [OF same_env_set_stack set_sp_simps(10)], simp)

lemma pop_frames_above_chain:
  assumes ok: "stack_ok im (pre @ fp # rest)"
  shows "pop_frames_above fp im = returns (popped_to fp im)" and "stack_ok (popped_to fp im) (fp # rest)"
    and "im_sp (popped_to fp im) \<le> im_sp im"
proof -
  note r = stack_ok_reads [OF ok, of fp, simplified]
  have "walk_to_frame (im_stack im) (im_fp im) fp = returns ()"
    using walk_to_frame_chain [OF stack_okD(2,5,6) [OF ok]] stack_okD(4) [OF ok] by simp
  then show "pop_frames_above fp im = returns (popped_to fp im)"
    using r(2) by (simp add: pop_frames_above_def popped_to_def FRAME_TEMPS_BASE_def)
  show le: "im_sp (popped_to fp im) \<le> im_sp im" using r(12) by simp
  obtain l where "l \<le> im_sp im \<and> frames_ok (im_objs im) (im_nil im) (im_slots im) (fp # rest) l"
    using frames_ok_suffix stack_okD(2) [OF ok] by blast
  then have "frames_ok (im_objs im) (im_nil im) (im_slots im) (fp # rest) (im_sp (popped_to fp im))"
    by (rule frames_ok_lim [OF conjunct2]) (use le stack_okD(5) [OF ok] in simp_all)
  moreover have "machine_ok (popped_to fp im)"
    by (rule machine_ok_env [OF stack_okD(1) [OF ok]]) (use le stack_okD(5) [OF ok] in simp_all)
  ultimately show "stack_ok (popped_to fp im) (fp # rest)" by (simp add: stack_ok_def)
qed


section \<open>Suspending an unwind for a handler\<close>

lemma frames_ok_set_marker:
  assumes ok: "frames_ok os nil sl (fp # rest) lim" and ext: "objs_ext os os'" and len: "lim \<le> length sl"
    and w: "is_smi w5" "marker_ok os' nil m6"
  shows "frames_ok os' nil (sl[fp + 5 := w5, fp + 6 := m6]) (fp # rest) lim"
proof -
  let ?sl = "sl[fp + 5 := w5, fp + 6 := m6]"
  from ok have f: "is_frame os nil sl fp lim" and rest: "frames_ok os nil sl rest (frame_base os sl fp)" by simp_all
  from f have l: "fp + 7 \<le> lim" "m_argc os (sl ! fp) < fp" by (auto simp: is_frame_def Let_def)
  from is_frame_cong [OF f ext, of sl] len have f': "is_frame os' nil sl fp lim" "m_argc os' (sl ! fp) = m_argc os (sl ! fp)" by auto
  have "is_frame os' nil ?sl fp lim" using f' w l len by (auto simp: is_frame_def Let_def)
  moreover have "frames_ok os' nil ?sl rest (frame_base os sl fp)"
    by (rule frames_ok_cong [OF rest ext]) (use l len in \<open>auto simp: nth_list_update\<close>)
  ultimately show ?thesis using ok f'(2) by simp
qed

lemma serial_bits:
  fixes v :: int
  shows "0 \<le> v AND FRAME_SERIAL_MASK" "v AND FRAME_SERIAL_MASK < 2 ^ 32"
    "(v AND FRAME_SERIAL_MASK) AND FRAME_SERIAL_MASK = v AND FRAME_SERIAL_MASK"
proof -
  have "v AND FRAME_SERIAL_MASK = v mod 2 ^ 32"
    using take_bit_eq_mask [of 32 v] by (simp add: FRAME_SERIAL_MASK_def take_bit_eq_mod mask_eq_exp_minus_1)
  then show "0 \<le> v AND FRAME_SERIAL_MASK" "v AND FRAME_SERIAL_MASK < 2 ^ 32" by simp_all
qed (simp add: and.assoc)

lemma serial_range: "- (2 ^ 61) \<le> v AND FRAME_SERIAL_MASK" "v AND FRAME_SERIAL_MASK < 2 ^ 61"
proof -
  define x where "x = v AND FRAME_SERIAL_MASK"
  have "0 \<le> x" "x < 2 ^ 32" unfolding x_def by (fact serial_bits)+
  then have "- (2 ^ 61) \<le> x" "x < 2 ^ 61" by simp_all
  then show "- (2 ^ 61) \<le> v AND FRAME_SERIAL_MASK" "v AND FRAME_SERIAL_MASK < 2 ^ 61" unfolding x_def .
qed

lemma fr_set_marker_ensure:
  assumes "serial_word st fp = Inr v" and "fp + 6 < length (ps_slots st)"
  shows "fr_set_marker fp m Ensure st =
    Inr (st\<lparr>ps_slots := (ps_slots st)[fp + 5 := mk_smi (v AND FRAME_SERIAL_MASK), fp + 6 := m]\<rparr>)"
proof -
  have "smi_new (v AND FRAME_SERIAL_MASK) = Inr (mk_smi (v AND FRAME_SERIAL_MASK))"
    by (rule mk_smi(1)) (fact serial_range)+
  then show ?thesis
    using assms by (simp add: fr_set_marker_def st_set_def FRAME_SERIAL_def FRAME_MARKER_def)
qed

lemma pop_pushed:
  assumes ok: "stack_ok im (fp # rest)" and len: "im_sp im < length (im_slots im)" and ext: "objs_ext (im_objs im) os"
  shows "pop ((pushed [v] im)\<lparr>im_objs := os, im_lk := lk\<rparr>) = Inr (set_sp (im_sp im) ((pushed [v] im)\<lparr>im_objs := os, im_lk := lk\<rparr>), v)"
proof -
  note r = stack_ok_reads [OF ok, of fp, simplified] and d = stack_okD [OF ok]
  have m: "method_ok os (im_slots im ! fp)" "m_ntemps os (im_slots im ! fp) = m_ntemps (im_objs im) (im_slots im ! fp)"
    using method_ok_ext [OF ext r(8)] by auto
  have "pop_floor os (im_stack (pushed [v] im)) = Inr (fp + 7 + m_ntemps (im_objs im) (im_slots im ! fp))"
    using method_ok_simps(2,7) [OF m(1)] m(2) d(3,4) r(12) len
    by (simp add: pop_floor_def ntemps_at_fp_def st_get_def nth_list_update FRAME_METHOD_def FRAME_TEMPS_BASE_def)
  then show ?thesis
    using r(12) len by (simp add: pop_def st_pop_def st_get_def set_sp_def set_stack_def)
qed

lemma pushed_array_klass [simp]: "im_array_klass (pushed xs im) = im_array_klass im"
  by (simp add: pushed_def)

definition token_object :: "imach \<Rightarrow> oop \<Rightarrow> oop \<Rightarrow> hobj" where
  "token_object im s v = \<lparr>ho_klass = im_array_klass im, ho_format = IndexableOops, ho_body = [], ho_tail = [s, v], ho_bytes = []\<rparr>"

lemma runs_alloc_unwind_token:
  assumes ok: "stack_ok im (fp # rest)" and home: "hr_fp home \<le> HOME_REF_FP_MAX"
    and Q: "\<And>a s. im_sp im < length (im_slots im) \<Longrightarrow> im_alloc im (im_objs im) = Some a \<Longrightarrow> is_smi s \<Longrightarrow> unpack_home_ref s = home \<Longrightarrow>
      Q (add_object a (token_object im s v) (set_sp (im_sp im) (pushed [v] im)), a)"
  shows "runs (alloc_unwind_token home v im) Q"
proof -
  obtain s where s: "pack_home_ref home = Inr s" "is_smi s" "unpack_home_ref s = home" using home_ref_pack_unpack [OF home] by blast
  have "runs (rbind (pop (add_object a ob (pushed [v] im))) (\<lambda>(im, value).
       rbind (on_objs (\<lambda>os. set_tail_at os a 0 s) im) (\<lambda>im.
       rbind (on_objs (\<lambda>os. set_tail_at os a 1 value) im) (\<lambda>im. Inr (im, a))))) Q"
    if len: "im_sp im < length (im_slots im)" and a: "im_alloc im (im_objs im) = Some a"
      and ob: "ob = \<lparr>ho_klass = im_array_klass im, ho_format = IndexableOops, ho_body = [], ho_tail = [n1, n2], ho_bytes = []\<rparr>"
    for a ob n1 n2
  proof -
    have "objs_ext (im_objs im) ((im_objs im)(a \<mapsto> ob))"
      using stack_okD(1) [OF ok] a by (intro objs_ext_new) (simp add: machine_ok_def)
    from pop_pushed [OF ok len this, where v = v] have p: "pop (add_object a ob (pushed [v] im)) =
        Inr (set_sp (im_sp im) (add_object a ob (pushed [v] im)), v)"
      by (simp add: add_object_def)
    have t1: "set_tail_at (im_objs (set_sp (im_sp im) (add_object a ob (pushed [v] im)))) a 0 s =
        Inr ((im_objs im)(a \<mapsto> ob\<lparr>ho_tail := [s, n2]\<rparr>))"
      by (simp add: set_tail_at_def ob)
    have t2: "set_tail_at ((im_objs im)(a \<mapsto> ob\<lparr>ho_tail := [s, n2]\<rparr>)) a (Suc 0) v = Inr ((im_objs im)(a \<mapsto> token_object im s v))"
      by (simp add: set_tail_at_def ob token_object_def)
    have "(set_sp (im_sp im) (add_object a ob (pushed [v] im)))\<lparr>im_objs := (im_objs im)(a \<mapsto> token_object im s v)\<rparr> =
        add_object a (token_object im s v) (set_sp (im_sp im) (pushed [v] im))"
      by (simp add: add_object_def set_sp_def set_stack_def ob token_object_def)
    with Q [OF len a s(2,3)] show ?thesis
      by (simp add: p runs_on_objs t1 t2 del: set_sp_simps add_object_simps)
  qed
  then show ?thesis
    by (simp add: alloc_unwind_token_def s(1) runs_push alloc_indexable_oops_def runs_new_object eval_nat_numeral)
qed

end
