(* ===== verification/StackOps.thy ===== *)
theory StackOps
  imports UnwindSpec
begin

unbundle bit_operations_syntax

text \<open>
  The operations of the interpreter on a machine whose stack is a chain of frames: each keeps the chain,
  and an activation puts a frame on top of it.
\<close>

lemma stack_okI:
  assumes "machine_ok im" and "ps_has_frame (im_stack im)" and "im_fp im = hd fps" and "fps \<noteq> []"
    and "frames_ok (im_objs im) (im_nil im) (im_slots im) fps (im_sp im)"
  shows "stack_ok im fps"
  using assms by (simp add: stack_ok_def)

lemma stack_ok_cong:
  assumes ok: "stack_ok im fps" and env: "same_env im im'" and ext: "objs_ext (im_objs im) (im_objs im')"
    and agree: "\<And>i. i < n \<Longrightarrow> im_slots im' ! i = im_slots im ! i"
    and n: "im_floor im \<le> n" "n \<le> im_sp im" "n \<le> im_sp im'" "im_sp im' \<le> length (im_slots im)"
    and fp: "im_fp im' = im_fp im" "ps_has_frame (im_stack im')"
  shows "stack_ok im' fps"
proof (rule stack_okI)
  note d = stack_okD [OF ok]
  from env have e: "im_nil im' = im_nil im" "length (im_slots im') = length (im_slots im)" by (auto simp: same_env_def)
  show "machine_ok im'" by (rule machine_ok_env [OF d(1) env n(4)])
  show "ps_has_frame (im_stack im')" "im_fp im' = hd fps" "fps \<noteq> []" using fp d by simp_all
  obtain f rest where fps: "fps = f # rest" using d(7) by (cases fps) auto
  have f: "frames_ok (im_objs im) (im_nil im) (im_slots im) (f # rest) n"
    by (rule frames_ok_lim [where lim = "im_sp im"]) (use d n fps in \<open>simp_all add: im_floor_def\<close>)
  then have "frames_ok (im_objs im') (im_nil im') (im_slots im') (f # rest) n"
    unfolding e by (rule frames_ok_cong [OF _ ext agree]) (use n e in simp_all)
  then show "frames_ok (im_objs im') (im_nil im') (im_slots im') fps (im_sp im')"
    unfolding fps by (rule frames_ok_lim) (use n e f in \<open>auto simp: is_frame_def Let_def method_ok_ext [OF ext] agree\<close>)
qed

lemma stack_ok_floor: "stack_ok im fps \<Longrightarrow> im_floor im \<le> im_sp im"
  using stack_ok_reads(12) [of im fps "im_fp im"] stack_okD [of im fps] by (cases fps) (auto simp: im_floor_def)

lemma pop_floor_chain:
  assumes ok: "stack_ok im fps"
  shows "pop_floor (im_objs im) (im_stack im) = Inr (im_floor im)"
proof -
  note d = stack_okD [OF ok]
  have mem: "im_fp im \<in> set fps" using d(4,7) by simp
  note r = stack_ok_reads [OF ok mem]
  have "im_fp im < length (im_slots im)" using r(12) d(5) by linarith
  then show ?thesis
    using d(3) method_ok_simps(2,7) [OF r(8)]
    by (simp add: pop_floor_def ntemps_at_fp_def st_get_def FRAME_METHOD_def FRAME_TEMPS_BASE_def im_floor_def)
qed

lemma same_env_pushed [simp]: "same_env im (pushed vs im)"
  by (auto simp: same_env_def pushed_def intro: exI [of _ "lv_header_klass (im_lk im)"])

lemma stack_ok_pushed:
  assumes "stack_ok im fps" and "im_sp im < length (im_slots im)"
  shows "stack_ok (pushed [v] im) fps"
  by (rule stack_ok_cong [OF assms(1), where n = "im_sp im"])
     (use assms stack_ok_floor [OF assms(1)] stack_okD [OF assms(1)] in auto)

lemma stack_ok_set_sp:
  assumes "stack_ok im fps" and "im_floor im \<le> n" and "n \<le> im_sp im"
  shows "stack_ok (set_sp n im) fps"
  by (rule stack_ok_cong [OF assms(1), where n = n]) (use assms stack_okD [OF assms(1)] in auto)

lemma stack_ok_add_object:
  assumes "stack_ok im fps" and "im_alloc im (im_objs im) = Some a"
  shows "stack_ok (add_object a ob im) fps"
  by (rule stack_ok_cong [OF assms(1), where n = "im_sp im"])
     (use assms stack_ok_floor [OF assms(1)] stack_okD [OF assms(1)] in \<open>auto simp: machine_ok_def intro!: objs_ext_new\<close>)

lemma stack_ok_set_marker:
  assumes ok: "stack_ok im fps" and fp: "fp \<in> set fps" and w: "is_smi w5" and m: "marker_ok (im_objs im) (im_nil im) m6"
  shows "stack_ok (set_stack im ((im_stack im)\<lparr>ps_slots := (im_slots im)[fp + 5 := w5, fp + 6 := m6]\<rparr>)) fps"
proof -
  note d = stack_okD [OF ok]
  have "frames_ok os nil (sl[fp + 5 := w5, fp + 6 := m6]) fps lim"
    if "frames_ok os nil sl fps lim" "fp \<in> set fps" "lim \<le> length sl" "marker_ok os nil m6" for os nil sl lim
    using that
  proof (induction fps arbitrary: lim)
    case (Cons f fps)
    show ?case
    proof (cases "f = fp")
      case True
      then show ?thesis using frames_ok_set_marker [OF _ objs_ext_refl, of os nil sl fp fps lim w5 m6] Cons.prems w by simp
    next
      case False
      with Cons.prems have mem: "fp \<in> set fps" by simp
      from frames_ok_sorted [OF Cons.prems(1) mem] have lt: "fp + 7 \<le> frame_base os sl f" "fp < f" by auto
      have fr: "is_frame os nil sl f lim" using Cons.prems(1) by simp
      then have l: "f + 7 \<le> lim" "m_argc os (sl ! f) < f" by (auto simp: is_frame_def Let_def)
      have IH: "frames_ok os nil (sl[fp + 5 := w5, fp + 6 := m6]) fps (frame_base os sl f)"
        by (rule Cons.IH) (use Cons.prems mem l in auto)
      have same: "sl[fp + 5 := w5, fp + 6 := m6] ! i = sl ! i" if "frame_base os sl f \<le> i" for i
        using lt that by simp
      have "is_frame os nil (sl[fp + 5 := w5, fp + 6 := m6]) f lim"
        using fr l lt by (auto simp: is_frame_def Let_def same)
      then show ?thesis using Cons.prems(1) IH same [of f] same [of "f + 1"] by (simp add: Let_def)
    qed
  qed simp
  from this [OF d(2) fp d(5) m] show ?thesis
    using d machine_ok_env [OF d(1), of "set_stack im ((im_stack im)\<lparr>ps_slots := (im_slots im)[fp + 5 := w5, fp + 6 := m6]\<rparr>)"]
    by (intro stack_okI) simp_all
qed

lemma stack_ok_set_bci [simp]: "stack_ok (im\<lparr>im_bci := b\<rparr>) fps \<longleftrightarrow> stack_ok im fps"
  by (simp add: stack_ok_def machine_ok_def)

section \<open>Activations\<close>

lemma block_entered_objs:
  assumes "machine_ok im" and "block_entered c im im'" and "im_objs im w = Some ob"
  shows "im_objs im' w = Some ob"
proof -
  have "a \<noteq> w" if "im_alloc im (im_objs im) = Some a" for a
  proof -
    from assms(1) that have "im_objs im a = None" by (simp add: machine_ok_def)
    with assms(3) show ?thesis by auto
  qed
  with assms(2,3) show ?thesis by (auto simp: block_entered_def Let_def split: if_splits)
qed

lemma runs_activate_block_stack:
  assumes ok: "stack_ok im fps" and c: "closure_ok (im_objs im) c" and argc: "m_argc (im_objs im) (c_method (im_objs im) c) = argc"
    and arg: "im_floor im + argc < im_sp im" "im_slots im ! (im_sp im - argc - 1) = c" and bci: "im_bci im < 2 ^ 61"
    and Q: "\<And>im'. stack_ok im' (im_sp im # fps) \<Longrightarrow> block_entered c im im' \<Longrightarrow>
      frame_pushed (c_method (im_objs im) c) (im_bci im) (c_copied (im_objs im) c ! 0) (block_temps (im_objs im) (im_nil im) c) im im' \<Longrightarrow>
      Q (im', PR_Activated)"
  shows "runs (activate_block_interp c argc im) Q"
proof -
  note d = stack_okD [OF ok]
  let ?m = "c_method (im_objs im) c" and ?t = "block_temps (im_objs im) (im_nil im) c"
  obtain f rest where fps: "fps = f # rest" using d(7) by (cases fps) auto
  obtain ob where ob: "im_objs im c = Some ob" "ho_format ob = Closure" "c_copied (im_objs im) c = ho_tail ob" "method_ok (im_objs im) ?m"
    "m_is_block (im_objs im) ?m" "0 < length (ho_tail ob)" "length ?t = m_ntemps (im_objs im) ?m"
    using c by (elim closure_okD) fastforce
  have fp: "im_fp im < 2 ^ 22" using stack_ok_reads(13) [OF ok, of "im_fp im"] d(4) fps by simp
  show ?thesis
  proof (rule runs_activate_block_interp [OF d(1) c argc _ arg(2) _ bci])
    show "argc < im_sp im" using arg(1) by simp
    show "im_fp im < 2 ^ 61" using fp by simp
    fix im' assume be: "block_entered c im im'" and len: "im_sp im + 7 + m_ntemps (im_objs im) ?m \<le> length (im_slots im)"
      and ser: "im_next_frame_serial im + 1 < 2 ^ 32"
    from block_entered_frame [OF d(1) c be len]
    have p: "frame_pushed ?m (im_bci im) (c_copied (im_objs im) c ! 0) ?t im im'"
      and s: "im_slots im' ! (im_sp im + 1) = mk_smi (int (im_fp im))" by auto
    have "stack_ok im' (im_sp im # fps)"
    proof (rule frame_pushed_stack [OF d(1) _ p s])
      have "im_floor im \<le> im_sp im - argc - 1" using arg(1) by simp
      then show "frames_ok (im_objs im) (im_nil im) (im_slots im) fps (im_sp im - m_argc (im_objs im) ?m - 1)"
        unfolding fps argc using d(2,4,5) fps
        by - (rule frames_ok_lim [where lim = "im_sp im"], simp_all add: im_floor_def)
      show "receiver_ok (im_objs im) ?m (im_slots im ! (im_sp im - m_argc (im_objs im) ?m - 1)) (c_copied (im_objs im) c ! 0)"
        using ob cl_copied_nth [where os = "im_objs im" and c = c and ob = ob and i = 0] arg(2) argc by (simp add: receiver_ok_def obj_try_from_Some)
      show "int (im_fp im) = (case fps of [] \<Rightarrow> ENTRY_FRAME_SENTINEL | fp' # _ \<Rightarrow> int fp')" using d(4) fps by simp
      show "method_ok (im_objs im) ?m" "length ?t = m_ntemps (im_objs im) ?m" by (fact ob)+
      show "m_argc (im_objs im) ?m < im_sp im" "im_bci im < 2 ^ 61" using argc arg(1) bci by simp_all
      show "im_sp im + 7 + length ?t \<le> length (im_slots im)" using len ob(7) by simp
      show "im_next_frame_serial im < 2 ^ 61" using ser by simp
    qed
    then show "Q (im', PR_Activated)" using be p by (rule Q)
  qed
qed

end
