(* ===== verification/Unwinding.thy ===== *)
theory Unwinding
  imports StackOps
begin

unbundle bit_operations_syntax

text \<open>
  How an unwind runs the handlers it meets: it suspends itself in the marker of the handler's frame, and
  the return of the handler resumes it.
\<close>

section \<open>A suspended unwind\<close>

text \<open>The slots below \<open>n\<close> are those of \<open>im\<close>, the serials of the frames included.\<close>

definition unchanged_below :: "nat \<Rightarrow> imach \<Rightarrow> imach \<Rightarrow> bool" where
  "unchanged_below n im im' \<longleftrightarrow>
     (\<forall>i < n. im_slots im' ! i = im_slots im ! i) \<and> objs_ext (im_objs im) (im_objs im') \<and> same_env im im'"

definition token_at :: "imach \<Rightarrow> nat \<Rightarrow> home_ref \<Rightarrow> oop \<Rightarrow> bool" where
  "token_at im fp home v \<longleftrightarrow>
     handler_of im fp \<noteq> im_nil im
     \<and> (\<exists>ob s. im_objs im (handler_of im fp) = Some ob \<and> ho_format ob = IndexableOops \<and> ho_tail ob = [s, v]
           \<and> is_smi s \<and> unpack_home_ref s = home)"

definition suspended :: "imach \<Rightarrow> nat \<Rightarrow> nat list \<Rightarrow> home_ref \<Rightarrow> oop \<Rightarrow> imach \<Rightarrow> bool" where
  "suspended im fp rest home v im' \<longleftrightarrow>
     (let nf = fp + 8 + m_ntemps (im_objs im) (im_slots im ! fp); h = handler_of im fp in
      stack_ok im' (nf # fp # rest) \<and> unchanged_below (fp + 5) im im'
      \<and> im_slots im' ! (nf - 1) = h \<and> im_slots im' ! nf = c_method (im_objs im) h
      \<and> m_argc (im_objs im') (im_slots im' ! nf) = 0
      \<and> smi_value (im_slots im' ! (nf + 2)) = int BCI_RESUME_UNWIND \<and> im_slots im' ! (nf + 6) = im_nil im'
      \<and> token_at im' fp home v)"

lemma armedD:
  assumes ok: "stack_ok im fps" and fp: "fp \<in> set fps" and a: "armed im fp"
  shows "closure_ok (im_objs im) (handler_of im fp)" "m_argc (im_objs im) (c_method (im_objs im) (handler_of im fp)) = 0"
proof -
  from a have nn: "handler_of im fp \<noteq> im_nil im" "is_closure (im_objs im) (handler_of im fp)" by (auto simp: armed_def)
  then have "\<not> is_array (im_objs im) (handler_of im fp)" by (auto simp: obj_try_from_Some obj_try_from_def split: option.splits)
  with nn stack_ok_reads(10) [OF ok fp] show "closure_ok (im_objs im) (handler_of im fp)"
    "m_argc (im_objs im) (c_method (im_objs im) (handler_of im fp)) = 0" by (auto simp: marker_ok_def)
qed

lemma unchanged_below_refl [simp]: "unchanged_below n im im"
  by (simp add: unchanged_below_def)

lemma unchanged_below_trans: "unchanged_below n im1 im2 \<Longrightarrow> unchanged_below n im2 im3 \<Longrightarrow> unchanged_below n im1 im3"
  by (auto simp: unchanged_below_def intro: objs_ext_trans same_env_trans)

lemma unchanged_below_le: "unchanged_below n im1 im2 \<Longrightarrow> m \<le> n \<Longrightarrow> unchanged_below m im1 im2"
  by (simp add: unchanged_below_def)

lemma frame_pushed_unchanged: "frame_pushed m b r t im im' \<Longrightarrow> n \<le> im_sp im \<Longrightarrow> unchanged_below n im im'"
  by (simp add: frame_pushed_def unchanged_below_def)

lemma runs_suspend:
  assumes ok: "stack_ok im (fp # rest)" and sp: "im_sp im = im_floor im" and a: "armed im fp" and h: "h = handler_of im fp"
    and home: "hr_fp home \<le> HOME_REF_FP_MAX" and Q: "\<And>im'. suspended im fp rest home v im' \<Longrightarrow> Q im'"
  shows "runs (rbind (alloc_unwind_token home v im) (\<lambda>(im, token).
      rbind (on_stack (fr_set_marker fp token Ensure) im) (\<lambda>im.
      rbind (push h im) (\<lambda>im.
      rbind (activate_block_interp h 0 (im\<lparr>im_bci := BCI_RESUME_UNWIND\<rparr>)) (\<lambda>(im, r).
       i_assert (r = PR_Activated) (Inr im)))))) Q"
proof -
  note d = stack_okD [OF ok] and r = stack_ok_reads [OF ok, of fp, simplified]
  from armedD [OF ok _ a] have cl: "closure_ok (im_objs im) h" "m_argc (im_objs im) (c_method (im_objs im) h) = 0" by (simp_all add: h)
  have floor: "im_sp im = fp + 7 + m_ntemps (im_objs im) (im_slots im ! fp)" using sp d(4) by (simp add: im_floor_def)
  have "runs (rbind (on_stack (fr_set_marker fp t Ensure) im1) (\<lambda>im.
      rbind (push h im) (\<lambda>im.
      rbind (activate_block_interp h 0 (im\<lparr>im_bci := BCI_RESUME_UNWIND\<rparr>)) (\<lambda>(im, r).
       i_assert (r = PR_Activated) (Inr im))))) Q"
    if len: "im_sp im < length (im_slots im)" and t: "im_alloc im (im_objs im) = Some t" and s: "is_smi s" "unpack_home_ref s = home"
      and im1: "im1 = add_object t (token_object im s v) (set_sp (im_sp im) (pushed [v] im))" for t s im1
  proof -
    have new: "im_objs im t = None" "t \<noteq> im_nil im" using d(1) t by (auto simp: machine_ok_def)
    have ok1: "stack_ok im1 (fp # rest)"
      unfolding im1 using t d(4) floor sp
      by (intro stack_ok_add_object stack_ok_set_sp stack_ok_pushed [OF ok len]) (simp_all add: im_floor_def)
    have sl1: "im_slots im1 = (im_slots im)[im_sp im := v]" "im_sp im1 = im_sp im" "im_fp im1 = fp" "im_nil im1 = im_nil im"
      "im_objs im1 = (im_objs im)(t \<mapsto> token_object im s v)"
      using d(4) by (simp_all add: im1)
    have ext1: "objs_ext (im_objs im) (im_objs im1)" unfolding sl1 by (rule objs_ext_new) (fact new(1))
    have env1: "same_env im im1" unfolding im1
      by (rule same_env_trans [OF same_env_trans [OF same_env_pushed set_sp_simps(10)] add_object_simps(8)])
    obtain w where w: "serial_word (im_stack im1) fp = Inr w" using stack_ok_reads(6) [OF ok1, of fp] by simp
    define im2 where "im2 = set_stack im1 ((im_stack im1)\<lparr>ps_slots := (im_slots im1)[fp + 5 := mk_smi (w AND FRAME_SERIAL_MASK), fp + 6 := t]\<rparr>)"
    have arr: "obj_try_from IndexableOops (im_objs im1) t = Some t" by (simp add: sl1 obj_try_from_Some token_object_def)
    have ok2: "stack_ok im2 (fp # rest)"
      unfolding im2_def by (rule stack_ok_set_marker [OF ok1]) (use mk_smi(2) [OF serial_range] arr in \<open>auto simp: marker_ok_def\<close>)
    have set: "runs (on_stack (fr_set_marker fp t Ensure) im1) R" if "R im2" for R
      using fr_set_marker_ensure [OF w, of t] that len floor by (simp add: runs_on_stack im2_def sl1)
    have sl2: "im_slots im2 = (im_slots im)[im_sp im := v, fp + 5 := mk_smi (w AND FRAME_SERIAL_MASK), fp + 6 := t]"
      "im_sp im2 = im_sp im" "im_fp im2 = fp" "im_objs im2 = im_objs im1" "im_nil im2 = im_nil im"
      by (simp_all add: im2_def sl1)
    have env2: "same_env im im2" unfolding im2_def by (rule same_env_trans [OF env1]) simp
    define im4 where "im4 = (pushed [h] im2)\<lparr>im_bci := BCI_RESUME_UNWIND\<rparr>"
    have ok4: "stack_ok im4 (fp # rest)" unfolding im4_def using ok2 len by (simp add: stack_ok_pushed sl2)
    have sl4: "im_slots im4 = (im_slots im2)[im_sp im := h]" "im_sp im4 = im_sp im + 1" "im_fp im4 = fp" "im_objs im4 = im_objs im1"
      "im_nil im4 = im_nil im" "im_bci im4 = BCI_RESUME_UNWIND"
      by (simp_all add: im4_def sl2)
    have env4: "same_env im im4" unfolding im4_def by (rule same_env_trans [OF env2]) (auto simp: same_env_def pushed_def intro: exI [of _ "lv_header_klass (im_lk im2)"])
    have below4: "unchanged_below (fp + 5) im im4"
      using env4 ext1 floor by (simp add: unchanged_below_def sl4 sl2)
    note cl4 = closure_ok_ext [OF ext1 cl(1)]
    have m: "method_ok (im_objs im) (c_method (im_objs im) h)" using cl(1) by (simp add: closure_ok_def)
    note m4 = method_ok_ext [OF ext1 m] and mf = method_ok_ext [OF ext1 r(8)]
    have fl4: "im_floor im4 = im_sp im" using floor mf by (simp add: im_floor_def sl4 sl2)
    have "runs (activate_block_interp h 0 im4) (\<lambda>a. runs (case a of (im, r) \<Rightarrow> i_assert (r = PR_Activated) (Inr im)) Q)"
    proof (rule runs_activate_block_stack [OF ok4])
      show "closure_ok (im_objs im4) h" "m_argc (im_objs im4) (c_method (im_objs im4) h) = 0" "im_floor im4 + 0 < im_sp im4"
        "im_slots im4 ! (im_sp im4 - 0 - 1) = h" "im_bci im4 < 2 ^ 61"
        using cl4 cl(2) m4 fl4 len by (simp_all add: sl4 sl2 BCI_RESUME_UNWIND_def)
      fix im' assume ok': "stack_ok im' (im_sp im4 # fp # rest)" and be: "block_entered h im4 im'" and p: "frame_pushed (c_method (im_objs im4) h) (im_bci im4)
          (c_copied (im_objs im4) h ! 0) (block_temps (im_objs im4) (im_nil im4) h) im4 im'"
      from p have ext': "objs_ext (im_objs im1) (im_objs im')" and agree: "\<And>i. i < im_sp im4 \<Longrightarrow> im_slots im' ! i = im_slots im4 ! i"
        and env': "same_env im4 im'" by (auto simp: frame_pushed_def sl4)
      have nil': "im_nil im' = im_nil im" using same_env_nil [OF env'] sl4 by simp
      have "im_objs im' t = Some (token_object im s v)"
        by (rule block_entered_objs [OF stack_okD(1) [OF ok4] be]) (simp add: sl4 sl1)
      moreover have "im_slots im' ! (fp + 6) = t" using agree [of "fp + 6"] floor len by (simp add: sl4 sl2)
      ultimately have "token_at im' fp home v" using s new(2) nil' by (simp add: token_at_def token_object_def)
      moreover have "unchanged_below (fp + 5) im im'"
        by (rule unchanged_below_trans [OF below4 frame_pushed_unchanged [OF p]]) (use floor in \<open>simp add: sl4\<close>)
      moreover have "smi_value (im_slots im' ! (im_sp im4 + 2)) = int BCI_RESUME_UNWIND"
        using p mk_smi(3) [of "int BCI_RESUME_UNWIND"] by (simp add: frame_pushed_def sl4(6)) (simp add: BCI_RESUME_UNWIND_def)
      moreover have "im_slots im' ! (im_sp im4 - 1) = h" using agree [of "im_sp im"] len sl2(2) by (simp add: sl4 sl2(1))
      moreover have meth: "im_slots im' ! im_sp im4 = c_method (im_objs im) h" using p cl4(2) by (simp add: frame_pushed_def sl4(4))
      moreover have "m_argc (im_objs im') (im_slots im' ! im_sp im4) = 0"
        using method_ok_ext(2) [OF ext' m4(1)] m4(2) cl(2) by (simp add: meth)
      moreover have "im_slots im' ! (im_sp im4 + 6) = im_nil im'" using p nil' by (simp add: frame_pushed_def sl4(5))
      moreover have "fp + 8 + m_ntemps (im_objs im) (im_slots im ! fp) = im_sp im4" using floor by (simp add: sl4(2))
      ultimately have "suspended im fp rest home v im'"
        unfolding suspended_def Let_def h [symmetric] using ok' by (simp only: simp_thms)
      then show "(\<lambda>a. runs (case a of (im, r) \<Rightarrow> i_assert (r = PR_Activated) (Inr im)) Q) (im', PR_Activated)" using Q by simp
    qed
    then have "runs (push h im2) (\<lambda>im. runs (activate_block_interp h 0 (im\<lparr>im_bci := BCI_RESUME_UNWIND\<rparr>))
        (\<lambda>a. runs (case a of (im, r) \<Rightarrow> i_assert (r = PR_Activated) (Inr im)) Q))"
      by (simp add: runs_push im4_def)
    then have "(\<lambda>im. runs (push h im) (\<lambda>im. runs (activate_block_interp h 0 (im\<lparr>im_bci := BCI_RESUME_UNWIND\<rparr>))
        (\<lambda>a. runs (case a of (im, r) \<Rightarrow> i_assert (r = PR_Activated) (Inr im)) Q))) im2" by simp
    then show ?thesis by (simp only: runs_rbind) (rule set)
  qed
  then show ?thesis by (simp add: case_prod_beta) (rule runs_alloc_unwind_token [OF ok home], simp)
qed

end
