(* ===== verification/UnwindRun.thy ===== *)
theory UnwindRun
  imports Unwinding
begin

unbundle bit_operations_syntax

text \<open>
  Complete unwinds and returns: what is delivered to whom, and which handlers run on the way.
\<close>

section \<open>Delivering a result\<close>

fun step_result :: "unwind_step \<Rightarrow> oop option" where
  "step_result (Returned_from_home r) = r"
| "step_result Escaped = Some NLR_SENTINEL"
| "step_result Ran_handler = None"
| "step_result Cannot_return = None"

text \<open>The frame \<open>fp\<close> is gone, the result is in the place of its receiver and the caller resumes after the
  send; or there was no caller, and the result is the answer.\<close>

definition delivered :: "imach \<Rightarrow> nat \<Rightarrow> nat list \<Rightarrow> oop \<Rightarrow> imach \<times> oop option \<Rightarrow> bool" where
  "delivered im fp callers v = (\<lambda>(im', out).
     let base = frame_base (im_objs im) (im_slots im) fp in
       unchanged_below base im im' \<and> im_slots im' ! base = v
       \<and> (case callers of
            [] \<Rightarrow> out = Some v \<and> \<not> ps_has_frame (im_stack im') \<and> im_sp im' = base
          | caller # _ \<Rightarrow> out = None \<and> stack_ok im' callers \<and> im_sp im' = base + 1
              \<and> im_method im' = Some (im_slots im ! caller) \<and> im_bci im' = i64_as_usize (smi_value (im_slots im ! (fp + 2)))))"

definition plain_bci :: "imach \<Rightarrow> nat \<Rightarrow> bool" where
  "plain_bci im fp \<longleftrightarrow>
     i64_as_usize (smi_value (im_slots im ! (fp + 2))) \<notin> {BCI_RESUME_ENSURE_RET, BCI_RESUME_UNWIND, BCI_RESUME_CANNOT_RETURN}"

text \<open>The machine a delivery goes on with: \<open>fp\<close> popped down to its receiver, its caller active.\<close>

definition returned_to :: "nat \<Rightarrow> nat \<Rightarrow> oop \<Rightarrow> imach \<Rightarrow> imach" where
  "returned_to base caller v im =
     set_stack im \<lparr>ps_slots = (im_slots im)[base := v], ps_sp = base + 1, ps_fp = caller, ps_has_frame = True\<rparr>"

lemma returned_to_simps [simp]:
  "im_slots (returned_to base caller v im) = (im_slots im)[base := v]" "im_sp (returned_to base caller v im) = base + 1"
  "im_fp (returned_to base caller v im) = caller" "ps_has_frame (im_stack (returned_to base caller v im))"
  "im_objs (returned_to base caller v im) = im_objs im" "im_lk (returned_to base caller v im) = im_lk im"
  "same_env im (returned_to base caller v im)"
  by (simp_all add: returned_to_def)

lemma same_env_set_regs [simp]: "same_env im (set_regs m b im)"
  by (auto simp: same_env_def set_regs_def intro: exI [of _ "lv_header_klass (im_lk im)"])

lemma caller_frames:
  assumes ok: "stack_ok im (fp # caller # rest)"
  shows "caller + 7 + m_ntemps (im_objs im) (im_slots im ! caller) \<le> frame_base (im_objs im) (im_slots im) fp"
    "frame_base (im_objs im) (im_slots im) fp < fp" "fp < im_sp im"
    "frames_ok (im_objs im) (im_nil im) (im_slots im) (caller # rest) (frame_base (im_objs im) (im_slots im) fp)"
    "smi_value (im_slots im ! (fp + 1)) = int caller"
  using stack_okD(2) [OF ok] by (auto simp: is_frame_def Let_def)

lemma stack_ok_returned_to:
  assumes ok: "stack_ok im (fp # caller # rest)" and base: "base = frame_base (im_objs im) (im_slots im) fp"
  shows "stack_ok (returned_to base caller v im) (caller # rest)"
proof (rule stack_okI)
  note c = caller_frames [OF ok] and d = stack_okD [OF ok]
  show "machine_ok (returned_to base caller v im)"
    by (rule machine_ok_env [OF d(1)]) (use c d base in simp_all)
  have "frames_ok (im_objs im) (im_nil im) ((im_slots im)[base := v]) (caller # rest) base"
    using c(4) unfolding base [symmetric] by (rule frames_ok_cong) (use c d base in simp_all)
  then have "frames_ok (im_objs im) (im_nil im) ((im_slots im)[base := v]) (caller # rest) (base + 1)"
    by (rule frames_ok_lim) (use c d base in simp_all)
  then show "frames_ok (im_objs (returned_to base caller v im)) (im_nil (returned_to base caller v im))
      (im_slots (returned_to base caller v im)) (caller # rest) (im_sp (returned_to base caller v im))" by simp
qed simp_all

lemma pop_and_deliver_caller:
  assumes ok: "stack_ok im (fp # caller # rest)" and base: "base = frame_base (im_objs im) (im_slots im) fp"
    and bci: "bci = i64_as_usize (smi_value (im_slots im ! (fp + 2)))"
  shows "pop_and_deliver P v im =
    (let im' = returned_to base caller v im in
     if bci = BCI_RESUME_ENSURE_RET then resume_ensure_ret P im'
     else if bci = BCI_RESUME_UNWIND then resume_unwind P im'
     else if bci = BCI_RESUME_CANNOT_RETURN then Some (Inl (Exit 1))
     else returns (set_regs (im_slots im ! caller) bci im', None))"
proof -
  note c = caller_frames [OF ok] and d = stack_okD [OF ok] and r = stack_ok_reads [OF ok list.set_intros(1)]
  have lt: "caller < 2 ^ 22" using stack_ok_reads(13) [OF ok, of caller] by simp
  then have u: "i64_as_usize (int caller) = caller" by (intro i64_as_usize_int) simp
  have fp: "im_fp im = fp" using d(4) by simp
  have bl: "base < length (im_slots im)" using c(2,3) d(5) unfolding base by linarith
  let ?im = "returned_to base caller v im"
  have m: "fr_method (im_objs ?im) (im_stack ?im) caller = Inr (im_slots ?im ! caller)"
    by (rule stack_ok_reads(1) [OF stack_ok_returned_to [OF ok base]]) simp
  have sl: "im_slots ?im ! caller = im_slots im ! caller" using c base by simp
  have 1: "on_stack (st_set base v) im = Inr (set_stack im ((im_stack im)\<lparr>ps_slots := (im_slots im)[base := v]\<rparr>))"
    using bl by (simp add: on_stack_def st_set_def)
  have 2: "set_stack (set_sp (base + 1) (set_stack im ((im_stack im)\<lparr>ps_slots := (im_slots im)[base := v]\<rparr>)))
      (activate_frame caller (im_stack (set_sp (base + 1) (set_stack im ((im_stack im)\<lparr>ps_slots := (im_slots im)[base := v]\<rparr>))))) = ?im"
    by (simp add: set_sp_def activate_frame_def returned_to_def set_stack_def)
  have neq: "int caller \<noteq> ENTRY_FRAME_SENTINEL" by (simp add: ENTRY_FRAME_SENTINEL_def)
  show ?thesis
    unfolding pop_and_deliver_def pop_and_deliver_with_def Let_def fp r(3) r(4) r(5) base [symmetric] bci [symmetric] c(5)
      resume_ensure_ret_def resume_unwind_def
    using 2 m sl neq by (simp add: 1 u)
qed

lemma pop_and_deliver_entry:
  assumes ok: "stack_ok im [fp]" and base: "base = frame_base (im_objs im) (im_slots im) fp"
  shows "pop_and_deliver P v im =
    returns (set_stack im \<lparr>ps_slots = (im_slots im)[base := v], ps_sp = base, ps_fp = fp, ps_has_frame = False\<rparr>, Some v)"
proof -
  note d = stack_okD [OF ok] and r = stack_ok_reads [OF ok list.set_intros(1)]
  have fp: "im_fp im = fp" using d(4) by simp
  have bl: "base < length (im_slots im)" using r(9,12) d(5) unfolding base by linarith
  have s: "smi_value (im_slots im ! (fp + 1)) = ENTRY_FRAME_SENTINEL" using d(2) by simp
  have "on_stack (st_set base v) im = Inr (set_stack im ((im_stack im)\<lparr>ps_slots := (im_slots im)[base := v]\<rparr>))"
    using bl by (simp add: on_stack_def st_set_def)
  then show ?thesis
    unfolding pop_and_deliver_def pop_and_deliver_with_def Let_def fp r(3) r(4) r(5) base [symmetric] s
    using fp by (simp add: set_sp_def set_stack_def deactivate_def)
qed

lemma pop_and_deliver_plain:
  assumes ok: "stack_ok im (fp # callers)" and plain: "plain_bci im fp"
  shows "cruns (pop_and_deliver P v im) (delivered im fp callers v)"
proof (cases callers)
  case Nil
  let ?b = "frame_base (im_objs im) (im_slots im) fp"
  from stack_ok_reads [OF ok, of fp] have "?b < fp" "fp < im_sp im" by simp_all
  then have b: "?b < length (im_slots im)" using stack_okD(5) [OF ok] by simp
  from ok Nil have ok: "stack_ok im [fp]" by simp
  show ?thesis unfolding pop_and_deliver_entry [OF ok refl] Nil using b
    by (auto simp: delivered_def Let_def unchanged_below_def)
next
  case (Cons caller rest)
  let ?b = "frame_base (im_objs im) (im_slots im) fp" and ?bci = "i64_as_usize (smi_value (im_slots im ! (fp + 2)))"
  from ok Cons have ok: "stack_ok im (fp # caller # rest)" by simp
  note c = caller_frames [OF ok]
  have b: "?b < length (im_slots im)" using c stack_okD(5) [OF ok] by simp
  have "stack_ok (set_regs (im_slots im ! caller) ?bci (returned_to ?b caller v im)) (caller # rest)"
    using stack_ok_returned_to [OF ok refl] by (simp add: stack_ok_def machine_ok_def)
  moreover have "same_env im (set_regs (im_slots im ! caller) ?bci (returned_to ?b caller v im))"
    by (rule same_env_trans [OF returned_to_simps(7) same_env_set_regs])
  ultimately show ?thesis
    unfolding pop_and_deliver_caller [OF ok refl refl] Cons using plain b
    by (simp add: plain_bci_def Let_def delivered_def unchanged_below_def)
qed


section \<open>Resuming a suspended unwind\<close>

definition resumed :: "nat \<Rightarrow> nat \<Rightarrow> oop \<Rightarrow> imach \<Rightarrow> imach" where
  "resumed nf fp r im =
     set_stack im \<lparr>ps_slots = (im_slots im)[nf - 1 := r, fp + 6 := im_nil im], ps_sp = nf - 1, ps_fp = fp, ps_has_frame = True\<rparr>"

lemma resumed_simps [simp]:
  "im_slots (resumed nf fp r im) = (im_slots im)[nf - 1 := r, fp + 6 := im_nil im]" "im_sp (resumed nf fp r im) = nf - 1"
  "im_fp (resumed nf fp r im) = fp" "ps_has_frame (im_stack (resumed nf fp r im))"
  "im_objs (resumed nf fp r im) = im_objs im" "im_lk (resumed nf fp r im) = im_lk im" "same_env im (resumed nf fp r im)"
  by (simp_all add: resumed_def)

lemma stack_ok_resumed:
  assumes ok: "stack_ok im (nf # fp # rest)" and argc: "m_argc (im_objs im) (im_slots im ! nf) = 0"
  shows "stack_ok (resumed nf fp r im) (fp # rest)"
proof (rule stack_okI)
  have base: "nf - 1 = frame_base (im_objs im) (im_slots im) nf" by (simp add: argc)
  note c = caller_frames [OF ok, folded base] and d = stack_okD [OF ok]
  have smi: "is_smi (im_slots im ! (fp + 5))" by (rule stack_ok_reads(11) [OF ok]) simp
  show "machine_ok (resumed nf fp r im)"
    by (rule machine_ok_env [OF d(1)]) (use c d in simp_all)
  have "frames_ok (im_objs im) (im_nil im) ((im_slots im)[nf - 1 := r]) (fp # rest) (nf - 1)"
    using c(4) by (rule frames_ok_cong) (use c d in simp_all)
  then have "frames_ok (im_objs im) (im_nil im) (((im_slots im)[nf - 1 := r])[fp + 5 := im_slots im ! (fp + 5), fp + 6 := im_nil im]) (fp # rest) (nf - 1)"
    by (rule frames_ok_set_marker) (use c d smi in \<open>simp_all add: marker_ok_def\<close>)
  moreover have "((im_slots im)[nf - 1 := r])[fp + 5 := im_slots im ! (fp + 5)] = (im_slots im)[nf - 1 := r]"
    using c(1) by (intro list_update_same_conv [THEN iffD2]) (use c d in simp_all)
  ultimately show "frames_ok (im_objs (resumed nf fp r im)) (im_nil (resumed nf fp r im)) (im_slots (resumed nf fp r im))
      (fp # rest) (im_sp (resumed nf fp r im))" by simp
qed simp_all

lemma do_return_unmarked:
  assumes "stack_ok im (fp # rest)" and "handler_of im fp = im_nil im"
  shows "do_return P v im = pop_and_deliver P v im"
  using stack_ok_reads(7) [OF assms(1) list.set_intros(1)] stack_okD(4) [OF assms(1)] assms(2)
  by (subst do_return.simps) (simp add: do_return_with_def pop_and_deliver_def)

lemma do_return_resumes:
  assumes ok: "stack_ok im (nf # fp # rest)" and argc: "m_argc (im_objs im) (im_slots im ! nf) = 0"
    and nil: "handler_of im nf = im_nil im" and bci: "smi_value (im_slots im ! (nf + 2)) = int BCI_RESUME_UNWIND"
    and tok: "token_at im fp home v"
  shows "do_return P r im =
    cbind (continue_unwind P home v None (resumed nf fp r im)) (\<lambda>(im', st). returns (im', step_result st))"
proof -
  have base: "nf - 1 = frame_base (im_objs im) (im_slots im) nf" by (simp add: argc)
  note c = caller_frames [OF ok, folded base] and d = stack_okD [OF ok]
  obtain ob s where t: "im_objs im (handler_of im fp) = Some ob" "ho_format ob = IndexableOops" "ho_tail ob = [s, v]"
    "is_smi s" "unpack_home_ref s = home" "handler_of im fp \<noteq> im_nil im" using tok by (auto simp: token_at_def)
  let ?R = "returned_to (nf - 1) fp r im"
  have u: "i64_as_usize (int BCI_RESUME_UNWIND) = BCI_RESUME_UNWIND" by (intro i64_as_usize_int) (simp add: BCI_RESUME_UNWIND_def)
  have neq: "BCI_RESUME_UNWIND \<noteq> BCI_RESUME_ENSURE_RET" by (simp add: BCI_RESUME_UNWIND_def BCI_RESUME_ENSURE_RET_def)
  have "do_return P r im = resume_unwind P ?R"
    unfolding do_return_unmarked [OF ok nil] pop_and_deliver_caller [OF ok base refl] bci u using neq by (simp add: Let_def)
  moreover have "resume_unwind P ?R = cbind (continue_unwind P home v None (resumed nf fp r im)) (\<lambda>(im', st). returns (im', step_result st))"
  proof -
    let ?S = "set_sp (nf - 1) ?R"
    have okS: "stack_ok ?S (fp # rest)"
      by (rule stack_ok_set_sp [OF stack_ok_returned_to [OF ok base]]) (use c in \<open>auto simp: im_floor_def\<close>)
    have tS: "handler_of ?S fp = handler_of im fp" using c by simp
    have fl: "fp + 6 < length (im_slots im)" using c(1-3) d(5) by linarith
    have "marker_class ?S fp = Inr (MC_Token (handler_of im fp))"
      using stack_ok_reads(7) [OF okS list.set_intros(1)] t unfolding armed_def tS by (simp add: obj_try_from_Some)
    moreover have "clear_marker fp ?S = Inr (resumed nf fp r im)"
      using fl by (simp add: clear_marker_def on_stack_def fr_clear_marker_def st_set_def FRAME_MARKER_def resumed_def set_sp_def set_stack_def returned_to_def)
    moreover have "rbind (tail_at (im_objs im) (handler_of im fp) 0) (\<lambda>w. expect (smi_try_from w)) = Inr s"
      "tail_at (im_objs im) (handler_of im fp) 1 = Inr v"
      using t by (simp_all add: tail_at_def smi_try_from_def)
    ultimately show ?thesis
      using t(5) by (simp add: resume_unwind_def resume_unwind_with_def Let_def continue_unwind_def split: unwind_step.split)
         (auto simp: cbind_def fun_eq_iff split: option.splits sum.splits unwind_step.splits)
  qed
  ultimately show ?thesis by simp
qed

end
