(* ===== verification/NonLocal.thy ===== *)
theory NonLocal
  imports UnwindRun
begin

unbundle bit_operations_syntax

text \<open>
  Non-local returns over any number of handlers, and \<open>ensure:\<close> on the normal path. The handlers
  themselves are run by the guest: an argument that takes the machine at a block's first bytecode to
  the machine at its return.
\<close>

section \<open>Handlers run by the guest\<close>

type_synonym guest = "imach \<Rightarrow> imach \<times> oop"

text \<open>What the run of a block leaves: its own frame active again, everything below its temporaries as it
  was, the unwind tokens of the frames below untouched.\<close>

definition block_ran :: "imach \<Rightarrow> imach \<Rightarrow> bool" where
  "block_ran im im' \<longleftrightarrow>
     (\<forall>fps. stack_ok im fps \<longrightarrow> stack_ok im' fps \<and> unchanged_below (im_fp im + 7) im im'
        \<and> (\<forall>fp \<in> set fps. is_array (im_objs im) (handler_of im fp) \<longrightarrow>
              im_objs im' (handler_of im fp) = im_objs im (handler_of im fp)))"

definition runs_blocks :: "guest \<Rightarrow> bool" where
  "runs_blocks G \<longleftrightarrow> (\<forall>im. block_ran im (fst (G im)))"

text \<open>The closure whose frame is active.\<close>

definition running_closure :: "imach \<Rightarrow> oop" where
  "running_closure im = im_slots im ! frame_base (im_objs im) (im_slots im) (im_fp im)"

fun run_handlers :: "prims \<Rightarrow> guest \<Rightarrow> nat \<Rightarrow> imach \<times> oop option \<Rightarrow> (imach \<times> oop option \<times> oop list) ires option" where
  "run_handlers P G 0 (im, out) = returns (im, out, [])"
| "run_handlers P G (Suc n) (im, out) =
     (let (im1, r) = G im in
      cbind (do_return P r im1) (\<lambda>s.
      cbind (run_handlers P G n s) (\<lambda>(im', out', log). returns (im', out', running_closure im # log))))"

definition unwind_then :: "prims \<Rightarrow> guest \<Rightarrow> nat \<Rightarrow> home_ref \<Rightarrow> oop \<Rightarrow> oop option \<Rightarrow> imach \<Rightarrow>
    (imach \<times> oop option \<times> oop list) ires option" where
  "unwind_then P G n home v closure im =
     cbind (continue_unwind P home v closure im) (\<lambda>(im', st). run_handlers P G n (im', step_result st))"

section \<open>The home of an unwind\<close>

text \<open>The slots at \<open>hr_fp home\<close> are live and hold the serial of \<open>home\<close>; the frame may be of an outer
  activation, below the entry frame of the chain.\<close>

definition home_in :: "imach \<Rightarrow> home_ref \<Rightarrow> bool" where
  "home_in im home \<longleftrightarrow>
     hr_proc home = 0 \<and> hr_fp home + 6 < im_sp im \<and> is_smi (im_slots im ! (hr_fp home + 5))
     \<and> (word_of_int (smi_value (im_slots im ! (hr_fp home + 5)) AND FRAME_SERIAL_MASK) :: u32) = hr_serial home"

lemma home_is_live_in:
  assumes ok: "stack_ok im fps" and sp: "hr_fp home + 6 < im_sp im" and home: "home_in im home"
  shows "home_is_live im home = Inr (is_smi (im_slots im ! (hr_fp home + 5)))"
proof -
  have g: "get im (hr_fp home + 5) = Inr (im_slots im ! (hr_fp home + 5))"
    using sp stack_okD(5) [OF ok] by (simp add: get_def st_get_def)
  show ?thesis
    using home sp g by (simp add: home_is_live_def home_in_def FRAME_MARKER_def FRAME_SERIAL_def smi_try_from_def)
qed

lemma fp_not_sentinel: "stack_ok im fps \<Longrightarrow> im_fp im \<noteq> i64_as_usize ENTRY_FRAME_SENTINEL"
proof -
  assume ok: "stack_ok im fps"
  then have "im_fp im < 2 ^ 22" using stack_okD(4,7) [OF ok] stack_ok_reads(13) [OF ok, of "im_fp im"] by simp
  then show ?thesis by (simp add: i64_as_usize_def ENTRY_FRAME_SENTINEL_def)
qed

lemma continue_unwind_chain:
  assumes ok: "stack_ok im (pre @ suf)" and to: "unwinds_to pre suf (hr_fp home)" and home: "home_in im home"
  shows "continue_unwind P home v c im =
    (case filter (armed im) pre of
       [] \<Rightarrow> if suf = [] then Some (escape_past (last pre) home v c im)
             else cbind (do_return P v (popped_to (hr_fp home) im)) (\<lambda>(im, r). returns (im, Returned_from_home r))
     | mfp # _ \<Rightarrow> cbind (run_handler mfp (handler_of im mfp) home v im) (\<lambda>im. returns (im, Ran_handler)))"
proof -
  note d = stack_okD [OF ok]
  have live: "home_is_live im home = Inr True"
    using home_is_live_in [OF ok _ home] home by (simp add: home_in_def)
  have scan: "innermost_marked_frame im (im_fp im) (hr_fp home) =
      returns (case filter (armed im) pre of
        [] \<Rightarrow> if suf = [] then Crossed_boundary (last pre) else Reached_home | fp # _ \<Rightarrow> Marked fp (handler_of im fp))"
    using innermost_marked_frame_chain [OF d(2) to d(5,6)] d(4) by simp
  have pop: "pop_frames_above (hr_fp home) im = returns (popped_to (hr_fp home) im)" if "suf \<noteq> []"
    using pop_frames_above_chain(1) [of im pre "hr_fp home" "tl suf"] that ok to by (auto simp: unwinds_to_def split: list.splits)
  show ?thesis
    using fp_not_sentinel [OF ok] live scan pop
    by (auto simp add: continue_unwind_def continue_unwind_with_def split: list.splits)
qed

lemma filter_split: "filter p xs = y # ys \<Longrightarrow> \<exists>us vs. xs = us @ y # vs \<and> p y \<and> filter p us = [] \<and> filter p vs = ys"
  by (auto simp: filter_eq_Cons_iff filter_empty_conv)

lemma runs_run_handler:
  assumes ok: "stack_ok im (pre @ fp # rest)" and a: "armed im fp" and home: "hr_fp home \<le> HOME_REF_FP_MAX"
    and Q: "\<And>im'. suspended (popped_to fp im) fp rest home v im' \<Longrightarrow> Q im'"
  shows "cruns (run_handler fp (handler_of im fp) home v im) Q"
proof -
  note p = pop_frames_above_chain [OF ok]
  have "armed (popped_to fp im) fp" using a by (simp add: armed_def)
  from runs_suspend [OF p(2) _ this, where h = "handler_of im fp" and home = home and v = v and Q = Q] home Q
  have "runs (rbind (alloc_unwind_token home v (popped_to fp im)) (\<lambda>(im', token).
      rbind (on_stack (fr_set_marker fp token Ensure) im') (\<lambda>im'.
      rbind (push (handler_of im fp) im') (\<lambda>im'.
      rbind (activate_block_interp (handler_of im fp) 0 (im'\<lparr>im_bci := BCI_RESUME_UNWIND\<rparr>)) (\<lambda>(im', r).
       i_assert (r = PR_Activated) (Inr im')))))) Q" by (simp add: im_floor_def)
  then show ?thesis by (simp add: run_handler_def p(1) case_prod_beta)
qed


section \<open>What survives\<close>

lemma unchangedD:
  assumes "unchanged_below n im im'"
  shows "i < n \<Longrightarrow> im_slots im' ! i = im_slots im ! i" "objs_ext (im_objs im) (im_objs im')" "im_nil im' = im_nil im"
  using assms same_env_nil [of im im'] by (auto simp: unchanged_below_def)

lemma armed_unchanged:
  assumes ok: "stack_ok im fps" and mem: "f \<in> set fps" and u: "unchanged_below n im im'" and n: "f + 6 < n"
  shows "armed im' f = armed im f" "handler_of im' f = handler_of im f"
proof -
  note u' = unchangedD [OF u]
  show h: "handler_of im' f = handler_of im f" by (rule u'(1) [OF n])
  let ?w = "handler_of im f"
  have "is_closure (im_objs im') ?w \<longleftrightarrow> is_closure (im_objs im) ?w" if "?w \<noteq> im_nil im"
  proof
    assume c: "is_closure (im_objs im') ?w"
    have "\<not> is_array (im_objs im') ?w" using c by (auto simp: obj_try_from_def split: option.splits if_splits)
    then have "\<not> is_array (im_objs im) ?w" using try_from_ext [OF u'(2)] by blast
    with that stack_ok_reads(10) [OF ok mem] show "is_closure (im_objs im) ?w" by (auto simp: marker_ok_def closure_ok_def)
  qed (use try_from_ext [OF u'(2)] in blast)
  then show "armed im' f = armed im f" unfolding armed_def h u'(3) by blast
qed

lemma delivered_unchanged:
  assumes ok: "stack_ok im (pre @ fp # rest)" and u: "unchanged_below n im im1" and n: "fp + 5 \<le> n"
    and d: "delivered im1 fp rest v x"
  shows "delivered im fp rest v x"
proof -
  note u' = unchangedD [OF u]
  have mem: "fp \<in> set (pre @ fp # rest)" by simp
  note r = stack_ok_reads [OF ok mem]
  have s: "im_slots im1 ! fp = im_slots im ! fp" "im_slots im1 ! (fp + 2) = im_slots im ! (fp + 2)" using u'(1) n by simp_all
  note m = method_ok_ext(2) [OF u'(2) r(8)]
  have caller: "im_slots im1 ! c = im_slots im ! c" if eq: "rest = c # rest'" for c rest'
  proof -
    obtain lim where "frames_ok (im_objs im) (im_nil im) (im_slots im) (fp # c # rest') lim"
      using frames_ok_suffix [OF stack_okD(2) [OF ok]] unfolding eq by blast
    from frames_ok_sorted [OF this, of c] show ?thesis using u'(1) n by simp
  qed
  have "unchanged_below (frame_base (im_objs im) (im_slots im) fp) im im1" by (rule unchanged_below_le [OF u]) (use n in simp)
  with d show ?thesis
    unfolding delivered_def Let_def s m
    by (cases x) (auto simp: caller split: list.splits intro: unchanged_below_trans)
qed

lemma unchanged_popped [simp]: "unchanged_below n im (popped_to fp im)"
  by (simp add: unchanged_below_def)

lemma unchanged_resumed: "n \<le> fp + 5 \<Longrightarrow> fp + 6 < nf \<Longrightarrow> unchanged_below n im (resumed nf fp r im)"
  by (auto simp: unchanged_below_def)

section \<open>Non-local returns\<close>

lemma handler_returns:
  assumes G: "runs_blocks G" and s: "suspended im fp rest home v im1" and g: "G im1 = (im2, r)" and fl: "stack_ok im (fp # rest)"
  shows "\<exists>im3. do_return P r im2 = cbind (continue_unwind P home v None im3) (\<lambda>(im', st). returns (im', step_result st))
      \<and> stack_ok im3 (fp # rest) \<and> unchanged_below (fp + 5) im im3 \<and> handler_of im3 fp = im_nil im3
      \<and> running_closure im1 = handler_of im fp"
proof -
  let ?nf = "fp + 8 + m_ntemps (im_objs im) (im_slots im ! fp)"
  from s have ok1: "stack_ok im1 (?nf # fp # rest)" and u1: "unchanged_below (fp + 5) im im1"
    and h: "im_slots im1 ! (?nf - 1) = handler_of im fp" and argc: "m_argc (im_objs im1) (im_slots im1 ! ?nf) = 0"
    and bci: "smi_value (im_slots im1 ! (?nf + 2)) = int BCI_RESUME_UNWIND" and nil: "im_slots im1 ! (?nf + 6) = im_nil im1"
    and tok: "token_at im1 fp home v"
    by (auto simp only: suspended_def Let_def)
  from G g have "block_ran im1 im2" by (metis runs_blocks_def fst_conv)
  with ok1 have ok2: "stack_ok im2 (?nf # fp # rest)" and u2: "unchanged_below (?nf + 7) im1 im2"
    and keep: "is_array (im_objs im1) (handler_of im1 fp) \<Longrightarrow> im_objs im2 (handler_of im1 fp) = im_objs im1 (handler_of im1 fp)"
    using stack_okD(4) [OF ok1] by (auto simp: block_ran_def)
  note u2' = unchangedD [OF u2] and r1 = stack_ok_reads [OF ok1 list.set_intros(1)]
  have argc2: "m_argc (im_objs im2) (im_slots im2 ! ?nf) = 0"
    using u2'(1) [of ?nf] method_ok_ext(2) [OF u2'(2) r1(8)] argc by simp
  have nil2: "handler_of im2 ?nf = im_nil im2" using u2'(1) [of "?nf + 6"] u2'(3) nil by simp
  have bci2: "smi_value (im_slots im2 ! (?nf + 2)) = int BCI_RESUME_UNWIND" using u2'(1) [of "?nf + 2"] bci by simp
  have h2: "handler_of im2 fp = handler_of im1 fp" using u2'(1) [of "fp + 6"] by simp
  from tok have "is_array (im_objs im1) (handler_of im1 fp)" by (auto simp: token_at_def obj_try_from_Some)
  with keep tok have tok2: "token_at im2 fp home v" unfolding token_at_def h2 u2'(3) by simp
  let ?im3 = "resumed ?nf fp r im2"
  have "unchanged_below (fp + 5) im ?im3"
    by (rule unchanged_below_trans [OF u1 unchanged_below_trans [OF unchanged_below_le [OF u2] unchanged_resumed]]) simp_all
  moreover have "handler_of ?im3 fp = im_nil ?im3" using caller_frames [OF ok2] stack_okD(5) [OF ok2] by simp
  moreover have "running_closure im1 = handler_of im fp"
    unfolding running_closure_def stack_okD(4) [OF ok1] list.sel argc using h by simp
  ultimately show ?thesis
    using do_return_resumes [OF ok2 argc2 nil2 bci2 tok2] stack_ok_resumed [OF ok2 argc2] by blast
qed

definition escaped :: "imach \<Rightarrow> nat \<Rightarrow> home_ref \<Rightarrow> oop \<Rightarrow> imach \<times> oop option \<Rightarrow> bool" where
  "escaped im entry home v = (\<lambda>(im', out).
     let base = frame_base (im_objs im) (im_slots im) entry in
       out = Some NLR_SENTINEL \<and> \<not> ps_has_frame (im_stack im') \<and> im_sp im' = base
       \<and> (\<forall>i < base. im_slots im' ! i = im_slots im ! i) \<and> objs_ext (im_objs im) (im_objs im')
       \<and> (\<exists>c. im_nlr im' = Some \<lparr>nlr_home = home, nlr_value = v, nlr_closure = c\<rparr>))"

text \<open>Where an unwind ends: the home returns \<open>v\<close> to its caller, or the unwind leaves the activation.\<close>

definition unwound :: "imach \<Rightarrow> nat list \<Rightarrow> nat list \<Rightarrow> home_ref \<Rightarrow> oop \<Rightarrow> imach \<times> oop option \<Rightarrow> bool" where
  "unwound im pre suf home v x \<longleftrightarrow> (case suf of [] \<Rightarrow> escaped im (last pre) home v x | h # callers \<Rightarrow> delivered im h callers v x)"

definition unwinding :: "imach \<Rightarrow> nat list \<Rightarrow> nat list \<Rightarrow> home_ref \<Rightarrow> bool" where
  "unwinding im pre suf home \<longleftrightarrow>
     stack_ok im (pre @ suf) \<and> unwinds_to pre suf (hr_fp home) \<and> home_in im home \<and> im_nlr im = None
     \<and> (\<forall>f \<in> set pre. hr_fp home + 7 \<le> f)
     \<and> (suf \<noteq> [] \<longrightarrow> handler_of im (hr_fp home) = im_nil im \<and> plain_bci im (hr_fp home))"

lemma escape_past_entry:
  assumes ok: "stack_ok im pre" and nlr: "im_nlr im = None"
  shows "runs (escape_past (last pre) home v c im) (\<lambda>(im', st). escaped im (last pre) home v (im', step_result st))"
proof -
  have "last pre \<in> set pre" using stack_okD(7) [OF ok] by simp
  from stack_ok_reads(3) [OF ok this] show ?thesis
    using nlr by (simp add: escape_past_def park_nlr_def Let_def escaped_def set_stack_def deactivate_def set_sp_def)
qed

lemma unwind_last_step:
  assumes u: "unwinding im pre suf home" and none: "filter (armed im) pre = []"
  shows "cruns (unwind_then P G 0 home v c im) (\<lambda>(im', out, log). log = [] \<and> unwound im pre suf home v (im', out))"
proof -
  from u have ok: "stack_ok im (pre @ suf)" and to: "unwinds_to pre suf (hr_fp home)" and home: "home_in im home"
    and nlr: "im_nlr im = None" by (simp_all add: unwinding_def)
  show ?thesis
  proof (cases suf)
    case Nil
    with ok have "stack_ok im pre" by simp
    from escape_past_entry [OF this nlr, of home v c] show ?thesis
      using continue_unwind_chain [OF ok to home, of P v c] none Nil
      by (auto simp: unwind_then_def unwound_def case_prod_unfold elim!: runs_mono)
  next
    case (Cons h rest)
    with to have h: "h = hr_fp home" by (simp add: unwinds_to_def)
    with ok Cons have ok': "stack_ok im (pre @ hr_fp home # rest)" by simp
    note p = pop_frames_above_chain [OF ok']
    let ?im = "popped_to (hr_fp home) im"
    from u Cons have "handler_of im (hr_fp home) = im_nil im" "plain_bci im (hr_fp home)" by (simp_all add: unwinding_def)
    then have "cruns (do_return P v ?im) (delivered ?im (hr_fp home) rest v)"
      using do_return_unmarked [OF p(2)] pop_and_deliver_plain [OF p(2)] by (simp add: plain_bci_def)
    then have "cruns (do_return P v ?im) (delivered im (hr_fp home) rest v)"
      by (rule cruns_mono) (rule delivered_unchanged [OF ok' unchanged_popped order.refl])
    then show ?thesis
      using continue_unwind_chain [OF ok to home, of P v c] none Cons h
      by (auto simp: unwind_then_def unwound_def elim!: cruns_mono)
  qed
qed

lemma unwound_unchanged:
  assumes ok: "stack_ok im (p1 @ pre @ suf)" and u: "unchanged_below n im im1"
    and n: "suf = [] \<Longrightarrow> pre \<noteq> [] \<and> last pre + 5 \<le> n" "suf \<noteq> [] \<Longrightarrow> hd suf + 5 \<le> n"
    and d: "unwound im1 pre suf home v x"
  shows "unwound im (p1 @ pre) suf home v x"
proof (cases suf)
  case Nil
  let ?e = "last pre"
  note u' = unchangedD [OF u] and n' = n(1) [OF Nil]
  have mem: "?e \<in> set (p1 @ pre @ suf)" using n' by simp
  have "im_slots im1 ! ?e = im_slots im ! ?e" by (rule u'(1)) (use n' in simp)
  moreover have "m_argc (im_objs im1) (im_slots im ! ?e) = m_argc (im_objs im) (im_slots im ! ?e)"
    by (rule method_ok_ext(2) [OF u'(2) stack_ok_reads(8) [OF ok mem]])
  moreover have "im_slots im1 ! i = im_slots im ! i" if "i < ?e" for i by (rule u'(1)) (use n' that in simp)
  ultimately show ?thesis
    using d Nil n' by (auto simp: unwound_def escaped_def Let_def intro: objs_ext_trans [OF u'(2)])
next
  case (Cons h rest)
  from ok Cons have "stack_ok im ((p1 @ pre) @ h # rest)" by simp
  from delivered_unchanged [OF this u _] d n(2) Cons show ?thesis by (simp add: unwound_def)
qed

lemma unwinding_unchanged:
  assumes u: "unwinding im (p1 @ mfp # p2) suf home" and same: "unchanged_below (mfp + 5) im im1"
    and ok: "stack_ok im1 (mfp # p2 @ suf)" and sp: "mfp + 6 < im_sp im1"
  shows "unwinding im1 (mfp # p2) suf home"
proof -
  note s = unchangedD [OF same]
  have h: "hr_fp home + 7 \<le> mfp" using u by (simp add: unwinding_def)
  have "home_in im1 home" using u s(1) [of "hr_fp home + 5"] h sp by (simp add: unwinding_def home_in_def)
  moreover have "unwinds_to (mfp # p2) suf (hr_fp home)" using u by (auto simp: unwinding_def unwinds_to_def split: list.splits)
  moreover have "im_nlr im1 = None" using u same by (simp add: unwinding_def unchanged_below_def same_env_def)
  moreover have "handler_of im1 (hr_fp home) = handler_of im (hr_fp home)" by (rule s(1)) (use h in simp)
  moreover have "plain_bci im1 (hr_fp home) = plain_bci im (hr_fp home)" using s(1) [of "hr_fp home + 2"] h by (simp add: plain_bci_def)
  ultimately show ?thesis using u ok s(3) by (auto simp: unwinding_def)
qed

lemma unwind_runs_handlers:
  assumes G: "runs_blocks G"
  shows "filter (armed im) pre = fs \<Longrightarrow> unwinding im pre suf home \<Longrightarrow>
    cruns (unwind_then P G (length fs) home v c im)
      (\<lambda>(im', out, log). log = map (handler_of im) fs \<and> unwound im pre suf home v (im', out))"
proof (induction fs arbitrary: im pre c)
  case Nil
  then show ?case using unwind_last_step by simp
next
  case (Cons mfp fs)
  from filter_split [OF Cons.prems(1)] obtain p1 p2 where pre: "pre = p1 @ mfp # p2" and a: "armed im mfp"
    and fs: "filter (armed im) p2 = fs" by blast
  note u = Cons.prems(2) [unfolded pre]
  from u have ok: "stack_ok im (p1 @ mfp # p2 @ suf)" and to: "unwinds_to pre suf (hr_fp home)" and home: "home_in im home"
    and hlt: "hr_fp home + 7 \<le> mfp" by (simp_all add: unwinding_def pre)
  note popped = pop_frames_above_chain(2) [OF ok]
  have lt: "f + 7 \<le> mfp" if "f \<in> set (p2 @ suf)" for f
    using frames_ok_sorted [OF stack_okD(2) [OF popped] that] by (simp only: popped_to_simps) linarith
  have home_le: "hr_fp home \<le> HOME_REF_FP_MAX"
    using stack_ok_reads(13) [OF ok, of mfp] hlt by (simp add: HOME_REF_FP_MAX_def)
  have "cruns (run_handler mfp (handler_of im mfp) home v im) (\<lambda>im1.
      cruns (run_handlers P G (Suc (length fs)) (im1, None))
        (\<lambda>(im', out, log). log = map (handler_of im) (mfp # fs) \<and> unwound im pre suf home v (im', out)))"
  proof (rule runs_run_handler [OF ok a home_le])
    fix im1 assume s: "suspended (popped_to mfp im) mfp (p2 @ suf) home v im1"
    obtain im2 r where g: "G im1 = (im2, r)" by (cases "G im1")
    from handler_returns [OF G s g popped, of P] obtain im3
      where ret: "do_return P r im2 = cbind (continue_unwind P home v None im3) (\<lambda>(im', st). returns (im', step_result st))"
      and ok3: "stack_ok im3 (mfp # p2 @ suf)" and u3: "unchanged_below (mfp + 5) (popped_to mfp im) im3"
      and nil3: "handler_of im3 mfp = im_nil im3" and rc: "running_closure im1 = handler_of im mfp" by auto
    have u4: "unchanged_below (mfp + 5) im im3" by (rule unchanged_below_trans [OF unchanged_popped u3])
    have same: "armed im3 f = armed im f" "handler_of im3 f = handler_of im f" if "f \<in> set p2" for f
      using armed_unchanged [OF ok _ u4, of f] lt [of f] that by auto
    have fs3: "filter (armed im3) (mfp # p2) = fs"
    proof -
      have "\<not> armed im3 mfp" using nil3 by (simp add: armed_def)
      moreover have "filter (armed im3) p2 = filter (armed im) p2" by (rule filter_cong [OF refl]) (use same(1) in simp)
      ultimately show ?thesis using fs by simp
    qed
    have "mfp + 6 < im_sp im3" using stack_ok_reads(12) [OF ok3 list.set_intros(1)] by simp
    note IH = Cons.IH [OF fs3 unwinding_unchanged [OF u u4 ok3 this]]
    have "map (handler_of im3) fs = map (handler_of im) fs" using same(2) by (auto simp flip: fs)
    moreover have "unwound im pre suf home v x" if "unwound im3 (mfp # p2) suf home v x" for x
      unfolding pre by (rule unwound_unchanged [OF _ u4 _ _ that])
        (use ok lt [of "last p2"] lt [of "hd suf"] in auto)
    ultimately have "cruns (unwind_then P G (length fs) home v None im3)
      (\<lambda>(im', out, log). log = map (handler_of im) fs \<and> unwound im pre suf home v (im', out))"
      by (auto intro: cruns_mono [OF IH])
    then show "cruns (run_handlers P G (Suc (length fs)) (im1, None))
        (\<lambda>(im', out, log). log = map (handler_of im) (mfp # fs) \<and> unwound im pre suf home v (im', out))"
      by (simp add: g ret rc unwind_then_def case_prod_unfold)
  qed
  moreover have "stack_ok im (pre @ suf)" using ok pre by simp
  ultimately show ?case
    using continue_unwind_chain [OF _ to home, of P v c] Cons.prems(1) by (simp add: unwind_then_def)
qed

end
