(* ===== verification/Ensuring.thy ===== *)
theory Ensuring
  imports NonLocal
begin

unbundle bit_operations_syntax

text \<open>
  The normal return of a block under \<open>ensure:\<close> or \<open>ifCurtailed:\<close>, and the frames that activations push.
\<close>

section \<open>Returning through a marked frame\<close>

definition return_then :: "prims \<Rightarrow> guest \<Rightarrow> nat \<Rightarrow> oop \<Rightarrow> imach \<Rightarrow> (imach \<times> oop option \<times> oop list) ires option" where
  "return_then P G n r im = cbind (do_return P r im) (run_handlers P G n)"

definition kind_of :: "imach \<Rightarrow> nat \<Rightarrow> marker_kind" where
  "kind_of im fp = (if smi_value (im_slots im ! (fp + 5)) AND FRAME_MARKER_KIND_MASK \<noteq> 0 then IfCurtailed else Ensure)"

text \<open>The machine with the marker of a frame cleared.\<close>

definition unmarked :: "nat \<Rightarrow> imach \<Rightarrow> imach" where
  "unmarked fp im = set_stack im ((im_stack im)\<lparr>ps_slots := (im_slots im)[fp + 6 := im_nil im]\<rparr>)"

lemma unmarked_simps [simp]:
  "im_slots (unmarked fp im) = (im_slots im)[fp + 6 := im_nil im]" "im_sp (unmarked fp im) = im_sp im"
  "im_fp (unmarked fp im) = im_fp im" "im_curtailing (unmarked fp im) = im_curtailing im" "im_objs (unmarked fp im) = im_objs im" "im_lk (unmarked fp im) = im_lk im"
  "im_alloc (unmarked fp im) = im_alloc im" "im_next_frame_serial (unmarked fp im) = im_next_frame_serial im"
  by (simp_all add: unmarked_def set_stack_def)

lemma clear_marker_frame:
  assumes ok: "stack_ok im fps" and mem: "fp \<in> set fps"
  shows "clear_marker fp im = Inr (unmarked fp im)" "stack_ok (unmarked fp im) fps" "unchanged_below (fp + 6) im (unmarked fp im)"
proof -
  note r = stack_ok_reads [OF ok mem]
  have "fp + 6 < length (im_slots im)" using r(12) stack_okD(5) [OF ok] by simp
  then show "clear_marker fp im = Inr (unmarked fp im)"
    by (simp add: clear_marker_def on_stack_def fr_clear_marker_def st_set_def FRAME_MARKER_def unmarked_def)
  have "stack_ok (set_stack im ((im_stack im)\<lparr>ps_slots := (im_slots im)[fp + 5 := im_slots im ! (fp + 5), fp + 6 := im_nil im]\<rparr>)) fps"
    by (rule stack_ok_set_marker [OF ok mem r(11)]) (simp add: marker_ok_def)
  then show "stack_ok (unmarked fp im) fps" by (simp add: unmarked_def)
  have "same_env im (unmarked fp im)" by (simp add: unmarked_def)
  then show "unchanged_below (fp + 6) im (unmarked fp im)" by (simp add: unchanged_below_def)
qed

text \<open>The handler of an \<open>ensure:\<close> frame, activated above the saved result.\<close>

definition intercepted :: "imach \<Rightarrow> nat \<Rightarrow> nat list \<Rightarrow> oop \<Rightarrow> imach \<Rightarrow> bool" where
  "intercepted im fp callers r im' \<longleftrightarrow>
     (let nf = im_sp im + 2 in
      stack_ok im' (nf # fp # callers) \<and> unchanged_below (fp + 6) im im'
      \<and> handler_of im' fp = im_nil im' \<and> im_slots im' ! (nf - 2) = r \<and> im_slots im' ! (nf - 1) = handler_of im fp
      \<and> m_argc (im_objs im') (im_slots im' ! nf) = 0 \<and> fp + 7 + m_ntemps (im_objs im') (im_slots im' ! fp) \<le> nf - 2
      \<and> smi_value (im_slots im' ! (nf + 2)) = int BCI_RESUME_ENSURE_RET \<and> handler_of im' nf = im_nil im')"

lemma runs_intercept:
  assumes ok: "stack_ok im (fp # callers)" and a: "armed im fp"
    and Q: "\<And>im'. intercepted im fp callers r im' \<Longrightarrow> Q (im', None)"
  shows "runs (intercept_ensure_return fp (handler_of im fp) r im) Q"
proof -
  let ?h = "handler_of im fp" and ?c = "unmarked fp im"
  note cm = clear_marker_frame [OF ok list.set_intros(1)] and rd = stack_ok_reads [OF ok list.set_intros(1)] and d = stack_okD [OF ok]
  from armedD [OF ok list.set_intros(1) a] have cl: "closure_ok (im_objs im) ?h" "m_argc (im_objs im) (c_method (im_objs im) ?h) = 0" .
  have sp: "fp + 6 < im_sp im" using rd(12) by simp
  have "runs (activate_block_interp ?h 0 im4) (\<lambda>(im, s). runs (i_assert (s = PR_Activated) (Inr (im, None))) Q)"
    if len: "im_sp im + 1 < length (im_slots im)" and im4: "im4 = (pushed [?h] (pushed [r] ?c))\<lparr>im_bci := BCI_RESUME_ENSURE_RET\<rparr>" for im4
  proof -
    have ok4: "stack_ok im4 (fp # callers)"
      unfolding im4 stack_ok_set_bci using len by (intro stack_ok_pushed cm(2)) simp_all
    have s4: "im_slots im4 = (im_slots im)[fp + 6 := im_nil im, im_sp im := r, im_sp im + 1 := ?h]" "im_sp im4 = im_sp im + 2"
      "im_objs im4 = im_objs im" "im_nil im4 = im_nil im" "im_bci im4 = BCI_RESUME_ENSURE_RET" "im_fp im4 = fp"
      using d(4) by (simp_all add: im4)
    have "same_env ?c im4" unfolding im4 by (rule same_env_trans [OF same_env_pushed [of ?c "[r, ?h]"]])
      (auto simp: same_env_def pushed_def intro: exI [of _ "lv_header_klass (im_lk im)"])
    then have "unchanged_below (fp + 6) ?c im4" using sp s4 by (simp add: unchanged_below_def)
    then have below4: "unchanged_below (fp + 6) im im4" by (rule unchanged_below_trans [OF cm(3)])
    have fl4: "im_floor im4 = fp + 7 + m_ntemps (im_objs im) (im_slots im ! fp)" using sp by (simp add: im_floor_def s4)
    show ?thesis
    proof (rule runs_activate_block_stack [OF ok4])
      show "closure_ok (im_objs im4) ?h" "m_argc (im_objs im4) (c_method (im_objs im4) ?h) = 0" "im_floor im4 + 0 < im_sp im4"
        "im_slots im4 ! (im_sp im4 - 0 - 1) = ?h" "im_bci im4 < 2 ^ 61"
        using cl rd(12) fl4 len by (simp_all add: s4 BCI_RESUME_ENSURE_RET_def)
      fix im' assume ok': "stack_ok im' (im_sp im4 # fp # callers)" and p: "frame_pushed (c_method (im_objs im4) ?h) (im_bci im4)
          (c_copied (im_objs im4) ?h ! 0) (block_temps (im_objs im4) (im_nil im4) ?h) im4 im'"
      from p have ext': "objs_ext (im_objs im) (im_objs im')" and agree: "\<And>i. i < im_sp im4 \<Longrightarrow> im_slots im' ! i = im_slots im4 ! i"
        and env': "same_env im4 im'" by (auto simp: frame_pushed_def s4)
      have nil': "im_nil im' = im_nil im" using same_env_nil [OF env'] s4 by simp
      have m: "method_ok (im_objs im) (c_method (im_objs im) ?h)" using cl(1) by (simp add: closure_ok_def)
      have "unchanged_below (fp + 6) im im'"
        by (rule unchanged_below_trans [OF below4 frame_pushed_unchanged [OF p]]) (use sp in \<open>simp add: s4\<close>)
      moreover have "handler_of im' fp = im_nil im'" using agree [of "fp + 6"] sp len nil' by (simp add: s4)
      moreover have "im_slots im' ! (im_sp im4 - 2) = r" "im_slots im' ! (im_sp im4 - 1) = ?h"
        using agree [of "im_sp im"] agree [of "im_sp im + 1"] len by (simp_all add: s4)
      moreover have meth: "im_slots im' ! im_sp im4 = c_method (im_objs im) ?h" using p by (simp add: frame_pushed_def s4)
      moreover have "m_argc (im_objs im') (im_slots im' ! im_sp im4) = 0" using method_ok_ext(2) [OF ext' m] cl(2) by (simp add: meth)
      moreover have "fp + 7 + m_ntemps (im_objs im') (im_slots im' ! fp) \<le> im_sp im4 - 2"
        using rd(12) agree [of fp] sp method_ok_ext(3) [OF ext' rd(8)] by (simp add: s4)
      moreover have "smi_value (im_slots im' ! (im_sp im4 + 2)) = int BCI_RESUME_ENSURE_RET"
        using p mk_smi(3) [of "int BCI_RESUME_ENSURE_RET"] by (simp add: frame_pushed_def s4(5)) (simp add: BCI_RESUME_ENSURE_RET_def)
      moreover have "im_slots im' ! (im_sp im4 + 6) = im_nil im'" using p nil' by (simp add: frame_pushed_def s4(4))
      ultimately have "intercepted im fp callers r im'"
        unfolding intercepted_def Let_def s4(2) [symmetric] using ok' by (simp only: simp_thms)
      then show "(\<lambda>(im, s). runs (i_assert (s = PR_Activated) (Inr (im, None))) Q) (im', PR_Activated)" using Q by simp
    qed
  qed
  then show ?thesis
    by (simp add: intercept_ensure_return_def cm(1) runs_push case_prod_unfold add.commute)
qed

lemma ensure_handler_returns:
  assumes ok: "stack_ok im (nf # fp # callers)" and argc: "m_argc (im_objs im) (im_slots im ! nf) = 0"
    and nil: "handler_of im nf = im_nil im" "handler_of im fp = im_nil im"
    and bci: "smi_value (im_slots im ! (nf + 2)) = int BCI_RESUME_ENSURE_RET"
    and saved: "im_slots im ! (nf - 2) = r" "fp + 7 + m_ntemps (im_objs im) (im_slots im ! fp) \<le> nf - 2"
    and plain: "plain_bci im fp"
  shows "cruns (do_return P x im) (delivered im fp callers r)"
proof -
  have base: "nf - 1 = frame_base (im_objs im) (im_slots im) nf" by (simp add: argc)
  note c = caller_frames [OF ok, folded base] and d = stack_okD [OF ok]
  let ?R = "returned_to (nf - 1) fp x im" and ?S = "set_sp (nf - 2) (returned_to (nf - 1) fp x im)"
  have u: "i64_as_usize (int BCI_RESUME_ENSURE_RET) = BCI_RESUME_ENSURE_RET" by (intro i64_as_usize_int) (simp add: BCI_RESUME_ENSURE_RET_def)
  have okR: "stack_ok ?R (fp # callers)" by (rule stack_ok_returned_to [OF ok base])
  have floor: "im_floor ?R \<le> nf - 2" using saved(2) by (simp add: im_floor_def)
  then have okS: "stack_ok ?S (fp # callers)" using saved(2) by (intro stack_ok_set_sp [OF okR]) auto
  have nf: "2 \<le> nf" "nf - 2 < nf - 1" using saved(2) by linarith+
  have l: "nf - 2 < length (im_slots im)" using c(3) d(5) by linarith
  have sv: "im_slots ?R ! (nf - 2) = r" using saved(1) nf by simp
  have "pop_floor (im_objs ?R) (im_stack ?R) = Inr (im_floor ?R)" by (rule pop_floor_chain [OF okR])
  then have "pop_floor (im_objs ?R) (im_stack (set_sp (nf - 1) ?R)) = Inr (im_floor ?R)"
    by (simp add: pop_floor_def ntemps_at_fp_def st_get_def)
  then have "pop (set_sp (nf - 1) ?R) = Inr (?S, r)"
    using floor nf sv l by (simp add: pop_def st_pop_def st_get_def set_sp_def set_stack_def numeral_2_eq_2)
  then have "do_return P x im = do_return P r ?S"
    unfolding do_return_unmarked [OF ok nil(1)] pop_and_deliver_caller [OF ok base refl] bci u
    using nf by (simp add: resume_ensure_ret_def resume_ensure_ret_with_def)
  also have "\<dots> = pop_and_deliver P r ?S"
    by (rule do_return_unmarked [OF okS]) (use nil(2) c in simp)
  finally have run: "cruns (do_return P x im) (delivered ?S fp callers r)"
    using pop_and_deliver_plain [OF okS, of P r] plain c by (simp add: plain_bci_def)
  have "same_env im ?S" by (rule same_env_trans [OF returned_to_simps(7) set_sp_simps(10)])
  then have "unchanged_below (fp + 5) im ?S" using c by (simp add: unchanged_below_def)
  from delivered_unchanged [OF _ this order.refl, of "[nf]" callers] ok
  show ?thesis by (intro cruns_mono [OF run]) simp
qed

lemma return_through_marker:
  assumes G: "runs_blocks G" and ok: "stack_ok im (fp # callers)" and a: "armed im fp" and plain: "plain_bci im fp"
  shows "kind_of im fp = Ensure \<Longrightarrow>
      cruns (return_then P G 1 r im) (\<lambda>(im', out, log). log = [handler_of im fp] \<and> delivered im fp callers r (im', out))"
    and "kind_of im fp = IfCurtailed \<Longrightarrow> cruns (do_return P r im) (delivered im fp callers r)"
proof -
  note rd = stack_ok_reads [OF ok list.set_intros(1)] and d = stack_okD [OF ok]
  have kind: "fr_marker_kind (im_stack im) fp = Inr (kind_of im fp)" using rd(6) by (simp add: fr_marker_kind_def kind_of_def)
  have mc: "marker_class im fp = Inr (MC_Handler (handler_of im fp))" using rd(7) a by (simp add: armed_def)
  note cm = clear_marker_frame [OF ok list.set_intros(1)]
  {
    assume k: "kind_of im fp = IfCurtailed"
    have "plain_bci (unmarked fp im) fp" using plain by (simp add: plain_bci_def)
    note p = pop_and_deliver_plain [OF cm(2) this, of P r]
    have "do_return P r im = pop_and_deliver P r (unmarked fp im)"
      using d(4) mc kind k cm(1) by (subst do_return.simps) (simp add: do_return_with_def pop_and_deliver_def Let_def)
    then show "cruns (do_return P r im) (delivered im fp callers r)"
      using cruns_mono [OF p] delivered_unchanged [OF _ cm(3), of "[]" fp callers r] ok by simp
  next
    assume k: "kind_of im fp = Ensure"
    have ret: "do_return P r im = Some (intercept_ensure_return fp (handler_of im fp) r im)"
      using d(4) mc kind k by (subst do_return.simps) (simp add: do_return_with_def Let_def)
    have "runs (intercept_ensure_return fp (handler_of im fp) r im) (\<lambda>s. cruns (run_handlers P G 1 s)
        (\<lambda>(im', out, log). log = [handler_of im fp] \<and> delivered im fp callers r (im', out)))"
    proof (rule runs_intercept [OF ok a])
      fix im1 assume i: "intercepted im fp callers r im1"
      let ?nf = "im_sp im + 2"
      from i have ok1: "stack_ok im1 (?nf # fp # callers)" and u1: "unchanged_below (fp + 6) im im1"
        and n1: "handler_of im1 fp = im_nil im1" "handler_of im1 ?nf = im_nil im1"
        and s1: "im_slots im1 ! (?nf - 2) = r" "im_slots im1 ! (?nf - 1) = handler_of im fp"
        and a1: "m_argc (im_objs im1) (im_slots im1 ! ?nf) = 0" and t1: "fp + 7 + m_ntemps (im_objs im1) (im_slots im1 ! fp) \<le> ?nf - 2"
        and b1: "smi_value (im_slots im1 ! (?nf + 2)) = int BCI_RESUME_ENSURE_RET"
        by (simp_all only: intercepted_def Let_def)
      obtain im2 x where g: "G im1 = (im2, x)" by (cases "G im1")
      with G have "block_ran im1 im2" by (metis runs_blocks_def fst_conv)
      with ok1 have ok2: "stack_ok im2 (?nf # fp # callers)" and u2: "unchanged_below (?nf + 7) im1 im2"
        using stack_okD(4) [OF ok1] by (auto simp: block_ran_def)
      note u2' = unchangedD [OF u2] and r1 = stack_ok_reads [OF ok1]
      have lt: "fp + 7 \<le> ?nf" using t1 by simp
      have m: "m_argc (im_objs im2) (im_slots im2 ! ?nf) = 0" "m_ntemps (im_objs im2) (im_slots im2 ! fp) = m_ntemps (im_objs im1) (im_slots im1 ! fp)"
        using u2'(1) [of ?nf] u2'(1) [of fp] method_ok_ext(2) [OF u2'(2) r1(8), of ?nf] method_ok_ext(3) [OF u2'(2) r1(8), of fp] a1 lt
        by simp_all
      have pl: "plain_bci im2 fp"
        using plain unchangedD(1) [OF u1, of "fp + 2"] u2'(1) [of "fp + 2"] lt by (simp add: plain_bci_def)
      have "cruns (do_return P x im2) (delivered im2 fp callers r)"
      proof (rule ensure_handler_returns [OF ok2 m(1) _ _ _ _ _ pl])
        show "handler_of im2 ?nf = im_nil im2" "handler_of im2 fp = im_nil im2"
          "smi_value (im_slots im2 ! (?nf + 2)) = int BCI_RESUME_ENSURE_RET" "im_slots im2 ! (?nf - 2) = r"
          using n1 b1 s1 u2' lt by simp_all
        show "fp + 7 + m_ntemps (im_objs im2) (im_slots im2 ! fp) \<le> ?nf - 2" unfolding m(2) by (rule t1)
      qed
      moreover have "unchanged_below (fp + 5) im im2"
        by (rule unchanged_below_trans [OF unchanged_below_le [OF u1] unchanged_below_le [OF u2]]) (use lt in simp_all)
      note delivered_unchanged [OF _ this order.refl, of "[]" callers r]
      ultimately have "cruns (do_return P x im2) (delivered im fp callers r)"
        using ok by (auto elim!: cruns_mono)
      moreover have "running_closure im1 = handler_of im fp"
        unfolding running_closure_def stack_okD(4) [OF ok1] list.sel a1 using s1 by simp
      ultimately show "cruns (run_handlers P G 1 (im1, None))
          (\<lambda>(im', out, log). log = [handler_of im fp] \<and> delivered im fp callers r (im', out))"
        by (simp add: g case_prod_unfold) (auto elim!: cruns_mono)
    qed
    then show "cruns (return_then P G 1 r im) (\<lambda>(im', out, log). log = [handler_of im fp] \<and> delivered im fp callers r (im', out))"
      by (simp add: return_then_def ret)
  }
qed

end
