(* ===== verification/FrameChain.thy ===== *)
theory FrameChain
  imports StackOps
begin

unbundle bit_operations_syntax

text \<open>
  Activations of methods, of entry points and of blocks each put one frame on the chain, and
  \<open>Frame::verify\<close> accepts every frame of a chain.
\<close>

section \<open>Frames of the chain verify\<close>

lemma fr_verify_chain:
  assumes ok: "stack_ok im fps" and mem: "fp \<in> set fps"
  shows "fr_verify (im_objs im) (im_stack im) fp = Inr ()"
proof -
  obtain l where l: "l \<le> im_sp im" and f: "is_frame (im_objs im) (im_nil im) (im_slots im) fp l"
    using stack_ok_frame [OF assms] by blast
  note r = stack_ok_reads [OF assms] and rf = is_frame_reads [OF f refl] and d = stack_okD [OF ok]
  let ?m = "im_slots im ! fp"
  note m = method_ok_simps [OF r(8)]
  have g: "st_get (im_stack im) i = Inr (im_slots im ! i)" if "i < fp + 7" for i
    using that r(12) d(5) by (simp add: st_get_def)
  have smi: "fr_smi (im_stack im) (fp + 1) = Inr (smi_value (im_slots im ! (fp + 1)))"
    "fr_smi (im_stack im) (fp + 2) = Inr (smi_value (im_slots im ! (fp + 2)))"
    "fr_smi (im_stack im) (fp + 5) = Inr (smi_value (im_slots im ! (fp + 5)))"
    using rf(5,7) g [of "fp + 2"] f
    by (simp_all add: fr_saved_fp_def serial_word_def FRAME_SAVED_FP_def FRAME_SERIAL_def)
       (simp add: fr_smi_def is_frame_def Let_def smi_try_from_def)
  have "receiver_ok (im_objs im) ?m (im_slots im ! (fp - m_argc (im_objs im) ?m - 1)) (im_slots im ! (fp + 4))"
    using f by (simp add: is_frame_def Let_def)
  then show ?thesis
    using r(1,9,12) m smi g [of "fp - m_argc (im_objs im) ?m - 1"] g [of "fp + 4"]
    by (auto simp: fr_verify_def receiver_ok_def fr_receiver_def FRAME_TEMPS_BASE_def FRAME_SAVED_FP_def
        FRAME_SAVED_BCI_def FRAME_SERIAL_def FRAME_RECEIVER_def obj_try_from_Some split: option.split)
qed

section \<open>Methods\<close>

lemma stack_ok_set_regs [simp]: "stack_ok (set_regs m b im) fps \<longleftrightarrow> stack_ok im fps"
  by (simp add: stack_ok_def machine_ok_def)

lemma frame_entered_stack:
  assumes ok: "machine_ok im" and below: "frames_ok (im_objs im) (im_nil im) (im_slots im) fps (im_sp im - m_argc (im_objs im) m - 1)"
    and m: "method_ok (im_objs im) m" "\<not> m_is_block (im_objs im) m" "m_argc (im_objs im) m < im_sp im"
    and sfp: "sfp = (case fps of [] \<Rightarrow> ENTRY_FRAME_SENTINEL | fp' # _ \<Rightarrow> int fp')" "- (2 ^ 61) \<le> sfp" "sfp < 2 ^ 61" and b: "sbci < 2 ^ 61"
    and Q: "\<And>im'. stack_ok im' (im_sp im # fps) \<Longrightarrow> (\<forall>i < im_sp im. im_slots im' ! i = im_slots im ! i) \<Longrightarrow>
      im_slots im' ! im_sp im = m \<Longrightarrow> Q im'"
  shows "runs (rbind (push_frame m (m_argc (im_objs im) m) sfp sbci im) (\<lambda>im'.
      maybe_alloc_context m (im_fp im') (im_nil im') im')) Q"
proof -
  let ?os = "im_objs im" and ?r = "im_slots im ! (im_sp im - (m_argc (im_objs im) m + 1))"
  let ?t = "replicate (m_ntemps ?os m) (im_nil im)"
  let ?E = "\<lambda>ctx. entered m sfp (int sbci) ctx ?r ?t im"
  have rcv: "receiver_ok ?os m (im_slots im ! (im_sp im - m_argc ?os m - 1)) ?r" using m(2) by (simp add: receiver_ok_def)
  have fin: "Q im'"
    if p: "frame_pushed m sbci ?r ?t im (set_regs m 0 im')" and s: "im_slots im' ! (im_sp im + 1) = mk_smi sfp"
      and len: "im_sp im + 7 + m_ntemps ?os m \<le> length (im_slots im)" and ser: "im_next_frame_serial im + 1 < 2 ^ 32" for im'
  proof (rule Q)
    have "stack_ok (set_regs m 0 im') (im_sp im # fps)"
      by (rule frame_pushed_stack [OF ok below p _ sfp(1) m(1,3) _ rcv]) (use s len ser b in simp_all)
    then show "stack_ok im' (im_sp im # fps)" by (simp add: stack_ok_set_regs)
  qed (use p in \<open>auto simp: frame_pushed_def\<close>)
  have "runs (push_frame m (m_argc ?os m) sfp sbci im) (\<lambda>im'. runs (maybe_alloc_context m (im_fp im') (im_nil im') im') Q)"
  proof (rule runs_push_frame [OF m(1,3) sfp(2,3) b])
    assume len: "im_sp im + 7 + m_ntemps ?os m \<le> length (im_slots im)" and ser: "im_next_frame_serial im + 1 < 2 ^ 32"
    then have len': "im_sp im + 7 + length ?t \<le> length (im_slots im)" by simp
    note fp = frame_pushed_entered [OF len', where r = ?r and m = m and sfp = sfp and sbci = sbci]
    have "runs (maybe_alloc_context m (im_sp im) (im_nil im) (?E (im_nil im))) Q"
    proof (rule runs_maybe_alloc_context [OF m(1) len'])
      show "Q (?E (im_nil im))" using fp by (intro fin len ser) simp_all
      fix a assume a: "im_alloc im ?os = Some a"
      let ?ob = "context_object im (im_nil im) (m_nctx ?os m)"
      have new: "?os a = None" using ok a by (simp add: machine_ok_def)
      have eq: "set_regs m 0 (add_object a ?ob (?E a)) = add_object a ?ob (set_regs m 0 (?E a))" by (simp add: set_regs_def add_object_def)
      show "Q (add_object a ?ob (?E a))"
      proof (rule fin [OF _ _ len ser])
        show "frame_pushed m sbci ?r ?t im (set_regs m 0 (add_object a ?ob (?E a)))"
          unfolding eq by (rule frame_pushed_add_object [OF fp(1)]) (simp add: new)
        show "im_slots (add_object a ?ob (?E a)) ! (im_sp im + 1) = mk_smi sfp" using fp(2) by simp
      qed
    qed
    then show "runs (maybe_alloc_context m (im_fp (?E (im_nil im))) (im_nil (?E (im_nil im))) (?E (im_nil im))) Q"
      by simp
  qed
  then show ?thesis by simp
qed

lemma runs_activate_body_stack:
  assumes ok: "stack_ok im fps" and m: "method_ok (im_objs im) m" "\<not> m_is_block (im_objs im) m"
    and arg: "im_floor im + m_argc (im_objs im) m < im_sp im" and bci: "im_bci im < 2 ^ 61"
    and Q: "\<And>im'. stack_ok im' (im_sp im # fps) \<Longrightarrow> (\<forall>i < im_sp im. im_slots im' ! i = im_slots im ! i) \<Longrightarrow>
      im_slots im' ! im_sp im = m \<Longrightarrow> Q im'"
  shows "runs (activate_body m (m_argc (im_objs im) m) im) Q"
proof -
  note d = stack_okD [OF ok]
  obtain f rest where fps: "fps = f # rest" using d(7) by (cases fps) auto
  have fp: "im_fp im = f" "f < 2 ^ 22" using d(4) fps stack_ok_reads(13) [OF ok, of f] by auto
  have "im_floor im \<le> im_sp im - m_argc (im_objs im) m - 1" using arg by simp
  then have "frames_ok (im_objs im) (im_nil im) (im_slots im) fps (im_sp im - m_argc (im_objs im) m - 1)"
    unfolding fps using d(2,5) fps fp by - (rule frames_ok_lim [where lim = "im_sp im"], simp_all add: im_floor_def)
  then have "runs (rbind (push_frame m (m_argc (im_objs im) m) (int f) (im_bci im) im) (\<lambda>im'.
      maybe_alloc_context m (im_fp im') (im_nil im') im')) (\<lambda>im'. Q (set_regs m 0 im'))"
    by (rule frame_entered_stack [OF d(1) _ m]) (use arg fp bci fps in \<open>auto intro!: Q\<close>)
  moreover have "usize_as_i64 (im_fp im) = int f" using fp by simp
  ultimately show ?thesis by (simp add: activate_body_def)
qed

lemma runs_activate_entry_stack:
  assumes ok: "machine_ok im" and m: "method_ok (im_objs im) m" "\<not> m_is_block (im_objs im) m"
    and arg: "m_argc (im_objs im) m < im_sp im"
  shows "runs (activate_entry m (m_argc (im_objs im) m) im) (\<lambda>im'. stack_ok im' [im_sp im])"
  unfolding activate_entry_def
  by (rule frame_entered_stack [OF ok _ m arg, of "[]"]) (simp_all add: ENTRY_FRAME_SENTINEL_def)

end
