(* ===== verification/Unwinds.thy ===== *)
theory Unwinds
  imports Ensuring FrameChain
begin

unbundle bit_operations_syntax

text \<open>
  The properties of frames, returns and unwinds, with a small machine that shows their hypotheses.
\<close>

section \<open>A small machine\<close>

text \<open>A method \<open>101\<close> sends \<open>ensure:\<close> to a block: the frame of the protected block, at 9, is marked with
  the closure \<open>109\<close> of the block \<open>105\<close>. The frame of the method, at 1, is the entry frame.\<close>

definition example_objs :: objs where
  "example_objs = [101 \<mapsto> \<lparr>ho_klass = 17, ho_format = Method, ho_body = [1, 1, 0, 0, 0, 1, 1], ho_tail = [], ho_bytes = []\<rparr>,
     105 \<mapsto> \<lparr>ho_klass = 17, ho_format = Method, ho_body = [1, 1, 32768, 0, 0, 1, 1], ho_tail = [], ho_bytes = []\<rparr>,
     109 \<mapsto> \<lparr>ho_klass = 17, ho_format = Closure, ho_body = [105, 0], ho_tail = [20], ho_bytes = []\<rparr>]"

definition example_stack :: pstack where
  "example_stack = \<lparr>ps_slots = [20, 101, -4, 12, 1, 20, 28, 1, 109, 105, 4, 12, 1, 20, 32, 109] @ replicate 40 0,
     ps_sp = 16, ps_fp = 9, ps_has_frame = True\<rparr>"

definition example_alloc :: "objs \<Rightarrow> oop option" where
  "example_alloc os = (if os 201 = None then Some 201 else if os 205 = None then Some 205 else None)"

definition example_machine :: imach where
  "example_machine =
     \<lparr>im_stack = example_stack, im_objs = example_objs, im_alloc = example_alloc, im_lk = example_lk, im_true = 5, im_false = 9,
      im_array_klass = 17, im_closure_klass = 17, im_context_klass = 17, im_message_klass = 17, im_sel_dnu = 5,
      im_sel_cannot_return = 5, im_sel_must_be_boolean = 5, im_next_frame_serial = 9, im_method = Some 105, im_bci = 0,
      im_nlr = None, im_curtailing = False, im_exit_requested = False, im_prim_arg_base = 0, im_barriered = []\<rparr>"

definition example_home :: home_ref where "example_home = \<lparr>hr_proc = 0, hr_serial = 7, hr_fp = 1\<rparr>"

definition example_prims :: prims where
  "example_prims = \<lparr>pr_by_id = block_primitives, pr_ffi = (\<lambda>m n im. returns (im, Fallthrough))\<rparr>"

definition example_guest :: guest where "example_guest im = (im, 12)"

lemma example_nil: "im_nil example_machine = 1"
  by (simp add: example_machine_def example_lk_def example_env_def)

lemma example_flags: "m_flags example_objs 101 = 0" "m_flags example_objs 105 = 8192"
  "flags_value example_objs 101 = Inr 0" "flags_value example_objs 105 = Inr 8192"
proof -
  have "smi_try_from 0 = Some 0" "smi_value 0 = 0" "smi_try_from 32768 = Some 32768" "smi_value 32768 = 8192" by code_simp+
  then show "flags_value example_objs 101 = Inr 0" "flags_value example_objs 105 = Inr 8192"
    by (simp_all add: flags_value_def smi_body_def body_at_def example_objs_def METHOD_FLAGS_INDEX_def)
  then show "m_flags example_objs 101 = 0" "m_flags example_objs 105 = 8192" by (simp_all add: m_flags_def)
qed

lemma example_methods:
  "method_ok example_objs 101" "m_argc example_objs 101 = 0" "m_ntemps example_objs 101 = 0" "\<not> m_is_block example_objs 101"
  "method_ok example_objs 105" "m_argc example_objs 105 = 0" "m_ntemps example_objs 105 = 0" "m_is_block example_objs 105"
  "\<not> m_captures example_objs 105"
proof -
  have "(8192 AND METHOD_FLAGS_ARGC_MASK) = 0" "8192 AND METHOD_FLAGS_NTEMPS_MASK = 0" "8192 AND METHOD_FLAGS_IS_BLOCK_MASK \<noteq> 0"
    "8192 AND METHOD_FLAGS_CAPTURES_CTX_MASK = 0" by code_simp+
  then show "m_argc example_objs 101 = 0" "m_ntemps example_objs 101 = 0" "\<not> m_is_block example_objs 101"
    "m_argc example_objs 105 = 0" "m_ntemps example_objs 105 = 0" "m_is_block example_objs 105" "\<not> m_captures example_objs 105"
    by (simp_all add: m_argc_def m_ntemps_def m_is_block_def m_captures_def example_flags)
  show "method_ok example_objs 101" "method_ok example_objs 105"
    by (auto simp: method_ok_def example_flags) (simp_all add: obj_try_from_def example_objs_def)
qed

lemma example_closure: "closure_ok example_objs 109" "c_method example_objs 109 = 105" "is_closure example_objs 109"
  "cl_copied example_objs 109 0 = Inr 20"
proof -
  have "cl_method example_objs 109 = Inr 105"
    by (simp add: cl_method_def body_at_def CLOSURE_METHOD_INDEX_def example_objs_def obj_try_from_def)
  moreover then show "c_method example_objs 109 = 105" by (simp add: c_method_def)
  moreover show "is_closure example_objs 109" "cl_copied example_objs 109 0 = Inr 20"
    by (simp_all add: obj_try_from_def example_objs_def cl_copied_def tail_at_def)
  moreover have "example_objs 109 = Some \<lparr>ho_klass = 17, ho_format = Closure, ho_body = [105, 0], ho_tail = [20], ho_bytes = []\<rparr>"
    by (simp add: example_objs_def)
  ultimately show "closure_ok example_objs 109" using example_methods by (simp add: closure_ok_def c_base_def)
qed

lemma example_stack_ok: "stack_ok example_machine [9, 1]"
proof -
  have "is_smi (-4)" "is_smi 12" "is_smi 28" "is_smi 4" "is_smi 32" "smi_value (-4) = -1" "smi_value 4 = 1" by code_simp+
  moreover have "machine_ok example_machine"
    by (auto simp: machine_ok_def example_nil) (simp_all add: example_machine_def example_alloc_def example_stack_def split: if_splits)
  ultimately show ?thesis
    unfolding stack_ok_def example_nil
    using example_methods example_closure
    by (simp add: example_machine_def example_stack_def is_frame_def marker_ok_def receiver_ok_def ENTRY_FRAME_SENTINEL_def)
qed

lemma example_runs: "runs_blocks example_guest"
  by (simp add: runs_blocks_def block_ran_def example_guest_def)

lemma example_frames: "armed example_machine 9" "kind_of example_machine 9 = Ensure" "plain_bci example_machine 9" "plain_bci example_machine 1"
  "handler_of example_machine 9 = 109" "handler_of example_machine 1 = 1"
proof -
  have v: "smi_value 12 = 3" "smi_value 32 AND FRAME_MARKER_KIND_MASK = 0" by code_simp+
  show "handler_of example_machine 9 = 109" "handler_of example_machine 1 = 1" by (simp_all add: example_machine_def example_stack_def)
  then show "armed example_machine 9" using example_closure by (simp add: armed_def example_nil) (simp add: example_machine_def)
  show "kind_of example_machine 9 = Ensure" using v by (simp add: kind_of_def example_machine_def example_stack_def)
  show "plain_bci example_machine 9" "plain_bci example_machine 1"
    using v by (simp_all add: plain_bci_def example_machine_def example_stack_def i64_as_usize_def
        BCI_RESUME_ENSURE_RET_def BCI_RESUME_UNWIND_def BCI_RESUME_CANNOT_RETURN_def)
qed

lemma example_unwinding: "unwinding example_machine [9] [1] example_home"
proof -
  have "smi_value 28 AND FRAME_SERIAL_MASK = 7" "is_smi 28" by code_simp+
  then have "home_in example_machine example_home"
    by (simp add: home_in_def example_home_def example_machine_def example_stack_def)
  then show ?thesis
    using example_stack_ok example_frames by (simp add: unwinding_def unwinds_to_def example_home_def example_nil)
       (simp add: example_machine_def)
qed

section \<open>Properties\<close>

definition mk_home :: "imach \<Rightarrow> nat \<Rightarrow> oop" where
  "mk_home im fp =
     (case pack_home_ref \<lparr>hr_proc = 0, hr_serial = word_of_int (smi_value (im_slots im ! (fp + 5)) AND FRAME_SERIAL_MASK), hr_fp = fp\<rparr> of
        Inr s \<Rightarrow> s | Inl _ \<Rightarrow> 0)"





section \<open>A reused slot\<close>

text \<open>The machine with an operand of the active frame where a dead frame at 12 had its serial.\<close>

definition stale_machine :: imach where
  "stale_machine = example_machine\<lparr>im_stack := example_stack\<lparr>ps_slots := (ps_slots example_stack)[15 := 1, 16 := 20, 17 := 44, 18 := 20],
     ps_sp := 19\<rparr>\<rparr>"

definition stale_home :: home_ref where "stale_home = \<lparr>hr_proc = 0, hr_serial = 11, hr_fp = 12\<rparr>"

lemma stale_stack_ok: "stack_ok stale_machine [9, 1]"
proof -
  have "is_smi (-4)" "is_smi 12" "is_smi 28" "is_smi 4" "is_smi 32" "smi_value (-4) = -1" "smi_value 4 = 1" by code_simp+
  moreover have "machine_ok stale_machine"
    using stack_okD(1) [OF example_stack_ok] by (simp add: machine_ok_def stale_machine_def example_stack_def example_machine_def)
  moreover have "im_nil stale_machine = 1" using example_nil by (simp add: stale_machine_def)
  ultimately show ?thesis
    unfolding stack_ok_def
    using example_methods example_closure
    by (simp add: stale_machine_def example_machine_def example_stack_def is_frame_def marker_ok_def receiver_ok_def ENTRY_FRAME_SENTINEL_def)
qed


section \<open>Activations\<close>

definition verified_frames :: "imach \<Rightarrow> nat list \<Rightarrow> bool" where
  "verified_frames im fps \<longleftrightarrow> stack_ok im fps \<and> (\<forall>fp \<in> set fps. fr_verify (im_objs im) (im_stack im) fp = Inr ())"

lemma verified_framesI: "stack_ok im fps \<Longrightarrow> verified_frames im fps"
  by (simp add: verified_frames_def fr_verify_chain)

text \<open>
  C13: the activation of a block pushes one frame. It holds the block, the link to the sender and its
  bci, the receiver the closure captured, a new serial, no marker, the captured values in the first
  temporaries and nil in the others; the slots below are untouched and every frame of the stack passes
  \<open>Frame::verify\<close>.\<close>

theorem activate_block_pushes_frame:
  assumes "stack_ok im fps" and "closure_ok (im_objs im) cl" and "argc = m_argc (im_objs im) (c_method (im_objs im) cl)"
    and "im_floor im + argc < im_sp im" and "im_slots im ! (im_sp im - argc - 1) = cl" and "im_bci im < 2 ^ 61"
  shows "runs (activate_block_interp cl argc im) (\<lambda>(im', res). res = PR_Activated \<and> verified_frames im' (im_sp im # fps)
    \<and> block_entered cl im im' \<and> frame_pushed (c_method (im_objs im) cl) (im_bci im) (c_copied (im_objs im) cl ! 0)
        (block_temps (im_objs im) (im_nil im) cl) im im')"
  using assms by (intro runs_activate_block_stack [OF assms(1,2)]) (auto intro: verified_framesI)

theorem activate_block_pushes_frame_witness:
  "runs (activate_block_interp 109 0 (example_machine\<lparr>im_stack := example_stack\<lparr>ps_slots := (ps_slots example_stack)[16 := 109], ps_sp := 17\<rparr>\<rparr>))
    (\<lambda>(im', res). res = PR_Activated \<and> im_fp im' = 17 \<and> im_slots im' ! 21 = 20)"
proof -
  let ?im = "example_machine\<lparr>im_stack := example_stack\<lparr>ps_slots := (ps_slots example_stack)[16 := 109], ps_sp := 17\<rparr>\<rparr>"
  have "?im = pushed [109] example_machine"
    by (simp add: pushed_def example_machine_def example_stack_def)
  moreover have "stack_ok (pushed [109] example_machine) [9, 1]"
    by (rule stack_ok_pushed [OF example_stack_ok]) (simp add: example_machine_def example_stack_def)
  ultimately have ok: "stack_ok ?im [9, 1]" by simp
  have os: "im_objs ?im = example_objs" by (simp add: example_machine_def)
  have fl: "im_floor ?im + 0 < im_sp ?im" "im_slots ?im ! (im_sp ?im - 0 - 1) = 109" "im_bci ?im < 2 ^ 61"
    using example_methods by (simp_all add: im_floor_def example_machine_def example_stack_def)
  have "c_copied example_objs 109 ! 0 = 20" by (simp add: c_copied_def example_objs_def)
  with activate_block_pushes_frame [OF ok _ _ fl] show ?thesis
    unfolding os using example_closure example_methods
    by (auto simp: frame_pushed_def example_stack_def elim!: runs_mono)
qed

text \<open>
  C14: the activation of a method, by a send or as the entry of a run, adds its frame to a well-formed
  stack, and every frame then passes \<open>Frame::verify\<close>.\<close>

theorem activate_method_keeps_frames:
  assumes "stack_ok im fps" and "method_ok (im_objs im) m" and "\<not> m_is_block (im_objs im) m"
    and "im_floor im + m_argc (im_objs im) m < im_sp im" and "im_bci im < 2 ^ 61"
  shows "runs (activate_body m (m_argc (im_objs im) m) im) (\<lambda>im'. verified_frames im' (im_sp im # fps))
    \<and> runs (activate_entry m (m_argc (im_objs im) m) im) (\<lambda>im'. verified_frames im' [im_sp im])"
proof
  show "runs (activate_body m (m_argc (im_objs im) m) im) (\<lambda>im'. verified_frames im' (im_sp im # fps))"
    by (rule runs_activate_body_stack [OF assms]) (rule verified_framesI)
  have "m_argc (im_objs im) m < im_sp im" using assms(4) by simp
  from runs_activate_entry_stack [OF stack_okD(1) [OF assms(1)] assms(2,3) this]
  show "runs (activate_entry m (m_argc (im_objs im) m) im) (\<lambda>im'. verified_frames im' [im_sp im])"
    by (rule runs_mono) (rule verified_framesI)
qed

theorem activate_method_keeps_frames_witness:
  "runs (activate_body 101 0 (pushed [20] example_machine)) (\<lambda>im'. verified_frames im' [17, 9, 1])"
proof -
  let ?im = "pushed [20] example_machine"
  have ok: "stack_ok ?im [9, 1]" by (rule stack_ok_pushed [OF example_stack_ok]) (simp add: example_machine_def example_stack_def)
  have os: "im_objs ?im = example_objs" and sp: "im_sp ?im = 17" by (simp_all add: example_machine_def example_stack_def)
  have fl: "im_floor ?im + 0 < im_sp ?im" "im_bci ?im < 2 ^ 61"
    using example_methods by (simp_all add: im_floor_def example_machine_def example_stack_def)
  with activate_method_keeps_frames [OF ok, of 101] show ?thesis
    unfolding os sp using example_methods by simp
qed

section \<open>Homes of closures\<close>

text \<open>The home a new closure gets. In a frame of a method it is that frame, by index and serial: the
  reference unpacks to a home that an unwind finds live. In a frame of a block it is the home of the
  enclosing closure.\<close>

lemma new_closure_home:
  assumes "stack_ok im (fp # callers)"
  shows "home_ref_for_new_closure im =
      (if m_is_block (im_objs im) (im_slots im ! fp)
       then lift_res (cl_home (im_objs im) (im_slots im ! frame_base (im_objs im) (im_slots im) fp))
       else Inr (mk_home im fp))
    \<and> hr_fp (unpack_home_ref (mk_home im fp)) = fp \<and> home_in im (unpack_home_ref (mk_home im fp))"
proof -
  note d = stack_okD [OF assms] and r = stack_ok_reads [OF assms list.set_intros(1)]
  have bl: "frame_base (im_objs im) (im_slots im) fp < length (im_slots im)" using r(9,12) d(5) by linarith
  let ?h = "\<lparr>hr_proc = 0, hr_serial = word_of_int (smi_value (im_slots im ! (fp + 5)) AND FRAME_SERIAL_MASK), hr_fp = fp\<rparr>"
  have "hr_fp ?h \<le> HOME_REF_FP_MAX" using r(13) by (simp add: HOME_REF_FP_MAX_def)
  from home_ref_pack_unpack [OF this] obtain s where s: "pack_home_ref ?h = Inr s" "unpack_home_ref s = ?h" by blast
  then have mk: "mk_home im fp = s" by (simp add: mk_home_def)
  have "home_in im ?h" using r(11,12) by (simp add: home_in_def)
  moreover have serial: "fr_serial (im_stack im) fp = Inr (word_of_int (smi_value (im_slots im ! (fp + 5)) AND FRAME_SERIAL_MASK))"
    using r(6) by (simp add: fr_serial_def)
  moreover have fp: "im_fp im = fp" using d(4) by simp
  moreover have "st_get (im_stack im) (frame_base (im_objs im) (im_slots im) fp) = Inr (im_slots im ! frame_base (im_objs im) (im_slots im) fp)"
    using bl by (simp add: st_get_def)
  moreover have "is_closure (im_objs im) (im_slots im ! frame_base (im_objs im) (im_slots im) fp)"
    if "m_is_block (im_objs im) (im_slots im ! fp)"
    using d(2) that by (simp add: is_frame_def Let_def receiver_ok_def)
  then have "obj_try_from Closure (im_objs im) (im_slots im ! frame_base (im_objs im) (im_slots im) fp) =
      Some (im_slots im ! frame_base (im_objs im) (im_slots im) fp)" if "m_is_block (im_objs im) (im_slots im ! fp)"
    using that by (auto simp: obj_try_from_Some)
  ultimately show ?thesis
    unfolding mk using s r(1,3) method_ok_simps(4) [OF r(8)]
    by (simp add: home_ref_for_new_closure_def Let_def)
qed

end
