(* ===== verification/Interp.thy ===== *)
theory Interp
  imports Unwind
begin

unbundle bit_operations_syntax

text \<open>
  The bytecode loop (\<open>dispatch_from\<close>, \<open>run_method\<close> and \<open>run_method_reentrant\<close> of
  \<open>src/src/interpreter/mod.rs\<close>), sends through the inline caches and \<open>doesNotUnderstand:\<close>
  (\<open>interpreter/send.rs\<close>) and the blocks that an unhandled error runs (\<open>interpreter/unwind.rs\<close>).

  Compilation is off, as in Activation. Tracing and the debugger's hooks are left out. An instruction
  is fetched with \<open>decode_at\<close>, which reads the bytes that each arm of the loop reads. Stores that go
  through the write barrier are recorded in \<open>im_barriered\<close>; the barrier itself is the subject of Cards.
\<close>

section \<open>Inline caches of a method\<close>

fun sites_of :: "oop list \<Rightarrow> ic_site list" where
  "sites_of (s # m # g # t # ws) = \<lparr>si_sel = s, si_meta = m, si_guard = g, si_target = t\<rparr> # sites_of ws"
| "sites_of _ = []"

definition words_of :: "ic_site list \<Rightarrow> oop list" where
  "words_of sites = concat (map (\<lambda>s. [si_sel s, si_meta s, si_guard s, si_target s]) sites)"

definition oop_arrays :: "objs \<Rightarrow> oop \<rightharpoonup> oop list" where
  "oop_arrays os w = (case os w of Some ob \<Rightarrow> if ho_format ob = IndexableOops then Some (ho_tail ob) else None | None \<Rightarrow> None)"

text \<open>The cache operations work on the site words of one method, the arrays and the lookup state.\<close>

definition ic_view :: "oop \<Rightarrow> imach \<Rightarrow> ic_vm res" where
  "ic_view m im =
     (let os = im_objs im in
      rbind (mt_ics os m) (\<lambda>ics.
      rbind (expect (oop_arrays os ics)) (\<lambda>ws.
      rbind (mt_holder os m) (\<lambda>holder.
        Inr \<lparr>iv_lk = im_lk im, iv_ics = ics, iv_sites = sites_of ws, iv_holder = holder,
             iv_arrays = oop_arrays os, iv_alloc = (\<lambda>_. case im_alloc im os of Some a \<Rightarrow> a | None \<Rightarrow> 0),
             iv_barriered = []\<rparr>))))"

definition put_view :: "ic_vm \<Rightarrow> objs \<Rightarrow> objs" where
  "put_view vm os = (\<lambda>w. case os w of
       Some ob \<Rightarrow>
         if w = iv_ics vm then Some (ob\<lparr>ho_tail := words_of (iv_sites vm)\<rparr>)
         else (case iv_arrays vm w of Some ws \<Rightarrow> Some (if ho_format ob = IndexableOops then ob\<lparr>ho_tail := ws\<rparr> else ob) | None \<Rightarrow> Some ob)
     | None \<Rightarrow> None)"

definition ic_resolve :: "oop \<Rightarrow> nat \<Rightarrow> oop \<Rightarrow> bool \<Rightarrow> imach \<Rightarrow> (imach \<times> oop option) ires option" where
  "ic_resolve m i k is_super im =
     cbind (Some (lift_res (ic_view m im))) (\<lambda>vm.
       case ic_transition vm i k is_super of
         None \<Rightarrow> None
       | Some (Inl e) \<Rightarrow> Some (Inl (Panic e))
       | Some (Inr (vm', r)) \<Rightarrow>
           let a = iv_alloc vm (iv_arrays vm); fresh = iv_arrays vm a = None \<and> iv_arrays vm' a \<noteq> None in
           cbind (Some (if fresh then new_object (im_array_klass im) IndexableOops [] (the (iv_arrays vm' a)) (im\<lparr>im_lk := iv_lk vm'\<rparr>)
                        else Inr (im\<lparr>im_lk := iv_lk vm'\<rparr>, a))) (\<lambda>(im, _).
             returns (im\<lparr>im_objs := put_view vm' (im_objs im), im_barriered := im_barriered im @ iv_barriered vm'\<rparr>, r)))"

section \<open>Sends\<close>

fun fill_args :: "oop \<Rightarrow> nat \<Rightarrow> nat list \<Rightarrow> imach \<Rightarrow> imach ires" where
  "fill_args arr start [] im = Inr im"
| "fill_args arr start (i # is) im =
     rbind (get im (start + i)) (\<lambda>v. rbind (on_objs (\<lambda>os. set_tail_at os arr i v) im) (fill_args arr start is))"

definition dnu :: "prims \<Rightarrow> oop \<Rightarrow> oop \<Rightarrow> nat \<Rightarrow> imach \<Rightarrow> imach ires option" where
  "dnu P rcvr_klass selector argc im =
     cbind (Some (lift_res (usub (ps_sp (im_stack im)) argc))) (\<lambda>args_start.
     cbind (Some (alloc_indexable_oops argc im)) (\<lambda>(im, arr).
     cbind (Some (fill_args arr args_start [0..<argc] im)) (\<lambda>im.
     cbind (Some (push arr (set_sp args_start im))) (\<lambda>im.
     cbind (Some (alloc_message im)) (\<lambda>(im, msg).
     cbind (Some (pop im)) (\<lambda>(im, parked).
     cbind (Some (on_objs (\<lambda>os. set_body_at os msg 0 selector) im)) (\<lambda>im.
     cbind (Some (on_objs (\<lambda>os. set_body_at os msg 1 parked) im)) (\<lambda>im.
     cbind (Some (push msg im)) (\<lambda>im.
     cbind (im_lookup rcvr_klass (im_sel_dnu im) im) (\<lambda>(im, r).
       case r of
         Some m \<Rightarrow> activate_method P m 1 im
       | None \<Rightarrow> Some (Inl (Dnu_fallback im selector rcvr_klass))))))))))))"

definition active_method :: "imach \<Rightarrow> oop ires" where
  "active_method im = lift_res (expect (im_method im))"

definition send_receiver :: "nat \<Rightarrow> imach \<Rightarrow> (oop \<times> oop) ires" where
  "send_receiver argc im =
     rbind (lift_res (usub (ps_sp (im_stack im)) (argc + 1))) (\<lambda>i.
     rbind (get im i) (\<lambda>rcvr.
     rbind (lift_res (klass_of (im_lk im) rcvr)) (\<lambda>k. Inr (rcvr, k))))"

definition send_miss :: "prims \<Rightarrow> oop \<Rightarrow> nat \<Rightarrow> nat \<Rightarrow> oop \<Rightarrow> bool \<Rightarrow> imach \<Rightarrow> imach ires option" where
  "send_miss P caller argc ic_idx k is_super im =
     cbind (ic_resolve caller ic_idx k is_super im) (\<lambda>(im, r).
       case r of
         Some m \<Rightarrow> activate_method P m argc im
       | None \<Rightarrow>
           cbind (Some (active_method im)) (\<lambda>caller.
           cbind (Some (lift_res (rbind (ic_view caller im) (\<lambda>vm. rbind (ic_at vm ic_idx) (si_selector vm))))) (\<lambda>sel.
           cbind (Some (send_receiver argc im)) (\<lambda>(rcvr, k). dnu P k sel argc im))))"

definition send_generic :: "prims \<Rightarrow> nat \<Rightarrow> nat \<Rightarrow> bool \<Rightarrow> imach \<Rightarrow> imach ires option" where
  "send_generic P argc ic_idx is_super im =
     cbind (Some (active_method im)) (\<lambda>caller.
     cbind (Some (lift_res (ic_view caller im))) (\<lambda>vm.
     cbind (Some (lift_res (ic_at vm ic_idx))) (\<lambda>s.
     cbind (Some (lift_res (si_argc s))) (\<lambda>site_argc.
     cbind (Some (i_assert (int argc = site_argc) (send_receiver argc im))) (\<lambda>(rcvr, k).
     cbind (Some (if si_guard s = k then lift_res (rbind (si_epoch s) (\<lambda>e. Inr (e = lv_epoch (im_lk im)))) else Inr False)) (\<lambda>hit.
       if hit \<and> smi_try_from (si_target s) = None then
         cbind (Some (lift_res (expect (obj_try_from Method (im_objs im) (si_target s))))) (\<lambda>m. activate_method P m argc im)
       else send_miss P caller argc ic_idx k is_super im))))))"

definition send_super_generic :: "prims \<Rightarrow> nat \<Rightarrow> nat \<Rightarrow> imach \<Rightarrow> imach ires option" where
  "send_super_generic P argc ic_idx = send_generic P argc ic_idx True"

definition must_be_boolean_send :: "prims \<Rightarrow> oop \<Rightarrow> nat \<Rightarrow> oop \<Rightarrow> imach \<Rightarrow> imach ires option" where
  "must_be_boolean_send P m branch_bci t im =
     cbind (Some (push t im)) (\<lambda>im.
       let im = set_regs m branch_bci im in
       cbind (Some (lift_res (klass_of (im_lk im) t))) (\<lambda>k.
       cbind (im_lookup k (im_sel_must_be_boolean im) im) (\<lambda>(im, r).
         case r of
           Some m \<Rightarrow> activate_method P m 0 im
         | None \<Rightarrow> Some (Inl (Dnu_fallback im (im_sel_must_be_boolean im) k)))))"

section \<open>One bytecode\<close>

definition current_method :: "imach \<Rightarrow> oop ires" where
  "current_method im = lift_res (fr_method (im_objs im) (im_stack im) (ps_fp (im_stack im)))"

definition frame_receiver :: "imach \<Rightarrow> oop ires" where
  "frame_receiver im = lift_res (fr_receiver (im_stack im) (ps_fp (im_stack im)))"

definition top :: "imach \<Rightarrow> oop ires" where "top im = lift_res (st_top (im_stack im))"

fun ctx_hops :: "objs \<Rightarrow> nat \<Rightarrow> oop \<Rightarrow> oop res" where
  "ctx_hops os 0 c = expect (obj_try_from Context os c)"
| "ctx_hops os (Suc d) c = rbind (expect (obj_try_from Context os c)) (\<lambda>ctx. rbind (ctx_home_hint os ctx) (ctx_hops os d))"

definition ctx_temp_walk :: "imach \<Rightarrow> nat \<Rightarrow> oop ires" where
  "ctx_temp_walk im depth =
     lift_res (rbind (fr_context (im_stack im) (ps_fp (im_stack im))) (ctx_hops (im_objs im) depth))"

text \<open>\<open>memory::store::store\<close>.\<close>

definition im_store :: "oop \<Rightarrow> nat \<Rightarrow> oop \<Rightarrow> imach \<Rightarrow> imach ires" where
  "im_store w i v im = rbind (on_objs (\<lambda>os. set_body_at os w i v) im) (\<lambda>im. Inr (im\<lparr>im_barriered := im_barriered im @ [w]\<rparr>))"

definition named_slot :: "oop \<Rightarrow> nat \<Rightarrow> imach \<Rightarrow> oop ires" where
  "named_slot w i im = lift_res (rbind (expect (mem_try_from w)) (\<lambda>ob. body_at (im_objs im) ob i))"

definition pop_into_slot :: "oop \<Rightarrow> nat \<Rightarrow> imach \<Rightarrow> imach ires" where
  "pop_into_slot w i im =
     rbind (lift_res (expect (mem_try_from w))) (\<lambda>ob.
     rbind (lift_res (body_at (im_objs im) ob i)) (\<lambda>_.
     rbind (pop im) (\<lambda>(im, v). im_store ob i v im)))"

datatype flow = Next oop nat | Done oop

text \<open>After a return or an unwind: an answer ends the loop; otherwise the registers say where to go on.\<close>

definition resume_regs :: "imach \<times> oop option \<Rightarrow> (imach \<times> flow) ires option" where
  "resume_regs x =
     (case x of
        (im, Some r) \<Rightarrow> returns (im, Done r)
      | (im, None) \<Rightarrow> cbind (Some (active_method im)) (\<lambda>m. returns (im, Next m (im_bci im))))"

definition after_send :: "nat \<Rightarrow> nat \<Rightarrow> imach \<Rightarrow> (imach \<times> flow) ires option" where
  "after_send fp_before next im =
     cbind (Some (current_method im)) (\<lambda>m. returns (im, Next m (if ps_fp (im_stack im) \<noteq> fp_before then 0 else next)))"

definition branch :: "prims \<Rightarrow> oop \<Rightarrow> nat \<Rightarrow> nat \<Rightarrow> nat \<Rightarrow> oop \<Rightarrow> oop \<Rightarrow> imach \<Rightarrow> (imach \<times> flow) ires option" where
  "branch P m bci next d taken fallthrough im =
     cbind (Some (pop im)) (\<lambda>(im, t).
       if t = taken then returns (im, Next m (next + d))
       else if t = fallthrough then returns (im, Next m next)
       else
         let fp_before = ps_fp (im_stack im) in
         cbind (must_be_boolean_send P m bci t im) (\<lambda>im. after_send fp_before (im_bci im) im))"

definition op_jump_back :: "oop \<Rightarrow> nat \<Rightarrow> nat \<Rightarrow> imach \<Rightarrow> (imach \<times> flow) ires" where
  "op_jump_back m next d im =
     rbind (lift_res (usub next d)) (\<lambda>target.
     rbind (lift_res (bump_loop_counter (im_objs im) m)) (\<lambda>(os, hot).
       let im = im\<lparr>im_objs := os\<rparr> in
       if hot then
         let im = set_regs m target im in
         rbind (current_method im) (\<lambda>fm.
         rbind (on_objs (\<lambda>os. reset_loop_counter os fm) im) (\<lambda>im. Inr (im, Next m target)))
       else Inr (im, Next m target)))"

definition op_send :: "prims \<Rightarrow> oop \<Rightarrow> nat \<Rightarrow> nat \<Rightarrow> bool \<Rightarrow> imach \<Rightarrow> (imach \<times> flow) ires option" where
  "op_send P m ic_idx next is_super im =
     cbind (Some (lift_res (rbind (ic_view m im) (\<lambda>vm. rbind (ic_at vm ic_idx) si_argc)))) (\<lambda>argc.
       let fp_before = ps_fp (im_stack im) in
       cbind (send_generic P (nat argc) ic_idx is_super (set_regs m next im)) (\<lambda>im.
         if im_exit_requested im then
           (if ps_sp (im_stack im) > 0 then cbind (Some (top im)) (\<lambda>r. returns (im, Done r)) else returns (im, Done (im_nil im)))
         else after_send fp_before next im))"

definition op_push_closure :: "oop \<Rightarrow> nat \<Rightarrow> nat \<Rightarrow> nat \<Rightarrow> imach \<Rightarrow> (imach \<times> flow) ires" where
  "op_push_closure m lit n_value_captures next im =
     rbind (lift_res (rbind (mt_literal (im_objs im) m lit) (\<lambda>w. expect (obj_try_from Method (im_objs im) w)))) (\<lambda>blk.
     rbind (make_closure blk n_value_captures im) (\<lambda>(im, cl).
     rbind (push cl im) (\<lambda>im.
     rbind (current_method im) (\<lambda>m. Inr (im, Next m next)))))"

definition op_nlr_tos :: "prims \<Rightarrow> oop \<Rightarrow> nat \<Rightarrow> imach \<Rightarrow> (imach \<times> flow) ires option" where
  "op_nlr_tos P m bci im =
     cbind (Some (pop im)) (\<lambda>(im, value).
     cbind (Some (lift_res (mt_is_block (im_objs im) m))) (\<lambda>blk.
     cbind (Some (i_assert blk (Inr ()))) (\<lambda>_.
       let im = set_regs m bci im in
       cbind (Some (lift_res (receiver_slot (im_objs im) (im_stack im) (ps_fp (im_stack im))))) (\<lambda>i.
       cbind (Some (get im i)) (\<lambda>w.
       cbind (Some (lift_res (expect (obj_try_from Closure (im_objs im) w)))) (\<lambda>cl.
       cbind (Some (lift_res (cl_home (im_objs im) cl))) (\<lambda>h.
       cbind (continue_unwind P (unpack_home_ref h) value (Some cl) im) (\<lambda>(im, st).
         case st of
           Returned_from_home (Some r) \<Rightarrow> returns (im, Done r)
         | Escaped \<Rightarrow> returns (im, Done NLR_SENTINEL)
         | _ \<Rightarrow> cbind (Some (active_method im)) (\<lambda>m. returns (im, Next m (im_bci im)))))))))))"

definition op_return :: "prims \<Rightarrow> imach \<Rightarrow> (imach \<times> flow) ires option" where
  "op_return P im = cbind (Some (pop im)) (\<lambda>(im, r). cbind (do_return P r im) resume_regs)"

definition op_push :: "oop ires \<Rightarrow> oop \<Rightarrow> nat \<Rightarrow> imach \<Rightarrow> (imach \<times> flow) ires option" where
  "op_push r m next im = Some (rbind r (\<lambda>v. rbind (push v im) (\<lambda>im. Inr (im, Next m next))))"

definition op_effect :: "imach ires \<Rightarrow> oop \<Rightarrow> nat \<Rightarrow> (imach \<times> flow) ires option" where
  "op_effect r m next = Some (rbind r (\<lambda>im. Inr (im, Next m next)))"

text \<open>A store into the global of an association, or into an instance variable: the object first, then
  the value off the stack.\<close>

definition op_store_instvar_pop :: "nat \<Rightarrow> imach \<Rightarrow> imach ires" where
  "op_store_instvar_pop i im = rbind (frame_receiver im) (\<lambda>r. pop_into_slot r i im)"

definition op_store_global_pop :: "oop \<Rightarrow> nat \<Rightarrow> imach \<Rightarrow> imach ires" where
  "op_store_global_pop m idx im =
     rbind (lift_res (mt_literal (im_objs im) m idx)) (\<lambda>a.
     rbind (lift_res (expect (mem_try_from a))) (\<lambda>ob.
     rbind (pop im) (\<lambda>(im, v). im_store ob 1 v im)))"

definition op_store_ctx_temp_pop :: "nat \<Rightarrow> nat \<Rightarrow> imach \<Rightarrow> imach ires" where
  "op_store_ctx_temp_pop depth idx im =
     rbind (ctx_temp_walk im depth) (\<lambda>ctx.
     rbind (pop im) (\<lambda>(im, v).
     rbind (on_objs (\<lambda>os. ctx_set_slot os ctx idx v) im) (\<lambda>im. Inr (im\<lparr>im_barriered := im_barriered im @ [ctx]\<rparr>))))"

definition put_temp :: "nat \<Rightarrow> oop \<Rightarrow> imach \<Rightarrow> imach ires" where
  "put_temp t v im = on_stack (fr_set_temp (im_objs im) (ps_fp (im_stack im)) t v) im"

definition exec :: "prims \<Rightarrow> oop \<Rightarrow> nat \<Rightarrow> instr \<Rightarrow> nat \<Rightarrow> imach \<Rightarrow> (imach \<times> flow) ires option" where
  "exec P m bci i next im =
     (case i of
        PushSelf \<Rightarrow> op_push (frame_receiver im) m next im
      | PushNil \<Rightarrow> op_push (Inr (im_nil im)) m next im
      | PushTrue \<Rightarrow> op_push (Inr (im_true im)) m next im
      | PushFalse \<Rightarrow> op_push (Inr (im_false im)) m next im
      | PushSmi b \<Rightarrow> op_push (lift_res (smi_new (sint b))) m next im
      | PushLiteral a \<Rightarrow> op_push (lift_res (mt_literal (im_objs im) m (unat a))) m next im
      | PushTemp t \<Rightarrow> op_push (lift_res (fr_temp (im_objs im) (im_stack im) (ps_fp (im_stack im)) (unat t))) m next im
      | StoreTemp t \<Rightarrow> op_effect (rbind (top im) (\<lambda>v. put_temp (unat t) v im)) m next
      | StoreTempPop t \<Rightarrow> op_effect (rbind (pop im) (\<lambda>(im, v). put_temp (unat t) v im)) m next
      | PushInstvar i \<Rightarrow> op_push (rbind (frame_receiver im) (\<lambda>r. named_slot r (unat i) im)) m next im
      | StoreInstvarPop i \<Rightarrow> op_effect (op_store_instvar_pop (unat i) im) m next
      | PushGlobal a \<Rightarrow> op_push (rbind (lift_res (mt_literal (im_objs im) m (unat a))) (\<lambda>w. named_slot w 1 im)) m next im
      | StoreGlobalPop a \<Rightarrow> op_effect (op_store_global_pop m (unat a) im) m next
      | Pop \<Rightarrow> op_effect (rbind (pop im) (\<lambda>(im, _). Inr im)) m next
      | Dup \<Rightarrow> op_push (top im) m next im
      | PushCtxTemp d a \<Rightarrow>
          op_push (rbind (ctx_temp_walk im (unat d)) (\<lambda>ctx. lift_res (ctx_slot (im_objs im) ctx (unat a)))) m next im
      | StoreCtxTempPop d a \<Rightarrow> op_effect (op_store_ctx_temp_pop (unat d) (unat a) im) m next
      | PushClosure l n \<Rightarrow> Some (op_push_closure m (unat l) (unat n) next im)
      | Send ic super \<Rightarrow> op_send P m (unat ic) next super im
      | JumpFwd d \<Rightarrow> returns (im, Next m (next + unat d))
      | JumpBack d \<Rightarrow> Some (op_jump_back m next (unat d) im)
      | BrTrueFwd d \<Rightarrow> branch P m bci next (unat d) (im_true im) (im_false im) im
      | BrFalseFwd d \<Rightarrow> branch P m bci next (unat d) (im_false im) (im_true im) im
      | ReturnTos \<Rightarrow> op_return P im
      | ReturnSelf \<Rightarrow> cbind (Some (frame_receiver im)) (\<lambda>r. cbind (do_return P r im) resume_regs)
      | BlockReturnTos \<Rightarrow> op_return P im
      | NlrTos \<Rightarrow> op_nlr_tos P m bci im)"

definition fetch :: "oop \<Rightarrow> nat \<Rightarrow> imach \<Rightarrow> (instr \<times> nat) ires" where
  "fetch m bci im = lift_res (rbind (mt_code (im_objs im) m) (\<lambda>code. decode_at code bci))"

definition step :: "prims \<Rightarrow> oop \<Rightarrow> nat \<Rightarrow> imach \<Rightarrow> (imach \<times> flow) ires option" where
  "step P m bci im = cbind (Some (fetch m bci im)) (\<lambda>(i, next). exec P m bci i next im)"

section \<open>The loop\<close>

partial_function (option) dispatch_from :: "prims \<Rightarrow> oop \<Rightarrow> nat \<Rightarrow> imach \<Rightarrow> (imach \<times> oop) ires option" where
  "dispatch_from P m bci im =
     cbind (step P m bci im) (\<lambda>x.
       case x of (im, fl) \<Rightarrow> (case fl of Done r \<Rightarrow> returns (im, r) | Next m bci \<Rightarrow> dispatch_from P m bci im))"

definition dispatch :: "prims \<Rightarrow> imach \<Rightarrow> (imach \<times> oop) ires option" where
  "dispatch P im = cbind (Some (current_method im)) (\<lambda>m. dispatch_from P m 0 im)"

definition set_fp :: "nat \<Rightarrow> imach \<Rightarrow> imach" where "set_fp fp im = set_stack im ((im_stack im)\<lparr>ps_fp := fp\<rparr>)"

fun push_all :: "oop list \<Rightarrow> imach \<Rightarrow> imach ires" where
  "push_all [] im = Inr im"
| "push_all (v # vs) im = rbind (push v im) (push_all vs)"

definition run_method :: "prims \<Rightarrow> oop \<Rightarrow> oop \<Rightarrow> oop list \<Rightarrow> imach \<Rightarrow> (imach \<times> oop) ires option" where
  "run_method P m receiver args im =
     cbind (Some (push_all (receiver # args) im)) (\<lambda>im.
       let saved_fp = ps_fp (im_stack im); saved_bci = im_bci im in
       cbind (try_primitive P m (length args) ((set_fp (i64_as_usize ENTRY_FRAME_SENTINEL) im)\<lparr>im_bci := 0\<rparr>)) (\<lambda>(im, out).
         case out of
           Result v \<Rightarrow> returns ((set_fp saved_fp im)\<lparr>im_bci := saved_bci\<rparr>, v)
         | Activated \<Rightarrow> dispatch P im
         | Fallthrough \<Rightarrow>
             cbind (Some (activate_entry m (length args) ((set_fp saved_fp im)\<lparr>im_bci := saved_bci\<rparr>))) (dispatch P)))"

definition run_method_reentrant :: "prims \<Rightarrow> oop \<Rightarrow> oop \<Rightarrow> oop list \<Rightarrow> imach \<Rightarrow> (imach \<times> oop) ires option" where
  "run_method_reentrant P m receiver args im =
     (let saved = save_activation (im_stack im); saved_method = im_method im; saved_bci = im_bci im in
      cbind (run_method P m receiver args im) (\<lambda>(im, result).
        returns ((set_stack im (restore_activation saved (im_stack im)))\<lparr>im_method := saved_method, im_bci := saved_bci\<rparr>, result)))"

section \<open>Blocks that an unhandled error runs\<close>

definition run_block_to_completion :: "prims \<Rightarrow> oop \<Rightarrow> imach \<Rightarrow> imach ires option" where
  "run_block_to_completion P closure im =
     cbind (Some (lift_res (rbind (cl_method (im_objs im) closure) (mt_argc (im_objs im))))) (\<lambda>argc.
       if argc \<noteq> 0 then returns im
       else
         let saved = save_activation (im_stack im); saved_method = im_method im; saved_bci = im_bci im in
         cbind (Some (push closure im)) (\<lambda>im.
         cbind (Some (activate_block_interp closure 0 ((set_fp (i64_as_usize ENTRY_FRAME_SENTINEL) im)\<lparr>im_bci := 0\<rparr>))) (\<lambda>(im, r).
         cbind (if r = PR_Activated then cbind (dispatch P im) (\<lambda>(im, _). returns im) else returns im) (\<lambda>im.
           returns ((set_stack im (restore_activation saved (im_stack im)))\<lparr>im_method := saved_method, im_bci := saved_bci\<rparr>)))))"

partial_function (option) disarm_frames :: "nat \<Rightarrow> oop list \<Rightarrow> imach \<Rightarrow> (imach \<times> oop list) ires option" where
  "disarm_frames fp handlers im =
     cbind (Some (marker_class im fp)) (\<lambda>mc.
     cbind (case mc of MC_None \<Rightarrow> returns (im, handlers) | MC_Handler h \<Rightarrow> cbind (Some (clear_marker fp im)) (\<lambda>im. returns (im, handlers @ [h]))
                     | MC_Token _ \<Rightarrow> returns (im, handlers)) (\<lambda>x.
       case x of (im, handlers) \<Rightarrow>
         (case fr_saved_fp_opt (im_stack im) fp of
            None \<Rightarrow> returns (im, handlers)
          | Some saved_fp \<Rightarrow>
              if saved_fp = ENTRY_FRAME_SENTINEL then returns (im, handlers)
              else disarm_frames (i64_as_usize saved_fp) handlers im)))"

fun run_blocks :: "prims \<Rightarrow> oop list \<Rightarrow> imach \<Rightarrow> imach ires option" where
  "run_blocks P [] im = returns im"
| "run_blocks P (h # hs) im =
     cbind (case obj_try_from Closure (im_objs im) h of Some c \<Rightarrow> run_block_to_completion P c im | None \<Rightarrow> returns im) (run_blocks P hs)"

definition run_curtailment_blocks_on_error :: "prims \<Rightarrow> imach \<Rightarrow> imach ires option" where
  "run_curtailment_blocks_on_error P im =
     (if im_curtailing im then returns im
      else
        let im = im\<lparr>im_curtailing := True\<rparr> in
        cbind (if ps_fp (im_stack im) = i64_as_usize ENTRY_FRAME_SENTINEL then returns (im, [])
               else disarm_frames (ps_fp (im_stack im)) [] im) (\<lambda>(im, handlers).
        cbind (run_blocks P handlers im) (\<lambda>im. returns (im\<lparr>im_curtailing := False\<rparr>))))"

end
