(* ===== verification/InterpSpec.thy ===== *)
theory InterpSpec
  imports Ensuring Interp
begin

unbundle bit_operations_syntax

text \<open>
  The loop as a relation of single steps, the frames that an unhandled error disarms, and the bytecodes
  that stay in their frame.
\<close>

section \<open>Disarming the frames of a chain\<close>

lemma fr_saved_fp_opt_chain:
  assumes "stack_ok im fps" and "fp \<in> set fps"
  shows "fr_saved_fp_opt (im_stack im) fp = Some (smi_value (im_slots im ! (fp + 1)))"
proof -
  note r = stack_ok_reads [OF assms] and d = stack_okD [OF assms(1)]
  have l: "fp + 1 < length (im_slots im)" using r(12) d(5) by simp
  obtain lim where f: "is_frame (im_objs im) (im_nil im) (im_slots im) fp lim" using stack_ok_frame [OF assms] by blast
  then have "smi_try_from (im_slots im ! (fp + 1)) = Some (im_slots im ! (fp + 1))"
    by (simp add: is_frame_def Let_def smi_try_from_def)
  moreover have "checked_add_usize fp 1 = Some (fp + 1)" using r(13) by (simp add: checked_add_usize_def)
  ultimately show ?thesis using l by (simp add: fr_saved_fp_opt_def fr_smi_opt_def FRAME_SAVED_FP_def)
qed

lemma disarm_frames_chain:
  "stack_ok im (pre @ fps) \<Longrightarrow> fps \<noteq> [] \<Longrightarrow> \<exists>im'. disarm_frames (hd fps) acc im = returns (im', acc @ map (handler_of im) (filter (armed im) fps))
     \<and> stack_ok im' (pre @ fps) \<and> filter (armed im') fps = [] \<and> im_objs im' = im_objs im \<and> im_nil im' = im_nil im
     \<and> (\<forall>i. (\<forall>fp \<in> set fps. i \<noteq> fp + 6) \<longrightarrow> im_slots im' ! i = im_slots im ! i)
     \<and> im_sp im' = im_sp im \<and> im_curtailing im' = im_curtailing im \<and> same_env im im'"
proof (induction fps arbitrary: pre acc im)
  case (Cons fp fps)
  have mem: "fp \<in> set (pre @ fp # fps)" by simp
  note ok = Cons.prems(1)
  note r = stack_ok_reads [OF ok mem] and d = stack_okD [OF ok] and cm = clear_marker_frame [OF ok mem]
  let ?im = "if armed im fp then unmarked fp im else im"
  let ?acc = "acc @ (if armed im fp then [handler_of im fp] else [])"
  have ok1: "stack_ok ?im (pre @ fp # fps)" using ok cm(2) by simp
  have sl: "im_slots ?im ! i = im_slots im ! i" if "i \<noteq> fp + 6" for i using that by simp
  have un: "\<not> armed ?im fp"
    using cm(2) r(12) d(5) by (auto simp: armed_def)
  obtain lim where chain: "frames_ok (im_objs im) (im_nil im) (im_slots im) (fp # fps) lim"
    using frames_ok_suffix [OF d(2)] by blast
  have lt: "f + 7 \<le> fp" if "f \<in> set fps" for f using frames_ok_sorted [OF chain that] by linarith
  have same: "armed ?im f = armed im f" "handler_of ?im f = handler_of im f" if "f \<in> set fps" for f
    using sl [of "f + 6"] lt [OF that] by (simp_all add: armed_def)
  have first: "disarm_frames fp acc im =
      (case fps of [] \<Rightarrow> returns (?im, ?acc) | fp' # _ \<Rightarrow> disarm_frames fp' ?acc ?im)"
  proof -
    have s: "fr_saved_fp_opt (im_stack ?im) fp = Some (smi_value (im_slots im ! (fp + 1)))"
      using fr_saved_fp_opt_chain [OF ok1 mem] sl [of "fp + 1"] by simp
    have u: "i64_as_usize (int fp') = fp'" if "fp' \<in> set fps" for fp'
      using lt [OF that] r(13) by (intro i64_as_usize_int) simp
    have inner: "cbind (Some (marker_class im fp)) (\<lambda>mc.
       cbind (case mc of MC_None \<Rightarrow> returns (im, acc) | MC_Handler h \<Rightarrow> cbind (Some (clear_marker fp im)) (\<lambda>im. returns (im, acc @ [h]))
                       | MC_Token _ \<Rightarrow> returns (im, acc)) K) = K (?im, ?acc)" for K
      unfolding r(7) by (cases "armed im fp"; cases "handler_of im fp = im_nil im") (simp_all add: cm(1), simp add: armed_def)
    have link: "smi_value (im_slots im ! (fp + 1)) = (case fps of [] \<Rightarrow> ENTRY_FRAME_SENTINEL | fp' # _ \<Rightarrow> int fp')"
      using chain by simp
    show ?thesis
      unfolding disarm_frames.simps [of fp acc im] inner prod.case s link option.case
      by (cases fps) (simp_all add: u ENTRY_FRAME_SENTINEL_def)
  qed
  show ?case
  proof (cases "fps = []")
    case True
    then show ?thesis
      using first ok1 un r(12) d(5) cm(3) by (auto simp: unchanged_below_def intro!: exI [of _ ?im])
  next
    case False
    then obtain fp' fps' where fps: "fps = fp' # fps'" by (cases fps) auto
    have "stack_ok ?im ((pre @ [fp]) @ fps)" using ok1 by simp
    from Cons.IH [OF this False, of ?acc] obtain im' where im':
      "disarm_frames (hd fps) ?acc ?im = returns (im', ?acc @ map (handler_of ?im) (filter (armed ?im) fps))"
      "stack_ok im' ((pre @ [fp]) @ fps)" "filter (armed im') fps = []" "im_objs im' = im_objs ?im" "im_nil im' = im_nil ?im"
      "\<forall>i. (\<forall>f \<in> set fps. i \<noteq> f + 6) \<longrightarrow> im_slots im' ! i = im_slots ?im ! i" "im_sp im' = im_sp ?im"
      "im_curtailing im' = im_curtailing ?im" "same_env ?im im'" by blast
    have keep: "im_slots im' ! (fp + 6) = im_slots ?im ! (fp + 6)" 
    proof -
      have "\<forall>f \<in> set fps. fp + 6 \<noteq> f + 6" using lt by fastforce
      with im'(6) show ?thesis by blast
    qed
    then have "\<not> armed im' fp" using un im'(4,5) by (simp add: armed_def)
    moreover have "map (handler_of ?im) (filter (armed ?im) fps) = map (handler_of im) (filter (armed im) fps)"
    proof -
      have "filter (armed ?im) fps = filter (armed im) fps" by (rule filter_cong [OF refl]) (rule same(1))
      moreover have "map (handler_of ?im) (filter (armed im) fps) = map (handler_of im) (filter (armed im) fps)"
        by (rule map_cong [OF refl]) (use same(2) in auto)
      ultimately show ?thesis by simp
    qed
    moreover have "same_env im im'" using im'(9) cm(3) by (auto simp: unchanged_below_def intro: same_env_trans split: if_splits)
    ultimately show ?thesis
      using first im' fps sl by (intro exI [of _ im']) auto
  qed
qed simp

section \<open>The loop as iterated steps\<close>

text \<open>\<open>ends P m bci im r\<close>: finitely many steps lead from the bytecode at \<open>bci\<close> of \<open>m\<close> to the outcome \<open>r\<close>,
  an answer or the failure of a step.\<close>

inductive ends :: "prims \<Rightarrow> oop \<Rightarrow> nat \<Rightarrow> imach \<Rightarrow> (imach \<times> oop) ires \<Rightarrow> bool" where
  fails: "step P m bci im = Some (Inl e) \<Longrightarrow> ends P m bci im (Inl e)"
| answers: "step P m bci im = returns (im', Done r) \<Longrightarrow> ends P m bci im (Inr (im', r))"
| goes: "step P m bci im = returns (im', Next m' bci') \<Longrightarrow> ends P m' bci' im' r \<Longrightarrow> ends P m bci im r"

inductive_cases ends_cases: "ends P m bci im r"

lemma dispatch_from_step:
  "dispatch_from P m bci im =
    (case step P m bci im of
       None \<Rightarrow> None
     | Some (Inl e) \<Rightarrow> Some (Inl e)
     | Some (Inr (im', Done r)) \<Rightarrow> returns (im', r)
     | Some (Inr (im', Next m' bci')) \<Rightarrow> dispatch_from P m' bci' im')"
  by (subst dispatch_from.simps) (auto simp: cbind_def split: option.splits sum.splits flow.splits)

lemma ends_dispatch: "ends P m bci im r \<Longrightarrow> dispatch_from P m bci im = Some r"
  by (induction rule: ends.induct) (simp_all add: dispatch_from_step)

lemma dispatch_ends: "dispatch_from P m bci im = Some r \<Longrightarrow> ends P m bci im r"
proof (erule dispatch_from.raw_induct [where Pa = "\<lambda>(((P, m), bci), im) r. ends P m bci im r", simplified prod.case, rotated])
  fix f P m bci im r
  assume IH: "\<And>P m bci im r. f P m bci im = Some r \<Longrightarrow> ends P m bci im r"
    and eq: "cbind (step P m bci im) (\<lambda>(im, fl). case fl of Next m bci \<Rightarrow> f P m bci im | Done r \<Rightarrow> returns (im, r)) = Some r"
  show "ends P m bci im r"
  proof (cases "step P m bci im")
    case None
    with eq show ?thesis by (simp add: cbind_def)
  next
    case s: (Some x)
    show ?thesis
    proof (cases x)
      case (Inl e)
      with eq s have "r = Inl e" by (simp add: cbind_def)
      moreover have "step P m bci im = Some (Inl e)" using s Inl by simp
      ultimately show ?thesis by (blast intro: ends.fails)
    next
      case (Inr y)
      obtain im' fl where y: "y = (im', fl)" by (cases y)
      have st: "step P m bci im = returns (im', fl)" using s Inr y by simp
      show ?thesis
      proof (cases fl)
        case (Next m' bci')
        with eq st have "f P m' bci' im' = Some r" by (simp add: cbind_def)
        from IH [OF this] show ?thesis using st Next by (blast intro: ends.goes)
      next
        case (Done v)
        with eq st have "r = Inr (im', v)" by (simp add: cbind_def)
        moreover have "step P m bci im = returns (im', Done v)" using st Done by simp
        ultimately show ?thesis by (blast intro: ends.answers)
      qed
    qed
  qed
qed

end
