(* ===== verification/LocalSteps.thy ===== *)
theory LocalSteps
  imports InterpSpec
begin

unbundle bit_operations_syntax

text \<open>
  The bytecodes that stay in their frame: pushes, pops, stores, jumps, branches on booleans and new
  closures. Each leaves the chain of frames as it was.
\<close>

section \<open>What an answer satisfies\<close>

definition ans :: "'a ires \<Rightarrow> ('a \<Rightarrow> bool) \<Rightarrow> bool" where
  "ans r Q \<longleftrightarrow> (case r of Inl _ \<Rightarrow> True | Inr a \<Rightarrow> Q a)"

lemma ans_simps [simp]:
  "ans (Inr a) Q \<longleftrightarrow> Q a" "ans (Inl e) Q" "ans (guard_res c e r) Q \<longleftrightarrow> (c \<longrightarrow> ans r Q)"
  by (auto simp: ans_def guard_res_def)

lemma ans_rbind [simp]: "ans (rbind r f) Q \<longleftrightarrow> ans r (\<lambda>a. ans (f a) Q)"
  by (auto simp: ans_def rbind_def split: sum.splits)

lemma ans_mono: "ans r P \<Longrightarrow> (\<And>a. P a \<Longrightarrow> Q a) \<Longrightarrow> ans r Q"
  by (auto simp: ans_def split: sum.splits)

lemma ans_lift: "ans (lift_res r) Q \<longleftrightarrow> (\<forall>a. r = Inr a \<longrightarrow> Q a)"
  by (cases r) simp_all

lemma ans_triv: "(\<And>a. Q a) \<Longrightarrow> ans r Q"
  by (simp add: ans_def split: sum.split)

lemma ans_bindI: "ans r P \<Longrightarrow> (\<And>a. P a \<Longrightarrow> ans (f a) Q) \<Longrightarrow> ans (rbind r f) Q"
  by (auto elim!: ans_mono)

lemma ans_lift_bindI: "(\<And>a. r = Inr a \<Longrightarrow> ans (f a) Q) \<Longrightarrow> ans (rbind (lift_res r) f) Q"
  by (cases r) simp_all

lemma ans_guardI: "(c \<Longrightarrow> ans r Q) \<Longrightarrow> ans (guard_res c e r) Q"
  by simp

text \<open>The stack is still the chain \<open>fps\<close>, with the same active method.\<close>

definition still :: "oop \<Rightarrow> nat list \<Rightarrow> imach \<Rightarrow> bool" where
  "still m fps im \<longleftrightarrow> stack_ok im fps \<and> im_slots im ! im_fp im = m"

lemma ans_push: "still m fps im \<Longrightarrow> ans (push v im) (still m fps)"
  using stack_ok_pushed [of im fps v] stack_ok_floor [of im fps]
  by (auto simp: push_def try_push_def still_def pushed_def set_stack_def im_floor_def)

lemma ans_pop: "still m fps im \<Longrightarrow> ans (pop im) (\<lambda>(im', v). still m fps im')"
proof -
  assume st: "still m fps im"
  then have ok: "stack_ok im fps" by (simp add: still_def)
  show ?thesis
    using st
    unfolding pop_def st_pop_def pop_floor_chain [OF ok]
    using stack_ok_set_sp [OF ok, of "im_sp im - 1"]
    by (auto simp: ans_lift still_def set_sp_def guard_res_def st_get_def split: if_splits)
qed

lemma still_set_slot:
  assumes ok: "stack_ok im fps" and i: "frame_base (im_objs im) (im_slots im) (im_fp im) < i \<and> i < im_fp im \<or> im_fp im + 7 \<le> i"
  shows "stack_ok (set_stack im ((im_stack im)\<lparr>ps_slots := (im_slots im)[i := v]\<rparr>)) fps"
proof -
  note d = stack_okD [OF ok]
  obtain f rest where fps: "fps = f # rest" using d(7) by (cases fps) auto
  let ?os = "im_objs im" and ?sl = "im_slots im" and ?sl' = "(im_slots im)[i := v]" and ?n = "im_nil im"
  have f: "is_frame ?os ?n ?sl f (im_sp im)" and rest: "frames_ok ?os ?n ?sl rest (frame_base ?os ?sl f)" and fp: "im_fp im = f"
    using d(2,4) fps by simp_all
  then have same: "?sl' ! k = ?sl ! k" if "k \<in> {f, f + 1, f + 2, f + 4, f + 5, f + 6, frame_base ?os ?sl f}" for k
    using i that by (auto simp: is_frame_def Let_def nth_list_update)
  have "is_frame ?os ?n ?sl' f (im_sp im)"
    using f by (simp add: is_frame_def Let_def same)
  moreover have "frames_ok ?os ?n ?sl' rest (frame_base ?os ?sl f)"
  proof (rule frames_ok_cong [OF rest objs_ext_refl])
    show "?sl' ! k = ?sl ! k" if "k < frame_base ?os ?sl f" for k using i that fp by (auto simp: nth_list_update)
    show "frame_base ?os ?sl f \<le> length ?sl'" using f by (auto simp: is_frame_def Let_def)
  qed
  ultimately have "frames_ok ?os ?n ?sl' fps (im_sp im)" using d(2) same by (simp add: fps)
  moreover have "machine_ok (set_stack im ((im_stack im)\<lparr>ps_slots := ?sl'\<rparr>))"
    by (rule machine_ok_env [OF d(1)]) (use d in simp_all)
  ultimately show ?thesis using d by (intro stack_okI) simp_all
qed

lemma ans_put_temp: "still m fps im \<Longrightarrow> ans (put_temp t v im) (still m fps)"
proof -
  assume st: "still m fps im"
  then have ok: "stack_ok im fps" by (simp add: still_def)
  note d = stack_okD [OF ok]
  have mem: "im_fp im \<in> set fps" using d(4,7) by simp
  note r = stack_ok_reads [OF ok mem]
  let ?a = "m_argc (im_objs im) (im_slots im ! im_fp im)"
  have argc: "fr_argc (im_objs im) (im_stack im) (im_fp im) = Inr ?a"
    using r(1) method_ok_simps(1) [OF r(8)] by (simp add: fr_argc_def)
  have i: "frame_base (im_objs im) (im_slots im) (im_fp im) < i \<and> i < im_fp im \<or> im_fp im + 7 \<le> i"
    if "temp_index (im_objs im) (im_stack im) (im_fp im) t = Inr i" for i
    using that r(9) argc r(2) by (auto simp: temp_index_def guard_res_def FRAME_TEMPS_BASE_def split: if_splits)
  from still_set_slot [OF ok this] i st show ?thesis
    by (auto simp: put_temp_def on_stack_def ans_lift fr_set_temp_def st_set_def still_def rbind_Inr_iff guard_res_def split: if_splits)
qed

lemma still_objs:
  assumes "stack_ok im fps" and "objs_ext (im_objs im) os"
  shows "stack_ok (im\<lparr>im_objs := os\<rparr>) fps"
  by (rule stack_ok_cong [OF assms(1), where n = "im_sp im"])
     (use assms stack_ok_floor [OF assms(1)] stack_okD [OF assms(1)] in
       \<open>auto simp: same_env_def intro: exI [of _ "lv_header_klass (im_lk im)"]\<close>)

section \<open>Objects that bytecodes write\<close>

lemma keeps_other: "ho_format ob \<noteq> Method \<Longrightarrow> ho_format ob \<noteq> Closure \<Longrightarrow> ho_format ob' = ho_format ob \<Longrightarrow> keeps_obj ob ob'"
  by (simp add: keeps_obj_def)

definition plain_object :: "objs \<Rightarrow> oop \<Rightarrow> bool" where
  "plain_object os w \<longleftrightarrow> (\<forall>ob. os w = Some ob \<longrightarrow> ho_format ob \<noteq> Method \<and> ho_format ob \<noteq> Closure)"

lemma set_body_ext: "set_body_at os w i v = Inr os' \<Longrightarrow> plain_object os w \<Longrightarrow> objs_ext os os'"
  by (auto simp: set_body_at_def expect_def rbind_Inr_iff guard_res_def plain_object_def keeps_other
      intro!: objs_ext_upd split: option.splits if_splits)

lemma set_tail_ext: "set_tail_at os w i v = Inr os' \<Longrightarrow> plain_object os w \<Longrightarrow> objs_ext os os'"
  by (auto simp: set_tail_at_def expect_def rbind_Inr_iff guard_res_def plain_object_def keeps_other
      intro!: objs_ext_upd split: option.splits if_splits)

lemma context_plain: "is_context os c \<Longrightarrow> plain_object os c"
  by (auto simp: plain_object_def obj_try_from_Some)

lemma counters_ext:
  assumes "set_counters os m v = Inr os'" and "is_method os m"
  shows "objs_ext os os'"
  using assms
  by (auto simp: set_counters_def set_body_at_def expect_def rbind_Inr_iff guard_res_def obj_try_from_Some keeps_obj_def same_method_def
      intro!: objs_ext_upd split: option.splits if_splits)

lemma ans_im_store:
  assumes "still m fps im" and "plain_object (im_objs im) w"
  shows "ans (im_store w i v im) (still m fps)"
proof -
  have "stack_ok (im\<lparr>im_objs := os, im_barriered := b\<rparr>) fps" if "set_body_at (im_objs im) w i v = Inr os" for os b
    using still_objs [OF _ set_body_ext [OF that assms(2)]] assms(1) by (simp add: still_def stack_ok_def machine_ok_def)
  then show ?thesis using assms(1) by (auto simp: im_store_def on_objs_def ans_lift still_def)
qed

lemma pop_objs: "pop im = Inr (im', v) \<Longrightarrow> im_objs im' = im_objs im \<and> im_fp im' = im_fp im"
  by (auto simp: pop_def lift_res_def st_pop_def rbind_Inr_iff guard_res_def split: sum.splits if_splits)

lemma ans_pop_then:
  assumes "still m fps im" and "\<And>im' v. still m fps im' \<Longrightarrow> im_objs im' = im_objs im \<Longrightarrow> im_fp im' = im_fp im \<Longrightarrow> ans (f (im', v)) Q"
  shows "ans (rbind (pop im) f) Q"
proof (cases "pop im")
  case (Inr x)
  obtain im' v where x: "x = (im', v)" by (cases x)
  with Inr ans_pop [OF assms(1)] have "still m fps im'" by simp
  with assms(2) pop_objs [of im im' v] Inr x show ?thesis by simp
qed simp

lemma ctx_hops_context: "ctx_hops os d c = Inr r \<Longrightarrow> is_context os r"
proof (induction d arbitrary: c)
  case 0
  then show ?case by (auto simp: expect_def obj_try_from_Some split: option.splits)
next
  case (Suc d)
  then show ?case by (auto simp: rbind_Inr_iff)
qed

lemma ans_store_ctx:
  assumes "still m fps im"
  shows "ans (op_store_ctx_temp_pop d i im) (still m fps)"
proof -
  have "ans (rbind (pop im) (\<lambda>(im, v). rbind (on_objs (\<lambda>os. ctx_set_slot os ctx i v) im) (\<lambda>im. Inr (im\<lparr>im_barriered := im_barriered im @ [ctx]\<rparr>)))) (still m fps)"
    if "ctx_temp_walk im d = Inr ctx" for ctx
  proof (rule ans_pop_then [OF assms])
    fix im' v assume still: "still m fps im'" and os: "im_objs im' = im_objs im"
    have "is_context (im_objs im) ctx"
      using that by (auto simp: ctx_temp_walk_def lift_res_def rbind_Inr_iff split: sum.splits dest: ctx_hops_context)
    then have p: "plain_object (im_objs im') ctx" unfolding os by (rule context_plain)
    have "stack_ok (im'\<lparr>im_objs := os, im_barriered := b\<rparr>) fps" if "set_tail_at (im_objs im') ctx i v = Inr os" for os b
      using still_objs [OF _ set_tail_ext [OF that p]] still by (simp add: still_def stack_ok_def machine_ok_def)
    then show "ans (case (im', v) of (im, v) \<Rightarrow> rbind (on_objs (\<lambda>os. ctx_set_slot os ctx i v) im)
        (\<lambda>im. Inr (im\<lparr>im_barriered := im_barriered im @ [ctx]\<rparr>))) (still m fps)"
      using still by (auto simp: on_objs_def ans_lift still_def ctx_set_slot_def)
  qed
  then show ?thesis by (cases "ctx_temp_walk im d") (simp_all add: op_store_ctx_temp_pop_def del: ans_rbind)
qed

section \<open>New closures\<close>

lemma fresh_ext: "objs_ext os os1 \<Longrightarrow> os a = None \<Longrightarrow> objs_ext os (os1(a \<mapsto> ob))"
  by (auto simp: objs_ext_def)

lemma ans_on_fresh:
  assumes "objs_ext os0 (im_objs im)" and "os0 a = None" and "f = set_body_at \<or> f = set_tail_at"
  shows "ans (on_objs (\<lambda>os. f os a i v) im) (\<lambda>im'. objs_ext os0 (im_objs im') \<and> im_stack im' = im_stack im \<and> same_env im im')"
proof -
  have "objs_ext os0 os \<and> same_env im (im\<lparr>im_objs := os\<rparr>)" if "f (im_objs im) a i v = Inr os" for os
    using that assms
    by (auto simp: set_body_at_def set_tail_at_def expect_def rbind_Inr_iff guard_res_def fresh_ext same_env_def
        intro: exI [of _ "lv_header_klass (im_lk im)"] split: option.splits if_splits)
  then show ?thesis by (auto simp: on_objs_def ans_lift set_stack_def)
qed

text \<open>While a new object is filled, the older ones and the stack stay.\<close>

definition filling :: "imach \<Rightarrow> imach \<Rightarrow> bool" where
  "filling im im' \<longleftrightarrow> objs_ext (im_objs im) (im_objs im') \<and> im_slots im' = im_slots im \<and> im_fp im' = im_fp im
     \<and> ps_has_frame (im_stack im') = ps_has_frame (im_stack im) \<and> same_env im im'"

lemma ans_fill:
  assumes "filling im im'" and "im_objs im a = None" and "f = set_body_at \<or> f = set_tail_at"
  shows "ans (on_objs (\<lambda>os. f os a i v) im') (\<lambda>im''. filling im im'' \<and> im_sp im'' = im_sp im')"
  by (rule ans_mono [OF ans_on_fresh [where ?os0.0 = "im_objs im" and f = f]])
     (use assms in \<open>auto simp: filling_def intro: same_env_trans\<close>)

lemma ans_fill_copied:
  "filling im im' \<Longrightarrow> im_objs im a = None \<Longrightarrow>
    ans (fill_copied a vb base is im') (\<lambda>im''. filling im im'' \<and> im_sp im'' = im_sp im')"
proof (induction "is" arbitrary: im')
  case (Cons i "is")
  have "ans (on_objs (\<lambda>os. cl_set_copied os a (vb + i) v) im') (\<lambda>im''. ans (fill_copied a vb base is im'') (\<lambda>x. filling im x \<and> im_sp x = im_sp im'))" for v
    unfolding cl_set_copied_def
    by (rule ans_mono [OF ans_fill [OF Cons.prems]]) (auto dest!: Cons.IH [OF _ Cons.prems(2)])
  then show ?case by (cases "get im' (base + i)") simp_all
qed simp

lemma alloc_closure_filling:
  assumes "machine_ok im"
  shows "ans (alloc_closure n im) (\<lambda>(im', a). im_objs im a = None \<and> filling im im' \<and> im_sp im' = im_sp im)"
  using assms
  by (auto simp: alloc_closure_def new_object_def filling_def machine_ok_def same_env_def objs_ext_new ans_def split: option.splits)

lemma ans_pair: "ans r (\<lambda>(a, b). P a b) \<Longrightarrow> (\<And>a b. P a b \<Longrightarrow> ans (f (a, b)) Q) \<Longrightarrow> ans (rbind r f) Q"
  by (auto elim!: ans_mono)

lemma ans_make_closure:
  assumes ok: "still m fps im" and n: "im_floor im + n \<le> im_sp im"
  shows "ans (make_closure blk n im) (\<lambda>(im', c). still m fps im' \<and> im_fp im' = im_fp im)"
proof -
  from ok have sok: "stack_ok im fps" by (simp add: still_def)
  note d = stack_okD [OF sok]
  have fin: "still m fps im' \<and> im_fp im' = im_fp im" if "filling im im'" "im_sp im' = im_sp im - n" for im'
    unfolding still_def
    by (intro conjI stack_ok_cong [OF sok, where n = "im_sp im - n"]) (use that n d ok in \<open>auto simp: filling_def still_def\<close>)
  have body: "ans (on_objs (\<lambda>os. set_body_at os a i v) im') (\<lambda>im''. filling im im'' \<and> im_sp im'' = im_sp im')"
    and tail: "ans (on_objs (\<lambda>os. set_tail_at os a i v) im') (\<lambda>im''. filling im im'' \<and> im_sp im'' = im_sp im')"
    if "filling im im'" "im_objs im a = None" for im' a i v
    using ans_fill [OF that, of set_body_at] ans_fill [OF that, of set_tail_at] by simp_all
  have sp: "filling im (set_sp k im') \<and> im_sp (set_sp k im') = k" if "filling im im'" for im' k
    using that by (auto simp: filling_def intro: same_env_trans)
  have "ans (rbind (on_objs (\<lambda>os. cl_set_method os a blk) im1) (\<lambda>im.
         rbind (lift_res (fr_receiver (im_stack im) fp)) (\<lambda>r.
         rbind (on_objs (\<lambda>os. cl_set_copied os a 0 r) im) (\<lambda>im.
         rbind (if captures then
                  rbind (lift_res (fr_context (im_stack im) fp)) (\<lambda>c. on_objs (\<lambda>os. cl_set_copied os a 1 c) im)
                else Inr im) (\<lambda>im.
         rbind (home_ref_for_new_closure im) (\<lambda>home.
         rbind (on_objs (\<lambda>os. cl_set_home os a home) im) (\<lambda>im. Inr (im, a))))))))
      (\<lambda>(im', c). still m fps im' \<and> im_fp im' = im_fp im)"
    if f1: "filling im im1 \<and> im_sp im1 = im_sp im - n" and a: "im_objs im a = None" for im1 a fp captures
  proof -
    note step = ans_mono [OF body] ans_mono [OF tail]
    have last: "ans (on_objs (\<lambda>os. cl_set_home os a home) im4) (\<lambda>im'. still m fps im' \<and> im_fp im' = im_fp im)"
      if "filling im im4 \<and> im_sp im4 = im_sp im - n" for im4 home
      unfolding cl_set_home_def by (rule step(1)) (use that a fin in auto)
    have copy: "ans (on_objs (\<lambda>os. cl_set_copied os a i v) im3) (\<lambda>im'. filling im im' \<and> im_sp im' = im_sp im - n)"
      if "filling im im3 \<and> im_sp im3 = im_sp im - n" for im3 i v
      unfolding cl_set_copied_def by (rule step(2)) (use that a in auto)
    have meth: "ans (on_objs (\<lambda>os. cl_set_method os a blk) im1) (\<lambda>im'. filling im im' \<and> im_sp im' = im_sp im - n)"
      unfolding cl_set_method_def by (rule step(1)) (use f1 a in auto)
    have capt: "ans (if captures then
           rbind (lift_res (fr_context (im_stack im3) fp)) (\<lambda>c. on_objs (\<lambda>os. cl_set_copied os a 1 c) im3)
         else Inr im3) (\<lambda>im'. filling im im' \<and> im_sp im' = im_sp im - n)"
      if "filling im im3 \<and> im_sp im3 = im_sp im - n" for im3
      using that copy [OF that] by (simp add: ans_lift)
    have home: "ans (home_ref_for_new_closure im4) (\<lambda>home. ans (on_objs (\<lambda>os. cl_set_home os a home) im4)
        (\<lambda>im'. still m fps im' \<and> im_fp im' = im_fp im))"
      if "filling im im4 \<and> im_sp im4 = im_sp im - n" for im4
      by (rule ans_triv) (rule last [OF that])
    show ?thesis
      unfolding ans_rbind ans_lift
      by (rule ans_mono [OF meth], intro allI impI, rule ans_mono [OF copy], assumption, rule ans_mono [OF capt], assumption,
          rule ans_mono [OF home], assumption, rule ans_mono, assumption, simp)
  qed
  note finish = this
  have alloc: "ans (alloc_closure k im) (\<lambda>(im', a). im_objs im a = None \<and> filling im im' \<and> im_sp im' = im_sp im)" for k
    by (rule alloc_closure_filling [OF d(1)])
  have rest: "ans (rbind (lift_res (usub (im_sp im1) n)) (\<lambda>base.
         rbind (fill_copied a vb base [0..<n] im1) (\<lambda>im.
         rbind (on_objs (\<lambda>os. cl_set_method os a blk) (set_sp base im)) (\<lambda>im'.
         rbind (lift_res (fr_receiver (im_stack im') (im_fp (set_sp base im)))) (\<lambda>r.
         rbind (on_objs (\<lambda>os. cl_set_copied os a 0 r) im') (\<lambda>im'.
         rbind (if captures then
                  rbind (lift_res (fr_context (im_stack im') (im_fp (set_sp base im)))) (\<lambda>c. on_objs (\<lambda>os. cl_set_copied os a 1 c) im')
                else Inr im') (\<lambda>im.
         rbind (home_ref_for_new_closure im) (\<lambda>home.
         rbind (on_objs (\<lambda>os. cl_set_home os a home) im) (\<lambda>im. Inr (im, a))))))))))
      (\<lambda>(im', c). still m fps im' \<and> im_fp im' = im_fp im)"
    if f1: "filling im im1" "im_sp im1 = im_sp im" and a: "im_objs im a = None" for im1 a vb captures
  proof (rule ans_lift_bindI)
    fix base assume "usub (im_sp im1) n = Inr base"
    then have base: "base = im_sp im - n" using f1(2) by (simp add: usub_def guard_res_def split: if_splits)
    show "ans (rbind (fill_copied a vb base [0..<n] im1) (\<lambda>im.
         rbind (on_objs (\<lambda>os. cl_set_method os a blk) (set_sp base im)) (\<lambda>im'.
         rbind (lift_res (fr_receiver (im_stack im') (im_fp (set_sp base im)))) (\<lambda>r.
         rbind (on_objs (\<lambda>os. cl_set_copied os a 0 r) im') (\<lambda>im'.
         rbind (if captures then
                  rbind (lift_res (fr_context (im_stack im') (im_fp (set_sp base im)))) (\<lambda>c. on_objs (\<lambda>os. cl_set_copied os a 1 c) im')
                else Inr im') (\<lambda>im.
         rbind (home_ref_for_new_closure im) (\<lambda>home.
         rbind (on_objs (\<lambda>os. cl_set_home os a home) im) (\<lambda>im. Inr (im, a)))))))))
      (\<lambda>(im', c). still m fps im' \<and> im_fp im' = im_fp im)"
    proof (rule ans_bindI [OF ans_fill_copied [OF f1(1) a]])
      fix im2 assume "filling im im2 \<and> im_sp im2 = im_sp im1"
      then have "filling im (set_sp base im2) \<and> im_sp (set_sp base im2) = im_sp im - n" using sp base by simp
      from finish [OF this a] show "ans (rbind (on_objs (\<lambda>os. cl_set_method os a blk) (set_sp base im2)) (\<lambda>im'.
         rbind (lift_res (fr_receiver (im_stack im') (im_fp (set_sp base im2)))) (\<lambda>r.
         rbind (on_objs (\<lambda>os. cl_set_copied os a 0 r) im') (\<lambda>im'.
         rbind (if captures then
                  rbind (lift_res (fr_context (im_stack im') (im_fp (set_sp base im2)))) (\<lambda>c. on_objs (\<lambda>os. cl_set_copied os a 1 c) im')
                else Inr im') (\<lambda>im.
         rbind (home_ref_for_new_closure im) (\<lambda>home.
         rbind (on_objs (\<lambda>os. cl_set_home os a home) im) (\<lambda>im. Inr (im, a))))))))
      (\<lambda>(im', c). still m fps im' \<and> im_fp im' = im_fp im)" .
    qed
  qed
  show ?thesis
    unfolding make_closure_def Let_def
    by (rule ans_lift_bindI, rule ans_guardI, rule ans_lift_bindI, rule ans_pair [OF alloc], unfold prod.case, elim conjE, rule rest)
qed

section \<open>Local bytecodes\<close>

text \<open>A bytecode that neither sends nor returns, whose operands are on the stack of its frame and that
  does not store into a method or a closure.\<close>

definition local_instr :: "oop \<Rightarrow> instr \<Rightarrow> imach \<Rightarrow> bool" where
  "local_instr m i im =
     (case i of
        Send _ _ \<Rightarrow> False
      | ReturnTos \<Rightarrow> False
      | ReturnSelf \<Rightarrow> False
      | BlockReturnTos \<Rightarrow> False
      | NlrTos \<Rightarrow> False
      | BrTrueFwd _ \<Rightarrow> im_slots im ! (im_sp im - 1) \<in> {im_true im, im_false im}
      | BrFalseFwd _ \<Rightarrow> im_slots im ! (im_sp im - 1) \<in> {im_true im, im_false im}
      | StoreInstvarPop _ \<Rightarrow> plain_object (im_objs im) (im_slots im ! (im_fp im + 4))
      | StoreGlobalPop a \<Rightarrow> (case mt_literal (im_objs im) m (unat a) of Inr w \<Rightarrow> plain_object (im_objs im) w | Inl _ \<Rightarrow> True)
      | PushClosure _ n \<Rightarrow> im_floor im + unat n \<le> im_sp im
      | _ \<Rightarrow> True)"

definition goes_on :: "oop \<Rightarrow> nat list \<Rightarrow> (imach \<times> flow) ires option \<Rightarrow> bool" where
  "goes_on m fps c \<longleftrightarrow> (case c of None \<Rightarrow> False | Some r \<Rightarrow> ans r (\<lambda>(im', fl). still m fps im' \<and> (\<exists>b. fl = Next m b)))"

lemma goes_on_simps [simp]:
  "goes_on m fps (Some r) \<longleftrightarrow> ans r (\<lambda>(im', fl). still m fps im' \<and> (\<exists>b. fl = Next m b))"
  "goes_on m fps (cbind (Some r) f) \<longleftrightarrow> (case r of Inl _ \<Rightarrow> True | Inr a \<Rightarrow> goes_on m fps (f a))"
  by (auto simp: goes_on_def cbind_def ans_def split: sum.splits)

lemma goes_on_push: "still m fps im \<Longrightarrow> goes_on m fps (op_push r m next im)"
proof (cases r)
  case (Inr v)
  assume "still m fps im"
  with ans_push [OF this, of v] Inr show ?thesis by (auto simp: op_push_def elim!: ans_mono)
qed (simp add: op_push_def)

lemma goes_on_effect: "ans r (still m fps) \<Longrightarrow> goes_on m fps (op_effect r m next)"
  by (auto simp: op_effect_def elim!: ans_mono)

lemma ans_put_popped: "still m fps im \<Longrightarrow> ans (rbind (pop im) (\<lambda>(im, v). put_temp t v im)) (still m fps)"
  by (erule ans_pop_then) (simp add: ans_put_temp)

lemma ans_store_into:
  assumes "still m fps im" and "plain_object (im_objs im) w"
  shows "ans (rbind (pop im) (\<lambda>(im, v). im_store w i v im)) (still m fps)"
  by (rule ans_pop_then [OF assms(1)]) (simp add: ans_im_store assms(2))

lemma mem_try_from_Some: "mem_try_from w = Some x \<longleftrightarrow> x = w \<and> is_mem w"
  by (auto simp: mem_try_from_def)

lemma ans_store_instvar:
  assumes st: "still m fps im" and p: "plain_object (im_objs im) (im_slots im ! (im_fp im + 4))"
  shows "ans (op_store_instvar_pop i im) (still m fps)"
proof -
  have r: "r = im_slots im ! (im_fp im + 4)" if "frame_receiver im = Inr r" for r
    using that by (auto simp: frame_receiver_def fr_receiver_def FRAME_RECEIVER_def st_get_def guard_res_def lift_res_def split: if_splits)
  show ?thesis
    unfolding op_store_instvar_pop_def
  proof (cases "frame_receiver im")
    case (Inr w)
    then show "ans (rbind (frame_receiver im) (\<lambda>r. pop_into_slot r i im)) (still m fps)"
      using p r [OF Inr] unfolding Inr rbind_simps pop_into_slot_def
      by (intro ans_lift_bindI ans_store_into [OF st]) (auto simp: expect_def mem_try_from_Some split: option.splits)
  qed simp
qed

lemma ans_store_global:
  assumes st: "still m fps im" and p: "case mt_literal (im_objs im) m idx of Inr w \<Rightarrow> plain_object (im_objs im) w | Inl _ \<Rightarrow> True"
  shows "ans (op_store_global_pop m idx im) (still m fps)"
  unfolding op_store_global_pop_def
  by (intro ans_lift_bindI ans_store_into [OF st]) (use p in \<open>auto simp: expect_def mem_try_from_Some split: option.splits\<close>)

lemma current_method_still: "still m fps im \<Longrightarrow> current_method im = Inr m"
  using stack_ok_reads(1) [of im fps "im_fp im"] stack_okD(4,7) [of im fps] by (auto simp: current_method_def still_def)

lemma goes_on_closure:
  assumes st: "still m fps im" and n: "im_floor im + n \<le> im_sp im"
  shows "goes_on m fps (Some (op_push_closure m l n next im))"
proof -
  show ?thesis
    unfolding goes_on_simps op_push_closure_def
    by (rule ans_lift_bindI, rule ans_pair [OF ans_make_closure [OF st n]], unfold prod.case, elim conjE,
        rule ans_bindI [OF ans_push], assumption, simp add: current_method_still)
qed

lemma goes_on_jump_back:
  assumes st: "still m fps im"
  shows "goes_on m fps (Some (op_jump_back m next d im))"
proof -
  from st have ok: "stack_ok im fps" by (simp add: still_def)
  have "im_fp im \<in> set fps" using stack_okD(4,7) [OF ok] by simp
  from stack_ok_reads(8) [OF ok this] st have m: "is_method (im_objs im) m" by (simp add: still_def method_ok_def)
  have bump: "objs_ext (im_objs im) os" if "bump_loop_counter (im_objs im) m = Inr (os, hot)" for os hot
    using that by (auto simp: bump_loop_counter_def Let_def rbind_Inr_iff dest: counters_ext [OF _ m])
  have objs: "still m fps (im\<lparr>im_objs := os\<rparr>)" if "objs_ext (im_objs im) os" for os
    using still_objs [OF ok that] st by (simp add: still_def)
  have reset: "ans (rbind (current_method im1) (\<lambda>fm. rbind (on_objs (\<lambda>os. reset_loop_counter os fm) im1) (\<lambda>im. Inr (im, Next m t))))
      (\<lambda>(im', fl). still m fps im' \<and> (\<exists>b. fl = Next m b))"
    if "still m fps im1" for im1 t
  proof -
    from that have ok1: "stack_ok im1 fps" by (simp add: still_def)
    have "im_fp im1 \<in> set fps" using stack_okD(4,7) [OF ok1] by simp
    from stack_ok_reads(8) [OF ok1 this] that have m1: "is_method (im_objs im1) m" by (simp add: still_def method_ok_def)
    have "still m fps (im1\<lparr>im_objs := os\<rparr>)" if "reset_loop_counter (im_objs im1) m = Inr os" for os
      using that still_objs [OF ok1, of os] \<open>still m fps im1\<close> counters_ext [OF _ m1]
      by (auto simp: reset_loop_counter_def rbind_Inr_iff still_def)
    then show ?thesis using current_method_still [OF that] by (auto simp: on_objs_def ans_lift)
  qed
  have regs: "still m fps (set_regs m t im1) = still m fps im1" for t im1 by (simp add: still_def stack_ok_def machine_ok_def)
  have "ans (let im = im\<lparr>im_objs := os\<rparr> in
       if hot then
         let im = set_regs m t im in
         rbind (current_method im) (\<lambda>fm.
         rbind (on_objs (\<lambda>os. reset_loop_counter os fm) im) (\<lambda>im. Inr (im, Next m t)))
       else Inr (im, Next m t)) (\<lambda>(im', fl). still m fps im' \<and> (\<exists>b. fl = Next m b))"
    if "bump_loop_counter (im_objs im) m = Inr (os, hot)" for os hot t
    using objs [OF bump [OF that]] reset [of "set_regs m t (im\<lparr>im_objs := os\<rparr>)"] by (simp add: Let_def regs del: ans_rbind)
  then show ?thesis
    unfolding goes_on_simps op_jump_back_def
    by (intro ans_lift_bindI) (auto simp del: ans_rbind)
qed

lemma pop_value: "stack_ok im fps \<Longrightarrow> pop im = Inr (im', v) \<Longrightarrow> v = im_slots im ! (im_sp im - 1)"
  by (auto simp: pop_def st_pop_def lift_res_def rbind_Inr_iff guard_res_def st_get_def split: sum.splits if_splits)

lemma goes_on_branch:
  assumes st: "still m fps im" and v: "im_slots im ! (im_sp im - 1) \<in> {a, b}"
  shows "goes_on m fps (branch P m bci next d a b im)"
proof (cases "pop im")
  case (Inr x)
  obtain im' t where x: "x = (im', t)" by (cases x)
  from st have "stack_ok im fps" by (simp add: still_def)
  from pop_value [OF this, of im' t] Inr x v have "t \<in> {a, b}" by simp
  moreover have "still m fps im'" using ans_pop [OF st] Inr x by simp
  ultimately show ?thesis by (auto simp: branch_def Inr x)
qed (simp add: branch_def)

lemma exec_local:
  assumes st: "still m fps im" and loc: "local_instr m i im"
  shows "goes_on m fps (exec P m bci i next im)"
proof (cases i)
  case (StoreTemp t)
  have "ans (rbind (top im) (\<lambda>v. put_temp (unat t) v im)) (still m fps)"
    by (cases "top im") (simp_all add: ans_put_temp st)
  then show ?thesis by (simp add: exec_def StoreTemp goes_on_effect)
next
  case (StoreTempPop t)
  then show ?thesis by (simp add: exec_def goes_on_effect ans_put_popped st del: ans_rbind)
next
  case (StoreInstvarPop k)
  then show ?thesis using loc by (simp add: exec_def goes_on_effect ans_store_instvar st local_instr_def)
next
  case (StoreGlobalPop k)
  then show ?thesis using loc by (simp add: exec_def goes_on_effect ans_store_global st local_instr_def)
next
  case Pop
  have "ans (rbind (pop im) (\<lambda>(im, _). Inr im)) (still m fps)"
    by (rule ans_pop_then [OF st]) simp
  then show ?thesis by (simp add: exec_def Pop goes_on_effect del: ans_rbind)
next
  case (StoreCtxTempPop d a)
  then show ?thesis by (simp add: exec_def goes_on_effect ans_store_ctx st)
next
  case (PushClosure l n)
  then show ?thesis using loc goes_on_closure [OF st] by (simp add: exec_def local_instr_def del: goes_on_simps)
next
  case (JumpBack d)
  then show ?thesis using goes_on_jump_back [OF st] by (simp add: exec_def del: goes_on_simps)
next
  case (BrTrueFwd d)
  then show ?thesis using loc goes_on_branch [OF st] by (simp add: exec_def local_instr_def)
next
  case (BrFalseFwd d)
  then show ?thesis using loc goes_on_branch [OF st] by (simp add: exec_def local_instr_def insert_commute)
qed (use st loc in \<open>simp_all add: exec_def goes_on_push local_instr_def\<close>)

end
