(* ===== verification/Loops.thy ===== *)
theory Loops
  imports Unwinds LocalSteps
begin

text \<open>
  The properties of the bytecode loop.
\<close>

text \<open>The loop is the iteration of single steps. It returns an answer or fails exactly when finitely many
  steps lead to that answer or that failure, each step going on at the method and the bytecode that the one
  before left; it does not return exactly when no finite sequence of steps ends.\<close>

lemma dispatch_is_iterated_step: "dispatch_from P m bci im = Some r \<longleftrightarrow> ends P m bci im r"
  using ends_dispatch dispatch_ends by blast

text \<open>
  C16: an unhandled error. The handlers armed in the frames of the stack are collected innermost first, each
  once, and every frame is disarmed before the first of them runs; they run on the unchanged frames. An error
  inside one of them finds the flag set and runs nothing.\<close>

theorem unhandled_error_disarms_frames:
  assumes "stack_ok im fps" and "\<not> im_curtailing im"
  shows "\<exists>im'. run_curtailment_blocks_on_error P im =
      cbind (run_blocks P (map (handler_of im) (filter (armed im) fps)) im') (\<lambda>im. returns (im\<lparr>im_curtailing := False\<rparr>))
    \<and> stack_ok im' fps \<and> filter (armed im') fps = [] \<and> im_objs im' = im_objs im
    \<and> (\<forall>i. (\<forall>fp \<in> set fps. i \<noteq> fp + 6) \<longrightarrow> im_slots im' ! i = im_slots im ! i)
    \<and> run_curtailment_blocks_on_error P im' = returns im'"
proof -
  let ?im = "im\<lparr>im_curtailing := True\<rparr>"
  have ok: "stack_ok ?im ([] @ fps)" and ne: "fps \<noteq> []" and fp: "im_fp im = hd fps"
    using assms(1) by (simp_all add: stack_ok_def machine_ok_def)
  from ne fp have "im_fp im \<in> set fps" by simp
  then have "im_fp im < 2 ^ 22" using stack_ok_reads(13) [OF assms(1)] by simp
  then have not_entry: "im_fp im \<noteq> i64_as_usize ENTRY_FRAME_SENTINEL"
    by (simp add: ENTRY_FRAME_SENTINEL_def i64_as_usize_def)
  have same: "handler_of ?im = handler_of im" "armed ?im = armed im" by (auto simp: armed_def fun_eq_iff)
  from disarm_frames_chain [OF ok ne, of "[]"] same obtain im' where im':
    "disarm_frames (hd fps) [] ?im = returns (im', map (handler_of im) (filter (armed im) fps))"
    "stack_ok im' fps" "filter (armed im') fps = []" "im_objs im' = im_objs im"
    "\<forall>i. (\<forall>fp \<in> set fps. i \<noteq> fp + 6) \<longrightarrow> im_slots im' ! i = im_slots im ! i" "im_curtailing im'" by auto
  with assms(2) not_entry fp show ?thesis
    by (intro exI [of _ im']) (simp add: run_curtailment_blocks_on_error_def Let_def)
qed

theorem unhandled_error_disarms_frames_witness:
  "\<exists>im'. run_curtailment_blocks_on_error example_prims example_machine =
      cbind (run_blocks example_prims [109] im') (\<lambda>im. returns (im\<lparr>im_curtailing := False\<rparr>))
    \<and> \<not> armed im' 9 \<and> run_curtailment_blocks_on_error example_prims im' = returns im'"
proof -
  have "\<not> im_curtailing example_machine" by (simp add: example_machine_def)
  moreover have "\<not> armed example_machine 1"
    using example_frames(6) by (simp add: armed_def example_nil)
  ultimately show ?thesis
    using unhandled_error_disarms_frames [OF example_stack_ok, of example_prims] example_frames(1,5)
    by (auto simp: filter_empty_conv)
qed

text \<open>
  C15: the bytecodes that stay in their frame. A push, a pop, a store into a temporary, a context, an instance
  variable or a global, a jump, a branch on a boolean, or a new closure always returns; when it does not fail it
  goes on in the same method and frame, and every frame of the stack is as well formed as before.\<close>

theorem local_bytecodes_keep_frames:
  assumes "stack_ok im fps" and "im_slots im ! im_fp im = m" and "local_instr m i im"
  shows "\<exists>r. exec P m bci i next im = Some r
    \<and> (\<forall>im' fl. r = Inr (im', fl) \<longrightarrow> stack_ok im' fps \<and> im_slots im' ! im_fp im' = m \<and> (\<exists>b. fl = Next m b))"
proof -
  have "still m fps im" using assms(1,2) by (simp add: still_def)
  from exec_local [OF this assms(3), of P bci "next"] show ?thesis
    by (cases "exec P m bci i next im") (auto simp: goes_on_def ans_def still_def)
qed

theorem local_bytecodes_keep_frames_witness:
  "\<exists>im'. exec example_prims 105 0 PushSelf 1 example_machine = returns (im', Next 105 1)
     \<and> stack_ok im' [9, 1] \<and> im_sp im' = 17"
proof -
  have m: "im_slots example_machine ! im_fp example_machine = 105" by (simp add: example_machine_def example_stack_def)
  have rs: "receiver_slot (im_objs example_machine) (im_stack example_machine) 9 = Inr 8"
    using stack_ok_reads(3) [OF example_stack_ok, of 9] example_methods
    by (simp add: example_machine_def example_stack_def)
  have ex: "exec example_prims 105 0 PushSelf 1 example_machine = returns (pushed [20] example_machine, Next 105 1)"
    using rs by (simp add: exec_def op_push_def frame_receiver_def fr_receiver_def FRAME_RECEIVER_def)
      (simp add: example_machine_def example_stack_def st_get_def push_def try_push_def pushed_def set_stack_def)
  have "local_instr 105 PushSelf example_machine" by (simp add: local_instr_def)
  from local_bytecodes_keep_frames [OF example_stack_ok m this, of example_prims 0 1] ex
  show ?thesis by (auto simp: example_machine_def example_stack_def)
qed

end
