(* ===== verification/Sending.thy ===== *)
theory Sending
  imports Loops
begin

text \<open>
  A send through an inline cache: whatever the state of the site, the method it activates is the one a
  full lookup finds. This composes InlineCache and Lookup with the interpreter's heap.
\<close>

section \<open>The words of the sites\<close>

lemma sites_of_words_of [simp]: "sites_of (words_of sites) = sites"
  by (induction sites) (simp_all add: words_of_def)

lemma ic_view_fields:
  assumes "ic_view m im = Inr vm"
  shows "iv_lk vm = im_lk im" "mt_ics (im_objs im) m = Inr (iv_ics vm)" "iv_arrays vm = oop_arrays (im_objs im)"
    "mt_holder (im_objs im) m = Inr (iv_holder vm)" "iv_sites vm = sites_of (the (oop_arrays (im_objs im) (iv_ics vm)))"
    "oop_arrays (im_objs im) (iv_ics vm) \<noteq> None"
  using assms by (auto simp: ic_view_def Let_def rbind_Inr_iff expect_def split: option.splits)

section \<open>What a transition leaves alone\<close>

text \<open>Everything but the caches: the stack, the registers, the environment, every object that is not an
  array, and what a lookup or a class test answers.\<close>

definition caches_only :: "imach \<Rightarrow> imach \<Rightarrow> bool" where
  "caches_only im im' \<longleftrightarrow>
     im' = im\<lparr>im_objs := im_objs im', im_lk := im_lk im', im_barriered := im_barriered im'\<rparr>
     \<and> (\<forall>w ob. im_objs im w = Some ob \<longrightarrow>
          (\<exists>ob'. im_objs im' w = Some ob' \<and> (ho_format ob \<noteq> IndexableOops \<longrightarrow> ob' = ob)
             \<and> ho_format ob' = ho_format ob \<and> ho_klass ob' = ho_klass ob \<and> ho_body ob' = ho_body ob \<and> ho_bytes ob' = ho_bytes ob))
     \<and> im_lk im' = (im_lk im)\<lparr>lv_cache := lv_cache (im_lk im'), lv_header_klass := lv_header_klass (im_lk im')\<rparr>
     \<and> (\<forall>w. im_alloc im (im_objs im) \<noteq> Some w \<longrightarrow> lv_header_klass (im_lk im') w = lv_header_klass (im_lk im) w)"

lemma put_view_keeps:
  assumes "os w = Some ob" and "\<And>ob. os (iv_ics vm) = Some ob \<Longrightarrow> ho_format ob = IndexableOops"
  shows "\<exists>ob'. put_view vm os w = Some ob' \<and> (ho_format ob \<noteq> IndexableOops \<longrightarrow> ob' = ob)
    \<and> ho_format ob' = ho_format ob \<and> ho_klass ob' = ho_klass ob \<and> ho_body ob' = ho_body ob \<and> ho_bytes ob' = ho_bytes ob"
  using assms by (auto simp: put_view_def split: option.splits)


lemma same_lookup_eq: "same_lookup lk lk' \<Longrightarrow> lk' = lk\<lparr>lv_cache := lv_cache lk'\<rparr>"
  by (cases lk; cases lk') (simp add: same_lookup_def)

lemma caches_only_view:
  assumes view: "ic_view m im = Inr vm" and ok: "iv_ics vm' = iv_ics vm" and co: "caches_only im im'"
    and os: "\<exists>ob. im_objs im' (iv_ics vm) = Some ob \<and> ho_tail ob = words_of sites"
  shows "\<exists>vm2. ic_view m im' = Inr vm2 \<and> iv_sites vm2 = sites \<and> iv_lk vm2 = im_lk im'"
proof -
  note f = ic_view_fields [OF view]
  have b: "body_at (im_objs im') m j = body_at (im_objs im) m j" if "body_at (im_objs im) m j = Inr v" for j v
  proof -
    from that obtain ob where ob: "im_objs im m = Some ob" by (auto simp: body_at_def expect_def rbind_Inr_iff split: option.splits)
    with co obtain ob' where "im_objs im' m = Some ob'" "ho_body ob' = ho_body ob" unfolding caches_only_def by blast
    with ob show ?thesis by (simp add: body_at_def expect_def)
  qed
  from f(2) obtain w where w: "body_at (im_objs im) m METHOD_ICS_INDEX = Inr w" "obj_try_from IndexableOops (im_objs im) w = Some (iv_ics vm)"
    by (auto simp: mt_ics_def rbind_Inr_iff expect_def split: option.splits)
  then have wi: "w = iv_ics vm" "obj_try_from IndexableOops (im_objs im) (iv_ics vm) = Some (iv_ics vm)"
    by (auto simp: obj_try_from_def split: option.splits if_splits)
  then obtain ob where ob: "im_objs im (iv_ics vm) = Some ob" "ho_format ob = IndexableOops"
    by (auto simp: obj_try_from_def split: option.splits if_splits)
  with co os obtain ob' where ob': "im_objs im' (iv_ics vm) = Some ob'" "ho_format ob' = IndexableOops" "ho_tail ob' = words_of sites"
    unfolding caches_only_def by fastforce
  have "mt_ics (im_objs im') m = Inr (iv_ics vm)"
    using b [OF w(1)] w wi ob' by (simp add: mt_ics_def obj_try_from_def expect_def)
  moreover have "mt_holder (im_objs im') m = Inr (iv_holder vm)"
    using f(4) b by (simp add: mt_holder_def)
  moreover have "oop_arrays (im_objs im') (iv_ics vm) = Some (words_of sites)"
    using ob' by (simp add: oop_arrays_def)
  ultimately show ?thesis by (simp add: ic_view_def Let_def expect_def)
qed

lemma ic_resolve_ok:
  assumes view: "ic_view caller im = Inr vm" and ok: "ic_ok vm i b" and k: "iv_is_klass vm k" and ns: "\<not> stale_skew vm i k"
    and fresh: "\<And>a. im_alloc im (im_objs im) = Some a \<Longrightarrow> im_objs im a = None"
  shows "ic_resolve caller i k b im = Some (Inl (Exit 70)) \<or>
    (\<exists>im' vm2. ic_resolve caller i k b im = returns (im', dispatch_target vm b (si_sel (iv_sites vm ! i)) k)
      \<and> caches_only im im' \<and> ic_view caller im' = Inr vm2 \<and> iv_lk vm2 = im_lk im'
      \<and> i < length (iv_sites vm2) \<and> si_sel (iv_sites vm2 ! i) = si_sel (iv_sites vm ! i))"
proof -
  note f = ic_view_fields [OF view]
  obtain vm' where vm': "ic_transition vm i k b = returns (vm', dispatch_target vm b (si_sel (iv_sites vm ! i)) k)" "ic_step_ok vm i b vm'"
    using ic_transition_ok [OF ok k ns] by blast
  then obtain s where s: "iv_sites vm' = (iv_sites vm)[i := s]" "si_sel s = si_sel (iv_sites vm ! i)" "iv_ics vm' = iv_ics vm"
    "same_lookup (im_lk im) (iv_lk vm')" using f(1) by (auto simp: ic_step_ok_def site_step_def)
  have i: "i < length (iv_sites vm)" using ok by (simp add: ic_ok_def)
  let ?a = "iv_alloc vm (iv_arrays vm)"
  let ?fresh = "iv_arrays vm ?a = None \<and> iv_arrays vm' ?a \<noteq> None"
  have ics: "ho_format ob = IndexableOops" if "im_objs im (iv_ics vm) = Some ob" for ob
    using f(6) that by (auto simp: oop_arrays_def split: if_splits)
  obtain obi where obi: "im_objs im (iv_ics vm) = Some obi" using f(6) by (auto simp: oop_arrays_def split: option.splits)
  have fin: "\<exists>im' vm2. im' = (im0\<lparr>im_objs := put_view vm' (im_objs im0), im_barriered := im_barriered im0 @ iv_barriered vm'\<rparr>)
      \<and> caches_only im im' \<and> ic_view caller im' = Inr vm2 \<and> iv_lk vm2 = im_lk im'
      \<and> i < length (iv_sites vm2) \<and> si_sel (iv_sites vm2 ! i) = si_sel (iv_sites vm ! i)"
    if im0: "im0 = im\<lparr>im_objs := im_objs im0, im_lk := im_lk im0\<rparr>" and
      objs: "\<And>w ob. im_objs im w = Some ob \<Longrightarrow> im_objs im0 w = Some ob" and
      lk: "im_lk im0 = (iv_lk vm')\<lparr>lv_header_klass := lv_header_klass (im_lk im0)\<rparr>" and
      hk: "\<And>w. im_alloc im (im_objs im) \<noteq> Some w \<Longrightarrow> lv_header_klass (im_lk im0) w = lv_header_klass (im_lk im) w" for im0
  proof -
    let ?im = "im0\<lparr>im_objs := put_view vm' (im_objs im0), im_barriered := im_barriered im0 @ iv_barriered vm'\<rparr>"
    have lk': "im_lk im0 = (im_lk im)\<lparr>lv_cache := lv_cache (im_lk im0), lv_header_klass := lv_header_klass (im_lk im0)\<rparr>"
      using same_lookup_eq [OF s(4)] lk by (cases "im_lk im"; cases "im_lk im0"; cases "iv_lk vm'") simp
    have "ho_format ob = IndexableOops" if "im_objs im0 (iv_ics vm') = Some ob" for ob
      using objs [OF obi] ics [OF obi] that s(3) by simp
    then have co: "caches_only im ?im"
      unfolding caches_only_def
      using lk' hk put_view_keeps [OF objs, where vm = vm'] im0 by (cases im; cases im0) simp
    have "\<exists>ob. im_objs ?im (iv_ics vm) = Some ob \<and> ho_tail ob = words_of (iv_sites vm')"
      using objs [OF obi] s(3) by (simp add: put_view_def)
    from caches_only_view [OF view s(3) co this] show ?thesis using co s i by auto
  qed
  show ?thesis
  proof (cases ?fresh)
    case False
    let ?im0 = "im\<lparr>im_lk := iv_lk vm'\<rparr>"
    have "lv_header_klass (iv_lk vm') = lv_header_klass (im_lk im)" using same_lookup_eq [OF s(4)] by (cases "im_lk im"; cases "iv_lk vm'") simp
    then have "\<exists>im' vm2. im' = (?im0\<lparr>im_objs := put_view vm' (im_objs ?im0), im_barriered := im_barriered ?im0 @ iv_barriered vm'\<rparr>)
        \<and> caches_only im im' \<and> ic_view caller im' = Inr vm2 \<and> iv_lk vm2 = im_lk im'
        \<and> i < length (iv_sites vm2) \<and> si_sel (iv_sites vm2 ! i) = si_sel (iv_sites vm ! i)"
      by (intro fin) simp_all
    then show ?thesis
      using False vm'(1) view by (auto simp: ic_resolve_def Let_def)
  next
    case True
    show ?thesis
    proof (cases "im_alloc im (im_objs im)")
      case None
      then show ?thesis using True vm'(1) view by (simp add: ic_resolve_def Let_def new_object_def)
    next
      case (Some a)
      let ?im0 = "im\<lparr>im_objs := (im_objs im)(a \<mapsto> \<lparr>ho_klass = im_array_klass im, ho_format = IndexableOops, ho_body = [],
                  ho_tail = the (iv_arrays vm' ?a), ho_bytes = []\<rparr>),
                im_lk := (iv_lk vm')\<lparr>lv_header_klass := (lv_header_klass (iv_lk vm'))(a := im_array_klass im)\<rparr>\<rparr>"
      have "lv_header_klass (iv_lk vm') = lv_header_klass (im_lk im)" using same_lookup_eq [OF s(4)] by (cases "im_lk im"; cases "iv_lk vm'") simp
      then have "\<exists>im' vm2. im' = (?im0\<lparr>im_objs := put_view vm' (im_objs ?im0), im_barriered := im_barriered ?im0 @ iv_barriered vm'\<rparr>)
        \<and> caches_only im im' \<and> ic_view caller im' = Inr vm2 \<and> iv_lk vm2 = im_lk im'
        \<and> i < length (iv_sites vm2) \<and> si_sel (iv_sites vm2 ! i) = si_sel (iv_sites vm ! i)"
        by (intro fin) (use fresh [OF Some] Some in auto)
      then show ?thesis
        using True vm'(1) view Some by (simp add: ic_resolve_def Let_def new_object_def)
    qed
  qed
qed


section \<open>The send\<close>

text \<open>The state of a send: the site, its view, the receiver below the arguments and its class. A
  monomorphic site's target is a method in the heap or the id of compiled code; the next object to be allocated
  is not there yet.\<close>

definition sending :: "imach \<Rightarrow> oop \<Rightarrow> ic_vm \<Rightarrow> nat \<Rightarrow> bool \<Rightarrow> nat \<Rightarrow> oop \<Rightarrow> bool" where
  "sending im caller vm i b argc k \<longleftrightarrow>
     im_method im = Some caller \<and> ic_view caller im = Inr vm \<and> ic_ok vm i b \<and> iv_is_klass vm k
     \<and> si_argc (iv_sites vm ! i) = Inr (int argc)
     \<and> argc < im_sp im \<and> im_sp im \<le> length (im_slots im)
     \<and> klass_of (im_lk im) (im_slots im ! (im_sp im - argc - 1)) = Inr k
     \<and> (iv_is_klass vm (si_guard (iv_sites vm ! i)) \<longrightarrow>
          is_smi (si_target (iv_sites vm ! i))
          \<or> iv_is_method vm (si_target (iv_sites vm ! i)) \<and> is_method (im_objs im) (si_target (iv_sites vm ! i)))
     \<and> (\<forall>a. im_alloc im (im_objs im) = Some a \<longrightarrow> im_objs im a = None \<and> a \<noteq> im_slots im ! (im_sp im - argc - 1))"

lemma send_receiver_ok:
  assumes "argc < im_sp im" "im_sp im \<le> length (im_slots im)" "klass_of (im_lk im) (im_slots im ! (im_sp im - argc - 1)) = Inr k"
  shows "send_receiver argc im = Inr (im_slots im ! (im_sp im - argc - 1), k)"
proof -
  have "im_sp im - Suc argc < length (im_slots im)" using assms(1,2) by linarith
  then show ?thesis using assms by (simp add: send_receiver_def usub_def get_def st_get_def)
qed

lemma caches_only_refl [simp]: "caches_only im im"
  by (simp add: caches_only_def)

lemma caches_only_sel:
  assumes "caches_only im im'"
  shows "im_stack im' = im_stack im" "im_method im' = im_method im" "im_bci im' = im_bci im"
    "lv_env (im_lk im') = lv_env (im_lk im)" "lv_smi_klass (im_lk im') = lv_smi_klass (im_lk im)"
proof -
  have e: "im' = im\<lparr>im_objs := im_objs im', im_lk := im_lk im', im_barriered := im_barriered im'\<rparr>"
    and l: "im_lk im' = (im_lk im)\<lparr>lv_cache := lv_cache (im_lk im'), lv_header_klass := lv_header_klass (im_lk im')\<rparr>"
    using assms by (simp_all add: caches_only_def)
  show "im_stack im' = im_stack im" "im_method im' = im_method im" "im_bci im' = im_bci im" by (subst e, simp)+
  show "lv_env (im_lk im') = lv_env (im_lk im)" "lv_smi_klass (im_lk im') = lv_smi_klass (im_lk im)" by (subst l, simp)+
qed

lemma send_miss_ok:
  assumes s: "sending im caller vm i b argc k" and ns: "\<not> stale_skew vm i k"
  shows "send_miss P caller argc i k b im = Some (Inl (Exit 70)) \<or>
    (\<exists>im'. caches_only im im' \<and> send_miss P caller argc i k b im =
       (case dispatch_target vm b (si_sel (iv_sites vm ! i)) k of
          Some m \<Rightarrow> activate_method P m argc im' | None \<Rightarrow> dnu P k (si_sel (iv_sites vm ! i)) argc im'))"
proof -
  have view: "ic_view caller im = Inr vm" and ok: "ic_ok vm i b" and k: "iv_is_klass vm k"
    and fresh: "\<forall>a. im_alloc im (im_objs im) = Some a \<longrightarrow> im_objs im a = None"
    using s by (auto simp: sending_def)
  from ic_resolve_ok [OF view ok k ns] fresh
  consider "ic_resolve caller i k b im = Some (Inl (Exit 70))"
    | im' vm2 where "ic_resolve caller i k b im = returns (im', dispatch_target vm b (si_sel (iv_sites vm ! i)) k)"
      "caches_only im im'" "ic_view caller im' = Inr vm2" "iv_lk vm2 = im_lk im'" "i < length (iv_sites vm2)"
      "si_sel (iv_sites vm2 ! i) = si_sel (iv_sites vm ! i)" by blast
  then show ?thesis
  proof cases
    case 1
    then show ?thesis by (simp add: send_miss_def)
  next
    case 2
    note r = 2(1) and co = 2(2) and v = 2(3-6)
    note c = caches_only_sel [OF co]
    have "env_is_symbol (lv_env (im_lk im)) (si_sel (iv_sites vm ! i))"
      using ok ic_view_fields(1) [OF view] by (auto simp: ic_ok_def iv_wf_def)
    then have sel: "si_selector vm2 (iv_sites vm2 ! i) = Inr (si_sel (iv_sites vm ! i))"
      using v c by (simp add: si_selector_def symbol_try_from_def expect_def)
    let ?r = "im_slots im ! (im_sp im - argc - 1)"
    have "im_alloc im (im_objs im) \<noteq> Some ?r" using s by (auto simp: sending_def)
    then have "lv_header_klass (im_lk im') ?r = lv_header_klass (im_lk im) ?r" using co by (simp add: caches_only_def)
    then have "klass_of (im_lk im') ?r = klass_of (im_lk im) ?r" using c(5) by (simp add: klass_of_def)
    then have "klass_of (im_lk im') ?r = Inr k" using s by (simp add: sending_def)
    then have rc: "send_receiver argc im' = Inr (?r, k)"
      using send_receiver_ok [of argc im' k] s c(1) by (simp add: sending_def)
    have am: "active_method im' = Inr caller" using s c(2) by (simp add: sending_def active_method_def expect_def)
    have "send_miss P caller argc i k b im =
       (case dispatch_target vm b (si_sel (iv_sites vm ! i)) k of
          Some m \<Rightarrow> activate_method P m argc im' | None \<Rightarrow> dnu P k (si_sel (iv_sites vm ! i)) argc im')"
      using r v(1,3) sel rc am by (simp add: send_miss_def ic_at_def split: option.split)
    then show ?thesis using co by blast
  qed
qed

text \<open>
  C5: a send. With a consistent inline cache, a send activates the method that a full lookup of the site's
  selector finds from the receiver's class (from the superclass of the caller's holder for a super send),
  whatever the state of the site and of the lookup cache, and sends \<open>doesNotUnderstand:\<close> when the lookup finds
  none; before that it changes nothing but the caches. The heap may run out. The case of a stale monomorphic
  site that meets a second class is excluded.\<close>

theorem send_activates_looked_up_method:
  assumes "sending im caller vm i b argc k" and "\<not> stale_skew vm i k"
  shows "send_generic P argc i b im = Some (Inl (Exit 70)) \<or>
    (\<exists>im'. caches_only im im' \<and> send_generic P argc i b im =
       (case dispatch_target vm b (si_sel (iv_sites vm ! i)) k of
          Some m \<Rightarrow> activate_method P m argc im' | None \<Rightarrow> dnu P k (si_sel (iv_sites vm ! i)) argc im'))"
proof -
  let ?s = "iv_sites vm ! i"
  have view: "ic_view caller im = Inr vm" and ok: "ic_ok vm i b" and i: "i < length (iv_sites vm)" and k: "iv_is_klass vm k"
    using assms(1) by (auto simp: sending_def ic_ok_def)
  obtain e where e: "meta_epoch ?s e" using ok by (auto simp: ic_ok_def site_ok_def)
  let ?hit = "si_guard ?s = k \<and> e = lv_epoch (im_lk im)"
  have rc: "send_receiver argc im = Inr (im_slots im ! (im_sp im - argc - 1), k)"
    using assms(1) by (intro send_receiver_ok) (simp_all add: sending_def)
  have unf: "send_generic P argc i b im =
    (if ?hit \<and> smi_try_from (si_target ?s) = None
     then cbind (Some (lift_res (expect (obj_try_from Method (im_objs im) (si_target ?s))))) (\<lambda>m. activate_method P m argc im)
     else send_miss P caller argc i k b im)"
    using assms(1) view i e rc
    by (simp add: send_generic_def sending_def active_method_def expect_def ic_at_def meta_epoch_def)
  show ?thesis
  proof (cases "?hit \<and> smi_try_from (si_target ?s) = None")
    case True
    then have m: "iv_is_method vm (si_target ?s)" "is_method (im_objs im) (si_target ?s)"
      using assms(1) k by (auto simp: sending_def smi_try_from_def split: if_splits)
    then have "obj_try_from Method (im_objs im) (si_target ?s) = Some (si_target ?s)"
      by (auto simp: obj_try_from_def split: option.splits if_splits)
    moreover have "dispatch_target vm b (si_sel ?s) k = Some (si_target ?s)"
      using klass_site [OF ok] True m k e ic_view_fields(1) [OF view] by (auto simp: meta_epoch_def)
    ultimately have "send_generic P argc i b im = (case dispatch_target vm b (si_sel ?s) k of
        Some m \<Rightarrow> activate_method P m argc im | None \<Rightarrow> dnu P k (si_sel ?s) argc im)"
      using True by (simp add: unf expect_def)
    then show ?thesis using caches_only_refl by blast
  next
    case False
    then have "send_generic P argc i b im = send_miss P caller argc i k b im" unfolding unf by (rule if_not_P)
    then show ?thesis using send_miss_ok [OF assms] by simp
  qed
qed


text \<open>Nil is sent a message with one argument at an empty site of the method \<open>101\<close>.\<close>

definition sending_machine :: "lk_vm \<Rightarrow> imach" where
  "sending_machine lk = example_machine\<lparr>im_lk := lk, im_method := Some 101,
     im_stack := example_stack\<lparr>ps_slots := (ps_slots example_stack)[16 := 1, 17 := 20], ps_sp := 18\<rparr>,
     im_objs := example_objs(101 \<mapsto> \<lparr>ho_klass = 17, ho_format = Method, ho_body = [1, 1, 0, 0, 0, 1, 0x4001], ho_tail = [], ho_bytes = []\<rparr>,
       0x4001 \<mapsto> \<lparr>ho_klass = 17, ho_format = IndexableOops, ho_body = [], ho_tail = [5, 4, 1, 1], ho_bytes = []\<rparr>)\<rparr>"

theorem send_activates_looked_up_method_witness:
  "\<exists>lk es. install_method example_lk 17 5 101 = returns (lk, es)
     \<and> (send_generic example_prims 1 0 False (sending_machine lk) = Some (Inl (Exit 70))
        \<or> (\<exists>im'. caches_only (sending_machine lk) im'
             \<and> send_generic example_prims 1 0 False (sending_machine lk) = activate_method example_prims 101 1 im'))"
proof -
  obtain lk es where lk: "install_method example_lk 17 5 101 = returns (lk, es)" "cache_coherent lk"
    "lookup_uncached lk 21 5 = returns (Some 101)" "lookup_uncached lk 17 5 = returns (Some 101)"
    "\<forall>k. lv_classes lk k \<noteq> None \<longleftrightarrow> k = 17 \<or> k = 21" "lv_env lk = example_env" "lv_epoch lk = 1"
    using example_installed .
  have "lv_header_klass lk = (\<lambda>_. 17)"
  proof -
    have c: "lv_classes example_lk 17 = Some \<lparr>ko_methods = None, ko_super = 1\<rparr>"
      "lv_methods example_lk 101 = Some \<lparr>mo_holder = 1, mo_is_block = False, mo_literals = [105, 8]\<rparr>"
      "lv_epoch example_lk + 1 < 2 ^ 24" by (simp_all add: example_lk_def)
    note f = example_lk_facts
    obtain d ms es' where "install_method example_lk 17 5 101 = returns (installed example_lk 17 \<lparr>ko_methods = None, ko_super = 1\<rparr> d ms, es')"
      using install_method_ok [OF f(1) c(1) f(2,3) c(2) f(5) c(3)] by blast
    then show ?thesis using lk(1) by (simp add: installed_def) (simp add: example_lk_def)
  qed
  let ?im = "sending_machine lk"
  let ?vm = "\<lparr>iv_lk = lk, iv_ics = 0x4001, iv_sites = [\<lparr>si_sel = 5, si_meta = 4, si_guard = 1, si_target = 1\<rparr>], iv_holder = 1,
     iv_arrays = oop_arrays (im_objs ?im), iv_alloc = (\<lambda>_. case im_alloc ?im (im_objs ?im) of Some a \<Rightarrow> a | None \<Rightarrow> 0), iv_barriered = []\<rparr>"
  have view: "ic_view 101 ?im = Inr ?vm"
    by (simp add: ic_view_def mt_ics_def mt_holder_def body_at_def METHOD_ICS_INDEX_def METHOD_HOLDER_INDEX_def
        sending_machine_def obj_try_from_def oop_arrays_def expect_def Let_def)
  have site: "si_meta_value (iv_sites ?vm ! 0) = Inr 1" by (simp add: si_meta_value_def smi_try_from_def) code_simp
  then have argc: "si_argc (iv_sites ?vm ! 0) = Inr 1" and ep: "meta_epoch (iv_sites ?vm ! 0) 0"
    using si_argc_value si_epoch_value by (auto simp: meta_epoch_def)
  have wf: "iv_wf ?vm False 5"
  proof -
    have "iv_wf (example_iv lk) False 5" using example_iv_ok(1) [OF lk(2-7)] by (simp add: ic_ok_def example_iv_def)
    then show ?thesis by (simp add: iv_wf_def example_iv_def)
  qed
  have "ic_ok ?vm 0 False"
    using wf ep lk(6) by (auto simp: ic_ok_def site_ok_def example_env_def)
  moreover have k: "iv_is_klass ?vm 17" "\<not> iv_is_klass ?vm 1" using lk(5) by auto
  moreover have "klass_of lk 1 = Inr 17"
    using \<open>lv_header_klass lk = _\<close> by (simp add: klass_of_def is_smi_def is_mem_def oop_tag_def tag_defs)
  ultimately have "sending ?im 101 ?vm 0 False 1 17"
    using view argc unfolding sending_def
    by (auto simp: sending_machine_def example_machine_def example_stack_def example_alloc_def split: if_splits)
  moreover have "\<not> stale_skew ?vm 0 17" using k by (simp add: stale_skew_def)
  moreover have "dispatch_target ?vm False 5 17 = Some 101" using lk(4) by (simp add: dispatch_target_def lookup_answer_def)
  ultimately show ?thesis using send_activates_looked_up_method [of ?im 101 ?vm 0 False 1 17 example_prims] lk(1) by auto
qed

end
