(* ===== verification/MethodFlags.thy ===== *)
theory MethodFlags
  imports FrameChain
begin

unbundle bit_operations_syntax

text \<open>
  The packed flags word of a compiled method (\<open>MethodOop::set_flags\<close> and its readers,
  \<open>src/src/bytecode/method.rs\<close>).
\<close>

lemma bit_int_bound: "n < 2 ^ w \<Longrightarrow> bit (int n) k \<Longrightarrow> k < w"
proof -
  assume n: "n < 2 ^ w" and b: "bit (int n) k"
  then have "take_bit w n = n" by (simp add: take_bit_nat_eq_self)
  with b have "bit (take_bit w n) k" by (simp add: bit_of_nat_iff_bit)
  then show "k < w" by (simp add: bit_take_bit_iff)
qed

lemma flag_mask_bits [simp]:
  "bit METHOD_FLAGS_ARGC_MASK k \<longleftrightarrow> k < 4" "bit METHOD_FLAGS_NTEMPS_MASK k \<longleftrightarrow> 4 \<le> k \<and> k < 12"
  "bit METHOD_FLAGS_HAS_CTX_MASK k \<longleftrightarrow> k = 12" "bit METHOD_FLAGS_IS_BLOCK_MASK k \<longleftrightarrow> k = 13"
  "bit METHOD_FLAGS_PRIM_FAILS_MASK k \<longleftrightarrow> k = 14" "bit METHOD_FLAGS_CAPTURES_CTX_MASK k \<longleftrightarrow> k = 15"
  "bit METHOD_FLAGS_NCTX_MASK k \<longleftrightarrow> 16 \<le> k \<and> k < 24"
proof -
  have m: "bit (2 ^ n - 1 :: int) j \<longleftrightarrow> j < n" for n j by (simp add: bit_mask_iff flip: mask_eq_exp_minus_1)
  show "bit METHOD_FLAGS_ARGC_MASK k \<longleftrightarrow> k < 4" "bit METHOD_FLAGS_NTEMPS_MASK k \<longleftrightarrow> 4 \<le> k \<and> k < 12"
    "bit METHOD_FLAGS_HAS_CTX_MASK k \<longleftrightarrow> k = 12" "bit METHOD_FLAGS_IS_BLOCK_MASK k \<longleftrightarrow> k = 13"
    "bit METHOD_FLAGS_PRIM_FAILS_MASK k \<longleftrightarrow> k = 14" "bit METHOD_FLAGS_CAPTURES_CTX_MASK k \<longleftrightarrow> k = 15"
    "bit METHOD_FLAGS_NCTX_MASK k \<longleftrightarrow> 16 \<le> k \<and> k < 24"
    unfolding METHOD_FLAGS_ARGC_MASK_def METHOD_FLAGS_NTEMPS_MASK_def METHOD_FLAGS_HAS_CTX_MASK_def METHOD_FLAGS_IS_BLOCK_MASK_def
      METHOD_FLAGS_PRIM_FAILS_MASK_def METHOD_FLAGS_CAPTURES_CTX_MASK_def METHOD_FLAGS_NCTX_MASK_def bit_push_bit_iff m bit_1_iff
    by auto
qed

lemma nonzero_flag: "(\<And>k. bit msk k \<longleftrightarrow> k = b) \<Longrightarrow> v AND msk \<noteq> 0 \<longleftrightarrow> bit v b" for v msk :: int
  by (auto simp: bit_eq_iff [of "v AND msk" 0] bit_and_iff)

lemma pack_flags_bits:
  assumes "pack_flags argc ntemps has_ctx is_block prim_fails captures_ctx nctx = Inr v"
  shows "argc < 2 ^ 4" "ntemps < 2 ^ 8" "nctx < 2 ^ 8"
    "bit v k \<longleftrightarrow> bit (int argc) k \<or> 4 \<le> k \<and> bit (int ntemps) (k - 4) \<or> has_ctx \<and> k = 12 \<or> is_block \<and> k = 13 \<or> prim_fails \<and> k = 14
      \<or> captures_ctx \<and> k = 15 \<or> 16 \<le> k \<and> bit (int nctx) (k - 16)"
  using assms
  by (auto simp: pack_flags_def guard_res_def Let_def bit_or_iff bit_push_bit_iff split: if_splits)

lemma pack_flags_fields:
  assumes p: "pack_flags argc ntemps has_ctx is_block prim_fails captures_ctx nctx = Inr v"
  shows "nat (v AND METHOD_FLAGS_ARGC_MASK) = argc" "nat (drop_bit 4 (v AND METHOD_FLAGS_NTEMPS_MASK)) = ntemps"
    "nat (drop_bit 16 (v AND METHOD_FLAGS_NCTX_MASK)) = nctx"
    "v AND METHOD_FLAGS_HAS_CTX_MASK \<noteq> 0 \<longleftrightarrow> has_ctx" "v AND METHOD_FLAGS_IS_BLOCK_MASK \<noteq> 0 \<longleftrightarrow> is_block"
    "v AND METHOD_FLAGS_PRIM_FAILS_MASK \<noteq> 0 \<longleftrightarrow> prim_fails" "v AND METHOD_FLAGS_CAPTURES_CTX_MASK \<noteq> 0 \<longleftrightarrow> captures_ctx"
proof -
  note b = pack_flags_bits [OF p]
  note w = bit_int_bound [OF b(1)] bit_int_bound [OF b(2)] bit_int_bound [OF b(3)]
  have "v AND METHOD_FLAGS_ARGC_MASK = int argc"
    by (rule bit_eqI) (use w in \<open>auto simp: bit_and_iff b(4)\<close>)
  then show "nat (v AND METHOD_FLAGS_ARGC_MASK) = argc" by simp
  have "drop_bit 4 (v AND METHOD_FLAGS_NTEMPS_MASK) = int ntemps"
    by (rule bit_eqI) (auto simp: bit_and_iff bit_drop_bit_eq b(4) dest: w)
  then show "nat (drop_bit 4 (v AND METHOD_FLAGS_NTEMPS_MASK)) = ntemps" by simp
  have "drop_bit 16 (v AND METHOD_FLAGS_NCTX_MASK) = int nctx"
    by (rule bit_eqI) (auto simp: bit_and_iff bit_drop_bit_eq b(4) dest: w)
  then show "nat (drop_bit 16 (v AND METHOD_FLAGS_NCTX_MASK)) = nctx" by simp
  note n = nonzero_flag [where v = v]
  show "v AND METHOD_FLAGS_HAS_CTX_MASK \<noteq> 0 \<longleftrightarrow> has_ctx" "v AND METHOD_FLAGS_IS_BLOCK_MASK \<noteq> 0 \<longleftrightarrow> is_block"
    "v AND METHOD_FLAGS_PRIM_FAILS_MASK \<noteq> 0 \<longleftrightarrow> prim_fails" "v AND METHOD_FLAGS_CAPTURES_CTX_MASK \<noteq> 0 \<longleftrightarrow> captures_ctx"
    unfolding n [OF flag_mask_bits(3)] n [OF flag_mask_bits(4)] n [OF flag_mask_bits(5)] n [OF flag_mask_bits(6)] b(4)
    using w by fastforce+
qed

lemma pack_flags_range:
  assumes p: "pack_flags argc ntemps has_ctx is_block prim_fails captures_ctx nctx = Inr v"
  shows "- (2 ^ 61) \<le> v" "v < 2 ^ 61"
proof -
  note b = pack_flags_bits [OF p]
  have "take_bit 24 v = v"
    by (rule bit_eqI) (auto simp: bit_take_bit_iff b(4) dest: bit_int_bound [OF b(1)] bit_int_bound [OF b(2)] bit_int_bound [OF b(3)])
  moreover have "0 \<le> take_bit 24 v" "take_bit 24 v < 2 ^ 24" using take_bit_int_less_exp [of 24 v] by simp_all
  ultimately have "0 \<le> v" "v < 2 ^ 24" by simp_all
  then show "- (2 ^ 61) \<le> v" "v < 2 ^ 61" by simp_all
qed

text \<open>
  C25: the flags of a method. \<open>set_flags\<close> stores the argument and temporary counts, the context size
  and the four flags in one small integer, from which every reader gets its own field back; counts
  that do not fit their field stop it.\<close>

theorem set_flags_round_trip:
  assumes "os m = Some ob" and "METHOD_FLAGS_INDEX < length (ho_body ob)"
  shows "if argc < 16 \<and> ntemps < 256 \<and> nctx < 256 then
      (\<exists>os'. set_flags os m argc ntemps has_ctx is_block prim_fails captures_ctx nctx = Inr os'
        \<and> mt_argc os' m = Inr argc \<and> mt_ntemps os' m = Inr ntemps \<and> mt_nctx os' m = Inr nctx
        \<and> mt_has_ctx os' m = Inr has_ctx \<and> mt_is_block os' m = Inr is_block \<and> mt_prim_fails os' m = Inr prim_fails
        \<and> mt_captures_ctx os' m = Inr captures_ctx \<and> (\<forall>w. w \<noteq> m \<longrightarrow> os' w = os w))
    else set_flags os m argc ntemps has_ctx is_block prim_fails captures_ctx nctx = Inl Assert_failed"
proof (cases "pack_flags argc ntemps has_ctx is_block prim_fails captures_ctx nctx")
  case (Inl e)
  then show ?thesis by (auto simp: pack_flags_def guard_res_def set_flags_def Let_def split: if_splits)
next
  case (Inr v)
  note f = pack_flags_fields [OF Inr] and s = mk_smi [OF pack_flags_range [OF Inr]] and b = pack_flags_bits [OF Inr]
  let ?os = "os(m \<mapsto> ob\<lparr>ho_body := (ho_body ob)[METHOD_FLAGS_INDEX := mk_smi v]\<rparr>)"
  have set: "set_flags os m argc ntemps has_ctx is_block prim_fails captures_ctx nctx = Inr ?os"
    using assms by (simp add: set_flags_def Inr set_flags_value_def s set_body_at_def)
  have "flags_value ?os m = Inr v"
    using assms by (simp add: flags_value_def smi_body_def body_at_def s)
  then show ?thesis using b(1-3) f set
    by (simp add: mt_argc_def mt_ntemps_def mt_nctx_def mt_has_ctx_def mt_is_block_def mt_prim_fails_def mt_captures_ctx_def flag_def)
qed

theorem set_flags_round_trip_witness:
  "\<exists>os'. set_flags [101 \<mapsto> \<lparr>ho_klass = 17, ho_format = Method, ho_body = replicate 7 1, ho_tail = [], ho_bytes = []\<rparr>] 101 2 3 True False True False 1
      = Inr os' \<and> mt_argc os' 101 = Inr 2 \<and> mt_ntemps os' 101 = Inr 3 \<and> mt_prim_fails os' 101 = Inr True"
  using set_flags_round_trip [of "[101 \<mapsto> \<lparr>ho_klass = 17, ho_format = Method, ho_body = replicate 7 1, ho_tail = [], ho_bytes = []\<rparr>]" 101
      "\<lparr>ho_klass = 17, ho_format = Method, ho_body = replicate 7 1, ho_tail = [], ho_bytes = []\<rparr>" 2 3 1 True False True False]
  by (auto simp: METHOD_FLAGS_INDEX_def)

end
