(* ===== verification/Handles.thy ===== *)
theory Handles
  imports Oops
begin

text \<open>
  The handle arena (\<open>src/src/memory/handles.rs\<close>): oops held by Rust code across an allocation live in
  slots the collectors rewrite; a handle is an index with the generation of its slot, and dropping a
  scope truncates its slots and bumps their generations, so a handle that outlives its scope is
  detected. Scopes are the saved lengths of the arena. The tracing switch is not modelled.
\<close>

section \<open>Operations\<close>

record handle_arena =
  ha_slots :: "oop list"
  ha_gen :: "u32 list"

record handle =
  hd_index :: u32
  hd_generation :: u32

definition handle_arena_new :: handle_arena where
  "handle_arena_new = \<lparr>ha_slots = [], ha_gen = []\<rparr>"

definition ha_len :: "handle_arena \<Rightarrow> nat" where
  "ha_len a = length (ha_slots a)"

definition ha_is_empty :: "handle_arena \<Rightarrow> bool" where
  "ha_is_empty a \<longleftrightarrow> ha_slots a = []"

text \<open>\<open>for g in &mut gen[from..to] { *g = g.wrapping_add(1) }\<close>.\<close>

definition bump_gens :: "nat \<Rightarrow> nat \<Rightarrow> u32 list \<Rightarrow> u32 list res" where
  "bump_gens from to gs =
     guard_res (from \<le> to \<and> to \<le> length gs) Index_out_of_bounds
       (Inr (take from gs @ map (\<lambda>g. g + 1) (take (to - from) (drop from gs)) @ drop to gs))"

definition reset_to :: "nat \<Rightarrow> handle_arena \<Rightarrow> handle_arena res" where
  "reset_to base_len a =
     (let live_top = length (ha_slots a) in
      if base_len < live_top then
        rbind (bump_gens base_len live_top (ha_gen a)) (\<lambda>gs.
          Inr \<lparr>ha_slots = take base_len (ha_slots a), ha_gen = gs\<rparr>)
      else Inr a)"

text \<open>A scope is its \<open>saved_len\<close>.\<close>

definition scope_enter :: "handle_arena \<Rightarrow> nat" where
  "scope_enter a = ha_len a"

definition scope_handle :: "oop \<Rightarrow> handle_arena \<Rightarrow> (handle \<times> handle_arena) res" where
  "scope_handle v a =
     (let index = length (ha_slots a) in
      rbind (if index < length (ha_gen a) then Inr (ha_gen a ! index, ha_gen a)
             else guard_res (index = length (ha_gen a)) Assert_failed (Inr (0, ha_gen a @ [0]))) (\<lambda>(generation, gs).
        Inr (\<lparr>hd_index = word_of_nat index, hd_generation = generation\<rparr>,
             \<lparr>ha_slots = ha_slots a @ [v], ha_gen = gs\<rparr>)))"

definition scope_drop :: "nat \<Rightarrow> handle_arena \<Rightarrow> handle_arena res" where
  "scope_drop saved_len a =
     guard_res (saved_len \<le> length (ha_slots a)) Assert_failed
       (rbind (bump_gens saved_len (length (ha_slots a)) (ha_gen a)) (\<lambda>gs.
          Inr \<lparr>ha_slots = take saved_len (ha_slots a), ha_gen = gs\<rparr>))"

definition handle_slot :: "handle \<Rightarrow> handle_arena \<Rightarrow> nat res" where
  "handle_slot h a =
     (let i = unat (hd_index h) in
      if i < length (ha_slots a)
      then guard_res (i < length (ha_gen a)) Index_out_of_bounds
             (guard_res (ha_gen a ! i = hd_generation h) Assert_failed (Inr i))
      else Inl Assert_failed)"

definition handle_get :: "handle \<Rightarrow> handle_arena \<Rightarrow> oop res" where
  "handle_get h a =
     rbind (handle_slot h a) (\<lambda>i. guard_res (i < length (ha_slots a)) Index_out_of_bounds (Inr (ha_slots a ! i)))"

definition handle_set :: "handle \<Rightarrow> oop \<Rightarrow> handle_arena \<Rightarrow> handle_arena res" where
  "handle_set h v a =
     rbind (handle_slot h a) (\<lambda>i.
       guard_res (i < length (ha_slots a)) Index_out_of_bounds (Inr (a\<lparr>ha_slots := (ha_slots a)[i := v]\<rparr>)))"

text \<open>A collection rewrites the slots in place and touches nothing else.\<close>

definition gc_rewrite :: "(oop \<Rightarrow> oop) \<Rightarrow> handle_arena \<Rightarrow> handle_arena" where
  "gc_rewrite f a = a\<lparr>ha_slots := map f (ha_slots a)\<rparr>"

section \<open>Histories\<close>

text \<open>
  The life of an arena: a client opens and closes scopes, makes handles, writes through a live one, the
  collectors rewrite the slots, and the recovery from an aborted run resets the arena below the scopes
  it left open. Beside the arena the history keeps what the handles of the open scopes should read and,
  for a handle whose slot was given up, how often that slot had been vacated when it was made.
\<close>

record history =
  hs_arena :: handle_arena
  hs_scopes :: "nat list"
  hs_live :: "(handle \<times> oop) list"
  hs_dead :: "(handle \<times> nat) list"
  hs_vacated :: "nat \<Rightarrow> nat"

definition vacate :: "nat \<Rightarrow> history \<Rightarrow> history" where
  "vacate n s = s\<lparr>hs_live := take n (hs_live s),
     hs_dead := hs_dead s @ map (\<lambda>i. (fst (hs_live s ! i), hs_vacated s i)) [n..<length (hs_live s)],
     hs_vacated := (\<lambda>i. if n \<le> i \<and> i < length (hs_live s) then hs_vacated s i + 1 else hs_vacated s i)\<rparr>"

inductive arena_step :: "history \<Rightarrow> history \<Rightarrow> bool" where
  enter: "arena_step s (s\<lparr>hs_scopes := scope_enter (hs_arena s) # hs_scopes s\<rparr>)"
| mint: "hs_scopes s \<noteq> [] \<Longrightarrow> ha_len (hs_arena s) < 2 ^ 32 \<Longrightarrow> scope_handle v (hs_arena s) = Inr (h, a) \<Longrightarrow>
    arena_step s (s\<lparr>hs_arena := a, hs_live := hs_live s @ [(h, v)]\<rparr>)"
| close: "hs_scopes s = n # ns \<Longrightarrow> scope_drop n (hs_arena s) = Inr a \<Longrightarrow>
    arena_step s ((vacate n s)\<lparr>hs_arena := a, hs_scopes := ns\<rparr>)"
| put: "i < length (hs_live s) \<Longrightarrow> h = fst (hs_live s ! i) \<Longrightarrow> handle_set h v (hs_arena s) = Inr a \<Longrightarrow>
    arena_step s (s\<lparr>hs_arena := a, hs_live := (hs_live s)[i := (h, v)]\<rparr>)"
| collect: "arena_step s (s\<lparr>hs_arena := gc_rewrite f (hs_arena s),
    hs_live := map (\<lambda>(h, v). (h, f v)) (hs_live s)\<rparr>)"
| reset: "reset_to n (hs_arena s) = Inr a \<Longrightarrow>
    arena_step s ((vacate (min n (length (hs_live s))) s)\<lparr>hs_arena := a, hs_scopes := filter (\<lambda>k. k \<le> n) (hs_scopes s)\<rparr>)"

definition history0 :: history where
  "history0 = \<lparr>hs_arena = handle_arena_new, hs_scopes = [], hs_live = [], hs_dead = [], hs_vacated = (\<lambda>_. 0)\<rparr>"

inductive arena_run :: "history \<Rightarrow> bool" where
  start: "arena_run history0"
| step: "arena_run s \<Longrightarrow> arena_step s s' \<Longrightarrow> arena_run s'"

text \<open>The invariant of a history.\<close>

definition arena_inv :: "history \<Rightarrow> bool" where
  "arena_inv s \<longleftrightarrow>
     ha_slots (hs_arena s) = map snd (hs_live s)
     \<and> length (hs_live s) \<le> length (ha_gen (hs_arena s)) \<and> length (hs_live s) \<le> 2 ^ 32
     \<and> (\<forall>i < length (ha_gen (hs_arena s)). ha_gen (hs_arena s) ! i = word_of_nat (hs_vacated s i))
     \<and> (\<forall>i. length (ha_gen (hs_arena s)) \<le> i \<longrightarrow> hs_vacated s i = 0)
     \<and> (\<forall>i < length (hs_live s). unat (hd_index (fst (hs_live s ! i))) = i
          \<and> hd_generation (fst (hs_live s ! i)) = word_of_nat (hs_vacated s i))
     \<and> (\<forall>(h, k) \<in> set (hs_dead s). hd_generation h = word_of_nat k \<and> k < hs_vacated s (unat (hd_index h)))
     \<and> (\<forall>n \<in> set (hs_scopes s). n \<le> length (hs_live s)) \<and> sorted (rev (hs_scopes s))"

lemma bump_gens_Inr:
  "bump_gens from to gs = Inr gs' \<longleftrightarrow>
     from \<le> to \<and> to \<le> length gs \<and> length gs' = length gs
     \<and> (\<forall>i < length gs. gs' ! i = (if from \<le> i \<and> i < to then gs ! i + 1 else gs ! i))"
proof (cases "from \<le> to \<and> to \<le> length gs")
  case True
  define r where "r = take from gs @ map (\<lambda>g. g + 1) (take (to - from) (drop from gs)) @ drop to gs"
  have "min (length gs - from) (to - from) = to - from" using diff_le_mono [of to "length gs" "from"] True by (simp add: min_absorb2)
  then have len: "length r = length gs" using True by (simp add: r_def)
  have nth: "r ! i = (if from \<le> i \<and> i < to then gs ! i + 1 else gs ! i)" if "i < length gs" for i
    using True that by (auto simp: r_def nth_append min_def)
  have q: "gs' = r \<longleftrightarrow> length gs' = length gs \<and> (\<forall>i < length gs. gs' ! i = (if from \<le> i \<and> i < to then gs ! i + 1 else gs ! i))"
    unfolding list_eq_iff_nth_eq [of gs' r] len using nth by (intro conj_cong refl) simp
  have "bump_gens from to gs = Inr r" using True by (simp add: bump_gens_def r_def)
  then have "bump_gens from to gs = Inr gs' \<longleftrightarrow> gs' = r" by auto
  then show ?thesis unfolding q using True by blast
qed (auto simp: bump_gens_def)

lemma vacate_inv:
  assumes inv: "arena_inv s" and n: "n \<le> length (hs_live s)"
    and b: "bump_gens n (length (ha_slots (hs_arena s))) (ha_gen (hs_arena s)) = Inr gs"
    and sc: "\<forall>k \<in> set ns. k \<le> n" "sorted (rev ns)"
  shows "arena_inv ((vacate n s)\<lparr>hs_arena := \<lparr>ha_slots = take n (ha_slots (hs_arena s)), ha_gen = gs\<rparr>, hs_scopes := ns\<rparr>)"
proof -
  note i = inv [unfolded arena_inv_def]
  have len: "length (ha_slots (hs_arena s)) = length (hs_live s)" using i by simp
  note g = b [unfolded bump_gens_Inr len]
  have dead: "hd_generation h = word_of_nat k \<and> k < hs_vacated (vacate n s) (unat (hd_index h))"
    if hk: "(h, k) \<in> set (hs_dead (vacate n s))" for h k
  proof -
    consider "(h, k) \<in> set (hs_dead s)"
      | j where "n \<le> j" "j < length (hs_live s)" "h = fst (hs_live s ! j)" "k = hs_vacated s j"
      using hk by (force simp: vacate_def)
    then show ?thesis
    proof cases
      case 1
      then have "hd_generation h = word_of_nat k" "k < hs_vacated s (unat (hd_index h))" using i by auto
      then show ?thesis by (auto simp: vacate_def)
    next
      case 2
      then have "unat (hd_index h) = j" "hd_generation h = word_of_nat k" using i by auto
      then show ?thesis using 2 by (simp add: vacate_def)
    qed
  qed
  show ?thesis
    unfolding arena_inv_def
  proof (intro conjI)
    show "\<forall>(h, k) \<in> set (hs_dead ((vacate n s)\<lparr>hs_arena := \<lparr>ha_slots = take n (ha_slots (hs_arena s)), ha_gen = gs\<rparr>, hs_scopes := ns\<rparr>)).
      hd_generation h = word_of_nat k
      \<and> k < hs_vacated ((vacate n s)\<lparr>hs_arena := \<lparr>ha_slots = take n (ha_slots (hs_arena s)), ha_gen = gs\<rparr>, hs_scopes := ns\<rparr>) (unat (hd_index h))"
      using dead by auto
  qed (use i n g sc in \<open>auto simp: vacate_def take_map\<close>)
qed

lemma arena_step_inv:
  assumes "arena_step s s'" "arena_inv s"
  shows "arena_inv s'"
  using assms
proof cases
  case enter
  then show ?thesis using assms(2) by (auto simp: arena_inv_def scope_enter_def ha_len_def sorted_append)
next
  case (mint v h a)
  note i = assms(2) [unfolded arena_inv_def]
  let ?n = "length (hs_live s)"
  have len: "length (ha_slots (hs_arena s)) = ?n" "?n \<le> length (ha_gen (hs_arena s))" using i by simp_all
  obtain gs where r: "h = \<lparr>hd_index = word_of_nat ?n, hd_generation = word_of_nat (hs_vacated s ?n)\<rparr>"
    "a = \<lparr>ha_slots = ha_slots (hs_arena s) @ [v], ha_gen = gs\<rparr>" "gs = ha_gen (hs_arena s) @ (if ?n < length (ha_gen (hs_arena s)) then [] else [0])"
    using mint(4) len i by (auto simp: scope_handle_def Let_def split: if_splits)
  have u: "unat (word_of_nat ?n :: u32) = ?n" using mint(3) len by (simp add: unat_of_nat ha_len_def)
  show ?thesis
    unfolding arena_inv_def mint(1) r
    using i len u mint(3) by (auto simp: nth_append ha_len_def less_Suc_eq le_Suc_eq)
next
  case (close n ns a)
  have "n \<le> length (hs_live s)" "\<forall>k \<in> set ns. k \<le> n" "sorted (rev ns)"
    using assms(2) close(2) by (auto simp: arena_inv_def sorted_append)
  moreover obtain gs where "bump_gens n (length (ha_slots (hs_arena s))) (ha_gen (hs_arena s)) = Inr gs"
    "a = \<lparr>ha_slots = take n (ha_slots (hs_arena s)), ha_gen = gs\<rparr>"
    using close(3) by (auto simp: scope_drop_def rbind_Inr_iff guard_res_Inr_iff)
  ultimately show ?thesis using vacate_inv [OF assms(2)] close(1) by simp
next
  case (put i h v a)
  note inv = assms(2) [unfolded arena_inv_def]
  have "unat (hd_index h) = i" using inv put by simp
  then have "a = (hs_arena s)\<lparr>ha_slots := (ha_slots (hs_arena s))[i := v]\<rparr>"
    using put(4) by (auto simp: handle_set_def handle_slot_def Let_def rbind_Inr_iff guard_res_Inr_iff split: if_splits)
  then show ?thesis
    unfolding arena_inv_def put(1) using inv put(2,3) by (auto simp: map_update nth_list_update)
next
  case (collect f)
  then show ?thesis using assms(2) by (auto simp: arena_inv_def gc_rewrite_def case_prod_beta)
next
  case (reset n a)
  let ?m = "min n (length (hs_live s))"
  have len: "length (ha_slots (hs_arena s)) = length (hs_live s)" using assms(2) by (simp add: arena_inv_def)
  have sc: "\<forall>k \<in> set (filter (\<lambda>k. k \<le> n) (hs_scopes s)). k \<le> ?m" "sorted (rev (filter (\<lambda>k. k \<le> n) (hs_scopes s)))"
    using assms(2) by (auto simp: arena_inv_def rev_filter intro: sorted_wrt_filter)
  show ?thesis
  proof (cases "n < length (hs_live s)")
    case True
    then obtain gs where "bump_gens n (length (ha_slots (hs_arena s))) (ha_gen (hs_arena s)) = Inr gs"
      "a = \<lparr>ha_slots = take n (ha_slots (hs_arena s)), ha_gen = gs\<rparr>"
      using reset(2) len by (auto simp: reset_to_def Let_def rbind_Inr_iff)
    then show ?thesis using vacate_inv [OF assms(2), of n gs "filter (\<lambda>k. k \<le> n) (hs_scopes s)"] sc reset(1) True by simp
  next
    case False
    then have "a = hs_arena s" "?m = length (hs_live s)" using reset(2) len by (auto simp: reset_to_def Let_def)
    moreover have "vacate (length (hs_live s)) s = s" by (cases s) (auto simp: vacate_def)
    ultimately have "s' = s\<lparr>hs_scopes := filter (\<lambda>k. k \<le> n) (hs_scopes s)\<rparr>" using reset(1) by simp
    then show ?thesis using assms(2) sc by (auto simp: arena_inv_def)
  qed
qed

lemma arena_run_inv: "arena_run s \<Longrightarrow> arena_inv s"
proof (induction rule: arena_run.induct)
  case start
  show ?case by (simp add: arena_inv_def history0_def handle_arena_new_def)
qed (rule arena_step_inv)

lemma live_handle_slot:
  assumes "arena_inv s" "i < length (hs_live s)"
  shows "handle_slot (fst (hs_live s ! i)) (hs_arena s) = Inr i"
  using assms by (auto simp: arena_inv_def handle_slot_def Let_def)

section \<open>Properties\<close>



end
