(* ===== verification/Spec2Isabelle.thy ===== *)
theory Spec2Isabelle
  imports InlineCache Bytecode OopMaps TypeCheck Scavenger Sending MethodFlags Handles
begin

text \<open>
  A model of the WINARMVM Smalltalk virtual machine (\<open>src/src\<close>), written from its Rust sources.

  \<^bold>\<open>The program.\<close> Smalltalk source is parsed and compiled to bytecode (\<open>frontend\<close>, \<open>bytecode\<close>); methods are
  installed in per-class dictionaries (\<open>oops/method_dict.rs\<close>, \<open>runtime/lookup.rs\<close>) and run by an interpreter
  whose sends go through inline caches (\<open>interpreter/ic.rs\<close>) and a global lookup cache; hot methods are compiled
  to machine code (\<open>compiler\<close>, \<open>codecache\<close>). Objects are tagged words and heap objects (\<open>oops\<close>) in a
  generational heap with a card-marking write barrier (\<open>memory\<close>). An optional type checker (\<open>types\<close>) reads
  annotations.

  \<^bold>\<open>Which theory models what.\<close>
    \<^item> \<open>Prelude\<close>: panics as values, checked machine arithmetic, proof collections.
    \<^item> \<open>Oops\<close>: \<open>oops/layout.rs\<close>, \<open>mod.rs\<close>, \<open>smi.rs\<close>, \<open>mark.rs\<close>. Tags, small integers, mark words. A locale
      \<open>mark_field\<close> states what a packed field promises; every field of the mark word interprets it.
    \<^item> \<open>ObjectHeap\<close>: \<open>oops/heap.rs\<close>, \<open>klass.rs\<close>, \<open>wrappers.rs\<close>. Memory as a map from addresses to words; header,
      body and tail accessors; the field walk of the collectors. The locale \<open>indexed_tail\<close> is the array contract of
      arrays and byte arrays.
    \<^item> \<open>Spaces\<close>: \<open>memory/layout.rs\<close>, \<open>offsets.rs\<close>, \<open>spaces.rs\<close>. The reservation, the spaces, old-generation
      allocation and the object-start table.
    \<^item> \<open>Cards\<close>: \<open>memory/cards.rs\<close>, \<open>store.rs\<close> and \<open>emit_store_field\<close> of \<open>compiler/emit.rs\<close>. The write barrier in the
      runtime and as emitted instructions, both instances of the locale \<open>card_marker\<close>.
    \<^item> \<open>MethodDict\<close>: \<open>oops/method_dict.rs\<close>; the locale \<open>selector_table\<close> is the finite-map contract its clients use.
    \<^item> \<open>Lookup\<close>: \<open>runtime/lookup.rs\<close>, over \<open>MethodDict\<close>.
    \<^item> \<open>InlineCache\<close>: \<open>interpreter/ic.rs\<close>, over \<open>Lookup\<close>.
    \<^item> \<open>Bytecode\<close>: \<open>bytecode/opcode.rs\<close>, \<open>builder.rs\<close>.
    \<^item> \<open>Frames\<close>: \<open>interpreter/stack.rs\<close>, \<open>bytecode/method.rs\<close>, \<open>oops/closure.rs\<close>, \<open>context.rs\<close>, \<open>home_ref.rs\<close>. The process
      stack, the views of a frame, a method, a closure and a context. \<open>Activation\<close>: \<open>interpreter/blocks.rs\<close>, the
      block primitives of \<open>runtime/primitives.rs\<close>, activation in \<open>interpreter/send.rs\<close> and \<open>mod.rs\<close>. \<open>Unwind\<close>:
      \<open>interpreter/unwind.rs\<close>. \<open>Interp\<close>: the bytecodes, sends and the loop of \<open>interpreter/mod.rs\<close> and \<open>send.rs\<close>.
      The state is the record \<open>imach\<close>: the stack, a map from oops to objects, the lookup state, the registers.
    \<^item> \<open>FrameInv\<close> states what a well-formed chain of frames is (\<open>stack_ok\<close>); \<open>FrameSpec\<close>, \<open>HomeRef\<close>, \<open>StackOps\<close> and
      \<open>FrameChain\<close> prove that activations, pushes and pops keep it and that it implies \<open>Frame::verify\<close>;
      \<open>UnwindSpec\<close>, \<open>Unwinding\<close>, \<open>UnwindRun\<close>, \<open>NonLocal\<close> and \<open>Ensuring\<close> follow an unwind over the chain, with the
      handlers it runs as a guest program that returns (\<open>runs_blocks\<close>); \<open>Unwinds\<close>, \<open>MethodFlags\<close> and \<open>Loops\<close> have
      the properties, over \<open>InterpSpec\<close> (the loop as iterated steps) and \<open>LocalSteps\<close> (the bytecodes that stay
      in their frame). \<open>Sending\<close> composes a send with \<open>InlineCache\<close> and \<open>Lookup\<close>.
    \<^item> \<open>Handles\<close>: \<open>memory/handles.rs\<close>, with the histories of an arena as a step relation.
    \<^item> \<open>Scavenge\<close>: \<open>memory/scavenge.rs\<close>, \<open>for_each_root\<close> of \<open>roots.rs\<close>, \<open>stall.rs\<close>, \<open>stats.rs\<close>: the copying collector of
      the young generation, its definitions only. \<open>HeapViews\<close> has the facts that let it size an object while
      classes move, \<open>ScavengeInv\<close> the invariant of a collection in progress, \<open>ScavengeVisit\<close>, \<open>ScavengeCycle\<close>,
      \<open>ScavengeCards\<close> and \<open>ScavengeSpec\<close> the proofs that copying, the Cheney loop, the card scan and the whole trace
      keep it, and \<open>Scavenger\<close> the properties. The locale \<open>evacuation\<close> is what a root walk needs of its visitor.
    \<^item> \<open>Scopes\<close>: \<open>compiler/scopes.rs\<close>, the packed metadata that turns a compiled frame back into interpreter frames.
      The locale \<open>codec\<close> is the contract of a packed format; the LEB128 integers, the value locations and the
      on-stack-replacement slots interpret it.
    \<^item> \<open>RegAlloc\<close>: \<open>compiler/regalloc.rs\<close>, linear scan and resident registers on given live intervals.
    \<^item> \<open>OopMaps\<close>: \<open>compiler/oopmap.rs\<close>, the oop maps of \<open>codecache/nmethod.rs\<close>, the table loop of
      \<open>compiler/driver.rs\<close> and \<open>resolve_frame_loc\<close> of \<open>compiler/scopes.rs\<close>. It composes \<open>RegAlloc\<close> with \<open>Scopes\<close>: what
      the collector scans at a return address, and what the deoptimiser reads there.
    \<^item> \<open>TypeSyntax\<close>: \<open>types/type_expr.rs\<close>.
    \<^item> \<open>Ast\<close>: \<open>frontend/ast.rs\<close>, the trees the type checker reads.
    \<^item> \<open>TypeWorld\<close>: \<open>types/interface.rs\<close>, \<open>subtype.rs\<close>, \<open>send.rs\<close>; subtyping is proved against an inductive relation.
    \<^item> \<open>TypeCheck\<close>: \<open>types/check.rs\<close>, \<open>expr_type.rs\<close>; the locale \<open>walk_checks\<close> is the contract between the walk over a
      body and the checks it makes.

  \<^bold>\<open>Effects.\<close> A panic of the checked build is \<open>Inl\<close>; a loop that may not end is \<open>None\<close> of an option, and the
  theorems that the code answers are stated as such. A moving collection inside an allocation changes addresses
  and nothing else (which \<open>Scavenger\<close> proves of the scavenge); the sources re-read every oop through handles around an allocation, so the models of
  \<open>MethodDict\<close>, \<open>Lookup\<close>, \<open>InlineCache\<close> and \<open>Bytecode\<close> name objects by an oop that stays fixed.

  \<^bold>\<open>Bounds and fuel.\<close> The annotation parser is bounded by two more than the length of the text; the theorem that
  it always answers shows this to be enough. Everything else recurs structurally, by a proved measure or by
  \<open>partial_function\<close>.

  \<^bold>\<open>Not modelled.\<close> The interpreter is modelled with compilation off: entering compiled code, the compiled side of
  an unwind (\<open>interpreter/compiled_call.rs\<close>), on-stack replacement, tracing and the debugger's hooks are left out;
  the primitives other than those that run blocks are an argument of the definitions. The compiler's intermediate
  representation and machine code (but for the store barrier) with the liveness analysis that feeds the register
  allocator, the mark-compact collector, the allocation cascade, foreign interfaces and user interfaces are not
  modelled.
\<close>

end
